(* ===== verification/Prelude.thy ===== *)
theory Prelude
  imports Main "HOL-Library.Word" "HOL-Library.Monad_Syntax"
begin

text \<open>
  Shared vocabulary of the development: the C integer types as words, buffers as byte lists
  with checked access, and the lemmas that make the checked accesses disappear once an index
  is known to be in range.

  A C buffer is the list of the bytes that may be read through its pointer. A read or a write
  outside the list is undefined behaviour in C; here it is the value \<open>None\<close>, and every function
  that touches a buffer is option valued. Memory safety of a function is then the theorem that
  it does not return \<open>None\<close>.
\<close>

unbundle bit_operations_syntax

type_synonym u8 = "8 word"
type_synonym u16 = "16 word"
type_synonym u32 = "32 word"
type_synonym u64 = "64 word"
type_synonym bytes = "u8 list"

named_theorems mem_simps "evaluation of checked buffer accesses"
named_theorems str_simps "evaluation of character constants"

abbreviation ch :: "char \<Rightarrow> u8" where
  "ch c \<equiv> of_char c"

abbreviation lit :: "string \<Rightarrow> bytes" where
  "lit s \<equiv> map of_char s"

subsection \<open>Checked access to a buffer\<close>

definition rd :: "'a list \<Rightarrow> nat \<Rightarrow> 'a option" where
  "rd d i = (if i < length d then Some (d ! i) else None)"

definition wr :: "'a list \<Rightarrow> nat \<Rightarrow> 'a \<Rightarrow> 'a list option" where
  "wr d i v = (if i < length d then Some (d[i := v]) else None)"

definition rd_block :: "'a list \<Rightarrow> nat \<Rightarrow> nat \<Rightarrow> 'a list option" where
  "rd_block d off n = (if off + n \<le> length d then Some (take n (drop off d)) else None)"

definition wr_block :: "'a list \<Rightarrow> nat \<Rightarrow> 'a list \<Rightarrow> 'a list option" where
  "wr_block d off xs =
     (if off + length xs \<le> length d
      then Some (take off d @ xs @ drop (off + length xs) d) else None)"

definition mem_eq :: "bytes \<Rightarrow> nat \<Rightarrow> bytes \<Rightarrow> bool option" where
  "mem_eq d off xs = map_option (\<lambda>ys. ys = xs) (rd_block d off (length xs))"

text \<open>The short-circuit connectives of C on conditions that read memory.\<close>

definition cand :: "bool option \<Rightarrow> bool option \<Rightarrow> bool option" where
  "cand a b = (case a of None \<Rightarrow> None | Some x \<Rightarrow> if x then b else Some False)"

definition cor :: "bool option \<Rightarrow> bool option \<Rightarrow> bool option" where
  "cor a b = (case a of None \<Rightarrow> None | Some x \<Rightarrow> if x then Some True else b)"

lemma cand_Some [simp]: "cand (Some x) b = (if x then b else Some False)"
  by (simp add: cand_def)

lemma cor_Some [simp]: "cor (Some x) b = (if x then Some True else b)"
  by (simp add: cor_def)

lemma cand_None [simp]: "cand None b = None"
  by (simp add: cand_def)

lemma cor_None [simp]: "cor None b = None"
  by (simp add: cor_def)

lemma rd_in [simp, mem_simps]: "i < length d \<Longrightarrow> rd d i = Some (d ! i)"
  by (simp add: rd_def)

lemma rd_out [simp]: "length d \<le> i \<Longrightarrow> rd d i = None"
  by (simp add: rd_def)

lemma rd_eq_Some: "rd d i = Some v \<longleftrightarrow> i < length d \<and> v = d ! i"
  by (auto simp: rd_def)

lemma rd_drop: "k \<le> length d \<Longrightarrow> rd (drop k d) i = rd d (k + i)"
  by (auto simp: rd_def)

lemma rd_take: "i < n \<Longrightarrow> rd (take n d) i = rd d i"
  by (auto simp: rd_def)

lemma wr_in [simp, mem_simps]: "i < length d \<Longrightarrow> wr d i v = Some (d[i := v])"
  by (simp add: wr_def)

lemma wr_eq_Some: "wr d i v = Some e \<longleftrightarrow> i < length d \<and> e = d[i := v]"
  by (auto simp: wr_def)

lemma rd_block_in [simp, mem_simps]:
  "off + n \<le> length d \<Longrightarrow> rd_block d off n = Some (take n (drop off d))"
  by (simp add: rd_block_def)

lemma rd_block_eq_Some:
  "rd_block d off n = Some xs \<longleftrightarrow> off + n \<le> length d \<and> xs = take n (drop off d)"
  by (auto simp: rd_block_def)

lemma rd_block_length: "rd_block d off n = Some xs \<Longrightarrow> length xs = n"
  by (auto simp: rd_block_def split: if_splits)

lemma wr_block_in [mem_simps]:
  "off + length xs \<le> length d \<Longrightarrow>
   wr_block d off xs = Some (take off d @ xs @ drop (off + length xs) d)"
  by (simp add: wr_block_def)

lemma wr_block_length: "wr_block d off xs = Some e \<Longrightarrow> length e = length d"
  by (auto simp: wr_block_def split: if_splits)

lemma wr_block_nth:
  "wr_block d off xs = Some e \<Longrightarrow> i < length d \<Longrightarrow>
   e ! i = (if off \<le> i \<and> i < off + length xs then xs ! (i - off) else d ! i)"
  by (auto simp: wr_block_def nth_append min_def split: if_splits)

lemma mem_eq_in [simp, mem_simps]:
  "off + length xs \<le> length d \<Longrightarrow>
   mem_eq d off xs = Some (take (length xs) (drop off d) = xs)"
  by (simp add: mem_eq_def)

lemma mem_eq_None: "mem_eq d off xs = None \<longleftrightarrow> length d < off + length xs"
  by (auto simp: mem_eq_def rd_block_def)

subsection \<open>Scanning loops\<close>

text \<open>
  \<open>scan p d i e\<close> is the loop \<open>for (; i < e && p(d[i]); i++);\<close>: the first index from \<open>i\<close> on, at
  most \<open>e\<close>, whose byte fails \<open>p\<close>.
\<close>

function scan :: "('a \<Rightarrow> bool) \<Rightarrow> 'a list \<Rightarrow> nat \<Rightarrow> nat \<Rightarrow> nat option" where
  "scan p d i e =
     (if i < e then (case rd d i of None \<Rightarrow> None
        | Some b \<Rightarrow> if p b then scan p d (Suc i) e else Some i)
      else Some i)"
  by pat_completeness auto
termination
  by (relation "measure (\<lambda>(p, d, i, e). e - i)") auto

declare scan.simps [simp del]

lemma scan_Some:
  "e \<le> length d \<Longrightarrow> \<exists>j. scan p d i e = Some j"
proof (induction p d i e rule: scan.induct)
  case (1 p d i e)
  then show ?case by (subst scan.simps) (auto split: option.splits)
qed

lemma scan_bounds:
  "scan p d i e = Some j \<Longrightarrow> i \<le> e \<Longrightarrow> i \<le> j \<and> j \<le> e"
proof (induction p d i e rule: scan.induct)
  case (1 p d i e)
  then show ?case
    by (subst (asm) scan.simps) (fastforce split: if_splits option.splits)
qed

lemma scan_prefix:
  "scan p d i e = Some j \<Longrightarrow> i \<le> k \<Longrightarrow> k < j \<Longrightarrow> p (d ! k)"
proof (induction p d i e rule: scan.induct)
  case (1 p d i e)
  from "1.prems"(1) show ?case
  proof (subst (asm) scan.simps, cases "i < e \<and> i < length d \<and> p (d ! i)")
    case True
    with "1.prems"(1) have s: "scan p d (Suc i) e = Some j"
      by (subst (asm) scan.simps) simp
    show ?thesis
    proof (cases "k = i")
      case False
      with "1.prems" True s "1.IH"[of "d ! i"] show ?thesis by simp
    qed (use True in simp)
  next
    case False
    with "1.prems" have "j = i"
      by (subst (asm) (1) scan.simps) (auto split: if_splits option.splits simp: rd_def)
    with "1.prems" show ?thesis by simp
  qed
qed

lemma scan_stop:
  "scan p d i e = Some j \<Longrightarrow> j < e \<Longrightarrow> \<not> p (d ! j) \<and> j < length d"
proof (induction p d i e rule: scan.induct)
  case (1 p d i e)
  then show ?case
    by (subst (asm) (2) scan.simps)
       (auto split: if_splits option.splits simp: rd_eq_Some)
qed

lemma scan_dropWhile:
  "scan p d i e = Some j \<Longrightarrow> i \<le> e \<Longrightarrow> e \<le> length d \<Longrightarrow>
   take (e - j) (drop j d) = dropWhile p (take (e - i) (drop i d))"
proof (induction p d i e rule: scan.induct)
  case (1 p d i e)
  show ?case
  proof (cases "i < e")
    case False
    with "1.prems" show ?thesis by (subst (asm) scan.simps) simp
  next
    case True
    then have sl: "take (e - i) (drop i d) = d ! i # take (e - Suc i) (drop (Suc i) d)"
      using "1.prems" by (subst Cons_nth_drop_Suc[symmetric]) (auto simp: take_Cons' Suc_diff_Suc)
    show ?thesis
    proof (cases "p (d ! i)")
      case p: True
      with True "1.prems" have "scan p d (Suc i) e = Some j"
        by (subst (asm) scan.simps) simp
      with "1.IH"[OF True _ p] True "1.prems" p show ?thesis unfolding sl by simp
    next
      case False
      with True "1.prems" have "j = i" by (subst (asm) scan.simps) simp
      with False show ?thesis by (simp add: sl)
    qed
  qed
qed

text \<open>A scan over a buffer whose content is known: it stops behind the run \<open>xs\<close>.\<close>

lemma scan_run:
  "list_all p xs \<Longrightarrow> ys = [] \<or> \<not> p (hd ys) \<Longrightarrow> i = length pre \<Longrightarrow> e = length (pre @ xs @ ys) \<Longrightarrow>
   scan p (pre @ xs @ ys) i e = Some (i + length xs)"
proof (induction xs arbitrary: pre i)
  case Nil
  then show ?case by (subst scan.simps) (cases ys; auto simp: rd_def nth_append)
next
  case (Cons x xs)
  have "scan p ((pre @ [x]) @ xs @ ys) (Suc i) e = Some (Suc i + length xs)"
    using Cons by (intro Cons.IH) auto
  with Cons.prems show ?case by (subst scan.simps) (auto simp: rd_def nth_append)
qed

subsection \<open>Returning with a property\<close>

text \<open>
  \<open>returns P m\<close>: the computation \<open>m\<close> meets no memory fault and its value satisfies \<open>P\<close>. The rules in \<open>wp\<close>
  compute what has to hold before, one construct of the code at a time.
\<close>

definition returns :: "('a \<Rightarrow> bool) \<Rightarrow> 'a option \<Rightarrow> bool" where
  "returns P m \<longleftrightarrow> (\<exists>v. m = Some v \<and> P v)"

named_theorems wp "weakest preconditions of the checked computations"

lemma returns_Some [simp, wp]: "returns P (Some v) \<longleftrightarrow> P v"
  by (simp add: returns_def)

lemma returns_None [simp, wp]: "\<not> returns P None"
  by (simp add: returns_def)

lemma returns_bind [wp]: "returns P (m \<bind> f) \<longleftrightarrow> returns (\<lambda>v. returns P (f v)) m"
  by (cases m) simp_all

lemma returns_map [wp]: "returns P (map_option f m) \<longleftrightarrow> returns (\<lambda>v. P (f v)) m"
  by (cases m) simp_all

lemma returns_if [wp]: "returns P (if c then a else b) \<longleftrightarrow> (if c then returns P a else returns P b)"
  by simp

lemma returns_let [wp]: "returns P (let x = e in f x) \<longleftrightarrow> returns P (f e)"
  by simp

lemma returns_rd [wp]: "returns P (rd d i) \<longleftrightarrow> i < length d \<and> P (d ! i)"
  by (auto simp: rd_def)

lemma returns_rd_block [wp]: "returns P (rd_block d p n) \<longleftrightarrow> p + n \<le> length d \<and> P (take n (drop p d))"
  by (auto simp: rd_block_def)

lemma returns_wr [wp]: "returns P (wr d i v) \<longleftrightarrow> i < length d \<and> P (d[i := v])"
  by (auto simp: wr_def)

lemma returns_mem_eq [wp]:
  "returns P (mem_eq d p xs) \<longleftrightarrow> p + length xs \<le> length d \<and> P (take (length xs) (drop p d) = xs)"
  by (simp add: mem_eq_def returns_map returns_rd_block)

lemma returns_cand [wp]: "returns P (cand a b) \<longleftrightarrow> returns (\<lambda>x. if x then returns P b else P False) a"
  by (cases a) simp_all

lemma returns_cor [wp]: "returns P (cor a b) \<longleftrightarrow> returns (\<lambda>x. if x then P True else returns P b) a"
  by (cases a) simp_all

lemma returns_mono: "returns Q m \<Longrightarrow> (\<And>v. m = Some v \<Longrightarrow> Q v \<Longrightarrow> P v) \<Longrightarrow> returns P m"
  by (auto simp: returns_def)

lemma returns_scan:
  assumes "e \<le> length d" and "i \<le> e"
    and "\<And>j. scan p d i e = Some j \<Longrightarrow> i \<le> j \<Longrightarrow> j \<le> e \<Longrightarrow> P j"
  shows "returns P (scan p d i e)"
  using scan_Some[OF assms(1)] scan_bounds assms(2,3) unfolding returns_def by metis

lemma returns_exists: "returns P m \<Longrightarrow> \<exists>v. m = Some v \<and> P v"
  by (simp add: returns_def)

lemma returns_defined: "returns P m \<Longrightarrow> m \<noteq> None"
  by (cases m) simp_all

subsection \<open>Words\<close>

lemma unat_u8_less [simp]: "unat (b :: u8) < 256"
  using unsigned_less[of b, where 'a = nat] by simp

lemma unat_u16_less [simp]: "unat (b :: u16) < 65536"
  using unsigned_less[of b, where 'a = nat] by simp

lemma unat_u32_less [simp]: "unat (b :: u32) < 4294967296"
  using unsigned_less[of b, where 'a = nat] by simp

lemma unat_u64_less [simp]: "unat (b :: u64) < 18446744073709551616"
  using unsigned_less[of b, where 'a = nat] by simp

end
