(* ===== verification/Bytes.thy ===== *)
theory Bytes
  imports Prelude
begin

text \<open>
  The network byte order helpers of src/nfq2/helpers.c: \<open>pntoh16\<close> .. \<open>pntoh64\<close> read and
  \<open>phton16\<close> .. \<open>phton64\<close> write a big endian integer through a pointer, \<open>bswap16/24/48\<close> reverse
  bytes, and \<open>seq_within\<close> compares TCP sequence numbers. The five read/write pairs share the
  contract \<open>be_codec\<close>; every fact about a pair is proved once there.
\<close>

subsection \<open>The functions\<close>

definition pntoh16 :: "bytes \<Rightarrow> nat \<Rightarrow> u16 option" where
  "pntoh16 d p = do {
     b0 \<leftarrow> rd d p; b1 \<leftarrow> rd d (p + 1);
     Some (push_bit 8 (ucast b0) OR ucast b1) }"

definition phton16 :: "bytes \<Rightarrow> nat \<Rightarrow> u16 \<Rightarrow> bytes option" where
  "phton16 d p v = do {
     d \<leftarrow> wr d p (ucast (drop_bit 8 v));
     wr d (p + 1) (ucast (v AND 0xFF)) }"

definition pntoh24 :: "bytes \<Rightarrow> nat \<Rightarrow> u32 option" where
  "pntoh24 d p = do {
     b0 \<leftarrow> rd d p; b1 \<leftarrow> rd d (p + 1); b2 \<leftarrow> rd d (p + 2);
     Some (push_bit 16 (ucast b0) OR push_bit 8 (ucast b1) OR ucast b2) }"

definition phton24 :: "bytes \<Rightarrow> nat \<Rightarrow> u32 \<Rightarrow> bytes option" where
  "phton24 d p v = do {
     d \<leftarrow> wr d p (ucast (drop_bit 16 v));
     d \<leftarrow> wr d (p + 1) (ucast (drop_bit 8 v));
     wr d (p + 2) (ucast v) }"

definition pntoh32 :: "bytes \<Rightarrow> nat \<Rightarrow> u32 option" where
  "pntoh32 d p = do {
     b0 \<leftarrow> rd d p; b1 \<leftarrow> rd d (p + 1); b2 \<leftarrow> rd d (p + 2); b3 \<leftarrow> rd d (p + 3);
     Some (push_bit 24 (ucast b0) OR push_bit 16 (ucast b1) OR push_bit 8 (ucast b2) OR ucast b3) }"

definition phton32 :: "bytes \<Rightarrow> nat \<Rightarrow> u32 \<Rightarrow> bytes option" where
  "phton32 d p v = do {
     d \<leftarrow> wr d p (ucast (drop_bit 24 v));
     d \<leftarrow> wr d (p + 1) (ucast (drop_bit 16 v));
     d \<leftarrow> wr d (p + 2) (ucast (drop_bit 8 v));
     wr d (p + 3) (ucast v) }"

definition pntoh48 :: "bytes \<Rightarrow> nat \<Rightarrow> u64 option" where
  "pntoh48 d p = do {
     b0 \<leftarrow> rd d p; b1 \<leftarrow> rd d (p + 1); b2 \<leftarrow> rd d (p + 2); b3 \<leftarrow> rd d (p + 3);
     b4 \<leftarrow> rd d (p + 4); b5 \<leftarrow> rd d (p + 5);
     Some (push_bit 40 (ucast b0) OR push_bit 32 (ucast b1) OR push_bit 24 (ucast b2)
       OR push_bit 16 (ucast b3) OR push_bit 8 (ucast b4) OR ucast b5) }"

definition phton48 :: "bytes \<Rightarrow> nat \<Rightarrow> u64 \<Rightarrow> bytes option" where
  "phton48 d p v = do {
     d \<leftarrow> wr d p (ucast (drop_bit 40 v));
     d \<leftarrow> wr d (p + 1) (ucast (drop_bit 32 v));
     d \<leftarrow> wr d (p + 2) (ucast (drop_bit 24 v));
     d \<leftarrow> wr d (p + 3) (ucast (drop_bit 16 v));
     d \<leftarrow> wr d (p + 4) (ucast (drop_bit 8 v));
     wr d (p + 5) (ucast v) }"

definition pntoh64 :: "bytes \<Rightarrow> nat \<Rightarrow> u64 option" where
  "pntoh64 d p = do {
     b0 \<leftarrow> rd d p; b1 \<leftarrow> rd d (p + 1); b2 \<leftarrow> rd d (p + 2); b3 \<leftarrow> rd d (p + 3);
     b4 \<leftarrow> rd d (p + 4); b5 \<leftarrow> rd d (p + 5); b6 \<leftarrow> rd d (p + 6); b7 \<leftarrow> rd d (p + 7);
     Some (push_bit 56 (ucast b0) OR push_bit 48 (ucast b1) OR push_bit 40 (ucast b2)
       OR push_bit 32 (ucast b3) OR push_bit 24 (ucast b4) OR push_bit 16 (ucast b5)
       OR push_bit 8 (ucast b6) OR ucast b7) }"

definition phton64 :: "bytes \<Rightarrow> nat \<Rightarrow> u64 \<Rightarrow> bytes option" where
  "phton64 d p v = do {
     d \<leftarrow> wr d p (ucast (drop_bit 56 v));
     d \<leftarrow> wr d (p + 1) (ucast (drop_bit 48 v));
     d \<leftarrow> wr d (p + 2) (ucast (drop_bit 40 v));
     d \<leftarrow> wr d (p + 3) (ucast (drop_bit 32 v));
     d \<leftarrow> wr d (p + 4) (ucast (drop_bit 24 v));
     d \<leftarrow> wr d (p + 5) (ucast (drop_bit 16 v));
     d \<leftarrow> wr d (p + 6) (ucast (drop_bit 8 v));
     wr d (p + 7) (ucast v) }"

definition bswap16 :: "u16 \<Rightarrow> u16" where
  "bswap16 u = drop_bit 8 u OR push_bit 8 (u AND 0xFF)"

definition bswap24 :: "u32 \<Rightarrow> u32" where
  "bswap24 u = (drop_bit 16 u AND 0xFF) OR (u AND 0xFF00) OR (push_bit 16 u AND 0xFF0000)"

definition bswap48 :: "u64 \<Rightarrow> u64" where
  "bswap48 u =
     drop_bit 40 (u AND 0xFF0000000000) OR drop_bit 24 (u AND 0xFF00000000)
     OR drop_bit 8 (u AND 0xFF000000) OR push_bit 8 (u AND 0xFF0000)
     OR push_bit 24 (u AND 0xFF00) OR push_bit 40 (u AND 0xFF)"

definition seq_within :: "u32 \<Rightarrow> u32 \<Rightarrow> u32 \<Rightarrow> bool" where
  "seq_within s s1 s2 \<longleftrightarrow>
     (s2 \<ge> s1 \<and> s \<ge> s1 \<and> s \<le> s2) \<or> (s2 < s1 \<and> (s \<le> s2 \<or> s \<ge> s1))"

subsection \<open>Big endian values and byte strings\<close>

definition be_step :: "'w::len word \<Rightarrow> u8 \<Rightarrow> 'w word" where
  "be_step acc b = push_bit 8 acc OR ucast b"

definition be_word :: "bytes \<Rightarrow> 'w::len word" where
  "be_word bs = foldl be_step 0 bs"

fun be_bytes :: "nat \<Rightarrow> 'w::len word \<Rightarrow> bytes" where
  "be_bytes 0 v = []"
| "be_bytes (Suc n) v = ucast (drop_bit (8 * n) v) # be_bytes n v"

lemma length_be_bytes [simp]: "length (be_bytes n v) = n"
  by (induction n) auto

lemma be_step_bits:
  "push_bit (8 * n) (be_step acc (ucast (drop_bit (8 * n) v))) OR take_bit (8 * n) v
   = push_bit (8 + 8 * n) acc OR take_bit (8 + 8 * n) (v :: 'w::len word)"
  by (rule bit_word_eqI) (auto simp: be_step_def bit_simps add.commute[of 8])

lemma foldl_be_bytes:
  "foldl be_step acc (be_bytes n v) = push_bit (8 * n) acc OR take_bit (8 * n) (v :: 'w::len word)"
proof (induction n arbitrary: acc)
  case (Suc n)
  then show ?case by (simp add: be_step_bits)
qed simp

lemma be_word_be_bytes: "be_word (be_bytes n v) = take_bit (8 * n) (v :: 'w::len word)"
  by (simp add: be_word_def foldl_be_bytes)

lemma be_step_unat:
  assumes "unat acc < 2 ^ k" and "k + 8 \<le> LENGTH('w)"
  shows "unat (be_step (acc :: 'w::len word) b) = 256 * unat acc + unat b"
proof -
  have l8: "8 \<le> LENGTH('w)" using assms(2) by simp
  have dis: "push_bit 8 acc AND ucast b = 0"
    by (rule bit_word_eqI) (auto simp: bit_simps dest: bit_imp_le_length)
  have "be_step acc b = push_bit 8 acc + ucast b"
    unfolding be_step_def using disjunctive_add[of "push_bit 8 acc" "ucast b"]
    by (metis dis bit_and_iff bit_0_eq bot_apply bot_bool_def)
  moreover have "unat acc * 256 < 2 ^ LENGTH('w)"
  proof -
    have "unat acc * 2 ^ 8 < 2 ^ k * 2 ^ 8" using assms(1) by simp
    also have "\<dots> \<le> 2 ^ LENGTH('w)"
      using assms(2) by (metis one_le_numeral power_add power_increasing)
    finally show ?thesis by simp
  qed
  then have p: "unat (push_bit 8 acc) = 256 * unat acc"
    unfolding unsigned_push_bit_eq
    by (simp add: push_bit_eq_mult take_bit_nat_eq_self mult.commute)
  have u: "unat (ucast b :: 'w word) = unat b"
  proof -
    have "unat b < 2 ^ LENGTH('w)"
      using less_le_trans[OF unat_u8_less[of b]] power_increasing[OF l8, of "2 :: nat"] by simp
    then show ?thesis by (simp add: unsigned_ucast_eq take_bit_nat_eq_self)
  qed
  have "256 * unat acc + unat b < 2 ^ LENGTH('w)"
  proof -
    have "256 * unat acc + unat b < 256 * (unat acc + 1)" by (simp add: unat_u8_less)
    also have "\<dots> \<le> 2 ^ 8 * 2 ^ k" using assms(1) by simp
    also have "\<dots> \<le> 2 ^ LENGTH('w)"
      using assms(2) by (metis add.commute one_le_numeral power_add power_increasing)
    finally show ?thesis .
  qed
  ultimately show ?thesis
    using p u by (simp add: unat_word_ariths)
qed

lemma foldl_be_unat:
  "unat acc < 2 ^ k \<Longrightarrow> k + 8 * length bs \<le> LENGTH('w) \<Longrightarrow>
   unat (foldl be_step (acc :: 'w::len word) bs) < 2 ^ (k + 8 * length bs)"
proof (induction bs arbitrary: acc k)
  case (Cons b bs)
  have "unat (be_step acc b) < 2 ^ (k + 8)"
  proof -
    have "unat (be_step acc b) = 256 * unat acc + unat b"
      by (rule be_step_unat) (use Cons.prems in auto)
    also have "\<dots> < 256 * (unat acc + 1)" by (simp add: unat_u8_less)
    also have "\<dots> \<le> 2 ^ (k + 8)" using Cons.prems(1) by (simp add: power_add)
    finally show ?thesis .
  qed
  from Cons.IH[OF this] Cons.prems show ?case by (simp add: add.assoc)
qed simp

lemma be_word_less:
  assumes "8 * length bs \<le> LENGTH('w)"
  shows "unat (be_word bs :: 'w::len word) < 2 ^ (8 * length bs)"
  using foldl_be_unat[of "0 :: 'w word" 0 bs] assms by (simp add: be_word_def)


fun be_nat :: "bytes \<Rightarrow> nat" where
  "be_nat [] = 0"
| "be_nat (b # bs) = 256 ^ length bs * unat b + be_nat bs"

lemma be_nat_less: "be_nat bs < 256 ^ length bs"
proof (induction bs)
  case (Cons b bs)
  have "256 ^ length bs * unat b + be_nat bs < 256 ^ length bs * (unat b + 1)"
    using Cons.IH by simp
  also have "\<dots> \<le> 256 ^ length bs * 256"
    using unat_u8_less[of b] by (intro mult_le_mono2) linarith
  finally show ?case by (simp add: mult.commute)
qed simp

lemma unat_foldl_be:
  "unat acc < 2 ^ k \<Longrightarrow> k + 8 * length bs \<le> LENGTH('w) \<Longrightarrow>
   unat (foldl be_step (acc :: 'w::len word) bs) = 256 ^ length bs * unat acc + be_nat bs"
proof (induction bs arbitrary: acc k)
  case (Cons b bs)
  have u: "unat (be_step acc b) = 256 * unat acc + unat b"
    by (rule be_step_unat) (use Cons.prems in auto)
  also have "\<dots> < 256 * (unat acc + 1)" by simp
  also have "\<dots> \<le> 2 ^ (k + 8)" using Cons.prems(1) by (simp add: power_add)
  finally have "unat (be_step acc b) < 2 ^ (k + 8)" .
  from Cons.IH[OF this] Cons.prems u show ?case by (simp add: add_mult_distrib2)
qed simp

lemma unat_be_word:
  "8 * length bs \<le> LENGTH('w) \<Longrightarrow> unat (be_word bs :: 'w::len word) = be_nat bs"
  using unat_foldl_be[of "0 :: 'w word" 0 bs] by (simp add: be_word_def)

lemma be_nat_inj: "length xs = length ys \<Longrightarrow> be_nat xs = be_nat ys \<Longrightarrow> xs = ys"
proof (induction xs ys rule: list_induct2)
  case (Cons x xs y ys)
  from Cons have eq: "256 ^ length xs * unat x + be_nat xs = 256 ^ length xs * unat y + be_nat ys"
    by simp
  have "unat x = (256 ^ length xs * unat x + be_nat xs) div 256 ^ length xs"
    using be_nat_less[of xs] by simp
  also have "\<dots> = unat y"
    unfolding eq using be_nat_less[of ys] Cons.hyps by simp
  finally have xy: "x = y" by (simp add: word_unat_eq_iff)
  with eq Cons.IH show ?case by simp
qed simp

lemma be_bytes_be_word:
  assumes "8 * length bs \<le> LENGTH('w)"
  shows "be_bytes (length bs) (be_word bs :: 'w::len word) = bs"
proof (rule be_nat_inj)
  have "be_nat (be_bytes (length bs) (be_word bs :: 'w word))
        = unat (be_word (be_bytes (length bs) (be_word bs :: 'w word)) :: 'w word)"
    using assms by (simp add: unat_be_word)
  also have "\<dots> = unat (be_word bs :: 'w word)"
    using be_word_less[OF assms]
    by (simp add: be_word_be_bytes unsigned_take_bit_eq take_bit_nat_eq_self)
  finally show "be_nat (be_bytes (length bs) (be_word bs :: 'w word)) = be_nat bs"
    using assms by (simp add: unat_be_word)
qed simp

subsection \<open>The contract of a read/write pair\<close>

text \<open>
  A pair of width \<open>n\<close> reads the big endian value of the \<open>n\<close> bytes at \<open>p\<close> and writes the \<open>n\<close> bytes of
  a value there; outside the buffer both fail.
\<close>

locale be_codec =
  fixes n :: nat
    and get :: "bytes \<Rightarrow> nat \<Rightarrow> 'w::len word option"
    and put :: "bytes \<Rightarrow> nat \<Rightarrow> 'w word \<Rightarrow> bytes option"
  assumes width: "8 * n \<le> LENGTH('w)"
    and get_in: "p + n \<le> length d \<Longrightarrow> get d p = Some (be_word (take n (drop p d)))"
    and get_out: "length d < p + n \<Longrightarrow> get d p = None"
    and put_in: "p + n \<le> length d \<Longrightarrow> put d p v = wr_block d p (be_bytes n v)"
    and put_out: "length d < p + n \<Longrightarrow> put d p v = None"
begin

lemma get_Some_iff: "(\<exists>v. get d p = Some v) \<longleftrightarrow> p + n \<le> length d"
  by (metis get_in get_out not_le option.distinct(1))

lemma put_Some_iff: "(\<exists>e. put d p v = Some e) \<longleftrightarrow> p + n \<le> length d"
proof (cases "p + n \<le> length d")
  case True
  then show ?thesis by (simp add: put_in wr_block_in)
next
  case False
  then show ?thesis by (simp add: put_out)
qed

lemma get_less: "get d p = Some v \<Longrightarrow> unat v < 2 ^ (8 * n)"
proof -
  assume g: "get d p = Some v"
  then have le: "p + n \<le> length d" using get_Some_iff by blast
  then have "v = be_word (take n (drop p d))" using g by (simp add: get_in)
  moreover have "length (take n (drop p d)) = n" using le by simp
  ultimately show ?thesis
    using be_word_less[of "take n (drop p d)", where 'w = 'w] width by simp
qed

lemma put_length: "put d p v = Some e \<Longrightarrow> length e = length d"
  by (metis put_Some_iff put_in wr_block_length)

lemma put_nth_other:
  "put d p v = Some e \<Longrightarrow> i < length d \<Longrightarrow> i < p \<or> p + n \<le> i \<Longrightarrow> e ! i = d ! i"
proof -
  assume p: "put d p v = Some e" and i: "i < length d" "i < p \<or> p + n \<le> i"
  have "wr_block d p (be_bytes n v) = Some e"
    using p put_Some_iff put_in by metis
  from wr_block_nth[OF this i(1)] i(2) show ?thesis by auto
qed

lemma get_put: "put d p v = Some e \<Longrightarrow> get e p = Some (take_bit (8 * n) v)"
proof -
  assume p: "put d p v = Some e"
  then have le: "p + n \<le> length d" using put_Some_iff by blast
  have "e = take p d @ be_bytes n v @ drop (p + n) d"
    using p le by (simp add: put_in wr_block_in)
  moreover have "p + n \<le> length e" using put_length[OF p] le by simp
  ultimately show ?thesis using le by (simp add: get_in be_word_be_bytes)
qed

lemma get_put_exact: "put d p v = Some e \<Longrightarrow> unat v < 2 ^ (8 * n) \<Longrightarrow> get e p = Some v"
  by (simp add: get_put word_unat_eq_iff unsigned_take_bit_eq take_bit_nat_eq_self)

lemma put_get: "get d p = Some v \<Longrightarrow> put d p v = Some d"
proof -
  assume g: "get d p = Some v"
  then have le: "p + n \<le> length d" using get_Some_iff by blast
  then have len: "length (take n (drop p d)) = n" by simp
  have "v = be_word (take n (drop p d))" using g le by (simp add: get_in)
  then have "be_bytes n v = take n (drop p d)"
    using be_bytes_be_word[of "take n (drop p d)", where 'w = 'w] width len by simp
  moreover have "take p d @ take n (drop p d) @ drop (p + n) d = d"
    by (metis append_take_drop_id drop_drop add.commute)
  ultimately show ?thesis using le len by (simp add: put_in wr_block_in)
qed

lemma get_nat: "p + n \<le> length d \<Longrightarrow> \<exists>v. get d p = Some v \<and> unat v = be_nat (take n (drop p d))"
  using unat_be_word[of "take n (drop p d)", where 'w = 'w] width by (simp add: get_in)

lemma get_wp: "p + n \<le> length d \<Longrightarrow> (\<And>v. get d p = Some v \<Longrightarrow> P v) \<Longrightarrow> returns P (get d p)"
  by (simp add: get_in)

lemma put_wp: "p + n \<le> length d \<Longrightarrow> (\<And>e. put d p v = Some e \<Longrightarrow> length e = length d \<Longrightarrow> P e) \<Longrightarrow> returns P (put d p v)"
  using put_Some_iff[of d p v] put_length by (auto simp: returns_def)

text \<open>A field in a buffer whose content is written out.\<close>

lemma get_at: "p = length pre \<Longrightarrow> get (pre @ be_bytes n v @ rest) p = Some (take_bit (8 * n) v)"
  by (simp add: get_in be_word_be_bytes)

lemma get_at_exact: "p = length pre \<Longrightarrow> unat v < 2 ^ (8 * n) \<Longrightarrow> get (pre @ be_bytes n v @ rest) p = Some v"
  by (simp add: get_at word_unat_eq_iff unsigned_take_bit_eq take_bit_nat_eq_self)

lemma put_at: "p = length pre \<Longrightarrow> put (pre @ be_bytes n u @ rest) p v = Some (pre @ be_bytes n v @ rest)"
  by (simp add: put_in wr_block_def)

end

lemma take_drop_nths:
  "p + k \<le> length d \<Longrightarrow> take k (drop p d) = map (\<lambda>i. d ! (p + i)) [0..<k]"
  by (rule nth_equalityI) auto

lemma be_bytes_numeral [simp]:
  "be_bytes (numeral k) v
   = ucast (drop_bit (8 * pred_numeral k) v) # be_bytes (pred_numeral k) v"
  by (simp add: numeral_eq_Suc)

lemma wr_block_Cons:
  "p < length d \<Longrightarrow> wr_block d p (x # xs) = wr_block (d[p := x]) (p + 1) xs"
  by (auto simp: wr_block_def upd_conv_take_nth_drop add.commute)

lemma wr_block_Nil [simp]: "p \<le> length d \<Longrightarrow> wr_block d p [] = Some d"
  by (simp add: wr_block_def)

lemma ucast_and_255 [simp]: "(ucast (v AND 255 :: 'w::len word) :: u8) = ucast v"
proof -
  have "v AND 255 = take_bit 8 v" by (simp add: take_bit_eq_mask mask_eq_exp_minus_1)
  then show ?thesis
    by (auto intro!: bit_word_eqI simp: bit_simps dest: bit_imp_le_length)
qed

lemma upt_0_numeral: "[0..<numeral k] = [0..<pred_numeral k] @ [pred_numeral k]"
  by (simp add: numeral_eq_Suc)

lemma add_small_nums:
  "p + 3 = Suc (Suc (Suc p))" "p + 4 = Suc (Suc (Suc (Suc p)))"
  "p + 5 = Suc (Suc (Suc (Suc (Suc p))))" "p + 6 = Suc (Suc (Suc (Suc (Suc (Suc p)))))"
  "p + 7 = Suc (Suc (Suc (Suc (Suc (Suc (Suc p))))))"
  "p + 8 = Suc (Suc (Suc (Suc (Suc (Suc (Suc (Suc p)))))))"
  by simp_all

lemmas be_unfold = take_drop_nths be_word_def be_step_def push_bit_or
  wr_block_Cons or.assoc add_small_nums upt_0_numeral

interpretation be16: be_codec 2 pntoh16 phton16
  by unfold_locales (auto simp: pntoh16_def phton16_def rd_def wr_def be_unfold)

interpretation be24: be_codec 3 pntoh24 phton24
  by unfold_locales (auto simp: pntoh24_def phton24_def rd_def wr_def be_unfold)

interpretation be32: be_codec 4 pntoh32 phton32
  by unfold_locales (auto simp: pntoh32_def phton32_def rd_def wr_def be_unfold)

interpretation be48: be_codec 6 pntoh48 phton48
  by unfold_locales (auto simp: pntoh48_def phton48_def rd_def wr_def be_unfold)

interpretation be64: be_codec 8 pntoh64 phton64
  by unfold_locales (auto simp: pntoh64_def phton64_def rd_def wr_def be_unfold)


subsection \<open>Sequence number comparison and byte swapping\<close>

lemma seq_within_offset: "seq_within s s1 s2 \<longleftrightarrow> s - s1 \<le> s2 - s1"
  by (simp add: seq_within_def word_le_nat_alt word_less_nat_alt unat_sub_if_size word_size)
     (use unat_u32_less[of s] unat_u32_less[of s1] unat_u32_less[of s2] in linarith)

lemma bswap16_bswap16: "bswap16 (bswap16 u) = u"
proof -
  have "w AND 255 = take_bit 8 w" for w :: u16
    by (simp add: take_bit_eq_mask mask_eq_exp_minus_1)
  then show ?thesis
    by (auto intro!: bit_word_eqI simp: bswap16_def bit_simps)
qed

subsection \<open>The promises of the byte order helpers\<close>

text \<open>Reading a big endian field back after writing it gives the value written, at every width (cut to
  24 and 48 bits where the C type is wider than the field); the rest of the buffer is unchanged.\<close>

theorem pntoh_phton:
  "(phton16 d p w = Some e \<longrightarrow> pntoh16 e p = Some w)
   \<and> (phton24 d p x = Some e \<longrightarrow> pntoh24 e p = Some (take_bit 24 x))
   \<and> (phton32 d p x = Some e \<longrightarrow> pntoh32 e p = Some x)
   \<and> (phton48 d p y = Some e \<longrightarrow> pntoh48 e p = Some (take_bit 48 y))
   \<and> (phton64 d p y = Some e \<longrightarrow> pntoh64 e p = Some y
        \<and> (\<forall>i. i < length d \<and> (i < p \<or> p + 8 \<le> i) \<longrightarrow> e ! i = d ! i))"
proof -
  have "pntoh16 e p = Some w" if "phton16 d p w = Some e"
    using be16.get_put_exact[OF that] unat_u16_less[of w] by simp
  moreover have "pntoh32 e p = Some x" if "phton32 d p x = Some e"
    using be32.get_put_exact[OF that] unat_u32_less[of x] by simp
  moreover have "pntoh64 e p = Some y" if "phton64 d p y = Some e"
    using be64.get_put_exact[OF that] unat_u64_less[of y] by simp
  ultimately show ?thesis
    using be24.get_put[of d p x e] be48.get_put[of d p y e] be64.put_nth_other[of d p y e] by auto
qed

lemma pntoh_phton_witness:
  "\<exists>e. phton32 [0, 0, 0, 0, 0, 9] 1 0xDEADBEEF = Some e \<and> pntoh32 e 1 = Some 0xDEADBEEF"
proof -
  have "phton32 [0, 0, 0, 0, 0, 9] 1 0xDEADBEEF = Some [0, 0xDE, 0xAD, 0xBE, 0xEF, 9]"
    by (simp add: phton32_def wr_def)
  moreover from this have "pntoh32 [0, 0xDE, 0xAD, 0xBE, 0xEF, 9] 1 = Some 0xDEADBEEF"
    using pntoh_phton[of "[0, 0, 0, 0, 0, 9]" 1 0 "[0, 0xDE, 0xAD, 0xBE, 0xEF, 9]" "0xDEADBEEF"] by simp
  ultimately show ?thesis by blast
qed

text \<open>seq_within, whose four comparisons are on absolute sequence numbers, is membership in the window
  from \<open>s1\<close> to \<open>s2\<close> modulo 2 to the 32.\<close>

theorem seq_within_window: "seq_within s s1 s2 \<longleftrightarrow> s - s1 \<le> s2 - s1"
  by (rule seq_within_offset)

end
