(* ===== verification/Checksum.thy ===== *)
theory Checksum
  imports Bytes
begin

text \<open>
  src/nfq2/checksum.c: the Internet checksum over 64-bit words and the functions that store it
  into IPv4, TCP, UDP and ICMP headers. The address of the buffer is a parameter (\<open>addr\<close>), since
  the code consumes 1, 2 and 4 bytes first until the pointer is 8-byte aligned. Multi-byte loads
  are those of a little endian host.
\<close>

subsection \<open>Loads and stores in host order\<close>

definition le_step :: "u8 \<Rightarrow> 'w::len word \<Rightarrow> 'w word" where
  "le_step b acc = ucast b OR push_bit 8 acc"

definition ld16 :: "bytes \<Rightarrow> nat \<Rightarrow> u16 option" where
  "ld16 d p = map_option (\<lambda>bs. foldr le_step bs 0) (rd_block d p 2)"

definition ld32 :: "bytes \<Rightarrow> nat \<Rightarrow> u32 option" where
  "ld32 d p = map_option (\<lambda>bs. foldr le_step bs 0) (rd_block d p 4)"

definition ld64 :: "bytes \<Rightarrow> nat \<Rightarrow> u64 option" where
  "ld64 d p = map_option (\<lambda>bs. foldr le_step bs 0) (rd_block d p 8)"

definition st16 :: "bytes \<Rightarrow> nat \<Rightarrow> u16 \<Rightarrow> bytes option" where
  "st16 d p v = wr_block d p [ucast v, ucast (drop_bit 8 v)]"

definition htonl :: "u32 \<Rightarrow> u32" where
  "htonl v = foldr le_step (be_bytes 4 v) 0"

subsection \<open>The folded sum\<close>

definition from64to16 :: "u64 \<Rightarrow> u16" where
  "from64to16 x =
     (let u = (ucast (ucast x :: u16) + ucast (ucast (drop_bit 16 x) :: u16)
               + ucast (ucast (drop_bit 32 x) :: u16) + ucast (ucast (drop_bit 48 x) :: u16)) :: u32
      in ucast (ucast (ucast u :: u16) + ucast (ucast (drop_bit 16 u) :: u16) :: u32))"

text \<open>The do-while loop over the 64-bit words: \<open>count\<close> words from \<open>p\<close> on.\<close>

fun csum_loop :: "bytes \<Rightarrow> nat \<Rightarrow> nat \<Rightarrow> u64 \<Rightarrow> u64 \<Rightarrow> (nat \<times> u64 \<times> u64) option" where
  "csum_loop d p 0 result carry = Some (p, result, carry)"
| "csum_loop d p (Suc count) result carry = do {
     w \<leftarrow> ld64 d p;
     let result = result + carry;
     let result = result + w;
     csum_loop d (p + 8) count result (if w > result then 1 else 0) }"

definition csum64 :: "bytes \<Rightarrow> nat \<Rightarrow> nat \<Rightarrow> u64 \<Rightarrow> (nat \<times> u64) option" where
  "csum64 d p count result =
     (if count \<noteq> 0 then do {
        (p, result, carry) \<leftarrow> csum_loop d p count result 0;
        let result = result + carry;
        Some (p, (result AND 0xffffffff) + drop_bit 32 result) }
      else Some (p, result))"

definition csum32 :: "nat \<Rightarrow> bytes \<Rightarrow> nat \<Rightarrow> nat \<Rightarrow> nat \<Rightarrow> u64 \<Rightarrow> (nat \<times> nat \<times> u64) option" where
  "csum32 addr d p len count result =
     (if count \<noteq> 0 then do {
        (p, len, count, result) \<leftarrow>
          (if 4 AND (addr + p) \<noteq> 0
           then do { w \<leftarrow> ld32 d p; Some (p + 4, len - 4, count - 1, result + ucast w) }
           else Some (p, len, count, result));
        (p, result) \<leftarrow> csum64 d p (count div 2) result;
        (p, result) \<leftarrow>
          (if len AND 4 \<noteq> 0 then do { w \<leftarrow> ld32 d p; Some (p + 4, result + ucast w) }
           else Some (p, result));
        Some (p, len, result) }
      else Some (p, len, result))"

definition csum16 :: "nat \<Rightarrow> bytes \<Rightarrow> nat \<Rightarrow> nat \<Rightarrow> u64 \<Rightarrow> (nat \<times> nat \<times> u64) option" where
  "csum16 addr d p len result =
     (let count = len div 2 in
      if count \<noteq> 0 then do {
        (p, len, count, result) \<leftarrow>
          (if 2 AND (addr + p) \<noteq> 0
           then do { w \<leftarrow> ld16 d p; Some (p + 2, len - 2, count - 1, result + ucast w) }
           else Some (p, len, count, result));
        (p, len, result) \<leftarrow> csum32 addr d p len (count div 2) result;
        (p, result) \<leftarrow>
          (if len AND 2 \<noteq> 0 then do { w \<leftarrow> ld16 d p; Some (p + 2, result + ucast w) }
           else Some (p, result));
        Some (p, len, result) }
      else Some (p, len, result))"

definition csum_acc :: "nat \<Rightarrow> bytes \<Rightarrow> nat \<Rightarrow> u64 option" where
  "csum_acc addr d len = do {
     (p, len, result) \<leftarrow>
       (if 1 AND addr \<noteq> 0 then do { b \<leftarrow> rd d 0; Some (1, len - 1, push_bit 8 (ucast b)) }
        else Some (0, len, 0));
     (p, len, result) \<leftarrow> csum16 addr d p len result;
     (if len AND 1 \<noteq> 0 then do { b \<leftarrow> rd d p; Some (result + ucast b) } else Some result) }"

definition do_csum :: "nat \<Rightarrow> bytes \<Rightarrow> nat \<Rightarrow> u16 option" where
  "do_csum addr d len =
     (if len = 0 then Some 0
      else do {
        result \<leftarrow> csum_acc addr d len;
        let u = from64to16 result;
        Some (if 1 AND addr \<noteq> 0 then (drop_bit 8 u AND 0xff) OR push_bit 8 (u AND 0xff) else u) })"


subsection \<open>The one's complement sum as a specification\<close>

text \<open>
  RFC 1071: the sum of the 16-bit words of the data, the last odd byte padded with a zero, as a
  number modulo 65535 (in host order, which the byte swap invariance of the sum permits).
\<close>

fun word_sum :: "bytes \<Rightarrow> nat" where
  "word_sum [] = 0"
| "word_sum [a] = unat a"
| "word_sum (a # b # bs) = (unat a + 256 * unat b) + word_sum bs"

fun le_nat :: "bytes \<Rightarrow> nat" where
  "le_nat [] = 0"
| "le_nat (b # bs) = unat b + 256 * le_nat bs"

abbreviation ceq :: "nat \<Rightarrow> nat \<Rightarrow> bool" where
  "ceq a b \<equiv> a mod 65535 = b mod 65535"

lemma ceq_add: "ceq a b \<Longrightarrow> ceq c d \<Longrightarrow> ceq (a + c) (b + d)"
  by (rule mod_add_cong)

lemma ceq_mult: "ceq a b \<Longrightarrow> ceq (k * a) (k * b)"
  by (rule mod_mult_cong) simp_all

lemma ceq_subst: "ceq a (b + c) \<Longrightarrow> ceq b b' \<Longrightarrow> ceq a (b' + c)"
  using ceq_add[of b b' c c] by simp

lemma ceq_65536: "ceq (65536 * x + y) (x + y)"
proof -
  have "65536 * x + y = (x + y) + 65535 * x" by simp
  then show ?thesis by (metis mod_mult_self2)
qed

lemma ceq_pow: "even n \<Longrightarrow> ceq (256 ^ n * x) x"
proof (induction n rule: nat_induct2)
  case (step n)
  have e: "(256 :: nat) ^ Suc (Suc n) * x = 65536 * (256 ^ n * x) + 0" by simp
  have "ceq (256 ^ Suc (Suc n) * x) (256 ^ n * x)"
    unfolding e using ceq_65536[of "256 ^ n * x" 0] by simp
  with step show ?case by simp
qed auto

lemma le_nat_append: "le_nat (xs @ ys) = le_nat xs + 256 ^ length xs * le_nat ys"
  by (induction xs) (auto simp: algebra_simps)

lemma le_nat_append_even: "even (length xs) \<Longrightarrow> ceq (le_nat (xs @ ys)) (le_nat xs + le_nat ys)"
  unfolding le_nat_append by (intro ceq_add ceq_pow) auto

lemma le_nat_word_sum: "ceq (le_nat bs) (word_sum bs)"
proof (induction bs rule: word_sum.induct)
  case (3 a b bs)
  have "le_nat (a # b # bs) = 65536 * le_nat bs + (unat a + 256 * unat b)" by simp
  then have "ceq (le_nat (a # b # bs)) (le_nat bs + (unat a + 256 * unat b))"
    by (metis ceq_65536)
  also have "ceq (le_nat bs + (unat a + 256 * unat b)) (word_sum bs + (unat a + 256 * unat b))"
    by (rule ceq_add) (use "3.IH" in simp_all)
  finally show ?case by (simp add: ac_simps)
qed auto

lemma foldr_le_step: "foldr le_step bs (0 :: 'w::len word) = be_word (rev bs)"
proof -
  have "le_step = (\<lambda>b acc. be_step acc b :: 'w word)"
    by (auto simp: fun_eq_iff le_step_def be_step_def or.commute)
  then show ?thesis by (simp add: be_word_def foldl_conv_foldr)
qed

lemma be_nat_append: "be_nat (xs @ ys) = 256 ^ length ys * be_nat xs + be_nat ys"
  by (induction xs) (auto simp: power_add algebra_simps)

lemma be_nat_rev: "be_nat (rev bs) = le_nat bs"
  by (induction bs) (auto simp: be_nat_append)

lemma unat_foldr_le:
  "8 * length bs \<le> LENGTH('w) \<Longrightarrow> unat (foldr le_step bs (0 :: 'w::len word)) = le_nat bs"
  by (simp add: foldr_le_step unat_be_word be_nat_rev)

lemma ld16_le: "p + 2 \<le> length d \<Longrightarrow>
    \<exists>w. ld16 d p = Some w \<and> unat w = le_nat (take 2 (drop p d))"
  by (simp add: ld16_def unat_foldr_le)

lemma ld32_le: "p + 4 \<le> length d \<Longrightarrow>
    \<exists>w. ld32 d p = Some w \<and> unat w = le_nat (take 4 (drop p d))"
  by (simp add: ld32_def unat_foldr_le)

lemma ld64_le: "p + 8 \<le> length d \<Longrightarrow>
    \<exists>w. ld64 d p = Some w \<and> unat w = le_nat (take 8 (drop p d))"
  by (simp add: ld64_def unat_foldr_le)

subsection \<open>Folding to 16 bits\<close>

definition halves :: "u64 \<Rightarrow> nat" where
  "halves x = unat x mod 65536 + unat x div 65536 mod 65536
     + unat x div 4294967296 mod 65536 + unat x div 281474976710656"

definition loses_carry :: "u64 \<Rightarrow> bool" where
  "loses_carry x \<longleftrightarrow> halves x mod 65536 + halves x div 65536 \<ge> 65536"

lemma unat_drop_bit: "unat (drop_bit n (x :: 'w::len word)) = unat x div 2 ^ n"
  using unsigned_less[of x, where 'a = nat]
  by (simp add: unsigned_drop_bit_eq drop_bit_eq_div[where 'a = nat] take_bit_nat_eq_self)

lemma unat_take_bit: "unat (take_bit n (x :: 'w::len word)) = unat x mod 2 ^ n"
  by (simp add: unsigned_take_bit_eq take_bit_eq_mod[where 'a = nat])

lemma unat_ucast_mod: "unat (ucast (x :: 'w::len word) :: 'v::len word) = unat x mod 2 ^ LENGTH('v)"
  by (simp add: unsigned_ucast_eq take_bit_eq_mod[where 'a = nat])

lemmas unat_bits = unat_drop_bit unat_take_bit unat_ucast_mod unat_word_ariths

lemma unat_ucast_drop16:
  "unat (ucast (ucast (drop_bit n (x :: u64)) :: u16) :: u32) = unat x div 2 ^ n mod 65536"
  by (simp add: unsigned_take_bit_eq unsigned_ucast_eq unsigned_drop_bit_eq)
     (simp add: take_bit_eq_mod[where 'a = nat] drop_bit_eq_div[where 'a = nat])

lemma unat_ucast16:
  "unat (ucast (ucast (x :: u64) :: u16) :: u32) = unat x mod 65536"
  using unat_ucast_drop16[of 0 x] by simp

lemma halves_less: "halves x \<le> 4 * 65535"
proof -
  have "unat x div 281474976710656 \<le> 65535"
    using unat_u64_less[of x] by linarith
  moreover have "unat x mod 65536 \<le> 65535" "unat x div 65536 mod 65536 \<le> 65535"
    "unat x div 4294967296 mod 65536 \<le> 65535" by simp_all
  ultimately show ?thesis unfolding halves_def by linarith
qed

lemma halves_ceq: "ceq (halves x) (unat x)"
proof -
  define n r q where "n = unat x" and "r = n div 65536" and "q = r div 65536"
  have r2: "n div 4294967296 = q" and r3: "n div 281474976710656 = q div 65536"
    by (simp_all add: q_def r_def div_mult2_eq[symmetric])
  have n: "ceq n (r + n mod 65536)"
    using ceq_65536[of r "n mod 65536"] by (simp add: r_def)
  have r: "ceq r (q + r mod 65536)"
    using ceq_65536[of q "r mod 65536"] by (simp add: q_def)
  have q: "ceq q (q div 65536 + q mod 65536)"
    using ceq_65536[of "q div 65536" "q mod 65536"] by simp
  have "ceq n (q + (r mod 65536 + n mod 65536))"
    using ceq_subst[OF n r] by (simp only: add.assoc)
  from ceq_subst[OF this q]
  have "ceq n (q div 65536 + q mod 65536 + (r mod 65536 + n mod 65536))" .
  then show ?thesis by (simp add: halves_def n_def[symmetric] r2 r3 r_def ac_simps)
qed

lemma unat_from64to16:
  "unat (from64to16 x) = (halves x mod 65536 + halves x div 65536) mod 65536"
proof -
  define u where "u = (ucast (ucast x :: u16) + ucast (ucast (drop_bit 16 x) :: u16)
     + ucast (ucast (drop_bit 32 x) :: u16) + ucast (ucast (drop_bit 48 x) :: u16) :: u32)"
  have x48: "unat x div 281474976710656 < 65536"
    using unat_u64_less[of x] by linarith
  have u: "unat u = halves x"
    using halves_less[of x] x48
    by (simp add: u_def halves_def unat_bits)
  have "unat (ucast (ucast (ucast u :: u16) + ucast (ucast (drop_bit 16 u) :: u16) :: u32) :: u16)
        = (unat u mod 65536 + unat u div 65536) mod 65536"
  proof -
    have "unat u div 65536 < 65536" using unat_u32_less[of u] by linarith
    then show ?thesis by (simp add: unat_bits)
  qed
  then show ?thesis by (simp add: from64to16_def Let_def u_def[symmetric] u)
qed

lemma from64to16_ceq: "\<not> loses_carry x \<Longrightarrow> ceq (unat (from64to16 x)) (unat x)"
proof -
  assume "\<not> loses_carry x"
  then have "unat (from64to16 x) = halves x mod 65536 + halves x div 65536"
    by (simp add: unat_from64to16 loses_carry_def)
  moreover have "ceq (halves x) (halves x div 65536 + halves x mod 65536)"
    using ceq_65536[of "halves x div 65536" "halves x mod 65536"] by simp
  ultimately show ?thesis using halves_ceq[of x] by (simp add: add.commute)
qed

lemma loses_carry_iff:
  "loses_carry x \<longleftrightarrow> halves x \<in> {0x1FFFF, 0x2FFFE, 0x2FFFF}"
proof -
  define q r where "q = halves x div 65536" and "r = halves x mod 65536"
  have h: "halves x = 65536 * q + r" and r: "r < 65536" and le: "65536 * q + r \<le> 262140"
    using halves_less[of x] by (auto simp: q_def r_def)
  have lc: "loses_carry x \<longleftrightarrow> r + q \<ge> 65536"
    by (simp add: loses_carry_def q_def r_def)
  have "q = 0 \<or> q = 1 \<or> q = 2 \<or> q = 3" using le by linarith
  then show ?thesis
    using r le unfolding lc h by (elim disjE) auto
qed

subsection \<open>The accumulation loop keeps the sum\<close>

lemma take_seg: "take (m + n) (drop p d) = take m (drop p d) @ take n (drop (p + m) d)"
  by (simp add: take_add add.commute)

lemma le_nat_seg:
  "even m \<Longrightarrow> p + m \<le> length d \<Longrightarrow>
   ceq (le_nat (take (m + n) (drop p d)))
       (le_nat (take m (drop p d)) + le_nat (take n (drop (p + m) d)))"
  unfolding take_seg by (rule le_nat_append_even) simp

lemma add_carry:
  assumes "unat (c :: u64) \<le> 1" and "c = 1 \<longrightarrow> unat r < 18446744073709551615"
  shows "unat (r + c) = unat r + unat c"
proof -
  have "unat c = 0 \<or> unat c = 1" using assms(1) by linarith
  then have "c = 0 \<or> c = 1" by (simp add: word_unat_eq_iff)
  then show ?thesis using assms(2) unat_u64_less[of r] by (auto simp: unat_word_ariths)
qed

lemma add_overflow:
  fixes r w :: u64
  defines "c \<equiv> (if w > r + w then 1 else 0 :: u64)"
  shows "unat (r + w) + 18446744073709551616 * unat c = unat r + unat w"
    and "unat c \<le> 1" and "c = 1 \<longrightarrow> unat (r + w) < 18446744073709551615"
proof -
  have b: "unat r \<le> 18446744073709551615" "unat w \<le> 18446744073709551615"
    using unat_u64_less[of r] unat_u64_less[of w] by linarith+
  have "unat (r + w) = (if unat r + unat w < 18446744073709551616 then unat r + unat w
      else unat r + unat w - 18446744073709551616)"
  proof (cases "unat r + unat w < 18446744073709551616")
    case False
    then have "unat r + unat w - 18446744073709551616 < 18446744073709551616"
      using unat_u64_less[of r] unat_u64_less[of w] by linarith
    with False show ?thesis by (simp add: unat_word_ariths le_mod_geq)
  qed (simp add: unat_word_ariths)
  then show "unat (r + w) + 18446744073709551616 * unat c = unat r + unat w"
    and "unat c \<le> 1" and "c = 1 \<longrightarrow> unat (r + w) < 18446744073709551615"
    using b by (auto simp: c_def word_less_nat_alt)
qed

lemma ceq_2_64: "ceq (18446744073709551616 * x) x"
  using ceq_pow[of 8 x] by simp

lemma csum_loop_ok:
  "p + 8 * count \<le> length d \<Longrightarrow> unat carry \<le> 1 \<Longrightarrow>
   carry = 1 \<longrightarrow> unat result < 18446744073709551615 \<Longrightarrow>
   \<exists>r c. csum_loop d p count result carry = Some (p + 8 * count, r, c) \<and> unat c \<le> 1 \<and>
     (c = 1 \<longrightarrow> unat r < 18446744073709551615) \<and>
     ceq (unat r + unat c) (unat result + unat carry + le_nat (take (8 * count) (drop p d)))"
proof (induction count arbitrary: p result carry)
  case (Suc count)
  from Suc.prems(1) have "p + 8 \<le> length d" by simp
  then obtain w where w: "ld64 d p = Some w" "unat w = le_nat (take 8 (drop p d))"
    using ld64_le by blast
  define r1 c1 where "r1 = result + carry" and "c1 = (if w > r1 + w then 1 else 0 :: u64)"
  have r1: "unat r1 = unat result + unat carry"
    unfolding r1_def by (rule add_carry) (use Suc.prems in auto)
  note ov = add_overflow[of r1 w, folded c1_def]
  have "(p + 8) + 8 * count \<le> length d" using Suc.prems(1) by simp
  from Suc.IH[OF this ov(2) ov(3)] obtain r c where
    rec: "csum_loop d (p + 8) count (r1 + w) c1 = Some (p + 8 + 8 * count, r, c)"
      "unat c \<le> 1" "c = 1 \<longrightarrow> unat r < 18446744073709551615"
    and sum: "ceq (unat r + unat c)
      (unat (r1 + w) + unat c1 + le_nat (take (8 * count) (drop (p + 8) d)))"
    by blast
  have "ceq (unat (r1 + w) + unat c1) (unat r1 + unat w)"
    unfolding ov(1)[symmetric] by (rule ceq_add) (simp_all add: ceq_2_64)
  then have "ceq (unat r + unat c)
      (unat result + unat carry + (unat w + le_nat (take (8 * count) (drop (p + 8) d))))"
    using ceq_subst[OF sum] unfolding r1 by (simp add: add.assoc)
  also have "ceq (unat result + unat carry + (unat w + le_nat (take (8 * count) (drop (p + 8) d))))
      (unat result + unat carry + le_nat (take (8 * Suc count) (drop p d)))"
    by (rule ceq_add) (use le_nat_seg[of 8 p d "8 * count"] Suc.prems(1) w in simp_all)
  finally show ?case
    using rec w(1) by (simp add: r1_def c1_def Let_def)
qed simp


lemma fold64:
  "unat ((r AND 0xffffffff) + drop_bit 32 (r :: u64)) = unat r mod 4294967296 + unat r div 4294967296"
proof -
  have "r AND 0xffffffff = take_bit 32 r"
    by (simp add: take_bit_eq_mask mask_eq_exp_minus_1)
  moreover have "unat r div 4294967296 < 4294967296" using unat_u64_less[of r] by linarith
  ultimately show ?thesis by (simp add: unat_bits)
qed

lemma fold64_ceq: "ceq (n mod 4294967296 + n div 4294967296) n"
proof -
  have "ceq n (65536 * (65536 * (n div 4294967296)) + n mod 4294967296)" by simp
  also have "ceq (65536 * (65536 * (n div 4294967296)) + n mod 4294967296)
      (65536 * (n div 4294967296) + n mod 4294967296)" by (rule ceq_65536)
  also have "ceq (65536 * (n div 4294967296) + n mod 4294967296)
      (n div 4294967296 + n mod 4294967296)" by (rule ceq_65536)
  finally show ?thesis by (simp add: add.commute)
qed

lemma csum64_ok:
  assumes "p + 8 * count \<le> length d" and "unat result < 8589934592"
  shows "\<exists>r. csum64 d p count result = Some (p + 8 * count, r) \<and> unat r < 8589934592 \<and>
     ceq (unat r) (unat result + le_nat (take (8 * count) (drop p d)))"
proof (cases count)
  case (Suc n)
  from csum_loop_ok[of p count d 0 result] assms obtain r c where
    loop: "csum_loop d p count result 0 = Some (p + 8 * count, r, c)" "unat c \<le> 1"
      "c = 1 \<longrightarrow> unat r < 18446744073709551615"
    and sum: "ceq (unat r + unat c) (unat result + le_nat (take (8 * count) (drop p d)))"
    by auto
  define f where "f = ((r + c) AND 0xffffffff) + drop_bit 32 (r + c)"
  have f: "unat f = unat (r + c) mod 4294967296 + unat (r + c) div 4294967296"
    unfolding f_def by (rule fold64)
  have "csum64 d p count result = Some (p + 8 * count, f)"
    using loop(1) Suc by (simp add: csum64_def f_def Let_def)
  moreover have "unat f < 8589934592"
    unfolding f using unat_u64_less[of "r + c"] by linarith
  moreover have "ceq (unat f) (unat result + le_nat (take (8 * count) (drop p d)))"
    unfolding f fold64_ceq add_carry[OF loop(2,3)] by (rule sum)
  ultimately show ?thesis by blast
qed (use assms in \<open>simp add: csum64_def\<close>)


lemma and4: "(n :: nat) AND 4 = 0 \<longleftrightarrow> even (n div 4)"
  using and_exp_eq_0_iff_not_bit[of n 2] by (simp add: bit_iff_odd)

lemma and2: "(n :: nat) AND 2 = 0 \<longleftrightarrow> even (n div 2)"
  using and_exp_eq_0_iff_not_bit[of n 1] by (simp add: bit_iff_odd)

lemma and1: "(n :: nat) AND 1 = 0 \<longleftrightarrow> even n"
  by (simp add: and_one_eq even_iff_mod_2_eq_zero)

lemma ld32_add:
  assumes "p + 4 \<le> length d" and "unat r < 34359738368"
  shows "\<exists>w. ld32 d p = Some w \<and> unat (r + ucast w :: u64) < unat r + 4294967296 \<and>
     unat (r + ucast w :: u64) = unat r + le_nat (take 4 (drop p d))"
proof -
  obtain w where w: "ld32 d p = Some w" "unat w = le_nat (take 4 (drop p d))"
    using ld32_le[OF assms(1)] by blast
  have "unat r + unat w < 18446744073709551616" using assms(2) unat_u32_less[of w] by linarith
  then have "unat (r + ucast w :: u64) = unat r + unat w"
    using unat_u32_less[of w] by (simp add: unat_bits)
  note eq = this
  have lt: "unat w < 4294967296" by simp
  show ?thesis
  proof (intro exI conjI)
    show "ld32 d p = Some w" by (rule w(1))
    show "unat (r + ucast w) < unat r + 4294967296" unfolding eq using lt by linarith
    show "unat (r + ucast w) = unat r + le_nat (take 4 (drop p d))" unfolding eq w(2) ..
  qed
qed

lemma ld16_add:
  assumes "p + 2 \<le> length d" and "unat r < 34359738368"
  shows "\<exists>w. ld16 d p = Some w \<and> unat (r + ucast w :: u64) < unat r + 65536 \<and>
     unat (r + ucast w :: u64) = unat r + le_nat (take 2 (drop p d))"
proof -
  obtain w where w: "ld16 d p = Some w" "unat w = le_nat (take 2 (drop p d))"
    using ld16_le[OF assms(1)] by blast
  have "unat r + unat w < 18446744073709551616" using assms(2) unat_u16_less[of w] by linarith
  then have "unat (r + ucast w :: u64) = unat r + unat w"
    using unat_u16_less[of w] by (simp add: unat_bits)
  note eq = this
  have lt: "unat w < 65536" by simp
  show ?thesis
  proof (intro exI conjI)
    show "ld16 d p = Some w" by (rule w(1))
    show "unat (r + ucast w) < unat r + 65536" unfolding eq using lt by linarith
    show "unat (r + ucast w) = unat r + le_nat (take 2 (drop p d))" unfolding eq w(2) ..
  qed
qed

text \<open>
  The three stages below share one shape: a stage started at \<open>p\<close> with \<open>r0\<close> consumes \<open>n\<close> bytes and
  adds their sum. \<open>consumed\<close> states it, and consecutive stages compose.
\<close>

definition consumed :: "bytes \<Rightarrow> nat \<Rightarrow> nat \<Rightarrow> u64 \<Rightarrow> u64 \<Rightarrow> bool" where
  "consumed d p n r0 r \<longleftrightarrow> ceq (unat r) (unat r0 + le_nat (take n (drop p d)))"

lemma consumed_trans:
  assumes "consumed d p m r0 r1" and "consumed d (p + m) n r1 r2" and "even m"
    and "p + m \<le> length d"
  shows "consumed d p (m + n) r0 r2"
proof -
  let ?a = "le_nat (take m (drop p d))" and ?b = "le_nat (take n (drop (p + m) d))"
  have "ceq (unat r2) ((unat r0 + ?a) + ?b)"
    using ceq_subst assms(1,2) unfolding consumed_def by blast
  also have "ceq ((unat r0 + ?a) + ?b) (unat r0 + le_nat (take (m + n) (drop p d)))"
    unfolding add.assoc
    by (rule ceq_add) (use le_nat_seg[OF assms(3,4), of n] in simp_all)
  finally show ?thesis unfolding consumed_def .
qed

lemma consumed_refl: "consumed d p 0 r r"
  by (simp add: consumed_def)

lemma csum32_align:
  assumes "p + len \<le> length d" and "unat r < 131072" and "4 \<le> len"
  shows "\<exists>k r1. (if 4 AND (addr + p) \<noteq> 0
            then do { w \<leftarrow> ld32 d p; Some (p + 4, len - 4, len div 4 - 1, r + ucast w) }
            else Some (p, len, len div 4, r)) = Some (p + k, len - k, (len - k) div 4, r1)
      \<and> (k = 0 \<or> k = 4) \<and> consumed d p k r r1 \<and> unat r1 < 8589934592"
proof (cases "4 AND (addr + p) = 0")
  case True
  then show ?thesis using assms(2) consumed_refl by (intro exI[of _ 0] exI[of _ r]) simp
next
  case False
  from ld32_add[of p d r] assms obtain w where w: "ld32 d p = Some w"
    "unat (r + ucast w) < unat r + 4294967296"
    "unat (r + ucast w) = unat r + le_nat (take 4 (drop p d))" by auto
  have "len div 4 - 1 = (len - 4) div 4" by (simp add: le_div_geq assms(3))
  with False w assms(2) show ?thesis
    by (intro exI[of _ 4] exI[of _ "r + ucast w"]) (simp add: consumed_def)
qed

lemma csum32_ok:
  assumes "p + len \<le> length d" and "unat r < 131072"
  shows "\<exists>len' r'. csum32 addr d p len (len div 4) r = Some (p + 4 * (len div 4), len', r')
     \<and> len' mod 4 = len mod 4 \<and> unat r' < 17179869184 \<and> consumed d p (4 * (len div 4)) r r'"
proof (cases "len div 4 = 0")
  case True
  then show ?thesis using assms(2) consumed_refl by (simp add: csum32_def)
next
  case False
  then have len4: "4 \<le> len" by simp
  from csum32_align[OF assms len4, of addr] obtain k r1 where
    al: "(if 4 AND (addr + p) \<noteq> 0
            then do { w \<leftarrow> ld32 d p; Some (p + 4, len - 4, len div 4 - 1, r + ucast w) }
            else Some (p, len, len div 4, r)) = Some (p + k, len - k, (len - k) div 4, r1)"
    and k: "k = 0 \<or> k = 4" and c1: "consumed d p k r r1" and r1: "unat r1 < 8589934592" by blast
  define L where "L = len - k"
  have pk: "p + k \<le> length d" "even k" using k assms(1) len4 by auto
  have "p + k + 8 * (L div 8) \<le> length d" using k assms(1) len4 by (auto simp: L_def)
  from csum64_ok[OF this r1] obtain r2 where
    s64: "csum64 d (p + k) (L div 8) r1 = Some (p + k + 8 * (L div 8), r2)"
    and r2: "unat r2 < 8589934592" and c2: "consumed d (p + k) (8 * (L div 8)) r1 r2"
    unfolding consumed_def by blast
  have d8: "L div 4 div 2 = L div 8" by (simp add: div_mult2_eq[symmetric])
  have c12: "consumed d p (k + 8 * (L div 8)) r r2"
    by (rule consumed_trans[OF c1 c2 pk(2,1)])
  have kL: "4 * (len div 4) = k + 4 * (L div 4)" and Lm: "L mod 4 = len mod 4"
    using k len4 by (auto simp: L_def le_div_geq le_mod_geq)
  show ?thesis
  proof (cases "L AND 4 = 0")
    case True
    then have "4 * (L div 4) = 8 * (L div 8)"
      unfolding and4 d8[symmetric] by simp
    with True False al s64 d8 r2 c12 kL Lm show ?thesis
      by (auto simp: csum32_def L_def[symmetric] add.assoc)
  next
    case odd: False
    then have e: "4 * (L div 4) = 8 * (L div 8) + 4"
      unfolding and4 d8[symmetric] by (auto elim!: oddE)
    define q where "q = p + (k + 8 * (L div 8))"
    have q: "q + 4 \<le> length d"
      using e kL assms(1) times_div_less_eq_dividend[of 4 len] unfolding q_def by linarith
    from ld32_add[OF q, of r2] r2 obtain w where w: "ld32 d q = Some w"
      "unat (r2 + ucast w) < unat r2 + 4294967296"
      "unat (r2 + ucast w) = unat r2 + le_nat (take 4 (drop q d))" by auto
    then have "consumed d q 4 r2 (r2 + ucast w)" by (simp add: consumed_def)
    from consumed_trans[OF c12 this[unfolded q_def]] pk q
    have "consumed d p (k + 8 * (L div 8) + 4) r (r2 + ucast w)" by (simp add: q_def)
    with odd False al s64 d8 r2 kL Lm w e show ?thesis
      by (auto simp: csum32_def L_def[symmetric] add.assoc q_def)
  qed
qed


lemma csum16_align:
  assumes "p + len \<le> length d" and "unat r < 65536" and "2 \<le> len"
  shows "\<exists>k r1. (if 2 AND (addr + p) \<noteq> 0
            then do { w \<leftarrow> ld16 d p; Some (p + 2, len - 2, len div 2 - 1, r + ucast w) }
            else Some (p, len, len div 2, r)) = Some (p + k, len - k, (len - k) div 2, r1)
      \<and> (k = 0 \<or> k = 2) \<and> consumed d p k r r1 \<and> unat r1 < 131072"
proof (cases "2 AND (addr + p) = 0")
  case True
  then show ?thesis using assms(2) consumed_refl by (intro exI[of _ 0] exI[of _ r]) simp
next
  case False
  from ld16_add[of p d r] assms obtain w where w: "ld16 d p = Some w"
    "unat (r + ucast w) < unat r + 65536"
    "unat (r + ucast w) = unat r + le_nat (take 2 (drop p d))" by auto
  have "len div 2 - 1 = (len - 2) div 2" by (simp add: le_div_geq assms(3))
  with False w assms(2) show ?thesis
    by (intro exI[of _ 2] exI[of _ "r + ucast w"]) (simp add: consumed_def)
qed

lemma mod4_parity: "(a :: nat) mod 4 = b mod 4 \<Longrightarrow> (even (a div 2) \<longleftrightarrow> even (b div 2)) \<and> a mod 2 = b mod 2"
  by (metis bit_iff_odd bit_take_bit_iff mod_mod_cancel dvdI mult_2 numeral_Bit0 one_less_numeral_iff
      power_one_right semiring_norm(76) take_bit_eq_mod num_double numeral_times_numeral power2_eq_square)

lemma csum16_ok:
  assumes "p + len \<le> length d" and "unat r < 65536"
  shows "\<exists>len' r'. csum16 addr d p len r = Some (p + 2 * (len div 2), len', r')
     \<and> len' mod 2 = len mod 2 \<and> unat r' < 34359738368 \<and> consumed d p (2 * (len div 2)) r r'"
proof (cases "len div 2 = 0")
  case True
  then show ?thesis using assms(2) consumed_refl by (simp add: csum16_def)
next
  case False
  then have len2: "2 \<le> len" by simp
  from csum16_align[OF assms len2, of addr] obtain k r1 where
    al: "(if 2 AND (addr + p) \<noteq> 0
            then do { w \<leftarrow> ld16 d p; Some (p + 2, len - 2, len div 2 - 1, r + ucast w) }
            else Some (p, len, len div 2, r)) = Some (p + k, len - k, (len - k) div 2, r1)"
    and k: "k = 0 \<or> k = 2" and c1: "consumed d p k r r1" and r1: "unat r1 < 131072" by blast
  define L where "L = len - k"
  have pk: "p + k \<le> length d" "even k" using k assms(1) len2 by auto
  have "p + k + L \<le> length d" using k assms(1) len2 by (auto simp: L_def)
  from csum32_ok[OF this r1, of addr] obtain len' r2 where
    s32: "csum32 addr d (p + k) L (L div 4) r1 = Some (p + k + 4 * (L div 4), len', r2)"
    and len': "len' mod 4 = L mod 4"
    and r2: "unat r2 < 17179869184" and c2: "consumed d (p + k) (4 * (L div 4)) r1 r2" by blast
  have d4: "L div 2 div 2 = L div 4" by (simp add: div_mult2_eq[symmetric])
  have c12: "consumed d p (k + 4 * (L div 4)) r r2"
    by (rule consumed_trans[OF c1 c2 pk(2,1)])
  have kL: "2 * (len div 2) = k + 2 * (L div 2)" and Lm: "L mod 2 = len mod 2"
    using k len2 by (auto simp: L_def le_div_geq le_mod_geq)
  have bit: "len' AND 2 = 0 \<longleftrightarrow> even (L div 2)" and lm2: "len' mod 2 = L mod 2"
    using mod4_parity[OF len'] unfolding and2 by simp_all
  show ?thesis
  proof (cases "even (L div 2)")
    case True
    then have "2 * (L div 2) = 4 * (L div 4)" unfolding d4[symmetric] by simp
    with True False al s32 d4 r2 c12 kL Lm bit lm2 show ?thesis
      by (auto simp: csum16_def L_def[symmetric] add.assoc Let_def)
  next
    case odd: False
    then have e: "2 * (L div 2) = 4 * (L div 4) + 2"
      unfolding d4[symmetric] by (auto elim!: oddE)
    define q where "q = p + (k + 4 * (L div 4))"
    have q: "q + 2 \<le> length d"
      using e kL assms(1) times_div_less_eq_dividend[of 2 len] unfolding q_def by linarith
    from ld16_add[OF q, of r2] r2 obtain w where w: "ld16 d q = Some w"
      "unat (r2 + ucast w) < unat r2 + 65536"
      "unat (r2 + ucast w) = unat r2 + le_nat (take 2 (drop q d))" by auto
    then have "consumed d q 2 r2 (r2 + ucast w)" by (simp add: consumed_def)
    from consumed_trans[OF c12 this[unfolded q_def]] pk q
    have "consumed d p (k + 4 * (L div 4) + 2) r (r2 + ucast w)" by (simp add: q_def)
    with odd False al s32 d4 r2 kL Lm w e bit lm2 show ?thesis
      by (auto simp: csum16_def L_def[symmetric] add.assoc q_def Let_def)
  qed
qed

text \<open>The accumulated sum of the whole buffer, started at offset 0 or, for an odd address, 1.\<close>

lemma csum_tail:
  assumes "p + len \<le> length d" and "unat r < 65536"
  shows "\<exists>q len' r1 r2. csum16 addr d p len r = Some (q, len', r1)
     \<and> (if len' AND 1 \<noteq> 0 then do { b \<leftarrow> rd d q; Some (r1 + ucast b) } else Some r1) = Some r2
     \<and> consumed d p len r r2"
proof -
  from csum16_ok[OF assms, of addr] obtain len' r1 where
    s: "csum16 addr d p len r = Some (p + 2 * (len div 2), len', r1)"
    and m: "len' mod 2 = len mod 2" and r1: "unat r1 < 34359738368"
    and c: "consumed d p (2 * (len div 2)) r r1" by blast
  have b: "len' AND 1 = 0 \<longleftrightarrow> even len" using m unfolding and1 by presburger
  show ?thesis
  proof (cases "even len")
    case True
    with s b c show ?thesis by auto
  next
    case False
    define q where "q = p + 2 * (len div 2)"
    have len: "len = 2 * (len div 2) + 1" using False by presburger
    have q: "q < length d" using assms(1) len unfolding q_def by linarith
    have "unat (r1 + ucast (d ! q)) = unat r1 + unat (d ! q)"
    proof -
      have lt: "unat (d ! q) < 256" by simp
      then have "unat (d ! q) < 18446744073709551616"
        and "unat r1 + unat (d ! q) < 18446744073709551616" using r1 by linarith+
      then show ?thesis by (simp add: unat_bits)
    qed
    moreover have "take 1 (drop q d) = [d ! q]"
      using q by (simp add: take_Suc_conv_app_nth)
    ultimately have "consumed d q 1 r1 (r1 + ucast (d ! q))" by (simp add: consumed_def)
    from consumed_trans[OF c this[unfolded q_def]] q
    have "consumed d p (2 * (len div 2) + 1) r (r1 + ucast (d ! q))" by (simp add: q_def)
    then have "consumed d p len r (r1 + ucast (d ! q))" using len by metis
    with s b False q show ?thesis by (auto simp: q_def)
  qed
qed

lemma csum_acc_ok:
  assumes "len \<le> length d" and "0 < len"
  shows "\<exists>r. csum_acc addr d len = Some r \<and>
     ceq (unat r) (if odd addr then 256 * le_nat (take len d) else le_nat (take len d))"
proof (cases "odd addr")
  case False
  from csum_tail[of 0 len d 0 addr] assms(1) obtain q len' r1 r2 where
    "csum16 addr d 0 len 0 = Some (q, len', r1)"
    "(if len' AND 1 \<noteq> 0 then do { b \<leftarrow> rd d q; Some (r1 + ucast b) } else Some r1) = Some r2"
    "consumed d 0 len 0 r2" by auto
  with False show ?thesis by (auto simp: csum_acc_def and1 and.commute[of 1] consumed_def)
next
  case True
  define r0 :: u64 where "r0 = push_bit 8 (ucast (d ! 0))"
  have r0: "unat r0 = 256 * unat (d ! 0)"
  proof -
    have "unat (d ! 0) < 256" by simp
    then have "256 * unat (d ! 0) < 18446744073709551616" "unat (d ! 0) < 18446744073709551616"
      by linarith+
    then show ?thesis by (simp add: r0_def push_bit_eq_mult unat_bits)
  qed
  have "1 + (len - 1) \<le> length d" and "unat r0 < 65536"
    using assms unat_u8_less[of "d ! 0"] unfolding r0 by linarith+
  from csum_tail[OF this, of addr] obtain q len' r1 r2 where
    s: "csum16 addr d 1 (len - 1) r0 = Some (q, len', r1)"
    "(if len' AND 1 \<noteq> 0 then do { b \<leftarrow> rd d q; Some (r1 + ucast b) } else Some r1) = Some r2"
    and c: "consumed d 1 (len - 1) r0 r2" by blast
  have "take len d = d ! 0 # take (len - 1) (drop 1 d)"
    using assms by (cases d; cases len) auto
  then have "256 * le_nat (take len d) = 65536 * le_nat (take (len - 1) (drop 1 d)) + unat r0"
    by (simp add: r0)
  then have "ceq (256 * le_nat (take len d)) (unat r0 + le_nat (take (len - 1) (drop 1 d)))"
    using ceq_65536 by (simp add: add.commute)
  with c have "ceq (unat r2) (256 * le_nat (take len d))" by (simp add: consumed_def)
  moreover have "csum_acc addr d len = Some r2"
  proof -
    have "1 AND addr \<noteq> 0" using True and1[of addr] by (simp add: and.commute)
    moreover have "rd d 0 = Some (d ! 0)" by (rule rd_in) (use assms in linarith)
    ultimately show ?thesis using s by (simp add: csum_acc_def r0_def[symmetric])
  qed
  ultimately show ?thesis using True by auto
qed

lemma and_255: "(u :: u16) AND 255 = take_bit 8 u"
  by (simp add: take_bit_eq_mask mask_eq_exp_minus_1)

lemma swap16: "unat ((drop_bit 8 u AND 0xff) OR push_bit 8 (u AND 0xff) :: u16)
    = unat u div 256 + 256 * (unat u mod 256)"
proof -
  have "(drop_bit 8 u AND 0xff) OR push_bit 8 (u AND 0xff)
      = (drop_bit 8 u AND 0xff) + push_bit 8 (u AND 0xff)"
    unfolding and_255 by (rule disjunctive_add[symmetric]) (auto simp: bit_simps)
  moreover have "unat (drop_bit 8 u AND 0xff) = unat u div 256"
  proof -
    have "unat u div 256 < 256" using unat_u16_less[of u] by linarith
    then show ?thesis unfolding and_255 by (simp add: unat_bits)
  qed
  moreover have "unat (push_bit 8 (u AND 0xff)) = 256 * (unat u mod 256)"
  proof -
    have "256 * (unat u mod 256) < 65536"
      using mod_less_divisor[of 256 "unat u"] by linarith
    then show ?thesis unfolding and_255
      by (simp add: push_bit_eq_mult unat_bits)
  qed
  moreover have "unat u div 256 + 256 * (unat u mod 256) < 65536"
    using unat_u16_less[of u] mod_less_divisor[of 256 "unat u"] by linarith
  ultimately show ?thesis by (simp add: unat_word_ariths)
qed

lemma swap16_ceq:
  "ceq (unat ((drop_bit 8 u AND 0xff) OR push_bit 8 (u AND 0xff) :: u16)) (256 * unat u)"
proof -
  have e: "256 * unat u = 65536 * (unat u div 256) + 256 * (unat u mod 256)"
    using mult_div_mod_eq[of 256 "unat u"] by linarith
  show ?thesis unfolding swap16 unfolding e by (rule ceq_65536[symmetric])
qed

text \<open>The unrolled, alignment-dependent routine computes the word sum, unless the fold loses a carry.\<close>

lemma do_csum_word_sum:
  assumes "len \<le> length d" and "0 < len"
  shows "\<exists>r. csum_acc addr d len = Some r \<and> (\<exists>c. do_csum addr d len = Some c \<and>
     (\<not> loses_carry r \<longrightarrow> ceq (unat c) (word_sum (take len d))))"
proof -
  from csum_acc_ok[OF assms, of addr] obtain r where r: "csum_acc addr d len = Some r"
    and sum: "ceq (unat r) (if odd addr then 256 * le_nat (take len d) else le_nat (take len d))"
    by blast
  define u where "u = from64to16 r"
  define c where "c = (if 1 AND addr \<noteq> 0 then (drop_bit 8 u AND 0xff) OR push_bit 8 (u AND 0xff) else u)"
  have "do_csum addr d len = Some c"
    using r assms(2) by (simp add: do_csum_def c_def u_def Let_def)
  moreover have "ceq (unat c) (word_sum (take len d))" if "\<not> loses_carry r"
  proof -
    note u = from64to16_ceq[OF that, folded u_def]
    have par: "1 AND addr \<noteq> 0 \<longleftrightarrow> odd addr" using and1[of addr] by (simp add: and.commute)
    have "ceq (unat c) (le_nat (take len d))"
    proof (cases "odd addr")
      case False
      then show ?thesis using u sum par by (simp add: c_def)
    next
      case True
      then have "c = (drop_bit 8 u AND 0xff) OR push_bit 8 (u AND 0xff)"
        using par unfolding c_def by presburger
      then have "ceq (unat c) (256 * unat u)" using swap16_ceq[of u] by simp
      also have "ceq (256 * unat u) (256 * (256 * le_nat (take len d)))"
        by (rule ceq_mult) (use u sum True in simp)
      also have "ceq (256 * (256 * le_nat (take len d))) (le_nat (take len d))"
        using ceq_pow[of 2 "le_nat (take len d)"] by simp
      finally show ?thesis .
    qed
    then show ?thesis using le_nat_word_sum by metis
  qed
  ultimately show ?thesis using r by blast
qed


subsection \<open>Storing checksums into headers\<close>

definition csum_tcpudp_magic :: "u32 \<Rightarrow> u32 \<Rightarrow> nat \<Rightarrow> u8 \<Rightarrow> u16 \<Rightarrow> u16" where
  "csum_tcpudp_magic saddr daddr len proto csum =
     NOT (from64to16 (ucast saddr + ucast daddr + ucast csum
            + ucast (htonl (of_nat (len + unat proto)))))"

definition ip4_compute_csum :: "nat \<Rightarrow> bytes \<Rightarrow> nat \<Rightarrow> u16 option" where
  "ip4_compute_csum addr buff len = map_option (\<lambda>c. NOT c) (do_csum addr buff len)"

text \<open>\<open>ip\<close> is the packet from its IPv4 header on; \<open>ip_sum\<close> is at offset 10, \<open>ip_hl\<close> in byte 0.\<close>

definition ip4_fix_checksum :: "nat \<Rightarrow> bytes \<Rightarrow> bytes option" where
  "ip4_fix_checksum addr ip = do {
     ip \<leftarrow> st16 ip 10 0;
     b0 \<leftarrow> rd ip 0;
     c \<leftarrow> ip4_compute_csum addr ip (4 * unat (b0 AND 0x0F));
     st16 ip 10 c }"

text \<open>IPv6 addresses are buffers of 16 bytes.\<close>

definition csum_ipv6_magic :: "bytes \<Rightarrow> bytes \<Rightarrow> nat \<Rightarrow> u8 \<Rightarrow> u16 \<Rightarrow> u16 option" where
  "csum_ipv6_magic saddr daddr len proto csum = do {
     s0 \<leftarrow> ld32 saddr 0; s1 \<leftarrow> ld32 saddr 4; s2 \<leftarrow> ld32 saddr 8; s3 \<leftarrow> ld32 saddr 12;
     d0 \<leftarrow> ld32 daddr 0; d1 \<leftarrow> ld32 daddr 4; d2 \<leftarrow> ld32 daddr 8; d3 \<leftarrow> ld32 daddr 12;
     let a = ucast csum + ucast (htonl (of_nat (len + unat proto)))
             + ucast s0 + ucast s1 + ucast s2 + ucast s3
             + ucast d0 + ucast d1 + ucast d2 + ucast d3;
     Some (NOT (from64to16 a)) }"

definition IPPROTO_TCP :: u8 where "IPPROTO_TCP = 6"
definition IPPROTO_UDP :: u8 where "IPPROTO_UDP = 17"
definition IPPROTO_ICMP :: u8 where "IPPROTO_ICMP = 1"
definition IPPROTO_ICMPV6 :: u8 where "IPPROTO_ICMPV6 = 58"

definition tcp4_fix_checksum :: "nat \<Rightarrow> bytes \<Rightarrow> nat \<Rightarrow> u32 \<Rightarrow> u32 \<Rightarrow> bytes option" where
  "tcp4_fix_checksum addr tcp len src dst = do {
     tcp \<leftarrow> st16 tcp 16 0;
     c \<leftarrow> do_csum addr tcp len;
     st16 tcp 16 (csum_tcpudp_magic src dst len IPPROTO_TCP c) }"

definition tcp6_fix_checksum :: "nat \<Rightarrow> bytes \<Rightarrow> nat \<Rightarrow> bytes \<Rightarrow> bytes \<Rightarrow> bytes option" where
  "tcp6_fix_checksum addr tcp len src dst = do {
     tcp \<leftarrow> st16 tcp 16 0;
     c \<leftarrow> do_csum addr tcp len;
     m \<leftarrow> csum_ipv6_magic src dst len IPPROTO_TCP c;
     st16 tcp 16 m }"

text \<open>The IP header a segment belongs to: the two pointers of which the code takes the non-null one.\<close>

datatype ip_addrs = Addrs4 u32 u32 | Addrs6 bytes bytes | NoAddrs

definition tcp_fix_checksum :: "nat \<Rightarrow> bytes \<Rightarrow> nat \<Rightarrow> ip_addrs \<Rightarrow> bytes option" where
  "tcp_fix_checksum addr tcp len ip =
     (case ip of Addrs4 src dst \<Rightarrow> tcp4_fix_checksum addr tcp len src dst
      | Addrs6 src dst \<Rightarrow> tcp6_fix_checksum addr tcp len src dst
      | NoAddrs \<Rightarrow> Some tcp)"

definition udp4_fix_checksum :: "nat \<Rightarrow> bytes \<Rightarrow> nat \<Rightarrow> u32 \<Rightarrow> u32 \<Rightarrow> bytes option" where
  "udp4_fix_checksum addr udp len src dst = do {
     udp \<leftarrow> st16 udp 6 0;
     c \<leftarrow> do_csum addr udp len;
     st16 udp 6 (csum_tcpudp_magic src dst len IPPROTO_UDP c) }"

definition udp6_fix_checksum :: "nat \<Rightarrow> bytes \<Rightarrow> nat \<Rightarrow> bytes \<Rightarrow> bytes \<Rightarrow> bytes option" where
  "udp6_fix_checksum addr udp len src dst = do {
     udp \<leftarrow> st16 udp 6 0;
     c \<leftarrow> do_csum addr udp len;
     m \<leftarrow> csum_ipv6_magic src dst len IPPROTO_UDP c;
     st16 udp 6 m }"

definition udp_fix_checksum :: "nat \<Rightarrow> bytes \<Rightarrow> nat \<Rightarrow> ip_addrs \<Rightarrow> bytes option" where
  "udp_fix_checksum addr udp len ip =
     (case ip of Addrs4 src dst \<Rightarrow> udp4_fix_checksum addr udp len src dst
      | Addrs6 src dst \<Rightarrow> udp6_fix_checksum addr udp len src dst
      | NoAddrs \<Rightarrow> Some udp)"

definition icmp4_fix_checksum :: "nat \<Rightarrow> bytes \<Rightarrow> nat \<Rightarrow> bytes option" where
  "icmp4_fix_checksum addr icmp len = do {
     icmp \<leftarrow> st16 icmp 2 0;
     c \<leftarrow> do_csum addr icmp len;
     st16 icmp 2 (NOT c) }"

definition icmp6_fix_checksum :: "nat \<Rightarrow> bytes \<Rightarrow> nat \<Rightarrow> bytes \<Rightarrow> bytes \<Rightarrow> bytes option" where
  "icmp6_fix_checksum addr icmp len src dst = do {
     icmp \<leftarrow> st16 icmp 2 0;
     c \<leftarrow> do_csum addr icmp len;
     m \<leftarrow> csum_ipv6_magic src dst len IPPROTO_ICMPV6 c;
     st16 icmp 2 m }"

definition icmp_fix_checksum :: "nat \<Rightarrow> bytes \<Rightarrow> nat \<Rightarrow> (bytes \<times> bytes) option \<Rightarrow> bytes option" where
  "icmp_fix_checksum addr icmp len ip6 =
     (case ip6 of Some (src, dst) \<Rightarrow> icmp6_fix_checksum addr icmp len src dst
      | None \<Rightarrow> icmp4_fix_checksum addr icmp len)"


subsection \<open>Correctness of the stored checksums\<close>

lemma csum_loop_numeral [simp]:
  "csum_loop d p (numeral k) r c =
     do { w \<leftarrow> ld64 d p;
          csum_loop d (p + 8) (pred_numeral k) (r + c + w) (if w > r + c + w then 1 else 0) }"
  by (simp add: numeral_eq_Suc Let_def)

lemmas csum_eval = do_csum_def csum_acc_def csum16_def csum32_def csum64_def
  ld64_def ld32_def ld16_def st16_def wr_block_def rd_block_def le_step_def Let_def from64to16_def

lemma st16_in: "p + 2 \<le> length d \<Longrightarrow> st16 d p v = Some (d[p := ucast v, p + 1 := ucast (drop_bit 8 v)])"
  by (simp add: st16_def wr_block_Cons)

lemma unat_not16: "unat (NOT c :: u16) = 65535 - unat c"
proof -
  have "NOT c = 65535 - c" by (simp add: not_eq_complement)
  moreover have "unat c \<le> 65535" using unat_u16_less[of c] by linarith
  ultimately show ?thesis by (simp add: unat_sub_if_size word_size)
qed

lemma le_nat_update:
  "i < length d \<Longrightarrow> le_nat (d[i := x]) = le_nat (d[i := 0]) + 256 ^ i * unat x"
proof (induction d arbitrary: i)
  case (Cons b d)
  then show ?case by (cases i) (auto simp: algebra_simps)
qed simp

lemma store_ceq:
  assumes "even p" and "p + 2 \<le> length d"
  shows "ceq (le_nat (d[p := ucast v, p + 1 := ucast (drop_bit 8 (v :: u16))]))
           (le_nat (d[p := 0, p + 1 := 0]) + unat v)"
proof -
  have lo: "unat (ucast v :: u8) = unat v mod 256" by (simp add: unat_bits)
  have hi: "unat (ucast (drop_bit 8 v) :: u8) = unat v div 256"
  proof -
    have "unat v div 256 < 256" using unat_u16_less[of v] by linarith
    then show ?thesis by (simp add: unat_bits)
  qed
  have "le_nat (d[p := ucast v, p + 1 := ucast (drop_bit 8 v)])
      = le_nat (d[p := ucast v, p + 1 := 0]) + 256 ^ (p + 1) * unat (ucast (drop_bit 8 v) :: u8)"
    by (rule le_nat_update) (use assms(2) in simp)
  also have "le_nat (d[p := ucast v, p + 1 := 0])
      = le_nat (d[p + 1 := 0, p := 0]) + 256 ^ p * unat (ucast v :: u8)"
    using le_nat_update[of p "d[p + 1 := 0]" "ucast v"] assms(2) by (simp add: list_update_swap)
  also have "d[p + 1 := 0, p := 0] = d[p := 0, p + 1 := 0]" by (simp add: list_update_swap)
  finally have "le_nat (d[p := ucast v, p + 1 := ucast (drop_bit 8 v)])
      = le_nat (d[p := 0, p + 1 := 0]) + 256 ^ p * (unat v mod 256 + 256 * (unat v div 256))"
    unfolding lo hi by (simp only: power_add power_one_right add_mult_distrib2 ac_simps)
  then have "le_nat (d[p := ucast v, p + 1 := ucast (drop_bit 8 v)])
      = le_nat (d[p := 0, p + 1 := 0]) + 256 ^ p * unat v"
    by (simp only: mod_mult_div_eq)
  then show ?thesis using ceq_add[OF refl ceq_pow[OF assms(1), of "unat v"]] by metis
qed

lemma not16_ceq: "ceq (unat c) s \<Longrightarrow> ceq (s + unat (NOT c :: u16)) 0"
proof -
  assume a: "ceq (unat c) s"
  have "unat c + unat (NOT c) = 65535"
    using unat_u16_less[of c] unfolding unat_not16 by linarith
  then show ?thesis using ceq_add[OF a refl, of "unat (NOT c)"] by simp
qed

text \<open>Zeroing the checksum field, summing, and storing a value into the field.\<close>

definition zeroed :: "bytes \<Rightarrow> nat \<Rightarrow> bytes" where
  "zeroed d p = d[p := 0, p + 1 := 0]"

lemma stored_sum:
  assumes "even p" and "p + 2 \<le> n" and "n \<le> length d"
  shows "ceq (word_sum (take n ((zeroed d p)[p := ucast v, p + 1 := ucast (drop_bit 8 (v :: u16))])))
           (word_sum (take n (zeroed d p)) + unat v)"
proof -
  have "take n ((zeroed d p)[p := ucast v, p + 1 := ucast (drop_bit 8 v)])
      = (take n d)[p := ucast v, p + 1 := ucast (drop_bit 8 v)]"
    by (simp add: zeroed_def take_update_swap list_update_swap)
  moreover have "take n (zeroed d p) = (take n d)[p := 0, p + 1 := 0]"
    by (simp add: zeroed_def take_update_swap)
  ultimately show ?thesis
    using store_ceq[OF assms(1), of "take n d" v] assms le_nat_word_sum
      ceq_add[OF le_nat_word_sum[of "(take n d)[p := 0, p + 1 := 0]"] refl, of "unat v"]
    by simp
qed

lemma ip4_fix_checksum_zeroed:
  assumes "12 \<le> length ip"
  shows "ip4_fix_checksum addr ip =
     map_option (\<lambda>c. (zeroed ip 10)[10 := ucast (NOT c), 11 := ucast (drop_bit 8 (NOT c))])
       (do_csum addr (zeroed ip 10) (4 * unat (ip ! 0 AND 0x0F)))"
proof -
  have "rd (ip[10 := 0, 11 := 0]) 0 = Some (ip ! 0)" using assms by (subst rd_in) auto
  then show ?thesis
    using assms
  by (cases "do_csum addr (zeroed ip 10) (4 * unat (ip ! 0 AND 0x0F))")
     (simp_all add: ip4_fix_checksum_def st16_in ip4_compute_csum_def zeroed_def)
qed

lemma ip4_fix_checksum_correct:
  assumes "hl = 4 * unat (ip ! 0 AND 0x0F)" and "12 \<le> hl" and "hl \<le> length ip"
  shows "\<exists>e r. ip4_fix_checksum addr ip = Some e \<and> length e = length ip
     \<and> (\<forall>i. i \<noteq> 10 \<and> i \<noteq> 11 \<longrightarrow> e ! i = ip ! i)
     \<and> csum_acc addr (zeroed ip 10) hl = Some r
     \<and> (\<not> loses_carry r \<longrightarrow> word_sum (take hl e) mod 65535 = 0)"
proof -
  from do_csum_word_sum[of hl "zeroed ip 10" addr] assms obtain r c where
    r: "csum_acc addr (zeroed ip 10) hl = Some r" and c: "do_csum addr (zeroed ip 10) hl = Some c"
    and sum: "\<not> loses_carry r \<longrightarrow> ceq (unat c) (word_sum (take hl (zeroed ip 10)))"
    by (auto simp: zeroed_def)
  define e where "e = (zeroed ip 10)[10 := ucast (NOT c), 10 + 1 := ucast (drop_bit 8 (NOT c))]"
  have "ip4_fix_checksum addr ip = Some e"
    using ip4_fix_checksum_zeroed[of ip addr] assms c by (simp add: e_def)
  moreover have "ceq (word_sum (take hl e)) 0" if "\<not> loses_carry r"
    using stored_sum[of 10 hl ip "NOT c"] not16_ceq[OF sum[rule_format, OF that]] assms
    by (simp add: e_def)
  moreover have "length e = length ip" "\<forall>i. i \<noteq> 10 \<and> i \<noteq> 11 \<longrightarrow> e ! i = ip ! i"
    by (simp_all add: e_def zeroed_def)
  ultimately show ?thesis using r by auto
qed

lemma le_nat_be_bytes4: "ceq (le_nat (be_bytes 4 (v :: u32))) (256 * unat v)"
proof -
  define a b c d where "a = unat (ucast (drop_bit 24 v) :: u8)"
    and "b = unat (ucast (drop_bit 16 v) :: u8)"
    and "c = unat (ucast (drop_bit 8 v) :: u8)" and "d = unat (ucast v :: u8)"
  have "be_nat (be_bytes 4 v) = unat v"
  proof -
    have "be_nat (be_bytes 4 v) = unat (be_word (be_bytes 4 v) :: u32)"
      by (subst unat_be_word) (simp_all del: be_bytes_numeral)
    also have "\<dots> = unat v"
      unfolding be_word_be_bytes by (simp add: unat_bits)
    finally show ?thesis .
  qed
  then have v: "unat v = 16777216 * a + 65536 * b + 256 * c + d"
    by (simp add: a_def b_def c_def d_def)
  have "256 * unat v = (a + 256 * b + c + 256 * d) + 65535 * (65537 * a + 256 * b + c)"
    unfolding v by simp
  moreover have "le_nat (be_bytes 4 v) = (a + 256 * b + c + 256 * d) + 65535 * (c + 256 * d)"
    by (simp add: a_def b_def c_def d_def)
  ultimately show ?thesis by (metis mod_mult_self2)
qed

lemma htonl_ceq: "ceq (unat (htonl v)) (256 * unat v)"
  using le_nat_be_bytes4[of v] by (simp add: htonl_def unat_foldr_le del: be_bytes_numeral)

lemma tcpudp_magic_ceq:
  fixes saddr daddr :: u32 and csum :: u16 and proto :: u8 and len :: nat
  defines "acc \<equiv> ucast saddr + ucast daddr + ucast csum + ucast (htonl (of_nat (len + unat proto))) :: u64"
  assumes "\<not> loses_carry acc" and "len + unat proto < 4294967296"
  shows "ceq (unat saddr + unat daddr + unat csum + 256 * (len + unat proto)
              + unat (csum_tcpudp_magic saddr daddr len proto csum)) 0"
proof -
  define h where "h = htonl (of_nat (len + unat proto))"
  have n: "unat (of_nat (len + unat proto) :: u32) = len + unat proto"
    unfolding unat_of_nat using assms(3) by (simp add: take_bit_nat_eq_self)
  have h: "ceq (unat h) (256 * (len + unat proto))"
    using htonl_ceq[of "of_nat (len + unat proto)"] unfolding n h_def .
  have b: "unat saddr < 4294967296" "unat daddr < 4294967296" "unat csum < 65536"
    "unat h < 4294967296" by simp_all
  have "unat acc = unat saddr + unat daddr + unat csum + unat h"
  proof -
    have "unat saddr + unat daddr + unat csum + unat h < 18446744073709551616"
      using b by linarith
    moreover have "acc = ucast saddr + ucast daddr + ucast csum + ucast h"
      by (simp only: acc_def h_def)
    ultimately show ?thesis by (simp add: unat_bits)
  qed
  then have "ceq (unat (from64to16 acc)) (unat saddr + unat daddr + unat csum + unat h)"
    using from64to16_ceq[OF assms(2)] by simp
  also have "ceq (unat saddr + unat daddr + unat csum + unat h)
      (unat saddr + unat daddr + unat csum + 256 * (len + unat proto))"
    by (rule ceq_add[OF refl h])
  finally have s: "ceq (unat (from64to16 acc)) (unat saddr + unat daddr + unat csum + 256 * (len + unat proto))" .
  have "csum_tcpudp_magic saddr daddr len proto csum = NOT (from64to16 acc)"
    by (simp add: csum_tcpudp_magic_def acc_def)
  with not16_ceq[OF s] show ?thesis by simp
qed

text \<open>The pseudo header of RFC 793 over IPv4, addresses as loaded from the IP header.\<close>

definition pseudo4 :: "u32 \<Rightarrow> u32 \<Rightarrow> u8 \<Rightarrow> nat \<Rightarrow> nat" where
  "pseudo4 src dst proto len = unat src + unat dst + word_sum ([0, proto] @ be_bytes 2 (of_nat len :: u16))"

lemma pseudo4_ceq:
  assumes "len < 65536"
  shows "ceq (pseudo4 src dst proto len) (unat src + unat dst + 256 * (len + unat proto))"
proof -
  have n: "unat (of_nat len :: u16) = len" using assms by (simp add: unat_of_nat take_bit_nat_eq_self)
  have "unat (ucast (drop_bit 8 (of_nat len :: u16)) :: u8) = len div 256"
  proof -
    have "len div 256 < 256" using assms by linarith
    then show ?thesis by (simp add: unat_bits n)
  qed
  moreover have "unat (ucast (of_nat len :: u16) :: u8) = len mod 256" by (simp add: unat_bits n)
  ultimately have p: "pseudo4 src dst proto len
      = unat src + unat dst + (256 * unat proto + (256 * (len mod 256) + len div 256))"
    by (simp add: pseudo4_def)
  have e: "256 * len = 65536 * (len div 256) + 256 * (len mod 256)"
    using mult_div_mod_eq[of 256 len] by linarith
  have "ceq (256 * len) (256 * (len mod 256) + len div 256)"
    unfolding e using ceq_65536[of "len div 256" "256 * (len mod 256)"] by (simp add: add.commute)
  from ceq_add[OF refl this, of "unat src + unat dst + 256 * unat proto"]
  show ?thesis unfolding p by (simp add: algebra_simps)
qed

lemma fix4_correct:
  assumes stored: "\<And>z c. z = zeroed d p \<Longrightarrow> do_csum addr z len = Some c \<Longrightarrow>
      fixed = st16 z p (csum_tcpudp_magic src dst len proto c)"
    and p: "even p" "p + 2 \<le> len" "len \<le> length d" "len < 65536"
  shows "\<exists>e r c. fixed = Some e \<and> length e = length d \<and> (\<forall>i. i \<noteq> p \<and> i \<noteq> p + 1 \<longrightarrow> e ! i = d ! i)
     \<and> csum_acc addr (zeroed d p) len = Some r \<and> do_csum addr (zeroed d p) len = Some c
     \<and> (\<not> loses_carry r \<and>
        \<not> loses_carry (ucast src + ucast dst + ucast c + ucast (htonl (of_nat (len + unat proto))))
        \<longrightarrow> (pseudo4 src dst proto len + word_sum (take len e)) mod 65535 = 0)"
proof -
  from do_csum_word_sum[of len "zeroed d p" addr] p obtain r c where
    r: "csum_acc addr (zeroed d p) len = Some r" and c: "do_csum addr (zeroed d p) len = Some c"
    and sum: "\<not> loses_carry r \<longrightarrow> ceq (unat c) (word_sum (take len (zeroed d p)))"
    by (auto simp: zeroed_def)
  define m where "m = csum_tcpudp_magic src dst len proto c"
  define e where "e = (zeroed d p)[p := ucast m, p + 1 := ucast (drop_bit 8 m)]"
  have e: "fixed = Some e"
    using stored[OF refl c] p by (simp add: e_def m_def st16_in zeroed_def)
  have "(pseudo4 src dst proto len + word_sum (take len e)) mod 65535 = 0"
    if nl: "\<not> loses_carry r"
      "\<not> loses_carry (ucast src + ucast dst + ucast c + ucast (htonl (of_nat (len + unat proto))))"
  proof -
    let ?P = "unat src + unat dst + 256 * (len + unat proto)"
    have "ceq (word_sum (take len e)) (word_sum (take len (zeroed d p)) + unat m)"
      unfolding e_def by (rule stored_sum[OF p(1,2,3)])
    also have "ceq (word_sum (take len (zeroed d p)) + unat m) (unat c + unat m)"
      by (rule ceq_add) (use sum nl in simp_all)
    finally have w: "ceq (word_sum (take len e)) (unat c + unat m)" .
    have "ceq (pseudo4 src dst proto len + word_sum (take len e)) (?P + (unat c + unat m))"
      by (rule ceq_add[OF pseudo4_ceq[OF p(4)] w])
    also have "?P + (unat c + unat m)
        = unat src + unat dst + unat c + 256 * (len + unat proto) + unat m" by simp
    also have "ceq \<dots> 0"
      unfolding m_def
      by (rule tcpudp_magic_ceq[OF nl(2)]) (use p(4) unat_u8_less[of proto] in linarith)
    finally show ?thesis by simp
  qed
  then show ?thesis using e r c by (auto simp: e_def zeroed_def)
qed

lemma tcp4_fix_checksum_correct:
  assumes "18 \<le> len" and "len \<le> length tcp" and "len < 65536"
  shows "\<exists>e r c. tcp4_fix_checksum addr tcp len src dst = Some e \<and> length e = length tcp
     \<and> (\<forall>i. i \<noteq> 16 \<and> i \<noteq> 17 \<longrightarrow> e ! i = tcp ! i)
     \<and> csum_acc addr (zeroed tcp 16) len = Some r \<and> do_csum addr (zeroed tcp 16) len = Some c
     \<and> (\<not> loses_carry r \<and>
        \<not> loses_carry (ucast src + ucast dst + ucast c + ucast (htonl (of_nat (len + unat IPPROTO_TCP))))
        \<longrightarrow> (pseudo4 src dst IPPROTO_TCP len + word_sum (take len e)) mod 65535 = 0)"
  using fix4_correct[of tcp 16 addr len "tcp4_fix_checksum addr tcp len src dst" src dst IPPROTO_TCP] assms
  by (simp add: tcp4_fix_checksum_def st16_in zeroed_def)

text \<open>C36: Checksums of IPv4 headers. ip4_fix_checksum succeeds on every header that fits the buffer, changes
  only the two checksum bytes, and the header it returns has a one's complement sum of zero, unless
  the 64-bit accumulator is one of those on which from64to16 loses the carry.\<close>

theorem ip4_fix_checksum_verifies:
  assumes "hl = 4 * unat (ip ! 0 AND 0x0F)" and "12 \<le> hl" and "hl \<le> length ip"
  shows "\<exists>e r. ip4_fix_checksum addr ip = Some e \<and> length e = length ip
     \<and> (\<forall>i. i \<noteq> 10 \<and> i \<noteq> 11 \<longrightarrow> e ! i = ip ! i)
     \<and> csum_acc addr (zeroed ip 10) hl = Some r
     \<and> (\<not> loses_carry r \<longrightarrow> word_sum (take hl e) mod 65535 = 0)"
  using ip4_fix_checksum_correct[OF assms] .

definition sample_ip4 :: bytes where
  "sample_ip4 = [0x45,0,0,0x1c,0,0,0,0,64,17,0,0,10,0,0,1,10,0,0,2]"

lemma ip4_fix_checksum_verifies_witness:
  "\<exists>e r. ip4_fix_checksum 0 sample_ip4 = Some e \<and> length e = 20
     \<and> csum_acc 0 (zeroed sample_ip4 10) 20 = Some r
     \<and> (\<not> loses_carry r \<longrightarrow> word_sum (take 20 e) mod 65535 = 0)"
proof -
  have "(20 :: nat) = 4 * unat (sample_ip4 ! 0 AND 0x0F)" and "(20 :: nat) \<le> length sample_ip4"
    by (simp_all add: sample_ip4_def)
  from ip4_fix_checksum_verifies[OF this(1) _ this(2), of 0] show ?thesis
    by (auto simp: sample_ip4_def)
qed

text \<open>A header on which from64to16 drops the end-around carry: its accumulator is 0x1FFFFFFFF and
  the checksum stored is off by one, so that the header does not verify.\<close>

theorem ip4_fix_checksum_off_by_one:
  "csum_acc 0 [0x45,0,0,0x1c,0,0,0,0,64,17,0,0,123,238,255,227,255,255,255,255] 20 = Some 0x1FFFFFFFF
   \<and> map_option (\<lambda>e. word_sum e mod 65535)
       (ip4_fix_checksum 0 [0x45,0,0,0x1c,0,0,0,0,64,17,0,0,123,238,255,227,255,255,255,255]) = Some 1"
  by (simp add: ip4_fix_checksum_def ip4_compute_csum_def csum_eval)

text \<open>TCP over IPv4. The segment and its RFC 793 pseudo header sum to zero after
  tcp4_fix_checksum, unless one of the two folds loses its carry.\<close>

theorem tcp4_fix_checksum_verifies:
  assumes "18 \<le> len" and "len \<le> length tcp" and "len < 65536"
  shows "\<exists>e r c. tcp4_fix_checksum addr tcp len src dst = Some e \<and> length e = length tcp
     \<and> (\<forall>i. i \<noteq> 16 \<and> i \<noteq> 17 \<longrightarrow> e ! i = tcp ! i)
     \<and> csum_acc addr (zeroed tcp 16) len = Some r \<and> do_csum addr (zeroed tcp 16) len = Some c
     \<and> (\<not> loses_carry r \<and>
        \<not> loses_carry (ucast src + ucast dst + ucast c + ucast (htonl (of_nat (len + unat IPPROTO_TCP))))
        \<longrightarrow> (pseudo4 src dst IPPROTO_TCP len + word_sum (take len e)) mod 65535 = 0)"
  using tcp4_fix_checksum_correct[OF assms] .

definition sample_tcp :: bytes where
  "sample_tcp = [0x04,0xd2,0,80, 0,0,0,1, 0,0,0,2, 0x50,0x18,2,0, 0xde,0xad,0,0, 0x47,0x45,0x54]"

lemma tcp4_fix_checksum_verifies_witness:
  "\<exists>e. tcp4_fix_checksum 3 sample_tcp 23 0x0100000A 0x0200000A = Some e \<and> length e = 23"
proof -
  have "(23 :: nat) \<le> length sample_tcp" by (simp add: sample_tcp_def)
  from tcp4_fix_checksum_verifies[OF _ this, of 3 "0x0100000A" "0x0200000A"] show ?thesis
    by (auto simp: sample_tcp_def)
qed

text \<open>udp4_fix_checksum stores a computed checksum of zero as it is; a receiver of RFC 768 reads it as
  "no checksum".\<close>

theorem udp4_fix_checksum_stores_zero:
  "udp4_fix_checksum 0 [0,53,0,53,0,8,0xde,0xad] 8 0x74FF 0 = Some [0,53,0,53,0,8,0,0]"
  by (simp add: udp4_fix_checksum_def csum_tcpudp_magic_def htonl_def IPPROTO_UDP_def csum_eval)

end
