(* ===== verification/Helpers.thy ===== *)
theory Helpers
  imports Checksum
begin

text \<open>
  src/nfq2/helpers.c: the string, hexadecimal, bit-copy and array helpers the other components
  call. A C string is the list of its bytes without the terminating NUL, and a pointer into it is
  the remaining suffix, so that \<open>[]\<close> is the pointer to the NUL. The locale is "C".
\<close>

subsection \<open>Characters\<close>

definition to_upper :: "u8 \<Rightarrow> u8" where
  "to_upper c = (if ch (CHR ''a'') \<le> c \<and> c \<le> ch (CHR ''z'') then c - 32 else c)"

definition to_lower :: "u8 \<Rightarrow> u8" where
  "to_lower c = (if ch (CHR ''A'') \<le> c \<and> c \<le> ch (CHR ''Z'') then c + 32 else c)"

definition is_letter :: "u8 \<Rightarrow> bool" where
  "is_letter c \<longleftrightarrow> (c \<ge> ch (CHR ''a'') \<and> c \<le> ch (CHR ''z'')) \<or> (c \<ge> ch (CHR ''A'') \<and> c \<le> ch (CHR ''Z''))"

definition is_digit :: "u8 \<Rightarrow> bool" where
  "is_digit c \<longleftrightarrow> c \<ge> ch (CHR ''0'') \<and> c \<le> ch (CHR ''9'')"

definition is_space :: "u8 \<Rightarrow> bool" where
  "is_space c \<longleftrightarrow> c = 32 \<or> 9 \<le> c \<and> c \<le> 13"

text \<open>\<open>digit_val\<close> and \<open>dec_val\<close> are the digit loop of the C library's number parsers.\<close>

definition digit_val :: "u8 \<Rightarrow> nat" where
  "digit_val c = unat c - 48"

definition dec_val :: "bytes \<Rightarrow> nat" where
  "dec_val s = foldl (\<lambda>n c. 10 * n + digit_val c) 0 s"

text \<open>\<open>strtol\<close> and \<open>strtoul\<close> in base 10 on a 64-bit \<open>long\<close>: the value and the rest, \<open>None\<close> if there is no digit.\<close>

definition num_body :: "bytes \<Rightarrow> (bool \<times> nat \<times> bytes) option" where
  "num_body s =
     (let s = dropWhile is_space s;
          neg = (s \<noteq> [] \<and> hd s = ch (CHR ''-''));
          s = (if s \<noteq> [] \<and> (hd s = ch (CHR ''-'') \<or> hd s = ch (CHR ''+'')) then tl s else s);
          ds = takeWhile is_digit s
      in if ds = [] then None else Some (neg, dec_val ds, dropWhile is_digit s))"

definition c_strtol :: "bytes \<Rightarrow> int" where
  "c_strtol s = (case num_body s of None \<Rightarrow> 0
     | Some (neg, n, _) \<Rightarrow>
         if neg then max (- (2 ^ 63)) (- int n) else min (2 ^ 63 - 1) (int n))"

definition c_strtoul :: "bytes \<Rightarrow> (u64 \<times> bytes) option" where
  "c_strtoul s = (case num_body s of None \<Rightarrow> None
     | Some (neg, n, r) \<Rightarrow>
         Some (if n \<ge> 2 ^ 64 then - 1 else if neg then - of_nat n else of_nat n, r))"

definition c_atoi :: "bytes \<Rightarrow> 32 word" where
  "c_atoi s = of_int (c_strtol s)"

text \<open>\<open>sscanf\<close> with \<open>%u\<close>: the \<open>unsigned long\<close> value cut to 32 bits.\<close>

definition scan_u :: "bytes \<Rightarrow> (u32 \<times> bytes) option" where
  "scan_u s = map_option (\<lambda>(v, r). (ucast v, r)) (c_strtoul s)"

subsection \<open>Arrays and strings\<close>

text \<open>The macro \<open>UNIQ_SORT\<close>: \<open>unique_size_t\<close>, \<open>unique_ssize_t\<close>. The array and the new count.\<close>

function uniq_loop :: "'a list \<Rightarrow> nat \<Rightarrow> nat \<Rightarrow> nat \<Rightarrow> ('a list \<times> nat) option" where
  "uniq_loop pu ct i j =
     (if j < ct then
        case rd pu j of None \<Rightarrow> None
        | Some u \<Rightarrow> (case scan (\<lambda>x. x = u) pu (j + 1) ct of None \<Rightarrow> None
            | Some j' \<Rightarrow> (case wr pu i u of None \<Rightarrow> None
                | Some pu' \<Rightarrow> uniq_loop pu' ct (i + 1) j'))
      else Some (pu, i))"
  by pat_completeness auto
termination
  by (relation "measure (\<lambda>(pu, ct, i, j). ct - j)")
     (auto dest!: scan_bounds)

declare uniq_loop.simps [simp del]

definition unique_size_t :: "u64 list \<Rightarrow> nat \<Rightarrow> (u64 list \<times> nat) option" where
  "unique_size_t pu ct = uniq_loop pu ct 0 0"

definition unique_ssize_t :: "int list \<Rightarrow> nat \<Rightarrow> (int list \<times> nat) option" where
  "unique_ssize_t pu ct = uniq_loop pu ct 0 0"

text \<open>The library's \<open>qsort\<close> with the order of the comparison functions: the first \<open>ct\<close> cells, sorted.\<close>

definition qsort_size_t :: "u64 list \<Rightarrow> nat \<Rightarrow> u64 list" where
  "qsort_size_t array ct = sort (take ct array) @ drop ct array"

definition qsort_ssize_t :: "int list \<Rightarrow> nat \<Rightarrow> int list" where
  "qsort_ssize_t array ct = sort (take ct array) @ drop ct array"

fun str_index_from :: "nat \<Rightarrow> bytes list \<Rightarrow> bytes \<Rightarrow> int" where
  "str_index_from i [] str = - 1"
| "str_index_from i (s # strs) str = (if s = str then int i else str_index_from (i + 1) strs str)"

definition str_index :: "bytes list \<Rightarrow> bytes \<Rightarrow> int" where
  "str_index strs str = str_index_from 0 strs str"

function rtrim :: "bytes \<Rightarrow> bytes" where
  "rtrim s = (if s \<noteq> [] \<and> (last s = 10 \<or> last s = 13) then rtrim (butlast s) else s)"
  by pat_completeness auto
termination by (relation "measure length") auto

declare rtrim.simps [simp del]

fun replace_char :: "bytes \<Rightarrow> u8 \<Rightarrow> u8 \<Rightarrow> bytes" where
  "replace_char [] from to = []"
| "replace_char (c # s) from to = (if c = from then to else c) # replace_char s from to"

text \<open>\<open>strncasecmp(s, needle, len) == 0\<close> for a \<open>needle\<close> of at least \<open>len\<close> characters.\<close>

definition strncaseeq :: "bytes \<Rightarrow> nat \<Rightarrow> bytes \<Rightarrow> bool option" where
  "strncaseeq d p needle =
     map_option (\<lambda>s. map to_lower s = map to_lower needle) (rd_block d p (length needle))"

text \<open>
  \<open>strncasestr(s, needle, slen)\<close>: \<open>Some (Some p)\<close> is a pointer to offset \<open>p\<close>, \<open>Some None\<close> is NULL.
  The outer and the inner do-while loop advance the same pointer: \<open>strncasestr_scan\<close> is the inner one.
\<close>

function strncasestr_scan :: "bytes \<Rightarrow> u8 \<Rightarrow> nat \<Rightarrow> nat \<Rightarrow> (nat \<times> nat) option option" where
  "strncasestr_scan d c p slen =
     (if slen = 0 then Some None
      else case rd d p of None \<Rightarrow> None
        | Some sc \<Rightarrow>
            if to_upper c = to_upper sc then Some (Some (p + 1, slen - 1))
            else strncasestr_scan d c (p + 1) (slen - 1))"
  by pat_completeness auto
termination by (relation "measure (\<lambda>(d, c, p, slen). slen)") auto

declare strncasestr_scan.simps [simp del]

lemma strncasestr_scan_less:
  "strncasestr_scan d c p slen = Some (Some (q, n)) \<Longrightarrow>
   n < slen \<and> q + n = p + slen \<and> p < q \<and> q \<le> length d
   \<and> to_upper (d ! (q - 1)) = to_upper c \<and> (\<forall>k. p \<le> k \<and> k < q - 1 \<longrightarrow> to_upper (d ! k) \<noteq> to_upper c)"
proof (induction d c p slen rule: strncasestr_scan.induct)
  case (1 d c p slen)
  from "1.prems" obtain sc where sc: "slen \<noteq> 0" "p < length d" "sc = d ! p"
    by (subst (asm) strncasestr_scan.simps) (auto split: if_splits option.splits simp: rd_eq_Some)
  show ?case
  proof (cases "to_upper c = to_upper sc")
    case True
    with "1.prems" sc show ?thesis by (subst (asm) strncasestr_scan.simps) auto
  next
    case False
    with "1.prems" sc have s: "strncasestr_scan d c (p + 1) (slen - 1) = Some (Some (q, n))"
      by (subst (asm) strncasestr_scan.simps) simp
    from "1.IH"[OF sc(1) _ False s] sc
    have ih: "n < slen - 1" "q + n = p + 1 + (slen - 1)" "p + 1 < q" "q \<le> length d"
      "to_upper (d ! (q - 1)) = to_upper c"
      "\<forall>k. p + 1 \<le> k \<and> k < q - 1 \<longrightarrow> to_upper (d ! k) \<noteq> to_upper c" by simp_all
    have "to_upper (d ! k) \<noteq> to_upper c" if "p \<le> k" "k < q - 1" for k
      using ih(6) False sc that by (cases "k = p") auto
    with ih sc show ?thesis by simp
  qed
qed

function strncasestr_loop :: "bytes \<Rightarrow> u8 \<Rightarrow> bytes \<Rightarrow> nat \<Rightarrow> nat \<Rightarrow> nat option option" where
  "strncasestr_loop d c needle p slen =
     (case strncasestr_scan d c p slen of
        None \<Rightarrow> None
      | Some None \<Rightarrow> Some None
      | Some (Some (q, n)) \<Rightarrow>
          if length needle > n then Some None
          else (case strncaseeq d q needle of None \<Rightarrow> None
            | Some eq \<Rightarrow> if eq then Some (Some (q - 1)) else strncasestr_loop d c needle q n))"
  by pat_completeness auto
termination
  by (relation "measure (\<lambda>(d, c, needle, p, slen). slen)") (auto dest: strncasestr_scan_less)

declare strncasestr_loop.simps [simp del]

definition strncasestr :: "bytes \<Rightarrow> nat \<Rightarrow> bytes \<Rightarrow> nat \<Rightarrow> nat option option" where
  "strncasestr d p needle slen =
     (case needle of [] \<Rightarrow> Some (Some p)
      | c # needle \<Rightarrow> strncasestr_loop d c needle p slen)"

definition is_identifier :: "bytes \<Rightarrow> bool" where
  "is_identifier p =
     (case p of [] \<Rightarrow> False
      | c # s \<Rightarrow> (c = ch (CHR ''_'') \<or> is_letter c)
          \<and> list_all (\<lambda>c. is_letter c \<or> is_digit c \<or> c = ch (CHR ''_'')) s)"

text \<open>
  \<open>expand_bits(target, source, source_bitlen, target_bytelen)\<close>; the lengths are C \<open>unsigned int\<close>.
\<close>

definition expand_bits :: "bytes \<Rightarrow> bytes \<Rightarrow> u32 \<Rightarrow> u32 \<Rightarrow> bytes option" where
  "expand_bits target source source_bitlen target_bytelen =
     (let target_bitlen = push_bit 3 target_bytelen;
          bitlen = (if target_bitlen < source_bitlen then target_bitlen else source_bitlen);
          bytelen = drop_bit 3 bitlen in do {
        target \<leftarrow>
          (if target_bytelen - bytelen \<ge> 1
           then wr_block target (unat bytelen) (replicate (unat (target_bytelen - bytelen)) 0)
           else Some target);
        s \<leftarrow> rd_block source 0 (unat bytelen);
        target \<leftarrow> wr_block target 0 s;
        let bitlen = bitlen AND 7;
        (if bitlen \<noteq> 0 then do {
           b \<leftarrow> rd source (unat bytelen);
           wr target (unat bytelen) (b AND NOT (push_bit (8 - unat bitlen) 1 - 1)) }
         else Some target) })"

text \<open>
  \<open>strip_host_to_ip(host)\<close>: the returned flag and the string left in \<open>host\<close>. \<open>inet_pton\<close> for the two
  address families is a parameter: whether it accepts the text.
\<close>

definition strip_host_to_ip :: "(bytes \<Rightarrow> bool) \<Rightarrow> (bytes \<Rightarrow> bool) \<Rightarrow> bytes \<Rightarrow> bool \<times> bytes" where
  "strip_host_to_ip pton6 pton4 host =
     (let h = dropWhile (\<lambda>c. c = 32 \<or> c = 9) host in
      if length h \<ge> 2 then
        if hd h = ch (CHR ''['') then
          (let h = tl h; a = takeWhile (\<lambda>c. c \<noteq> ch (CHR '']'')) h in
           if length a < length h then (pton6 a, a) else (False, host))
        else if pton6 h then (True, h)
        else (let a = takeWhile (\<lambda>c. c \<noteq> ch (CHR '':'')) h in (pton4 a, a))
      else (False, host))"

text \<open>\<open>struct sockaddr\<close> by family, the port in network byte order as it is stored.\<close>

datatype sockaddr = SA_INET (sin_addr: u32) (sa_port: u16) | SA_INET6 (sin6_addr: bytes) (sa_port: u16) | SA_OTHER

definition saport :: "sockaddr \<Rightarrow> u16" where
  "saport sa = bswap16 (case sa of SA_INET a p \<Rightarrow> p | SA_INET6 a p \<Rightarrow> p | SA_OTHER \<Rightarrow> 0)"

definition sa_has_addr :: "sockaddr \<Rightarrow> bool" where
  "sa_has_addr sa = (case sa of SA_INET a p \<Rightarrow> a \<noteq> 0 | SA_INET6 a p \<Rightarrow> a \<noteq> replicate 16 0 | SA_OTHER \<Rightarrow> False)"

definition ipv6_addr_is_zero :: "bytes \<Rightarrow> bool" where
  "ipv6_addr_is_zero a \<longleftrightarrow> a = replicate 16 0"

subsection \<open>Hexadecimal strings and numbers\<close>

definition INVALID_HEX_DIGIT :: u8 where "INVALID_HEX_DIGIT = - 1"

definition parse_hex_digit :: "u8 \<Rightarrow> u8" where
  "parse_hex_digit c =
     (if c \<ge> ch (CHR ''0'') \<and> c \<le> ch (CHR ''9'') then c - ch (CHR ''0'')
      else if c \<ge> ch (CHR ''a'') \<and> c \<le> ch (CHR ''f'') then c - ch (CHR ''a'') + 0xA
      else if c \<ge> ch (CHR ''A'') \<and> c \<le> ch (CHR ''F'') then c - ch (CHR ''A'') + 0xA
      else INVALID_HEX_DIGIT)"

text \<open>The two characters at \<open>s\<close>; the second one may be the NUL.\<close>

definition parse_hex_byte :: "u8 \<Rightarrow> u8 \<Rightarrow> bool \<times> u8" where
  "parse_hex_byte s0 s1 =
     (let u = parse_hex_digit s0; l = parse_hex_digit s1 in
      if u = INVALID_HEX_DIGIT \<or> l = INVALID_HEX_DIGIT then (False, 0)
      else (True, push_bit 4 u OR l))"

fun parse_hex_loop :: "bytes \<Rightarrow> bytes \<Rightarrow> nat \<Rightarrow> nat \<Rightarrow> (bool \<times> bytes \<times> nat) option" where
  "parse_hex_loop [] buf i pe = Some (True, buf, i)"
| "parse_hex_loop [c] buf i pe =
     (if i < pe then do { buf \<leftarrow> wr buf i (snd (parse_hex_byte c 0)); Some (False, buf, i) }
      else Some (True, buf, i))"
| "parse_hex_loop (c # e # s) buf i pe =
     (if i < pe then do {
        buf \<leftarrow> wr buf i (snd (parse_hex_byte c e));
        if fst (parse_hex_byte c e) then parse_hex_loop s buf (i + 1) pe else Some (False, buf, i) }
      else Some (True, buf, i))"

definition parse_hex_str :: "bytes \<Rightarrow> bytes \<Rightarrow> nat \<Rightarrow> (bool \<times> bytes \<times> nat) option" where
  "parse_hex_str s buf size' = parse_hex_loop s buf 0 size'"

definition hex_digit :: "u8 \<Rightarrow> u8" where
  "hex_digit v = (if v \<le> 9 then ch (CHR ''0'') + v
     else if v \<le> 0xF then v + ch (CHR ''A'') - 0xA else ch (CHR ''?''))"

definition parse_int16 :: "bytes \<Rightarrow> (bool \<times> u16) option" where
  "parse_int16 p =
     (case p of [] \<Rightarrow> None
      | c # s \<Rightarrow>
          if c = ch (CHR ''+'') \<or> c = ch (CHR ''-'') \<or> is_digit c
          then (let i = c_atoi p; v = (ucast i :: u16) in Some ((scast v :: 32 word) = i, v))
          else None)"

subsection \<open>Random fills\<close>

text \<open>\<open>random()\<close> is the parameter \<open>rnd\<close>: the value of its \<open>k\<close>-th call. \<open>addr\<close> is the buffer's address.\<close>

fun fill_random16 :: "(nat \<Rightarrow> u32) \<Rightarrow> nat \<Rightarrow> bytes \<Rightarrow> nat \<Rightarrow> nat \<Rightarrow> (bytes \<times> nat) option" where
  "fill_random16 rnd r p k 0 = Some (p, r)"
| "fill_random16 rnd r p k (Suc n) = do {
     p \<leftarrow> st16 p k (ucast (rnd r));
     fill_random16 rnd (r + 1) p (k + 2) n }"

definition fill_random_bytes :: "(nat \<Rightarrow> u32) \<Rightarrow> nat \<Rightarrow> bytes \<Rightarrow> nat \<Rightarrow> bytes option" where
  "fill_random_bytes rnd addr p sz =
     (if sz \<noteq> 0 then do {
        (p, o', r, sz) \<leftarrow>
          (if addr AND 1 \<noteq> 0 then do { p \<leftarrow> wr p 0 (ucast (rnd 0)); Some (p, 1, 1, sz - 1) }
           else Some (p, 0, 0, sz));
        (p, r) \<leftarrow> fill_random16 rnd r p o' (sz div 2);
        (if sz AND 1 \<noteq> 0 then wr p (o' + (sz - 1)) (ucast (rnd r)) else Some p) }
      else Some p)"

fun fill_random_az :: "(nat \<Rightarrow> u32) \<Rightarrow> bytes \<Rightarrow> nat \<Rightarrow> bytes option" where
  "fill_random_az rnd p 0 = Some p"
| "fill_random_az rnd p (Suc k) = do {
     p \<leftarrow> fill_random_az rnd p k;
     wr p k (ch (CHR ''a'') + ucast (rnd k mod 26)) }"

fun fill_random_az09 :: "(nat \<Rightarrow> u32) \<Rightarrow> bytes \<Rightarrow> nat \<Rightarrow> bytes option" where
  "fill_random_az09 rnd p 0 = Some p"
| "fill_random_az09 rnd p (Suc k) = do {
     p \<leftarrow> fill_random_az09 rnd p k;
     let r = (ucast (rnd k mod 36) :: u8);
     wr p k (if r < 10 then r + ch (CHR ''0'') else ch (CHR ''a'') + r - 10) }"

subsection \<open>Bitwise operations on buffers\<close>

definition st64 :: "bytes \<Rightarrow> nat \<Rightarrow> u64 \<Rightarrow> bytes option" where
  "st64 d p v = wr_block d p (map (\<lambda>i. ucast (drop_bit (8 * i) v)) [0..<8])"

text \<open>
  The loops of \<open>bxor\<close>, \<open>bor\<close> and \<open>band\<close>: eight bytes at a time, then one at a time. The operation
  is given at both widths.
\<close>

function bit_loop64 :: "(u64 \<Rightarrow> u64 \<Rightarrow> u64) \<Rightarrow> bytes \<Rightarrow> bytes \<Rightarrow> bytes \<Rightarrow> nat \<Rightarrow> nat \<Rightarrow> (bytes \<times> nat \<times> nat) option" where
  "bit_loop64 f x1 x2 r p sz =
     (if sz \<ge> 8 then do {
        a \<leftarrow> ld64 x1 p; b \<leftarrow> ld64 x2 p;
        r \<leftarrow> st64 r p (f a b);
        bit_loop64 f x1 x2 r (p + 8) (sz - 8) }
      else Some (r, p, sz))"
  by pat_completeness auto
termination by (relation "measure (\<lambda>(f, x1, x2, r, p, sz). sz)") auto

declare bit_loop64.simps [simp del]

fun bit_loop8 :: "(u8 \<Rightarrow> u8 \<Rightarrow> u8) \<Rightarrow> bytes \<Rightarrow> bytes \<Rightarrow> bytes \<Rightarrow> nat \<Rightarrow> nat \<Rightarrow> bytes option" where
  "bit_loop8 f x1 x2 r p 0 = Some r"
| "bit_loop8 f x1 x2 r p (Suc n) = do {
     a \<leftarrow> rd x1 p; b \<leftarrow> rd x2 p;
     r \<leftarrow> wr r p (f a b);
     bit_loop8 f x1 x2 r (p + 1) n }"

definition bxor :: "bytes \<Rightarrow> bytes \<Rightarrow> bytes \<Rightarrow> nat \<Rightarrow> bytes option" where
  "bxor x1 x2 r sz = do { (r, p, sz) \<leftarrow> bit_loop64 (XOR) x1 x2 r 0 sz; bit_loop8 (XOR) x1 x2 r p sz }"

definition bor :: "bytes \<Rightarrow> bytes \<Rightarrow> bytes \<Rightarrow> nat \<Rightarrow> bytes option" where
  "bor x1 x2 r sz = do { (r, p, sz) \<leftarrow> bit_loop64 (OR) x1 x2 r 0 sz; bit_loop8 (OR) x1 x2 r p sz }"

definition band :: "bytes \<Rightarrow> bytes \<Rightarrow> bytes \<Rightarrow> nat \<Rightarrow> bytes option" where
  "band x1 x2 r sz = do { (r, p, sz) \<leftarrow> bit_loop64 (AND) x1 x2 r 0 sz; bit_loop8 (AND) x1 x2 r p sz }"

subsection \<open>Network masks by bit count\<close>

definition mask_from_bitcount :: "u32 \<Rightarrow> u32" where
  "mask_from_bitcount zct = (if zct < 32 then NOT (push_bit (unat zct) 1 - 1) else 0)"

definition mask_from_bitcount6_make :: "u32 \<Rightarrow> bytes" where
  "mask_from_bitcount6_make zct =
     (if zct \<ge> 128 then replicate 16 0
      else (let n = unat (drop_bit 3 (127 - zct)) in
        (replicate n 0xFF @ replicate (16 - n) 0)
          [n := ucast (NOT (push_bit (unat (zct AND 7)) (1 :: u32) - 1))]))"

subsection \<open>Properties\<close>

lemma uniq_loop_ok:
  "i \<le> j \<Longrightarrow> j \<le> ct \<Longrightarrow> ct \<le> length pu \<Longrightarrow>
   \<exists>pu' n. uniq_loop pu ct i j = Some (pu', n) \<and> length pu' = length pu
     \<and> take n pu' = take i pu @ remdups_adj (take (ct - j) (drop j pu))
     \<and> drop ct pu' = drop ct pu \<and> n \<le> ct"
proof (induction pu ct i j rule: uniq_loop.induct)
  case (1 pu ct i j)
  show ?case
  proof (cases "j < ct")
    case False
    with "1.prems" show ?thesis by (subst uniq_loop.simps) simp
  next
    case True
    define u where "u = pu ! j"
    have rdj: "rd pu j = Some u" using True "1.prems" by (simp add: u_def)
    obtain j' where s: "scan (\<lambda>x. x = u) pu (j + 1) ct = Some j'"
      using scan_Some "1.prems"(3) by blast
    note b = scan_bounds[OF s]
    have w: "wr pu i u = Some (pu[i := u])" using "1.prems" True by simp
    have "take (ct - j) (drop j pu) = u # take (ct - Suc j) (drop (Suc j) pu)"
      using True "1.prems"
      by (subst Cons_nth_drop_Suc[symmetric]) (auto simp: u_def take_Cons' Suc_diff_Suc)
    then have rem: "remdups_adj (take (ct - j) (drop j pu))
        = u # remdups_adj (take (ct - j') (drop j' pu))"
      using scan_dropWhile[OF s] True "1.prems" by (simp add: remdups_adj_Cons')
    from "1.IH"[OF True rdj s w] b True "1.prems" obtain pu' n where
      ih: "uniq_loop (pu[i := u]) ct (i + 1) j' = Some (pu', n)" "length pu' = length pu"
        "take n pu' = take (i + 1) (pu[i := u]) @ remdups_adj (take (ct - j') (drop j' (pu[i := u])))"
        "drop ct pu' = drop ct (pu[i := u])" "n \<le> ct" by auto
    have "take (i + 1) (pu[i := u]) = take i pu @ [u]"
      using True "1.prems" by (simp add: take_Suc_conv_app_nth)
    then show ?thesis
      using ih rem b True "1.prems" s w rdj by (subst uniq_loop.simps) simp
  qed
qed

lemma unique_size_t_remdups:
  assumes "ct \<le> length pu"
  shows "\<exists>pu' n. unique_size_t pu ct = Some (pu', n) \<and> length pu' = length pu
     \<and> take n pu' = remdups_adj (take ct pu) \<and> drop ct pu' = drop ct pu"
  using uniq_loop_ok[of 0 0 ct pu] assms by (auto simp: unique_size_t_def)

lemma unique_ssize_t_remdups:
  assumes "ct \<le> length pu"
  shows "\<exists>pu' n. unique_ssize_t pu ct = Some (pu', n) \<and> length pu' = length pu
     \<and> take n pu' = remdups_adj (take ct pu) \<and> drop ct pu' = drop ct pu"
  using uniq_loop_ok[of 0 0 ct pu] assms by (auto simp: unique_ssize_t_def)

lemma sorted_strict_remdups_adj:
  "sorted (xs :: 'a::linorder list) \<Longrightarrow> sorted_wrt (<) (remdups_adj xs)"
  by (induction xs rule: remdups_adj.induct) (auto dest: order_le_less_trans)

lemma le_u8: "(a :: u8) \<le> b \<longleftrightarrow> unat a \<le> unat b"
  by (rule word_le_nat_alt)

lemma to_upper_lower_iff: "to_upper a = to_upper b \<longleftrightarrow> to_lower a = to_lower b"
  by (auto simp: to_upper_def to_lower_def word_le_nat_alt word_unat_eq_iff unat_sub_if_size
      unat_word_ariths word_size split: if_splits) 

lemma strncasestr_scan_total:
  "p + slen \<le> length d \<Longrightarrow> \<exists>r. strncasestr_scan d c p slen = Some r"
proof (induction d c p slen rule: strncasestr_scan.induct)
  case (1 d c p slen)
  then show ?case by (subst strncasestr_scan.simps) auto
qed

lemma strncasestr_scan_none:
  "strncasestr_scan d c p slen = Some None \<Longrightarrow> p \<le> k \<Longrightarrow> k < p + slen \<Longrightarrow>
   to_upper (d ! k) \<noteq> to_upper c"
proof (induction d c p slen rule: strncasestr_scan.induct)
  case (1 d c p slen)
  then have z: "slen \<noteq> 0" by auto
  with "1.prems"(1) have r: "p < length d" and ne: "to_upper c \<noteq> to_upper (d ! p)"
    and s: "strncasestr_scan d c (p + 1) (slen - 1) = Some None"
    by (subst (asm) strncasestr_scan.simps, auto split: if_splits option.splits simp: rd_eq_Some)+
  show ?case
  proof (cases "k = p")
    case False
    with "1.IH"[OF z _ ne s] "1.prems" r z show ?thesis by simp
  qed (use ne in simp)
qed

text \<open>The needle occurs at offset \<open>q\<close>, up to the case of ASCII letters.\<close>

definition ci_at :: "bytes \<Rightarrow> bytes \<Rightarrow> nat \<Rightarrow> bool" where
  "ci_at d needle q \<longleftrightarrow> map to_lower (take (length needle) (drop q d)) = map to_lower needle"

lemma ci_at_Cons:
  "q < length d \<Longrightarrow> ci_at d (c # needle) q \<longleftrightarrow>
   to_upper (d ! q) = to_upper c \<and> ci_at d needle (q + 1)"
  by (subst to_upper_lower_iff) (simp add: ci_at_def Cons_nth_drop_Suc[symmetric])

lemma strncasestr_loop_first:
  "p + slen \<le> length d \<Longrightarrow> \<exists>r. strncasestr_loop d c needle p slen = Some r \<and>
   (case r of
      None \<Rightarrow> \<forall>q. p \<le> q \<and> q + length (c # needle) \<le> p + slen \<longrightarrow> \<not> ci_at d (c # needle) q
    | Some q \<Rightarrow> p \<le> q \<and> q + length (c # needle) \<le> p + slen \<and> ci_at d (c # needle) q
        \<and> (\<forall>k. p \<le> k \<and> k < q \<longrightarrow> \<not> ci_at d (c # needle) k))"
proof (induction d c needle p slen rule: strncasestr_loop.induct)
  case (1 d c needle p slen)
  obtain s where s: "strncasestr_scan d c p slen = Some s"
    using strncasestr_scan_total "1.prems" by blast
  show ?case
  proof (cases s)
    case None
    then have "\<not> ci_at d (c # needle) q" if "p \<le> q" "q < p + slen" for q
      using strncasestr_scan_none[of d c p slen q] s that "1.prems" by (simp add: ci_at_Cons)
    with s None show ?thesis by (subst strncasestr_loop.simps) auto
  next
    case (Some qn)
    obtain q n where qn: "qn = (q, n)" by force
    note b = strncasestr_scan_less[OF s[unfolded Some qn]]
    have before: "\<not> ci_at d (c # needle) k" if "p \<le> k" "k < q - 1" for k
    proof -
      have "k < length d" using b that by linarith
      then show ?thesis using b that by (simp add: ci_at_Cons)
    qed
    show ?thesis
    proof (cases "length needle > n")
      case True
      have "\<not> ci_at d (c # needle) k" if "p \<le> k" "k + length (c # needle) \<le> p + slen" for k
        by (rule before) (use that True b in auto)
      with s Some qn True show ?thesis by (subst strncasestr_loop.simps) auto
    next
      case le: False
      have at: "ci_at d (c # needle) (q - 1) \<longleftrightarrow> ci_at d needle q"
      proof -
        have "q - 1 < length d" "q - 1 + 1 = q" using b by linarith+
        with b ci_at_Cons[of "q - 1" d c needle] show ?thesis by simp
      qed
      have eq: "strncaseeq d q needle = Some (ci_at d needle q)"
        using b le "1.prems" by (simp add: strncaseeq_def ci_at_def)
      show ?thesis
      proof (cases "ci_at d needle q")
        case True
        with s Some qn le eq at before b show ?thesis
          by (subst strncasestr_loop.simps) auto
      next
        case False
        have "q + n \<le> length d" using b "1.prems" by simp
        from "1.IH"[OF s Some qn[symmetric] le eq False this] obtain r where
          r: "strncasestr_loop d c needle q n = Some r" and
          sp: "case r of
              None \<Rightarrow> \<forall>k. q \<le> k \<and> k + length (c # needle) \<le> q + n \<longrightarrow> \<not> ci_at d (c # needle) k
            | Some k \<Rightarrow> q \<le> k \<and> k + length (c # needle) \<le> q + n \<and> ci_at d (c # needle) k
                \<and> (\<forall>k'. q \<le> k' \<and> k' < k \<longrightarrow> \<not> ci_at d (c # needle) k')" by blast
        have low: "\<not> ci_at d (c # needle) k" if "p \<le> k" "k < q" for k
          using before[OF that(1)] at False that b by (cases "k = q - 1") auto
        have "strncasestr_loop d c needle p slen = Some r"
          using s Some qn le eq False r by (subst strncasestr_loop.simps) simp
        then show ?thesis using sp b low
          by (cases r) (auto simp del: list.size, metis not_le, metis not_le)
      qed
    qed
  qed
qed

lemma strncasestr_first:
  assumes "needle \<noteq> []" and "p + slen \<le> length d"
  shows "\<exists>r. strncasestr d p needle slen = Some r \<and>
   (case r of
      None \<Rightarrow> \<forall>q. p \<le> q \<and> q + length needle \<le> p + slen \<longrightarrow> \<not> ci_at d needle q
    | Some q \<Rightarrow> p \<le> q \<and> q + length needle \<le> p + slen \<and> ci_at d needle q
        \<and> (\<forall>k. p \<le> k \<and> k < q \<longrightarrow> \<not> ci_at d needle k))"
proof (cases needle)
  case (Cons c ns)
  show ?thesis
    unfolding Cons strncasestr_def list.case by (rule strncasestr_loop_first[OF assms(2)])
qed (use assms in simp)

lemma bit_foldr_le:
  "8 * length bs \<le> LENGTH('w) \<Longrightarrow>
   bit (foldr le_step bs (0 :: 'w::len word)) n \<longleftrightarrow> n < 8 * length bs \<and> bit (bs ! (n div 8)) (n mod 8)"
proof (induction bs arbitrary: n)
  case (Cons b bs)
  show ?case
  proof (cases "n < 8")
    case True
    with Cons.prems show ?thesis by (simp add: le_step_def bit_simps)
  next
    case False
    have "n - 8 < LENGTH('w)" if "n - 8 < 8 * length bs" using that Cons.prems by simp
    moreover have "\<not> bit b n" using False bit_imp_le_length[of b n] by auto
    moreover have "n div 8 = Suc ((n - 8) div 8)" "n mod 8 = (n - 8) mod 8"
      using False by (simp_all add: le_div_geq le_mod_geq)
    ultimately show ?thesis
      using False Cons.IH[of "n - 8"] Cons.prems
      by (auto simp: le_step_def bit_simps dest: bit_imp_le_length)
  qed
qed simp

lemma byte_of_foldr_le:
  assumes "8 * length bs \<le> LENGTH('w)" and "i < length bs"
  shows "ucast (drop_bit (8 * i) (foldr le_step bs (0 :: 'w::len word))) = bs ! i"
proof (rule bit_word_eqI)
  fix n assume n: "n < LENGTH(8)"
  then have "(8 * i + n) div 8 = i" "(8 * i + n) mod 8 = n" "8 * i + n < 8 * length bs"
    using assms(2) by simp_all
  then show "bit (ucast (drop_bit (8 * i) (foldr le_step bs (0 :: 'w word))) :: u8) n \<longleftrightarrow> bit (bs ! i) n"
    using n bit_foldr_le[OF assms(1), of "8 * i + n"] by (simp add: bit_simps add.commute)
qed

text \<open>What \<open>bxor\<close>, \<open>bor\<close> and \<open>band\<close> need of an operation: it works on the bytes of a word separately.\<close>

locale byte_op =
  fixes f64 :: "u64 \<Rightarrow> u64 \<Rightarrow> u64" and f8 :: "u8 \<Rightarrow> u8 \<Rightarrow> u8"
  assumes bytewise: "i < 8 \<Longrightarrow>
    ucast (drop_bit (8 * i) (f64 a b)) = f8 (ucast (drop_bit (8 * i) a)) (ucast (drop_bit (8 * i) b))"
begin

definition op_from :: "bytes \<Rightarrow> bytes \<Rightarrow> bytes \<Rightarrow> nat \<Rightarrow> nat \<Rightarrow> bytes \<Rightarrow> bool" where
  "op_from x1 x2 r p q e \<longleftrightarrow> length e = length r \<and>
     (\<forall>i < length r. e ! i = (if p \<le> i \<and> i < q then f8 (x1 ! i) (x2 ! i) else r ! i))"

lemma op_from_trans: "op_from x1 x2 r p q e \<Longrightarrow> op_from x1 x2 e q s e' \<Longrightarrow> p \<le> q \<Longrightarrow> q \<le> s \<Longrightarrow>
    op_from x1 x2 r p s e'"
  by (auto simp: op_from_def)

lemma step64:
  assumes "p + 8 \<le> length x1" "p + 8 \<le> length x2" "p + 8 \<le> length r"
  shows "\<exists>a b e. ld64 x1 p = Some a \<and> ld64 x2 p = Some b \<and> st64 r p (f64 a b) = Some e
    \<and> op_from x1 x2 r p (p + 8) e"
proof -
  define a b where "a = foldr le_step (take 8 (drop p x1)) (0 :: u64)"
    and "b = foldr le_step (take 8 (drop p x2)) (0 :: u64)"
  have l: "ld64 x1 p = Some a" "ld64 x2 p = Some b"
    using assms by (simp_all add: ld64_def a_def b_def)
  obtain e where e: "st64 r p (f64 a b) = Some e"
    using assms by (simp add: st64_def wr_block_def)
  have byte: "ucast (drop_bit (8 * i) (f64 a b)) = f8 (x1 ! (p + i)) (x2 ! (p + i))" if "i < 8" for i
    using that assms bytewise[OF that, of a b]
      byte_of_foldr_le[of "take 8 (drop p x1)" i, where 'w = 64]
      byte_of_foldr_le[of "take 8 (drop p x2)" i, where 'w = 64]
    by (simp add: a_def b_def)
  have "op_from x1 x2 r p (p + 8) e"
    unfolding op_from_def
  proof (intro conjI allI impI)
    show "length e = length r" using e wr_block_length unfolding st64_def by blast
    fix i assume i: "i < length r"
    from wr_block_nth[OF e[unfolded st64_def] i]
    show "e ! i = (if p \<le> i \<and> i < p + 8 then f8 (x1 ! i) (x2 ! i) else r ! i)"
      using byte[of "i - p"] by (auto split: if_splits)
  qed
  with l e show ?thesis by blast
qed

lemma loop64:
  "p + sz \<le> length x1 \<Longrightarrow> p + sz \<le> length x2 \<Longrightarrow> p + sz \<le> length r \<Longrightarrow>
   \<exists>e q n. bit_loop64 f64 x1 x2 r p sz = Some (e, q, n) \<and> op_from x1 x2 r p q e
     \<and> q + n = p + sz \<and> p \<le> q"
proof (induction sz arbitrary: p r rule: less_induct)
  case (less sz)
  show ?case
  proof (cases "sz \<ge> 8")
    case False
    then show ?thesis by (subst bit_loop64.simps) (auto simp: op_from_def)
  next
    case True
    with step64[of p x1 x2 r] less.prems obtain a b e where
      s: "ld64 x1 p = Some a" "ld64 x2 p = Some b" "st64 r p (f64 a b) = Some e"
      and o1: "op_from x1 x2 r p (p + 8) e" by auto
    have "length e = length r" using o1 by (simp add: op_from_def)
    with less.IH[of "sz - 8" "p + 8" e] less.prems True obtain e' q n where
      "bit_loop64 f64 x1 x2 e (p + 8) (sz - 8) = Some (e', q, n)"
      "op_from x1 x2 e (p + 8) q e'" "q + n = p + sz" "p + 8 \<le> q" by auto
    with s True op_from_trans[OF o1] show ?thesis
      by (subst bit_loop64.simps) auto
  qed
qed

lemma loop8:
  "p + sz \<le> length x1 \<Longrightarrow> p + sz \<le> length x2 \<Longrightarrow> p + sz \<le> length r \<Longrightarrow>
   \<exists>e. bit_loop8 f8 x1 x2 r p sz = Some e \<and> op_from x1 x2 r p (p + sz) e"
proof (induction sz arbitrary: p r)
  case (Suc sz)
  have "op_from x1 x2 r p (p + 1) (r[p := f8 (x1 ! p) (x2 ! p)])"
    using Suc.prems by (auto simp: op_from_def nth_list_update)
  with Suc.IH[of "p + 1" "r[p := f8 (x1 ! p) (x2 ! p)]"] Suc.prems op_from_trans[OF this]
  show ?case by fastforce
qed (auto simp: op_from_def)

lemma whole:
  assumes "sz \<le> length x1" "sz \<le> length x2" "sz \<le> length r"
  shows "do { (r, p, sz) \<leftarrow> bit_loop64 f64 x1 x2 r 0 sz; bit_loop8 f8 x1 x2 r p sz }
    = Some (map2 f8 (take sz x1) (take sz x2) @ drop sz r)"
proof -
  from loop64[of 0 sz x1 x2 r] assms obtain e q n where
    s1: "bit_loop64 f64 x1 x2 r 0 sz = Some (e, q, n)" "op_from x1 x2 r 0 q e" "q + n = sz" by auto
  then have "length e = length r" by (simp add: op_from_def)
  with loop8[of q n x1 x2 e] s1 assms obtain e' where
    s2: "bit_loop8 f8 x1 x2 e q n = Some e'" "op_from x1 x2 e q sz e'" by auto
  from op_from_trans[OF s1(2) s2(2)] s1(3) have o: "op_from x1 x2 r 0 sz e'" by simp
  have "e' = map2 f8 (take sz x1) (take sz x2) @ drop sz r"
    using o assms by (auto simp: op_from_def list_eq_iff_nth_eq nth_append)
  with s1 s2 show ?thesis by simp
qed

end

interpretation xor_op: byte_op "(XOR)" "(XOR)"
  by unfold_locales (rule bit_word_eqI, simp add: bit_simps)

interpretation or_op: byte_op "(OR)" "(OR)"
  by unfold_locales (rule bit_word_eqI, simp add: bit_simps)

interpretation and_op: byte_op "(AND)" "(AND)"
  by unfold_locales (rule bit_word_eqI, simp add: bit_simps)

lemma bitops_map2:
  assumes "sz \<le> length x1" "sz \<le> length x2" "sz \<le> length r"
  shows "bxor x1 x2 r sz = Some (map2 (XOR) (take sz x1) (take sz x2) @ drop sz r)"
    and "bor x1 x2 r sz = Some (map2 (OR) (take sz x1) (take sz x2) @ drop sz r)"
    and "band x1 x2 r sz = Some (map2 (AND) (take sz x1) (take sz x2) @ drop sz r)"
  unfolding bxor_def bor_def band_def
  using xor_op.whole[OF assms] or_op.whole[OF assms] and_op.whole[OF assms] by simp_all

definition hex_of :: "bytes \<Rightarrow> bytes" where
  "hex_of bs = concat (map (\<lambda>b. [hex_digit (drop_bit 4 b), hex_digit (b AND 15)]) bs)"

lemma parse_hex_digit_hex_digit: "v \<le> 15 \<Longrightarrow> parse_hex_digit (hex_digit v) = v"
proof -
  assume "v \<le> 15"
  then have "unat v \<le> 15" by (simp add: word_le_nat_alt)
  then have "unat v = 0 \<or> unat v = 1 \<or> unat v = 2 \<or> unat v = 3 \<or> unat v = 4 \<or> unat v = 5 \<or> unat v = 6 \<or> unat v = 7 \<or> unat v = 8 \<or> unat v = 9 \<or> unat v = 10 \<or> unat v = 11 \<or> unat v = 12 \<or> unat v = 13 \<or> unat v = 14 \<or> unat v = 15" by presburger
  then have "v = 0 \<or> v = 1 \<or> v = 2 \<or> v = 3 \<or> v = 4 \<or> v = 5 \<or> v = 6 \<or> v = 7 \<or> v = 8 \<or> v = 9 \<or> v = 10 \<or> v = 11 \<or> v = 12 \<or> v = 13 \<or> v = 14 \<or> v = 15" by (simp add: word_unat_eq_iff)
  then show ?thesis by (elim disjE) (simp_all add: parse_hex_digit_def hex_digit_def)
qed

lemma nibbles: "push_bit 4 (drop_bit 4 b) OR (b AND 15) = (b :: u8)" "drop_bit 4 b \<le> 15" "b AND 15 \<le> 15"
proof -
  have m: "b AND 15 = take_bit 4 b" by (simp add: take_bit_eq_mask mask_eq_exp_minus_1)
  show "push_bit 4 (drop_bit 4 b) OR (b AND 15) = b"
    unfolding m by (rule bit_word_eqI) (auto simp: bit_simps)
  show "drop_bit 4 b \<le> 15"
  proof -
    have "unat b div 16 \<le> 15" using unat_u8_less[of b] by linarith
    then show ?thesis by (simp add: word_le_nat_alt unat_drop_bit)
  qed
  show "b AND 15 \<le> 15"
    unfolding m by (simp add: word_le_nat_alt unat_take_bit)
qed

lemma parse_hex_byte_hex_of:
  "parse_hex_byte (hex_digit (drop_bit 4 b)) (hex_digit (b AND 15)) = (True, b)"
proof -
  have "v \<noteq> INVALID_HEX_DIGIT" if "v \<le> 15" for v
    proof -
    have "INVALID_HEX_DIGIT = 255" by (simp add: INVALID_HEX_DIGIT_def)
    moreover have "\<not> (255 :: u8) \<le> 15" by simp
    ultimately show ?thesis using that by metis
  qed
  then show ?thesis
    using nibbles[of b] by (simp add: parse_hex_byte_def parse_hex_digit_hex_digit)
qed

lemma parse_hex_loop_hex_of:
  "i + length bs \<le> pe \<Longrightarrow> pe \<le> length buf \<Longrightarrow>
   parse_hex_loop (hex_of bs) buf i pe =
     Some (True, take i buf @ bs @ drop (i + length bs) buf, i + length bs)"
proof (induction bs arbitrary: i buf)
  case (Cons b bs)
  have "hex_of (b # bs) = hex_digit (drop_bit 4 b) # hex_digit (b AND 15) # hex_of bs"
    by (simp add: hex_of_def)
  with Cons show ?case
    by (simp add: parse_hex_byte_hex_of upd_conv_take_nth_drop min_def add.commute)
qed (simp add: hex_of_def)

lemma parse_hex_str_hex_of:
  assumes "length bs \<le> sz" and "sz \<le> length buf"
  shows "parse_hex_str (hex_of bs) buf sz = Some (True, bs @ drop (length bs) buf, length bs)"
  using parse_hex_loop_hex_of[of 0 bs sz buf] assms by (simp add: parse_hex_str_def)

lemma parse_hex_loop_safe:
  "pe \<le> length buf \<Longrightarrow> i \<le> pe \<Longrightarrow>
   \<exists>ok e n. parse_hex_loop s buf i pe = Some (ok, e, n) \<and> length e = length buf \<and> n \<le> pe"
proof (induction s buf i pe rule: parse_hex_loop.induct)
  case (3 c e s buf i pe)
  then show ?case by (cases "i < pe") auto
qed auto

subsection \<open>Bit strings\<close>

text \<open>Bit \<open>i\<close> of a byte string, the most significant bit of the first byte first.\<close>

definition bit_at :: "bytes \<Rightarrow> nat \<Rightarrow> bool" where
  "bit_at d i = bit (d ! (i div 8)) (7 - i mod 8)"

lemma low_mask: "n \<le> 8 \<Longrightarrow> push_bit n 1 - 1 = (mask n :: u8)"
  by (simp add: push_bit_eq_mult mask_eq_exp_minus_1)

lemma expand_bits_bits:
  assumes tl: "unat tgt_len < 2 ^ 29" and t: "length target = unat tgt_len"
    and s: "unat src_bits \<le> 8 * length source \<or> unat tgt_len \<le> length source"
  shows "\<exists>e. expand_bits target source src_bits tgt_len = Some e \<and> length e = length target
     \<and> (\<forall>i < 8 * length target. bit_at e i \<longleftrightarrow> i < unat src_bits \<and> bit_at source i)"
proof -
  define B where "B = min (8 * unat tgt_len) (unat src_bits)"
  define bl where "bl = (if push_bit 3 tgt_len < src_bits then push_bit 3 tgt_len else src_bits)"
  have p3: "unat (push_bit 3 tgt_len) = 8 * unat tgt_len"
    using tl by (simp add: push_bit_eq_mult unat_word_ariths)
  have bl: "unat bl = B" by (auto simp: bl_def B_def word_less_nat_alt p3)
  have byl: "unat (drop_bit 3 bl) = B div 8" by (simp add: unat_drop_bit bl)
  have lb: "unat (bl AND 7) = B mod 8"
  proof -
    have "bl AND 7 = take_bit 3 bl" by (simp add: take_bit_eq_mask mask_eq_exp_minus_1)
    then show ?thesis by (simp add: unat_take_bit bl)
  qed
  have le: "B div 8 \<le> unat tgt_len" and ls: "B div 8 \<le> length source"
    and ls': "B mod 8 \<noteq> 0 \<Longrightarrow> B div 8 < length source \<and> B div 8 < unat tgt_len"
  proof -
    have "B \<le> 8 * unat tgt_len" and "B \<le> 8 * length source"
      using s by (auto simp: B_def)
    then show "B div 8 \<le> unat tgt_len" "B div 8 \<le> length source"
      "B mod 8 \<noteq> 0 \<Longrightarrow> B div 8 < length source \<and> B div 8 < unat tgt_len" by presburger+
  qed
  have diff: "unat (tgt_len - drop_bit 3 bl) = unat tgt_len - B div 8"
    using le by (simp add: unat_sub_if_size byl word_size)
  define e0 where "e0 = take (B div 8) source @ replicate (unat tgt_len - B div 8) 0"
  have e0: "(if tgt_len - drop_bit 3 bl \<ge> 1
      then wr_block target (unat (drop_bit 3 bl)) (replicate (unat (tgt_len - drop_bit 3 bl)) 0)
      else Some target) = Some (take (B div 8) target @ replicate (unat tgt_len - B div 8) 0)"
  proof (cases "tgt_len - drop_bit 3 bl \<ge> 1")
    case True
    then show ?thesis unfolding byl diff using le t by (simp add: wr_block_in)
  next
    case False
    then have "unat tgt_len - B div 8 = 0"
      using diff by (simp add: word_le_nat_alt)
    with False le t show ?thesis by simp
  qed
  have e1: "wr_block (take (B div 8) target @ replicate (unat tgt_len - B div 8) 0) 0
      (take (B div 8) source) = Some e0"
    using le ls t by (simp add: wr_block_in e0_def)
  have len0: "length e0 = unat tgt_len" using le ls by (simp add: e0_def)
  define e where "e = (if B mod 8 \<noteq> 0
     then e0[B div 8 := source ! (B div 8) AND NOT (mask (8 - B mod 8))] else e0)"
  have "expand_bits target source src_bits tgt_len = Some e"
    unfolding expand_bits_def Let_def bl_def[symmetric] e0
    using e1 ls ls' len0 lb
    by (simp add: byl e_def mask_eq_exp_minus_1[symmetric] word_unat_eq_iff)
  moreover have "bit_at e i \<longleftrightarrow> i < unat src_bits \<and> bit_at source i" if i: "i < 8 * unat tgt_len" for i
  proof -
    have iB: "i < unat src_bits \<longleftrightarrow> i < B" using i by (simp add: B_def)
    have i8: "i div 8 < unat tgt_len" using i by simp
    consider "i div 8 < B div 8" | "i div 8 = B div 8" | "i div 8 > B div 8" by linarith
    then show ?thesis
    proof cases
      case 1
      then have "i < B" by (metis div_le_mono not_le)
      with 1 iB ls show ?thesis by (auto simp: bit_at_def e_def e0_def nth_append)
    next
      case 2
      then have "i < B \<longleftrightarrow> i mod 8 < B mod 8"
        by (metis div_mult_mod_eq nat_add_left_cancel_less)
      moreover have "e ! (B div 8) = (if B mod 8 \<noteq> 0
          then source ! (B div 8) AND NOT (mask (8 - B mod 8)) else 0)"
        using len0 i8 2 ls by (auto simp: e_def e0_def nth_append)
      moreover have "7 - i mod 8 < 8" by simp
      moreover have "7 - i mod 8 < 8 - B mod 8 \<longleftrightarrow> \<not> i mod 8 < B mod 8 "
        using mod_less_divisor[of 8 i] mod_less_divisor[of 8 B] by linarith
      ultimately show ?thesis using 2 iB by (auto simp: bit_at_def bit_simps)
    next
      case 3
      then have "\<not> i < B" by (meson div_le_mono not_le less_imp_le)
      moreover have "i div 8 - B div 8 < unat tgt_len - B div 8" using 3 i8 by linarith
      ultimately show ?thesis
        using 3 iB ls by (auto simp: bit_at_def e_def e0_def nth_append)
    qed
  qed
  ultimately show ?thesis
    using len0 t by (auto simp: e_def)
qed

lemma mask_from_bitcount_bits:
  "i < 32 \<Longrightarrow> bit (mask_from_bitcount z) i \<longleftrightarrow> unat z \<le> i"
proof (cases "z < 32")
  case True
  assume i: "i < 32"
  have "push_bit (unat z) 1 - 1 = (mask (unat z) :: u32)"
    by (simp add: push_bit_eq_mult mask_eq_exp_minus_1)
  with True i show ?thesis by (auto simp: mask_from_bitcount_def bit_simps)
qed (auto simp: mask_from_bitcount_def word_less_nat_alt)

lemma mask_from_bitcount6_bits:
  assumes "i < 128"
  shows "bit_at (mask_from_bitcount6_make z) i \<longleftrightarrow> i + unat z < 128"
proof (cases "z \<ge> 128")
  case True
  then have "unat z \<ge> 128" by (simp add: word_le_nat_alt)
  moreover have "i div 8 < 16" using assms by linarith
  ultimately show ?thesis using True by (simp add: mask_from_bitcount6_make_def bit_at_def)
next
  case False
  then have z: "unat z < 128" by (simp add: word_le_nat_alt)
  define n where "n = (127 - unat z) div 8"
  have "unat (127 - z) = 127 - unat z" using z by (simp add: unat_sub_if_size word_size)
  then have n: "unat (drop_bit 3 (127 - z)) = n" by (simp add: unat_drop_bit n_def)
  have z7: "unat (z AND 7) = unat z mod 8"
  proof -
    have "z AND 7 = take_bit 3 z" by (simp add: take_bit_eq_mask mask_eq_exp_minus_1)
    then show ?thesis by (simp add: unat_take_bit)
  qed
  define b where "b = (ucast (NOT (push_bit (unat (z AND 7)) (1 :: u32) - 1)) :: u8)"
  have b: "bit b k \<longleftrightarrow> k < 8 \<and> unat z mod 8 \<le> k" for k
  proof -
    have "push_bit m 1 - 1 = (mask m :: u32)" for m
      by (simp add: push_bit_eq_mult mask_eq_exp_minus_1)
    then show ?thesis by (auto simp: b_def bit_simps z7)
  qed
  define c :: u8 where "c = 0xFF"
  have m: "mask_from_bitcount6_make z = (replicate n c @ replicate (16 - n) 0)[n := b]"
    unfolding mask_from_bitcount6_make_def Let_def n b_def c_def using False by simp
  have n16: "n < 16" unfolding n_def by simp
  have ff: "bit c k \<longleftrightarrow> k < 8" for k
  proof -
    have "c = mask 8" by (simp add: c_def mask_eq_exp_minus_1)
    then show ?thesis by (simp only: bit_mask_iff) auto
  qed
  have i16: "i div 8 < 16" using assms by linarith
  consider "i div 8 < n" | "i div 8 = n" | "i div 8 > n" by linarith
  then show ?thesis
  proof cases
    case 1
    then have "i + unat z < 128" unfolding n_def by linarith
    moreover have "bit c (7 - i mod 8)" unfolding ff by simp
    ultimately show ?thesis using 1 n16 by (simp add: m bit_at_def nth_append)
  next
    case 2
    then have "i + unat z < 128 \<longleftrightarrow> unat z mod 8 \<le> 7 - i mod 8"
    proof -
      have "n + unat z div 8 = 15" unfolding n_def using z by linarith
      then have "i + unat z = 120 + i mod 8 + unat z mod 8"
        using 2 mult_div_mod_eq[of 8 i] mult_div_mod_eq[of 8 "unat z"] by linarith
      then show ?thesis by linarith
    qed
    moreover have "7 - i mod 8 < 8" by simp
    ultimately show ?thesis using 2 n16 by (auto simp add: m bit_at_def nth_append b)
  next
    case 3
    then have "\<not> i + unat z < 128" unfolding n_def using z by linarith
    moreover have "i div 8 - n < 16 - n" using 3 i16 by linarith
    ultimately show ?thesis using 3 by (simp add: m bit_at_def nth_append)
  qed
qed

subsection \<open>The promises of the helpers\<close>

text \<open>unique_size_t on a sorted array leaves exactly its distinct values, in strictly increasing
  order, in the first \<open>n\<close> cells, \<open>n\<close> being the value returned; the cells behind \<open>ct\<close> are untouched.\<close>

theorem unique_size_t_sorted:
  assumes "ct \<le> length pu" and "sorted (take ct pu)"
  shows "\<exists>pu' n. unique_size_t pu ct = Some (pu', n) \<and> length pu' = length pu
     \<and> sorted_wrt (<) (take n pu') \<and> set (take n pu') = set (take ct pu)
     \<and> drop ct pu' = drop ct pu"
proof -
  from unique_size_t_remdups[OF assms(1)] obtain pu' n where
    "unique_size_t pu ct = Some (pu', n)" "length pu' = length pu"
    "take n pu' = remdups_adj (take ct pu)" "drop ct pu' = drop ct pu" by blast
  then show ?thesis using sorted_strict_remdups_adj[OF assms(2)] by simp
qed

lemma unique_size_t_sorted_witness:
  "\<exists>pu' n. unique_size_t [1, 1, 2, 7, 7, 9] 5 = Some (pu', n) \<and> set (take n pu') = {1, 2, 7}"
  using unique_size_t_sorted[of 5 "[1, 1, 2, 7, 7, 9]"] by auto

text \<open>strncasestr finds the first occurrence of a non-empty needle in the window of \<open>slen\<close> bytes,
  up to letter case, or answers NULL when there is none; it reads nothing behind the window.\<close>

theorem strncasestr_first_occurrence:
  assumes "needle \<noteq> []" and "p + slen \<le> length d"
  shows "\<exists>r. strncasestr d p needle slen = Some r \<and>
   (case r of
      None \<Rightarrow> \<forall>q. p \<le> q \<and> q + length needle \<le> p + slen \<longrightarrow> \<not> ci_at d needle q
    | Some q \<Rightarrow> p \<le> q \<and> q + length needle \<le> p + slen \<and> ci_at d needle q
        \<and> (\<forall>k. p \<le> k \<and> k < q \<longrightarrow> \<not> ci_at d needle k))"
  using strncasestr_first[OF assms] .

lemma strncasestr_first_occurrence_witness:
  "\<exists>r. strncasestr [97, 104, 79, 115, 84, 58] 0 [72, 111, 83] 6 = Some r \<and> r \<noteq> None"
proof -
  have at: "ci_at [97, 104, 79, 115, 84, 58] [72, 111, 83] 1"
    by (simp add: ci_at_def to_lower_def)
  have "0 + 6 \<le> length [97, 104, 79, 115, 84, 58 :: u8]" by simp
  from strncasestr_first_occurrence[OF _ this, of "[72, 111, 83]"] at show ?thesis
    by (auto split: option.splits)
qed

text \<open>expand_bits copies exactly the first \<open>source_bitlen\<close> bits (most significant first) and clears
  every other bit of the target.\<close>

theorem expand_bits_copies_prefix:
  assumes "unat tgt_len < 2 ^ 29" and "length target = unat tgt_len"
    and "unat src_bits \<le> 8 * length source \<or> unat tgt_len \<le> length source"
  shows "\<exists>e. expand_bits target source src_bits tgt_len = Some e \<and> length e = length target
     \<and> (\<forall>i < 8 * length target. bit_at e i \<longleftrightarrow> i < unat src_bits \<and> bit_at source i)"
  using expand_bits_bits[OF assms] .

lemma expand_bits_copies_prefix_witness:
  "\<exists>e. expand_bits [1, 2, 3, 4] [255, 255, 255] 12 4 = Some e \<and> length e = 4 \<and> bit_at e 11 \<and> \<not> bit_at e 12"
proof -
  have "bit_at [255, 255, 255] 11" by (simp add: bit_at_def)
  then show ?thesis
    using expand_bits_copies_prefix[of 4 "[1, 2, 3, 4]" 12 "[255, 255, 255]"] by auto
qed

text \<open>parse_hex_str inverts the hexadecimal printing of a byte string with hex_digit.\<close>

theorem parse_hex_str_roundtrip:
  assumes "length bs \<le> sz" and "sz \<le> length buf"
  shows "parse_hex_str (hex_of bs) buf sz = Some (True, bs @ drop (length bs) buf, length bs)"
  using parse_hex_str_hex_of[OF assms] .

lemma parse_hex_str_roundtrip_witness:
  "parse_hex_str (hex_of [0xde, 0xad]) [0, 0, 0] 3 = Some (True, [0xde, 0xad, 0], 2)"
  using parse_hex_str_roundtrip[of "[0xde, 0xad]" 3 "[0, 0, 0]"] by simp

text \<open>bxor, which works on 64-bit blocks and then on the remaining bytes, is the bytewise exclusive or
  of the first \<open>sz\<close> bytes; bor and band alike.\<close>

theorem bxor_bor_band_bytewise:
  assumes "sz \<le> length x1" "sz \<le> length x2" "sz \<le> length r"
  shows "bxor x1 x2 r sz = Some (map2 (XOR) (take sz x1) (take sz x2) @ drop sz r)
    \<and> bor x1 x2 r sz = Some (map2 (OR) (take sz x1) (take sz x2) @ drop sz r)
    \<and> band x1 x2 r sz = Some (map2 (AND) (take sz x1) (take sz x2) @ drop sz r)"
  using bitops_map2[OF assms] by simp

lemma bxor_bor_band_bytewise_witness:
  "bxor [1,2,3,4,5,6,7,8,9] [1,1,1,1,1,1,1,1,1] [0,0,0,0,0,0,0,0,0,77] 9
   = Some [0,3,2,5,4,7,6,9,8,77]"
  using bxor_bor_band_bytewise[of 9 "[1,2,3,4,5,6,7,8,9]" "[1,1,1,1,1,1,1,1,1]" "[0,0,0,0,0,0,0,0,0,77]"]
  by simp

text \<open>the overflow check of parse_int16 comes after \<open>atoi\<close> has cut the number to 32 bits, so that
  numbers far outside the range are accepted.\<close>

theorem parse_int16_accepts_overflow:
  "parse_int16 (lit ''4294967297'') = Some (True, 1) \<and> parse_int16 (lit ''32768'') = Some (False, 0x8000)"
  by (simp add: parse_int16_def c_atoi_def c_strtol_def num_body_def dec_val_def digit_val_def
      is_digit_def is_space_def Let_def)

end
