(* ===== verification/Filters.thy ===== *)
theory Filters
  imports Helpers
begin

text \<open>
  src/nfq2/filter.c and the filter lists of src/nfq2/pools.c: the port, ICMP and IP protocol filters of
  a profile, the packet range parser, the CIDR parsers, and the lists that collect filters. A parser
  that fills a structure through a pointer returns the structure, also when it fails half way.
\<close>

subsection \<open>Port filters\<close>

record port_filter =
  pf_from :: u16
  pf_to :: u16
  pf_neg :: bool

definition pf_match :: "u16 \<Rightarrow> port_filter \<Rightarrow> bool" where
  "pf_match port pf \<longleftrightarrow> port \<noteq> 0 \<and>
     (((pf_from pf = 0 \<and> pf_to pf = 0) \<or> (port \<ge> pf_from pf \<and> port \<le> pf_to pf)) \<noteq> pf_neg pf)"

text \<open>\<open>sscanf(s,"%u-%u%c",..)==2\<close> and \<open>sscanf(s,"%u%c",..)==1\<close>: the numbers, if nothing follows them.\<close>

definition scan_range :: "bytes \<Rightarrow> (u32 \<times> u32) option" where
  "scan_range s = (case scan_u s of
       Some (v1, c # r) \<Rightarrow>
         if c = ch (CHR ''-'') then
           (case scan_u r of Some (v2, []) \<Rightarrow> Some (v1, v2) | _ \<Rightarrow> None)
         else None
     | _ \<Rightarrow> None)"

definition scan_single :: "bytes \<Rightarrow> u32 option" where
  "scan_single s = (case scan_u s of Some (v1, []) \<Rightarrow> Some v1 | _ \<Rightarrow> None)"

definition pf_parse :: "bytes \<Rightarrow> port_filter \<Rightarrow> bool \<times> port_filter" where
  "pf_parse s pf =
     (if s = [ch (CHR ''*'')] then (True, pf\<lparr>pf_from := 1, pf_to := 0xFFFF, pf_neg := False\<rparr>)
      else
        (let neg = (s \<noteq> [] \<and> hd s = ch (CHR ''~''));
             s = (if neg then tl s else s);
             pf = pf\<lparr>pf_neg := neg\<rparr>;
             deny = (\<lambda>pf. (True, if pf_from pf = 0 \<and> pf_to pf = 0 then pf\<lparr>pf_neg := True\<rparr> else pf))
         in case scan_range s of
              Some (v1, v2) \<Rightarrow>
                if v1 > 65535 \<or> v2 > 65535 \<or> v1 > v2 then (False, pf)
                else deny (pf\<lparr>pf_from := ucast v1, pf_to := ucast v2\<rparr>)
            | None \<Rightarrow> (case scan_single s of
                Some v1 \<Rightarrow>
                  if v1 > 65535 then (False, pf)
                  else deny (pf\<lparr>pf_from := ucast v1, pf_to := ucast v1\<rparr>)
              | None \<Rightarrow> (False, pf))))"

subsection \<open>ICMP and IP protocol filters\<close>

datatype flt_mode = FLTMODE_SKIP | FLTMODE_ANY | FLTMODE_FILTER

definition fltmode_parse :: "bytes \<Rightarrow> bool \<times> flt_mode" where
  "fltmode_parse s =
     (if s = [ch (CHR ''*'')] then (True, FLTMODE_ANY)
      else if s = [ch (CHR ''-'')] then (True, FLTMODE_SKIP)
      else (False, FLTMODE_SKIP))"

record icmp_filter =
  icf_mode :: flt_mode
  icf_type :: u8
  icf_code :: u8
  icf_code_valid :: bool

definition icf_match :: "u8 \<Rightarrow> u8 \<Rightarrow> icmp_filter \<Rightarrow> bool" where
  "icf_match ty code icf \<longleftrightarrow> icf_mode icf = FLTMODE_ANY \<or>
     icf_mode icf = FLTMODE_FILTER \<and> icf_type icf = ty \<and> (\<not> icf_code_valid icf \<or> icf_code icf = code)"

text \<open>\<open>sscanf(s,"%u%c%u%c",..)\<close>: the results of the cases 1 and 3 of the switch.\<close>

datatype icf_scan = One u32 | Three u32 u8 u32 | Other

definition scan_icf :: "bytes \<Rightarrow> icf_scan" where
  "scan_icf s = (case scan_u s of
       None \<Rightarrow> Other
     | Some (u1, []) \<Rightarrow> One u1
     | Some (u1, c1 # r) \<Rightarrow> (case scan_u r of Some (u2, []) \<Rightarrow> Three u1 c1 u2 | _ \<Rightarrow> Other))"

definition icf_parse :: "bytes \<Rightarrow> icmp_filter \<Rightarrow> bool \<times> icmp_filter" where
  "icf_parse s icf =
     (let icf = icf\<lparr>icf_type := 0, icf_code := 0, icf_code_valid := False\<rparr>;
          (r, m) = fltmode_parse s;
          icf = icf\<lparr>icf_mode := m\<rparr>
      in if r then (True, icf)
         else case scan_icf s of
             One u1 \<Rightarrow>
               if u1 > 0xFF then (False, icf)
               else (True, icf\<lparr>icf_type := ucast u1, icf_mode := FLTMODE_FILTER\<rparr>)
           | Three u1 c1 u2 \<Rightarrow>
               if c1 \<noteq> ch (CHR '':'') \<or> u1 > 0xFF \<or> u2 > 0xFF then (False, icf)
               else (True, icf\<lparr>icf_type := ucast u1, icf_code := ucast u2, icf_code_valid := True,
                       icf_mode := FLTMODE_FILTER\<rparr>)
           | Other \<Rightarrow> (False, icf\<lparr>icf_mode := FLTMODE_SKIP\<rparr>))"

record ipp_filter =
  ipp_mode :: flt_mode
  ipp_proto :: u8

definition ipp_match :: "u8 \<Rightarrow> ipp_filter \<Rightarrow> bool" where
  "ipp_match proto ipp \<longleftrightarrow> ipp_mode ipp = FLTMODE_ANY \<or>
     ipp_mode ipp = FLTMODE_FILTER \<and> ipp_proto ipp = proto"

definition ipp_parse :: "bytes \<Rightarrow> ipp_filter \<Rightarrow> bool \<times> ipp_filter" where
  "ipp_parse s ipp =
     (let ipp = ipp\<lparr>ipp_proto := 0xFF\<rparr>;
          (r, m) = fltmode_parse s;
          ipp = ipp\<lparr>ipp_mode := m\<rparr>
      in if r then (True, ipp)
         else case scan_single s of
             None \<Rightarrow> (False, ipp)
           | Some u1 \<Rightarrow>
               if u1 > 0xFF then (False, ipp)
               else (True, ipp\<lparr>ipp_proto := ucast u1, ipp_mode := FLTMODE_FILTER\<rparr>))"

subsection \<open>Packet ranges\<close>

record packet_pos =
  pp_mode :: u8
  pp_pos :: u32

record packet_range =
  pr_from :: packet_pos
  pr_to :: packet_pos
  pr_upper_cutoff :: bool

definition PACKET_POS_NEVER :: packet_pos where
  "PACKET_POS_NEVER = \<lparr>pp_mode = ch (CHR ''x''), pp_pos = 0\<rparr>"

definition PACKET_POS_ALWAYS :: packet_pos where
  "PACKET_POS_ALWAYS = \<lparr>pp_mode = ch (CHR ''a''), pp_pos = 0\<rparr>"

definition packet_pos_parse :: "bytes \<Rightarrow> packet_pos \<Rightarrow> bool \<times> packet_pos" where
  "packet_pos_parse s pos =
     (case s of [] \<Rightarrow> (False, pos)
      | m # s \<Rightarrow>
          if m \<notin> set (lit ''ndspbxa'') then (False, pos)
          else (let pos = pos\<lparr>pp_mode := m\<rparr> in
            if m = ch (CHR ''x'') \<or> m = ch (CHR ''a'') then (True, pos\<lparr>pp_pos := 0\<rparr>)
            else case scan_u s of None \<Rightarrow> (False, pos) | Some (v, r) \<Rightarrow> (True, pos\<lparr>pp_pos := v\<rparr>)))"

text \<open>\<open>strchr\<close>: the suffix that starts with the character.\<close>

definition strchr :: "bytes \<Rightarrow> u8 \<Rightarrow> bytes option" where
  "strchr s c = (case dropWhile (\<lambda>x. x \<noteq> c) s of [] \<Rightarrow> None | r \<Rightarrow> Some r)"

text \<open>The part of \<open>packet_range_parse\<close> after the dash: \<open>s\<close> points to the character behind it.\<close>

definition range_tail :: "bytes \<Rightarrow> packet_range \<Rightarrow> bool \<times> packet_range" where
  "range_tail s rng =
     (if s \<noteq> [] then (let (r, p) = packet_pos_parse s (pr_to rng) in (r, rng\<lparr>pr_to := p\<rparr>))
      else (True, rng\<lparr>pr_to := PACKET_POS_ALWAYS\<rparr>))"

definition packet_range_parse :: "bytes \<Rightarrow> packet_range \<Rightarrow> bool \<times> packet_range" where
  "packet_range_parse s rng =
     (let rng = rng\<lparr>pr_upper_cutoff := False\<rparr> in
      if s \<noteq> [] \<and> (hd s = ch (CHR ''-'') \<or> hd s = ch (CHR ''<'')) then
        range_tail (tl s) (rng\<lparr>pr_from := PACKET_POS_ALWAYS, pr_upper_cutoff := (hd s = ch (CHR ''<''))\<rparr>)
      else
        (let (r, p) = packet_pos_parse s (pr_from rng); rng = rng\<lparr>pr_from := p\<rparr> in
         if \<not> r then (False, rng)
         else if pp_mode p = ch (CHR ''x'') then (True, rng\<lparr>pr_to := p\<rparr>)
         else
           (case (case strchr s (ch (CHR ''-'')) of None \<Rightarrow> strchr s (ch (CHR ''<'')) | Some q \<Rightarrow> Some q) of
              Some s \<Rightarrow> range_tail (tl s) (rng\<lparr>pr_upper_cutoff := (hd s = ch (CHR ''<''))\<rparr>)
            | None \<Rightarrow>
                if pp_mode p = ch (CHR ''a'') then (True, rng\<lparr>pr_to := p\<rparr>)
                else (False, rng))))"

subsection \<open>CIDR notation\<close>

text \<open>
  One definition for both families: \<open>maxlen\<close> is 32 or 128, \<open>pton\<close> is \<open>inet_pton\<close> and \<open>ntop\<close> is
  \<open>inet_ntop\<close> of the family, with addresses in network order.
\<close>

record cidr =
  cidr_addr :: bytes
  cidr_preflen :: u8

definition parse_cidr :: "nat \<Rightarrow> (bytes \<Rightarrow> bytes option) \<Rightarrow> bytes \<Rightarrow> cidr \<Rightarrow> bool \<times> cidr" where
  "parse_cidr maxlen pton s c =
     (let addr = (\<lambda>t c. case pton t of None \<Rightarrow> (False, c) | Some a \<Rightarrow> (True, c\<lparr>cidr_addr := a\<rparr>)) in
      case strchr s (ch (CHR ''/'')) of
        Some p \<Rightarrow> (case scan_u (tl p) of
            None \<Rightarrow> (False, c)
          | Some (plen, r) \<Rightarrow>
              if unat plen > maxlen then (False, c)
              else addr (takeWhile (\<lambda>x. x \<noteq> ch (CHR ''/'')) s) (c\<lparr>cidr_preflen := ucast plen\<rparr>))
      | None \<Rightarrow> addr s (c\<lparr>cidr_preflen := of_nat maxlen\<rparr>))"

definition parse_cidr4 :: "(bytes \<Rightarrow> bytes option) \<Rightarrow> bytes \<Rightarrow> cidr \<Rightarrow> bool \<times> cidr" where
  "parse_cidr4 pton s c = parse_cidr 32 pton s c"

definition parse_cidr6 :: "(bytes \<Rightarrow> bytes option) \<Rightarrow> bytes \<Rightarrow> cidr \<Rightarrow> bool \<times> cidr" where
  "parse_cidr6 pton s c = parse_cidr 128 pton s c"

text \<open>The \<open>%u\<close> conversion of \<open>printf\<close>.\<close>

fun dec_str :: "nat \<Rightarrow> bytes" where
  "dec_str n = (if n < 10 then [of_nat (48 + n)] else dec_str (n div 10) @ [of_nat (48 + n mod 10)])"

declare dec_str.simps [simp del]

text \<open>\<open>snprintf\<close> into \<open>s_len\<close> bytes leaves at most \<open>s_len - 1\<close> characters.\<close>

definition str_cidr :: "nat \<Rightarrow> (bytes \<Rightarrow> bytes) \<Rightarrow> nat \<Rightarrow> cidr \<Rightarrow> bytes" where
  "str_cidr maxlen ntop s_len c =
     take (s_len - 1) (if unat (cidr_preflen c) < maxlen
       then ntop (cidr_addr c) @ [ch (CHR ''/'')] @ dec_str (unat (cidr_preflen c))
       else ntop (cidr_addr c))"

definition str_cidr4 :: "(bytes \<Rightarrow> bytes) \<Rightarrow> nat \<Rightarrow> cidr \<Rightarrow> bytes" where
  "str_cidr4 ntop s_len c = str_cidr 32 ntop s_len c"

definition str_cidr6 :: "(bytes \<Rightarrow> bytes) \<Rightarrow> nat \<Rightarrow> cidr \<Rightarrow> bytes" where
  "str_cidr6 ntop s_len c = str_cidr 128 ntop s_len c"

subsection \<open>Lists of filters\<close>

text \<open>
  The lists of src/nfq2/pools.c, first element first. An element is added in front;
  a list is copied behind the tail of another; an empty list matches everything.
\<close>

definition port_filter_add :: "port_filter list \<Rightarrow> port_filter \<Rightarrow> port_filter list" where
  "port_filter_add h pf = pf # h"

fun port_filters_copy :: "port_filter list \<Rightarrow> port_filter list \<Rightarrow> port_filter list" where
  "port_filters_copy to [] = to"
| "port_filters_copy to (f # fs) = port_filters_copy (to @ [f]) fs"

definition port_filters_match :: "port_filter list \<Rightarrow> u16 \<Rightarrow> bool" where
  "port_filters_match h port \<longleftrightarrow> h = [] \<or> list_ex (pf_match port) h"

definition port_filters_deny_if_empty :: "port_filter \<Rightarrow> port_filter list \<Rightarrow> bool \<times> port_filter list" where
  "port_filters_deny_if_empty junk h =
     (if h \<noteq> [] then (True, h)
      else let (r, pf) = pf_parse (lit ''0'') junk in (r, if r then port_filter_add h pf else h))"

definition icmp_filter_add :: "icmp_filter list \<Rightarrow> icmp_filter \<Rightarrow> icmp_filter list" where
  "icmp_filter_add h icf = icf # h"

fun icmp_filters_copy :: "icmp_filter list \<Rightarrow> icmp_filter list \<Rightarrow> icmp_filter list" where
  "icmp_filters_copy to [] = to"
| "icmp_filters_copy to (f # fs) = icmp_filters_copy (to @ [f]) fs"

definition icmp_filters_match :: "icmp_filter list \<Rightarrow> u8 \<Rightarrow> u8 \<Rightarrow> bool" where
  "icmp_filters_match h ty code \<longleftrightarrow> h = [] \<or> list_ex (icf_match ty code) h"

definition icmp_filters_deny_if_empty :: "icmp_filter \<Rightarrow> icmp_filter list \<Rightarrow> bool \<times> icmp_filter list" where
  "icmp_filters_deny_if_empty junk h =
     (if h \<noteq> [] then (True, h)
      else let (r, icf) = icf_parse (lit ''-'') junk in (r, if r then icmp_filter_add h icf else h))"

definition ipp_filter_add :: "ipp_filter list \<Rightarrow> ipp_filter \<Rightarrow> ipp_filter list" where
  "ipp_filter_add h ipp = ipp # h"

fun ipp_filters_copy :: "ipp_filter list \<Rightarrow> ipp_filter list \<Rightarrow> ipp_filter list" where
  "ipp_filters_copy to [] = to"
| "ipp_filters_copy to (f # fs) = ipp_filters_copy (to @ [f]) fs"

definition ipp_filters_match :: "ipp_filter list \<Rightarrow> u8 \<Rightarrow> bool" where
  "ipp_filters_match h proto \<longleftrightarrow> h = [] \<or> list_ex (ipp_match proto) h"

definition ipp_filters_deny_if_empty :: "ipp_filter \<Rightarrow> ipp_filter list \<Rightarrow> bool \<times> ipp_filter list" where
  "ipp_filters_deny_if_empty junk h =
     (if h \<noteq> [] then (True, h)
      else let (r, ipp) = ipp_parse (lit ''-'') junk in (r, if r then ipp_filter_add h ipp else h))"

subsection \<open>Decimal numbers\<close>

lemma digit_chars: "k < 10 \<Longrightarrow> is_digit (of_nat (48 + k)) \<and> digit_val (of_nat (48 + k)) = k"
proof -
  assume k: "k < 10"
  then have "unat (of_nat (48 + k) :: u8) = 48 + k"
    unfolding unat_of_nat by (simp add: take_bit_nat_eq_self)
  with k show ?thesis by (simp add: is_digit_def digit_val_def word_le_nat_alt del: of_nat_add)
qed

lemma dec_str_digits: "list_all is_digit (dec_str n) \<and> dec_str n \<noteq> []"
proof (induction n rule: dec_str.induct)
  case (1 n)
  have m: "n mod 10 < 10" by simp
  show ?case
  proof (cases "n < 10")
    case True
    then show ?thesis
      using digit_chars[of n] by (subst (1 2) dec_str.simps) (simp del: of_nat_add)
  next
    case False
    then show ?thesis
      using 1 digit_chars[OF m] by (subst (1 2) dec_str.simps) (simp del: of_nat_add)
  qed
qed

lemma dec_val_dec_str: "dec_val (dec_str n) = n"
proof (induction n rule: dec_str.induct)
  case (1 n)
  have m: "n mod 10 < 10" by simp
  show ?case
  proof (cases "n < 10")
    case True
    then show ?thesis
      using digit_chars[of n] by (subst dec_str.simps) (simp add: dec_val_def del: of_nat_add)
  next
    case False
    then show ?thesis
      using 1 digit_chars[OF m]
      by (subst dec_str.simps) (simp add: dec_val_def mult_div_mod_eq del: of_nat_add)
  qed
qed

lemma digit_not: "is_digit c \<Longrightarrow> \<not> is_space c \<and> c \<noteq> ch (CHR ''-'') \<and> c \<noteq> ch (CHR ''+'')
    \<and> c \<noteq> ch (CHR ''~'') \<and> c \<noteq> ch (CHR ''*'') \<and> c \<noteq> ch (CHR ''/'') \<and> c \<noteq> ch (CHR ''<'')"
  by (auto simp: is_digit_def is_space_def word_le_nat_alt)

text \<open>A decimal number that no digit follows is scanned as its value modulo 2 to the 32.\<close>

lemma scan_u_digits:
  assumes ds: "list_all is_digit ds" "ds \<noteq> []" and r: "r = [] \<or> \<not> is_digit (hd r)"
    and small: "dec_val ds < 2 ^ 64"
  shows "scan_u (ds @ r) = Some (of_nat (dec_val ds), r)"
proof -
  obtain c cs where c: "ds = c # cs" using ds(2) by (cases ds) auto
  have sp: "dropWhile is_space (ds @ r) = ds @ r"
    and sg: "hd (ds @ r) \<noteq> ch (CHR ''-'')" "hd (ds @ r) \<noteq> ch (CHR ''+'')"
    using digit_not[of c] ds(1) by (simp_all add: c)
  have tw: "takeWhile is_digit (ds @ r) = ds" "dropWhile is_digit (ds @ r) = r"
    using ds(1) r by (cases r; simp add: takeWhile_append dropWhile_append list_all_iff; fail)+
  have "num_body (ds @ r) = Some (False, dec_val ds, r)"
    using sp sg tw ds(2) by (simp add: num_body_def Let_def)
  moreover have "ucast (of_nat n :: u64) = (of_nat n :: u32)" for n
    by (rule word_unat_eq_iff[THEN iffD2]) (simp add: unat_ucast_mod unat_of_nat take_bit_eq_mod mod_mod_cancel)
  ultimately show ?thesis using small by (simp add: scan_u_def c_strtoul_def)
qed

lemma scan_u_dec_str:
  "n < 2 ^ 32 \<Longrightarrow> r = [] \<or> \<not> is_digit (hd r) \<Longrightarrow> scan_u (dec_str n @ r) = Some (of_nat n, r)"
  using scan_u_digits[of "dec_str n" r] dec_str_digits[of n] by (simp add: dec_val_dec_str)

lemma scan_single_dec_str: "n < 2 ^ 32 \<Longrightarrow> scan_single (dec_str n) = Some (of_nat n)"
  using scan_u_dec_str[of n "[]"] by (simp add: scan_single_def)

lemma dash_not_digit: "\<not> is_digit (ch (CHR ''-''))" "\<not> is_digit (ch (CHR ''/''))"
  by (simp_all add: is_digit_def)

lemma scan_range_dec_str:
  "a < 2 ^ 32 \<Longrightarrow> b < 2 ^ 32 \<Longrightarrow>
   scan_range (dec_str a @ [ch (CHR ''-'')] @ dec_str b) = Some (of_nat a, of_nat b)"
  using scan_u_dec_str[of a "[ch (CHR ''-'')] @ dec_str b"] scan_u_dec_str[of b "[]"] dash_not_digit
  by (simp add: scan_range_def)

subsection \<open>What a parsed port filter matches\<close>

definition port_text :: "bool \<Rightarrow> nat \<Rightarrow> nat \<Rightarrow> bytes" where
  "port_text neg a b = (if neg then [ch (CHR ''~'')] else []) @ dec_str a @ [ch (CHR ''-'')] @ dec_str b"

lemma dec_str_hd: "dec_str n @ r \<noteq> [] \<and> is_digit (hd (dec_str n @ r)) \<and> hd (dec_str n @ r) = hd (dec_str n)"
  using dec_str_digits[of n] by (cases "dec_str n") auto

lemma pf_parse_range:
  assumes "a \<le> b" and "b \<le> 65535"
  shows "pf_parse (port_text neg a b) junk =
    (True, junk\<lparr>pf_from := of_nat a, pf_to := of_nat b, pf_neg := (neg \<or> a = 0 \<and> b = 0)\<rparr>)"
proof -
  let ?s = "dec_str a @ [ch (CHR ''-'')] @ dec_str b"
  have s: "scan_range ?s = Some (of_nat a, of_nat b)"
    by (rule scan_range_dec_str) (use assms in simp_all)
  have u: "unat (of_nat a :: u32) = a" "unat (of_nat b :: u32) = b"
    "unat (of_nat a :: u16) = a" "unat (of_nat b :: u16) = b"
    unfolding unat_of_nat using assms by (simp_all add: take_bit_nat_eq_self)
  have cast: "ucast (of_nat a :: u32) = (of_nat a :: u16)" "ucast (of_nat b :: u32) = (of_nat b :: u16)"
    using assms by (simp_all add: word_unat_eq_iff unat_ucast_mod u)
  have z: "(of_nat a :: u16) = 0 \<longleftrightarrow> a = 0" "(of_nat b :: u16) = 0 \<longleftrightarrow> b = 0"
    unfolding word_unat_eq_iff u by simp_all
  have star: "port_text neg a b \<noteq> [ch (CHR ''*'')]"
    using dec_str_hd[of a "[ch (CHR ''-'')] @ dec_str b"] digit_not[of "ch (CHR ''*'')"]
    by (auto simp: port_text_def append_eq_Cons_conv)
  have neg: "(port_text neg a b \<noteq> [] \<and> hd (port_text neg a b) = ch (CHR ''~'')) = neg"
    "(if neg then tl (port_text neg a b) else port_text neg a b) = ?s"
    using dec_str_hd[of a "[ch (CHR ''-'')] @ dec_str b"] digit_not[of "ch (CHR ''~'')"]
    by (auto simp: port_text_def)
  have r: "\<not> (of_nat a > (65535 :: u32) \<or> of_nat b > (65535 :: u32) \<or> of_nat a > (of_nat b :: u32))"
    using assms by (simp add: word_less_nat_alt u)
  show ?thesis
    unfolding pf_parse_def Let_def neg s option.case prod.case
    using star r by (simp add: cast z)
qed

lemma port_text_match:
  assumes "a \<le> b" and "b \<le> 65535"
  shows "pf_match port (snd (pf_parse (port_text neg a b) junk)) \<longleftrightarrow>
     port \<noteq> 0 \<and> \<not> (a = 0 \<and> b = 0) \<and> ((a \<le> unat port \<and> unat port \<le> b) \<noteq> neg)"
proof -
  have u: "unat (of_nat a :: u16) = a" "unat (of_nat b :: u16) = b"
    unfolding unat_of_nat using assms by (simp_all add: take_bit_nat_eq_self)
  then have z: "(of_nat a :: u16) = 0 \<longleftrightarrow> a = 0" "(of_nat b :: u16) = 0 \<longleftrightarrow> b = 0"
    unfolding word_unat_eq_iff by simp_all
  show ?thesis
    using pf_parse_range[OF assms, of neg junk] by (auto simp: pf_match_def word_le_nat_alt u z)
qed
subsection \<open>CIDR notation round trip\<close>

lemma strchr_append:
  "c \<notin> set s \<Longrightarrow> strchr (s @ c # r) c = Some (c # r) \<and> takeWhile (\<lambda>x. x \<noteq> c) (s @ c # r) = s"
  by (induction s) (auto simp: strchr_def)

lemma strchr_none: "c \<notin> set s \<Longrightarrow> strchr s c = None"
  by (induction s) (auto simp: strchr_def)

lemma parse_str_cidr:
  assumes pton: "pton (ntop (cidr_addr c)) = Some (cidr_addr c)"
    and slash: "ch (CHR ''/'') \<notin> set (ntop (cidr_addr c))"
    and len: "unat (cidr_preflen c) \<le> maxlen" "maxlen < 256"
    and fits: "length (ntop (cidr_addr c)) + length (dec_str (unat (cidr_preflen c))) + 1 < s_len"
  shows "parse_cidr maxlen pton (str_cidr maxlen ntop s_len c) junk = (True, c)"
proof (cases "unat (cidr_preflen c) < maxlen")
  case True
  define n where "n = unat (cidr_preflen c)"
  have lt: "n < 4294967296" unfolding n_def using unat_u8_less[of "cidr_preflen c"] by linarith
  have s: "str_cidr maxlen ntop s_len c = ntop (cidr_addr c) @ ch (CHR ''/'') # dec_str n"
    using True fits by (simp add: str_cidr_def n_def)
  have u: "scan_u (dec_str n) = Some (of_nat n, [])"
    using scan_u_dec_str[of n "[]"] lt by simp
  have v: "unat (of_nat n :: u32) = n"
    using lt unfolding unat_of_nat by (simp add: take_bit_nat_eq_self)
  have "ucast (of_nat n :: u32) = cidr_preflen c"
    unfolding word_unat_eq_iff unat_ucast_mod v by (simp add: n_def)
  moreover have "\<not> n > maxlen" using len n_def by simp
  moreover have "c\<lparr>cidr_addr := cidr_addr c\<rparr> = c" by simp
  ultimately show ?thesis
    unfolding s parse_cidr_def Let_def strchr_append[OF slash, THEN conjunct1] option.case
      strchr_append[OF slash, THEN conjunct2] list.sel u prod.case v pton if_False
    by simp
next
  case False
  with len have eq: "unat (cidr_preflen c) = maxlen" by simp
  have s: "str_cidr maxlen ntop s_len c = ntop (cidr_addr c)"
    using False fits by (simp add: str_cidr_def)
  have "of_nat maxlen = cidr_preflen c" unfolding eq[symmetric] by simp
  then show ?thesis unfolding s parse_cidr_def Let_def strchr_none[OF slash] by (simp add: pton)
qed

subsection \<open>The contract of a filter list\<close>

locale filter_list =
  fixes item_match :: "'f \<Rightarrow> 'k \<Rightarrow> bool"
    and add :: "'f list \<Rightarrow> 'f \<Rightarrow> 'f list"
    and copy :: "'f list \<Rightarrow> 'f list \<Rightarrow> 'f list"
    and all_match :: "'f list \<Rightarrow> 'k \<Rightarrow> bool"
    and deny_if_empty :: "'f \<Rightarrow> 'f list \<Rightarrow> bool \<times> 'f list"
  assumes add_set: "set (add h f) = insert f (set h)"
    and copy_append: "copy h g = h @ g"
    and match_empty: "all_match [] k"
    and match_items: "h \<noteq> [] \<Longrightarrow> all_match h k \<longleftrightarrow> (\<exists>f \<in> set h. item_match f k)"
    and deny_keeps: "h \<noteq> [] \<Longrightarrow> deny_if_empty j h = (True, h)"
    and deny_item: "\<exists>f. deny_if_empty j [] = (True, [f]) \<and> (\<forall>k. \<not> item_match f k)"
begin

lemma deny_match: "all_match (snd (deny_if_empty j h)) k \<longleftrightarrow> h \<noteq> [] \<and> all_match h k"
proof (cases "h = []")
  case True
  from deny_item[of j] obtain f where "deny_if_empty j [] = (True, [f])" "\<forall>k. \<not> item_match f k"
    by blast
  with True match_items[of "[f]" k] show ?thesis by simp
qed (simp add: deny_keeps)

lemma deny_succeeds: "fst (deny_if_empty j h)"
  using deny_item[of j] deny_keeps[of h j] by (cases "h = []") auto

lemma copy_match:
  "all_match (copy h g) k \<longleftrightarrow>
     (h = [] \<and> g = []) \<or> (h \<noteq> [] \<and> all_match h k) \<or> (g \<noteq> [] \<and> all_match g k)"
  unfolding copy_append
  by (cases "h = []"; cases "g = []"; simp add: match_empty match_items) blast

lemma add_match: "all_match (add h f) k \<longleftrightarrow> item_match f k \<or> (h \<noteq> [] \<and> all_match h k)"
proof -
  have "add h f \<noteq> []" using add_set[of h f] by auto
  then show ?thesis
    using add_set[of h f] by (cases "h = []") (auto simp: match_items)
qed

end

lemma port_copy_append: "port_filters_copy h g = h @ g"
  by (induction h g rule: port_filters_copy.induct) auto

lemma icmp_copy_append: "icmp_filters_copy h g = h @ g"
  by (induction h g rule: icmp_filters_copy.induct) auto

lemma ipp_copy_append: "ipp_filters_copy h g = h @ g"
  by (induction h g rule: ipp_filters_copy.induct) auto

lemmas num_eval = scan_range_def scan_single_def scan_icf_def scan_u_def c_strtoul_def num_body_def dec_val_def
  digit_val_def is_digit_def is_space_def Let_def

interpretation port_list: filter_list "\<lambda>f p. pf_match p f" port_filter_add port_filters_copy
    port_filters_match port_filters_deny_if_empty
proof unfold_locales
  fix j
  show "\<exists>f. port_filters_deny_if_empty j [] = (True, [f]) \<and> (\<forall>k. \<not> pf_match k f)"
    by (simp add: port_filters_deny_if_empty_def port_filter_add_def pf_parse_def num_eval pf_match_def)
qed (auto simp: port_filter_add_def port_copy_append port_filters_match_def list_ex_iff
      port_filters_deny_if_empty_def)

interpretation icmp_list: filter_list "\<lambda>f (t, c). icf_match t c f" icmp_filter_add icmp_filters_copy
    "\<lambda>h (t, c). icmp_filters_match h t c" icmp_filters_deny_if_empty
proof unfold_locales
  fix j
  show "\<exists>f. icmp_filters_deny_if_empty j [] = (True, [f]) \<and> (\<forall>k. \<not> (case k of (t, c) \<Rightarrow> icf_match t c f))"
    by (simp add: icmp_filters_deny_if_empty_def icmp_filter_add_def icf_parse_def fltmode_parse_def
        icf_match_def)
qed (auto simp: icmp_filter_add_def icmp_copy_append icmp_filters_match_def list_ex_iff
      icmp_filters_deny_if_empty_def)

interpretation ipp_list: filter_list "\<lambda>f p. ipp_match p f" ipp_filter_add ipp_filters_copy
    ipp_filters_match ipp_filters_deny_if_empty
proof unfold_locales
  fix j
  show "\<exists>f. ipp_filters_deny_if_empty j [] = (True, [f]) \<and> (\<forall>k. \<not> ipp_match k f)"
    by (simp add: ipp_filters_deny_if_empty_def ipp_filter_add_def ipp_parse_def fltmode_parse_def
        ipp_match_def)
qed (auto simp: ipp_filter_add_def ipp_copy_append ipp_filters_match_def list_ex_iff
      ipp_filters_deny_if_empty_def)

subsection \<open>The promises of the filters\<close>

text \<open>A port filter parsed from the text "a-b" or "~a-b" matches exactly the ports it names: a non-zero
  port inside the range, or outside it for the negated form; the range 0-0 matches no port.\<close>

theorem pf_parse_match:
  assumes "a \<le> b" and "b \<le> 65535"
  shows "fst (pf_parse (port_text neg a b) junk)
    \<and> (pf_match port (snd (pf_parse (port_text neg a b) junk)) \<longleftrightarrow>
       port \<noteq> 0 \<and> \<not> (a = 0 \<and> b = 0) \<and> ((a \<le> unat port \<and> unat port \<le> b) \<noteq> neg))"
  using port_text_match[OF assms] pf_parse_range[OF assms] by simp

lemma pf_parse_match_witness:
  "pf_match 443 (snd (pf_parse (port_text True 1 80) \<lparr>pf_from = 7, pf_to = 7, pf_neg = False\<rparr>))
   \<and> \<not> pf_match 80 (snd (pf_parse (port_text True 1 80) \<lparr>pf_from = 7, pf_to = 7, pf_neg = False\<rparr>))"
  using pf_parse_match[of 1 80 True "\<lparr>pf_from = 7, pf_to = 7, pf_neg = False\<rparr>" 443]
    pf_parse_match[of 1 80 True "\<lparr>pf_from = 7, pf_to = 7, pf_neg = False\<rparr>" 80] by simp

text \<open>pf_parse cuts a number to 32 bits before it checks the range: 4294967376 is accepted as port 80.\<close>

theorem pf_parse_wraps:
  "pf_parse (lit ''4294967376'') junk = (True, junk\<lparr>pf_from := 80, pf_to := 80, pf_neg := False\<rparr>)"
  by (simp add: pf_parse_def num_eval)

text \<open>The deny step closes a profile: after deny_if_empty a list of port, ICMP or protocol filters
  matches exactly what it matched before if it had an element, and nothing if it was empty.\<close>

theorem deny_if_empty_closes:
  "(port_filters_match (snd (port_filters_deny_if_empty jp hp)) port \<longleftrightarrow> hp \<noteq> [] \<and> port_filters_match hp port)
   \<and> (icmp_filters_match (snd (icmp_filters_deny_if_empty ji hi)) ty code
        \<longleftrightarrow> hi \<noteq> [] \<and> icmp_filters_match hi ty code)
   \<and> (ipp_filters_match (snd (ipp_filters_deny_if_empty jq hq)) proto \<longleftrightarrow> hq \<noteq> [] \<and> ipp_filters_match hq proto)"
  using port_list.deny_match[of jp hp port] icmp_list.deny_match[of ji hi "(ty, code)"]
    ipp_list.deny_match[of jq hq proto] by simp

text \<open>Parsing the text str_cidr4 or str_cidr6 prints gives the CIDR block back, whatever the structure
  held, if the C library's address functions invert each other and print no slash.\<close>

theorem cidr_roundtrip:
  assumes "pton (ntop (cidr_addr c)) = Some (cidr_addr c)"
    and "ch (CHR ''/'') \<notin> set (ntop (cidr_addr c))"
    and "length (ntop (cidr_addr c)) + length (dec_str (unat (cidr_preflen c))) + 1 < s_len"
    and "unat (cidr_preflen c) \<le> 128"
  shows "(unat (cidr_preflen c) \<le> 32 \<longrightarrow> parse_cidr4 pton (str_cidr4 ntop s_len c) junk = (True, c))
    \<and> parse_cidr6 pton (str_cidr6 ntop s_len c) junk = (True, c)"
  unfolding parse_cidr4_def parse_cidr6_def str_cidr4_def str_cidr6_def
  by (intro conjI impI parse_str_cidr) (use assms in simp_all)

lemma cidr_roundtrip_witness:
  "parse_cidr4 (\<lambda>t. Some (map (\<lambda>x. x - 48) t))
     (str_cidr4 (map (\<lambda>x. x + 48)) 20 \<lparr>cidr_addr = [1, 2, 3, 4], cidr_preflen = 24\<rparr>)
     \<lparr>cidr_addr = [], cidr_preflen = 0\<rparr> = (True, \<lparr>cidr_addr = [1, 2, 3, 4], cidr_preflen = 24\<rparr>)"
  using cidr_roundtrip[of "\<lambda>t. Some (map (\<lambda>x. x - 48) t)" "map (\<lambda>x. x + 48)"
      "\<lparr>cidr_addr = [1, 2, 3, 4], cidr_preflen = 24\<rparr>" 20 "\<lparr>cidr_addr = [], cidr_preflen = 0\<rparr>"]
  by (simp add: dec_str.simps)

end
