(* ===== verification/Dissect.thy ===== *)
theory Dissect
  imports Filters
begin

text \<open>
  The packet dissector of src/nfq2/darkmagic.c: header checks and skips, the IPv6 extension header walk,
  TCP options, and \<open>proto_dissect_l3l4\<close> that finds the headers of a packet. Pointers are offsets into
  the packet buffer, \<open>size_t\<close> is a natural number below 2 to the 64 with the wrap of an unguarded
  subtraction written out (\<open>size_sub\<close>), and a read outside the buffer is \<open>None\<close>.
\<close>

definition size_sub :: "nat \<Rightarrow> nat \<Rightarrow> nat" where
  "size_sub a b = nat ((int a - int b) mod 2 ^ 64)"

definition net32_add :: "bytes \<Rightarrow> nat \<Rightarrow> u32 \<Rightarrow> bytes option" where
  "net32_add d p inc = do { v \<leftarrow> pntoh32 d p; phton32 d p (v + inc) }"

definition net16_add :: "bytes \<Rightarrow> nat \<Rightarrow> u16 \<Rightarrow> bytes option" where
  "net16_add d p inc = do { v \<leftarrow> pntoh16 d p; phton16 d p (v + inc) }"

subsection \<open>TCP header\<close>

definition TCP_KIND_END :: u8 where "TCP_KIND_END = 0"
definition TCP_KIND_NOOP :: u8 where "TCP_KIND_NOOP = 1"
definition TCP_KIND_MSS :: u8 where "TCP_KIND_MSS = 2"
definition TCP_KIND_SCALE :: u8 where "TCP_KIND_SCALE = 3"
definition SCALE_NONE :: u8 where "SCALE_NONE = 255"
definition IPPROTO_NONE :: u8 where "IPPROTO_NONE = 59"

text \<open>The option walk of \<open>tcp_find_option\<close>, from \<open>t\<close> to \<open>e\<close>: a pointer to the option or NULL.\<close>

function tcp_opt_loop :: "bytes \<Rightarrow> u8 \<Rightarrow> nat \<Rightarrow> nat \<Rightarrow> nat option option" where
  "tcp_opt_loop d kind t e =
     (if t < e then
        case rd d t of None \<Rightarrow> None
        | Some k \<Rightarrow>
            if k = TCP_KIND_END then Some None
            else if k = TCP_KIND_NOOP then tcp_opt_loop d kind (t + 1) e
            else if t + 1 \<ge> e then Some None
            else (case rd d (t + 1) of None \<Rightarrow> None
              | Some l \<Rightarrow>
                  if unat l < 2 \<or> t + unat l > e then Some None
                  else if k = kind then Some (Some t)
                  else tcp_opt_loop d kind (t + unat l) e)
      else Some None)"
  by pat_completeness auto
termination by (relation "measure (\<lambda>(d, kind, t, e). e - t)") auto

declare tcp_opt_loop.simps [simp del]

definition th_off :: "bytes \<Rightarrow> nat \<Rightarrow> nat option" where
  "th_off d tcp = map_option (\<lambda>b. unat (drop_bit 4 b)) (rd d (tcp + 12))"

definition tcp_find_option :: "bytes \<Rightarrow> nat \<Rightarrow> u8 \<Rightarrow> nat option option" where
  "tcp_find_option d tcp kind = do {
     o' \<leftarrow> th_off d tcp;
     tcp_opt_loop d kind (tcp + 20) (tcp + 4 * o') }"

definition tcp_find_scale_factor :: "bytes \<Rightarrow> nat \<Rightarrow> u8 option" where
  "tcp_find_scale_factor d tcp = do {
     r \<leftarrow> tcp_find_option d tcp TCP_KIND_SCALE;
     (case r of None \<Rightarrow> Some SCALE_NONE
      | Some s \<Rightarrow> do { l \<leftarrow> rd d (s + 1); if l = 3 then rd d (s + 2) else Some SCALE_NONE }) }"

definition tcp_find_mss :: "bytes \<Rightarrow> nat \<Rightarrow> u16 option" where
  "tcp_find_mss d tcp = do {
     r \<leftarrow> tcp_find_option d tcp TCP_KIND_MSS;
     (case r of None \<Rightarrow> Some 0
      | Some t \<Rightarrow> do { l \<leftarrow> rd d (t + 1); if l = 4 then pntoh16 d (t + 2) else Some 0 }) }"

definition TH_FIN :: u8 where "TH_FIN = 1"
definition TH_SYN :: u8 where "TH_SYN = 2"
definition TH_RST :: u8 where "TH_RST = 4"
definition TH_PUSH :: u8 where "TH_PUSH = 8"
definition TH_ACK :: u8 where "TH_ACK = 16"
definition TH_URG :: u8 where "TH_URG = 32"

definition th_flags :: "bytes \<Rightarrow> nat \<Rightarrow> u8 option" where
  "th_flags d tcp = rd d (tcp + 13)"

definition tcp_synack_segment :: "bytes \<Rightarrow> nat \<Rightarrow> bool option" where
  "tcp_synack_segment d tcp = map_option
     (\<lambda>f. f AND (TH_URG OR TH_ACK OR TH_PUSH OR TH_RST OR TH_SYN OR TH_FIN) = TH_ACK OR TH_SYN) (th_flags d tcp)"

definition tcp_syn_segment :: "bytes \<Rightarrow> nat \<Rightarrow> bool option" where
  "tcp_syn_segment d tcp = map_option
     (\<lambda>f. f AND (TH_URG OR TH_ACK OR TH_PUSH OR TH_RST OR TH_SYN OR TH_FIN) = TH_SYN) (th_flags d tcp)"

text \<open>\<open>extract_ports\<close>: the protocol, the source and the destination port; the header pointers may be NULL.\<close>

definition extract_ports :: "bytes \<Rightarrow> nat option \<Rightarrow> nat option \<Rightarrow> (u8 \<times> u16 \<times> u16) option" where
  "extract_ports d tcp udp =
     (case tcp of Some t \<Rightarrow> do { s \<leftarrow> pntoh16 d t; p \<leftarrow> pntoh16 d (t + 2); Some (IPPROTO_TCP, s, p) }
      | None \<Rightarrow> (case udp of
            Some u \<Rightarrow> do { s \<leftarrow> pntoh16 d u; p \<leftarrow> pntoh16 d (u + 2); Some (IPPROTO_UDP, s, p) }
          | None \<Rightarrow> Some (IPPROTO_NONE, 0, 0)))"

subsection \<open>Header checks and skips\<close>

definition ip_hl :: "bytes \<Rightarrow> nat \<Rightarrow> nat option" where
  "ip_hl d p = map_option (\<lambda>b. unat (b AND 0x0F)) (rd d p)"

definition proto_check_ipv4 :: "bytes \<Rightarrow> nat \<Rightarrow> nat \<Rightarrow> bool option" where
  "proto_check_ipv4 d p len =
     (if len < 20 then Some False
      else do {
        b \<leftarrow> rd d p;
        if drop_bit 4 b \<noteq> 4 then Some False
        else do { hl \<leftarrow> ip_hl d p; Some (4 * hl \<ge> 20 \<and> len \<ge> 4 * hl) } })"

definition proto_check_ipv4_payload :: "bytes \<Rightarrow> nat \<Rightarrow> nat \<Rightarrow> bool option" where
  "proto_check_ipv4_payload d p len = map_option (\<lambda>l. len \<ge> unat l) (pntoh16 d (p + 2))"

text \<open>The new data pointer and length, whether it is a fragment, and the fragment offset.\<close>

definition proto_skip_ipv4 :: "bytes \<Rightarrow> nat \<Rightarrow> nat \<Rightarrow> (nat \<times> nat \<times> bool \<times> u16) option" where
  "proto_skip_ipv4 d p len = do {
     hl \<leftarrow> ip_hl d p;
     ipoff \<leftarrow> pntoh16 d (p + 6);
     Some (p + 4 * hl, size_sub len (4 * hl), ipoff AND (0x1FFF OR 0x2000) \<noteq> 0, push_bit 3 (ipoff AND 0x1FFF)) }"

definition proto_check_tcp :: "bytes \<Rightarrow> nat \<Rightarrow> nat \<Rightarrow> bool option" where
  "proto_check_tcp d p len =
     (if len < 20 then Some False
      else do { o' \<leftarrow> th_off d p; Some (4 * o' \<ge> 20 \<and> len \<ge> 4 * o') })"

definition proto_skip_tcp :: "bytes \<Rightarrow> nat \<Rightarrow> nat \<Rightarrow> (nat \<times> nat) option" where
  "proto_skip_tcp d p len = do { o' \<leftarrow> th_off d p; Some (p + 4 * o', size_sub len (4 * o')) }"

definition proto_check_udp :: "nat \<Rightarrow> bool" where
  "proto_check_udp len \<longleftrightarrow> len \<ge> 8"

definition proto_check_udp_payload :: "bytes \<Rightarrow> nat \<Rightarrow> nat \<Rightarrow> bool option" where
  "proto_check_udp_payload d p len = map_option (\<lambda>l. unat l \<ge> 8 \<and> len \<ge> unat l) (pntoh16 d (p + 4))"

definition proto_skip_udp :: "nat \<Rightarrow> nat \<Rightarrow> nat \<times> nat" where
  "proto_skip_udp p len = (p + 8, size_sub len 8)"

definition proto_check_icmp :: "nat \<Rightarrow> bool" where
  "proto_check_icmp len \<longleftrightarrow> len \<ge> 8"

definition proto_skip_icmp :: "nat \<Rightarrow> nat \<Rightarrow> nat \<times> nat" where
  "proto_skip_icmp p len = (p + 8, size_sub len 8)"

definition proto_check_ipv6 :: "bytes \<Rightarrow> nat \<Rightarrow> nat \<Rightarrow> bool option" where
  "proto_check_ipv6 d p len = cand (Some (len \<ge> 40)) (map_option (\<lambda>b. b AND 0xF0 = 0x60) (rd d p))"

definition proto_check_ipv6_payload :: "bytes \<Rightarrow> nat \<Rightarrow> nat \<Rightarrow> bool option" where
  "proto_check_ipv6_payload d p len = map_option (\<lambda>l. len \<ge> unat l + 40) (pntoh16 d (p + 4))"

subsection \<open>IPv6 extension headers\<close>

text \<open>
  The switch over the header type that \<open>proto_skip_ipv6\<close> and \<open>proto_find_ip6_exthdr\<close> share: an error
  return, a payload, or a header of a given length with the fragment state after it.
\<close>

datatype ext_case = ExtErr | ExtPayload | ExtHdr nat bool u16

definition ext_switch :: "bytes \<Rightarrow> nat \<Rightarrow> nat \<Rightarrow> u8 \<Rightarrow> bool \<Rightarrow> u16 \<Rightarrow> ext_case option" where
  "ext_switch d p len ty fr fr_off =
     (if ty \<in> {0, 43, 60, 135, 139, 140} then
        (if len < 2 then Some ExtErr
         else do { l \<leftarrow> rd d (p + 1); Some (ExtHdr (8 + 8 * unat l) fr fr_off) })
      else if ty = 44 then
        (if len < 8 then Some ExtErr
         else do { v \<leftarrow> pntoh16 d (p + 2); Some (ExtHdr 8 (v AND (0xFFF8 OR 1) \<noteq> 0) (v AND 0xFFF8)) })
      else if ty = 51 then
        (if len < 2 then Some ExtErr
         else do { l \<leftarrow> rd d (p + 1); Some (ExtHdr (8 + 4 * unat l) fr fr_off) })
      else Some ExtPayload)"

lemma ext_switch_pos: "ext_switch d p len ty fr fr_off = Some (ExtHdr h fr' fo') \<Longrightarrow> 8 \<le> h"
  by (auto simp: ext_switch_def split: if_splits option.splits bind_splits)

text \<open>Data pointer, length, protocol, fragment flag and fragment offset after the loop.\<close>

function skip_ipv6_loop ::
  "bytes \<Rightarrow> nat \<Rightarrow> nat \<Rightarrow> u8 \<Rightarrow> bool \<Rightarrow> u16 \<Rightarrow> u8 \<Rightarrow> (nat \<times> nat \<times> u8 \<times> bool \<times> u16) option" where
  "skip_ipv6_loop d p len ty fr fr_off proto =
     (if len \<noteq> 0 \<and> \<not> (fr \<and> fr_off \<noteq> 0) then
        (if ty = IPPROTO_NONE then Some (p, len, proto, fr, fr_off)
         else case ext_switch d p len ty fr fr_off of
           None \<Rightarrow> None
         | Some ExtErr \<Rightarrow> Some (p, len, proto, fr, fr_off)
         | Some ExtPayload \<Rightarrow> Some (p, len, ty, fr, fr_off)
         | Some (ExtHdr h fr' fo') \<Rightarrow>
             if len < h then Some (p, len, proto, fr', fo')
             else (case rd d p of None \<Rightarrow> None
               | Some ty' \<Rightarrow> skip_ipv6_loop d (p + h) (len - h) ty' fr' fo' proto))
      else Some (p, len, proto, fr, fr_off))"
  by pat_completeness auto
termination
  by (relation "measure (\<lambda>(d, p, len, ty, fr, fo, proto). len)") (auto dest: ext_switch_pos)

declare skip_ipv6_loop.simps [simp del]

definition proto_skip_ipv6 :: "bytes \<Rightarrow> nat \<Rightarrow> nat \<Rightarrow> (nat \<times> nat \<times> u8 \<times> bool \<times> u16) option" where
  "proto_skip_ipv6 d p len = do {
     ty \<leftarrow> rd d (p + 6);
     plen \<leftarrow> pntoh16 d (p + 4);
     let len = size_sub len 40;
     let len = (if unat plen < len then unat plen else len);
     skip_ipv6_loop d (p + 40) len ty False 0 ty }"

text \<open>\<open>proto_find_ip6_exthdr\<close>: a pointer to the header or NULL.\<close>

function find_exthdr_loop :: "bytes \<Rightarrow> nat \<Rightarrow> nat \<Rightarrow> u8 \<Rightarrow> u8 \<Rightarrow> bool \<Rightarrow> u16 \<Rightarrow> nat option option" where
  "find_exthdr_loop d p len proto ty fr fr_off =
     (if len \<noteq> 0 \<and> \<not> (fr \<and> fr_off \<noteq> 0) then
        (if ty = proto then Some (Some p)
         else case ext_switch d p len ty fr fr_off of
           None \<Rightarrow> None
         | Some ExtErr \<Rightarrow> Some None
         | Some ExtPayload \<Rightarrow> Some None
         | Some (ExtHdr h fr' fo') \<Rightarrow>
             if len < h then Some None
             else (case rd d p of None \<Rightarrow> None
               | Some ty' \<Rightarrow> find_exthdr_loop d (p + h) (len - h) proto ty' fr' fo'))
      else Some None)"
  by pat_completeness auto
termination
  by (relation "measure (\<lambda>(d, p, len, proto, ty, fr, fo). len)") (auto dest: ext_switch_pos)

declare find_exthdr_loop.simps [simp del]

definition proto_find_ip6_exthdr :: "bytes \<Rightarrow> nat \<Rightarrow> nat \<Rightarrow> u8 \<Rightarrow> nat option option" where
  "proto_find_ip6_exthdr d ip6 len proto =
     (if len < 40 then Some None
      else do {
        plen \<leftarrow> pntoh16 d (ip6 + 4);
        ty \<leftarrow> rd d (ip6 + 6);
        let len = len - 40;
        let len = (if unat plen < len then unat plen else len);
        find_exthdr_loop d (ip6 + 40) len proto ty False 0 })"

subsection \<open>The dissector\<close>

text \<open>\<open>struct dissect\<close>; \<open>data_pkt\<close> is the buffer, the other pointers are offsets into it.\<close>

record dissect =
  data_pkt :: bytes
  len_pkt :: nat
  d_ip :: "nat option"
  d_ip6 :: "nat option"
  len_l3 :: nat
  d_proto :: u8
  d_tcp :: "nat option"
  d_udp :: "nat option"
  d_icmp :: "nat option"
  len_l4 :: nat
  transport_len :: nat
  data_payload :: "nat option"
  len_payload :: nat
  d_frag :: bool
  d_frag_off :: u16

definition dissect_init :: "bytes \<Rightarrow> nat \<Rightarrow> dissect" where
  "dissect_init d len =
     \<lparr>data_pkt = d, len_pkt = len, d_ip = None, d_ip6 = None, len_l3 = 0, d_proto = 0, d_tcp = None,
      d_udp = None, d_icmp = None, len_l4 = 0, transport_len = 0, data_payload = None, len_payload = 0,
      d_frag = False, d_frag_off = 0\<rparr>"

text \<open>The network layer: the data pointer and length behind it, or \<open>None\<close> inside when it is neither.\<close>

definition dissect_l3 :: "bytes \<Rightarrow> nat \<Rightarrow> bool \<Rightarrow> (dissect \<times> nat \<times> nat) option option" where
  "dissect_l3 d len no_payload_check =
     (let dis = dissect_init d len in do {
        v4 \<leftarrow> cand (proto_check_ipv4 d 0 len) (cor (Some no_payload_check) (proto_check_ipv4_payload d 0 len));
        if v4 then do {
          pr \<leftarrow> rd d 9;
          iplen \<leftarrow> pntoh16 d 2;
          let len = (if unat iplen < len then unat iplen else len);
          (p, len', frag, fo) \<leftarrow> proto_skip_ipv4 d 0 len;
          Some (Some (dis\<lparr>len_pkt := len, d_ip := Some 0, d_proto := pr, d_frag := frag, d_frag_off := fo,
                          len_l3 := p\<rparr>, p, len')) }
        else do {
          v6 \<leftarrow> cand (proto_check_ipv6 d 0 len) (cor (Some no_payload_check) (proto_check_ipv6_payload d 0 len));
          if v6 then do {
            plen \<leftarrow> pntoh16 d 4;
            let iplen = plen + 40;
            let len = (if unat iplen < len then unat iplen else len);
            (p, len', pr, frag, fo) \<leftarrow> proto_skip_ipv6 d 0 len;
            Some (Some (dis\<lparr>len_pkt := len, d_ip6 := Some 0, d_proto := pr, d_frag := frag, d_frag_off := fo,
                            len_l3 := p\<rparr>, p, len')) }
          else Some None } })"

text \<open>The transport layer, from data pointer \<open>p\<close> and length \<open>len\<close> on.\<close>

definition dissect_l4 :: "bytes \<Rightarrow> bool \<Rightarrow> dissect \<Rightarrow> nat \<Rightarrow> nat \<Rightarrow> (dissect \<times> nat \<times> nat) option" where
  "dissect_l4 d no_payload_check dis p len = do {
     t \<leftarrow> cand (Some (d_proto dis = IPPROTO_TCP)) (proto_check_tcp d p len);
     if t then do {
       (p', len') \<leftarrow> proto_skip_tcp d p len;
       Some (dis\<lparr>d_tcp := Some p, len_l4 := p' - p\<rparr>, p', len') }
     else do {
       u \<leftarrow> cand (Some (d_proto dis = IPPROTO_UDP \<and> proto_check_udp len))
              (cor (Some no_payload_check) (proto_check_udp_payload d p len));
       if u then
         (let (p', len') = proto_skip_udp p len
          in Some (dis\<lparr>d_udp := Some p, len_l4 := p' - p\<rparr>, p', len'))
       else if (d_proto dis = IPPROTO_ICMP \<or> d_proto dis = IPPROTO_ICMPV6) \<and> proto_check_icmp len then
         (let (p', len') = proto_skip_icmp p len
          in Some (dis\<lparr>d_icmp := Some p, len_l4 := p' - p\<rparr>, p', len'))
       else Some (dis, p, len) } }"

definition proto_dissect_l3l4 :: "bytes \<Rightarrow> nat \<Rightarrow> bool \<Rightarrow> dissect option" where
  "proto_dissect_l3l4 d len no_payload_check = do {
     r \<leftarrow> dissect_l3 d len no_payload_check;
     (case r of
        None \<Rightarrow> Some (dissect_init d len)
      | Some (dis, p, len') \<Rightarrow> do {
          let dis = dis\<lparr>transport_len := len', len_l4 := 0\<rparr>;
          (dis, p, len') \<leftarrow>
            (if \<not> d_frag dis then dissect_l4 d no_payload_check dis p len' else Some (dis, p, len'));
          Some (dis\<lparr>data_payload := Some p, len_payload := len'\<rparr>) }) }"

subsection \<open>Reversing a packet\<close>

definition mem_swap :: "bytes \<Rightarrow> nat \<Rightarrow> nat \<Rightarrow> nat \<Rightarrow> bytes option" where
  "mem_swap d p q n = do {
     a \<leftarrow> rd_block d p n;
     b \<leftarrow> rd_block d q n;
     d \<leftarrow> wr_block d p b;
     wr_block d q a }"

text \<open>\<open>reverse_ip\<close> on a buffer that starts with the IPv4 header, and the IPv6 branch.\<close>

definition reverse_ip4 :: "nat \<Rightarrow> bytes \<Rightarrow> bytes option" where
  "reverse_ip4 addr ip = do { ip \<leftarrow> mem_swap ip 12 16 4; ip4_fix_checksum addr ip }"

definition reverse_ip6 :: "bytes \<Rightarrow> bytes option" where
  "reverse_ip6 ip6 = mem_swap ip6 8 24 16"

definition reverse_tcp :: "bytes \<Rightarrow> bytes option" where
  "reverse_tcp tcp = do { tcp \<leftarrow> mem_swap tcp 0 2 2; mem_swap tcp 4 8 4 }"

definition ttl46 :: "bytes \<Rightarrow> nat option \<Rightarrow> nat option \<Rightarrow> u8 option" where
  "ttl46 d ip ip6 =
     (case ip of Some i \<Rightarrow> rd d (i + 8)
      | None \<Rightarrow> (case ip6 of Some i \<Rightarrow> rd d (i + 7) | None \<Rightarrow> Some 0))"

subsection \<open>Safety of the dissector\<close>

lemma size_sub_le: "b \<le> a \<Longrightarrow> a < 2 ^ 64 \<Longrightarrow> size_sub a b = a - b"
  by (simp add: size_sub_def nat_minus_as_int)

lemma pntoh16_in: "p + 2 \<le> length d \<Longrightarrow> \<exists>v. pntoh16 d p = Some v"
  using be16.get_Some_iff by blast

lemma tcp_opt_loop_ok:
  "e \<le> length d \<Longrightarrow> \<exists>r. tcp_opt_loop d kind t e = Some r \<and>
     (case r of None \<Rightarrow> True
      | Some q \<Rightarrow> t \<le> q \<and> q + 2 \<le> e \<and> d ! q = kind \<and> 2 \<le> unat (d ! (q + 1)) \<and> q + unat (d ! (q + 1)) \<le> e)"
proof (induction d kind t e rule: tcp_opt_loop.induct)
  case (1 d kind t e)
  show ?case
  proof (cases "t < e")
    case False
    then show ?thesis by (subst tcp_opt_loop.simps) simp
  next
    case True
    then have k: "rd d t = Some (d ! t)" using "1.prems" by simp
    consider (stop) "d ! t = TCP_KIND_END" | (noop) "d ! t \<noteq> TCP_KIND_END" "d ! t = TCP_KIND_NOOP"
      | (short) "d ! t \<noteq> TCP_KIND_END" "d ! t \<noteq> TCP_KIND_NOOP" "t + 1 \<ge> e"
      | (opt) "d ! t \<noteq> TCP_KIND_END" "d ! t \<noteq> TCP_KIND_NOOP" "\<not> t + 1 \<ge> e" by blast
    then show ?thesis
    proof cases
      case stop
      with True k show ?thesis by (subst tcp_opt_loop.simps) simp
    next
      case noop
      with "1.IH"(1)[OF True k noop "1.prems"] obtain r where
        "tcp_opt_loop d kind (t + 1) e = Some r"
        "case r of None \<Rightarrow> True
         | Some q \<Rightarrow> t + 1 \<le> q \<and> q + 2 \<le> e \<and> d ! q = kind \<and> 2 \<le> unat (d ! (q + 1)) \<and> q + unat (d ! (q + 1)) \<le> e"
        by blast
      with True k noop show ?thesis
        by (subst tcp_opt_loop.simps) (auto split: option.splits)
    next
      case short
      with True k show ?thesis by (subst tcp_opt_loop.simps) simp
    next
      case opt
      then have l: "rd d (t + 1) = Some (d ! (t + 1))" using "1.prems" by simp
      show ?thesis
      proof (cases "(unat (d ! (t + 1)) < 2 \<or> t + unat (d ! (t + 1)) > e) \<or> d ! t = kind")
        case ex: True
        with True k opt l show ?thesis by (subst tcp_opt_loop.simps) auto
      next
        case False
        then have f: "\<not> (unat (d ! (t + 1)) < 2 \<or> t + unat (d ! (t + 1)) > e)" "d ! t \<noteq> kind" by auto
        from "1.IH"(2)[OF True k opt l f "1.prems"] obtain r where
          "tcp_opt_loop d kind (t + unat (d ! (t + 1))) e = Some r"
          "case r of None \<Rightarrow> True
           | Some q \<Rightarrow> t + unat (d ! (t + 1)) \<le> q \<and> q + 2 \<le> e \<and> d ! q = kind \<and> 2 \<le> unat (d ! (q + 1))
               \<and> q + unat (d ! (q + 1)) \<le> e" by blast
        with True k opt l f show ?thesis
          by (subst tcp_opt_loop.simps) (auto split: option.splits)
      qed
    qed
  qed
qed

lemma tcp_find_option_ok:
  assumes "tcp + 20 \<le> length d" and "tcp + 4 * unat (drop_bit 4 (d ! (tcp + 12))) \<le> length d"
  shows "\<exists>r. tcp_find_option d tcp kind = Some r \<and>
     (case r of None \<Rightarrow> True
      | Some q \<Rightarrow> tcp + 20 \<le> q \<and> d ! q = kind \<and> 2 \<le> unat (d ! (q + 1))
          \<and> q + unat (d ! (q + 1)) \<le> tcp + 4 * unat (drop_bit 4 (d ! (tcp + 12))))"
proof -
  have "th_off d tcp = Some (unat (drop_bit 4 (d ! (tcp + 12))))" using assms by (simp add: th_off_def)
  with tcp_opt_loop_ok[OF assms(2), of kind "tcp + 20"] show ?thesis
    by (auto simp: tcp_find_option_def split: option.splits)
qed

lemma ext_switch_safe:
  "p + len \<le> length d \<Longrightarrow> \<exists>c. ext_switch d p len ty fr fr_off = Some c"
  using pntoh16_in[of "p + 2" d] by (auto simp: ext_switch_def)

lemma skip_ipv6_loop_ok:
  "p + len \<le> length d \<Longrightarrow> \<exists>p' len' pr f fo. skip_ipv6_loop d p len ty fr fr_off proto = Some (p', len', pr, f, fo)
     \<and> p \<le> p' \<and> p' + len' = p + len"
proof (induction d p len ty fr fr_off proto rule: skip_ipv6_loop.induct)
  case (1 d p len ty fr fr_off proto)
  obtain c where c: "ext_switch d p len ty fr fr_off = Some c"
    using ext_switch_safe[OF "1.prems"] by blast
  show ?case
  proof (cases "(len \<noteq> 0 \<and> \<not> (fr \<and> fr_off \<noteq> 0)) \<and> ty \<noteq> IPPROTO_NONE")
    case False
    then show ?thesis by (subst skip_ipv6_loop.simps) auto
  next
    case go: True
    show ?thesis
    proof (cases c)
      case (ExtHdr h fr' fo')
      show ?thesis
      proof (cases "len < h")
        case True
        with go c ExtHdr show ?thesis by (subst skip_ipv6_loop.simps) auto
      next
        case False
        have r: "rd d p = Some (d ! p)" using "1.prems" go by simp
        have "p + h + (len - h) \<le> length d" using "1.prems" False by simp
        from "1.IH"[OF go[THEN conjunct1] go[THEN conjunct2] c ExtHdr False r this] obtain p' len' pr f fo where
          "skip_ipv6_loop d (p + h) (len - h) (d ! p) fr' fo' proto = Some (p', len', pr, f, fo)"
          "p + h \<le> p'" "p' + len' = p + h + (len - h)" by blast
        with go c ExtHdr False r show ?thesis by (subst skip_ipv6_loop.simps) auto
      qed
    qed (use go c in \<open>subst skip_ipv6_loop.simps, auto\<close>)+
  qed
qed

text \<open>What the length fields of the headers must say for the dissector to stay inside the packet.\<close>

definition ip_len_sane :: "bytes \<Rightarrow> nat \<Rightarrow> bool" where
  "ip_len_sane d len \<longleftrightarrow>
     (proto_check_ipv4 d 0 len = Some True \<longrightarrow> 4 * unat (d ! 0 AND 0x0F) \<le> be_nat (take 2 (drop 2 d)))
     \<and> (proto_check_ipv6 d 0 len = Some True \<longrightarrow> be_nat (take 2 (drop 4 d)) \<le> 65495)"

lemma pntoh16_nat: "p + 2 \<le> length d \<Longrightarrow> \<exists>v. pntoh16 d p = Some v \<and> unat v = be_nat (take 2 (drop p d))"
  by (rule be16.get_nat)

lemma proto_check_ipv4_iff:
  assumes "len \<le> length d"
  shows "\<exists>b. proto_check_ipv4 d 0 len = Some b \<and>
     (b \<longrightarrow> 20 \<le> len \<and> 20 \<le> 4 * unat (d ! 0 AND 0x0F) \<and> 4 * unat (d ! 0 AND 0x0F) \<le> len)"
proof (cases "len < 20")
  case False
  then have "rd d 0 = Some (d ! 0)" using assms by (intro rd_in) linarith
  with False show ?thesis by (auto simp: proto_check_ipv4_def ip_hl_def)
qed (auto simp: proto_check_ipv4_def)

lemma proto_check_ipv6_iff:
  assumes "len \<le> length d"
  shows "\<exists>b. proto_check_ipv6 d 0 len = Some b \<and> (b \<longrightarrow> 40 \<le> len)"
proof (cases "len < 40")
  case False
  then have "rd d 0 = Some (d ! 0)" using assms by (intro rd_in) linarith
  with False show ?thesis by (auto simp: proto_check_ipv6_def)
qed (auto simp: proto_check_ipv6_def)
lemma payload_checks:
  "p + 6 \<le> length d \<Longrightarrow> (\<exists>b. proto_check_ipv4_payload d p len = Some b)
     \<and> (\<exists>b. proto_check_ipv6_payload d p len = Some b) \<and> (\<exists>b. proto_check_udp_payload d p len = Some b)"
  using pntoh16_in[of "p + 2" d] pntoh16_in[of "p + 4" d]
  by (auto simp: proto_check_ipv4_payload_def proto_check_ipv6_payload_def proto_check_udp_payload_def)

lemma dissect_l3_ok:
  assumes len: "len \<le> length d" "length d < 2 ^ 64" and sane: "ip_len_sane d len"
  shows "\<exists>r. dissect_l3 d len npc = Some r \<and>
    (case r of None \<Rightarrow> True
     | Some (dis, p, len') \<Rightarrow> p + len' \<le> len_pkt dis \<and> len_pkt dis \<le> len \<and> len_l3 dis = p
         \<and> data_pkt dis = d \<and> d_tcp dis = None \<and> d_udp dis = None \<and> d_icmp dis = None
         \<and> (d_ip dis = Some 0 \<and> d_ip6 dis = None \<and> 20 \<le> p \<or> d_ip dis = None \<and> d_ip6 dis = Some 0 \<and> 40 \<le> p))"
proof -
  obtain b4 where b4: "proto_check_ipv4 d 0 len = Some b4"
    and v4: "b4 \<Longrightarrow> 20 \<le> len \<and> 20 \<le> 4 * unat (d ! 0 AND 0x0F) \<and> 4 * unat (d ! 0 AND 0x0F) \<le> len"
    using proto_check_ipv4_iff[OF len(1)] by blast
  obtain b6 where b6: "proto_check_ipv6 d 0 len = Some b6" and v6: "b6 \<Longrightarrow> 40 \<le> len"
    using proto_check_ipv6_iff[OF len(1)] by blast
  define c4 where "c4 = cand (Some b4) (cor (Some npc) (proto_check_ipv4_payload d 0 len))"
  define c6 where "c6 = cand (Some b6) (cor (Some npc) (proto_check_ipv6_payload d 0 len))"
  have "\<exists>b. proto_check_ipv4_payload d 0 len = Some b" if b4
    using payload_checks[of 0 d len] v4[OF that] len by simp
  then obtain x4 where x4: "c4 = Some x4" "x4 \<Longrightarrow> b4"
    by (cases b4; cases npc) (auto simp: c4_def)
  have "\<exists>b. proto_check_ipv6_payload d 0 len = Some b" if b6
    using payload_checks[of 0 d len] v6[OF that] len by simp
  then obtain x6 where x6: "c6 = Some x6" "x6 \<Longrightarrow> b6"
    by (cases b6; cases npc) (auto simp: c6_def)
  note eqs = b4 b6 c4_def[symmetric] c6_def[symmetric] x4(1) x6(1)
  show ?thesis
  proof (cases x4)
    case True
    note B = v4[OF x4(2)[OF True]]
    define hl where "hl = unat (d ! 0 AND 0x0F)"
    from pntoh16_nat[of 2 d] B len obtain l where l: "pntoh16 d 2 = Some l"
      and ln: "unat l = be_nat (take 2 (drop 2 d))" by auto
    have hl: "ip_hl d 0 = Some hl" unfolding ip_hl_def hl_def
      by (subst rd_in) (use B len in linarith, simp)
    have hll: "4 * hl \<le> unat l"
      using sane b4 x4(2)[OF True] unfolding ip_len_sane_def ln hl_def by simp
    have r9: "rd d 9 = Some (d ! 9)" by (rule rd_in) (use B len in linarith)
    from pntoh16_in[of 6 d] B len obtain io where io: "pntoh16 d 6 = Some io" by auto
    define n where "n = (if unat l < len then unat l else len)"
    have n: "4 * hl \<le> n" "n \<le> len" using hll B by (simp_all add: n_def hl_def)
    have ss: "size_sub n (4 * hl) = n - 4 * hl" by (rule size_sub_le) (use n len in simp_all)
    show ?thesis
      unfolding dissect_l3_def Let_def eqs
      using True r9 l hl io n ss B
      by (simp add: n_def[symmetric] proto_skip_ipv4_def dissect_init_def hl_def)
  next
    case x4': False
    show ?thesis
    proof (cases x6)
      case False
      with x4' show ?thesis unfolding dissect_l3_def Let_def eqs by simp
    next
      case True
      note B = v6[OF x6(2)[OF True]]
      from pntoh16_nat[of 4 d] B len obtain l where l: "pntoh16 d 4 = Some l"
        and ln: "unat l = be_nat (take 2 (drop 4 d))" by auto
      have "unat l \<le> 65495"
        using sane b6 x6(2)[OF True] unfolding ip_len_sane_def ln by simp
      then have l40: "unat (l + 40) = unat l + 40" by (simp add: unat_word_ariths)
      define n where "n = (if unat (l + 40) < len then unat (l + 40) else len)"
      have n: "40 \<le> n" "n \<le> len" using B by (simp_all add: n_def l40)
      have ss: "size_sub n 40 = n - 40" by (rule size_sub_le) (use n len in simp_all)
      have r6: "rd d 6 = Some (d ! 6)" by (rule rd_in) (use B len in linarith)
      define m where "m = (if unat l < n - 40 then unat l else n - 40)"
      have m: "m \<le> n - 40" by (simp add: m_def)
      have "40 + m \<le> length d" using m n len by linarith
      from skip_ipv6_loop_ok[OF this, of "d ! 6" False 0 "d ! 6"] obtain p' len' pr f fo where
        s: "skip_ipv6_loop d 40 m (d ! 6) False 0 (d ! 6) = Some (p', len', pr, f, fo)"
        and p': "40 \<le> p'" "p' + len' = 40 + m" by blast
      have "p' + len' \<le> n" using p' m n by linarith
      moreover have "proto_skip_ipv6 d 0 n = Some (p', len', pr, f, fo)"
        using s by (simp add: proto_skip_ipv6_def r6 l ss m_def[symmetric] Let_def)
      ultimately show ?thesis
        unfolding dissect_l3_def Let_def eqs
        using x4' True l n p' by (simp add: n_def[symmetric] dissect_init_def)
    qed
  qed
qed

text \<open>What a dissected packet promises: every header lies inside the packet and the pieces add up.\<close>

definition dissect_ok :: "nat \<Rightarrow> dissect \<Rightarrow> bool" where
  "dissect_ok len dis \<longleftrightarrow> len_pkt dis \<le> len \<and> len \<le> length (data_pkt dis)
     \<and> (case data_payload dis of
          None \<Rightarrow> d_ip dis = None \<and> d_ip6 dis = None \<and> d_tcp dis = None \<and> d_udp dis = None \<and> d_icmp dis = None
        | Some p \<Rightarrow> p = len_l3 dis + len_l4 dis \<and> transport_len dis = len_l4 dis + len_payload dis
            \<and> len_l3 dis + transport_len dis \<le> len_pkt dis
            \<and> (d_ip dis = Some 0 \<and> d_ip6 dis = None \<and> 20 \<le> len_l3 dis
               \<or> d_ip dis = None \<and> d_ip6 dis = Some 0 \<and> 40 \<le> len_l3 dis))
     \<and> (\<forall>t. d_tcp dis = Some t \<longrightarrow> t = len_l3 dis \<and> d_proto dis = IPPROTO_TCP \<and> 20 \<le> len_l4 dis
          \<and> len_l4 dis = 4 * unat (drop_bit 4 (data_pkt dis ! (t + 12))) \<and> t + len_l4 dis \<le> len)
     \<and> (\<forall>u. d_udp dis = Some u \<longrightarrow> u = len_l3 dis \<and> d_proto dis = IPPROTO_UDP \<and> len_l4 dis = 8 \<and> u + 8 \<le> len)
     \<and> (\<forall>i. d_icmp dis = Some i \<longrightarrow> i = len_l3 dis \<and> len_l4 dis = 8 \<and> i + 8 \<le> len)
     \<and> (d_frag dis \<longrightarrow> d_tcp dis = None \<and> d_udp dis = None \<and> d_icmp dis = None)"
lemma dissect_l4_ok:
  assumes b: "p + len' \<le> length d" and l64: "length d < 2 ^ 64"
  shows "\<exists>dis' p' n. dissect_l4 d npc dis p len' = Some (dis', p', n) \<and>
     (\<exists>h. p' = p + h \<and> n + h = len' \<and>
       (dis' = dis \<and> h = 0
        \<or> dis' = dis\<lparr>d_tcp := Some p, len_l4 := h\<rparr> \<and> 20 \<le> h \<and> h = 4 * unat (drop_bit 4 (d ! (p + 12)))
            \<and> d_proto dis = IPPROTO_TCP
        \<or> dis' = dis\<lparr>d_udp := Some p, len_l4 := h\<rparr> \<and> h = 8 \<and> d_proto dis = IPPROTO_UDP
        \<or> dis' = dis\<lparr>d_icmp := Some p, len_l4 := h\<rparr> \<and> h = 8))"
proof -
  define off where "off = unat (drop_bit 4 (d ! (p + 12)))"
  have off: "th_off d p = Some off" if "20 \<le> len'"
    unfolding th_off_def off_def by (subst rd_in) (use that b in simp_all)
  have tcp: "proto_check_tcp d p len' = Some (20 \<le> len' \<and> 4 * off \<ge> 20 \<and> len' \<ge> 4 * off)"
    using off by (cases "20 \<le> len'") (auto simp: proto_check_tcp_def)
  have ss: "size_sub len' k = len' - k" if "k \<le> len'" for k
    using size_sub_le[OF that] b l64 by linarith
  show ?thesis
  proof (cases "d_proto dis = IPPROTO_TCP \<and> 20 \<le> len' \<and> 4 * off \<ge> 20 \<and> len' \<ge> 4 * off")
    case True
    then show ?thesis
      using off ss tcp unfolding dissect_l4_def proto_skip_tcp_def by (simp add: off_def[symmetric])
  next
    case not_tcp: False
    have c1: "cand (Some (d_proto dis = IPPROTO_TCP)) (proto_check_tcp d p len') = Some False"
      using not_tcp unfolding tcp by auto
    have "\<exists>u. cand (Some (d_proto dis = IPPROTO_UDP \<and> proto_check_udp len'))
        (cor (Some npc) (proto_check_udp_payload d p len')) = Some u
        \<and> (u \<longrightarrow> d_proto dis = IPPROTO_UDP \<and> 8 \<le> len')"
    proof (cases "d_proto dis = IPPROTO_UDP \<and> 8 \<le> len'")
      case True
      then have "p + 6 \<le> length d" using b by linarith
      from payload_checks[OF this, of len'] True show ?thesis
        by (cases npc) (auto simp: proto_check_udp_def)
    qed (auto simp: proto_check_udp_def)
    then obtain u where c2: "cand (Some (d_proto dis = IPPROTO_UDP \<and> proto_check_udp len'))
        (cor (Some npc) (proto_check_udp_payload d p len')) = Some u"
      and u: "u \<Longrightarrow> d_proto dis = IPPROTO_UDP \<and> 8 \<le> len'" by blast
    show ?thesis
      unfolding dissect_l4_def c1 c2
      using u ss[of 8] by (auto simp: proto_skip_udp_def proto_skip_icmp_def proto_check_icmp_def)
  qed
qed

lemma dissect_safe:
  assumes len: "len \<le> length d" "length d < 2 ^ 64" and sane: "ip_len_sane d len"
  shows "\<exists>dis. proto_dissect_l3l4 d len npc = Some dis \<and> data_pkt dis = d \<and> dissect_ok len dis"
proof -
  from dissect_l3_ok[OF assms, of npc] obtain r where r: "dissect_l3 d len npc = Some r"
    and ok: "case r of None \<Rightarrow> True
     | Some (dis, p, len') \<Rightarrow> p + len' \<le> len_pkt dis \<and> len_pkt dis \<le> len \<and> len_l3 dis = p
         \<and> data_pkt dis = d \<and> d_tcp dis = None \<and> d_udp dis = None \<and> d_icmp dis = None
         \<and> (d_ip dis = Some 0 \<and> d_ip6 dis = None \<and> 20 \<le> p \<or> d_ip dis = None \<and> d_ip6 dis = Some 0 \<and> 40 \<le> p)"
    by blast
  show ?thesis
  proof (cases r)
    case None
    with r len show ?thesis
      by (simp add: proto_dissect_l3l4_def dissect_init_def dissect_ok_def)
  next
    case (Some t)
    obtain dis p len' where t: "t = (dis, p, len')" by (cases t) auto
    define dis1 where "dis1 = dis\<lparr>transport_len := len', len_l4 := 0\<rparr>"
    have ok': "p + len' \<le> len_pkt dis" "len_pkt dis \<le> len" "len_l3 dis = p" "data_pkt dis = d"
      "d_tcp dis = None" "d_udp dis = None" "d_icmp dis = None"
      "d_ip dis = Some 0 \<and> d_ip6 dis = None \<and> 20 \<le> p \<or> d_ip dis = None \<and> d_ip6 dis = Some 0 \<and> 40 \<le> p"
      using ok by (simp_all add: Some t)
    have top: "proto_dissect_l3l4 d len npc = do {
        (dis, p, len') \<leftarrow> (if \<not> d_frag dis1 then dissect_l4 d npc dis1 p len' else Some (dis1, p, len'));
        Some (dis\<lparr>data_payload := Some p, len_payload := len'\<rparr>) }"
      using r by (simp add: proto_dissect_l3l4_def Some t dis1_def Let_def)
    show ?thesis
    proof (cases "d_frag dis1")
      case True
      with ok' len show ?thesis
        unfolding top by (simp add: dis1_def dissect_ok_def)
    next
      case False
      have "p + len' \<le> length d" using ok' len by linarith
      from dissect_l4_ok[OF this len(2), of npc dis1] obtain dis' h n where
        e: "dissect_l4 d npc dis1 p len' = Some (dis', p + h, n)" "n + h = len'"
        and c: "dis' = dis1 \<and> h = 0
          \<or> dis' = dis1\<lparr>d_tcp := Some p, len_l4 := h\<rparr> \<and> 20 \<le> h \<and> h = 4 * unat (drop_bit 4 (d ! (p + 12)))
              \<and> d_proto dis1 = IPPROTO_TCP
          \<or> dis' = dis1\<lparr>d_udp := Some p, len_l4 := h\<rparr> \<and> h = 8 \<and> d_proto dis1 = IPPROTO_UDP
          \<or> dis' = dis1\<lparr>d_icmp := Some p, len_l4 := h\<rparr> \<and> h = 8" by auto
      have res: "proto_dissect_l3l4 d len npc = Some (dis'\<lparr>data_payload := Some (p + h), len_payload := n\<rparr>)"
        unfolding top using False e(1) by simp
      from c show ?thesis
        unfolding res using ok' len False e(2)
        by (elim disjE) (auto simp: dis1_def dissect_ok_def)
    qed
  qed
qed
lemma dissect_tcp4_lemma:
  assumes v: "drop_bit 4 (d ! 0) = 4" and hl: "hl = unat (d ! 0 AND 0x0F)" "5 \<le> hl"
    and l: "pntoh16 d 2 = Some l" "unat l = length d"
    and frag: "pntoh16 d 6 = Some fo" "fo AND (0x1FFF OR 0x2000) = 0" and pr: "d ! 9 = IPPROTO_TCP"
    and off: "off = unat (drop_bit 4 (d ! (4 * hl + 12)))" "5 \<le> off" "4 * hl + 4 * off \<le> length d"
  shows "\<exists>dis. proto_dissect_l3l4 d (length d) npc = Some dis \<and> d_ip dis = Some 0 \<and> \<not> d_frag dis
    \<and> d_proto dis = IPPROTO_TCP \<and> d_tcp dis = Some (4 * hl) \<and> d_udp dis = None \<and> len_l3 dis = 4 * hl
    \<and> len_l4 dis = 4 * off \<and> data_payload dis = Some (4 * hl + 4 * off)
    \<and> len_payload dis = length d - (4 * hl + 4 * off)"
proof -
  have small: "length d < 2 ^ 64" using l(2) unat_u16_less[of l] by simp
  have r: "rd d 0 = Some (d ! 0)" "rd d 9 = Some (d ! 9)" "rd d (4 * hl + 12) = Some (d ! (4 * hl + 12))"
    by (rule rd_in; use hl off in linarith)+
  have iphl: "ip_hl d 0 = Some hl" using r hl by (simp add: ip_hl_def)
  have thoff: "th_off d (4 * hl) = Some off" using r off by (simp add: th_off_def)
  have c4: "proto_check_ipv4 d 0 (length d) = Some True"
    using r v iphl hl off by (simp add: proto_check_ipv4_def)
  have pay: "cor (Some npc) (proto_check_ipv4_payload d 0 (length d)) = Some True"
    using l by (simp add: proto_check_ipv4_payload_def del: add_2_eq_Suc')
  have skip: "proto_skip_ipv4 d 0 (length d) = Some (4 * hl, length d - 4 * hl, False, push_bit 3 (fo AND 0x1FFF))"
    using iphl frag size_sub_le[of "4 * hl" "length d"] small off by (simp add: proto_skip_ipv4_def)
  have tcp: "proto_check_tcp d (4 * hl) (length d - 4 * hl) = Some True"
  proof -
    have "\<not> length d - 4 * hl < 20" "length d - 4 * hl \<ge> 4 * off" "4 * off \<ge> 20"
      using off(2,3) by linarith+
    then show ?thesis using thoff by (simp add: proto_check_tcp_def)
  qed
  have skipt: "proto_skip_tcp d (4 * hl) (length d - 4 * hl) = Some (4 * hl + 4 * off, length d - 4 * hl - 4 * off)"
    using thoff off small size_sub_le[of "4 * off" "length d - 4 * hl"] by (simp add: proto_skip_tcp_def)
  show ?thesis
    unfolding proto_dissect_l3l4_def dissect_l3_def Let_def c4 cand_Some if_True pay
    using r l skip tcp skipt pr by (simp add: dissect_l4_def dissect_init_def)
qed

subsection \<open>Reversing is an involution\<close>

lemma mem_swap_in:
  assumes "p + n \<le> q" "q + n \<le> length d"
  shows "\<exists>e. mem_swap d p q n = Some e \<and> length e = length d \<and>
    (\<forall>i < length d. e ! i = (if p \<le> i \<and> i < p + n then d ! (i - p + q)
        else if q \<le> i \<and> i < q + n then d ! (i - q + p) else d ! i))"
proof -
  let ?a = "take n (drop p d)" and ?b = "take n (drop q d)"
  obtain e1 where e1: "wr_block d p ?b = Some e1" using assms by (simp add: wr_block_def)
  then have l1: "length e1 = length d" by (rule wr_block_length)
  then obtain e where e: "wr_block e1 q ?a = Some e" using assms by (simp add: wr_block_def)
  have "e ! i = (if p \<le> i \<and> i < p + n then d ! (i - p + q)
        else if q \<le> i \<and> i < q + n then d ! (i - q + p) else d ! i)" if i: "i < length d" for i
    using wr_block_nth[OF e, of i] wr_block_nth[OF e1, of i] l1 i assms
    by (auto simp: add.commute)
  moreover have "mem_swap d p q n = Some e"
    using assms e1 e by (simp add: mem_swap_def)
  ultimately show ?thesis using l1 wr_block_length[OF e] by auto
qed

lemma mem_swap_twice:
  assumes "p + n \<le> q" "q + n \<le> length d"
  shows "\<exists>e. mem_swap d p q n = Some e \<and> length e = length d \<and> mem_swap e p q n = Some d"
proof -
  from mem_swap_in[OF assms] obtain e where e: "mem_swap d p q n = Some e" "length e = length d"
    and n: "\<forall>i < length d. e ! i = (if p \<le> i \<and> i < p + n then d ! (i - p + q)
        else if q \<le> i \<and> i < q + n then d ! (i - q + p) else d ! i)" by blast
  from mem_swap_in[of p n q e] assms e(2) obtain f where f: "mem_swap e p q n = Some f" "length f = length e"
    and n2: "\<forall>i < length e. f ! i = (if p \<le> i \<and> i < p + n then e ! (i - p + q)
        else if q \<le> i \<and> i < q + n then e ! (i - q + p) else e ! i)" by auto
  have "f = d"
  proof (rule nth_equalityI)
    fix i assume i: "i < length f"
    with f e have id: "i < length d" by simp
    consider "p \<le> i \<and> i < p + n" | "q \<le> i \<and> i < q + n" | "\<not> (p \<le> i \<and> i < p + n)" "\<not> (q \<le> i \<and> i < q + n)"
      by blast
    then show "f ! i = d ! i"
    proof cases
      case 1
      then have "i - p + q < length d" "q \<le> i - p + q" "i - p + q < q + n" "\<not> i - p + q < p + n"
        using assms by linarith+
      with 1 n n2 id e show ?thesis by simp
    next
      case 2
      then have "i - q + p < length d" "p \<le> i - q + p" "i - q + p < p + n" "\<not> i < p + n"
        using assms by linarith+
      with 2 n n2 id e show ?thesis by simp
    next
      case 3
      then show ?thesis using n n2 id e by auto
    qed
  qed (use f e in simp)
  with e f show ?thesis by blast
qed

lemma mem_swap_comm:
  assumes "p + n \<le> q" "q + n \<le> p'" "p' + n' \<le> q'" "q' + n' \<le> length d"
    and "mem_swap d p q n = Some e" and "mem_swap e p' q' n' = Some f"
  shows "\<exists>g. mem_swap d p' q' n' = Some g \<and> mem_swap g p q n = Some f"
proof -
  have a: "q + n \<le> length d" using assms by linarith
  from mem_swap_in[OF assms(1) a] assms(5) have e: "length e = length d"
    "\<forall>i < length d. e ! i = (if p \<le> i \<and> i < p + n then d ! (i - p + q)
        else if q \<le> i \<and> i < q + n then d ! (i - q + p) else d ! i)" by auto
  from mem_swap_in[OF assms(3), of e] assms(4,6) e have f: "length f = length d"
    "\<forall>i < length d. f ! i = (if p' \<le> i \<and> i < p' + n' then e ! (i - p' + q')
        else if q' \<le> i \<and> i < q' + n' then e ! (i - q' + p') else e ! i)" by auto
  from mem_swap_in[OF assms(3,4)] obtain g where g: "mem_swap d p' q' n' = Some g" "length g = length d"
    "\<forall>i < length d. g ! i = (if p' \<le> i \<and> i < p' + n' then d ! (i - p' + q')
        else if q' \<le> i \<and> i < q' + n' then d ! (i - q' + p') else d ! i)" by blast
  from mem_swap_in[OF assms(1), of g] a g(2) obtain h where h: "mem_swap g p q n = Some h" "length h = length d"
    "\<forall>i < length d. h ! i = (if p \<le> i \<and> i < p + n then g ! (i - p + q)
        else if q \<le> i \<and> i < q + n then g ! (i - q + p) else g ! i)" by auto
  have "h = f"
  proof (rule nth_equalityI)
    fix i assume "i < length h"
    with h have i: "i < length d" by simp
    consider "p \<le> i \<and> i < p + n" | "q \<le> i \<and> i < q + n" | "p' \<le> i \<and> i < p' + n'" | "q' \<le> i \<and> i < q' + n'"
      | "\<not> (p \<le> i \<and> i < p + n)" "\<not> (q \<le> i \<and> i < q + n)" "\<not> (p' \<le> i \<and> i < p' + n')"
        "\<not> (q' \<le> i \<and> i < q' + n')" by blast
    then show "h ! i = f ! i"
      by cases (use e(2) f(2) g(3) h(3) i assms(1-4) in auto)
  qed (use h f in simp)
  with g h show ?thesis by blast
qed

lemma reverse_tcp_twice:
  assumes "12 \<le> length d"
  shows "\<exists>e. reverse_tcp d = Some e \<and> reverse_tcp e = Some d"
proof -
  from mem_swap_twice[of 0 2 2 d] assms obtain e1 where
    e1: "mem_swap d 0 2 2 = Some e1" "length e1 = length d" "mem_swap e1 0 2 2 = Some d" by auto
  from mem_swap_twice[of 4 4 8 e1] assms e1(2) obtain e where
    e: "mem_swap e1 4 8 4 = Some e" "length e = length d" "mem_swap e 4 8 4 = Some e1" by auto
  obtain e2 where e2: "mem_swap e 0 2 2 = Some e2"
    using mem_swap_in[of 0 2 2 e] assms e(2) by auto
  obtain e3 where e3: "mem_swap e2 4 8 4 = Some e3"
    using mem_swap_in[of 4 4 8 e2] mem_swap_in[of 0 2 2 e] assms e(2) e2 by auto
  from mem_swap_comm[of 0 2 2 4 4 8 e e2 e3] e2 e3 assms e(2) obtain g where
    "mem_swap e 4 8 4 = Some g" "mem_swap g 0 2 2 = Some e3" by auto
  with e(3) e1(3) have "e3 = d" by simp
  with e1 e e2 e3 show ?thesis by (simp add: reverse_tcp_def)
qed

subsection \<open>The promises of the dissector\<close>

text \<open>C28: The dissector reads nothing outside the packet and finds only headers inside it: for every packet
  whose length fields are sane, it returns a dissection in which each header lies at the end of the
  previous one, the lengths add up and stay inside the packet, and fragments have no transport header.\<close>

theorem proto_dissect_safe:
  assumes "len \<le> length d" and "length d < 2 ^ 64" and "ip_len_sane d len"
  shows "\<exists>dis. proto_dissect_l3l4 d len npc = Some dis \<and> data_pkt dis = d \<and> dissect_ok len dis"
  using dissect_safe[OF assms] .

definition sample_pkt :: bytes where
  "sample_pkt = [0x45,0,0,44, 0,0,0x40,0, 64,6,0,0, 10,0,0,1, 10,0,0,2,
    0x04,0xd2,0,80, 0,0,0,1, 0,0,0,0, 0x60,0x02,2,0, 0,0,0,0, 2,4,5,0xb4]"

lemma proto_dissect_safe_witness:
  "\<exists>dis. proto_dissect_l3l4 sample_pkt 44 False = Some dis \<and> data_pkt dis = sample_pkt \<and> dissect_ok 44 dis"
  by (rule proto_dissect_safe)
     (simp_all add: sample_pkt_def ip_len_sane_def proto_check_ipv6_def)

text \<open>An unfragmented IPv4 packet that carries a TCP segment is dissected into exactly its headers and
  its payload.\<close>

theorem proto_dissect_tcp4:
  assumes "drop_bit 4 (d ! 0) = 4" and "hl = unat (d ! 0 AND 0x0F)" "5 \<le> hl"
    and "pntoh16 d 2 = Some l" "unat l = length d"
    and "pntoh16 d 6 = Some fo" "fo AND (0x1FFF OR 0x2000) = 0" and "d ! 9 = IPPROTO_TCP"
    and "off = unat (drop_bit 4 (d ! (4 * hl + 12)))" "5 \<le> off" "4 * hl + 4 * off \<le> length d"
  shows "\<exists>dis. proto_dissect_l3l4 d (length d) npc = Some dis \<and> d_ip dis = Some 0 \<and> \<not> d_frag dis
    \<and> d_proto dis = IPPROTO_TCP \<and> d_tcp dis = Some (4 * hl) \<and> d_udp dis = None \<and> len_l3 dis = 4 * hl
    \<and> len_l4 dis = 4 * off \<and> data_payload dis = Some (4 * hl + 4 * off)
    \<and> len_payload dis = length d - (4 * hl + 4 * off)"
  using dissect_tcp4_lemma[OF assms] .

lemma proto_dissect_tcp4_witness:
  "\<exists>dis. proto_dissect_l3l4 sample_pkt 44 False = Some dis \<and> d_tcp dis = Some 20 \<and> len_payload dis = 0"
proof -
  have a: "drop_bit 4 (sample_pkt ! 0) = 4" "5 = unat (sample_pkt ! 0 AND 0x0F)"
    "pntoh16 sample_pkt 2 = Some 44" "unat (44 :: u16) = length sample_pkt"
    "pntoh16 sample_pkt 6 = Some 0x4000" "(0x4000 :: u16) AND (0x1FFF OR 0x2000) = 0"
    "sample_pkt ! 9 = IPPROTO_TCP" "6 = unat (drop_bit 4 (sample_pkt ! (4 * 5 + 12)))"
    "4 * 5 + 4 * 6 \<le> length sample_pkt"
    by (simp_all add: sample_pkt_def pntoh16_def IPPROTO_TCP_def)
  have n: "length sample_pkt = 44" by (simp add: sample_pkt_def)
  from proto_dissect_tcp4[OF a(1,2) _ a(3,4,5,6,7,8) _ a(9), of False, unfolded n] show ?thesis
    by auto
qed

text \<open>Without sane length fields the dissector leaves the packet. A 20 byte IPv4 header with a total
  length of zero passes both checks; the remaining length wraps around to almost 2 to the 64 and the
  TCP header is read behind the end of the buffer.\<close>

theorem proto_dissect_wraps:
  "proto_dissect_l3l4 [0x45,0,0,0, 0,0,0,0, 64,6,0,0, 10,0,0,1, 10,0,0,2] 20 False = None"
  by (simp add: proto_dissect_l3l4_def dissect_l3_def Let_def proto_check_ipv4_def ip_hl_def
      proto_check_ipv4_payload_def pntoh16_def proto_skip_ipv4_def size_sub_def dissect_l4_def dissect_init_def
      IPPROTO_TCP_def proto_check_tcp_def th_off_def)

text \<open>The protocol that proto_skip_ipv6 reports for a truncated extension header is the number of the
  first extension header, not the documented error value 0.\<close>

theorem proto_skip_ipv6_error_value:
  "proto_skip_ipv6 [0x60,0,0,0, 0,4,60,64, 1,0,0,0,0,0,0,0, 0,0,0,0,0,0,0,1, 2,0,0,0,0,0,0,0, 0,0,0,0,0,0,0,1,
      6,9,0,0] 0 44 = Some (40, 4, 60, False, 0)"
  by (simp add: proto_skip_ipv6_def pntoh16_def size_sub_def skip_ipv6_loop.simps ext_switch_def
      IPPROTO_NONE_def Let_def)

text \<open>A TCP option is found only inside the header: tcp_find_option reads nothing outside the TCP header
  and a pointer it returns is to a complete option of the kind asked for.\<close>

theorem tcp_find_option_inside:
  assumes "tcp + 20 \<le> length d" and "tcp + 4 * unat (drop_bit 4 (d ! (tcp + 12))) \<le> length d"
  shows "\<exists>r. tcp_find_option d tcp kind = Some r \<and>
     (case r of None \<Rightarrow> True
      | Some q \<Rightarrow> tcp + 20 \<le> q \<and> d ! q = kind \<and> 2 \<le> unat (d ! (q + 1))
          \<and> q + unat (d ! (q + 1)) \<le> tcp + 4 * unat (drop_bit 4 (d ! (tcp + 12))))"
  using tcp_find_option_ok[OF assms] .

lemma tcp_find_option_inside_witness:
  "\<exists>r. tcp_find_option sample_pkt 20 TCP_KIND_MSS = Some r"
  using tcp_find_option_inside[of 20 sample_pkt TCP_KIND_MSS] by (auto simp: sample_pkt_def)

text \<open>Reversing the direction of a TCP header twice restores it.\<close>

theorem reverse_tcp_involution:
  assumes "12 \<le> length d"
  shows "\<exists>e. reverse_tcp d = Some e \<and> reverse_tcp e = Some d"
  using reverse_tcp_twice[OF assms] .

lemma reverse_tcp_involution_witness:
  "\<exists>e. reverse_tcp sample_pkt = Some e \<and> reverse_tcp e = Some sample_pkt"
  by (rule reverse_tcp_involution) (simp add: sample_pkt_def)

end
