(* ===== verification/PacketQueue.thy ===== *)
theory PacketQueue
  imports Dissect
begin

text \<open>
  src/nfq2/conntrack_base.h and src/nfq2/packet_queue.c: the per direction counters of a connection and the
  queue of delayed packets, with one of its consumers, \<open>rawsend_queue\<close> of src/nfq2/darkmagic.c; the other,
  \<open>replay_queue\<close> of src/nfq2/desync.c, changes the world the packets are played in (theory Packet). The TAILQ is the list of its packets, first one first.
\<close>

datatype connstate = SYN | ESTABLISHED | FIN

record ctrack_position =
  pcounter :: u64
  pdcounter :: u64
  pbcounter :: u64
  ip6flow :: u32
  t_pos :: u32
  uppos :: u32
  uppos_prev :: u32
  seq_last :: u32
  seq0 :: u32
  winsize :: u16
  t_mss :: u16
  winsize_calc :: u32
  t_scale :: u8
  rseq_over_2G :: bool

record ctrack_positions =
  t_last :: int
  t_state :: connstate
  client :: ctrack_position
  server :: ctrack_position
  ipproto :: u8

record rawpacket =
  rp_dst :: sockaddr
  rp_ifin :: bytes
  rp_ifout :: bytes
  rp_fwmark_orig :: u32
  rp_fwmark :: u32
  rp_len :: nat
  rp_len_payload :: nat
  rp_packet :: bytes
  rp_tpos :: "ctrack_positions option"
  rp_server_side :: bool

type_synonym packet_queue = "rawpacket list"

definition rawpacket_queue_init :: packet_queue where
  "rawpacket_queue_init = []"

definition rawpacket_dequeue :: "packet_queue \<Rightarrow> rawpacket option \<times> packet_queue" where
  "rawpacket_dequeue q = (case q of [] \<Rightarrow> (None, []) | rp # q \<Rightarrow> (Some rp, q))"

definition rawpacket_queue_destroy :: "packet_queue \<Rightarrow> packet_queue" where
  "rawpacket_queue_destroy q = []"

text \<open>\<open>snprintf\<close> into \<open>char[IFNAMSIZ]\<close> keeps 15 characters. \<open>alloc\<close> tells whether both \<open>malloc\<close> succeed.\<close>

definition rawpacket_queue ::
  "bool \<Rightarrow> packet_queue \<Rightarrow> sockaddr \<Rightarrow> u32 \<Rightarrow> u32 \<Rightarrow> bytes option \<Rightarrow> bytes option \<Rightarrow> bytes \<Rightarrow> nat \<Rightarrow> nat \<Rightarrow>
   ctrack_positions option \<Rightarrow> bool \<Rightarrow> (bool \<times> packet_queue) option" where
  "rawpacket_queue alloc q dst fwmark_orig fwmark ifin ifout data len len_pl tpos server_side =
     (if \<not> alloc then Some (False, q)
      else do {
        packet \<leftarrow> rd_block data 0 len;
        let name = (\<lambda>i. case i of None \<Rightarrow> [] | Some s \<Rightarrow> take 15 s);
        Some (True, q @ [\<lparr>rp_dst = dst, rp_ifin = name ifin, rp_ifout = name ifout,
          rp_fwmark_orig = fwmark_orig, rp_fwmark = fwmark, rp_len = len, rp_len_payload = len_pl,
          rp_packet = packet, rp_tpos = tpos, rp_server_side = server_side\<rparr>]) })"

definition rawpacket_queue_count :: "packet_queue \<Rightarrow> u32" where
  "rawpacket_queue_count q = foldl (\<lambda>ct rp. ct + 1) 0 q"

definition rawpacket_queue_empty :: "packet_queue \<Rightarrow> bool" where
  "rawpacket_queue_empty q \<longleftrightarrow> q = []"

subsection \<open>The contract of a queue\<close>

locale fifo =
  fixes empty :: 'q
    and enq :: "'q \<Rightarrow> 'a \<Rightarrow> 'q"
    and deq :: "'q \<Rightarrow> 'a option \<times> 'q"
    and items :: "'q \<Rightarrow> 'a list"
  assumes items_empty: "items empty = []"
    and items_enq: "items (enq q x) = items q @ [x]"
    and deq_none: "fst (deq q) = None \<longleftrightarrow> items q = []"
    and deq_some: "fst (deq q) = Some x \<Longrightarrow> items q = x # items (snd (deq q))"
begin

text \<open>Taking out what was put in: the first packet out is the first one in.\<close>

lemma enq_many: "items (foldl enq q xs) = items q @ xs"
  by (induction xs arbitrary: q) (auto simp: items_enq)

lemma deq_after: "items q = [] \<Longrightarrow> fst (deq (foldl enq q (x # xs))) = Some x
    \<and> items (snd (deq (foldl enq q (x # xs)))) = xs"
proof -
  assume "items q = []"
  then have i: "items (foldl enq q (x # xs)) = x # xs" using enq_many[of q "x # xs"] by simp
  obtain y where y: "fst (deq (foldl enq q (x # xs))) = Some y"
    using deq_none[of "foldl enq q (x # xs)"] i by (cases "fst (deq (foldl enq q (x # xs)))") auto
  from deq_some[OF y] have "y = x \<and> items (snd (deq (foldl enq q (x # xs)))) = xs"
    unfolding i by (simp only: list.inject) auto
  with y show ?thesis by simp
qed

text \<open>A consumer that takes packets until the queue is empty sees every packet once, in order.\<close>

lemma deq_decreases: "fst (deq q) = Some x \<Longrightarrow> length (items (snd (deq q))) < length (items q)"
  using deq_some by fastforce

end

definition queue_put :: "packet_queue \<Rightarrow> rawpacket \<Rightarrow> packet_queue" where
  "queue_put q rp = q @ [rp]"

interpretation rawq: fifo rawpacket_queue_init queue_put rawpacket_dequeue "\<lambda>q. q"
  by unfold_locales (auto simp: rawpacket_queue_init_def queue_put_def rawpacket_dequeue_def split: list.splits)

lemma rawpacket_queue_puts:
  assumes "rawpacket_queue True q dst fo fm i1 i2 data len lp tpos s = Some (ok, q')"
  shows "ok \<and> (\<exists>rp. q' = queue_put q rp \<and> rp_packet rp = take len data \<and> rp_len rp = len
     \<and> rp_len_payload rp = lp \<and> rp_tpos rp = tpos \<and> rp_dst rp = dst \<and> rp_fwmark rp = fm)"
  using assms by (auto simp: rawpacket_queue_def queue_put_def rd_block_eq_Some Let_def split: bind_splits)

lemma foldl_count: "foldl (\<lambda>ct rp. ct + 1) (c :: u32) q = c + of_nat (length q)"
  by (induction q arbitrary: c) (auto simp: algebra_simps)

lemma rawpacket_queue_count_length: "rawpacket_queue_count q = of_nat (length q)"
  by (simp add: rawpacket_queue_count_def foldl_count)

subsection \<open>Consumers\<close>

text \<open>
  \<open>rawsend\<close> is the operating system's: \<open>send_ok\<close> gives its answer for a datagram. What is sent is
  recorded in order. \<open>rawsend_queue\<close> returns whether all sends succeeded, the record and the queue.
\<close>

type_synonym datagram = "sockaddr \<times> u32 \<times> bytes \<times> bytes"

definition rawsend_rp :: "(datagram \<Rightarrow> bool) \<Rightarrow> rawpacket \<Rightarrow> bool \<times> datagram" where
  "rawsend_rp send_ok rp =
     (let g = (rp_dst rp, rp_fwmark rp, rp_ifout rp, take (rp_len rp) (rp_packet rp)) in (send_ok g, g))"

function rawsend_loop :: "(datagram \<Rightarrow> bool) \<Rightarrow> bool \<Rightarrow> datagram list \<Rightarrow> packet_queue \<Rightarrow> bool \<times> datagram list \<times> packet_queue" where
  "rawsend_loop send_ok b sent q =
     (case rawpacket_dequeue q of
        (None, q) \<Rightarrow> (b, sent, q)
      | (Some rp, q) \<Rightarrow>
          (let (ok, g) = rawsend_rp send_ok rp in rawsend_loop send_ok (b \<and> ok) (sent @ [g]) q))"
  by pat_completeness auto
termination
  by (relation "measure (\<lambda>(send_ok, b, sent, q). length q)")
     (auto simp: rawpacket_dequeue_def split: list.splits)

declare rawsend_loop.simps [simp del]

definition rawsend_queue :: "(datagram \<Rightarrow> bool) \<Rightarrow> packet_queue \<Rightarrow> bool \<times> datagram list \<times> packet_queue" where
  "rawsend_queue send_ok q = rawsend_loop send_ok True [] q"

lemma rawsend_loop_all:
  "rawsend_loop send_ok b sent q =
     (b \<and> list_all (\<lambda>rp. fst (rawsend_rp send_ok rp)) q, sent @ map (\<lambda>rp. snd (rawsend_rp send_ok rp)) q, [])"
proof (induction send_ok b sent q rule: rawsend_loop.induct)
  case (1 send_ok b sent q)
  show ?case
  proof (cases q)
    case Nil
    then show ?thesis by (subst rawsend_loop.simps) (simp add: rawpacket_dequeue_def)
  next
    case (Cons rp q')
    then have d: "rawpacket_dequeue q = (Some rp, q')" by (simp add: rawpacket_dequeue_def)
    obtain ok g where r: "rawsend_rp send_ok rp = (ok, g)" by (cases "rawsend_rp send_ok rp")
    show ?thesis
      using "1.IH"[OF d[symmetric] refl r[symmetric] refl] Cons d r
      by (subst rawsend_loop.simps) simp
  qed
qed

definition VERDICT_PASS :: u8 where "VERDICT_PASS = 0"
definition VERDICT_MODIFY :: u8 where "VERDICT_MODIFY = 1"
definition VERDICT_DROP :: u8 where "VERDICT_DROP = 2"
definition VERDICT_MASK :: u8 where "VERDICT_MASK = 3"
definition VERDICT_PRESERVE_NEXT :: u8 where "VERDICT_PRESERVE_NEXT = 4"
definition VERDICT_NOCSUM :: u8 where "VERDICT_NOCSUM = 8"

definition verdict_aggregate :: "u8 \<Rightarrow> u8 \<Rightarrow> u8" where
  "verdict_aggregate v1 v2 =
     (let action = v1 AND VERDICT_MASK;
          m = v2 AND VERDICT_MASK;
          action =
            (if m = VERDICT_MODIFY then (if action = VERDICT_PASS then VERDICT_MODIFY else action)
             else if m = VERDICT_DROP then VERDICT_DROP else action)
      in (v1 AND NOT VERDICT_MASK) OR action OR (v2 AND VERDICT_PRESERVE_NEXT))"

text \<open>
  \<open>replay_queue\<close> of src/nfq2/desync.c: the offset of the next packet in the reassembled data, which for TCP is its distance
  in sequence space from the first one. The base is unset until the first TCP packet; its use before that is undefined. The loop,
  which plays the packets, is in theory Packet.
\<close>

definition replay_offset :: "nat \<Rightarrow> nat \<Rightarrow> u32 option \<Rightarrow> rawpacket \<Rightarrow> (bool \<times> nat \<times> u32 option) option" where
  "replay_offset i off s0 rp =
     (case rp_tpos rp of
        Some tp \<Rightarrow>
          if ipproto tp = IPPROTO_TCP then
            (let pos = (if rp_server_side rp then server tp else client tp) in
             if i \<noteq> 0 then (case s0 of None \<Rightarrow> None | Some s \<Rightarrow> Some (True, unat (seq_last pos - s), s0))
             else Some (True, off, Some (seq_last pos)))
          else Some (False, off, s0)
      | None \<Rightarrow> Some (False, off, s0))"

lemma verdict_bits:
  "verdict_aggregate v1 v2 AND VERDICT_MASK =
     (if v2 AND VERDICT_MASK = VERDICT_DROP then VERDICT_DROP
      else if v2 AND VERDICT_MASK = VERDICT_MODIFY \<and> v1 AND VERDICT_MASK = VERDICT_PASS then VERDICT_MODIFY
      else v1 AND VERDICT_MASK)"
proof -
  have a: "((v1 AND NOT 3) OR x OR (v2 AND 4)) AND 3 = (x AND 3 :: u8)" for x
    by (rule bit_word_eqI) (auto simp: bit_simps bit_numeral_rec less_Suc_eq numeral_eq_Suc)
  show ?thesis
    using a[of "v1 AND 3"] a[of 1] a[of 2]
    by (simp add: verdict_aggregate_def Let_def VERDICT_MASK_def VERDICT_DROP_def VERDICT_MODIFY_def
        VERDICT_PASS_def VERDICT_PRESERVE_NEXT_def)
qed

subsection \<open>The promises of the queue\<close>

text \<open>Delayed packets leave in the order in which they came: rawsend_queue empties the queue and has sent
  every packet exactly once, first queued first, also when some sends fail; its result tells whether all
  succeeded.\<close>

theorem rawsend_queue_fifo:
  "rawsend_queue send_ok q = (list_all (\<lambda>rp. fst (rawsend_rp send_ok rp)) q, map (\<lambda>rp. snd (rawsend_rp send_ok rp)) q, [])"
  unfolding rawsend_queue_def rawsend_loop_all by simp

text \<open>Aggregating verdicts never resurrects a packet: a drop stays a drop, a modification survives any
  later pass, and only a pass can become a modification.\<close>

theorem verdict_aggregate_action:
  "verdict_aggregate v1 v2 AND VERDICT_MASK =
     (if v2 AND VERDICT_MASK = VERDICT_DROP then VERDICT_DROP
      else if v2 AND VERDICT_MASK = VERDICT_MODIFY \<and> v1 AND VERDICT_MASK = VERDICT_PASS then VERDICT_MODIFY
      else v1 AND VERDICT_MASK)"
  by (rule verdict_bits)

end
