(* ===== verification/L7.thy ===== *)
theory L7
  imports Dissect
begin

text \<open>
  The naming layer of src/nfq2/protocol.c and src/nfq2/protocol.h: application protocols, payload types and
  position markers with their names, the bit-set filters over them, the marker parsers, and the position
  arithmetic that does not look into a protocol. A string is given without its NUL, \<open>ssize_t\<close> is \<open>int\<close>.
\<close>

subsection \<open>Protocols and payload types\<close>

datatype t_l7proto = L7_ALL | L7_UNKNOWN | L7_KNOWN | L7_HTTP | L7_TLS | L7_DTLS | L7_QUIC | L7_WIREGUARD | L7_DHT
  | L7_DISCORD | L7_STUN | L7_XMPP | L7_DNS | L7_MTPROTO | L7_BT | L7_UTP_BT | L7_LAST

definition l7protos :: "t_l7proto list" where
  "l7protos = [L7_ALL, L7_UNKNOWN, L7_KNOWN, L7_HTTP, L7_TLS, L7_DTLS, L7_QUIC, L7_WIREGUARD, L7_DHT,
     L7_DISCORD, L7_STUN, L7_XMPP, L7_DNS, L7_MTPROTO, L7_BT, L7_UTP_BT]"

datatype t_l7payload = L7P_ALL | L7P_UNKNOWN | L7P_EMPTY | L7P_KNOWN | L7P_IPV4 | L7P_IPV6 | L7P_ICMP | L7P_HTTP_REQ
  | L7P_HTTP_REPLY | L7P_TLS_CLIENT_HELLO | L7P_TLS_SERVER_HELLO | L7P_DTLS_CLIENT_HELLO | L7P_DTLS_SERVER_HELLO
  | L7P_QUIC_INITIAL | L7P_WIREGUARD_INITIATION | L7P_WIREGUARD_RESPONSE | L7P_WIREGUARD_COOKIE
  | L7P_WIREGUARD_KEEPALIVE | L7P_WIREGUARD_DATA | L7P_DHT | L7P_DISCORD_IP_DISCOVERY | L7P_STUN | L7P_XMPP_STREAM
  | L7P_XMPP_STARTTLS | L7P_XMPP_PROCEED | L7P_XMPP_FEATURES | L7P_DNS_QUERY | L7P_DNS_RESPONSE | L7P_MTPROTO_INITIAL
  | L7P_BT_HANDSHAKE | L7P_UTP_BT_HANDSHAKE | L7P_LAST

definition l7payloads :: "t_l7payload list" where
  "l7payloads = [L7P_ALL, L7P_UNKNOWN, L7P_EMPTY, L7P_KNOWN, L7P_IPV4, L7P_IPV6, L7P_ICMP, L7P_HTTP_REQ,
     L7P_HTTP_REPLY, L7P_TLS_CLIENT_HELLO, L7P_TLS_SERVER_HELLO, L7P_DTLS_CLIENT_HELLO, L7P_DTLS_SERVER_HELLO,
     L7P_QUIC_INITIAL, L7P_WIREGUARD_INITIATION, L7P_WIREGUARD_RESPONSE, L7P_WIREGUARD_COOKIE,
     L7P_WIREGUARD_KEEPALIVE, L7P_WIREGUARD_DATA, L7P_DHT, L7P_DISCORD_IP_DISCOVERY, L7P_STUN, L7P_XMPP_STREAM,
     L7P_XMPP_STARTTLS, L7P_XMPP_PROCEED, L7P_XMPP_FEATURES, L7P_DNS_QUERY, L7P_DNS_RESPONSE, L7P_MTPROTO_INITIAL,
     L7P_BT_HANDSHAKE, L7P_UTP_BT_HANDSHAKE]"

text \<open>The numeric value of an enumeration constant is its position; the \<open>LAST\<close> one is the length.\<close>

definition enum_index :: "'a list \<Rightarrow> 'a \<Rightarrow> nat" where
  "enum_index xs x = length (takeWhile (\<lambda>y. y \<noteq> x) xs)"

definition l7_index :: "t_l7proto \<Rightarrow> nat" where
  "l7_index p = enum_index l7protos p"

definition l7p_index :: "t_l7payload \<Rightarrow> nat" where
  "l7p_index p = enum_index l7payloads p"

text \<open>The constants are ordered by their values, as the comparisons of the code take them.\<close>

lemma l7_index_nth: "(l7protos @ [L7_LAST]) ! l7_index p = p"
  by (cases p) (simp_all add: l7_index_def enum_index_def l7protos_def)

lemma l7p_index_nth: "(l7payloads @ [L7P_LAST]) ! l7p_index p = p"
  by (cases p) (simp_all add: l7p_index_def enum_index_def l7payloads_def)

lemma l7_index_eq: "l7_index p = l7_index q \<longleftrightarrow> p = q"
  by (metis l7_index_nth)

lemma l7p_index_eq: "l7p_index p = l7p_index q \<longleftrightarrow> p = q"
  by (metis l7p_index_nth)

instantiation t_l7proto :: linorder
begin

definition less_eq_t_l7proto :: "t_l7proto \<Rightarrow> t_l7proto \<Rightarrow> bool" where
  "less_eq_t_l7proto p q \<longleftrightarrow> l7_index p \<le> l7_index q"

definition less_t_l7proto :: "t_l7proto \<Rightarrow> t_l7proto \<Rightarrow> bool" where
  "less_t_l7proto p q \<longleftrightarrow> l7_index p < l7_index q"

instance
  by standard (auto simp: less_eq_t_l7proto_def less_t_l7proto_def l7_index_eq)

end

instantiation t_l7payload :: linorder
begin

definition less_eq_t_l7payload :: "t_l7payload \<Rightarrow> t_l7payload \<Rightarrow> bool" where
  "less_eq_t_l7payload p q \<longleftrightarrow> l7p_index p \<le> l7p_index q"

definition less_t_l7payload :: "t_l7payload \<Rightarrow> t_l7payload \<Rightarrow> bool" where
  "less_t_l7payload p q \<longleftrightarrow> l7p_index p < l7p_index q"

instance
  by standard (auto simp: less_eq_t_l7payload_def less_t_l7payload_def l7p_index_eq)

end

definition l7proto_name :: "bytes list" where
  "l7proto_name = map lit [''all'', ''unknown'', ''known'', ''http'', ''tls'', ''dtls'', ''quic'', ''wireguard'', ''dht'',
     ''discord'', ''stun'', ''xmpp'', ''dns'', ''mtproto'', ''bt'', ''utp_bt'']"

definition l7proto_str :: "t_l7proto \<Rightarrow> bytes option" where
  "l7proto_str l7 = (if l7_index l7 \<ge> 16 then None else rd l7proto_name (l7_index l7))"

definition l7proto_from_name :: "bytes \<Rightarrow> t_l7proto" where
  "l7proto_from_name name =
     (let idx = str_index l7proto_name name in if idx < 0 then L7_LAST else l7protos ! nat idx)"

definition l7_proto_match :: "t_l7proto \<Rightarrow> u64 \<Rightarrow> bool" where
  "l7_proto_match l7proto filter_l7 \<longleftrightarrow> filter_l7 = 0 \<or> bit filter_l7 (l7_index l7proto)
     \<or> bit filter_l7 (l7_index L7_KNOWN) \<and> l7proto > L7_KNOWN \<and> l7proto < L7_LAST"

definition l7payload_name :: "bytes list" where
  "l7payload_name = map lit [''all'', ''unknown'', ''empty'', ''known'', ''ipv4'', ''ipv6'', ''icmp'', ''http_req'',
     ''http_reply'', ''tls_client_hello'', ''tls_server_hello'', ''dtls_client_hello'', ''dtls_server_hello'',
     ''quic_initial'', ''wireguard_initiation'', ''wireguard_response'', ''wireguard_cookie'',
     ''wireguard_keepalive'', ''wireguard_data'', ''dht'', ''discord_ip_discovery'', ''stun'', ''xmpp_stream'',
     ''xmpp_starttls'', ''xmpp_proceed'', ''xmpp_features'', ''dns_query'', ''dns_response'', ''mtproto_initial'',
     ''bt_handshake'', ''utp_bt_handshake'']"

definition l7payload_str :: "t_l7payload \<Rightarrow> bytes option" where
  "l7payload_str l7 = (if l7p_index l7 \<ge> 31 then None else rd l7payload_name (l7p_index l7))"

definition l7payload_from_name :: "bytes \<Rightarrow> t_l7payload" where
  "l7payload_from_name name =
     (let idx = str_index l7payload_name name in if idx < 0 then L7P_LAST else l7payloads ! nat idx)"

definition l7_payload_match :: "t_l7payload \<Rightarrow> u64 \<Rightarrow> bool" where
  "l7_payload_match l7payload filter_l7p \<longleftrightarrow> filter_l7p = 0 \<or> bit filter_l7p (l7p_index l7payload)
     \<or> bit filter_l7p (l7p_index L7P_KNOWN) \<and> l7payload > L7P_KNOWN \<and> l7payload < L7P_LAST"

text \<open>The comma separated list in a buffer of \<open>sz\<close> bytes: success and the string written so far.\<close>

fun str_list_loop :: "u64 \<Rightarrow> nat \<Rightarrow> nat \<Rightarrow> bytes list \<Rightarrow> bytes \<Rightarrow> bool \<times> bytes" where
  "str_list_loop l7p sz pl [] buf = (True, buf)"
| "str_list_loop l7p sz pl (name # names) buf =
     (if bit l7p pl then
        (if length buf + (if buf \<noteq> [] then 1 else 0) + length name + 1 > sz then (False, buf)
         else str_list_loop l7p sz (pl + 1) names (buf @ (if buf \<noteq> [] then [ch (CHR '','')] else []) @ name))
      else str_list_loop l7p sz (pl + 1) names buf)"

definition l7_payload_str_list :: "u64 \<Rightarrow> nat \<Rightarrow> bool \<times> bytes" where
  "l7_payload_str_list l7p sz =
     (if sz = 0 then (False, [])
      else if l7p = 0 then (if sz < 4 then (False, []) else (True, lit ''all''))
      else str_list_loop l7p sz 0 l7payload_name [])"

subsection \<open>Position markers\<close>

datatype t_marker = PM_ABS | PM_HOST | PM_HOST_END | PM_HOST_SLD | PM_HOST_MIDSLD | PM_HOST_ENDSLD | PM_HTTP_METHOD
  | PM_EXT_LEN | PM_SNI_EXT | PM_LAST

record proto_pos =
  pm_pos :: u16
  pm_marker :: t_marker

definition posmarkers :: "t_marker list" where
  "posmarkers = [PM_ABS, PM_HOST, PM_HOST_END, PM_HOST_SLD, PM_HOST_MIDSLD, PM_HOST_ENDSLD, PM_HTTP_METHOD, PM_EXT_LEN,
     PM_SNI_EXT]"

definition posmarker_names :: "bytes list" where
  "posmarker_names = map lit [''abs'', ''host'', ''endhost'', ''sld'', ''midsld'', ''endsld'', ''method'', ''extlen'',
     ''sniext'']"

definition posmarker_name :: "t_marker \<Rightarrow> bytes option" where
  "posmarker_name m = (if enum_index posmarkers m \<ge> 9 then None else rd posmarker_names (enum_index posmarkers m))"

definition posmarker_from_name :: "bytes \<Rightarrow> t_marker" where
  "posmarker_from_name name =
     (let idx = str_index posmarker_names name in if idx < 0 then PM_LAST else posmarkers ! nat idx)"

definition posmarker_parse :: "bytes \<Rightarrow> proto_pos \<Rightarrow> bool \<times> proto_pos" where
  "posmarker_parse s m =
     (let r = parse_int16 s;
          m = (case r of None \<Rightarrow> m | Some (ok, v) \<Rightarrow> m\<lparr>pm_pos := v\<rparr>)
      in if (case r of Some (ok, v) \<Rightarrow> ok | None \<Rightarrow> False) then (True, m\<lparr>pm_marker := PM_ABS\<rparr>)
         else
           (let sign = (\<lambda>c. c = ch (CHR ''+'') \<or> c = ch (CHR ''-''));
                sm = takeWhile (\<lambda>c. \<not> sign c) s;
                p = dropWhile (\<lambda>c. \<not> sign c) s
            in if length sm \<ge> 32 then (False, m)
               else
                 (let m = m\<lparr>pm_marker := posmarker_from_name sm\<rparr> in
                  if pm_marker m = PM_LAST then (False, m)
                  else if p \<noteq> [] then
                    (case parse_int16 p of None \<Rightarrow> (False, m) | Some (ok, v) \<Rightarrow> (ok, m\<lparr>pm_pos := v\<rparr>))
                  else (True, m\<lparr>pm_pos := 0\<rparr>))))"

text \<open>\<open>n\<close> is the room left in the array; the entries written and whether all text was consumed.\<close>

fun posmarker_list_loop :: "bytes \<Rightarrow> nat \<Rightarrow> proto_pos \<Rightarrow> proto_pos list \<Rightarrow> bool \<times> proto_pos list" where
  "posmarker_list_loop p 0 junk m = (False, m)"
| "posmarker_list_loop p (Suc n) junk m =
     (let smm = takeWhile (\<lambda>c. c \<noteq> ch (CHR '','')) p;
          e = strchr p (ch (CHR '',''))
      in if e \<noteq> None \<and> length smm \<ge> 32 then (False, m)
         else (let (ok, v) = posmarker_parse smm junk in
           if \<not> ok then (False, m)
           else case e of None \<Rightarrow> (True, m @ [v])
             | Some q \<Rightarrow> posmarker_list_loop (tl q) n junk (m @ [v])))"

definition posmarker_list_parse :: "bytes \<Rightarrow> nat \<Rightarrow> proto_pos \<Rightarrow> bool \<times> proto_pos list" where
  "posmarker_list_parse s mct junk =
     (if s = [] then (True, []) else posmarker_list_loop s mct junk [])"

subsection \<open>The n-th level domain\<close>

text \<open>\<open>for (; p > base && *p != '.'; p--);\<close>, with \<open>p\<close> as distance from \<open>base\<close>.\<close>

fun nld_back :: "bytes \<Rightarrow> nat \<Rightarrow> nat \<Rightarrow> nat option" where
  "nld_back d base 0 = Some 0"
| "nld_back d base (Suc k) =
     (case rd d (base + Suc k) of None \<Rightarrow> None
      | Some c \<Rightarrow> if c = ch (CHR ''.'') then Some (Suc k) else nld_back d base k)"

text \<open>The loop over the levels: \<open>None\<close> inside is the early return of false. A pointer before \<open>base\<close> ends it.\<close>

fun nld_levels :: "bytes \<Rightarrow> nat \<Rightarrow> nat \<Rightarrow> nat \<Rightarrow> nat option option" where
  "nld_levels d base 0 p2 = Some (Some p2)"
| "nld_levels d base (Suc n) p2 =
     (if p2 = 0 then Some None
      else case nld_back d base (p2 - 1) of None \<Rightarrow> None
        | Some p2 \<Rightarrow> if p2 = 0 then Some None else nld_levels d base n p2)"

definition FindNLD :: "bytes \<Rightarrow> nat \<Rightarrow> nat \<Rightarrow> int \<Rightarrow> (nat \<times> nat) option option" where
  "FindNLD d base dlen level =
     (if level < 1 then Some None
      else case nld_levels d base (nat level - 1) dlen of
        None \<Rightarrow> None
      | Some None \<Rightarrow> Some None
      | Some (Some p2) \<Rightarrow>
          if p2 = 0 then Some None
          else do {
            p1 \<leftarrow> nld_back d base (p2 - 1);
            c \<leftarrow> rd d (base + p1);
            let p1 = (if c = ch (CHR ''.'') then p1 + 1 else p1);
            Some (Some (base + p1, p2 - p1)) })"

subsection \<open>Positions\<close>

definition POS_NOT_FOUND :: int where "POS_NOT_FOUND = - 1"

definition CheckPos :: "nat \<Rightarrow> int \<Rightarrow> int" where
  "CheckPos sz off = (if off \<ge> 0 \<and> off < int sz then off else POS_NOT_FOUND)"

definition AnyProtoPos :: "t_marker \<Rightarrow> u16 \<Rightarrow> nat \<Rightarrow> int" where
  "AnyProtoPos posmarker pos sz =
     (case posmarker of
        PM_ABS \<Rightarrow> CheckPos sz (if sint pos < 0 then int sz + sint pos else sint pos)
      | _ \<Rightarrow> POS_NOT_FOUND)"

definition HostPos :: "t_marker \<Rightarrow> u16 \<Rightarrow> bytes \<Rightarrow> nat \<Rightarrow> nat \<Rightarrow> nat \<Rightarrow> int option" where
  "HostPos posmarker pos data sz offset_host len_host =
     (if posmarker = PM_HOST then Some (CheckPos sz (int offset_host + sint pos))
      else if posmarker = PM_HOST_END then Some (CheckPos sz (int offset_host + int len_host + sint pos))
      else if posmarker \<in> {PM_HOST_SLD, PM_HOST_MIDSLD, PM_HOST_ENDSLD} \<and> offset_host + len_host \<le> sz then do {
        r \<leftarrow> FindNLD data offset_host len_host 2;
        Some (case r of None \<Rightarrow> POS_NOT_FOUND
          | Some (p, slen) \<Rightarrow>
              CheckPos sz (int (if posmarker = PM_HOST_SLD then p
                  else if posmarker = PM_HOST_ENDSLD then p + slen
                  else if slen = 1 then p + 1 else p + slen div 2) + sint pos)) }
      else Some POS_NOT_FOUND)"

subsection \<open>The n-th level domain is the n-th label from the right\<close>

text \<open>A domain name from its labels, the top level label first.\<close>

fun domain_of :: "bytes list \<Rightarrow> bytes" where
  "domain_of [] = []"
| "domain_of [l] = l"
| "domain_of (l # l' # ls) = domain_of (l' # ls) @ ch (CHR ''.'') # l"

definition labels_ok :: "bytes list \<Rightarrow> bool" where
  "labels_ok ls \<longleftrightarrow> list_all (\<lambda>l. l \<noteq> [] \<and> ch (CHR ''.'') \<notin> set l) ls"

definition text_at :: "bytes \<Rightarrow> nat \<Rightarrow> bytes \<Rightarrow> bool" where
  "text_at d base t \<longleftrightarrow> base + length t \<le> length d \<and> take (length t) (drop base d) = t"

lemma text_at_nth: "text_at d base t \<Longrightarrow> i < length t \<Longrightarrow> rd d (base + i) = Some (t ! i)"
proof -
  assume a: "text_at d base t" and i: "i < length t"
  then have "t ! i = take (length t) (drop base d) ! i" by (simp add: text_at_def)
  moreover have "take (length t) (drop base d) ! i = d ! (base + i)"
    using i a[unfolded text_at_def, THEN conjunct1] by simp
  ultimately have "t ! i = d ! (base + i)" by simp
  then show ?thesis using a i by (simp add: text_at_def)
qed

lemma text_at_append: "text_at d base (s @ t) \<Longrightarrow> text_at d base s"
  by (auto simp: text_at_def take_add)

lemma nld_back_dot:
  "text_at d base (t @ ch (CHR ''.'') # l) \<Longrightarrow> t \<noteq> [] \<Longrightarrow> ch (CHR ''.'') \<notin> set l \<Longrightarrow> j \<le> length l \<Longrightarrow>
   nld_back d base (length t + j) = Some (length t)"
proof (induction j)
  case 0
  then obtain k where k: "length t = Suc k" by (cases t) auto
  have "rd d (base + length t) = Some (ch (CHR ''.''))"
    using text_at_nth[OF 0(1), of "length t"] by simp
  then show ?case using k by simp
next
  case (Suc j)
  have r: "rd d (base + Suc (length t + j)) = Some (l ! j)"
    using text_at_nth[OF Suc.prems(1), of "Suc (length t + j)"] Suc.prems(4) by (simp add: nth_append)
  have "l ! j \<noteq> ch (CHR ''.'')" using Suc.prems(3,4) nth_mem[of j l] by (metis Suc_le_eq)
  with Suc r show ?case by simp
qed

lemma nld_back_single:
  "text_at d base l \<Longrightarrow> ch (CHR ''.'') \<notin> set l \<Longrightarrow> j < length l \<Longrightarrow> nld_back d base j = Some 0"
proof (induction j)
  case (Suc j)
  have r: "rd d (base + Suc j) = Some (l ! Suc j)" by (rule text_at_nth[OF Suc.prems(1,3)])
  have "l ! Suc j \<noteq> ch (CHR ''.'')" using Suc.prems(2,3) nth_mem by metis
  with Suc r show ?case by simp
qed simp

lemma domain_of_Cons: "ls \<noteq> [] \<Longrightarrow> domain_of (l # ls) = domain_of ls @ ch (CHR ''.'') # l"
  by (cases ls) auto

lemma domain_of_nonempty: "labels_ok ls \<Longrightarrow> ls \<noteq> [] \<Longrightarrow> domain_of ls \<noteq> []"
  by (induction ls rule: domain_of.induct) (auto simp: labels_ok_def)

text \<open>Stepping back over the last label of a domain.\<close>

lemma nld_back_domain:
  assumes "labels_ok (l # ls)" and "text_at d base (domain_of (l # ls))"
  shows "nld_back d base (length (domain_of (l # ls)) - 1) = Some (length (domain_of ls))"
proof (cases "ls = []")
  case True
  with assms show ?thesis
    using nld_back_single[of d base l "length l - 1"] by (simp add: labels_ok_def)
next
  case False
  then have d: "domain_of (l # ls) = domain_of ls @ ch (CHR ''.'') # l" by (rule domain_of_Cons)
  have "domain_of ls \<noteq> []" using assms(1) False domain_of_nonempty[of ls] by (simp add: labels_ok_def)
  with assms show ?thesis
    using nld_back_dot[of d base "domain_of ls" l "length l"] by (simp add: d labels_ok_def)
qed

lemma nld_levels_domain:
  "labels_ok ls \<Longrightarrow> text_at d base (domain_of ls) \<Longrightarrow>
   nld_levels d base n (length (domain_of ls)) =
     Some (if n < length ls \<or> n = 0 then Some (length (domain_of (drop n ls))) else None)"
proof (induction n arbitrary: ls)
  case (Suc n)
  show ?case
  proof (cases ls)
    case Nil
    then show ?thesis by simp
  next
    case (Cons l ls')
    have ne: "length (domain_of ls) \<noteq> 0" using domain_of_nonempty Suc.prems Cons by auto
    have b: "nld_back d base (length (domain_of ls) - 1) = Some (length (domain_of ls'))"
      using nld_back_domain Suc.prems Cons by blast
    have ok': "labels_ok ls'" using Suc.prems Cons by (simp add: labels_ok_def)
    show ?thesis
    proof (cases "ls' = []")
      case True
      with ne b Cons show ?thesis by simp
    next
      case False
      have "text_at d base (domain_of ls')"
        using Suc.prems(2) text_at_append Cons domain_of_Cons[OF False] by metis
      with Suc.IH[OF ok'] ne b False domain_of_nonempty[OF ok' False] Cons show ?thesis by auto
    qed
  qed
qed simp

lemma FindNLD_domain:
  assumes ls: "labels_ok ls" and t: "text_at d base (domain_of ls)" and n: "1 \<le> n"
  shows "FindNLD d base (length (domain_of ls)) (int n) =
    Some (if n \<le> length ls
      then Some (base + (length (domain_of (drop (n - 1) ls)) - length (ls ! (n - 1))), length (ls ! (n - 1)))
      else None)"
proof (cases "n \<le> length ls")
  case False
  with n nld_levels_domain[OF ls t, of "n - 1"] show ?thesis
    by (cases ls) (auto simp: FindNLD_def nat_diff_distrib)
next
  case True
  define l ls' where "l = ls ! (n - Suc 0)" and "ls' = drop n ls"
  have dr: "drop (n - Suc 0) ls = l # ls'"
    using True n by (simp add: l_def ls'_def Cons_nth_drop_Suc[symmetric])
  have ok: "labels_ok (l # ls')" using ls unfolding dr[symmetric]
    by (auto simp: labels_ok_def list_all_iff dest: in_set_dropD)
  have pre: "\<exists>s. domain_of ls = domain_of (drop k ls) @ s" for k
  proof (induction k arbitrary: ls)
    case (Suc k)
    show ?case
    proof (cases ls)
      case (Cons x xs)
      show ?thesis
      proof (cases "xs = []")
        case False
        obtain s where "domain_of xs = domain_of (drop k xs) @ s" using Suc by blast
        then show ?thesis using Cons domain_of_Cons[OF False] by simp
      qed (use Cons in simp)
    qed simp
  qed simp
  have tt: "text_at d base (domain_of (l # ls'))"
    using t pre[of "n - Suc 0"] text_at_append unfolding dr by metis
  have lv: "nld_levels d base (n - Suc 0) (length (domain_of ls)) = Some (Some (length (domain_of (l # ls'))))"
    using nld_levels_domain[OF ls t, of "n - Suc 0"] True n dr by (auto simp: Suc_le_eq)
  have b: "nld_back d base (length (domain_of (l # ls')) - 1) = Some (length (domain_of ls'))"
    by (rule nld_back_domain[OF ok tt])
  have ne: "length (domain_of (l # ls')) \<noteq> 0" using domain_of_nonempty[OF ok] by auto
  have lne: "l \<noteq> []" "ch (CHR ''.'') \<notin> set l" using ok by (simp_all add: labels_ok_def)
  have nn: "nat (int n) - 1 = n - Suc 0" by simp
  show ?thesis
  proof (cases "ls' = []")
    case single: True
    have "rd d base = Some (l ! 0)" using text_at_nth[OF tt, of 0] single lne by simp
    moreover have "l ! 0 \<noteq> ch (CHR ''.'')" using lne nth_mem[of 0 l] by (metis length_greater_0_conv)
    ultimately show ?thesis
      using True n lv b ne single lne by (simp add: FindNLD_def nn l_def[symmetric] dr)
  next
    case False
    have r: "rd d (base + length (domain_of ls')) = Some (ch (CHR ''.''))"
      using text_at_nth[OF tt, of "length (domain_of ls')"] domain_of_Cons[OF False, of l]
      by (simp add: nth_append)
    show ?thesis
      using True n lv b ne r domain_of_Cons[OF False, of l] by (simp add: FindNLD_def nn l_def[symmetric] dr)
  qed
qed
subsection \<open>Names and filters\<close>

lemma str_index_from_nth:
  "distinct xs \<Longrightarrow> k < length xs \<Longrightarrow> str_index_from i xs (xs ! k) = int (i + k)"
proof (induction xs arbitrary: i k)
  case (Cons x xs)
  then show ?case by (cases k) (auto simp: nth_mem)
qed simp

lemma str_index_from_none: "s \<notin> set xs \<Longrightarrow> str_index_from i xs s = - 1"
  by (induction xs arbitrary: i) auto

lemma distinct_names: "distinct l7proto_name" "distinct l7payload_name" "distinct posmarker_names"
  by (simp_all add: l7proto_name_def l7payload_name_def posmarker_names_def)

lemma l7proto_name_roundtrip:
  "p \<noteq> L7_LAST \<Longrightarrow> \<exists>s. l7proto_str p = Some s \<and> l7proto_from_name s = p"
proof -
  assume p: "p \<noteq> L7_LAST"
  then have i: "l7_index p < 16" "l7protos ! l7_index p = p"
    by (cases p; simp add: l7_index_def enum_index_def l7protos_def)+
  have n: "length l7proto_name = 16" by (simp add: l7proto_name_def)
  have "l7proto_str p = Some (l7proto_name ! l7_index p)" using i n by (simp add: l7proto_str_def)
  moreover have "l7proto_from_name (l7proto_name ! l7_index p) = p"
    using str_index_from_nth[OF distinct_names(1), of "l7_index p" 0] i n
    by (simp add: l7proto_from_name_def str_index_def)
  ultimately show ?thesis by blast
qed

lemma l7payload_name_roundtrip:
  "p \<noteq> L7P_LAST \<Longrightarrow> \<exists>s. l7payload_str p = Some s \<and> l7payload_from_name s = p"
proof -
  assume p: "p \<noteq> L7P_LAST"
  then have i: "l7p_index p < 31" "l7payloads ! l7p_index p = p"
    by (cases p; simp add: l7p_index_def enum_index_def l7payloads_def)+
  have n: "length l7payload_name = 31" by (simp add: l7payload_name_def)
  have "l7payload_str p = Some (l7payload_name ! l7p_index p)" using i n by (simp add: l7payload_str_def)
  moreover have "l7payload_from_name (l7payload_name ! l7p_index p) = p"
    using str_index_from_nth[OF distinct_names(2), of "l7p_index p" 0] i n
    by (simp add: l7payload_from_name_def str_index_def)
  ultimately show ?thesis by blast
qed

text \<open>What the comma separated list should be: the names of the set bits, in order.\<close>

fun join_names :: "bytes list \<Rightarrow> bytes" where
  "join_names [] = []"
| "join_names [n] = n"
| "join_names (n # n' # ns) = n @ ch (CHR '','') # join_names (n' # ns)"

definition chosen :: "u64 \<Rightarrow> nat \<Rightarrow> bytes list \<Rightarrow> bytes list" where
  "chosen l7p i names = map snd (filter (\<lambda>(k, n). bit l7p k) (enumerate i names))"

definition join_after :: "bytes \<Rightarrow> bytes list \<Rightarrow> bytes" where
  "join_after buf ns = (if ns = [] then buf else if buf = [] then join_names ns
     else buf @ ch (CHR '','') # join_names ns)"

lemma join_after_Cons:
  "n \<noteq> [] \<Longrightarrow> join_after buf (n # ns)
     = join_after (buf @ (if buf \<noteq> [] then [ch (CHR '','')] else []) @ n) ns"
  by (cases ns) (auto simp: join_after_def)

lemma join_after_length: "length buf \<le> length (join_after buf ns)"
  by (auto simp: join_after_def)

lemma str_list_loop_join:
  "list_all (\<lambda>n. n \<noteq> []) names \<Longrightarrow> length (join_after buf (chosen l7p i names)) < sz \<Longrightarrow>
   str_list_loop l7p sz i names buf = (True, join_after buf (chosen l7p i names))"
proof (induction names arbitrary: i buf)
  case Nil
  then show ?case by (simp add: chosen_def join_after_def)
next
  case (Cons n names)
  show ?case
  proof (cases "bit l7p i")
    case False
    with Cons show ?thesis by (simp add: chosen_def)
  next
    case True
    let ?b = "buf @ (if buf \<noteq> [] then [ch (CHR '','')] else []) @ n"
    have c: "chosen l7p i (n # names) = n # chosen l7p (i + 1) names"
      using True by (simp add: chosen_def)
    have n: "n \<noteq> []" using Cons.prems(1) by simp
    have j: "join_after buf (chosen l7p i (n # names)) = join_after ?b (chosen l7p (i + 1) names)"
      unfolding c by (rule join_after_Cons[OF n])
    have l: "length ?b < sz"
      using Cons.prems(2) join_after_length[of ?b "chosen l7p (i + 1) names"] unfolding j by linarith
    then have "\<not> length buf + (if buf \<noteq> [] then 1 else 0) + length n + 1 > sz" by (auto split: if_splits)
    then show ?thesis
      using Cons.IH[of ?b "i + 1"] Cons.prems True unfolding j by simp
  qed
qed

text \<open>Every protocol and every payload type is printed as a name that parses back to it.\<close>

theorem l7_names_roundtrip:
  assumes "p \<noteq> L7_LAST" and "q \<noteq> L7P_LAST"
  shows "(\<exists>s. l7proto_str p = Some s \<and> l7proto_from_name s = p)
    \<and> (\<exists>s. l7payload_str q = Some s \<and> l7payload_from_name s = q)"
  using l7proto_name_roundtrip[OF assms(1)] l7payload_name_roundtrip[OF assms(2)] by blast

lemma l7_names_roundtrip_witness:
  "\<exists>s. l7payload_str L7P_QUIC_INITIAL = Some s \<and> l7payload_from_name s = L7P_QUIC_INITIAL"
  using l7_names_roundtrip[of L7_QUIC L7P_QUIC_INITIAL] by simp

text \<open>l7_payload_str_list writes the names of the chosen payload types, separated by commas, whenever the
  buffer has room for them and the NUL.\<close>

theorem l7_payload_str_list_names:
  assumes "l7p \<noteq> 0" and "length (join_names (chosen l7p 0 l7payload_name)) < sz"
  shows "l7_payload_str_list l7p sz = (True, join_names (chosen l7p 0 l7payload_name))"
proof -
  have ne: "list_all (\<lambda>n. n \<noteq> []) l7payload_name" by (simp add: l7payload_name_def)
  have "join_after [] ns = join_names ns" for ns by (simp add: join_after_def)
  then show ?thesis
    using str_list_loop_join[OF ne, of "[]" l7p 0 sz] assms by (simp add: l7_payload_str_list_def)
qed

lemma l7_payload_str_list_names_witness:
  "l7_payload_str_list 5 12 = (True, lit ''all,empty'')"
proof -
  have "(5 :: u64) = push_bit 2 1 OR 1" by simp
  then have b: "bit (5 :: u64) k \<longleftrightarrow> k = 0 \<or> k = 2" for k
    by (simp only: bit_or_iff bit_push_bit_iff bit_1_iff) auto
  have "join_names (chosen 5 0 l7payload_name) = lit ''all,empty''"
    by (simp add: chosen_def l7payload_name_def b)
  then show ?thesis
    using l7_payload_str_list_names[of 5 12] by simp
qed

text \<open>FindNLD finds the n-th level domain: for a name of non-empty labels, level \<open>n\<close> is the \<open>n\<close>-th label
  from the right, and there is none exactly if the name has fewer labels.\<close>

theorem FindNLD_nth_label:
  assumes "labels_ok ls" and "text_at d base (domain_of ls)" and "1 \<le> n"
  shows "FindNLD d base (length (domain_of ls)) (int n) =
    Some (if n \<le> length ls
      then Some (base + (length (domain_of (drop (n - 1) ls)) - length (ls ! (n - 1))), length (ls ! (n - 1)))
      else None)"
  by (rule FindNLD_domain[OF assms])

lemma FindNLD_nth_label_witness:
  "FindNLD (lit ''www.example.com'') 0 (length (lit ''www.example.com'')) (int 2) = Some (Some (0 + (11 - 7), 7))"
proof -
  define ls where "ls = map lit [''com'', ''example'', ''www'']"
  have d: "domain_of ls = lit ''www.example.com''" by (simp add: ls_def)
  have ok: "labels_ok ls" by (simp add: ls_def labels_ok_def)
  have t: "text_at (lit ''www.example.com'') 0 (domain_of ls)" unfolding d by (simp add: text_at_def)
  have l: "2 \<le> length ls" "length (ls ! (2 - 1)) = 7" "length (domain_of (drop (2 - 1) ls)) = 11"
    by (simp_all add: ls_def)
  show ?thesis
    using FindNLD_nth_label[OF ok t, of 2] unfolding d l(2,3) using l(1) by (simp only: if_True one_le_numeral)
qed

subsection \<open>Memory safety of the position arithmetic\<close>

lemma nld_back_total:
  "k = 0 \<or> base + k < length d \<Longrightarrow> \<exists>j \<le> k. nld_back d base k = Some j"
proof (induction k)
  case (Suc k)
  then obtain j where "j \<le> k" "nld_back d base k = Some j" by auto
  with Suc.prems show ?case by auto
qed simp

lemma nld_back_before:
  "q \<noteq> 0 \<Longrightarrow> base + q \<le> length d \<Longrightarrow> \<exists>j. j \<le> q - 1 \<and> nld_back d base (q - 1) = Some j"
  using nld_back_total[of "q - 1" base d] by (cases "q - 1 = 0") auto

lemma nld_levels_total:
  "base + p2 \<le> length d \<Longrightarrow> \<exists>r. nld_levels d base n p2 = Some r \<and> (\<forall>q. r = Some q \<longrightarrow> q \<le> p2)"
proof (induction n arbitrary: p2)
  case (Suc n)
  show ?case
  proof (cases "p2 = 0")
    case False
    obtain j where j: "j \<le> p2 - 1" "nld_back d base (p2 - 1) = Some j"
      using nld_back_before[of p2 base d] Suc.prems False by blast
    have "base + j \<le> length d" using j Suc.prems by linarith
    from Suc.IH[OF this] obtain r where
      "nld_levels d base n j = Some r" "\<forall>q. r = Some q \<longrightarrow> q \<le> j" by blast
    with j False show ?thesis by auto
  qed simp
qed simp

lemma FindNLD_total:
  "base + dlen \<le> length d \<Longrightarrow> \<exists>r. FindNLD d base dlen level = Some r
     \<and> (\<forall>p slen. r = Some (p, slen) \<longrightarrow> base \<le> p \<and> p + slen \<le> base + dlen)"
proof -
  assume len: "base + dlen \<le> length d"
  obtain r where r: "nld_levels d base (nat level - 1) dlen = Some r" "\<forall>q. r = Some q \<longrightarrow> q \<le> dlen"
    using nld_levels_total[OF len] by blast
  show ?thesis
  proof (cases "level < 1 \<or> r = None \<or> r = Some 0")
    case True
    with r show ?thesis by (auto simp: FindNLD_def)
  next
    case False
    then obtain q where q: "r = Some q" "q \<noteq> 0" "q \<le> dlen" using r by auto
    obtain j where j: "j \<le> q - 1" "nld_back d base (q - 1) = Some j"
      using nld_back_before[of q base d] q len le_trans[of "base + q" "base + dlen" "length d"] by auto
    with False q r len show ?thesis by (auto simp: FindNLD_def rd_def)
  qed
qed

lemma CheckPos_range: "CheckPos sz off = POS_NOT_FOUND \<or> 0 \<le> CheckPos sz off \<and> CheckPos sz off < int sz"
  by (simp add: CheckPos_def)

definition pos_in :: "nat \<Rightarrow> int \<Rightarrow> bool" where
  "pos_in sz p \<longleftrightarrow> p = POS_NOT_FOUND \<or> 0 \<le> p \<and> p < int sz"

lemma pos_in_simps [simp]: "pos_in sz POS_NOT_FOUND" "pos_in sz (CheckPos sz off)"
  using CheckPos_range by (auto simp: pos_in_def)

lemma AnyProtoPos_in: "pos_in sz (AnyProtoPos m pos sz)"
  by (simp add: AnyProtoPos_def split: t_marker.split)

lemma HostPos_total:
  "sz \<le> length data \<Longrightarrow> \<exists>p. HostPos m pos data sz off len = Some p \<and> pos_in sz p"
  using FindNLD_total[of off len data 2] by (auto simp: HostPos_def split: option.split)

end
