(* ===== verification/Hash.thy ===== *)
theory Hash
  imports Prelude
begin

text \<open>
  The hash tables of src/nfq2/uthash.h as the components use them: \<open>HASH_ADD\<close> appends an element without
  looking for its key, \<open>HASH_FIND\<close> finds the first element with a key, \<open>HASH_DEL\<close> unlinks an element, and
  \<open>HASH_ITER\<close> visits the elements in the order of insertion. A table is the list of its elements in that
  order; an element changed through a pointer keeps its place.
\<close>

type_synonym ('k, 'v) table = "('k \<times> 'v) list"

fun hash_find :: "('k, 'v) table \<Rightarrow> 'k \<Rightarrow> 'v option" where
  "hash_find [] k = None"
| "hash_find ((k', v) # t) k = (if k' = k then Some v else hash_find t k)"

definition hash_add :: "('k, 'v) table \<Rightarrow> 'k \<Rightarrow> 'v \<Rightarrow> ('k, 'v) table" where
  "hash_add t k v = t @ [(k, v)]"

fun hash_del :: "('k, 'v) table \<Rightarrow> 'k \<Rightarrow> ('k, 'v) table" where
  "hash_del [] k = []"
| "hash_del ((k', v) # t) k = (if k' = k then t else (k', v) # hash_del t k)"

fun hash_set :: "('k, 'v) table \<Rightarrow> 'k \<Rightarrow> 'v \<Rightarrow> ('k, 'v) table" where
  "hash_set [] k v = []"
| "hash_set ((k', v') # t) k v = (if k' = k then (k', v) # t else (k', v') # hash_set t k v)"

definition keys :: "('k, 'v) table \<Rightarrow> 'k set" where
  "keys t = fst ` set t"

definition table_ok :: "('k, 'v) table \<Rightarrow> bool" where
  "table_ok t \<longleftrightarrow> distinct (map fst t)"

subsection \<open>The contract of a keyed store\<close>

text \<open>
  The users of a table look a key up before they add it, so that keys stay unique; under that
  discipline the operations are those of a finite map.
\<close>

locale keyed_store =
  fixes lookup :: "'s \<Rightarrow> 'k \<Rightarrow> 'v option"
    and add :: "'s \<Rightarrow> 'k \<Rightarrow> 'v \<Rightarrow> 's"
    and del :: "'s \<Rightarrow> 'k \<Rightarrow> 's"
    and upd :: "'s \<Rightarrow> 'k \<Rightarrow> 'v \<Rightarrow> 's"
    and good :: "'s \<Rightarrow> bool"
    and keys_of :: "'s \<Rightarrow> 'k set"
  assumes keys_lookup: "k \<in> keys_of s \<longleftrightarrow> lookup s k \<noteq> None"
    and add_good: "good s \<Longrightarrow> lookup s k = None \<Longrightarrow> good (add s k v)"
    and del_good: "good s \<Longrightarrow> good (del s k)"
    and upd_good: "good s \<Longrightarrow> good (upd s k v)"
    and lookup_add: "lookup s k = None \<Longrightarrow> lookup (add s k v) k' = (if k' = k then Some v else lookup s k')"
    and lookup_del: "good s \<Longrightarrow> lookup (del s k) k' = (if k' = k then None else lookup s k')"
    and lookup_upd: "lookup s k \<noteq> None \<Longrightarrow> lookup (upd s k v) k' = (if k' = k then Some v else lookup s k')"
begin

text \<open>The operation every user writes: change the element if it is there, add it if not.\<close>

definition upsert :: "'s \<Rightarrow> 'k \<Rightarrow> 'v \<Rightarrow> 's" where
  "upsert s k v = (if lookup s k = None then add s k v else upd s k v)"

lemma upsert_good: "good s \<Longrightarrow> good (upsert s k v)"
  by (simp add: upsert_def add_good upd_good)

lemma lookup_upsert: "lookup (upsert s k v) k' = (if k' = k then Some v else lookup s k')"
  by (simp add: upsert_def lookup_add lookup_upd)

lemma keys_add: "lookup s k = None \<Longrightarrow> keys_of (add s k v) = insert k (keys_of s)"
  by (auto simp: keys_lookup lookup_add split: if_splits)

lemma keys_upd: "lookup s k \<noteq> None \<Longrightarrow> keys_of (upd s k v) = keys_of s"
  by (auto simp: keys_lookup lookup_upd split: if_splits)

lemma keys_del: "good s \<Longrightarrow> keys_of (del s k) = keys_of s - {k}"
  by (auto simp: keys_lookup lookup_del split: if_splits)

lemma add_del: "good s \<Longrightarrow> lookup s k = None \<Longrightarrow> lookup (del (add s k v) k) k' = lookup s k'"
  by (simp add: lookup_del add_good lookup_add)

end

lemma hash_find_None: "hash_find t k = None \<longleftrightarrow> k \<notin> keys t"
  by (induction t k rule: hash_find.induct) (auto simp: keys_def)

lemma hash_find_in: "hash_find t k = Some v \<Longrightarrow> (k, v) \<in> set t"
  by (induction t k rule: hash_find.induct) (auto split: if_splits)

lemma hash_find_iff: "table_ok t \<Longrightarrow> hash_find t k = Some v \<longleftrightarrow> (k, v) \<in> set t"
  by (induction t k rule: hash_find.induct) (force simp: table_ok_def)+

lemma keys_hash_del: "keys (hash_del t k) \<subseteq> keys t"
  by (induction t k rule: hash_del.induct) (auto simp: keys_def)

lemma set_hash_del: "table_ok t \<Longrightarrow> set (hash_del t k) = {(k', v) \<in> set t. k' \<noteq> k}"
  by (induction t k rule: hash_del.induct) (force simp: table_ok_def)+

lemma fst_hash_set: "map fst (hash_set t k v) = map fst t"
  by (induction t k v rule: hash_set.induct) auto

lemma table_ok_del: "table_ok t \<Longrightarrow> table_ok (hash_del t k)"
  by (induction t k rule: hash_del.induct) (use keys_hash_del in \<open>force simp: table_ok_def keys_def\<close>)+

lemma find_hash_add:
  "hash_find t k = None \<Longrightarrow> hash_find (hash_add t k v) k' = (if k' = k then Some v else hash_find t k')"
  by (induction t k rule: hash_find.induct) (auto simp: hash_add_def split: if_splits)

lemma find_hash_del:
  "table_ok t \<Longrightarrow> hash_find (hash_del t k) k' = (if k' = k then None else hash_find t k')"
  by (induction t k rule: hash_del.induct)
     (auto simp: table_ok_def hash_find_None keys_def set_hash_del[unfolded table_ok_def] dest: hash_find_in)

lemma find_hash_set:
  "hash_find t k \<noteq> None \<Longrightarrow> hash_find (hash_set t k v) k' = (if k' = k then Some v else hash_find t k')"
  by (induction t k v rule: hash_set.induct) auto

interpretation hash: keyed_store hash_find hash_add hash_del hash_set table_ok keys
  by unfold_locales
     (auto simp: hash_find_None table_ok_del find_hash_add find_hash_del find_hash_set,
      auto simp: table_ok_def hash_add_def keys_def fst_hash_set)

lemma table_ok_filter: "table_ok t \<Longrightarrow> table_ok (filter P t)"
  by (simp add: table_ok_def distinct_map_filter)

lemma keys_filter: "keys (filter P t) \<subseteq> keys t"
  by (auto simp: keys_def)

end
