(* ===== verification/Conntrack.thy ===== *)
theory Conntrack
  imports PacketQueue L7 Hash
begin

text \<open>
  src/nfq2/conntrack.c and src/nfq2/conntrack.h: the connection tracker, its TCP position machine and the
  stream reassembler. The pool is a hash table from connections to tracks; a pointer to a track is the
  connection it is stored under. Time is in seconds. Lua registry references come from the caller.
  \<open>None\<close> stands for an access outside the packet or a shift by 32 or more.
\<close>

subsection \<open>Reassembly\<close>

record reasm =
  r_packet :: bytes
  r_seq :: u32
  r_size :: nat
  r_present :: nat

definition reasm_null :: reasm where
  "reasm_null = \<lparr>r_packet = [], r_seq = 0, r_size = 0, r_present = 0\<rparr>"

definition ReasmClear :: "reasm \<Rightarrow> reasm" where
  "ReasmClear r = r\<lparr>r_packet := [], r_size := 0, r_present := 0\<rparr>"

text \<open>\<open>malloc\<close> and \<open>realloc\<close> may fail (\<open>alloc\<close>); fresh cells hold \<open>junk\<close>.\<close>

definition ReasmInit :: "bool \<Rightarrow> u8 \<Rightarrow> reasm \<Rightarrow> nat \<Rightarrow> u32 \<Rightarrow> bool \<times> reasm" where
  "ReasmInit alloc junk r size_requested seq_start =
     (if \<not> alloc then (False, r\<lparr>r_packet := []\<rparr>)
      else (True, r\<lparr>r_packet := replicate size_requested junk, r_size := size_requested, r_present := 0,
                    r_seq := seq_start\<rparr>))"

definition ReasmResize :: "bool \<Rightarrow> u8 \<Rightarrow> reasm \<Rightarrow> nat \<Rightarrow> bool \<times> reasm" where
  "ReasmResize alloc junk r new_size =
     (if \<not> alloc then (False, r)
      else (True, r\<lparr>r_packet := take new_size (r_packet r) @ replicate (new_size - length (r_packet r)) junk,
                    r_size := new_size,
                    r_present := (if r_present r > new_size then new_size else r_present r)\<rparr>))"

definition REASM_MAX_NEG :: u32 where "REASM_MAX_NEG = 0x100000"

definition ReasmFeed :: "reasm \<Rightarrow> u32 \<Rightarrow> bytes \<Rightarrow> nat \<Rightarrow> (bool \<times> reasm) option" where
  "ReasmFeed r seq payload len =
     (let dseq = seq - r_seq r in
      if dseq \<noteq> 0 \<and> dseq < REASM_MAX_NEG then Some (False, r)
      else (let neg = r_seq r - seq in
        if neg > REASM_MAX_NEG then Some (False, r)
        else (let szignore = (if unat neg > r_present r then unat neg - r_present r else 0) in
          if szignore \<ge> len then Some (True, r)
          else (let szcopy = len - szignore; n = unat neg - szignore in
            if r_present r - n + szcopy > r_size r then Some (False, r)
            else do {
              src \<leftarrow> rd_block payload szignore szcopy;
              packet \<leftarrow> wr_block (r_packet r) (r_present r - n) src;
              let r = r\<lparr>r_packet := packet\<rparr>;
              Some (True, if szcopy > n
                then r\<lparr>r_present := r_present r + (szcopy - n), r_seq := r_seq r + (of_nat szcopy - of_nat n)\<rparr>
                else r) }))))"

definition ReasmHasSpace :: "reasm \<Rightarrow> nat \<Rightarrow> bool" where
  "ReasmHasSpace r len \<longleftrightarrow> r_present r + len \<le> r_size r"

definition ReasmIsEmpty :: "reasm \<Rightarrow> bool" where
  "ReasmIsEmpty r \<longleftrightarrow> r_size r = 0"

definition ReasmIsFull :: "reasm \<Rightarrow> bool" where
  "ReasmIsFull r \<longleftrightarrow> \<not> ReasmIsEmpty r \<and> r_size r = r_present r"

subsection \<open>Connections and tracks\<close>

text \<open>The addresses are the 16 bytes of the union, an IPv4 address padded with zeros by the \<open>memset\<close>.\<close>

record conn =
  c_src :: bytes
  c_dst :: bytes
  c_sport :: u16
  c_dport :: u16
  c_l3proto :: u8
  c_l4proto :: u8

definition connswap :: "conn \<Rightarrow> conn" where
  "connswap c = \<lparr>c_src = c_dst c, c_dst = c_src c, c_sport = c_dport c, c_dport = c_sport c,
     c_l3proto = c_l3proto c, c_l4proto = c_l4proto c\<rparr>"

record ctrack =
  bCheckDone :: bool
  bCheckResult :: bool
  bCheckExcluded :: bool
  t_start :: int
  pos :: ctrack_positions
  dp :: "nat option"
  dp_search_complete :: bool
  req_retrans_counter :: u8
  failure_detect_finalized :: bool
  incoming_ttl :: u8
  b_cutoff :: bool
  b_lua_in_cutoff :: bool
  b_lua_out_cutoff :: bool
  l7proto :: t_l7proto
  l7proto_discovered :: bool
  hostname :: "bytes option"
  hostname_is_ip :: bool
  hostname_discovered :: bool
  hostname_ah_check :: bool
  lua_state :: int
  lua_instance_cutoff :: int
  reasm_client :: reasm
  delayed :: packet_queue

definition position_null :: ctrack_position where
  "position_null = \<lparr>pcounter = 0, pdcounter = 0, pbcounter = 0, ip6flow = 0, t_pos = 0, uppos = 0, uppos_prev = 0,
     seq_last = 0, seq0 = 0, winsize = 0, t_mss = 0, winsize_calc = 0, t_scale = 0, rseq_over_2G = False\<rparr>"

definition positions_null :: ctrack_positions where
  "positions_null = \<lparr>t_last = 0, t_state = SYN, client = position_null, server = position_null, ipproto = 0\<rparr>"

definition ConntrackClearHostname :: "ctrack \<Rightarrow> ctrack" where
  "ConntrackClearHostname t = t\<lparr>hostname := None, hostname_is_ip := False\<rparr>"

definition ConntrackInitTrack :: "int \<times> int \<Rightarrow> ctrack" where
  "ConntrackInitTrack refs =
     \<lparr>bCheckDone = False, bCheckResult = False, bCheckExcluded = False, t_start = 0, pos = positions_null, dp = None,
      dp_search_complete = False, req_retrans_counter = 0, failure_detect_finalized = False, incoming_ttl = 0,
      b_cutoff = False, b_lua_in_cutoff = False, b_lua_out_cutoff = False, l7proto = L7_UNKNOWN,
      l7proto_discovered = False, hostname = None, hostname_is_ip = False, hostname_discovered = False,
      hostname_ah_check = False, lua_state = fst refs, lua_instance_cutoff = snd refs, reasm_client = reasm_null,
      delayed = rawpacket_queue_init\<rparr>"

definition ConntrackClearTrack :: "ctrack \<Rightarrow> ctrack" where
  "ConntrackClearTrack t =
     (let t = ConntrackClearHostname t
      in t\<lparr>reasm_client := ReasmClear (reasm_client t), delayed := rawpacket_queue_destroy (delayed t)\<rparr>)"

text \<open>All of the cleared track is overwritten by the initialisation.\<close>

definition ConntrackReInitTrack :: "int \<times> int \<Rightarrow> ctrack \<Rightarrow> ctrack" where
  "ConntrackReInitTrack refs t = (let t = ConntrackClearTrack t in ConntrackInitTrack refs)"

type_synonym pool = "(conn, ctrack) table"

record conntrack =
  timeout_syn :: u32
  timeout_established :: u32
  timeout_fin :: u32
  timeout_udp :: u32
  t_purge_interval :: int
  t_last_purge :: int
  ct_pool :: pool

definition ConntrackPoolInit :: "int \<Rightarrow> int \<Rightarrow> u32 \<Rightarrow> u32 \<Rightarrow> u32 \<Rightarrow> u32 \<Rightarrow> conntrack" where
  "ConntrackPoolInit boottime purge_interval ts te tf tu =
     \<lparr>timeout_syn = ts, timeout_established = te, timeout_fin = tf, timeout_udp = tu,
      t_purge_interval = purge_interval, t_last_purge = boottime, ct_pool = []\<rparr>"

definition IPPROTO_IP :: u8 where "IPPROTO_IP = 0"
definition IPPROTO_IPV6 :: u8 where "IPPROTO_IPV6 = 41"

text \<open>Whether there is a connection, and the connection.\<close>

definition ConntrackExtractConn :: "bool \<Rightarrow> dissect \<Rightarrow> (bool \<times> conn) option" where
  "ConntrackExtractConn bReverse dis =
     (let d = data_pkt dis;
          addrs = (\<lambda>p q n. do { s \<leftarrow> rd_block d p n; t \<leftarrow> rd_block d q n;
                    Some (s @ replicate (16 - n) 0, t @ replicate (16 - n) 0) });
          null = \<lparr>c_src = replicate 16 0, c_dst = replicate 16 0, c_sport = 0, c_dport = 0, c_l3proto = 0, c_l4proto = 0\<rparr>;
          l3 = (case d_ip dis of
              Some i \<Rightarrow> map_option (\<lambda>a. Some (IPPROTO_IP, a)) (addrs (i + 12) (i + 16) 4)
            | None \<Rightarrow> (case d_ip6 dis of
                Some i \<Rightarrow> map_option (\<lambda>a. Some (IPPROTO_IPV6, a)) (addrs (i + 8) (i + 24) 16)
              | None \<Rightarrow> Some None))
      in do {
        r \<leftarrow> l3;
        (case r of None \<Rightarrow> Some (False, null)
         | Some (l3proto, s, t) \<Rightarrow> do {
             (l4, sport, dport) \<leftarrow> extract_ports d (d_tcp dis) (d_udp dis);
             Some (l4 \<noteq> IPPROTO_NONE,
               if bReverse
               then \<lparr>c_src = t, c_dst = s, c_sport = dport, c_dport = sport, c_l3proto = l3proto, c_l4proto = l4\<rparr>
               else \<lparr>c_src = s, c_dst = t, c_sport = sport, c_dport = dport, c_l3proto = l3proto, c_l4proto = l4\<rparr>) }) })"

subsection \<open>Feeding a packet\<close>

text \<open>The positions in direction of the packet and against it, and putting them back.\<close>

definition direct_of :: "bool \<Rightarrow> ctrack_positions \<Rightarrow> ctrack_position" where
  "direct_of bReverse p = (if bReverse then server p else client p)"

definition put_dirs :: "bool \<Rightarrow> ctrack_positions \<Rightarrow> ctrack_position \<Rightarrow> ctrack_position \<Rightarrow> ctrack_positions" where
  "put_dirs bReverse p direct reverse =
     (if bReverse then p\<lparr>server := direct, client := reverse\<rparr> else p\<lparr>client := direct, server := reverse\<rparr>)"

definition over_2G :: "ctrack_position \<Rightarrow> ctrack_position" where
  "over_2G q = (if \<not> rseq_over_2G q \<and> (seq_last q - seq0 q) AND 0x80000000 \<noteq> 0 then q\<lparr>rseq_over_2G := True\<rparr> else q)"

definition ConntrackApplyPos :: "ctrack_positions \<Rightarrow> bool \<Rightarrow> dissect \<Rightarrow> nat \<Rightarrow> ctrack_positions option" where
  "ConntrackApplyPos p bReverse dis tcp =
     (let d = data_pkt dis; direct = direct_of bReverse p; reverse = direct_of (\<not> bReverse) p in do {
        direct \<leftarrow> (case d_ip6 dis of None \<Rightarrow> Some direct
          | Some i \<Rightarrow> map_option (\<lambda>f. direct\<lparr>ip6flow := f\<rparr>) (pntoh32 d i));
        win \<leftarrow> pntoh16 d (tcp + 14);
        let direct = direct\<lparr>winsize := win, winsize_calc := ucast win\<rparr>;
        direct \<leftarrow>
          (if t_state p = SYN then do {
             scale \<leftarrow> tcp_find_scale_factor d tcp;
             mss \<leftarrow> tcp_find_mss d tcp;
             let direct = (if scale \<noteq> SCALE_NONE then direct\<lparr>t_scale := scale\<rparr> else direct);
             Some (direct\<lparr>t_mss := mss\<rparr>) }
           else if unat (t_scale direct) \<ge> 32 then None
           else Some (direct\<lparr>winsize_calc := push_bit (unat (t_scale direct)) (winsize_calc direct)\<rparr>));
        sq \<leftarrow> pntoh32 d (tcp + 4);
        let direct = direct\<lparr>seq_last := sq, t_pos := sq + of_nat (len_payload dis)\<rparr>;
        ack \<leftarrow> pntoh32 d (tcp + 8);
        let reverse = reverse\<lparr>seq_last := ack, t_pos := ack\<rparr>;
        let direct =
          (if t_state p = SYN then direct\<lparr>uppos := t_pos direct, uppos_prev := t_pos direct\<rparr>
           else if len_payload dis \<noteq> 0 then
             (let direct = direct\<lparr>uppos_prev := uppos direct\<rparr> in
              if (t_pos direct - uppos direct) AND 0x80000000 = 0 then direct\<lparr>uppos := t_pos direct\<rparr> else direct)
           else direct);
        Some (put_dirs bReverse p (over_2G direct) (over_2G reverse)) })"

definition count_packet :: "nat \<Rightarrow> ctrack_position \<Rightarrow> ctrack_position" where
  "count_packet len q = q\<lparr>pcounter := pcounter q + 1, pdcounter := pdcounter q + (if len \<noteq> 0 then 1 else 0),
     pbcounter := pbcounter q + of_nat len\<rparr>"

text \<open>The state machine on the flags of a TCP segment.\<close>

definition tcp_state_step :: "int \<times> int \<Rightarrow> ctrack \<Rightarrow> bool \<Rightarrow> dissect \<Rightarrow> nat \<Rightarrow> ctrack option" where
  "tcp_state_step refs t bReverse dis tcp =
     (let d = data_pkt dis in do {
        syn \<leftarrow> tcp_syn_segment d tcp;
        synack \<leftarrow> tcp_synack_segment d tcp;
        flags \<leftarrow> th_flags d tcp;
        sq \<leftarrow> pntoh32 d (tcp + 4);
        ack \<leftarrow> pntoh32 d (tcp + 8);
        if syn then
          (let t = (if t_state (pos t) \<noteq> SYN then ConntrackReInitTrack refs t else t)
           in Some (t\<lparr>pos := (pos t)\<lparr>client := (client (pos t))\<lparr>seq0 := sq\<rparr>\<rparr>\<rparr>))
        else if synack then
          (let s0 = ack - 1;
               t = (if t_state (pos t) \<noteq> SYN \<and> seq0 (client (pos t)) \<noteq> s0 then ConntrackReInitTrack refs t else t);
               p = pos t;
               p = (if seq0 (client p) = 0 then p\<lparr>client := (client p)\<lparr>seq0 := s0\<rparr>\<rparr> else p)
           in Some (t\<lparr>pos := p\<lparr>server := (server p)\<lparr>seq0 := sq\<rparr>\<rparr>\<rparr>))
        else if flags AND (TH_FIN OR TH_RST) \<noteq> 0 then Some (t\<lparr>pos := (pos t)\<lparr>t_state := FIN\<rparr>\<rparr>)
        else if t_state (pos t) = SYN then
          (let p = (pos t)\<lparr>t_state := ESTABLISHED\<rparr>;
               p = (if \<not> bReverse \<and> seq0 (server p) = 0 then p\<lparr>server := (server p)\<lparr>seq0 := ack - 1\<rparr>\<rparr> else p)
           in Some (t\<lparr>pos := p\<rparr>))
        else Some t })"

definition ConntrackFeedPacket :: "int \<times> int \<Rightarrow> int \<Rightarrow> ctrack \<Rightarrow> bool \<Rightarrow> dissect \<Rightarrow> ctrack option" where
  "ConntrackFeedPacket refs now t bReverse dis =
     (let p = pos t;
          p = (if bReverse then p\<lparr>server := count_packet (len_payload dis) (server p)\<rparr>
               else p\<lparr>client := count_packet (len_payload dis) (client p)\<rparr>);
          t = t\<lparr>pos := p\<rparr>
      in do {
        t \<leftarrow> (case d_tcp dis of None \<Rightarrow> Some t
          | Some tcp \<Rightarrow> do {
              t \<leftarrow> tcp_state_step refs t bReverse dis tcp;
              p \<leftarrow> ConntrackApplyPos (pos t) bReverse dis tcp;
              Some (t\<lparr>pos := p\<rparr>) });
        let t = t\<lparr>pos := (pos t)\<lparr>t_last := now\<rparr>\<rparr>;
        Some (if t_start t = 0 then t\<lparr>t_start := now\<rparr> else t) })"

subsection \<open>The pool\<close>

text \<open>The key the packet's track is stored under and whether the packet runs against it.\<close>

definition ConntrackPoolDoubleSearchPool :: "pool \<Rightarrow> dissect \<Rightarrow> (conn \<times> bool) option option" where
  "ConntrackPoolDoubleSearchPool pp dis = do {
     (ok, c) \<leftarrow> ConntrackExtractConn False dis;
     Some (if \<not> ok then None
       else if hash_find pp c \<noteq> None then Some (c, False)
       else if hash_find pp (connswap c) \<noteq> None then Some (connswap c, True)
       else None) }"

definition ConntrackPoolDoubleSearch :: "conntrack \<Rightarrow> dissect \<Rightarrow> (conn \<times> bool) option option" where
  "ConntrackPoolDoubleSearch p dis = ConntrackPoolDoubleSearchPool (ct_pool p) dis"

text \<open>\<open>alloc\<close>: the two ways in which the memory for a new entry can fail end in the same way.\<close>

definition ConntrackNew :: "bool \<Rightarrow> int \<times> int \<Rightarrow> pool \<Rightarrow> conn \<Rightarrow> pool option" where
  "ConntrackNew alloc refs pp c = (if alloc then Some (hash_add pp c (ConntrackInitTrack refs)) else None)"

definition feed_entry :: "int \<times> int \<Rightarrow> int \<Rightarrow> pool \<Rightarrow> conn \<Rightarrow> bool \<Rightarrow> dissect \<Rightarrow> (pool \<times> (conn \<times> bool) option) option" where
  "feed_entry refs now pp c b_rev dis =
     (case hash_find pp c of None \<Rightarrow> Some (pp, None)
      | Some t \<Rightarrow> do {
          t \<leftarrow> ConntrackFeedPacket refs now t b_rev dis;
          let proto = (if d_tcp dis \<noteq> None then IPPROTO_TCP else if d_udp dis \<noteq> None then IPPROTO_UDP else IPPROTO_NONE);
          Some (hash_set pp c (t\<lparr>pos := (pos t)\<lparr>ipproto := proto\<rparr>\<rparr>), Some (c, b_rev)) })"

definition ConntrackPoolFeedPool ::
  "bool \<Rightarrow> int \<times> int \<Rightarrow> int \<Rightarrow> pool \<Rightarrow> dissect \<Rightarrow> (pool \<times> (conn \<times> bool) option) option" where
  "ConntrackPoolFeedPool alloc refs now pp dis = do {
     (ok, c) \<leftarrow> ConntrackExtractConn False dis;
     (if \<not> ok then Some (pp, None)
      else if hash_find pp c \<noteq> None then feed_entry refs now pp c False dis
      else if hash_find pp (connswap c) \<noteq> None then feed_entry refs now pp (connswap c) True dis
      else do {
        synack \<leftarrow> (case d_tcp dis of None \<Rightarrow> Some False | Some t \<Rightarrow> tcp_synack_segment (data_pkt dis) t);
        syn \<leftarrow> (case d_tcp dis of None \<Rightarrow> Some False | Some t \<Rightarrow> tcp_syn_segment (data_pkt dis) t);
        if syn \<or> synack \<or> d_udp dis \<noteq> None then
          (case ConntrackNew alloc refs pp (if synack then connswap c else c) of
             None \<Rightarrow> Some (pp, None)
           | Some pp \<Rightarrow> feed_entry refs now pp (if synack then connswap c else c) synack dis)
        else Some (pp, None) }) }"

definition ConntrackPoolFeed ::
  "bool \<Rightarrow> int \<times> int \<Rightarrow> int \<Rightarrow> conntrack \<Rightarrow> dissect \<Rightarrow> (conntrack \<times> (conn \<times> bool) option) option" where
  "ConntrackPoolFeed alloc refs now p dis = do {
     (pp, r) \<leftarrow> ConntrackPoolFeedPool alloc refs now (ct_pool p) dis;
     Some (p\<lparr>ct_pool := pp\<rparr>, r) }"

definition ConntrackPoolDropPool :: "pool \<Rightarrow> dissect \<Rightarrow> (pool \<times> bool) option" where
  "ConntrackPoolDropPool pp dis = do {
     (ok, c) \<leftarrow> ConntrackExtractConn False dis;
     Some (if \<not> ok then (pp, False)
       else if hash_find pp c \<noteq> None then (hash_del pp c, True)
       else if hash_find pp (connswap c) \<noteq> None then (hash_del pp (connswap c), True)
       else (pp, False)) }"

definition ConntrackPoolDrop :: "conntrack \<Rightarrow> dissect \<Rightarrow> (conntrack \<times> bool) option" where
  "ConntrackPoolDrop p dis = do { (pp, b) \<leftarrow> ConntrackPoolDropPool (ct_pool p) dis; Some (p\<lparr>ct_pool := pp\<rparr>, b) }"

definition conn_expired :: "conntrack \<Rightarrow> int \<Rightarrow> conn \<times> ctrack \<Rightarrow> bool" where
  "conn_expired p tnow = (\<lambda>(c, t).
     (let tidle = tnow - t_last (pos t); st = t_state (pos t) in
      b_cutoff t
      \<or> (c_l4proto c = IPPROTO_TCP \<and>
          ((st = SYN \<and> tidle \<ge> uint (timeout_syn p))
           \<or> (st = ESTABLISHED \<and> tidle \<ge> uint (timeout_established p))
           \<or> (st = FIN \<and> tidle \<ge> uint (timeout_fin p))))
      \<or> (c_l4proto c = IPPROTO_UDP \<and> tidle \<ge> uint (timeout_udp p))))"

text \<open>\<open>HASH_ITER\<close> over the pool, deleting on the way. A \<open>tnow\<close> of zero is a failed clock.\<close>

fun purge_iter :: "conntrack \<Rightarrow> int \<Rightarrow> pool \<Rightarrow> pool" where
  "purge_iter p tnow [] = []"
| "purge_iter p tnow (e # es) =
     (if conn_expired p tnow e then purge_iter p tnow es else e # purge_iter p tnow es)"

definition ConntrackPoolPurge :: "int \<Rightarrow> conntrack \<Rightarrow> conntrack" where
  "ConntrackPoolPurge tnow p =
     (if tnow = 0 then p
      else if tnow - t_last_purge p \<ge> t_purge_interval p
      then p\<lparr>ct_pool := purge_iter p tnow (ct_pool p), t_last_purge := tnow\<rparr>
      else p)"

definition ConntrackPoolDestroy :: "conntrack \<Rightarrow> conntrack" where
  "ConntrackPoolDestroy p = p\<lparr>ct_pool := []\<rparr>"

subsection \<open>The reassembler holds a prefix of the stream\<close>

text \<open>
  The abstract view: the peer sends the byte stream \<open>S\<close>, whose byte 0 has sequence number \<open>s0\<close>. The buffer
  holds \<open>r_present\<close> bytes of it and expects the next one.
\<close>

definition reasm_ok :: "(nat \<Rightarrow> u8) \<Rightarrow> u32 \<Rightarrow> reasm \<Rightarrow> bool" where
  "reasm_ok S s0 r \<longleftrightarrow> length (r_packet r) = r_size r \<and> r_present r \<le> r_size r
     \<and> r_seq r = s0 + of_nat (r_present r) \<and> (\<forall>i < r_present r. r_packet r ! i = S i)"

text \<open>A segment carries the stream's bytes at its position, as far as that is not before the start.\<close>

definition agrees :: "(nat \<Rightarrow> u8) \<Rightarrow> reasm \<Rightarrow> u32 \<Rightarrow> bytes \<Rightarrow> nat \<Rightarrow> bool" where
  "agrees S r seq payload len \<longleftrightarrow> len \<le> length payload \<and>
     (\<forall>k < len. unat (r_seq r - seq) \<le> r_present r + k \<longrightarrow>
        payload ! k = S (r_present r + k - unat (r_seq r - seq)))"

lemma ReasmFeed_ok:
  assumes ok: "reasm_ok S s0 r" and ag: "agrees S r seq payload len"
  shows "\<exists>b r'. ReasmFeed r seq payload len = Some (b, r') \<and> reasm_ok S s0 r' \<and> r_size r' = r_size r
     \<and> r_present r \<le> r_present r' \<and> (\<not> b \<longrightarrow> r' = r)"
proof -
  define P N where "P = r_present r" and "N = unat (r_seq r - seq)"
  define ig where "ig = (if N > P then N - P else 0)"
  define c n where "c = len - ig" and "n = N - ig"
  have U: "ReasmFeed r seq payload len =
      (if seq - r_seq r \<noteq> 0 \<and> seq - r_seq r < REASM_MAX_NEG then Some (False, r)
       else if r_seq r - seq > REASM_MAX_NEG then Some (False, r)
       else if ig \<ge> len then Some (True, r)
       else if P - n + c > r_size r then Some (False, r)
       else do {
         src \<leftarrow> rd_block payload ig c;
         packet \<leftarrow> wr_block (r_packet r) (P - n) src;
         Some (True, if c > n
           then r\<lparr>r_packet := packet, r_present := r_present (r\<lparr>r_packet := packet\<rparr>) + (c - n),
                  r_seq := r_seq (r\<lparr>r_packet := packet\<rparr>) + (of_nat c - of_nat n)\<rparr>
           else r\<lparr>r_packet := packet\<rparr>) })"
    unfolding ReasmFeed_def Let_def P_def[symmetric] N_def[symmetric] ig_def[symmetric] c_def[symmetric]
      n_def[symmetric] by (rule refl)
  consider (gap) "seq - r_seq r \<noteq> 0 \<and> seq - r_seq r < REASM_MAX_NEG"
    | (neg) "\<not> (seq - r_seq r \<noteq> 0 \<and> seq - r_seq r < REASM_MAX_NEG)" "r_seq r - seq > REASM_MAX_NEG"
    | (old) "\<not> (seq - r_seq r \<noteq> 0 \<and> seq - r_seq r < REASM_MAX_NEG)" "\<not> r_seq r - seq > REASM_MAX_NEG" "ig \<ge> len"
    | (big) "\<not> (seq - r_seq r \<noteq> 0 \<and> seq - r_seq r < REASM_MAX_NEG)" "\<not> r_seq r - seq > REASM_MAX_NEG" "\<not> ig \<ge> len"
        "P - n + c > r_size r"
    | (copy) "\<not> (seq - r_seq r \<noteq> 0 \<and> seq - r_seq r < REASM_MAX_NEG)" "\<not> r_seq r - seq > REASM_MAX_NEG" "\<not> ig \<ge> len"
        "\<not> P - n + c > r_size r" by blast
  then show ?thesis
  proof cases
    case copy
    have nP: "n \<le> P" by (simp add: n_def ig_def)
    have len: "ig + c = len" "len \<le> length payload" using copy(3) ag by (simp_all add: c_def agrees_def)
    have pl: "length (r_packet r) = r_size r" "P \<le> r_size r" using ok by (simp_all add: reasm_ok_def P_def)
    define src where "src = take c (drop ig payload)"
    have src: "rd_block payload ig c = Some src" "length src = c" using len by (simp_all add: src_def)
    obtain pk where pk: "wr_block (r_packet r) (P - n) src = Some pk"
      using copy(4) pl src(2) by (simp add: wr_block_def)
    define r1 where "r1 = r\<lparr>r_packet := pk\<rparr>"
    define r2 where "r2 = (if c > n
      then r1\<lparr>r_present := P + (c - n), r_seq := r_seq r + (of_nat c - of_nat n)\<rparr> else r1)"
    have eq: "ReasmFeed r seq payload len = Some (True, r2)"
      unfolding U using copy src(1) pk by (simp add: r1_def r2_def P_def)
    have byte: "pk ! i = S i" if i: "i < P + (c - n)" for i
    proof (cases "i < P - n")
      case True
      have "pk ! i = r_packet r ! i"
        using wr_block_nth[OF pk, of i] True pl by simp
      with True ok show ?thesis by (simp add: reasm_ok_def P_def)
    next
      case False
      define k where "k = i - (P - n)"
      show ?thesis
      proof (cases "k < c")
        case kc: True
        have il: "i < length (r_packet r)" using kc False copy(4) pl by (simp add: k_def)
        have "i < P - n + c" using kc False by (simp add: k_def)
        then have "pk ! i = src ! k"
          using wr_block_nth[OF pk il] False kc src(2) by (simp add: k_def)
        also have "\<dots> = payload ! (ig + k)" using kc len by (simp add: src_def)
        also have "\<dots> = S (P + (ig + k) - N)"
        proof -
          have "ig + k < len" "N \<le> P + (ig + k)"
            using kc len by (simp_all add: ig_def)
          with ag show ?thesis by (simp add: agrees_def N_def P_def)
        qed
        also have "P + (ig + k) - N = i"
          using False nP by (auto simp: k_def n_def ig_def)
        finally show ?thesis .
      next
        case kc: False
        then have ip: "i < P" using i by (simp add: k_def)
        have "\<not> i < P - n + c" using kc False unfolding k_def by linarith
        then have "pk ! i = r_packet r ! i"
          using wr_block_nth[OF pk, of i] src(2) ip pl by simp
        with ip ok show ?thesis by (simp add: reasm_ok_def P_def)
      qed
    qed
    have "reasm_ok S s0 r2"
    proof (cases "c > n")
      case True
      have "(of_nat (c - n) :: u32) = of_nat c - of_nat n" using True by (simp add: of_nat_diff)
      with True ok byte nP copy(4) wr_block_length[OF pk] show ?thesis
        by (simp add: reasm_ok_def r2_def r1_def P_def[symmetric] algebra_simps)
    next
      case False
      with ok byte wr_block_length[OF pk] show ?thesis
        by (simp add: reasm_ok_def r2_def r1_def P_def[symmetric])
    qed
    moreover have "r_size r2 = r_size r" by (simp add: r2_def r1_def)
    moreover have "r_present r \<le> r_present r2" unfolding r2_def r1_def P_def by auto
    ultimately show ?thesis using eq by blast
  qed (use ok in \<open>auto simp: U\<close>)
qed

lemma ReasmFeed_in_order:
  assumes "reasm_ok S s0 r" and "length payload = len" and "r_present r + len \<le> r_size r"
  shows "\<exists>r'. ReasmFeed r (r_seq r) payload len = Some (True, r') \<and> r_present r' = r_present r + len"
proof (cases "len = 0")
  case True
  then show ?thesis by (simp add: ReasmFeed_def REASM_MAX_NEG_def)
next
  case False
  with assms show ?thesis
    by (simp add: ReasmFeed_def REASM_MAX_NEG_def Let_def wr_block_def reasm_ok_def)
qed

text \<open>The life of a reassembler: started with the stream's first sequence number, fed with segments.\<close>

inductive reasm_run :: "(nat \<Rightarrow> u8) \<Rightarrow> u32 \<Rightarrow> nat \<Rightarrow> reasm \<Rightarrow> bool" for S s0 sz where
  start: "ReasmInit True junk reasm_null sz s0 = (True, r) \<Longrightarrow> reasm_run S s0 sz r"
| feed: "reasm_run S s0 sz r \<Longrightarrow> agrees S r seq payload len \<Longrightarrow>
     ReasmFeed r seq payload len = Some (b, r') \<Longrightarrow> reasm_run S s0 sz r'"

inductive_cases reasm_run_cases: "reasm_run S s0 sz r"

lemma reasm_run_ok: "reasm_run S s0 sz r \<Longrightarrow> reasm_ok S s0 r \<and> r_size r = sz"
proof (induction rule: reasm_run.induct)
  case (start junk r)
  then show ?case by (auto simp: ReasmInit_def reasm_ok_def)
next
  case (feed r seq payload len b r')
  then show ?case using ReasmFeed_ok[of S s0 r seq payload len] by auto
qed
subsection \<open>The pool stores every connection once, in one direction\<close>

definition pool_inv :: "pool \<Rightarrow> bool" where
  "pool_inv pp \<longleftrightarrow> table_ok pp \<and> (\<forall>c \<in> keys pp. connswap c \<in> keys pp \<longrightarrow> connswap c = c)"

lemma connswap_swap [simp]: "connswap (connswap c) = c"
  by (simp add: connswap_def)

lemma keys_hash_set: "keys (hash_set pp c t) = keys pp"
  using fst_hash_set[of pp c t] by (metis keys_def image_set)

lemma table_ok_set: "table_ok (hash_set t k v) = table_ok t"
  by (simp add: table_ok_def fst_hash_set)

lemma pool_inv_set: "pool_inv pp \<Longrightarrow> pool_inv (hash_set pp c t)"
  by (simp add: pool_inv_def keys_hash_set table_ok_set)

lemma pool_inv_add:
  "pool_inv pp \<Longrightarrow> hash_find pp c = None \<Longrightarrow> hash_find pp (connswap c) = None \<Longrightarrow> pool_inv (hash_add pp c t)"
  using hash.keys_add[of pp c t] hash.add_good[of pp c t]
  by (auto simp: pool_inv_def hash_find_None)

lemma pool_inv_del: "pool_inv pp \<Longrightarrow> pool_inv (hash_del pp c)"
  using hash.keys_del[of pp c] hash.del_good[of pp c] by (auto simp: pool_inv_def)

lemma purge_iter_filter: "purge_iter p tnow pp = filter (\<lambda>e. \<not> conn_expired p tnow e) pp"
  by (induction p tnow pp rule: purge_iter.induct) auto

lemma pool_inv_filter: "pool_inv pp \<Longrightarrow> pool_inv (filter P pp)"
  using keys_filter[of P pp] by (auto simp: pool_inv_def table_ok_filter)

lemma feed_entry_cases:
  "feed_entry refs now pp c b dis = Some (pp', r) \<Longrightarrow>
   pp' = pp \<and> r = None \<or> r = Some (c, b) \<and> (\<exists>t. pp' = hash_set pp c t) \<and> c \<in> keys pp"
  by (auto simp: feed_entry_def hash_find_None[symmetric] split: option.splits bind_splits)

text \<open>Feeding changes a track in place, appends a new one and changes it, or does nothing.\<close>

lemma feed_pool_cases:
  assumes "ConntrackPoolFeedPool alloc refs now pp dis = Some (pp', r)"
    and e: "ConntrackExtractConn False dis = Some (ok, c)"
  shows "pp' = pp \<and> r = None
    \<or> ok \<and> c \<in> keys pp \<and> r = Some (c, False) \<and> (\<exists>t. pp' = hash_set pp c t)
    \<or> ok \<and> c \<notin> keys pp \<and> connswap c \<in> keys pp \<and> r = Some (connswap c, True) \<and> (\<exists>t. pp' = hash_set pp (connswap c) t)
    \<or> ok \<and> c \<notin> keys pp \<and> connswap c \<notin> keys pp \<and> (\<exists>b t0. (pp' = hash_add pp (if b then connswap c else c) t0 \<and> r = None)
        \<or> (r = Some (if b then connswap c else c, b) \<and>
            (\<exists>t. pp' = hash_set (hash_add pp (if b then connswap c else c) t0) (if b then connswap c else c) t)))"
proof -
  consider "\<not> ok" | "ok" "c \<in> keys pp" | "ok" "c \<notin> keys pp" "connswap c \<in> keys pp"
    | "ok" "c \<notin> keys pp" "connswap c \<notin> keys pp" by blast
  then show ?thesis
  proof cases
    case 1
    with assms show ?thesis by (simp add: ConntrackPoolFeedPool_def)
  next
    case 2
    then have "hash_find pp c \<noteq> None" by (simp add: hash_find_None)
    with assms 2 have "feed_entry refs now pp c False dis = Some (pp', r)"
      by (simp add: ConntrackPoolFeedPool_def)
    from feed_entry_cases[OF this] 2 show ?thesis by blast
  next
    case 3
    then have "hash_find pp c = None" "hash_find pp (connswap c) \<noteq> None" by (simp_all add: hash_find_None)
    with assms 3 have "feed_entry refs now pp (connswap c) True dis = Some (pp', r)"
      by (simp add: ConntrackPoolFeedPool_def)
    from feed_entry_cases[OF this] 3 show ?thesis by blast
  next
    case 4
    then have n: "hash_find pp c = None" "hash_find pp (connswap c) = None" by (simp_all add: hash_find_None)
    have "pp' = pp \<and> r = None
        \<or> feed_entry refs now (hash_add pp c (ConntrackInitTrack refs)) c False dis = Some (pp', r)
        \<or> feed_entry refs now (hash_add pp (connswap c) (ConntrackInitTrack refs)) (connswap c) True dis = Some (pp', r)"
      using assms 4 n
      by (auto simp: ConntrackPoolFeedPool_def ConntrackNew_def split: bind_splits if_splits)
    then have "\<exists>b. pp' = pp \<and> r = None \<or>
        feed_entry refs now (hash_add pp (if b then connswap c else c) (ConntrackInitTrack refs))
          (if b then connswap c else c) b dis = Some (pp', r)"
      by (auto intro: exI[of _ False] exI[of _ True])
    then obtain b where "pp' = pp \<and> r = None \<or>
        feed_entry refs now (hash_add pp (if b then connswap c else c) (ConntrackInitTrack refs))
          (if b then connswap c else c) b dis = Some (pp', r)" by blast
    then show ?thesis
    proof
      assume f: "feed_entry refs now (hash_add pp (if b then connswap c else c) (ConntrackInitTrack refs))
          (if b then connswap c else c) b dis = Some (pp', r)"
      from feed_entry_cases[OF this] 4 show ?thesis by blast
    qed blast
  qed
qed

lemma pool_inv_feed:
  assumes "pool_inv pp" and "ConntrackPoolFeedPool alloc refs now pp dis = Some (pp', r)"
  shows "pool_inv pp'"
proof -
  from assms(2) obtain ok c where e: "ConntrackExtractConn False dis = Some (ok, c)"
    by (auto simp: ConntrackPoolFeedPool_def split: bind_splits)
  have add: "pool_inv (hash_add pp c t0)" "pool_inv (hash_add pp (connswap c) t0)"
    if "c \<notin> keys pp" "connswap c \<notin> keys pp" for t0
    by (rule pool_inv_add[OF assms(1)]; use that in \<open>simp add: hash_find_None\<close>)+
  from feed_pool_cases[OF assms(2) e] show ?thesis
    by (elim disjE conjE exE) (auto intro: pool_inv_set add assms(1))
qed

lemma pool_inv_drop:
  assumes "pool_inv pp" and "ConntrackPoolDropPool pp dis = Some (pp', b)"
  shows "pool_inv pp'"
  using assms pool_inv_del[OF assms(1)] by (auto simp: ConntrackPoolDropPool_def split: bind_splits if_splits)

text \<open>The life of a pool: packets, dropped connections, purges, and tracks changed in place by the desync code.\<close>

inductive pool_step :: "pool \<Rightarrow> pool \<Rightarrow> bool" where
  feed: "ConntrackPoolFeedPool alloc refs now pp dis = Some (pp', r) \<Longrightarrow> pool_step pp pp'"
| drop: "ConntrackPoolDropPool pp dis = Some (pp', b) \<Longrightarrow> pool_step pp pp'"
| purge: "pool_step pp (purge_iter p tnow pp)"
| change: "pool_step pp (hash_set pp c t)"

inductive_cases pool_step_cases: "pool_step pp pp'"

lemma pool_step_inv: "pool_step pp pp' \<Longrightarrow> pool_inv pp \<Longrightarrow> pool_inv pp'"
  by (induction rule: pool_step.induct)
     (use pool_inv_feed pool_inv_drop pool_inv_filter purge_iter_filter pool_inv_set in metis)+

lemma pool_reachable_inv: "pool_step\<^sup>*\<^sup>* pp pp' \<Longrightarrow> pool_inv pp \<Longrightarrow> pool_inv pp'"
  by (induction rule: rtranclp_induct) (auto dest: pool_step_inv)

lemma pool_inv_empty: "pool_inv []"
  by (simp add: pool_inv_def table_ok_def keys_def)

lemma search_after_feed:
  assumes inv: "pool_inv pp" and f: "ConntrackPoolFeedPool alloc refs now pp dis = Some (pp', Some (k, bk))"
    and e: "ConntrackExtractConn False dis = Some (ok, c)" and ns: "connswap c \<noteq> c"
  shows "ConntrackPoolDoubleSearchPool pp' dis = Some (Some (k, bk)) \<and> k = (if bk then connswap c else c)"
proof -
  have ks: "keys (hash_add pp x t) = insert x (keys pp)" if "x \<notin> keys pp" for x t
    using hash.keys_add[of pp x t] that by (simp add: hash_find_None)
  have s: "ConntrackPoolDoubleSearchPool pp' dis = Some (if \<not> ok then None
       else if c \<in> keys pp' then Some (c, False)
       else if connswap c \<in> keys pp' then Some (connswap c, True) else None)"
    using e by (simp add: ConntrackPoolDoubleSearchPool_def hash_find_None)
  from feed_pool_cases[OF f e] show ?thesis
    unfolding s using ns by (auto simp: keys_hash_set ks split: if_splits)
qed

lemma search_after_drop:
  assumes inv: "pool_inv pp" and f: "ConntrackPoolDropPool pp dis = Some (pp', b)"
  shows "ConntrackPoolDoubleSearchPool pp' dis = Some None"
proof -
  from f obtain ok c where e: "ConntrackExtractConn False dis = Some (ok, c)"
    by (auto simp: ConntrackPoolDropPool_def split: bind_splits)
  have s: "ConntrackPoolDoubleSearchPool pp' dis = Some (if \<not> ok then None
       else if c \<in> keys pp' then Some (c, False)
       else if connswap c \<in> keys pp' then Some (connswap c, True) else None)"
    using e by (simp add: ConntrackPoolDoubleSearchPool_def hash_find_None)
  have d: "keys (hash_del pp x) = keys pp - {x}" for x
    using inv hash.keys_del[of pp x] by (simp add: pool_inv_def)
  show ?thesis
    unfolding s using f e inv d
    by (auto simp: ConntrackPoolDropPool_def hash_find_None pool_inv_def split: if_splits)
qed
subsection \<open>The TCP state machine\<close>

lemma pntoh32_in: "p + 4 \<le> length d \<Longrightarrow> \<exists>v. pntoh32 d p = Some v"
  using be32.get_Some_iff by blast

lemma tcp_find_safe:
  assumes "tcp + 20 \<le> length d" and "tcp + 4 * unat (drop_bit 4 (d ! (tcp + 12))) \<le> length d"
  shows "\<exists>s. tcp_find_scale_factor d tcp = Some s" and "\<exists>m. tcp_find_mss d tcp = Some m"
proof -
  from tcp_find_option_ok[OF assms, of TCP_KIND_SCALE] obtain r where
    r: "tcp_find_option d tcp TCP_KIND_SCALE = Some r" and
    b: "case r of None \<Rightarrow> True | Some q \<Rightarrow> tcp + 20 \<le> q \<and> d ! q = TCP_KIND_SCALE \<and> 2 \<le> unat (d ! (q + 1))
          \<and> q + unat (d ! (q + 1)) \<le> tcp + 4 * unat (drop_bit 4 (d ! (tcp + 12)))" by blast
  show "\<exists>s. tcp_find_scale_factor d tcp = Some s"
  proof (cases r)
    case (Some q)
    with b assms have "q + unat (d ! (q + 1)) \<le> length d" "2 \<le> unat (d ! (q + 1))" by auto
    then have "rd d (q + 1) = Some (d ! (q + 1))" "d ! (q + 1) = 3 \<Longrightarrow> rd d (q + 2) = Some (d ! (q + 2))"
      by (auto simp: rd_def)
    with r Some show ?thesis by (simp add: tcp_find_scale_factor_def)
  qed (use r in \<open>simp add: tcp_find_scale_factor_def\<close>)
next
  from tcp_find_option_ok[OF assms, of TCP_KIND_MSS] obtain r where
    r: "tcp_find_option d tcp TCP_KIND_MSS = Some r" and
    b: "case r of None \<Rightarrow> True | Some q \<Rightarrow> tcp + 20 \<le> q \<and> d ! q = TCP_KIND_MSS \<and> 2 \<le> unat (d ! (q + 1))
          \<and> q + unat (d ! (q + 1)) \<le> tcp + 4 * unat (drop_bit 4 (d ! (tcp + 12)))" by blast
  show "\<exists>m. tcp_find_mss d tcp = Some m"
  proof (cases r)
    case (Some q)
    with b assms have q: "q + unat (d ! (q + 1)) \<le> length d" "2 \<le> unat (d ! (q + 1))" by auto
    then have "rd d (q + 1) = Some (d ! (q + 1))" by (auto simp: rd_def)
    moreover have "\<exists>m. pntoh16 d (q + 2) = Some m" if "d ! (q + 1) = 4"
      by (rule pntoh16_in) (use q that in simp)
    ultimately show ?thesis using r Some by (auto simp: tcp_find_mss_def)
  qed (use r in \<open>simp add: tcp_find_mss_def\<close>)
qed

text \<open>A complete TCP header at \<open>tcp\<close>, behind a complete IPv6 header if there is one.\<close>

definition tcp_ok :: "dissect \<Rightarrow> nat \<Rightarrow> bool" where
  "tcp_ok dis tcp \<longleftrightarrow> d_tcp dis = Some tcp \<and> tcp + 20 \<le> length (data_pkt dis)
     \<and> tcp + 4 * unat (drop_bit 4 (data_pkt dis ! (tcp + 12))) \<le> length (data_pkt dis)
     \<and> (\<forall>i. d_ip6 dis = Some i \<longrightarrow> i + 4 \<le> length (data_pkt dis))"

lemma dissect_tcp_ok: "dissect_ok len dis \<Longrightarrow> d_tcp dis = Some tcp \<Longrightarrow> tcp_ok dis tcp"
  by (auto simp: dissect_ok_def tcp_ok_def split: option.splits)

lemma put_dirs_state [simp]: "t_state (put_dirs b p x y) = t_state p" "ipproto (put_dirs b p x y) = ipproto p"
  by (simp_all add: put_dirs_def)

lemma pcounter_over_2G [simp]: "pcounter (over_2G q) = pcounter q"
  by (simp add: over_2G_def)

lemma ApplyPos_ok:
  assumes "tcp_ok dis tcp" and "t_state p = SYN \<or> unat (t_scale (direct_of b p)) < 32"
  shows "\<exists>p'. ConntrackApplyPos p b dis tcp = Some p' \<and> t_state p' = t_state p
     \<and> (\<forall>x. pcounter (direct_of x p') = pcounter (direct_of x p))"
proof -
  let ?d = "data_pkt dis"
  have l: "tcp + 20 \<le> length ?d" "tcp + 4 * unat (drop_bit 4 (?d ! (tcp + 12))) \<le> length ?d"
    using assms(1) by (simp_all add: tcp_ok_def)
  obtain win sq ack where w: "pntoh16 ?d (tcp + 14) = Some win" "pntoh32 ?d (tcp + 4) = Some sq"
    "pntoh32 ?d (tcp + 8) = Some ack"
    using pntoh16_in[of "tcp + 14" ?d] pntoh32_in[of "tcp + 4" ?d] pntoh32_in[of "tcp + 8" ?d] l by auto
  obtain s m where sm: "tcp_find_scale_factor ?d tcp = Some s" "tcp_find_mss ?d tcp = Some m"
    using tcp_find_safe[OF l] by blast
  have "\<exists>f. pntoh32 ?d i = Some f" if "d_ip6 dis = Some i" for i
    using that assms(1) pntoh32_in by (simp add: tcp_ok_def)
  then obtain dir where dir: "(case d_ip6 dis of None \<Rightarrow> Some (direct_of b p)
      | Some i \<Rightarrow> map_option (\<lambda>f. (direct_of b p)\<lparr>ip6flow := f\<rparr>) (pntoh32 ?d i)) = Some dir"
    and sc: "t_scale dir = t_scale (direct_of b p)" "pcounter dir = pcounter (direct_of b p)"
    by (cases "d_ip6 dis") auto
  have "\<exists>u v. ConntrackApplyPos p b dis tcp = Some (put_dirs b p u v)
      \<and> pcounter u = pcounter (direct_of b p) \<and> pcounter v = pcounter (direct_of (\<not> b) p)"
  proof (cases "t_state p = SYN")
    case True
    show ?thesis
      unfolding ConntrackApplyPos_def Let_def dir w sm
      by (simp add: w sm True) (intro conjI impI; intro exI conjI, rule refl; simp add: sc)
  next
    case False
    then have "\<not> 32 \<le> unat (t_scale dir)" using sc assms(2) by simp
    then show ?thesis
      unfolding ConntrackApplyPos_def Let_def dir w sm
      by (simp add: w sm False) (intro conjI impI; intro exI conjI, rule refl; simp add: sc)
  qed
  then show ?thesis by (auto simp: put_dirs_def direct_of_def)
qed

lemma ApplyPos_undefined:
  assumes "tcp_ok dis tcp" and "t_state p \<noteq> SYN" and "unat (t_scale (direct_of b p)) \<ge> 32"
  shows "ConntrackApplyPos p b dis tcp = None"
  using assms(2,3) by (auto simp: ConntrackApplyPos_def Let_def split: option.splits bind_splits)

definition seg_syn :: "u8 \<Rightarrow> bool" where
  "seg_syn f \<longleftrightarrow> f AND 0x3F = TH_SYN"

definition seg_synack :: "u8 \<Rightarrow> bool" where
  "seg_synack f \<longleftrightarrow> f AND 0x3F = TH_ACK OR TH_SYN"

lemma flags_mask: "TH_URG OR TH_ACK OR TH_PUSH OR TH_RST OR TH_SYN OR TH_FIN = 0x3F"
  by (simp add: TH_URG_def TH_ACK_def TH_PUSH_def TH_RST_def TH_SYN_def TH_FIN_def)

text \<open>
  The state after a segment with flags \<open>f\<close>: a SYN starts the connection anew, a SYN/ACK does so if it
  answers another SYN, FIN and RST finish it, and any other segment establishes it.
\<close>

definition state_after :: "connstate \<Rightarrow> u8 \<Rightarrow> bool \<Rightarrow> connstate" where
  "state_after st f other =
     (if seg_syn f then SYN
      else if seg_synack f then (if other then SYN else st)
      else if f AND (TH_FIN OR TH_RST) \<noteq> 0 then FIN
      else if st = SYN then ESTABLISHED else st)"

text \<open>When a segment erases the track.\<close>

definition restarts :: "connstate \<Rightarrow> u8 \<Rightarrow> bool \<Rightarrow> bool" where
  "restarts st f other \<longleftrightarrow> st \<noteq> SYN \<and> (seg_syn f \<or> seg_synack f \<and> other)"

lemma init_track_pos: "pos (ConntrackInitTrack refs) = positions_null"
  "pos (ConntrackReInitTrack refs t) = positions_null"
  by (simp_all add: ConntrackInitTrack_def ConntrackReInitTrack_def Let_def)

lemma tcp_state_step_ok:
  fixes t :: ctrack and dis :: dissect and tcp :: nat
  assumes "tcp_ok dis tcp"
  defines "f \<equiv> data_pkt dis ! (tcp + 13)"
    and "other \<equiv> seq0 (client (pos t)) \<noteq> the (pntoh32 (data_pkt dis) (tcp + 8)) - 1"
  shows "\<exists>t'. tcp_state_step refs t b dis tcp = Some t'
     \<and> t_state (pos t') = state_after (t_state (pos t)) f other
     \<and> (\<forall>x. pcounter (direct_of x (pos t')) = (if restarts (t_state (pos t)) f other then 0
           else pcounter (direct_of x (pos t))))
     \<and> (\<forall>x. t_scale (direct_of x (pos t')) = (if restarts (t_state (pos t)) f other then 0
           else t_scale (direct_of x (pos t))))"
proof -
  let ?d = "data_pkt dis"
  have l: "tcp + 20 \<le> length ?d" using assms by (simp add: tcp_ok_def)
  obtain sq ack where w: "pntoh32 ?d (tcp + 4) = Some sq" "pntoh32 ?d (tcp + 8) = Some ack"
    using pntoh32_in[of "tcp + 4" ?d] pntoh32_in[of "tcp + 8" ?d] l by auto
  have fl: "th_flags ?d tcp = Some f" using l by (simp add: th_flags_def f_def)
  have ex: "seg_syn f \<Longrightarrow> \<not> seg_synack f"
    by (auto simp: seg_syn_def seg_synack_def TH_SYN_def TH_ACK_def)
  have sg: "tcp_syn_segment ?d tcp = Some (seg_syn f)" "tcp_synack_segment ?d tcp = Some (seg_synack f)"
    using fl by (simp_all add: tcp_syn_segment_def tcp_synack_segment_def flags_mask seg_syn_def seg_synack_def)
  note S = tcp_state_step_def Let_def w fl sg state_after_def restarts_def
  consider "seg_syn f" | "\<not> seg_syn f" "seg_synack f" | "\<not> seg_syn f" "\<not> seg_synack f" by blast
  then show ?thesis
  proof cases
    case 1
    then show ?thesis
      by (cases "t_state (pos t) = SYN")
         (simp_all add: S init_track_pos positions_null_def direct_of_def position_null_def)
  next
    case 2
    then show ?thesis
      by (cases "t_state (pos t) = SYN"; cases other)
         (simp_all add: S init_track_pos positions_null_def direct_of_def position_null_def other_def)
  next
    case 3
    then show ?thesis by (simp add: S direct_of_def)
  qed
qed


lemma FeedPacket_ok:
  fixes t :: ctrack and dis :: dissect and tcp :: nat
  assumes ok: "tcp_ok dis tcp"
    and sc: "unat (t_scale (client (pos t))) < 32" "unat (t_scale (server (pos t))) < 32"
  defines "f \<equiv> data_pkt dis ! (tcp + 13)"
    and "other \<equiv> seq0 (client (pos t)) \<noteq> the (pntoh32 (data_pkt dis) (tcp + 8)) - 1"
  shows "\<exists>t'. ConntrackFeedPacket refs now t b dis = Some t'
     \<and> t_state (pos t') = state_after (t_state (pos t)) f other
     \<and> pcounter (direct_of b (pos t')) = (if restarts (t_state (pos t)) f other then 0
           else pcounter (direct_of b (pos t)) + 1)"
proof -
  define t1 where "t1 = t\<lparr>pos := (if b then (pos t)\<lparr>server := count_packet (len_payload dis) (server (pos t))\<rparr>
               else (pos t)\<lparr>client := count_packet (len_payload dis) (client (pos t))\<rparr>)\<rparr>"
  have p1: "t_state (pos t1) = t_state (pos t)" "seq0 (client (pos t1)) = seq0 (client (pos t))"
    "pcounter (direct_of b (pos t1)) = pcounter (direct_of b (pos t)) + 1"
    "t_scale (direct_of x (pos t1)) = t_scale (direct_of x (pos t))" for x
    by (simp_all add: t1_def count_packet_def direct_of_def)
  have tcp: "d_tcp dis = Some tcp" using ok by (simp add: tcp_ok_def)
  from tcp_state_step_ok[OF ok, of refs t1 b] obtain t2 where
    t2: "tcp_state_step refs t1 b dis tcp = Some t2"
    and s2: "t_state (pos t2) = state_after (t_state (pos t)) f other"
    and n2: "pcounter (direct_of b (pos t2)) = (if restarts (t_state (pos t)) f other then 0
           else pcounter (direct_of b (pos t)) + 1)"
    and k2: "t_scale (direct_of b (pos t2)) = (if restarts (t_state (pos t)) f other then 0
           else t_scale (direct_of b (pos t)))"
    unfolding p1 f_def other_def by (auto simp: p1(3))
  have "unat (t_scale (direct_of b (pos t2))) < 32" using k2 sc by (auto simp: direct_of_def)
  then obtain p where p: "ConntrackApplyPos (pos t2) b dis tcp = Some p" "t_state p = t_state (pos t2)"
    "pcounter (direct_of b p) = pcounter (direct_of b (pos t2))"
    using ApplyPos_ok[OF ok, of "pos t2" b] by blast
  show ?thesis
    using tcp t2 p s2 n2
    by (auto simp: ConntrackFeedPacket_def t1_def[symmetric] Let_def direct_of_def)
qed
subsection \<open>The promises of the connection tracker\<close>

text \<open>C14: Reassembly refines the stream. Whatever segments of a stream a reassembler is fed, in order,
  repeated, overlapping or out of order, the bytes it holds are a prefix of the stream, its expected sequence
  number is the one behind that prefix, and a full reassembler holds exactly the message.\<close>

theorem reasm_run_prefix:
  assumes "reasm_run S s0 sz r"
  shows "r_present r \<le> sz \<and> take (r_present r) (r_packet r) = map S [0..<r_present r]
    \<and> r_seq r = s0 + of_nat (r_present r) \<and> (ReasmIsFull r \<longrightarrow> r_packet r = map S [0..<sz])"
proof -
  have ok: "reasm_ok S s0 r" and sz: "r_size r = sz" using reasm_run_ok[OF assms] by auto
  have pre: "take (r_present r) (r_packet r) = map S [0..<r_present r]"
    using ok by (intro nth_equalityI) (auto simp: reasm_ok_def)
  have "r_packet r = map S [0..<sz]" if "ReasmIsFull r"
  proof -
    have "length (r_packet r) = sz" "r_present r = sz"
      using that ok sz by (simp_all add: ReasmIsFull_def reasm_ok_def)
    with pre show ?thesis by simp
  qed
  with ok pre sz show ?thesis by (simp add: reasm_ok_def)
qed

lemma reasm_run_prefix_witness:
  "\<exists>r. reasm_run (\<lambda>i. of_nat (i + 1)) 100 3 r \<and> r_present r = 2 \<and> take 2 (r_packet r) = [1, 2]"
proof -
  define r0 :: reasm where "r0 = \<lparr>r_packet = replicate 3 0, r_seq = 100, r_size = 3, r_present = 0\<rparr>"
  have r0: "ReasmInit True 0 reasm_null 3 100 = (True, r0)"
    by (simp add: ReasmInit_def reasm_null_def r0_def)
  have f: "r_size r0 = 3" "r_seq r0 = 100" "r_present r0 = 0" "r_packet r0 = replicate 3 0"
    by (simp_all add: r0_def)
  have run0: "reasm_run (\<lambda>i. of_nat (i + 1)) 100 3 r0" by (rule reasm_run.start[OF r0])
  obtain r1 where r1: "ReasmFeed r0 100 [1, 2] 2 = Some (True, r1)" "r_present r1 = 2"
    using f by (simp add: ReasmFeed_def REASM_MAX_NEG_def Let_def wr_block_def)
  have "agrees (\<lambda>i. of_nat (i + 1)) r0 100 [1, 2] 2"
    using f by (simp add: agrees_def less_Suc_eq numeral_eq_Suc)
  from reasm_run.feed[OF run0 this r1(1)] have run1: "reasm_run (\<lambda>i. of_nat (i + 1)) 100 3 r1" .
  have "take 2 (r_packet r1) = [1, 2]"
    using reasm_run_prefix[OF run1] r1(2) by (simp add: upt_0_numeral)
  with run1 r1(2) show ?thesis by blast
qed

text \<open>A segment that arrives in order and fits is always accepted and extends the prefix by its length.\<close>

theorem ReasmFeed_progress:
  assumes "reasm_ok S s0 r" and "length payload = len" and "r_present r + len \<le> r_size r"
  shows "\<exists>r'. ReasmFeed r (r_seq r) payload len = Some (True, r') \<and> r_present r' = r_present r + len"
  using ReasmFeed_in_order[OF assms] .

lemma ReasmFeed_progress_witness:
  "\<exists>r'. ReasmFeed \<lparr>r_packet = [5, 0, 0], r_seq = 8, r_size = 3, r_present = 1\<rparr> 8 [9, 9] 2 = Some (True, r')
     \<and> r_present r' = 3"
  using ReasmFeed_progress[of "\<lambda>i. 5" 7 "\<lparr>r_packet = [5, 0, 0], r_seq = 8, r_size = 3, r_present = 1\<rparr>" "[9, 9]" 2]
  by (simp add: reasm_ok_def eval_nat_numeral)

text \<open>Shrinking a reassembler below what it holds cuts the data but not the expected sequence number, so that
  the next segment of the stream is stored behind a hole in the stream.\<close>

theorem ReasmResize_breaks_seq:
  "ReasmResize True 0 \<lparr>r_packet = [1, 2, 3], r_seq = 103, r_size = 4, r_present = 3\<rparr> 2
     = (True, \<lparr>r_packet = [1, 2], r_seq = 103, r_size = 2, r_present = 2\<rparr>)
   \<and> \<not> reasm_ok (\<lambda>i. of_nat (i + 1)) 100 \<lparr>r_packet = [1, 2], r_seq = 103, r_size = 2, r_present = 2\<rparr>"
  by (simp add: ReasmResize_def reasm_ok_def)

text \<open>C15: In every reachable pool each connection is stored once and only in one of its two directions.\<close>

theorem pool_reachable_unique:
  assumes "pool_step\<^sup>*\<^sup>* [] pp"
  shows "distinct (map fst pp)
    \<and> (\<forall>c \<in> keys pp. connswap c \<in> keys pp \<longrightarrow> connswap c = c)"
  using pool_reachable_inv[OF assms pool_inv_empty] by (simp add: pool_inv_def table_ok_def)

definition udp_dis :: dissect where
  "udp_dis = (dissect_init ([0x45,0,0,29, 0,0,0,0, 64,17,0,0, 10,0,0,1, 10,0,0,2, 4,0,0,53, 0,9,0,0, 77]) 29)
     \<lparr>d_ip := Some 0, len_l3 := 20, d_proto := IPPROTO_UDP, d_udp := Some 20, len_l4 := 8, transport_len := 9,
      data_payload := Some 28, len_payload := 1\<rparr>"

definition udp_conn :: conn where
  "udp_conn = \<lparr>c_src = [10,0,0,1] @ replicate 12 0, c_dst = [10,0,0,2] @ replicate 12 0, c_sport = 1024, c_dport = 53,
     c_l3proto = IPPROTO_IP, c_l4proto = IPPROTO_UDP\<rparr>"

lemma udp_extract: "ConntrackExtractConn False udp_dis = Some (True, udp_conn)"
  by (simp add: ConntrackExtractConn_def udp_dis_def dissect_init_def udp_conn_def extract_ports_def pntoh16_def
      IPPROTO_UDP_def IPPROTO_NONE_def Let_def)

lemma udp_feed: "\<exists>pp. ConntrackPoolFeedPool True (1, 2) 10 [] udp_dis = Some (pp, Some (udp_conn, False))"
proof -
  have d: "d_tcp udp_dis = None" "d_udp udp_dis = Some 20" by (simp_all add: udp_dis_def dissect_init_def)
  show ?thesis
    unfolding ConntrackPoolFeedPool_def udp_extract
    by (simp add: d ConntrackNew_def hash_add_def feed_entry_def ConntrackFeedPacket_def Let_def)
qed

lemma pool_reachable_unique_witness:
  "\<exists>pp t. pool_step\<^sup>*\<^sup>* [] pp \<and> ConntrackPoolFeedPool True (1, 2) 10 [] udp_dis = Some (pp, t) \<and> distinct (map fst pp)"
proof -
  obtain pp where f: "ConntrackPoolFeedPool True (1, 2) 10 [] udp_dis = Some (pp, Some (udp_conn, False))"
    using udp_feed by blast
  then have "pool_step\<^sup>*\<^sup>* [] pp" by (blast intro: pool_step.feed)
  with f pool_reachable_unique[OF this] show ?thesis by blast
qed

text \<open>A packet that has been fed is found: the double search returns the entry and the direction that
  ConntrackPoolFeed answered, for every packet whose two endpoints differ.\<close>

theorem ConntrackPoolFeed_found:
  assumes "pool_inv pp" and "ConntrackPoolFeedPool alloc refs now pp dis = Some (pp', Some (k, bk))"
    and "ConntrackExtractConn False dis = Some (ok, c)" and "connswap c \<noteq> c"
  shows "ConntrackPoolDoubleSearchPool pp' dis = Some (Some (k, bk)) \<and> k = (if bk then connswap c else c)"
  using search_after_feed[OF assms] .

lemma ConntrackPoolFeed_found_witness:
  "\<exists>pp. ConntrackPoolDoubleSearchPool pp udp_dis = Some (Some (udp_conn, False))"
proof -
  obtain pp where f: "ConntrackPoolFeedPool True (1, 2) 10 [] udp_dis = Some (pp, Some (udp_conn, False))"
    using udp_feed by blast
  have "connswap udp_conn \<noteq> udp_conn" by (simp add: connswap_def udp_conn_def)
  from ConntrackPoolFeed_found[OF pool_inv_empty f udp_extract this] show ?thesis by blast
qed

text \<open>A connection that has been dropped is gone in both directions.\<close>

theorem ConntrackPoolDrop_gone:
  assumes "pool_inv pp" and "ConntrackPoolDropPool pp dis = Some (pp', b)"
  shows "ConntrackPoolDoubleSearchPool pp' dis = Some None"
  using search_after_drop[OF assms] .

lemma ConntrackPoolDrop_gone_witness:
  "ConntrackPoolDoubleSearchPool [] udp_dis = Some None"
proof -
  have i: "pool_inv [(udp_conn, ConntrackInitTrack (1, 2))]" 
    by (simp add: pool_inv_def table_ok_def keys_def connswap_def udp_conn_def)
  have "ConntrackPoolDropPool [(udp_conn, ConntrackInitTrack (1, 2))] udp_dis = Some ([], True)"
    by (simp add: ConntrackPoolDropPool_def udp_extract)
  from ConntrackPoolDrop_gone[OF i this] show ?thesis .
qed

text \<open>The idle time after which a connection expires, in the states that have one.\<close>

definition conn_timeout :: "conntrack \<Rightarrow> conn \<Rightarrow> ctrack \<Rightarrow> int option" where
  "conn_timeout p c t =
     (if c_l4proto c = IPPROTO_TCP then Some (uint (case t_state (pos t) of
         SYN \<Rightarrow> timeout_syn p | ESTABLISHED \<Rightarrow> timeout_established p | FIN \<Rightarrow> timeout_fin p))
      else if c_l4proto c = IPPROTO_UDP then Some (uint (timeout_udp p)) else None)"

text \<open>
  The life of the tracker on a clock that does not go back: purges, packets, dropped connections, and connections whose
  other fields change.
\<close>

inductive ct_run :: "int \<Rightarrow> conntrack \<Rightarrow> bool" where
  init: "0 \<le> interval \<Longrightarrow> 0 < ts \<Longrightarrow> 0 < te \<Longrightarrow> 0 < tf \<Longrightarrow> 0 < tu \<Longrightarrow> ct_run now (ConntrackPoolInit now interval ts te tf tu)"
| purge: "ct_run now p \<Longrightarrow> now \<le> tnow \<Longrightarrow> ct_run tnow (ConntrackPoolPurge tnow p)"
| feed: "ct_run now p \<Longrightarrow> now \<le> tnow \<Longrightarrow> ConntrackPoolFeed alloc refs tnow p dis = Some (p', r) \<Longrightarrow> ct_run tnow p'"
| drop: "ct_run now p \<Longrightarrow> ConntrackPoolDrop p dis = Some (p', b) \<Longrightarrow> ct_run now p'"
| change: "ct_run now p \<Longrightarrow> hash_find (ct_pool p) c = Some t \<Longrightarrow> pos t' = pos t \<Longrightarrow> ct_run now (p\<lparr>ct_pool := hash_set (ct_pool p) c t'\<rparr>)"

text \<open>At the last purge no connection was at its timeout, and the clock has not been behind that purge.\<close>

definition ct_fresh :: "int \<Rightarrow> conntrack \<Rightarrow> bool" where
  "ct_fresh now p \<longleftrightarrow> 0 \<le> t_purge_interval p \<and> 0 < timeout_syn p \<and> 0 < timeout_established p \<and> 0 < timeout_fin p \<and> 0 < timeout_udp p
     \<and> t_last_purge p \<le> now
     \<and> (\<forall>c t k. (c, t) \<in> set (ct_pool p) \<longrightarrow> conn_timeout p c t = Some k \<longrightarrow> t_last_purge p - t_last (pos t) < k)"

lemma conn_timeout_kept [simp]:
  "conn_timeout (p\<lparr>ct_pool := pp\<rparr>) c t = conn_timeout p c t" "conn_timeout (ConntrackPoolPurge tnow p) c t = conn_timeout p c t"
proof -
  show "conn_timeout (p\<lparr>ct_pool := pp\<rparr>) c t = conn_timeout p c t" by (cases "t_state (pos t)") (simp_all add: conn_timeout_def)
  show "conn_timeout (ConntrackPoolPurge tnow p) c t = conn_timeout p c t"
    by (cases "t_state (pos t)") (simp_all add: conn_timeout_def ConntrackPoolPurge_def)
qed

lemma conn_timeout_pos_only: "pos t = pos u \<Longrightarrow> conn_timeout p c t = conn_timeout p c u"
  by (simp add: conn_timeout_def)

lemma conn_timeout_pos: "ct_fresh now p \<Longrightarrow> conn_timeout p c t = Some k \<Longrightarrow> 0 < k"
  by (auto simp: ct_fresh_def conn_timeout_def word_less_def split: connstate.splits if_splits)

lemma not_expired: "\<not> conn_expired p tnow (c, t) \<Longrightarrow> conn_timeout p c t = Some k \<Longrightarrow> tnow - t_last (pos t) < k"
  by (auto simp: conn_expired_def conn_timeout_def Let_def IPPROTO_TCP_def IPPROTO_UDP_def split: connstate.splits if_splits)

lemma in_hash_set: "e \<in> set (hash_set t k v) \<Longrightarrow> e \<in> set t \<or> e = (k, v)"
  by (induction t k v rule: hash_set.induct) (auto split: if_splits)

lemma set_added: "k \<notin> keys t \<Longrightarrow> hash_set (hash_add t k v0) k v = hash_add t k v"
  by (induction t k v rule: hash_set.induct) (auto simp: hash_add_def keys_def)

lemma in_hash_del: "e \<in> set (hash_del t k) \<Longrightarrow> e \<in> set t"
  by (induction t k rule: hash_del.induct) (auto split: if_splits)

lemma FeedPacket_time: "ConntrackFeedPacket refs now t b dis = Some t' \<Longrightarrow> t_last (pos t') = now"
  by (auto simp: ConntrackFeedPacket_def Let_def split: bind_splits option.splits if_splits)

lemma feed_entry_time:
  "feed_entry refs now pp c b dis = Some (pp', r) \<Longrightarrow> hash_find pp c \<noteq> None \<Longrightarrow> \<exists>t. pp' = hash_set pp c t \<and> t_last (pos t) = now"
  by (auto simp: feed_entry_def dest!: FeedPacket_time split: option.splits bind_splits)

lemma feed_pool_time:
  assumes "ConntrackPoolFeedPool alloc refs now pp dis = Some (pp', r)" and "(c, t) \<in> set pp'"
  shows "(c, t) \<in> set pp \<or> t_last (pos t) = now"
proof -
  have old: "(c, t) \<in> set pp \<or> t_last (pos t) = now" if "feed_entry refs now pp k b dis = Some (pp', r)" "hash_find pp k \<noteq> None" for k b
    using feed_entry_time[OF that] assms(2) by (auto dest: in_hash_set)
  have new: "(c, t) \<in> set pp \<or> t_last (pos t) = now"
    if "ConntrackNew alloc refs pp k = Some pp1" "feed_entry refs now pp1 k b dis = Some (pp', r)" "hash_find pp k = None" for k b pp1
  proof -
    have p: "pp1 = hash_add pp k (ConntrackInitTrack refs)" using that(1) by (simp add: ConntrackNew_def split: if_splits)
    have "hash_find pp1 k \<noteq> None" by (simp add: p hash_find_None hash_add_def keys_def)
    from feed_entry_time[OF that(2) this] obtain u where "pp' = hash_set pp1 k u" "t_last (pos u) = now" by blast
    then show ?thesis using assms(2) set_added[of k pp] that(3) by (auto simp: p hash_find_None hash_add_def)
  qed
  obtain ok k where e: "ConntrackExtractConn False dis = Some (ok, k)"
    using assms(1) by (auto simp: ConntrackPoolFeedPool_def split: bind_splits)
  consider "pp' = pp" | b where "feed_entry refs now pp k b dis = Some (pp', r)" "hash_find pp k \<noteq> None"
    | b where "feed_entry refs now pp (connswap k) b dis = Some (pp', r)" "hash_find pp (connswap k) \<noteq> None"
    | b pp1 where "ConntrackNew alloc refs pp k = Some pp1" "feed_entry refs now pp1 k b dis = Some (pp', r)" "hash_find pp k = None"
    | b pp1 where "ConntrackNew alloc refs pp (connswap k) = Some pp1" "feed_entry refs now pp1 (connswap k) b dis = Some (pp', r)"
        "hash_find pp (connswap k) = None"
    using assms(1) e by (auto simp: ConntrackPoolFeedPool_def split: bind_splits if_splits option.splits)
  then show ?thesis using old new assms(2) by cases blast+
qed

lemma ct_fresh_purge: "ct_fresh now p \<Longrightarrow> now \<le> tnow \<Longrightarrow> ct_fresh tnow (ConntrackPoolPurge tnow p)"
proof -
  assume fr: "ct_fresh now p" and le: "now \<le> tnow"
  have "t_last_purge (ConntrackPoolPurge tnow p) - t_last (pos t) < k"
    if "(c, t) \<in> set (ct_pool (ConntrackPoolPurge tnow p))" "conn_timeout p c t = Some k" for c t k
    using that fr not_expired[OF _ that(2), of tnow] by (auto simp: ConntrackPoolPurge_def purge_iter_filter ct_fresh_def split: if_splits)
  moreover have "t_last_purge (ConntrackPoolPurge tnow p) \<le> tnow" using fr le by (simp add: ConntrackPoolPurge_def ct_fresh_def)
  moreover have "timeout_syn (ConntrackPoolPurge tnow p) = timeout_syn p" "timeout_fin (ConntrackPoolPurge tnow p) = timeout_fin p"
    "timeout_established (ConntrackPoolPurge tnow p) = timeout_established p" "timeout_udp (ConntrackPoolPurge tnow p) = timeout_udp p"
    "t_purge_interval (ConntrackPoolPurge tnow p) = t_purge_interval p"
    by (simp_all add: ConntrackPoolPurge_def)
  ultimately show "ct_fresh tnow (ConntrackPoolPurge tnow p)" using fr by (simp add: ct_fresh_def)
qed

lemma ct_fresh_pool:
  assumes "ct_fresh now p" and "now \<le> tnow" and "\<And>c t. (c, t) \<in> set pp \<Longrightarrow> (c, t) \<in> set (ct_pool p) \<or> t_last (pos t) = tnow
      \<or> (\<exists>u. (c, u) \<in> set (ct_pool p) \<and> pos t = pos u)"
  shows "ct_fresh tnow (p\<lparr>ct_pool := pp\<rparr>)"
proof -
  have "t_last_purge p - t_last (pos t) < k" if m: "(c, t) \<in> set pp" and k: "conn_timeout p c t = Some k" for c t k
  proof -
    consider "(c, t) \<in> set (ct_pool p)" | "t_last (pos t) = tnow" | u where "(c, u) \<in> set (ct_pool p)" "pos t = pos u"
      using assms(3)[OF m] by blast
    then show ?thesis
    proof cases
      case 2
      then show ?thesis using assms(1,2) conn_timeout_pos[OF assms(1) k] by (simp add: ct_fresh_def)
    next
      case (3 u)
      then have "conn_timeout p c u = Some k" using k conn_timeout_pos_only by metis
      then show ?thesis using 3 assms(1) by (simp add: ct_fresh_def)
    qed (use assms(1) k in \<open>simp add: ct_fresh_def\<close>)
  qed
  with assms(1,2) show ?thesis by (simp add: ct_fresh_def)
qed

lemma drop_pool_sub: "ConntrackPoolDropPool pp dis = Some (pp', b) \<Longrightarrow> set pp' \<subseteq> set pp"
  by (auto simp: ConntrackPoolDropPool_def dest: in_hash_del split: bind_splits if_splits)

lemma ct_run_fresh: "ct_run now p \<Longrightarrow> ct_fresh now p"
proof (induction rule: ct_run.induct)
  case (init interval ts te tf tu now)
  then show ?case by (simp add: ct_fresh_def ConntrackPoolInit_def)
next
  case (purge now p tnow)
  then show ?case by (simp add: ct_fresh_purge)
next
  case (feed now p tnow alloc refs dis p' r)
  then obtain pp where "ConntrackPoolFeedPool alloc refs tnow (ct_pool p) dis = Some (pp, r)" "p' = p\<lparr>ct_pool := pp\<rparr>"
    by (auto simp: ConntrackPoolFeed_def split: bind_splits)
  then show ?case using ct_fresh_pool[OF feed.IH feed.hyps(2), of pp] feed_pool_time[of alloc refs tnow "ct_pool p" dis pp r] by blast
next
  case (drop now p dis p' b)
  then obtain pp where "p' = p\<lparr>ct_pool := pp\<rparr>" "ConntrackPoolDropPool (ct_pool p) dis = Some (pp, b)"
    by (auto simp: ConntrackPoolDrop_def split: bind_splits)
  then show ?case using ct_fresh_pool[OF drop.IH order_refl, of pp] drop_pool_sub by blast
next
  case (change now p c t t')
  then show ?case by (auto intro!: ct_fresh_pool[OF _ order_refl] dest: in_hash_set hash_find_in)
qed

text \<open>C38: In the life of a tracker no connection outlives its timeout by more than the interval between two purges: after the
  call that precedes every packet, the idle time of each TCP and UDP connection is below the timeout of its state and the
  interval together. Only expired connections are removed; a purge that is due leaves none, and after it the calls change
  nothing until the interval has passed.\<close>

theorem ConntrackPoolPurge_expires:
  assumes "ct_run now p" and "now \<le> tnow" and "tnow \<noteq> 0" and "p' = ConntrackPoolPurge tnow p"
  shows "(\<forall>c t k. (c, t) \<in> set (ct_pool p') \<longrightarrow> conn_timeout p c t = Some k \<longrightarrow> tnow - t_last (pos t) < k + t_purge_interval p)
    \<and> (\<forall>e\<in>set (ct_pool p). e \<notin> set (ct_pool p') \<longrightarrow> conn_expired p tnow e)
    \<and> (tnow - t_last_purge p \<ge> t_purge_interval p \<longrightarrow>
         (\<forall>e\<in>set (ct_pool p'). \<not> conn_expired p tnow e) \<and> (\<forall>tn. tn - tnow < t_purge_interval p \<longrightarrow> ConntrackPoolPurge tn p' = p'))"
proof (intro conjI allI impI ballI)
  fix c t k assume e: "(c, t) \<in> set (ct_pool p')" "conn_timeout p c t = Some k"
  have fr: "ct_fresh tnow p'" using ct_fresh_purge[OF ct_run_fresh[OF assms(1)] assms(2)] by (simp add: assms(4))
  have "t_purge_interval p' = t_purge_interval p" by (simp add: assms(4) ConntrackPoolPurge_def)
  moreover have "t_last_purge p' - t_last (pos t) < k" using fr e by (auto simp: ct_fresh_def assms(4))
  moreover have "tnow - t_last_purge p' \<le> t_purge_interval p"
    using fr assms(3) by (auto simp: assms(4) ConntrackPoolPurge_def ct_fresh_def split: if_splits)
  ultimately show "tnow - t_last (pos t) < k + t_purge_interval p" by linarith
qed (use assms(3) in \<open>auto simp: assms(4) ConntrackPoolPurge_def purge_iter_filter split: if_splits\<close>)

lemma ConntrackPoolPurge_expires_witness:
  "\<exists>p. ct_run 10 p \<and> ct_pool p \<noteq> [] \<and> ct_pool (ConntrackPoolPurge 1000 p) = []"
proof -
  let ?i = "ConntrackPoolInit 10 60 60 300 60 60"
  obtain pp where f: "ConntrackPoolFeedPool True (1, 2) 10 [] udp_dis = Some (pp, Some (udp_conn, False))" using udp_feed by blast
  obtain t where pp: "pp = [(udp_conn, t)]"
    using feed_pool_cases[OF f udp_extract] by (auto simp: keys_def hash_add_def split: if_splits)
  then have t: "t_last (pos t) = 10" using feed_pool_time[OF f, of udp_conn t] by simp
  let ?p = "?i\<lparr>ct_pool := pp\<rparr>"
  have f': "ConntrackPoolFeed True (1, 2) 10 ?i udp_dis = Some (?p, Some (udp_conn, False))"
    using f by (simp add: ConntrackPoolFeed_def ConntrackPoolInit_def)
  have r: "ct_run 10 ?p" by (rule ct_run.feed[OF ct_run.init order_refl f']) simp_all
  have k: "conn_timeout ?p udp_conn t = Some 60"
    by (simp add: conn_timeout_def udp_conn_def IPPROTO_TCP_def IPPROTO_UDP_def ConntrackPoolInit_def)
  have "(udp_conn, t) \<notin> set (ct_pool (ConntrackPoolPurge 1000 ?p))"
    using conjunct1[OF ConntrackPoolPurge_expires[OF r _ _ refl, of 1000]] k t by (fastforce simp: ConntrackPoolInit_def)
  moreover have "set (ct_pool (ConntrackPoolPurge 1000 ?p)) \<subseteq> set pp" by (auto simp: ConntrackPoolPurge_def purge_iter_filter)
  ultimately have "ct_pool (ConntrackPoolPurge 1000 ?p) = []"
    unfolding pp by (cases "ct_pool (ConntrackPoolPurge 1000 (?i\<lparr>ct_pool := [(udp_conn, t)]\<rparr>))") auto
  with r pp show ?thesis by (intro exI[of _ ?p]) simp
qed

text \<open>C37: Feeding a TCP segment moves the connection through SYN, ESTABLISHED and FIN as the flags say, and counts
  the packet in its direction, except that a segment which restarts the track also erases its own count. The window scales of
  the connection have to be below 32, as the code shifts by them.\<close>

theorem ConntrackFeedPacket_state:
  assumes "tcp_ok dis tcp"
    and "unat (t_scale (client (pos t))) < 32" and "unat (t_scale (server (pos t))) < 32"
  shows "\<exists>t'. ConntrackFeedPacket refs now t b dis = Some t'
     \<and> t_state (pos t') = state_after (t_state (pos t)) (data_pkt dis ! (tcp + 13))
         (seq0 (client (pos t)) \<noteq> the (pntoh32 (data_pkt dis) (tcp + 8)) - 1)
     \<and> pcounter (direct_of b (pos t')) =
         (if restarts (t_state (pos t)) (data_pkt dis ! (tcp + 13))
              (seq0 (client (pos t)) \<noteq> the (pntoh32 (data_pkt dis) (tcp + 8)) - 1) then 0
          else pcounter (direct_of b (pos t)) + 1)"
  using FeedPacket_ok[OF assms] .

text \<open>A dissection of a bare TCP header with options.\<close>

definition tcp_dis :: "u8 \<Rightarrow> dissect" where
  "tcp_dis flags = (dissect_init [4,0,0,80, 0,0,0,1, 0,0,0,9, 0x60,flags,1,0, 0,0,0,0, 3,3,40,0] 24)\<lparr>d_tcp := Some 0\<rparr>"

lemma ConntrackFeedPacket_state_witness:
  "\<exists>t'. ConntrackFeedPacket (1, 2) 10 (ConntrackInitTrack (1, 2)) False (tcp_dis 16) = Some t'
     \<and> t_state (pos t') = ESTABLISHED"
proof -
  have ok: "tcp_ok (tcp_dis 16) 0" by (simp add: tcp_ok_def tcp_dis_def dissect_init_def)
  have f: "state_after SYN (data_pkt (tcp_dis 16) ! (0 + 13)) x = ESTABLISHED" for x
    by (simp add: state_after_def tcp_dis_def dissect_init_def seg_syn_def seg_synack_def TH_SYN_def TH_ACK_def
        TH_FIN_def TH_RST_def)
  show ?thesis
    using ConntrackFeedPacket_state[OF ok, of "ConntrackInitTrack (1, 2)" "(1, 2)" 10 False] f
    by (auto simp: init_track_pos positions_null_def position_null_def)
qed

text \<open>The window scale of a SYN is taken from the packet without a limit. With a scale of 32 or more the next
  segment in that direction shifts the 32-bit window by its width, which is undefined.\<close>

theorem window_scale_undefined:
  "\<exists>t. ConntrackFeedPacket (1, 2) 10 (ConntrackInitTrack (1, 2)) False (tcp_dis 2) = Some t
     \<and> t_scale (client (pos t)) = 40
     \<and> ConntrackFeedPacket (1, 2) 11 t False (tcp_dis 16) = None"
  by (simp add: ConntrackFeedPacket_def Let_def tcp_dis_def dissect_init_def tcp_state_step_def flags_mask
      tcp_syn_segment_def tcp_synack_segment_def th_flags_def pntoh32_def pntoh16_def init_track_pos
      ConntrackInitTrack_def positions_null_def position_null_def TH_SYN_def TH_ACK_def TH_FIN_def TH_RST_def
      TH_URG_def TH_PUSH_def ConntrackApplyPos_def direct_of_def put_dirs_def over_2G_def tcp_find_scale_factor_def tcp_find_mss_def
      tcp_find_option_def tcp_opt_loop.simps th_off_def TCP_KIND_END_def TCP_KIND_NOOP_def TCP_KIND_MSS_def
      TCP_KIND_SCALE_def SCALE_NONE_def count_packet_def)

end
