(* ===== verification/Http.thy ===== *)
theory Http
  imports L7
begin

text \<open>
  The HTTP part of src/nfq2/protocol.c: recognising requests and replies, finding and extracting a header, the
  comparison of a redirect target with the requested host, and the positions in a request. A buffer starts at
  offset 0 and has \<open>len\<close> bytes that may be read.
\<close>

subsection \<open>The code\<close>

definition http_methods :: "bytes list" where
  "http_methods = map lit [''GET '', ''POST '', ''HEAD '', ''OPTIONS '', ''PUT '', ''DELETE '', ''CONNECT '', ''TRACE '',
     ''PATCH '']"

fun http_method_loop :: "bytes \<Rightarrow> nat \<Rightarrow> bytes list \<Rightarrow> bytes option option" where
  "http_method_loop data len [] = Some None"
| "http_method_loop data len (m # ms) =
     (case cand (Some (length m \<le> len)) (mem_eq data 0 m) of None \<Rightarrow> None
      | Some eq \<Rightarrow> if eq then Some (Some m) else http_method_loop data len ms)"

definition HttpMethod :: "bytes \<Rightarrow> nat \<Rightarrow> bytes option option" where
  "HttpMethod data len = (if len \<ge> 4 then http_method_loop data len http_methods else Some None)"

definition is_blank :: "u8 \<Rightarrow> bool" where
  "is_blank c \<longleftrightarrow> c = 32 \<or> c = 9"

definition is_eol :: "u8 \<Rightarrow> bool" where
  "is_eol c \<longleftrightarrow> c = 13 \<or> c = 10"

text \<open>\<open>!len || *data != ' ' && *data != '\t'\<close>, at offset \<open>p\<close> of a buffer that ends at \<open>len\<close>.\<close>

definition no_blank_at :: "bytes \<Rightarrow> nat \<Rightarrow> nat \<Rightarrow> bool option" where
  "no_blank_at data p len = cor (Some (p = len)) (map_option (\<lambda>c. \<not> is_blank c) (rd data p))"

definition IsHttp :: "bytes \<Rightarrow> nat \<Rightarrow> bool option" where
  "IsHttp data len = do {
     m \<leftarrow> HttpMethod data len;
     if m = None then Some False else do {
     p \<leftarrow> scan (\<lambda>c. \<not> is_blank c \<and> \<not> is_eol c) data 0 len;
     r \<leftarrow> no_blank_at data p len;
     if r then Some False else do {
     p \<leftarrow> scan is_blank data p len;
     p \<leftarrow> scan (\<lambda>c. \<not> is_blank c \<and> \<not> is_eol c) data p len;
     r \<leftarrow> no_blank_at data p len;
     if r then Some False else do {
     p \<leftarrow> scan is_blank data p len;
     r \<leftarrow> cor (Some (len - p < 10)) (map_option is_eol (rd data p));
     if r then Some False else mem_eq data p (lit ''HTTP/1.'') } } } }"

definition IsHostAt :: "bytes \<Rightarrow> nat \<Rightarrow> bool option" where
  "IsHostAt d p =
     cand (map_option (\<lambda>c. c = 10) (rd d p))
    (cand (map_option (\<lambda>c. c = ch (CHR ''H'') \<or> c = ch (CHR ''h'')) (rd d (p + 1)))
    (cand (map_option (\<lambda>c. c = ch (CHR ''o'') \<or> c = ch (CHR ''O'')) (rd d (p + 2)))
    (cand (map_option (\<lambda>c. c = ch (CHR ''s'') \<or> c = ch (CHR ''S'')) (rd d (p + 3)))
    (cand (map_option (\<lambda>c. c = ch (CHR ''t'') \<or> c = ch (CHR ''T'')) (rd d (p + 4)))
          (map_option (\<lambda>c. c = ch (CHR '':'')) (rd d (p + 5)))))))"

text \<open>The loop of \<open>FindHostIn\<close>, with the number of positions left to try.\<close>

fun find_host_loop :: "bytes \<Rightarrow> nat \<Rightarrow> nat \<Rightarrow> nat option option" where
  "find_host_loop buf pos 0 = Some None"
| "find_host_loop buf pos (Suc n) =
     (case IsHostAt buf pos of None \<Rightarrow> None
      | Some h \<Rightarrow> if h then Some (Some pos) else find_host_loop buf (pos + 1) n)"

definition FindHostIn :: "bytes \<Rightarrow> nat \<Rightarrow> nat option option" where
  "FindHostIn buf bs = (if bs < 6 then Some None else find_host_loop buf 0 (bs - 6 + 1))"

definition HttpFindHost :: "nat option \<Rightarrow> bytes \<Rightarrow> nat \<Rightarrow> nat option option" where
  "HttpFindHost pHost buf bs =
     (case pHost of Some h \<Rightarrow> Some (Some h)
      | None \<Rightarrow> map_option (map_option (\<lambda>p. p + 1)) (FindHostIn buf bs))"

definition is_09 :: "u8 \<Rightarrow> bool" where
  "is_09 c \<longleftrightarrow> c \<ge> ch (CHR ''0'') \<and> c \<le> ch (CHR ''9'')"

definition IsHttpReply :: "bytes \<Rightarrow> nat \<Rightarrow> bool option" where
  "IsHttpReply data len =
     cand (Some (len > 14))
    (cand (mem_eq data 0 (lit ''HTTP/1.''))
    (cand (map_option (\<lambda>c. c = ch (CHR ''0'') \<or> c = ch (CHR ''1'')) (rd data 7))
    (cand (map_option (\<lambda>c. c = 32) (rd data 8))
    (cand (map_option is_09 (rd data 9))
    (cand (map_option is_09 (rd data 10))
          (map_option is_09 (rd data 11)))))))"

definition reply_digit :: "u8 \<Rightarrow> int" where
  "reply_digit c = uint c - 48"

definition HttpReplyCode :: "bytes \<Rightarrow> int option" where
  "HttpReplyCode data = do {
     a \<leftarrow> rd data 9;
     b \<leftarrow> rd data 10;
     c \<leftarrow> rd data 11;
     Some (reply_digit a * 100 + reply_digit b * 10 + reply_digit c) }"

text \<open>
  \<open>Some None\<close>: the header is not there. Otherwise the string written to \<open>buf\<close>; a null \<open>buf\<close> is \<open>len_buf = 0\<close>,
  and then nothing is written.
\<close>

definition HttpExtractHeader :: "bytes \<Rightarrow> nat \<Rightarrow> bytes \<Rightarrow> nat \<Rightarrow> bytes option option" where
  "HttpExtractHeader data len header len_buf = do {
     r \<leftarrow> strncasestr data 0 header len;
     case r of None \<Rightarrow> Some None
     | Some p \<Rightarrow> do {
         p \<leftarrow> scan is_blank data (p + length header) len;
         s \<leftarrow> scan (\<lambda>c. \<not> is_eol c \<and> \<not> is_blank c) data p len;
         if s > p then
           (if len_buf \<noteq> 0 then do {
              t \<leftarrow> rd_block data p (if s - p \<ge> len_buf then len_buf - 1 else s - p);
              Some (Some (map to_lower t)) }
            else Some (Some []))
         else Some None } }"

definition HttpExtractHost :: "bytes \<Rightarrow> nat \<Rightarrow> nat \<Rightarrow> bytes option option" where
  "HttpExtractHost data len len_host = HttpExtractHeader data len (10 # lit ''Host:'') len_host"

text \<open>The C string in a buffer, and \<open>strcasecmp(a, b) != 0\<close> on two of them.\<close>

definition c_str :: "bytes \<Rightarrow> bytes" where
  "c_str b = takeWhile (\<lambda>c. c \<noteq> 0) b"

definition strcasediff :: "bytes \<Rightarrow> bytes \<Rightarrow> bool" where
  "strcasediff a b \<longleftrightarrow> map to_lower a \<noteq> map to_lower b"

definition redirect_target :: "bytes \<Rightarrow> bytes option" where
  "redirect_target loc =
     (if take 7 loc = lit ''http://'' then Some (drop 7 loc)
      else if take 8 loc = lit ''https://'' then Some (drop 8 loc)
      else None)"

definition HttpReplyLooksLikeDPIRedirect :: "bytes \<Rightarrow> nat \<Rightarrow> bytes option \<Rightarrow> bool option" where
  "HttpReplyLooksLikeDPIRedirect data len host =
     (case host of None \<Rightarrow> Some False
      | Some host \<Rightarrow> if host = [] then Some False else do {
     r \<leftarrow> IsHttpReply data len;
     if \<not> r then Some False else do {
     code \<leftarrow> HttpReplyCode data;
     if code \<noteq> 302 \<and> code \<noteq> 307 then Some False else do {
     l \<leftarrow> HttpExtractHeader data len (10 # lit ''Location:'') 256;
     case l of None \<Rightarrow> Some False
     | Some loc \<Rightarrow>
         (case redirect_target (c_str loc) of None \<Rightarrow> Some False
          | Some t \<Rightarrow>
              (let redirect_host = takeWhile (\<lambda>c. c \<noteq> ch (CHR ''/'')) t in
               if redirect_host = [] then Some False else do {
               rd' \<leftarrow> FindNLD redirect_host 0 (length redirect_host) 2;
               case rd' of None \<Rightarrow> Some False
               | Some (drhost, _) \<Rightarrow> do {
               h \<leftarrow> FindNLD host 0 (length host) 2;
               case h of None \<Rightarrow> Some True
               | Some (dhost, _) \<Rightarrow>
                   Some (strcasediff (drop dhost host) (drop drhost redirect_host)) } })) } } })"

definition is_AZ :: "u8 \<Rightarrow> bool" where
  "is_AZ c \<longleftrightarrow> c \<ge> ch (CHR ''A'') \<and> c \<le> ch (CHR ''Z'')"

definition HttpPos :: "t_marker \<Rightarrow> u16 \<Rightarrow> bytes \<Rightarrow> nat \<Rightarrow> int option" where
  "HttpPos posmarker pos data sz =
     (if posmarker = PM_HTTP_METHOD then
        (if sz < 12 then Some POS_NOT_FOUND
         else do {
           c \<leftarrow> rd data 0;
           let meth = (if is_eol c then 1 else 0);
           c \<leftarrow> rd data meth;
           let meth = (if is_eol c then meth + 1 else meth);
           p \<leftarrow> scan is_AZ data meth (meth + 9);
           r \<leftarrow> cor (Some (p - meth < 3)) (map_option (\<lambda>c. c \<noteq> 32) (rd data p));
           Some (if r then POS_NOT_FOUND else CheckPos sz (int meth + sint pos)) })
      else if posmarker \<in> {PM_HOST, PM_HOST_END, PM_HOST_SLD, PM_HOST_MIDSLD, PM_HOST_ENDSLD} then do {
        r \<leftarrow> HttpFindHost None data sz;
        case r of None \<Rightarrow> Some POS_NOT_FOUND
        | Some host \<Rightarrow>
            if host + 7 < sz then do {
              c \<leftarrow> rd data (host + 5);
              let offset_host = (if is_blank c then host + 6 else host + 5);
              e \<leftarrow> (if posmarker \<noteq> PM_HOST then scan (\<lambda>c. \<not> is_eol c) data offset_host sz else Some offset_host);
              HostPos posmarker pos data sz offset_host (e - offset_host) }
            else Some POS_NOT_FOUND }
      else Some (AnyProtoPos posmarker pos sz))"

subsection \<open>No access outside the buffer\<close>

lemma http_method_loop_wp: "len \<le> length data \<Longrightarrow> returns (\<lambda>_. True) (http_method_loop data len ms)"
  by (induction ms) (auto simp: mem_eq_def)

lemma no_blank_at_wp: "p \<le> len \<Longrightarrow> len \<le> length data \<Longrightarrow> P (p = len \<or> \<not> is_blank (data ! p)) \<Longrightarrow>
  returns P (no_blank_at data p len)"
  by (cases "p = len") (auto simp: no_blank_at_def wp)

lemma IsHttp_wp:
  assumes len: "len \<le> length data"
  shows "returns (\<lambda>_. True) (IsHttp data len)"
proof -
  have m: "returns (\<lambda>_. True) (HttpMethod data len)"
    by (simp add: HttpMethod_def http_method_loop_wp[OF len])
  show ?thesis
    unfolding IsHttp_def wp
    by (rule returns_mono[OF m])
       (use len in \<open>auto simp: wp not_less intro!: returns_scan no_blank_at_wp\<close>)
qed

lemma find_host_loop_wp:
  "n = 0 \<or> pos + n + 5 \<le> length buf \<Longrightarrow>
   returns (\<lambda>r. \<forall>q. r = Some q \<longrightarrow> q < pos + n) (find_host_loop buf pos n)"
proof (induction n arbitrary: pos)
  case (Suc n)
  have "returns (\<lambda>_. True) (IsHostAt buf pos)" using Suc.prems by (simp add: IsHostAt_def wp)
  then obtain h where "IsHostAt buf pos = Some h" by (auto simp: returns_def)
  with Suc.IH[of "pos + 1"] Suc.prems show ?case by auto
qed simp

lemma HttpFindHost_wp:
  assumes "bs \<le> length buf"
  shows "returns (\<lambda>r. \<forall>h. r = Some h \<longrightarrow> h + 5 \<le> bs) (HttpFindHost None buf bs)"
proof (cases "bs < 6")
  case False
  with find_host_loop_wp[of "bs - 6 + 1" 0 buf] assms show ?thesis
    by (auto simp: HttpFindHost_def FindHostIn_def wp elim!: returns_mono)
qed (simp add: HttpFindHost_def FindHostIn_def)

lemma IsHttpReply_wp: "len \<le> length data \<Longrightarrow> returns (\<lambda>r. r \<longrightarrow> 14 < len) (IsHttpReply data len)"
  by (simp add: IsHttpReply_def wp)

lemma strncasestr_wp:
  assumes "needle \<noteq> []" and "p + slen \<le> length d"
  shows "returns (\<lambda>r. \<forall>q. r = Some q \<longrightarrow> p \<le> q \<and> q + length needle \<le> p + slen) (strncasestr d p needle slen)"
  using strncasestr_first[OF assms] by (force simp: returns_def split: option.splits)

lemma HttpExtractHeader_wp:
  assumes len: "len \<le> length data" and "header \<noteq> []"
  shows "returns (\<lambda>r. \<forall>s. r = Some s \<longrightarrow> length s \<le> len_buf - 1) (HttpExtractHeader data len header len_buf)"
proof -
  have "0 + len \<le> length data" using len by simp
  from strncasestr_wp[OF assms(2) this] show ?thesis
    unfolding HttpExtractHeader_def wp
    by (rule returns_mono) (auto simp: wp split: option.split intro!: returns_scan len dest: order_trans[OF _ len])
qed

lemma FindNLD_wp:
  "base + dlen \<le> length d \<Longrightarrow>
   returns (\<lambda>r. \<forall>p slen. r = Some (p, slen) \<longrightarrow> base \<le> p \<and> p + slen \<le> base + dlen) (FindNLD d base dlen level)"
  using FindNLD_total by (simp add: returns_def)

lemma HostPos_wp: "sz \<le> length data \<Longrightarrow> returns (pos_in sz) (HostPos m pos data sz off len)"
  using HostPos_total by (simp add: returns_def)

lemma HttpReplyLooksLikeDPIRedirect_wp:
  assumes len: "len \<le> length data"
  shows "returns (\<lambda>_. True) (HttpReplyLooksLikeDPIRedirect data len host)"
proof -
  have nld: "returns (\<lambda>_. True) (FindNLD t 0 (length t) 2)" for t
    by (rule returns_mono[OF FindNLD_wp]) simp_all
  have loc: "returns (\<lambda>_. True) (HttpExtractHeader data len (c # cs) 256)" for c cs
    by (rule returns_mono[OF HttpExtractHeader_wp[OF len]]) simp_all
  show ?thesis
  proof (cases host)
    case (Some h)
    show ?thesis
      unfolding HttpReplyLooksLikeDPIRedirect_def Some option.case wp
      using len
      by (auto simp: wp HttpReplyCode_def split: option.split
            intro!: returns_mono[OF IsHttpReply_wp[OF len]] returns_mono[OF loc] returns_mono[OF nld])
  qed (simp add: HttpReplyLooksLikeDPIRedirect_def)
qed

lemma HttpPos_wp:
  assumes sz: "sz \<le> length data"
  shows "returns (pos_in sz) (HttpPos m pos data sz)"
proof -
  have meth: "returns (pos_in sz) (HttpPos PM_HTTP_METHOD pos data sz)"
    unfolding HttpPos_def wp
    by (use sz in \<open>auto simp: wp Let_def intro!: returns_scan\<close>)
  have host: "returns (pos_in sz) (HttpPos m pos data sz)"
    if "m \<in> {PM_HOST, PM_HOST_END, PM_HOST_SLD, PM_HOST_MIDSLD, PM_HOST_ENDSLD}"
    using that unfolding HttpPos_def wp
    by (auto simp: wp Let_def split: option.split
        intro!: returns_mono[OF HttpFindHost_wp[OF sz]] returns_scan sz HostPos_wp dest: order.strict_trans2[OF _ sz])
  show ?thesis
    using meth host AnyProtoPos_in by (cases m) (auto simp: HttpPos_def)
qed

subsection \<open>Requests\<close>

definition token :: "bytes \<Rightarrow> bool" where
  "token t \<longleftrightarrow> t \<noteq> [] \<and> list_all (\<lambda>c. \<not> is_blank c \<and> \<not> is_eol c) t"

definition stops :: "bytes \<Rightarrow> bool" where
  "stops t \<longleftrightarrow> t = [] \<or> is_blank (hd t) \<or> is_eol (hd t)"

lemma http_method_loop_found:
  "m \<in> set ms \<Longrightarrow> \<exists>m'. http_method_loop (m @ t) (length (m @ t)) ms = Some (Some m')"
  by (induction ms) (auto simp: mem_eq_def rd_block_def)

lemma methods_shape:
  "m \<in> set http_methods \<Longrightarrow> \<exists>w. m = w @ [32] \<and> token w \<and> 3 \<le> length w"
  by (auto simp: http_methods_def token_def is_blank_def is_eol_def)

lemma is_blank_32 [simp]: "is_blank 32"
  by (simp add: is_blank_def)

lemma eol_not_blank: "is_eol c \<Longrightarrow> \<not> is_blank c"
  by (auto simp: is_eol_def is_blank_def)

lemma IsHttp_line:
  assumes m: "m \<in> set http_methods" and u: "token uri" and v: "3 \<le> length v"
  shows "IsHttp (m @ uri @ [32] @ lit ''HTTP/1.'' @ v) (length (m @ uri @ [32] @ lit ''HTTP/1.'' @ v)) = Some True"
    (is "IsHttp ?d ?n = _")
proof -
  let ?h = "lit ''HTTP/1.'' @ v"
  let ?w = "\<lambda>c. \<not> is_blank c \<and> \<not> is_eol c"
  obtain w where w: "m = w @ [32]" "token w" "3 \<le> length w" using methods_shape[OF m] by blast
  from u obtain c us where uc: "uri = c # us" "\<not> is_blank c" by (cases uri) (auto simp: token_def)
  have d: "?d = [] @ w @ ([32] @ uri @ [32] @ ?h)" "?d = w @ [32] @ (uri @ [32] @ ?h)"
    "?d = (w @ [32]) @ uri @ ([32] @ ?h)" "?d = (w @ [32] @ uri) @ [32] @ ?h" by (simp_all add: w)
  obtain m' where m': "HttpMethod ?d ?n = Some (Some m')"
    using http_method_loop_found[OF m, of "uri @ [32] @ ?h"] w by (auto simp: HttpMethod_def)
  have s1: "scan ?w ?d 0 ?n = Some (length w)"
    using scan_run[of ?w w "[32] @ uri @ [32] @ ?h" 0 "[]" ?n] w unfolding d(1) by (simp add: token_def)
  have s2: "scan is_blank ?d (length w) ?n = Some (length w + 1)"
    using scan_run[of is_blank "[32]" "uri @ [32] @ ?h" "length w" w ?n] uc unfolding d(2) by simp
  have s3: "scan ?w ?d (length w + 1) ?n = Some (length w + 1 + length uri)"
    using scan_run[of ?w uri "[32] @ ?h" "length w + 1" "w @ [32]" ?n] u unfolding d(3) by (simp add: token_def)
  have "\<not> is_blank (ch CHR ''H'')" by (simp add: is_blank_def)
  then have s4: "scan is_blank ?d (length w + 1 + length uri) ?n = Some (length w + 1 + length uri + 1)"
    using scan_run[of is_blank "[32]" ?h "length w + 1 + length uri" "w @ [32] @ uri" ?n]
    unfolding d(4) by simp
  have n1: "?d ! length w = 32" "?d ! (length w + 1 + length uri) = 32" unfolding d(4)
    by (simp_all add: nth_append)
  have dr: "drop (length w + 1 + length uri + 1) ?d = ?h" unfolding w by simp
  have at: "?d ! (length w + 1 + length uri + 1) = ch CHR ''H''"
    using nth_append_length[of "w @ [32] @ uri @ [32]" "ch CHR ''H''" "lit ''TTP/1.'' @ v"] unfolding w(1) by simp
  have len: "length w + 1 + length uri + 1 + 7 + length v = ?n" by (simp add: w)
  have "mem_eq ?d (length w + 1 + length uri + 1) (lit ''HTTP/1.'') = Some True"
    unfolding mem_eq_def rd_block_def dr using len by simp
  moreover have "rd ?d (length w + 1 + length uri + 1) = Some (ch CHR ''H'')"
    using at len unfolding rd_def by (simp del: append.assoc add: w(1))
  moreover have "no_blank_at ?d (length w) ?n = Some False" "no_blank_at ?d (length w + 1 + length uri) ?n = Some False"
    using n1 len by (simp_all add: no_blank_at_def rd_def)
  moreover have "?n - (length w + 1 + length uri + 1) = 7 + length v" using len by linarith
  ultimately show ?thesis
    using v unfolding IsHttp_def m' s1 s2 s3 s4 bind.bind_lunit by (simp add: s1 s2 s3 s4 is_eol_def)
qed

lemma HttpExtractHeader_found:
  assumes h: "header \<noteq> []" "length hdr = length header" "map to_lower hdr = map to_lower header"
    and first: "\<forall>k < length pre. \<not> ci_at (pre @ hdr @ ws @ v @ rest) header k"
    and ws: "list_all is_blank ws" and v: "token v" and r: "stops rest" and n: "0 < n"
  shows "HttpExtractHeader (pre @ hdr @ ws @ v @ rest) (length (pre @ hdr @ ws @ v @ rest)) header n
    = Some (Some (map to_lower (take (n - 1) v)))" (is "HttpExtractHeader ?d ?n _ _ = _")
proof -
  have "0 + ?n \<le> length ?d" by simp
  from strncasestr_first[OF h(1) this] obtain q where q: "strncasestr ?d 0 header ?n = Some q"
    and sp: "case q of None \<Rightarrow> \<forall>q. q + length header \<le> ?n \<longrightarrow> \<not> ci_at ?d header q
      | Some q \<Rightarrow> ci_at ?d header q \<and> (\<forall>k. k < q \<longrightarrow> \<not> ci_at ?d header k)" by (auto split: option.splits)
  have at: "ci_at ?d header (length pre)" using h(2,3) by (simp add: ci_at_def h(2)[symmetric])
  have "q = Some (length pre)"
  proof (cases q)
    case None
    with sp at h(2) show ?thesis by auto
  next
    case (Some k)
    with sp at first have "\<not> k < length pre" "\<not> length pre < k" by auto
    then show ?thesis using Some by simp
  qed
  with q have q: "strncasestr ?d 0 header ?n = Some (Some (length pre))" by simp
  let ?p = "length pre + length header + length ws"
  from v obtain c cs where c: "v = c # cs" "\<not> is_blank c" by (cases v) (auto simp: token_def)
  have s1: "scan is_blank ?d (length pre + length header) ?n = Some ?p"
    using scan_run[of is_blank ws "v @ rest" "length (pre @ hdr)" "pre @ hdr" ?n] ws c h(2) by simp
  have s2: "scan (\<lambda>c. \<not> is_eol c \<and> \<not> is_blank c) ?d ?p ?n = Some (?p + length v)"
    using scan_run[of "\<lambda>c. \<not> is_eol c \<and> \<not> is_blank c" v rest "length (pre @ hdr @ ws)" "pre @ hdr @ ws" ?n] v r h(2)
    by (auto simp: token_def stops_def list_all_iff add.assoc)
  have b: "rd_block ?d ?p k = Some (take k v)" if "k \<le> length v" for k
    using that h(2) by (simp add: rd_block_def h(2)[symmetric])
  show ?thesis
    using n c b[of "n - 1"] b[of "length v"] unfolding HttpExtractHeader_def q bind.bind_lunit option.case s1 s2
    by (auto simp: not_le less_Suc_eq_le)
qed

subsection \<open>Properties\<close>

text \<open>The HTTP functions read nothing outside the \<open>len\<close> bytes they are given, whatever these contain, and a
  position they report is a position of the packet or none.\<close>

theorem http_safe:
  assumes "len \<le> length data"
  shows "IsHttp data len \<noteq> None \<and> IsHttpReply data len \<noteq> None \<and> HttpExtractHost data len n \<noteq> None
    \<and> HttpReplyLooksLikeDPIRedirect data len host \<noteq> None
    \<and> (\<exists>p. HttpPos m pos data len = Some p \<and> (p = POS_NOT_FOUND \<or> 0 \<le> p \<and> p < int len))"
  using returns_defined[OF IsHttp_wp[OF assms]] returns_defined[OF IsHttpReply_wp[OF assms]]
    returns_defined[OF HttpExtractHeader_wp[OF assms, of "10 # lit ''Host:''"]]
    returns_defined[OF HttpReplyLooksLikeDPIRedirect_wp[OF assms]]
    returns_exists[OF HttpPos_wp[OF assms]]
  by (simp add: HttpExtractHost_def pos_in_def)

lemma http_safe_witness:
  "IsHttp (lit ''GET'') 3 \<noteq> None"
  using http_safe[of 3 "lit ''GET''"] by simp

text \<open>A request line is recognised: a method of the table, a target without blanks, and a version.\<close>

theorem IsHttp_request_line:
  assumes "m \<in> set http_methods" and "token uri" and "3 \<le> length v"
  shows "IsHttp (m @ uri @ [32] @ lit ''HTTP/1.'' @ v) (length (m @ uri @ [32] @ lit ''HTTP/1.'' @ v)) = Some True"
  by (rule IsHttp_line[OF assms])

lemma IsHttp_request_line_witness:
  "\<exists>n. IsHttp (lit ''GET '' @ lit ''/index'' @ [32] @ lit ''HTTP/1.'' @ lit ''1xx'') n = Some True"
  using IsHttp_request_line[of "lit ''GET ''" "lit ''/index''" "lit ''1xx''"]
  by (auto simp: http_methods_def token_def is_blank_def is_eol_def)

text \<open>HttpExtractHost returns the value of the first Host header, in lower case and cut to the buffer,
  whatever the case of the header name and the blanks before the value.\<close>

theorem HttpExtractHost_first_header:
  assumes "length hdr = 6" and "map to_lower hdr = map to_lower (10 # lit ''Host:'')"
    and "\<forall>k < length pre. \<not> ci_at (pre @ hdr @ ws @ v @ rest) (10 # lit ''Host:'') k"
    and "list_all is_blank ws" and "token v" and "stops rest" and "0 < n"
  shows "HttpExtractHost (pre @ hdr @ ws @ v @ rest) (length (pre @ hdr @ ws @ v @ rest)) n
    = Some (Some (map to_lower (take (n - 1) v)))"
  unfolding HttpExtractHost_def by (rule HttpExtractHeader_found) (use assms in auto)

lemma HttpExtractHost_first_header_witness:
  "\<exists>k. HttpExtractHost (lit ''x'' @ (10 # lit ''hOST:'') @ [32, 9] @ lit ''A.bC'' @ [13, 10]) k 100
     = Some (Some (lit ''a.bc''))"
proof -
  have "\<not> ci_at (lit ''x'' @ (10 # lit ''hOST:'') @ [32, 9] @ lit ''A.bC'' @ [13, 10]) (10 # lit ''Host:'') 0"
    by (simp add: ci_at_def to_lower_def)
  then show ?thesis
    using HttpExtractHost_first_header[of "10 # lit ''hOST:''" "lit ''x''" "[32, 9]" "lit ''A.bC''" "[13, 10]" 100]
    by (auto simp: token_def is_blank_def is_eol_def stops_def to_lower_def)
qed

end
