(* ===== verification/Tls.thy ===== *)
theory Tls
  imports Http
begin

text \<open>
  The TLS part of src/nfq2/protocol.c: recognising records and hello messages, walking to the extensions,
  the server name in them, the position markers of a hello, and the resolution of a list of markers, which
  combines the positions of all protocols. A pointer is the offset of the byte it points to.
\<close>

subsection \<open>Records and handshake messages\<close>

definition TLSVersionStr :: "u16 \<Rightarrow> string" where
  "TLSVersionStr tlsver =
     (if tlsver = 0x0300 then ''SSL 3.0''
      else if tlsver = 0x0301 then ''TLS 1.0''
      else if tlsver = 0x0302 then ''TLS 1.1''
      else if tlsver = 0x0303 then ''TLS 1.2''
      else if tlsver = 0x0304 then ''TLS 1.3''
      else if tlsver AND 0x0F0F = 0x0A0A \<and> drop_bit 12 tlsver = drop_bit 4 tlsver AND 0xF then ''GREASE''
      else ''UNKNOWN'')"

definition TLSHandshakeDataLen :: "bytes \<Rightarrow> nat \<Rightarrow> nat option" where
  "TLSHandshakeDataLen d p = map_option unat (pntoh24 d (p + 1))"

definition TLSHandshakeLen :: "bytes \<Rightarrow> nat \<Rightarrow> nat option" where
  "TLSHandshakeLen d p = map_option (\<lambda>n. n + 4) (TLSHandshakeDataLen d p)"

definition IsTLSHandshakeFull :: "bytes \<Rightarrow> nat \<Rightarrow> nat \<Rightarrow> bool option" where
  "IsTLSHandshakeFull d p len = map_option (\<lambda>n. n \<le> len) (TLSHandshakeLen d p)"

definition TLSRecordDataLen :: "bytes \<Rightarrow> nat \<Rightarrow> u16 option" where
  "TLSRecordDataLen d p = pntoh16 d (p + 3)"

definition TLSRecordLen :: "bytes \<Rightarrow> nat \<Rightarrow> nat option" where
  "TLSRecordLen d p = map_option (\<lambda>n. unat n + 5) (TLSRecordDataLen d p)"

definition IsTLSRecordFull :: "bytes \<Rightarrow> nat \<Rightarrow> nat \<Rightarrow> bool option" where
  "IsTLSRecordFull d p len = map_option (\<lambda>n. n \<le> len) (TLSRecordLen d p)"

definition IsTLSHandshakeHello :: "bytes \<Rightarrow> nat \<Rightarrow> nat \<Rightarrow> u8 \<Rightarrow> bool \<Rightarrow> bool option" where
  "IsTLSHandshakeHello d p len type bPartialIsOK =
     cand (Some (len \<ge> 6))
    (cand (map_option (\<lambda>t. type \<noteq> 0 \<and> t = type \<or> type = 0 \<and> (t = 1 \<or> t = 2)) (rd d p))
    (cand (map_option (\<lambda>c. c = 3) (rd d (p + 4)))
    (cand (map_option (\<lambda>c. c \<le> 3) (rd d (p + 5)))
    (cor (Some bPartialIsOK) (IsTLSHandshakeFull d p len)))))"

definition IsTLSHandshakeClientHello :: "bytes \<Rightarrow> nat \<Rightarrow> nat \<Rightarrow> bool \<Rightarrow> bool option" where
  "IsTLSHandshakeClientHello d p len bPartialIsOK = IsTLSHandshakeHello d p len 1 bPartialIsOK"

definition IsTLSHandshakeServerHello :: "bytes \<Rightarrow> nat \<Rightarrow> nat \<Rightarrow> bool \<Rightarrow> bool option" where
  "IsTLSHandshakeServerHello d p len bPartialIsOK = IsTLSHandshakeHello d p len 2 bPartialIsOK"

definition IsTLSHello :: "bytes \<Rightarrow> nat \<Rightarrow> u8 \<Rightarrow> bool \<Rightarrow> bool option" where
  "IsTLSHello d len type bPartialIsOK =
     cand (Some (len \<ge> 6))
    (cand (map_option (\<lambda>c. c = 0x16) (rd d 0))
    (cand (map_option (\<lambda>c. c = 3) (rd d 1))
    (cand (map_option (\<lambda>c. c \<le> 3) (rd d 2))
    (cand (cor (Some bPartialIsOK) (IsTLSRecordFull d 0 len))
          (IsTLSHandshakeHello d 5 (len - 5) type bPartialIsOK)))))"

definition IsTLSClientHello :: "bytes \<Rightarrow> nat \<Rightarrow> bool \<Rightarrow> bool option" where
  "IsTLSClientHello d len bPartialIsOK = IsTLSHello d len 1 bPartialIsOK"

definition IsTLSServerHello :: "bytes \<Rightarrow> nat \<Rightarrow> bool \<Rightarrow> bool option" where
  "IsTLSServerHello d len bPartialIsOK = IsTLSHello d len 2 bPartialIsOK"

definition IsTLSClientHelloPartial :: "bytes \<Rightarrow> nat \<Rightarrow> bool option" where
  "IsTLSClientHelloPartial d len = IsTLSClientHello d len True"

definition IsTLSServerHelloPartial :: "bytes \<Rightarrow> nat \<Rightarrow> bool option" where
  "IsTLSServerHelloPartial d len = IsTLSServerHello d len True"

subsection \<open>Extensions\<close>

text \<open>\<open>Some None\<close> is the answer false; otherwise the offset of the extensions' length, relative to \<open>p\<close>.\<close>

definition TLSFindExtLenOffsetInHandshake :: "bytes \<Rightarrow> nat \<Rightarrow> nat \<Rightarrow> nat option option" where
  "TLSFindExtLenOffsetInHandshake d p len =
     (let l = 1 + 3 + 2 + 32 in
      if len < l + 1 then Some None else do {
      sid \<leftarrow> rd d (p + l);
      let l = l + unat sid + 1;
      if len < l + 2 then Some None else do {
      hs \<leftarrow> rd d p;
      l \<leftarrow> (if hs = 1 then map_option (\<lambda>n. l + unat n) (pntoh16 d (p + l)) else Some l);
      let l = l + 2;
      if len < l + 1 then Some None else do {
      l \<leftarrow> (if hs = 1 then map_option (\<lambda>n. l + unat n) (rd d (p + l)) else Some l);
      let l = l + 1;
      Some (if len < l + 2 then None else Some l) } } })"

definition TLSFindExtLen :: "bytes \<Rightarrow> nat \<Rightarrow> nat option option" where
  "TLSFindExtLen d len =
     (if len < 5 then Some None
      else map_option (map_option (\<lambda>o'. o' + 5)) (TLSFindExtLenOffsetInHandshake d 5 (len - 5)))"

text \<open>The loop over the extensions: the position and the length of the first one of the type.\<close>

function find_ext_loop :: "bytes \<Rightarrow> nat \<Rightarrow> nat \<Rightarrow> u16 \<Rightarrow> (nat \<times> nat) option option" where
  "find_ext_loop d p l type =
     (if l \<ge> 4 then
        (case pntoh16 d p of None \<Rightarrow> None | Some etype \<Rightarrow>
        (case pntoh16 d (p + 2) of None \<Rightarrow> None | Some elen \<Rightarrow>
           if l - 4 < unat elen then Some None
           else if etype = type then Some (Some (p + 4, unat elen))
           else find_ext_loop d (p + 4 + unat elen) (l - 4 - unat elen) type))
      else Some None)"
  by pat_completeness auto
termination
  by (relation "measure (\<lambda>(d, p, l, type). l)") auto

declare find_ext_loop.simps [simp del]

definition TLSFindExtInHandshake :: "bytes \<Rightarrow> nat \<Rightarrow> nat \<Rightarrow> u16 \<Rightarrow> bool \<Rightarrow> (nat \<times> nat) option option" where
  "TLSFindExtInHandshake d p len type bPartialIsOK = do {
     full \<leftarrow> cor (Some bPartialIsOK) (IsTLSHandshakeFull d p len);
     if \<not> full then Some None else do {
     r \<leftarrow> TLSFindExtLenOffsetInHandshake d p len;
     case r of None \<Rightarrow> Some None
     | Some l \<Rightarrow> do {
         n \<leftarrow> pntoh16 d (p + l);
         let rest = len - l - 2;
         if bPartialIsOK then find_ext_loop d (p + l + 2) (if rest < unat n then rest else unat n) type
         else if rest < unat n then Some None
         else find_ext_loop d (p + l + 2) (unat n) type } } }"

definition TLSFindExt :: "bytes \<Rightarrow> nat \<Rightarrow> u16 \<Rightarrow> bool \<Rightarrow> (nat \<times> nat) option option" where
  "TLSFindExt d len type bPartialIsOK = do {
     hello \<leftarrow> IsTLSHello d len 0 bPartialIsOK;
     if \<not> hello then Some None else do {
     reclen \<leftarrow> TLSRecordLen d 0;
     let len = (if reclen < len then reclen else len);
     TLSFindExtInHandshake d 5 (len - 5) type bPartialIsOK } }"

text \<open>The new \<open>ext\<close> and \<open>elen\<close> and the name's length, or false.\<close>

definition TLSAdvanceToHostInSNI :: "bytes \<Rightarrow> nat \<Rightarrow> nat \<Rightarrow> (nat \<times> nat \<times> nat) option option" where
  "TLSAdvanceToHostInSNI d ext elen = do {
     bad \<leftarrow> cor (Some (elen < 5)) (map_option (\<lambda>t. t \<noteq> 0) (rd d (ext + 2)));
     if bad then Some None else do {
     slen \<leftarrow> pntoh16 d (ext + 3);
     Some (if unat slen \<le> elen - 5 then Some (ext + 5, elen - 5, unat slen) else None) } }"

definition TLSExtractHostFromExt :: "bytes \<Rightarrow> nat \<Rightarrow> nat \<Rightarrow> nat \<Rightarrow> bytes option option" where
  "TLSExtractHostFromExt d ext elen len_host = do {
     r \<leftarrow> TLSAdvanceToHostInSNI d ext elen;
     case r of None \<Rightarrow> Some None
     | Some (ext, elen, slen) \<Rightarrow>
         if len_host \<noteq> 0 then do {
           t \<leftarrow> rd_block d ext (if slen \<ge> len_host then len_host - 1 else slen);
           Some (Some (map to_lower t)) }
         else Some (Some []) }"

definition TLSHelloExtractHost :: "bytes \<Rightarrow> nat \<Rightarrow> nat \<Rightarrow> bool \<Rightarrow> bytes option option" where
  "TLSHelloExtractHost d len len_host bPartialIsOK = do {
     r \<leftarrow> TLSFindExt d len 0 bPartialIsOK;
     case r of None \<Rightarrow> Some None | Some (ext, elen) \<Rightarrow> TLSExtractHostFromExt d ext elen len_host }"

definition TLSHelloExtractHostFromHandshake :: "bytes \<Rightarrow> nat \<Rightarrow> nat \<Rightarrow> nat \<Rightarrow> bool \<Rightarrow> bytes option option" where
  "TLSHelloExtractHostFromHandshake d p len len_host bPartialIsOK = do {
     r \<leftarrow> TLSFindExtInHandshake d p len 0 bPartialIsOK;
     case r of None \<Rightarrow> Some None | Some (ext, elen) \<Rightarrow> TLSExtractHostFromExt d ext elen len_host }"

subsection \<open>Positions\<close>

definition TLSPos :: "t_marker \<Rightarrow> u16 \<Rightarrow> bytes \<Rightarrow> nat \<Rightarrow> int option" where
  "TLSPos posmarker pos d sz =
     (if posmarker \<in> {PM_HOST, PM_HOST_END, PM_HOST_SLD, PM_HOST_MIDSLD, PM_HOST_ENDSLD, PM_SNI_EXT} then do {
        r \<leftarrow> TLSFindExt d sz 0 True;
        case r of None \<Rightarrow> Some POS_NOT_FOUND
        | Some (ext, elen) \<Rightarrow>
            if posmarker = PM_SNI_EXT then Some (CheckPos sz (int ext + sint pos))
            else do {
              r \<leftarrow> TLSAdvanceToHostInSNI d ext elen;
              case r of None \<Rightarrow> Some POS_NOT_FOUND
              | Some (ext, elen, len) \<Rightarrow> HostPos posmarker pos d sz ext len } }
      else if posmarker = PM_EXT_LEN then do {
        r \<leftarrow> TLSFindExtLen d sz;
        Some (case r of None \<Rightarrow> POS_NOT_FOUND | Some off \<Rightarrow> CheckPos sz (int off + sint pos)) }
      else Some (AnyProtoPos posmarker pos sz))"

definition ResolvePos :: "bytes \<Rightarrow> nat \<Rightarrow> t_l7payload \<Rightarrow> proto_pos \<Rightarrow> int option" where
  "ResolvePos d sz l7payload sp =
     (case l7payload of
        L7P_HTTP_REQ \<Rightarrow> HttpPos (pm_marker sp) (pm_pos sp) d sz
      | L7P_TLS_CLIENT_HELLO \<Rightarrow> TLSPos (pm_marker sp) (pm_pos sp) d sz
      | _ \<Rightarrow> Some (AnyProtoPos (pm_marker sp) (pm_pos sp) sz))"

text \<open>The loop writes the positions found one after the other into \<open>pos\<close>; \<open>j\<close> is their number.\<close>

fun resolve_loop :: "bytes \<Rightarrow> nat \<Rightarrow> t_l7payload \<Rightarrow> proto_pos list \<Rightarrow> int list \<Rightarrow> nat \<Rightarrow> (int list \<times> nat) option" where
  "resolve_loop d sz l7payload [] pos j = Some (pos, j)"
| "resolve_loop d sz l7payload (m # ms) pos j = do {
     v \<leftarrow> ResolvePos d sz l7payload m;
     pos \<leftarrow> wr pos j v;
     resolve_loop d sz l7payload ms pos (if v \<noteq> POS_NOT_FOUND then j + 1 else j) }"

definition ResolveMultiPos :: "bytes \<Rightarrow> nat \<Rightarrow> t_l7payload \<Rightarrow> proto_pos list \<Rightarrow> int list \<Rightarrow> (int list \<times> nat) option" where
  "ResolveMultiPos d sz l7payload marker pos = do {
     (pos, j) \<leftarrow> resolve_loop d sz l7payload marker pos 0;
     unique_ssize_t (qsort_ssize_t pos j) j }"

subsection \<open>No access outside the buffer\<close>

lemma IsTLSHandshakeFull_wp: "p + 4 \<le> length d \<Longrightarrow> returns (\<lambda>_. True) (IsTLSHandshakeFull d p len)"
  by (simp add: IsTLSHandshakeFull_def TLSHandshakeLen_def TLSHandshakeDataLen_def wp be24.get_wp)

lemma IsTLSHandshakeHello_wp:
  assumes "p + len \<le> length d"
  shows "returns (\<lambda>r. r \<longrightarrow> 6 \<le> len) (IsTLSHandshakeHello d p len type b)"
proof (cases "len \<ge> 6")
  case True
  with assms have "p + 4 \<le> length d" by simp
  then obtain f where "IsTLSHandshakeFull d p len = Some f" using IsTLSHandshakeFull_wp[of p d len] by (auto simp: returns_def)
  with True assms show ?thesis by (simp add: IsTLSHandshakeHello_def wp)
qed (simp add: IsTLSHandshakeHello_def)

lemma IsTLSHello_wp:
  assumes len: "len \<le> length d"
  shows "returns (\<lambda>r. r \<longrightarrow> 11 \<le> len) (IsTLSHello d len type b)"
proof (cases "len \<ge> 6")
  case True
  have "returns (\<lambda>_. True) (IsTLSRecordFull d 0 len)"
    using True len by (simp add: IsTLSRecordFull_def TLSRecordLen_def TLSRecordDataLen_def wp be16.get_wp)
  then obtain f where f: "IsTLSRecordFull d 0 len = Some f" by (auto simp: returns_def)
  have "5 + (len - 5) \<le> length d" using True len by simp
  from IsTLSHandshakeHello_wp[OF this, of type b] True len f show ?thesis
    by (auto simp: IsTLSHello_def wp elim!: returns_mono)
qed (simp add: IsTLSHello_def)

lemma TLSFindExtLenOffsetInHandshake_wp:
  assumes "p + len \<le> length d"
  shows "returns (\<lambda>r. \<forall>l. r = Some l \<longrightarrow> 42 \<le> l \<and> l + 2 \<le> len) (TLSFindExtLenOffsetInHandshake d p len)"
  using assms by (auto simp: TLSFindExtLenOffsetInHandshake_def wp Let_def not_less intro!: be16.get_wp)

lemma TLSFindExtLen_wp:
  "len \<le> length d \<Longrightarrow> returns (\<lambda>r. \<forall>l. r = Some l \<longrightarrow> 47 \<le> l \<and> l + 2 \<le> len) (TLSFindExtLen d len)"
proof (cases "len < 5")
  case False
  assume "len \<le> length d"
  moreover obtain m where m: "len = 5 + m" using False le_Suc_ex[of 5 len] by auto
  ultimately show ?thesis
    using TLSFindExtLenOffsetInHandshake_wp[of 5 m d] by (auto simp: TLSFindExtLen_def wp elim!: returns_mono)
qed (simp add: TLSFindExtLen_def)

lemma find_ext_loop_wp:
  "p + l \<le> length d \<Longrightarrow>
   returns (\<lambda>r. \<forall>q n. r = Some (q, n) \<longrightarrow> p + 4 \<le> q \<and> q + n \<le> p + l) (find_ext_loop d p l type)"
proof (induction d p l type rule: find_ext_loop.induct)
  case (1 d p l type)
  show ?case
  proof (cases "4 \<le> l")
    case True
    with "1.prems" obtain t n where t: "pntoh16 d p = Some t" "pntoh16 d (p + 2) = Some n"
      using be16.get_Some_iff[of d p] be16.get_Some_iff[of d "p + 2"] by auto
    show ?thesis
    proof (cases "l - 4 < unat n \<or> t = type")
      case False
      have "returns (\<lambda>r. \<forall>q m. r = Some (q, m) \<longrightarrow> p + 4 + unat n + 4 \<le> q \<and> q + m \<le> p + 4 + unat n + (l - 4 - unat n))
         (find_ext_loop d (p + 4 + unat n) (l - 4 - unat n) type)"
        by (rule "1.IH"[OF True t]) (use False True "1.prems" in auto)
      then show ?thesis using True t False
        by (subst find_ext_loop.simps) (auto elim!: returns_mono)
    qed (use True t "1.prems" in \<open>subst find_ext_loop.simps; auto\<close>)
  qed (subst find_ext_loop.simps; simp)
qed

lemma TLSFindExtInHandshake_wp:
  assumes len: "p + len \<le> length d" and b: "b \<or> p + 4 \<le> length d"
  shows "returns (\<lambda>r. \<forall>q n. r = Some (q, n) \<longrightarrow> p + 48 \<le> q \<and> q + n \<le> p + len) (TLSFindExtInHandshake d p len type b)"
proof -
  have f: "returns (\<lambda>_. True) (cor (Some b) (IsTLSHandshakeFull d p len))"
    using b IsTLSHandshakeFull_wp[of p d len] by auto
  have loop: "returns (\<lambda>r. \<forall>q n. r = Some (q, n) \<longrightarrow> p + 48 \<le> q \<and> q + n \<le> p + len) (find_ext_loop d (Suc (Suc (p + l))) k type)"
    if "42 \<le> l" "Suc (Suc l) \<le> len" "k \<le> len - Suc (Suc l)" for l k
    by (rule returns_mono[OF find_ext_loop_wp]) (use that len in auto)
  show ?thesis
    unfolding TLSFindExtInHandshake_def
    by (subst returns_bind, rule returns_mono[OF f], simp, intro conjI impI, subst returns_bind,
        rule returns_mono[OF TLSFindExtLenOffsetInHandshake_wp[OF len]])
       (use len in \<open>auto simp: wp Let_def split: option.split intro!: be16.get_wp loop\<close>)
qed

lemma TLSFindExt_wp:
  assumes len: "len \<le> length d"
  shows "returns (\<lambda>r. \<forall>q n. r = Some (q, n) \<longrightarrow> 53 \<le> q \<and> q + n \<le> len) (TLSFindExt d len type b)"
proof -
  have ext: "returns (\<lambda>r. \<forall>q n. r = Some (q, n) \<longrightarrow> 53 \<le> q \<and> q + n \<le> len) (TLSFindExtInHandshake d 5 k type b)"
    if "11 \<le> len" "k + 5 \<le> len" for k
    by (rule returns_mono[OF TLSFindExtInHandshake_wp]) (use that len in auto)
  show ?thesis
    unfolding TLSFindExt_def
    by (subst returns_bind, rule returns_mono[OF IsTLSHello_wp[OF len]])
       (use len in \<open>auto simp: wp Let_def TLSRecordLen_def TLSRecordDataLen_def intro!: be16.get_wp ext\<close>)
qed

lemma TLSAdvanceToHostInSNI_wp:
  assumes "ext + elen \<le> length d"
  shows "returns (\<lambda>r. \<forall>e n s. r = Some (e, n, s) \<longrightarrow> e = ext + 5 \<and> e + n = ext + elen \<and> s \<le> n)
    (TLSAdvanceToHostInSNI d ext elen)"
  using assms by (auto simp: TLSAdvanceToHostInSNI_def wp intro!: be16.get_wp)

lemma TLSExtractHostFromExt_wp:
  assumes "ext + elen \<le> length d"
  shows "returns (\<lambda>_. True) (TLSExtractHostFromExt d ext elen n)"
  unfolding TLSExtractHostFromExt_def wp
  by (rule returns_mono[OF TLSAdvanceToHostInSNI_wp[OF assms]]) (use assms in \<open>auto simp: wp split: option.split\<close>)

lemma TLSHelloExtractHost_wp:
  assumes "len \<le> length d"
  shows "returns (\<lambda>_. True) (TLSHelloExtractHost d len n b)"
  unfolding TLSHelloExtractHost_def wp
  by (rule returns_mono[OF TLSFindExt_wp[OF assms]])
     (use assms in \<open>auto split: option.split intro!: TLSExtractHostFromExt_wp\<close>)

lemma TLSPos_wp:
  assumes sz: "sz \<le> length d"
  shows "returns (pos_in sz) (TLSPos m pos d sz)"
proof -
  have "returns (\<lambda>v. \<forall>e n s. v = Some (e, n, s) \<longrightarrow> returns (pos_in sz) (HostPos m pos d sz e s))
      (TLSAdvanceToHostInSNI d ext elen)" if "ext + elen \<le> sz" for ext elen
    by (rule returns_mono[OF TLSAdvanceToHostInSNI_wp]) (use that sz in \<open>auto intro!: HostPos_wp\<close>)
  then show ?thesis
    unfolding TLSPos_def
    by (auto simp: returns_bind AnyProtoPos_in split: option.split
        intro!: returns_mono[OF TLSFindExt_wp[OF sz]] returns_mono[OF TLSFindExtLen_wp[OF sz]])
qed

lemma ResolvePos_wp:
  "sz \<le> length d \<Longrightarrow> returns (pos_in sz) (ResolvePos d sz l7 m)"
  by (simp add: ResolvePos_def HttpPos_wp TLSPos_wp AnyProtoPos_in split: t_l7payload.split)

lemma resolve_loop_wp:
  assumes sz: "sz \<le> length d"
  shows "j + length ms \<le> length pos \<Longrightarrow> list_all (\<lambda>p. 0 \<le> p \<and> p < int sz) (take j pos) \<Longrightarrow>
   returns (\<lambda>(pos', j'). j \<le> j' \<and> j' \<le> j + length ms \<and> length pos' = length pos
      \<and> list_all (\<lambda>p. 0 \<le> p \<and> p < int sz) (take j' pos')
      \<and> set (take j' pos') = set (take j pos) \<union> {p. p \<noteq> POS_NOT_FOUND \<and> (\<exists>m \<in> set ms. ResolvePos d sz l7 m = Some p)})
     (resolve_loop d sz l7 ms pos j)"
proof (induction ms arbitrary: pos j)
  case Nil
  then show ?case by simp
next
  case (Cons m ms)
  from ResolvePos_wp[OF sz, of l7 m] obtain v where v: "ResolvePos d sz l7 m = Some v" "pos_in sz v"
    by (auto simp: returns_def)
  have j: "j < length pos" using Cons.prems(1) by simp
  show ?case
  proof (cases "v = POS_NOT_FOUND")
    case True
    have t: "take j (pos[j := v]) = take j pos" by simp
    have "returns (\<lambda>(pos', j'). j \<le> j' \<and> j' \<le> j + length ms \<and> length pos' = length (pos[j := v])
      \<and> list_all (\<lambda>p. 0 \<le> p \<and> p < int sz) (take j' pos')
      \<and> set (take j' pos') = set (take j (pos[j := v])) \<union> {p. p \<noteq> POS_NOT_FOUND \<and> (\<exists>m \<in> set ms. ResolvePos d sz l7 m = Some p)})
     (resolve_loop d sz l7 ms (pos[j := v]) j)"
      by (rule Cons.IH) (use Cons.prems in simp_all)
    then show ?thesis using True v j by (auto simp: t elim!: returns_mono)
  next
    case False
    then have r: "0 \<le> v \<and> v < int sz" using v by (simp add: pos_in_def)
    have t: "take (j + 1) (pos[j := v]) = take j pos @ [v]" using j by (simp add: take_Suc_conv_app_nth)
    have "returns (\<lambda>(pos', j'). j + 1 \<le> j' \<and> j' \<le> j + 1 + length ms \<and> length pos' = length (pos[j := v])
      \<and> list_all (\<lambda>p. 0 \<le> p \<and> p < int sz) (take j' pos')
      \<and> set (take j' pos') = set (take (j + 1) (pos[j := v])) \<union> {p. p \<noteq> POS_NOT_FOUND \<and> (\<exists>m \<in> set ms. ResolvePos d sz l7 m = Some p)})
     (resolve_loop d sz l7 ms (pos[j := v]) (j + 1))"
      by (rule Cons.IH) (use Cons.prems r in \<open>simp_all add: t del: One_nat_def\<close>)
    then show ?thesis using False v j by (auto simp: t elim!: returns_mono simp del: One_nat_def)
  qed
qed

lemma ResolveMultiPos_sorted:
  assumes sz: "sz \<le> length d" and n: "length ms \<le> length pos"
  shows "\<exists>pos' n. ResolveMultiPos d sz l7 ms pos = Some (pos', n) \<and> sorted_wrt (<) (take n pos')
    \<and> set (take n pos') = {p. p \<noteq> POS_NOT_FOUND \<and> (\<exists>m \<in> set ms. ResolvePos d sz l7 m = Some p)}
    \<and> (\<forall>p \<in> set (take n pos'). 0 \<le> p \<and> p < int sz)"
proof -
  from resolve_loop_wp[OF sz, of 0 ms pos l7] n obtain q j where
    q: "resolve_loop d sz l7 ms pos 0 = Some (q, j)" "j \<le> length ms" "length q = length pos"
      "list_all (\<lambda>p. 0 \<le> p \<and> p < int sz) (take j q)"
      "set (take j q) = {p. p \<noteq> POS_NOT_FOUND \<and> (\<exists>m \<in> set ms. ResolvePos d sz l7 m = Some p)}"
    by (auto simp: returns_def)
  have s: "take j (qsort_ssize_t q j) = sort (take j q)" "j \<le> length (qsort_ssize_t q j)"
    using q(2,3) n by (simp_all add: qsort_ssize_t_def)
  from unique_ssize_t_remdups[OF s(2)] obtain p' k where
    u: "unique_ssize_t (qsort_ssize_t q j) j = Some (p', k)" "take k p' = remdups_adj (sort (take j q))"
    by (auto simp: s)
  have "sorted_wrt (<) (take k p')" unfolding u(2) by (rule sorted_strict_remdups_adj) simp
  moreover have "set (take k p') = set (take j q)" unfolding u(2) by simp
  ultimately show ?thesis
    using q u by (auto simp: ResolveMultiPos_def list_all_iff)
qed

subsection \<open>A hello message and its extensions\<close>

text \<open>Extensions as pairs of type and content, how they are laid out, and where the first of a type is.\<close>

definition ext_bytes :: "u16 \<times> bytes \<Rightarrow> bytes" where
  "ext_bytes = (\<lambda>(t, b). be_bytes 2 t @ be_bytes 2 (of_nat (length b) :: u16) @ b)"

definition exts_bytes :: "(u16 \<times> bytes) list \<Rightarrow> bytes" where
  "exts_bytes xs = concat (map ext_bytes xs)"

definition ext_ok :: "u16 \<times> bytes \<Rightarrow> bool" where
  "ext_ok x \<longleftrightarrow> length (snd x) < 65536"

fun ext_at :: "nat \<Rightarrow> u16 \<Rightarrow> (u16 \<times> bytes) list \<Rightarrow> (nat \<times> nat) option" where
  "ext_at p type [] = None"
| "ext_at p type ((t, b) # xs) = (if t = type then Some (p + 4, length b) else ext_at (p + 4 + length b) type xs)"

lemma exts_bytes_simps [simp]:
  "exts_bytes [] = []" "exts_bytes (x # xs) = ext_bytes x @ exts_bytes xs"
  by (simp_all add: exts_bytes_def)

lemma length_ext_bytes [simp]: "length (ext_bytes (t, b)) = 4 + length b"
  by (simp add: ext_bytes_def del: be_bytes_numeral)

lemma unat_len16: "n < 65536 \<Longrightarrow> unat (of_nat n :: u16) = n"
  by (simp add: unat_of_nat)

lemma find_ext_loop_exts:
  "list_all ext_ok xs \<Longrightarrow> p = length pre \<Longrightarrow>
   find_ext_loop (pre @ exts_bytes xs @ rest) p (length (exts_bytes xs)) type = Some (ext_at p type xs)"
proof (induction xs arbitrary: pre p)
  case Nil
  then show ?case by (subst find_ext_loop.simps) simp
next
  case (Cons x xs)
  obtain t b where x: "x = (t, b)" by (cases x)
  let ?d = "pre @ exts_bytes (x # xs) @ rest"
  have b: "length b < 65536" using Cons.prems(1) x by (simp add: ext_ok_def)
  have d1: "?d = pre @ be_bytes 2 t @ (be_bytes 2 (of_nat (length b) :: u16) @ b @ exts_bytes xs @ rest)"
    and d2: "?d = (pre @ be_bytes 2 t) @ be_bytes 2 (of_nat (length b) :: u16) @ (b @ exts_bytes xs @ rest)"
    and d3: "?d = (pre @ ext_bytes (t, b)) @ exts_bytes xs @ rest"
    by (simp_all add: x ext_bytes_def del: be_bytes_numeral)
  have t: "pntoh16 ?d p = Some t"
    unfolding d1 by (rule be16.get_at_exact) (use Cons.prems in simp_all)
  have n: "pntoh16 ?d (p + 2) = Some (of_nat (length b))"
    unfolding d2 by (rule be16.get_at_exact) (use Cons.prems in \<open>simp_all del: be_bytes_numeral\<close>)
  have ih: "find_ext_loop ?d (p + 4 + length b) (length (exts_bytes xs)) type = Some (ext_at (p + 4 + length b) type xs)"
    unfolding d3 by (rule Cons.IH) (use Cons.prems x in simp_all)
  have l: "length (exts_bytes (x # xs)) = 4 + (length b + length (exts_bytes xs))" by (simp add: x)
  show ?case
    unfolding l find_ext_loop.simps[of ?d p] t n option.case unat_len16[OF b]
    using ih by (simp add: x)
qed

text \<open>A ClientHello in one record, its lengths computed from its parts.\<close>

definition hello_body :: "bytes \<Rightarrow> bytes \<Rightarrow> bytes \<Rightarrow> bytes \<Rightarrow> (u16 \<times> bytes) list \<Rightarrow> bytes" where
  "hello_body rnd sid ciphers cmps exts =
     [3, 3] @ rnd @ [of_nat (length sid)] @ sid @ be_bytes 2 (of_nat (length ciphers) :: u16) @ ciphers
     @ [of_nat (length cmps)] @ cmps @ be_bytes 2 (of_nat (length (exts_bytes exts)) :: u16) @ exts_bytes exts"

definition client_hello :: "bytes \<Rightarrow> bytes \<Rightarrow> bytes \<Rightarrow> bytes \<Rightarrow> (u16 \<times> bytes) list \<Rightarrow> bytes" where
  "client_hello rnd sid ciphers cmps exts =
     (let body = hello_body rnd sid ciphers cmps exts in
      [0x16, 3, 1] @ be_bytes 2 (of_nat (length body + 4) :: u16)
      @ [1] @ be_bytes 3 (of_nat (length body) :: u32) @ body)"

definition hello_ok :: "bytes \<Rightarrow> bytes \<Rightarrow> bytes \<Rightarrow> bytes \<Rightarrow> (u16 \<times> bytes) list \<Rightarrow> bool" where
  "hello_ok rnd sid ciphers cmps exts \<longleftrightarrow> length rnd = 32 \<and> length sid < 256 \<and> length ciphers < 65536
     \<and> length cmps < 256 \<and> list_all ext_ok exts \<and> length (hello_body rnd sid ciphers cmps exts) < 65532"

definition exts_start :: "bytes \<Rightarrow> bytes \<Rightarrow> bytes \<Rightarrow> nat" where
  "exts_start sid ciphers cmps = 5 + 4 + 2 + 32 + 1 + length sid + 2 + length ciphers + 1 + length cmps + 2"

lemma rd_at: "p = length pre \<Longrightarrow> rd (pre @ x # rest) p = Some x"
  by (simp add: rd_def)

lemma length_client_hello:
  "hello_ok rnd sid ciphers cmps exts \<Longrightarrow>
   length (client_hello rnd sid ciphers cmps exts) = exts_start sid ciphers cmps + length (exts_bytes exts)"
  by (simp add: client_hello_def hello_body_def hello_ok_def exts_start_def Let_def)

lemma client_hello_is_hello:
  assumes ok: "hello_ok rnd sid ciphers cmps exts"
    and d_def: "d = client_hello rnd sid ciphers cmps exts @ rest"
    and n: "length (client_hello rnd sid ciphers cmps exts) \<le> n"
  shows "IsTLSHello d n t b = Some (t = 0 \<or> t = 1)"
    and "TLSRecordLen d 0 = Some (length (client_hello rnd sid ciphers cmps exts))"
    and "IsTLSHandshakeFull d 5 (length (client_hello rnd sid ciphers cmps exts) - 5) = Some True"
proof -
  define body where "body = hello_body rnd sid ciphers cmps exts"
  have lb: "length body < 65532" using ok by (simp add: hello_ok_def body_def)
  have body: "body = 3 # 3 # drop 2 body" by (simp add: body_def hello_body_def)
  have d: "d = [0x16, 3, 1] @ be_bytes 2 (of_nat (length body + 4) :: u16) @ ([1] @ be_bytes 3 (of_nat (length body) :: u32) @ body @ rest)"
    and d': "d = ([0x16, 3, 1] @ be_bytes 2 (of_nat (length body + 4) :: u16) @ [1]) @ be_bytes 3 (of_nat (length body) :: u32) @ (body @ rest)"
    by (simp_all add: d_def client_hello_def body_def Let_def del: be_bytes_numeral)
  have hl: "length (client_hello rnd sid ciphers cmps exts) = 9 + length body"
    by (simp add: client_hello_def body_def Let_def)
  have ld: "length d = 9 + length body + length rest" by (simp add: d_def hl)
  have u: "unat (of_nat (length body + 4) :: u16) = length body + 4" using lb by (intro unat_len16) simp
  have u3: "unat (of_nat (length body) :: u32) = length body" using lb by (simp add: unat_of_nat)
  have r: "pntoh16 d 3 = Some (of_nat (length body + 4))"
    unfolding d by (rule be16.get_at_exact) (use u lb in simp_all)
  then show rec: "TLSRecordLen d 0 = Some (length (client_hello rnd sid ciphers cmps exts))"
    using u by (simp add: TLSRecordLen_def TLSRecordDataLen_def hl)
  have h: "pntoh24 d 6 = Some (of_nat (length body))"
    unfolding d' by (rule be24.get_at_exact) (use u3 lb in \<open>simp_all del: be_bytes_numeral\<close>)
  then have full: "IsTLSHandshakeFull d 5 n = Some (length body + 4 \<le> n)" for n
    using u3 by (simp add: IsTLSHandshakeFull_def TLSHandshakeLen_def TLSHandshakeDataLen_def)
  then show "IsTLSHandshakeFull d 5 (length (client_hello rnd sid ciphers cmps exts) - 5) = Some True"
    by (simp add: hl)
  have b: "rd d 0 = Some 0x16" "rd d 1 = Some 3" "rd d 2 = Some 1" "rd d 5 = Some 1"
    "rd d 9 = Some 3" "rd d 10 = Some 3"
    unfolding d by (subst body, simp add: rd_def)+
  have "10 < n" using arg_cong[OF body, of length] n hl by simp
  then show "IsTLSHello d n t b = Some (t = 0 \<or> t = 1)"
    using b rec full[of "n - 5"] n unfolding IsTLSHello_def IsTLSHandshakeHello_def IsTLSRecordFull_def
    by (auto simp: hl)
qed

lemma client_hello_ext_len:
  assumes ok: "hello_ok rnd sid ciphers cmps exts"
    and n: "length (client_hello rnd sid ciphers cmps exts) \<le> n + 5"
    and d_def: "d = client_hello rnd sid ciphers cmps exts @ rest"
  shows "TLSFindExtLenOffsetInHandshake d 5 n = Some (Some (exts_start sid ciphers cmps - 7))"
    and "pntoh16 d (exts_start sid ciphers cmps - 2) = Some (of_nat (length (exts_bytes exts)))"
    and "d = take (exts_start sid ciphers cmps) d @ exts_bytes exts @ rest"
    and "exts_start sid ciphers cmps \<le> length d"
proof -
  let ?B = "hello_body rnd sid ciphers cmps exts"
  define h1 where "h1 = [0x16, 3, 1] @ be_bytes 2 (of_nat (length ?B + 4) :: u16) @ [1 :: u8]
     @ be_bytes 3 (of_nat (length ?B) :: u32) @ [3, 3] @ rnd"
  define e where "e = be_bytes 2 (of_nat (length (exts_bytes exts)) :: u16) @ exts_bytes exts @ rest"
  have b: "length rnd = 32" "length sid < 256" "length ciphers < 65536" "length cmps < 256"
    "length (exts_bytes exts) < 65536" using ok by (simp_all add: hello_ok_def hello_body_def)
  have d1: "d = h1 @ of_nat (length sid) # (sid @ be_bytes 2 (of_nat (length ciphers) :: u16) @ ciphers @ of_nat (length cmps) # cmps @ e)"
    by (simp add: d_def client_hello_def hello_body_def h1_def e_def Let_def del: be_bytes_numeral)
  then have d2: "d = (h1 @ of_nat (length sid) # sid) @ be_bytes 2 (of_nat (length ciphers) :: u16) @ (ciphers @ of_nat (length cmps) # cmps @ e)"
    and d3: "d = (h1 @ of_nat (length sid) # sid @ be_bytes 2 (of_nat (length ciphers) :: u16) @ ciphers) @ of_nat (length cmps) # (cmps @ e)"
    and d4: "d = (h1 @ of_nat (length sid) # sid @ be_bytes 2 (of_nat (length ciphers) :: u16) @ ciphers @ of_nat (length cmps) # cmps)
        @ be_bytes 2 (of_nat (length (exts_bytes exts)) :: u16) @ (exts_bytes exts @ rest)"
    by (simp_all add: e_def del: be_bytes_numeral)
  have l1: "length h1 = 43" using b by (simp add: h1_def)
  have r1: "rd d 43 = Some (of_nat (length sid))" unfolding d1 by (rule rd_at) (simp add: l1)
  have r2: "pntoh16 d (44 + length sid) = Some (of_nat (length ciphers))"
    unfolding d2 by (rule be16.get_at_exact) (use b in \<open>simp_all add: l1 unat_len16\<close>)
  have r3: "rd d (46 + length sid + length ciphers) = Some (of_nat (length cmps))"
    unfolding d3 by (rule rd_at) (simp add: l1)
  have r0: "rd d 5 = Some 1" unfolding d1 by (simp add: h1_def rd_def)
  have u: "unat (of_nat (length sid) :: u8) = length sid" "unat (of_nat (length ciphers) :: u16) = length ciphers"
    "unat (of_nat (length cmps) :: u8) = length cmps" using b by (simp_all add: unat_of_nat)
  have len: "exts_start sid ciphers cmps \<le> n + 5" using n length_client_hello[OF ok] by simp
  show "TLSFindExtLenOffsetInHandshake d 5 n = Some (Some (exts_start sid ciphers cmps - 7))"
    using r0 r1 r2 r3 u len unfolding TLSFindExtLenOffsetInHandshake_def exts_start_def Let_def
    by (simp add: ac_simps)
  show "pntoh16 d (exts_start sid ciphers cmps - 2) = Some (of_nat (length (exts_bytes exts)))"
    unfolding d4 by (rule be16.get_at_exact) (use b in \<open>simp_all add: l1 unat_len16 exts_start_def del: be_bytes_numeral\<close>)
  have s: "length (h1 @ of_nat (length sid) # sid @ be_bytes 2 (of_nat (length ciphers) :: u16) @ ciphers @ of_nat (length cmps) # cmps
      @ be_bytes 2 (of_nat (length (exts_bytes exts)) :: u16)) = exts_start sid ciphers cmps"
    by (simp add: l1 exts_start_def)
  have d5: "d = (h1 @ of_nat (length sid) # sid @ be_bytes 2 (of_nat (length ciphers) :: u16) @ ciphers @ of_nat (length cmps) # cmps
      @ be_bytes 2 (of_nat (length (exts_bytes exts)) :: u16)) @ exts_bytes exts @ rest"
    unfolding d4 by (simp del: be_bytes_numeral)
  show "d = take (exts_start sid ciphers cmps) d @ exts_bytes exts @ rest"
    by (subst (2) d5, subst s[symmetric], subst append_eq_conv_conj[THEN iffD1, OF refl, THEN conjunct1, symmetric], rule d5)
  show "exts_start sid ciphers cmps \<le> length d"
    using arg_cong[OF d5, of length] s by simp
qed

lemma TLSFindExt_client_hello:
  assumes ok: "hello_ok rnd sid ciphers cmps exts"
    and d: "d = client_hello rnd sid ciphers cmps exts @ rest"
    and len: "length (client_hello rnd sid ciphers cmps exts) \<le> len"
  shows "TLSFindExt d len type b = Some (ext_at (exts_start sid ciphers cmps) type exts)"
proof -
  let ?n = "length (client_hello rnd sid ciphers cmps exts)"
  let ?s = "exts_start sid ciphers cmps"
  note h = client_hello_is_hello[OF ok d len]
  have n: "?n = ?s + length (exts_bytes exts)" by (rule length_client_hello[OF ok])
  have s: "47 \<le> ?s" by (simp add: exts_start_def)
  have le: "?n \<le> (?n - 5) + 5" using n s by simp
  note e = client_hello_ext_len[OF ok le d]
  have x: "length (exts_bytes exts) < 65536" using ok by (simp add: hello_ok_def hello_body_def)
  have m: "(if ?n < len then ?n else len) = ?n" using len by simp
  define k where "k = ?s - 7"
  have k: "?s = k + 7" using s by (simp add: k_def)
  have e1: "TLSFindExtLenOffsetInHandshake d 5 (?n - 5) = Some (Some k)" using e(1) by (simp only: k_def)
  have e2: "pntoh16 d (5 + k) = Some (of_nat (length (exts_bytes exts)))" using e(2) by (simp add: k)
  have sub: "?n - 5 - k - 2 = length (exts_bytes exts)" "5 + k + 2 = ?s" using n by (simp_all add: k)
  have loop: "find_ext_loop d ?s (length (exts_bytes exts)) type = Some (ext_at ?s type exts)"
    by (subst e(3), rule find_ext_loop_exts)
       (use ok e(4) in \<open>simp_all add: hello_ok_def\<close>)
  have hs: "TLSFindExtInHandshake d 5 (?n - 5) type b = Some (ext_at ?s type exts)"
    unfolding TLSFindExtInHandshake_def
    by (simp only: h(3) e1 e2 sub loop unat_len16[OF x] Let_def option.case bind.bind_lunit cor_Some)
       (simp add: loop)
  show ?thesis
    unfolding TLSFindExt_def using h(1)[where t = 0 and b = b] h(2) m hs by (simp add: Let_def)
qed

text \<open>The content of a server name extension with one host name.\<close>

definition sni_body :: "bytes \<Rightarrow> bytes" where
  "sni_body name = be_bytes 2 (of_nat (length name + 3) :: u16) @ [0] @ be_bytes 2 (of_nat (length name) :: u16) @ name"

lemma ext_at_drop:
  "ext_at p type (xs @ (type, c) # ys) = Some (p + length (exts_bytes xs) + 4, length c)"
  if "type \<notin> fst ` set xs"
  using that by (induction p type xs rule: ext_at.induct) (auto simp: add.assoc add.commute add.left_commute)

lemma TLSAdvance_client_hello:
  assumes ok: "hello_ok rnd sid ciphers cmps (xs @ (0, sni_body name) # ys)"
    and d: "d = client_hello rnd sid ciphers cmps (xs @ (0, sni_body name) # ys) @ rest"
    and name: "length name < 65000"
    and q: "q = exts_start sid ciphers cmps + length (exts_bytes xs) + 4"
  shows "TLSAdvanceToHostInSNI d q (length (sni_body name)) = Some (Some (q + 5, length name, length name))"
proof -
  let ?e = "xs @ (0, sni_body name) # ys"
  let ?s = "exts_start sid ciphers cmps"
  define pre where "pre = take ?s d @ exts_bytes xs @ be_bytes 2 (0 :: u16) @ be_bytes 2 (of_nat (length (sni_body name)) :: u16)"
  have le: "length (client_hello rnd sid ciphers cmps ?e) \<le> length d + 5" using d by simp
  note e = client_hello_ext_len[OF ok le d]
  have d1: "d = pre @ sni_body name @ exts_bytes ys @ rest"
    using e(3) by (simp add: exts_bytes_def ext_bytes_def pre_def del: be_bytes_numeral)
  have q: "q = length pre" using e(4) by (simp add: q pre_def)
  have d2: "d = (pre @ be_bytes 2 (of_nat (length name + 3) :: u16)) @ 0 # (be_bytes 2 (of_nat (length name) :: u16) @ name @ exts_bytes ys @ rest)"
    and d3: "d = (pre @ be_bytes 2 (of_nat (length name + 3) :: u16) @ [0]) @ be_bytes 2 (of_nat (length name) :: u16) @ (name @ exts_bytes ys @ rest)"
    by (simp_all add: d1 sni_body_def del: be_bytes_numeral)
  have r: "rd d (q + 2) = Some 0" unfolding d2 by (rule rd_at) (simp add: q)
  have s: "pntoh16 d (q + 3) = Some (of_nat (length name))"
    unfolding d3 by (rule be16.get_at_exact) (use name in \<open>simp_all add: q unat_len16\<close>)
  have l: "length (sni_body name) = length name + 5" by (simp add: sni_body_def)
  show ?thesis
    unfolding TLSAdvanceToHostInSNI_def l using r s unat_len16[of "length name"] name by simp
qed

lemma TLS_host_found:
  assumes ok: "hello_ok rnd sid ciphers cmps (xs @ (0, sni_body name) # ys)" and "0 \<notin> fst ` set xs"
    and n: "0 < n" and name: "length name < 65000"
    and d: "d = client_hello rnd sid ciphers cmps (xs @ (0, sni_body name) # ys) @ rest"
  shows "TLSHelloExtractHost d (length d) n b = Some (Some (map to_lower (take (n - 1) name)))"
proof -
  let ?e = "xs @ (0, sni_body name) # ys"
  let ?s = "exts_start sid ciphers cmps"
  define q where "q = ?s + length (exts_bytes xs) + 4"
  define pre where "pre = take ?s d @ exts_bytes xs @ be_bytes 2 (0 :: u16) @ be_bytes 2 (of_nat (length (sni_body name)) :: u16)"
  define post where "post = exts_bytes ys @ rest"
  have le: "length (client_hello rnd sid ciphers cmps ?e) \<le> length d + 5" using d by simp
  note e = client_hello_ext_len[OF ok le d]
  have d1: "d = pre @ sni_body name @ post"
    using e(3) by (simp add: exts_bytes_def ext_bytes_def pre_def post_def del: be_bytes_numeral)
  have q: "q = length pre" using e(4) by (simp add: q_def pre_def)
  have f: "TLSFindExt d (length d) 0 b = Some (Some (q, length (sni_body name)))"
    using TLSFindExt_client_hello[OF ok d, of "length d" 0 b] d ext_at_drop[OF assms(2)] by (simp add: q_def)
  have d4: "d = (pre @ be_bytes 2 (of_nat (length name + 3) :: u16) @ [0] @ be_bytes 2 (of_nat (length name) :: u16)) @ name @ post"
    by (simp add: d1 sni_body_def del: be_bytes_numeral)
  have a: "TLSAdvanceToHostInSNI d q (length (sni_body name)) = Some (Some (q + 5, length name, length name))"
    by (rule TLSAdvance_client_hello[OF ok d name q_def])
  have b: "rd_block d (q + 5) k = Some (take k name)" if "k \<le> length name" for k
    using that unfolding d4 rd_block_def by (simp add: q)
  show ?thesis
    unfolding TLSHelloExtractHost_def TLSExtractHostFromExt_def f
    using n by (simp add: a b not_le)
qed

subsection \<open>Properties\<close>

text \<open>The TLS functions read nothing outside the \<open>len\<close> bytes they are given, whatever these contain; an
  extension they find lies inside, and so does every position.\<close>

theorem tls_safe:
  assumes "len \<le> length d"
  shows "IsTLSHello d len t b \<noteq> None
    \<and> (\<exists>r. TLSFindExt d len t' b = Some r \<and> (\<forall>q n. r = Some (q, n) \<longrightarrow> 53 \<le> q \<and> q + n \<le> len))
    \<and> TLSHelloExtractHost d len n b \<noteq> None
    \<and> (\<exists>p. TLSPos m pos d len = Some p \<and> (p = POS_NOT_FOUND \<or> 0 \<le> p \<and> p < int len))"
  using returns_defined[OF IsTLSHello_wp[OF assms]] returns_exists[OF TLSFindExt_wp[OF assms]]
    returns_defined[OF TLSHelloExtractHost_wp[OF assms]] returns_exists[OF TLSPos_wp[OF assms]]
  by (simp add: pos_in_def)

lemma tls_safe_witness:
  "TLSHelloExtractHost [0x16, 3, 1, 0, 0, 1, 0, 0, 0, 3, 3] 11 10 True \<noteq> None"
  using tls_safe[of 11 "[0x16, 3, 1, 0, 0, 1, 0, 0, 0, 3, 3]"] by simp

text \<open>In a ClientHello with the extensions \<open>exts\<close>, followed by anything, TLSFindExt finds the first extension
  of the type at its place, and finds none exactly if there is none.\<close>

theorem TLSFindExt_first:
  assumes "hello_ok rnd sid ciphers cmps exts" and "d = client_hello rnd sid ciphers cmps exts @ rest"
  shows "TLSFindExt d (length d) type b = Some (ext_at (exts_start sid ciphers cmps) type exts)"
  by (rule TLSFindExt_client_hello[OF assms]) (simp add: assms(2))

lemma TLSFindExt_first_witness:
  "\<exists>d. TLSFindExt d (length d) 10 False = Some (Some (60, 2))"
proof -
  have "hello_ok (replicate 32 7) [] [0x13, 1] [0] [(0, []), (10, [1, 2])]"
    by (simp add: hello_ok_def hello_body_def ext_ok_def ext_bytes_def)
  note f = TLSFindExt_first[OF this refl, of "[]" 10 False]
  have "ext_at (exts_start [] [0x13, 1] [0]) 10 [(0, []), (10, [1, 2])] = Some (60, 2)"
    by (simp add: exts_start_def)
  with f show ?thesis by (metis append_Nil2)
qed

text \<open>C29: The server name put into a ClientHello is the one that TLSHelloExtractHost takes out again, in lower case
  and cut to the caller's buffer.\<close>

theorem TLS_sni_roundtrip:
  assumes "hello_ok rnd sid ciphers cmps (xs @ (0, sni_body name) # ys)" and "0 \<notin> fst ` set xs"
    and "0 < n" and "length name < 65000"
    and "d = client_hello rnd sid ciphers cmps (xs @ (0, sni_body name) # ys) @ rest"
  shows "TLSHelloExtractHost d (length d) n b = Some (Some (map to_lower (take (n - 1) name)))"
  by (rule TLS_host_found[OF assms])

lemma TLS_sni_roundtrip_witness:
  "\<exists>d. TLSHelloExtractHost d (length d) 256 False = Some (Some (lit ''a.com''))"
proof -
  have "hello_ok (replicate 32 7) [] [0x13, 1] [0] ([(10, [1, 2])] @ (0, sni_body (lit ''A.com'')) # [])"
    by (simp add: hello_ok_def hello_body_def ext_ok_def ext_bytes_def sni_body_def)
  from TLS_sni_roundtrip[OF this _ _ _ refl, of 256 "[]" False] show ?thesis
    by (intro exI) (simp add: to_lower_def del: be_bytes_numeral)
qed

text \<open>ResolveMultiPos returns exactly the positions at which some marker resolves, once each, in increasing
  order, all of them inside the packet, for HTTP, TLS and other payloads alike.\<close>

theorem ResolveMultiPos_exact:
  assumes "sz \<le> length d" and "length ms \<le> length pos"
  shows "\<exists>pos' n. ResolveMultiPos d sz l7 ms pos = Some (pos', n) \<and> sorted_wrt (<) (take n pos')
    \<and> set (take n pos') = {p. p \<noteq> POS_NOT_FOUND \<and> (\<exists>m \<in> set ms. ResolvePos d sz l7 m = Some p)}
    \<and> (\<forall>p \<in> set (take n pos'). 0 \<le> p \<and> p < int sz)"
  by (rule ResolveMultiPos_sorted[OF assms])

lemma ResolveMultiPos_exact_witness:
  "\<exists>pos' n. ResolveMultiPos (lit ''abcdef'') 6 L7P_UNKNOWN
     [\<lparr>pm_pos = 3, pm_marker = PM_ABS\<rparr>, \<lparr>pm_pos = - 1, pm_marker = PM_ABS\<rparr>, \<lparr>pm_pos = 3, pm_marker = PM_ABS\<rparr>] [0, 0, 0]
     = Some (pos', n) \<and> set (take n pos') = {3, 5}"
proof -
  have "{p. p \<noteq> POS_NOT_FOUND \<and> (\<exists>m \<in> set [\<lparr>pm_pos = 3, pm_marker = PM_ABS\<rparr>, \<lparr>pm_pos = - 1, pm_marker = PM_ABS\<rparr>,
      \<lparr>pm_pos = 3, pm_marker = PM_ABS\<rparr>]. ResolvePos (lit ''abcdef'') 6 L7P_UNKNOWN m = Some p)} = {3, 5}"
    by (auto simp: ResolvePos_def AnyProtoPos_def CheckPos_def POS_NOT_FOUND_def)
  then show ?thesis
    using ResolveMultiPos_exact[of 6 "lit ''abcdef''" "[\<lparr>pm_pos = 3, pm_marker = PM_ABS\<rparr>, \<lparr>pm_pos = - 1, pm_marker = PM_ABS\<rparr>,
      \<lparr>pm_pos = 3, pm_marker = PM_ABS\<rparr>]" "[0, 0, 0]" L7P_UNKNOWN] by auto
qed

end
