(* ===== verification/TlsMod.thy ===== *)
theory TlsMod
  imports Tls
begin

text \<open>
  \<open>TLSMod_parse_list\<close> and \<open>TLSMod\<close> of src/nfq2/protocol.c: the modifications of a fake ClientHello. The fake is a
  buffer whose length is its capacity, with the number of bytes in use. \<open>rnd i k\<close> is the \<open>k\<close>-th random number
  drawn at the \<open>i\<close>-th place of the function that draws any; \<open>addr\<close> is the address of the buffer.
\<close>

subsection \<open>The list of modifications\<close>

record fake_tls_mod =
  tm_sni :: bytes
  tm_mod :: u32

definition FAKE_TLS_MOD_RND :: u32 where "FAKE_TLS_MOD_RND = 0x01"
definition FAKE_TLS_MOD_RND_SNI :: u32 where "FAKE_TLS_MOD_RND_SNI = 0x02"
definition FAKE_TLS_MOD_SNI :: u32 where "FAKE_TLS_MOD_SNI = 0x04"
definition FAKE_TLS_MOD_DUP_SID :: u32 where "FAKE_TLS_MOD_DUP_SID = 0x08"
definition FAKE_TLS_MOD_PADENCAP :: u32 where "FAKE_TLS_MOD_PADENCAP = 0x10"

text \<open>One option, already cut to \<open>sizeof(opt) - 1\<close> characters.\<close>

definition tls_mod_opt :: "bytes \<Rightarrow> fake_tls_mod \<Rightarrow> bool \<times> fake_tls_mod" where
  "tls_mod_opt opt m =
     (let eq = ch (CHR ''='');
          name = takeWhile (\<lambda>c. c \<noteq> eq) opt;
          val = (case strchr opt eq of None \<Rightarrow> None | Some v \<Rightarrow> Some (tl v));
          flag = (\<lambda>f. (True, m\<lparr>tm_mod := tm_mod m OR f\<rparr>))
      in if name = lit ''rnd'' then flag FAKE_TLS_MOD_RND
         else if name = lit ''rndsni'' then flag FAKE_TLS_MOD_RND_SNI
         else if name = lit ''dupsid'' then flag FAKE_TLS_MOD_DUP_SID
         else if name = lit ''padencap'' then flag FAKE_TLS_MOD_PADENCAP
         else if name = lit ''sni'' then
           (let m = m\<lparr>tm_mod := tm_mod m OR FAKE_TLS_MOD_SNI\<rparr> in
            case val of None \<Rightarrow> (False, m)
            | Some v \<Rightarrow> if v = [] then (False, m) else (True, m\<lparr>tm_sni := take 255 v\<rparr>))
         else (name = lit ''none'', m))"

function tls_mod_list_loop :: "bytes \<Rightarrow> fake_tls_mod \<Rightarrow> bool \<times> fake_tls_mod" where
  "tls_mod_list_loop p m =
     (if p = [] then (True, m)
      else (let comma = ch (CHR '','');
                opt = take 139 (takeWhile (\<lambda>c. c \<noteq> comma) p);
                (ok, m) = tls_mod_opt opt m
            in if \<not> ok then (False, m)
               else tls_mod_list_loop (drop 1 (dropWhile (\<lambda>c. c \<noteq> comma) p)) m))"
  by pat_completeness auto
termination
proof (relation "measure (\<lambda>(p, m). length p)", simp)
  fix p :: bytes and m :: fake_tls_mod and x xa xb y z
  assume "p \<noteq> []"
  then have "length (drop 1 (dropWhile (\<lambda>c. c \<noteq> ch (CHR '','')) p)) < length p"
    using length_dropWhile_le[of "\<lambda>c. c \<noteq> ch (CHR '','')" p] by (cases p) (auto simp: less_Suc_eq_le)
  then show "((drop 1 (dropWhile (\<lambda>c. c \<noteq> x) p), z), p, m) \<in> measure (\<lambda>(p, m). length p)" if "x = ch (CHR '','')"
    using that by simp
qed

declare tls_mod_list_loop.simps [simp del]

definition TLSMod_parse_list :: "bytes \<Rightarrow> bool \<times> fake_tls_mod" where
  "TLSMod_parse_list modlist = tls_mod_list_loop modlist \<lparr>tm_sni = [], tm_mod = 0\<rparr>"

subsection \<open>The modifications\<close>

definition has_mod :: "fake_tls_mod \<Rightarrow> u32 \<Rightarrow> bool" where
  "has_mod m f \<longleftrightarrow> tm_mod m AND f \<noteq> 0"

definition tld :: "bytes list" where
  "tld = map lit [''com'', ''org'', ''net'', ''edu'', ''gov'', ''biz'']"

definition on_tail :: "bytes \<Rightarrow> nat \<Rightarrow> (bytes \<Rightarrow> bytes option) \<Rightarrow> bytes option" where
  "on_tail d p f = (if p \<le> length d then map_option (\<lambda>t. take p d @ t) (f (drop p d)) else None)"

definition add16 :: "bytes \<Rightarrow> nat \<Rightarrow> int \<Rightarrow> bytes option" where
  "add16 d p delta = do { v \<leftarrow> pntoh16 d p; phton16 d p (v + of_int delta) }"

definition add24 :: "bytes \<Rightarrow> nat \<Rightarrow> int \<Rightarrow> bytes option" where
  "add24 d p delta = do { v \<leftarrow> pntoh24 d p; phton24 d p (v + of_int delta) }"

text \<open>A new server name: no room is \<open>Some None\<close>; otherwise the buffer, its size and the length of the name.\<close>

definition mod_sni :: "bytes \<Rightarrow> bytes \<Rightarrow> nat \<Rightarrow> nat \<Rightarrow> nat \<Rightarrow> nat \<Rightarrow> nat \<Rightarrow> (bytes \<times> nat \<times> nat) option option" where
  "mod_sni new d sz extlen_offset sniext sni slen =
     (let slen_new = length new; delta = int slen_new - int slen in
      if delta \<noteq> 0 then
        (let sz' = nat ((int sz + delta) mod 2 ^ 64) in
         if sz' > length d then Some None
         else do {
           rest \<leftarrow> (if sni + slen \<le> sz then rd_block d (sni + slen) (sz - (sni + slen)) else None);
           d \<leftarrow> wr_block d (sni + slen_new) rest;
           d \<leftarrow> add16 d 3 delta;
           d \<leftarrow> add24 d 6 delta;
           d \<leftarrow> add16 d extlen_offset delta;
           d \<leftarrow> add16 d (sniext - 2) delta;
           d \<leftarrow> add16 d sniext delta;
           d \<leftarrow> add16 d (sni - 2) delta;
           d \<leftarrow> wr_block d sni new;
           Some (Some (d, sz', slen_new)) })
      else do { d \<leftarrow> wr_block d sni new; Some (Some (d, sz, slen)) })"

definition mod_rnd_sni :: "(nat \<Rightarrow> nat \<Rightarrow> u32) \<Rightarrow> bytes \<Rightarrow> nat \<Rightarrow> nat \<Rightarrow> (bool \<times> bytes) option" where
  "mod_rnd_sni rnd d sni slen =
     (if slen = 0 then Some (False, d)
      else do {
        d \<leftarrow> on_tail d sni (\<lambda>t. fill_random_az (rnd 0) t 1);
        d \<leftarrow> (if slen \<ge> 7 then do {
                 d \<leftarrow> on_tail d (sni + 1) (\<lambda>t. fill_random_az09 (rnd 1) t (slen - 5));
                 d \<leftarrow> wr d (sni + slen - 4) (ch (CHR ''.''));
                 wr_block d (sni + slen - 3) (tld ! (unat (rnd 2 0) mod 6)) }
               else on_tail d (sni + 1) (\<lambda>t. fill_random_az09 (rnd 1) t (slen - 1)));
        Some (True, d) })"

text \<open>The part under RND_SNI and SNI: an early \<open>return false\<close>, which leaves the buffer as it was, is \<open>Some None\<close>.\<close>

definition mod_name :: "fake_tls_mod \<Rightarrow> (nat \<Rightarrow> nat \<Rightarrow> u32) \<Rightarrow> bytes \<Rightarrow> nat \<Rightarrow> nat \<Rightarrow> (bool \<times> bytes \<times> nat) option option" where
  "mod_name m rnd d sz extlen_offset = do {
     r \<leftarrow> TLSFindExt d sz 0 False;
     case r of None \<Rightarrow> Some None
     | Some (sniext, extlen) \<Rightarrow> do {
     r \<leftarrow> TLSAdvanceToHostInSNI d sniext extlen;
     case r of None \<Rightarrow> Some None
     | Some (sni, _, slen) \<Rightarrow> do {
     r \<leftarrow> (if has_mod m FAKE_TLS_MOD_SNI then mod_sni (tm_sni m) d sz extlen_offset sniext sni slen
           else Some (Some (d, sz, slen)));
     case r of None \<Rightarrow> Some None
     | Some (d, sz, slen) \<Rightarrow>
         if has_mod m FAKE_TLS_MOD_RND_SNI then
           map_option (\<lambda>(b, d). Some (b, d, sz)) (mod_rnd_sni rnd d sni slen)
         else Some (Some (True, d, sz)) } } }"

definition mod_rnd :: "(nat \<Rightarrow> nat \<Rightarrow> u32) \<Rightarrow> nat \<Rightarrow> bytes \<Rightarrow> bytes option" where
  "mod_rnd rnd addr d = do {
     d \<leftarrow> on_tail d 11 (\<lambda>t. fill_random_bytes (rnd 3) (addr + 11) t 32);
     n \<leftarrow> rd d 43;
     on_tail d 44 (\<lambda>t. fill_random_bytes (rnd 4) (addr + 44) t (unat n)) }"

definition mod_dup_sid :: "bytes \<Rightarrow> nat \<Rightarrow> bytes \<Rightarrow> (bool \<times> bytes) option" where
  "mod_dup_sid payload payload_len d = do {
     hello \<leftarrow> IsTLSClientHelloPartial payload payload_len;
     if \<not> hello then Some (False, d)
     else if payload_len < 44 then Some (False, d)
     else do {
       n \<leftarrow> rd d 43;
       k \<leftarrow> rd payload 43;
       if n \<noteq> k then Some (False, d)
       else if payload_len < 44 + unat k then Some (False, d)
       else do {
         sid \<leftarrow> rd_block payload 44 (unat n);
         d \<leftarrow> wr_block d 44 sid;
         Some (True, d) } } }"

text \<open>The offset of the padding's length; \<open>Some None\<close> is the early \<open>return false\<close>.\<close>

definition pad_offset :: "bytes \<Rightarrow> nat \<Rightarrow> nat \<Rightarrow> (bytes \<times> nat \<times> nat) option option" where
  "pad_offset d sz extlen_offset = do {
     r \<leftarrow> TLSFindExt d sz 21 False;
     case r of
       Some (ext, extlen) \<Rightarrow> Some (if ext + extlen \<noteq> sz then None else Some (d, sz, ext - 2))
     | None \<Rightarrow>
         if sz + 4 > length d then Some None
         else do {
           d \<leftarrow> phton16 d sz 21;
           d \<leftarrow> phton16 d (sz + 2) 0;
           d \<leftarrow> add16 d extlen_offset 4;
           d \<leftarrow> add16 d 3 4;
           d \<leftarrow> add24 d 6 4;
           Some (Some (d, sz + 4, sz + 2)) } }"

definition mod_padencap :: "nat \<Rightarrow> bytes \<Rightarrow> nat \<Rightarrow> nat \<Rightarrow> (bool \<times> bytes \<times> nat) option" where
  "mod_padencap payload_len d sz extlen_offset = do {
     r \<leftarrow> pad_offset d sz extlen_offset;
     case r of None \<Rightarrow> Some (False, d, sz)
     | Some (d, sz, padlen_offset) \<Rightarrow> do {
         rec \<leftarrow> pntoh16 d 3;
         hs \<leftarrow> pntoh24 d 6;
         ext \<leftarrow> pntoh16 d extlen_offset;
         pad \<leftarrow> pntoh16 d padlen_offset;
         let sz_rec = unat rec + payload_len;
         let sz_handshake = unat hs + payload_len;
         let sz_ext = unat ext + payload_len;
         let sz_pad = unat pad + payload_len;
         if sz_rec > 0xFFFF \<or> sz_handshake > 0xFFFFFF \<or> sz_ext > 0xFFFF \<or> sz_pad > 0xFFFF then Some (False, d, sz)
         else do {
           d \<leftarrow> phton16 d 3 (of_nat sz_rec);
           d \<leftarrow> phton24 d 6 (of_nat sz_handshake);
           d \<leftarrow> phton16 d extlen_offset (of_nat sz_ext);
           d \<leftarrow> phton16 d padlen_offset (of_nat sz_pad);
           Some (True, d, sz) } } }"

definition TLSMod :: "fake_tls_mod \<Rightarrow> (bytes \<times> nat) option \<Rightarrow> (nat \<Rightarrow> nat \<Rightarrow> u32) \<Rightarrow> nat \<Rightarrow> bytes \<Rightarrow> nat \<Rightarrow>
    (bool \<times> bytes \<times> nat) option" where
  "TLSMod m payload rnd addr d sz = do {
     hello \<leftarrow> IsTLSClientHello d sz False;
     bad \<leftarrow> cor (Some (\<not> hello)) (map_option (\<lambda>n. sz < 44 + unat n) (rd d 43));
     if bad then Some (False, d, sz) else do {
     eo \<leftarrow> (if has_mod m (FAKE_TLS_MOD_RND_SNI OR FAKE_TLS_MOD_SNI OR FAKE_TLS_MOD_PADENCAP)
            then TLSFindExtLen d sz else Some (Some 0));
     case eo of None \<Rightarrow> Some (False, d, sz)
     | Some extlen_offset \<Rightarrow> do {
     r \<leftarrow> (if has_mod m (FAKE_TLS_MOD_RND_SNI OR FAKE_TLS_MOD_SNI) then mod_name m rnd d sz extlen_offset
           else Some (Some (True, d, sz)));
     case r of None \<Rightarrow> Some (False, d, sz)
     | Some (bRes, d, sz) \<Rightarrow> do {
     d \<leftarrow> (if has_mod m FAKE_TLS_MOD_RND then mod_rnd rnd addr d else Some d);
     case payload of None \<Rightarrow> Some (bRes, d, sz)
     | Some (pd, plen) \<Rightarrow> do {
     (b1, d) \<leftarrow> (if has_mod m FAKE_TLS_MOD_DUP_SID then mod_dup_sid pd plen d else Some (True, d));
     (b2, d, sz) \<leftarrow> (if has_mod m FAKE_TLS_MOD_PADENCAP then mod_padencap plen d sz extlen_offset
                       else Some (True, d, sz));
     Some (bRes \<and> b1 \<and> b2, d, sz) } } } } }"

subsection \<open>No access outside the buffers\<close>

lemma wr_block_wp:
  assumes "p + length xs \<le> length d" and "\<And>e. length e = length d \<Longrightarrow> P e"
  shows "returns P (wr_block d p xs)"
  using assms(1) by (auto simp: wr_block_def intro!: assms(2))

text \<open>What all modifications keep: the capacity and the length of the session id, at offset 43.\<close>

definition keeps :: "bytes \<Rightarrow> bytes \<Rightarrow> bool" where
  "keeps d e \<longleftrightarrow> length e = length d \<and> e ! 43 = d ! 43"

lemma keeps_refl [simp]: "keeps d d"
  by (simp add: keeps_def)

lemma keeps_trans: "keeps d e \<Longrightarrow> keeps e f \<Longrightarrow> keeps d f"
  by (simp add: keeps_def)

lemma keeps_length: "keeps d e \<Longrightarrow> length e = length d"
  by (simp add: keeps_def)

lemma wr_block_keeps:
  assumes "p + length xs \<le> length d" and "43 < p" and "\<And>e. keeps d e \<Longrightarrow> P e"
  shows "returns P (wr_block d p xs)"
  using assms(1,2) by (auto simp: wr_block_def nth_append keeps_def intro!: assms(3))

lemma be16_keeps:
  assumes "p + 2 \<le> length d" and "p < 42 \<or> 43 < p" and "43 < length d" and "\<And>e. keeps d e \<Longrightarrow> P e"
  shows "returns P (phton16 d p v)"
  using assms(1) by (rule be16.put_wp) (use assms be16.put_nth_other[of d p v _ 43] in \<open>auto simp: keeps_def\<close>)

lemma be24_keeps:
  assumes "p + 3 \<le> length d" and "p < 41 \<or> 43 < p" and "43 < length d" and "\<And>e. keeps d e \<Longrightarrow> P e"
  shows "returns P (phton24 d p v)"
  using assms(1) by (rule be24.put_wp) (use assms be24.put_nth_other[of d p v _ 43] in \<open>auto simp: keeps_def\<close>)

lemma add16_keeps:
  assumes "p + 2 \<le> length d" and "p < 42 \<or> 43 < p" and "43 < length d" and "\<And>e. keeps d e \<Longrightarrow> P e"
  shows "returns P (add16 d p delta)"
  unfolding add16_def wp by (rule be16.get_wp[OF assms(1)]) (rule be16_keeps[OF assms])

lemma add24_keeps:
  assumes "p + 3 \<le> length d" and "p < 41 \<or> 43 < p" and "43 < length d" and "\<And>e. keeps d e \<Longrightarrow> P e"
  shows "returns P (add24 d p delta)"
  unfolding add24_def wp by (rule be24.get_wp[OF assms(1)]) (rule be24_keeps[OF assms])

lemma on_tail_keeps:
  assumes "p \<le> length d" and "43 < p" and "returns (\<lambda>t. length t = length d - p) (f (drop p d))"
    and "\<And>e. keeps d e \<Longrightarrow> P e"
  shows "returns P (on_tail d p f)"
  using assms by (auto simp: on_tail_def wp keeps_def nth_append elim!: returns_mono)

lemma fill_random_az_wp: "k \<le> length t \<Longrightarrow> returns (\<lambda>e. length e = length t) (fill_random_az r t k)"
  by (induction k) (auto simp: wp elim!: returns_mono)

lemma fill_random_az09_wp: "k \<le> length t \<Longrightarrow> returns (\<lambda>e. length e = length t) (fill_random_az09 r t k)"
  by (induction k) (auto simp: wp Let_def elim!: returns_mono)

lemma drop_eq_mono: "drop k e = drop k t \<Longrightarrow> k \<le> j \<Longrightarrow> drop j e = drop j t"
  by (metis drop_drop le_add_diff_inverse2)

lemma fill_random16_wp:
  "k + 2 * n \<le> length t \<Longrightarrow>
   returns (\<lambda>(e, _). length e = length t \<and> drop (k + 2 * n) e = drop (k + 2 * n) t) (fill_random16 r i t k n)"
proof (induction n arbitrary: t i k)
  case (Suc n)
  have "returns (\<lambda>e. length e = length t \<and> drop (k + 2) e = drop (k + 2) t) (st16 t k (ucast (r i)))"
    using Suc.prems by (simp add: st16_def wr_block_def)
  then show ?case
    unfolding fill_random16.simps wp
  proof (rule returns_mono)
    fix v :: bytes assume v: "length v = length t \<and> drop (k + 2) v = drop (k + 2) t"
    have d: "drop (k + 2 * Suc n) v = drop (k + 2 * Suc n) t"
      by (rule drop_eq_mono[of "k + 2"]) (use v in simp_all)
    have "returns (\<lambda>(e, _). length e = length v \<and> drop (k + 2 + 2 * n) e = drop (k + 2 + 2 * n) v)
        (fill_random16 r (i + 1) v (k + 2) n)"
      by (rule Suc.IH) (use Suc.prems v in simp)
    moreover have "k + 2 + 2 * n = k + 2 * Suc n" by simp
    ultimately show "returns (\<lambda>(e, _). length e = length t \<and> drop (k + 2 * Suc n) e = drop (k + 2 * Suc n) t)
        (fill_random16 r (i + 1) v (k + 2) n)" using v d by (simp only:)
  qed
qed simp

lemma fill_random_bytes_wp:
  assumes k: "k \<le> length t"
  shows "returns (\<lambda>e. length e = length t \<and> drop k e = drop k t) (fill_random_bytes r a t k)"
proof -
  have d2: "2 * (n div 2) \<le> n" for n :: nat by simp
  have f: "returns (\<lambda>v. returns (\<lambda>e. length e = length t \<and> drop k e = drop k t)
        (case v of (p, j) \<Rightarrow> if n AND 1 \<noteq> 0 then wr p (q + (n - 1)) (ucast (r j)) else Some p))
      (fill_random16 r i t' q (n div 2))"
    if b: "q + n = k" "length t' = length t" "drop k t' = drop k t" for q n i t'
  proof (rule returns_mono[OF fill_random16_wp])
    show le: "q + 2 * (n div 2) \<le> length t'" using b k d2[of n] by linarith
    fix v :: "bytes \<times> nat"
    assume v: "case v of (e, _) \<Rightarrow> length e = length t' \<and> drop (q + 2 * (n div 2)) e = drop (q + 2 * (n div 2)) t'"
    obtain e j where e: "v = (e, j)" by (cases v)
    have "drop k e = drop k t'" using v e b d2[of n] drop_eq_mono[of "q + 2 * (n div 2)" e t' k] by simp
    moreover have "n AND 1 \<noteq> 0 \<Longrightarrow> q + (n - 1) < k" using b by (cases n) simp_all
    ultimately show "returns (\<lambda>e. length e = length t \<and> drop k e = drop k t)
        (case v of (p, j) \<Rightarrow> if n AND 1 \<noteq> 0 then wr p (q + (n - 1)) (ucast (r j)) else Some p)"
      using v b k e by (simp add: wp)
  qed
  show ?thesis
  proof (cases "k = 0")
    case False
    have a0: "returns (\<lambda>e. length e = length t \<and> drop k e = drop k t) (fill_random_bytes r a t k)" if "a AND 1 = 0"
      using f[of 0 k t 0] False that unfolding fill_random_bytes_def returns_bind by (simp only: if_True if_False simp_thms returns_Some returns_if prod.case returns_bind add_0)
    have a1: "returns (\<lambda>e. length e = length t \<and> drop k e = drop k t) (fill_random_bytes r a t k)" if "a AND 1 \<noteq> 0"
      using f[of 1 "k - 1" "t[0 := ucast (r 0)]" 1] False that k order.strict_trans2[of 0 k "length t"]
      unfolding fill_random_bytes_def returns_bind
      by (simp only: if_True if_False simp_thms returns_Some returns_if prod.case returns_bind returns_wr) simp
    show ?thesis using a0 a1 by blast
  qed (simp add: fill_random_bytes_def)
qed

lemma on_tail_fill_wp:
  assumes "p + k \<le> length d"
  shows "returns (\<lambda>e. length e = length d \<and> drop (p + k) e = drop (p + k) d)
    (on_tail d p (\<lambda>t. fill_random_bytes r a t k))"
proof -
  have "returns (\<lambda>e. length e = length (drop p d) \<and> drop k e = drop k (drop p d)) (fill_random_bytes r a (drop p d) k)"
    by (rule fill_random_bytes_wp) (use assms in simp)
  then show ?thesis using assms by (auto simp: on_tail_def wp add.commute elim!: returns_mono)
qed

lemma keeps_bind:
  "returns (keeps d) m \<Longrightarrow> (\<And>e. keeps d e \<Longrightarrow> returns P (f e)) \<Longrightarrow> returns P (m \<bind> f)"
  unfolding wp by (erule returns_mono) blast

lemma keeps_step:
  assumes "keeps d e"
  shows "p + length xs \<le> length d \<Longrightarrow> 43 < p \<Longrightarrow> returns (keeps d) (wr_block e p xs)"
    and "p + 2 \<le> length d \<Longrightarrow> p < 42 \<or> 43 < p \<Longrightarrow> 43 < length d \<Longrightarrow> returns (keeps d) (add16 e p delta)"
    and "p + 3 \<le> length d \<Longrightarrow> p < 41 \<or> 43 < p \<Longrightarrow> 43 < length d \<Longrightarrow> returns (keeps d) (add24 e p delta)"
    and "p + 2 \<le> length d \<Longrightarrow> p < 42 \<or> 43 < p \<Longrightarrow> 43 < length d \<Longrightarrow> returns (keeps d) (phton16 e p v)"
    and "p + 3 \<le> length d \<Longrightarrow> p < 41 \<or> 43 < p \<Longrightarrow> 43 < length d \<Longrightarrow> returns (keeps d) (phton24 e p w)"
  using keeps_length[OF assms] keeps_trans[OF assms]
  by (auto intro: wr_block_keeps add16_keeps add24_keeps be16_keeps be24_keeps)

lemma mod_sni_wp:
  assumes sz: "sz \<le> length d" "eo + 2 \<le> sz" "43 < eo" "53 \<le> sniext" "sniext + 5 = sni" "sni + slen \<le> sz"
    and big: "length d < 2 ^ 63" "length new < 2 ^ 62"
  shows "returns (\<lambda>r. \<forall>e sz' l. r = Some (e, sz', l) \<longrightarrow> keeps d e \<and> sni + l \<le> sz' \<and> sz' \<le> length d)
    (mod_sni new d sz eo sniext sni slen)"
proof -
  let ?m = "int sz + (int (length new) - int slen)"
  let ?P = "\<lambda>r. \<forall>e sz' l. r = Some (e, sz', l) \<longrightarrow> keeps d e \<and> sni + l \<le> sz' \<and> sz' \<le> length d"
  have r: "0 \<le> ?m" "?m < 2 ^ 64" using assms by auto
  then have m: "nat (?m mod 2 ^ 64) = sz + length new - slen" using assms by simp
  show ?thesis
  proof (cases "length new = slen")
    case True
    have "returns ?P (do { d \<leftarrow> wr_block d sni new; Some (Some (d, sz, slen)) })"
      by (rule keeps_bind[OF keeps_step(1)[OF keeps_refl]]) (use assms True in auto)
    then show ?thesis using True by (simp add: mod_sni_def)
  next
    case neq: False
    show ?thesis
    proof (cases "sz + length new - slen > length d")
      case True
      then show ?thesis unfolding mod_sni_def Let_def m using neq by simp
    next
      case False
      have len: "43 < length d" using assms by linarith
      have rest: "returns (\<lambda>t. length t = sz - (sni + slen)) (rd_block d (sni + slen) (sz - (sni + slen)))"
        using assms by (simp add: wp)
      have "returns ?P (do {
           rest \<leftarrow> rd_block d (sni + slen) (sz - (sni + slen));
           e \<leftarrow> wr_block d (sni + length new) rest;
           e \<leftarrow> add16 e 3 (int (length new) - int slen);
           e \<leftarrow> add24 e 6 (int (length new) - int slen);
           e \<leftarrow> add16 e eo (int (length new) - int slen);
           e \<leftarrow> add16 e (sniext - 2) (int (length new) - int slen);
           e \<leftarrow> add16 e sniext (int (length new) - int slen);
           e \<leftarrow> add16 e (sni - 2) (int (length new) - int slen);
           e \<leftarrow> wr_block e sni new;
           Some (Some (e, sz + length new - slen, length new)) })"
        by (subst returns_bind, rule returns_mono[OF rest], intro keeps_bind[of d] keeps_step[where d = d])
           (use assms False len in auto)
      then show ?thesis unfolding mod_sni_def Let_def m using neq False assms by simp
    qed
  qed
qed

lemma length_tld: "length (tld ! (n mod 6)) = 3"
proof -
  have "n mod 6 < length tld" by (simp add: tld_def)
  then have "tld ! (n mod 6) \<in> set tld" by (rule nth_mem)
  then show ?thesis by (auto simp: tld_def)
qed

lemma wr_keeps: "keeps d e \<Longrightarrow> p < length d \<Longrightarrow> 43 < p \<Longrightarrow> returns (keeps d) (wr e p v)"
  by (auto simp: wp keeps_def)

lemma on_tail_az_keeps:
  assumes "keeps d e" "p + k \<le> length d" "43 < p"
  shows "returns (keeps d) (on_tail e p (\<lambda>t. fill_random_az r t k))"
    and "returns (keeps d) (on_tail e p (\<lambda>t. fill_random_az09 r t k))"
  using assms keeps_length[OF assms(1)] keeps_trans[OF assms(1)]
  by (auto intro!: on_tail_keeps intro: returns_mono[OF fill_random_az_wp] returns_mono[OF fill_random_az09_wp])

lemma mod_rnd_sni_wp:
  assumes "sni + slen \<le> length d" "43 < sni"
  shows "returns (\<lambda>(_, e). keeps d e) (mod_rnd_sni rnd d sni slen)"
proof (cases "slen = 0")
  case False
  have fin: "returns (\<lambda>(_, e). keeps d e) (do { e \<leftarrow> m; Some (True, e) })" if "returns (keeps d) m" for m
    using that by (rule keeps_bind) simp
  have long: "returns (keeps d) (do {
      d \<leftarrow> on_tail e (sni + 1) (\<lambda>t. fill_random_az09 (rnd 1) t (slen - 5));
      d \<leftarrow> wr d (sni + slen - 4) (ch (CHR ''.''));
      wr_block d (sni + slen - 3) (tld ! (unat (rnd 2 0) mod 6)) })" if "7 \<le> slen" "keeps d e" for e
    by (intro keeps_bind[of d] keeps_step[where d = d] on_tail_az_keeps[where d = d] wr_keeps[where d = d])
       (use assms that in \<open>auto simp: length_tld\<close>)
  have short: "returns (keeps d) (on_tail e (sni + 1) (\<lambda>t. fill_random_az09 (rnd 1) t (slen - 1)))" if "keeps d e" for e
    by (rule on_tail_az_keeps[OF that]) (use assms False in auto)
  show ?thesis
    unfolding mod_rnd_sni_def if_not_P[OF False]
    by (rule keeps_bind, rule on_tail_az_keeps, rule keeps_refl, use assms False in simp, use assms in simp,
        rule fin, cases "7 \<le> slen") (simp_all only: if_True if_False long short)
qed (simp add: mod_rnd_sni_def)

lemma mod_rnd_wp:
  assumes "44 + unat (d ! 43) \<le> length d"
  shows "returns (keeps d) (mod_rnd rnd addr d)"
proof -
  have l32: "32 \<le> length (drop 11 d)" using assms by simp
  have nth: "length e = length d - 11 \<and> drop 32 e = drop 43 d \<Longrightarrow> (take 11 d @ e) ! 43 = d ! 43" for e
    using assms hd_drop_conv_nth[of 43 d] hd_drop_conv_nth[of 32 e] by (simp add: nth_append)
  have one: "returns (keeps d) (on_tail d 11 (\<lambda>t. fill_random_bytes (rnd 3) (addr + 11) t 32))"
    using fill_random_bytes_wp[OF l32, of "rnd 3" "addr + 11"] assms nth
    by (auto simp: on_tail_def wp keeps_def elim!: returns_mono)
  have two: "returns (keeps d) (on_tail v 44 (\<lambda>t. fill_random_bytes (rnd 4) (addr + 44) t (unat (v ! 43))))"
    if v: "keeps d v" for v
  proof -
    have le: "unat (v ! 43) \<le> length (drop 44 v)" using v assms by (simp add: keeps_def)
    have "returns (\<lambda>t. length t = length v - 44) (fill_random_bytes (rnd 4) (addr + 44) (drop 44 v) (unat (v ! 43)))"
      by (rule returns_mono[OF fill_random_bytes_wp[OF le]]) simp
    moreover have "44 \<le> length v" using v assms by (simp add: keeps_def)
    ultimately show ?thesis
      using v by (intro on_tail_keeps) (auto elim: keeps_trans)
  qed
  show ?thesis
    unfolding mod_rnd_def using one
  proof (rule keeps_bind)
    fix e assume e: "keeps d e"
    then have "rd e 43 = Some (e ! 43)" using assms by (simp add: keeps_def)
    then show "returns (keeps d) (do { n \<leftarrow> rd e 43;
        on_tail e 44 (\<lambda>t. fill_random_bytes (rnd 4) (addr + 44) t (unat n)) })" using two[OF e] by simp
  qed
qed

lemma mod_dup_sid_wp:
  assumes "plen \<le> length pd" "44 + unat (d ! 43) \<le> length d"
  shows "returns (\<lambda>(_, e). keeps d e) (mod_dup_sid pd plen d)"
  unfolding mod_dup_sid_def IsTLSClientHelloPartial_def IsTLSClientHello_def
  by (subst returns_bind, rule returns_mono[OF IsTLSHello_wp[OF assms(1)]])
     (use assms in \<open>auto simp: wp not_less intro!: wr_block_keeps\<close>)

lemma pad_offset_wp:
  assumes "sz \<le> length d" "47 \<le> eo" "eo + 2 \<le> length d" "44 \<le> sz"
  shows "returns (\<lambda>r. \<forall>e sz' o'. r = Some (e, sz', o') \<longrightarrow> keeps d e \<and> o' + 2 \<le> sz' \<and> sz' \<le> length d)
    (pad_offset d sz eo)"
proof -
  have none: "returns (\<lambda>r. \<forall>e sz' o'. r = Some (e, sz', o') \<longrightarrow> keeps d e \<and> o' + 2 \<le> sz' \<and> sz' \<le> length d) (do {
           d \<leftarrow> phton16 d sz 21;
           d \<leftarrow> phton16 d (sz + 2) 0;
           d \<leftarrow> add16 d eo 4;
           d \<leftarrow> add16 d 3 4;
           d \<leftarrow> add24 d 6 4;
           Some (Some (d, sz + 4, sz + 2)) })" if "sz + 4 \<le> length d"
    by (intro keeps_bind[of d] keeps_step[where d = d]) (use assms that in auto)
  show ?thesis
    unfolding pad_offset_def
    by (subst returns_bind, rule returns_mono[OF TLSFindExt_wp[OF assms(1)]])
       (use assms none in \<open>auto split: option.split\<close>)
qed

lemma mod_padencap_wp:
  assumes "sz \<le> length d" "47 \<le> eo" "eo + 2 \<le> length d" "44 \<le> sz"
  shows "returns (\<lambda>(_, e, sz'). length e = length d \<and> sz' \<le> length d) (mod_padencap plen d sz eo)"
  unfolding mod_padencap_def
  by (subst returns_bind, rule returns_mono[OF pad_offset_wp[OF assms]])
     (use assms in \<open>auto simp: wp Let_def keeps_def split: option.split intro!: be16.get_wp be24.get_wp be16.put_wp be24.put_wp\<close>)

lemma mod_name_wp:
  assumes sz: "sz \<le> length d" "47 \<le> eo" "eo + 2 \<le> sz" and big: "length d < 2 ^ 63" "length (tm_sni m) < 2 ^ 62"
  shows "returns (\<lambda>r. \<forall>b e sz'. r = Some (b, e, sz') \<longrightarrow> keeps d e \<and> 44 \<le> sz' \<and> sz' \<le> length d) (mod_name m rnd d sz eo)"
proof -
  have sni: "returns (\<lambda>r. \<forall>e sz' l. r = Some (e, sz', l) \<longrightarrow> keeps d e \<and> sni + l \<le> sz' \<and> sz' \<le> length d)
      (if has_mod m FAKE_TLS_MOD_SNI then mod_sni (tm_sni m) d sz eo ext sni slen else Some (Some (d, sz, slen)))"
    if "53 \<le> ext" "ext + 5 = sni" "sni + slen \<le> sz" for ext sni slen
    using mod_sni_wp[of sz d eo ext sni slen "tm_sni m"] that assms by auto
  have rsni: "returns (\<lambda>r. \<forall>b e sz''. r = Some (b, e, sz'') \<longrightarrow> keeps d e \<and> 44 \<le> sz'' \<and> sz'' \<le> length d)
      (if has_mod m FAKE_TLS_MOD_RND_SNI then map_option (\<lambda>(b, d). Some (b, d, sz')) (mod_rnd_sni rnd e sni l)
       else Some (Some (True, e, sz')))"
    if e: "keeps d e" "sni + l \<le> sz'" "sz' \<le> length d" "58 \<le> sni" for e sni l sz'
  proof -
    have "returns (\<lambda>(_, f). keeps e f) (mod_rnd_sni rnd e sni l)"
      by (rule mod_rnd_sni_wp) (use e in \<open>auto dest: keeps_length\<close>)
    then show ?thesis using e by (auto simp: wp elim!: returns_mono dest: keeps_trans)
  qed
  show ?thesis
    unfolding mod_name_def
  proof (subst returns_bind, rule returns_mono[OF TLSFindExt_wp[OF sz(1)]], goal_cases)
    case (1 v)
    show ?case
    proof (cases v)
      case (Some a)
      then obtain ext elen where v: "v = Some (ext, elen)" by (cases a) auto
      with 1 have ext: "53 \<le> ext" "ext + elen \<le> sz" by auto
      then have "ext + elen \<le> length d" using sz by simp
      note adv = TLSAdvanceToHostInSNI_wp[OF this]
      show ?thesis
        unfolding v option.case prod.case
      proof (subst returns_bind, rule returns_mono[OF adv], goal_cases)
        case (1 w)
        show ?case
        proof (cases w)
          case (Some a)
          then obtain sni n slen where w: "w = Some (sni, n, slen)" by (cases a) auto
          with 1 ext have s: "53 \<le> ext" "ext + 5 = sni" "sni + slen \<le> sz" by auto
          show ?thesis
            unfolding w option.case prod.case
            by (subst returns_bind, rule returns_mono[OF sni[OF s]]) (use s rsni in \<open>auto split: option.split\<close>)
        qed simp
      qed
    qed simp
  qed
qed

lemma TLSMod_wp:
  assumes sz: "sz \<le> length d" "44 \<le> length d" and big: "length d < 2 ^ 63" "length (tm_sni m) < 2 ^ 62"
    and pl: "\<And>pd plen. payload = Some (pd, plen) \<Longrightarrow> plen \<le> length pd"
  shows "returns (\<lambda>(_, e, sz'). length e = length d \<and> sz' \<le> length d) (TLSMod m payload rnd addr d sz)"
proof -
  let ?P = "\<lambda>(_, e, sz'). length e = length d \<and> sz' \<le> length d"
  have tail: "returns ?P (case payload of None \<Rightarrow> Some (bRes, e, sz')
     | Some (pd, plen) \<Rightarrow> do {
     (b1, e) \<leftarrow> (if has_mod m FAKE_TLS_MOD_DUP_SID then mod_dup_sid pd plen e else Some (True, e));
     (b2, e, sz') \<leftarrow> (if has_mod m FAKE_TLS_MOD_PADENCAP then mod_padencap plen e sz' eo else Some (True, e, sz'));
     Some (bRes \<and> b1 \<and> b2, e, sz') })"
    if e: "keeps d e" "sz' \<le> length d" "44 \<le> sz'" "44 + unat (d ! 43) \<le> length d"
      and eo: "has_mod m FAKE_TLS_MOD_PADENCAP \<Longrightarrow> 47 \<le> eo \<and> eo + 2 \<le> length d" for e sz' bRes eo
  proof (cases payload)
    case (Some a)
    then obtain pd plen where p: "payload = Some (pd, plen)" by (cases a) auto
    have dup: "returns (\<lambda>(_, f). keeps d f) (if has_mod m FAKE_TLS_MOD_DUP_SID then mod_dup_sid pd plen e else Some (True, e))"
      using mod_dup_sid_wp[OF pl[OF p], of e] e by (auto simp: keeps_def elim!: returns_mono)
    have pad: "returns ?P (if has_mod m FAKE_TLS_MOD_PADENCAP then mod_padencap plen f sz' eo else Some (True, f, sz'))"
      if "keeps d f" for f
      using mod_padencap_wp[of sz' f eo plen] e eo that by (auto simp: keeps_def elim!: returns_mono)
    show ?thesis
      unfolding p option.case prod.case
    proof (subst returns_bind, rule returns_mono[OF dup], goal_cases)
      case (1 v)
      then obtain b f where v: "v = (b, f)" "keeps d f" by (cases v) auto
      show ?case
        unfolding v(1) prod.case
        by (subst returns_bind, rule returns_mono[OF pad[OF v(2)]]) auto
    qed
  qed (use e in \<open>simp add: keeps_def\<close>)
  have mid: "returns ?P (do {
     e \<leftarrow> (if has_mod m FAKE_TLS_MOD_RND then mod_rnd rnd addr e else Some e);
     case payload of None \<Rightarrow> Some (bRes, e, sz')
     | Some (pd, plen) \<Rightarrow> do {
     (b1, e) \<leftarrow> (if has_mod m FAKE_TLS_MOD_DUP_SID then mod_dup_sid pd plen e else Some (True, e));
     (b2, e, sz') \<leftarrow> (if has_mod m FAKE_TLS_MOD_PADENCAP then mod_padencap plen e sz' eo else Some (True, e, sz'));
     Some (bRes \<and> b1 \<and> b2, e, sz') } })"
    if e: "keeps d e" "sz' \<le> length d" "44 \<le> sz'" "44 + unat (d ! 43) \<le> length d"
      and eo: "has_mod m FAKE_TLS_MOD_PADENCAP \<Longrightarrow> 47 \<le> eo \<and> eo + 2 \<le> length d" for e sz' bRes eo
  proof (rule keeps_bind[of d])
    show "returns (keeps d) (if has_mod m FAKE_TLS_MOD_RND then mod_rnd rnd addr e else Some e)"
      using mod_rnd_wp[of e rnd addr] e by (auto simp: keeps_def elim!: returns_mono)
  qed (rule tail, use that in auto)
  have hello: "returns (\<lambda>h. h \<longrightarrow> 11 \<le> sz) (IsTLSClientHello d sz False)"
    using IsTLSHello_wp[OF sz(1)] by (simp add: IsTLSClientHello_def)
  have 0: "tm_mod m AND (a OR b) = 0 \<longleftrightarrow> \<not> has_mod m a \<and> \<not> has_mod m b" for a b
    by (simp add: has_mod_def bit.conj_disj_distrib or_eq_0_iff)
  have names: "returns (\<lambda>r. \<forall>b e sz'. r = Some (b, e, sz') \<longrightarrow> keeps d e \<and> 44 \<le> sz' \<and> sz' \<le> length d)
      (if has_mod m (FAKE_TLS_MOD_RND_SNI OR FAKE_TLS_MOD_SNI) then mod_name m rnd d sz eo else Some (Some (True, d, sz)))"
    if "44 \<le> sz" "has_mod m (FAKE_TLS_MOD_RND_SNI OR FAKE_TLS_MOD_SNI) \<Longrightarrow> 47 \<le> eo \<and> eo + 2 \<le> sz" for eo
    using mod_name_wp[OF sz(1) _ _ big, of eo rnd] that sz by auto
  have offs: "returns (\<lambda>r. \<forall>eo. r = Some eo \<longrightarrow>
        (has_mod m (FAKE_TLS_MOD_RND_SNI OR FAKE_TLS_MOD_SNI) \<or> has_mod m FAKE_TLS_MOD_PADENCAP \<longrightarrow> 47 \<le> eo \<and> eo + 2 \<le> sz))
      (if has_mod m (FAKE_TLS_MOD_RND_SNI OR FAKE_TLS_MOD_SNI OR FAKE_TLS_MOD_PADENCAP) then TLSFindExtLen d sz else Some (Some 0))"
    using TLSFindExtLen_wp[OF sz(1)] 0[of "FAKE_TLS_MOD_RND_SNI OR FAKE_TLS_MOD_SNI" FAKE_TLS_MOD_PADENCAP]
    by (auto simp: has_mod_def or.assoc elim!: returns_mono)
  show ?thesis
    unfolding TLSMod_def
  proof (subst returns_bind, rule returns_mono[OF hello], goal_cases)
    case (1 h)
    have r43: "rd d 43 = Some (d ! 43)" using sz by simp
    show ?case
    proof (cases "h \<and> 44 + unat (d ! 43) \<le> sz")
      case False
      then show ?thesis using sz r43 by auto
    next
      case True
      then have b: "cor (Some (\<not> h)) (map_option (\<lambda>n. sz < 44 + unat n) (rd d 43)) = Some False" using r43 by simp
      have s44: "44 \<le> sz" "44 + unat (d ! 43) \<le> length d" using True sz by simp_all
      show ?thesis
        unfolding b bind.bind_lunit if_False
      proof (subst returns_bind, rule returns_mono[OF offs], goal_cases)
        case (1 o')
        show ?case
        proof (cases o')
          case (Some eo)
          with 1 have eo: "has_mod m (FAKE_TLS_MOD_RND_SNI OR FAKE_TLS_MOD_SNI) \<or> has_mod m FAKE_TLS_MOD_PADENCAP
            \<Longrightarrow> 47 \<le> eo \<and> eo + 2 \<le> sz" by blast
          show ?thesis
            unfolding Some option.case
          proof (subst returns_bind, rule returns_mono[OF names[OF s44(1)]], goal_cases)
            case (2 v)
            show ?case
            proof (cases v)
              case (Some a)
              then obtain b e sz' where v: "v = Some (b, e, sz')" by (cases a) auto
              with 2 have "keeps d e" "sz' \<le> length d" "44 \<le> sz'" by auto
              then show ?thesis
                unfolding v option.case prod.case using s44(2) by (rule mid) (use eo sz in auto)
            qed (use sz in simp)
          qed (use eo in blast)
        qed (use sz in simp)
      qed
    qed
  qed
qed

subsection \<open>Replacing the server name\<close>

text \<open>The fields of a hello that hold lengths depending on the name, and what lies between them.\<close>

definition hello_frame :: "u16 \<Rightarrow> u32 \<Rightarrow> bytes \<Rightarrow> u16 \<Rightarrow> bytes \<Rightarrow> u16 \<Rightarrow> u16 \<Rightarrow> u16 \<Rightarrow> bytes \<Rightarrow> bytes" where
  "hello_frame R H A E B N L M nm =
     [0x16, 3, 1] @ be_bytes 2 R @ [1] @ be_bytes 3 H @ A @ be_bytes 2 E @ B @ be_bytes 2 N @ be_bytes 2 L
     @ [0] @ be_bytes 2 M @ nm"

lemma add16_at:
  "p = length pre \<Longrightarrow> add16 (pre @ be_bytes 2 (v :: u16) @ rest) p delta = Some (pre @ be_bytes 2 (v + of_int delta) @ rest)"
  using be16.get_at[of p pre v rest] be16.put_at[of p pre v rest] take_bit_word_eq_self[of 16 v]
  by (simp add: add16_def del: be_bytes_numeral)

lemma add24_at:
  "p = length pre \<Longrightarrow> unat v < 2 ^ 24 \<Longrightarrow>
   add24 (pre @ be_bytes 3 (v :: u32) @ rest) p delta = Some (pre @ be_bytes 3 (v + of_int delta) @ rest)"
  using be24.get_at_exact[of p pre v rest] be24.put_at[of p pre v rest]
  by (simp add: add24_def del: be_bytes_numeral)

lemma frame_adds:
  "add16 (hello_frame R H A E B N L M nm) 3 x = Some (hello_frame (R + of_int x) H A E B N L M nm)"
  "unat H < 2 ^ 24 \<Longrightarrow> add24 (hello_frame R H A E B N L M nm) 6 x = Some (hello_frame R (H + of_int x) A E B N L M nm)"
  "p = 9 + length A \<Longrightarrow> add16 (hello_frame R H A E B N L M nm) p x = Some (hello_frame R H A (E + of_int x) B N L M nm)"
  "p = 11 + length A + length B \<Longrightarrow>
     add16 (hello_frame R H A E B N L M nm) p x = Some (hello_frame R H A E B (N + of_int x) L M nm)"
  "p = 13 + length A + length B \<Longrightarrow>
     add16 (hello_frame R H A E B N L M nm) p x = Some (hello_frame R H A E B N (L + of_int x) M nm)"
  "p = 16 + length A + length B \<Longrightarrow>
     add16 (hello_frame R H A E B N L M nm) p x = Some (hello_frame R H A E B N L (M + of_int x) nm)"
proof -
  let ?m = "be_bytes 2 M @ nm"
  let ?l = "be_bytes 2 L @ [0] @ ?m"
  let ?n = "be_bytes 2 N @ ?l"
  let ?e = "be_bytes 2 E @ B @ ?n"
  let ?h = "[0x16, 3, 1] @ be_bytes 2 R @ [1 :: u8]"
  let ?a = "?h @ be_bytes 3 H @ A"
  let ?b = "?a @ be_bytes 2 E @ B"
  show "add16 (hello_frame R H A E B N L M nm) 3 x = Some (hello_frame (R + of_int x) H A E B N L M nm)"
    using add16_at[of 3 "[0x16, 3, 1]" R "[1] @ be_bytes 3 H @ A @ ?e" x]
    by (simp add: hello_frame_def del: be_bytes_numeral)
  show "unat H < 2 ^ 24 \<Longrightarrow> add24 (hello_frame R H A E B N L M nm) 6 x = Some (hello_frame R (H + of_int x) A E B N L M nm)"
    using add24_at[of 6 ?h H "A @ ?e" x] by (simp add: hello_frame_def del: be_bytes_numeral)
  show "p = 9 + length A \<Longrightarrow> add16 (hello_frame R H A E B N L M nm) p x = Some (hello_frame R H A (E + of_int x) B N L M nm)"
    using add16_at[of p ?a E "B @ ?n" x] by (simp add: hello_frame_def del: be_bytes_numeral)
  show "p = 11 + length A + length B \<Longrightarrow>
     add16 (hello_frame R H A E B N L M nm) p x = Some (hello_frame R H A E B (N + of_int x) L M nm)"
    using add16_at[of p ?b N ?l x] by (simp add: hello_frame_def del: be_bytes_numeral)
  show "p = 13 + length A + length B \<Longrightarrow>
     add16 (hello_frame R H A E B N L M nm) p x = Some (hello_frame R H A E B N (L + of_int x) M nm)"
    using add16_at[of p "?b @ be_bytes 2 N" L "[0] @ ?m" x] by (simp add: hello_frame_def del: be_bytes_numeral)
  show "p = 16 + length A + length B \<Longrightarrow>
     add16 (hello_frame R H A E B N L M nm) p x = Some (hello_frame R H A E B N L (M + of_int x) nm)"
    using add16_at[of p "?b @ be_bytes 2 N @ be_bytes 2 L @ [0]" M nm x]
    by (simp add: hello_frame_def del: be_bytes_numeral)
qed

definition frame_a :: "bytes \<Rightarrow> bytes \<Rightarrow> bytes \<Rightarrow> bytes \<Rightarrow> bytes" where
  "frame_a rnd sid ciphers cmps = [3, 3] @ rnd @ [of_nat (length sid)] @ sid
     @ be_bytes 2 (of_nat (length ciphers) :: u16) @ ciphers @ [of_nat (length cmps)] @ cmps"

definition frame_b :: "(u16 \<times> bytes) list \<Rightarrow> bytes" where
  "frame_b xs = exts_bytes xs @ be_bytes 2 (0 :: u16)"

text \<open>What a hello has besides the name: \<open>k\<close> bytes of the body, \<open>x\<close> bytes of extensions.\<close>

definition framed :: "bytes \<Rightarrow> bytes \<Rightarrow> nat \<Rightarrow> nat \<Rightarrow> nat \<Rightarrow> bytes \<Rightarrow> bytes" where
  "framed A B k x n t =
     hello_frame (of_nat (k + n + 4)) (of_nat (k + n)) A (of_nat (x + n)) B (of_nat (n + 5)) (of_nat (n + 3)) (of_nat n) t"

lemma client_hello_framed:
  "client_hello rnd sid ciphers cmps (xs @ (0, sni_body name) # ys)
   = framed (frame_a rnd sid ciphers cmps) (frame_b xs)
       (length (hello_body rnd sid ciphers cmps (xs @ (0, sni_body []) # ys)))
       (length (exts_bytes (xs @ (0, sni_body []) # ys))) (length name) (name @ exts_bytes ys)"
proof -
  have l: "length (sni_body name) = length name + 5" by (simp add: sni_body_def)
  have b: "length (hello_body rnd sid ciphers cmps (xs @ (0, sni_body name) # ys))
      = length (hello_body rnd sid ciphers cmps (xs @ (0, sni_body []) # ys)) + length name"
    by (simp add: hello_body_def exts_bytes_def sni_body_def)
  have x: "length (exts_bytes (xs @ (0, sni_body name) # ys)) = length (exts_bytes (xs @ (0, sni_body []) # ys)) + length name"
    by (simp add: exts_bytes_def sni_body_def)
  have e: "exts_bytes (xs @ (0, sni_body name) # ys) = frame_b xs @ be_bytes 2 (of_nat (length name + 5) :: u16)
      @ be_bytes 2 (of_nat (length name + 3) :: u16) @ [0] @ be_bytes 2 (of_nat (length name) :: u16) @ name @ exts_bytes ys"
    by (simp add: exts_bytes_def ext_bytes_def frame_b_def l del: be_bytes_numeral)
       (simp add: sni_body_def del: be_bytes_numeral)
  show ?thesis
    unfolding client_hello_def framed_def hello_frame_def Let_def b
    unfolding hello_body_def x unfolding e by (simp add: frame_a_def del: be_bytes_numeral)
qed

lemma length_framed: "length (framed A B k x n t) = 18 + length A + length B + length t"
  by (simp add: framed_def hello_frame_def)

lemma framed_split: "framed A B k x n t = framed A B k x n [] @ t"
  by (simp add: framed_def hello_frame_def del: be_bytes_numeral)

lemma of_nat_delta: "(of_nat (a + n) :: 'w::len word) + of_int (int m - int n) = of_nat (a + m)"
  by simp

lemma mod_sni_framed:
  assumes d: "d = framed A B k x (length name) (name @ C @ spare)" and k: "k + length name < 2 ^ 24"
    and sz: "sz = 18 + length A + length B + length name + length C"
    and room: "sz + length new - length name \<le> length d" and big: "length d < 2 ^ 63"
    and p: "eo = 9 + length A" "se = 13 + length A + length B" "sni = 18 + length A + length B"
  shows "\<exists>e. mod_sni new d sz eo se sni (length name) = Some (Some (e, sz + length new - length name, length new))
    \<and> length e = length d \<and> take (sz + length new - length name) e = framed A B k x (length new) (new @ C)"
proof -
  let ?n = "length name" and ?m = "length new"
  have ld: "length d = sz + length spare" by (simp add: d length_framed sz)
  have room': "sni + ?m + length C \<le> length d" using room sz p by simp
  have wrw: "wr_block (framed A B k x i (g @ t)) sni new = Some (framed A B k x i (new @ t))" if "length g = ?m" for i g t
    using that by (subst (1 2) framed_split) (simp add: wr_block_def length_framed p)
  show ?thesis
  proof (cases "?m = ?n")
    case True
    have "wr_block d sni new = Some (framed A B k x ?m (new @ C @ spare))"
      unfolding d True[symmetric] by (rule wrw) (simp add: True)
    moreover have "take sz (framed A B k x ?m (new @ C @ spare)) = framed A B k x ?m (new @ C)"
      by (subst framed_split, subst (2) framed_split) (simp add: length_framed sz True)
    moreover have "length (framed A B k x ?m (new @ C @ spare)) = length d" by (simp add: d length_framed True)
    ultimately show ?thesis using True by (simp add: mod_sni_def Let_def)
  next
    case False
    define G where "G = take ?m (name @ C @ spare)"
    define Z where "Z = drop (sni + ?m + length C) d"
    have "length (name @ C @ spare) = length d - sni" using ld sz p by simp
    then have lG: "length G = ?m" using room' unfolding G_def by simp
    have tk: "take (sni + ?m) d = framed A B k x ?n G"
      unfolding d G_def by (subst framed_split, subst (2) framed_split) (simp add: length_framed p)
    have rest: "rd_block d (sni + ?n) (sz - (sni + ?n)) = Some C"
      unfolding d by (subst framed_split) (simp add: rd_block_def length_framed p sz)
    have mv: "wr_block d (sni + ?m) C = Some (framed A B k x ?n (G @ C @ Z))"
      using room' unfolding wr_block_def tk Z_def by (subst (2) framed_split, subst framed_split) (simp add: add.assoc)
    let ?x = "int ?m - int ?n"
    have H: "unat (of_nat (k + ?n) :: u32) < 2 ^ 24" using k by (simp add: unat_of_nat del: of_nat_add)
    have sz': "nat ((int sz + ?x) mod 2 ^ 64) = sz + ?m - ?n" "sni + ?n \<le> sz"
      using room big sz p by (simp_all add: nat_mod_as_int[symmetric] flip: of_nat_add)
    have adds: "(do {
           d \<leftarrow> add16 (framed A B k x ?n (G @ C @ Z)) 3 ?x;
           d \<leftarrow> add24 d 6 ?x;
           d \<leftarrow> add16 d eo ?x;
           d \<leftarrow> add16 d (se - 2) ?x;
           d \<leftarrow> add16 d se ?x;
           d \<leftarrow> add16 d (sni - 2) ?x;
           d \<leftarrow> wr_block d sni new;
           Some (Some (d, sz + ?m - ?n, ?m)) }) = Some (Some (framed A B k x ?m (new @ C @ Z), sz + ?m - ?n, ?m))"
    proof -
      have q: "se - 2 = 11 + length A + length B" "sni - 2 = 16 + length A + length B" by (simp_all add: p)
      have r: "hello_frame (of_nat (k + ?n + 4) + of_int ?x) (of_nat (k + ?n) + of_int ?x) A (of_nat (x + ?n) + of_int ?x) B
          (of_nat (?n + 5) + of_int ?x) (of_nat (?n + 3) + of_int ?x) (of_nat ?n + of_int ?x) t = framed A B k x ?m t" for t
        by (simp add: framed_def ac_simps)
      show ?thesis
        unfolding framed_def[of A B k x ?n]
        by (simp only: frame_adds(1) frame_adds(2)[OF H] frame_adds(3)[OF p(1)] frame_adds(4)[OF q(1)] frame_adds(5)[OF p(2)]
            frame_adds(6)[OF q(2)] bind.bind_lunit r wrw[OF lG])
    qed
    have "mod_sni new d sz eo se sni ?n = Some (Some (framed A B k x ?m (new @ C @ Z), sz + ?m - ?n, ?m))"
      unfolding mod_sni_def Let_def sz'(1) using False room sz'(2) rest mv adds by simp
    moreover have "take (sz + ?m - ?n) (framed A B k x ?m (new @ C @ Z)) = framed A B k x ?m (new @ C)"
      by (subst framed_split, subst (2) framed_split) (simp add: length_framed sz)
    moreover have "length (framed A B k x ?m (new @ C @ Z)) = length d"
      using room' by (simp add: length_framed Z_def p)
    ultimately show ?thesis by blast
  qed
qed

lemma client_hello_id_length:
  assumes "hello_ok rnd sid ciphers cmps exts"
  shows "rd (client_hello rnd sid ciphers cmps exts @ spare) 43 = Some (of_nat (length sid))"
    and "44 + length sid \<le> length (client_hello rnd sid ciphers cmps exts)"
proof -
  have r: "length rnd = 32" using assms by (simp add: hello_ok_def)
  let ?h = "[0x16, 3, 1] @ be_bytes 2 (of_nat (length (hello_body rnd sid ciphers cmps exts) + 4) :: u16) @ [1 :: u8]
     @ be_bytes 3 (of_nat (length (hello_body rnd sid ciphers cmps exts)) :: u32) @ [3, 3] @ rnd"
  have "client_hello rnd sid ciphers cmps exts @ spare = ?h @ of_nat (length sid) # (sid
     @ be_bytes 2 (of_nat (length ciphers) :: u16) @ ciphers @ [of_nat (length cmps)] @ cmps
     @ be_bytes 2 (of_nat (length (exts_bytes exts)) :: u16) @ exts_bytes exts @ spare)"
    by (simp add: client_hello_def hello_body_def Let_def del: be_bytes_numeral)
  then show "rd (client_hello rnd sid ciphers cmps exts @ spare) 43 = Some (of_nat (length sid))"
    using rd_at[of 43 ?h] r by simp
  show "44 + length sid \<le> length (client_hello rnd sid ciphers cmps exts)"
    using length_client_hello[OF assms] by (simp add: exts_start_def)
qed

lemma TLSMod_sni:
  assumes ok: "hello_ok rnd sid ciphers cmps (xs @ (0, sni_body name) # ys)"
    and x: "0 \<notin> fst ` set xs" and name: "length name < 65000"
    and d: "d = client_hello rnd sid ciphers cmps (xs @ (0, sni_body name) # ys) @ spare"
    and sz: "sz = length (client_hello rnd sid ciphers cmps (xs @ (0, sni_body name) # ys))"
    and m: "tm_mod m = FAKE_TLS_MOD_SNI"
    and room: "sz + length (tm_sni m) - length name \<le> length d" and big: "length d < 2 ^ 63"
  shows "\<exists>e. TLSMod m payload rng addr d sz = Some (True, e, sz + length (tm_sni m) - length name)
    \<and> take (sz + length (tm_sni m) - length name) e
      = client_hello rnd sid ciphers cmps (xs @ (0, sni_body (tm_sni m)) # ys)"
proof -
  let ?e = "xs @ (0, sni_body name) # ys"
  let ?A = "frame_a rnd sid ciphers cmps" and ?B = "frame_b xs"
  let ?s = "exts_start sid ciphers cmps"
  define k where "k = length (hello_body rnd sid ciphers cmps (xs @ (0, sni_body []) # ys))"
  define w where "w = length (exts_bytes (xs @ (0, sni_body []) # ys))"
  have len: "length (client_hello rnd sid ciphers cmps ?e) \<le> sz" "sz \<le> length d" using sz d by simp_all
  have fr: "client_hello rnd sid ciphers cmps (xs @ (0, sni_body nm) # ys) = framed ?A ?B k w (length nm) (nm @ exts_bytes ys)" for nm
    unfolding k_def w_def by (rule client_hello_framed)
  have h: "IsTLSClientHello d sz False = Some True"
    using client_hello_is_hello(1)[OF ok d len(1), where t = 1 and b = False] by (simp add: IsTLSClientHello_def)
  have sid: "length sid < 256" using ok by (simp add: hello_ok_def)
  have bad: "cor (Some (\<not> True)) (map_option (\<lambda>n. sz < 44 + unat n) (rd d 43)) = Some False"
    using client_hello_id_length(1)[OF ok, of spare] client_hello_id_length(2)[OF ok] sz d sid by (simp add: unat_of_nat)
  have lA: "?s = 11 + length ?A" using ok by (simp add: exts_start_def frame_a_def hello_ok_def)
  have lB: "length ?B = length (exts_bytes xs) + 2" by (simp add: frame_b_def)
  have sz5: "length (client_hello rnd sid ciphers cmps ?e) \<le> (sz - 5) + 5" using sz by simp
  have eo: "TLSFindExtLen d sz = Some (Some (9 + length ?A))"
    using client_hello_ext_len(1)[OF ok sz5 d] lA length_client_hello[OF ok] sz by (simp add: TLSFindExtLen_def)
  have se: "TLSFindExt d sz 0 False = Some (Some (13 + length ?A + length ?B, length (sni_body name)))"
    using TLSFindExt_client_hello[OF ok d len(1), where type = 0 and b = False] ext_at_drop[OF x] lA lB by simp
  have adv: "TLSAdvanceToHostInSNI d (13 + length ?A + length ?B) (length (sni_body name))
      = Some (Some (18 + length ?A + length ?B, length name, length name))"
    using TLSAdvance_client_hello[OF ok d name, of "13 + length ?A + length ?B"] lA lB by simp
  have kb: "k + length name < 2 ^ 24"
    using ok by (simp add: hello_ok_def hello_body_def k_def exts_bytes_def sni_body_def)
  have d': "d = framed ?A ?B k w (length name) (name @ exts_bytes ys @ spare)"
    unfolding d fr by (subst framed_split, subst (2) framed_split) simp
  have s': "sz = 18 + length ?A + length ?B + length name + length (exts_bytes ys)"
    unfolding sz fr by (simp add: length_framed)
  obtain e where e: "mod_sni (tm_sni m) d sz (9 + length ?A) (13 + length ?A + length ?B) (18 + length ?A + length ?B) (length name)
      = Some (Some (e, sz + length (tm_sni m) - length name, length (tm_sni m)))"
    "take (sz + length (tm_sni m) - length name) e = framed ?A ?B k w (length (tm_sni m)) (tm_sni m @ exts_bytes ys)"
    using mod_sni_framed[OF d' kb s' room big refl refl refl] by blast
  have f: "has_mod m FAKE_TLS_MOD_SNI" "\<not> has_mod m FAKE_TLS_MOD_RND_SNI" "\<not> has_mod m FAKE_TLS_MOD_RND"
    "\<not> has_mod m FAKE_TLS_MOD_DUP_SID" "\<not> has_mod m FAKE_TLS_MOD_PADENCAP"
    "has_mod m (FAKE_TLS_MOD_RND_SNI OR FAKE_TLS_MOD_SNI)"
    "has_mod m (FAKE_TLS_MOD_RND_SNI OR FAKE_TLS_MOD_SNI OR FAKE_TLS_MOD_PADENCAP)"
    by (simp_all add: has_mod_def m FAKE_TLS_MOD_SNI_def FAKE_TLS_MOD_RND_SNI_def FAKE_TLS_MOD_RND_def
        FAKE_TLS_MOD_DUP_SID_def FAKE_TLS_MOD_PADENCAP_def)
  have n: "mod_name m rng d sz (9 + length ?A) = Some (Some (True, e, sz + length (tm_sni m) - length name))"
    unfolding mod_name_def se bind.bind_lunit option.case prod.case adv using e(1) f by simp
  have "TLSMod m payload rng addr d sz = Some (True, e, sz + length (tm_sni m) - length name)"
    unfolding TLSMod_def h bind.bind_lunit bad if_False if_P[OF f(6)] if_P[OF f(7)] eo option.case n prod.case
    using f by (cases payload) auto
  then show ?thesis using e(2) fr[of "tm_sni m"] by simp
qed

subsection \<open>Properties\<close>

text \<open>C30: TLSMod stays inside its buffers: whatever the fake, the payload and the modifications are, it reads
  and writes no byte outside them, keeps the capacity and leaves a size that fits it.\<close>

theorem TLSMod_safe:
  assumes "sz \<le> length d" and "44 \<le> length d" and "length d < 2 ^ 63" and "length (tm_sni m) < 2 ^ 62"
    and "case payload of None \<Rightarrow> True | Some (pd, plen) \<Rightarrow> plen \<le> length pd"
  shows "\<exists>b e sz'. TLSMod m payload rnd addr d sz = Some (b, e, sz') \<and> length e = length d \<and> sz' \<le> length d"
proof -
  have "plen \<le> length pd" if "payload = Some (pd, plen)" for pd plen using assms(5) that by simp
  from TLSMod_wp[OF assms(1-4) this, of payload rnd addr] show ?thesis by (auto simp: returns_def)
qed

lemma TLSMod_safe_witness:
  "\<exists>b e sz'. TLSMod \<lparr>tm_sni = [], tm_mod = 0x1F\<rparr> None (\<lambda>i k. 0) 0 (replicate 64 0) 64 = Some (b, e, sz') \<and> length e = 64"
  using TLSMod_safe[of 64 "replicate 64 0" "\<lparr>tm_sni = [], tm_mod = 0x1F\<rparr>" None] by fastforce

text \<open>C16: The sni modification refines the replacement of the name in the message: a fake that is a ClientHello
  with the name \<open>name\<close> becomes the ClientHello with the new name and all six length fields to match, if
  the buffer has room, whatever else the message contains.\<close>

theorem TLSMod_replaces_sni:
  assumes "hello_ok rnd sid ciphers cmps (xs @ (0, sni_body name) # ys)" and "0 \<notin> fst ` set xs"
    and "length name < 65000"
    and "d = client_hello rnd sid ciphers cmps (xs @ (0, sni_body name) # ys) @ spare"
    and "sz = length (client_hello rnd sid ciphers cmps (xs @ (0, sni_body name) # ys))"
    and "tm_mod m = FAKE_TLS_MOD_SNI"
    and "sz + length (tm_sni m) - length name \<le> length d" and "length d < 2 ^ 63"
  shows "\<exists>e. TLSMod m payload rng addr d sz = Some (True, e, sz + length (tm_sni m) - length name)
    \<and> take (sz + length (tm_sni m) - length name) e
      = client_hello rnd sid ciphers cmps (xs @ (0, sni_body (tm_sni m)) # ys)"
  by (rule TLSMod_sni[OF assms])

lemma TLSMod_replaces_sni_witness:
  "\<exists>d e. TLSMod \<lparr>tm_sni = lit ''b.org'', tm_mod = FAKE_TLS_MOD_SNI\<rparr> None (\<lambda>i k. 0) 0 d 64 = Some (True, e, 66)
     \<and> take 66 e = client_hello (replicate 32 7) [] [0x13, 1] [0] ([] @ (0, sni_body (lit ''b.org'')) # [])"
proof -
  have ok: "hello_ok (replicate 32 7) [] [0x13, 1] [0] ([] @ (0, sni_body (lit ''a.a'')) # [])"
    by (simp add: hello_ok_def hello_body_def ext_ok_def ext_bytes_def sni_body_def)
  have l: "length (client_hello (replicate 32 7) [] [0x13, 1] [0] ([] @ (0, sni_body (lit ''a.a'')) # [])) = 64"
    using length_client_hello[OF ok] by (simp add: exts_start_def sni_body_def)
  have "\<exists>e. TLSMod \<lparr>tm_sni = lit ''b.org'', tm_mod = FAKE_TLS_MOD_SNI\<rparr> None (\<lambda>i k. 0) 0
      (client_hello (replicate 32 7) [] [0x13, 1] [0] ([] @ (0, sni_body (lit ''a.a'')) # []) @ replicate 8 0) 64 = Some (True, e, 66)
     \<and> take 66 e = client_hello (replicate 32 7) [] [0x13, 1] [0] ([] @ (0, sni_body (lit ''b.org'')) # [])"
    using TLSMod_replaces_sni[OF ok _ _ refl refl, of "\<lparr>tm_sni = lit ''b.org'', tm_mod = FAKE_TLS_MOD_SNI\<rparr>"
        "replicate 8 0" None "\<lambda>i k. 0" 0] l by simp
  then show ?thesis by blast
qed

end
