(* ===== verification/Recognise.thy ===== *)
theory Recognise
  imports Tls
begin

text \<open>
  The short recognisers of src/nfq2/protocol.c: XMPP, DNS, WireGuard, DHT, Discord, STUN, DTLS, BitTorrent and uTP.
  (MTProto is in theory AesCtr, QUIC in theory Quic.)
\<close>

unbundle bit_operations_syntax

subsection \<open>The code\<close>

text \<open>\<open>memmem\<close> of the C library over the \<open>n\<close> bytes at \<open>p\<close>.\<close>

definition mem_mem :: "bytes \<Rightarrow> nat \<Rightarrow> nat \<Rightarrow> bytes \<Rightarrow> bool option" where
  "mem_mem d p n xs = map_option (\<lambda>h. \<exists>i \<in> set [0..<n + 1 - length xs]. take (length xs) (drop i h) = xs) (rd_block d p n)"

definition IsXMPPStream :: "bytes \<Rightarrow> nat \<Rightarrow> bool option" where
  "IsXMPPStream data len =
     cor (cand (Some (len \<ge> 16)) (mem_eq data 0 (lit ''<stream:stream '')))
         (cand (Some (len \<ge> 36))
         (cand (mem_eq data 0 (lit ''<?xml ''))
               (mem_mem data 21 (len - 21) (lit ''<stream:stream ''))))"

definition IsXMPPStartTLS :: "bytes \<Rightarrow> nat \<Rightarrow> bool option" where
  "IsXMPPStartTLS data len = cand (Some (len \<ge> 10)) (mem_eq data 0 (lit ''<starttls ''))"

definition IsXMPPProceedTLS :: "bytes \<Rightarrow> nat \<Rightarrow> bool option" where
  "IsXMPPProceedTLS data len = cand (Some (len \<ge> 9)) (mem_eq data 0 (lit ''<proceed ''))"

definition IsXMPPFeatures :: "bytes \<Rightarrow> nat \<Rightarrow> bool option" where
  "IsXMPPFeatures data len = cand (Some (len \<ge> 17)) (mem_eq data 0 (lit ''<stream:features''))"

definition IsDNSQuery :: "bytes \<Rightarrow> nat \<Rightarrow> bool option" where
  "IsDNSQuery data len =
     cand (Some (len \<ge> 12))
    (cand (map_option (\<lambda>b. b AND 0xFE = 0) (rd data 2))
    (cand (mem_eq data 4 [0, 1, 0, 0, 0, 0])
          (map_option (\<lambda>v. v \<le> 3) (pntoh16 data 10))))"

definition IsDNSResponse :: "bytes \<Rightarrow> nat \<Rightarrow> bool option" where
  "IsDNSResponse data len =
     cand (Some (len \<ge> 12))
    (cand (map_option (\<lambda>b. b AND 0xF8 = 0x80) (rd data 2))
    (cand (map_option (\<lambda>v. v = 1) (pntoh16 data 4))
    (cand (map_option (\<lambda>v. v \<le> 100) (pntoh16 data 6))
    (cand (map_option (\<lambda>v. v \<le> 100) (pntoh16 data 8))
          (map_option (\<lambda>v. v \<le> 100) (pntoh16 data 10))))))"

definition IsWireguardHandshakeInitiation :: "bytes \<Rightarrow> nat \<Rightarrow> bool option" where
  "IsWireguardHandshakeInitiation data len = cand (Some (len = 148)) (map_option (\<lambda>v. v = 0x01000000) (pntoh32 data 0))"

definition IsWireguardHandshakeResponse :: "bytes \<Rightarrow> nat \<Rightarrow> bool option" where
  "IsWireguardHandshakeResponse data len = cand (Some (len = 92)) (map_option (\<lambda>v. v = 0x02000000) (pntoh32 data 0))"

definition IsWireguardHandshakeCookie :: "bytes \<Rightarrow> nat \<Rightarrow> bool option" where
  "IsWireguardHandshakeCookie data len = cand (Some (len = 64)) (map_option (\<lambda>v. v = 0x03000000) (pntoh32 data 0))"

definition IsWireguardData :: "bytes \<Rightarrow> nat \<Rightarrow> bool option" where
  "IsWireguardData data len = cand (Some (len \<ge> 52)) (map_option (\<lambda>v. v = 0x04000000) (pntoh32 data 0))"

definition IsWireguardKeepalive :: "bytes \<Rightarrow> nat \<Rightarrow> bool option" where
  "IsWireguardKeepalive data len = cand (Some (len = 32)) (map_option (\<lambda>v. v = 0x04000000) (pntoh32 data 0))"

text \<open>One character of the packet.\<close>

definition is_at :: "bytes \<Rightarrow> nat \<Rightarrow> char \<Rightarrow> bool option" where
  "is_at data i c = map_option (\<lambda>b. b = ch c) (rd data i)"

definition IsDht :: "bytes \<Rightarrow> nat \<Rightarrow> bool option" where
  "IsDht data len =
     cand (Some (len \<ge> 5)) (cand (is_at data 0 (CHR ''d'')) (cand (is_at data 2 (CHR '':'')) (cand (is_at data (len - 1) (CHR ''e''))
      (cor (cand (is_at data 1 (CHR ''1'')) (cand (is_at data 3 (CHR ''a'')) (is_at data 4 (CHR ''d''))))
      (cor (cand (is_at data 1 (CHR ''1'')) (cand (is_at data 3 (CHR ''r'')) (is_at data 4 (CHR ''d''))))
      (cor (cand (is_at data 1 (CHR ''2'')) (cand (is_at data 3 (CHR ''i'')) (is_at data 4 (CHR ''p''))))
           (cand (is_at data 1 (CHR ''1'')) (cand (is_at data 3 (CHR ''e'')) (is_at data 4 (CHR ''l''))))))))))"

definition byte_is :: "bytes \<Rightarrow> nat \<Rightarrow> u8 \<Rightarrow> bool option" where
  "byte_is data i v = map_option (\<lambda>b. b = v) (rd data i)"

definition IsDiscordIpDiscoveryRequest :: "bytes \<Rightarrow> nat \<Rightarrow> bool option" where
  "IsDiscordIpDiscoveryRequest data len =
     cand (Some (len = 74)) (cand (byte_is data 0 0) (cand (byte_is data 1 1) (cand (byte_is data 2 0) (cand (byte_is data 3 70)
       (mem_eq data 8 (replicate 64 0))))))"

definition IsStunMessage :: "bytes \<Rightarrow> nat \<Rightarrow> bool option" where
  "IsStunMessage data len =
     cand (Some (len \<ge> 20))
    (cand (map_option (\<lambda>b. b AND 0xC0 = 0) (rd data 0))
    (cand (map_option (\<lambda>b. b AND 3 = 0) (rd data 3))
    (cand (map_option (\<lambda>v. v = 0x2112A442) (pntoh32 data 4))
          (map_option (\<lambda>v. unat v \<le> len - 20) (pntoh16 data 2)))))"

definition IsDTLS :: "bytes \<Rightarrow> nat \<Rightarrow> bool option" where
  "IsDTLS data len =
     cand (Some (len > 13)) (cand (map_option (\<lambda>b. b \<ge> 0x14 \<and> b \<le> 0x17) (rd data 0))
    (cand (cor (cand (byte_is data 1 0xfe) (byte_is data 2 0xff))
          (cor (cand (byte_is data 1 0xfe) (byte_is data 2 0xfd))
          (cor (cand (byte_is data 1 0xfe) (byte_is data 2 0xfc))
               (cand (byte_is data 1 0x01) (byte_is data 2 0x00)))))
          (map_option (\<lambda>v. unat v + 13 \<le> len) (pntoh16 data 11))))"

definition IsDTLSClientHello :: "bytes \<Rightarrow> nat \<Rightarrow> bool option" where
  "IsDTLSClientHello data len = cand (IsDTLS data len) (cand (byte_is data 0 0x16) (byte_is data 13 1))"

definition IsDTLSServerHello :: "bytes \<Rightarrow> nat \<Rightarrow> bool option" where
  "IsDTLSServerHello data len = cand (IsDTLS data len) (cand (byte_is data 0 0x16) (byte_is data 13 2))"

definition IsBTHandshake :: "bytes \<Rightarrow> nat \<Rightarrow> bool option" where
  "IsBTHandshake data len = cand (Some (len \<ge> 1 + 19 + 8 + 20 + 20)) (mem_eq data 0 (0x13 # lit ''BitTorrent protocol''))"

definition IsUTP_BTHandshake :: "bytes \<Rightarrow> nat \<Rightarrow> bool option" where
  "IsUTP_BTHandshake data len =
     cand (Some (len \<ge> 20 + 1 + 19 + 8 + 20 + 20))
    (cand (byte_is data 0 1) (mem_eq data 20 (0x13 # lit ''BitTorrent protocol'')))"

subsection \<open>What they accept\<close>

lemma mem_mem_wp [wp]:
  "returns P (mem_mem d p n xs) \<longleftrightarrow> p + n \<le> length d
     \<and> P (\<exists>i \<in> set [0..<n + 1 - length xs]. take (length xs) (drop i (take n (drop p d))) = xs)"
  by (simp add: mem_mem_def wp)

lemma byte_wp [wp]:
  "returns P (is_at d i c) \<longleftrightarrow> i < length d \<and> P (d ! i = ch c)"
  "returns P (byte_is d i v) \<longleftrightarrow> i < length d \<and> P (d ! i = v)"
  by (simp_all add: is_at_def byte_is_def wp)

lemma xmpp_wp:
  assumes "len \<le> length d"
  shows "returns (\<lambda>_. True) (IsXMPPStream d len)" "returns (\<lambda>_. True) (IsXMPPStartTLS d len)"
    "returns (\<lambda>_. True) (IsXMPPProceedTLS d len)" "returns (\<lambda>_. True) (IsXMPPFeatures d len)"
  using assms by (simp_all add: IsXMPPStream_def IsXMPPStartTLS_def IsXMPPProceedTLS_def IsXMPPFeatures_def wp)

lemma dns_wp:
  assumes "len \<le> length d"
  shows "returns (\<lambda>r. r \<longrightarrow> 12 \<le> len \<and> \<not> bit (d ! 2) 7) (IsDNSQuery d len)"
    and "returns (\<lambda>r. r \<longrightarrow> 12 \<le> len \<and> bit (d ! 2) 7 \<and> pntoh16 d 4 = Some 1 \<and> (\<exists>n. pntoh16 d 6 = Some n \<and> n \<le> 100)) (IsDNSResponse d len)"
proof -
  have q: "\<not> bit b 7" if "b AND 0xFE = 0" for b :: u8
  proof
    assume "bit b 7"
    then have "bit (b AND 0xFE) 7" by (simp add: bit_simps)
    with that show False by simp
  qed
  have r: "bit b 7" if "b AND 0xF8 = 0x80" for b :: u8
  proof -
    have "bit (b AND 0xF8) 7" using that by simp
    then show ?thesis by (simp add: bit_simps)
  qed
  show "returns (\<lambda>r. r \<longrightarrow> 12 \<le> len \<and> \<not> bit (d ! 2) 7) (IsDNSQuery d len)"
    using assms q by (auto simp: IsDNSQuery_def wp intro!: be16.get_wp)
  show "returns (\<lambda>r. r \<longrightarrow> 12 \<le> len \<and> bit (d ! 2) 7 \<and> pntoh16 d 4 = Some 1 \<and> (\<exists>n. pntoh16 d 6 = Some n \<and> n \<le> 100)) (IsDNSResponse d len)"
    using assms r by (auto simp: IsDNSResponse_def wp intro!: be16.get_wp)
qed

text \<open>The first byte tells the WireGuard messages apart, up to data and keepalive, which differ in length.\<close>

lemma wireguard_wp:
  assumes "len \<le> length d"
  shows "returns (\<lambda>r. r \<longleftrightarrow> len = 148 \<and> pntoh32 d 0 = Some 0x01000000) (IsWireguardHandshakeInitiation d len)"
    and "returns (\<lambda>r. r \<longleftrightarrow> len = 92 \<and> pntoh32 d 0 = Some 0x02000000) (IsWireguardHandshakeResponse d len)"
    and "returns (\<lambda>r. r \<longleftrightarrow> len = 64 \<and> pntoh32 d 0 = Some 0x03000000) (IsWireguardHandshakeCookie d len)"
    and "returns (\<lambda>r. r \<longleftrightarrow> 52 \<le> len \<and> pntoh32 d 0 = Some 0x04000000) (IsWireguardData d len)"
    and "returns (\<lambda>r. r \<longleftrightarrow> len = 32 \<and> pntoh32 d 0 = Some 0x04000000) (IsWireguardKeepalive d len)"
  using assms be32.get_nat[of 0 d] unfolding IsWireguardHandshakeInitiation_def IsWireguardHandshakeResponse_def
    IsWireguardHandshakeCookie_def IsWireguardData_def IsWireguardKeepalive_def wp
  by (cases "4 \<le> length d"; force simp: wp)+

lemma udp_wp:
  assumes "len \<le> length d"
  shows "returns (\<lambda>_. True) (IsDht d len)" "returns (\<lambda>_. True) (IsDiscordIpDiscoveryRequest d len)"
    "returns (\<lambda>_. True) (IsStunMessage d len)" "returns (\<lambda>_. True) (IsDTLSClientHello d len)"
    "returns (\<lambda>_. True) (IsDTLSServerHello d len)" "returns (\<lambda>_. True) (IsUTP_BTHandshake d len)"
    "returns (\<lambda>_. True) (IsBTHandshake d len)"
  using assms
  by (auto simp: IsDht_def IsDiscordIpDiscoveryRequest_def IsStunMessage_def IsDTLSClientHello_def IsDTLSServerHello_def
    IsDTLS_def IsUTP_BTHandshake_def IsBTHandshake_def wp intro!: be16.get_wp be32.get_wp)

lemma returns_iff: "returns (\<lambda>r. r \<longleftrightarrow> c) m \<Longrightarrow> m = Some True \<longleftrightarrow> c"
  by (auto simp: returns_def)

subsection \<open>Properties\<close>

text \<open>No recogniser reads behind the payload, whatever it contains; no payload is both a DNS query and a DNS
  response, nor two different WireGuard messages.\<close>

theorem recognisers_safe:
  assumes "len \<le> length d"
  shows "None \<notin> set (map (\<lambda>f. f d len) [IsXMPPStream, IsXMPPStartTLS, IsXMPPProceedTLS, IsXMPPFeatures, IsDNSQuery,
      IsDNSResponse, IsWireguardHandshakeInitiation, IsWireguardHandshakeResponse, IsWireguardHandshakeCookie,
      IsWireguardData, IsWireguardKeepalive, IsDht, IsDiscordIpDiscoveryRequest, IsStunMessage, IsDTLSClientHello,
      IsDTLSServerHello, IsBTHandshake, IsUTP_BTHandshake])
    \<and> \<not> (IsDNSQuery d len = Some True \<and> IsDNSResponse d len = Some True)
    \<and> length (List.filter (\<lambda>f. f d len = Some True) [IsWireguardHandshakeInitiation, IsWireguardHandshakeResponse,
        IsWireguardHandshakeCookie, IsWireguardData, IsWireguardKeepalive]) \<le> 1"
proof (intro conjI)
  show "None \<notin> set (map (\<lambda>f. f d len) [IsXMPPStream, IsXMPPStartTLS, IsXMPPProceedTLS, IsXMPPFeatures, IsDNSQuery,
      IsDNSResponse, IsWireguardHandshakeInitiation, IsWireguardHandshakeResponse, IsWireguardHandshakeCookie,
      IsWireguardData, IsWireguardKeepalive, IsDht, IsDiscordIpDiscoveryRequest, IsStunMessage, IsDTLSClientHello,
      IsDTLSServerHello, IsBTHandshake, IsUTP_BTHandshake])"
    using xmpp_wp[OF assms, THEN returns_defined] dns_wp[OF assms, THEN returns_defined]
      wireguard_wp[OF assms, THEN returns_defined] udp_wp[OF assms, THEN returns_defined]
    unfolding list.map set_simps insert_iff empty_iff by metis
  show "\<not> (IsDNSQuery d len = Some True \<and> IsDNSResponse d len = Some True)"
    using dns_wp[OF assms] by auto
  show "length (List.filter (\<lambda>f. f d len = Some True) [IsWireguardHandshakeInitiation, IsWireguardHandshakeResponse,
        IsWireguardHandshakeCookie, IsWireguardData, IsWireguardKeepalive]) \<le> 1"
    unfolding List.filter.simps wireguard_wp[OF assms, THEN returns_iff] by simp
qed

lemma recognisers_safe_witness:
  "\<not> (IsDNSQuery (replicate 12 0) 12 = Some True \<and> IsDNSResponse (replicate 12 0) 12 = Some True)"
  using recognisers_safe[of 12 "replicate 12 0"] by simp

end
