(* ===== verification/AesCtr.thy ===== *)
theory AesCtr
  imports Helpers
begin

text \<open>
  src/nfq2/crypto/aes-ctr.c: counter mode over a 16-byte block cipher. The cipher (crypto/aes.c, a third-party
  implementation kept in the repository) is the parameter \<open>cipher\<close>: what \<open>aes_cipher\<close> writes for an input
  block under the key of its context; \<open>setkey\<close> is \<open>aes_setkey\<close>, \<open>None\<close> standing for its nonzero
  results. The input and the output are separate buffers.
\<close>

unbundle bit_operations_syntax

subsection \<open>The functions\<close>

type_synonym u128 = "128 word"

definition bswap64 :: "u64 \<Rightarrow> u64" where
  "bswap64 u = be_word (map (\<lambda>i. ucast (drop_bit (8 * i) u)) [0..<8])"

definition ctr_add :: "bytes \<Rightarrow> u64 \<Rightarrow> bytes option" where
  "ctr_add counter add = do {
     c1 \<leftarrow> ld64 counter 8;
     let lsw = bswap64 c1;
     let total = lsw + add;
     counter \<leftarrow> (if total < lsw then do {
                  c0 \<leftarrow> ld64 counter 0;
                  st64 counter 0 (bswap64 (bswap64 c0 + 1)) }
                else Some counter);
     st64 counter 8 (bswap64 total) }"

fun ctr_inc_loop :: "nat \<Rightarrow> bytes \<Rightarrow> bytes option" where
  "ctr_inc_loop 0 counter = Some counter"
| "ctr_inc_loop (Suc bi) counter = do {
     b \<leftarrow> rd counter bi;
     counter \<leftarrow> wr counter bi (b + 1);
     if b + 1 = 0 then ctr_inc_loop bi counter else Some counter }"

definition ctr_increment :: "bytes \<Rightarrow> bytes option" where
  "ctr_increment counter = ctr_inc_loop 16 counter"

text \<open>The loop over the whole blocks; it leaves the counter, the output and the index.\<close>

function ctr_blocks :: "(bytes \<Rightarrow> bytes) \<Rightarrow> bytes \<Rightarrow> bytes \<Rightarrow> bytes \<Rightarrow> nat \<Rightarrow> nat \<Rightarrow> (bytes \<times> bytes \<times> nat) option" where
  "ctr_blocks cipher ivc inp out i l16 =
     (if i < l16 then do {
        let buffer = cipher ivc;
        ivc \<leftarrow> ctr_increment ivc;
        a \<leftarrow> ld64 inp i; k \<leftarrow> ld64 buffer 0;
        out \<leftarrow> st64 out i (a XOR k);
        a \<leftarrow> ld64 inp (i + 8); k \<leftarrow> ld64 buffer 8;
        out \<leftarrow> st64 out (i + 8) (a XOR k);
        ctr_blocks cipher ivc inp out (i + 16) l16 }
      else Some (ivc, out, i))"
  by pat_completeness auto
termination by (relation "measure (\<lambda>(cipher, ivc, inp, out, i, l16). l16 - i)") auto

declare ctr_blocks.simps [simp del]

fun ctr_tail :: "bytes \<Rightarrow> bytes \<Rightarrow> bytes \<Rightarrow> nat \<Rightarrow> nat \<Rightarrow> nat \<Rightarrow> bytes option" where
  "ctr_tail buffer inp out i bi 0 = Some out"
| "ctr_tail buffer inp out i bi (Suc n) = do {
     a \<leftarrow> rd inp i; k \<leftarrow> rd buffer bi;
     out \<leftarrow> wr out i (a XOR k);
     ctr_tail buffer inp out (i + 1) (bi + 1) n }"

definition aes_ctr_xcrypt_buffer :: "(bytes \<Rightarrow> bytes) \<Rightarrow> bytes \<Rightarrow> bytes \<Rightarrow> nat \<Rightarrow> bytes \<Rightarrow> bytes option" where
  "aes_ctr_xcrypt_buffer cipher iv inp len out = do {
     let l16 = len - len mod 16;
     ivc \<leftarrow> rd_block iv 0 16;
     (ivc, out, i) \<leftarrow> ctr_blocks cipher ivc inp out 0 l16;
     if i < len then ctr_tail (cipher ivc) inp out i 0 (len - i) else Some out }"

text \<open>A key schedule that fails leaves the output alone; its error code is \<open>False\<close> here.\<close>

definition aes_ctr_crypt :: "(bytes \<Rightarrow> (bytes \<Rightarrow> bytes) option) \<Rightarrow> bytes \<Rightarrow> bytes \<Rightarrow> bytes \<Rightarrow> nat \<Rightarrow> bytes \<Rightarrow> (bool \<times> bytes) option" where
  "aes_ctr_crypt setkey key iv inp len out =
     (case setkey key of None \<Rightarrow> Some (False, out)
      | Some cipher \<Rightarrow> map_option (Pair True) (aes_ctr_xcrypt_buffer cipher iv inp len out))"

definition st32 :: "bytes \<Rightarrow> nat \<Rightarrow> u32 \<Rightarrow> bytes option" where
  "st32 d p v = wr_block d p (map (\<lambda>i. ucast (drop_bit (8 * i) v)) [0..<4])"

text \<open>The recogniser of MTProto (src/nfq2/protocol.c), which decrypts only the fourth block.\<close>

definition IsMTProto :: "(bytes \<Rightarrow> (bytes \<Rightarrow> bytes) option) \<Rightarrow> bytes \<Rightarrow> nat \<Rightarrow> bool option" where
  "IsMTProto setkey data len =
     (if len \<ge> 64 then do {
        iv \<leftarrow> rd_block data 40 16;
        iv \<leftarrow> ctr_add iv 3;
        key \<leftarrow> rd_block data 8 32;
        case setkey key of None \<Rightarrow> Some False
        | Some cipher \<Rightarrow> do {
            let decrypt = cipher iv;
            a \<leftarrow> ld32 decrypt 8;
            b \<leftarrow> ld32 data 56;
            decrypt \<leftarrow> st32 decrypt 8 (a XOR b);
            mem_eq decrypt 8 (replicate 4 0xEF) } }
      else Some False)"

subsection \<open>The counter as a number\<close>

definition counter_at :: "bytes \<Rightarrow> nat \<Rightarrow> bytes" where
  "counter_at iv n = be_bytes 16 (be_word iv + of_nat n :: u128)"

lemma bswap64_le: "length bs = 8 \<Longrightarrow> bswap64 (foldr le_step bs 0) = be_word bs"
proof -
  assume l: "length bs = 8"
  have "map (\<lambda>i. ucast (drop_bit (8 * i) (foldr le_step bs (0 :: u64)))) [0..<8] = map (\<lambda>i. bs ! i) [0..<8]"
    using l by (intro map_cong refl byte_of_foldr_le) auto
  also have "\<dots> = bs" using l map_nth[of bs] by simp
  finally show ?thesis by (simp add: bswap64_def)
qed

lemma bswap64_ld64: "p + 8 \<le> length d \<Longrightarrow> \<exists>w. ld64 d p = Some w \<and> bswap64 w = be_word (take 8 (drop p d))"
  by (simp add: ld64_def bswap64_le)

lemma le_bytes64: "map (\<lambda>i. ucast (drop_bit (8 * i) v)) [0..<8] = rev (be_bytes 8 (v :: u64))"
  by (simp add: upt_0_numeral)

lemma st64_bswap64: "st64 d p (bswap64 v) = wr_block d p (be_bytes 8 v)"
proof -
  let ?L = "map (\<lambda>i. ucast (drop_bit (8 * i) v)) [0..<8] :: bytes"
  have "bswap64 v = foldr le_step (be_bytes 8 v) 0"
    using foldr_le_step[of "be_bytes 8 v", where 'w = 64] by (simp only: bswap64_def le_bytes64)
  moreover have "map (\<lambda>i. ucast (drop_bit (8 * i) (foldr le_step (be_bytes 8 v) (0 :: u64)))) [0..<8]
      = map (\<lambda>i. be_bytes 8 v ! i) [0..<8]"
    by (intro map_cong refl byte_of_foldr_le) auto
  ultimately show ?thesis using map_nth[of "be_bytes 8 v"] by (simp only: st64_def length_be_bytes)
qed

lemma be_nat_be_bytes: "8 * n \<le> LENGTH('w) \<Longrightarrow> be_nat (be_bytes n (v :: 'w::len word)) = unat v mod 256 ^ n"
proof -
  assume n: "8 * n \<le> LENGTH('w)"
  have "be_nat (be_bytes n v) = unat (be_word (be_bytes n v) :: 'w word)"
    using n by (simp add: unat_be_word)
  also have "\<dots> = unat v mod 256 ^ n"
    by (simp only: be_word_be_bytes unsigned_take_bit_eq) (simp add: take_bit_eq_mod power_mult)
  finally show ?thesis .
qed

lemma be_nat_counter: "length c = 16 \<Longrightarrow> be_nat (counter_at c n) = (be_nat c + n) mod 2 ^ 128"
  by (simp add: counter_at_def be_nat_be_bytes unat_word_ariths unat_of_nat unat_be_word mod_simps del: be_bytes_numeral)

lemma counter_unique:
  "length c = 16 \<Longrightarrow> length e = 16 \<Longrightarrow> be_nat e = (be_nat c + n) mod 2 ^ 128 \<Longrightarrow> e = counter_at c n"
  by (rule be_nat_inj) (simp_all add: be_nat_counter, simp add: counter_at_def)

lemma split_counter: "length c = 16 \<Longrightarrow> be_nat c = 2 ^ 64 * be_nat (take 8 c) + be_nat (drop 8 c)"
  using be_nat_append[of "take 8 c" "drop 8 c"] by simp

lemma add_halves:
  fixes M :: nat
  assumes "l < M" and "a < M"
  shows "M * ((if M \<le> l + a then h + 1 else h) mod M) + (l + a) mod M = (M * h + l + a) mod (M * M)"
proof -
  have "(l + a) div M = (if M \<le> l + a then 1 else 0)"
    using assms by (auto simp: div_nat_eqI)
  moreover have "(M * h + l + a) div M = h + (l + a) div M" using assms by (simp add: add.assoc)
  moreover have "(M * h + l + a) mod M = (l + a) mod M" by (simp add: add.assoc)
  ultimately show ?thesis by (simp add: mod_mult2_eq)
qed

lemma ctr_add_counter:
  assumes c: "length c = 16"
  shows "ctr_add c a = Some (counter_at c (unat a))"
proof -
  let ?hi = "be_word (take 8 c) :: u64" and ?lo = "be_word (drop 8 c) :: u64"
  have u: "unat ?hi = be_nat (take 8 c)" "unat ?lo = be_nat (drop 8 c)"
    using c by (simp_all add: unat_be_word)
  obtain c1 where c1: "ld64 c 8 = Some c1" "bswap64 c1 = ?lo" using bswap64_ld64[of 8 c] c by auto
  obtain c0 where c0: "ld64 c 0 = Some c0" "bswap64 c0 = ?hi" using bswap64_ld64[of 0 c] c by auto
  define e where "e = be_bytes 8 (if ?lo + a < ?lo then ?hi + 1 else ?hi) @ be_bytes 8 (?lo + a)"
  have hi: "be_bytes 8 ?hi = take 8 c" using be_bytes_be_word[of "take 8 c", where 'w = 64] c by simp
  have "ctr_add c a = Some e"
    using c c0 c1 by (simp add: ctr_add_def st64_bswap64 wr_block_def e_def hi del: be_bytes_numeral)
  moreover have "be_nat e = (be_nat c + unat a) mod 2 ^ 128"
  proof -
    have lt: "?lo + a < ?lo \<longleftrightarrow> 2 ^ 64 \<le> unat ?lo + unat a"
      using unat_u64_less[of ?lo] unat_u64_less[of a] unfolding word_less_nat_alt unat_plus_if'
      by (simp split: if_splits, linarith)
    have "be_nat e = 2 ^ 64 * unat (if ?lo + a < ?lo then ?hi + 1 else ?hi) + unat (?lo + a)"
      by (simp add: e_def be_nat_append be_nat_be_bytes del: be_bytes_numeral)
    moreover have "unat (if ?lo + a < ?lo then ?hi + 1 else ?hi)
        = (if 2 ^ 64 \<le> unat ?lo + unat a then unat ?hi + 1 else unat ?hi) mod 2 ^ 64"
      unfolding lt by (auto simp: unat_word_ariths)
    moreover have "unat (?lo + a) = (unat ?lo + unat a) mod 2 ^ 64" by (simp add: unat_word_ariths)
    moreover have "2 ^ 64 * 2 ^ 64 = (2 :: nat) ^ 128" by simp
    moreover have "unat ?lo < 2 ^ 64" "unat a < 2 ^ 64" by simp_all
    note add_halves[OF this, of "unat ?hi"]
    ultimately show ?thesis
      unfolding split_counter[OF c] u[symmetric] by argo
  qed
  ultimately show ?thesis using counter_unique[OF c, of e] by (simp add: e_def del: be_bytes_numeral)
qed

lemma ctr_inc_loop_prefix:
  "n \<le> length c \<Longrightarrow> \<exists>e. ctr_inc_loop n c = Some e \<and> length e = length c \<and> drop n e = drop n c
     \<and> be_nat (take n e) = (be_nat (take n c) + 1) mod 256 ^ n"
proof (induction n arbitrary: c)
  case (Suc n)
  have cut: "be_nat (take (Suc n) d) = 256 * be_nat (take n d) + unat (d ! n)" if "n < length d" for d
    using that by (simp add: take_Suc_conv_app_nth be_nat_append)
  let ?c = "c[n := c ! n + 1]"
  show ?case
  proof (cases "c ! n + 1 = 0")
    case True
    then have "(unat (c ! n) + 1) mod 256 = 0" using unat_word_ariths(1)[of "c ! n" 1] by simp
    then have last: "unat (c ! n) = 255" using unat_u8_less[of "c ! n"] by presburger
    from Suc.IH[of ?c] Suc.prems obtain e where e: "ctr_inc_loop n ?c = Some e" "length e = length c"
      "drop n e = drop n ?c" "be_nat (take n e) = (be_nat (take n c) + 1) mod 256 ^ n" by auto
    have "e ! n = 0" using e(2,3) True Suc.prems by (metis Cons_nth_drop_Suc Suc_le_lessD length_list_update list.inject nth_list_update_eq)
    moreover have "drop (Suc n) e = drop (Suc n) c" using e(3) by (metis drop_drop drop_update_cancel lessI plus_1_eq_Suc)
    moreover have "(256 * x + 255 + 1) mod 256 ^ Suc n = 256 * ((x + 1) mod 256 ^ n) + 0" for x :: nat
      by (simp add: mult_mod_right)
    ultimately have "be_nat (take (Suc n) e) = (be_nat (take (Suc n) c) + 1) mod 256 ^ Suc n"
      using e Suc.prems last by (simp only: cut Suc_le_eq unat_0)
    with e True Suc.prems \<open>drop (Suc n) e = _\<close> show ?thesis by (simp del: power_Suc)
  next
    case False
    then have "unat (c ! n + 1) = unat (c ! n) + 1" by (metis unatSuc add.commute Suc_eq_plus1)
    moreover have "256 * be_nat (take n c) + unat (c ! n) + 1 < 256 ^ Suc n"
    proof -
      have "unat (c ! n) + 1 < 256" using unat_u8_less[of "c ! n + 1"] calculation by simp
      moreover have "256 * be_nat (take n c) \<le> 256 * (256 ^ n - 1)"
        using be_nat_less[of "take n c"] Suc.prems by (intro mult_le_mono2) (simp add: min_def)
      moreover have "(1 :: nat) \<le> 256 ^ n" by simp
      ultimately show ?thesis unfolding diff_mult_distrib2 power_Suc by linarith
    qed
    ultimately have "be_nat (take (Suc n) ?c) = (be_nat (take (Suc n) c) + 1) mod 256 ^ Suc n"
      using Suc.prems by (simp add: cut del: power_Suc)
    with False Suc.prems show ?thesis by (simp del: power_Suc)
  qed
qed simp

lemma ctr_increment_counter: "length c = 16 \<Longrightarrow> ctr_increment c = Some (counter_at c 1)"
  using ctr_inc_loop_prefix[of 16 c] counter_unique[of c _ 1]
  by (auto simp: ctr_increment_def)

lemma length_counter_at [simp]: "length (counter_at c n) = 16"
  by (simp add: counter_at_def del: be_bytes_numeral)

lemma counter_at_0: "length c = 16 \<Longrightarrow> counter_at c 0 = c"
  using be_bytes_be_word[of c, where 'w = 128] by (simp add: counter_at_def del: be_bytes_numeral)

lemma counter_at_add: "counter_at (counter_at c m) n = counter_at c (m + n)"
proof -
  have "be_word (counter_at c m) = (be_word c + of_nat m :: u128)"
    by (simp add: counter_at_def be_word_be_bytes take_bit_word_eq_self del: be_bytes_numeral)
  then show ?thesis by (simp add: counter_at_def ac_simps del: be_bytes_numeral)
qed

lemma st64_xor:
  assumes "p + 8 \<le> length x" and "q + 8 \<le> length k" and "ld64 x p = Some a" and "ld64 k q = Some b"
  shows "st64 r s (a XOR b) = wr_block r s (map2 (XOR) (take 8 (drop p x)) (take 8 (drop q k)))"
proof -
  have a: "a = foldr le_step (take 8 (drop p x)) 0" and b: "b = foldr le_step (take 8 (drop q k)) 0"
    using assms by (simp_all add: ld64_def)
  have "map (\<lambda>i. ucast (drop_bit (8 * i) (a XOR b))) [0..<8]
      = map (\<lambda>i. (x ! (p + i)) XOR (k ! (q + i))) [0..<8]"
    using assms(1,2) byte_of_foldr_le[of "take 8 (drop p x)", where 'w = 64] byte_of_foldr_le[of "take 8 (drop q k)", where 'w = 64]
    by (intro map_cong refl, subst xor_op.bytewise) (simp_all add: a b)
  also have "\<dots> = map2 (XOR) (take 8 (drop p x)) (take 8 (drop q k))"
    using assms(1,2) by (intro nth_equalityI) auto
  finally show ?thesis by (simp only: st64_def)
qed

subsection \<open>The key stream\<close>

definition keystream :: "(bytes \<Rightarrow> bytes) \<Rightarrow> bytes \<Rightarrow> nat \<Rightarrow> u8" where
  "keystream cipher iv i = cipher (counter_at iv (i div 16)) ! (i mod 16)"

definition stream_of :: "(bytes \<Rightarrow> bytes) \<Rightarrow> bytes \<Rightarrow> nat \<Rightarrow> bytes" where
  "stream_of cipher iv n = map (keystream cipher iv) [0..<n]"

lemma store_half:
  assumes "p + 8 \<le> length x" and "p + 8 \<le> length r" and "q + 8 \<le> length k" and "p + 8 \<le> length s"
    and "\<And>i. i < 8 \<Longrightarrow> s ! (p + i) = k ! (q + i)"
  shows "\<exists>a b e. ld64 x p = Some a \<and> ld64 k q = Some b \<and> st64 r p (a XOR b) = Some e \<and> xor_op.op_from x s r p (p + 8) e"
proof -
  obtain a b where l: "ld64 x p = Some a" "ld64 k q = Some b" using assms(1,3) by (simp add: ld64_def)
  then obtain e where e: "st64 r p (a XOR b) = Some e"
    using assms by (simp add: st64_xor wr_block_def)
  then have w: "wr_block r p (map2 (XOR) (take 8 (drop p x)) (take 8 (drop q k))) = Some e"
    using st64_xor[OF assms(1,3) l] by simp
  have "xor_op.op_from x s r p (p + 8) e"
    unfolding xor_op.op_from_def
  proof (intro conjI allI impI)
    show "length e = length r" using w wr_block_length by blast
    fix i assume i: "i < length r"
    show "e ! i = (if p \<le> i \<and> i < p + 8 then x ! i XOR s ! i else r ! i)"
    proof (cases "p \<le> i \<and> i < p + 8")
      case True
      then obtain c where "i = p + c" "c < 8" by (metis le_add_diff_inverse nat_add_left_cancel_less)
      then show ?thesis using wr_block_nth[OF w i] assms by simp
    next
      case False
      then show ?thesis using wr_block_nth[OF w i] assms by auto
    qed
  qed
  with l e show ?thesis by blast
qed

lemma ctr_blocks_stream:
  assumes "\<And>b. length b = 16 \<Longrightarrow> length (cipher b) = 16" and "j \<le> m" and "16 * m \<le> length inp" and "16 * m \<le> length out"
  shows "\<exists>e. ctr_blocks cipher (counter_at iv j) inp out (16 * j) (16 * m) = Some (counter_at iv m, e, 16 * m)
    \<and> xor_op.op_from inp (stream_of cipher iv (length inp)) out (16 * j) (16 * m) e"
  using assms(2,4)
proof (induction "m - j" arbitrary: j out)
  case 0
  then show ?case by (subst ctr_blocks.simps) (auto simp: xor_op.op_from_def)
next
  case (Suc d)
  then have j: "j < m" by simp
  let ?K = "stream_of cipher iv (length inp)" and ?k = "cipher (counter_at iv j)"
  have k: "length ?k = 16" using assms(1) by simp
  have K: "?K ! (16 * j + i) = ?k ! i" if "i < 16" for i
    using that j assms(3) by (simp add: stream_of_def keystream_def)
  obtain a b e where s1: "ld64 inp (16 * j) = Some a" "ld64 ?k 0 = Some b" "st64 out (16 * j) (a XOR b) = Some e"
    and o1: "xor_op.op_from inp ?K out (16 * j) (16 * j + 8) e"
    using store_half[of "16 * j" inp out 0 ?k ?K] K j assms(3) Suc.prems k by (auto simp: stream_of_def)
  have le: "length e = length out" using o1 by (simp add: xor_op.op_from_def)
  obtain a' b' e' where s2: "ld64 inp (16 * j + 8) = Some a'" "ld64 ?k 8 = Some b'" "st64 e (16 * j + 8) (a' XOR b') = Some e'"
    and o2: "xor_op.op_from inp ?K e (16 * j + 8) (16 * j + 8 + 8) e'"
    using store_half[of "16 * j + 8" inp e 8 ?k ?K] K[of "8 + _"] j assms(3) Suc.prems k le
    by (auto simp: stream_of_def add.assoc)
  have o12: "xor_op.op_from inp ?K out (16 * j) (16 * (j + 1)) e'"
    using xor_op.op_from_trans[OF o1 o2] by (simp add: algebra_simps)
  have "length e' = length out" using o12 by (simp add: xor_op.op_from_def)
  moreover have "d = m - Suc j" using Suc.hyps(2) by simp
  ultimately obtain e'' where
    r: "ctr_blocks cipher (counter_at iv (j + 1)) inp e' (16 * (j + 1)) (16 * m) = Some (counter_at iv m, e'', 16 * m)"
    and o3: "xor_op.op_from inp ?K e' (16 * (j + 1)) (16 * m) e''"
    using Suc.hyps(1)[of "j + 1" e'] Suc.prems j by auto
  have "ctr_blocks cipher (counter_at iv j) inp out (16 * j) (16 * m) = Some (counter_at iv m, e'', 16 * m)"
    using j s1 s2 r by (subst ctr_blocks.simps) (simp add: ctr_increment_counter counter_at_add add.commute)
  with xor_op.op_from_trans[OF o12 o3] j show ?case by auto
qed

lemma ctr_tail_stream:
  "i + n \<le> length inp \<Longrightarrow> i + n \<le> length out \<Longrightarrow> bi + n \<le> length buf \<Longrightarrow> i + n \<le> length s \<Longrightarrow>
   (\<And>x. x < n \<Longrightarrow> s ! (i + x) = buf ! (bi + x)) \<Longrightarrow>
   \<exists>e. ctr_tail buf inp out i bi n = Some e \<and> xor_op.op_from inp s out i (i + n) e"
proof (induction n arbitrary: i bi out)
  case (Suc n)
  let ?o = "out[i := inp ! i XOR buf ! bi]"
  have o1: "xor_op.op_from inp s out i (i + 1) ?o"
    using Suc.prems Suc.prems(5)[of 0] by (auto simp: xor_op.op_from_def nth_list_update)
  have "s ! (i + 1 + x) = buf ! (bi + 1 + x)" if "x < n" for x using Suc.prems(5)[of "Suc x"] that by simp
  with Suc.IH[of "i + 1" ?o "bi + 1"] Suc.prems obtain e where
    "ctr_tail buf inp ?o (i + 1) (bi + 1) n = Some e" "xor_op.op_from inp s ?o (i + 1) (i + 1 + n) e" by auto
  with xor_op.op_from_trans[OF o1] Suc.prems show ?case by fastforce
qed (auto simp: xor_op.op_from_def)

lemma ctr_xcrypt_stream:
  assumes "\<And>b. length b = 16 \<Longrightarrow> length (cipher b) = 16" and "length iv = 16"
    and "len \<le> length inp" and "len \<le> length out"
  shows "aes_ctr_xcrypt_buffer cipher iv inp len out
    = Some (map2 (XOR) (take len inp) (stream_of cipher iv len) @ drop len out)"
proof -
  let ?m = "len div 16" and ?K = "stream_of cipher iv (length inp)"
  have m: "len - len mod 16 = 16 * ?m" by (simp add: minus_mod_eq_mult_div)
  have m16: "16 * ?m \<le> len" by simp
  have iv: "counter_at iv 0 = iv" by (rule counter_at_0[OF assms(2)])
  obtain e where b: "ctr_blocks cipher iv inp out 0 (16 * ?m) = Some (counter_at iv ?m, e, 16 * ?m)"
    and o1: "xor_op.op_from inp ?K out 0 (16 * ?m) e"
    using ctr_blocks_stream[of cipher 0 ?m inp out iv, OF assms(1)] le_trans[OF m16 assms(3)] le_trans[OF m16 assms(4)] iv by auto
  have le: "length e = length out" using o1 by (simp add: xor_op.op_from_def)
  have "\<exists>e'. (if 16 * ?m < len then ctr_tail (cipher (counter_at iv ?m)) inp e (16 * ?m) 0 (len - 16 * ?m) else Some e) = Some e'
      \<and> xor_op.op_from inp ?K e (16 * ?m) len e'"
  proof (cases "16 * ?m < len")
    case True
    have "?K ! (16 * ?m + x) = cipher (counter_at iv ?m) ! (0 + x)" if "x < len - 16 * ?m" for x
    proof -
      have "x < 16" using that by linarith
      then show ?thesis using that assms(3) by (simp add: stream_of_def keystream_def)
    qed
    from ctr_tail_stream[of "16 * ?m" "len - 16 * ?m" inp e 0 "cipher (counter_at iv ?m)" ?K, OF _ _ _ _ this] True assms le
    show ?thesis by (auto simp: stream_of_def)
  next
    case False
    then show ?thesis by (auto simp: xor_op.op_from_def)
  qed
  then obtain e' where t: "(if 16 * ?m < len then ctr_tail (cipher (counter_at iv ?m)) inp e (16 * ?m) 0 (len - 16 * ?m) else Some e) = Some e'"
    and o2: "xor_op.op_from inp ?K e (16 * ?m) len e'" by blast
  have "xor_op.op_from inp ?K out 0 len e'" using xor_op.op_from_trans[OF o1 o2] by simp
  then have "e' = map2 (XOR) (take len inp) (stream_of cipher iv len) @ drop len out"
    using assms(3,4) by (intro nth_equalityI) (auto simp: xor_op.op_from_def stream_of_def nth_append)
  with b t show ?thesis using assms(2) by (simp add: aes_ctr_xcrypt_buffer_def m)
qed

lemma ctr_xcrypt_twice:
  assumes "\<And>b. length b = 16 \<Longrightarrow> length (cipher b) = 16" and "length iv = 16"
    and "length out = length d" and "aes_ctr_xcrypt_buffer cipher iv d (length d) out = Some e" and "length out' = length d"
  shows "aes_ctr_xcrypt_buffer cipher iv e (length d) out' = Some d"
proof -
  let ?S = "stream_of cipher iv (length d)"
  have l: "length ?S = length d" by (simp add: stream_of_def)
  have e: "e = map2 (XOR) d ?S" using ctr_xcrypt_stream[of cipher iv "length d" d out, OF assms(1,2)] assms(3,4) by simp
  then have "aes_ctr_xcrypt_buffer cipher iv e (length d) out' = Some (map2 (XOR) (map2 (XOR) d ?S) ?S)"
    using ctr_xcrypt_stream[of cipher iv "length d" e out', OF assms(1,2)] assms(5) l by simp
  moreover have "map2 (XOR) (map2 (XOR) d ?S) ?S = d"
    using l by (intro nth_equalityI) (auto simp: xor.assoc)
  ultimately show ?thesis by simp
qed

subsection \<open>The MTProto shortcut\<close>

text \<open>The check that the comment in the source shows: decrypt all 64 bytes, then compare.\<close>

definition mtproto_full :: "(bytes \<Rightarrow> (bytes \<Rightarrow> bytes) option) \<Rightarrow> bytes \<Rightarrow> nat \<Rightarrow> bool option" where
  "mtproto_full setkey data len =
     (if len \<ge> 64 then do {
        key \<leftarrow> rd_block data 8 32;
        iv \<leftarrow> rd_block data 40 16;
        (ok, decrypt) \<leftarrow> aes_ctr_crypt setkey key iv data 64 (replicate 64 0);
        if ok then mem_eq decrypt 56 (replicate 4 0xEF) else Some False }
      else Some False)"

lemma xor32_bytes:
  assumes "p + 4 \<le> length x" and "q + 4 \<le> length k" and "s + 4 \<le> length r"
  shows "do { a \<leftarrow> ld32 k q; b \<leftarrow> ld32 x p; st32 r s (a XOR b) }
    = wr_block r s (map2 (XOR) (take 4 (drop q k)) (take 4 (drop p x)))"
proof -
  let ?a = "foldr le_step (take 4 (drop q k)) (0 :: u32)" and ?b = "foldr le_step (take 4 (drop p x)) (0 :: u32)"
  have byte: "ucast (drop_bit (8 * i) (?a XOR ?b)) = k ! (q + i) XOR x ! (p + i)" if "i < 4" for i
  proof -
    have "ucast (drop_bit (8 * i) (?a XOR ?b)) = (ucast (drop_bit (8 * i) ?a) XOR ucast (drop_bit (8 * i) ?b) :: u8)"
      by (rule bit_word_eqI) (simp add: bit_simps)
    then show ?thesis
      using that assms byte_of_foldr_le[of "take 4 (drop q k)" i, where 'w = 32] byte_of_foldr_le[of "take 4 (drop p x)" i, where 'w = 32]
      by simp
  qed
  have "map (\<lambda>i. ucast (drop_bit (8 * i) (?a XOR ?b))) [0..<4] = map2 (XOR) (take 4 (drop q k)) (take 4 (drop p x))"
    using assms byte by (intro nth_equalityI) auto
  with assms show ?thesis by (simp add: ld32_def st32_def)
qed

lemma IsMTProto_block:
  assumes "\<And>k cipher b. setkey k = Some cipher \<Longrightarrow> length b = 16 \<Longrightarrow> length (cipher b) = 16"
    and "len \<le> length data" and "64 \<le> len" and "setkey (take 32 (drop 8 data)) = Some cipher"
  shows "IsMTProto setkey data len
    = Some (map2 (XOR) (take 4 (drop 8 (cipher (counter_at (take 16 (drop 40 data)) 3)))) (take 4 (drop 56 data)) = replicate 4 0xEF)"
proof -
  let ?iv = "take 16 (drop 40 data)"
  let ?k = "cipher (counter_at ?iv 3)"
  have k: "length ?k = 16" using assms(1)[OF assms(4)] by simp
  have iv: "ctr_add ?iv 3 = Some (counter_at ?iv 3)" using ctr_add_counter[of ?iv 3] assms(2,3) by simp
  let ?e = "map2 (XOR) (take 4 (drop 8 ?k)) (take 4 (drop 56 data))"
  have "do { a \<leftarrow> ld32 ?k 8; b \<leftarrow> ld32 data 56; st32 ?k 8 (a XOR b) } = Some (take 8 ?k @ ?e @ drop 12 ?k)"
    using xor32_bytes[of 56 data 8 ?k 8 ?k] assms(2,3) k by (simp add: wr_block_def)
  then have "do { a \<leftarrow> ld32 ?k 8; b \<leftarrow> ld32 data 56; d \<leftarrow> st32 ?k 8 (a XOR b); mem_eq d 8 (replicate 4 0xEF) }
      = mem_eq (take 8 ?k @ ?e @ drop 12 ?k) 8 (replicate 4 0xEF)"
    by (auto split: bind_splits)
  moreover have "mem_eq (take 8 ?k @ ?e @ drop 12 ?k) 8 (replicate 4 0xEF) = Some (?e = replicate 4 0xEF)"
    using assms(2,3) k by (simp add: mem_eq_def rd_block_def)
  ultimately show ?thesis
    using assms(2-4) iv by (simp add: IsMTProto_def del: mem_eq_in)
qed

lemma mtproto_full_block:
  assumes "\<And>k cipher b. setkey k = Some cipher \<Longrightarrow> length b = 16 \<Longrightarrow> length (cipher b) = 16"
    and "len \<le> length data" and "64 \<le> len" and "setkey (take 32 (drop 8 data)) = Some cipher"
  shows "mtproto_full setkey data len
    = Some (map2 (XOR) (take 4 (drop 8 (cipher (counter_at (take 16 (drop 40 data)) 3)))) (take 4 (drop 56 data)) = replicate 4 0xEF)"
proof -
  let ?iv = "take 16 (drop 40 data)" and ?z = "replicate 64 0 :: bytes"
  let ?k = "cipher (counter_at ?iv 3)"
  have k: "length ?k = 16" using assms(1)[OF assms(4)] by simp
  let ?d = "map2 (XOR) (take 64 data) (stream_of cipher ?iv 64)"
  have x: "aes_ctr_xcrypt_buffer cipher ?iv data 64 ?z = Some ?d"
    using ctr_xcrypt_stream[of cipher ?iv 64 data ?z, OF assms(1)[OF assms(4)]] assms(2,3) by simp
  have ix: "(56 + i) div 16 = 3" "(56 + i) mod 16 = 8 + i" if "i < 4" for i :: nat
    using that by presburger+
  have "take 4 (drop 56 ?d) = map2 (XOR) (take 4 (drop 8 ?k)) (take 4 (drop 56 data))"
    using assms(2,3) k by (intro nth_equalityI) (auto simp: stream_of_def keystream_def ix xor.commute)
  moreover have "length ?d = 64" using assms(2,3) by (simp add: stream_of_def)
  ultimately show ?thesis
    using assms(2-4) x by (simp add: mtproto_full_def aes_ctr_crypt_def mem_eq_def rd_block_def)
qed

subsection \<open>Properties\<close>

text \<open>ctr_add adds to the 128-bit big endian counter: adding \<open>a\<close> is the same as \<open>a\<close> calls of
  ctr_increment, across the two halves and with wrap-around.\<close>

theorem ctr_add_increments:
  assumes "length c = 16"
  shows "ctr_add c a = ((\<lambda>m. m \<bind> ctr_increment) ^^ unat a) (Some c)
    \<and> (\<exists>e. ctr_add c a = Some e \<and> be_nat e = (be_nat c + unat a) mod 2 ^ 128)"
proof -
  have "((\<lambda>m. m \<bind> ctr_increment) ^^ n) (Some c) = Some (counter_at c n)" for n
    by (induction n) (simp_all add: counter_at_0[OF assms] ctr_increment_counter counter_at_add)
  then show ?thesis by (simp add: ctr_add_counter[OF assms] be_nat_counter[OF assms])
qed

lemma ctr_add_increments_witness:
  "\<exists>e. ctr_add (replicate 16 0xFF) 3 = Some e \<and> be_nat e = 2"
proof -
  have "be_nat [255, 255, 255, 255, 255, 255, 255, 255, 255, 255, 255, 255, 255, 255, 255, 255] = 2 ^ 128 - 1" by simp
  moreover have "replicate 16 0xFF = ([255, 255, 255, 255, 255, 255, 255, 255, 255, 255, 255, 255, 255, 255, 255, 255] :: bytes)"
    by (simp add: numeral_eq_Suc)
  ultimately have "be_nat (replicate 16 0xFF) = 2 ^ 128 - 1" by metis
  then have "(be_nat (replicate 16 0xFF) + unat (3 :: u64)) mod 2 ^ 128 = 2" by simp
  with ctr_add_increments[of "replicate 16 0xFF" 3] show ?thesis by (metis length_replicate)
qed

text \<open>Counter mode is its own inverse, for every length of the data and every cipher with 16-byte blocks:
  encrypting the output again with the same counter gives the input back.\<close>

theorem aes_ctr_involution:
  assumes "\<And>b. length b = 16 \<Longrightarrow> length (cipher b) = 16" and "length iv = 16"
    and "length out = length d" and "length out' = length d"
  shows "\<exists>e. aes_ctr_xcrypt_buffer cipher iv d (length d) out = Some e \<and> length e = length d
    \<and> aes_ctr_xcrypt_buffer cipher iv e (length d) out' = Some d"
proof -
  obtain e where e: "aes_ctr_xcrypt_buffer cipher iv d (length d) out = Some e" "length e = length d"
    using ctr_xcrypt_stream[of cipher iv "length d" d out, OF assms(1,2)] assms(3) by (auto simp: stream_of_def)
  with ctr_xcrypt_twice[OF assms(1,2,3) e(1) assms(4)] show ?thesis by blast
qed

lemma aes_ctr_involution_witness:
  "\<exists>e. aes_ctr_xcrypt_buffer rev (replicate 16 0xFF) [1, 2, 3] 3 [0, 0, 0] = Some e \<and> length e = 3
    \<and> aes_ctr_xcrypt_buffer rev (replicate 16 0xFF) e 3 [0, 0, 0] = Some [1, 2, 3]"
  using aes_ctr_involution[of rev "replicate 16 0xFF" "[0, 0, 0]" "[1, 2, 3]" "[0, 0, 0]"] by (simp add: numeral_3_eq_3)

text \<open>C40: The MTProto recogniser, which encrypts one counter block, decides what decrypting all 64 bytes in
  counter mode and comparing bytes 56 to 59 would decide.\<close>

theorem IsMTProto_shortcut:
  assumes "\<And>k cipher b. setkey k = Some cipher \<Longrightarrow> length b = 16 \<Longrightarrow> length (cipher b) = 16"
    and "len \<le> length data"
  shows "IsMTProto setkey data len = mtproto_full setkey data len \<and> IsMTProto setkey data len \<noteq> None"
proof (cases "64 \<le> len")
  case True
  show ?thesis
  proof (cases "setkey (take 32 (drop 8 data))")
    case None
    then show ?thesis
      using True assms(2) ctr_add_counter[of "take 16 (drop 40 data)" 3]
      by (simp add: IsMTProto_def mtproto_full_def aes_ctr_crypt_def)
  next
    case (Some cipher)
    have k: "\<And>k cipher b. setkey k = Some cipher \<Longrightarrow> length b = 16 \<Longrightarrow> length (cipher b) = 16" by (rule assms(1))
    have "IsMTProto setkey data len \<noteq> None" by (subst IsMTProto_block[where cipher = cipher]) (use k assms(2) True Some in auto)
    moreover have "IsMTProto setkey data len = mtproto_full setkey data len"
      by (subst IsMTProto_block[where cipher = cipher], (use k assms(2) True Some in auto)[4])
         (subst mtproto_full_block[where cipher = cipher], (use k assms(2) True Some in auto)[4], rule refl)
    ultimately show ?thesis by simp
  qed
qed (simp add: IsMTProto_def mtproto_full_def)

lemma IsMTProto_shortcut_witness:
  "IsMTProto (\<lambda>k. Some rev) (replicate 64 0) 64 = mtproto_full (\<lambda>k. Some rev) (replicate 64 0) 64"
  using IsMTProto_shortcut[of "\<lambda>k. Some rev" 64 "replicate 64 0"] by simp

end
