(* ===== verification/Quic.thy ===== *)
theory Quic
  imports Recognise AesCtr
begin

text \<open>
  The QUIC part of src/nfq2/protocol.c: variable length integers, the long header, the decryption of an Initial
  packet, and the reassembly of its CRYPTO frames into one frame that holds the TLS message. The primitives
  (HKDF, AES and AES-GCM of crypto/, third-party code) are the fields of \<open>quic_crypto\<close>; \<open>None\<close> is an error code.
  The code's \<open>uint64_t\<close> offsets are naturals: a variable length integer has 62 bits, so that no sum below wraps.
\<close>

unbundle bit_operations_syntax

subsection \<open>Integers and versions\<close>

definition tvb_get_varint :: "bytes \<Rightarrow> nat \<Rightarrow> (nat \<times> nat) option" where
  "tvb_get_varint tvb p = do {
     b \<leftarrow> rd tvb p;
     let k = unat (drop_bit 6 b);
     if k = 0 then Some (1, unat (b AND 0x3F))
     else if k = 1 then map_option (\<lambda>v. (2, unat (v AND 0x3FFF))) (pntoh16 tvb p)
     else if k = 2 then map_option (\<lambda>v. (4, unat (v AND 0x3FFFFFFF))) (pntoh32 tvb p)
     else map_option (\<lambda>v. (8, unat (v AND 0x3FFFFFFFFFFFFFFF))) (pntoh64 tvb p) }"

definition tvb_get_size :: "u8 \<Rightarrow> nat" where
  "tvb_get_size b = 2 ^ unat (drop_bit 6 b)"

text \<open>\<open>Some None\<close> is the result false.\<close>

definition IsQUICCryptoHello :: "bytes \<Rightarrow> nat \<Rightarrow> (nat \<times> nat) option option" where
  "IsQUICCryptoHello data len =
     (if len < 3 then Some None else do {
      b \<leftarrow> rd data 0;
      if b \<noteq> 6 then Some None else do {
      b \<leftarrow> rd data 1;
      if 1 + tvb_get_size b \<ge> len then Some None else do {
      (n, coff) \<leftarrow> tvb_get_varint data 1;
      let offset = 1 + n;
      if coff \<noteq> 0 then Some None else do {
      b \<leftarrow> rd data offset;
      if offset + tvb_get_size b \<ge> len then Some None else do {
      (n, clen) \<leftarrow> tvb_get_varint data offset;
      let offset = offset + n;
      if offset + clen > len then Some None else do {
      hello \<leftarrow> IsTLSHandshakeClientHello data offset clen True;
      Some (if hello then Some (offset, clen) else None) } } } } } })"

definition is_quic_v2 :: "u32 \<Rightarrow> bool" where
  "is_quic_v2 version \<longleftrightarrow> version = 0x709A50C4 \<or> version = 0x6b3343cf"

definition QUICDraftVersion :: "u32 \<Rightarrow> u8" where
  "QUICDraftVersion version =
     (if drop_bit 8 version = 0xff0000 then ucast version
      else if version = 0xfaceb001 then 22
      else if version = 0xfaceb002 \<or> version = 0xfaceb00e then 27
      else if version = 0x51303530 \<or> version = 0x54303530 \<or> version = 0x54303531 then 27
      else if version AND 0x0F0F0F0F = 0x0a0a0a0a then 29
      else if version = 1 then 34
      else if is_quic_v2 version then 100
      else 0)"

definition is_quic_draft_max :: "u32 \<Rightarrow> u8 \<Rightarrow> bool" where
  "is_quic_draft_max draft_version max_version \<longleftrightarrow> draft_version \<noteq> 0 \<and> draft_version \<le> ucast max_version"

subsection \<open>Keys\<close>

record quic_crypto =
  hkdf_extract :: "bytes \<Rightarrow> bytes \<Rightarrow> bytes option"
  hkdf_expand :: "bytes \<Rightarrow> bytes \<Rightarrow> nat \<Rightarrow> bytes option"
  aes_setkey :: "bytes \<Rightarrow> (bytes \<Rightarrow> bytes) option"
  gcm_decrypt :: "bytes \<Rightarrow> bytes \<Rightarrow> bytes \<Rightarrow> bytes \<Rightarrow> (bytes \<times> bytes) option"

text \<open>The label buffer has 64 bytes; \<open>None\<close> is the result false.\<close>

definition quic_hkdf_expand_label :: "quic_crypto \<Rightarrow> bytes \<Rightarrow> bytes \<Rightarrow> nat \<Rightarrow> bytes option" where
  "quic_hkdf_expand_label cr secret label out_len =
     (if length label > 255 then None
      else if 2 + 1 + length label + 1 > 64 then None
      else hkdf_expand cr secret (be_bytes 2 (of_nat out_len :: u16) @ [of_nat (length label)] @ label @ [0]) out_len)"

definition salt_draft_22 :: bytes where
  "salt_draft_22 = [0x7f, 0xbc, 0xdb, 0x0e, 0x7c, 0x66, 0xbb, 0xe9, 0x19, 0x3a,
     0x96, 0xcd, 0x21, 0x51, 0x9e, 0xbd, 0x7a, 0x02, 0x64, 0x4a]"

definition salt_draft_23 :: bytes where
  "salt_draft_23 = [0xc3, 0xee, 0xf7, 0x12, 0xc7, 0x2e, 0xbb, 0x5a, 0x11, 0xa7,
     0xd2, 0x43, 0x2b, 0xb4, 0x63, 0x65, 0xbe, 0xf9, 0xf5, 0x02]"

definition salt_draft_29 :: bytes where
  "salt_draft_29 = [0xaf, 0xbf, 0xec, 0x28, 0x99, 0x93, 0xd2, 0x4c, 0x9e, 0x97,
     0x86, 0xf1, 0x9c, 0x61, 0x11, 0xe0, 0x43, 0x90, 0xa8, 0x99]"

definition salt_v1 :: bytes where
  "salt_v1 = [0x38, 0x76, 0x2c, 0xf7, 0xf5, 0x59, 0x34, 0xb3, 0x4d, 0x17,
     0x9a, 0xe6, 0xa4, 0xc8, 0x0c, 0xad, 0xcc, 0xbb, 0x7f, 0x0a]"

definition salt_q50 :: bytes where
  "salt_q50 = [0x50, 0x45, 0x74, 0xEF, 0xD0, 0x66, 0xFE, 0x2F, 0x9D, 0x94,
     0x5C, 0xFC, 0xDB, 0xD3, 0xA7, 0xF0, 0xD3, 0xB5, 0x6B, 0x45]"

definition salt_t50 :: bytes where
  "salt_t50 = [0x7f, 0xf5, 0x79, 0xe5, 0xac, 0xd0, 0x72, 0x91, 0x55, 0x80,
     0x30, 0x4c, 0x43, 0xa2, 0x36, 0x7c, 0x60, 0x48, 0x83, 0x10]"

definition salt_t51 :: bytes where
  "salt_t51 = [0x7a, 0x4e, 0xde, 0xf4, 0xe7, 0xcc, 0xee, 0x5f, 0xa4, 0x50,
     0x6c, 0x19, 0x12, 0x4f, 0xc8, 0xcc, 0xda, 0x6e, 0x03, 0x3d]"

definition salt_v2 :: bytes where
  "salt_v2 = [0x0d, 0xed, 0xe3, 0xde, 0xf7, 0x00, 0xa6, 0xdb, 0x81, 0x93,
     0x81, 0xbe, 0x6e, 0x26, 0x9d, 0xcb, 0xf9, 0xbd, 0x2e, 0xd9]"

definition quic_salt :: "u32 \<Rightarrow> bytes" where
  "quic_salt version =
     (let draft_version = ucast (QUICDraftVersion version) in
      if version = 0x51303530 then salt_q50
      else if version = 0x54303530 then salt_t50
      else if version = 0x54303531 then salt_t51
      else if is_quic_draft_max draft_version 22 then salt_draft_22
      else if is_quic_draft_max draft_version 28 then salt_draft_23
      else if is_quic_draft_max draft_version 32 then salt_draft_29
      else if is_quic_draft_max draft_version 34 then salt_v1
      else salt_v2)"

definition quic_derive_initial_secret :: "quic_crypto \<Rightarrow> bytes \<Rightarrow> u32 \<Rightarrow> bytes option" where
  "quic_derive_initial_secret cr cid version = do {
     secret \<leftarrow> hkdf_extract cr (quic_salt version) cid;
     quic_hkdf_expand_label cr secret (lit ''tls13 client in'') 32 }"

text \<open>The three keys of \<open>QUICDecryptInitial\<close>: packet key, nonce base, header protection key.\<close>

definition quic_initial_keys :: "quic_crypto \<Rightarrow> bytes \<Rightarrow> u32 \<Rightarrow> (bytes \<times> bytes \<times> bytes) option" where
  "quic_initial_keys cr dcid ver = do {
     secret \<leftarrow> quic_derive_initial_secret cr dcid ver;
     let v1_label = (\<not> is_quic_v2 ver);
     aeskey \<leftarrow> quic_hkdf_expand_label cr secret (lit (if v1_label then ''tls13 quic key'' else ''tls13 quicv2 key'')) 16;
     aesiv \<leftarrow> quic_hkdf_expand_label cr secret (lit (if v1_label then ''tls13 quic iv'' else ''tls13 quicv2 iv'')) 12;
     aeshp \<leftarrow> quic_hkdf_expand_label cr secret (lit (if v1_label then ''tls13 quic hp'' else ''tls13 quicv2 hp'')) 16;
     Some (aeskey, aesiv, aeshp) }"

subsection \<open>The long header\<close>

definition QUICIsLongHeader :: "bytes \<Rightarrow> nat \<Rightarrow> bool option" where
  "QUICIsLongHeader data len = cand (Some (len \<ge> 9)) (map_option (\<lambda>b. b AND 0x80 \<noteq> 0) (rd data 0))"

definition QUICExtractVersion :: "bytes \<Rightarrow> nat \<Rightarrow> u32 option" where
  "QUICExtractVersion data len = do { l \<leftarrow> QUICIsLongHeader data len; if l then pntoh32 data 1 else Some 0 }"

definition QUIC_MAX_CID_LENGTH :: u8 where
  "QUIC_MAX_CID_LENGTH = 20"

text \<open>A connection id is the list of its \<open>len\<close> bytes.\<close>

definition QUICExtractDCID :: "bytes \<Rightarrow> nat \<Rightarrow> bytes option option" where
  "QUICExtractDCID data len = do {
     l \<leftarrow> QUICIsLongHeader data len;
     if \<not> l then Some None else do {
     n \<leftarrow> rd data 5;
     if n = 0 \<or> n > QUIC_MAX_CID_LENGTH \<or> 6 + unat n > len then Some None
     else map_option Some (rd_block data 6 (unat n)) } }"

subsection \<open>Decryption of an Initial packet\<close>

text \<open>The walk over the header: the offset of the packet number and the value of the length field.\<close>

definition quic_pn_offset :: "bytes \<Rightarrow> nat \<Rightarrow> (nat \<times> nat) option option" where
  "quic_pn_offset data data_len = do {
     n \<leftarrow> rd data 5;
     let pn_offset = 1 + 4 + 1 + unat n;
     if pn_offset \<ge> data_len then Some None else do {
     n \<leftarrow> rd data pn_offset;
     let pn_offset = pn_offset + 1 + unat n;
     if pn_offset \<ge> data_len then Some None else do {
     b \<leftarrow> rd data pn_offset;
     if pn_offset + tvb_get_size b \<ge> data_len then Some None else do {
     (n, token_len) \<leftarrow> tvb_get_varint data pn_offset;
     let pn_offset = pn_offset + n + token_len;
     if pn_offset \<ge> data_len then Some None else do {
     b \<leftarrow> rd data pn_offset;
     if pn_offset + tvb_get_size b \<ge> data_len then Some None else do {
     (n, payload_len) \<leftarrow> tvb_get_varint data pn_offset;
     let pn_offset = pn_offset + n;
     if payload_len < 20 \<or> pn_offset + payload_len > data_len then Some None
     else Some (Some (pn_offset, payload_len)) } } } } } }"

text \<open>\<open>pkn |= (uint32_t)(pkn_bytes[i] ^ mask[1 + i]) << (8 * (pkn_len - 1 - i))\<close> for every \<open>i\<close>.\<close>

definition quic_pkn :: "bytes \<Rightarrow> bytes \<Rightarrow> nat \<Rightarrow> u32" where
  "quic_pkn pkn_bytes msk pkn_len =
     foldl (\<lambda>pkn i. pkn OR push_bit (8 * (pkn_len - 1 - i)) (ucast (pkn_bytes ! i XOR msk ! (1 + i)))) 0 [0..<pkn_len]"

text \<open>\<open>header[header_len - 1 - i] = (uint8_t)(pkn >> (8 * i))\<close> for every \<open>i\<close>.\<close>

definition quic_header :: "bytes \<Rightarrow> u8 \<Rightarrow> u32 \<Rightarrow> nat \<Rightarrow> bytes" where
  "quic_header header packet0 pkn pkn_len =
     foldl (\<lambda>h i. h[length header - 1 - i := ucast (drop_bit (8 * i) pkn)]) (header[0 := packet0]) [0..<pkn_len]"

text \<open>
  The part behind the header walk: remove the header protection, build the nonce and the header, decrypt, compare
  the tag. The results are the success, the buffer \<open>clean\<close> and \<open>*clean_len\<close>. A decryption that fails leaves the
  buffer undefined in C; here it is left alone.
\<close>

definition quic_open :: "quic_crypto \<Rightarrow> bytes \<Rightarrow> bytes \<Rightarrow> nat \<Rightarrow> bytes \<times> bytes \<times> bytes \<Rightarrow> nat \<Rightarrow> nat \<Rightarrow> (bool \<times> bytes \<times> nat) option" where
  "quic_open cr data clean clean_len keys pn_offset payload_len = do {
     let (aeskey, aesiv, aeshp) = keys;
     sample \<leftarrow> rd_block data (pn_offset + 4) 16;
     case aes_setkey cr aeshp of None \<Rightarrow> Some (False, clean, clean_len) | Some cipher \<Rightarrow> do {
     msk \<leftarrow> rd_block (cipher sample) 0 5;
     b0 \<leftarrow> rd data 0;
     let packet0 = b0 XOR (msk ! 0 AND 0x0f);
     let pkn_len = unat (packet0 AND 3) + 1;
     pkn_bytes \<leftarrow> rd_block data pn_offset pkn_len;
     let pkn = quic_pkn pkn_bytes msk pkn_len;
     base \<leftarrow> pntoh64 aesiv (12 - 8);
     aesiv \<leftarrow> phton64 aesiv (12 - 8) (base XOR ucast pkn);
     let cryptlen = payload_len - pkn_len - 16;
     if cryptlen > clean_len then Some (False, clean, clean_len) else do {
     let header_len = pn_offset + pkn_len;
     if header_len > 2048 then Some (False, clean, cryptlen) else do {
     header \<leftarrow> rd_block data 0 header_len;
     let header = quic_header header packet0 pkn pkn_len;
     input \<leftarrow> rd_block data (pn_offset + pkn_len) cryptlen;
     case gcm_decrypt cr aeskey aesiv header input of None \<Rightarrow> Some (False, clean, cryptlen)
     | Some (out, atag) \<Rightarrow> do {
         clean \<leftarrow> wr_block clean 0 out;
         ok \<leftarrow> mem_eq data (pn_offset + pkn_len + cryptlen) atag;
         Some (ok, clean, cryptlen) } } } } }"

definition QUICDecryptInitial :: "quic_crypto \<Rightarrow> bytes \<Rightarrow> nat \<Rightarrow> bytes \<Rightarrow> nat \<Rightarrow> (bool \<times> bytes \<times> nat) option" where
  "QUICDecryptInitial cr data data_len clean clean_len = do {
     ver \<leftarrow> QUICExtractVersion data data_len;
     if ver = 0 then Some (False, clean, clean_len) else do {
     dcid \<leftarrow> QUICExtractDCID data data_len;
     case dcid of None \<Rightarrow> Some (False, clean, clean_len) | Some dcid \<Rightarrow>
     case quic_initial_keys cr dcid ver of None \<Rightarrow> Some (False, clean, clean_len) | Some keys \<Rightarrow> do {
     r \<leftarrow> quic_pn_offset data data_len;
     case r of None \<Rightarrow> Some (False, clean, clean_len)
     | Some (pn_offset, payload_len) \<Rightarrow> quic_open cr data clean clean_len keys pn_offset payload_len } } }"

subsection \<open>Reassembly of CRYPTO frames\<close>

record range64 =
  r_offset :: nat
  r_len :: nat

definition MAX_DEFRAG_PIECES :: nat where
  "MAX_DEFRAG_PIECES = 128"

record defrag_state =
  ds_buf :: bytes
  ds_ranges :: "range64 list"
  ds_szmax :: nat
  ds_zeropos :: nat
  ds_found :: bool

text \<open>The header of a CRYPTO frame behind its type: offset, length and the position of its data.\<close>

definition crypto_frame_head :: "bytes \<Rightarrow> nat \<Rightarrow> nat \<Rightarrow> (nat \<times> nat \<times> nat) option option" where
  "crypto_frame_head clean clean_len pos = do {
     b \<leftarrow> rd clean pos;
     if pos + tvb_get_size b \<ge> clean_len then Some None else do {
     (n, offset) \<leftarrow> tvb_get_varint clean pos;
     let pos = pos + n;
     b \<leftarrow> rd clean pos;
     if pos + tvb_get_size b > clean_len then Some None else do {
     (n, sz) \<leftarrow> tvb_get_varint clean pos;
     let pos = pos + n;
     Some (if pos + sz > clean_len then None else Some (offset, sz, pos)) } } }"

lemma tvb_get_varint_size: "tvb_get_varint d p = Some (n, v) \<Longrightarrow> 0 < n"
  by (auto simp: tvb_get_varint_def Let_def split: bind_splits if_splits)

lemma crypto_frame_head_forward: "crypto_frame_head clean clean_len pos = Some (Some (offset, sz, p)) \<Longrightarrow> pos < p"
  by (auto simp: crypto_frame_head_def Let_def split: bind_splits if_splits dest!: tvb_get_varint_size)

text \<open>A piece that was not seen yet: zero the gap before it, copy it, note its range.\<close>

definition defrag_put :: "bytes \<Rightarrow> nat \<Rightarrow> nat \<Rightarrow> nat \<Rightarrow> defrag_state \<Rightarrow> defrag_state option" where
  "defrag_put clean pos offset sz st = do {
     buf \<leftarrow> (if ds_zeropos st < offset
             then wr_block (ds_buf st) (10 + ds_zeropos st) (replicate (offset - ds_zeropos st) 0)
             else Some (ds_buf st));
     piece \<leftarrow> rd_block clean pos sz;
     buf \<leftarrow> wr_block buf (10 + offset) piece;
     Some (st\<lparr>ds_buf := buf, ds_ranges := ds_ranges st @ [\<lparr>r_offset = offset, r_len = sz\<rparr>],
              ds_szmax := max (ds_szmax st) (offset + sz), ds_zeropos := max (ds_zeropos st) (offset + sz),
              ds_found := True\<rparr>) }"

text \<open>The walk over the frames: whether it got to the end, and the state.\<close>

function defrag_loop :: "bytes \<Rightarrow> nat \<Rightarrow> nat \<Rightarrow> nat \<Rightarrow> defrag_state \<Rightarrow> (bool \<times> defrag_state) option" where
  "defrag_loop clean clean_len defrag_data_len pos st =
     (if pos < clean_len then do {
        ft \<leftarrow> rd clean pos;
        if ft \<le> 1 then defrag_loop clean clean_len defrag_data_len (pos + 1) st
        else if ft \<noteq> 6 then Some (False, st)
        else if pos + 1 \<ge> clean_len then Some (False, st)
        else if length (ds_ranges st) \<ge> MAX_DEFRAG_PIECES then Some (False, st)
        else do {
          h \<leftarrow> crypto_frame_head clean clean_len (pos + 1);
          case h of None \<Rightarrow> Some (False, st)
          | Some (offset, sz, p) \<Rightarrow>
              if offset + sz > defrag_data_len then Some (False, st)
              else do {
                st \<leftarrow> (if \<lparr>r_offset = offset, r_len = sz\<rparr> \<in> set (ds_ranges st) then Some st
                      else defrag_put clean p offset sz st);
                defrag_loop clean clean_len defrag_data_len (p + sz) st } } }
      else Some (True, st))"
  by pat_completeness auto
termination
  by (relation "measure (\<lambda>(clean, clean_len, ddl, pos, st). clean_len - pos)") (auto dest: crypto_frame_head_forward)

declare defrag_loop.simps [simp del]

text \<open>The in-place union of the sorted ranges: \<open>j\<close> is the last one kept, \<open>i\<close> the next one to look at.\<close>

function merge_loop :: "range64 list \<Rightarrow> nat \<Rightarrow> nat \<Rightarrow> nat \<Rightarrow> (range64 list \<times> nat) option" where
  "merge_loop ranges j i range_n =
     (if i < range_n then do {
        cur \<leftarrow> rd ranges j;
        nxt \<leftarrow> rd ranges i;
        let current_end = r_offset cur + r_len cur;
        let next_end = r_offset nxt + r_len nxt;
        if r_offset nxt \<le> current_end then do {
          ranges \<leftarrow> wr ranges j (cur\<lparr>r_len := max next_end current_end - r_offset cur\<rparr>);
          merge_loop ranges j (i + 1) range_n }
        else do {
          ranges \<leftarrow> wr ranges (j + 1) nxt;
          merge_loop ranges (j + 1) (i + 1) range_n } }
      else Some (ranges, j))"
  by pat_completeness auto
termination by (relation "measure (\<lambda>(ranges, j, i, range_n). range_n - i)") auto

declare merge_loop.simps [simp del]

text \<open>
  The end of the reassembly: \<open>qsort\<close> by the offset (the order of ranges with equal offsets does not matter to what
  follows), union, and the header of the one frame that is built. The value of \<open>*bFull\<close> is the last result.
\<close>

definition defrag_finish :: "defrag_state \<Rightarrow> (bool \<times> bytes \<times> nat \<times> bool) option" where
  "defrag_finish st = do {
     (ranges, j) \<leftarrow> merge_loop (sort_key r_offset (ds_ranges st)) 0 1 (length (ds_ranges st));
     buf \<leftarrow> wr (ds_buf st) 0 6;
     buf \<leftarrow> wr buf 1 0;
     buf \<leftarrow> phton64 buf 2 (of_nat (ds_szmax st));
     b \<leftarrow> rd buf 2;
     buf \<leftarrow> wr buf 2 (b OR 0xC0);
     r0 \<leftarrow> rd ranges 0;
     Some (True, buf, ds_szmax st + 10, j + 1 = 1 \<and> r_offset r0 = 0) }"

definition defrag_start :: "bytes \<Rightarrow> defrag_state" where
  "defrag_start defrag = \<lparr>ds_buf = defrag, ds_ranges = [], ds_szmax = 0, ds_zeropos = 0, ds_found = False\<rparr>"

definition QUICDefragCrypto :: "bytes \<Rightarrow> nat \<Rightarrow> bytes \<Rightarrow> nat \<Rightarrow> bool \<Rightarrow> (bool \<times> bytes \<times> nat \<times> bool) option" where
  "QUICDefragCrypto clean clean_len defrag defrag_len bFull =
     (if defrag_len < 10 then Some (False, defrag, defrag_len, bFull) else do {
      (ok, st) \<leftarrow> defrag_loop clean clean_len (defrag_len - 10) 0 (defrag_start defrag);
      if \<not> ok \<or> \<not> ds_found st then Some (False, ds_buf st, defrag_len, bFull) else defrag_finish st })"

subsection \<open>Recognising an Initial packet\<close>

definition IsQUICInitial :: "bytes \<Rightarrow> nat \<Rightarrow> bool option" where
  "IsQUICInitial data len =
     (if len < 128 then Some False else do {
      ver \<leftarrow> QUICExtractVersion data len;
      if QUICDraftVersion ver < 11 then Some False else do {
      b \<leftarrow> rd data 0;
      if b AND 0xF0 \<noteq> (if is_quic_v2 ver then 0xD0 else 0xC0) then Some False else do {
      n \<leftarrow> rd data 5;
      if n > QUIC_MAX_CID_LENGTH then Some False else do {
      let offset = 5 + 1 + unat n;
      if offset \<ge> len then Some False else do {
      n \<leftarrow> rd data offset;
      if n > QUIC_MAX_CID_LENGTH then Some False else do {
      let offset = offset + 1 + unat n;
      t \<leftarrow> cor (Some (offset \<ge> len)) (map_option (\<lambda>b. offset + tvb_get_size b > len) (rd data offset));
      if t then Some False else do {
      (n, sz) \<leftarrow> tvb_get_varint data offset;
      let offset = offset + n + sz;
      if offset \<ge> len then Some False else do {
      b \<leftarrow> rd data offset;
      if offset + tvb_get_size b > len then Some False else do {
      (n, sz) \<leftarrow> tvb_get_varint data offset;
      Some (offset + tvb_get_size b + sz \<le> len) } } } } } } } } })"

subsection \<open>No fault\<close>

lemma u8_shift6: "unat (drop_bit 6 (b :: u8)) < 4"
  using unat_u8_less[of b] by (simp only: unat_drop_bit_eq) (simp add: drop_bit_eq_div less_mult_imp_div_less)

lemma tvb_get_varint_wp:
  assumes "p + tvb_get_size (d ! p) \<le> length d" and "p < length d"
  shows "returns (\<lambda>(n, v). n = tvb_get_size (d ! p) \<and> v < 2 ^ 62) (tvb_get_varint d p)"
proof -
  have m: "unat (b AND 0x3F) < 2 ^ 62" "unat (c AND 0x3FFF) < 2 ^ 62" "unat (e AND 0x3FFFFFFF) < 2 ^ 62"
    "unat (f AND 0x3FFFFFFFFFFFFFFF) < 2 ^ 62" for b :: u8 and c :: u16 and e :: u32 and f :: u64
  proof -
    have "f AND 0x3FFFFFFFFFFFFFFF = take_bit 62 f" by (simp add: take_bit_eq_mask mask_eq_exp_minus_1)
    then show "unat (f AND 0x3FFFFFFFFFFFFFFF) < 2 ^ 62" by (simp only: unsigned_take_bit_eq take_bit_nat_less_exp)
  qed (auto intro: le_less_trans[OF word_le_nat_alt[THEN iffD1, OF word_and_le1]] less_trans[OF unat_u8_less] less_trans[OF unat_u16_less] less_trans[OF unat_u32_less])
  consider "unat (drop_bit 6 (d ! p)) = 0" | "unat (drop_bit 6 (d ! p)) = 1" | "unat (drop_bit 6 (d ! p)) = 2"
    | "unat (drop_bit 6 (d ! p)) = 3" using u8_shift6[of "d ! p"] by linarith
  then show ?thesis
    by cases (use assms m in \<open>auto simp: tvb_get_varint_def tvb_get_size_def wp Let_def intro!: be16.get_wp be32.get_wp be64.get_wp\<close>)
qed

lemma tvb_get_size_pos [simp]: "0 < tvb_get_size b"
  by (simp add: tvb_get_size_def)

lemma long_header_wp: "len \<le> length d \<Longrightarrow> returns (\<lambda>l. l \<longrightarrow> 9 \<le> len) (QUICIsLongHeader d len)"
  by (auto simp: QUICIsLongHeader_def wp)

lemma QUICExtractVersion_wp: "len \<le> length d \<Longrightarrow> returns (\<lambda>v. v \<noteq> 0 \<longrightarrow> 9 \<le> len) (QUICExtractVersion d len)"
  unfolding QUICExtractVersion_def wp
  by (rule returns_mono[OF long_header_wp]) (auto simp: wp intro!: be32.get_wp)

lemma QUICExtractDCID_wp:
  "len \<le> length d \<Longrightarrow> returns (\<lambda>r. \<forall>c. r = Some c \<longrightarrow> 0 < length c \<and> length c \<le> 20 \<and> length c = unat (d ! 5) \<and> 6 + length c \<le> len \<and> 9 \<le> len) (QUICExtractDCID d len)"
  unfolding QUICExtractDCID_def wp
  by (rule returns_mono[OF long_header_wp])
     (auto simp: wp QUIC_MAX_CID_LENGTH_def word_le_nat_alt unat_gt_0 not_less)

lemma varint_at_wp:
  assumes "p + tvb_get_size (d ! p) \<le> length d" and "p < length d"
    and "\<And>n v. n = tvb_get_size (d ! p) \<Longrightarrow> v < 2 ^ 62 \<Longrightarrow> P (n, v)"
  shows "returns P (tvb_get_varint d p)"
  by (rule returns_mono[OF tvb_get_varint_wp[OF assms(1,2)]]) (use assms(3) in auto)

text \<open>The steps of a parser, for goals too large for the rewriting rules of \<open>wp\<close>.\<close>

lemma step_if: "(c \<Longrightarrow> returns P a) \<Longrightarrow> (\<not> c \<Longrightarrow> returns P b) \<Longrightarrow> returns P (if c then a else b)"
  by simp

lemma step_rd: "i < length d \<Longrightarrow> returns P (f (d ! i)) \<Longrightarrow> returns P (rd d i \<bind> f)"
  by simp

lemma step_varint:
  assumes "p < length d" and "p + tvb_get_size (d ! p) \<le> length d"
    and "\<And>v. v < 2 ^ 62 \<Longrightarrow> returns P (f (tvb_get_size (d ! p)) v)"
  shows "returns P (tvb_get_varint d p \<bind> (\<lambda>(n, v). f n v))"
  unfolding wp by (rule varint_at_wp) (use assms in auto)

lemma step_size_test:
  assumes "n < len \<Longrightarrow> n < length d" and "len \<le> n \<Longrightarrow> returns P (f True)"
    and "n < len \<Longrightarrow> returns P (f (n + tvb_get_size (d ! n) > len))"
  shows "returns P (cor (Some (n \<ge> len)) (map_option (\<lambda>b. n + tvb_get_size b > len) (rd d n)) \<bind> f)"
  using assms by (cases "n < len") (simp_all add: not_less)

lemmas steps = step_if step_rd step_varint step_size_test

lemma IsQUICInitial_wp: "len \<le> length d \<Longrightarrow> returns (\<lambda>r. r \<longrightarrow> 128 \<le> len) (IsQUICInitial d len)"
proof -
  assume len: "len \<le> length d"
  have u: "unat (b :: u8) \<le> 20" if "\<not> 20 < b" for b using that by (simp add: not_less word_le_nat_alt)
  have "returns (\<lambda>_. True) (IsQUICInitial d len)"
    unfolding IsQUICInitial_def Let_def QUIC_MAX_CID_LENGTH_def
    by (rule step_if, simp, subst returns_bind, rule returns_mono[OF QUICExtractVersion_wp[OF len]], intro steps)
       (use len in \<open>auto simp: not_le not_less dest!: u\<close>)
  then show ?thesis by (auto simp: IsQUICInitial_def elim!: returns_mono)
qed

lemma IsQUICCryptoHello_wp:
  "len \<le> length d \<Longrightarrow> returns (\<lambda>r. \<forall>o' n. r = Some (o', n) \<longrightarrow> o' + n \<le> len) (IsQUICCryptoHello d len)"
  unfolding IsQUICCryptoHello_def IsTLSHandshakeClientHello_def
  by (auto simp: wp Let_def not_le not_less intro!: varint_at_wp returns_mono[OF IsTLSHandshakeHello_wp])

lemma quic_pn_offset_wp:
  assumes len: "len \<le> length d" "9 \<le> len"
  shows "returns (\<lambda>r. \<forall>p n. r = Some (p, n) \<longrightarrow> 7 \<le> p \<and> 20 \<le> n \<and> p + n \<le> len) (quic_pn_offset d len)"
  unfolding quic_pn_offset_def Let_def
  by (intro steps) (use len in \<open>auto simp: not_le not_less\<close>)

lemma crypto_frame_head_wp:
  assumes len: "len \<le> length d" "p < len"
  shows "returns (\<lambda>r. \<forall>off sz q. r = Some (off, sz, q) \<longrightarrow> p < q \<and> q + sz \<le> len \<and> off < 2 ^ 62) (crypto_frame_head d len p)"
  unfolding crypto_frame_head_def Let_def
  by (intro steps) (use len in \<open>auto simp: not_le not_less\<close>)

text \<open>The ranges, the high-water mark and the zeroed prefix of a state, and what the buffer holds.\<close>

definition in_range :: "range64 \<Rightarrow> nat \<Rightarrow> bool" where
  "in_range r x \<longleftrightarrow> r_offset r \<le> x \<and> x < r_offset r + r_len r"

definition covered :: "range64 list \<Rightarrow> nat \<Rightarrow> bool" where
  "covered rs x \<longleftrightarrow> (\<exists>r \<in> set rs. in_range r x)"

definition defrag_inv :: "bytes \<Rightarrow> nat \<Rightarrow> defrag_state \<Rightarrow> bool" where
  "defrag_inv d ddl st \<longleftrightarrow> length (ds_buf st) = length d \<and> ds_zeropos st = ds_szmax st \<and> ds_szmax st \<le> ddl
     \<and> (\<forall>r \<in> set (ds_ranges st). r_offset r + r_len r \<le> ds_szmax st)
     \<and> (ds_ranges st \<noteq> [] \<longrightarrow> ds_szmax st \<in> (\<lambda>r. r_offset r + r_len r) ` set (ds_ranges st))
     \<and> (ds_found st \<longleftrightarrow> ds_ranges st \<noteq> []) \<and> length (ds_ranges st) \<le> MAX_DEFRAG_PIECES"

lemma defrag_put_wp:
  assumes "defrag_inv d ddl st" and "pos + sz \<le> length clean" and "offset + sz \<le> ddl" and "10 + ddl \<le> length d"
    and "length (ds_ranges st) < MAX_DEFRAG_PIECES" and "ds_szmax st = 0 \<or> ds_ranges st \<noteq> []"
  shows "returns (\<lambda>st'. defrag_inv d ddl st' \<and> ds_ranges st' \<noteq> []) (defrag_put clean pos offset sz st)"
proof -
  have "returns (\<lambda>buf. length buf = length d) (if ds_zeropos st < offset
      then wr_block (ds_buf st) (10 + ds_zeropos st) (replicate (offset - ds_zeropos st) 0) else Some (ds_buf st))"
    using assms by (auto simp: defrag_inv_def wr_block_in)
  then show ?thesis
    unfolding defrag_put_def returns_bind
    by (rule returns_mono)
       (use assms in \<open>auto simp: wp defrag_inv_def wr_block_in max_def image_iff\<close>)
qed

lemma defrag_loop_wp:
  assumes "clean_len \<le> length clean" and "10 + ddl \<le> length d"
    and "defrag_inv d ddl st" and "ds_szmax st = 0 \<or> ds_ranges st \<noteq> []"
  shows "returns (\<lambda>(ok, st'). defrag_inv d ddl st') (defrag_loop clean clean_len ddl pos st)"
  using assms(3,4)
proof (induction "clean_len - pos" arbitrary: pos st rule: less_induct)
  case less
  note IH = less.hyps[rule_format]
  show ?case
  proof (cases "pos < clean_len")
    case True
    have next_frame: "returns (\<lambda>(ok, st'). defrag_inv d ddl st') (defrag_loop clean clean_len ddl q st')"
      if "pos < q" "defrag_inv d ddl st'" "ds_szmax st' = 0 \<or> ds_ranges st' \<noteq> []" for q st'
      by (rule IH) (use that True in auto)
    have piece: "returns (\<lambda>(ok, st'). defrag_inv d ddl st') (do {
          st \<leftarrow> (if \<lparr>r_offset = off, r_len = sz\<rparr> \<in> set (ds_ranges st) then Some st else defrag_put clean q off sz st);
          defrag_loop clean clean_len ddl (q + sz) st })"
      if "pos < q" "q + sz \<le> clean_len" "off + sz \<le> ddl" "length (ds_ranges st) < MAX_DEFRAG_PIECES" for q off sz
    proof (cases "\<lparr>r_offset = off, r_len = sz\<rparr> \<in> set (ds_ranges st)")
      case False
      have "returns (\<lambda>st'. defrag_inv d ddl st' \<and> ds_ranges st' \<noteq> []) (defrag_put clean q off sz st)"
        by (rule defrag_put_wp) (use that less.prems assms in auto)
      with False that show ?thesis by (auto simp: wp elim!: returns_mono intro!: next_frame)
    qed (use that less.prems in \<open>auto intro!: next_frame\<close>)
    have head: "returns (\<lambda>r. \<forall>off sz q. r = Some (off, sz, q) \<longrightarrow> pos + 1 < q \<and> q + sz \<le> clean_len \<and> off < 2 ^ 62)
        (crypto_frame_head clean clean_len (pos + 1))" if "pos + 1 < clean_len"
      by (rule crypto_frame_head_wp) (use assms that in auto)
    have frame: "returns (\<lambda>(ok, st'). defrag_inv d ddl st') (do {
          h \<leftarrow> crypto_frame_head clean clean_len (pos + 1);
          case h of None \<Rightarrow> Some (False, st)
          | Some (off, sz, q) \<Rightarrow>
              if off + sz > ddl then Some (False, st)
              else do {
                st \<leftarrow> (if \<lparr>r_offset = off, r_len = sz\<rparr> \<in> set (ds_ranges st) then Some st else defrag_put clean q off sz st);
                defrag_loop clean clean_len ddl (q + sz) st } })"
      if "pos + 1 < clean_len" "length (ds_ranges st) < MAX_DEFRAG_PIECES"
    proof (subst returns_bind, rule returns_mono[OF head[OF that(1)]])
      fix h :: "(nat \<times> nat \<times> nat) option" assume h: "\<forall>off sz q. h = Some (off, sz, q) \<longrightarrow> pos + 1 < q \<and> q + sz \<le> clean_len \<and> off < 2 ^ 62"
      show "returns (\<lambda>(ok, st'). defrag_inv d ddl st') (case h of None \<Rightarrow> Some (False, st)
          | Some (off, sz, q) \<Rightarrow>
              if off + sz > ddl then Some (False, st)
              else do {
                st \<leftarrow> (if \<lparr>r_offset = off, r_len = sz\<rparr> \<in> set (ds_ranges st) then Some st else defrag_put clean q off sz st);
                defrag_loop clean clean_len ddl (q + sz) st })"
      proof (cases h)
        case (Some t)
        obtain off sz q where t: "t = (off, sz, q)" by (cases t)
        with Some h have "pos < q" "q + sz \<le> clean_len" by auto
        from piece[OF this, of off] that(2) less.prems(1) show ?thesis unfolding Some t by (simp add: not_less split: if_split_asm)
      qed (use less.prems in simp)
    qed
    show ?thesis
      by (subst defrag_loop.simps, intro steps)
         (use True assms(1) less.prems frame in \<open>auto simp: not_le intro!: next_frame\<close>)
  qed (use less.prems in \<open>subst defrag_loop.simps, simp\<close>)
qed

lemma merge_loop_wp:
  "length rs = n \<Longrightarrow> j < i \<Longrightarrow> i \<le> n \<Longrightarrow> returns (\<lambda>(rs', j'). length rs' = n \<and> j \<le> j' \<and> j' < n) (merge_loop rs j i n)"
proof (induction rs j i n rule: merge_loop.induct)
  case (1 rs j i n)
  show ?case
  proof (cases "i < n")
    case True
    have a: "returns (\<lambda>(rs', j'). length rs' = n \<and> j \<le> j' \<and> j' < n) (merge_loop (rs[j := r]) j (i + 1) n)"
      if "r_offset (rs ! i) \<le> r_offset (rs ! j) + r_len (rs ! j)" "r = (rs ! j)\<lparr>r_len := max (r_offset (rs ! i) + r_len (rs ! i)) (r_offset (rs ! j) + r_len (rs ! j)) - r_offset (rs ! j)\<rparr>" for r
      using "1.IH"(1)[OF True, of "rs ! j" "rs ! i" _ _ "rs[j := r]"] True "1.prems" that by simp
    have b: "returns (\<lambda>(rs', j'). length rs' = n \<and> j + 1 \<le> j' \<and> j' < n) (merge_loop (rs[j + 1 := rs ! i]) (j + 1) (i + 1) n)"
      if "\<not> r_offset (rs ! i) \<le> r_offset (rs ! j) + r_len (rs ! j)"
      using "1.IH"(2)[OF True, of "rs ! j" "rs ! i" _ _ "rs[j + 1 := rs ! i]"] True "1.prems" that by simp
    show ?thesis
      using True "1.prems" a[OF _ refl] b by (subst merge_loop.simps) (auto simp: wp Let_def elim!: returns_mono)
  qed (use "1.prems" in \<open>subst merge_loop.simps, simp\<close>)
qed

lemma defrag_finish_wp:
  assumes "defrag_inv d ddl st" and "ds_found st" and "10 + ddl \<le> length d"
  shows "returns (\<lambda>(ok, buf, n, full). length buf = length d \<and> n \<le> 10 + ddl) (defrag_finish st)"
proof -
  have l: "0 < length (ds_ranges st)" "length (ds_buf st) = length d" "ds_szmax st \<le> ddl"
    using assms by (auto simp: defrag_inv_def)
  have "returns (\<lambda>(rs', j'). length rs' = length (ds_ranges st) \<and> 0 \<le> j' \<and> j' < length (ds_ranges st))
      (merge_loop (sort_key r_offset (ds_ranges st)) 0 1 (length (ds_ranges st)))"
    using merge_loop_wp[of "sort_key r_offset (ds_ranges st)" _ 0 1] l(1) by simp
  then show ?thesis
    unfolding defrag_finish_def
    by (subst returns_bind, elim returns_mono) (use l assms(3) in \<open>auto simp: wp intro!: be64.put_wp\<close>)
qed

lemma defrag_inv_start: "defrag_inv d ddl (defrag_start d)"
  by (simp add: defrag_inv_def defrag_start_def MAX_DEFRAG_PIECES_def)

lemma QUICDefragCrypto_wp:
  assumes "clean_len \<le> length clean" and "defrag_len \<le> length defrag"
  shows "returns (\<lambda>(ok, buf, n, full). length buf = length defrag \<and> n \<le> defrag_len) (QUICDefragCrypto clean clean_len defrag defrag_len bFull)"
proof (cases "defrag_len < 10")
  case False
  then have d: "10 + (defrag_len - 10) \<le> length defrag" "10 + (defrag_len - 10) = defrag_len" using assms by auto
  have loop: "returns (\<lambda>(ok, st'). defrag_inv defrag (defrag_len - 10) st') (defrag_loop clean clean_len (defrag_len - 10) 0 (defrag_start defrag))"
    by (rule defrag_loop_wp[OF assms(1) d(1) defrag_inv_start]) (simp add: defrag_start_def)
  have "returns (\<lambda>(ok, buf, n, full). length buf = length defrag \<and> n \<le> defrag_len)
      (if \<not> ok \<or> \<not> ds_found st then Some (False, ds_buf st, defrag_len, bFull) else defrag_finish st)"
    if "defrag_inv defrag (defrag_len - 10) st" for ok st
    using that defrag_finish_wp[OF that _ d(1)] unfolding d(2) by (simp add: defrag_inv_def)
  then show ?thesis
    unfolding QUICDefragCrypto_def if_not_P[OF False]
    by (subst returns_bind, intro returns_mono[OF loop]) auto
qed (use assms in \<open>simp add: QUICDefragCrypto_def\<close>)

text \<open>What the code relies on of the primitives: the sizes of their results.\<close>

definition crypto_sizes :: "quic_crypto \<Rightarrow> bool" where
  "crypto_sizes cr \<longleftrightarrow>
     (\<forall>prk info n okm. hkdf_expand cr prk info n = Some okm \<longrightarrow> length okm = n)
     \<and> (\<forall>key f b. aes_setkey cr key = Some f \<longrightarrow> length b = 16 \<longrightarrow> length (f b) = 16)
     \<and> (\<forall>key iv ad ct out tag. gcm_decrypt cr key iv ad ct = Some (out, tag) \<longrightarrow> length out = length ct \<and> length tag = 16)"

lemma quic_initial_keys_sizes:
  assumes "crypto_sizes cr" and "quic_initial_keys cr dcid ver = Some (key, iv, hp)"
  shows "length key = 16 \<and> length iv = 12 \<and> length hp = 16"
  using assms by (auto simp: quic_initial_keys_def quic_hkdf_expand_label_def crypto_sizes_def Let_def split: bind_splits if_splits)

lemma length_foldl_update [simp]: "length (foldl (\<lambda>h i. h[f i := g i]) a xs) = length (a :: bytes)"
  by (induction xs arbitrary: a) auto

lemma length_quic_header [simp]: "length (quic_header h p k n) = length h"
  by (simp add: quic_header_def length_foldl_update)

lemma and3_le: "unat (b AND 3 :: u8) \<le> 3"
  using word_and_le1[of b 3] by (simp add: word_le_nat_alt)

lemma quic_open_wp:
  assumes cr: "crypto_sizes cr" and len: "data_len \<le> length data" "clean_len \<le> length clean"
    and p: "20 \<le> payload_len" "pn_offset + payload_len \<le> data_len" and iv: "length aesiv = 12"
  shows "returns (\<lambda>(ok, buf, n). length buf = length clean \<and> n \<le> clean_len)
    (quic_open cr data clean clean_len (aeskey, aesiv, aeshp) pn_offset payload_len)"
proof (cases "aes_setkey cr aeshp")
  case (Some cipher)
  have n: "Suc (pn_offset + unat (b AND 3 :: u8)) \<le> length data"
    "Suc (pn_offset + unat (b AND 3) + (payload_len - (17 + unat (b AND 3)))) \<le> length data"
    "17 + (pn_offset + (unat (b AND 3) + (payload_len - (17 + unat (b AND 3))))) \<le> length data" for b
    using and3_le[of b] p len by linarith+
  have c: "length (cipher b) = 16" if "length b = 16" for b
    using cr Some that unfolding crypto_sizes_def by blast
  have g: "length out = length ct \<and> length tag = 16" if "gcm_decrypt cr key iv ad ct = Some (out, tag)" for key iv ad ct out tag
    using cr that unfolding crypto_sizes_def by blast
  show ?thesis
    using p len iv c n
    by (auto simp: quic_open_def Some wp Let_def wr_block_in not_less split: option.split intro!: be64.get_wp be64.put_wp dest!: g)
qed (use p len in \<open>simp add: quic_open_def wp\<close>)

lemma QUICDecryptInitial_wp:
  assumes cr: "crypto_sizes cr" and len: "data_len \<le> length data" "clean_len \<le> length clean"
  shows "returns (\<lambda>(ok, buf, n). length buf = length clean \<and> n \<le> clean_len) (QUICDecryptInitial cr data data_len clean clean_len)"
proof -
  have opened: "returns (\<lambda>(ok, buf, n). length buf = length clean \<and> n \<le> clean_len) (do {
      r \<leftarrow> quic_pn_offset data data_len;
      case r of None \<Rightarrow> Some (False, clean, clean_len)
      | Some (pn_offset, payload_len) \<Rightarrow> quic_open cr data clean clean_len keys pn_offset payload_len })"
    if "9 \<le> data_len" "quic_initial_keys cr dcid ver = Some keys" for dcid ver keys
  proof -
    obtain k iv hp where k: "keys = (k, iv, hp)" by (cases keys)
    with quic_initial_keys_sizes[OF cr] that(2) have "length iv = 12" by simp
    with quic_open_wp[OF cr len] show ?thesis
      unfolding k by (subst returns_bind, intro returns_mono[OF quic_pn_offset_wp[OF len(1) that(1)]])
        (auto split: option.split)
  qed
  have keys: "returns (\<lambda>(ok, buf, n). length buf = length clean \<and> n \<le> clean_len) (
      case quic_initial_keys cr dcid ver of None \<Rightarrow> Some (False, clean, clean_len) | Some keys \<Rightarrow> do {
        r \<leftarrow> quic_pn_offset data data_len;
        case r of None \<Rightarrow> Some (False, clean, clean_len)
        | Some (pn_offset, payload_len) \<Rightarrow> quic_open cr data clean clean_len keys pn_offset payload_len })"
    if "9 \<le> data_len" for dcid ver
    using opened[OF that] len by (cases "quic_initial_keys cr dcid ver") simp_all
  show ?thesis
    unfolding QUICDecryptInitial_def
    by (subst returns_bind, rule returns_mono[OF QUICExtractVersion_wp[OF len(1)]], rule step_if, simp,
        subst returns_bind, rule returns_mono[OF QUICExtractDCID_wp[OF len(1)]])
       (use keys in \<open>auto split: option.split_asm simp: option.case_eq_if\<close>)
qed

subsection \<open>Properties\<close>

text \<open>The QUIC code stays inside its buffers for every packet and every frame sequence: no read behind the
  packet, no write behind the output, and the lengths it reports fit the buffers it was given.\<close>

theorem quic_safe:
  assumes "crypto_sizes cr" and "len \<le> length d" and "clen \<le> length clean" and "dlen \<le> length defrag"
  shows "IsQUICInitial d len \<noteq> None
    \<and> (\<exists>ok buf n. QUICDecryptInitial cr d len clean clen = Some (ok, buf, n) \<and> length buf = length clean \<and> n \<le> clen)
    \<and> (\<exists>ok buf n full. QUICDefragCrypto clean clen defrag dlen bf = Some (ok, buf, n, full) \<and> length buf = length defrag \<and> n \<le> dlen)
    \<and> (\<exists>r. IsQUICCryptoHello d len = Some r \<and> (\<forall>p n. r = Some (p, n) \<longrightarrow> p + n \<le> len))"
  using returns_defined[OF IsQUICInitial_wp[OF assms(2)]] returns_exists[OF QUICDecryptInitial_wp[OF assms(1-3)]]
    returns_exists[OF QUICDefragCrypto_wp[OF assms(3,4), of bf]] returns_exists[OF IsQUICCryptoHello_wp[OF assms(2)]]
  by auto

definition null_crypto :: quic_crypto where
  "null_crypto = \<lparr>hkdf_extract = (\<lambda>salt ikm. Some (replicate 32 0)), hkdf_expand = (\<lambda>prk info n. Some (replicate n 0)),
     aes_setkey = (\<lambda>key. Some (\<lambda>b. b)), gcm_decrypt = (\<lambda>key iv ad ct. Some (ct, replicate 16 0))\<rparr>"

lemma null_crypto_sizes: "crypto_sizes null_crypto"
  by (auto simp: crypto_sizes_def null_crypto_def)

lemma quic_safe_witness:
  "\<exists>ok buf n full. QUICDefragCrypto [6, 0, 1, 7] 4 (replicate 20 0) 20 False = Some (ok, buf, n, full) \<and> n \<le> 20"
  using quic_safe[OF null_crypto_sizes, of 0 "[]" 4 "[6, 0, 1, 7]" 20 "replicate 20 0" False] by auto

end
