(* ===== verification/QuicReasm.thy ===== *)
theory QuicReasm
  imports Quic
begin

text \<open>
  What \<open>QUICDefragCrypto\<close> promises: the frames of an Initial packet that carry slices of one byte stream are put
  together again. A sequence of frames is described by \<open>frame\<close>, with every encoding of a variable length integer.
\<close>

unbundle bit_operations_syntax

subsection \<open>Encoding\<close>

definition varint :: "nat \<Rightarrow> nat \<Rightarrow> bytes" where
  "varint w v =
     (if w = 0 then be_bytes 1 (of_nat v :: u8)
      else if w = 1 then be_bytes 2 (of_nat (2 ^ 14 + v) :: u16)
      else if w = 2 then be_bytes 4 (of_nat (2 * 2 ^ 30 + v) :: u32)
      else be_bytes 8 (of_nat (3 * 2 ^ 62 + v) :: u64))"

definition varint_ok :: "nat \<Rightarrow> nat \<Rightarrow> bool" where
  "varint_ok w v \<longleftrightarrow> w = 0 \<and> v < 2 ^ 6 \<or> w = 1 \<and> v < 2 ^ 14 \<or> w = 2 \<and> v < 2 ^ 30 \<or> w = 3 \<and> v < 2 ^ 62"

lemma top_bits:
  assumes "unat (V :: 'w::len word) < 2 ^ (8 * n + 8)"
  shows "unat (drop_bit 6 (ucast (drop_bit (8 * n) V) :: u8)) = unat V div 2 ^ (8 * n + 6)"
proof -
  have "unat V div 2 ^ (8 * n) < 2 ^ 8" using assms by (simp add: less_mult_imp_div_less power_add mult.commute)
  then have "unat (ucast (drop_bit (8 * n) V) :: u8) = unat V div 2 ^ (8 * n)"
    by (simp only: unsigned_ucast_eq unat_drop_bit_eq) (simp add: drop_bit_eq_div take_bit_nat_eq_self)
  then show ?thesis
    by (simp only: unat_drop_bit_eq) (simp add: drop_bit_eq_div power_add div_mult2_eq)
qed

lemma unat_and_mask: "unat (V AND (2 ^ k - 1) :: 'w::len word) = unat V mod 2 ^ k"
proof -
  have "V AND (2 ^ k - 1) = take_bit k V" by (simp add: take_bit_eq_mask mask_eq_exp_minus_1)
  then show ?thesis by (simp only: unsigned_take_bit_eq) (simp add: take_bit_eq_mod)
qed

lemma length_varint: "varint_ok w v \<Longrightarrow> length (varint w v) = 2 ^ w"
  by (auto simp: varint_ok_def varint_def)

lemma varint_read:
  assumes "varint_ok w v" and "p = length pre"
  shows "tvb_get_varint (pre @ varint w v @ rest) p = Some (2 ^ w, v)"
    and "tvb_get_size ((pre @ varint w v @ rest) ! p) = 2 ^ w"
proof -
  have m: "unat (b AND 0x3F :: u8) = unat b mod 2 ^ 6" "unat (c AND 0x3FFF :: u16) = unat c mod 2 ^ 14"
    "unat (e AND 0x3FFFFFFF :: u32) = unat e mod 2 ^ 30" "unat (f AND 0x3FFFFFFFFFFFFFFF :: u64) = unat f mod 2 ^ 62" for b c e f
    using unat_and_mask[of b 6] unat_and_mask[of c 14] unat_and_mask[of e 30] unat_and_mask[of f 62] by simp_all
  consider "w = 0" "v < 2 ^ 6" | "w = 1" "v < 2 ^ 14" | "w = 2" "v < 2 ^ 30" | "w = 3" "v < 2 ^ 62"
    using assms(1) by (auto simp: varint_ok_def)
  then have "tvb_get_varint (pre @ varint w v @ rest) p = Some (2 ^ w, v) \<and> tvb_get_size ((pre @ varint w v @ rest) ! p) = 2 ^ w"
  proof cases
    case 1
    then have u: "unat (of_nat v :: u8) = v" by (simp add: unat_of_nat)
    with 1 top_bits[of "of_nat v :: u8" 0] show ?thesis
      by (simp add: assms varint_def tvb_get_varint_def tvb_get_size_def nth_append m rd_def)
  next
    case 2
    then have u: "unat (of_nat (2 ^ 14 + v) :: u16) = 2 ^ 14 + v" by (simp add: unat_of_nat del: of_nat_add)
    have "(2 ^ 14 + v) div 2 ^ 14 = 1" "(2 ^ 14 + v) mod 2 ^ 14 = v" using 2 by simp_all
    with u 2 top_bits[of "of_nat (2 ^ 14 + v) :: u16" 1] be16.get_at_exact[of p pre "of_nat (2 ^ 14 + v)" rest] assms(2) show ?thesis
      by (simp add: varint_def tvb_get_varint_def tvb_get_size_def nth_append m rd_def del: of_nat_add)
  next
    case 3
    then have u: "unat (of_nat (2 * 2 ^ 30 + v) :: u32) = 2 * 2 ^ 30 + v" by (simp add: unat_of_nat del: of_nat_add)
    have "(2 * 2 ^ 30 + v) div 2 ^ 30 = 2" "(2 * 2 ^ 30 + v) mod 2 ^ 30 = v"
      using 3 mod_mult_self3[of 2 "2 ^ 30" v] by simp_all
    with u 3 top_bits[of "of_nat (2 * 2 ^ 30 + v) :: u32" 3] be32.get_at_exact[of p pre "of_nat (2 * 2 ^ 30 + v)" rest] assms(2) show ?thesis
      by (simp add: varint_def tvb_get_varint_def tvb_get_size_def nth_append m rd_def del: of_nat_add)
  next
    case 4
    then have u: "unat (of_nat (3 * 2 ^ 62 + v) :: u64) = 3 * 2 ^ 62 + v" by (simp add: unat_of_nat del: of_nat_add)
    have "(3 * 2 ^ 62 + v) div 2 ^ 62 = 3" "(3 * 2 ^ 62 + v) mod 2 ^ 62 = v"
      using 4 mod_mult_self3[of 3 "2 ^ 62" v] by simp_all
    with u 4 top_bits[of "of_nat (3 * 2 ^ 62 + v) :: u64" 7] be64.get_at_exact[of p pre "of_nat (3 * 2 ^ 62 + v)" rest] assms(2) show ?thesis
      by (simp add: varint_def tvb_get_varint_def tvb_get_size_def nth_append m rd_def del: of_nat_add)
  qed
  then show "tvb_get_varint (pre @ varint w v @ rest) p = Some (2 ^ w, v)"
    and "tvb_get_size ((pre @ varint w v @ rest) ! p) = 2 ^ w" by simp_all
qed

subsection \<open>Frames\<close>

datatype frame = Padding | Ping | Crypto nat nat nat bytes

fun frame_bytes :: "frame \<Rightarrow> bytes" where
  "frame_bytes Padding = [0]"
| "frame_bytes Ping = [1]"
| "frame_bytes (Crypto wo off wl b) = [6] @ varint wo off @ varint wl (length b) @ b"

fun frame_ok :: "frame \<Rightarrow> bool" where
  "frame_ok (Crypto wo off wl b) \<longleftrightarrow> varint_ok wo off \<and> varint_ok wl (length b)"
| "frame_ok _ \<longleftrightarrow> True"

text \<open>A frame carries a piece of the stream \<open>S\<close>.\<close>

fun carries :: "(nat \<Rightarrow> u8) \<Rightarrow> frame \<Rightarrow> bool" where
  "carries S (Crypto wo off wl b) \<longleftrightarrow> (\<forall>i < length b. b ! i = S (off + i))"
| "carries S _ \<longleftrightarrow> True"

fun frame_ranges :: "frame list \<Rightarrow> range64 list" where
  "frame_ranges [] = []"
| "frame_ranges (Crypto wo off wl b # fs) = \<lparr>r_offset = off, r_len = length b\<rparr> # frame_ranges fs"
| "frame_ranges (f # fs) = frame_ranges fs"

definition range_end :: "range64 \<Rightarrow> nat" where
  "range_end r = r_offset r + r_len r"

lemma crypto_head:
  assumes "varint_ok wo off" and "varint_ok wl (length b)"
    and "clean = pre @ varint wo off @ varint wl (length b) @ b @ rest" and "p = length pre"
  shows "crypto_frame_head clean (length clean) p = Some (Some (off, length b, p + 2 ^ wo + 2 ^ wl))"
proof -
  have l: "length (varint wo off) = 2 ^ wo" "length (varint wl (length b)) = 2 ^ wl"
    using assms(1,2) by (simp_all add: length_varint)
  note r1 = varint_read[OF assms(1), of p pre "varint wl (length b) @ b @ rest"]
  note r2 = varint_read[OF assms(2), of "p + 2 ^ wo" "pre @ varint wo off" "b @ rest"]
  have lc: "length clean = p + 2 ^ wo + 2 ^ wl + length b + length rest" using assms(3,4) l by simp
  have p1: "p < length clean" "p + 2 ^ wo < length clean" "\<not> p + 2 ^ wo \<ge> length clean"
    "\<not> p + 2 ^ wo + 2 ^ wl > length clean" "\<not> p + 2 ^ wo + 2 ^ wl + length b > length clean"
    using lc by simp_all
  show ?thesis
    unfolding crypto_frame_head_def Let_def
    using r1 r2 assms(3,4) l p1 by (simp add: add.assoc)
qed

lemma loop_frame:
  assumes "frame_ok f" and "clean = pre @ frame_bytes f @ rest"
    and "length (ds_ranges st) < MAX_DEFRAG_PIECES"
    and "\<forall>r \<in> set (frame_ranges [f]). range_end r \<le> ddl"
  shows "defrag_loop clean (length clean) ddl (length pre) st = do {
     st \<leftarrow> (case f of Crypto wo off wl b \<Rightarrow>
              if \<lparr>r_offset = off, r_len = length b\<rparr> \<in> set (ds_ranges st) then Some st
              else defrag_put clean (length pre + 1 + 2 ^ wo + 2 ^ wl) off (length b) st
            | _ \<Rightarrow> Some st);
     defrag_loop clean (length clean) ddl (length pre + length (frame_bytes f)) st }"
proof (cases f)
  case (Crypto wo off wl b)
  with assms have ok: "varint_ok wo off" "varint_ok wl (length b)" "off + length b \<le> ddl" by (simp_all add: range_end_def)
  have c: "clean = (pre @ [6]) @ varint wo off @ varint wl (length b) @ b @ rest" using assms(2) Crypto by simp
  note h = crypto_head[OF ok(1,2) c refl]
  have "clean ! length pre = 6" "length pre < length clean" by (simp_all add: c nth_append)
  moreover have "length (varint wo off) = 2 ^ wo" "length (varint wl (length b)) = 2 ^ wl" using ok by (simp_all add: length_varint)
  moreover from this have "\<not> length clean \<le> length pre + 1" by (simp add: c)
  moreover have "\<not> (6 :: u8) \<le> 1" by (simp add: word_le_nat_alt)
  ultimately show ?thesis
    using h ok assms(3) by (subst defrag_loop.simps) (simp add: Crypto ac_simps)
qed (use assms in \<open>subst defrag_loop.simps, simp add: nth_append\<close>)+

text \<open>What the state holds after some frames.\<close>

definition holds :: "(nat \<Rightarrow> u8) \<Rightarrow> bytes \<Rightarrow> nat \<Rightarrow> range64 list \<Rightarrow> defrag_state \<Rightarrow> bool" where
  "holds S d ddl rs st \<longleftrightarrow> defrag_inv d ddl st \<and> set (ds_ranges st) = set rs \<and> length (ds_ranges st) \<le> length rs
     \<and> (ds_szmax st = 0 \<or> ds_ranges st \<noteq> [])
     \<and> (\<forall>x < ds_szmax st. ds_buf st ! (10 + x) = (if covered (ds_ranges st) x then S x else 0))"

lemma put_holds:
  assumes h: "holds S d ddl rs st" and c: "clean = pre @ b @ rest" "\<forall>i < length b. b ! i = S (off + i)"
    and n: "length (ds_ranges st) < MAX_DEFRAG_PIECES" and fits: "off + length b \<le> ddl" "10 + ddl \<le> length d"
  shows "returns (holds S d ddl (\<lparr>r_offset = off, r_len = length b\<rparr> # rs)) (defrag_put clean (length pre) off (length b) st)"
proof -
  let ?r = "\<lparr>r_offset = off, r_len = length b\<rparr>"
  have inv: "defrag_inv d ddl st" using h by (simp only: holds_def)
  then have z: "ds_zeropos st = ds_szmax st" "ds_szmax st \<le> ddl" "length (ds_buf st) = length d"
    by (simp_all add: defrag_inv_def)
  have z0: "ds_szmax st = 0 \<or> ds_ranges st \<noteq> []" using h by (simp add: holds_def)
  have inv': "returns (\<lambda>st'. defrag_inv d ddl st' \<and> ds_ranges st' \<noteq> []) (defrag_put clean (length pre) off (length b) st)"
    by (rule defrag_put_wp[OF inv _ fits n z0]) (simp add: c)
  then obtain st' where st': "defrag_put clean (length pre) off (length b) st = Some st'" "defrag_inv d ddl st'"
    by (auto simp: returns_def)
  obtain buf1 where b1: "(if ds_zeropos st < off then wr_block (ds_buf st) (10 + ds_zeropos st) (replicate (off - ds_zeropos st) 0)
      else Some (ds_buf st)) = Some buf1" and l1: "length buf1 = length d"
    and n1: "\<And>i. i < length d \<Longrightarrow> buf1 ! i = (if 10 + ds_szmax st \<le> i \<and> i < 10 + off then 0 else ds_buf st ! i)"
  proof (cases "ds_zeropos st < off")
    case True
    obtain e where e: "wr_block (ds_buf st) (10 + ds_zeropos st) (replicate (off - ds_zeropos st) 0) = Some e"
      using True z fits by (simp add: wr_block_in)
    show ?thesis
    proof (rule that)
      show "e ! i = (if 10 + ds_szmax st \<le> i \<and> i < 10 + off then 0 else ds_buf st ! i)" if "i < length d" for i
        using wr_block_nth[OF e, of i] that True z by (auto simp: not_le)
    qed (use e True wr_block_length[OF e] z in auto)
  next
    case False
    show ?thesis
    proof (rule that)
      show "ds_buf st ! i = (if 10 + ds_szmax st \<le> i \<and> i < 10 + off then 0 else ds_buf st ! i)" for i
        using False z by auto
    qed (use False z in auto)
  qed
  obtain buf2 where b2: "wr_block buf1 (10 + off) b = Some buf2" using l1 fits by (simp add: wr_block_in)
  have n2: "buf2 ! (10 + x) = (if off \<le> x \<and> x < off + length b then b ! (x - off) else buf1 ! (10 + x))" if "10 + x < length d" for x
    using wr_block_nth[OF b2, of "10 + x"] that l1 by auto
  have s: "st' = st\<lparr>ds_buf := buf2, ds_ranges := ds_ranges st @ [?r], ds_szmax := max (ds_szmax st) (off + length b),
      ds_zeropos := max (ds_zeropos st) (off + length b), ds_found := True\<rparr>"
    using st'(1) b1 b2 by (simp add: defrag_put_def c)
  have "ds_buf st' ! (10 + x) = (if covered (ds_ranges st') x then S x else 0)" if x: "x < ds_szmax st'" for x
  proof -
    have xl: "10 + x < length d" using x s z fits by simp
    have cov: "covered (ds_ranges st') x \<longleftrightarrow> covered (ds_ranges st) x \<or> off \<le> x \<and> x < off + length b"
      by (auto simp: s covered_def in_range_def)
    have old: "x < ds_szmax st" if "covered (ds_ranges st) x"
      using that inv by (fastforce simp: covered_def in_range_def defrag_inv_def)
    have hold: "x < ds_szmax st \<Longrightarrow> ds_buf st ! (10 + x) = (if covered (ds_ranges st) x then S x else 0)"
      using h by (simp add: holds_def)
    show ?thesis
    proof (cases "off \<le> x \<and> x < off + length b")
      case True
      then have "x - off < length b" by linarith
      then have "b ! (x - off) = S x" using c(2)[rule_format, of "x - off"] True by simp
      with True n2[OF xl] cov show ?thesis by (simp add: s)
    next
      case False
      with x have "x < off \<or> x < ds_szmax st" by (auto simp: s)
      with False n2[OF xl] n1[OF xl] cov hold old show ?thesis by (auto simp: s)
    qed
  qed
  moreover have "set (ds_ranges st') = insert ?r (set rs)" "length (ds_ranges st') \<le> Suc (length rs)"
    using h by (auto simp: s holds_def)
  ultimately show ?thesis using st' by (simp add: holds_def s)
qed

lemma loop_holds:
  assumes "10 + ddl \<le> length d"
  shows "list_all frame_ok fs \<Longrightarrow> list_all (carries S) fs \<Longrightarrow> clean = pre @ concat (map frame_bytes fs) \<Longrightarrow>
    \<forall>r \<in> set (frame_ranges fs). range_end r \<le> ddl \<Longrightarrow> length rs + length (frame_ranges fs) \<le> MAX_DEFRAG_PIECES \<Longrightarrow>
    holds S d ddl rs st \<Longrightarrow>
    returns (\<lambda>(ok, st'). ok \<and> holds S d ddl (rev (frame_ranges fs) @ rs) st') (defrag_loop clean (length clean) ddl (length pre) st)"
proof (induction fs arbitrary: pre rs st)
  case Nil
  then show ?case by (subst defrag_loop.simps) simp
next
  case (Cons f fs)
  let ?rest = "concat (map frame_bytes fs)"
  have ok: "frame_ok f" "carries S f" "clean = pre @ frame_bytes f @ ?rest" "clean = (pre @ frame_bytes f) @ ?rest"
    using Cons.prems by simp_all
  have len: "length (ds_ranges st) \<le> length rs" using Cons.prems by (simp only: holds_def)
  have next_frame: "returns (\<lambda>(ok, st'). ok \<and> holds S d ddl (rev (frame_ranges (f # fs)) @ rs) st')
      (defrag_loop clean (length clean) ddl (length pre + length (frame_bytes f)) st')"
    if "holds S d ddl (frame_ranges [f] @ rs) st'" for st'
  proof -
    have "returns (\<lambda>(ok, st'). ok \<and> holds S d ddl (rev (frame_ranges fs) @ (frame_ranges [f] @ rs)) st')
        (defrag_loop clean (length clean) ddl (length (pre @ frame_bytes f)) st')"
      by (rule Cons.IH[OF _ _ ok(4) _ _ that]) (use Cons.prems in \<open>cases f; simp\<close>)+
    then show ?thesis by (cases f) simp_all
  qed
  show ?case
  proof (cases f)
    case (Crypto wo off wl b)
    let ?r = "\<lparr>r_offset = off, r_len = length b\<rparr>"
    have n: "length (ds_ranges st) < MAX_DEFRAG_PIECES" using len Cons.prems(5) Crypto by simp
    have fits: "off + length b \<le> ddl" using Cons.prems(4) Crypto by (simp add: range_end_def)
    have pos: "length (pre @ [6] @ varint wo off @ varint wl (length b)) = length pre + 1 + 2 ^ wo + 2 ^ wl"
      using ok(1) Crypto by (simp add: length_varint)
    have c: "clean = (pre @ [6] @ varint wo off @ varint wl (length b)) @ b @ ?rest" using ok(3) Crypto by simp
    have put: "returns (holds S d ddl (?r # rs)) (defrag_put clean (length pre + 1 + 2 ^ wo + 2 ^ wl) off (length b) st)"
      using put_holds[OF Cons.prems(6) c _ n fits assms] ok(2) Crypto unfolding pos by simp
    have dup: "holds S d ddl (?r # rs) st" if "?r \<in> set (ds_ranges st)"
      using that Cons.prems(6) by (auto simp: holds_def)
    show ?thesis
      by (subst loop_frame[OF ok(1,3) n])
         (use fits put dup next_frame in \<open>auto simp: Crypto range_end_def wp elim!: returns_mono\<close>)
  next
    case Padding
    then show ?thesis using Cons.prems(5,6) len next_frame
      by (subst defrag_loop.simps) (simp add: ok(3) nth_append)
  next
    case Ping
    then show ?thesis using Cons.prems(5,6) len next_frame
      by (subst defrag_loop.simps) (simp add: ok(3) nth_append)
  qed
qed

subsection \<open>The union of the ranges\<close>

fun chain :: "nat \<Rightarrow> range64 list \<Rightarrow> bool" where
  "chain e [] \<longleftrightarrow> True"
| "chain e (r # rs) \<longleftrightarrow> r_offset r \<le> e \<and> chain (max e (range_end r)) rs"

lemma chain_covered:
  "sorted (map r_offset rs) \<Longrightarrow> chain e rs \<longleftrightarrow> (\<forall>x \<ge> e. (\<exists>r \<in> set rs. x < range_end r) \<longrightarrow> covered rs x)"
proof (induction rs arbitrary: e)
  case (Cons r rs)
  let ?e = "max e (range_end r)"
  have IH: "chain ?e rs \<longleftrightarrow> (\<forall>x \<ge> ?e. (\<exists>r \<in> set rs. x < range_end r) \<longrightarrow> covered rs x)" using Cons by simp
  have cov: "covered (r # rs) x \<longleftrightarrow> (r_offset r \<le> x \<and> x < range_end r) \<or> covered rs x" for x
    by (auto simp: covered_def in_range_def range_end_def)
  have below: "\<not> covered (r # rs) x" if "x < r_offset r" for x
    using that Cons.prems by (fastforce simp: covered_def in_range_def)
  show ?case
  proof
    assume "chain e (r # rs)"
    then show "\<forall>x \<ge> e. (\<exists>r' \<in> set (r # rs). x < range_end r') \<longrightarrow> covered (r # rs) x"
      using IH cov by fastforce
  next
    assume all: "\<forall>x \<ge> e. (\<exists>r' \<in> set (r # rs). x < range_end r') \<longrightarrow> covered (r # rs) x"
    have "r_offset r \<le> e"
    proof (rule ccontr)
      assume "\<not> r_offset r \<le> e"
      with all[rule_format, of e] below[of e] show False by (auto simp: range_end_def)
    qed
    moreover have "chain ?e rs" unfolding IH using all cov by (metis list.set_intros(2) max.bounded_iff not_le)
    ultimately show "chain e (r # rs)" by simp
  qed
qed (simp add: covered_def)

lemma merge_loop_chain:
  "length rs = n \<Longrightarrow> j < i \<Longrightarrow> i \<le> n \<Longrightarrow> r_offset (rs ! j) \<le> range_end (rs ! j) \<Longrightarrow>
   returns (\<lambda>(rs', j'). r_offset (rs' ! 0) = r_offset (rs ! 0) \<and> j \<le> j' \<and> (j' = j \<longleftrightarrow> chain (range_end (rs ! j)) (drop i rs)))
     (merge_loop rs j i n)"
proof (induction rs j i n rule: merge_loop.induct)
  case (1 rs j i n)
  show ?case
  proof (cases "i < n")
    case True
    have dr: "drop i rs = rs ! i # drop (Suc i) rs" using True "1.prems"(1) by (simp add: Cons_nth_drop_Suc)
    show ?thesis
    proof (cases "r_offset (rs ! i) \<le> range_end (rs ! j)")
      case c: True
      define r where "r = (rs ! j)\<lparr>r_len := max (r_offset (rs ! i) + r_len (rs ! i)) (r_offset (rs ! j) + r_len (rs ! j)) - r_offset (rs ! j)\<rparr>"
      have e: "range_end r = max (range_end (rs ! j)) (range_end (rs ! i))" by (simp add: r_def range_end_def)
      have "returns (\<lambda>(rs', j'). r_offset (rs' ! 0) = r_offset (rs[j := r] ! 0) \<and> j \<le> j' \<and> (j' = j \<longleftrightarrow> chain (range_end (rs[j := r] ! j)) (drop (i + 1) (rs[j := r]))))
          (merge_loop (rs[j := r]) j (i + 1) n)"
        using "1.IH"(1)[OF True, of "rs ! j" "rs ! i" _ _ "rs[j := r]"] True "1.prems" c
        by (simp add: range_end_def r_def)
      moreover have "r_offset (rs[j := r] ! 0) = r_offset (rs ! 0)" using True "1.prems" by (cases j) (simp_all add: r_def)
      ultimately show ?thesis
        using True "1.prems" c e by (subst merge_loop.simps) (auto simp: wp Let_def dr r_def range_end_def elim!: returns_mono)
    next
      case c: False
      have "returns (\<lambda>(rs', j'). r_offset (rs' ! 0) = r_offset (rs ! 0) \<and> j + 1 \<le> j'
            \<and> (j' = j + 1 \<longleftrightarrow> chain (range_end (rs ! i)) (drop (i + 1) rs)))
          (merge_loop (rs[j + 1 := rs ! i]) (j + 1) (i + 1) n)"
        using "1.IH"(2)[OF True, of "rs ! j" "rs ! i" _ _ "rs[j + 1 := rs ! i]"] True "1.prems" c
        by (simp add: range_end_def)
      then show ?thesis
        using True "1.prems" c by (subst merge_loop.simps) (auto simp: wp Let_def dr range_end_def elim!: returns_mono)
    qed
  qed (use "1.prems" in \<open>subst merge_loop.simps, simp\<close>)
qed

subsection \<open>The frame that is built\<close>

lemma be_bytes_varint8:
  assumes "v < 2 ^ 62"
  shows "varint 3 v = (hd (be_bytes 8 (of_nat v :: u64)) OR 0xC0) # tl (be_bytes 8 (of_nat v :: u64))"
proof -
  let ?C = "0xC000000000000000 :: u64"
  have z: "(49152 :: u8) = 0" "(12582912 :: u8) = 0" "(3221225472 :: u8) = 0" "(824633720832 :: u8) = 0"
    "(211106232532992 :: u8) = 0" "(54043195528445952 :: u8) = 0" "(13835058055282163712 :: u8) = 0"
    by (simp_all add: word_unat_eq_iff)
  have "of_nat v AND ?C = (0 :: u64)"
  proof (rule bit_word_eqI)
    fix n assume n: "n < LENGTH(64)"
    have "bit (push_bit 62 3 :: u64) n \<Longrightarrow> 62 \<le> n" by (simp only: bit_push_bit_iff)
    then have c: "bit ?C n \<Longrightarrow> 62 \<le> n" by (simp add: push_bit_eq_mult)
    have "\<not> bit v n" if "62 \<le> n"
      using assms that by (metis bit_take_bit_iff not_le take_bit_nat_eq_self power_increasing less_le_trans one_le_numeral)
    then show "bit (of_nat v AND ?C) n \<longleftrightarrow> bit (0 :: u64) n"
      using n c unfolding bit_and_iff bit_of_nat_iff bit_0_eq by auto
  qed
  then have "of_nat v + ?C = of_nat v OR ?C" by (simp add: word_plus_and_or[symmetric, of "of_nat v" ?C])
  moreover have "of_nat (3 * 2 ^ 62 + v) = (of_nat v + ?C :: u64)" by simp
  ultimately have "varint 3 v = be_bytes 8 (of_nat v OR ?C)" by (simp only: varint_def) simp
  also have "\<dots> = (hd (be_bytes 8 (of_nat v :: u64)) OR 0xC0) # tl (be_bytes 8 (of_nat v :: u64))"
    by (simp add: unsigned_or_eq z)
  finally show ?thesis .
qed

lemma finish_holds:
  assumes h: "holds S d ddl rs st" and n: "rs \<noteq> []" and fits: "10 + ddl \<le> length d" "ddl < 2 ^ 62"
  shows "defrag_finish st = Some (True, [6, 0] @ varint 3 (ds_szmax st) @ drop 10 (ds_buf st), ds_szmax st + 10,
    \<forall>x < ds_szmax st. covered rs x)"
proof -
  let ?R = "sort_key r_offset (ds_ranges st)"
  have inv: "defrag_inv d ddl st" and set_rs: "set (ds_ranges st) = set rs" using h by (simp_all only: holds_def)
  then have z: "ds_szmax st < 2 ^ 62" "length (ds_buf st) = length d" "\<forall>r \<in> set rs. range_end r \<le> ds_szmax st"
    "ds_szmax st \<in> range_end ` set rs"
    using fits n by (auto simp: defrag_inv_def range_end_def image_iff)
  have sR: "set ?R = set rs" by (simp add: set_rs)
  have ne: "?R \<noteq> []" using n sR by fastforce
  then obtain r0 R where R: "?R = r0 # R" by (cases ?R) auto
  have l: "length (ds_ranges st) = Suc (length R)" using arg_cong[OF R, of length] by simp
  have "returns (\<lambda>(rs', j'). r_offset (rs' ! 0) = r_offset r0 \<and> (j' = 0 \<longleftrightarrow> chain (range_end r0) R)) (merge_loop ?R 0 1 (length ?R))"
    using merge_loop_chain[of ?R "length ?R" 0 1] R by (auto simp: range_end_def elim!: returns_mono)
  moreover have "returns (\<lambda>(rs', j'). length rs' = length ?R \<and> 0 \<le> j' \<and> j' < length ?R) (merge_loop ?R 0 1 (length ?R))"
    by (rule merge_loop_wp) (use R in auto)
  ultimately obtain rs' j' where m: "merge_loop ?R 0 1 (length (ds_ranges st)) = Some (rs', j')" "length rs' = Suc (length R)"
    "r_offset (rs' ! 0) = r_offset r0" "j' = 0 \<longleftrightarrow> chain (range_end r0) R"
    by (auto simp: returns_def R l)
  have "sorted (map r_offset ?R)" by simp
  from chain_covered[OF this, of 0] have "chain 0 ?R \<longleftrightarrow> (\<forall>x. (\<exists>r \<in> set rs. x < range_end r) \<longrightarrow> covered rs x)"
    by (simp add: set_rs covered_def)
  also have "\<dots> \<longleftrightarrow> (\<forall>x < ds_szmax st. covered rs x)"
  proof -
    have "(\<exists>r \<in> set rs. x < range_end r) \<longleftrightarrow> x < ds_szmax st" for x using z(3,4) by fastforce
    then show ?thesis by simp
  qed
  finally have full: "(j' + 1 = 1 \<and> r_offset (rs' ! 0) = 0) \<longleftrightarrow> (\<forall>x < ds_szmax st. covered rs x)"
    using m by (auto simp: R)
  let ?v = "be_bytes 8 (of_nat (ds_szmax st) :: u64)"
  obtain c0 c1 rest where b: "ds_buf st = c0 # c1 # rest" "8 \<le> length rest"
  proof -
    have "10 \<le> length (ds_buf st)" using fits(1) z(2) by simp
    then show ?thesis using that by (cases "ds_buf st"; cases "tl (ds_buf st)") auto
  qed
  have "phton64 (6 # 0 # rest) 2 (of_nat (ds_szmax st)) = Some ([6, 0] @ ?v @ drop 8 rest)"
    using b(2) by (simp add: be64.put_in wr_block_in del: be_bytes_numeral)
  moreover have "?v = hd ?v # tl ?v" by (metis length_be_bytes list.collapse list.size(3) zero_neq_numeral)
  ultimately have p: "phton64 (6 # 0 # rest) 2 (of_nat (ds_szmax st)) = Some (6 # 0 # hd ?v # tl ?v @ drop 8 rest)" by simp
  have "rs' \<noteq> []" using m(2) by auto
  then show ?thesis
    using m p full be_bytes_varint8[OF z(1)]
    by (simp add: defrag_finish_def b wr_def rd_def del: be_bytes_numeral)
qed

lemma defrag_frames:
  assumes "list_all frame_ok fs" and "list_all (carries S) fs" and "frame_ranges fs \<noteq> []"
    and "length (frame_ranges fs) \<le> MAX_DEFRAG_PIECES" and "\<forall>r \<in> set (frame_ranges fs). range_end r + 10 \<le> dlen"
    and "dlen \<le> length defrag" and "dlen < 2 ^ 62" and "clean = concat (map frame_bytes fs)"
    and "m = Max (range_end ` set (frame_ranges fs))"
  shows "\<exists>buf. QUICDefragCrypto clean (length clean) defrag dlen bf = Some (True, [6, 0] @ varint 3 m @ buf, m + 10,
      \<forall>x < m. covered (frame_ranges fs) x)
    \<and> m \<le> length buf \<and> (\<forall>x < m. buf ! x = (if covered (frame_ranges fs) x then S x else 0))"
proof -
  let ?rs = "rev (frame_ranges fs)"
  obtain r where "r \<in> set (frame_ranges fs)" using assms(3) by (cases "frame_ranges fs") auto
  with assms(5) have dl: "10 \<le> dlen" by fastforce
  have ddl: "10 + (dlen - 10) \<le> length defrag" "\<not> dlen < 10" "dlen - 10 < 2 ^ 62" using dl assms(6,7) by auto
  have start: "holds S defrag (dlen - 10) [] (defrag_start defrag)"
    unfolding holds_def using defrag_inv_start by (simp add: defrag_start_def)
  have "returns (\<lambda>(ok, st'). ok \<and> holds S defrag (dlen - 10) (?rs @ []) st')
      (defrag_loop clean (length clean) (dlen - 10) (length ([] :: bytes)) (defrag_start defrag))"
    by (rule loop_holds[OF ddl(1) assms(1,2)]) (use assms(4,5,8) start in fastforce)+
  then obtain st where st: "defrag_loop clean (length clean) (dlen - 10) 0 (defrag_start defrag) = Some (True, st)"
    and h: "holds S defrag (dlen - 10) ?rs st" by (auto simp: returns_def)
  have cov: "covered ?rs = covered (frame_ranges fs)" "covered (ds_ranges st) = covered (frame_ranges fs)"
    using h by (auto simp: covered_def fun_eq_iff holds_def)
  have inv: "defrag_inv defrag (dlen - 10) st" and set_rs: "set (ds_ranges st) = set (frame_ranges fs)"
    using h by (simp_all add: holds_def)
  have ne: "ds_ranges st \<noteq> []" using set_rs assms(3) by auto
  have "ds_szmax st = m"
    unfolding assms(9) set_rs[symmetric]
    by (rule Max_eqI[symmetric]) (use inv ne in \<open>auto simp: defrag_inv_def range_end_def image_iff\<close>)
  moreover have "length (ds_buf st) = length defrag" "ds_found st" "ds_szmax st \<le> dlen - 10"
    using inv ne by (simp_all add: defrag_inv_def)
  moreover have "\<forall>x < ds_szmax st. ds_buf st ! (10 + x) = (if covered (frame_ranges fs) x then S x else 0)"
    using h cov by (simp add: holds_def)
  ultimately show ?thesis
    using finish_holds[OF h _ ddl(1,3)] assms(3) ddl(2) st cov ddl(1)
    by (intro exI[of _ "drop 10 (ds_buf st)"]) (simp add: QUICDefragCrypto_def)
qed

text \<open>A parser looks at the rebuilt frame: it finds the TLS message behind the ten bytes of header.\<close>

lemma hello_at: "p = length pre \<Longrightarrow> IsTLSHandshakeClientHello (pre @ x) p n True = IsTLSHandshakeClientHello x 0 n True"
proof -
  assume p: "p = length pre"
  have r: "rd (pre @ x) (p + i) = rd x i" for i by (simp add: p rd_def)
  from r[of 0] r[of 4] r[of 5] show ?thesis by (simp add: IsTLSHandshakeClientHello_def IsTLSHandshakeHello_def)
qed

lemma hello_prefix: "n \<le> length x \<Longrightarrow> n \<le> length y \<Longrightarrow> take n x = take n y \<Longrightarrow>
    IsTLSHandshakeClientHello x 0 n True = IsTLSHandshakeClientHello y 0 n True"
proof -
  assume n: "n \<le> length x" "n \<le> length y" "take n x = take n y"
  have "x ! i = y ! i" if "i < n" for i using n that by (metis nth_take)
  moreover have "6 \<le> n \<Longrightarrow> rd x 0 = Some (x ! 0) \<and> rd y 0 = Some (y ! 0)" using n(1,2) by (auto intro!: rd_in)
  ultimately show ?thesis using n(1,2) by (cases "6 \<le> n") (simp_all add: IsTLSHandshakeClientHello_def IsTLSHandshakeHello_def)
qed

lemma crypto_hello_frame:
  assumes "m < 2 ^ 62" and "m \<le> length b"
  shows "IsQUICCryptoHello ([6, 0] @ varint 3 m @ b) (m + 10)
    = map_option (\<lambda>hello. if hello then Some (10, m) else None) (IsTLSHandshakeClientHello b 0 m True)"
proof -
  have ok: "varint_ok 3 m" "varint_ok 0 0" using assms by (simp_all add: varint_ok_def)
  have l: "length (varint 3 m) = 8" using length_varint[OF ok(1)] by simp
  note r0 = varint_read[OF ok(2), of 1 "[6]" "varint 3 m @ b"]
  note r3 = varint_read[OF ok(1), of 2 "[6, 0]" b]
  have z: "varint 0 0 = [0]" by (simp add: varint_def)
  have h: "IsTLSHandshakeClientHello ([6, 0] @ varint 3 m @ b) 10 m True = IsTLSHandshakeClientHello b 0 m True"
    using hello_at[of 10 "[6, 0] @ varint 3 m" b m] l by simp
  show ?thesis
  proof (cases "m = 0")
    case True
    then have "IsTLSHandshakeClientHello b 0 m True = Some False" by (simp add: IsTLSHandshakeClientHello_def IsTLSHandshakeHello_def)
    with True r0 r3 l show ?thesis by (simp add: IsQUICCryptoHello_def z)
  next
    case False
    then have c: "\<not> m + 10 < 3" "\<not> m + 10 \<le> 2" "\<not> m + 10 \<le> 10" "\<not> m + 10 < 10 + m" by simp_all
    define d where "d = [6, 0] @ varint 3 m @ b"
    have f: "rd d 0 = Some 6" "rd d 1 = Some 0" "tvb_get_varint d 1 = Some (1, 0)" "tvb_get_size 0 = 1"
      using r0 by (simp_all add: d_def z rd_def)
    have g: "rd d (Suc (Suc 0)) = Some (d ! 2)" "tvb_get_varint d (Suc (Suc 0)) = Some (8, m)" "tvb_get_size (d ! 2) = 8"
      using r3 l by (simp_all add: d_def rd_def numeral_2_eq_2[symmetric])
    have "IsQUICCryptoHello d (m + 10) = map_option (\<lambda>hello. if hello then Some (10, m) else None) (IsTLSHandshakeClientHello b 0 m True)"
      unfolding IsQUICCryptoHello_def Let_def
      using h[folded d_def] f g c by (cases "IsTLSHandshakeClientHello b 0 m True") simp_all
    then show ?thesis by (simp add: d_def)
  qed
qed

subsection \<open>Properties\<close>

text \<open>C13: QUICDefragCrypto refines the reassembly of a stream: from frames that carry pieces of \<open>S\<close>, in any order,
  with overlaps, duplicates and padding, it builds one CRYPTO frame up to the last byte \<open>m\<close> seen. Every byte
  that some piece covers is that of the stream, the others are zero, and \<open>bFull\<close> says exactly whether all are covered.\<close>

theorem QUICDefragCrypto_reassembles:
  assumes "list_all frame_ok fs" and "list_all (carries S) fs" and "frame_ranges fs \<noteq> []"
    and "length (frame_ranges fs) \<le> MAX_DEFRAG_PIECES" and "\<forall>r \<in> set (frame_ranges fs). range_end r + 10 \<le> dlen"
    and "dlen \<le> length defrag" and "dlen < 2 ^ 62"
    and "m = Max (range_end ` set (frame_ranges fs))"
  shows "\<exists>buf. QUICDefragCrypto (concat (map frame_bytes fs)) (length (concat (map frame_bytes fs))) defrag dlen bf
      = Some (True, [6, 0] @ varint 3 m @ buf, m + 10, \<forall>x < m. covered (frame_ranges fs) x)
    \<and> m \<le> length buf \<and> (\<forall>x < m. buf ! x = (if covered (frame_ranges fs) x then S x else 0))"
  by (rule defrag_frames[OF assms(1-7) refl assms(8)])

definition sample_frames :: "frame list" where
  "sample_frames = [Padding, Crypto 0 3 0 [4, 5], Ping, Crypto 1 0 0 [1, 2, 3]]"

lemma sample_frames_ok:
  "list_all frame_ok sample_frames" "list_all (carries (\<lambda>i. of_nat (i + 1))) sample_frames"
  "frame_ranges sample_frames = [\<lparr>r_offset = 3, r_len = 2\<rparr>, \<lparr>r_offset = 0, r_len = 3\<rparr>]"
    by (simp_all add: sample_frames_def varint_ok_def) (auto simp: less_Suc_eq numeral_2_eq_2 numeral_3_eq_3)

lemma QUICDefragCrypto_reassembles_witness:
  "\<exists>buf. QUICDefragCrypto (concat (map frame_bytes sample_frames)) (length (concat (map frame_bytes sample_frames)))
      (replicate 20 0) 20 False = Some (True, [6, 0] @ varint 3 5 @ buf, 15, True) \<and> buf ! 4 = 5"
proof -
  have m: "5 = Max (range_end ` set (frame_ranges sample_frames))" by (simp add: sample_frames_ok(3) range_end_def)
  have c: "covered (frame_ranges sample_frames) x" if "x < 5" for x
    using that by (auto simp: sample_frames_ok(3) covered_def in_range_def)
  obtain buf where "QUICDefragCrypto (concat (map frame_bytes sample_frames)) (length (concat (map frame_bytes sample_frames)))
        (replicate 20 0) 20 False = Some (True, [6, 0] @ varint 3 5 @ buf, 5 + 10, \<forall>x < 5. covered (frame_ranges sample_frames) x)"
      "\<forall>x < 5. buf ! x = (if covered (frame_ranges sample_frames) x then of_nat (x + 1) else 0)"
    using QUICDefragCrypto_reassembles[OF sample_frames_ok(1,2) _ _ _ _ _ m, of 20 "replicate 20 0" False]
    by (auto simp: sample_frames_ok(3) range_end_def MAX_DEFRAG_PIECES_def)
  with c show ?thesis by (intro exI[of _ buf]) simp
qed

text \<open>C27: With full coverage the TLS message is recovered: IsQUICCryptoHello, applied to the rebuilt frame, answers what
  the ClientHello test answers for the first \<open>m\<close> bytes of the stream, and gives their place and length.\<close>

theorem quic_hello_recovered:
  assumes "list_all frame_ok fs" and "list_all (carries S) fs" and "frame_ranges fs \<noteq> []"
    and "length (frame_ranges fs) \<le> MAX_DEFRAG_PIECES" and "\<forall>r \<in> set (frame_ranges fs). range_end r + 10 \<le> dlen"
    and "dlen \<le> length defrag" and "dlen < 2 ^ 62"
    and "m = Max (range_end ` set (frame_ranges fs))" and "\<forall>x < m. covered (frame_ranges fs) x"
  shows "\<exists>buf. QUICDefragCrypto (concat (map frame_bytes fs)) (length (concat (map frame_bytes fs))) defrag dlen bf = Some (True, buf, m + 10, True)
    \<and> take m (drop 10 buf) = map S [0..<m]
    \<and> IsQUICCryptoHello buf (m + 10)
      = map_option (\<lambda>hello. if hello then Some (10, m) else None) (IsTLSHandshakeClientHello (map S [0..<m]) 0 m True)"
proof -
  from defrag_frames[OF assms(1-7) refl assms(8), of bf] assms(9) obtain b where
    d: "QUICDefragCrypto (concat (map frame_bytes fs)) (length (concat (map frame_bytes fs))) defrag dlen bf
      = Some (True, [6, 0] @ varint 3 m @ b, m + 10, True)" and b: "m \<le> length b" "\<forall>x < m. b ! x = S x" by auto
  obtain r where "r \<in> set (frame_ranges fs)" "m = range_end r"
  proof -
    have "m \<in> range_end ` set (frame_ranges fs)" unfolding assms(8) by (rule Max_in) (use assms(3) in auto)
    then show ?thesis using that by blast
  qed
  with assms(5,7) have m: "m < 2 ^ 62" by fastforce
  have t: "take m b = map S [0..<m]" using b by (intro nth_equalityI) auto
  have "length (varint 3 m) = 8" using m length_varint[of 3 m] by (simp add: varint_ok_def)
  then have "take m (drop 10 ([6, 0] @ varint 3 m @ b)) = map S [0..<m]" using t by simp
  moreover have "IsTLSHandshakeClientHello b 0 m True = IsTLSHandshakeClientHello (map S [0..<m]) 0 m True"
    by (rule hello_prefix) (use b t in simp_all)
  ultimately show ?thesis using d crypto_hello_frame[OF m b(1)] by auto
qed

lemma quic_hello_recovered_witness:
  "\<exists>buf. QUICDefragCrypto (concat (map frame_bytes sample_frames)) (length (concat (map frame_bytes sample_frames)))
      (replicate 20 0) 20 False = Some (True, buf, 15, True) \<and> take 5 (drop 10 buf) = [1, 2, 3, 4, 5]"
proof -
  have m: "5 = Max (range_end ` set (frame_ranges sample_frames))" by (simp add: sample_frames_ok(3) range_end_def)
  have c: "\<forall>x < 5. covered (frame_ranges sample_frames) x"
    by (auto simp: sample_frames_ok(3) covered_def in_range_def)
  have "map (\<lambda>i. of_nat (i + 1)) [0..<5] = ([1, 2, 3, 4, 5] :: bytes)" by (simp add: upt_0_numeral)
  then show ?thesis
    using quic_hello_recovered[OF sample_frames_ok(1,2) _ _ _ _ _ m c, of 20 "replicate 20 0" False]
    by (auto simp: sample_frames_ok(3) range_end_def MAX_DEFRAG_PIECES_def)
qed

end
