(* ===== verification/QuicOpen.thy ===== *)
theory QuicOpen
  imports QuicReasm
begin

text \<open>
  What \<open>QUICDecryptInitial\<close> promises: it undoes the packet protection of an Initial packet. \<open>quic_packet\<close> is the
  packet of the standard, with header protection; the primitives stay parameters.
\<close>

unbundle bit_operations_syntax

subsection \<open>A protected packet\<close>

text \<open>The header up to the packet number.\<close>

definition quic_head :: "u8 \<Rightarrow> u32 \<Rightarrow> bytes \<Rightarrow> bytes \<Rightarrow> nat \<Rightarrow> bytes \<Rightarrow> nat \<Rightarrow> nat \<Rightarrow> bytes" where
  "quic_head b0 ver dcid scid wt tok wl plen =
     b0 # be_bytes 4 ver @ [of_nat (length dcid)] @ dcid @ [of_nat (length scid)] @ scid
       @ varint wt (length tok) @ tok @ varint wl plen"

definition quic_nonce :: "bytes \<Rightarrow> bytes \<Rightarrow> bytes" where
  "quic_nonce iv pn = take 4 iv @ be_bytes 8 (be_word (drop 4 iv) XOR be_word pn :: u64)"

text \<open>The mask comes from the 16 bytes that start four bytes behind the start of the packet number.\<close>

definition quic_mask :: "(bytes \<Rightarrow> bytes) \<Rightarrow> bytes \<Rightarrow> bytes \<Rightarrow> bytes" where
  "quic_mask cipher pn body = take 5 (cipher (take 16 (drop (4 - length pn) body)))"

definition quic_packet :: "(bytes \<Rightarrow> bytes) \<Rightarrow> bytes \<Rightarrow> bytes \<Rightarrow> bytes \<Rightarrow> bytes" where
  "quic_packet cipher head pn body =
     (let m = quic_mask cipher pn body in
      (hd head XOR (m ! 0 AND 0x0f)) # tl head @ map2 (XOR) pn (drop 1 m) @ body)"

lemma length_quic_head:
  "varint_ok wt (length tok) \<Longrightarrow> varint_ok wl plen \<Longrightarrow>
   length (quic_head b0 ver dcid scid wt tok wl plen) = 7 + length dcid + length scid + 2 ^ wt + length tok + 2 ^ wl"
  by (simp add: quic_head_def length_varint)

lemma pn_offset_head:
  assumes "varint_ok wt (length tok)" and "varint_ok wl plen" and "length dcid < 256" and "length scid < 256"
    and "20 \<le> plen" and "plen \<le> length body"
    and "d = b # tl (quic_head b0 ver dcid scid wt tok wl plen) @ body"
  shows "quic_pn_offset d (length d) = Some (Some (length (quic_head b0 ver dcid scid wt tok wl plen), plen))"
proof -
  let ?dl = "length dcid" and ?sl = "length scid"
  define p where "p = 7 + ?dl + ?sl"
  have d: "d = b # be_bytes 4 ver @ [of_nat ?dl] @ dcid @ [of_nat ?sl] @ scid @ varint wt (length tok) @ tok @ varint wl plen @ body"
    using assms(7) by (simp add: quic_head_def)
  have l: "length (varint wt (length tok)) = 2 ^ wt" "length (varint wl plen) = 2 ^ wl" using assms(1,2) by (simp_all add: length_varint)
  have ld: "length d = p + 2 ^ wt + length tok + 2 ^ wl + length body" by (simp add: d l p_def)
  have n1: "d ! 5 = of_nat ?dl" "d ! (6 + ?dl) = of_nat ?sl" by (simp_all add: d nth_append)
  have u: "unat (of_nat ?dl :: u8) = ?dl" "unat (of_nat ?sl :: u8) = ?sl" using assms(3,4) by (simp_all add: unat_of_nat)
  note r1 = varint_read[OF assms(1), of p "b # be_bytes 4 ver @ [of_nat ?dl] @ dcid @ [of_nat ?sl] @ scid" "tok @ varint wl plen @ body"]
  note r2 = varint_read[OF assms(2), of "p + 2 ^ wt + length tok"
      "b # be_bytes 4 ver @ [of_nat ?dl] @ dcid @ [of_nat ?sl] @ scid @ varint wt (length tok) @ tok" body]
  have v: "tvb_get_varint d p = Some (2 ^ wt, length tok)" "tvb_get_size (d ! p) = 2 ^ wt"
    "tvb_get_varint d (p + 2 ^ wt + length tok) = Some (2 ^ wl, plen)" "tvb_get_size (d ! (p + 2 ^ wt + length tok)) = 2 ^ wl"
    using r1 r2 by (simp_all add: d p_def l)
  have body: "20 \<le> length body" "body \<noteq> []" using assms(5,6) by auto
  have q: "1 + 4 + 1 + ?dl + 1 + ?sl = p" by (simp add: p_def)
  have in6: "1 + 4 + 1 + ?dl < length d" by (simp add: ld p_def)
  have "quic_pn_offset d (length d) = Some (Some (p + 2 ^ wt + length tok + 2 ^ wl, plen))"
    unfolding quic_pn_offset_def Let_def
    using n1 u v ld q body assms(5,6) by (simp add: p_def)
  then show ?thesis using length_quic_head[OF assms(1,2)] by (simp add: p_def)
qed

subsection \<open>Packet numbers\<close>

lemma four_cases: "0 < length xs \<Longrightarrow> length xs \<le> 4 \<Longrightarrow>
    (\<exists>a. xs = [a]) \<or> (\<exists>a b. xs = [a, b]) \<or> (\<exists>a b c. xs = [a, b, c]) \<or> (\<exists>a b c d. xs = [a, b, c, d])"
  by (cases xs; cases "tl xs"; cases "tl (tl xs)"; cases "tl (tl (tl xs))"; auto)

lemma pkn_value:
  assumes "0 < length pn" and "length pn \<le> 4" and "length m = 5"
  shows "quic_pkn (map2 (XOR) pn (drop 1 m)) m (length pn) = be_word pn"
proof -
  obtain m0 m1 m2 m3 m4 where m: "m = [m0, m1, m2, m3, m4]"
    using assms(3) by (auto simp: numeral_eq_Suc length_Suc_conv)
  have x: "(a XOR b) XOR b = a" for a b :: u8 by (simp add: xor.assoc)
  from four_cases[OF assms(1,2)] show ?thesis
    by (elim disjE exE) (simp_all add: m quic_pkn_def be_word_def be_step_def x push_bit_or or.assoc upt_0_numeral upt_rec)
qed

lemma header_restored:
  assumes "0 < length pn" and "length pn \<le> 4" and "length ys = length pn"
  shows "quic_header ((h # hs) @ ys) b0 (be_word pn) (length pn) = (b0 # hs) @ pn"
proof -
  have b: "be_bytes (length pn) (be_word pn :: u32) = pn"
    by (rule be_bytes_be_word) (use assms(2) in simp)
  have len: "length ((h # hs) @ ys) = Suc (length hs + length pn)" using assms(3) by simp
  have step: "foldl (\<lambda>H i. H[Suc (length hs + n) - 1 - i := ucast (drop_bit (8 * i) v)]) ((b0 # hs) @ ys) [0..<k]
      = (b0 # hs) @ take (n - k) ys @ be_bytes k v" if "length ys = n" "k \<le> n" for k n ys and v :: u32
    using that
  proof (induction k)
    case (Suc k)
    have "((b0 # hs) @ take (n - k) ys @ be_bytes k v)[length hs + n - k := x]
        = (b0 # hs) @ take (n - Suc k) ys @ x # be_bytes k v" for x
    proof -
      obtain j where n: "n = Suc k + j" using Suc.prems le_Suc_ex by blast
      then have "take (n - k) ys = take j ys @ [ys ! j]" using Suc.prems by (simp add: take_Suc_conv_app_nth)
      moreover have "length hs + n - k = Suc (length hs) + j" "n - Suc k = j" using n by simp_all
      ultimately show ?thesis using Suc.prems n by (simp add: list_update_append)
    qed
    with Suc show ?case by simp
  qed simp
  show ?thesis
    using step[of ys "length pn" "length pn" "be_word pn"] assms(3) b
    by (simp add: quic_header_def)
qed

lemma low_bits:
  "(b XOR (m AND 0x0f)) XOR (m AND 0x0f) = (b :: u8)"
  "((b XOR (m AND 0x0f)) AND 0x80 = 0) = ((b :: u8) AND 0x80 = 0)"
proof -
  show "(b XOR (m AND 0x0f)) XOR (m AND 0x0f) = b" by (simp add: xor.assoc)
  have "(b XOR (m AND 0x0f)) AND 0x80 = b AND 0x80"
  proof (rule bit_word_eqI)
    fix n :: nat
    have "bit (0x0f :: u8) n \<Longrightarrow> \<not> bit (0x80 :: u8) n"
      by (cases "n < 8") (auto simp: numeral_eq_Suc less_Suc_eq dest: bit_imp_le_length)
    then show "bit ((b XOR (m AND 0x0f)) AND 0x80) n \<longleftrightarrow> bit (b AND 0x80) n"
      unfolding bit_and_iff bit_xor_iff by auto
  qed
  then show "((b XOR (m AND 0x0f)) AND 0x80 = 0) = (b AND 0x80 = 0)" by simp
qed

lemma nonce_bytes:
  assumes "length iv = 12" and "length pn \<le> 4"
  shows "do { base \<leftarrow> pntoh64 iv (12 - 8); phton64 iv (12 - 8) (base XOR ucast (be_word pn :: u32)) } = Some (quic_nonce iv pn)"
proof -
  have "ucast (be_word pn :: u32) = (be_word pn :: u64)"
    using assms(2) by (simp add: word_unat_eq_iff unat_be_word unsigned_ucast_eq)
       (use be_nat_less[of pn] power_increasing[of "length pn" 4 "256 :: nat"] assms(2) in \<open>simp add: take_bit_nat_eq_self\<close>)
  with assms(1) show ?thesis
    by (simp add: be64.get_in be64.put_in wr_block_def quic_nonce_def del: be_bytes_numeral)
qed

subsection \<open>Opening a packet\<close>

lemma quic_open_packet:
  assumes cr: "crypto_sizes cr" "aes_setkey cr hp = Some cipher" "length iv = 12"
    and head: "head = b0 # hs" "length head + length pn \<le> 2048"
    and pn: "0 < length pn" "length pn \<le> 4" "unat (b0 AND 3) + 1 = length pn"
    and plen: "plen = length pn + length ct + 16" "20 \<le> plen" "length tag = 16"
    and room: "length ct \<le> clean_len" "clean_len \<le> length clean"
    and gcm: "gcm_decrypt cr key (quic_nonce iv pn) (head @ pn) ct = Some (plain, tag')"
    and d: "d = quic_packet cipher head pn (ct @ tag @ rest)"
  shows "quic_open cr d clean clean_len (key, iv, hp) (length head) plen = Some (tag = tag', plain @ drop (length plain) clean, length ct)"
proof -
  define m where "m = quic_mask cipher pn (ct @ tag @ rest)"
  define pn' where "pn' = map2 (XOR) pn (drop 1 m)"
  have s16: "length (take 16 (drop (4 - length pn) (ct @ tag @ rest))) = 16" using plen pn by simp
  have lc: "length (cipher (take 16 (drop (4 - length pn) (ct @ tag @ rest)))) = 16"
    using cr(1,2) s16 unfolding crypto_sizes_def by blast
  then have lm: "length m = 5" by (simp add: m_def quic_mask_def)
  then have lp: "length pn' = length pn" using pn by (simp add: pn'_def)
  have dd: "d = (b0 XOR (m ! 0 AND 0x0f)) # hs @ pn' @ ct @ tag @ rest"
    by (simp add: d quic_packet_def m_def pn'_def Let_def head)
  have L: "length head = Suc (length hs)" by (simp add: head)
  have "drop (length head) d = pn' @ ct @ tag @ rest" by (simp add: dd L)
  then have "drop (length head + 4) d = drop 4 (pn' @ ct @ tag @ rest)" by (metis drop_drop add.commute)
  also have "\<dots> = drop (4 - length pn) (ct @ tag @ rest)" using pn(2) lp by simp
  finally have sample: "rd_block d (length head + 4) 16 = Some (take 16 (drop (4 - length pn) (ct @ tag @ rest)))"
    using plen lp by (simp add: rd_block_def dd L)
  have msk: "rd_block (cipher (take 16 (drop (4 - length pn) (ct @ tag @ rest)))) 0 5 = Some m"
    using lc by (simp add: m_def quic_mask_def)
  have p0: "rd d 0 = Some (b0 XOR (m ! 0 AND 0x0f))" by (simp add: dd rd_def)
  have pkn: "rd_block d (length head) (length pn) = Some pn'" using lp by (simp add: rd_block_def dd L)
  have hdr: "rd_block d 0 (length head + length pn) = Some ((b0 XOR (m ! 0 AND 0x0f)) # hs @ pn')"
    using lp by (simp add: rd_block_def dd L)
  have inp: "rd_block d (length head + length pn) (length ct) = Some ct" using lp by (simp add: rd_block_def dd L)
  have gl: "length plain = length ct" "length tag' = 16" using cr(1) gcm unfolding crypto_sizes_def by blast+
  have out: "wr_block clean 0 plain = Some (plain @ drop (length plain) clean)" using gl room by (simp add: wr_block_def)
  have cmp: "mem_eq d (length head + length pn + length ct) tag' = Some (tag = tag')"
    using lp gl plen(3) by (simp add: mem_eq_def rd_block_def dd L)
  have v: "quic_pkn pn' m (length pn) = be_word pn" using pkn_value[OF pn(1,2) lm] by (simp add: pn'_def)
  have hh: "quic_header ((b0 XOR (m ! 0 AND 0x0f)) # hs @ pn') b0 (be_word pn) (length pn) = head @ pn"
    using header_restored[OF pn(1,2) lp] by (simp add: head)
  obtain base where n: "pntoh64 iv (12 - 8) = Some base" "phton64 iv (12 - 8) (base XOR ucast (be_word pn :: u32)) = Some (quic_nonce iv pn)"
    using nonce_bytes[OF cr(3) pn(2)] by (auto split: bind_splits)
  have k: "plen - length pn - 16 = length ct" using plen by simp
  note pl = pn(3)[unfolded Suc_eq_plus1[symmetric]]
  show ?thesis
    unfolding quic_open_def Let_def
    by (simp only: prod.case sample cr(2) option.case msk p0 Option.bind_lunit low_bits pn(3) pkn v n k hdr hh inp gcm out cmp)
       (use room head in simp)
qed

lemma QUICDecryptInitial_packet:
  assumes cr: "crypto_sizes cr" "quic_initial_keys cr dcid ver = Some (key, iv, hp)" "aes_setkey cr hp = Some cipher"
    and head: "head = quic_head b0 ver dcid scid wt tok wl plen" "varint_ok wt (length tok)" "varint_ok wl plen"
      "length head + length pn \<le> 2048" "b0 AND 0x80 \<noteq> 0" "ver \<noteq> 0"
    and cid: "0 < length dcid" "length dcid \<le> 20" "length scid < 256"
    and pn: "0 < length pn" "length pn \<le> 4" "unat (b0 AND 3) + 1 = length pn"
    and plen: "plen = length pn + length ct + 16" "20 \<le> plen" "length tag = 16"
    and room: "length ct \<le> clean_len" "clean_len \<le> length clean"
    and gcm: "gcm_decrypt cr key (quic_nonce iv pn) (head @ pn) ct = Some (plain, tag')"
    and d: "d = quic_packet cipher head pn (ct @ tag @ rest)"
  shows "QUICDecryptInitial cr d (length d) clean clean_len = Some (tag = tag', plain @ drop (length plain) clean, length ct)"
proof -
  define m where "m = quic_mask cipher pn (ct @ tag @ rest)"
  define body where "body = map2 (XOR) pn (drop 1 m) @ ct @ tag @ rest"
  have iv: "length iv = 12" using quic_initial_keys_sizes[OF cr(1,2)] by simp
  obtain hs where hs: "head = b0 # hs" "hs = tl head" by (simp add: head(1) quic_head_def)
  have "d = (b0 XOR (m ! 0 AND 0x0f)) # tl head @ body"
    unfolding d quic_packet_def m_def body_def Let_def by (simp add: hs(1))
  note dd = this[unfolded head(1)]
  have s16: "length (take 16 (drop (4 - length pn) (ct @ tag @ rest))) = 16" using plen pn by simp
  have "length (cipher (take 16 (drop (4 - length pn) (ct @ tag @ rest)))) = 16"
    using cr(1,3) s16 unfolding crypto_sizes_def by blast
  then have "length m = 5" by (simp add: m_def quic_mask_def)
  then have lb: "plen \<le> length body" using plen pn by (simp add: body_def)
  define t where "t = dcid @ [of_nat (length scid)] @ scid @ varint wt (length tok) @ tok @ varint wl plen @ body"
  have d5: "d = [b0 XOR (m ! 0 AND 0x0f)] @ be_bytes 4 ver @ [of_nat (length dcid)] @ t"
    by (simp add: dd quic_head_def t_def)
  have lt: "20 \<le> length t" using lb plen by (simp add: t_def)
  have lh: "QUICIsLongHeader d (length d) = Some True"
    using head(5) lt low_bits(2)[of b0 "m ! 0"] by (simp add: d5 QUICIsLongHeader_def rd_def)
  have "pntoh32 d 1 = Some ver"
    unfolding d5 by (rule be32.get_at_exact) simp_all
  then have ver: "QUICExtractVersion d (length d) = Some ver" by (simp add: QUICExtractVersion_def lh)
  have u: "unat (of_nat (length dcid) :: u8) = length dcid" using cid by (simp add: unat_of_nat)
  have n5: "rd d 5 = Some (of_nat (length dcid))" by (simp add: d5 rd_def)
  have nz: "(of_nat (length dcid) :: u8) \<noteq> 0" "\<not> (of_nat (length dcid) :: u8) > QUIC_MAX_CID_LENGTH"
    using cid u by (auto simp: QUIC_MAX_CID_LENGTH_def word_less_nat_alt word_unat_eq_iff)
  have r6: "rd_block d 6 (length dcid) = Some dcid"
    by (simp add: rd_block_def d5 t_def)
  have "\<not> 6 + length dcid > length d" by (simp add: d5 t_def)
  then have dcid: "QUICExtractDCID d (length d) = Some (Some dcid)"
    using lh n5 nz u r6 by (simp add: QUICExtractDCID_def)
  have pnoff: "quic_pn_offset d (length d) = Some (Some (length head, plen))"
    using pn_offset_head[OF head(2,3) _ cid(3) plen(2) lb dd] cid by (simp add: head(1))
  show ?thesis
    using quic_open_packet[OF cr(1,3) iv hs(1) head(4) pn plen room gcm d]
    by (simp add: QUICDecryptInitial_def ver dcid pnoff cr(2) head(6))
qed

subsection \<open>Properties\<close>

text \<open>C12: QUICDecryptInitial undoes the protection of an Initial packet: it finds the packet number behind a header with
  any connection ids and token, removes the header protection, and decrypts with the restored header and the nonce
  of the packet number. The result is what the AEAD gives for them, and its success is the comparison of the tags.\<close>

theorem QUICDecryptInitial_unprotects:
  assumes "crypto_sizes cr" and "quic_initial_keys cr dcid ver = Some (key, iv, hp)" and "aes_setkey cr hp = Some cipher"
    and "head = quic_head b0 ver dcid scid wt tok wl plen" and "varint_ok wt (length tok)" and "varint_ok wl plen"
    and "length head + length pn \<le> 2048" and "b0 AND 0x80 \<noteq> 0" and "ver \<noteq> 0"
    and "0 < length dcid" and "length dcid \<le> 20" and "length scid < 256"
    and "0 < length pn" and "length pn \<le> 4" and "unat (b0 AND 3) + 1 = length pn"
    and "plen = length pn + length ct + 16" and "20 \<le> plen" and "length tag = 16"
    and "length ct \<le> clean_len" and "clean_len \<le> length clean"
    and "gcm_decrypt cr key (quic_nonce iv pn) (head @ pn) ct = Some (plain, tag')"
    and "d = quic_packet cipher head pn (ct @ tag @ rest)"
  shows "QUICDecryptInitial cr d (length d) clean clean_len = Some (tag = tag', plain @ drop (length plain) clean, length ct)"
  by (rule QUICDecryptInitial_packet[OF assms])

lemma null_keys: "quic_initial_keys null_crypto dcid ver = Some (replicate 16 0, replicate 12 0, replicate 16 0)"
  by (simp add: quic_initial_keys_def quic_derive_initial_secret_def quic_hkdf_expand_label_def null_crypto_def Let_def)

lemma QUICDecryptInitial_unprotects_witness:
  "\<exists>d. QUICDecryptInitial null_crypto d (length d) (replicate 5 0) 5 = Some (True, [7, 8, 9, 0, 0], 3)"
proof -
  have c: "aes_setkey null_crypto (replicate 16 0) = Some (\<lambda>b. b)" by (simp add: null_crypto_def)
  have g: "gcm_decrypt null_crypto (replicate 16 0) n h [7, 8, 9] = Some ([7, 8, 9], replicate 16 0)" for n h
    by (simp add: null_crypto_def)
  have v: "varint_ok 0 (length ([] :: bytes))" "varint_ok 0 20" by (simp_all add: varint_ok_def)
  have l: "length (quic_head 0xC0 1 [5] [] 0 [] 0 20) = 10" by (simp add: quic_head_def varint_def)
  have b: "(0xC0 AND 0x80 :: u8) \<noteq> 0" "unat (0xC0 AND 3 :: u8) = 0" by simp_all
  have "QUICDecryptInitial null_crypto (quic_packet (\<lambda>b. b) (quic_head 0xC0 1 [5] [] 0 [] 0 20) [0] ([7, 8, 9] @ replicate 16 0 @ []))
      (length (quic_packet (\<lambda>b. b) (quic_head 0xC0 1 [5] [] 0 [] 0 20) [0] ([7, 8, 9] @ replicate 16 0 @ []))) (replicate 5 0) 5
      = Some (replicate 16 0 = (replicate 16 0 :: bytes), [7, 8, 9] @ drop (length ([7, 8, 9] :: bytes)) (replicate 5 0), length ([7, 8, 9] :: bytes))"
    by (rule QUICDecryptInitial_unprotects[OF null_crypto_sizes null_keys c refl v _ b(1) _ _ _ _ _ _ _ _ _ _ _ _ g refl])
       (use l b(2) in simp_all)
  then show ?thesis by (intro exI) (simp add: numeral_eq_Suc)
qed

end
