(* ===== verification/Probe.thy ===== *)
theory Probe
  imports Conntrack Quic Http
begin

text \<open>
  The protocol probes of src/nfq2/desync.c: \<open>protocol_probe\<close> tries the recognisers of a table in order, and the
  packet handlers call it with one table per transport and direction. A recogniser is a function of the payload
  buffer and its length; the one for MTProto has the AES key schedule as a parameter.
\<close>

record protocol_probe_entry =
  pb_l7p :: t_l7payload
  pb_l7 :: t_l7proto
  pb_check :: "bytes \<Rightarrow> nat \<Rightarrow> bool option"
  pb_l7match :: bool

abbreviation probe_entry :: "t_l7payload \<Rightarrow> t_l7proto \<Rightarrow> (bytes \<Rightarrow> nat \<Rightarrow> bool option) \<Rightarrow> bool \<Rightarrow> protocol_probe_entry" where
  "probe_entry p l c m \<equiv> \<lparr>pb_l7p = p, pb_l7 = l, pb_check = c, pb_l7match = m\<rparr>"

text \<open>What the call leaves in the track, in \<open>*l7proto\<close> and in \<open>*l7payload\<close>; \<open>dis\<close> is \<open>params.payload_disable\<close>.\<close>

type_synonym probe_result = "ctrack option \<times> t_l7proto \<times> t_l7payload"

definition probe_hit :: "protocol_probe_entry \<Rightarrow> probe_result \<Rightarrow> probe_result" where
  "probe_hit pb = (\<lambda>(t, l7, l7p).
     if l7 = L7_UNKNOWN then
       (case t of None \<Rightarrow> None
        | Some t \<Rightarrow> Some (if l7proto t = L7_UNKNOWN then t\<lparr>l7proto := pb_l7 pb\<rparr> else t), pb_l7 pb, pb_l7p pb)
     else (t, l7, pb_l7p pb))"

fun protocol_probe :: "u64 \<Rightarrow> protocol_probe_entry list \<Rightarrow> bytes \<Rightarrow> nat \<Rightarrow> probe_result \<Rightarrow> probe_result option" where
  "protocol_probe dis [] d len (t, l7, l7p) = Some (t, l7, l7p)"
| "protocol_probe dis (pb # pbs) d len (t, l7, l7p) = do {
     hit \<leftarrow> cand (Some (\<not> l7_payload_match (pb_l7p pb) dis \<and> (pb_l7match pb \<longrightarrow> l7 = pb_l7 pb))) (pb_check pb d len);
     if hit then Some (probe_hit pb (t, l7, l7p)) else protocol_probe dis pbs d len (t, l7, l7p) }"

definition udp_testers :: "protocol_probe_entry list" where
  "udp_testers =
     [probe_entry L7P_QUIC_INITIAL L7_QUIC IsQUICInitial False,
      probe_entry L7P_DISCORD_IP_DISCOVERY L7_DISCORD IsDiscordIpDiscoveryRequest False,
      probe_entry L7P_STUN L7_STUN IsStunMessage False,
      probe_entry L7P_DNS_QUERY L7_DNS IsDNSQuery False,
      probe_entry L7P_DNS_RESPONSE L7_DNS IsDNSResponse False,
      probe_entry L7P_DHT L7_DHT IsDht False,
      probe_entry L7P_DTLS_CLIENT_HELLO L7_DTLS IsDTLSClientHello False,
      probe_entry L7P_DTLS_SERVER_HELLO L7_DTLS IsDTLSServerHello False,
      probe_entry L7P_UTP_BT_HANDSHAKE L7_UTP_BT IsUTP_BTHandshake False,
      probe_entry L7P_WIREGUARD_INITIATION L7_WIREGUARD IsWireguardHandshakeInitiation False,
      probe_entry L7P_WIREGUARD_RESPONSE L7_WIREGUARD IsWireguardHandshakeResponse False,
      probe_entry L7P_WIREGUARD_COOKIE L7_WIREGUARD IsWireguardHandshakeCookie False,
      probe_entry L7P_WIREGUARD_KEEPALIVE L7_WIREGUARD IsWireguardKeepalive False,
      probe_entry L7P_WIREGUARD_DATA L7_WIREGUARD IsWireguardData True]"

definition udp_standard_protocol_probe :: "u64 \<Rightarrow> bytes \<Rightarrow> nat \<Rightarrow> probe_result \<Rightarrow> probe_result option" where
  "udp_standard_protocol_probe dis d len r = protocol_probe dis udp_testers d len r"

definition tcp_reverse_testers :: "protocol_probe_entry list" where
  "tcp_reverse_testers =
     [probe_entry L7P_TLS_SERVER_HELLO L7_TLS IsTLSServerHelloPartial False,
      probe_entry L7P_HTTP_REPLY L7_HTTP IsHttpReply False,
      probe_entry L7P_XMPP_STREAM L7_XMPP IsXMPPStream False,
      probe_entry L7P_XMPP_PROCEED L7_XMPP IsXMPPProceedTLS False,
      probe_entry L7P_XMPP_FEATURES L7_XMPP IsXMPPFeatures False,
      probe_entry L7P_BT_HANDSHAKE L7_BT IsBTHandshake False]"

definition tcp_client_testers :: "protocol_probe_entry list" where
  "tcp_client_testers =
     [probe_entry L7P_TLS_CLIENT_HELLO L7_TLS IsTLSClientHelloPartial False,
      probe_entry L7P_HTTP_REQ L7_HTTP IsHttp False,
      probe_entry L7P_XMPP_STREAM L7_XMPP IsXMPPStream False,
      probe_entry L7P_XMPP_STARTTLS L7_XMPP IsXMPPStartTLS False,
      probe_entry L7P_BT_HANDSHAKE L7_BT IsBTHandshake False]"

definition mtproto_testers :: "(bytes \<Rightarrow> (bytes \<Rightarrow> bytes) option) \<Rightarrow> protocol_probe_entry list" where
  "mtproto_testers setkey = [probe_entry L7P_MTPROTO_INITIAL L7_MTPROTO (IsMTProto setkey) False]"

text \<open>
  The probes of a client payload over TCP: MTProto is tried when nothing else matched and the payload is the first
  one of the stream. \<open>tpos\<close> are the positions of the packet, if there are any.
\<close>

definition tcp_client_probe ::
  "(bytes \<Rightarrow> (bytes \<Rightarrow> bytes) option) \<Rightarrow> u64 \<Rightarrow> ctrack_positions option \<Rightarrow> bytes \<Rightarrow> nat \<Rightarrow> probe_result \<Rightarrow> probe_result option" where
  "tcp_client_probe setkey dis tpos d len r = do {
     (t, l7, l7p) \<leftarrow> protocol_probe dis tcp_client_testers d len r;
     if l7p = L7P_UNKNOWN \<and>
       (case tpos of None \<Rightarrow> False | Some tp \<Rightarrow> seq_last (client tp) - seq0 (client tp) = 1)
     then protocol_probe dis (mtproto_testers setkey) d len (t, l7, l7p)
     else Some (t, l7, l7p) }"

subsection \<open>The first matching entry decides\<close>

definition probe_matches :: "u64 \<Rightarrow> t_l7proto \<Rightarrow> bytes \<Rightarrow> nat \<Rightarrow> protocol_probe_entry \<Rightarrow> bool" where
  "probe_matches dis l7 d len pb \<longleftrightarrow>
     \<not> l7_payload_match (pb_l7p pb) dis \<and> (pb_l7match pb \<longrightarrow> l7 = pb_l7 pb) \<and> pb_check pb d len = Some True"

definition probes_safe :: "protocol_probe_entry list \<Rightarrow> bytes \<Rightarrow> nat \<Rightarrow> bool" where
  "probes_safe pbs d len \<longleftrightarrow> (\<forall>pb\<in>set pbs. pb_check pb d len \<noteq> None)"

lemma protocol_probe_find:
  "probes_safe pbs d len \<Longrightarrow> protocol_probe dis pbs d len (t, l7, l7p) =
     Some (case List.find (probe_matches dis l7 d len) pbs of None \<Rightarrow> (t, l7, l7p) | Some pb \<Rightarrow> probe_hit pb (t, l7, l7p))"
  by (induction pbs) (auto simp: probes_safe_def probe_matches_def)

text \<open>The hypothesis on the key schedule: what it returns works on blocks of 16 bytes.\<close>

definition block16 :: "(bytes \<Rightarrow> (bytes \<Rightarrow> bytes) option) \<Rightarrow> bool" where
  "block16 setkey \<longleftrightarrow> (\<forall>k cipher b. setkey k = Some cipher \<longrightarrow> length b = 16 \<longrightarrow> length (cipher b) = 16)"

lemma IsMTProto_safe:
  assumes "block16 setkey"
    and "len \<le> length d"
  shows "IsMTProto setkey d len \<noteq> None"
proof (cases "64 \<le> len")
  case True
  show ?thesis
  proof (cases "setkey (take 32 (drop 8 d))")
    case None
    with True assms(2) ctr_add_counter[of "take 16 (drop 40 d)" 3] show ?thesis by (simp add: IsMTProto_def)
  next
    case (Some cipher)
    show ?thesis
      by (subst IsMTProto_block[where cipher = cipher]) (use assms True Some in \<open>auto simp: block16_def\<close>)
  qed
qed (simp add: IsMTProto_def)

lemma testers_safe:
  assumes "len \<le> length d"
  shows "probes_safe udp_testers d len" "probes_safe tcp_reverse_testers d len" "probes_safe tcp_client_testers d len"
  using xmpp_wp[OF assms, THEN returns_defined] dns_wp[OF assms, THEN returns_defined]
    wireguard_wp[OF assms, THEN returns_defined] udp_wp[OF assms, THEN returns_defined]
    IsQUICInitial_wp[OF assms, THEN returns_defined] IsHttp_wp[OF assms, THEN returns_defined]
    IsHttpReply_wp[OF assms, THEN returns_defined] IsTLSHello_wp[OF assms, THEN returns_defined]
  by (simp_all add: probes_safe_def udp_testers_def tcp_reverse_testers_def tcp_client_testers_def
    IsTLSServerHelloPartial_def IsTLSClientHelloPartial_def IsTLSServerHello_def IsTLSClientHello_def)

lemmas udp_probe_find = protocol_probe_find[OF testers_safe(1), folded udp_standard_protocol_probe_def]

lemma find_first: "List.find P xs = Some x \<Longrightarrow> \<exists>i<length xs. xs ! i = x \<and> P x \<and> (\<forall>j<i. \<not> P (xs ! j))"
  unfolding find_Some_iff by blast

subsection \<open>Properties\<close>

text \<open>Probing a UDP payload meets no memory fault and is decided by the first enabled recogniser of the table that
  accepts it, in the order of the table: its payload type is reported, an unknown protocol becomes that entry's, in the
  track too, and a known protocol is never changed. If none accepts, nothing changes. A WireGuard data packet is seen
  as such only inside a WireGuard connection.\<close>

theorem udp_probe_first_match:
  assumes "len \<le> length d"
  shows "\<exists>t' l7' l7p'. udp_standard_protocol_probe dis d len (t, l7, l7p) = Some (t', l7', l7p')
    \<and> (l7 \<noteq> L7_UNKNOWN \<longrightarrow> l7' = l7 \<and> t' = t)
    \<and> (\<forall>tk. t = Some tk \<longrightarrow> (\<exists>tk'. t' = Some tk' \<and> tk'\<lparr>l7proto := l7proto tk\<rparr> = tk
          \<and> (l7proto tk \<noteq> L7_UNKNOWN \<longrightarrow> tk' = tk)))
    \<and> ((t', l7', l7p') = (t, l7, l7p) \<and> (\<forall>pb\<in>set udp_testers. \<not> probe_matches dis l7 d len pb)
       \<or> (\<exists>i<length udp_testers. pb_check (udp_testers ! i) d len = Some True
            \<and> \<not> l7_payload_match (pb_l7p (udp_testers ! i)) dis
            \<and> (\<forall>j<i. \<not> probe_matches dis l7 d len (udp_testers ! j))
            \<and> l7p' = pb_l7p (udp_testers ! i) \<and> (l7 = L7_UNKNOWN \<longrightarrow> l7' = pb_l7 (udp_testers ! i))
            \<and> (l7p' = L7P_WIREGUARD_DATA \<longrightarrow> l7 = L7_WIREGUARD)))"
proof (cases "List.find (probe_matches dis l7 d len) udp_testers")
  case None
  then have "\<forall>pb\<in>set udp_testers. \<not> probe_matches dis l7 d len pb" by (simp add: find_None_iff)
  with None show ?thesis using udp_probe_find[OF assms, of dis t l7 l7p] by simp
next
  case (Some pb)
  from find_first[OF this] obtain i where i: "i < length udp_testers" "udp_testers ! i = pb" "probe_matches dis l7 d len pb"
    "\<forall>j<i. \<not> probe_matches dis l7 d len (udp_testers ! j)" by blast
  have wg: "pb_l7p pb = L7P_WIREGUARD_DATA \<Longrightarrow> pb_l7match pb \<and> pb_l7 pb = L7_WIREGUARD"
    using nth_mem[OF i(1)] i(2) by (auto simp: udp_testers_def)
  obtain t' l7' l7p' where h: "probe_hit pb (t, l7, l7p) = (t', l7', l7p')" by (cases "probe_hit pb (t, l7, l7p)")
  have r: "udp_standard_protocol_probe dis d len (t, l7, l7p) = Some (t', l7', l7p')"
    using udp_probe_find[OF assms, of dis t l7 l7p] Some h by simp
  from i(3) have m: "pb_check pb d len = Some True" "\<not> l7_payload_match (pb_l7p pb) dis" "pb_l7match pb \<longrightarrow> l7 = pb_l7 pb"
    by (simp_all add: probe_matches_def)
  have "(l7 \<noteq> L7_UNKNOWN \<longrightarrow> l7' = l7 \<and> t' = t)
    \<and> (\<forall>tk. t = Some tk \<longrightarrow> (\<exists>tk'. t' = Some tk' \<and> tk'\<lparr>l7proto := l7proto tk\<rparr> = tk
          \<and> (l7proto tk \<noteq> L7_UNKNOWN \<longrightarrow> tk' = tk)))
    \<and> l7p' = pb_l7p pb \<and> (l7 = L7_UNKNOWN \<longrightarrow> l7' = pb_l7 pb)"
    using h by (cases "l7 = L7_UNKNOWN"; cases t) (auto simp: probe_hit_def)
  note c = this
  show ?thesis
  proof (intro exI conjI)
    show "udp_standard_protocol_probe dis d len (t, l7, l7p) = Some (t', l7', l7p')" by (rule r)
    show "(t', l7', l7p') = (t, l7, l7p) \<and> (\<forall>pb\<in>set udp_testers. \<not> probe_matches dis l7 d len pb) \<or>
       (\<exists>i<length udp_testers. pb_check (udp_testers ! i) d len = Some True
            \<and> \<not> l7_payload_match (pb_l7p (udp_testers ! i)) dis
            \<and> (\<forall>j<i. \<not> probe_matches dis l7 d len (udp_testers ! j))
            \<and> l7p' = pb_l7p (udp_testers ! i) \<and> (l7 = L7_UNKNOWN \<longrightarrow> l7' = pb_l7 (udp_testers ! i))
            \<and> (l7p' = L7P_WIREGUARD_DATA \<longrightarrow> l7 = L7_WIREGUARD))"
      using c i m wg by (intro disjI2 exI[of _ i]) simp
  qed (use c in \<open>simp_all\<close>)
qed

lemma udp_probe_first_match_witness:
  "\<exists>r. udp_standard_protocol_probe 4 (replicate 32 0) 32 (None, L7_UNKNOWN, L7P_UNKNOWN) = Some r"
  using udp_probe_first_match[of 32 "replicate 32 0" 4 None L7_UNKNOWN L7P_UNKNOWN] by auto

text \<open>Probing a client payload over TCP meets no memory fault either, given a block cipher on 16 byte blocks. MTProto is
  reported only for the first payload of a stream that no other recogniser takes.\<close>

theorem tcp_client_probe_safe:
  assumes "block16 setkey" and "len \<le> length d"
  shows "\<exists>t' l7' l7p'. tcp_client_probe setkey dis tpos d len (t, l7, L7P_UNKNOWN) = Some (t', l7', l7p')
    \<and> (l7 \<noteq> L7_UNKNOWN \<longrightarrow> l7' = l7 \<and> t' = t)
    \<and> (l7p' = L7P_MTPROTO_INITIAL \<longrightarrow>
        IsMTProto setkey d len = Some True
        \<and> (\<forall>pb\<in>set tcp_client_testers. \<not> probe_matches dis l7 d len pb)
        \<and> (\<exists>tp. tpos = Some tp \<and> seq_last (client tp) - seq0 (client tp) = 1))"
proof -
  have ms: "probes_safe (mtproto_testers setkey) d len"
    using IsMTProto_safe[OF assms] by (simp add: probes_safe_def mtproto_testers_def)
  note p = protocol_probe_find[OF testers_safe(3)[OF assms(2)]] and q = protocol_probe_find[OF ms]
  show ?thesis
  proof (cases "List.find (probe_matches dis l7 d len) tcp_client_testers")
    case None
    then have n: "\<forall>pb\<in>set tcp_client_testers. \<not> probe_matches dis l7 d len pb" by (simp add: find_None_iff)
    obtain b where "IsMTProto setkey d len = Some b" using IsMTProto_safe[OF assms] by blast
    with None show ?thesis
      by (auto simp: tcp_client_probe_def p q mtproto_testers_def probe_matches_def probe_hit_def n[unfolded probe_matches_def]
          split: option.splits)
  next
    case (Some pb)
    from find_first[OF this] have "pb \<in> set tcp_client_testers" by (metis nth_mem)
    then have "pb_l7p pb \<noteq> L7P_UNKNOWN" "pb_l7p pb \<noteq> L7P_MTPROTO_INITIAL" by (auto simp: tcp_client_testers_def)
    with Some show ?thesis by (auto simp: tcp_client_probe_def p probe_hit_def)
  qed
qed

lemma tcp_client_probe_safe_witness:
  "\<exists>r. tcp_client_probe (\<lambda>k. Some rev) 4 None (replicate 70 7) 70 (None, L7_UNKNOWN, L7P_UNKNOWN) = Some r"
  using tcp_client_probe_safe[of "\<lambda>k. Some rev" 70 "replicate 70 7" 4 None None L7_UNKNOWN] by (auto simp: block16_def)

end
