(* ===== verification/Ipcache.thy ===== *)
theory Ipcache
  imports Conntrack
begin

text \<open>
  The cache of what is known about an address (src/nfq2/pools.c 972-1202) and its users in src/nfq2/desync.c: the
  host name that a connection or a DNS answer gave for it, and the TTL of what comes from it on an interface. The
  functions for IPv4 and IPv6 are the same text over keys of different length; they are modelled once, over a table.
  An interface name is copied into \<open>char[IFNAMSIZ]\<close>, so a key holds its first 15 characters. \<open>alloc\<close> tells
  whether the allocations succeed, \<open>now\<close> is the clock.
\<close>

record ip_cache_item =
  ic_last :: int
  ic_hostname :: "bytes option"
  ic_hostname_is_ip :: bool
  ic_ttl :: u8

type_synonym ipif = "bytes \<times> bytes"
type_synonym ipcacheN = "(ipif, ip_cache_item) table"

record ip_cache =
  ipcache4 :: ipcacheN
  ipcache6 :: ipcacheN

definition ipcacheKey :: "bytes \<Rightarrow> bytes option \<Rightarrow> ipif" where
  "ipcacheKey a iface = (case iface of None \<Rightarrow> ([], a) | Some s \<Rightarrow> (take 15 s, a))"

definition ipcache_item_touch :: "int \<Rightarrow> ip_cache_item \<Rightarrow> ip_cache_item" where
  "ipcache_item_touch now i = i\<lparr>ic_last := now\<rparr>"

definition ipcache_item_init :: "int \<Rightarrow> ip_cache_item" where
  "ipcache_item_init now = \<lparr>ic_last = now, ic_hostname = None, ic_hostname_is_ip = False, ic_ttl = 0\<rparr>"

definition ipcacheNFind :: "ipcacheN \<Rightarrow> bytes \<Rightarrow> bytes option \<Rightarrow> ip_cache_item option" where
  "ipcacheNFind t a iface = hash_find t (ipcacheKey a iface)"

text \<open>The table, and the entry if there is one now.\<close>

definition ipcacheNAdd :: "bool \<Rightarrow> int \<Rightarrow> ipcacheN \<Rightarrow> bytes \<Rightarrow> bytes option \<Rightarrow> ipcacheN \<times> ip_cache_item option" where
  "ipcacheNAdd alloc now t a iface =
     (case ipcacheNFind t a iface of
        Some i \<Rightarrow> (t, Some i)
      | None \<Rightarrow> if \<not> alloc then (t, None)
                else (hash_add t (ipcacheKey a iface) (ipcache_item_init now), Some (ipcache_item_init now)))"

definition ipcacheFind :: "ip_cache \<Rightarrow> bytes option \<Rightarrow> bytes option \<Rightarrow> bytes option \<Rightarrow> ip_cache_item option" where
  "ipcacheFind c a4 a6 iface =
     (case a4 of Some a \<Rightarrow> ipcacheNFind (ipcache4 c) a iface
      | None \<Rightarrow> (case a6 of Some a \<Rightarrow> ipcacheNFind (ipcache6 c) a iface | None \<Rightarrow> None))"

text \<open>A write through the pointer that \<open>ipcacheFind\<close> or \<open>ipcacheTouch\<close> returned for the same arguments.\<close>

definition ipcache_store :: "ip_cache \<Rightarrow> bytes option \<Rightarrow> bytes option \<Rightarrow> bytes option \<Rightarrow> ip_cache_item \<Rightarrow> ip_cache" where
  "ipcache_store c a4 a6 iface i =
     (case a4 of Some a \<Rightarrow> c\<lparr>ipcache4 := hash_set (ipcache4 c) (ipcacheKey a iface) i\<rparr>
      | None \<Rightarrow> (case a6 of Some a \<Rightarrow> c\<lparr>ipcache6 := hash_set (ipcache6 c) (ipcacheKey a iface) i\<rparr> | None \<Rightarrow> c))"

definition ipcacheTouch ::
  "bool \<Rightarrow> int \<Rightarrow> ip_cache \<Rightarrow> bytes option \<Rightarrow> bytes option \<Rightarrow> bytes option \<Rightarrow> ip_cache \<times> ip_cache_item option" where
  "ipcacheTouch alloc now c a4 a6 iface =
     (case a4 of
        Some a \<Rightarrow>
          (case ipcacheNAdd alloc now (ipcache4 c) a iface of
             (t, Some i) \<Rightarrow> let i = ipcache_item_touch now i
                            in (ipcache_store (c\<lparr>ipcache4 := t\<rparr>) a4 a6 iface i, Some i)
           | (t, None) \<Rightarrow> (c\<lparr>ipcache4 := t\<rparr>, None))
      | None \<Rightarrow>
          (case a6 of
             Some a \<Rightarrow>
               (case ipcacheNAdd alloc now (ipcache6 c) a iface of
                  (t, Some i) \<Rightarrow> let i = ipcache_item_touch now i
                                 in (ipcache_store (c\<lparr>ipcache6 := t\<rparr>) a4 a6 iface i, Some i)
                | (t, None) \<Rightarrow> (c\<lparr>ipcache6 := t\<rparr>, None))
           | None \<Rightarrow> (c, None)))"

text \<open>\<open>HASH_ITER\<close> visits the elements the table had at the start and deletes the expired ones.\<close>

fun ipcacheN_purge_iter :: "int \<Rightarrow> int \<Rightarrow> (ipif \<times> ip_cache_item) list \<Rightarrow> ipcacheN \<Rightarrow> ipcacheN" where
  "ipcacheN_purge_iter now lifetime [] t = t"
| "ipcacheN_purge_iter now lifetime ((k, i) # es) t =
     ipcacheN_purge_iter now lifetime es (if now \<ge> ic_last i + lifetime then hash_del t k else t)"

definition ipcacheN_purge :: "int \<Rightarrow> int \<Rightarrow> ipcacheN \<Rightarrow> ipcacheN" where
  "ipcacheN_purge now lifetime t = ipcacheN_purge_iter now lifetime t t"

definition ipcache_purge :: "int \<Rightarrow> ip_cache \<Rightarrow> int \<Rightarrow> ip_cache" where
  "ipcache_purge now c lifetime =
     (if lifetime \<noteq> 0 then
        \<lparr>ipcache4 = ipcacheN_purge now lifetime (ipcache4 c), ipcache6 = ipcacheN_purge now lifetime (ipcache6 c)\<rparr>
      else c)"

text \<open>\<open>prev\<close> is the static \<open>ipcache_purge_prev\<close>.\<close>

definition ipcachePurgeRateLimited :: "int \<Rightarrow> int \<Rightarrow> ip_cache \<Rightarrow> int \<Rightarrow> ip_cache \<times> int" where
  "ipcachePurgeRateLimited now prev c lifetime =
     (if prev \<noteq> now then (ipcache_purge now c lifetime, now) else (c, prev))"

definition ipcacheDestroy :: "ip_cache \<Rightarrow> ip_cache" where
  "ipcacheDestroy c = \<lparr>ipcache4 = [], ipcache6 = []\<rparr>"

subsection \<open>The users in desync.c\<close>

text \<open>\<open>en\<close> is \<open>params.cache_hostname\<close>. The name is replaced only when it differs; when its copy cannot be
  allocated the entry is left without a name.\<close>

definition ipcache_put_hostname ::
  "bool \<Rightarrow> bool \<Rightarrow> bool \<Rightarrow> int \<Rightarrow> ip_cache \<Rightarrow> bytes option \<Rightarrow> bytes option \<Rightarrow> bytes \<Rightarrow> bool \<Rightarrow> bool \<times> ip_cache" where
  "ipcache_put_hostname en alloc strdup_ok now c a4 a6 h is_ip =
     (if \<not> en then (True, c)
      else (case ipcacheTouch alloc now c a4 a6 None of
          (c, None) \<Rightarrow> (False, c)
        | (c, Some i) \<Rightarrow>
            if ic_hostname i \<noteq> Some h then
              (if strdup_ok
               then (True, ipcache_store c a4 a6 None (i\<lparr>ic_hostname := Some h, ic_hostname_is_ip := is_ip\<rparr>))
               else (False, ipcache_store c a4 a6 None (i\<lparr>ic_hostname := None\<rparr>)))
            else (True, c)))"

text \<open>Result, content of the buffer of \<open>n\<close> bytes, and what is stored through \<open>hostname_is_ip\<close>, if anything is.\<close>

definition ipcache_get_hostname ::
  "bool \<Rightarrow> ip_cache \<Rightarrow> bytes option \<Rightarrow> bytes option \<Rightarrow> nat \<Rightarrow> bool \<times> bytes \<times> bool option" where
  "ipcache_get_hostname en c a4 a6 n =
     (if \<not> en then (False, [], None)
      else (case ipcacheFind c a4 a6 None of
          Some i \<Rightarrow> (case ic_hostname i of
              Some h \<Rightarrow> (take (n - 1) h \<noteq> [], take (n - 1) h, Some (ic_hostname_is_ip i))
            | None \<Rightarrow> (False, [], None))
        | None \<Rightarrow> (False, [], None)))"

definition ipcache_update_ttl ::
  "bool \<Rightarrow> bool \<Rightarrow> int \<Rightarrow> ip_cache \<Rightarrow> ctrack option \<Rightarrow> bytes option \<Rightarrow> bytes option \<Rightarrow> bytes option \<Rightarrow> ip_cache \<times> ctrack option" where
  "ipcache_update_ttl server_mode alloc now c t a4 a6 iface =
     (case t of None \<Rightarrow> (c, None)
      | Some tr \<Rightarrow>
          if server_mode then (c, t)
          else if incoming_ttl tr \<noteq> 0 then
            (case ipcacheTouch alloc now c a4 a6 iface of
               (c, None) \<Rightarrow> (c, t)
             | (c, Some i) \<Rightarrow>
                 (if ic_ttl i \<noteq> incoming_ttl tr
                  then ipcache_store c a4 a6 iface (i\<lparr>ic_ttl := incoming_ttl tr\<rparr>) else c, t))
          else (case ipcacheFind c a4 a6 iface of
               None \<Rightarrow> (c, t)
             | Some i \<Rightarrow> (c, if ic_ttl i \<noteq> 0 then Some (tr\<lparr>incoming_ttl := ic_ttl i\<rparr>) else t)))"

definition ipcache_get_ttl ::
  "bool \<Rightarrow> ip_cache \<Rightarrow> ctrack option \<Rightarrow> bytes option \<Rightarrow> bytes option \<Rightarrow> bytes option \<Rightarrow> ctrack option" where
  "ipcache_get_ttl server_mode c t a4 a6 iface =
     (case t of None \<Rightarrow> None
      | Some tr \<Rightarrow>
          if incoming_ttl tr = 0 \<and> \<not> server_mode then
            (case ipcacheFind c a4 a6 iface of
               None \<Rightarrow> t
             | Some i \<Rightarrow> if ic_ttl i \<noteq> 0 then Some (tr\<lparr>incoming_ttl := ic_ttl i\<rparr>) else t)
          else t)"

subsection \<open>The cache as a map of addresses\<close>

definition ip_cache_ok :: "ip_cache \<Rightarrow> bool" where
  "ip_cache_ok c \<longleftrightarrow> table_ok (ipcache4 c) \<and> table_ok (ipcache6 c)"

text \<open>The entry two addresses share: the IPv4 address hides the IPv6 one, and the interface is cut.\<close>

definition ip_ref :: "bytes option \<Rightarrow> bytes option \<Rightarrow> bytes option \<Rightarrow> (bool \<times> ipif) option" where
  "ip_ref a4 a6 iface = (case a4 of Some a \<Rightarrow> Some (False, ipcacheKey a iface)
     | None \<Rightarrow> (case a6 of Some a \<Rightarrow> Some (True, ipcacheKey a iface) | None \<Rightarrow> None))"

lemma ipcacheFind_store:
  "ipcacheFind c a4 a6 iface \<noteq> None \<Longrightarrow>
   ipcacheFind (ipcache_store c a4 a6 iface i) b4 b6 iface' =
     (if ip_ref b4 b6 iface' = ip_ref a4 a6 iface then Some i else ipcacheFind c b4 b6 iface')"
  by (auto simp: ipcacheFind_def ipcache_store_def ipcacheNFind_def ip_ref_def find_hash_set split: option.splits)

lemma ipcache_store_ok [simp]: "ip_cache_ok (ipcache_store c a4 a6 iface i) = ip_cache_ok c"
  by (auto simp: ip_cache_ok_def ipcache_store_def table_ok_set split: option.splits)

lemma ipcacheFind_none: "ipcacheFind c None None iface = None"
  by (simp add: ipcacheFind_def)

lemma ipcacheNAdd_spec:
  assumes "ipcacheNAdd alloc now t a iface = (t', r)"
  shows "table_ok t \<Longrightarrow> table_ok t'" and "r = None \<Longrightarrow> t' = t"
    and "r = Some i \<Longrightarrow> i = (case hash_find t (ipcacheKey a iface) of Some j \<Rightarrow> j | None \<Rightarrow> ipcache_item_init now)"
    and "r = Some i \<Longrightarrow> hash_find t' k = (if k = ipcacheKey a iface then Some i else hash_find t k)"
  using assms by (auto simp: ipcacheNAdd_def ipcacheNFind_def hash.add_good find_hash_add split: option.splits if_splits)

text \<open>What a touch returns is what a lookup finds afterwards, and no other entry changes.\<close>

lemma ipcacheTouch_spec:
  assumes "ipcacheTouch alloc now c a4 a6 iface = (c', r)"
  shows "ip_cache_ok c \<Longrightarrow> ip_cache_ok c'" and "r = None \<Longrightarrow> c' = c"
    and "r = Some i \<Longrightarrow>
          i = (case ipcacheFind c a4 a6 iface of Some j \<Rightarrow> j | None \<Rightarrow> ipcache_item_init now)\<lparr>ic_last := now\<rparr>
          \<and> ip_ref a4 a6 iface \<noteq> None"
    and "r = Some i \<Longrightarrow> ipcacheFind c' b4 b6 iface' =
          (if ip_ref b4 b6 iface' = ip_ref a4 a6 iface then Some i else ipcacheFind c b4 b6 iface')"
proof -
  have "(ip_cache_ok c \<longrightarrow> ip_cache_ok c') \<and> (r = None \<longrightarrow> c' = c) \<and> (r = Some i \<longrightarrow>
          i = (case ipcacheFind c a4 a6 iface of Some j \<Rightarrow> j | None \<Rightarrow> ipcache_item_init now)\<lparr>ic_last := now\<rparr>
          \<and> ip_ref a4 a6 iface \<noteq> None \<and> ipcacheFind c' b4 b6 iface' =
          (if ip_ref b4 b6 iface' = ip_ref a4 a6 iface then Some i else ipcacheFind c b4 b6 iface'))"
  proof (cases a4)
    case (Some a)
    obtain t q where q: "ipcacheNAdd alloc now (ipcache4 c) a iface = (t, q)" by fastforce
    note sp = ipcacheNAdd_spec[OF q]
    show ?thesis
    proof (cases q)
      case None
      with assms Some q sp(2) show ?thesis by (auto simp: ipcacheTouch_def)
    next
      case (Some j)
      note s4 = sp(4)[OF Some] and s3 = sp(3)[OF Some]
      from s4[of "ipcacheKey a iface"] have f: "ipcacheFind (c\<lparr>ipcache4 := t\<rparr>) a4 a6 iface \<noteq> None"
        by (simp add: ipcacheFind_def ipcacheNFind_def \<open>a4 = Some a\<close>)
      show ?thesis using assms \<open>a4 = Some a\<close> q Some sp(1) s3
        by (auto simp: ipcacheTouch_def ipcacheFind_store[OF f[unfolded \<open>a4 = Some a\<close>]] ip_ref_def s4 ipcacheFind_def ipcacheNFind_def
            ipcache_item_touch_def ip_cache_ok_def table_ok_set ipcache_store_def find_hash_set Let_def split: option.splits)
    qed
  next
    case None
    note n4 = None
    show ?thesis
    proof (cases a6)
      case None
      with assms n4 show ?thesis by (auto simp: ipcacheTouch_def)
    next
      case (Some a)
      obtain t q where q: "ipcacheNAdd alloc now (ipcache6 c) a iface = (t, q)" by fastforce
      note sp = ipcacheNAdd_spec[OF q]
      show ?thesis
      proof (cases q)
        case None
        with assms n4 Some q sp(2) show ?thesis by (auto simp: ipcacheTouch_def)
      next
        case (Some j)
        note s4 = sp(4)[OF Some] and s3 = sp(3)[OF Some]
        from s4[of "ipcacheKey a iface"] have f: "ipcacheFind (c\<lparr>ipcache6 := t\<rparr>) a4 a6 iface \<noteq> None"
          by (simp add: ipcacheFind_def ipcacheNFind_def n4 \<open>a6 = Some a\<close>)
        show ?thesis using assms n4 \<open>a6 = Some a\<close> q Some sp(1) s3
          by (auto simp: ipcacheTouch_def ipcacheFind_store[OF f[unfolded n4 \<open>a6 = Some a\<close>]] ip_ref_def s4 ipcacheFind_def ipcacheNFind_def
              ipcache_item_touch_def ip_cache_ok_def table_ok_set ipcache_store_def find_hash_set Let_def split: option.splits)
      qed
    qed
  qed
  then show "ip_cache_ok c \<Longrightarrow> ip_cache_ok c'" and "r = None \<Longrightarrow> c' = c"
    and "r = Some i \<Longrightarrow>
          i = (case ipcacheFind c a4 a6 iface of Some j \<Rightarrow> j | None \<Rightarrow> ipcache_item_init now)\<lparr>ic_last := now\<rparr>
          \<and> ip_ref a4 a6 iface \<noteq> None"
    and "r = Some i \<Longrightarrow> ipcacheFind c' b4 b6 iface' =
          (if ip_ref b4 b6 iface' = ip_ref a4 a6 iface then Some i else ipcacheFind c b4 b6 iface')"
    by blast+
qed

lemma ipcacheTouch_alloc: "ip_ref a4 a6 iface \<noteq> None \<Longrightarrow> \<exists>c' i. ipcacheTouch True now c a4 a6 iface = (c', Some i)"
  by (auto simp: ipcacheTouch_def ip_ref_def ipcacheNAdd_def Let_def split: option.splits)

lemma touched_found: "ipcacheTouch alloc now c a4 a6 iface = (c', Some i) \<Longrightarrow> ipcacheFind c' a4 a6 iface = Some i"
  using ipcacheTouch_spec(4) by force

text \<open>A put that has the memory it needs names the entry and leaves the others.\<close>

lemma put_hostname_find:
  assumes "ip_ref a4 a6 None \<noteq> None"
  shows "\<exists>i. ic_hostname i = Some h \<and> (\<forall>b4 b6 iface.
    ipcacheFind (snd (ipcache_put_hostname True True True now c a4 a6 h f)) b4 b6 iface =
      (if ip_ref b4 b6 iface = ip_ref a4 a6 None then Some i else ipcacheFind c b4 b6 iface))"
proof -
  obtain c1 i where t: "ipcacheTouch True now c a4 a6 None = (c1, Some i)" using ipcacheTouch_alloc[OF assms] by blast
  have ne: "ipcacheFind c1 a4 a6 None \<noteq> None" using touched_found[OF t] by simp
  show ?thesis
  proof (cases "ic_hostname i = Some h")
    case True
    with t ipcacheTouch_spec(4)[OF t refl] show ?thesis by (auto simp: ipcache_put_hostname_def)
  next
    case False
    have "ipcacheFind (snd (ipcache_put_hostname True True True now c a4 a6 h f)) b4 b6 iface =
      (if ip_ref b4 b6 iface = ip_ref a4 a6 None then Some (i\<lparr>ic_hostname := Some h, ic_hostname_is_ip := f\<rparr>)
       else ipcacheFind c b4 b6 iface)" for b4 b6 iface
      using False t ipcacheFind_store[OF ne] ipcacheTouch_spec(4)[OF t refl]
      by (simp add: ipcache_put_hostname_def)
    then show ?thesis by (intro exI[of _ "i\<lparr>ic_hostname := Some h, ic_hostname_is_ip := f\<rparr>"]) simp
  qed
qed

lemma purge_iter_find:
  "table_ok t \<Longrightarrow> distinct (map fst es) \<Longrightarrow> table_ok (ipcacheN_purge_iter now lt es t)
    \<and> hash_find (ipcacheN_purge_iter now lt es t) k =
       (if \<exists>i. (k, i) \<in> set es \<and> now \<ge> ic_last i + lt then None else hash_find t k)"
proof (induction now lt es t rule: ipcacheN_purge_iter.induct)
  case (2 now lt k' i es t)
  then have "table_ok (if now \<ge> ic_last i + lt then hash_del t k' else t)" by (simp add: hash.del_good)
  from "2.IH"[OF this] "2.prems" show ?case
    by (auto simp: find_hash_del image_iff split: if_splits)
qed simp

lemma ipcacheN_purge_spec:
  assumes "table_ok t"
  shows "table_ok (ipcacheN_purge now lt t)"
    and "hash_find (ipcacheN_purge now lt t) k =
       (case hash_find t k of None \<Rightarrow> None | Some i \<Rightarrow> if now \<ge> ic_last i + lt then None else Some i)"
  using purge_iter_find[OF assms, of t now lt] assms
  by (auto simp: ipcacheN_purge_def table_ok_def[symmetric] hash_find_iff[symmetric] split: option.splits)

lemma ipcache_purge_spec:
  assumes "ip_cache_ok c"
  shows "ip_cache_ok (ipcache_purge now c lt)"
    and "ipcacheFind (ipcache_purge now c lt) a4 a6 iface =
       (case ipcacheFind c a4 a6 iface of None \<Rightarrow> None | Some i \<Rightarrow> if lt \<noteq> 0 \<and> now \<ge> ic_last i + lt then None else Some i)"
  using assms ipcacheN_purge_spec
  by (auto simp: ip_cache_ok_def ipcache_purge_def ipcacheFind_def ipcacheNFind_def split: option.splits)

subsection \<open>Reachable caches\<close>

text \<open>
  The life of the cache under a clock that does not go back: \<open>ipc_reach lt now prev c\<close>, with the lifetime \<open>lt\<close> and
  the time \<open>prev\<close> of the last purge.
\<close>

inductive ipc_reach :: "int \<Rightarrow> int \<Rightarrow> int \<Rightarrow> ip_cache \<Rightarrow> bool" for lt :: int where
  init: "0 \<le> now \<Longrightarrow> ipc_reach lt now 0 (ipcacheDestroy c)"
| tick: "ipc_reach lt now prev c \<Longrightarrow> now \<le> now' \<Longrightarrow> ipc_reach lt now' prev c"
| put: "ipc_reach lt now prev c \<Longrightarrow>
    ipc_reach lt now prev (snd (ipcache_put_hostname en alloc sd now c a4 a6 h is_ip))"
| update: "ipc_reach lt now prev c \<Longrightarrow>
    ipc_reach lt now prev (fst (ipcache_update_ttl server_mode alloc now c t a4 a6 iface))"
| purge: "ipc_reach lt now prev c \<Longrightarrow> ipcachePurgeRateLimited now prev c lt = (c', prev') \<Longrightarrow> ipc_reach lt now prev' c'"

definition fresh :: "int \<Rightarrow> int \<Rightarrow> int \<Rightarrow> ip_cache_item \<Rightarrow> bool" where
  "fresh lt now prev i \<longleftrightarrow> ic_last i \<le> now \<and> (prev = now \<and> lt > 0 \<longrightarrow> now < ic_last i + lt)"

definition ip_cache_inv :: "int \<Rightarrow> int \<Rightarrow> int \<Rightarrow> ip_cache \<Rightarrow> bool" where
  "ip_cache_inv lt now prev c \<longleftrightarrow> ip_cache_ok c
     \<and> (\<forall>a4 a6 iface i. ipcacheFind c a4 a6 iface = Some i \<longrightarrow> fresh lt now prev i)"

lemma inv_touch:
  assumes "ip_cache_inv lt now prev c" and "ipcacheTouch alloc now c a4 a6 iface = (c', r)"
  shows "ip_cache_inv lt now prev c'"
proof (cases r)
  case None
  with assms show ?thesis using ipcacheTouch_spec(2)[OF assms(2)] by simp
next
  case (Some i)
  have "fresh lt now prev i" using ipcacheTouch_spec(3)[OF assms(2) Some] by (simp add: fresh_def)
  with assms ipcacheTouch_spec(1)[OF assms(2)] ipcacheTouch_spec(4)[OF assms(2) Some] show ?thesis
    by (auto simp: ip_cache_inv_def)
qed

lemma inv_store:
  assumes "ip_cache_inv lt now prev c" and "ipcacheFind c a4 a6 iface = Some i" and "ic_last j = ic_last i"
  shows "ip_cache_inv lt now prev (ipcache_store c a4 a6 iface j)"
proof -
  have "fresh lt now prev i" using assms(1,2) unfolding ip_cache_inv_def by blast
  with assms(1,3) ipcacheFind_store[of c a4 a6 iface j] assms(2) show ?thesis
    by (auto simp: ip_cache_inv_def fresh_def)
qed

lemma inv_put: "ip_cache_inv lt now prev c \<Longrightarrow>
    ip_cache_inv lt now prev (snd (ipcache_put_hostname en alloc sd now c a4 a6 h is_ip))"
  by (auto simp: ipcache_put_hostname_def split: prod.splits option.splits
      intro!: inv_store[OF inv_touch] intro: inv_touch dest: touched_found)

lemma inv_update: "ip_cache_inv lt now prev c \<Longrightarrow>
    ip_cache_inv lt now prev (fst (ipcache_update_ttl server_mode alloc now c t a4 a6 iface))"
  by (auto simp: ipcache_update_ttl_def split: prod.splits option.splits
      intro!: inv_store[OF inv_touch] intro: inv_touch dest: touched_found)

lemma inv_purge:
  assumes "ip_cache_inv lt now prev c" and "ipcachePurgeRateLimited now prev c lt = (c', prev')"
  shows "ip_cache_inv lt now now c' \<and> prev' = now"
proof (cases "prev = now")
  case False
  have ok: "ip_cache_ok c" using assms(1) by (simp add: ip_cache_inv_def)
  from False assms(2) have c': "c' = ipcache_purge now c lt" "prev' = now"
    by (auto simp: ipcachePurgeRateLimited_def)
  have "fresh lt now now i" if f: "ipcacheFind c' a4 a6 iface = Some i" for a4 a6 iface i
  proof -
    from f ipcache_purge_spec(2)[OF ok, of now lt a4 a6 iface]
    have "ipcacheFind c a4 a6 iface = Some i" "lt > 0 \<longrightarrow> now < ic_last i + lt"
      by (auto simp: c' split: option.splits if_splits)
    with assms(1) show ?thesis unfolding ip_cache_inv_def fresh_def by blast
  qed
  then show ?thesis using ipcache_purge_spec(1)[OF ok] by (simp add: ip_cache_inv_def c')
qed (use assms in \<open>simp add: ipcachePurgeRateLimited_def\<close>)

lemma ipc_reach_inv: "ipc_reach lt now prev c \<Longrightarrow> prev \<le> now \<and> ip_cache_inv lt now prev c"
proof (induction rule: ipc_reach.induct)
  case (init now c)
  then show ?case
    by (auto simp: ip_cache_inv_def ip_cache_ok_def ipcacheDestroy_def table_ok_def ipcacheFind_def ipcacheNFind_def split: option.splits)
next
  case (tick now prev c now')
  then show ?case by (cases "now' = now") (fastforce simp: ip_cache_inv_def fresh_def)+
next
  case (purge now prev c c' prev')
  then show ?case using inv_purge[of lt now prev c c' prev'] by simp
qed (auto intro: inv_put inv_update)

subsection \<open>Properties\<close>

text \<open>C34: A host name stored for an address is what is read for it, up to the size of the buffer, with its flag (the old
  flag if the name is the one already there); what is read for every other address, and every other interface's
  entry, stays.\<close>

theorem ipcache_put_get:
  assumes "ipcache_put_hostname True alloc sd now c a4 a6 h is_ip = (True, c')"
  shows "(\<exists>flag. ipcache_get_hostname True c' a4 a6 n = (take (n - 1) h \<noteq> [], take (n - 1) h, Some flag)
      \<and> (flag = is_ip \<or> (\<exists>i. ipcacheFind c a4 a6 None = Some i \<and> ic_hostname i = Some h \<and> flag = ic_hostname_is_ip i)))
    \<and> (ip_ref b4 b6 iface \<noteq> ip_ref a4 a6 None \<longrightarrow> ipcacheFind c' b4 b6 iface = ipcacheFind c b4 b6 iface)"
proof (intro conjI impI)
  obtain c1 i where t: "ipcacheTouch alloc now c a4 a6 None = (c1, Some i)"
    using assms by (cases "ipcacheTouch alloc now c a4 a6 None") (auto simp: ipcache_put_hostname_def split: option.splits)
  note f = ipcacheTouch_spec(4)[OF t refl] and g = ipcacheTouch_spec(3)[OF t refl]
  have ne: "ipcacheFind c1 a4 a6 None \<noteq> None" using touched_found[OF t] by simp
  note st = ipcacheFind_store[OF ne]
  show "\<exists>flag. ipcache_get_hostname True c' a4 a6 n = (take (n - 1) h \<noteq> [], take (n - 1) h, Some flag)
      \<and> (flag = is_ip \<or> (\<exists>i. ipcacheFind c a4 a6 None = Some i \<and> ic_hostname i = Some h \<and> flag = ic_hostname_is_ip i))"
  proof (cases "ic_hostname i = Some h")
    case True
    then have "ipcacheFind c a4 a6 None \<noteq> None" using g by (auto simp: ipcache_item_init_def split: option.splits)
    then obtain j where j: "ipcacheFind c a4 a6 None = Some j" by blast
    from assms t True have "c' = c1" by (auto simp: ipcache_put_hostname_def)
    with True j g touched_found[OF t] show ?thesis by (auto simp: ipcache_get_hostname_def)
  next
    case False
    with assms t have "c' = ipcache_store c1 a4 a6 None (i\<lparr>ic_hostname := Some h, ic_hostname_is_ip := is_ip\<rparr>)"
      by (auto simp: ipcache_put_hostname_def split: if_splits)
    then show ?thesis by (simp add: ipcache_get_hostname_def st)
  qed
  assume "ip_ref b4 b6 iface \<noteq> ip_ref a4 a6 None"
  with assms t st f show "ipcacheFind c' b4 b6 iface = ipcacheFind c b4 b6 iface"
    by (auto simp: ipcache_put_hostname_def split: if_splits)
qed

lemma ipcache_put_get_witness:
  "\<exists>c flag. ipcache_get_hostname True c (Some [1, 2, 3, 4]) None 4 = (True, [97, 46, 98], Some flag)"
proof -
  let ?c = "ipcacheDestroy \<lparr>ipcache4 = [], ipcache6 = []\<rparr>" and ?h = "[97, 46, 98, 99] :: bytes"
  obtain c' where "ipcache_put_hostname True True True 7 ?c (Some [1, 2, 3, 4]) None ?h False = (True, c')"
    by (simp add: ipcache_put_hostname_def ipcacheTouch_def ipcacheNAdd_def ipcacheNFind_def ipcacheDestroy_def Let_def
        ipcache_item_init_def ipcache_item_touch_def)
  from ipcache_put_get[OF this, of 4 None None None, THEN conjunct1] show ?thesis by auto
qed

text \<open>C35: In every reachable cache, right after the rate limited purge no entry is as old as the lifetime or newer than the
  clock, and the purge has dropped nothing younger: what was found and has not expired is still found.\<close>

theorem ipcache_purge_expires:
  assumes "ipc_reach lt now prev c" and "0 < lt" and "ipcachePurgeRateLimited now prev c lt = (c', prev')"
  shows "(ipcacheFind c' a4 a6 iface = Some i \<longrightarrow> now - lt < ic_last i \<and> ic_last i \<le> now)
    \<and> (ipcacheFind c a4 a6 iface = Some i \<and> now - lt < ic_last i \<longrightarrow> ipcacheFind c' a4 a6 iface = Some i)"
proof -
  have inv: "ip_cache_inv lt now prev c" using ipc_reach_inv[OF assms(1)] by simp
  then have ok: "ip_cache_ok c" by (simp add: ip_cache_inv_def)
  have "ip_cache_inv lt now now c'" using inv_purge[OF inv assms(3)] by simp
  with assms(2) have "ipcacheFind c' a4 a6 iface = Some i \<longrightarrow> now - lt < ic_last i \<and> ic_last i \<le> now"
    unfolding ip_cache_inv_def fresh_def by fastforce
  moreover have "ipcacheFind c a4 a6 iface = Some i \<and> now - lt < ic_last i \<longrightarrow> ipcacheFind c' a4 a6 iface = Some i"
    using assms(3) ipcache_purge_spec(2)[OF ok, of now lt a4 a6 iface]
    by (auto simp: ipcachePurgeRateLimited_def split: if_splits)
  ultimately show ?thesis by blast
qed

lemma ipcache_purge_expires_witness:
  "\<exists>c c' i. ipcacheFind c (Some [1]) None None = Some i \<and> fst (ipcachePurgeRateLimited 9 0 c 5) = c'
     \<and> ipcacheFind c' (Some [1]) None None = Some i"
proof -
  let ?c0 = "ipcacheDestroy \<lparr>ipcache4 = [], ipcache6 = []\<rparr>"
  let ?c = "snd (ipcache_put_hostname True True True 7 ?c0 (Some [1]) None [65] False)"
  have r: "ipc_reach 5 9 0 ?c" by (rule ipc_reach.tick[of _ 7]) (auto intro!: ipc_reach.put ipc_reach.init)
  obtain i where i: "ipcacheFind ?c (Some [1]) None None = Some i" "ic_last i = 7"
    by (simp add: ipcache_put_hostname_def ipcacheTouch_def ipcacheNAdd_def ipcacheNFind_def ipcacheDestroy_def Let_def
        ipcache_item_init_def ipcache_item_touch_def ipcacheFind_def ipcache_store_def ipcacheKey_def hash_add_def)
  obtain c' p where p: "ipcachePurgeRateLimited 9 0 ?c 5 = (c', p)" by fastforce
  from ipcache_purge_expires[OF r _ p, of "Some [1]" None None i] i p show ?thesis
    by (intro exI[of _ ?c] exI[of _ c'] exI[of _ i]) simp
qed

end
