(* ===== verification/Dns.thy ===== *)
theory Dns
  imports Ipcache Recognise Http
begin

text \<open>
  DNS answers (src/nfq2/desync.c 1647-1783): \<open>feed_dns_response\<close> takes the queried name from a response and
  remembers it for every address of the answer section. Offsets are relative to the start of the payload, \<open>e\<close> is
  its end.
\<close>

subsection \<open>Names\<close>

text \<open>The labels from \<open>p\<close> on; \<open>nm\<close> is what \<open>name\<close> holds so far, of \<open>n\<close> bytes. The result is the name and the place of the
  terminating zero.\<close>

function dns_labels :: "bytes \<Rightarrow> nat \<Rightarrow> nat \<Rightarrow> nat \<Rightarrow> bytes \<Rightarrow> (bytes \<times> nat) option option" where
  "dns_labels d e n p nm = do {
     c \<leftarrow> rd d p;
     if c = 0 then (if length nm \<ge> n then Some None else Some (Some (nm, p)))
     else if nm \<noteq> [] \<and> length nm \<ge> n then Some None
     else do {
       let nm = (if nm \<noteq> [] then nm @ [ch (CHR ''.'')] else nm);
       if c AND 0xC0 \<noteq> 0 \<or> p + unat c + 1 \<ge> e \<or> unat c + 1 \<ge> n - length nm then Some None
       else do {
         l \<leftarrow> rd_block d (p + 1) (unat c);
         dns_labels d e n (p + 1 + unat c) (nm @ map to_lower l) } } }"
  by pat_completeness auto
termination
  by (relation "measure (\<lambda>(d, e, n, p, nm). e - p)") auto

declare dns_labels.simps [simp del]

definition dns_extract_name :: "bytes \<Rightarrow> nat \<Rightarrow> nat \<Rightarrow> nat \<Rightarrow> (bytes \<times> nat) option option" where
  "dns_extract_name d a e n =
     (if n = 0 then Some None
      else do {
        x \<leftarrow> rd d a;
        let bptr = (x AND 0xC0 = 0xC0);
        if bptr \<and> a + 1 \<ge> e then Some None
        else do {
          p \<leftarrow> (if bptr then do {
                   y \<leftarrow> rd d (a + 1);
                   Some (unat (push_bit 8 (ucast (x AND 0x3F) :: u32) OR ucast y)) }
                 else Some a);
          if p \<ge> e then Some None
          else do {
            r \<leftarrow> dns_labels d e n p [];
            case r of None \<Rightarrow> Some None
            | Some (nm, q) \<Rightarrow> Some (Some (nm, if bptr then a + 2 else q + 1)) } } })"

text \<open>The pointer and the length behind the name.\<close>

function dns_skip_name :: "bytes \<Rightarrow> nat \<Rightarrow> nat \<Rightarrow> (nat \<times> nat) option option" where
  "dns_skip_name d a len =
     (if len < 2 then Some None
      else do {
        x \<leftarrow> rd d a;
        if x AND 0xC0 = 0xC0 then Some (Some (a + 2, len - 2))
        else if x = 0 then Some (Some (a + 1, len - 1))
        else if len < unat x + 1 then Some None
        else dns_skip_name d (a + (unat x + 1)) (len - (unat x + 1)) })"
  by pat_completeness auto
termination
  by (relation "measure (\<lambda>(d, a, len). len)") auto

declare dns_skip_name.simps [simp del]

subsection \<open>The response\<close>

text \<open>Type and class of a question at \<open>p\<close>, with \<open>len\<close> bytes left: it has to ask for an address on the Internet.\<close>

definition dns_question :: "bytes \<Rightarrow> nat \<Rightarrow> nat \<Rightarrow> bool option" where
  "dns_question d p len = do {
     bad \<leftarrow> cor (Some (len < 4)) (cor (map_option (\<lambda>b. b \<noteq> 0) (rd d (p + 2))) (map_option (\<lambda>b. b \<noteq> 1) (rd d (p + 3))));
     if bad then Some False
     else do { typ \<leftarrow> pntoh16 d p; Some (typ = 1 \<or> typ = 28) } }"

text \<open>The query section: \<open>k\<close> questions are left, \<open>nm\<close> is the name of the last one. A name is a C string; the test is on
  its first byte.\<close>

fun dns_queries :: "bytes \<Rightarrow> nat \<Rightarrow> nat \<Rightarrow> nat \<Rightarrow> nat \<Rightarrow> bytes \<Rightarrow> (nat \<times> nat \<times> bytes) option option" where
  "dns_queries d e 0 a len nm = Some (Some (a, len, nm))"
| "dns_queries d e (Suc k) a len nm =
     (if c_str nm \<noteq> [] then Some None
      else do {
        r \<leftarrow> dns_extract_name d a e 256;
        case r of None \<Rightarrow> Some None
        | Some (nm, p) \<Rightarrow> do {
            let len = size_sub len (p - a);
            ok \<leftarrow> dns_question d p len;
            if \<not> ok then Some None else dns_queries d e k (p + 4) (len - 4) nm } })"

text \<open>One record of the Internet class with \<open>dlen\<close> bytes of data. \<open>put c a4 a6\<close> is \<open>ipcache_put_hostname\<close> with the queried
  name, whose result is ignored.\<close>

type_synonym dns_put = "ip_cache \<Rightarrow> bytes option \<Rightarrow> bytes option \<Rightarrow> ip_cache"

definition dns_record :: "bytes \<Rightarrow> dns_put \<Rightarrow> nat \<Rightarrow> nat \<Rightarrow> ip_cache \<Rightarrow> ip_cache option" where
  "dns_record d put a dlen c = do {
     typ \<leftarrow> pntoh16 d a;
     if typ = 1 then
       (if dlen \<noteq> 4 then Some c else do { ip \<leftarrow> rd_block d (a + 10) 4; Some (put c (Some ip) None) })
     else if typ = 28 then
       (if dlen \<noteq> 16 then Some c else do { ip \<leftarrow> rd_block d (a + 10) 16; Some (put c None (Some ip)) })
     else Some c }"

text \<open>A resource record behind its name: the place behind it, and the cache.\<close>

definition dns_rr :: "bytes \<Rightarrow> dns_put \<Rightarrow> nat \<Rightarrow> nat \<Rightarrow> ip_cache \<Rightarrow> (nat \<times> nat \<times> ip_cache) option option" where
  "dns_rr d put a len c =
     (if len < 10 then Some None
      else do {
        dl \<leftarrow> pntoh16 d (a + 8);
        if len < unat dl + 10 then Some None
        else do {
          is_in \<leftarrow> cand (map_option (\<lambda>b. b = 0) (rd d (a + 2))) (map_option (\<lambda>b. b = 1) (rd d (a + 3)));
          c \<leftarrow> (if is_in then dns_record d put a (unat dl) c else Some c);
          Some (Some (a + (10 + unat dl), len - (10 + unat dl), c)) } })"

definition dns_answer :: "bytes \<Rightarrow> dns_put \<Rightarrow> nat \<Rightarrow> nat \<Rightarrow> ip_cache \<Rightarrow> (nat \<times> nat \<times> ip_cache) option option" where
  "dns_answer d put a len c = do {
     r \<leftarrow> dns_skip_name d a len;
     case r of None \<Rightarrow> Some None | Some (a, len) \<Rightarrow> dns_rr d put a len c }"

fun dns_answers ::
  "bytes \<Rightarrow> dns_put \<Rightarrow> nat \<Rightarrow> nat \<Rightarrow> nat \<Rightarrow> ip_cache \<Rightarrow> (bool \<times> ip_cache) option" where
  "dns_answers d put 0 a len c = Some (True, c)"
| "dns_answers d put (Suc k) a len c = do {
     r \<leftarrow> dns_answer d put a len c;
     case r of None \<Rightarrow> Some (False, c) | Some (a, len, c) \<Rightarrow> dns_answers d put k a len c }"

text \<open>The counts and the flags are read before the length is tested, as in the code.\<close>

definition feed_dns_response ::
  "bool \<Rightarrow> bool \<Rightarrow> bool \<Rightarrow> int \<Rightarrow> ip_cache \<Rightarrow> bytes \<Rightarrow> nat \<Rightarrow> (bool \<times> ip_cache) option" where
  "feed_dns_response en alloc strdup_ok now c d len =
     (if \<not> en then Some (True, c)
      else do {
        qcount \<leftarrow> pntoh16 d 4;
        acount \<leftarrow> pntoh16 d 6;
        bad \<leftarrow> cor (Some (qcount = 0 \<or> len < 12)) (map_option (\<lambda>b. b AND 0x80 = 0) (rd d 2));
        if bad then Some (False, c)
        else if acount = 0 then Some (False, c)
        else do {
          r \<leftarrow> dns_queries d len (unat qcount) 12 (len - 12) [];
          case r of None \<Rightarrow> Some (False, c)
          | Some (a, l, nm) \<Rightarrow>
              if c_str nm = [] then Some (False, c)
              else dns_answers d (\<lambda>c a4 a6. snd (ipcache_put_hostname en alloc strdup_ok now c a4 a6 (c_str nm) False))
                     (unat acount) a l c } })"

subsection \<open>Safety\<close>

lemma dns_labels_wp:
  "p < e \<Longrightarrow> e \<le> length d \<Longrightarrow> length nm \<le> n \<Longrightarrow>
   returns (\<lambda>r. \<forall>nm' q. r = Some (nm', q) \<longrightarrow> p \<le> q \<and> q < e \<and> length nm' < n) (dns_labels d e n p nm)"
proof (induction d e n p nm rule: dns_labels.induct)
  case (1 d e n p nm)
  let ?nm = "if nm \<noteq> [] then nm @ [ch (CHR ''.'')] else nm"
  have rd: "rd d p = Some (d ! p)" using "1.prems" by simp
  show ?case
  proof (cases "d ! p = 0 \<or> nm \<noteq> [] \<and> length nm \<ge> n
      \<or> (d ! p AND 0xC0 \<noteq> 0 \<or> p + unat (d ! p) + 1 \<ge> e \<or> unat (d ! p) + 1 \<ge> n - length ?nm)")
    case True
    then show ?thesis using "1.prems" by (subst dns_labels.simps) (auto simp: rd wp)
  next
    case False
    let ?l = "take (unat (d ! p)) (drop (p + 1) d)"
    from False have c: "d ! p \<noteq> 0" "\<not> (nm \<noteq> [] \<and> length nm \<ge> n)"
      "\<not> (d ! p AND 0xC0 \<noteq> 0 \<or> p + unat (d ! p) + 1 \<ge> e \<or> unat (d ! p) + 1 \<ge> n - length ?nm)" by auto
    have b: "rd_block d (p + 1) (unat (d ! p)) = Some ?l" using c "1.prems" by simp
    have "length (?nm @ map to_lower ?l) \<le> n" using c by auto
    moreover have "p + 1 + unat (d ! p) < e" using c by simp
    ultimately have "returns (\<lambda>r. \<forall>nm' q. r = Some (nm', q) \<longrightarrow> p + 1 + unat (d ! p) \<le> q \<and> q < e \<and> length nm' < n)
        (dns_labels d e n (p + 1 + unat (d ! p)) (?nm @ map to_lower ?l))"
      using "1.IH"[OF rd c(1,2) refl c(3) b] "1.prems" by simp
    then show ?thesis using c b
      by (subst dns_labels.simps) (auto simp: rd Let_def elim!: returns_mono split: if_splits)
  qed
qed

lemma dns_extract_name_wp:
  assumes "a < length d" and "e \<le> length d"
  shows "returns (\<lambda>r. \<forall>nm q. r = Some (nm, q) \<longrightarrow> a < q \<and> q \<le> e \<and> length nm < n) (dns_extract_name d a e n)"
proof (cases "n = 0")
  case False
  have l: "returns (\<lambda>r. \<forall>nm q. r = Some (nm, q) \<longrightarrow> p \<le> q \<and> q < e \<and> length nm < n) (dns_labels d e n p [])"
    if "p < e" for p using dns_labels_wp[OF that assms(2), of "[]" n] by simp
  show ?thesis
    using False assms
    by (auto simp: dns_extract_name_def wp Let_def intro!: returns_mono[OF l] split: option.splits)
qed (simp add: dns_extract_name_def)

lemma dns_skip_name_wp:
  "a + len \<le> length d \<Longrightarrow>
   returns (\<lambda>r. \<forall>a' len'. r = Some (a', len') \<longrightarrow> a < a' \<and> a' + len' = a + len) (dns_skip_name d a len)"
proof (induction d a len rule: dns_skip_name.induct)
  case (1 d a len)
  show ?case
  proof (cases "len < 2 \<or> d ! a AND 0xC0 = 0xC0 \<or> d ! a = 0 \<or> len < unat (d ! a) + 1")
    case True
    then show ?thesis using "1.prems" by (subst dns_skip_name.simps) (auto simp: wp)
  next
    case False
    then have c: "\<not> len < 2" "d ! a AND 0xC0 \<noteq> 0xC0" "d ! a \<noteq> 0" "\<not> len < unat (d ! a) + 1" by auto
    have rd: "rd d a = Some (d ! a)" using c "1.prems" by simp
    have "returns (\<lambda>r. \<forall>a' len'. r = Some (a', len') \<longrightarrow> a + (unat (d ! a) + 1) < a'
          \<and> a' + len' = a + (unat (d ! a) + 1) + (len - (unat (d ! a) + 1)))
        (dns_skip_name d (a + (unat (d ! a) + 1)) (len - (unat (d ! a) + 1)))"
      using "1.IH"[OF c(1) rd c(2,3,4)] "1.prems" c(4) by simp
    then show ?thesis using c
      by (subst dns_skip_name.simps) (auto simp: rd elim!: returns_mono)
  qed
qed

lemma dns_question_wp: "p + len \<le> length d \<Longrightarrow> returns (\<lambda>ok. ok \<longrightarrow> 4 \<le> len) (dns_question d p len)"
  by (auto simp: dns_question_def wp intro!: be16.get_wp)

lemma dns_queries_wp:
  assumes "a + len = e" and "e \<le> length d" and "a < e" and "e < 2 ^ 64"
  shows "returns (\<lambda>r. \<forall>a' len' nm'. r = Some (a', len', nm') \<longrightarrow> a' + len' = e) (dns_queries d e 1 a len nm)"
proof (cases "c_str nm = []")
  case True
  have x: "returns (\<lambda>r. \<forall>nm q. r = Some (nm, q) \<longrightarrow> a < q \<and> q \<le> e \<and> length nm < 256) (dns_extract_name d a e 256)"
    using assms by (intro dns_extract_name_wp) auto
  have s: "size_sub len (q - a) = e - q" if "a < q" "q \<le> e" for q
    using assms that by (subst size_sub_le) auto
  have q: "returns (\<lambda>ok. ok \<longrightarrow> 4 \<le> e - q) (dns_question d q (e - q))" if "q \<le> e" for q
    using assms(2) that by (intro dns_question_wp) simp
  show ?thesis
    unfolding One_nat_def dns_queries.simps
    by (simp only: True if_False simp_thms, subst returns_bind, rule returns_mono[OF x])
       (auto simp: s returns_bind Let_def elim!: returns_mono[OF q] split: option.splits)
qed simp

lemma dns_record_wp: "a + 10 + dlen \<le> length d \<Longrightarrow> returns (\<lambda>_. True) (dns_record d put a dlen c)"
  by (auto simp: dns_record_def wp intro!: be16.get_wp)

lemma dns_rr_wp:
  assumes "a + len \<le> length d"
  shows "returns (\<lambda>r. \<forall>a' len' c'. r = Some (a', len', c') \<longrightarrow> a' + len' = a + len) (dns_rr d put a len c)"
proof (cases "len < 10")
  case False
  then obtain dl where dl: "pntoh16 d (a + 8) = Some dl" using be16.get_Some_iff[of d "a + 8"] assms by auto
  show ?thesis
  proof (cases "len < unat dl + 10")
    case le: False
    have "returns (\<lambda>_. True) (dns_record d put a (unat dl) c)" using assms le by (intro dns_record_wp) simp
    then obtain c' where "dns_record d put a (unat dl) c = Some c'" by (auto simp: returns_def)
    with le False assms dl show ?thesis by (auto simp: dns_rr_def wp)
  qed (use False dl in \<open>simp add: dns_rr_def\<close>)
qed (simp add: dns_rr_def)

lemma dns_answer_wp:
  assumes "a + len \<le> length d"
  shows "returns (\<lambda>r. \<forall>a' len' c'. r = Some (a', len', c') \<longrightarrow> a' + len' = a + len) (dns_answer d put a len c)"
  unfolding dns_answer_def
proof (subst returns_bind, rule returns_mono[OF dns_skip_name_wp[OF assms]])
  fix v assume v: "\<forall>a' len'. v = Some (a', len') \<longrightarrow> a < a' \<and> a' + len' = a + len"
  show "returns (\<lambda>r. \<forall>a' len' c'. r = Some (a', len', c') \<longrightarrow> a' + len' = a + len)
      (case v of None \<Rightarrow> Some None | Some (a, len) \<Rightarrow> dns_rr d put a len c)"
  proof (cases v)
    case (Some w)
    obtain a' len' where w: "w = (a', len')" by (cases w)
    with v Some have "a' + len' = a + len" by simp
    with dns_rr_wp[of a' len' d put c] assms Some w show ?thesis by simp
  qed simp
qed

lemma dns_answers_wp: "a + len \<le> length d \<Longrightarrow> returns (\<lambda>_. True) (dns_answers d put k a len c)"
proof (induction d put k a len c rule: dns_answers.induct)
  case (2 d put k a len c)
  then show ?case
    by (simp only: dns_answers.simps, subst returns_bind, intro returns_mono[OF dns_answer_wp[OF "2.prems"]])
       (auto split: option.splits)
qed simp

lemma feed_dns_wp:
  assumes "len \<le> length d" and "13 \<le> len" and "len < 2 ^ 64" and "pntoh16 d 4 = Some 1"
  shows "returns (\<lambda>_. True) (feed_dns_response en alloc sd now c d len)"
proof -
  obtain ac where ac: "pntoh16 d 6 = Some ac" using be16.get_Some_iff[of d 6] assms by auto
  have "returns (\<lambda>r. \<forall>a' l' nm'. r = Some (a', l', nm') \<longrightarrow> a' + l' = len) (dns_queries d len 1 12 (len - 12) [])"
    using assms by (intro dns_queries_wp) auto
  then obtain r where r: "dns_queries d len 1 12 (len - 12) [] = Some r"
    and b: "\<forall>a' l' nm'. r = Some (a', l', nm') \<longrightarrow> a' + l' = len"
    by (auto simp: returns_def)
  let ?put = "\<lambda>nm c a4 a6. snd (ipcache_put_hostname en alloc sd now c a4 a6 (c_str nm) False)"
  have t: "returns (\<lambda>_. True) (dns_answers d (?put nm) (unat ac) a l c)" if "r = Some (a, l, nm)" for a l nm
    using b that assms(1) by (intro dns_answers_wp) auto
  show ?thesis
    using assms ac t
    by (auto simp: feed_dns_response_def r[unfolded One_nat_def] wp simp del: dns_queries.simps split: option.split)
qed

subsection \<open>What a response says\<close>

text \<open>An independent encoder: a name as its labels, a record behind a pointer to the first question, a response to a
  question of type \<open>qt\<close>.\<close>

definition name_bytes :: "bytes list \<Rightarrow> bytes" where
  "name_bytes ls = concat (map (\<lambda>l. of_nat (length l) # l) ls) @ [0]"

definition labels_ok :: "bytes list \<Rightarrow> bool" where
  "labels_ok ls \<longleftrightarrow> (\<forall>l\<in>set ls. 1 \<le> length l \<and> length l \<le> 63)"

fun dotted_from :: "bytes \<Rightarrow> bytes list \<Rightarrow> bytes" where
  "dotted_from nm [] = nm"
| "dotted_from nm (l # ls) = dotted_from ((if nm \<noteq> [] then nm @ [ch (CHR ''.'')] else nm) @ map to_lower l) ls"

record dns_rec =
  rr_type :: u16
  rr_class :: u16
  rr_ttl :: bytes
  rr_data :: bytes

definition rr_ok :: "dns_rec \<Rightarrow> bool" where
  "rr_ok r \<longleftrightarrow> length (rr_ttl r) = 4 \<and> length (rr_data r) < 65536"

definition rr_bytes :: "dns_rec \<Rightarrow> bytes" where
  "rr_bytes r = [0xC0, 12] @ be_bytes 2 (rr_type r) @ be_bytes 2 (rr_class r) @ rr_ttl r
     @ be_bytes 2 (of_nat (length (rr_data r)) :: u16) @ rr_data r"

definition dns_response :: "u8 \<Rightarrow> u8 \<Rightarrow> u8 \<Rightarrow> bytes list \<Rightarrow> u8 \<Rightarrow> dns_rec list \<Rightarrow> bytes" where
  "dns_response i j f ls qt rs =
     [i, j, 0x80, f, 0, 1] @ be_bytes 2 (of_nat (length rs) :: u16) @ [0, 0, 0, 0] @ name_bytes ls @ [0, qt, 0, 1]
     @ concat (map rr_bytes rs)"

definition rr_put :: "dns_put \<Rightarrow> dns_rec \<Rightarrow> ip_cache \<Rightarrow> ip_cache" where
  "rr_put put r c =
     (if rr_class r = 1 \<and> rr_type r = 1 \<and> length (rr_data r) = 4 then put c (Some (rr_data r)) None
      else if rr_class r = 1 \<and> rr_type r = 28 \<and> length (rr_data r) = 16 then put c None (Some (rr_data r))
      else c)"

lemma dotted_from_length: "length nm \<le> length (dotted_from nm ls)"
  by (induction nm ls rule: dotted_from.induct) (fastforce split: if_splits)+

lemma label_head: "length l \<le> 63 \<Longrightarrow> unat (of_nat (length l) :: u8) = length l \<and> (of_nat (length l) :: u8) AND 0xC0 = 0"
proof -
  assume l: "length l \<le> 63"
  then have u: "unat (of_nat (length l) :: u8) = length l" by (simp add: unat_of_nat)
  have "\<forall>n\<in>set [0..<64]. (of_nat n :: u8) AND 0xC0 = 0" by code_simp
  with l have "(of_nat (length l) :: u8) AND 0xC0 = 0" by simp
  with u show ?thesis by simp
qed

lemma name_bytes_ne [simp]: "name_bytes ls \<noteq> []"
  by (simp add: name_bytes_def)

lemma dns_labels_name:
  assumes "labels_ok ls" and "length (dotted_from nm ls) \<le> 254"
  shows "dns_labels (pre @ name_bytes ls @ post) (length (pre @ name_bytes ls @ post)) 256 (length pre) nm
    = Some (Some (dotted_from nm ls, length pre + length (name_bytes ls) - 1))"
  using assms
proof (induction nm ls arbitrary: pre rule: dotted_from.induct)
  case (1 nm)
  then show ?case by (subst dns_labels.simps) (simp add: name_bytes_def rd_def nth_append)
next
  case (2 nm l ls)
  let ?nm = "if nm \<noteq> [] then nm @ [ch (CHR ''.'')] else nm"
  let ?pre = "pre @ of_nat (length l) # l"
  have l: "1 \<le> length l" "length l \<le> 63" "labels_ok ls" using "2.prems" by (auto simp: labels_ok_def)
  have nb: "name_bytes (l # ls) = of_nat (length l) # l @ name_bytes ls" by (simp add: name_bytes_def)
  have d: "pre @ name_bytes (l # ls) @ post = ?pre @ name_bytes ls @ post" by (simp add: nb)
  have ih: "dns_labels (?pre @ name_bytes ls @ post) (length (?pre @ name_bytes ls @ post)) 256 (length ?pre) (?nm @ map to_lower l)
    = Some (Some (dotted_from nm (l # ls), length ?pre + length (name_bytes ls) - 1))"
    using "2.IH"[OF l(3), of ?pre] "2.prems" by simp
  have n: "length (?nm @ map to_lower l) \<le> 254"
    using dotted_from_length[of "?nm @ map to_lower l" ls] "2.prems" by simp
  have z: "(of_nat (length l) :: u8) \<noteq> 0" using label_head[OF l(2)] l(1) by (metis unat_0 not_one_le_zero)
  have rdp: "rd (pre @ name_bytes (l # ls) @ post) (length pre) = Some (of_nat (length l))"
    by (simp add: rd_def nb nth_append)
  have bl: "rd_block (pre @ name_bytes (l # ls) @ post) (length pre + 1) (length l) = Some l"
    by (simp add: rd_block_def nb)
  show ?case
    using ih n label_head[OF l(2)] z bl "2.prems"(2)
    by (subst dns_labels.simps, subst rdp) (auto simp: Let_def d nb split: if_splits)
qed

lemma name_bytes_first:
  assumes "labels_ok ls"
  shows "\<exists>c r. name_bytes ls = c # r \<and> c AND 0xC0 = 0"
proof (cases ls)
  case Nil
  then show ?thesis by (simp add: name_bytes_def)
next
  case (Cons l ls')
  with assms have "length l \<le> 63" by (simp add: labels_ok_def)
  from label_head[OF this] show ?thesis by (simp add: name_bytes_def Cons)
qed

lemma dns_extract_name_at:
  assumes "labels_ok ls" and "length (dotted_from [] ls) \<le> 254"
  shows "dns_extract_name (pre @ name_bytes ls @ post) (length pre) (length (pre @ name_bytes ls @ post)) 256
    = Some (Some (dotted_from [] ls, length pre + length (name_bytes ls)))"
proof -
  obtain c r where n: "name_bytes ls = c # r" "c AND 0xC0 = 0" using name_bytes_first[OF assms(1)] by blast
  then have "rd (pre @ name_bytes ls @ post) (length pre) = Some c" by (simp add: rd_def nth_append)
  with n(2) dns_labels_name[OF assms, of pre post] show ?thesis
    by (simp add: dns_extract_name_def n(1))
qed

lemma be16_bytes: "be_bytes 2 (w :: u16) = [ucast (drop_bit 8 w), ucast w]"
  by (simp add: numeral_2_eq_2)

lemma two_at: "take 2 (drop p d) = xs \<Longrightarrow> length xs = 2 \<Longrightarrow> rd d p = Some (xs ! 0) \<and> rd d (p + 1) = Some (xs ! 1)"
  by (auto simp: rd_def)

lemma class_in: "be_bytes 2 (w :: u16) ! 0 = 0 \<and> be_bytes 2 w ! 1 = 1 \<longleftrightarrow> w = 1"
proof
  assume a: "be_bytes 2 w ! 0 = 0 \<and> be_bytes 2 w ! 1 = 1"
  have "be_bytes 2 w = [be_bytes 2 w ! 0, be_bytes 2 w ! 1]" by (simp add: be16_bytes)
  also have "\<dots> = be_bytes 2 (1 :: u16)" using a by (simp add: be16_bytes)
  finally have "(be_word (be_bytes 2 w) :: u16) = be_word (be_bytes 2 (1 :: u16))" by simp
  then show "w = 1" by (simp add: be_word_be_bytes word_unat_eq_iff unsigned_take_bit_eq take_bit_nat_eq_self del: be_bytes_numeral)
qed (simp add: be16_bytes)

lemma dns_rr_at:
  assumes "rr_ok r" and "d = pre @ be_bytes 2 (rr_type r) @ be_bytes 2 (rr_class r) @ rr_ttl r
     @ be_bytes 2 (of_nat (length (rr_data r)) :: u16) @ rr_data r @ post"
    and "len = 10 + length (rr_data r) + length post"
  shows "dns_rr d put (length pre) len c
    = Some (Some (length pre + (10 + length (rr_data r)), length post, rr_put put r c))"
proof -
  let ?n = "length (rr_data r)"
  have ok: "length (rr_ttl r) = 4" "?n < 65536" using assms(1) by (simp_all add: rr_ok_def)
  have u: "unat (of_nat ?n :: u16) = ?n" using ok(2) by (simp add: unat_of_nat)
  have t: "pntoh16 d (length pre) = Some (rr_type r)"
    unfolding assms(2) by (rule be16.get_at_exact) simp_all
  have dl: "pntoh16 d (length pre + 8) = Some (of_nat ?n)"
    using be16.get_at_exact[of "length pre + 8" "pre @ be_bytes 2 (rr_type r) @ be_bytes 2 (rr_class r) @ rr_ttl r"
        "of_nat ?n" "rr_data r @ post"] ok by (simp add: assms(2) del: be_bytes_numeral)
  have cl: "take 2 (drop (length pre + 2) d) = be_bytes 2 (rr_class r)"
    by (simp add: assms(2) del: be_bytes_numeral)
  have rds: "rd d (length pre + 2) = Some (be_bytes 2 (rr_class r) ! 0)" "rd d (length pre + 3) = Some (be_bytes 2 (rr_class r) ! 1)"
    using two_at[OF cl] by (simp_all add: numeral_3_eq_3 numeral_2_eq_2 del: be_bytes_numeral)
  have bl: "rd_block d (length pre + 10) ?n = Some (rr_data r)"
    using ok by (simp add: rd_block_def assms(2) del: be_bytes_numeral)
  have rec: "rr_class r = 1 \<Longrightarrow> dns_record d put (length pre) ?n c = Some (rr_put put r c)"
    using bl t by (auto simp: dns_record_def rr_put_def)
  have nrec: "rr_class r \<noteq> 1 \<Longrightarrow> rr_put put r c = c" by (simp add: rr_put_def)
  show ?thesis
    using class_in[of "rr_class r"] rec nrec assms(3)
    by (auto simp: dns_rr_def dl u rds cand_def simp del: be_bytes_numeral add_2_eq_Suc' add_2_eq_Suc)
qed

lemma dns_answer_at:
  assumes "rr_ok r" and "d = pre @ rr_bytes r @ post" and "len = length (rr_bytes r @ post)"
  shows "dns_answer d put (length pre) len c
    = Some (Some (length (pre @ rr_bytes r), length post, rr_put put r c))"
proof -
  have l: "length (rr_bytes r) = 12 + length (rr_data r)" using assms(1) by (simp add: rr_bytes_def rr_ok_def)
  have "rd d (length pre) = Some 0xC0" by (simp add: assms(2) rr_bytes_def rd_def nth_append)
  then have sk: "dns_skip_name d (length pre) len = Some (Some (length (pre @ [0xC0, 12]), len - 2))"
    using assms(3) l by (subst dns_skip_name.simps) simp
  have "dns_rr d put (length (pre @ [0xC0, 12])) (len - 2) c
    = Some (Some (length (pre @ [0xC0, 12]) + (10 + length (rr_data r)), length post, rr_put put r c))"
    by (rule dns_rr_at[OF assms(1)]) (use assms(3) l in \<open>simp_all add: assms(2) rr_bytes_def del: be_bytes_numeral\<close>)
  then show ?thesis by (simp add: dns_answer_def sk l)
qed

lemma dns_answers_at:
  assumes "\<forall>r\<in>set rs. rr_ok r" and "d = pre @ concat (map rr_bytes rs)" and "len = length (concat (map rr_bytes rs))"
  shows "dns_answers d put (length rs) (length pre) len c = Some (True, foldl (\<lambda>c r. rr_put put r c) c rs)"
  using assms
proof (induction rs arbitrary: pre c len)
  case (Cons r rs)
  have "dns_answer d put (length pre) len c
    = Some (Some (length (pre @ rr_bytes r), length (concat (map rr_bytes rs)), rr_put put r c))"
    using Cons.prems by (intro dns_answer_at) auto
  with Cons.IH[of "pre @ rr_bytes r" _ "rr_put put r c"] Cons.prems show ?case by simp
qed simp

lemma dns_query_at:
  assumes "labels_ok ls" and "length (dotted_from [] ls) \<le> 254" and "qt = 1 \<or> qt = (28 :: u8)"
    and d: "d = pre @ name_bytes ls @ [0, qt, 0, 1] @ post" and e: "e = length d" "e < 2 ^ 64"
    and len: "len = length (name_bytes ls @ [0, qt, 0, 1] @ post)"
  shows "dns_queries d e 1 (length pre) len []
    = Some (Some (length (pre @ name_bytes ls @ [0, qt, 0, 1]), length post, dotted_from [] ls))"
proof -
  let ?q = "length pre + length (name_bytes ls)"
  have n: "dns_extract_name d (length pre) e 256 = Some (Some (dotted_from [] ls, ?q))"
    using dns_extract_name_at[OF assms(1,2), of pre "[0, qt, 0, 1] @ post"] by (simp add: d e(1))
  have s: "size_sub len (?q - length pre) = length ([0, qt, 0, 1] @ post)"
    using e by (subst size_sub_le) (auto simp: len d)
  have w: "pntoh16 d ?q = Some (ucast qt)"
  proof -
    have "d = (pre @ name_bytes ls) @ be_bytes 2 (ucast qt :: u16) @ [0, 1] @ post"
      using assms(3) by (auto simp: d be16_bytes)
    then show ?thesis using be16.get_at_exact[of ?q "pre @ name_bytes ls" "ucast qt" "[0, 1] @ post"] by simp
  qed
  have "(ucast qt :: u16) = 1 \<or> (ucast qt :: u16) = 28" using assms(3) by auto
  moreover have "rd d (?q + 2) = Some 0" "rd d (?q + 3) = Some 1"
    by (simp_all add: d rd_def nth_append)
  ultimately have "dns_question d ?q (length ([0, qt, 0, 1] @ post)) = Some True"
    using w by (auto simp: dns_question_def)
  with n s show ?thesis
    unfolding One_nat_def dns_queries.simps by (simp add: c_str_def Let_def)
qed

lemma feed_dns_response_encoded:
  assumes "labels_ok ls" and "length (dotted_from [] ls) \<le> 254" and "c_str (dotted_from [] ls) \<noteq> []"
    and "qt = 1 \<or> qt = 28" and "rs \<noteq> []" and "length rs < 65536" and "\<forall>r\<in>set rs. rr_ok r"
    and "d = dns_response i j f ls qt rs" and "length d < 2 ^ 64"
  shows "feed_dns_response True alloc sd now c d (length d) = Some (True,
     foldl (\<lambda>c r. rr_put (\<lambda>c a4 a6. snd (ipcache_put_hostname True alloc sd now c a4 a6 (c_str (dotted_from [] ls)) False)) r c) c rs)"
proof -
  let ?n = "of_nat (length rs) :: u16"
  let ?h = "[i, j, 0x80, f, 0, 1] @ be_bytes 2 ?n @ [0, 0, 0, 0]"
  let ?a = "concat (map rr_bytes rs)"
  have dd: "d = ?h @ name_bytes ls @ [0, qt, 0, 1] @ ?a" by (simp add: assms(8) dns_response_def del: be_bytes_numeral)
  have h: "length ?h = 12" by simp
  have u: "unat ?n = length rs" using assms(6) by (simp add: unat_of_nat)
  then have nz: "?n \<noteq> 0" using assms(5) by (metis length_0_conv unat_0)
  have qc: "pntoh16 d 4 = Some 1"
    using be16.get_at_exact[of 4 "[i, j, 0x80, f]" 1 "be_bytes 2 ?n @ [0, 0, 0, 0] @ name_bytes ls @ [0, qt, 0, 1] @ ?a"]
    by (simp add: dd be16_bytes)
  have ac: "pntoh16 d 6 = Some ?n"
    using be16.get_at_exact[of 6 "[i, j, 0x80, f, 0, 1]" ?n "[0, 0, 0, 0] @ name_bytes ls @ [0, qt, 0, 1] @ ?a"]
    by (simp add: dd del: be_bytes_numeral)
  have "dns_queries d (length d) 1 (length ?h) (length (name_bytes ls @ [0, qt, 0, 1] @ ?a)) []
    = Some (Some (length (?h @ name_bytes ls @ [0, qt, 0, 1]), length ?a, dotted_from [] ls))"
    by (rule dns_query_at[OF assms(1,2,4) dd refl assms(9) refl])
  moreover have ld: "length (name_bytes ls @ [0, qt, 0, 1] @ ?a) = length d - 12" by (simp add: dd)
  ultimately have q: "dns_queries d (length d) 1 12 (length d - 12) []
    = Some (Some (length (?h @ name_bytes ls @ [0, qt, 0, 1]), length ?a, dotted_from [] ls))"
    using ld by (simp only: h)
  have b: "rd d 2 = Some 0x80" by (simp add: dd rd_def)
  let ?put = "\<lambda>c a4 a6. snd (ipcache_put_hostname True alloc sd now c a4 a6 (c_str (dotted_from [] ls)) False)"
  have an: "dns_answers d ?put (length rs) (length (?h @ name_bytes ls @ [0, qt, 0, 1])) (length ?a) c
      = Some (True, foldl (\<lambda>c r. rr_put ?put r c) c rs)"
    by (rule dns_answers_at) (use assms(7) in \<open>simp_all add: dd del: be_bytes_numeral\<close>)
  obtain p where p: "p = length (?h @ name_bytes ls @ [0, qt, 0, 1])" by blast
  note q = q[folded p] and an = an[folded p]
  have "\<not> length d < 12" by (simp add: dd)
  with nz assms(3) qc ac b show ?thesis
    by (simp add: feed_dns_response_def q[unfolded One_nat_def] u an del: dns_queries.simps be_bytes_numeral length_append)
qed

subsection \<open>What the cache says afterwards\<close>

definition host_is :: "ip_cache \<Rightarrow> bytes option \<Rightarrow> bytes option \<Rightarrow> bytes \<Rightarrow> bool" where
  "host_is c a4 a6 h \<longleftrightarrow> (\<exists>i. ipcacheFind c a4 a6 None = Some i \<and> ic_hostname i = Some h)"

definition rr_addr :: "dns_rec \<Rightarrow> (bytes option \<times> bytes option) option" where
  "rr_addr r = (if rr_class r = 1 \<and> rr_type r = 1 \<and> length (rr_data r) = 4 then Some (Some (rr_data r), None)
     else if rr_class r = 1 \<and> rr_type r = 28 \<and> length (rr_data r) = 16 then Some (None, Some (rr_data r)) else None)"

lemma rr_put_cases:
  "rr_put put r c = (case rr_addr r of None \<Rightarrow> c | Some (a4, a6) \<Rightarrow> put c a4 a6)"
  by (simp add: rr_put_def rr_addr_def)

lemma rr_addr_ref: "rr_addr r = Some (a4, a6) \<Longrightarrow> ip_ref a4 a6 None \<noteq> None"
  by (auto simp: rr_addr_def ip_ref_def split: if_splits)

lemma answers_remembered:
  fixes h :: bytes and now :: int
  defines "put \<equiv> \<lambda>c a4 a6. snd (ipcache_put_hostname True True True now c a4 a6 h False)"
  shows "(host_is c b4 b6 h \<or> (b4, b6) \<in> set (List.map_filter rr_addr rs) \<longrightarrow>
            host_is (foldl (\<lambda>c r. rr_put put r c) c rs) b4 b6 h)
       \<and> (ip_ref b4 b6 iface \<notin> (\<lambda>(a4, a6). ip_ref a4 a6 None) ` set (List.map_filter rr_addr rs) \<longrightarrow>
            ipcacheFind (foldl (\<lambda>c r. rr_put put r c) c rs) b4 b6 iface = ipcacheFind c b4 b6 iface)"
proof (induction rs arbitrary: c)
  case (Cons r rs)
  show ?case
  proof (cases "rr_addr r")
    case None
    with Cons.IH[of c] show ?thesis by (simp add: rr_put_cases map_filter_simps)
  next
    case (Some a)
    obtain a4 a6 where a: "a = (a4, a6)" by (cases a)
    obtain i where i: "ic_hostname i = Some h" "\<And>b4 b6 iface. ipcacheFind (put c a4 a6) b4 b6 iface =
      (if ip_ref b4 b6 iface = ip_ref a4 a6 None then Some i else ipcacheFind c b4 b6 iface)"
      using put_hostname_find[OF rr_addr_ref[OF Some[unfolded a]], of h now c False] unfolding put_def by blast
    from i have "host_is c b4 b6 h \<or> (b4, b6) = (a4, a6) \<longrightarrow> host_is (put c a4 a6) b4 b6 h"
      by (auto simp: host_is_def)
    with Cons.IH[of "put c a4 a6"] i(2)[of b4 b6 iface] Some a show ?thesis
      by (auto simp: rr_put_cases map_filter_simps)
  qed
qed (simp add: map_filter_simps)

lemma host_is_get: "host_is c a4 a6 h \<Longrightarrow> length h \<le> 255 \<Longrightarrow> fst (snd (ipcache_get_hostname True c a4 a6 256)) = h"
  by (auto simp: host_is_def ipcache_get_hostname_def)

lemma in_answers: "r \<in> set rs \<Longrightarrow> rr_addr r = Some a \<Longrightarrow> a \<in> set (List.map_filter rr_addr rs)"
  by (force simp: map_filter_def)

subsection \<open>Properties\<close>

text \<open>Feeding a payload that the recogniser took for a DNS response meets no memory fault if there is a byte behind the
  12 bytes of the header.\<close>

theorem feed_dns_response_safe:
  assumes "len \<le> length d" and "13 \<le> len" and "len < 2 ^ 64" and "IsDNSResponse d len = Some True"
  shows "\<exists>ok c'. feed_dns_response en alloc sd now c d len = Some (ok, c')"
proof -
  have "pntoh16 d 4 = Some 1" using dns_wp(2)[OF assms(1)] assms(4) by simp
  from feed_dns_wp[OF assms(1-3) this] show ?thesis by (auto simp: returns_def)
qed

lemma feed_dns_response_safe_witness:
  "\<exists>ok c'. feed_dns_response True True True 1 \<lparr>ipcache4 = [], ipcache6 = []\<rparr>
     [0, 0, 0x80, 0, 0, 1, 0, 1, 0, 0, 0, 0, 192] 13 = Some (ok, c')"
proof -
  let ?d = "[0, 0, 0x80, 0, 0, 1, 0, 1, 0, 0, 0, 0, 192] :: bytes"
  have "IsDNSResponse ?d 13 = Some True" by (simp add: IsDNSResponse_def pntoh16_def be_step_def)
  from feed_dns_response_safe[OF _ _ _ this] show ?thesis by simp
qed

text \<open>C32: A response that ends with its header is read one byte behind its end: the name of the question is looked at
  before it is compared with the end of the payload.\<close>

theorem feed_dns_response_header_only:
  assumes "length d = 12" and "IsDNSResponse d 12 = Some True" and "pntoh16 d 6 = Some n" and "n \<noteq> 0"
  shows "feed_dns_response True alloc sd now c d 12 = None"
proof -
  have w: "bit (d ! 2) 7" "pntoh16 d 4 = Some 1" using dns_wp(2)[of 12 d] assms(1,2) by auto
  have "bit (d ! 2 AND 0x80) 7" using w(1) by (simp add: bit_simps)
  then have b: "d ! 2 AND 0x80 \<noteq> 0" by auto
  have x: "dns_extract_name d 12 12 256 = None" using assms(1) by (simp add: dns_extract_name_def)
  have "dns_queries d 12 1 12 0 [] = None" unfolding One_nat_def dns_queries.simps by (simp add: c_str_def x)
  with w(2) b assms(1,3,4) show ?thesis
    by (simp add: feed_dns_response_def del: dns_queries.simps)
qed

lemma feed_dns_response_header_only_witness:
  "feed_dns_response True True True 1 \<lparr>ipcache4 = [], ipcache6 = []\<rparr> [0, 0, 0x80, 0, 0, 1, 0, 1, 0, 0, 0, 0] 12 = None"
  by (rule feed_dns_response_header_only[of _ 1]) (simp_all add: IsDNSResponse_def pntoh16_def be_step_def)

text \<open>C11: A response of this form, to a question for \<open>ls\<close>, makes the cache answer the queried name, in lower case and
  dotted, for every address in the answers, and changes nothing about an address that is not there.\<close>

theorem dns_response_remembered:
  assumes "labels_ok ls" and "length (dotted_from [] ls) \<le> 254" and "0 \<notin> set (dotted_from [] ls)" and "ls \<noteq> []"
    and "qt = 1 \<or> qt = 28" and "rs \<noteq> []" and "length rs < 65536" and "\<forall>r\<in>set rs. rr_ok r"
    and "d = dns_response i j f ls qt rs" and "length d < 2 ^ 64"
  shows "\<exists>c'. feed_dns_response True True True now c d (length d) = Some (True, c')
    \<and> (\<forall>r\<in>set rs. rr_class r = 1 \<and> rr_type r = 1 \<and> length (rr_data r) = 4 \<longrightarrow>
         fst (snd (ipcache_get_hostname True c' (Some (rr_data r)) None 256)) = dotted_from [] ls)
    \<and> (\<forall>r\<in>set rs. rr_class r = 1 \<and> rr_type r = 28 \<and> length (rr_data r) = 16 \<longrightarrow>
         fst (snd (ipcache_get_hostname True c' None (Some (rr_data r)) 256)) = dotted_from [] ls)
    \<and> (\<forall>a. a \<notin> rr_data ` set rs \<longrightarrow>
         ipcacheFind c' (Some a) None None = ipcacheFind c (Some a) None None
       \<and> ipcacheFind c' None (Some a) None = ipcacheFind c None (Some a) None)"
proof -
  let ?h = "dotted_from [] ls"
  have z: "c_str ?h = ?h" using assms(3) by (auto simp: c_str_def intro!: takeWhile_eq_all_conv[THEN iffD2])
  have ne: "c_str ?h \<noteq> []"
  proof -
    obtain l ls' where l: "ls = l # ls'" using assms(4) by (cases ls) auto
    with assms(1) have "l \<noteq> []" by (auto simp: labels_ok_def)
    with l dotted_from_length[of "map to_lower l" ls'] show ?thesis unfolding z by auto
  qed
  let ?put = "\<lambda>c a4 a6. snd (ipcache_put_hostname True True True now c a4 a6 ?h False)"
  let ?c = "foldl (\<lambda>c r. rr_put ?put r c) c rs"
  have f: "feed_dns_response True True True now c d (length d) = Some (True, ?c)"
    using feed_dns_response_encoded[OF assms(1,2) ne assms(5-10)] unfolding z .
  note m = answers_remembered[of c _ _ ?h rs now]
  have g: "fst (snd (ipcache_get_hostname True ?c a4 a6 256)) = ?h" if "r \<in> set rs" "rr_addr r = Some (a4, a6)" for r a4 a6
    using m[of a4 a6] in_answers[OF that] assms(2) by (intro host_is_get) auto
  have u: "ip_ref b4 b6 None \<notin> (\<lambda>(a4, a6). ip_ref a4 a6 None) ` set (List.map_filter rr_addr rs)"
    if "a \<notin> rr_data ` set rs" "(b4, b6) = (Some a, None) \<or> (b4, b6) = (None, Some a)" for a b4 b6
    using that by (auto simp: map_filter_def rr_addr_def ip_ref_def ipcacheKey_def split: if_splits)
  show ?thesis
    using f g m u by (intro exI[of _ ?c]) (auto simp: rr_addr_def)
qed

lemma dns_response_remembered_witness:
  "\<exists>c'. fst (snd (ipcache_get_hostname True c' (Some [1, 2, 3, 4]) None 256)) = lit ''a.ru''"
proof -
  let ?r = "\<lparr>rr_type = 1, rr_class = 1, rr_ttl = [0, 0, 0, 9], rr_data = [1, 2, 3, 4]\<rparr>"
  let ?ls = "[lit ''A'', lit ''ru'']"
  have h: "dotted_from [] ?ls = lit ''a.ru''" by (simp add: to_lower_def)
  from dns_response_remembered[of ?ls 1 "[?r]" _ 7 8 0 5 "\<lparr>ipcache4 = [], ipcache6 = []\<rparr>", OF _ _ _ _ _ _ _ _ refl]
  show ?thesis unfolding h
    by (auto simp: labels_ok_def rr_ok_def dns_response_def rr_bytes_def name_bytes_def)
qed

end
