(* ===== verification/ListFile.thy ===== *)
theory ListFile
  imports Hash
begin

text \<open>
  Lists kept in files, as the host lists (src/nfq2/hostlist.c) and the address sets (src/nfq2/ipset.c) share them:
  reading a text line by line into a pool, loading a file when it has changed, and collections of pointers to
  the files. The file structures live in a store; a pointer is an index, and following one that is not in the store is
  \<open>None\<close>. The operating system is an environment that says for a name what \<open>stat\<close>, the open test and reading give.
\<close>

record file_sig =
  mod_time :: int
  mod_size :: int

definition FILE_MOD_RESET :: file_sig where
  "FILE_MOD_RESET = \<lparr>mod_time = 0, mod_size = 0\<rparr>"

definition FILE_MOD_COMPARE :: "file_sig \<Rightarrow> file_sig \<Rightarrow> bool" where
  "FILE_MOD_COMPARE a b \<longleftrightarrow> mod_time a = mod_time b \<and> mod_size a = mod_size b"

text \<open>What reading gives: no access, a broken archive, the text of an archive, or the bytes a plain file gives and whether
  the stream fails behind them.\<close>

datatype file_data = CannotOpen | GzipBad | GzipText bytes | PlainText bytes bool

record os_file =
  os_sig :: "file_sig option"
  os_readable :: bool
  os_data :: file_data

type_synonym os_env = "bytes \<Rightarrow> os_file"

subsection \<open>Reading a text\<close>

text \<open>
  The reader of one line: from the buffer, the place and the end, and the pool, to success, the pool, the buffer
  (a reader may change it) and the next place.
\<close>

type_synonym 'p line_reader = "bytes \<Rightarrow> nat \<Rightarrow> nat \<Rightarrow> 'p \<Rightarrow> (bool \<times> 'p \<times> bytes \<times> nat) option"

text \<open>The loop over an unpacked archive. It could run forever if the reader did not advance; then its value would be
  \<open>None\<close> too.\<close>

partial_function (option) append_text :: "'p line_reader \<Rightarrow> bytes \<Rightarrow> nat \<Rightarrow> nat \<Rightarrow> 'p \<Rightarrow> (bool \<times> 'p) option" where
  "append_text addpool d p e pl =
     (if p < e then do {
        (ok, pl, d, p) \<leftarrow> addpool d p e pl;
        if ok then append_text addpool d p e pl else Some (False, pl) }
      else Some (True, pl))"

declare append_text.simps [code]

fun append_lines :: "'p line_reader \<Rightarrow> bytes list \<Rightarrow> 'p \<Rightarrow> (bool \<times> 'p) option" where
  "append_lines addpool [] pl = Some (True, pl)"
| "append_lines addpool (s # ls) pl = do {
     (ok, pl, d, p) \<leftarrow> addpool s 0 (length s) pl;
     if ok then append_lines addpool ls pl else Some (False, pl) }"

text \<open>
  A plain file is read into a buffer of \<open>room\<close> bytes, at most \<open>room - 1\<close> at a time: up to and with the next line
  end, or as much as fits, so that a longer line comes in pieces. \<open>fgets_safe\<close> repeats an interrupted call, which the
  bytes of the file do not show. A buffer without room for a byte would give an endless sequence of empty lines; the callers'
  buffers have 4096 and 4095 bytes.
\<close>

definition fgets_safe :: "nat \<Rightarrow> bytes \<Rightarrow> bytes \<times> bytes" where
  "fgets_safe room d = (let n = min (room - 1) (Suc (length (takeWhile (\<lambda>c. c \<noteq> 10) d))) in (take n d, drop n d))"

function fgets_lines :: "nat \<Rightarrow> bytes \<Rightarrow> bytes list" where
  "fgets_lines room d =
     (if d = [] \<or> room < 2 then []
      else (case fgets_safe room d of (s, rest) \<Rightarrow> s # fgets_lines room rest))"
  by pat_completeness auto
termination by (relation "measure (\<lambda>(room, d). length d)") (auto simp: fgets_safe_def Let_def)

declare fgets_lines.simps [simp del]

text \<open>Of a piece, what stands before a zero byte is used.\<close>

definition append_file :: "'p line_reader \<Rightarrow> nat \<Rightarrow> file_data \<Rightarrow> 'p \<Rightarrow> (bool \<times> 'p) option" where
  "append_file addpool room f pl =
     (case f of
        CannotOpen \<Rightarrow> Some (False, pl)
      | GzipBad \<Rightarrow> Some (False, pl)
      | GzipText d \<Rightarrow> append_text addpool d 0 (length d) pl
      | PlainText d err \<Rightarrow> do {
          (ok, pl) \<leftarrow> append_lines addpool (map (takeWhile (\<lambda>c. c \<noteq> 0)) (fgets_lines room d)) pl;
          Some (ok \<and> \<not> err, pl) })"

lemma fgets_lines_concat: "2 \<le> room \<Longrightarrow> concat (fgets_lines room d) = d"
  by (induction room d rule: fgets_lines.induct) (subst fgets_lines.simps, auto simp: fgets_safe_def Let_def)

lemma fgets_lines_line:
  assumes "10 \<notin> set s" and "length s + 1 < room"
  shows "fgets_lines room (s @ 10 # d) = (s @ [10]) # fgets_lines room d"
proof -
  have "takeWhile (\<lambda>c. c \<noteq> 10) (s @ 10 # d) = s" using assms(1) by (subst takeWhile_append2) auto
  then show ?thesis using assms(2) by (subst fgets_lines.simps) (simp add: fgets_safe_def Let_def)
qed

text \<open>What a list needs of its reader: it stays inside the buffer and advances, whatever the text, and keeps the pool
  well formed.\<close>

locale line_reading =
  fixes reader :: "'p line_reader" and pool_ok :: "'p \<Rightarrow> bool"
  assumes reader_advances: "pool_ok pl \<Longrightarrow> p < e \<Longrightarrow> e \<le> length d \<Longrightarrow>
    returns (\<lambda>(ok, pl', d', p'). pool_ok pl' \<and> length d' = length d \<and> (ok \<longrightarrow> p < p' \<and> p' \<le> e)) (reader d p e pl)"
    and reader_empty: "pool_ok pl \<Longrightarrow> returns (\<lambda>(ok, pl', d', p'). pool_ok pl') (reader [] 0 0 pl)"
begin

lemma append_text_returns: "pool_ok pl \<Longrightarrow> e \<le> length d \<Longrightarrow> returns (\<lambda>(ok, pl'). pool_ok pl') (append_text reader d p e pl)"
proof (induction "e - p" arbitrary: d p pl rule: less_induct)
  case less
  show ?case
  proof (cases "p < e")
    case True
    from reader_advances[OF less.prems(1) True less.prems(2)] obtain ok pl' d' p'
      where r: "reader d p e pl = Some (ok, pl', d', p')" "length d' = length d" "ok \<longrightarrow> p < p' \<and> p' \<le> e" "pool_ok pl'"
      by (auto simp: returns_def)
    show ?thesis
    proof (cases ok)
      case ok: True
      have "returns (\<lambda>(ok, pl'). pool_ok pl') (append_text reader d' p' e pl')"
        by (rule less.hyps) (use r ok True less.prems in auto)
      with r ok True show ?thesis by (subst append_text.simps) simp
    qed (use r True in \<open>subst append_text.simps, auto\<close>)
  qed (use less.prems in \<open>subst append_text.simps, auto\<close>)
qed

lemma append_lines_returns: "pool_ok pl \<Longrightarrow> returns (\<lambda>(ok, pl'). pool_ok pl') (append_lines reader ls pl)"
proof (induction ls arbitrary: pl)
  case (Cons s ls)
  have "returns (\<lambda>(ok, pl', d', p'). pool_ok pl') (reader s 0 (length s) pl)"
    using reader_empty[OF Cons.prems] reader_advances[OF Cons.prems, of 0 "length s" s] by (cases "s = []") (auto elim: returns_mono)
  then obtain ok pl' d' p' where "reader s 0 (length s) pl = Some (ok, pl', d', p')" "pool_ok pl'" by (auto simp: returns_def)
  with Cons.IH[of pl'] show ?case by auto
qed auto

lemma append_file_returns:
  assumes "pool_ok pl"
  shows "returns (\<lambda>(ok, pl'). pool_ok pl') (append_file reader room f pl)"
proof (cases f)
  case (PlainText d err)
  obtain ok pl' where "append_lines reader (map (takeWhile (\<lambda>c. c \<noteq> 0)) (fgets_lines room d)) pl = Some (ok, pl')" "pool_ok pl'"
    using append_lines_returns[OF assms, of "map (takeWhile (\<lambda>c. c \<noteq> 0)) (fgets_lines room d)"] by (auto simp: returns_def)
  with PlainText show ?thesis by (simp add: append_file_def)
qed (use assms append_text_returns[OF assms] in \<open>simp_all add: append_file_def\<close>)

end

subsection \<open>Files in the store\<close>

record 'p list_file =
  lf_name :: "bytes option"
  lf_sig :: file_sig
  lf_pool :: 'p

type_synonym 'p store = "'p list_file list"

text \<open>The list of all files is linked at its head, so a walk over it meets the newest file first; a collection is the list
  of its pointers, newest first.\<close>

definition files_add :: "'p \<Rightarrow> bool \<Rightarrow> 'p store \<Rightarrow> bytes option \<Rightarrow> 'p store \<times> nat option" where
  "files_add empty_pool alloc fs name =
     (if alloc then (fs @ [\<lparr>lf_name = name, lf_sig = FILE_MOD_RESET, lf_pool = empty_pool\<rparr>], Some (length fs))
      else (fs, None))"

definition files_search :: "'p store \<Rightarrow> bytes \<Rightarrow> nat option" where
  "files_search fs name = List.find (\<lambda>i. lf_name (fs ! i) = Some name) (rev [0..<length fs])"

definition files_reset_modtime :: "'p store \<Rightarrow> 'p store" where
  "files_reset_modtime fs = map (\<lambda>f. f\<lparr>lf_sig := FILE_MOD_RESET\<rparr>) fs"

definition collection_add :: "bool \<Rightarrow> nat list \<Rightarrow> nat \<Rightarrow> nat list \<times> bool" where
  "collection_add alloc cl i = (if alloc then (i # cl, True) else (cl, False))"

fun collection_search :: "'p store \<Rightarrow> nat list \<Rightarrow> bytes \<Rightarrow> nat option option" where
  "collection_search fs [] name = Some None"
| "collection_search fs (i # cl) name = do {
     f \<leftarrow> rd fs i;
     if lf_name f = Some name then Some (Some i) else collection_search fs cl name }"

text \<open>Copying appends at the tail, and stops at the first failed allocation; \<open>oks\<close> are the allocations' answers.\<close>

fun collection_copy :: "bool list \<Rightarrow> nat list \<Rightarrow> nat list \<Rightarrow> nat list \<times> bool" where
  "collection_copy oks to [] = (to, True)"
| "collection_copy oks to (i # from) =
     (case oks of
        False # _ \<Rightarrow> (to, False)
      | True # oks \<Rightarrow> collection_copy oks (to @ [i]) from
      | [] \<Rightarrow> collection_copy [] (to @ [i]) from)"

fun collection_is_empty :: "('p \<Rightarrow> bool) \<Rightarrow> 'p store \<Rightarrow> nat list \<Rightarrow> bool option" where
  "collection_is_empty pool_empty fs [] = Some True"
| "collection_is_empty pool_empty fs (i # cl) = do {
     f \<leftarrow> rd fs i;
     if \<not> pool_empty (lf_pool f) then Some False else collection_is_empty pool_empty fs cl }"

text \<open>\<open>Register...\<close>: \<open>real\<close> is \<open>realpath\<close>, \<open>mtime\<close> is \<open>file_mod_time\<close>, and every allocation succeeds or none does.\<close>

definition register_list ::
  "'p \<Rightarrow> bool \<Rightarrow> (bytes \<Rightarrow> bytes option) \<Rightarrow> (bytes \<Rightarrow> bool) \<Rightarrow> 'p store \<Rightarrow> nat list \<Rightarrow> bytes option \<Rightarrow>
   ('p store \<times> nat list \<times> nat option) option" where
  "register_list empty_pool alloc real mtime fs cl filename =
     (case filename of
        Some name \<Rightarrow>
          if \<not> mtime name then Some (fs, cl, None)
          else (case real name of None \<Rightarrow> Some (fs, cl, None)
            | Some pabs \<Rightarrow>
                (let (fs, i) = (case files_search fs pabs of Some i \<Rightarrow> (fs, Some i)
                                | None \<Rightarrow> files_add empty_pool alloc fs (Some pabs))
                 in case i of None \<Rightarrow> Some (fs, cl, None)
                  | Some i \<Rightarrow> do {
                      found \<leftarrow> collection_search fs cl pabs;
                      if found \<noteq> None then Some (fs, cl, Some i)
                      else (let (cl, ok) = collection_add alloc cl i
                            in Some (fs, cl, if ok then Some i else None)) }))
      | None \<Rightarrow>
          (let (fs, i) = files_add empty_pool alloc fs None
           in case i of None \<Rightarrow> Some (fs, cl, None)
            | Some i \<Rightarrow> (let (cl, ok) = collection_add alloc cl i in Some (fs, cl, if ok then Some i else None))))"

text \<open>Loading, with a buffer of \<open>room\<close> bytes for a plain file: nothing to do for a list without a file or with the signature it was loaded with; an inaccessible file
  leaves what is in memory; otherwise the pool is emptied and read again, and is empty when that fails.\<close>

definition load_list :: "'p line_reader \<Rightarrow> nat \<Rightarrow> 'p \<Rightarrow> os_env \<Rightarrow> 'p list_file \<Rightarrow> (bool \<times> 'p list_file) option" where
  "load_list reader room empty_pool os f =
     (case lf_name f of None \<Rightarrow> Some (True, f)
      | Some name \<Rightarrow>
          (case os_sig (os name) of None \<Rightarrow> Some (True, f)
           | Some fsig \<Rightarrow>
               if FILE_MOD_COMPARE (lf_sig f) fsig then Some (True, f)
               else if \<not> os_readable (os name) then Some (True, f)
               else do {
                 (ok, pl) \<leftarrow> append_file reader room (os_data (os name)) empty_pool;
                 if \<not> ok then Some (False, f\<lparr>lf_pool := empty_pool\<rparr>)
                 else Some (True, f\<lparr>lf_pool := pl, lf_sig := fsig\<rparr>) }))"

definition load_at :: "'p line_reader \<Rightarrow> nat \<Rightarrow> 'p \<Rightarrow> os_env \<Rightarrow> 'p store \<Rightarrow> nat \<Rightarrow> (bool \<times> 'p store) option" where
  "load_at reader room empty_pool os fs i = do {
     f \<leftarrow> rd fs i;
     (ok, f) \<leftarrow> load_list reader room empty_pool os f;
     Some (ok, fs[i := f]) }"

text \<open>All files are tried; one failure makes the result false.\<close>

fun load_all :: "'p line_reader \<Rightarrow> nat \<Rightarrow> 'p \<Rightarrow> os_env \<Rightarrow> nat list \<Rightarrow> 'p store \<Rightarrow> (bool \<times> 'p store) option" where
  "load_all reader room empty_pool os [] fs = Some (True, fs)"
| "load_all reader room empty_pool os (i # is) fs = do {
     (ok, fs) \<leftarrow> load_at reader room empty_pool os fs i;
     (ok', fs) \<leftarrow> load_all reader room empty_pool os is fs;
     Some (ok \<and> ok', fs) }"

text \<open>A reload check stops at the first failure.\<close>

fun reload_loop :: "'p line_reader \<Rightarrow> nat \<Rightarrow> 'p \<Rightarrow> os_env \<Rightarrow> nat list \<Rightarrow> 'p store \<Rightarrow> (bool \<times> 'p store) option" where
  "reload_loop reader room empty_pool os [] fs = Some (True, fs)"
| "reload_loop reader room empty_pool os (i # is) fs = do {
     (ok, fs) \<leftarrow> load_at reader room empty_pool os fs i;
     if ok then reload_loop reader room empty_pool os is fs else Some (False, fs) }"

subsection \<open>Checking against two collections\<close>

text \<open>The shape of \<open>HostlistCheck_\<close> and \<open>IpsetCheck_\<close> behind their reload checks: result and \<open>*excluded\<close>.
  \<open>search\<close> is the test of one list. Include lists that are all empty let everything pass.\<close>

fun list_any :: "('p \<Rightarrow> bool option) \<Rightarrow> 'p store \<Rightarrow> nat list \<Rightarrow> bool option" where
  "list_any search fs [] = Some False"
| "list_any search fs (i # cl) = do {
     f \<leftarrow> rd fs i;
     m \<leftarrow> search (lf_pool f);
     if m then Some True else list_any search fs cl }"

definition list_check ::
  "('p \<Rightarrow> bool) \<Rightarrow> ('p \<Rightarrow> bool option) \<Rightarrow> 'p store \<Rightarrow> nat list \<Rightarrow> nat list \<Rightarrow> (bool \<times> bool) option" where
  "list_check pool_empty search fs incl excl = do {
     ex \<leftarrow> list_any search fs excl;
     if ex then Some (False, True)
     else do {
       emp \<leftarrow> collection_is_empty pool_empty fs incl;
       if \<not> emp then do { m \<leftarrow> list_any search fs incl; Some (m, False) }
       else Some (True, False) } }"

definition pointers_ok :: "'p store \<Rightarrow> nat list \<Rightarrow> bool" where
  "pointers_ok fs cl \<longleftrightarrow> (\<forall>i\<in>set cl. i < length fs)"

lemma pointers_ok_simps [simp]:
  "pointers_ok fs []" "pointers_ok fs (i # cl) \<longleftrightarrow> i < length fs \<and> pointers_ok fs cl"
  by (auto simp: pointers_ok_def)

lemma list_any_exact:
  "pointers_ok fs cl \<Longrightarrow> (\<And>p. search p = Some (P p)) \<Longrightarrow>
   list_any search fs cl = Some (\<exists>i\<in>set cl. P (lf_pool (fs ! i)))"
  by (induction search fs cl rule: list_any.induct) auto

lemma collection_is_empty_exact:
  "pointers_ok fs cl \<Longrightarrow> collection_is_empty pe fs cl = Some (\<forall>i\<in>set cl. pe (lf_pool (fs ! i)))"
  by (induction pe fs cl rule: collection_is_empty.induct) auto

lemma list_check_exact:
  assumes "pointers_ok fs incl" and "pointers_ok fs excl" and "\<And>p. search p = Some (P p)"
  shows "list_check pe search fs incl excl = Some
    ((\<forall>i\<in>set excl. \<not> P (lf_pool (fs ! i)))
       \<and> ((\<forall>i\<in>set incl. pe (lf_pool (fs ! i))) \<or> (\<exists>i\<in>set incl. P (lf_pool (fs ! i)))),
     \<exists>i\<in>set excl. P (lf_pool (fs ! i)))"
  by (auto simp: list_check_def list_any_exact[OF assms(1,3)] list_any_exact[OF assms(2,3)]
      collection_is_empty_exact[OF assms(1)])

subsection \<open>What loading keeps\<close>

text \<open>A file that can be read is up to date when its recorded signature is the one the file has now.\<close>

definition up_to_date :: "'p line_reader \<Rightarrow> 'p \<Rightarrow> os_env \<Rightarrow> 'p list_file \<Rightarrow> bool" where
  "up_to_date reader empty_pool os f \<longleftrightarrow>
     (\<forall>name fsig. lf_name f = Some name \<longrightarrow> os_sig (os name) = Some fsig \<longrightarrow> os_readable (os name) \<longrightarrow>
        FILE_MOD_COMPARE (lf_sig f) fsig)"

definition store_ok :: "('p \<Rightarrow> bool) \<Rightarrow> 'p store \<Rightarrow> bool" where
  "store_ok pool_ok fs \<longleftrightarrow> (\<forall>f\<in>set fs. pool_ok (lf_pool f))"

text \<open>
  A list is read again if it has a file that can be examined, has another signature than the one the list was loaded with, and
  can be opened. A successful load gives such a list the content and the signature of the file, and leaves any other as it is.
\<close>

definition list_changed :: "os_env \<Rightarrow> 'p list_file \<Rightarrow> bool" where
  "list_changed os f \<longleftrightarrow>
     (\<exists>name fsig. lf_name f = Some name \<and> os_sig (os name) = Some fsig \<and> \<not> FILE_MOD_COMPARE (lf_sig f) fsig \<and> os_readable (os name))"

definition list_reloaded :: "'p line_reader \<Rightarrow> nat \<Rightarrow> 'p \<Rightarrow> os_env \<Rightarrow> 'p list_file \<Rightarrow> 'p list_file \<Rightarrow> bool" where
  "list_reloaded reader room empty_pool os f g \<longleftrightarrow>
     (if list_changed os f
      then lf_name g = lf_name f \<and> os_sig (os (the (lf_name f))) = Some (lf_sig g)
        \<and> append_file reader room (os_data (os (the (lf_name f)))) empty_pool = Some (True, lf_pool g)
      else g = f)"

lemma load_list_exact: "load_list reader room empty_pool os f = Some (True, g) \<longleftrightarrow> list_reloaded reader room empty_pool os f g"
  by (cases f; cases g) (auto simp: load_list_def list_reloaded_def list_changed_def split: option.splits bind_splits if_splits)

lemma reloaded_again: "list_reloaded reader room empty_pool os f g \<Longrightarrow> list_reloaded reader room empty_pool os g h \<longleftrightarrow> h = g"
  by (auto simp: list_reloaded_def list_changed_def FILE_MOD_COMPARE_def split: if_splits)

lemma reloaded_once: "list_reloaded reader room empty_pool os f g \<Longrightarrow> list_reloaded reader room empty_pool os f h \<longleftrightarrow> h = g"
  by (auto simp flip: load_list_exact)

context line_reading
begin

lemma load_list_returns:
  assumes "pool_ok empty_pool" and "pool_ok (lf_pool f)"
  shows "returns (\<lambda>(ok, f'). lf_name f' = lf_name f \<and> pool_ok (lf_pool f')
     \<and> (ok \<longrightarrow> up_to_date reader empty_pool os f')
     \<and> (\<not> ok \<longrightarrow> lf_pool f' = empty_pool \<and> lf_sig f' = lf_sig f)
     \<and> (f' \<noteq> f \<longrightarrow> ok \<longrightarrow> (\<exists>name. lf_name f = Some name \<and> append_file reader room (os_data (os name)) empty_pool = Some (True, lf_pool f'))))
   (load_list reader room empty_pool os f)"
  using assms(2)
  by (auto simp: load_list_def up_to_date_def FILE_MOD_COMPARE_def wp assms(1) split: option.split
      intro!: returns_mono[OF append_file_returns[OF assms(1)]])

lemma load_at_returns:
  assumes "pool_ok empty_pool" and "store_ok pool_ok fs" and "i < length fs"
  shows "returns (\<lambda>(ok, fs'). store_ok pool_ok fs' \<and> length fs' = length fs \<and> (\<forall>j<length fs. lf_name (fs' ! j) = lf_name (fs ! j))
     \<and> (\<forall>j<length fs. j \<noteq> i \<longrightarrow> fs' ! j = fs ! j) \<and> (ok \<longrightarrow> up_to_date reader empty_pool os (fs' ! i)))
   (load_at reader room empty_pool os fs i)"
proof -
  have "pool_ok (lf_pool (fs ! i))" using assms(2,3) by (simp add: store_ok_def)
  from returns_exists[OF load_list_returns[OF assms(1) this, where os = os and room = room]] obtain ok f'
    where f': "load_list reader room empty_pool os (fs ! i) = Some (ok, f')" "lf_name f' = lf_name (fs ! i)" "pool_ok (lf_pool f')"
      "ok \<longrightarrow> up_to_date reader empty_pool os f'" by auto
  have "store_ok pool_ok (fs[i := f'])"
    using assms(2) f'(3) set_update_subset_insert[of fs i f'] by (auto simp: store_ok_def)
  with f' assms(3) show ?thesis by (simp add: load_at_def nth_list_update)
qed

text \<open>A reload check that succeeds leaves every file of the collection up to date.\<close>

lemma reload_loop_returns:
  "pool_ok empty_pool \<Longrightarrow> store_ok pool_ok fs \<Longrightarrow> pointers_ok fs cl \<Longrightarrow>
   returns (\<lambda>(ok, fs'). store_ok pool_ok fs' \<and> length fs' = length fs \<and> (\<forall>j<length fs. lf_name (fs' ! j) = lf_name (fs ! j))
     \<and> (\<forall>j<length fs. up_to_date reader empty_pool os (fs ! j) \<longrightarrow> ok \<longrightarrow> up_to_date reader empty_pool os (fs' ! j))
     \<and> (ok \<longrightarrow> (\<forall>i\<in>set cl. up_to_date reader empty_pool os (fs' ! i))))
   (reload_loop reader room empty_pool os cl fs)"
proof (induction cl arbitrary: fs)
  case (Cons i cl)
  then have i: "i < length fs" "pointers_ok fs cl" by simp_all
  obtain ok fs1 where l: "load_at reader room empty_pool os fs i = Some (ok, fs1)" and
    f: "store_ok pool_ok fs1" "length fs1 = length fs" "\<forall>j<length fs. lf_name (fs1 ! j) = lf_name (fs ! j)"
      "\<forall>j<length fs. j \<noteq> i \<longrightarrow> fs1 ! j = fs ! j" "ok \<longrightarrow> up_to_date reader empty_pool os (fs1 ! i)"
    using returns_exists[OF load_at_returns[OF Cons.prems(1,2) i(1), where os = os and room = room]] by auto
  show ?case
  proof (cases ok)
    case True
    have "pointers_ok fs1 cl" using i(2) f(2) by (simp add: pointers_ok_def)
    from Cons.IH[OF Cons.prems(1) f(1) this] l True f i(1) show ?thesis
      by (auto elim!: returns_mono)
  qed (use f l in simp)
qed simp

text \<open>A reload check succeeds exactly if every list of the collection can be loaded, and then has loaded these and no other,
  also when a list is in the collection more than once.\<close>

lemma reload_loop_exact:
  "pool_ok empty_pool \<Longrightarrow> store_ok pool_ok fs \<Longrightarrow> pointers_ok fs cl \<Longrightarrow>
   \<exists>ok fs'. reload_loop reader room empty_pool os cl fs = Some (ok, fs') \<and> length fs' = length fs
     \<and> (ok \<longleftrightarrow> (\<forall>i\<in>set cl. \<exists>g. list_reloaded reader room empty_pool os (fs ! i) g))
     \<and> (ok \<longrightarrow> (\<forall>j<length fs. if j \<in> set cl then list_reloaded reader room empty_pool os (fs ! j) (fs' ! j) else fs' ! j = fs ! j))"
proof (induction cl arbitrary: fs)
  case (Cons i cl)
  let ?R = "list_reloaded reader room empty_pool os"
  from Cons.prems have i: "i < length fs" "pointers_ok fs cl" by simp_all
  obtain ok f1 where l: "load_list reader room empty_pool os (fs ! i) = Some (ok, f1)" "pool_ok (lf_pool f1)"
    using returns_exists[OF load_list_returns[OF Cons.prems(1), of "fs ! i", where os = os and room = room]] Cons.prems(2) i(1)
    by (fastforce simp: store_ok_def)
  let ?fs = "fs[i := f1]"
  have la: "load_at reader room empty_pool os fs i = Some (ok, ?fs)" using l(1) i(1) by (simp add: load_at_def)
  show ?case
  proof (cases ok)
    case True
    then have r: "?R (fs ! i) f1" using l(1) by (simp flip: load_list_exact)
    have "store_ok pool_ok ?fs"
      using Cons.prems(2) l(2) set_update_subset_insert[of fs i f1] by (auto simp: store_ok_def)
    moreover have "pointers_ok ?fs cl" using i(2) by (simp add: pointers_ok_def)
    ultimately obtain ok2 fs2 where h: "reload_loop reader room empty_pool os cl ?fs = Some (ok2, fs2)" "length fs2 = length fs"
      "ok2 \<longleftrightarrow> (\<forall>k\<in>set cl. \<exists>g. ?R (?fs ! k) g)"
      "ok2 \<longrightarrow> (\<forall>j<length fs. if j \<in> set cl then ?R (?fs ! j) (fs2 ! j) else fs2 ! j = ?fs ! j)"
      using Cons.IH[OF Cons.prems(1)] by fastforce
    have k: "?R (?fs ! j) g \<longleftrightarrow> (if j = i then g = f1 else ?R (fs ! j) g)" if "j < length fs" for j g
      using that reloaded_again[OF r] by (simp add: nth_list_update)
    have c: "\<forall>j\<in>set cl. j < length fs" using i(2) by (simp add: pointers_ok_def)
    have "(\<forall>j\<in>set cl. \<exists>g. ?R (?fs ! j) g) \<longleftrightarrow> (\<forall>j\<in>set (i # cl). \<exists>g. ?R (fs ! j) g)"
      using r c k by (metis list.set_intros(2) set_ConsD)
    moreover have "if j \<in> set (i # cl) then ?R (fs ! j) (fs2 ! j) else fs2 ! j = fs ! j" if "j < length fs" ok2 for j
    proof (cases "j \<in> set cl")
      case True
      then show ?thesis using h(4) that k[OF that(1), of "fs2 ! j"] r by (cases "j = i") auto
    next
      case False
      then show ?thesis using h(4) that r by (cases "j = i") auto
    qed
    ultimately show ?thesis using la True h(1,2,3) by simp
  next
    case False
    then have "\<not> (\<exists>g. ?R (fs ! i) g)" using l(1) by (simp flip: load_list_exact)
    with la False show ?thesis by auto
  qed
qed auto

end

end
