(* ===== verification/Hostlist.thy ===== *)
theory Hostlist
  imports ListFile Http
begin

text \<open>
  Host lists: src/nfq2/hostlist.c and the host pools of src/nfq2/pools.c. A pool is a hash table from host names to
  flags; a host matches a list if the list has the host or one of its parent domains, and an entry marked with a
  circumflex matches the host itself only. \<open>alloc\<close> tells whether the allocations succeed.
\<close>

type_synonym hostlist_pool = "(bytes, u32) table"

definition HOSTLIST_POOL_FLAG_STRICT_MATCH :: u32 where
  "HOSTLIST_POOL_FLAG_STRICT_MATCH = 1"

text \<open>A name that is there keeps its flags.\<close>

definition HostlistPoolAddStrLen :: "bool \<Rightarrow> hostlist_pool \<Rightarrow> bytes \<Rightarrow> u32 \<Rightarrow> bool \<times> hostlist_pool" where
  "HostlistPoolAddStrLen alloc pp s flags =
     (if hash_find pp s \<noteq> None then (True, pp)
      else if \<not> alloc then (False, pp) else (True, hash_add pp s flags))"

definition HostlistPoolAddStr :: "bool \<Rightarrow> hostlist_pool \<Rightarrow> bytes \<Rightarrow> u32 \<Rightarrow> bool \<times> hostlist_pool" where
  "HostlistPoolAddStr alloc pp s flags = HostlistPoolAddStrLen alloc pp s flags"

definition HostlistPoolGetStr :: "hostlist_pool \<Rightarrow> bytes \<Rightarrow> u32 option" where
  "HostlistPoolGetStr p s = hash_find p s"

definition HostlistPoolDestroy :: "hostlist_pool \<Rightarrow> hostlist_pool" where
  "HostlistPoolDestroy p = []"

subsection \<open>Reading a line\<close>

definition is_tab :: "u8 \<Rightarrow> bool" where
  "is_tab c \<longleftrightarrow> c = ch (CHR '' '') \<or> c = 9"

definition is_nl :: "u8 \<Rightarrow> bool" where
  "is_nl c \<longleftrightarrow> c = 13 \<or> c = 10"

definition is_comment :: "u8 \<Rightarrow> bool" where
  "is_comment c \<longleftrightarrow> c = ch (CHR ''#'') \<or> c = ch (CHR '';'') \<or> c = ch (CHR ''/'')"

definition list_char :: "u8 \<Rightarrow> bool" where
  "list_char c \<longleftrightarrow> c \<noteq> 0 \<and> \<not> is_tab c \<and> \<not> is_nl c"

text \<open>The end of a line, shared with the address sets: the rest of the line, then line ends and zeros.\<close>

definition next_line :: "bytes \<Rightarrow> nat \<Rightarrow> nat \<Rightarrow> nat option" where
  "next_line d p e = do {
     p \<leftarrow> scan (\<lambda>c. c \<noteq> 0 \<and> \<not> is_nl c) d p e;
     scan (\<lambda>c. c = 0 \<or> is_nl c) d p e }"

definition lower_range :: "bytes \<Rightarrow> nat \<Rightarrow> nat \<Rightarrow> bytes" where
  "lower_range d i j = take i d @ map to_lower (take (j - i) (drop i d)) @ drop j d"

definition host_entry :: "bool \<Rightarrow> bytes \<Rightarrow> nat \<Rightarrow> nat \<Rightarrow> u8 \<Rightarrow> hostlist_pool \<Rightarrow> (bool \<times> hostlist_pool \<times> bytes \<times> nat) option" where
  "host_entry alloc d p e c pool = do {
     let (s, flags) = (if c = ch (CHR ''^'') then (p + 1, HOSTLIST_POOL_FLAG_STRICT_MATCH) else (p, 0));
     q \<leftarrow> scan list_char d s e;
     let d = lower_range d s q;
     name \<leftarrow> rd_block d s (q - s);
     (case HostlistPoolAddStrLen alloc pool name flags of
        (False, pool) \<Rightarrow> Some (False, HostlistPoolDestroy pool, d, s)
      | (True, pool) \<Rightarrow> Some (True, pool, d, q)) }"

definition host_addpool :: "bool \<Rightarrow> hostlist_pool line_reader" where
  "host_addpool alloc d p e pool = do {
     p \<leftarrow> scan is_tab d p e;
     (ok, pool, d, p) \<leftarrow>
       (if p < e then do {
          c \<leftarrow> rd d p;
          if \<not> is_comment c \<and> \<not> is_nl c then host_entry alloc d p e c pool else Some (True, pool, d, p) }
        else Some (True, pool, d, p));
     if \<not> ok then Some (False, pool, d, p)
     else do { p \<leftarrow> next_line d p e; Some (True, pool, d, p) } }"

definition AppendHostlistItem :: "bool \<Rightarrow> hostlist_pool \<Rightarrow> bytes \<Rightarrow> (bool \<times> hostlist_pool) option" where
  "AppendHostlistItem alloc hostlist s = do {
     (ok, pool, d, p) \<leftarrow> host_addpool alloc s 0 (length s) hostlist;
     Some (ok, pool) }"

definition AppendHostList :: "bool \<Rightarrow> hostlist_pool \<Rightarrow> file_data \<Rightarrow> (bool \<times> hostlist_pool) option" where
  "AppendHostList alloc hostlist f = append_file (host_addpool alloc) 4096 f hostlist"

lemma length_lower_range: "i \<le> j \<Longrightarrow> j \<le> length d \<Longrightarrow> length (lower_range d i j) = length d"
  by (simp add: lower_range_def)

lemma next_line_advances:
  assumes "p < e" and "e \<le> length d"
  shows "returns (\<lambda>p'. p < p' \<and> p' \<le> e) (next_line d p e)"
proof -
  let ?P = "\<lambda>c. c \<noteq> 0 \<and> \<not> is_nl c" and ?Q = "\<lambda>c. c = 0 \<or> is_nl c"
  obtain q where q: "scan ?P d p e = Some q" using scan_Some[OF assms(2)] by blast
  have b: "p \<le> q" "q \<le> e" using scan_bounds[OF q] assms(1) by auto
  obtain r where r: "scan ?Q d q e = Some r" using scan_Some[OF assms(2)] by blast
  have "q \<le> r \<and> r \<le> e" using scan_bounds[OF r] b by auto
  moreover have "q < e \<Longrightarrow> q < r"
  proof -
    assume "q < e"
    then have "?Q (d ! q)" using scan_stop[OF q] by blast
    moreover have "r < e \<Longrightarrow> \<not> ?Q (d ! r)" using scan_stop[OF r] by blast
    ultimately show "q < r" using \<open>q < e\<close> \<open>q \<le> r \<and> r \<le> e\<close> by (cases "q = r") auto
  qed
  ultimately show ?thesis using q r b assms(1) by (cases "q < e") (auto simp: next_line_def)
qed

lemma next_line_end: "next_line d e e = Some e"
  by (simp add: next_line_def scan.simps)

lemma next_line_wp: "p \<le> e \<Longrightarrow> e \<le> length d \<Longrightarrow> returns (\<lambda>p'. p \<le> p' \<and> p' \<le> e \<and> (p < e \<longrightarrow> p < p')) (next_line d p e)"
  using next_line_advances[of p e d] next_line_end[of d e] by (cases "p < e") (auto elim: returns_mono)

lemma host_entry_wp:
  assumes "p < e" and "e \<le> length d"
  shows "returns (\<lambda>(ok, pool, d', p'). length d' = length d \<and> p \<le> p' \<and> p' \<le> e) (host_entry alloc d p e c pool)"
proof -
  define s where "s = (if c = ch (CHR ''^'') then p + 1 else p)"
  have s: "p \<le> s" "s \<le> e" using assms by (auto simp: s_def)
  obtain q where q: "scan list_char d s e = Some q" using scan_Some[OF assms(2)] by blast
  have b: "s \<le> q" "q \<le> e" using scan_bounds[OF q] s by auto
  then have l: "length (lower_range d s q) = length d" using assms by (simp add: length_lower_range)
  then have "rd_block (lower_range d s q) s (q - s) \<noteq> None" using b assms by (simp add: rd_block_def)
  then obtain n where n: "rd_block (lower_range d s q) s (q - s) = Some n" by blast
  have f: "host_entry alloc d p e c pool = (case HostlistPoolAddStrLen alloc pool n (if c = ch (CHR ''^'') then 1 else 0) of
        (False, pool) \<Rightarrow> Some (False, HostlistPoolDestroy pool, lower_range d s q, s)
      | (True, pool) \<Rightarrow> Some (True, pool, lower_range d s q, q))"
    using q n by (auto simp: host_entry_def s_def HOSTLIST_POOL_FLAG_STRICT_MATCH_def Let_def split: if_splits prod.split bool.split)
  show ?thesis using l s b by (auto simp: f split: prod.split bool.split)
qed

lemma host_addpool_advances:
  assumes "p < e" and "e \<le> length d"
  shows "returns (\<lambda>(ok, pool', d', p'). length d' = length d \<and> (ok \<longrightarrow> p < p' \<and> p' \<le> e)) (host_addpool alloc d p e pool)"
proof -
  obtain p1 where p1: "scan is_tab d p e = Some p1" using scan_Some[OF assms(2)] by blast
  have b: "p \<le> p1" "p1 \<le> e" using scan_bounds[OF p1] assms by auto
  have r: "returns (\<lambda>(ok, pool', d', p'). length d' = length d \<and> p1 \<le> p' \<and> p' \<le> e)
      (if p1 < e then do {
          c \<leftarrow> rd d p1;
          if \<not> is_comment c \<and> \<not> is_nl c then host_entry alloc d p1 e c pool else Some (True, pool, d, p1) }
        else Some (True, pool, d, p1))"
    using assms b host_entry_wp[of p1 e d alloc "d ! p1" pool] by auto
  then obtain ok pl d2 p2 where x: "(if p1 < e then do {
          c \<leftarrow> rd d p1;
          if \<not> is_comment c \<and> \<not> is_nl c then host_entry alloc d p1 e c pool else Some (True, pool, d, p1) }
        else Some (True, pool, d, p1)) = Some (ok, pl, d2, p2)" and y: "length d2 = length d" "p1 \<le> p2" "p2 \<le> e"
    unfolding returns_def by auto
  have "returns (\<lambda>p'. p < p' \<and> p' \<le> e) (next_line d2 p2 e)"
    using next_line_wp[of p2 e d2] y b assms by (auto elim!: returns_mono)
  then obtain p3 where "next_line d2 p2 e = Some p3" "p < p3" "p3 \<le> e" by (auto simp: returns_def)
  with y(1) show ?thesis unfolding host_addpool_def p1 by (simp add: x)
qed

lemma host_addpool_empty: "returns (\<lambda>(ok, pl', d', p'). True) (host_addpool alloc [] 0 0 pool)"
  by (simp add: host_addpool_def scan.simps next_line_def)

interpretation host_lines: line_reading "host_addpool alloc" "\<lambda>pool. True" for alloc
  by unfold_locales (simp add: host_addpool_advances, rule host_addpool_empty)

lemma host_store_ok [simp]: "store_ok (\<lambda>pool. True) fs"
  by (simp add: store_ok_def)

subsection \<open>Searching a list\<close>

function host_search :: "hostlist_pool \<Rightarrow> bool \<Rightarrow> bool \<Rightarrow> bytes \<Rightarrow> bool" where
  "host_search pool no_match_subdomains bHostFull p =
     (if (case HostlistPoolGetStr pool p of None \<Rightarrow> False
          | Some fl \<Rightarrow> \<not> (fl AND HOSTLIST_POOL_FLAG_STRICT_MATCH \<noteq> 0 \<and> \<not> bHostFull)) then True
      else if no_match_subdomains then False
      else (case dropWhile (\<lambda>c. c \<noteq> ch (CHR ''.'')) p of
              [] \<Rightarrow> False
            | _ # p \<Rightarrow> host_search pool no_match_subdomains False p))"
  by pat_completeness auto
termination
proof (relation "measure (\<lambda>(pool, n, f, p). length p)", simp)
  fix pool :: hostlist_pool and n f :: bool and p q :: bytes and x
  assume "dropWhile (\<lambda>c. c \<noteq> ch (CHR ''.'')) p = x # q"
  then have "length (x # q) \<le> length p" by (metis length_dropWhile_le)
  then show "((pool, n, False, q), pool, n, f, p) \<in> measure (\<lambda>(pool, n, f, p). length p)" by simp
qed

declare host_search.simps [simp del]

definition SearchHostList :: "hostlist_pool \<Rightarrow> bytes \<Rightarrow> bool \<Rightarrow> bool" where
  "SearchHostList pool host no_match_subdomains = (pool \<noteq> [] \<and> host_search pool no_match_subdomains True host)"

subsection \<open>Checking\<close>

type_synonym host_store = "hostlist_pool store"

text \<open>An automatic list is never empty: an impossible name keeps it so. The failure of its allocation is ignored.\<close>

definition NonEmptyHostlist :: "bool \<Rightarrow> hostlist_pool \<Rightarrow> bool \<times> hostlist_pool" where
  "NonEmptyHostlist alloc pool =
     (if pool \<noteq> [] then (True, pool) else HostlistPoolAddStrLen alloc pool (lit ''@&()'') 0)"

text \<open>\<open>autos\<close> are the automatic lists of the profiles, in the order of the profiles.\<close>

fun MakeAutolistsNonEmpty :: "bool \<Rightarrow> nat list \<Rightarrow> host_store \<Rightarrow> host_store option" where
  "MakeAutolistsNonEmpty alloc [] fs = Some fs"
| "MakeAutolistsNonEmpty alloc (i # autos) fs = do {
     f \<leftarrow> rd fs i;
     MakeAutolistsNonEmpty alloc autos (fs[i := f\<lparr>lf_pool := snd (NonEmptyHostlist alloc (lf_pool f))\<rparr>]) }"

definition LoadHostList :: "bool \<Rightarrow> os_env \<Rightarrow> host_store \<Rightarrow> nat \<Rightarrow> (bool \<times> host_store) option" where
  "LoadHostList alloc os fs i = load_at (host_addpool alloc) 4096 [] os fs i"

definition LoadAllHostLists :: "bool \<Rightarrow> os_env \<Rightarrow> nat list \<Rightarrow> host_store \<Rightarrow> (bool \<times> host_store) option" where
  "LoadAllHostLists alloc os autos fs = do {
     (ok, fs) \<leftarrow> load_all (host_addpool alloc) 4096 [] os (rev [0..<length fs]) fs;
     if \<not> ok then Some (False, fs)
     else do { fs \<leftarrow> MakeAutolistsNonEmpty alloc autos fs; Some (True, fs) } }"

definition HostlistsReloadCheck :: "bool \<Rightarrow> os_env \<Rightarrow> nat list \<Rightarrow> nat list \<Rightarrow> host_store \<Rightarrow> (bool \<times> host_store) option" where
  "HostlistsReloadCheck alloc os autos hostlists fs = do {
     (ok, fs) \<leftarrow> reload_loop (host_addpool alloc) 4096 [] os hostlists fs;
     if \<not> ok then Some (False, fs)
     else do { fs \<leftarrow> MakeAutolistsNonEmpty alloc autos fs; Some (True, fs) } }"

definition HostlistsReloadCheckForProfile ::
  "bool \<Rightarrow> os_env \<Rightarrow> nat list \<Rightarrow> nat list \<Rightarrow> nat list \<Rightarrow> host_store \<Rightarrow> (bool \<times> host_store) option" where
  "HostlistsReloadCheckForProfile alloc os autos incl excl fs = do {
     (ok, fs) \<leftarrow> HostlistsReloadCheck alloc os autos incl fs;
     if ok then HostlistsReloadCheck alloc os autos excl fs else Some (False, fs) }"

text \<open>Result, \<open>*excluded\<close>, and the store.\<close>

definition HostlistCheck ::
  "bool \<Rightarrow> os_env \<Rightarrow> nat list \<Rightarrow> nat list \<Rightarrow> nat list \<Rightarrow> host_store \<Rightarrow> bytes \<Rightarrow> bool \<Rightarrow> bool \<Rightarrow> (bool \<times> bool \<times> host_store) option" where
  "HostlistCheck alloc os autos incl excl fs host no_match_subdomains bSkipReloadCheck = do {
     (ok, fs) \<leftarrow> (if bSkipReloadCheck then Some (True, fs)
                  else HostlistsReloadCheckForProfile alloc os autos incl excl fs);
     if \<not> ok then Some (False, False, fs)
     else do {
       (r, ex) \<leftarrow> list_check (\<lambda>p. p = []) (\<lambda>p. Some (SearchHostList p host no_match_subdomains)) fs incl excl;
       Some (r, ex, fs) } }"

definition RegisterHostlist ::
  "bool \<Rightarrow> (bytes \<Rightarrow> bytes option) \<Rightarrow> (bytes \<Rightarrow> bool) \<Rightarrow> host_store \<Rightarrow> nat list \<Rightarrow> bytes option \<Rightarrow>
   (host_store \<times> nat list \<times> nat option) option" where
  "RegisterHostlist alloc real mtime fs cl filename = register_list [] alloc real mtime fs cl filename"

lemma autolists_returns:
  "pointers_ok fs autos \<Longrightarrow>
   returns (\<lambda>fs'. length fs' = length fs \<and> (\<forall>j<length fs. lf_name (fs' ! j) = lf_name (fs ! j) \<and> lf_sig (fs' ! j) = lf_sig (fs ! j)
     \<and> (lf_pool (fs ! j) \<noteq> [] \<longrightarrow> lf_pool (fs' ! j) = lf_pool (fs ! j)))) (MakeAutolistsNonEmpty alloc autos fs)"
proof (induction autos arbitrary: fs)
  case (Cons i autos)
  then have i: "i < length fs" by simp
  let ?fs = "fs[i := (fs ! i)\<lparr>lf_pool := snd (NonEmptyHostlist alloc (lf_pool (fs ! i)))\<rparr>]"
  have "pointers_ok ?fs autos" using Cons.prems by (simp add: pointers_ok_def)
  note ih = Cons.IH[OF this]
  have e: "MakeAutolistsNonEmpty alloc (i # autos) fs = MakeAutolistsNonEmpty alloc autos ?fs" using i by simp
  have k: "lf_name (?fs ! j) = lf_name (fs ! j) \<and> lf_sig (?fs ! j) = lf_sig (fs ! j)
     \<and> (lf_pool (fs ! j) \<noteq> [] \<longrightarrow> lf_pool (?fs ! j) = lf_pool (fs ! j))" if "j < length fs" for j
    using that by (cases "j = i") (simp_all add: NonEmptyHostlist_def)
  show ?case unfolding e by (rule returns_mono[OF ih]) (use k in auto)
qed simp

abbreviation host_fresh :: "bool \<Rightarrow> os_env \<Rightarrow> hostlist_pool list_file \<Rightarrow> bool" where
  "host_fresh alloc os f \<equiv> up_to_date (host_addpool alloc) [] os f"

lemma autolists_fresh:
  "pointers_ok fs autos \<Longrightarrow>
   returns (\<lambda>fs'. length fs' = length fs \<and> (\<forall>j<length fs. lf_name (fs' ! j) = lf_name (fs ! j))
     \<and> (\<forall>j<length fs. host_fresh alloc os (fs' ! j) = host_fresh alloc os (fs ! j))) (MakeAutolistsNonEmpty alloc autos fs)"
  by (erule returns_mono[OF autolists_returns]) (simp add: up_to_date_def)

lemma reload_check_returns:
  assumes "pointers_ok fs cl" and "pointers_ok fs autos"
  shows "returns (\<lambda>(ok, fs'). length fs' = length fs \<and> (\<forall>j<length fs. lf_name (fs' ! j) = lf_name (fs ! j))
     \<and> (ok \<longrightarrow> (\<forall>j<length fs. host_fresh alloc os (fs ! j) \<longrightarrow> host_fresh alloc os (fs' ! j))
            \<and> (\<forall>i\<in>set cl. host_fresh alloc os (fs' ! i))))
   (HostlistsReloadCheck alloc os autos cl fs)"
  unfolding HostlistsReloadCheck_def
proof (subst returns_bind, rule returns_mono[OF host_lines.reload_loop_returns[OF TrueI host_store_ok assms(1)]])
  fix v :: "bool \<times> host_store"
  assume "case v of (ok, fs') \<Rightarrow> store_ok (\<lambda>pool. True) fs' \<and> length fs' = length fs \<and> (\<forall>j<length fs. lf_name (fs' ! j) = lf_name (fs ! j))
     \<and> (\<forall>j<length fs. host_fresh alloc os (fs ! j) \<longrightarrow> ok \<longrightarrow> host_fresh alloc os (fs' ! j))
     \<and> (ok \<longrightarrow> (\<forall>i\<in>set cl. host_fresh alloc os (fs' ! i)))"
  moreover obtain ok fs1 where v: "v = (ok, fs1)" by (cases v)
  ultimately have f: "length fs1 = length fs" "\<forall>j<length fs. lf_name (fs1 ! j) = lf_name (fs ! j)"
    "\<forall>j<length fs. host_fresh alloc os (fs ! j) \<longrightarrow> ok \<longrightarrow> host_fresh alloc os (fs1 ! j)"
    "ok \<longrightarrow> (\<forall>i\<in>set cl. host_fresh alloc os (fs1 ! i))" by auto
  have "pointers_ok fs1 autos" using assms(2) f(1) by (simp add: pointers_ok_def)
  note a = autolists_fresh[OF this, of alloc os]
  have c: "\<forall>i\<in>set cl. i < length fs" using assms(1) by (simp add: pointers_ok_def)
  show "returns (\<lambda>(ok, fs'). length fs' = length fs \<and> (\<forall>j<length fs. lf_name (fs' ! j) = lf_name (fs ! j))
     \<and> (ok \<longrightarrow> (\<forall>j<length fs. host_fresh alloc os (fs ! j) \<longrightarrow> host_fresh alloc os (fs' ! j))
            \<and> (\<forall>i\<in>set cl. host_fresh alloc os (fs' ! i))))
     (case v of (ok, fs) \<Rightarrow> if \<not> ok then Some (False, fs) else do { fs \<leftarrow> MakeAutolistsNonEmpty alloc autos fs; Some (True, fs) })"
  proof (cases ok)
    case True
    show ?thesis
      unfolding v prod.case using True f c
      by (simp only: not_True_eq_False if_False returns_bind) (rule returns_mono[OF a], simp)
  qed (use f in \<open>simp add: v\<close>)
qed

lemma host_reload_profile_returns:
  assumes "pointers_ok fs incl" and "pointers_ok fs excl" and "pointers_ok fs autos"
  shows "returns (\<lambda>(ok, fs'). length fs' = length fs \<and> (ok \<longrightarrow> (\<forall>i\<in>set incl \<union> set excl. host_fresh alloc os (fs' ! i))))
    (HostlistsReloadCheckForProfile alloc os autos incl excl fs)"
proof -
  obtain ok1 fs1 where r1: "HostlistsReloadCheck alloc os autos incl fs = Some (ok1, fs1)" "length fs1 = length fs"
    "ok1 \<longrightarrow> (\<forall>i\<in>set incl. host_fresh alloc os (fs1 ! i))"
    using returns_exists[OF reload_check_returns[OF assms(1,3), of alloc os]] by auto
  have po: "pointers_ok fs1 excl" "pointers_ok fs1 autos" using assms r1(2) by (simp_all add: pointers_ok_def)
  obtain ok2 fs2 where r2: "HostlistsReloadCheck alloc os autos excl fs1 = Some (ok2, fs2)" "length fs2 = length fs1"
    "ok2 \<longrightarrow> (\<forall>j<length fs1. host_fresh alloc os (fs1 ! j) \<longrightarrow> host_fresh alloc os (fs2 ! j)) \<and> (\<forall>i\<in>set excl. host_fresh alloc os (fs2 ! i))"
    using returns_exists[OF reload_check_returns[OF po, of alloc os]] by auto
  show ?thesis
    using r1 r2 assms(1) by (cases ok1) (auto simp: HostlistsReloadCheckForProfile_def pointers_ok_def)
qed

text \<open>What is left of a list after a reload: what loading makes of it, and the impossible name in an automatic list that is
  empty.\<close>

definition nonempty_list :: "bool \<Rightarrow> nat list \<Rightarrow> nat \<Rightarrow> hostlist_pool list_file \<Rightarrow> hostlist_pool list_file" where
  "nonempty_list alloc autos j f = (if j \<in> set autos then f\<lparr>lf_pool := snd (NonEmptyHostlist alloc (lf_pool f))\<rparr> else f)"

abbreviation host_reloaded :: "bool \<Rightarrow> os_env \<Rightarrow> hostlist_pool list_file \<Rightarrow> hostlist_pool list_file \<Rightarrow> bool" where
  "host_reloaded alloc os \<equiv> list_reloaded (host_addpool alloc) 4096 [] os"

lemma nonempty_twice: "snd (NonEmptyHostlist alloc (snd (NonEmptyHostlist alloc p))) = snd (NonEmptyHostlist alloc p)"
  by (auto simp: NonEmptyHostlist_def HostlistPoolAddStrLen_def split: if_splits)

lemma autolists_exact:
  "pointers_ok fs autos \<Longrightarrow> \<exists>fs'. MakeAutolistsNonEmpty alloc autos fs = Some fs' \<and> length fs' = length fs
     \<and> (\<forall>j<length fs. fs' ! j = nonempty_list alloc autos j (fs ! j))"
proof (induction autos arbitrary: fs)
  case (Cons i autos)
  let ?fs = "fs[i := (fs ! i)\<lparr>lf_pool := snd (NonEmptyHostlist alloc (lf_pool (fs ! i)))\<rparr>]"
  have "pointers_ok ?fs autos" using Cons.prems by (simp add: pointers_ok_def)
  from Cons.IH[OF this] Cons.prems show ?case
    by (auto simp: nonempty_list_def nonempty_twice nth_list_update)
qed (simp add: nonempty_list_def)

lemma reloaded_nonempty:
  "(\<exists>h. host_reloaded alloc os (nonempty_list alloc autos j f) h \<and> nonempty_list alloc autos j h = x)
    \<longleftrightarrow> (\<exists>g. host_reloaded alloc os f g \<and> nonempty_list alloc autos j g = x)"
proof -
  have c: "list_changed os (nonempty_list alloc autos j f) = list_changed os f" "lf_name (nonempty_list alloc autos j f) = lf_name f"
    by (simp_all add: list_changed_def nonempty_list_def)
  show ?thesis
  proof (cases "list_changed os f")
    case False
    have "nonempty_list alloc autos j (nonempty_list alloc autos j f) = nonempty_list alloc autos j f"
      by (simp add: nonempty_list_def nonempty_twice)
    with False show ?thesis by (simp add: list_reloaded_def c)
  qed (simp add: list_reloaded_def c)
qed

lemma reload_check_exact:
  assumes "pointers_ok fs cl" and "pointers_ok fs autos"
  shows "\<exists>ok fs'. HostlistsReloadCheck alloc os autos cl fs = Some (ok, fs') \<and> length fs' = length fs
    \<and> (ok \<longleftrightarrow> (\<forall>i\<in>set cl. \<exists>g. host_reloaded alloc os (fs ! i) g))
    \<and> (ok \<longrightarrow> (\<forall>j<length fs. \<exists>g. (if j \<in> set cl then host_reloaded alloc os (fs ! j) g else g = fs ! j)
         \<and> fs' ! j = nonempty_list alloc autos j g))"
proof -
  obtain ok fs1 where r: "reload_loop (host_addpool alloc) 4096 [] os cl fs = Some (ok, fs1)" "length fs1 = length fs"
    "ok \<longleftrightarrow> (\<forall>i\<in>set cl. \<exists>g. host_reloaded alloc os (fs ! i) g)"
    "ok \<longrightarrow> (\<forall>j<length fs. if j \<in> set cl then host_reloaded alloc os (fs ! j) (fs1 ! j) else fs1 ! j = fs ! j)"
    using host_lines.reload_loop_exact[OF TrueI host_store_ok assms(1), where os = os and room = 4096] by blast
  have "pointers_ok fs1 autos" using assms(2) r(2) by (simp add: pointers_ok_def)
  from autolists_exact[OF this, of alloc] obtain fs2 where a: "MakeAutolistsNonEmpty alloc autos fs1 = Some fs2"
    "length fs2 = length fs1" "\<forall>j<length fs1. fs2 ! j = nonempty_list alloc autos j (fs1 ! j)" by blast
  show ?thesis
  proof (cases ok)
    case True
    have "\<exists>g. (if j \<in> set cl then host_reloaded alloc os (fs ! j) g else g = fs ! j) \<and> fs2 ! j = nonempty_list alloc autos j g"
      if "j < length fs" for j
      by (rule exI[of _ "fs1 ! j"]) (use that r(2,4) a(3) True in auto)
    then show ?thesis using True r(1,2,3) a(1,2) by (intro exI[of _ True] exI[of _ fs2]) (simp add: HostlistsReloadCheck_def)
  next
    case False
    then show ?thesis using r by (intro exI[of _ False] exI[of _ fs1]) (simp add: HostlistsReloadCheck_def)
  qed
qed

lemma reload_profile_exact:
  assumes "pointers_ok fs incl" and "pointers_ok fs excl" and "pointers_ok fs autos"
  shows "\<exists>ok fs'. HostlistsReloadCheckForProfile alloc os autos incl excl fs = Some (ok, fs') \<and> length fs' = length fs
    \<and> (ok \<longleftrightarrow> (\<forall>i\<in>set incl \<union> set excl. \<exists>g. host_reloaded alloc os (fs ! i) g))
    \<and> (ok \<longrightarrow> (\<forall>j<length fs. \<exists>g. (if j \<in> set incl \<union> set excl then host_reloaded alloc os (fs ! j) g else g = fs ! j)
         \<and> fs' ! j = nonempty_list alloc autos j g))"
proof -
  let ?R = "host_reloaded alloc os" and ?N = "nonempty_list alloc autos"
  obtain ok1 fs1 where r: "HostlistsReloadCheck alloc os autos incl fs = Some (ok1, fs1)" "length fs1 = length fs"
    "ok1 \<longleftrightarrow> (\<forall>i\<in>set incl. \<exists>g. ?R (fs ! i) g)"
    "ok1 \<longrightarrow> (\<forall>j<length fs. \<exists>g. (if j \<in> set incl then ?R (fs ! j) g else g = fs ! j) \<and> fs1 ! j = ?N j g)"
    using reload_check_exact[OF assms(1,3), of alloc os] by blast
  show ?thesis
  proof (cases ok1)
    case False
    then show ?thesis using r by (intro exI[of _ False] exI[of _ fs1]) (auto simp: HostlistsReloadCheckForProfile_def)
  next
    case True
    have po: "pointers_ok fs1 excl" "pointers_ok fs1 autos" using assms r(2) by (simp_all add: pointers_ok_def)
    obtain ok2 fs2 where s: "HostlistsReloadCheck alloc os autos excl fs1 = Some (ok2, fs2)" "length fs2 = length fs"
      "ok2 \<longleftrightarrow> (\<forall>i\<in>set excl. \<exists>g. ?R (fs1 ! i) g)"
      "ok2 \<longrightarrow> (\<forall>j<length fs. \<exists>g. (if j \<in> set excl then ?R (fs1 ! j) g else g = fs1 ! j) \<and> fs2 ! j = ?N j g)"
      using reload_check_exact[OF po, of alloc os] unfolding r(2) by blast
    have loaded: "(\<exists>h. ?R (fs1 ! j) h \<and> ?N j h = x) \<longleftrightarrow> (\<exists>g. ?R (fs ! j) g \<and> ?N j g = x)" if jx: "j < length fs" for j x
    proof -
      obtain g where g: "if j \<in> set incl then ?R (fs ! j) g else g = fs ! j" "fs1 ! j = ?N j g" using r(4) True jx by blast
      have "(\<exists>h. ?R (fs1 ! j) h \<and> ?N j h = x) \<longleftrightarrow> (\<exists>h. ?R g h \<and> ?N j h = x)" unfolding g(2) by (rule reloaded_nonempty)
      also have "\<dots> \<longleftrightarrow> (\<exists>g. ?R (fs ! j) g \<and> ?N j g = x)"
        using g(1) reloaded_again[of "host_addpool alloc" 4096 "[]" os "fs ! j" g] reloaded_once[of "host_addpool alloc" 4096 "[]" os "fs ! j" g]
        by (cases "j \<in> set incl") auto
      finally show ?thesis .
    qed
    have e: "\<forall>i\<in>set excl. i < length fs" using assms(2) by (simp add: pointers_ok_def)
    have "ok2 \<longleftrightarrow> (\<forall>i\<in>set excl. \<exists>g. ?R (fs ! i) g)" unfolding s(3) using loaded e by blast
    then have ok: "ok2 \<longleftrightarrow> (\<forall>i\<in>set incl \<union> set excl. \<exists>g. ?R (fs ! i) g)" using r(3) True by blast
    have "\<exists>g. (if j \<in> set incl \<union> set excl then ?R (fs ! j) g else g = fs ! j) \<and> fs2 ! j = ?N j g" if jl: "j < length fs" ok2 for j
    proof (cases "j \<in> set excl")
      case True
      then obtain h where "?R (fs1 ! j) h" "fs2 ! j = ?N j h" using s(4) jl by auto
      then show ?thesis using loaded[OF jl(1), of "fs2 ! j"] True by auto
    next
      case False
      obtain g where "if j \<in> set incl then ?R (fs ! j) g else g = fs ! j" "fs1 ! j = ?N j g"
        using r(4) \<open>ok1\<close> jl by blast
      moreover have "fs2 ! j = ?N j (fs1 ! j)" using s(4) jl False by auto
      ultimately show ?thesis using False by (auto simp: nonempty_list_def nonempty_twice)
    qed
    then show ?thesis using r True s ok by (intro exI[of _ ok2] exI[of _ fs2]) (simp add: HostlistsReloadCheckForProfile_def)
  qed
qed

subsection \<open>What a search finds\<close>

text \<open>The host and its parent domains: what follows a dot.\<close>

definition subdomain_of :: "bytes \<Rightarrow> bytes \<Rightarrow> bool" where
  "subdomain_of host d \<longleftrightarrow> d = host \<or> (\<exists>pre. host = pre @ ch (CHR ''.'') # d)"

lemma domain_of_rest:
  "(\<exists>pre. host = pre @ ch (CHR ''.'') # d) \<longleftrightarrow>
     (case dropWhile (\<lambda>c. c \<noteq> ch (CHR ''.'')) host of [] \<Rightarrow> False | _ # rest \<Rightarrow> subdomain_of rest d)"
  by (induction host) (auto simp: subdomain_of_def Cons_eq_append_conv)

lemma host_search_exact:
  "host_search pool nosub full p \<longleftrightarrow>
     (\<exists>fl. hash_find pool p = Some fl \<and> (bit fl 0 \<longrightarrow> full))
     \<or> \<not> nosub \<and> (\<exists>d pre fl. p = pre @ ch (CHR ''.'') # d \<and> hash_find pool d = Some fl \<and> \<not> bit fl 0)"
proof (induction pool nosub full p rule: host_search.induct)
  case (1 pool nosub full p)
  have b: "(fl AND 1 \<noteq> 0) = bit fl 0" for fl :: u32 by (simp add: and_one_eq odd_iff_mod_2_eq_one bit_0)
  let ?hit = "\<exists>fl. hash_find pool p = Some fl \<and> (bit fl 0 \<longrightarrow> full)"
  let ?sub = "\<lambda>p. \<exists>d fl. (\<exists>pre. p = pre @ ch (CHR ''.'') # d) \<and> hash_find pool d = Some fl \<and> \<not> bit fl 0"
  have h: "(case HostlistPoolGetStr pool p of None \<Rightarrow> False
          | Some fl \<Rightarrow> \<not> (fl AND HOSTLIST_POOL_FLAG_STRICT_MATCH \<noteq> 0 \<and> \<not> full)) \<longleftrightarrow> ?hit"
    by (auto simp: HostlistPoolGetStr_def HOSTLIST_POOL_FLAG_STRICT_MATCH_def b split: option.splits)
  have goal: "host_search pool nosub full p \<longleftrightarrow> ?hit \<or> \<not> nosub \<and> ?sub p"
  proof (cases "?hit \<or> nosub")
    case True
    then show ?thesis by (subst host_search.simps) (auto simp only: h if_True if_False split: if_splits)
  next
    case False
    then have n: "\<not> ?hit" "\<not> nosub" by simp_all
    show ?thesis
    proof (cases "dropWhile (\<lambda>c. c \<noteq> ch (CHR ''.'')) p")
      case Nil
      have "\<not> host_search pool nosub full p"
        using n by (subst host_search.simps) (simp only: h Nil list.case if_False simp_thms)
      moreover have "\<not> ?sub p" unfolding domain_of_rest Nil by simp
      ultimately show ?thesis using n by blast
    next
      case (Cons x r)
      have ih: "host_search pool False False r \<longleftrightarrow>
        (\<exists>fl. hash_find pool r = Some fl \<and> (bit fl 0 \<longrightarrow> False)) \<or> \<not> False \<and> (\<exists>d pre fl. r = pre @ ch (CHR ''.'') # d \<and> hash_find pool d = Some fl \<and> \<not> bit fl 0)"
        using "1.IH"[unfolded h, OF n(1,2) Cons] n(2) by simp
      have "host_search pool nosub full p = host_search pool False False r"
        using n by (subst host_search.simps) (simp only: h Cons list.case if_False simp_thms)
      also have "\<dots> \<longleftrightarrow> (\<exists>d fl. subdomain_of r d \<and> hash_find pool d = Some fl \<and> \<not> bit fl 0)"
        unfolding ih by (auto simp: subdomain_of_def)
      also have "\<dots> \<longleftrightarrow> ?sub p" unfolding domain_of_rest Cons list.case ..
      finally show ?thesis using n by blast
    qed
  qed
  then show ?case by blast
qed

lemma SearchHostList_exact:
  "SearchHostList pool host nosub \<longleftrightarrow>
     (\<exists>d fl. (if nosub then d = host else subdomain_of host d) \<and> hash_find pool d = Some fl \<and> (bit fl 0 \<longrightarrow> d = host))"
proof -
  have n: "host \<noteq> pre @ ch (CHR ''.'') # host" for pre by (metis append_Cons append_is_Nil_conv append_self_conv2 append_assoc list.distinct(1) length_append list.size(4) add.commute not_add_less1 less_add_one add.assoc add_Suc_right le_add2 le_imp_less_Suc nat_neq_iff append.assoc)
  show ?thesis
  proof (cases "pool = []")
    case False
    then show ?thesis
      by (auto simp: SearchHostList_def host_search_exact subdomain_of_def n split: if_splits)
  qed (simp add: SearchHostList_def)
qed

subsection \<open>What a text loads\<close>

text \<open>The text of a list: entries of whether they are strict and the name, one to a line.\<close>

definition line_ok :: "bool \<times> bytes \<Rightarrow> bool" where
  "line_ok e \<longleftrightarrow> snd e \<noteq> [] \<and> list_all list_char (snd e)
     \<and> (\<not> fst e \<longrightarrow> \<not> is_comment (hd (snd e)) \<and> hd (snd e) \<noteq> ch (CHR ''^''))"

definition line_bytes :: "bool \<times> bytes \<Rightarrow> bytes" where
  "line_bytes e = (if fst e then [ch (CHR ''^'')] else []) @ snd e @ [10]"

definition entry_put :: "bool \<times> bytes \<Rightarrow> hostlist_pool \<Rightarrow> hostlist_pool" where
  "entry_put e pool = snd (HostlistPoolAddStrLen True pool (map to_lower (snd e)) (if fst e then 1 else 0))"

text \<open>The entry that decides for a name is the first one with it.\<close>

definition first_entry :: "(bool \<times> bytes) list \<Rightarrow> bytes \<Rightarrow> (bool \<times> bytes) option" where
  "first_entry es d = List.find (\<lambda>e. map to_lower (snd e) = d) es"

lemma entry_put_find:
  "hash_find (foldl (\<lambda>t e. entry_put e t) t es) k =
     (case hash_find t k of Some fl \<Rightarrow> Some fl
      | None \<Rightarrow> map_option (\<lambda>e. if fst e then 1 else 0) (first_entry es k))"
proof (induction es arbitrary: t)
  case (Cons e es)
  then show ?case
    by (auto simp: entry_put_def HostlistPoolAddStrLen_def first_entry_def find_hash_add split: option.splits)
qed (simp add: first_entry_def split: option.splits)

lemma host_addpool_line:
  assumes "line_ok e" and "rest = [] \<or> (hd rest \<noteq> 0 \<and> \<not> is_nl (hd rest))"
    and "d = pre @ line_bytes e @ rest" and "n = length d"
  shows "\<exists>pre'. length pre' = length (pre @ line_bytes e) \<and>
    host_addpool True d (length pre) n pool = Some (True, entry_put e pool, pre' @ rest, length (pre @ line_bytes e))"
proof -
  define c where "c = (if fst e then [ch (CHR ''^'')] else [])"
  define nm where "nm = snd e"
  have nm: "nm \<noteq> []" "list_all list_char nm" using assms(1) by (auto simp: line_ok_def nm_def)
  have lc: "list_char (hd nm)" using nm by (cases nm) auto
  have d: "d = pre @ (c @ nm @ [10]) @ rest" by (simp add: assms(3) line_bytes_def c_def nm_def)
  define c0 where "c0 = hd (c @ nm)"
  have c0: "\<not> is_tab c0" "\<not> is_nl c0" "\<not> is_comment c0" "c0 = ch (CHR ''^'') \<longleftrightarrow> fst e"
    using assms(1) lc by (auto simp: c0_def c_def nm_def line_ok_def list_char_def is_tab_def is_nl_def is_comment_def split: if_splits)
  have cn: "c @ nm = c0 # tl (c @ nm)" using nm(1) by (simp add: c0_def)
  have s1: "scan is_tab d (length pre) n = Some (length pre)"
    using scan_run[of is_tab "[]" "(c @ nm @ [10]) @ rest" "length pre" pre n] c0(1) cn
    by (simp add: d assms(4)) (metis append_assoc append_Cons list.sel(1))
  have r1: "rd d (length pre) = Some c0"
  proof -
    have "d = pre @ c0 # (tl (c @ nm) @ [10] @ rest)" unfolding d using cn by (metis append_Cons append_assoc)
    then show ?thesis by (simp add: rd_def)
  qed
  let ?s = "length (pre @ c)" and ?q = "length (pre @ c @ nm)"
  have s2: "scan list_char d ?s n = Some ?q"
    using scan_run[of list_char nm "10 # rest" ?s "pre @ c" n] nm(2)
    by (simp add: d assms(4) list_char_def is_nl_def)
  let ?d = "(pre @ c @ map to_lower nm) @ 10 # rest"
  have lr: "lower_range d ?s ?q = ?d" by (simp add: lower_range_def d)
  have rb: "rd_block ?d ?s (?q - ?s) = Some (map to_lower nm)" by (simp add: rd_block_def)
  have s: "(if c0 = ch (CHR ''^'') then (length pre + 1, HOSTLIST_POOL_FLAG_STRICT_MATCH) else (length pre, 0))
      = (?s, if fst e then 1 else 0)"
    using c0(4) by (simp add: c_def HOSTLIST_POOL_FLAG_STRICT_MATCH_def)
  obtain pool' where p: "HostlistPoolAddStrLen True pool (map to_lower nm) (if fst e then 1 else 0) = (True, pool')"
    by (cases "hash_find pool (map to_lower nm)") (simp_all add: HostlistPoolAddStrLen_def)
  have he: "host_entry True d (length pre) n c0 pool = Some (True, pool', ?d, ?q)"
    unfolding host_entry_def s using s2 lr rb p by (simp add: Let_def)
  let ?l = "length ?d"
  have n: "n = ?l" by (simp add: assms(4) d)
  have l1: "scan (\<lambda>c. c \<noteq> 0 \<and> \<not> is_nl c) ?d ?q n = Some ?q"
    using scan_run[of "\<lambda>c. c \<noteq> 0 \<and> \<not> is_nl c" "[]" "10 # rest" ?q "pre @ c @ map to_lower nm" n] by (simp add: n is_nl_def)
  have l2: "scan (\<lambda>c. c = 0 \<or> is_nl c) ?d ?q n = Some (?q + 1)"
    using scan_run[of "\<lambda>c. c = 0 \<or> is_nl c" "[10]" rest ?q "pre @ c @ map to_lower nm" n] assms(2) by (simp add: n is_nl_def)
  have "length pre < n" using nm(1) by (simp add: assms(4) d)
  then have "host_addpool True d (length pre) n pool = Some (True, pool', ?d, ?q + 1)"
    using s1 r1 c0(2,3) he l1 l2 by (simp add: host_addpool_def next_line_def)
  moreover have "entry_put e pool = pool'" using p by (simp add: entry_put_def nm_def)
  moreover have "?q + 1 = length (pre @ line_bytes e)" by (simp add: line_bytes_def c_def nm_def)
  moreover have "?d = (pre @ c @ map to_lower nm @ [10]) @ rest" by simp
  ultimately show ?thesis
    by (intro exI[of _ "pre @ c @ map to_lower nm @ [10]"]) (simp add: line_bytes_def c_def nm_def)
qed

lemma line_first: "line_ok e \<Longrightarrow> line_bytes e \<noteq> [] \<and> hd (line_bytes e) \<noteq> 0 \<and> \<not> is_nl (hd (line_bytes e))"
  by (cases "snd e") (auto simp: line_ok_def line_bytes_def list_char_def is_nl_def)

lemma append_text_lines:
  assumes "list_all line_ok es" and "d = pre @ concat (map line_bytes es)"
  shows "append_text (host_addpool True) d (length pre) (length d) pool = Some (True, foldl (\<lambda>t e. entry_put e t) pool es)"
  using assms
proof (induction es arbitrary: pre d pool)
  case Nil
  then show ?case by (subst append_text.simps) simp
next
  case (Cons e es)
  let ?rest = "concat (map line_bytes es)"
  have ok: "line_ok e" "list_all line_ok es" using Cons.prems by auto
  have r: "?rest = [] \<or> (hd ?rest \<noteq> 0 \<and> \<not> is_nl (hd ?rest))"
    using ok(2) line_first by (cases es) auto
  obtain pre' where p: "length pre' = length (pre @ line_bytes e)"
    "host_addpool True d (length pre) (length d) pool = Some (True, entry_put e pool, pre' @ ?rest, length pre')"
    using host_addpool_line[OF ok(1) r _ refl, of d pre pool] Cons.prems(2) by auto
  have "length pre < length d" using line_first[OF ok(1)] by (simp add: Cons.prems(2))
  moreover have "length d = length (pre' @ ?rest)" using p(1) by (simp add: Cons.prems(2))
  ultimately show ?case
    using Cons.IH[OF ok(2) refl, of pre' "entry_put e pool"] p by (subst append_text.simps) simp
qed

text \<open>A line and its end fit into the buffer a plain file is read with.\<close>

definition line_fits :: "bool \<times> bytes \<Rightarrow> bool" where
  "line_fits e \<longleftrightarrow> length (line_bytes e) < 4096"

lemma line_char: "line_ok e \<Longrightarrow> c \<in> set (line_bytes e) \<Longrightarrow> c \<noteq> 0"
  by (auto simp: line_ok_def line_bytes_def list_all_iff list_char_def split: if_splits)

lemma plain_lines:
  assumes "list_all line_ok es" and "list_all line_fits es"
  shows "map (takeWhile (\<lambda>c. c \<noteq> 0)) (fgets_lines 4096 (concat (map line_bytes es))) = map line_bytes es"
  using assms
proof (induction es)
  case Nil
  then show ?case by (simp add: fgets_lines.simps)
next
  case (Cons e es)
  let ?s = "(if fst e then [ch (CHR ''^'')] else []) @ snd e"
  have l: "line_bytes e = ?s @ [10]" by (simp add: line_bytes_def)
  have "10 \<notin> set ?s" using Cons.prems(1) by (auto simp: line_ok_def list_all_iff list_char_def is_nl_def)
  moreover have "length ?s + 1 < 4096" using Cons.prems(2) by (simp add: line_fits_def l)
  ultimately have "fgets_lines 4096 (?s @ 10 # concat (map line_bytes es)) = (?s @ [10]) # fgets_lines 4096 (concat (map line_bytes es))"
    by (rule fgets_lines_line)
  moreover have "takeWhile (\<lambda>c. c \<noteq> 0) (line_bytes e) = line_bytes e"
    using Cons.prems(1) line_char[of e] by (auto simp: takeWhile_eq_all_conv)
  ultimately show ?case using Cons by (simp add: l)
qed

lemma append_lines_lines:
  "list_all line_ok es \<Longrightarrow>
   append_lines (host_addpool True) (map line_bytes es) pool = Some (True, foldl (\<lambda>t e. entry_put e t) pool es)"
proof (induction es arbitrary: pool)
  case (Cons e es)
  then obtain pre' where "host_addpool True (line_bytes e) 0 (length (line_bytes e)) pool
      = Some (True, entry_put e pool, pre', length (line_bytes e))"
    using host_addpool_line[of e "[]" "line_bytes e" "[]" "length (line_bytes e)" pool] by auto
  with Cons show ?case by simp
qed simp

subsection \<open>Properties\<close>

text \<open>C9: Loading a list whose text has one entry to a line gives the same pool from an archive and, if every line with its
  end fits into the buffer of 4096 bytes, from a plain file, without a memory fault and in finitely many steps, and a host is
  then found exactly if it, or a parent domain of it, is in the list, case ignored in the list; the first entry of a name
  decides whether it stands for itself only.\<close>

theorem hostlist_load_search:
  assumes "list_all line_ok es"
    and "f = GzipText (concat (map line_bytes es)) \<or> f = PlainText (concat (map line_bytes es)) False \<and> list_all line_fits es"
  shows "\<exists>pool. AppendHostList True [] f = Some (True, pool)
    \<and> (\<forall>host nosub. SearchHostList pool host nosub \<longleftrightarrow>
        (\<exists>d e. (d = host \<or> \<not> nosub \<and> subdomain_of host d) \<and> first_entry es d = Some e \<and> (fst e \<longrightarrow> d = host)))"
proof -
  let ?pool = "foldl (\<lambda>t e. entry_put e t) [] es"
  have "AppendHostList True [] f = Some (True, ?pool)"
    using assms(2) append_text_lines[OF assms(1), of _ "[]" "[]"] append_lines_lines[OF assms(1), of "[]"] plain_lines[OF assms(1)]
    by (auto simp: AppendHostList_def append_file_def)
  moreover have "SearchHostList ?pool host nosub \<longleftrightarrow>
        (\<exists>d e. (d = host \<or> \<not> nosub \<and> subdomain_of host d) \<and> first_entry es d = Some e \<and> (fst e \<longrightarrow> d = host))" for host nosub
  proof -
    have k: "(\<exists>fl. hash_find ?pool d = Some fl \<and> (bit fl 0 \<longrightarrow> q)) \<longleftrightarrow> (\<exists>e. first_entry es d = Some e \<and> (fst e \<longrightarrow> q))" for d q
      by (cases "first_entry es d") (auto simp: entry_put_find)
    have dd: "(if nosub then d = host else subdomain_of host d) \<longleftrightarrow> d = host \<or> \<not> nosub \<and> subdomain_of host d" for d
      by (simp add: subdomain_of_def)
    show ?thesis unfolding SearchHostList_exact dd using k by blast
  qed
  ultimately show ?thesis by blast
qed

lemma hostlist_load_search_witness:
  "\<exists>pool. AppendHostList True [] (PlainText (lit ''a.b'' @ [10] @ lit ''^C'' @ [10]) False) = Some (True, pool)
     \<and> SearchHostList pool [120, 46, 97, 46, 98] False"
proof -
  let ?es = "[(False, [97, 46, 98]), (True, [67])] :: (bool \<times> bytes) list"
  have ok: "list_all line_ok ?es" by (simp add: line_ok_def list_char_def is_tab_def is_nl_def is_comment_def)
  have fits: "PlainText (concat (map line_bytes ?es)) False = PlainText (concat (map line_bytes ?es)) False \<and> list_all line_fits ?es"
    by (simp add: line_fits_def line_bytes_def)
  have tx: "concat (map line_bytes ?es) = lit ''a.b'' @ [10] @ lit ''^C'' @ [10]" by (simp add: line_bytes_def)
  from hostlist_load_search[OF ok disjI2[OF fits]]
  obtain pool where p: "AppendHostList True [] (PlainText (concat (map line_bytes ?es)) False) = Some (True, pool)"
    and q: "\<forall>host nosub. SearchHostList pool host nosub \<longleftrightarrow>
        (\<exists>d e. (d = host \<or> \<not> nosub \<and> subdomain_of host d) \<and> first_entry ?es d = Some e \<and> (fst e \<longrightarrow> d = host))"
    by (elim exE conjE) (rule that, assumption+)
  have f: "first_entry ?es [97, 46, 98] = Some (False, [97, 46, 98])" by (simp add: first_entry_def to_lower_def)
  have dm: "subdomain_of [120, 46, 97, 46, 98] [97, 46, 98]" by (simp add: subdomain_of_def Cons_eq_append_conv)
  have "SearchHostList pool [120, 46, 97, 46, 98] False"
    by (rule q[THEN spec, THEN spec, THEN iffD2], rule exI[of _ "[97, 46, 98]"], rule exI[of _ "(False, [97, 46, 98])"])
       (simp only: f dm simp_thms fst_conv)
  with p show ?thesis unfolding tx by (intro exI[of _ pool]) simp
qed

text \<open>With the lists in memory, the check passes a host exactly if no exclude list has it and either all include lists
  are empty or one has it; the flag tells whether an exclude list had it. Nothing in memory changes.\<close>

theorem HostlistCheck_exact:
  assumes "pointers_ok fs incl" and "pointers_ok fs excl"
  shows "HostlistCheck alloc os autos incl excl fs host nosub True = Some
    ((\<forall>i\<in>set excl. \<not> SearchHostList (lf_pool (fs ! i)) host nosub)
       \<and> ((\<forall>i\<in>set incl. lf_pool (fs ! i) = []) \<or> (\<exists>i\<in>set incl. SearchHostList (lf_pool (fs ! i)) host nosub)),
     \<exists>i\<in>set excl. SearchHostList (lf_pool (fs ! i)) host nosub, fs)"
  using list_check_exact[OF assms, of _ "\<lambda>p. SearchHostList p host nosub"]
  by (simp add: HostlistCheck_def)

lemma HostlistCheck_exact_witness:
  "\<exists>fs. HostlistCheck True os [] [0] [1] fs [97] False True = Some (False, True, fs)"
proof -
  let ?f = "\<lambda>p. \<lparr>lf_name = None, lf_sig = FILE_MOD_RESET, lf_pool = p\<rparr> :: hostlist_pool list_file"
  let ?fs = "[?f [([98], 0)], ?f [([97], 1)]]"
  have "SearchHostList [([97], 1)] [97] False" by (auto simp: SearchHostList_exact subdomain_of_def)
  with HostlistCheck_exact[of ?fs "[0]" "[1]" True os "[]" "[97]" False] show ?thesis
    by (intro exI[of _ ?fs]) simp
qed

text \<open>C26: A check that reloads the lists first meets no memory fault and always ends, whatever the files hold. The reload
  succeeds exactly if every list of the profile whose file is there, can be opened and has another signature than the one it was
  loaded with can be read; these lists then have the content and the signature of their files, all other lists of the profile
  stay as they are, also those whose file cannot be examined or opened, and so do the lists of other profiles, up to the
  impossible name that automatic lists get when they are empty. The check answers no if the reload fails, and otherwise as the
  lists in memory do.\<close>

theorem HostlistCheck_reloads:
  assumes "pointers_ok fs incl" and "pointers_ok fs excl" and "pointers_ok fs autos"
  shows "\<exists>ok fs'. HostlistsReloadCheckForProfile alloc os autos incl excl fs = Some (ok, fs') \<and> length fs' = length fs
    \<and> (ok \<longleftrightarrow> (\<forall>i\<in>set incl \<union> set excl. \<exists>g. host_reloaded alloc os (fs ! i) g))
    \<and> (ok \<longrightarrow> (\<forall>j<length fs. \<exists>g. (if j \<in> set incl \<union> set excl then host_reloaded alloc os (fs ! j) g else g = fs ! j)
         \<and> fs' ! j = nonempty_list alloc autos j g))
    \<and> HostlistCheck alloc os autos incl excl fs host nosub False =
        (if ok then HostlistCheck alloc os autos incl excl fs' host nosub True else Some (False, False, fs'))
    \<and> HostlistCheck alloc os autos incl excl fs' host nosub True \<noteq> None"
proof -
  obtain ok fs' where r: "HostlistsReloadCheckForProfile alloc os autos incl excl fs = Some (ok, fs')" "length fs' = length fs"
    "ok \<longleftrightarrow> (\<forall>i\<in>set incl \<union> set excl. \<exists>g. host_reloaded alloc os (fs ! i) g)"
    "ok \<longrightarrow> (\<forall>j<length fs. \<exists>g. (if j \<in> set incl \<union> set excl then host_reloaded alloc os (fs ! j) g else g = fs ! j)
         \<and> fs' ! j = nonempty_list alloc autos j g)"
    using reload_profile_exact[OF assms, of alloc os] by blast
  have p: "pointers_ok fs' incl" "pointers_ok fs' excl" using assms r(2) by (simp_all add: pointers_ok_def)
  note lc = list_check_exact[OF p, of "\<lambda>p. Some (SearchHostList p host nosub)" "\<lambda>p. SearchHostList p host nosub" "\<lambda>p. p = []", OF refl]
  have "HostlistCheck alloc os autos incl excl fs' host nosub True \<noteq> None"
    by (simp add: HostlistCheck_def lc)
  with r show ?thesis by (intro exI[of _ ok] exI[of _ fs'] conjI) (auto simp: HostlistCheck_def)
qed

lemma HostlistCheck_reloads_witness:
  "\<exists>ok fs'. HostlistsReloadCheckForProfile True
     (\<lambda>n. \<lparr>os_sig = Some \<lparr>mod_time = 5, mod_size = 3\<rparr>, os_readable = True, os_data = GzipText [97, 10]\<rparr>)
     [0] [0] [] [\<lparr>lf_name = Some [1], lf_sig = FILE_MOD_RESET, lf_pool = []\<rparr>] = Some (ok, fs')"
  using HostlistCheck_reloads[of "[\<lparr>lf_name = Some [1], lf_sig = FILE_MOD_RESET, lf_pool = []\<rparr>]" "[0]" "[]" "[0]" True
      "\<lambda>n. \<lparr>os_sig = Some \<lparr>mod_time = 5, mod_size = 3\<rparr>, os_readable = True, os_data = GzipText [97, 10]\<rparr>" "[]" False]
  by auto

end
