(* ===== verification/Ipset.thy ===== *)
theory Ipset
  imports ListFile Hostlist Filters
begin

text \<open>
  Address sets: src/nfq2/ipset.c and the prefix trees of src/nfq2/pools.c (\<open>kavl_bit_*\<close>, \<open>ipset4*\<close>, \<open>ipset6*\<close>). A set is
  an AVL tree (src/nfq2/kavl.h) of prefixes under a comparison that takes two prefixes for equal when one extends the
  other, so that a search for a whole address finds the prefix it lies in.

  The tree is the list of its elements. kavl.h finds an element that compares as equal to the key, if there is one;
  which one, when there are several, depends on the shape of the tree: \<open>pick\<close> chooses it from all of them.
\<close>

record kavl_bit_elem =
  kb_bitlen :: nat
  kb_data :: bytes

type_synonym kavl = "kavl_bit_elem list"
type_synonym kavl_pick = "kavl_bit_elem list \<Rightarrow> kavl_bit_elem"

subsection \<open>The comparison\<close>

fun memcmp_bytes :: "bytes \<Rightarrow> bytes \<Rightarrow> int" where
  "memcmp_bytes (a # as) (b # bs) = (if a < b then -1 else if b < a then 1 else memcmp_bytes as bs)"
| "memcmp_bytes _ _ = 0"

definition kavl_bit_cmp :: "kavl_bit_elem \<Rightarrow> kavl_bit_elem \<Rightarrow> int option" where
  "kavl_bit_cmp p q = do {
     let bitlen = (if kb_bitlen q < kb_bitlen p then kb_bitlen q else kb_bitlen p);
     let df = bitlen mod 8;
     let n = bitlen div 8;
     a \<leftarrow> rd_block (kb_data p) 0 n;
     b \<leftarrow> rd_block (kb_data q) 0 n;
     let c = memcmp_bytes a b;
     if c \<noteq> 0 \<or> df = 0 then Some c
     else do {
       x \<leftarrow> rd (kb_data p) n;
       y \<leftarrow> rd (kb_data q) n;
       let c1 = drop_bit (8 - df) x;
       let c2 = drop_bit (8 - df) y;
       Some (if c1 < c2 then -1 else if c1 = c2 then 0 else 1) } }"

text \<open>All elements that compare as equal to a key.\<close>

fun kavl_equal :: "kavl \<Rightarrow> kavl_bit_elem \<Rightarrow> kavl option" where
  "kavl_equal [] x = Some []"
| "kavl_equal (e # t) x = do {
     c \<leftarrow> kavl_bit_cmp x e;
     es \<leftarrow> kavl_equal t x;
     Some (if c = 0 then e # es else es) }"

definition kavl_find :: "kavl_pick \<Rightarrow> kavl \<Rightarrow> kavl_bit_elem \<Rightarrow> kavl_bit_elem option option" where
  "kavl_find pick t x = do {
     es \<leftarrow> kavl_equal t x;
     Some (if es = [] then None else Some (pick es)) }"

definition kavl_erase :: "kavl_pick \<Rightarrow> kavl \<Rightarrow> kavl_bit_elem \<Rightarrow> kavl option" where
  "kavl_erase pick t x = do {
     r \<leftarrow> kavl_find pick t x;
     Some (case r of None \<Rightarrow> t | Some v \<Rightarrow> remove1 v t) }"

text \<open>An element is inserted only if none is equal to it; otherwise the equal one is returned.\<close>

definition kavl_insert :: "kavl_pick \<Rightarrow> kavl \<Rightarrow> kavl_bit_elem \<Rightarrow> (kavl \<times> kavl_bit_elem option) option" where
  "kavl_insert pick t e = do {
     r \<leftarrow> kavl_find pick t e;
     Some (case r of None \<Rightarrow> (e # t, None) | Some v \<Rightarrow> (t, Some v)) }"

definition kavl_bit_delete :: "kavl_pick \<Rightarrow> kavl \<Rightarrow> bytes \<Rightarrow> nat \<Rightarrow> kavl option" where
  "kavl_bit_delete pick t data bitlen = kavl_erase pick t \<lparr>kb_bitlen = bitlen, kb_data = data\<rparr>"

text \<open>A wider prefix replaces the narrower ones, one after the other; a narrower one is dropped.\<close>

partial_function (option) kavl_bit_add_loop :: "kavl_pick \<Rightarrow> kavl \<Rightarrow> kavl_bit_elem \<Rightarrow> kavl option" where
  "kavl_bit_add_loop pick t e = do {
     (t, v) \<leftarrow> kavl_insert pick t e;
     case v of None \<Rightarrow> Some t
     | Some v \<Rightarrow>
         if kb_bitlen e < kb_bitlen v then do {
           t \<leftarrow> kavl_bit_delete pick t (kb_data v) (kb_bitlen v);
           kavl_bit_add_loop pick t e }
         else Some t }"

declare kavl_bit_add_loop.simps [code]

definition kavl_bit_add :: "kavl_pick \<Rightarrow> bool \<Rightarrow> kavl \<Rightarrow> bytes \<Rightarrow> nat \<Rightarrow> (bool \<times> kavl) option" where
  "kavl_bit_add pick alloc t data bitlen =
     (if \<not> alloc then Some (False, t)
      else do { t \<leftarrow> kavl_bit_add_loop pick t \<lparr>kb_bitlen = bitlen, kb_data = data\<rparr>; Some (True, t) })"

definition kavl_bit_get :: "kavl_pick \<Rightarrow> kavl \<Rightarrow> bytes \<Rightarrow> nat \<Rightarrow> kavl_bit_elem option option" where
  "kavl_bit_get pick t data bitlen = kavl_find pick t \<lparr>kb_bitlen = bitlen, kb_data = data\<rparr>"

subsection \<open>Sets of addresses\<close>

definition ipset_kavl_add :: "kavl_pick \<Rightarrow> bool \<Rightarrow> kavl \<Rightarrow> bytes \<Rightarrow> u8 \<Rightarrow> (bool \<times> kavl) option" where
  "ipset_kavl_add pick alloc t a preflen = do {
     let bytelen = (unat preflen + 7) div 8;
     if bytelen \<noteq> 0 \<and> \<not> alloc then Some (False, t)
     else do {
       abuf \<leftarrow> rd_block a 0 bytelen;
       kavl_bit_add pick alloc t abuf (unat preflen) } }"

definition ipset4Add :: "kavl_pick \<Rightarrow> bool \<Rightarrow> kavl \<Rightarrow> bytes \<Rightarrow> u8 \<Rightarrow> (bool \<times> kavl) option" where
  "ipset4Add pick alloc t a preflen = (if preflen > 32 then Some (False, t) else ipset_kavl_add pick alloc t a preflen)"

definition ipset6Add :: "kavl_pick \<Rightarrow> bool \<Rightarrow> kavl \<Rightarrow> bytes \<Rightarrow> u8 \<Rightarrow> (bool \<times> kavl) option" where
  "ipset6Add pick alloc t a preflen = (if preflen > 128 then Some (False, t) else ipset_kavl_add pick alloc t a preflen)"

definition ipset4AddCidr :: "kavl_pick \<Rightarrow> bool \<Rightarrow> kavl \<Rightarrow> cidr \<Rightarrow> (bool \<times> kavl) option" where
  "ipset4AddCidr pick alloc t c = ipset4Add pick alloc t (cidr_addr c) (cidr_preflen c)"

definition ipset6AddCidr :: "kavl_pick \<Rightarrow> bool \<Rightarrow> kavl \<Rightarrow> cidr \<Rightarrow> (bool \<times> kavl) option" where
  "ipset6AddCidr pick alloc t c = ipset6Add pick alloc t (cidr_addr c) (cidr_preflen c)"

definition ipset4Check :: "kavl_pick \<Rightarrow> kavl \<Rightarrow> bytes \<Rightarrow> u8 \<Rightarrow> bool option" where
  "ipset4Check pick t a preflen = map_option (\<lambda>r. r \<noteq> None) (kavl_bit_get pick t a (unat preflen))"

definition ipset6Check :: "kavl_pick \<Rightarrow> kavl \<Rightarrow> bytes \<Rightarrow> u8 \<Rightarrow> bool option" where
  "ipset6Check pick t a preflen = map_option (\<lambda>r. r \<noteq> None) (kavl_bit_get pick t a (unat preflen))"

record ipset =
  ips4 :: kavl
  ips6 :: kavl

definition ipset_null :: ipset where
  "ipset_null = \<lparr>ips4 = [], ips6 = []\<rparr>"

definition ipsetDestroy :: "ipset \<Rightarrow> ipset" where
  "ipsetDestroy s = ipset_null"

definition IPSET_EMPTY :: "ipset \<Rightarrow> bool" where
  "IPSET_EMPTY s \<longleftrightarrow> ips4 s = [] \<and> ips6 s = []"

subsection \<open>Reading a line\<close>

text \<open>What the code calls and what is not under src/: the two \<open>inet_pton\<close>, the tree's choice, the allocator.\<close>

record ipset_env =
  pton4 :: "bytes \<Rightarrow> bytes option"
  pton6 :: "bytes \<Rightarrow> bytes option"
  kpick :: kavl_pick
  kalloc :: bool

definition cidr_junk :: cidr where
  "cidr_junk = \<lparr>cidr_addr = [], cidr_preflen = 0\<rparr>"

text \<open>One token, cut to the buffer of 128 bytes. What is neither an address nor a block is only reported.\<close>

definition ipset_token :: "ipset_env \<Rightarrow> bytes \<Rightarrow> ipset \<Rightarrow> (bool \<times> ipset) option" where
  "ipset_token E tok s =
     (let c = take 127 tok;
          (ok4, c4) = parse_cidr4 (pton4 E) c cidr_junk;
          (ok6, c6) = parse_cidr6 (pton6 E) c cidr_junk
      in if ok4 then do {
           (ok, t) \<leftarrow> ipset4AddCidr (kpick E) (kalloc E) (ips4 s) c4;
           Some (if ok then (True, s\<lparr>ips4 := t\<rparr>) else (False, ipsetDestroy s)) }
         else if ok6 then do {
           (ok, t) \<leftarrow> ipset6AddCidr (kpick E) (kalloc E) (ips6 s) c6;
           Some (if ok then (True, s\<lparr>ips6 := t\<rparr>) else (False, ipsetDestroy s)) }
         else Some (True, s))"

definition ipset_entry :: "ipset_env \<Rightarrow> bytes \<Rightarrow> nat \<Rightarrow> nat \<Rightarrow> ipset \<Rightarrow> (bool \<times> ipset \<times> nat) option" where
  "ipset_entry E d p e s =
     (if p < e then do {
        c \<leftarrow> rd d p;
        if is_comment c \<or> is_nl c then Some (True, s, p)
        else do {
          q \<leftarrow> scan list_char d p e;
          tok \<leftarrow> rd_block d p (q - p);
          (ok, s) \<leftarrow> ipset_token E tok s;
          Some (ok, s, if ok then q else p) } }
      else Some (True, s, p))"

definition ipset_addpool :: "ipset_env \<Rightarrow> ipset line_reader" where
  "ipset_addpool E d p e s = do {
     p \<leftarrow> scan is_tab d p e;
     (ok, s, p) \<leftarrow> ipset_entry E d p e s;
     if \<not> ok then Some (False, s, d, p)
     else do { p \<leftarrow> next_line d p e; Some (True, s, d, p) } }"

definition AppendIpsetItem :: "ipset_env \<Rightarrow> ipset \<Rightarrow> bytes \<Rightarrow> (bool \<times> ipset) option" where
  "AppendIpsetItem E s ip = do { (ok, s, d, p) \<leftarrow> ipset_addpool E ip 0 (length ip) s; Some (ok, s) }"

definition AppendIpset :: "ipset_env \<Rightarrow> ipset \<Rightarrow> file_data \<Rightarrow> (bool \<times> ipset) option" where
  "AppendIpset E s f = append_file (ipset_addpool E) 4095 f s"

subsection \<open>Checking\<close>

type_synonym ip_store = "ipset store"

definition LoadIpset :: "ipset_env \<Rightarrow> os_env \<Rightarrow> ip_store \<Rightarrow> nat \<Rightarrow> (bool \<times> ip_store) option" where
  "LoadIpset E os fs i = load_at (ipset_addpool E) 4095 ipset_null os fs i"

definition LoadAllIpsets :: "ipset_env \<Rightarrow> os_env \<Rightarrow> ip_store \<Rightarrow> (bool \<times> ip_store) option" where
  "LoadAllIpsets E os fs = load_all (ipset_addpool E) 4095 ipset_null os (rev [0..<length fs]) fs"

text \<open>Exactly one of the two addresses has to be there.\<close>

definition SearchIpset :: "kavl_pick \<Rightarrow> ipset \<Rightarrow> bytes option \<Rightarrow> bytes option \<Rightarrow> bool option" where
  "SearchIpset pick s ipv4 ipv6 =
     (case (ipv4, ipv6) of
        (Some a, None) \<Rightarrow> if ips4 s \<noteq> [] then ipset4Check pick (ips4 s) a 32 else Some False
      | (None, Some a) \<Rightarrow> if ips6 s \<noteq> [] then ipset6Check pick (ips6 s) a 128 else Some False
      | _ \<Rightarrow> Some False)"

text \<open>The address, and then the one of the other side if it is given.\<close>

definition SearchIpset2 ::
  "kavl_pick \<Rightarrow> bytes option \<Rightarrow> bytes option \<Rightarrow> bytes option \<Rightarrow> bytes option \<Rightarrow> ipset \<Rightarrow> bool option" where
  "SearchIpset2 pick ipv4 ipv6 ipv4r ipv6r s = do {
     m \<leftarrow> SearchIpset pick s ipv4 ipv6;
     if m then Some True
     else if ipv4r \<noteq> None \<or> ipv6r \<noteq> None then SearchIpset pick s ipv4r ipv6r
     else Some False }"

definition IpsetsReloadCheck :: "ipset_env \<Rightarrow> os_env \<Rightarrow> nat list \<Rightarrow> ip_store \<Rightarrow> (bool \<times> ip_store) option" where
  "IpsetsReloadCheck E os cl fs = reload_loop (ipset_addpool E) 4095 ipset_null os cl fs"

definition IpsetsReloadCheckForProfile :: "ipset_env \<Rightarrow> os_env \<Rightarrow> nat list \<Rightarrow> nat list \<Rightarrow> ip_store \<Rightarrow> (bool \<times> ip_store) option" where
  "IpsetsReloadCheckForProfile E os incl excl fs = do {
     (ok, fs) \<leftarrow> IpsetsReloadCheck E os incl fs;
     if ok then IpsetsReloadCheck E os excl fs else Some (False, fs) }"

definition IpsetCheck ::
  "ipset_env \<Rightarrow> os_env \<Rightarrow> nat list \<Rightarrow> nat list \<Rightarrow> ip_store \<Rightarrow> bytes option \<Rightarrow> bytes option \<Rightarrow> bytes option \<Rightarrow> bytes option \<Rightarrow>
   (bool \<times> ip_store) option" where
  "IpsetCheck E os incl excl fs ipv4 ipv6 ipv4r ipv6r =
     (if incl = [] \<and> excl = [] then Some (True, fs)
      else do {
        (ok, fs) \<leftarrow> IpsetsReloadCheckForProfile E os incl excl fs;
        if \<not> ok then Some (False, fs)
        else do {
          (r, ex) \<leftarrow> list_check IPSET_EMPTY (SearchIpset2 (kpick E) ipv4 ipv6 ipv4r ipv6r) fs incl excl;
          Some (r, fs) } })"

definition RegisterIpset ::
  "bool \<Rightarrow> (bytes \<Rightarrow> bytes option) \<Rightarrow> (bytes \<Rightarrow> bool) \<Rightarrow> ip_store \<Rightarrow> nat list \<Rightarrow> bytes option \<Rightarrow>
   (ip_store \<times> nat list \<times> nat option) option" where
  "RegisterIpset alloc real mtime fs cl filename = register_list ipset_null alloc real mtime fs cl filename"

subsection \<open>Prefixes as bit strings\<close>

definition byte_bits :: "u8 \<Rightarrow> bool list" where
  "byte_bits b = map (\<lambda>i. bit b (7 - i)) [0..<8]"

definition addr_bits :: "bytes \<Rightarrow> bool list" where
  "addr_bits d = concat (map byte_bits d)"

definition key_bits :: "kavl_bit_elem \<Rightarrow> bool list" where
  "key_bits e = take (kb_bitlen e) (addr_bits (kb_data e))"

definition key_ok :: "kavl_bit_elem \<Rightarrow> bool" where
  "key_ok e \<longleftrightarrow> kb_bitlen e \<le> 8 * length (kb_data e)"

lemma length_byte_bits [simp]: "length (byte_bits b) = 8"
  by (simp add: byte_bits_def)

lemma byte_bits_inj: "byte_bits a = byte_bits b \<longleftrightarrow> a = b"
proof
  assume e: "byte_bits a = byte_bits b"
  show "a = b"
  proof (rule bit_word_eqI)
    fix n assume "n < LENGTH(8)"
    then have "n < 8" by simp
    then have "byte_bits a ! (7 - n) = byte_bits b ! (7 - n)" "7 - (7 - n) = n" using e by simp_all
    with \<open>n < 8\<close> show "bit a n = bit b n" by (simp add: byte_bits_def)
  qed
qed simp

lemma top_bits_eq:
  assumes "df < 8"
  shows "drop_bit (8 - df) (a :: u8) = drop_bit (8 - df) b \<longleftrightarrow> take df (byte_bits a) = take df (byte_bits b)"
proof
  assume e: "drop_bit (8 - df) a = drop_bit (8 - df) b"
  show "take df (byte_bits a) = take df (byte_bits b)"
  proof (rule nth_equalityI)
    fix i assume "i < length (take df (byte_bits a))"
    then have i: "i < df" using assms by simp
    have "bit (drop_bit (8 - df) a) (df - 1 - i) = bit (drop_bit (8 - df) b) (df - 1 - i)" by (simp add: e)
    moreover have "8 - df + (df - 1 - i) = 7 - i" using i assms by simp
    ultimately have "bit a (7 - i) = bit b (7 - i)" by (simp add: bit_simps)
    then show "take df (byte_bits a) ! i = take df (byte_bits b) ! i" using i assms by (simp add: byte_bits_def)
  qed simp
next
  assume e: "take df (byte_bits a) = take df (byte_bits b)"
  show "drop_bit (8 - df) a = drop_bit (8 - df) b"
  proof (rule bit_word_eqI)
    fix n assume "n < LENGTH(8)"
    show "bit (drop_bit (8 - df) a) n = bit (drop_bit (8 - df) b) n"
    proof (cases "n < df")
      case True
      then have "take df (byte_bits a) ! (df - 1 - n) = take df (byte_bits b) ! (df - 1 - n)" by (simp add: e)
      moreover have "7 - (df - 1 - n) = 8 - df + n" using True assms by simp
      ultimately show ?thesis using True assms by (simp add: byte_bits_def bit_simps)
    next
      case False
      then have "\<not> 8 - df + n < 8" using assms by simp
      then show ?thesis by (auto simp: bit_simps dest: bit_imp_le_length)
    qed
  qed
qed

lemma length_addr_bits [simp]: "length (addr_bits d) = 8 * length d"
  by (induction d) (simp_all add: addr_bits_def)

lemma take_addr_bits: "take (8 * n) (addr_bits d) = addr_bits (take n d)"
proof (induction n arbitrary: d)
  case (Suc n)
  then show ?case by (cases d) (simp_all add: addr_bits_def)
qed (simp add: addr_bits_def)

lemma addr_bits_inj: "addr_bits a = addr_bits b \<Longrightarrow> length a = length b \<Longrightarrow> a = b"
proof (induction a arbitrary: b)
  case (Cons x a)
  then show ?case by (cases b) (auto simp: addr_bits_def append_eq_append_conv byte_bits_inj)
qed simp

lemma memcmp_zero: "length a = length b \<Longrightarrow> memcmp_bytes a b = 0 \<longleftrightarrow> a = b"
  by (induction a b rule: memcmp_bytes.induct) (auto simp: antisym_conv3)

lemma take_bits_split:
  assumes "n < length d" and "df < 8"
  shows "take (8 * n + df) (addr_bits d) = addr_bits (take n d) @ take df (byte_bits (d ! n))"
proof -
  have "addr_bits d = addr_bits (take n d) @ byte_bits (d ! n) @ addr_bits (drop (Suc n) d)"
    using id_take_nth_drop[OF assms(1)] by (metis addr_bits_def concat.simps(2) concat_append list.simps(9) map_append)
  then show ?thesis using assms by simp
qed

text \<open>Two prefixes compare as equal exactly if they agree as far as both go.\<close>

lemma kavl_bit_cmp_zero:
  assumes "key_ok p" and "key_ok q"
  shows "returns (\<lambda>c. c = 0 \<longleftrightarrow> take (min (kb_bitlen p) (kb_bitlen q)) (addr_bits (kb_data p))
      = take (min (kb_bitlen p) (kb_bitlen q)) (addr_bits (kb_data q))) (kavl_bit_cmp p q)"
proof -
  define m where "m = min (kb_bitlen p) (kb_bitlen q)"
  define n where "n = m div 8"
  define df where "df = m mod 8"
  have m: "m = 8 * n + df" "df < 8" by (simp_all add: n_def df_def)
  have mi: "(if kb_bitlen q < kb_bitlen p then kb_bitlen q else kb_bitlen p) = m" by (simp add: m_def)
  have l: "m \<le> 8 * length (kb_data p)" "m \<le> 8 * length (kb_data q)" using assms by (simp_all add: key_ok_def m_def)
  then have n: "n \<le> length (kb_data p)" "n \<le> length (kb_data q)" "df \<noteq> 0 \<Longrightarrow> n < length (kb_data p) \<and> n < length (kb_data q)"
    using m by auto
  let ?a = "take n (kb_data p)" and ?b = "take n (kb_data q)"
  have mc: "memcmp_bytes ?a ?b = 0 \<longleftrightarrow> ?a = ?b" by (rule memcmp_zero) (use n in simp)
  show ?thesis
  proof (cases "df = 0")
    case True
    have "take m (addr_bits (kb_data p)) = take m (addr_bits (kb_data q)) \<longleftrightarrow> ?a = ?b"
      using addr_bits_inj[of ?a ?b] n m True by (auto simp: take_addr_bits)
    then show ?thesis unfolding m_def[symmetric]
      using n True mc by (simp add: kavl_bit_cmp_def mi Let_def n_def[symmetric] df_def[symmetric])
  next
    case False
    note nn = n(3)[OF False]
    have "take m (addr_bits (kb_data p)) = take m (addr_bits (kb_data q)) \<longleftrightarrow>
      ?a = ?b \<and> take df (byte_bits (kb_data p ! n)) = take df (byte_bits (kb_data q ! n))"
      using take_bits_split[of n "kb_data p" df] take_bits_split[of n "kb_data q" df] nn m(2) addr_bits_inj[of ?a ?b] n
      unfolding m(1) by (auto simp: append_eq_append_conv)
    then show ?thesis unfolding m_def[symmetric]
      using n nn False mc top_bits_eq[OF m(2), of "kb_data p ! n" "kb_data q ! n"]
      by (auto simp: kavl_bit_cmp_def mi Let_def n_def[symmetric] df_def[symmetric])
  qed
qed

text \<open>One bit string extends the other.\<close>

definition meets :: "bool list \<Rightarrow> bool list \<Rightarrow> bool" where
  "meets a b \<longleftrightarrow> take (min (length a) (length b)) a = take (min (length a) (length b)) b"

lemma meets_prefix: "meets a b \<longleftrightarrow> (if length a \<le> length b then take (length a) b = a else take (length b) a = b)"
  by (auto simp: meets_def min_def)

lemma key_bits_length: "key_ok e \<Longrightarrow> length (key_bits e) = kb_bitlen e"
  by (simp add: key_bits_def key_ok_def)

lemma cmp_meets:
  assumes "key_ok p" and "key_ok q"
  shows "returns (\<lambda>c. c = 0 \<longleftrightarrow> meets (key_bits p) (key_bits q)) (kavl_bit_cmp p q)"
  using kavl_bit_cmp_zero[OF assms] unfolding meets_def key_bits_length[OF assms(1)] key_bits_length[OF assms(2)]
  by (cases "kb_bitlen p \<le> kb_bitlen q") (simp_all add: key_bits_def min_def)

lemma kavl_equal_filter:
  "list_all key_ok t \<Longrightarrow> key_ok x \<Longrightarrow> kavl_equal t x = Some (filter (\<lambda>e. meets (key_bits x) (key_bits e)) t)"
proof (induction t)
  case (Cons e t)
  obtain c where "kavl_bit_cmp x e = Some c" "c = 0 \<longleftrightarrow> meets (key_bits x) (key_bits e)"
    using cmp_meets[of x e] Cons.prems by (auto simp: returns_def)
  with Cons show ?case by auto
qed simp

subsection \<open>The tree as a set of prefixes\<close>

definition tree_ok :: "kavl \<Rightarrow> bool" where
  "tree_ok t \<longleftrightarrow> list_all key_ok t \<and> distinct t
     \<and> (\<forall>e\<in>set t. \<forall>f\<in>set t. e \<noteq> f \<longrightarrow> \<not> meets (key_bits e) (key_bits f))"

definition within :: "kavl_bit_elem \<Rightarrow> bool list \<Rightarrow> bool" where
  "within e b \<longleftrightarrow> take (length (key_bits e)) b = key_bits e"

definition covered :: "kavl \<Rightarrow> bool list \<Rightarrow> bool" where
  "covered t b \<longleftrightarrow> (\<exists>e\<in>set t. within e b)"

text \<open>What the tree promises: it chooses one of the elements that compare as equal.\<close>

definition picks :: "kavl_pick \<Rightarrow> bool" where
  "picks pick \<longleftrightarrow> (\<forall>es. es \<noteq> [] \<longrightarrow> pick es \<in> set es)"

lemma meets_refl [simp]: "meets a a"
  by (simp add: meets_def)

lemma meets_commute: "meets a b = meets b a"
  by (auto simp: meets_def min.commute)

lemma kavl_find_tree:
  assumes "picks pick" and "list_all key_ok t" and "key_ok x"
  shows "\<exists>r. kavl_find pick t x = Some r
    \<and> (case r of None \<Rightarrow> \<forall>e\<in>set t. \<not> meets (key_bits x) (key_bits e)
       | Some v \<Rightarrow> v \<in> set t \<and> meets (key_bits x) (key_bits v))"
proof (cases "filter (\<lambda>e. meets (key_bits x) (key_bits e)) t = []")
  case True
  then show ?thesis by (simp add: kavl_find_def kavl_equal_filter[OF assms(2,3)] filter_empty_conv)
next
  case False
  with assms(1) have "pick (filter (\<lambda>e. meets (key_bits x) (key_bits e)) t) \<in> set (filter (\<lambda>e. meets (key_bits x) (key_bits e)) t)"
    unfolding picks_def by blast
  with False show ?thesis by (simp add: kavl_find_def kavl_equal_filter[OF assms(2,3)])
qed

lemma kavl_delete_tree:
  assumes "picks pick" and "tree_ok t" and "v \<in> set t"
  shows "kavl_bit_delete pick t (kb_data v) (kb_bitlen v) = Some (remove1 v t)"
proof -
  have k: "list_all key_ok t" "key_ok v" using assms(2,3) by (auto simp: tree_ok_def list_all_iff)
  obtain r where r: "kavl_find pick t v = Some r" "case r of None \<Rightarrow> \<forall>e\<in>set t. \<not> meets (key_bits v) (key_bits e)
       | Some w \<Rightarrow> w \<in> set t \<and> meets (key_bits v) (key_bits w)"
    using kavl_find_tree[OF assms(1) k] by blast
  have "r = Some v"
    using r(2) assms(2,3) by (auto simp: tree_ok_def split: option.splits)
  moreover have e: "\<lparr>kb_bitlen = kb_bitlen v, kb_data = kb_data v\<rparr> = v" by (cases v) simp
  ultimately show ?thesis unfolding kavl_bit_delete_def e using r(1) by (simp add: kavl_erase_def)
qed

lemma within_trans:
  assumes "meets (key_bits e) (key_bits v)" and "length (key_bits e) \<le> length (key_bits v)" and "within v b"
  shows "within e b"
proof -
  have "take (length (key_bits e)) (key_bits v) = key_bits e" using assms(1,2) by (simp add: meets_prefix)
  moreover have "take (length (key_bits e)) b = take (length (key_bits e)) (take (length (key_bits v)) b)"
    unfolding take_take using assms(2) by (simp add: min_absorb1)
  ultimately show ?thesis using assms(3) unfolding within_def by metis
qed

lemma tree_ok_remove1: "tree_ok t \<Longrightarrow> tree_ok (remove1 v t)"
  using set_remove1_subset[of v t] by (auto simp: tree_ok_def list_all_iff)

lemma kavl_bit_add_loop_tree:
  assumes "picks pick" and "tree_ok t" and "key_ok e"
  shows "\<exists>t'. kavl_bit_add_loop pick t e = Some t' \<and> tree_ok t' \<and> (\<forall>b. covered t' b \<longleftrightarrow> covered t b \<or> within e b)"
  using assms(2)
proof (induction "length t" arbitrary: t rule: less_induct)
  case less
  have k: "list_all key_ok t" using less.prems by (simp add: tree_ok_def)
  obtain r where r: "kavl_find pick t e = Some r" "case r of None \<Rightarrow> \<forall>f\<in>set t. \<not> meets (key_bits e) (key_bits f)
       | Some v \<Rightarrow> v \<in> set t \<and> meets (key_bits e) (key_bits v)"
    using kavl_find_tree[OF assms(1) k assms(3)] by blast
  show ?case
  proof (cases r)
    case None
    then have "kavl_bit_add_loop pick t e = Some (e # t)"
      using r(1) by (subst kavl_bit_add_loop.simps) (simp add: kavl_insert_def)
    moreover have "tree_ok (e # t)"
      using less.prems r(2) None assms(3) by (auto simp: tree_ok_def meets_commute)
    ultimately show ?thesis by (auto simp: covered_def)
  next
    case (Some v)
    with r(2) have v: "v \<in> set t" "meets (key_bits e) (key_bits v)" by auto
    then have kv: "key_ok v" using k by (simp add: list_all_iff)
    have i: "kavl_insert pick t e = Some (t, Some v)" using r(1) Some by (simp add: kavl_insert_def)
    show ?thesis
    proof (cases "kb_bitlen e < kb_bitlen v")
      case True
      have s: "kavl_bit_add_loop pick t e = kavl_bit_add_loop pick (remove1 v t) e"
        using i True kavl_delete_tree[OF assms(1) less.prems v(1)] by (subst kavl_bit_add_loop.simps) simp
      have "length (remove1 v t) < length t" using v(1) by (simp add: length_remove1) (use length_pos_if_in_set in fastforce)
      from less.hyps[OF this tree_ok_remove1[OF less.prems]] obtain t'
        where t': "kavl_bit_add_loop pick (remove1 v t) e = Some t'" "tree_ok t'"
          "\<forall>b. covered t' b \<longleftrightarrow> covered (remove1 v t) b \<or> within e b" by blast
      have w: "within v b \<Longrightarrow> within e b" for b
        by (rule within_trans[OF v(2)]) (use True key_bits_length assms(3) kv in auto)
      have "covered t b \<longleftrightarrow> covered (remove1 v t) b \<or> within v b" for b
        using less.prems v(1) by (auto simp: covered_def tree_ok_def)
      with t' w show ?thesis unfolding s by blast
    next
      case False
      then have "kavl_bit_add_loop pick t e = Some t" using i by (subst kavl_bit_add_loop.simps) simp
      moreover have "within e b \<Longrightarrow> within v b" for b
        by (rule within_trans[of v e]) (use False v(2) key_bits_length assms(3) kv in \<open>auto simp: meets_commute\<close>)
      ultimately show ?thesis using less.prems v(1) by (auto simp: covered_def)
    qed
  qed
qed

text \<open>A whole address is found exactly if a prefix covers it.\<close>

lemma kavl_bit_get_tree:
  assumes "picks pick" and "tree_ok t" and "\<forall>e\<in>set t. kb_bitlen e \<le> n" and "8 * length a = n"
  shows "\<exists>r. kavl_bit_get pick t a n = Some r \<and> (r \<noteq> None \<longleftrightarrow> covered t (addr_bits a))"
proof -
  let ?x = "\<lparr>kb_bitlen = n, kb_data = a\<rparr>"
  have k: "list_all key_ok t" "key_ok ?x" using assms by (auto simp: tree_ok_def key_ok_def)
  have xb: "key_bits ?x = addr_bits a" using assms(4) by (simp add: key_bits_def)
  have m: "meets (key_bits ?x) (key_bits e) \<longleftrightarrow> within e (addr_bits a)" if "e \<in> set t" for e
  proof -
    have "length (key_bits e) \<le> length (addr_bits a)"
      using assms(3,4) that k(1) key_bits_length[of e] by (auto simp: list_all_iff)
    then show ?thesis unfolding xb within_def by (subst meets_commute) (simp add: meets_prefix)
  qed
  show ?thesis
    using kavl_find_tree[OF assms(1) k] m unfolding kavl_bit_get_def covered_def by (fastforce split: option.splits)
qed

subsection \<open>Sets\<close>

definition ip_tree :: "nat \<Rightarrow> kavl \<Rightarrow> bool" where
  "ip_tree n t \<longleftrightarrow> tree_ok t \<and> (\<forall>e\<in>set t. kb_bitlen e \<le> n)"

text \<open>The addresses a block covers: those that agree with it in its first bits.\<close>

definition in_block :: "cidr \<Rightarrow> bytes \<Rightarrow> bool" where
  "in_block c a \<longleftrightarrow> take (unat (cidr_preflen c)) (addr_bits a) = take (unat (cidr_preflen c)) (addr_bits (cidr_addr c))"

lemma kavl_loop_bound:
  assumes "picks pick" and "tree_ok t" and "key_ok e" and "\<forall>f\<in>set t. kb_bitlen f \<le> n" and "kb_bitlen e \<le> n"
    and "kavl_bit_add_loop pick t e = Some t'"
  shows "\<forall>f\<in>set t'. kb_bitlen f \<le> n"
  using assms(2,4,6)
proof (induction "length t" arbitrary: t rule: less_induct)
  case less
  have k: "list_all key_ok t" using less.prems by (simp add: tree_ok_def)
  obtain r where r: "kavl_find pick t e = Some r" "case r of None \<Rightarrow> True | Some v \<Rightarrow> v \<in> set t"
    using kavl_find_tree[OF assms(1) k assms(3)] by (auto split: option.splits)
  show ?case
  proof (cases r)
    case None
    then have "kavl_bit_add_loop pick t e = Some (e # t)"
      using r(1) by (subst kavl_bit_add_loop.simps) (simp add: kavl_insert_def)
    with less.prems assms(5) show ?thesis by auto
  next
    case (Some v)
    with r have v: "v \<in> set t" "kavl_insert pick t e = Some (t, Some v)" by (auto simp: kavl_insert_def)
    show ?thesis
    proof (cases "kb_bitlen e < kb_bitlen v")
      case True
      have s: "kavl_bit_add_loop pick t e = kavl_bit_add_loop pick (remove1 v t) e"
        using v True kavl_delete_tree[OF assms(1) less.prems(1) v(1)] by (subst kavl_bit_add_loop.simps) simp
      have "length (remove1 v t) < length t" using v(1) by (simp add: length_remove1) (use length_pos_if_in_set in fastforce)
      from less.hyps[OF this tree_ok_remove1[OF less.prems(1)]] show ?thesis
        using less.prems s set_remove1_subset[of v t] by auto
    next
      case False
      then have "kavl_bit_add_loop pick t e = Some t" using v by (subst kavl_bit_add_loop.simps) simp
      with less.prems show ?thesis by simp
    qed
  qed
qed

lemma ipset_kavl_add_tree:
  assumes "picks pick" and "ip_tree n t" and "unat (cidr_preflen c) \<le> n" and "8 * length (cidr_addr c) = n"
  shows "\<exists>t'. ipset_kavl_add pick True t (cidr_addr c) (cidr_preflen c) = Some (True, t') \<and> ip_tree n t'
    \<and> (\<forall>a. 8 * length a = n \<longrightarrow> (covered t' (addr_bits a) \<longleftrightarrow> covered t (addr_bits a) \<or> in_block c a))"
proof -
  let ?l = "unat (cidr_preflen c)" and ?m = "(unat (cidr_preflen c) + 7) div 8"
  have m: "?m \<le> length (cidr_addr c)" "?l \<le> 8 * ?m" using assms(3,4) by auto
  let ?e = "\<lparr>kb_bitlen = ?l, kb_data = take ?m (cidr_addr c)\<rparr>"
  have k: "key_ok ?e" using m by (simp add: key_ok_def)
  have kb: "key_bits ?e = take ?l (addr_bits (cidr_addr c))"
    using m(2) take_addr_bits[of ?m "cidr_addr c"] by (simp add: key_bits_def min_absorb1 flip: take_addr_bits)
  obtain t' where t': "kavl_bit_add_loop pick t ?e = Some t'" "tree_ok t'" "\<forall>b. covered t' b \<longleftrightarrow> covered t b \<or> within ?e b"
    using kavl_bit_add_loop_tree[OF assms(1) _ k, of t] assms(2) by (auto simp: ip_tree_def)
  have "\<forall>f\<in>set t'. kb_bitlen f \<le> n"
    using kavl_loop_bound[OF assms(1) _ k _ _ t'(1), of n] assms(2,3) by (auto simp: ip_tree_def)
  moreover have "within ?e (addr_bits a) \<longleftrightarrow> in_block c a" if "8 * length a = n" for a
    using assms(3,4) that unfolding within_def kb in_block_def by simp
  moreover have "ipset_kavl_add pick True t (cidr_addr c) (cidr_preflen c) = Some (True, t')"
    using m(1) t'(1) by (simp add: ipset_kavl_add_def kavl_bit_add_def)
  ultimately show ?thesis using t'(2,3) unfolding ip_tree_def by blast
qed

fun ipset_adds :: "(kavl \<Rightarrow> cidr \<Rightarrow> (bool \<times> kavl) option) \<Rightarrow> kavl \<Rightarrow> cidr list \<Rightarrow> (bool \<times> kavl) option" where
  "ipset_adds add t [] = Some (True, t)"
| "ipset_adds add t (c # cs) = do {
     (ok, t) \<leftarrow> add t c;
     if ok then ipset_adds add t cs else Some (False, t) }"

lemma ipset_adds_tree:
  assumes "picks pick" and "\<And>t c. unat (cidr_preflen c) \<le> n \<Longrightarrow> add t c = ipset_kavl_add pick True t (cidr_addr c) (cidr_preflen c)"
    and "ip_tree n t" and "list_all (\<lambda>c. unat (cidr_preflen c) \<le> n \<and> 8 * length (cidr_addr c) = n) cs"
  shows "\<exists>t'. ipset_adds add t cs = Some (True, t') \<and> ip_tree n t'
    \<and> (\<forall>a. 8 * length a = n \<longrightarrow> (covered t' (addr_bits a) \<longleftrightarrow> covered t (addr_bits a) \<or> (\<exists>c\<in>set cs. in_block c a)))"
  using assms(3,4)
proof (induction cs arbitrary: t)
  case (Cons c cs)
  then have c: "unat (cidr_preflen c) \<le> n" "8 * length (cidr_addr c) = n" by simp_all
  obtain t1 where t1: "ipset_kavl_add pick True t (cidr_addr c) (cidr_preflen c) = Some (True, t1)" "ip_tree n t1"
    "\<forall>a. 8 * length a = n \<longrightarrow> (covered t1 (addr_bits a) \<longleftrightarrow> covered t (addr_bits a) \<or> in_block c a)"
    using ipset_kavl_add_tree[OF assms(1) Cons.prems(1) c] by blast
  obtain t' where t': "ipset_adds add t1 cs = Some (True, t')" "ip_tree n t'"
    "\<forall>a. 8 * length a = n \<longrightarrow> (covered t' (addr_bits a) \<longleftrightarrow> covered t1 (addr_bits a) \<or> (\<exists>c\<in>set cs. in_block c a))"
    using Cons.IH[OF t1(2)] Cons.prems(2) by auto
  show ?case using t1 t' assms(2)[OF c(1), of t] by auto
qed auto

subsection \<open>Reading and checking are safe\<close>

text \<open>What a set relies on: \<open>inet_pton\<close> returns 4 and 16 bytes, and the tree picks an equal element.\<close>

definition env_ok :: "ipset_env \<Rightarrow> bool" where
  "env_ok E \<longleftrightarrow> picks (kpick E) \<and> (\<forall>s a. pton4 E s = Some a \<longrightarrow> length a = 4) \<and> (\<forall>s a. pton6 E s = Some a \<longrightarrow> length a = 16)"

definition ipset_ok :: "ipset \<Rightarrow> bool" where
  "ipset_ok s \<longleftrightarrow> ip_tree 32 (ips4 s) \<and> ip_tree 128 (ips6 s)"

lemma ip_tree_nil [simp]: "ip_tree n []"
  by (simp add: ip_tree_def tree_ok_def)

lemma ipset_null_ok [simp]: "ipset_ok ipset_null"
  by (simp add: ipset_ok_def ipset_null_def)

lemma parse_cidr_addr:
  assumes "\<And>s a. pton s = Some a \<Longrightarrow> length a = n" and "parse_cidr k pton s junk = (True, c)"
  shows "length (cidr_addr c) = n"
  using assms(1) assms(2) by (auto simp: parse_cidr_def Let_def split: option.splits if_splits)

lemma ipset_kavl_add_wp:
  fixes c :: cidr
  assumes "picks pick" and "ip_tree n t" and "unat (cidr_preflen c) \<le> n" and "8 * length (cidr_addr c) = n"
  shows "returns (\<lambda>(ok, t'). ip_tree n t') (ipset_kavl_add pick alloc t (cidr_addr c) (cidr_preflen c))"
proof (cases alloc)
  case True
  with ipset_kavl_add_tree[OF assms] show ?thesis by (auto simp: returns_def)
next
  case False
  have "(unat (cidr_preflen c) + 7) div 8 \<le> length (cidr_addr c)" using assms(3,4) by auto
  with False assms(2) show ?thesis
    by (auto simp: ipset_kavl_add_def kavl_bit_add_def wp)
qed

lemma ipset_token_wp:
  assumes "env_ok E" and "ipset_ok s"
  shows "returns (\<lambda>(ok, s'). ipset_ok s') (ipset_token E tok s)"
proof -
  obtain ok4 c4 where c4: "parse_cidr4 (pton4 E) (take 127 tok) cidr_junk = (ok4, c4)" by fastforce
  obtain ok6 c6 where c6: "parse_cidr6 (pton6 E) (take 127 tok) cidr_junk = (ok6, c6)" by fastforce
  have r4: "returns (\<lambda>(ok, t). ip_tree 32 t) (ipset4AddCidr (kpick E) (kalloc E) (ips4 s) c4)" if ok4
  proof (cases "cidr_preflen c4 > 32")
    case False
    then have "unat (cidr_preflen c4) \<le> 32" by (simp add: word_le_nat_alt word_less_nat_alt)
    moreover have "length (cidr_addr c4) = 4"
      using parse_cidr_addr[of "pton4 E" 4 32 "take 127 tok" cidr_junk c4] assms(1) c4 that
      by (auto simp: env_ok_def parse_cidr4_def)
    ultimately show ?thesis using ipset_kavl_add_wp[of "kpick E" 32 "ips4 s" c4 "kalloc E"] assms False
      by (simp add: ipset4AddCidr_def ipset4Add_def env_ok_def ipset_ok_def)
  qed (use assms in \<open>simp add: ipset4AddCidr_def ipset4Add_def ipset_ok_def\<close>)
  have r6: "returns (\<lambda>(ok, t). ip_tree 128 t) (ipset6AddCidr (kpick E) (kalloc E) (ips6 s) c6)" if ok6
  proof (cases "cidr_preflen c6 > 128")
    case False
    then have "unat (cidr_preflen c6) \<le> 128" by (simp add: word_le_nat_alt word_less_nat_alt)
    moreover have "length (cidr_addr c6) = 16"
      using parse_cidr_addr[of "pton6 E" 16 128 "take 127 tok" cidr_junk c6] assms(1) c6 that
      by (auto simp: env_ok_def parse_cidr6_def)
    ultimately show ?thesis using ipset_kavl_add_wp[of "kpick E" 128 "ips6 s" c6 "kalloc E"] assms False
      by (simp add: ipset6AddCidr_def ipset6Add_def env_ok_def ipset_ok_def)
  qed (use assms in \<open>simp add: ipset6AddCidr_def ipset6Add_def ipset_ok_def\<close>)
  have n: "ipset_ok (ipsetDestroy s)" by (simp add: ipsetDestroy_def)
  show ?thesis
    using assms(2) n r4 r6 unfolding ipset_token_def Let_def c4 c6 prod.case
    by (auto simp: returns_bind ipset_ok_def split: prod.splits elim!: returns_mono)
qed

lemma ipset_entry_wp:
  assumes "env_ok E" and "ipset_ok s" and "p \<le> e" and "e \<le> length d"
  shows "returns (\<lambda>(ok, s', x). ipset_ok s' \<and> p \<le> x \<and> x \<le> e) (ipset_entry E d p e s)"
proof -
  obtain q where q: "scan list_char d p e = Some q" using scan_Some[OF assms(4)] by blast
  have bq: "p \<le> q" "q \<le> e" using scan_bounds[OF q assms(3)] by auto
  have tok: "rd_block d p (q - p) = Some (take (q - p) (drop p d))" using bq assms(4) by simp
  obtain ok s' where "ipset_token E (take (q - p) (drop p d)) s = Some (ok, s')" "ipset_ok s'"
    using ipset_token_wp[OF assms(1,2), of "take (q - p) (drop p d)"] by (auto simp: returns_def)
  with assms bq q tok show ?thesis by (simp add: ipset_entry_def)
qed

lemma ipset_addpool_wp:
  assumes "env_ok E" and "ipset_ok s" and "p \<le> e" and "e \<le> length d"
  shows "returns (\<lambda>(ok, s', d', p'). ipset_ok s' \<and> d' = d \<and> (ok \<longrightarrow> p' \<le> e \<and> (p < e \<longrightarrow> p < p'))) (ipset_addpool E d p e s)"
proof -
  obtain p1 where p1: "scan is_tab d p e = Some p1" using scan_Some[OF assms(4)] by blast
  have b: "p \<le> p1" "p1 \<le> e" using scan_bounds[OF p1 assms(3)] by auto
  obtain ok s' x where x: "ipset_entry E d p1 e s = Some (ok, s', x)" "ipset_ok s'" "p1 \<le> x" "x \<le> e"
    using ipset_entry_wp[OF assms(1,2) b(2) assms(4)] by (auto simp: returns_def)
  obtain p2 where "next_line d x e = Some p2" "x \<le> p2" "p2 \<le> e" "x < e \<longrightarrow> x < p2"
    using next_line_wp[OF x(4) assms(4)] by (auto simp: returns_def)
  with p1 b x show ?thesis by (auto simp: ipset_addpool_def)
qed

lemma ipset_reader_empty: "env_ok E \<Longrightarrow> ipset_ok s \<Longrightarrow> returns (\<lambda>(ok, s', d', p'). ipset_ok s') (ipset_addpool E [] 0 0 s)"
  using ipset_addpool_wp[of E s 0 0 "[]"] by (auto elim: returns_mono)

interpretation ip_lines: line_reading "ipset_addpool E" "\<lambda>s. env_ok E \<and> ipset_ok s" for E
proof unfold_locales
  fix pl :: ipset and p e :: nat and d :: bytes
  assume "env_ok E \<and> ipset_ok pl" "p < e" "e \<le> length d"
  then show "returns (\<lambda>(ok, pl', d', p'). (env_ok E \<and> ipset_ok pl') \<and> length d' = length d \<and> (ok \<longrightarrow> p < p' \<and> p' \<le> e)) (ipset_addpool E d p e pl)"
    using ipset_addpool_wp[of E pl p e d] by (auto elim!: returns_mono)
next
  fix pl assume "env_ok E \<and> ipset_ok pl"
  then show "returns (\<lambda>(ok, pl', d', p'). env_ok E \<and> ipset_ok pl') (ipset_addpool E [] 0 0 pl)"
    using ipset_reader_empty[of E pl] by (auto elim!: returns_mono)
qed

text \<open>An address lies in a set.\<close>

definition ip_hit :: "bytes option \<Rightarrow> bytes option \<Rightarrow> ipset \<Rightarrow> bool" where
  "ip_hit ipv4 ipv6 s \<longleftrightarrow>
     (case (ipv4, ipv6) of (Some a, None) \<Rightarrow> covered (ips4 s) (addr_bits a)
      | (None, Some a) \<Rightarrow> covered (ips6 s) (addr_bits a) | _ \<Rightarrow> False)"

definition addr_ok :: "bytes option \<Rightarrow> bytes option \<Rightarrow> bool" where
  "addr_ok ipv4 ipv6 \<longleftrightarrow> (\<forall>a. ipv4 = Some a \<longrightarrow> length a = 4) \<and> (\<forall>a. ipv6 = Some a \<longrightarrow> length a = 16)"

lemma SearchIpset_exact:
  assumes "picks pick" and "ipset_ok s" and "addr_ok ipv4 ipv6"
  shows "SearchIpset pick s ipv4 ipv6 = Some (ip_hit ipv4 ipv6 s)"
proof -
  have t: "tree_ok (ips4 s)" "\<forall>e\<in>set (ips4 s). kb_bitlen e \<le> 32" "tree_ok (ips6 s)" "\<forall>e\<in>set (ips6 s). kb_bitlen e \<le> 128"
    using assms(2) by (simp_all add: ipset_ok_def ip_tree_def)
  have c: "ipset4Check pick (ips4 s) a 32 = Some (covered (ips4 s) (addr_bits a))" if "length a = 4" for a
    using kavl_bit_get_tree[OF assms(1) t(1,2), of a] that by (auto simp: ipset4Check_def)
  have d: "ipset6Check pick (ips6 s) a 128 = Some (covered (ips6 s) (addr_bits a))" if "length a = 16" for a
    using kavl_bit_get_tree[OF assms(1) t(3,4), of a] that by (auto simp: ipset6Check_def)
  have "covered [] b = False" for b by (simp add: covered_def)
  then show ?thesis using c d assms(3) by (auto simp: SearchIpset_def ip_hit_def addr_ok_def split: option.splits)
qed

lemma SearchIpset2_exact:
  assumes "picks pick" and "ipset_ok s" and "addr_ok ipv4 ipv6" and "addr_ok ipv4r ipv6r"
  shows "SearchIpset2 pick ipv4 ipv6 ipv4r ipv6r s = Some (ip_hit ipv4 ipv6 s \<or> ip_hit ipv4r ipv6r s)"
  using SearchIpset_exact[OF assms(1,2,3)] SearchIpset_exact[OF assms(1,2,4)]
  by (auto simp: SearchIpset2_def ip_hit_def)

lemma ip_any_exact:
  assumes "picks pick" and "addr_ok a4 a6" and "addr_ok b4 b6" and "store_ok ipset_ok fs"
  shows "pointers_ok fs cl \<Longrightarrow> list_any (SearchIpset2 pick a4 a6 b4 b6) fs cl
     = Some (\<exists>i\<in>set cl. ip_hit a4 a6 (lf_pool (fs ! i)) \<or> ip_hit b4 b6 (lf_pool (fs ! i)))"
proof (induction cl)
  case (Cons i cl)
  then have "ipset_ok (lf_pool (fs ! i))" using assms(4) by (simp add: store_ok_def)
  from SearchIpset2_exact[OF assms(1) this assms(2,3)] Cons show ?case by auto
qed simp

lemma ip_reload_returns:
  assumes "env_ok E" and "store_ok ipset_ok fs" and "pointers_ok fs incl" and "pointers_ok fs excl"
  shows "returns (\<lambda>(ok, fs'). store_ok ipset_ok fs' \<and> length fs' = length fs
      \<and> (ok \<longrightarrow> (\<forall>i\<in>set incl \<union> set excl. up_to_date (ipset_addpool E) ipset_null os (fs' ! i))))
    (IpsetsReloadCheckForProfile E os incl excl fs)"
proof -
  have st: "store_ok (\<lambda>s. env_ok E \<and> ipset_ok s) fs = store_ok ipset_ok fs" for fs
    using assms(1) by (simp add: store_ok_def)
  have nu: "env_ok E \<and> ipset_ok ipset_null" using assms(1) by simp
  obtain ok1 fs1 where r1: "IpsetsReloadCheck E os incl fs = Some (ok1, fs1)" "store_ok ipset_ok fs1" "length fs1 = length fs"
    "ok1 \<longrightarrow> (\<forall>i\<in>set incl. up_to_date (ipset_addpool E) ipset_null os (fs1 ! i))"
    using returns_exists[OF ip_lines.reload_loop_returns[OF nu assms(2)[folded st] assms(3), where os = os and room = 4095]]
    by (auto simp: IpsetsReloadCheck_def st)
  have po: "pointers_ok fs1 excl" using assms r1(3) by (simp add: pointers_ok_def)
  obtain ok2 fs2 where r2: "IpsetsReloadCheck E os excl fs1 = Some (ok2, fs2)" "store_ok ipset_ok fs2" "length fs2 = length fs1"
    "\<forall>j<length fs1. up_to_date (ipset_addpool E) ipset_null os (fs1 ! j) \<longrightarrow> ok2 \<longrightarrow> up_to_date (ipset_addpool E) ipset_null os (fs2 ! j)"
    "ok2 \<longrightarrow> (\<forall>i\<in>set excl. up_to_date (ipset_addpool E) ipset_null os (fs2 ! i))"
    using returns_exists[OF ip_lines.reload_loop_returns[OF nu r1(2)[folded st] po, where os = os and room = 4095]]
    by (auto simp: IpsetsReloadCheck_def st)
  show ?thesis
    using r1 r2 assms(3) by (cases ok1) (auto simp: IpsetsReloadCheckForProfile_def pointers_ok_def)
qed

text \<open>The answer of a check against the sets in memory: an exclusion wins, and no inclusion at all means yes.\<close>

definition ip_answer :: "nat list \<Rightarrow> nat list \<Rightarrow> ip_store \<Rightarrow> (ipset \<Rightarrow> bool) \<Rightarrow> bool" where
  "ip_answer incl excl fs hit \<longleftrightarrow> (\<forall>i\<in>set excl. \<not> hit (lf_pool (fs ! i)))
     \<and> ((\<forall>i\<in>set incl. IPSET_EMPTY (lf_pool (fs ! i))) \<or> (\<exists>i\<in>set incl. hit (lf_pool (fs ! i))))"

lemma ip_list_check:
  assumes "picks pick" and "addr_ok a4 a6" and "addr_ok b4 b6" and "store_ok ipset_ok fs"
    and "pointers_ok fs incl" and "pointers_ok fs excl"
  shows "\<exists>ex. list_check IPSET_EMPTY (SearchIpset2 pick a4 a6 b4 b6) fs incl excl
    = Some (ip_answer incl excl fs (\<lambda>s. ip_hit a4 a6 s \<or> ip_hit b4 b6 s), ex)"
  unfolding list_check_def ip_answer_def
  using ip_any_exact[OF assms(1-4,5)] ip_any_exact[OF assms(1-4,6)] collection_is_empty_exact[OF assms(5), of IPSET_EMPTY]
  by auto

lemma ip_check_reload:
  assumes "env_ok E" and "store_ok ipset_ok fs" and "pointers_ok fs incl" and "pointers_ok fs excl"
    and "addr_ok a4 a6" and "addr_ok b4 b6"
  shows "\<exists>ok fs'. IpsetsReloadCheckForProfile E os incl excl fs = Some (ok, fs') \<and> length fs' = length fs \<and> store_ok ipset_ok fs'
    \<and> (ok \<longrightarrow> (\<forall>i\<in>set incl \<union> set excl. up_to_date (ipset_addpool E) ipset_null os (fs' ! i)))
    \<and> IpsetCheck E os incl excl fs a4 a6 b4 b6 =
        (if incl = [] \<and> excl = [] then Some (True, fs)
         else Some (ok \<and> ip_answer incl excl fs' (\<lambda>s. ip_hit a4 a6 s \<or> ip_hit b4 b6 s), fs'))"
proof -
  obtain ok fs' where r: "IpsetsReloadCheckForProfile E os incl excl fs = Some (ok, fs')" "store_ok ipset_ok fs'" "length fs' = length fs"
    "ok \<longrightarrow> (\<forall>i\<in>set incl \<union> set excl. up_to_date (ipset_addpool E) ipset_null os (fs' ! i))"
    using returns_exists[OF ip_reload_returns[OF assms(1-4), of os]] by auto
  have p: "pointers_ok fs' incl" "pointers_ok fs' excl" using assms(3,4) r(3) by (simp_all add: pointers_ok_def)
  have "picks (kpick E)" using assms(1) by (simp add: env_ok_def)
  from ip_list_check[OF this assms(5,6) r(2) p] obtain ex where
    "list_check IPSET_EMPTY (SearchIpset2 (kpick E) a4 a6 b4 b6) fs' incl excl
      = Some (ip_answer incl excl fs' (\<lambda>s. ip_hit a4 a6 s \<or> ip_hit b4 b6 s), ex)" by blast
  with r show ?thesis by (intro exI[of _ ok] exI[of _ fs']) (auto simp: IpsetCheck_def)
qed

subsection \<open>Properties\<close>

text \<open>C10: An address set is the set of addresses its blocks cover. Whatever blocks are added, in whatever order, wider or
  narrower than the ones already there, every addition ends and succeeds, no two prefixes of the tree overlap, and the
  search for an IPv4 or IPv6 address answers yes exactly if one of the added blocks contains the address.\<close>

theorem ipset_search_blocks:
  assumes "picks pick"
    and "list_all (\<lambda>c. cidr_preflen c \<le> 32 \<and> length (cidr_addr c) = 4) cs4"
    and "list_all (\<lambda>c. cidr_preflen c \<le> 128 \<and> length (cidr_addr c) = 16) cs6"
  shows "\<exists>t4 t6. ipset_adds (ipset4AddCidr pick True) [] cs4 = Some (True, t4) \<and> tree_ok t4
    \<and> ipset_adds (ipset6AddCidr pick True) [] cs6 = Some (True, t6) \<and> tree_ok t6
    \<and> (\<forall>a. length a = 4 \<longrightarrow> ipset4Check pick t4 a 32 = Some (\<exists>c\<in>set cs4. in_block c a))
    \<and> (\<forall>a. length a = 16 \<longrightarrow> ipset6Check pick t6 a 128 = Some (\<exists>c\<in>set cs6. in_block c a))"
proof -
  have add: "ipset4AddCidr pick True t c = ipset_kavl_add pick True t (cidr_addr c) (cidr_preflen c)"
    if "unat (cidr_preflen c) \<le> 32" for t c
    using that by (simp add: ipset4AddCidr_def ipset4Add_def word_less_nat_alt)
  have add6: "ipset6AddCidr pick True t c = ipset_kavl_add pick True t (cidr_addr c) (cidr_preflen c)"
    if "unat (cidr_preflen c) \<le> 128" for t c
    using that by (simp add: ipset6AddCidr_def ipset6Add_def word_less_nat_alt)
  have "list_all (\<lambda>c. unat (cidr_preflen c) \<le> 32 \<and> 8 * length (cidr_addr c) = 32) cs4"
    using assms(2) by (auto simp: list_all_iff word_le_nat_alt)
  from ipset_adds_tree[OF assms(1) add ip_tree_nil this]
  obtain t4 where t4: "ipset_adds (ipset4AddCidr pick True) [] cs4 = Some (True, t4)" "ip_tree 32 t4"
    "\<forall>a. 8 * length a = 32 \<longrightarrow> (covered t4 (addr_bits a) \<longleftrightarrow> covered [] (addr_bits a) \<or> (\<exists>c\<in>set cs4. in_block c a))" by blast
  have "list_all (\<lambda>c. unat (cidr_preflen c) \<le> 128 \<and> 8 * length (cidr_addr c) = 128) cs6"
    using assms(3) by (auto simp: list_all_iff word_le_nat_alt)
  from ipset_adds_tree[OF assms(1) add6 ip_tree_nil this]
  obtain t6 where t6: "ipset_adds (ipset6AddCidr pick True) [] cs6 = Some (True, t6)" "ip_tree 128 t6"
    "\<forall>a. 8 * length a = 128 \<longrightarrow> (covered t6 (addr_bits a) \<longleftrightarrow> covered [] (addr_bits a) \<or> (\<exists>c\<in>set cs6. in_block c a))" by blast
  have nil: "covered [] b = False" for b by (simp add: covered_def)
  have "ipset4Check pick t4 a 32 = Some (\<exists>c\<in>set cs4. in_block c a)" if "length a = 4" for a
    using kavl_bit_get_tree[OF assms(1), of t4 32 a] t4 that by (auto simp: ip_tree_def ipset4Check_def nil)
  moreover have "ipset6Check pick t6 a 128 = Some (\<exists>c\<in>set cs6. in_block c a)" if "length a = 16" for a
    using kavl_bit_get_tree[OF assms(1), of t6 128 a] t6 that by (auto simp: ip_tree_def ipset6Check_def nil)
  ultimately show ?thesis using t4 t6 by (auto simp: ip_tree_def)
qed

lemma ipset_search_blocks_witness:
  "\<exists>t. ipset_adds (ipset4AddCidr hd True) [] [\<lparr>cidr_addr = [10, 1, 0, 0], cidr_preflen = 16\<rparr>, \<lparr>cidr_addr = [10, 0, 0, 0], cidr_preflen = 8\<rparr>]
     = Some (True, t) \<and> ipset4Check hd t [10, 2, 3, 4] 32 = Some True"
proof -
  have "picks hd" by (simp add: picks_def)
  from ipset_search_blocks[OF this, of "[\<lparr>cidr_addr = [10, 1, 0, 0], cidr_preflen = 16\<rparr>, \<lparr>cidr_addr = [10, 0, 0, 0], cidr_preflen = 8\<rparr>]" "[]"]
  obtain t where "ipset_adds (ipset4AddCidr hd True) [] [\<lparr>cidr_addr = [10, 1, 0, 0], cidr_preflen = 16\<rparr>, \<lparr>cidr_addr = [10, 0, 0, 0], cidr_preflen = 8\<rparr>]
     = Some (True, t)" "\<forall>a. length a = 4 \<longrightarrow> ipset4Check hd t a 32
       = Some (\<exists>c\<in>set [\<lparr>cidr_addr = [10, 1, 0, 0], cidr_preflen = 16\<rparr>, \<lparr>cidr_addr = [10, 0, 0, 0], cidr_preflen = 8\<rparr>]. in_block c a)"
    by auto
  moreover have "in_block \<lparr>cidr_addr = [10, 0, 0, 0], cidr_preflen = 8\<rparr> [10, 2, 3, 4]"
    by (simp add: in_block_def addr_bits_def)
  ultimately show ?thesis by auto
qed

text \<open>A check of an address against the sets of a profile always ends without a memory fault, whatever the files hold.
  A profile without sets accepts every address; a failed reload refuses it; otherwise every set carries the signature its
  file has now, no excluded set contains the address or its peer, and an included one does if any included set is not empty.\<close>

theorem IpsetCheck_reloads:
  assumes "env_ok E" and "store_ok ipset_ok fs" and "pointers_ok fs incl" and "pointers_ok fs excl"
    and "addr_ok a4 a6" and "addr_ok b4 b6"
  shows "\<exists>ok fs'. IpsetsReloadCheckForProfile E os incl excl fs = Some (ok, fs') \<and> length fs' = length fs \<and> store_ok ipset_ok fs'
    \<and> (ok \<longrightarrow> (\<forall>i\<in>set incl \<union> set excl. up_to_date (ipset_addpool E) ipset_null os (fs' ! i)))
    \<and> IpsetCheck E os incl excl fs a4 a6 b4 b6 =
        (if incl = [] \<and> excl = [] then Some (True, fs)
         else Some (ok \<and> ip_answer incl excl fs' (\<lambda>s. ip_hit a4 a6 s \<or> ip_hit b4 b6 s), fs'))"
  by (rule ip_check_reload[OF assms])

lemma IpsetCheck_reloads_witness:
  "\<exists>ok fs'. IpsetCheck \<lparr>pton4 = \<lambda>s. Some [10, 0, 0, 0], pton6 = \<lambda>s. None, kpick = hd, kalloc = True\<rparr>
     (\<lambda>n. \<lparr>os_sig = Some \<lparr>mod_time = 5, mod_size = 3\<rparr>, os_readable = True, os_data = GzipText [97, 10]\<rparr>) [0] []
     [\<lparr>lf_name = Some [1], lf_sig = FILE_MOD_RESET, lf_pool = ipset_null\<rparr>] (Some [10, 0, 0, 1]) None None None = Some (ok, fs')
     \<and> length fs' = 1"
proof -
  let ?E = "\<lparr>pton4 = \<lambda>s. Some [10, 0, 0, 0], pton6 = \<lambda>s. None, kpick = hd, kalloc = True\<rparr>"
  let ?os = "\<lambda>n :: bytes. \<lparr>os_sig = Some \<lparr>mod_time = 5, mod_size = 3\<rparr>, os_readable = True, os_data = GzipText [97, 10]\<rparr>"
  let ?fs = "[\<lparr>lf_name = Some [1], lf_sig = FILE_MOD_RESET, lf_pool = ipset_null\<rparr>]"
  have e: "env_ok ?E" by (simp add: env_ok_def picks_def)
  have s: "store_ok ipset_ok ?fs" by (simp add: store_ok_def)
  have a: "addr_ok (Some [10, 0, 0, 1]) None" "addr_ok None None" by (simp_all add: addr_ok_def)
  have p: "pointers_ok ?fs [0]" "pointers_ok ?fs []" by simp_all
  from IpsetCheck_reloads[OF e s p a, of ?os] show ?thesis by (elim exE conjE) auto
qed

end
