(* ===== verification/Profile.thy ===== *)
theory Profile
  imports Ipset L7
begin

text \<open>
  Desync profiles: \<open>struct desync_profile\<close> and its lists (src/nfq2/params.c, src/nfq2/params.h), the lists and fail
  counters of src/nfq2/pools.c it is built of, and the choice of a profile for a packet, \<open>dp_match\<close> and \<open>dp_find\<close>
  of src/nfq2/desync.c. A profile points to files of host lists and address sets in their two stores.
\<close>

subsection \<open>Fail counters\<close>

text \<open>A table under the host name. \<open>now\<close> is \<open>boottime()\<close>.\<close>

record hostfail =
  hf_counter :: int
  hf_expire :: int

type_synonym hostfail_pool = "(bytes, hostfail) table"

definition HostFailPoolDestroy :: "hostfail_pool \<Rightarrow> hostfail_pool" where
  "HostFailPoolDestroy pp = []"

definition HostFailPoolAdd :: "bool \<Rightarrow> int \<Rightarrow> hostfail_pool \<Rightarrow> bytes \<Rightarrow> int \<Rightarrow> hostfail_pool \<times> hostfail option" where
  "HostFailPoolAdd alloc now pp s fail_time =
     (if alloc then (let e = \<lparr>hf_counter = 0, hf_expire = now + fail_time\<rparr> in (hash_add pp s e, Some e)) else (pp, None))"

definition HostFailPoolFind :: "hostfail_pool \<Rightarrow> bytes \<Rightarrow> hostfail option" where
  "HostFailPoolFind p s = hash_find p s"

definition HostFailPoolDel :: "hostfail_pool \<Rightarrow> bytes \<Rightarrow> hostfail_pool" where
  "HostFailPoolDel pp s = hash_del pp s"

fun failpool_purge_iter :: "int \<Rightarrow> (bytes \<times> hostfail) list \<Rightarrow> hostfail_pool \<Rightarrow> hostfail_pool" where
  "failpool_purge_iter now [] pp = pp"
| "failpool_purge_iter now ((s, e) # es) pp =
     failpool_purge_iter now es (if now \<ge> hf_expire e then HostFailPoolDel pp s else pp)"

definition HostFailPoolPurge :: "int \<Rightarrow> hostfail_pool \<Rightarrow> hostfail_pool" where
  "HostFailPoolPurge now pp = failpool_purge_iter now pp pp"

definition HostFailPoolPurgeRateLimited :: "int \<Rightarrow> hostfail_pool \<Rightarrow> int \<Rightarrow> hostfail_pool \<times> int" where
  "HostFailPoolPurgeRateLimited now pp purge_prev =
     (if purge_prev \<noteq> now then (HostFailPoolPurge now pp, now) else (pp, purge_prev))"

subsection \<open>Lists of strings and of functions\<close>

text \<open>Lists are copied behind the tail. Either every allocation succeeds or none does.\<close>

definition list_copy :: "bool \<Rightarrow> 'a list \<Rightarrow> 'a list \<Rightarrow> 'a list \<times> bool" where
  "list_copy alloc to src = (if alloc \<or> src = [] then (to @ src, True) else (to, False))"

definition strlist_add :: "bool \<Rightarrow> bytes list \<Rightarrow> bytes \<Rightarrow> bytes list \<times> bool" where
  "strlist_add alloc h s = (if alloc then (s # h, True) else (h, False))"

definition strlist_add_tail :: "bool \<Rightarrow> bytes list \<Rightarrow> bytes \<Rightarrow> bytes list \<times> bool" where
  "strlist_add_tail alloc h s = (if alloc then (h @ [s], True) else (h, False))"

definition strlist_copy :: "bool \<Rightarrow> bytes list \<Rightarrow> bytes list \<Rightarrow> bytes list \<times> bool" where
  "strlist_copy alloc to src = list_copy alloc to src"

definition strlist_search :: "bytes list \<Rightarrow> bytes option \<Rightarrow> bool" where
  "strlist_search h s = (case s of None \<Rightarrow> False | Some s \<Rightarrow> s \<in> set h)"

text \<open>An argument of a function: name and value, each of which may be missing.\<close>

type_synonym str2 = "bytes option \<times> bytes option"

definition str2list_add :: "bool \<Rightarrow> str2 list \<Rightarrow> str2 list \<times> str2 option" where
  "str2list_add alloc h = (if alloc then ((None, None) # h, Some (None, None)) else (h, None))"

definition str2list_copy :: "bool \<Rightarrow> str2 list \<Rightarrow> str2 list \<Rightarrow> str2 list \<times> bool" where
  "str2list_copy alloc to src = list_copy alloc to src"

record func_list =
  fl_func :: bytes
  fl_payload_type :: u64
  fl_range_in :: packet_range
  fl_range_out :: packet_range
  fl_args :: "str2 list"

definition PACKET_RANGE_ALWAYS :: packet_range where
  "PACKET_RANGE_ALWAYS = \<lparr>pr_from = PACKET_POS_ALWAYS, pr_to = PACKET_POS_ALWAYS, pr_upper_cutoff = False\<rparr>"

definition funclist_entry_alloc :: "bytes \<Rightarrow> func_list" where
  "funclist_entry_alloc f = \<lparr>fl_func = f, fl_payload_type = 0, fl_range_in = PACKET_RANGE_ALWAYS,
     fl_range_out = PACKET_RANGE_ALWAYS, fl_args = []\<rparr>"

definition funclist_add_tail :: "bool \<Rightarrow> func_list list \<Rightarrow> bytes \<Rightarrow> func_list list \<times> func_list option" where
  "funclist_add_tail alloc h f =
     (if alloc then (h @ [funclist_entry_alloc f], Some (funclist_entry_alloc f)) else (h, None))"

definition funclist_entry_copy :: "func_list \<Rightarrow> func_list" where
  "funclist_entry_copy e =
     (let e2 = funclist_entry_alloc (fl_func e)
      in e2\<lparr>fl_payload_type := fl_payload_type e, fl_range_in := fl_range_in e, fl_range_out := fl_range_out e,
            fl_args := fst (str2list_copy True (fl_args e2) (fl_args e))\<rparr>)"

definition funclist_copy :: "bool \<Rightarrow> func_list list \<Rightarrow> func_list list \<Rightarrow> func_list list \<times> bool" where
  "funclist_copy alloc to src = list_copy alloc to (map funclist_entry_copy src)"

subsection \<open>Profiles\<close>

record desync_profile =
  dp_n :: u32
  dp_name :: "bytes option"
  dp_cookie :: "bytes option"
  filter_ipv4 :: bool
  filter_ipv6 :: bool
  pf_tcp :: "port_filter list"
  pf_udp :: "port_filter list"
  dp_icf :: "icmp_filter list"
  dp_ipf :: "ipp_filter list"
  filter_l7 :: u64
  filter_ssid :: "bytes list"
  ips_collection :: "nat list"
  ips_collection_exclude :: "nat list"
  hl_collection :: "nat list"
  hl_collection_exclude :: "nat list"
  hostlist_auto :: "nat option"
  fail_threshold :: int
  fail_time :: int
  retrans_threshold :: int
  udp_in :: int
  udp_out :: int
  retrans_maxseq :: u32
  incoming_maxseq :: u32
  retrans_reset :: bool
  fail_counters :: hostfail_pool
  last_purge :: int
  lua_desync :: "func_list list"
  b_fail_threshold :: bool
  b_fail_time :: bool
  b_retrans_threshold :: bool
  b_retrans_maxseq :: bool
  b_incoming_maxseq :: bool
  b_retrans_reset :: bool
  b_udp_out :: bool
  b_udp_in :: bool
  b_filter_l3 :: bool
  b_filter_l7 :: bool

text \<open>A new entry is zeroed by \<open>calloc\<close> and initialised.\<close>

definition dp_init :: desync_profile where
  "dp_init = \<lparr>dp_n = 0, dp_name = None, dp_cookie = None, filter_ipv4 = False, filter_ipv6 = False,
     pf_tcp = [], pf_udp = [], dp_icf = [], dp_ipf = [], filter_l7 = 0, filter_ssid = [],
     ips_collection = [], ips_collection_exclude = [], hl_collection = [], hl_collection_exclude = [],
     hostlist_auto = None, fail_threshold = 3, fail_time = 60, retrans_threshold = 3, udp_in = 1, udp_out = 4,
     retrans_maxseq = 32768, incoming_maxseq = 4096, retrans_reset = True, fail_counters = [], last_purge = 0,
     lua_desync = [], b_fail_threshold = False, b_fail_time = False, b_retrans_threshold = False,
     b_retrans_maxseq = False, b_incoming_maxseq = False, b_retrans_reset = False, b_udp_out = False, b_udp_in = False,
     b_filter_l3 = False, b_filter_l7 = False\<rparr>"

definition dp_list_add :: "bool \<Rightarrow> desync_profile list \<Rightarrow> desync_profile list \<times> nat option" where
  "dp_list_add alloc h = (if alloc then (h @ [dp_init], Some (length h)) else (h, None))"

text \<open>\<open>DP_COPY_SIMPLE\<close> of every option, and the layer 3 filter, which is joined with one that is already set.\<close>

definition dp_copy_options :: "desync_profile \<Rightarrow> desync_profile \<Rightarrow> desync_profile" where
  "dp_copy_options to src =
     (let to = (if b_fail_threshold src then to\<lparr>fail_threshold := fail_threshold src, b_fail_threshold := True\<rparr> else to);
          to = (if b_fail_time src then to\<lparr>fail_time := fail_time src, b_fail_time := True\<rparr> else to);
          to = (if b_retrans_threshold src then to\<lparr>retrans_threshold := retrans_threshold src, b_retrans_threshold := True\<rparr> else to);
          to = (if b_retrans_maxseq src then to\<lparr>retrans_maxseq := retrans_maxseq src, b_retrans_maxseq := True\<rparr> else to);
          to = (if b_incoming_maxseq src then to\<lparr>incoming_maxseq := incoming_maxseq src, b_incoming_maxseq := True\<rparr> else to);
          to = (if b_retrans_reset src then to\<lparr>retrans_reset := retrans_reset src, b_retrans_reset := True\<rparr> else to);
          to = (if b_udp_out src then to\<lparr>udp_out := udp_out src, b_udp_out := True\<rparr> else to);
          to = (if b_udp_in src then to\<lparr>udp_in := udp_in src, b_udp_in := True\<rparr> else to);
          to = (if b_filter_l7 src then to\<lparr>filter_l7 := filter_l7 src, b_filter_l7 := True\<rparr> else to)
      in if \<not> b_filter_l3 src then to
         else if b_filter_l3 to
         then to\<lparr>filter_ipv4 := filter_ipv4 to \<or> filter_ipv4 src, filter_ipv6 := filter_ipv6 to \<or> filter_ipv6 src\<rparr>
         else to\<lparr>filter_ipv4 := filter_ipv4 src, filter_ipv6 := filter_ipv6 src, b_filter_l3 := True\<rparr>)"

text \<open>The chain of list copies, which stops at the first one that fails.\<close>

definition dp_copy_lists :: "bool \<Rightarrow> desync_profile \<Rightarrow> desync_profile \<Rightarrow> desync_profile \<times> bool" where
  "dp_copy_lists alloc to src =
     (let (l, ok) = strlist_copy alloc (filter_ssid to) (filter_ssid src); to = to\<lparr>filter_ssid := l\<rparr> in
      if \<not> ok then (to, False) else
      let (l, ok) = funclist_copy alloc (lua_desync to) (lua_desync src); to = to\<lparr>lua_desync := l\<rparr> in
      if \<not> ok then (to, False) else
      let (l, ok) = list_copy alloc (ips_collection to) (ips_collection src); to = to\<lparr>ips_collection := l\<rparr> in
      if \<not> ok then (to, False) else
      let (l, ok) = list_copy alloc (ips_collection_exclude to) (ips_collection_exclude src); to = to\<lparr>ips_collection_exclude := l\<rparr> in
      if \<not> ok then (to, False) else
      let (l, ok) = list_copy alloc (hl_collection to) (hl_collection src); to = to\<lparr>hl_collection := l\<rparr> in
      if \<not> ok then (to, False) else
      let (l, ok) = list_copy alloc (hl_collection_exclude to) (hl_collection_exclude src); to = to\<lparr>hl_collection_exclude := l\<rparr> in
      if \<not> ok then (to, False) else
      let (l, ok) = list_copy alloc (pf_tcp to) (pf_tcp src); to = to\<lparr>pf_tcp := l\<rparr> in
      if \<not> ok then (to, False) else
      let (l, ok) = list_copy alloc (pf_udp to) (pf_udp src); to = to\<lparr>pf_udp := l\<rparr> in
      if \<not> ok then (to, False) else
      let (l, ok) = list_copy alloc (dp_icf to) (dp_icf src); to = to\<lparr>dp_icf := l\<rparr> in
      if \<not> ok then (to, False) else
      let (l, ok) = list_copy alloc (dp_ipf to) (dp_ipf src); to = to\<lparr>dp_ipf := l\<rparr> in
      (to, ok))"

definition dp_copy :: "bool \<Rightarrow> desync_profile \<Rightarrow> desync_profile \<Rightarrow> desync_profile \<times> bool" where
  "dp_copy alloc to src =
     (let to = dp_copy_options to src in
      if dp_cookie src \<noteq> None \<and> \<not> alloc then (to\<lparr>dp_cookie := None\<rparr>, False)
      else
        let to = (if dp_cookie src \<noteq> None then to\<lparr>dp_cookie := dp_cookie src\<rparr> else to) in
        if hostlist_auto src \<noteq> None \<and> hostlist_auto src \<noteq> hostlist_auto to then
          (if hostlist_auto to \<noteq> None then (to, False)
           else dp_copy_lists alloc (to\<lparr>hostlist_auto := hostlist_auto src\<rparr>) src)
        else dp_copy_lists alloc to src)"

definition dp_list_search_name :: "desync_profile list \<Rightarrow> bytes option \<Rightarrow> desync_profile option" where
  "dp_list_search_name h name =
     (case name of None \<Rightarrow> None | Some s \<Rightarrow> List.find (\<lambda>p. dp_name p = Some s) h)"

definition dp_list_have_autohostlist :: "desync_profile list \<Rightarrow> bool" where
  "dp_list_have_autohostlist h \<longleftrightarrow> list_ex (\<lambda>p. hostlist_auto p \<noteq> None) h"

text \<open>The automatic lists, as \<open>MakeAutolistsNonEmpty\<close> meets them.\<close>

definition autolists :: "desync_profile list \<Rightarrow> nat list" where
  "autolists h = List.map_filter hostlist_auto h"

subsection \<open>The choice of a profile\<close>

text \<open>What the search calls: the allocator and the files of the host lists, and what the address sets need.\<close>

record list_env =
  le_alloc :: bool
  le_os :: os_env
  le_ip :: ipset_env

type_synonym stores = "host_store \<times> ip_store"

text \<open>\<open>*bCheckDone\<close>, \<open>*bCheckResult\<close>, \<open>*bExcluded\<close>. A caller that passes null pointers ignores them.\<close>

type_synonym hostcheck = "bool \<times> bool \<times> bool"

record target =
  tg_proto :: u8
  tg_ip :: "bytes option"
  tg_ip6 :: "bytes option"
  tg_ipr :: "bytes option"
  tg_ipr6 :: "bytes option"
  tg_port :: u16
  tg_icmp_type :: u8
  tg_icmp_code :: u8
  tg_host :: "bytes option"
  tg_nosub :: bool
  tg_l7 :: t_l7proto
  tg_ssid :: "bytes option"

definition dp_proto_match :: "desync_profile \<Rightarrow> target \<Rightarrow> bool" where
  "dp_proto_match p x =
     (if tg_proto x = IPPROTO_TCP then port_filters_match (pf_tcp p) (tg_port x)
      else if tg_proto x = IPPROTO_UDP then port_filters_match (pf_udp p) (tg_port x)
      else if tg_proto x = IPPROTO_ICMP \<or> tg_proto x = IPPROTO_ICMPV6
      then icmp_filters_match (dp_icf p) (tg_icmp_type x) (tg_icmp_code x)
      else ipp_filters_match (dp_ipf p) (tg_proto x))"

definition PROFILE_HOSTLISTS_EMPTY :: "desync_profile \<Rightarrow> host_store \<Rightarrow> bool option" where
  "PROFILE_HOSTLISTS_EMPTY p hs =
     cand (collection_is_empty (\<lambda>pl. pl = []) hs (hl_collection p))
          (collection_is_empty (\<lambda>pl. pl = []) hs (hl_collection_exclude p))"

text \<open>The part of \<open>dp_match\<close> behind the filters that need no list.\<close>

definition dp_match_lists ::
  "list_env \<Rightarrow> nat list \<Rightarrow> desync_profile \<Rightarrow> target \<Rightarrow> hostcheck \<Rightarrow> stores \<Rightarrow> (bool \<times> hostcheck \<times> stores) option" where
  "dp_match_lists E autos p x chk = (\<lambda>(hs, is). do {
     emp \<leftarrow> PROFILE_HOSTLISTS_EMPTY p hs;
     if hostlist_auto p = None \<and> tg_host x = None \<and> \<not> emp then Some (False, chk, hs, is)
     else do {
       (ok, is) \<leftarrow> IpsetCheck (le_ip E) (le_os E) (ips_collection p) (ips_collection_exclude p) is
                      (tg_ip x) (tg_ip6 x) (tg_ipr x) (tg_ipr6 x);
       if \<not> ok then Some (False, chk, hs, is)
       else if hostlist_auto p \<noteq> None \<and> tg_host x \<noteq> None then Some (True, chk, hs, is)
       else if emp then Some (True, chk, hs, is)
       else (case tg_host x of
           Some h \<Rightarrow> do {
             (b, ex, hs) \<leftarrow> HostlistCheck (le_alloc E) (le_os E) autos (hl_collection p) (hl_collection_exclude p) hs h (tg_nosub x) True;
             Some (b, (True, b, ex), hs, is) }
         | None \<Rightarrow> Some (False, chk, hs, is)) } })"

definition dp_match ::
  "list_env \<Rightarrow> nat list \<Rightarrow> desync_profile \<Rightarrow> target \<Rightarrow> hostcheck \<Rightarrow> stores \<Rightarrow> (bool \<times> hostcheck \<times> stores) option" where
  "dp_match E autos p x = (\<lambda>(done, res, ex) (hs, is). do {
     let chk = (False, res, ex);
     (ok, hs) \<leftarrow> HostlistsReloadCheckForProfile (le_alloc E) (le_os E) autos (hl_collection p) (hl_collection_exclude p) hs;
     if \<not> ok then Some (False, chk, hs, is)
     else if (tg_ip x \<noteq> None \<and> \<not> filter_ipv4 p) \<or> (tg_ip6 x \<noteq> None \<and> \<not> filter_ipv6 p) then Some (False, chk, hs, is)
     else if \<not> dp_proto_match p x then Some (False, chk, hs, is)
     else if \<not> l7_proto_match (tg_l7 x) (filter_l7 p) then Some (False, chk, hs, is)
     else if filter_ssid p \<noteq> [] \<and> \<not> strlist_search (filter_ssid p) (tg_ssid x) then Some (False, chk, hs, is)
     else dp_match_lists E autos p x chk (hs, is) })"

text \<open>The profiles are tried in their order; \<open>i\<close> is the number of the first one.\<close>

fun dp_find_loop ::
  "list_env \<Rightarrow> nat list \<Rightarrow> nat \<Rightarrow> desync_profile list \<Rightarrow> target \<Rightarrow> hostcheck \<Rightarrow> stores \<Rightarrow> (nat option \<times> hostcheck \<times> stores) option" where
  "dp_find_loop E autos i [] x chk st = Some (None, chk, st)"
| "dp_find_loop E autos i (p # ps) x chk st = do {
     (m, chk, st) \<leftarrow> dp_match E autos p x chk st;
     if m then Some (Some i, chk, st) else dp_find_loop E autos (i + 1) ps x chk st }"

definition dp_find ::
  "list_env \<Rightarrow> desync_profile list \<Rightarrow> target \<Rightarrow> hostcheck \<Rightarrow> stores \<Rightarrow> (nat option \<times> hostcheck \<times> stores) option" where
  "dp_find E ps x chk st =
     (case chk of (done, res, ex) \<Rightarrow> dp_find_loop E (autolists ps) 0 ps x (False, res, ex) st)"

subsection \<open>Settled stores\<close>

lemma load_list_fresh: "up_to_date reader empty_pool os f \<Longrightarrow> load_list reader room empty_pool os f = Some (True, f)"
  by (auto simp: load_list_def up_to_date_def split: option.splits)

lemma reload_loop_fresh:
  "pointers_ok fs cl \<Longrightarrow> \<forall>i\<in>set cl. up_to_date reader empty_pool os (fs ! i) \<Longrightarrow>
   reload_loop reader room empty_pool os cl fs = Some (True, fs)"
  by (induction cl) (auto simp: load_at_def load_list_fresh)

lemma autolists_kept:
  "pointers_ok fs autos \<Longrightarrow> \<forall>i\<in>set autos. lf_pool (fs ! i) \<noteq> [] \<Longrightarrow> MakeAutolistsNonEmpty alloc autos fs = Some fs"
  by (induction autos) (auto simp: NonEmptyHostlist_def)

text \<open>Every pointer of a profile leads to a file, and every address set is well formed.\<close>

definition profile_ok :: "stores \<Rightarrow> desync_profile \<Rightarrow> bool" where
  "profile_ok = (\<lambda>(hs, is) p. pointers_ok hs (hl_collection p) \<and> pointers_ok hs (hl_collection_exclude p)
     \<and> pointers_ok is (ips_collection p) \<and> pointers_ok is (ips_collection_exclude p))"

definition stores_ok :: "nat list \<Rightarrow> stores \<Rightarrow> bool" where
  "stores_ok autos = (\<lambda>(hs, is). pointers_ok hs autos \<and> store_ok ipset_ok is)"

text \<open>Every list of the profile carries the signature its file has now, and no automatic list is empty.\<close>

definition profile_settled :: "list_env \<Rightarrow> nat list \<Rightarrow> stores \<Rightarrow> desync_profile \<Rightarrow> bool" where
  "profile_settled E autos = (\<lambda>(hs, is) p.
     (\<forall>i\<in>set autos. lf_pool (hs ! i) \<noteq> [])
     \<and> (\<forall>i\<in>set (hl_collection p) \<union> set (hl_collection_exclude p). host_fresh (le_alloc E) (le_os E) (hs ! i))
     \<and> (\<forall>i\<in>set (ips_collection p) \<union> set (ips_collection_exclude p). up_to_date (ipset_addpool (le_ip E)) ipset_null (le_os E) (is ! i)))"

text \<open>A target is a packet's when its addresses have their lengths.\<close>

definition target_ok :: "target \<Rightarrow> bool" where
  "target_ok x \<longleftrightarrow> addr_ok (tg_ip x) (tg_ip6 x) \<and> addr_ok (tg_ipr x) (tg_ipr6 x)"

lemma host_reload_fresh:
  assumes "pointers_ok hs incl" and "pointers_ok hs excl" and "pointers_ok hs autos"
    and "\<forall>i\<in>set autos. lf_pool (hs ! i) \<noteq> []" and "\<forall>i\<in>set incl \<union> set excl. host_fresh alloc os (hs ! i)"
  shows "HostlistsReloadCheckForProfile alloc os autos incl excl hs = Some (True, hs)"
  using assms by (simp add: HostlistsReloadCheckForProfile_def HostlistsReloadCheck_def reload_loop_fresh autolists_kept)

lemma ip_reload_fresh:
  assumes "pointers_ok is incl" and "pointers_ok is excl"
    and "\<forall>i\<in>set incl \<union> set excl. up_to_date (ipset_addpool E) ipset_null os (is ! i)"
  shows "IpsetsReloadCheckForProfile E os incl excl is = Some (True, is)"
  using assms by (simp add: IpsetsReloadCheckForProfile_def IpsetsReloadCheck_def reload_loop_fresh)

subsection \<open>What wins\<close>

definition lists_empty :: "host_store \<Rightarrow> desync_profile \<Rightarrow> bool" where
  "lists_empty hs p \<longleftrightarrow> (\<forall>i\<in>set (hl_collection p) \<union> set (hl_collection_exclude p). lf_pool (hs ! i) = [])"

definition host_answer :: "host_store \<Rightarrow> desync_profile \<Rightarrow> bytes \<Rightarrow> bool \<Rightarrow> bool" where
  "host_answer hs p h nosub \<longleftrightarrow> (\<forall>i\<in>set (hl_collection_exclude p). \<not> SearchHostList (lf_pool (hs ! i)) h nosub)
     \<and> ((\<forall>i\<in>set (hl_collection p). lf_pool (hs ! i) = [])
         \<or> (\<exists>i\<in>set (hl_collection p). SearchHostList (lf_pool (hs ! i)) h nosub))"

text \<open>The filters that need no list.\<close>

definition dp_filters :: "desync_profile \<Rightarrow> target \<Rightarrow> bool" where
  "dp_filters p x \<longleftrightarrow> (tg_ip x \<noteq> None \<longrightarrow> filter_ipv4 p) \<and> (tg_ip6 x \<noteq> None \<longrightarrow> filter_ipv6 p)
     \<and> dp_proto_match p x \<and> l7_proto_match (tg_l7 x) (filter_l7 p)
     \<and> (filter_ssid p \<noteq> [] \<longrightarrow> (\<exists>s\<in>set (filter_ssid p). tg_ssid x = Some s))"

definition dp_ips :: "ip_store \<Rightarrow> desync_profile \<Rightarrow> target \<Rightarrow> bool" where
  "dp_ips is p x \<longleftrightarrow> (ips_collection p = [] \<and> ips_collection_exclude p = [])
     \<or> ip_answer (ips_collection p) (ips_collection_exclude p) is
          (\<lambda>s. ip_hit (tg_ip x) (tg_ip6 x) s \<or> ip_hit (tg_ipr x) (tg_ipr6 x) s)"

text \<open>A profile without host lists takes every host, even an unknown one; with host lists the name has to be known, and
  then an automatic list takes every host and other lists have to answer yes.\<close>

definition dp_hosts :: "host_store \<Rightarrow> desync_profile \<Rightarrow> target \<Rightarrow> bool" where
  "dp_hosts hs p x \<longleftrightarrow> lists_empty hs p
     \<or> (\<exists>h. tg_host x = Some h \<and> (hostlist_auto p \<noteq> None \<or> host_answer hs p h (tg_nosub x)))"

text \<open>A profile asks its host lists when it has some, none of them is automatic, and the host is known. The report is the
  answer, and whether a list of the excluded hosts has the name.\<close>

definition host_asked :: "host_store \<Rightarrow> desync_profile \<Rightarrow> target \<Rightarrow> bool" where
  "host_asked hs p x \<longleftrightarrow> hostlist_auto p = None \<and> \<not> lists_empty hs p \<and> tg_host x \<noteq> None"

definition host_excluded :: "host_store \<Rightarrow> desync_profile \<Rightarrow> bytes \<Rightarrow> bool \<Rightarrow> bool" where
  "host_excluded hs p h nosub \<longleftrightarrow> (\<exists>i\<in>set (hl_collection_exclude p). SearchHostList (lf_pool (hs ! i)) h nosub)"

definition host_report :: "host_store \<Rightarrow> desync_profile \<Rightarrow> target \<Rightarrow> hostcheck" where
  "host_report hs p x = (let h = (case tg_host x of None \<Rightarrow> [] | Some h \<Rightarrow> h)
     in (True, host_answer hs p h (tg_nosub x), host_excluded hs p h (tg_nosub x)))"

definition dp_wins :: "stores \<Rightarrow> target \<Rightarrow> desync_profile \<Rightarrow> bool" where
  "dp_wins = (\<lambda>(hs, is) x p. dp_filters p x \<and> dp_ips is p x \<and> dp_hosts hs p x)"

lemma profile_lists_empty:
  assumes "pointers_ok hs (hl_collection p)" and "pointers_ok hs (hl_collection_exclude p)"
  shows "PROFILE_HOSTLISTS_EMPTY p hs = Some (lists_empty hs p)"
  using assms by (auto simp: PROFILE_HOSTLISTS_EMPTY_def collection_is_empty_exact lists_empty_def cand_def)

lemma HostlistCheck_memory:
  assumes "pointers_ok hs incl" and "pointers_ok hs excl"
  shows "HostlistCheck alloc os autos incl excl hs h nosub True
    = Some ((\<forall>i\<in>set excl. \<not> SearchHostList (lf_pool (hs ! i)) h nosub)
       \<and> ((\<forall>i\<in>set incl. lf_pool (hs ! i) = []) \<or> (\<exists>i\<in>set incl. SearchHostList (lf_pool (hs ! i)) h nosub)),
       \<exists>i\<in>set excl. SearchHostList (lf_pool (hs ! i)) h nosub, hs)"
  by (simp add: HostlistCheck_def list_check_exact[OF assms refl])

text \<open>What a match does is what its reloads do; the stores after them decide.\<close>

lemma dp_match_lists_exact:
  assumes ph: "pointers_ok hs (hl_collection p)" "pointers_ok hs (hl_collection_exclude p)"
    and pi: "store_ok ipset_ok is" "pointers_ok is (ips_collection p)" "pointers_ok is (ips_collection_exclude p)"
    and x: "target_ok x" and e: "env_ok (le_ip E)"
    and i: "IpsetsReloadCheckForProfile (le_ip E) (le_os E) (ips_collection p) (ips_collection_exclude p) is = Some (ok2, is')"
  shows "\<exists>chk' is''. dp_match_lists E autos p x chk (hs, is)
     = Some ((ips_collection p = [] \<and> ips_collection_exclude p = [] \<or> ok2 \<and> dp_ips is' p x) \<and> dp_hosts hs p x, chk', hs, is'')
     \<and> is'' \<in> {is, is'} \<and> (dp_ips is' p x \<and> dp_hosts hs p x \<longrightarrow> ok2 \<longrightarrow> dp_ips is'' p x)
     \<and> chk' = (if (ips_collection p = [] \<and> ips_collection_exclude p = [] \<or> ok2 \<and> dp_ips is' p x) \<and> host_asked hs p x
         then host_report hs p x else chk)"
proof -
  have ad: "addr_ok (tg_ip x) (tg_ip6 x)" "addr_ok (tg_ipr x) (tg_ipr6 x)" using x by (simp_all add: target_ok_def)
  have ic: "IpsetCheck (le_ip E) (le_os E) (ips_collection p) (ips_collection_exclude p) is (tg_ip x) (tg_ip6 x) (tg_ipr x) (tg_ipr6 x)
     = (if ips_collection p = [] \<and> ips_collection_exclude p = [] then Some (True, is)
        else Some (ok2 \<and> dp_ips is' p x, is'))"
    using ip_check_reload[OF e pi ad, of "le_os E"] i by (auto simp: dp_ips_def)
  note em = profile_lists_empty[OF ph]
  have no: "dp_ips j p x" if "ips_collection p = []" "ips_collection_exclude p = []" for j using that by (simp add: dp_ips_def)
  show ?thesis
  proof (cases "tg_host x")
    case None
    then show ?thesis by (cases chk) (simp add: dp_match_lists_def em ic dp_hosts_def no host_asked_def)
  next
    case (Some h)
    have "HostlistCheck (le_alloc E) (le_os E) autos (hl_collection p) (hl_collection_exclude p) hs h (tg_nosub x) True
        = Some (host_answer hs p h (tg_nosub x), host_excluded hs p h (tg_nosub x), hs)"
      using HostlistCheck_memory[OF ph, of "le_alloc E" "le_os E" autos h "tg_nosub x"] unfolding host_answer_def host_excluded_def .
    with Some show ?thesis by (cases chk) (auto simp: dp_match_lists_def em ic dp_hosts_def no host_asked_def host_report_def)
  qed
qed

lemma dp_match_reloaded:
  assumes "profile_ok (hs, is) p" and "stores_ok autos (hs, is)" and "target_ok x" and "env_ok (le_ip E)"
    and r: "HostlistsReloadCheckForProfile (le_alloc E) (le_os E) autos (hl_collection p) (hl_collection_exclude p) hs = Some (ok, hs')"
      "length hs' = length hs"
    and i: "IpsetsReloadCheckForProfile (le_ip E) (le_os E) (ips_collection p) (ips_collection_exclude p) is = Some (ok2, is')"
  shows "\<exists>chk' is''. dp_match E autos p x chk (hs, is)
     = Some (ok \<and> dp_filters p x \<and> (ips_collection p = [] \<and> ips_collection_exclude p = [] \<or> ok2 \<and> dp_ips is' p x) \<and> dp_hosts hs' p x,
         chk', hs', is'') \<and> is'' \<in> {is, is'} \<and> (ok2 \<and> dp_ips is' p x \<and> dp_hosts hs' p x \<longrightarrow> ok \<and> dp_filters p x \<longrightarrow> dp_ips is'' p x)
     \<and> chk' = (if ok \<and> dp_filters p x \<and> (ips_collection p = [] \<and> ips_collection_exclude p = [] \<or> ok2 \<and> dp_ips is' p x)
         \<and> host_asked hs' p x then host_report hs' p x else (False, snd chk))"
proof -
  obtain dn rs ex where chk: "chk = (dn, rs, ex)" by (cases chk)
  have ph: "pointers_ok hs' (hl_collection p)" "pointers_ok hs' (hl_collection_exclude p)"
    using assms(1) r(2) by (simp_all add: profile_ok_def pointers_ok_def)
  have pi: "store_ok ipset_ok is" "pointers_ok is (ips_collection p)" "pointers_ok is (ips_collection_exclude p)"
    using assms(1,2) by (simp_all add: profile_ok_def stores_ok_def)
  obtain chk' is'' where l: "dp_match_lists E autos p x (False, rs, ex) (hs', is)
     = Some ((ips_collection p = [] \<and> ips_collection_exclude p = [] \<or> ok2 \<and> dp_ips is' p x) \<and> dp_hosts hs' p x, chk', hs', is'')"
    "is'' \<in> {is, is'}" "dp_ips is' p x \<and> dp_hosts hs' p x \<longrightarrow> ok2 \<longrightarrow> dp_ips is'' p x"
    "chk' = (if (ips_collection p = [] \<and> ips_collection_exclude p = [] \<or> ok2 \<and> dp_ips is' p x) \<and> host_asked hs' p x
         then host_report hs' p x else (False, rs, ex))"
    using dp_match_lists_exact[OF ph pi assms(3,4) i] by blast
  have f: "dp_filters p x \<longleftrightarrow> \<not> ((tg_ip x \<noteq> None \<and> \<not> filter_ipv4 p) \<or> (tg_ip6 x \<noteq> None \<and> \<not> filter_ipv6 p))
      \<and> dp_proto_match p x \<and> l7_proto_match (tg_l7 x) (filter_l7 p)
      \<and> \<not> (filter_ssid p \<noteq> [] \<and> \<not> strlist_search (filter_ssid p) (tg_ssid x))"
    by (auto simp: dp_filters_def strlist_search_def split: option.splits)
  show ?thesis
  proof (cases "ok \<and> dp_filters p x")
    case True
    then have "dp_match E autos p x chk (hs, is) = dp_match_lists E autos p x (False, rs, ex) (hs', is)"
      unfolding f by (auto simp: dp_match_def chk r(1) Let_def)
    with l True show ?thesis unfolding chk snd_conv by (intro exI[of _ chk'] exI[of _ is'']) simp
  next
    case False
    then have "dp_match E autos p x chk (hs, is) = Some (False, (False, rs, ex), hs', is)"
      unfolding f by (auto simp: dp_match_def chk r(1) Let_def)
    with False show ?thesis unfolding chk snd_conv by (intro exI[of _ "(False, rs, ex)"] exI[of _ "is"]) auto
  qed
qed

text \<open>A test of the host lists is reported with its answer; without a test nothing is reported.\<close>

definition check_reported :: "stores \<Rightarrow> target \<Rightarrow> desync_profile \<Rightarrow> hostcheck \<Rightarrow> bool" where
  "check_reported = (\<lambda>(hs, is) x p chk.
     if dp_filters p x \<and> dp_ips is p x \<and> host_asked hs p x then chk = host_report hs p x else \<not> fst chk)"

lemma dp_match_settled:
  assumes "profile_ok st p" and "stores_ok autos st" and "target_ok x" and "env_ok (le_ip E)" and "profile_settled E autos st p"
  shows "\<exists>chk'. dp_match E autos p x chk st = Some (dp_wins st x p, chk', st) \<and> check_reported st x p chk'"
proof -
  obtain hs "is" where st: "st = (hs, is)" by (cases st)
  have r: "HostlistsReloadCheckForProfile (le_alloc E) (le_os E) autos (hl_collection p) (hl_collection_exclude p) hs = Some (True, hs)"
    by (rule host_reload_fresh) (use assms in \<open>simp_all add: st profile_ok_def stores_ok_def profile_settled_def\<close>)
  have i: "IpsetsReloadCheckForProfile (le_ip E) (le_os E) (ips_collection p) (ips_collection_exclude p) is = Some (True, is)"
    by (rule ip_reload_fresh) (use assms in \<open>simp_all add: st profile_ok_def profile_settled_def\<close>)
  have d: "(ips_collection p = [] \<and> ips_collection_exclude p = [] \<or> dp_ips is p x) = dp_ips is p x" by (auto simp: dp_ips_def)
  have w: "dp_wins st x p = (dp_filters p x \<and> dp_ips is p x \<and> dp_hosts hs p x)" by (simp add: dp_wins_def st)
  from dp_match_reloaded[OF assms(1,2)[unfolded st] assms(3,4) r refl i, of chk] obtain chk' where
    "dp_match E autos p x chk (hs, is) = Some (dp_filters p x \<and> dp_ips is p x \<and> dp_hosts hs p x, chk', hs, is)"
    "chk' = (if dp_filters p x \<and> dp_ips is p x \<and> host_asked hs p x then host_report hs p x else (False, snd chk))"
    by (auto simp: d)
  then show ?thesis unfolding w unfolding st check_reported_def by (intro exI[of _ chk']) simp
qed

lemma dp_match_returns:
  assumes "profile_ok st p" and "stores_ok autos st" and "target_ok x" and "env_ok (le_ip E)"
  shows "\<exists>m chk' st'. dp_match E autos p x chk st = Some (m, chk', st') \<and> stores_ok autos st'
     \<and> length (fst st') = length (fst st) \<and> length (snd st') = length (snd st) \<and> (fst chk' \<longrightarrow> chk' = host_report (fst st') p x)
     \<and> (m \<longrightarrow> dp_wins st' x p)"
proof -
  obtain hs "is" where st: "st = (hs, is)" by (cases st)
  have a: "pointers_ok hs (hl_collection p)" "pointers_ok hs (hl_collection_exclude p)" "pointers_ok hs autos"
    "pointers_ok is (ips_collection p)" "pointers_ok is (ips_collection_exclude p)" "store_ok ipset_ok is"
    using assms(1,2) by (simp_all add: st profile_ok_def stores_ok_def)
  obtain ok hs' where r: "HostlistsReloadCheckForProfile (le_alloc E) (le_os E) autos (hl_collection p) (hl_collection_exclude p) hs = Some (ok, hs')"
    "length hs' = length hs"
    using returns_exists[OF host_reload_profile_returns[OF a(1-3), of "le_alloc E" "le_os E"]] by auto
  obtain ok2 is' where i: "IpsetsReloadCheckForProfile (le_ip E) (le_os E) (ips_collection p) (ips_collection_exclude p) is = Some (ok2, is')"
    "store_ok ipset_ok is'" "length is' = length is"
    using returns_exists[OF ip_reload_returns[OF assms(4) a(6,4,5), of "le_os E"]] by auto
  from dp_match_reloaded[OF assms(1,2)[unfolded st] assms(3,4) r i(1), of chk] obtain chk' is'' where
    m: "dp_match E autos p x chk (hs, is)
     = Some (ok \<and> dp_filters p x \<and> (ips_collection p = [] \<and> ips_collection_exclude p = [] \<or> ok2 \<and> dp_ips is' p x) \<and> dp_hosts hs' p x,
         chk', hs', is'')" "is'' \<in> {is, is'}" "ok2 \<and> dp_ips is' p x \<and> dp_hosts hs' p x \<longrightarrow> ok \<and> dp_filters p x \<longrightarrow> dp_ips is'' p x"
     "chk' = (if ok \<and> dp_filters p x \<and> (ips_collection p = [] \<and> ips_collection_exclude p = [] \<or> ok2 \<and> dp_ips is' p x)
         \<and> host_asked hs' p x then host_report hs' p x else (False, snd chk))" by blast
  have s: "stores_ok autos (hs', is'')" "length is'' = length is"
    using a r(2) i m(2) by (auto simp: stores_ok_def pointers_ok_def)
  have "dp_ips j p x" if "ips_collection p = [] \<and> ips_collection_exclude p = []" for j using that by (simp add: dp_ips_def)
  with m s r(2) show ?thesis
    by (intro exI[of _ "ok \<and> dp_filters p x \<and> (ips_collection p = [] \<and> ips_collection_exclude p = [] \<or> ok2 \<and> dp_ips is' p x) \<and> dp_hosts hs' p x"]
        exI[of _ chk'] exI[of _ "(hs', is'')"]) (auto simp: st dp_wins_def)
qed

lemma dp_find_loop_first:
  assumes "stores_ok autos st" and "target_ok x" and "env_ok (le_ip E)"
    and "\<forall>p\<in>set ps. profile_ok st p \<and> profile_settled E autos st p"
  shows "\<exists>r chk'. dp_find_loop E autos i ps x chk st = Some (r, chk', st)
     \<and> (case r of None \<Rightarrow> (\<forall>p\<in>set ps. \<not> dp_wins st x p) \<and> (if ps = [] then chk' = chk else check_reported st x (last ps) chk')
        | Some k \<Rightarrow> i \<le> k \<and> k < i + length ps \<and> dp_wins st x (ps ! (k - i)) \<and> (\<forall>j<k - i. \<not> dp_wins st x (ps ! j))
             \<and> check_reported st x (ps ! (k - i)) chk')"
  using assms(4)
proof (induction ps arbitrary: i chk)
  case (Cons p ps)
  then obtain chk1 where m: "dp_match E autos p x chk st = Some (dp_wins st x p, chk1, st)" "check_reported st x p chk1"
    using dp_match_settled[OF _ assms(1-3), of p chk] by auto
  show ?case
  proof (cases "dp_wins st x p")
    case False
    from Cons.IH[of "i + 1" chk1] Cons.prems obtain r chk' where l: "dp_find_loop E autos (i + 1) ps x chk1 st = Some (r, chk', st)"
      and r: "case r of None \<Rightarrow> (\<forall>p\<in>set ps. \<not> dp_wins st x p) \<and> (if ps = [] then chk' = chk1 else check_reported st x (last ps) chk')
        | Some k \<Rightarrow> i + 1 \<le> k \<and> k < i + 1 + length ps \<and> dp_wins st x (ps ! (k - (i + 1))) \<and> (\<forall>j<k - (i + 1). \<not> dp_wins st x (ps ! j))
             \<and> check_reported st x (ps ! (k - (i + 1))) chk'" by auto
    show ?thesis
    proof (cases r)
      case (Some k)
      with r have k: "i + 1 \<le> k" "k - i = Suc (k - (i + 1))" by auto
      show ?thesis using l r m False Some k by (auto simp: nth_Cons split: nat.splits)
    qed (use l r m False in auto)
  qed (use m in auto)
qed simp

text \<open>Following a store of the same size the same pointers are good.\<close>

lemma profile_ok_length:
  "length (fst st') = length (fst st) \<Longrightarrow> length (snd st') = length (snd st) \<Longrightarrow> profile_ok st' p = profile_ok st p"
  by (cases st; cases st') (simp add: profile_ok_def pointers_ok_def)

lemma dp_find_loop_returns:
  assumes "target_ok x" and "env_ok (le_ip E)"
  shows "stores_ok autos st \<Longrightarrow> \<forall>p\<in>set ps. profile_ok st p \<Longrightarrow>
    \<exists>r chk' st'. dp_find_loop E autos i ps x chk st = Some (r, chk', st') \<and> stores_ok autos st'
     \<and> length (fst st') = length (fst st) \<and> length (snd st') = length (snd st)
     \<and> (\<forall>k. r = Some k \<longrightarrow> i \<le> k \<and> k < i + length ps \<and> dp_wins st' x (ps ! (k - i)))"
proof (induction ps arbitrary: i chk st)
  case (Cons p ps)
  then have "profile_ok st p" by simp
  from dp_match_returns[OF this Cons.prems(1) assms, of chk] obtain m chk1 st1 where
    m: "dp_match E autos p x chk st = Some (m, chk1, st1)" "stores_ok autos st1"
     "length (fst st1) = length (fst st)" "length (snd st1) = length (snd st)" "m \<longrightarrow> dp_wins st1 x p" by blast
  show ?case
  proof (cases m)
    case True
    then show ?thesis using m by (intro exI[of _ "Some i"] exI[of _ chk1] exI[of _ st1]) simp
  next
    case False
    have "\<forall>p\<in>set ps. profile_ok st1 p" using Cons.prems(2) profile_ok_length[OF m(3,4)] by simp
    from Cons.IH[OF m(2) this, of "i + 1" chk1] obtain r chk' st' where
      l: "dp_find_loop E autos (i + 1) ps x chk1 st1 = Some (r, chk', st')" "stores_ok autos st'"
       "length (fst st') = length (fst st1)" "length (snd st') = length (snd st1)"
       "\<forall>k. r = Some k \<longrightarrow> i + 1 \<le> k \<and> k < i + 1 + length ps \<and> dp_wins st' x (ps ! (k - (i + 1)))" by blast
    have "dp_wins st' x ((p # ps) ! (k - i))" if "r = Some k" for k
    proof -
      have "k - i = Suc (k - (i + 1))" using l(5) that by auto
      then show ?thesis using l(5) that by simp
    qed
    with l m False show ?thesis by (intro exI[of _ r] exI[of _ chk'] exI[of _ st']) auto
  qed
qed auto

lemma dp_find_returns:
  assumes "target_ok x" and "env_ok (le_ip E)" and "stores_ok (autolists ps) st" and "\<forall>p\<in>set ps. profile_ok st p"
  shows "\<exists>r chk' st'. dp_find E ps x chk st = Some (r, chk', st') \<and> stores_ok (autolists ps) st'
     \<and> length (fst st') = length (fst st) \<and> length (snd st') = length (snd st)
     \<and> (\<forall>k. r = Some k \<longrightarrow> k < length ps \<and> dp_wins st' x (ps ! k))"
proof -
  obtain dn rs ex where chk: "chk = (dn, rs, ex)" by (cases chk)
  from dp_find_loop_returns[OF assms, of 0 "(False, rs, ex)"] show ?thesis by (simp add: dp_find_def chk)
qed

subsection \<open>Copying a template\<close>

lemma funclist_entry_copy_same: "funclist_entry_copy e = e"
  by (cases e) (simp add: funclist_entry_copy_def funclist_entry_alloc_def str2list_copy_def list_copy_def)

lemma dp_copy_lists_joins:
  "dp_copy_lists True to src = (to\<lparr>
     filter_ssid := filter_ssid to @ filter_ssid src, lua_desync := lua_desync to @ lua_desync src,
     ips_collection := ips_collection to @ ips_collection src,
     ips_collection_exclude := ips_collection_exclude to @ ips_collection_exclude src,
     hl_collection := hl_collection to @ hl_collection src,
     hl_collection_exclude := hl_collection_exclude to @ hl_collection_exclude src,
     pf_tcp := pf_tcp to @ pf_tcp src, pf_udp := pf_udp to @ pf_udp src,
     dp_icf := dp_icf to @ dp_icf src, dp_ipf := dp_ipf to @ dp_ipf src\<rparr>, True)"
proof -
  have "map funclist_entry_copy fs = fs" for fs by (simp add: funclist_entry_copy_same map_idI)
  then show ?thesis by (simp add: dp_copy_lists_def strlist_copy_def funclist_copy_def list_copy_def)
qed

text \<open>What the simple options set and what they leave alone.\<close>

lemma dp_copy_options_kept:
  "filter_ssid (dp_copy_options to src) = filter_ssid to" "lua_desync (dp_copy_options to src) = lua_desync to"
  "ips_collection (dp_copy_options to src) = ips_collection to"
  "ips_collection_exclude (dp_copy_options to src) = ips_collection_exclude to"
  "hl_collection (dp_copy_options to src) = hl_collection to"
  "hl_collection_exclude (dp_copy_options to src) = hl_collection_exclude to"
  "pf_tcp (dp_copy_options to src) = pf_tcp to" "pf_udp (dp_copy_options to src) = pf_udp to"
  "dp_icf (dp_copy_options to src) = dp_icf to" "dp_ipf (dp_copy_options to src) = dp_ipf to"
  "hostlist_auto (dp_copy_options to src) = hostlist_auto to" "dp_name (dp_copy_options to src) = dp_name to"
  "fail_threshold (dp_copy_options to src) = (if b_fail_threshold src then fail_threshold src else fail_threshold to)"
  "retrans_maxseq (dp_copy_options to src) = (if b_retrans_maxseq src then retrans_maxseq src else retrans_maxseq to)"
  "filter_l7 (dp_copy_options to src) = (if b_filter_l7 src then filter_l7 src else filter_l7 to)"
  "filter_ipv4 (dp_copy_options to src) =
     (if b_filter_l3 src then filter_ipv4 src \<or> b_filter_l3 to \<and> filter_ipv4 to else filter_ipv4 to)"
  by (simp_all add: dp_copy_options_def Let_def disj_commute)

subsection \<open>Properties\<close>

text \<open>C6: The search for a profile, when every list is loaded, changes nothing and returns the first profile of the list
  whose layer 3, protocol, port, ICMP, layer 7 and SSID filters, address sets and host lists accept the packet, and no
  profile when none does. The three flags tell the caller
  exactly this: whether the returned profile (without one, the last of the list) came to ask its host lists, and then what
  they answered and whether the name is excluded.\<close>

theorem dp_find_first:
  assumes "stores_ok (autolists ps) st" and "target_ok x" and "env_ok (le_ip E)"
    and "\<forall>p\<in>set ps. profile_ok st p \<and> profile_settled E (autolists ps) st p"
  shows "\<exists>r chk'. dp_find E ps x chk st = Some (r, chk', st)
     \<and> (case r of None \<Rightarrow> (\<forall>p\<in>set ps. \<not> dp_wins st x p) \<and> (if ps = [] then \<not> fst chk' else check_reported st x (last ps) chk')
        | Some k \<Rightarrow> k < length ps \<and> dp_wins st x (ps ! k) \<and> (\<forall>j<k. \<not> dp_wins st x (ps ! j))
             \<and> check_reported st x (ps ! k) chk')"
proof -
  obtain dn rs ex where chk: "chk = (dn, rs, ex)" by (cases chk)
  obtain r chk' where l: "dp_find_loop E (autolists ps) 0 ps x (False, rs, ex) st = Some (r, chk', st)"
    "case r of None \<Rightarrow> (\<forall>p\<in>set ps. \<not> dp_wins st x p) \<and> (if ps = [] then chk' = (False, rs, ex) else check_reported st x (last ps) chk')
        | Some k \<Rightarrow> 0 \<le> k \<and> k < 0 + length ps \<and> dp_wins st x (ps ! (k - 0)) \<and> (\<forall>j<k - 0. \<not> dp_wins st x (ps ! j))
             \<and> check_reported st x (ps ! (k - 0)) chk'"
    using dp_find_loop_first[OF assms, of 0 "(False, rs, ex)"] by blast
  then show ?thesis by (intro exI[of _ r] exI[of _ chk']) (cases r; cases "ps = []"; auto simp: dp_find_def chk)
qed

definition sample_profile :: "u16 \<Rightarrow> desync_profile" where
  "sample_profile port = dp_init\<lparr>filter_ipv4 := True, pf_tcp := [\<lparr>pf_from = port, pf_to = port, pf_neg = False\<rparr>]\<rparr>"

definition sample_target :: target where
  "sample_target = \<lparr>tg_proto = IPPROTO_TCP, tg_ip = Some [10, 0, 0, 1], tg_ip6 = None, tg_ipr = None, tg_ipr6 = None,
     tg_port = 443, tg_icmp_type = 255, tg_icmp_code = 255, tg_host = None, tg_nosub = False, tg_l7 = L7_UNKNOWN, tg_ssid = None\<rparr>"

definition sample_list_env :: list_env where
  "sample_list_env = \<lparr>le_alloc = True, le_os = (\<lambda>n. \<lparr>os_sig = None, os_readable = False, os_data = CannotOpen\<rparr>),
     le_ip = \<lparr>pton4 = \<lambda>s. None, pton6 = \<lambda>s. None, kpick = hd, kalloc = True\<rparr>\<rparr>"

lemma sample_list_env_ok: "env_ok (le_ip sample_list_env)"
  by (simp add: sample_list_env_def env_ok_def picks_def)

lemma sample_target_ok: "target_ok sample_target"
  by (simp add: sample_target_def target_ok_def addr_ok_def)

lemma dp_find_first_witness:
  "\<exists>chk'. dp_find sample_list_env [sample_profile 80, sample_profile 443] sample_target (False, False, False) ([], [])
     = Some (Some 1, chk', ([], []))"
proof -
  let ?ps = "[sample_profile 80, sample_profile 443]"
  have a: "autolists ?ps = []" by (simp add: autolists_def sample_profile_def dp_init_def map_filter_def)
  have s: "stores_ok (autolists ?ps) ([], [])" by (simp add: a stores_ok_def store_ok_def)
  have p: "\<forall>p\<in>set ?ps. profile_ok ([], []) p \<and> profile_settled sample_list_env (autolists ?ps) ([], []) p"
    unfolding a by (simp add: profile_ok_def profile_settled_def sample_profile_def dp_init_def)
  have w: "\<not> dp_wins ([], []) sample_target (sample_profile 80)" "dp_wins ([], []) sample_target (sample_profile 443)"
    by (simp_all add: dp_wins_def dp_filters_def dp_ips_def dp_hosts_def lists_empty_def sample_target_def sample_profile_def dp_init_def
        dp_proto_match_def port_filters_match_def pf_match_def l7_proto_match_def)
  from dp_find_first[OF s sample_target_ok sample_list_env_ok p, of "(False, False, False)"]
  obtain r chk' where r: "dp_find sample_list_env ?ps sample_target (False, False, False) ([], []) = Some (r, chk', ([], []))"
    "case r of None \<Rightarrow> (\<forall>p\<in>set ?ps. \<not> dp_wins ([], []) sample_target p)
            \<and> (if ?ps = [] then \<not> fst chk' else check_reported ([], []) sample_target (last ?ps) chk')
        | Some k \<Rightarrow> k < length ?ps \<and> dp_wins ([], []) sample_target (?ps ! k) \<and> (\<forall>j<k. \<not> dp_wins ([], []) sample_target (?ps ! j))
             \<and> check_reported ([], []) sample_target (?ps ! k) chk'" by blast
  then have "r = Some 1" using w by (cases r) (auto simp: less_Suc_eq numeral_2_eq_2)
  with r(1) show ?thesis by blast
qed

text \<open>Whatever the list files hold when they are reloaded during the search, the search always ends without a memory
  fault, keeps the stores well formed and all pointers valid, and a profile it returns is one of the profiles and accepts
  the packet with the lists as they were loaded.\<close>

theorem dp_find_safe:
  assumes "target_ok x" and "env_ok (le_ip E)" and "stores_ok (autolists ps) st" and "\<forall>p\<in>set ps. profile_ok st p"
  shows "\<exists>r chk' st'. dp_find E ps x chk st = Some (r, chk', st') \<and> stores_ok (autolists ps) st' \<and> (\<forall>p\<in>set ps. profile_ok st' p)
     \<and> (\<forall>k. r = Some k \<longrightarrow> k < length ps \<and> dp_wins st' x (ps ! k))"
  using dp_find_returns[OF assms, of chk] assms(4) profile_ok_length by blast

lemma dp_find_safe_witness:
  "dp_find sample_list_env [sample_profile 443] sample_target (False, False, False) ([], []) \<noteq> None"
proof -
  have a: "autolists [sample_profile 443] = []" by (simp add: autolists_def sample_profile_def dp_init_def map_filter_def)
  have s: "stores_ok (autolists [sample_profile 443]) ([], [])" by (simp add: a stores_ok_def store_ok_def)
  have p: "\<forall>p\<in>set [sample_profile 443]. profile_ok ([], []) p" by (simp add: profile_ok_def sample_profile_def dp_init_def)
  from dp_find_safe[OF sample_target_ok sample_list_env_ok s p, of "(False, False, False)"] show ?thesis by auto
qed

text \<open>Importing a template into a profile succeeds unless both have different automatic host lists, and then every
  filter list, collection and function list is the profile's followed by the template's, each option set in the template
  is the template's, and the layer 3 filters are joined.\<close>

theorem dp_copy_joins:
  assumes "hostlist_auto src = None \<or> hostlist_auto to = None \<or> hostlist_auto to = hostlist_auto src"
  shows "\<exists>d. dp_copy True to src = (d, True)
     \<and> pf_tcp d = pf_tcp to @ pf_tcp src \<and> pf_udp d = pf_udp to @ pf_udp src
     \<and> dp_icf d = dp_icf to @ dp_icf src \<and> dp_ipf d = dp_ipf to @ dp_ipf src
     \<and> filter_ssid d = filter_ssid to @ filter_ssid src \<and> lua_desync d = lua_desync to @ lua_desync src
     \<and> ips_collection d = ips_collection to @ ips_collection src
     \<and> ips_collection_exclude d = ips_collection_exclude to @ ips_collection_exclude src
     \<and> hl_collection d = hl_collection to @ hl_collection src
     \<and> hl_collection_exclude d = hl_collection_exclude to @ hl_collection_exclude src
     \<and> hostlist_auto d = (if hostlist_auto src = None then hostlist_auto to else hostlist_auto src)
     \<and> fail_threshold d = (if b_fail_threshold src then fail_threshold src else fail_threshold to)
     \<and> retrans_maxseq d = (if b_retrans_maxseq src then retrans_maxseq src else retrans_maxseq to)
     \<and> filter_l7 d = (if b_filter_l7 src then filter_l7 src else filter_l7 to)
     \<and> filter_ipv4 d = (if b_filter_l3 src then filter_ipv4 src \<or> b_filter_l3 to \<and> filter_ipv4 to else filter_ipv4 to)
     \<and> dp_name d = dp_name to"
proof -
  let ?o = "dp_copy_options to src"
  let ?c = "if dp_cookie src \<noteq> None then ?o\<lparr>dp_cookie := dp_cookie src\<rparr> else ?o"
  let ?h = "if hostlist_auto src \<noteq> None \<and> hostlist_auto src \<noteq> hostlist_auto to then ?c\<lparr>hostlist_auto := hostlist_auto src\<rparr> else ?c"
  obtain h where h0: "h = ?h" by simp
  have "hostlist_auto ?c = hostlist_auto to" by (simp add: dp_copy_options_kept)
  then have d: "dp_copy True to src = dp_copy_lists True h src" using assms unfolding dp_copy_def Let_def h0 by auto
  have k: "pf_tcp h = pf_tcp to" "pf_udp h = pf_udp to" "dp_icf h = dp_icf to" "dp_ipf h = dp_ipf to"
    "filter_ssid h = filter_ssid to" "lua_desync h = lua_desync to" "ips_collection h = ips_collection to"
    "ips_collection_exclude h = ips_collection_exclude to" "hl_collection h = hl_collection to"
    "hl_collection_exclude h = hl_collection_exclude to" "dp_name h = dp_name to"
    "hostlist_auto h = (if hostlist_auto src = None then hostlist_auto to else hostlist_auto src)"
    using assms unfolding h0 by (auto simp: dp_copy_options_kept)
  have o: "fail_threshold h = fail_threshold ?o" "retrans_maxseq h = retrans_maxseq ?o" "filter_l7 h = filter_l7 ?o"
    "filter_ipv4 h = filter_ipv4 ?o"
    unfolding h0 by simp_all
  show ?thesis unfolding d dp_copy_lists_joins
    by (intro exI conjI, rule refl) (simp_all add: k o dp_copy_options_kept)
qed

lemma dp_copy_joins_witness:
  "\<exists>d. dp_copy True dp_init (dp_init\<lparr>hostlist_auto := Some 0, hl_collection := [0], fail_threshold := 5, b_fail_threshold := True\<rparr>) = (d, True)
     \<and> hl_collection d = [0] \<and> fail_threshold d = 5"
  using dp_copy_joins[of "dp_init\<lparr>hostlist_auto := Some 0, hl_collection := [0], fail_threshold := 5, b_fail_threshold := True\<rparr>" dp_init]
  by (auto simp: dp_init_def)

end
