(* ===== verification/LuaVal.thy ===== *)
theory LuaVal
  imports Helpers "HOL-Library.AList" "HOL-Library.Signed_Division"
begin

text \<open>
  The values the C code exchanges with Lua scripts (lua.c, lua.h), and the functions on numbers and strings it offers them.

  The Lua machine is not under src/. What the code sees of a value through the C interface of Lua is the datatype \<open>lval\<close>;
  the numbers of the machine are a type parameter, and what Lua does with them (integers pushed and read back, strings
  taken for numbers) is the record \<open>lua_api\<close>, an argument of all definitions. The only law used of it is that a small
  integer is read back as it was pushed, which every version of Lua documents.

  A function called from Lua takes the list of its arguments. The inner \<open>None\<close> is an error raised in the machine, the outer
  one undefined behaviour of the C code.
\<close>

unbundle bit_operations_syntax

subsection \<open>Values\<close>

datatype lkey = KField bytes | KIndex nat

datatype 'n lval = LNil | LBool bool | LNum 'n | LStr bytes | LTable "(lkey \<times> 'n lval) list" | LOther

type_synonym 'n ltable = "(lkey \<times> 'n lval) list"

record 'n lua_api =
  api_push :: "u64 \<Rightarrow> 'n"
  api_to :: "'n \<Rightarrow> u64"
  api_check :: "'n \<Rightarrow> u64 option"
  api_parse :: "bytes \<Rightarrow> 'n option"
  api_show :: "'n \<Rightarrow> bytes"

definition small_int :: "u64 \<Rightarrow> bool" where
  "small_int i \<longleftrightarrow> \<bar>sint i\<bar> < 2 ^ 53"

definition api_ok :: "'n lua_api \<Rightarrow> bool" where
  "api_ok A \<longleftrightarrow> (\<forall>i. small_int i \<longrightarrow> api_to A (api_push A i) = i \<and> api_check A (api_push A i) = Some i)"

definition lua_pushlint :: "'n lua_api \<Rightarrow> u64 \<Rightarrow> 'n lval" where
  "lua_pushlint A i = LNum (api_push A i)"

definition lua_tolint :: "'n lua_api \<Rightarrow> 'n lval \<Rightarrow> u64" where
  "lua_tolint A v =
     (case v of LNum n \<Rightarrow> api_to A n
      | LStr s \<Rightarrow> (case api_parse A s of None \<Rightarrow> 0 | Some n \<Rightarrow> api_to A n)
      | _ \<Rightarrow> 0)"

definition luaL_checklint :: "'n lua_api \<Rightarrow> 'n lval \<Rightarrow> u64 option" where
  "luaL_checklint A v =
     (case v of LNum n \<Rightarrow> api_check A n
      | LStr s \<Rightarrow> (case api_parse A s of None \<Rightarrow> None | Some n \<Rightarrow> api_check A n)
      | _ \<Rightarrow> None)"

definition lua_tolstring :: "'n lua_api \<Rightarrow> 'n lval \<Rightarrow> bytes option" where
  "lua_tolstring A v = (case v of LStr s \<Rightarrow> Some s | LNum n \<Rightarrow> Some (api_show A n) | _ \<Rightarrow> None)"

definition lua_isnum :: "'n lval \<Rightarrow> bool" where
  "lua_isnum v = (case v of LNum n \<Rightarrow> True | _ \<Rightarrow> False)"

definition lua_istable :: "'n lval \<Rightarrow> bool" where
  "lua_istable v = (case v of LTable t \<Rightarrow> True | _ \<Rightarrow> False)"

definition lua_isnil :: "'n lval \<Rightarrow> bool" where
  "lua_isnil v = (case v of LNil \<Rightarrow> True | _ \<Rightarrow> False)"

definition lua_reqlstring :: "'n lval \<Rightarrow> bytes option" where
  "lua_reqlstring v = (case v of LStr s \<Rightarrow> Some s | _ \<Rightarrow> None)"

subsection \<open>Tables\<close>

definition lua_rawget :: "'n ltable \<Rightarrow> lkey \<Rightarrow> 'n lval" where
  "lua_rawget t k = (case map_of t k of None \<Rightarrow> LNil | Some v \<Rightarrow> v)"

definition lua_rawset :: "lkey \<Rightarrow> 'n lval \<Rightarrow> 'n ltable \<Rightarrow> 'n ltable" where
  "lua_rawset k v t = (case v of LNil \<Rightarrow> AList.delete k t | _ \<Rightarrow> AList.update k v t)"

definition lua_getfield :: "'n lval \<Rightarrow> string \<Rightarrow> 'n lval" where
  "lua_getfield v f = (case v of LTable t \<Rightarrow> lua_rawget t (KField (lit f)) | _ \<Rightarrow> LNil)"

definition lua_rawgeti :: "'n lval \<Rightarrow> nat \<Rightarrow> 'n lval" where
  "lua_rawgeti v i = (case v of LTable t \<Rightarrow> lua_rawget t (KIndex i) | _ \<Rightarrow> LNil)"

definition lua_pushf :: "string \<Rightarrow> 'n lval \<Rightarrow> 'n ltable \<Rightarrow> 'n ltable" where
  "lua_pushf f v = lua_rawset (KField (lit f)) v"

definition lua_pushi :: "nat \<Rightarrow> 'n lval \<Rightarrow> 'n ltable \<Rightarrow> 'n ltable" where
  "lua_pushi i v = lua_rawset (KIndex i) v"

definition lua_pushf_int :: "'n lua_api \<Rightarrow> string \<Rightarrow> u64 \<Rightarrow> 'n ltable \<Rightarrow> 'n ltable" where
  "lua_pushf_int A f v = lua_pushf f (lua_pushlint A v)"

definition lua_pushf_lint :: "'n lua_api \<Rightarrow> string \<Rightarrow> u64 \<Rightarrow> 'n ltable \<Rightarrow> 'n ltable" where
  "lua_pushf_lint A f v = lua_pushf f (lua_pushlint A v)"

definition lua_pushf_bool :: "string \<Rightarrow> bool \<Rightarrow> 'n ltable \<Rightarrow> 'n ltable" where
  "lua_pushf_bool f b = lua_pushf f (LBool b)"

text \<open>The bytes behind a pointer, or nil for a null pointer.\<close>

definition lua_push_raw :: "bytes option \<Rightarrow> 'n lval" where
  "lua_push_raw p = (case p of None \<Rightarrow> LNil | Some d \<Rightarrow> LStr d)"

definition lua_pushf_raw :: "string \<Rightarrow> bytes option \<Rightarrow> 'n ltable \<Rightarrow> 'n ltable" where
  "lua_pushf_raw f p = lua_pushf f (lua_push_raw p)"

subsection \<open>Arguments\<close>

definition lua_check_argc :: "'n lval list \<Rightarrow> nat \<Rightarrow> unit option" where
  "lua_check_argc args n = (if length args = n then Some () else None)"

definition lua_check_argc_range :: "'n lval list \<Rightarrow> nat \<Rightarrow> nat \<Rightarrow> unit option" where
  "lua_check_argc_range args lo hi = (if lo \<le> length args \<and> length args \<le> hi then Some () else None)"

text \<open>The number must not be further from zero than \<open>m\<close>.\<close>

definition lua_within :: "int \<Rightarrow> u64 \<Rightarrow> unit option" where
  "lua_within m v = (if sint v > m \<or> sint v < - m then None else Some ())"

abbreviation M48 :: u64 where "M48 \<equiv> 0xFFFFFFFFFFFF"

definition lua_arg48 :: "'n lua_api \<Rightarrow> 'n lval \<Rightarrow> u64 option" where
  "lua_arg48 A a = do { v \<leftarrow> luaL_checklint A a; _ \<leftarrow> lua_within 0xFFFFFFFFFFFF v; Some v }"

subsection \<open>Bits\<close>

definition lua_shift_args :: "'n lua_api \<Rightarrow> 'n lval list \<Rightarrow> (u64 \<times> nat) option" where
  "lua_shift_args A args = do {
     _ \<leftarrow> lua_check_argc args 2;
     v \<leftarrow> luaL_checklint A (args ! 0);
     s \<leftarrow> luaL_checklint A (args ! 1);
     if sint s > 48 \<or> sint s < 0 then None
     else do { _ \<leftarrow> lua_within 0xFFFFFFFFFFFF v; Some (v AND M48, nat (sint s)) } }"

definition luacall_bitlshift :: "'n lua_api \<Rightarrow> 'n lval list \<Rightarrow> 'n lval option" where
  "luacall_bitlshift A args = do {
     (u, s) \<leftarrow> lua_shift_args A args;
     Some (lua_pushlint A (push_bit s u AND M48)) }"

definition luacall_bitrshift :: "'n lua_api \<Rightarrow> 'n lval list \<Rightarrow> 'n lval option" where
  "luacall_bitrshift A args = do {
     (u, s) \<leftarrow> lua_shift_args A args;
     Some (lua_pushlint A (drop_bit s u)) }"

text \<open>The loop over the arguments that \<open>bitand\<close>, \<open>bitor\<close>, \<open>bitxor\<close> and \<open>lua_uxadd\<close> have.\<close>

primrec lua_fold :: "'n lua_api \<Rightarrow> int \<Rightarrow> (u64 \<Rightarrow> u64 \<Rightarrow> u64) \<Rightarrow> u64 \<Rightarrow> 'n lval list \<Rightarrow> u64 option" where
  "lua_fold A m f acc [] = Some acc"
| "lua_fold A m f acc (a # args) = do {
     v \<leftarrow> luaL_checklint A a;
     _ \<leftarrow> lua_within m v;
     lua_fold A m f (f acc v) args }"

definition luacall_bitand :: "'n lua_api \<Rightarrow> 'n lval list \<Rightarrow> 'n lval option" where
  "luacall_bitand A args = do {
     _ \<leftarrow> lua_check_argc_range args 2 100;
     s \<leftarrow> lua_fold A 0xFFFFFFFFFFFF (\<lambda>s v. s AND v) M48 args;
     Some (lua_pushlint A s) }"

definition luacall_bitor :: "'n lua_api \<Rightarrow> 'n lval list \<Rightarrow> 'n lval option" where
  "luacall_bitor A args = do {
     _ \<leftarrow> lua_check_argc_range args 1 100;
     s \<leftarrow> lua_fold A 0xFFFFFFFFFFFF (\<lambda>s v. s OR (v AND M48)) 0 args;
     Some (lua_pushlint A s) }"

definition luacall_bitxor :: "'n lua_api \<Rightarrow> 'n lval list \<Rightarrow> 'n lval option" where
  "luacall_bitxor A args = do {
     _ \<leftarrow> lua_check_argc_range args 1 100;
     s \<leftarrow> lua_fold A 0xFFFFFFFFFFFF (\<lambda>s v. s XOR (v AND M48)) 0 args;
     Some (lua_pushlint A s) }"

definition lua_bitnotx :: "'n lua_api \<Rightarrow> 'n lval list \<Rightarrow> u64 \<Rightarrow> 'n lval option" where
  "lua_bitnotx A args m = do {
     _ \<leftarrow> lua_check_argc args 1;
     v \<leftarrow> luaL_checklint A (args ! 0);
     _ \<leftarrow> lua_within (sint m) v;
     Some (lua_pushlint A (NOT v AND m)) }"

definition luacall_bitnot8 :: "'n lua_api \<Rightarrow> 'n lval list \<Rightarrow> 'n lval option" where
  "luacall_bitnot8 A args = do { _ \<leftarrow> lua_check_argc args 1; lua_bitnotx A args 0xFF }"

definition luacall_bitnot16 :: "'n lua_api \<Rightarrow> 'n lval list \<Rightarrow> 'n lval option" where
  "luacall_bitnot16 A args = do { _ \<leftarrow> lua_check_argc args 1; lua_bitnotx A args 0xFFFF }"

definition luacall_bitnot24 :: "'n lua_api \<Rightarrow> 'n lval list \<Rightarrow> 'n lval option" where
  "luacall_bitnot24 A args = do { _ \<leftarrow> lua_check_argc args 1; lua_bitnotx A args 0xFFFFFF }"

definition luacall_bitnot32 :: "'n lua_api \<Rightarrow> 'n lval list \<Rightarrow> 'n lval option" where
  "luacall_bitnot32 A args = do { _ \<leftarrow> lua_check_argc args 1; lua_bitnotx A args 0xFFFFFFFF }"

definition luacall_bitnot48 :: "'n lua_api \<Rightarrow> 'n lval list \<Rightarrow> 'n lval option" where
  "luacall_bitnot48 A args = do { _ \<leftarrow> lua_check_argc args 1; lua_bitnotx A args M48 }"

definition bit_range_ok :: "u64 \<Rightarrow> u64 \<Rightarrow> bool" where
  "bit_range_ok f t \<longleftrightarrow> \<not> (sint f < 0 \<or> sint t < 0 \<or> sint f > sint t \<or> sint f > 47 \<or> sint t > 47)"

definition low_bits :: "nat \<Rightarrow> nat \<Rightarrow> u64" where
  "low_bits f t = NOT (push_bit (t - f + 1) (- 1))"

definition luacall_bitget :: "'n lua_api \<Rightarrow> 'n lval list \<Rightarrow> 'n lval option" where
  "luacall_bitget A args = do {
     _ \<leftarrow> lua_check_argc args 3;
     w \<leftarrow> lua_arg48 A (args ! 0);
     f \<leftarrow> luaL_checklint A (args ! 1);
     t \<leftarrow> luaL_checklint A (args ! 2);
     if \<not> bit_range_ok f t then None
     else Some (lua_pushlint A (drop_bit (unat f) w AND low_bits (unat f) (unat t))) }"

definition luacall_bitset :: "'n lua_api \<Rightarrow> 'n lval list \<Rightarrow> 'n lval option" where
  "luacall_bitset A args = do {
     _ \<leftarrow> lua_check_argc args 4;
     w \<leftarrow> lua_arg48 A (args ! 0);
     f \<leftarrow> luaL_checklint A (args ! 1);
     t \<leftarrow> luaL_checklint A (args ! 2);
     s \<leftarrow> lua_arg48 A (args ! 3);
     if \<not> bit_range_ok f t then None
     else (let m = low_bits (unat f) (unat t) in
       Some (lua_pushlint A ((w AND NOT (push_bit (unat f) m)) OR push_bit (unat f) (s AND m)))) }"

subsection \<open>Numbers in strings\<close>

text \<open>
  \<open>u8\<close> to \<open>u48\<close>. The offset is computed in \<open>lua_Integer\<close>: one less than the argument, and the end of the number,
  may be beyond its range.
\<close>

definition lua_offset :: "'n lua_api \<Rightarrow> 'n lval list \<Rightarrow> int option option" where
  "lua_offset A args =
     (if 2 \<le> length args \<and> \<not> lua_isnil (args ! 1)
      then (case luaL_checklint A (args ! 1) of
              None \<Rightarrow> Some None
            | Some i \<Rightarrow> if sint i - 1 < - (2 ^ 63) then None else Some (Some (sint i - 1)))
      else Some (Some 0))"

definition lua_ux :: "'n lua_api \<Rightarrow> nat \<Rightarrow> (bytes \<Rightarrow> nat \<Rightarrow> u64 option) \<Rightarrow> 'n lval list \<Rightarrow> 'n lval option option" where
  "lua_ux A n get args =
     (case lua_check_argc_range args 1 2 of
        None \<Rightarrow> Some None
      | Some _ \<Rightarrow> (case lua_reqlstring (args ! 0) of
          None \<Rightarrow> Some None
        | Some p \<Rightarrow> do {
            r \<leftarrow> lua_offset A args;
            (case r of
               None \<Rightarrow> Some None
             | Some off \<Rightarrow>
                 if off < 0 then Some None
                 else if off + int n \<ge> 2 ^ 63 then None
                 else if off + int n > int (length p) then Some None
                 else do { v \<leftarrow> get p (nat off); Some (Some (lua_pushlint A v)) }) }))"

definition luacall_u8 :: "'n lua_api \<Rightarrow> 'n lval list \<Rightarrow> 'n lval option option" where
  "luacall_u8 A = lua_ux A 1 (\<lambda>p i. map_option ucast (rd p i))"

definition luacall_u16 :: "'n lua_api \<Rightarrow> 'n lval list \<Rightarrow> 'n lval option option" where
  "luacall_u16 A = lua_ux A 2 (\<lambda>p i. map_option ucast (pntoh16 p i))"

definition luacall_u24 :: "'n lua_api \<Rightarrow> 'n lval list \<Rightarrow> 'n lval option option" where
  "luacall_u24 A = lua_ux A 3 (\<lambda>p i. map_option ucast (pntoh24 p i))"

definition luacall_u32 :: "'n lua_api \<Rightarrow> 'n lval list \<Rightarrow> 'n lval option option" where
  "luacall_u32 A = lua_ux A 4 (\<lambda>p i. map_option ucast (pntoh32 p i))"

definition luacall_u48 :: "'n lua_api \<Rightarrow> 'n lval list \<Rightarrow> 'n lval option option" where
  "luacall_u48 A = lua_ux A 6 pntoh48"

definition luacall_swap16 :: "'n lua_api \<Rightarrow> 'n lval list \<Rightarrow> 'n lval option" where
  "luacall_swap16 A args = do {
     _ \<leftarrow> lua_check_argc args 1;
     i \<leftarrow> luaL_checklint A (args ! 0);
     _ \<leftarrow> lua_within 0xFFFF i;
     Some (lua_pushlint A (ucast (bswap16 (ucast i)))) }"

definition luacall_swap24 :: "'n lua_api \<Rightarrow> 'n lval list \<Rightarrow> 'n lval option" where
  "luacall_swap24 A args = do {
     _ \<leftarrow> lua_check_argc args 1;
     i \<leftarrow> luaL_checklint A (args ! 0);
     _ \<leftarrow> lua_within 0xFFFFFF i;
     Some (lua_pushlint A (ucast (bswap24 (ucast i)))) }"

definition luacall_swap32 :: "'n lua_api \<Rightarrow> 'n lval list \<Rightarrow> 'n lval option" where
  "luacall_swap32 A args = do {
     _ \<leftarrow> lua_check_argc args 1;
     i \<leftarrow> luaL_checklint A (args ! 0);
     _ \<leftarrow> lua_within 0xFFFFFFFF i;
     Some (lua_pushlint A (ucast (htonl (ucast i)))) }"

definition luacall_swap48 :: "'n lua_api \<Rightarrow> 'n lval list \<Rightarrow> 'n lval option" where
  "luacall_swap48 A args = do {
     _ \<leftarrow> lua_check_argc args 1;
     i \<leftarrow> lua_arg48 A (args ! 0);
     Some (lua_pushlint A (bswap48 i)) }"

definition lua_uxadd :: "'n lua_api \<Rightarrow> 'n lval list \<Rightarrow> u64 \<Rightarrow> 'n lval option" where
  "lua_uxadd A args m = do {
     s \<leftarrow> lua_fold A (sint m) (\<lambda>s v. s + v) 0 args;
     Some (lua_pushlint A (s AND m)) }"

definition luacall_u8add :: "'n lua_api \<Rightarrow> 'n lval list \<Rightarrow> 'n lval option" where
  "luacall_u8add A args = do { _ \<leftarrow> lua_check_argc_range args 1 100; lua_uxadd A args 0xFF }"

definition luacall_u16add :: "'n lua_api \<Rightarrow> 'n lval list \<Rightarrow> 'n lval option" where
  "luacall_u16add A args = do { _ \<leftarrow> lua_check_argc_range args 1 100; lua_uxadd A args 0xFFFF }"

definition luacall_u24add :: "'n lua_api \<Rightarrow> 'n lval list \<Rightarrow> 'n lval option" where
  "luacall_u24add A args = do { _ \<leftarrow> lua_check_argc_range args 1 100; lua_uxadd A args 0xFFFFFF }"

definition luacall_u32add :: "'n lua_api \<Rightarrow> 'n lval list \<Rightarrow> 'n lval option" where
  "luacall_u32add A args = do { _ \<leftarrow> lua_check_argc_range args 1 100; lua_uxadd A args 0xFFFFFFFF }"

definition luacall_u48add :: "'n lua_api \<Rightarrow> 'n lval list \<Rightarrow> 'n lval option" where
  "luacall_u48add A args = do { _ \<leftarrow> lua_check_argc_range args 1 100; lua_uxadd A args M48 }"

text \<open>\<open>bu8\<close> to \<open>bu48\<close>: the number goes into a buffer of its width on the stack.\<close>

definition lua_bux :: "'n lua_api \<Rightarrow> nat \<Rightarrow> int \<Rightarrow> (bytes \<Rightarrow> nat \<Rightarrow> u64 \<Rightarrow> bytes option) \<Rightarrow> 'n lval list \<Rightarrow> 'n lval option option" where
  "lua_bux A n m put args =
     (case lua_check_argc args 1 of
        None \<Rightarrow> Some None
      | Some _ \<Rightarrow> (case luaL_checklint A (args ! 0) of
          None \<Rightarrow> Some None
        | Some i \<Rightarrow> (case lua_within m i of
            None \<Rightarrow> Some None
          | Some _ \<Rightarrow> do { d \<leftarrow> put (replicate n 0) 0 i; Some (Some (LStr d)) })))"

definition luacall_bu8 :: "'n lua_api \<Rightarrow> 'n lval list \<Rightarrow> 'n lval option option" where
  "luacall_bu8 A = lua_bux A 1 0xFF (\<lambda>d p v. wr d p (ucast v))"

definition luacall_bu16 :: "'n lua_api \<Rightarrow> 'n lval list \<Rightarrow> 'n lval option option" where
  "luacall_bu16 A = lua_bux A 2 0xFFFF (\<lambda>d p v. phton16 d p (ucast v))"

definition luacall_bu24 :: "'n lua_api \<Rightarrow> 'n lval list \<Rightarrow> 'n lval option option" where
  "luacall_bu24 A = lua_bux A 3 0xFFFFFF (\<lambda>d p v. phton24 d p (ucast v))"

definition luacall_bu32 :: "'n lua_api \<Rightarrow> 'n lval list \<Rightarrow> 'n lval option option" where
  "luacall_bu32 A = lua_bux A 4 0xFFFFFFFF (\<lambda>d p v. phton32 d p (ucast v))"

definition luacall_bu48 :: "'n lua_api \<Rightarrow> 'n lval list \<Rightarrow> 'n lval option option" where
  "luacall_bu48 A = lua_bux A 6 0xFFFFFFFFFFFF phton48"

text \<open>The quotient of C truncates towards zero; that of the least integer by -1 is not defined.\<close>

definition luacall_divint :: "'n lua_api \<Rightarrow> 'n lval list \<Rightarrow> 'n lval option option" where
  "luacall_divint A args =
     (case do { _ \<leftarrow> lua_check_argc args 2;
               a \<leftarrow> luaL_checklint A (args ! 0);
               b \<leftarrow> luaL_checklint A (args ! 1);
               Some (a, b) } of
        None \<Rightarrow> Some None
      | Some (a, b) \<Rightarrow>
          if b = 0 then Some (Some LNil)
          else if sint a = - (2 ^ 63) \<and> sint b = - 1 then None
          else Some (Some (lua_pushlint A (word_of_int (sint a sdiv sint b)))))"

subsection \<open>Strings\<close>

text \<open>A buffer of Lua (a userdata at \<open>addr\<close>) is filled and becomes a string.\<close>

definition lua_random_string :: "'n lua_api \<Rightarrow> (bytes \<Rightarrow> nat \<Rightarrow> bytes option) \<Rightarrow> u8 \<Rightarrow> 'n lval list \<Rightarrow> 'n lval option option" where
  "lua_random_string A fill junk args =
     (case do { _ \<leftarrow> lua_check_argc args 1; luaL_checklint A (args ! 0) } of
        None \<Rightarrow> Some None
      | Some n \<Rightarrow>
          if sint n < 0 then Some None
          else do { p \<leftarrow> fill (replicate (unat n) junk) (unat n); Some (Some (LStr p)) })"

definition luacall_brandom :: "'n lua_api \<Rightarrow> (nat \<Rightarrow> u32) \<Rightarrow> nat \<Rightarrow> u8 \<Rightarrow> 'n lval list \<Rightarrow> 'n lval option option" where
  "luacall_brandom A rnd addr = lua_random_string A (fill_random_bytes rnd addr)"

definition luacall_brandom_az :: "'n lua_api \<Rightarrow> (nat \<Rightarrow> u32) \<Rightarrow> u8 \<Rightarrow> 'n lval list \<Rightarrow> 'n lval option option" where
  "luacall_brandom_az A rnd = lua_random_string A (fill_random_az rnd)"

definition luacall_brandom_az09 :: "'n lua_api \<Rightarrow> (nat \<Rightarrow> u32) \<Rightarrow> u8 \<Rightarrow> 'n lval list \<Rightarrow> 'n lval option option" where
  "luacall_brandom_az09 A rnd = lua_random_string A (fill_random_az09 rnd)"

definition luacall_parse_hex :: "u8 \<Rightarrow> 'n lval list \<Rightarrow> 'n lval option option" where
  "luacall_parse_hex junk args =
     (case do { _ \<leftarrow> lua_check_argc args 1; lua_reqlstring (args ! 0) } of
        None \<Rightarrow> Some None
      | Some hex \<Rightarrow>
          if odd (length hex) then Some (Some LNil)
          else (let l = length hex div 2 in do {
            (ok, p, l) \<leftarrow> parse_hex_str (takeWhile (\<lambda>c. c \<noteq> 0) hex) (replicate l junk) l;
            Some (Some (if ok then LStr (take l p) else LNil)) }))"

definition luac_bop :: "(bytes \<Rightarrow> bytes \<Rightarrow> bytes \<Rightarrow> nat \<Rightarrow> bytes option) \<Rightarrow> u8 \<Rightarrow> 'n lval list \<Rightarrow> 'n lval option option" where
  "luac_bop op' junk args =
     (case do { _ \<leftarrow> lua_check_argc args 2;
               a \<leftarrow> lua_reqlstring (args ! 0);
               b \<leftarrow> lua_reqlstring (args ! 1);
               if length a \<noteq> length b then None else Some (a, b) } of
        None \<Rightarrow> Some None
      | Some (a, b) \<Rightarrow> do { r \<leftarrow> op' a b (replicate (length a) junk) (length a); Some (Some (LStr r)) })"

definition luacall_bxor :: "u8 \<Rightarrow> 'n lval list \<Rightarrow> 'n lval option option" where
  "luacall_bxor = luac_bop bxor"

definition luacall_bor :: "u8 \<Rightarrow> 'n lval list \<Rightarrow> 'n lval option option" where
  "luacall_bor = luac_bop bor"

definition luacall_band :: "u8 \<Rightarrow> 'n lval list \<Rightarrow> 'n lval option option" where
  "luacall_band = luac_bop band"

subsection \<open>Laws of tables and numbers\<close>

lemma lit_inj [simp]: "lit f = lit g \<longleftrightarrow> f = g"
proof -
  have "inj (of_char :: char \<Rightarrow> u8)"
  proof (rule injI)
    fix a b :: char
    assume "(of_char a :: u8) = of_char b"
    then have "(of_nat (of_char a) :: u8) = of_nat (of_char b)" by (simp only: of_nat_of_char)
    then have "take_bit 8 (of_char a :: nat) = take_bit 8 (of_char b)" by (simp add: word_of_nat_eq_iff)
    then have "(of_char a :: nat) = of_char b"
      using nat_of_char_less_256[of a] nat_of_char_less_256[of b] by (simp add: take_bit_nat_eq_self)
    then show "a = b" by simp
  qed
  then show ?thesis by (simp add: inj_map_eq_map)
qed

named_theorems lua_simps "tables, numbers and arguments of Lua"

lemma rawget_rawset [lua_simps]: "lua_rawget (lua_rawset k v t) k' = (if k = k' then v else lua_rawget t k')"
  by (cases v) (auto simp: lua_rawget_def lua_rawset_def update_conv' delete_conv' split: option.split)

lemma rawget_empty [lua_simps]: "lua_rawget [] k = LNil"
  by (simp add: lua_rawget_def)

lemma getfield_pushf [lua_simps]:
  "lua_getfield (LTable (lua_pushf f v t)) g = (if f = g then v else lua_getfield (LTable t) g)"
  "lua_rawgeti (LTable (lua_pushf f v t)) i = lua_rawgeti (LTable t) i"
  "lua_getfield (LTable (lua_pushi i v t)) g = lua_getfield (LTable t) g"
  "lua_rawgeti (LTable (lua_pushi i v t)) j = (if i = j then v else lua_rawgeti (LTable t) j)"
  "lua_getfield (LTable []) g = LNil"
  "lua_rawgeti (LTable []) j = LNil"
  by (auto simp: lua_getfield_def lua_rawgeti_def lua_pushf_def lua_pushi_def lua_simps)

lemma lua_tests [lua_simps]:
  "lua_istable (LTable t)" "\<not> lua_istable LNil" "lua_isnum (LNum n)" "lua_isnil LNil" "\<not> lua_isnil (LTable t)"
  "\<not> lua_isnil (LNum n)" "\<not> lua_isnil (LStr s)" "\<not> lua_istable (LNum n)" "\<not> lua_istable (LStr s)"
  "lua_isnum (lua_pushlint A i)" "\<not> lua_isnil (lua_pushlint A i)" "\<not> lua_istable (lua_pushlint A i)"
  "\<not> lua_isnum LNil" "\<not> lua_isnum (LTable t)" "\<not> lua_isnum (LStr s)"
  by (simp_all add: lua_istable_def lua_isnum_def lua_isnil_def lua_pushlint_def)

lemma pushlint_read:
  assumes "api_ok A" and "small_int i"
  shows "lua_tolint A (lua_pushlint A i) = i" and "luaL_checklint A (lua_pushlint A i) = Some i"
  using assms by (simp_all add: api_ok_def lua_pushlint_def lua_tolint_def luaL_checklint_def)

lemma uint_less: "unat (i :: u64) < 2 ^ k \<Longrightarrow> uint i < 2 ^ k"
proof -
  assume "unat i < 2 ^ k"
  then have "int (unat i) < int (2 ^ k)" by (simp only: of_nat_less_iff)
  then show ?thesis by (simp only: uint_nat of_nat_power of_nat_numeral)
qed

lemma sint_small: "unat i < 2 ^ 63 \<Longrightarrow> sint (i :: u64) = uint i"
proof -
  assume "unat i < 2 ^ 63"
  from uint_less[OF this] have "signed_take_bit 63 (uint i) = uint i" by (intro signed_take_bit_int_eq_self) (rule order_trans[of _ 0], simp_all)
  then show ?thesis by (simp add: sint_uint)
qed

lemma small_unat: "unat i < 2 ^ 53 \<Longrightarrow> small_int i"
  using uint_less[of i 53] sint_small[of i] by (simp add: small_int_def)

lemma unat_ucast_small [simp]:
  "unat (ucast (b :: u8) :: u64) = unat b" "unat (ucast (h :: u16) :: u64) = unat h" "unat (ucast (w :: u32) :: u64) = unat w"
  using unat_u8_less[of b] unat_u16_less[of h] unat_u32_less[of w]
  by (simp_all add: unsigned_ucast_eq take_bit_nat_eq_self del: unat_u8_less unat_u16_less unat_u32_less)

lemma small_ucast [simp]: "small_int (ucast (b :: u8))" "small_int (ucast (h :: u16))" "small_int (ucast (w :: u32))"
  using unat_u8_less[of b] unat_u16_less[of h] unat_u32_less[of w]
  by (auto intro!: small_unat simp del: unat_u8_less unat_u16_less unat_u32_less)

lemma small_within: "lua_within m i = Some () \<Longrightarrow> m < 2 ^ 53 \<Longrightarrow> small_int i"
  by (auto simp: lua_within_def small_int_def split: if_splits)

subsection \<open>Unsigned numbers of 48 bits\<close>

lemma and_M48: "x AND M48 = take_bit 48 x"
  by (simp add: take_bit_eq_mask mask_eq_exp_minus_1)

lemma unat_take_bit_less: "n \<le> 48 \<Longrightarrow> unat (take_bit n (x :: u64)) < 2 ^ 48"
proof -
  assume n: "n \<le> 48"
  have "unat (take_bit n x) < 2 ^ n" by (simp add: unsigned_take_bit_eq)
  also have "\<dots> \<le> 2 ^ 48" using n by (intro power_increasing) auto
  finally show ?thesis .
qed

lemma low_bits_mask: "low_bits f t = mask (t - f + 1)"
proof -
  have "push_bit n (- 1) = NOT (mask n :: u64)" for n
    by (rule bit_word_eqI) (auto simp: bit_simps)
  then show ?thesis by (simp add: low_bits_def)
qed

lemma lua_fold_inv:
  assumes "lua_fold A m f acc args = Some s" and "P acc" and "\<And>s v. P s \<Longrightarrow> P (f s v)"
  shows "P s"
  using assms by (induction args arbitrary: acc) (auto split: bind_splits)

lemma take_bit_iff: "unat (s :: u64) < 2 ^ 48 \<longleftrightarrow> take_bit 48 s = s"
proof
  assume "unat s < 2 ^ 48"
  then show "take_bit 48 s = s" by (simp add: word_unat_eq_iff unsigned_take_bit_eq take_bit_nat_eq_self)
next
  assume "take_bit 48 s = s"
  then show "unat s < 2 ^ 48" using unat_take_bit_less[of 48 s] by simp
qed

lemma and_bound: "unat (a :: u64) < 2 ^ 48 \<Longrightarrow> unat (a AND b) < 2 ^ 48" "unat (b :: u64) < 2 ^ 48 \<Longrightarrow> unat (a AND b) < 2 ^ 48"
  using word_and_le1[of a b] word_and_le2[of a b] by (auto simp: word_le_nat_alt)

lemma or_bound: "unat (a :: u64) < 2 ^ 48 \<Longrightarrow> unat (a OR (v AND M48)) < 2 ^ 48"
  "unat (a :: u64) < 2 ^ 48 \<Longrightarrow> unat (a XOR (v AND M48)) < 2 ^ 48"
  unfolding take_bit_iff and_M48 by simp_all

lemma drop_bound: "unat (u :: u64) < 2 ^ 48 \<Longrightarrow> unat (drop_bit s u) < 2 ^ 48"
  unfolding drop_bit_eq_div unat_div by (rule le_less_trans[OF div_le_dividend])

lemma sint_nonneg: "0 \<le> sint t \<Longrightarrow> sint (t :: u64) = int (unat t)"
proof -
  assume "0 \<le> sint t"
  moreover have "sint t < 2 ^ 63" using sint_lt[of t] by simp
  ultimately have "take_bit 64 (sint t) = sint t" by (simp add: take_bit_int_eq_self)
  then show ?thesis using uint_sint[of t] by simp
qed

lemma bit_range_unat: "bit_range_ok f t \<Longrightarrow> unat f \<le> unat t \<and> unat t \<le> 47"
proof -
  assume "bit_range_ok f t"
  then have r: "0 \<le> sint f" "0 \<le> sint t" "sint f \<le> sint t" "sint t \<le> 47" by (auto simp: bit_range_ok_def)
  from r(3,4) show ?thesis unfolding sint_nonneg[OF r(1)] sint_nonneg[OF r(2)] by linarith
qed

lemma range_bound: "bit_range_ok f t \<Longrightarrow> unat (x AND low_bits (unat f) (unat t)) < 2 ^ 48"
proof -
  assume r: "bit_range_ok f t"
  then have "unat t - unat f + 1 \<le> 48" using bit_range_unat[OF r] by linarith
  from unat_take_bit_less[OF this, of x] show ?thesis by (simp add: low_bits_mask take_bit_eq_mask)
qed

definition is_u48 :: "'n lua_api \<Rightarrow> 'n lval \<Rightarrow> bool" where
  "is_u48 A v \<longleftrightarrow> (\<exists>r. unat r < 2 ^ 48 \<and> v = lua_pushlint A r)"

lemma is_u48I: "unat r < 2 ^ 48 \<Longrightarrow> is_u48 A (lua_pushlint A r)"
  by (auto simp: is_u48_def)

lemma bitset_bound:
  assumes "bit_range_ok f t" and "unat w < 2 ^ 48"
  shows "unat ((w AND NOT (push_bit (unat f) (low_bits (unat f) (unat t)))) OR push_bit (unat f) (s AND low_bits (unat f) (unat t))) < 2 ^ 48"
proof -
  have ft: "unat f \<le> unat t \<and> unat t \<le> 47" by (rule bit_range_unat[OF assms(1)])
  have w: "j < 48" if "bit w j" for j using assms(2) that unfolding take_bit_iff by (metis bit_take_bit_iff)
  show ?thesis
    unfolding take_bit_iff low_bits_mask by (rule bit_word_eqI) (use ft in \<open>auto simp: bit_simps dest: w\<close>)
qed

lemma arg48_nonneg: "lua_arg48 A v = Some w \<Longrightarrow> 0 \<le> sint w \<Longrightarrow> unat w < 2 ^ 48"
proof -
  assume "lua_arg48 A v = Some w" "0 \<le> sint w"
  then have "int (unat w) \<le> 0xFFFFFFFFFFFF"
    unfolding sint_nonneg[OF \<open>0 \<le> sint w\<close>, symmetric] by (auto simp: lua_arg48_def lua_within_def split: bind_splits if_splits)
  then have "unat w < 281474976710656" by linarith
  then show "unat w < 2 ^ 48" by simp
qed

lemma bitset_u48:
  assumes "luacall_bitset A args = Some v" and "\<forall>w. lua_arg48 A (args ! 0) = Some w \<longrightarrow> 0 \<le> sint w"
  shows "is_u48 A v"
proof -
  obtain w f t s where g: "lua_arg48 A (args ! 0) = Some w" "bit_range_ok f t"
    "v = lua_pushlint A ((w AND NOT (push_bit (unat f) (low_bits (unat f) (unat t)))) OR push_bit (unat f) (s AND low_bits (unat f) (unat t)))"
    using assms(1) by (auto simp: luacall_bitset_def Let_def simp del: push_bit_and split: bind_splits if_splits)
  show ?thesis unfolding g(3) by (rule is_u48I[OF bitset_bound[OF g(2) arg48_nonneg[OF g(1)]]]) (use assms(2) g(1) in blast)
qed


definition int_api :: "int lua_api" where
  "int_api = \<lparr>api_push = sint, api_to = word_of_int, api_check = (\<lambda>i. Some (word_of_int i)), api_parse = (\<lambda>_. None),
     api_show = (\<lambda>_. [])\<rparr>"

lemma int_api_ok: "api_ok int_api"
  by (simp add: api_ok_def int_api_def)


lemma small_of_nat: "n < 2 ^ 48 \<Longrightarrow> unat (of_nat n :: u64) = n \<and> small_int (of_nat n)"
proof -
  assume n: "n < 2 ^ 48"
  then have "unat (of_nat n :: u64) = n" by (simp add: unsigned_of_nat take_bit_nat_eq_self)
  with n show ?thesis by (intro conjI small_unat) simp_all
qed

lemma range_of_nat: "f \<le> t \<Longrightarrow> t \<le> 47 \<Longrightarrow> bit_range_ok (of_nat f) (of_nat t)"
proof -
  assume "f \<le> t" "t \<le> 47"
  then have "unat (of_nat f :: u64) = f" "unat (of_nat t :: u64) = t" using small_of_nat[of f] small_of_nat[of t] by simp_all
  then have "sint (of_nat f :: u64) = int f" "sint (of_nat t :: u64) = int t"
    using sint_small[of "of_nat f"] sint_small[of "of_nat t"] \<open>f \<le> t\<close> \<open>t \<le> 47\<close> uint_nat[of "of_nat f :: u64"] uint_nat[of "of_nat t :: u64"] by simp_all
  then show ?thesis using \<open>f \<le> t\<close> \<open>t \<le> 47\<close> by (simp add: bit_range_ok_def)
qed

lemma arg48_small: "api_ok A \<Longrightarrow> unat x < 2 ^ 48 \<Longrightarrow> lua_arg48 A (lua_pushlint A x) = Some x"
proof -
  assume A: "api_ok A" and x: "unat x < 2 ^ 48"
  have "sint x = int (unat x)" using sint_small[of x] x by simp
  then have "\<not> (sint x > 0xFFFFFFFFFFFF \<or> sint x < - 0xFFFFFFFFFFFF)" using x[simplified] by linarith
  then show ?thesis using pushlint_read(2)[OF A small_unat, of x] x by (simp add: lua_arg48_def lua_within_def)
qed

text \<open>What \<open>bitset\<close> stores in a range of bits, \<open>bitget\<close> reads back there, cut to the width of the range; the other bits
  stay, and the number stays one of 48 bits.\<close>

theorem lua_bitset_bitget:
  assumes "api_ok A" and "unat x < 2 ^ 48" and "unat s < 2 ^ 48" and "f \<le> t" and "t \<le> 47"
  defines "F \<equiv> lua_pushlint A (of_nat f)" and "T \<equiv> lua_pushlint A (of_nat t)"
  shows "\<exists>w. luacall_bitset A [lua_pushlint A x, F, T, lua_pushlint A s] = Some (lua_pushlint A w) \<and> unat w < 2 ^ 48
    \<and> luacall_bitget A [lua_pushlint A w, F, T] = Some (lua_pushlint A (take_bit (t - f + 1) s))
    \<and> (\<forall>j. j < f \<or> t < j \<longrightarrow> bit w j = bit x j)"
proof -
  let ?m = "mask (t - f + 1) :: u64"
  let ?w = "(x AND NOT (push_bit f ?m)) OR push_bit f (s AND ?m)"
  have ft: "unat (of_nat f :: u64) = f" "unat (of_nat t :: u64) = t" "small_int (of_nat f)" "small_int (of_nat t)"
    using small_of_nat[of f] small_of_nat[of t] assms(4,5) by simp_all
  note rd = pushlint_read(2)[OF assms(1)]
  have r: "bit_range_ok (of_nat f) (of_nat t)" by (rule range_of_nat[OF assms(4,5)])
  have xs: "j < 48" if "bit x j" for j
    using assms(2) that unfolding take_bit_iff by (metis bit_take_bit_iff)
  have w: "unat ?w < 2 ^ 48"
    unfolding take_bit_iff by (rule bit_word_eqI) (use assms(4,5) in \<open>auto simp: bit_simps dest: xs\<close>)
  have g: "drop_bit f ?w AND ?m = take_bit (t - f + 1) s"
    by (rule bit_word_eqI) (use assms(4,5) in \<open>auto simp: bit_simps\<close>)
  have "luacall_bitset A [lua_pushlint A x, F, T, lua_pushlint A s] = Some (lua_pushlint A ?w)"
    using arg48_small[OF assms(1,2)] arg48_small[OF assms(1,3)] rd[OF ft(3)] rd[OF ft(4)] r
    by (simp add: luacall_bitset_def lua_check_argc_def F_def T_def numeral_3_eq_3 Let_def low_bits_mask ft)
  moreover have "luacall_bitget A [lua_pushlint A ?w, F, T] = Some (lua_pushlint A (take_bit (t - f + 1) s))"
    using arg48_small[OF assms(1) w] rd[OF ft(3)] rd[OF ft(4)] r g
    by (simp add: luacall_bitget_def lua_check_argc_def F_def T_def numeral_2_eq_2 low_bits_mask ft)
  moreover have "\<forall>j. j < f \<or> t < j \<longrightarrow> bit ?w j = bit x j"
    using assms(4) by (auto simp: bit_simps dest: xs)
  ultimately show ?thesis using w by blast
qed

lemma lua_bitset_bitget_witness:
  "\<exists>w. luacall_bitset int_api [LNum 0xF0F0, LNum 4, LNum 11, LNum 0x1AB] = Some (LNum w)
     \<and> luacall_bitget int_api [LNum w, LNum 4, LNum 11] = Some (LNum 0xAB)"
  using lua_bitset_bitget[OF int_api_ok, of "0xF0F0" "0x1AB" 4 11]
  by (auto simp: int_api_def lua_pushlint_def take_bit_eq_mod)

subsection \<open>Numbers in strings\<close>

lemma lua_bux_ux:
  assumes "api_ok A" and "\<bar>sint i\<bar> \<le> m" and "m < 2 ^ 53" and "put (replicate n 0) 0 i = Some d" and "length d = n" and "get d 0 = Some v"
    and "n < 2 ^ 63"
  shows "lua_bux A n m put [lua_pushlint A i] = Some (Some (LStr d))"
    and "lua_ux A n get [LStr d] = Some (Some (lua_pushlint A v))"
proof -
  have s: "small_int i" using assms(2,3) by (simp add: small_int_def)
  have "lua_within m i = Some ()" using assms(2) by (auto simp: lua_within_def)
  then show "lua_bux A n m put [lua_pushlint A i] = Some (Some (LStr d))"
    using assms(4) pushlint_read(2)[OF assms(1) s] by (simp add: lua_bux_def lua_check_argc_def)
  have "int n < 2 ^ 63" using assms(7) by (metis of_nat_less_iff of_nat_numeral of_nat_power)
  then show "lua_ux A n get [LStr d] = Some (Some (lua_pushlint A v))"
    using assms(5,6) by (simp add: lua_ux_def lua_check_argc_range_def lua_reqlstring_def lua_offset_def)
qed

lemma ucast_cut:
  "ucast (ucast (i :: u64) :: u8) = take_bit 8 i" "ucast (ucast i :: u16) = take_bit 16 i" "ucast (take_bit 24 (ucast i :: u32)) = take_bit 24 i"
  "ucast (take_bit 16 (ucast i :: u16)) = take_bit 16 i" "ucast (take_bit 32 (ucast i :: u32)) = take_bit 32 i"
  by (rule bit_word_eqI; auto simp: bit_simps)+

text \<open>C22: The numbers a script packs into strings come back: for every width, \<open>uN\<close> of \<open>buN\<close> is the number cut to that width
  (so that a negative number comes back as its complement), and the string has exactly that width.\<close>

theorem lua_number_strings:
  assumes "api_ok A"
  shows "(\<bar>sint i\<bar> \<le> 0xFF \<longrightarrow> (\<exists>d. luacall_bu8 A [lua_pushlint A i] = Some (Some (LStr d)) \<and> length d = 1
        \<and> luacall_u8 A [LStr d] = Some (Some (lua_pushlint A (take_bit 8 i)))))
    \<and> (\<bar>sint i\<bar> \<le> 0xFFFF \<longrightarrow> (\<exists>d. luacall_bu16 A [lua_pushlint A i] = Some (Some (LStr d)) \<and> length d = 2
        \<and> luacall_u16 A [LStr d] = Some (Some (lua_pushlint A (take_bit 16 i)))))
    \<and> (\<bar>sint i\<bar> \<le> 0xFFFFFF \<longrightarrow> (\<exists>d. luacall_bu24 A [lua_pushlint A i] = Some (Some (LStr d)) \<and> length d = 3
        \<and> luacall_u24 A [LStr d] = Some (Some (lua_pushlint A (take_bit 24 i)))))
    \<and> (\<bar>sint i\<bar> \<le> 0xFFFFFFFF \<longrightarrow> (\<exists>d. luacall_bu32 A [lua_pushlint A i] = Some (Some (LStr d)) \<and> length d = 4
        \<and> luacall_u32 A [LStr d] = Some (Some (lua_pushlint A (take_bit 32 i)))))
    \<and> (\<bar>sint i\<bar> \<le> 0xFFFFFFFFFFFF \<longrightarrow> (\<exists>d. luacall_bu48 A [lua_pushlint A i] = Some (Some (LStr d)) \<and> length d = 6
        \<and> luacall_u48 A [LStr d] = Some (Some (lua_pushlint A (take_bit 48 i)))))"
proof (intro conjI impI)
  note B = lua_bux_ux[OF assms]
  assume "\<bar>sint i\<bar> \<le> 0xFF"
  from B[OF this, where n = 1 and put = "\<lambda>d p v. wr d p (ucast v)" and get = "\<lambda>p i. map_option ucast (rd p i)" and d = "[ucast i]"
      and v = "take_bit 8 i"]
  show "\<exists>d. luacall_bu8 A [lua_pushlint A i] = Some (Some (LStr d)) \<and> length d = 1
        \<and> luacall_u8 A [LStr d] = Some (Some (lua_pushlint A (take_bit 8 i)))"
    by (auto simp: luacall_bu8_def luacall_u8_def ucast_cut)
next
  note B = lua_bux_ux[OF assms]
  assume i: "\<bar>sint i\<bar> \<le> 0xFFFF"
  obtain d where d: "phton16 (replicate 2 0) 0 (ucast i) = Some d" using be16.put_Some_iff[of "replicate 2 0" 0 "ucast i"] by auto
  show "\<exists>d. luacall_bu16 A [lua_pushlint A i] = Some (Some (LStr d)) \<and> length d = 2
        \<and> luacall_u16 A [LStr d] = Some (Some (lua_pushlint A (take_bit 16 i)))"
    using B[OF i, where n = 2 and put = "\<lambda>d p v. phton16 d p (ucast v)" and get = "\<lambda>p i. map_option ucast (pntoh16 p i)" and d = d
      and v = "take_bit 16 i"] d be16.put_length[OF d] be16.get_put[OF d]
    by (auto simp: luacall_bu16_def luacall_u16_def ucast_cut)
next
  note B = lua_bux_ux[OF assms]
  assume i: "\<bar>sint i\<bar> \<le> 0xFFFFFF"
  obtain d where d: "phton24 (replicate 3 0) 0 (ucast i) = Some d" using be24.put_Some_iff[of "replicate 3 0" 0 "ucast i"] by auto
  show "\<exists>d. luacall_bu24 A [lua_pushlint A i] = Some (Some (LStr d)) \<and> length d = 3
        \<and> luacall_u24 A [LStr d] = Some (Some (lua_pushlint A (take_bit 24 i)))"
    using B[OF i, where n = 3 and put = "\<lambda>d p v. phton24 d p (ucast v)" and get = "\<lambda>p i. map_option ucast (pntoh24 p i)" and d = d
      and v = "take_bit 24 i"] d be24.put_length[OF d] be24.get_put[OF d]
    by (auto simp: luacall_bu24_def luacall_u24_def ucast_cut)
next
  note B = lua_bux_ux[OF assms]
  assume i: "\<bar>sint i\<bar> \<le> 0xFFFFFFFF"
  obtain d where d: "phton32 (replicate 4 0) 0 (ucast i) = Some d" using be32.put_Some_iff[of "replicate 4 0" 0 "ucast i"] by auto
  show "\<exists>d. luacall_bu32 A [lua_pushlint A i] = Some (Some (LStr d)) \<and> length d = 4
        \<and> luacall_u32 A [LStr d] = Some (Some (lua_pushlint A (take_bit 32 i)))"
    using B[OF i, where n = 4 and put = "\<lambda>d p v. phton32 d p (ucast v)" and get = "\<lambda>p i. map_option ucast (pntoh32 p i)" and d = d
      and v = "take_bit 32 i"] d be32.put_length[OF d] be32.get_put[OF d]
    by (auto simp: luacall_bu32_def luacall_u32_def ucast_cut)
next
  note B = lua_bux_ux[OF assms]
  assume i: "\<bar>sint i\<bar> \<le> 0xFFFFFFFFFFFF"
  obtain d where d: "phton48 (replicate 6 0) 0 i = Some d" using be48.put_Some_iff[of "replicate 6 0" 0 i] by auto
  show "\<exists>d. luacall_bu48 A [lua_pushlint A i] = Some (Some (LStr d)) \<and> length d = 6
        \<and> luacall_u48 A [LStr d] = Some (Some (lua_pushlint A (take_bit 48 i)))"
    using B[OF i, where n = 6 and put = phton48 and get = pntoh48 and d = d and v = "take_bit 48 i"]
      d be48.put_length[OF d] be48.get_put[OF d]
    by (auto simp: luacall_bu48_def luacall_u48_def)
qed

lemma lua_number_strings_witness:
  "\<exists>d. luacall_bu24 int_api [LNum (- 2)] = Some (Some (LStr d)) \<and> length d = 3 \<and> luacall_u24 int_api [LStr d] = Some (Some (LNum 0xFFFFFE))"
  using lua_number_strings[OF int_api_ok, of "- 2"] by (auto simp: int_api_def lua_pushlint_def take_bit_eq_mod)

subsection \<open>Undefined behaviour\<close>

text \<open>The integer division is undefined for exactly one pair of numbers, the least integer and -1: there the C division
  overflows (on the usual machines it traps). A division by zero gives nil, and every other pair gives the quotient.\<close>

theorem divint_undefined:
  "(luacall_divint A args = None) = (length args = 2 \<and> luaL_checklint A (args ! 0) = Some (- (2 ^ 63)) \<and> luaL_checklint A (args ! 1) = Some (- 1))"
proof -
  have "sint a = sint b \<longleftrightarrow> a = b" for a b :: u64 by (rule word_eq_iff_signed[symmetric])
  from this[of _ "- (2 ^ 63)"] this[of _ "- 1"]
  have m: "sint a = - 9223372036854775808 \<longleftrightarrow> a = - 9223372036854775808" "sint a = - 1 \<longleftrightarrow> a = - 1" for a :: u64 by simp_all
  show ?thesis
    by (auto simp: luacall_divint_def lua_check_argc_def m split: option.splits bind_splits if_splits)
qed

lemma u16_offset_undefined:
  assumes "luaL_checklint A v = Some (2 ^ 63 - 1)"
  shows "luacall_u16 A [LStr d, v] = None"
proof -
  have "sint (2 ^ 63 - 1 :: u64) = 2 ^ 63 - 1" by simp
  moreover have "\<not> lua_isnil v" using assms by (auto simp: lua_isnil_def luaL_checklint_def split: lval.splits)
  ultimately show ?thesis using assms
    by (simp add: luacall_u16_def lua_ux_def lua_check_argc_range_def lua_reqlstring_def lua_offset_def)
qed

text \<open>A negative number keeps the bits above the 48 of the range in \<open>bitset\<close>.\<close>

lemma bitset_negative:
  "luacall_bitset int_api [LNum (- 1), LNum 0, LNum 0, LNum 0] = Some (LNum (- 2))"
  by (simp add: luacall_bitset_def lua_check_argc_def lua_arg48_def luaL_checklint_def int_api_def lua_within_def bit_range_ok_def
      low_bits_def Let_def lua_pushlint_def)

end
