(* ===== verification/LuaPacket.thy ===== *)
theory LuaPacket
  imports LuaVal Dissect
begin

text \<open>
  Packets as Lua tables (lua.c 1287-1650, 1827-2830): the dissected packet a script is given, and the packet that is put
  together from the table it leaves.

  A header is rebuilt as the list of its bytes; \<open>len\<close> is the room there is for it. \<open>LFail\<close> is the result false,
  \<open>LRaise\<close> an error raised in the Lua machine, \<open>None\<close> a write or a read outside the buffer.
\<close>

unbundle bit_operations_syntax

datatype 'a lua_res = LRaise | LFail | LOk 'a

definition IPPROTO_AH :: u8 where "IPPROTO_AH = 51"
definition IPPROTO_FRAGMENT :: u8 where "IPPROTO_FRAGMENT = 44"

subsection \<open>A packet becomes a table\<close>

definition push8 :: "'n lua_api \<Rightarrow> string \<Rightarrow> u8 \<Rightarrow> 'n ltable \<Rightarrow> 'n ltable" where
  "push8 A f v = lua_pushf_int A f (ucast v)"

definition push16 :: "'n lua_api \<Rightarrow> string \<Rightarrow> u16 \<Rightarrow> 'n ltable \<Rightarrow> 'n ltable" where
  "push16 A f v = lua_pushf_int A f (ucast v)"

definition push32 :: "'n lua_api \<Rightarrow> string \<Rightarrow> u32 \<Rightarrow> 'n ltable \<Rightarrow> 'n ltable" where
  "push32 A f v = lua_pushf_lint A f (ucast v)"

text \<open>The options from \<open>t\<close> to \<open>e\<close>.\<close>

function push_tcp_opts :: "'n lua_api \<Rightarrow> bytes \<Rightarrow> nat \<Rightarrow> nat \<Rightarrow> nat \<Rightarrow> 'n ltable \<Rightarrow> 'n ltable option" where
  "push_tcp_opts A d t e i tab =
     (if t < e then
        (case rd d t of None \<Rightarrow> None
         | Some k \<Rightarrow>
             if k = TCP_KIND_NOOP \<or> k = TCP_KIND_END
             then (let tab = lua_pushi i (LTable (push8 A ''kind'' k [])) tab in
                   if k = TCP_KIND_END then Some tab else push_tcp_opts A d (t + 1) e (i + 1) tab)
             else if t + 1 \<ge> e then Some tab
             else (case rd d (t + 1) of None \<Rightarrow> None
                   | Some l \<Rightarrow>
                       if unat l < 2 \<or> t + unat l > e then Some tab
                       else (case rd_block d (t + 2) (unat l - 2) of None \<Rightarrow> None
                             | Some b \<Rightarrow> push_tcp_opts A d (t + unat l) e (i + 1)
                                 (lua_pushi i (LTable (lua_pushf_raw ''data'' (Some b) (push8 A ''kind'' k []))) tab))))
      else Some tab)"
  by pat_completeness auto
termination by (relation "measure (\<lambda>(A, d, t, e, i, tab). e - t)") auto

declare push_tcp_opts.simps [simp del]

definition lua_pushf_tcphdr_options :: "'n lua_api \<Rightarrow> bytes \<Rightarrow> nat \<Rightarrow> nat \<Rightarrow> 'n ltable \<Rightarrow> 'n ltable option" where
  "lua_pushf_tcphdr_options A d p len tab = do {
     hl \<leftarrow> th_off d p;
     let e = (if 4 * hl > len then p + len else p + 4 * hl);
     o' \<leftarrow> push_tcp_opts A d (p + 20) e 1 [];
     Some (lua_pushf ''options'' (LTable o') tab) }"

definition lua_push_tcphdr :: "'n lua_api \<Rightarrow> bytes \<Rightarrow> nat option \<Rightarrow> nat \<Rightarrow> 'n lval option" where
  "lua_push_tcphdr A d tcp len =
     (case tcp of None \<Rightarrow> Some LNil
      | Some p \<Rightarrow>
          if len < 20 then Some LNil
          else do {
            sport \<leftarrow> pntoh16 d p; dport \<leftarrow> pntoh16 d (p + 2);
            seq \<leftarrow> pntoh32 d (p + 4); ack \<leftarrow> pntoh32 d (p + 8);
            b \<leftarrow> rd d (p + 12); fl \<leftarrow> rd d (p + 13);
            win \<leftarrow> pntoh16 d (p + 14); csum \<leftarrow> pntoh16 d (p + 16); urp \<leftarrow> pntoh16 d (p + 18);
            tab \<leftarrow> lua_pushf_tcphdr_options A d p len
              (push16 A ''th_urp'' urp (push16 A ''th_sum'' csum (push16 A ''th_win'' win (push8 A ''th_flags'' fl
              (push8 A ''th_off'' (drop_bit 4 b) (push8 A ''th_x2'' (b AND 0xF) (push32 A ''th_ack'' ack
              (push32 A ''th_seq'' seq (push16 A ''th_dport'' dport (push16 A ''th_sport'' sport []))))))))));
            Some (LTable tab) })"

definition lua_push_udphdr :: "'n lua_api \<Rightarrow> bytes \<Rightarrow> nat option \<Rightarrow> nat \<Rightarrow> 'n lval option" where
  "lua_push_udphdr A d udp len =
     (case udp of None \<Rightarrow> Some LNil
      | Some p \<Rightarrow>
          if len < 8 then Some LNil
          else do {
            sport \<leftarrow> pntoh16 d p; dport \<leftarrow> pntoh16 d (p + 2); ulen \<leftarrow> pntoh16 d (p + 4); csum \<leftarrow> pntoh16 d (p + 6);
            Some (LTable (push16 A ''uh_sum'' csum (push16 A ''uh_ulen'' ulen
              (push16 A ''uh_dport'' dport (push16 A ''uh_sport'' sport []))))) })"

definition lua_push_icmphdr :: "'n lua_api \<Rightarrow> bytes \<Rightarrow> nat option \<Rightarrow> nat \<Rightarrow> 'n lval option" where
  "lua_push_icmphdr A d icmp len =
     (case icmp of None \<Rightarrow> Some LNil
      | Some p \<Rightarrow>
          if len < 8 then Some LNil
          else do {
            ty \<leftarrow> rd d p; code \<leftarrow> rd d (p + 1); csum \<leftarrow> pntoh16 d (p + 2); v \<leftarrow> pntoh32 d (p + 4);
            Some (LTable (push32 A ''icmp_data'' v (push16 A ''icmp_cksum'' csum
              (push8 A ''icmp_code'' code (push8 A ''icmp_type'' ty []))))) })"

definition lua_push_iphdr :: "'n lua_api \<Rightarrow> bytes \<Rightarrow> nat option \<Rightarrow> nat \<Rightarrow> 'n lval option" where
  "lua_push_iphdr A d ip len =
     (case ip of None \<Rightarrow> Some LNil
      | Some p \<Rightarrow>
          if len < 20 then Some LNil
          else do {
            b \<leftarrow> rd d p; tos \<leftarrow> rd d (p + 1); iplen \<leftarrow> pntoh16 d (p + 2); ident \<leftarrow> pntoh16 d (p + 4);
            off \<leftarrow> pntoh16 d (p + 6); ttl \<leftarrow> rd d (p + 8); pr \<leftarrow> rd d (p + 9); csum \<leftarrow> pntoh16 d (p + 10);
            src \<leftarrow> rd_block d (p + 12) 4; dst \<leftarrow> rd_block d (p + 16) 4;
            let hl = 4 * unat (b AND 0x0F);
            let tab = lua_pushf_raw ''ip_dst'' (Some dst) (lua_pushf_raw ''ip_src'' (Some src) (push16 A ''ip_sum'' csum
              (push8 A ''ip_p'' pr (push8 A ''ip_ttl'' ttl (push16 A ''ip_off'' off (push16 A ''ip_id'' ident
              (push16 A ''ip_len'' iplen (push8 A ''ip_tos'' tos (push8 A ''ip_hl'' (b AND 0x0F)
              (push8 A ''ip_v'' (drop_bit 4 b) []))))))))));
            (if hl > 20 \<and> hl \<le> len
             then do { opts \<leftarrow> rd_block d (p + 20) (hl - 20); Some (LTable (lua_pushf_raw ''options'' (Some opts) tab)) }
             else Some (LTable tab)) })"

text \<open>The walk over the extension headers; their lengths are those \<open>proto_skip_ipv6\<close> uses.\<close>

function push_exthdrs :: "'n lua_api \<Rightarrow> bytes \<Rightarrow> nat \<Rightarrow> nat \<Rightarrow> u8 \<Rightarrow> bool \<Rightarrow> u16 \<Rightarrow> nat \<Rightarrow> 'n ltable \<Rightarrow> 'n ltable option" where
  "push_exthdrs A d p len ty fr fr_off i tab =
     (if len \<noteq> 0 \<and> \<not> (fr \<and> fr_off \<noteq> 0) then
        (case ext_switch d p len ty fr fr_off of
           None \<Rightarrow> None
         | Some (ExtHdr h fr' fo') \<Rightarrow>
             if len < h then Some tab
             else (case (rd d p, rd_block d (p + 2) (h - 2)) of
                 (Some ty', Some b) \<Rightarrow> push_exthdrs A d (p + h) (len - h) ty' fr' fo' (i + 1)
                    (lua_pushi i (LTable (lua_pushf_raw ''data'' (Some b) (push8 A ''next'' ty' (push8 A ''type'' ty [])))) tab)
               | _ \<Rightarrow> None)
         | Some _ \<Rightarrow> Some tab)
      else Some tab)"
  by pat_completeness auto
termination
  by (relation "measure (\<lambda>(A, d, p, len, ty, fr, fo, i, tab). len)") (auto dest: ext_switch_pos)

declare push_exthdrs.simps [simp del]

definition lua_pushf_ip6exthdr :: "'n lua_api \<Rightarrow> bytes \<Rightarrow> nat \<Rightarrow> nat \<Rightarrow> 'n ltable \<Rightarrow> 'n ltable option" where
  "lua_pushf_ip6exthdr A d p len tab = do {
     x \<leftarrow> (if len \<ge> 40 then do {
            ty \<leftarrow> rd d (p + 6);
            plen \<leftarrow> pntoh16 d (p + 4);
            push_exthdrs A d (p + 40) (min (len - 40) (unat plen)) ty False 0 1 [] }
          else Some []);
     Some (lua_pushf ''exthdr'' (LTable x) tab) }"

definition lua_push_ip6hdr :: "'n lua_api \<Rightarrow> bytes \<Rightarrow> nat option \<Rightarrow> nat \<Rightarrow> 'n lval option" where
  "lua_push_ip6hdr A d ip6 len =
     (case ip6 of None \<Rightarrow> Some LNil
      | Some p \<Rightarrow>
          if len < 40 then Some LNil
          else do {
            flow \<leftarrow> pntoh32 d p; plen \<leftarrow> pntoh16 d (p + 4); nxt \<leftarrow> rd d (p + 6); hlim \<leftarrow> rd d (p + 7);
            src \<leftarrow> rd_block d (p + 8) 16; dst \<leftarrow> rd_block d (p + 24) 16;
            tab \<leftarrow> lua_pushf_ip6exthdr A d p len
              (lua_pushf_raw ''ip6_dst'' (Some dst) (lua_pushf_raw ''ip6_src'' (Some src) (push8 A ''ip6_hlim'' hlim
              (push8 A ''ip6_nxt'' nxt (push16 A ''ip6_plen'' plen (push32 A ''ip6_flow'' flow []))))));
            Some (LTable tab) })"

definition lua_push_dissect :: "'n lua_api \<Rightarrow> dissect \<Rightarrow> 'n lval option" where
  "lua_push_dissect A dis = do {
     let d = data_pkt dis;
     pl \<leftarrow> (case data_payload dis of None \<Rightarrow> Some None | Some y \<Rightarrow> map_option Some (rd_block d y (len_payload dis)));
     let tab = lua_pushf_raw ''payload'' pl (lua_pushf_int A ''l4_len'' (of_nat (len_l4 dis))
       (lua_pushf_int A ''l3_len'' (of_nat (len_l3 dis)) (lua_pushf_int A ''transport_len'' (of_nat (transport_len dis))
       (push8 A ''l4proto'' (d_proto dis) []))));
     let tab = (if d_frag dis then push16 A ''frag_off'' (d_frag_off dis) tab else tab);
     ip \<leftarrow> lua_push_iphdr A d (d_ip dis) (len_l3 dis);
     ip6 \<leftarrow> lua_push_ip6hdr A d (d_ip6 dis) (len_l3 dis);
     tcp \<leftarrow> lua_push_tcphdr A d (d_tcp dis) (len_l4 dis);
     udp \<leftarrow> lua_push_udphdr A d (d_udp dis) (len_l4 dis);
     icmp \<leftarrow> lua_push_icmphdr A d (d_icmp dis) (len_l4 dis);
     Some (LTable (lua_pushf ''icmp'' icmp (lua_pushf ''udp'' udp (lua_pushf ''tcp'' tcp (lua_pushf ''ip6'' ip6
       (lua_pushf ''ip'' ip tab)))))) }"

subsection \<open>A table becomes a header\<close>

definition get8 :: "'n lua_api \<Rightarrow> 'n lval \<Rightarrow> string \<Rightarrow> u8" where
  "get8 A v f = ucast (lua_tolint A (lua_getfield v f))"

definition get16 :: "'n lua_api \<Rightarrow> 'n lval \<Rightarrow> string \<Rightarrow> u16" where
  "get16 A v f = ucast (lua_tolint A (lua_getfield v f))"

definition get32 :: "'n lua_api \<Rightarrow> 'n lval \<Rightarrow> string \<Rightarrow> u32" where
  "get32 A v f = ucast (lua_tolint A (lua_getfield v f))"

definition has_num :: "'n lval \<Rightarrow> string \<Rightarrow> bool" where
  "has_num v f \<longleftrightarrow> lua_isnum (lua_getfield v f)"

text \<open>A field that has to be a string of \<open>n\<close> bytes.\<close>

definition get_raw :: "'n lval \<Rightarrow> string \<Rightarrow> nat \<Rightarrow> bytes option" where
  "get_raw v f n = (case lua_getfield v f of LStr s \<Rightarrow> if length s = n then Some s else None | _ \<Rightarrow> None)"

definition set16 :: "bytes \<Rightarrow> nat \<Rightarrow> u16 \<Rightarrow> bytes" where
  "set16 h p v = take p h @ be_bytes 2 v @ drop (p + 2) h"

definition lua_reconstruct_iphdr :: "'n lua_api \<Rightarrow> nat \<Rightarrow> nat \<Rightarrow> 'n lval \<Rightarrow> bytes lua_res option" where
  "lua_reconstruct_iphdr A addr len v =
     (if len < 20 \<or> \<not> lua_istable v then Some LFail
      else if \<not> has_num v ''ip_ttl'' then Some LFail
      else if \<not> has_num v ''ip_p'' then Some LFail
      else case get_raw v ''ip_src'' 4 of None \<Rightarrow> Some LFail
      | Some src \<Rightarrow> (case get_raw v ''ip_dst'' 4 of None \<Rightarrow> Some LFail
      | Some dst \<Rightarrow>
          let opts = (case lua_getfield v ''options'' of LStr s \<Rightarrow> s | _ \<Rightarrow> []);
              lopt = 4 * ((length opts + 3) div 4)
          in if length opts > 40 \<or> opts \<noteq> [] \<and> 20 + lopt > len then Some LFail
             else map_option LOk (ip4_fix_checksum addr
               ([0x40 OR of_nat ((20 + lopt) div 4), get8 A v ''ip_tos''] @ be_bytes 2 (get16 A v ''ip_len'')
                @ be_bytes 2 (get16 A v ''ip_id'') @ be_bytes 2 (get16 A v ''ip_off'')
                @ [get8 A v ''ip_ttl'', get8 A v ''ip_p'', 0, 0] @ src @ dst
                @ opts @ replicate (lopt - length opts) 0))))"

text \<open>The options of a TCP header: \<open>i\<close> is the index of the next one, \<open>acc\<close> what is written.\<close>

function reconstruct_tcp_opts :: "'n lua_api \<Rightarrow> 'n lval \<Rightarrow> nat \<Rightarrow> nat \<Rightarrow> bytes \<Rightarrow> (bytes \<times> nat) lua_res" where
  "reconstruct_tcp_opts A opts i left acc =
     (let x = lua_rawgeti opts i in
      if lua_isnil x then LOk (acc, left)
      else if left = 0 \<or> \<not> lua_istable x then LFail
      else if \<not> has_num x ''kind'' then LFail
      else (let k = get8 A x ''kind'' in
        if k = TCP_KIND_END then LOk (acc @ [k], left - 1)
        else if k = TCP_KIND_NOOP then reconstruct_tcp_opts A opts (i + 1) (left - 1) (acc @ [k])
        else (let s = (case lua_getfield x ''data'' of LStr s \<Rightarrow> s | _ \<Rightarrow> []) in
          if 2 + length s > left then LFail
          else reconstruct_tcp_opts A opts (i + 1) (left - (length s + 2)) (acc @ [k, of_nat (length s + 2)] @ s))))"
  by pat_completeness auto
termination by (relation "measure (\<lambda>(A, opts, i, left, acc). left)") auto

declare reconstruct_tcp_opts.simps [simp del]

text \<open>The options are filled up with no-operations to a multiple of four bytes.\<close>

definition lua_reconstruct_tcphdr_options :: "'n lua_api \<Rightarrow> nat \<Rightarrow> 'n lval \<Rightarrow> bytes lua_res" where
  "lua_reconstruct_tcphdr_options A len v =
     (if len < 20 then LFail
      else let opts = lua_getfield v ''options'' in
        if lua_istable opts then
          (case reconstruct_tcp_opts A opts 1 (min (len - 20) 40) [] of
             LOk (acc, left) \<Rightarrow>
               (let n = (4 - length acc mod 4) mod 4 in
                if n > left then LFail else LOk (acc @ replicate n TCP_KIND_NOOP))
           | LFail \<Rightarrow> LFail | LRaise \<Rightarrow> LRaise)
        else LOk [])"

definition lua_reconstruct_tcphdr :: "'n lua_api \<Rightarrow> nat \<Rightarrow> 'n lval \<Rightarrow> bytes lua_res" where
  "lua_reconstruct_tcphdr A len v =
     (if len < 20 \<or> \<not> lua_istable v then LFail
      else if \<not> has_num v ''th_sport'' \<or> \<not> has_num v ''th_dport'' \<or> \<not> has_num v ''th_seq'' \<or> \<not> has_num v ''th_ack''
        \<or> \<not> has_num v ''th_flags'' \<or> \<not> has_num v ''th_win'' then LFail
      else (case lua_reconstruct_tcphdr_options A len v of
          LOk opts \<Rightarrow> LOk (be_bytes 2 (get16 A v ''th_sport'') @ be_bytes 2 (get16 A v ''th_dport'')
             @ be_bytes 4 (get32 A v ''th_seq'') @ be_bytes 4 (get32 A v ''th_ack'')
             @ [push_bit 4 (of_nat ((20 + length opts) div 4)) OR (get8 A v ''th_x2'' AND 0xF), get8 A v ''th_flags'']
             @ be_bytes 2 (get16 A v ''th_win'') @ be_bytes 2 (get16 A v ''th_sum'') @ be_bytes 2 (get16 A v ''th_urp'') @ opts)
        | LFail \<Rightarrow> LFail | LRaise \<Rightarrow> LRaise))"

text \<open>The next two functions do not know how much room there is: the fields are stored as they are read.\<close>

definition lua_reconstruct_udphdr :: "'n lua_api \<Rightarrow> nat \<Rightarrow> 'n lval \<Rightarrow> bytes lua_res option" where
  "lua_reconstruct_udphdr A room v =
     (if \<not> lua_istable v then Some LFail
      else if \<not> has_num v ''uh_sport'' then Some LFail
      else if room < 2 then None
      else if \<not> has_num v ''uh_dport'' then Some LFail
      else if room < 8 then None
      else Some (LOk (be_bytes 2 (get16 A v ''uh_sport'') @ be_bytes 2 (get16 A v ''uh_dport'')
             @ be_bytes 2 (get16 A v ''uh_ulen'') @ be_bytes 2 (get16 A v ''uh_sum''))))"

definition lua_reconstruct_icmphdr :: "'n lua_api \<Rightarrow> nat \<Rightarrow> 'n lval \<Rightarrow> bytes lua_res option" where
  "lua_reconstruct_icmphdr A room v =
     (if \<not> lua_istable v then Some LFail
      else if \<not> has_num v ''icmp_type'' then Some LFail
      else if room < 1 then None
      else if \<not> has_num v ''icmp_code'' then Some LFail
      else if room < 2 then None
      else if \<not> has_num v ''icmp_data'' then Some LFail
      else if room < 8 then None
      else Some (LOk ([get8 A v ''icmp_type'', get8 A v ''icmp_code''] @ be_bytes 2 (get16 A v ''icmp_cksum'')
             @ be_bytes 4 (get32 A v ''icmp_data''))))"

text \<open>
  The extension headers from index \<open>i\<close> on: \<open>h\<close> is what is written, \<open>lp\<close> the place of the last next-header field, which
  gets the type of the header behind it unless \<open>pn\<close> keeps what the table says.
\<close>

function reconstruct_exthdrs :: "'n lua_api \<Rightarrow> 'n lval \<Rightarrow> bool \<Rightarrow> nat \<Rightarrow> nat \<Rightarrow> bytes \<Rightarrow> nat \<Rightarrow> (bytes \<times> nat) lua_res" where
  "reconstruct_exthdrs A x pn i left h lp =
     (let e = lua_rawgeti x i in
      if lua_isnil e then LOk (h, lp)
      else if \<not> lua_istable e then LFail
      else if \<not> has_num e ''type'' then LFail
      else (let ty = get8 A e ''type''; nx = (if has_num e ''next'' then get8 A e ''next'' else IPPROTO_NONE) in
        (case lua_getfield e ''data'' of
           LStr s \<Rightarrow>
             (let l = length s + 2 in
              if length s < 6 \<or> l > left then LFail
              else if (if ty = IPPROTO_AH then length s \<ge> 1024 \<or> l mod 4 \<noteq> 0 else length s \<ge> 2048 \<or> l mod 8 \<noteq> 0) then LFail
              else (let hl = (if ty = IPPROTO_AH then of_nat (l div 4 - 2) else of_nat (l div 8 - 1));
                        h' = (if pn then h else h[lp := ty])
                    in reconstruct_exthdrs A x pn (i + 1) (left - l) (h' @ [nx, hl] @ s) (length h)))
         | _ \<Rightarrow> LFail)))"
  by pat_completeness auto
termination by (relation "measure (\<lambda>(A, x, pn, i, left, h, lp). left)") auto

declare reconstruct_exthdrs.simps [simp del]

definition lua_reconstruct_ip6exthdr :: "'n lua_api \<Rightarrow> nat \<Rightarrow> 'n lval \<Rightarrow> u8 \<Rightarrow> bool \<Rightarrow> bytes \<Rightarrow> bytes lua_res" where
  "lua_reconstruct_ip6exthdr A len v proto pn h =
     (if len < 40 then LFail
      else let x = lua_getfield v ''exthdr'' in
        (case (if lua_istable x then reconstruct_exthdrs A x pn 1 (len - 40) h 6 else LOk (h, 6)) of
           LOk (h, lp) \<Rightarrow> LOk (if pn then h else h[lp := proto])
         | LFail \<Rightarrow> LFail | LRaise \<Rightarrow> LRaise))"

definition lua_reconstruct_ip6hdr :: "'n lua_api \<Rightarrow> nat \<Rightarrow> 'n lval \<Rightarrow> u8 \<Rightarrow> bool \<Rightarrow> bytes lua_res" where
  "lua_reconstruct_ip6hdr A len v proto pn =
     (if len < 40 \<or> \<not> lua_istable v then LFail
      else (case get_raw v ''ip6_src'' 16 of None \<Rightarrow> LFail
      | Some src \<Rightarrow> (case get_raw v ''ip6_dst'' 16 of None \<Rightarrow> LFail
      | Some dst \<Rightarrow>
          let flow = (if has_num v ''ip6_flow'' then get32 A v ''ip6_flow'' else 0x60000000);
              hdr = (\<lambda>plen :: u16. be_bytes 4 flow @ be_bytes 2 plen @ [get8 A v ''ip6_nxt'', get8 A v ''ip6_hlim''] @ src @ dst)
          in (case lua_getfield v ''ip6_plen'' of
                LNil \<Rightarrow> (case lua_reconstruct_ip6exthdr A len v proto pn (hdr 0) of
                    LOk h \<Rightarrow> LOk (set16 h 4 (of_nat (length h - 40)))
                  | LFail \<Rightarrow> LFail | LRaise \<Rightarrow> LRaise)
              | LNum n \<Rightarrow> (case luaL_checklint A (LNum n) of
                    None \<Rightarrow> LRaise
                  | Some plen \<Rightarrow> lua_reconstruct_ip6exthdr A len v proto pn (hdr (ucast plen)))
              | _ \<Rightarrow> LRaise))))"

subsection \<open>A table becomes a packet\<close>

definition lua_ip6_l4proto_from_dissect :: "'n lval \<Rightarrow> u8" where
  "lua_ip6_l4proto_from_dissect v =
     (if lua_istable (lua_getfield v ''tcp'') then IPPROTO_TCP
      else if lua_istable (lua_getfield v ''udp'') then IPPROTO_UDP
      else if lua_istable (lua_getfield v ''icmp'') \<and> lua_istable (lua_getfield v ''ip'') then IPPROTO_ICMP
      else if lua_istable (lua_getfield v ''icmp'') \<and> lua_istable (lua_getfield v ''ip6'') then IPPROTO_ICMPV6
      else IPPROTO_NONE)"

datatype l4_kind = L4Tcp | L4Udp | L4Icmp | L4None

text \<open>The network header, and whether it is one of IPv4.\<close>

definition reconstruct_l3 :: "'n lua_api \<Rightarrow> nat \<Rightarrow> nat \<Rightarrow> u8 \<Rightarrow> bool \<Rightarrow> 'n lval \<Rightarrow> (bool \<times> bytes) lua_res option" where
  "reconstruct_l3 A addr len nxp pn v =
     (if lua_istable (lua_getfield v ''ip'') then do {
        r \<leftarrow> lua_reconstruct_iphdr A addr len (lua_getfield v ''ip'');
        (case r of
           LOk h \<Rightarrow> do { h \<leftarrow> ip4_fix_checksum addr h; Some (LOk (True, h)) }
         | LFail \<Rightarrow> Some LFail | LRaise \<Rightarrow> Some LRaise) }
      else if \<not> lua_istable (lua_getfield v ''ip6'') then Some LFail
      else (case lua_reconstruct_ip6hdr A len (lua_getfield v ''ip6'')
                 (if nxp = IPPROTO_NONE then lua_ip6_l4proto_from_dissect v else nxp) pn of
          LOk h \<Rightarrow> Some (LOk (False, h)) | LFail \<Rightarrow> Some LFail | LRaise \<Rightarrow> Some LRaise))"

definition reconstruct_l4 :: "'n lua_api \<Rightarrow> nat \<Rightarrow> 'n lval \<Rightarrow> (l4_kind \<times> bytes) lua_res option" where
  "reconstruct_l4 A left v =
     (let tag = (\<lambda>k r. case r of LOk h \<Rightarrow> LOk (k, h) | LFail \<Rightarrow> LFail | LRaise \<Rightarrow> LRaise) in
      if lua_istable (lua_getfield v ''tcp'') then Some (tag L4Tcp (lua_reconstruct_tcphdr A left (lua_getfield v ''tcp'')))
      else if lua_istable (lua_getfield v ''udp'') then map_option (tag L4Udp) (lua_reconstruct_udphdr A left (lua_getfield v ''udp''))
      else if lua_istable (lua_getfield v ''icmp'') then map_option (tag L4Icmp) (lua_reconstruct_icmphdr A left (lua_getfield v ''icmp''))
      else Some (LOk (L4None, [])))"

definition reconstruct_payload :: "'n lua_api \<Rightarrow> nat \<Rightarrow> 'n lval \<Rightarrow> bytes lua_res" where
  "reconstruct_payload A left v =
     (case lua_tolstring A (lua_getfield v ''payload'') of
        None \<Rightarrow> LOk []
      | Some p \<Rightarrow> if length p > 0xFFFF \<or> left < length p then LFail else LOk p)"

text \<open>The addresses of the network header, for the checksum of the transport header.\<close>

definition l3_addrs :: "bool \<Rightarrow> bytes \<Rightarrow> ip_addrs option" where
  "l3_addrs v4 h =
     (if v4 then do { s \<leftarrow> ld32 h 12; t \<leftarrow> ld32 h 16; Some (Addrs4 s t) }
      else do { s \<leftarrow> rd_block h 8 16; t \<leftarrow> rd_block h 24 16; Some (Addrs6 s t) })"

text \<open>A checksum at \<open>p\<close> is made wrong: it is combined with a number that is not zero.\<close>

definition spoil :: "bool \<Rightarrow> u32 \<Rightarrow> nat \<Rightarrow> bytes \<Rightarrow> bytes option" where
  "spoil bad rnd p seg =
     (if bad then do { c \<leftarrow> ld16 seg p; st16 seg p (c XOR of_nat (1 + unat rnd mod 0xFFFF)) } else Some seg)"

text \<open>The transport header and its payload with the checksum stored; \<open>n\<close> is the length of the payload.\<close>

definition l4_sums :: "nat \<Rightarrow> u32 \<Rightarrow> bool \<Rightarrow> l4_kind \<Rightarrow> bool \<Rightarrow> bytes \<Rightarrow> nat \<Rightarrow> bytes \<Rightarrow> bytes lua_res option" where
  "l4_sums addr rnd bad k v4 l3 n seg =
     (case k of
        L4Tcp \<Rightarrow> do { a \<leftarrow> l3_addrs v4 l3; seg \<leftarrow> tcp_fix_checksum addr seg (length seg) a; map_option LOk (spoil bad rnd 16 seg) }
      | L4Udp \<Rightarrow>
          if n + 8 > 0xFFFF then Some LFail
          else do {
            a \<leftarrow> l3_addrs v4 l3;
            seg \<leftarrow> udp_fix_checksum addr (set16 seg 4 (of_nat (n + 8))) (length seg) a;
            map_option LOk (spoil bad rnd 6 seg) }
      | L4Icmp \<Rightarrow> do {
            a \<leftarrow> l3_addrs v4 l3;
            seg \<leftarrow> icmp_fix_checksum addr seg (length seg) (case a of Addrs6 s t \<Rightarrow> Some (s, t) | _ \<Rightarrow> None);
            map_option LOk (spoil bad rnd 2 seg) }
      | L4None \<Rightarrow> Some (LOk seg))"

text \<open>
  The end for IPv4. A script that wants a fragment gives the whole payload, and offset and length of the fragment in the
  header: the part is moved to the front.
\<close>

definition finish_ip4 :: "nat \<Rightarrow> nat \<Rightarrow> bytes \<Rightarrow> bytes lua_res option" where
  "finish_ip4 addr l3 pkt = do {
     off \<leftarrow> pntoh16 pkt 6;
     iplen \<leftarrow> pntoh16 pkt 2;
     (if off AND 0x3FFF \<noteq> 0 then
        (let n = unat iplen; start = l3 + 8 * unat (off AND 0x1FFF) in
         if n < l3 \<or> n > length pkt then Some LFail
         else if start + (n - l3) > length pkt then Some LFail
         else map_option LOk (ip4_fix_checksum addr (take l3 pkt @ take (n - l3) (drop start pkt))))
      else map_option LOk (ip4_fix_checksum addr (set16 pkt 2 (of_nat (length pkt))))) }"

text \<open>
  The end for IPv6. The fragment header that is found may reach behind the packet: its offset is then read from what else is in
  the buffer of \<open>room\<close> bytes, which is shown as 0 since both checks refuse such a header whatever is read there.
\<close>

definition finish_ip6 :: "nat \<Rightarrow> bytes \<Rightarrow> bytes lua_res option" where
  "finish_ip6 room pkt = do {
     f \<leftarrow> proto_find_ip6_exthdr pkt 0 (length pkt) IPPROTO_FRAGMENT;
     (case f of
        None \<Rightarrow> Some (LOk (set16 pkt 4 (of_nat (length pkt - 40))))
      | Some p \<Rightarrow> do {
          plen \<leftarrow> pntoh16 pkt 4;
          off \<leftarrow> (if p + 4 \<le> length pkt \<or> room < p + 4 then pntoh16 pkt (p + 2) else Some 0);
          let e = p + 8;
          let start = e + unat (off AND 0xFFF8);
          (if e - 40 > unat plen then Some LFail
           else (let n = unat plen - (e - 40) in
             if start + n > length pkt then Some LFail
             else Some (LOk (take e pkt @ take n (drop start pkt))))) }) }"

definition lua_reconstruct_dissect :: "'n lua_api \<Rightarrow> u32 \<Rightarrow> nat \<Rightarrow> nat \<Rightarrow> bool \<Rightarrow> bool \<Rightarrow> u8 \<Rightarrow> bool \<Rightarrow> 'n lval \<Rightarrow> bytes lua_res option" where
  "lua_reconstruct_dissect A rnd addr len keepsum bad nxp pn v =
     (case v of
        LTable _ \<Rightarrow>
          (let fo = lua_getfield v ''frag_off''; frag = (\<not> lua_isnil fo) in
           if frag \<and> luaL_checklint A fo = None then Some LRaise
           else do {
             r \<leftarrow> reconstruct_l3 A addr len nxp (pn \<or> frag) v;
             (case r of LRaise \<Rightarrow> Some LRaise | LFail \<Rightarrow> Some LFail
              | LOk (v4, l3) \<Rightarrow>
                  let left = len - length l3 in
                  if frag then
                    (case reconstruct_payload A left v of LRaise \<Rightarrow> Some LRaise | LFail \<Rightarrow> Some LFail
                     | LOk p \<Rightarrow> Some (LOk (l3 @ p)))
                  else do {
                    r \<leftarrow> reconstruct_l4 A left v;
                    (case r of LRaise \<Rightarrow> Some LRaise | LFail \<Rightarrow> Some LFail
                     | LOk (k, l4) \<Rightarrow>
                         (case reconstruct_payload A (left - length l4) v of LRaise \<Rightarrow> Some LRaise | LFail \<Rightarrow> Some LFail
                          | LOk p \<Rightarrow> do {
                              r \<leftarrow> (if keepsum then Some (LOk (l4 @ p))
                                   else l4_sums (addr + length l3) rnd bad k v4 l3 (length p) (l4 @ p));
                              (case r of LRaise \<Rightarrow> Some LRaise | LFail \<Rightarrow> Some LFail
                               | LOk seg \<Rightarrow> if v4 then finish_ip4 addr (length l3) (l3 @ seg) else finish_ip6 len (l3 @ seg)) })) }) })
      | LStr _ \<Rightarrow> Some LFail
      | _ \<Rightarrow> Some LRaise)"

subsection \<open>The functions a script calls\<close>

text \<open>A result false becomes an error.\<close>

definition lua_pushed :: "bytes lua_res option \<Rightarrow> 'n lval option option" where
  "lua_pushed r = map_option (\<lambda>x. case x of LOk h \<Rightarrow> Some (LStr h) | _ \<Rightarrow> None) r"

definition lua_flag :: "'n lval \<Rightarrow> string \<Rightarrow> bool" where
  "lua_flag v f = (case lua_getfield v f of LNil \<Rightarrow> False | LBool b \<Rightarrow> b | _ \<Rightarrow> True)"

text \<open>\<open>keepsum\<close>, \<open>badsum\<close>, \<open>ip6_preserve_next\<close>, \<open>ip6_last_proto\<close>.\<close>

definition lua_reconstruct_extract_options :: "'n lua_api \<Rightarrow> 'n lval option \<Rightarrow> (bool \<times> bool \<times> bool \<times> u8) option" where
  "lua_reconstruct_extract_options A v =
     (case v of
        None \<Rightarrow> Some (False, False, False, IPPROTO_NONE)
      | Some LNil \<Rightarrow> Some (False, False, False, IPPROTO_NONE)
      | Some (LTable t) \<Rightarrow>
          Some (lua_flag (LTable t) ''keepsum'', lua_flag (LTable t) ''badsum'', lua_flag (LTable t) ''ip6_preserve_next'',
            if lua_isnil (lua_getfield (LTable t) ''ip6_last_proto'') then IPPROTO_NONE else get8 A (LTable t) ''ip6_last_proto'')
      | _ \<Rightarrow> None)"

definition lua_arg :: "'n lval list \<Rightarrow> nat \<Rightarrow> 'n lval option" where
  "lua_arg args i = (if i < length args then Some (args ! i) else None)"

definition RECONSTRUCT_MAX :: nat where "RECONSTRUCT_MAX = 65536"

definition luacall_reconstruct_dissect :: "'n lua_api \<Rightarrow> u32 \<Rightarrow> nat \<Rightarrow> 'n lval list \<Rightarrow> 'n lval option option" where
  "luacall_reconstruct_dissect A rnd addr args =
     (case do { _ \<leftarrow> lua_check_argc_range args 1 2; lua_reconstruct_extract_options A (lua_arg args 1) } of
        None \<Rightarrow> Some None
      | Some (ks, bs, pn, nxp) \<Rightarrow> lua_pushed (lua_reconstruct_dissect A rnd addr RECONSTRUCT_MAX ks bs nxp pn (args ! 0)))"

definition luacall_reconstruct_ip6hdr :: "'n lua_api \<Rightarrow> 'n lval list \<Rightarrow> 'n lval option option" where
  "luacall_reconstruct_ip6hdr A args =
     (case do { _ \<leftarrow> lua_check_argc_range args 1 2; lua_reconstruct_extract_options A (lua_arg args 1) } of
        None \<Rightarrow> Some None
      | Some (ks, bs, pn, nxp) \<Rightarrow> lua_pushed (Some (lua_reconstruct_ip6hdr A 512 (args ! 0) nxp pn)))"

definition luacall_reconstruct_iphdr :: "'n lua_api \<Rightarrow> nat \<Rightarrow> 'n lval list \<Rightarrow> 'n lval option option" where
  "luacall_reconstruct_iphdr A addr args =
     (case lua_check_argc args 1 of None \<Rightarrow> Some None | Some _ \<Rightarrow> lua_pushed (lua_reconstruct_iphdr A addr 60 (args ! 0)))"

definition luacall_reconstruct_tcphdr :: "'n lua_api \<Rightarrow> 'n lval list \<Rightarrow> 'n lval option option" where
  "luacall_reconstruct_tcphdr A args =
     (case lua_check_argc args 1 of None \<Rightarrow> Some None | Some _ \<Rightarrow> lua_pushed (Some (lua_reconstruct_tcphdr A 60 (args ! 0))))"

definition luacall_reconstruct_udphdr :: "'n lua_api \<Rightarrow> 'n lval list \<Rightarrow> 'n lval option option" where
  "luacall_reconstruct_udphdr A args =
     (case lua_check_argc args 1 of None \<Rightarrow> Some None | Some _ \<Rightarrow> lua_pushed (lua_reconstruct_udphdr A 8 (args ! 0)))"

definition luacall_reconstruct_icmphdr :: "'n lua_api \<Rightarrow> 'n lval list \<Rightarrow> 'n lval option option" where
  "luacall_reconstruct_icmphdr A args =
     (case lua_check_argc args 1 of None \<Rightarrow> Some None | Some _ \<Rightarrow> lua_pushed (lua_reconstruct_icmphdr A 8 (args ! 0)))"

definition lua_toboolean :: "'n lval \<Rightarrow> bool" where
  "lua_toboolean v = (case v of LNil \<Rightarrow> False | LBool b \<Rightarrow> b | _ \<Rightarrow> True)"

definition luacall_dissect :: "'n lua_api \<Rightarrow> 'n lval list \<Rightarrow> 'n lval option option" where
  "luacall_dissect A args =
     (case do { _ \<leftarrow> lua_check_argc_range args 1 2; lua_reqlstring (args ! 0) } of
        None \<Rightarrow> Some None
      | Some d \<Rightarrow> do {
          dis \<leftarrow> proto_dissect_l3l4 d (length d) (2 \<le> length args \<and> lua_toboolean (args ! 1));
          v \<leftarrow> lua_push_dissect A dis;
          Some (Some v) })"

text \<open>A header alone; \<open>push\<close> is given the string.\<close>

definition lua_dissect_hdr :: "(bytes \<Rightarrow> nat option \<Rightarrow> nat \<Rightarrow> 'n lval option) \<Rightarrow> 'n lval list \<Rightarrow> 'n lval option option" where
  "lua_dissect_hdr push args =
     (case do { _ \<leftarrow> lua_check_argc args 1; lua_reqlstring (args ! 0) } of
        None \<Rightarrow> Some None
      | Some d \<Rightarrow> map_option Some (push d (Some 0) (length d)))"

definition luacall_dissect_tcphdr :: "'n lua_api \<Rightarrow> 'n lval list \<Rightarrow> 'n lval option option" where
  "luacall_dissect_tcphdr A = lua_dissect_hdr (lua_push_tcphdr A)"

definition luacall_dissect_udphdr :: "'n lua_api \<Rightarrow> 'n lval list \<Rightarrow> 'n lval option option" where
  "luacall_dissect_udphdr A = lua_dissect_hdr (lua_push_udphdr A)"

definition luacall_dissect_icmphdr :: "'n lua_api \<Rightarrow> 'n lval list \<Rightarrow> 'n lval option option" where
  "luacall_dissect_icmphdr A = lua_dissect_hdr (lua_push_icmphdr A)"

definition luacall_dissect_iphdr :: "'n lua_api \<Rightarrow> 'n lval list \<Rightarrow> 'n lval option option" where
  "luacall_dissect_iphdr A = lua_dissect_hdr (lua_push_iphdr A)"

definition luacall_dissect_ip6hdr :: "'n lua_api \<Rightarrow> 'n lval list \<Rightarrow> 'n lval option option" where
  "luacall_dissect_ip6hdr A = lua_dissect_hdr (lua_push_ip6hdr A)"

definition luacall_csum_ip4_fix :: "'n lua_api \<Rightarrow> nat \<Rightarrow> 'n lval list \<Rightarrow> 'n lval option option" where
  "luacall_csum_ip4_fix A addr args =
     (case do { _ \<leftarrow> lua_check_argc args 1; lua_reqlstring (args ! 0) } of
        None \<Rightarrow> Some None
      | Some d \<Rightarrow> do {
          b \<leftarrow> cor (Some (length d > 60)) (map_option Not (proto_check_ipv4 d 0 (length d)));
          (if b then Some None else do { h \<leftarrow> ip4_fix_checksum addr d; Some (Some (LStr h)) }) })"

text \<open>
  The other three take the network header, the transport header and the payload, and give the transport header with its
  checksum; \<open>chk\<close> tests the transport header.
\<close>

definition l4_csum_fix :: "(bytes \<Rightarrow> bool option) \<Rightarrow> (bytes \<Rightarrow> ip_addrs \<Rightarrow> bytes option) \<Rightarrow> 'n lval list \<Rightarrow> 'n lval option option" where
  "l4_csum_fix chk fix' args =
     (case do { _ \<leftarrow> lua_check_argc args 3; lua_reqlstring (args ! 0) } of
        None \<Rightarrow> Some None
      | Some ip \<Rightarrow> do {
          v4 \<leftarrow> proto_check_ipv4 ip 0 (length ip);
          v6 \<leftarrow> proto_check_ipv6 ip 0 (length ip);
          (if \<not> v4 \<and> \<not> v6 then Some None
           else do {
             a \<leftarrow> l3_addrs v4 ip;
             (case lua_reqlstring (args ! 1) of
                None \<Rightarrow> Some None
              | Some h \<Rightarrow> do {
                  ok \<leftarrow> chk h;
                  (if \<not> ok then Some None
                   else (case lua_reqlstring (args ! 2) of
                       None \<Rightarrow> Some None
                     | Some p \<Rightarrow>
                         if length p > 0xFFFF then Some None
                         else do { seg \<leftarrow> fix' (h @ p) a; Some (Some (LStr (take (length h) seg))) })) }) }) })"

definition luacall_csum_tcp_fix :: "nat \<Rightarrow> 'n lval list \<Rightarrow> 'n lval option option" where
  "luacall_csum_tcp_fix addr =
     l4_csum_fix (\<lambda>h. proto_check_tcp h 0 (length h)) (\<lambda>seg. tcp_fix_checksum addr seg (length seg))"

definition luacall_csum_udp_fix :: "nat \<Rightarrow> 'n lval list \<Rightarrow> 'n lval option option" where
  "luacall_csum_udp_fix addr =
     l4_csum_fix (\<lambda>h. Some (proto_check_udp (length h))) (\<lambda>seg. udp_fix_checksum addr seg (length seg))"

definition luacall_csum_icmp_fix :: "nat \<Rightarrow> 'n lval list \<Rightarrow> 'n lval option option" where
  "luacall_csum_icmp_fix addr =
     l4_csum_fix (\<lambda>h. Some (proto_check_icmp (length h)))
       (\<lambda>seg a. icmp_fix_checksum addr seg (length seg) (case a of Addrs6 s t \<Rightarrow> Some (s, t) | _ \<Rightarrow> None))"

end
