(* ===== verification/Desync.thy ===== *)
theory Desync
  imports Profile Conntrack LuaPacket
begin

text \<open>
  \<open>desync\<close> of src/nfq2/desync.c: which Lua functions of a profile run for a packet and what becomes of it. The positions
  and ranges a function is limited to, the cutoff of a connection all functions are done with, the calls and the
  aggregation of their verdicts.

  The Lua machine is not under src/. It is a state of a type \<open>'l\<close> and the operations the code uses of it; what a Lua
  function does besides returning, such as sending packets, happens in that state.
\<close>

subsection \<open>Positions and ranges\<close>

definition pos_overflow :: "ctrack_position option \<Rightarrow> u8 \<Rightarrow> bool" where
  "pos_overflow ps mode \<longleftrightarrow> (mode = ch (CHR ''s'') \<or> mode = ch (CHR ''p''))
     \<and> (case ps of None \<Rightarrow> False | Some q \<Rightarrow> rseq_over_2G q)"

definition pos_get :: "ctrack_position option \<Rightarrow> u8 \<Rightarrow> u64" where
  "pos_get ps mode =
     (case ps of None \<Rightarrow> 0
      | Some q \<Rightarrow>
          if mode = ch (CHR ''n'') then pcounter q
          else if mode = ch (CHR ''d'') then pdcounter q
          else if mode = ch (CHR ''s'') then ucast (seq_last q - seq0 q)
          else if mode = ch (CHR ''p'') then ucast (t_pos q - seq0 q)
          else if mode = ch (CHR ''b'') then pbcounter q
          else 0)"

definition check_pos_from :: "ctrack_position option \<Rightarrow> packet_range \<Rightarrow> bool" where
  "check_pos_from ps rng =
     (let m = pp_mode (pr_from rng) in
      if m = ch (CHR ''x'') \<or> pos_overflow ps m then False
      else if m \<noteq> ch (CHR ''a'') then
        (if ps \<noteq> None then pos_get ps m \<ge> ucast (pp_pos (pr_from rng)) else False)
      else True)"

definition check_pos_to :: "ctrack_position option \<Rightarrow> packet_range \<Rightarrow> bool" where
  "check_pos_to ps rng =
     (let m = pp_mode (pr_to rng) in
      if m = ch (CHR ''x'') \<or> pos_overflow ps m then False
      else if m \<noteq> ch (CHR ''a'') then
        (if ps \<noteq> None then
           pos_get ps m < ucast (pp_pos (pr_to rng)) \<or> (\<not> pr_upper_cutoff rng \<and> pos_get ps m = ucast (pp_pos (pr_to rng)))
         else False)
      else True)"

definition check_pos_cutoff :: "ctrack_position option \<Rightarrow> packet_range \<Rightarrow> bool" where
  "check_pos_cutoff ps rng =
     (let bto = check_pos_to ps rng in if ps \<noteq> None then \<not> bto else \<not> bto \<or> \<not> check_pos_from ps rng)"

definition check_pos_range :: "ctrack_position option \<Rightarrow> packet_range \<Rightarrow> bool" where
  "check_pos_range ps rng \<longleftrightarrow> check_pos_from ps rng \<and> check_pos_to ps rng"

subsection \<open>The Lua machine\<close>

datatype lua_value = LuaInteger u64 | LuaOther

datatype lua_outcome = LuaError | LuaReturns "lua_value list"

text \<open>The maximal segment size offered to the functions: none for a packet that is not TCP, the default, or a number.\<close>

datatype mss_arg = NoMss | DefaultMss | Mss u16

text \<open>The table all functions of a packet share.\<close>

record desync_arg =
  da_dis :: dissect
  da_ctrack :: "ctrack option"
  da_tpos :: "ctrack_positions option"
  da_incoming :: bool
  da_profile_n :: u32
  da_profile_name :: "bytes option"
  da_cookie :: "bytes option"
  da_ifin :: bytes
  da_ifout :: bytes
  da_fwmark :: u32
  da_port :: "u16 option"
  da_ip :: "bytes option"
  da_ip6 :: "bytes option"
  da_replay :: "(nat \<times> nat \<times> bool) option"
  da_l7payload :: t_l7payload
  da_l7proto :: t_l7proto
  da_reasm_offset :: nat
  da_reasm_data :: "bytes option"
  da_decrypt_data :: "bytes option"
  da_mss :: mss_arg

text \<open>
  \<open>lua_cutoff\<close>: the entry of the connection's cutoff table for an instance, a profile and a direction. \<open>lua_newarg\<close>:
  building the table. \<open>lua_isfunction\<close>: the global of that name. \<open>lua_call\<close>: the protected call of a function with its
  number and instance, the cancel flag it leaves, the directions (in, out) for which it asked \<open>lua_cutoff\<close>, and the next
  state. \<open>lua_numbers\<close>: the numbers of the machine (theory LuaVal). \<open>lua_table\<close>: the field \<open>dis\<close> of the table as the
  functions have left it. A function may also feed packets to the connection table (\<open>conntrack_feed\<close>); that one is
  left out.
\<close>

record ('l, 'n) lua =
  lua_cutoff :: "'l \<Rightarrow> int \<Rightarrow> bytes \<Rightarrow> u32 \<Rightarrow> bool \<Rightarrow> bool"
  lua_newarg :: "'l \<Rightarrow> desync_arg \<Rightarrow> 'l"
  lua_isfunction :: "'l \<Rightarrow> bytes \<Rightarrow> bool"
  lua_call :: "'l \<Rightarrow> func_list \<Rightarrow> nat \<Rightarrow> bytes \<Rightarrow> lua_outcome \<times> bool \<times> (bool \<times> bool) \<times> 'l"
  lua_numbers :: "'n lua_api"
  lua_table :: "'l \<Rightarrow> 'n lval"

text \<open>\<open>desync_instance\<close> prints into 256 bytes.\<close>

definition desync_instance :: "bytes \<Rightarrow> u32 \<Rightarrow> nat \<Rightarrow> bytes" where
  "desync_instance f pn func_n = take 255 (f @ lit ''_'' @ dec_str (unat pn) @ lit ''_'' @ dec_str func_n)"

definition lua_instance_cutoff_check :: "('l, 'n) lua \<Rightarrow> 'l \<Rightarrow> ctrack option \<Rightarrow> bytes \<Rightarrow> u32 \<Rightarrow> bool \<Rightarrow> bool" where
  "lua_instance_cutoff_check L s t inst n incoming =
     (case t of None \<Rightarrow> False | Some t \<Rightarrow> lua_cutoff L s (lua_instance_cutoff t) inst n incoming)"

text \<open>\<open>lua_cutoff\<close> called from a function: the connection gives up on the directions, and never takes that back.\<close>

definition luacall_lua_cutoff :: "bool \<times> bool \<Rightarrow> ctrack option \<Rightarrow> ctrack option" where
  "luacall_lua_cutoff = (\<lambda>(bIn, bOut). map_option (\<lambda>t.
     let t = (if bIn then t\<lparr>b_lua_in_cutoff := True\<rparr> else t) in if bOut then t\<lparr>b_lua_out_cutoff := True\<rparr> else t))"

definition VERDICT_MASK_VALID_LUA :: u64 where
  "VERDICT_MASK_VALID_LUA = 7"

definition desync_get_result :: "lua_value list \<Rightarrow> u8 option" where
  "desync_get_result vs =
     (case vs of
        [] \<Rightarrow> Some VERDICT_PASS
      | [LuaInteger v] \<Rightarrow> if v AND NOT VERDICT_MASK_VALID_LUA \<noteq> 0 then None else Some (ucast v)
      | _ \<Rightarrow> None)"

subsection \<open>The run over the functions of a profile\<close>

definition func_range :: "bool \<Rightarrow> func_list \<Rightarrow> packet_range" where
  "func_range incoming f = (if incoming then fl_range_in f else fl_range_out f)"

text \<open>The first walk: whether all functions are cut off, and whether none wants the payload.\<close>

fun cutoff_loop :: "('l, 'n) lua \<Rightarrow> 'l \<Rightarrow> desync_profile \<Rightarrow> ctrack option \<Rightarrow> bool \<Rightarrow> ctrack_position option \<Rightarrow> t_l7payload \<Rightarrow>
    nat \<Rightarrow> func_list list \<Rightarrow> bool \<Rightarrow> bool \<Rightarrow> bool \<times> bool" where
  "cutoff_loop L s p t incoming ps l7p n [] ca up = (ca, up)"
| "cutoff_loop L s p t incoming ps l7p n (f # fs) ca up =
     (let inst = desync_instance (fl_func f) (dp_n p) n;
          up = (if up then \<not> l7_payload_match l7p (fl_payload_type f) else up);
          ca = (if ca then lua_instance_cutoff_check L s t inst (dp_n p) incoming \<or> check_pos_cutoff ps (func_range incoming f)
                else ca)
      in cutoff_loop L s p t incoming ps l7p (n + 1) fs ca up)"

text \<open>The second walk: the verdict so far, \<open>None\<close> after an error, the connection and the state of the machine.\<close>

fun call_loop :: "('l, 'n) lua \<Rightarrow> desync_profile \<Rightarrow> bool \<Rightarrow> ctrack_position option \<Rightarrow> t_l7payload \<Rightarrow>
    nat \<Rightarrow> func_list list \<Rightarrow> u8 \<Rightarrow> ctrack option \<Rightarrow> 'l \<Rightarrow> u8 option \<times> ctrack option \<times> 'l" where
  "call_loop L p incoming ps l7p n [] v t s = (Some v, t, s)"
| "call_loop L p incoming ps l7p n (f # fs) v t s =
     (let inst = desync_instance (fl_func f) (dp_n p) n in
      if \<not> lua_instance_cutoff_check L s t inst (dp_n p) incoming \<and> check_pos_range ps (func_range incoming f)
         \<and> l7_payload_match l7p (fl_payload_type f)
      then (if \<not> lua_isfunction L s (fl_func f) then (None, t, s)
            else (case lua_call L s f n inst of
                (r, cancel, cf, s) \<Rightarrow>
                  (let t = luacall_lua_cutoff cf t
                   in (case r of LuaError \<Rightarrow> (None, t, s)
                     | LuaReturns vs \<Rightarrow>
                         (case desync_get_result vs of None \<Rightarrow> (None, t, s)
                          | Some vf \<Rightarrow>
                              (let v = verdict_aggregate v vf
                               in if cancel then (Some v, t, s) else call_loop L p incoming ps l7p (n + 1) fs v t s))))))
      else call_loop L p incoming ps l7p (n + 1) fs v t s)"

text \<open>What a packet is tampered with: the parameters of \<open>desync\<close> that only go into the table or choose the direction.\<close>

record desync_ctx =
  dc_fwmark :: u32
  dc_ifin :: bytes
  dc_ifout :: bytes
  dc_incoming :: bool
  dc_server :: bool
  dc_l7payload :: t_l7payload
  dc_l7proto :: t_l7proto
  dc_dis :: dissect
  dc_ip :: "bytes option"
  dc_ip6 :: "bytes option"
  dc_port :: u16
  dc_piece :: nat
  dc_count :: nat
  dc_offset :: nat
  dc_reasm :: "bytes option"
  dc_decrypt :: "bytes option"

definition desync_mss :: "dissect \<Rightarrow> ctrack_position option \<Rightarrow> ctrack_position option \<Rightarrow> mss_arg" where
  "desync_mss dis ps rps =
     (if d_tcp dis = None then NoMss
      else (case (ps, rps) of
          (Some q, Some r) \<Rightarrow> if t_mss q \<noteq> 0 \<and> t_mss r \<noteq> 0 then Mss (if t_mss r > t_mss q then t_mss q else t_mss r) else DefaultMss
        | _ \<Rightarrow> DefaultMss))"

definition desync_table :: "desync_profile \<Rightarrow> ctrack option \<Rightarrow> ctrack_positions option \<Rightarrow> ctrack_position option \<Rightarrow>
    ctrack_position option \<Rightarrow> desync_ctx \<Rightarrow> desync_arg" where
  "desync_table p t tpos ps rps c =
     \<lparr>da_dis = dc_dis c, da_ctrack = t, da_tpos = tpos, da_incoming = dc_incoming c, da_profile_n = dp_n p,
      da_profile_name = dp_name p, da_cookie = dp_cookie p, da_ifin = dc_ifin c, da_ifout = dc_ifout c,
      da_fwmark = dc_fwmark c, da_port = (if dc_port c \<noteq> 0 then Some (dc_port c) else None), da_ip = dc_ip c, da_ip6 = dc_ip6 c,
      da_replay = (if dc_count c \<noteq> 0 then Some (dc_piece c + 1, dc_count c, dc_piece c + 1 \<ge> dc_count c) else None),
      da_l7payload = dc_l7payload c, da_l7proto = dc_l7proto c, da_reasm_offset = dc_offset c,
      da_reasm_data = dc_reasm c, da_decrypt_data = dc_decrypt c, da_mss = desync_mss (dc_dis c) ps rps\<rparr>"

text \<open>
  A modified packet is rebuilt from the table into the buffer of \<open>cap\<close> bytes at \<open>addr\<close>: \<open>Some None\<close> if there is no
  table or it makes no packet. This call is not protected: an error it raises ends the program, which is \<open>None\<close> like a
  write outside the buffer.
\<close>

definition desync_rebuild :: "('l, 'n) lua \<Rightarrow> 'l \<Rightarrow> nat \<Rightarrow> nat \<Rightarrow> bool \<Rightarrow> bytes option option" where
  "desync_rebuild L s addr cap pn =
     (case lua_table L s of
        LTable d \<Rightarrow>
          (case lua_reconstruct_dissect (lua_numbers L) 0 addr cap False False IPPROTO_NONE pn (LTable d) of
             None \<Rightarrow> None
           | Some LRaise \<Rightarrow> None
           | Some LFail \<Rightarrow> Some None
           | Some (LOk m) \<Rightarrow> Some (Some m))
      | _ \<Rightarrow> Some None)"

text \<open>The end of \<open>desync\<close>; an error passes the packet.\<close>

definition desync_finish :: "('l, 'n) lua \<Rightarrow> nat \<Rightarrow> nat \<Rightarrow> u8 option \<times> ctrack option \<times> 'l \<Rightarrow>
    (u8 \<times> bytes option \<times> ctrack option \<times> 'l) option" where
  "desync_finish L addr cap = (\<lambda>(v, t, s).
     (case v of None \<Rightarrow> Some (VERDICT_PASS, None, t, s)
      | Some v \<Rightarrow>
          if v AND VERDICT_MASK = VERDICT_MODIFY then
            (case desync_rebuild L s addr cap (v AND VERDICT_PRESERVE_NEXT \<noteq> 0) of
               None \<Rightarrow> None
             | Some None \<Rightarrow> Some (VERDICT_PASS, None, t, s)
             | Some (Some m) \<Rightarrow> Some (v OR VERDICT_NOCSUM, Some m, t, s))
          else Some (v, None, t, s)))"

text \<open>The verdict, the rebuilt packet if there is one, the connection and the state of the machine.\<close>

definition desync :: "('l, 'n) lua \<Rightarrow> desync_profile \<Rightarrow> ctrack option \<Rightarrow> ctrack_positions option \<Rightarrow> desync_ctx \<Rightarrow> nat \<Rightarrow> nat \<Rightarrow> 'l \<Rightarrow>
    (u8 \<times> bytes option \<times> ctrack option \<times> 'l) option" where
  "desync L p t tpos c addr cap s =
     (if (case t of Some t \<Rightarrow> (dc_incoming c \<and> b_lua_in_cutoff t) \<or> (\<not> dc_incoming c \<and> b_lua_out_cutoff t) | None \<Rightarrow> False)
      then Some (VERDICT_PASS, None, t, s)
      else
        let tpos = (case (t, tpos) of (Some t, None) \<Rightarrow> Some (pos t) | _ \<Rightarrow> tpos);
            srv = (dc_incoming c \<noteq> dc_server c);
            ps = map_option (if srv then server else client) tpos;
            rps = map_option (if srv then client else server) tpos
        in if lua_desync p = [] then Some (VERDICT_PASS, None, t, s)
        else
          let (ca, up) = cutoff_loop L s p t (dc_incoming c) ps (dc_l7payload c) 1 (lua_desync p) True True
          in if ca then
               Some (VERDICT_PASS, None,
                map_option (\<lambda>t. if dc_incoming c then t\<lparr>b_lua_in_cutoff := True\<rparr> else t\<lparr>b_lua_out_cutoff := True\<rparr>) t, s)
             else if up then Some (VERDICT_PASS, None, t, s)
             else
               let s = lua_newarg L s (desync_table p t tpos ps rps c)
               in desync_finish L addr cap (call_loop L p (dc_incoming c) ps (dc_l7payload c) 1 (lua_desync p) VERDICT_PASS t s))"

definition dp_changed :: "ctrack option \<Rightarrow> ctrack option" where
  "dp_changed t = map_option (\<lambda>t. t\<lparr>b_lua_in_cutoff := False, b_lua_out_cutoff := False\<rparr>) t"

subsection \<open>Verdicts\<close>

text \<open>The strongest of the actions: a drop, else a modification, else a pass.\<close>

definition strongest :: "u8 list \<Rightarrow> u8" where
  "strongest vs = (if \<exists>v\<in>set vs. v AND VERDICT_MASK = VERDICT_DROP then VERDICT_DROP
     else if \<exists>v\<in>set vs. v AND VERDICT_MASK = VERDICT_MODIFY then VERDICT_MODIFY else VERDICT_PASS)"

lemma verdict_values: "VERDICT_PASS \<noteq> VERDICT_MODIFY" "VERDICT_PASS \<noteq> VERDICT_DROP" "VERDICT_MODIFY \<noteq> VERDICT_DROP"
  "VERDICT_PASS AND VERDICT_MASK = VERDICT_PASS"
  by (simp_all add: VERDICT_PASS_def VERDICT_MODIFY_def VERDICT_DROP_def VERDICT_MASK_def)

lemma verdict_fold_action:
  "a AND VERDICT_MASK = strongest ws \<Longrightarrow> foldl verdict_aggregate a vs AND VERDICT_MASK = strongest (ws @ vs)"
proof (induction vs arbitrary: a ws)
  case (Cons v vs)
  have "verdict_aggregate a v AND VERDICT_MASK = strongest (ws @ [v])"
    unfolding verdict_bits Cons.prems using verdict_values by (auto simp: strongest_def)
  from Cons.IH[OF this] show ?case by simp
qed simp

lemma verdict_fold: "foldl verdict_aggregate VERDICT_PASS vs AND VERDICT_MASK = strongest vs"
  using verdict_fold_action[of VERDICT_PASS "[]" vs] by (simp add: verdict_values strongest_def)

subsection \<open>The functions that are called\<close>

text \<open>
  The promise of the run: the functions are called in their order; one that is cut off, out of its range or not
  interested in the payload is left out; the run ends early when a call fails or a function cancels it. \<open>vs\<close> are the
  verdicts of the calls and \<open>ok\<close> tells whether none failed.
\<close>

definition eligible :: "('l, 'n) lua \<Rightarrow> desync_profile \<Rightarrow> ctrack option \<Rightarrow> bool \<Rightarrow> ctrack_position option \<Rightarrow> t_l7payload \<Rightarrow>
    nat \<Rightarrow> func_list \<Rightarrow> 'l \<Rightarrow> bool" where
  "eligible L p t incoming ps l7p n f s \<longleftrightarrow>
     \<not> lua_instance_cutoff_check L s t (desync_instance (fl_func f) (dp_n p) n) (dp_n p) incoming
     \<and> check_pos_range ps (func_range incoming f) \<and> l7_payload_match l7p (fl_payload_type f)"

text \<open>A call gives a verdict and whether the rest is cancelled, or fails; in both cases the connection may be cut off.\<close>

definition called :: "('l, 'n) lua \<Rightarrow> desync_profile \<Rightarrow> nat \<Rightarrow> func_list \<Rightarrow> ctrack option \<Rightarrow> 'l \<Rightarrow> (u8 \<times> bool) option \<times> ctrack option \<times> 'l" where
  "called L p n f t s =
     (if \<not> lua_isfunction L s (fl_func f) then (None, t, s)
      else (case lua_call L s f n (desync_instance (fl_func f) (dp_n p) n) of
          (r, cancel, cf, s) \<Rightarrow>
            (case r of LuaError \<Rightarrow> None | LuaReturns vs \<Rightarrow> map_option (\<lambda>v. (v, cancel)) (desync_get_result vs),
             luacall_lua_cutoff cf t, s)))"

inductive runs :: "('l, 'n) lua \<Rightarrow> desync_profile \<Rightarrow> bool \<Rightarrow> ctrack_position option \<Rightarrow> t_l7payload \<Rightarrow>
    nat \<Rightarrow> func_list list \<Rightarrow> ctrack option \<times> 'l \<Rightarrow> u8 list \<Rightarrow> bool \<Rightarrow> ctrack option \<times> 'l \<Rightarrow> bool"
  for L :: "('l, 'n) lua" and p incoming ps l7p where
  runs_end: "runs L p incoming ps l7p n [] ts [] True ts"
| runs_skip: "\<not> eligible L p t incoming ps l7p n f s \<Longrightarrow> runs L p incoming ps l7p (n + 1) fs (t, s) vs ok e \<Longrightarrow>
    runs L p incoming ps l7p n (f # fs) (t, s) vs ok e"
| runs_fail: "eligible L p t incoming ps l7p n f s \<Longrightarrow> called L p n f t s = (None, e) \<Longrightarrow>
    runs L p incoming ps l7p n (f # fs) (t, s) [] False e"
| runs_cancel: "eligible L p t incoming ps l7p n f s \<Longrightarrow> called L p n f t s = (Some (v, True), e) \<Longrightarrow>
    runs L p incoming ps l7p n (f # fs) (t, s) [v] True e"
| runs_call: "eligible L p t incoming ps l7p n f s \<Longrightarrow> called L p n f t s = (Some (v, False), ts1) \<Longrightarrow>
    runs L p incoming ps l7p (n + 1) fs ts1 vs ok e \<Longrightarrow> runs L p incoming ps l7p n (f # fs) (t, s) (v # vs) ok e"

lemma call_loop_step:
  "call_loop L p incoming ps l7p n (f # fs) v t s =
     (if \<not> eligible L p t incoming ps l7p n f s then call_loop L p incoming ps l7p (n + 1) fs v t s
      else (case called L p n f t s of
          (None, ts) \<Rightarrow> (None, ts)
        | (Some (vf, True), ts) \<Rightarrow> (Some (verdict_aggregate v vf), ts)
        | (Some (vf, False), (t, s)) \<Rightarrow> call_loop L p incoming ps l7p (n + 1) fs (verdict_aggregate v vf) t s))"
  by (auto simp: eligible_def called_def Let_def split: prod.split lua_outcome.split option.split bool.split)

text \<open>The run of the code is the run that was promised, and there is always exactly one.\<close>

lemma call_loop_runs:
  "\<exists>vs ok e. runs L p incoming ps l7p n fs (t, s) vs ok e
     \<and> call_loop L p incoming ps l7p n fs v t s = (if ok then Some (foldl verdict_aggregate v vs) else None, e)"
proof (induction fs arbitrary: n v t s)
  case Nil
  show ?case by (intro exI[of _ "[]"] exI[of _ True] exI[of _ "(t, s)"]) (simp add: runs_end)
next
  case (Cons f fs)
  show ?case
  proof (cases "eligible L p t incoming ps l7p n f s")
    case False
    obtain vs ok e where "runs L p incoming ps l7p (n + 1) fs (t, s) vs ok e"
      "call_loop L p incoming ps l7p (n + 1) fs v t s = (if ok then Some (foldl verdict_aggregate v vs) else None, e)"
      using Cons.IH[of "n + 1" t s v] by blast
    with False show ?thesis unfolding call_loop_step
      by (intro exI[of _ vs] exI[of _ ok] exI[of _ e]) (simp add: runs_skip)
  next
    case True
    obtain r t1 s1 where c: "called L p n f t s = (r, t1, s1)" by (cases "called L p n f t s")
    show ?thesis
    proof (cases r)
      case None
      with True c show ?thesis unfolding call_loop_step
        by (intro exI[of _ "[]"] exI[of _ False] exI[of _ "(t1, s1)"]) (simp add: runs_fail)
    next
      case (Some x)
      obtain w cancel where x: "x = (w, cancel)" by (cases x)
      show ?thesis
      proof (cases cancel)
        case True
        with \<open>eligible L p t incoming ps l7p n f s\<close> c Some x show ?thesis unfolding call_loop_step
          by (intro exI[of _ "[w]"] exI[of _ True] exI[of _ "(t1, s1)"]) (simp add: runs_cancel)
      next
        case False
        obtain vs ok e where "runs L p incoming ps l7p (n + 1) fs (t1, s1) vs ok e"
          "call_loop L p incoming ps l7p (n + 1) fs (verdict_aggregate v w) t1 s1
             = (if ok then Some (foldl verdict_aggregate (verdict_aggregate v w) vs) else None, e)"
          using Cons.IH[of "n + 1" t1 s1 "verdict_aggregate v w"] by blast
        with \<open>eligible L p t incoming ps l7p n f s\<close> c Some x False show ?thesis unfolding call_loop_step
          by (intro exI[of _ "w # vs"] exI[of _ ok] exI[of _ e]) (simp add: runs_call)
      qed
    qed
  qed
qed

inductive_cases runs_ConsE: "runs L p incoming ps l7p n (f # fs) ts vs ok e"
inductive_cases runs_NilE: "runs L p incoming ps l7p n [] ts vs ok e"

lemma runs_unique:
  "runs L p incoming ps l7p n fs ts vs ok e \<Longrightarrow> runs L p incoming ps l7p n fs ts ws ok2 e2 \<Longrightarrow> vs = ws \<and> ok = ok2 \<and> e = e2"
proof (induction arbitrary: ws ok2 e2 rule: runs.induct)
  case (runs_end n ts)
  then show ?case by (rule runs_NilE) simp
next
  case (runs_skip t n f s fs vs ok e)
  have "runs L p incoming ps l7p (n + 1) fs (t, s) ws ok2 e2"
    using runs_skip.prems by (rule runs_ConsE) (use runs_skip.hyps(1) in simp_all)
  from runs_skip.IH[OF this] show ?case .
next
  case (runs_fail t n f s e fs)
  from runs_fail.prems show ?case by (rule runs_ConsE) (use runs_fail.hyps in simp_all)
next
  case (runs_cancel t n f s v e fs)
  from runs_cancel.prems show ?case by (rule runs_ConsE) (use runs_cancel.hyps in simp_all)
next
  case (runs_call t n f s v ts1 fs vs ok e)
  have "\<exists>us. ws = v # us \<and> runs L p incoming ps l7p (n + 1) fs ts1 us ok2 e2"
    using runs_call.prems by (rule runs_ConsE) (use runs_call.hyps(1,2) in simp_all)
  then obtain us where us: "ws = v # us" "runs L p incoming ps l7p (n + 1) fs ts1 us ok2 e2" by blast
  from runs_call.IH[OF us(2)] us(1) show ?case by simp
qed

text \<open>All a run does to the connection is to give up directions.\<close>

lemma cutoff_cutoff: "luacall_lua_cutoff d (luacall_lua_cutoff c t) = luacall_lua_cutoff (fst c \<or> fst d, snd c \<or> snd d) t"
  by (cases t) (auto simp: luacall_lua_cutoff_def Let_def split: prod.split)

lemma cutoff_none: "luacall_lua_cutoff (False, False) t = t"
  by (simp add: luacall_lua_cutoff_def option.map_ident)

lemma called_connection: "called L p n f t s = (r, t', s') \<Longrightarrow> \<exists>cf. t' = luacall_lua_cutoff cf t"
  using cutoff_none[of t, symmetric] by (fastforce simp: called_def split: if_splits prod.splits)

lemma runs_connection: "runs L p incoming ps l7p n fs ts vs ok e \<Longrightarrow> \<exists>cf. fst e = luacall_lua_cutoff cf (fst ts)"
proof (induction rule: runs.induct)
  case (runs_end n ts)
  show ?case by (rule exI[of _ "(False, False)"]) (simp add: cutoff_none)
next
  case (runs_call t n f s v ts1 fs vs ok e)
  obtain cf where "fst ts1 = luacall_lua_cutoff cf t"
    using called_connection[of L p n f t s "Some (v, False)" "fst ts1" "snd ts1"] runs_call.hyps by auto
  moreover obtain cf2 where "fst e = luacall_lua_cutoff cf2 (fst ts1)" using runs_call.IH by blast
  ultimately show ?case by (simp only: fst_conv cutoff_cutoff) blast
next
  case (runs_fail t n f s e fs)
  then show ?case using called_connection[of L p n f t s None "fst e" "snd e"] by simp
next
  case (runs_cancel t n f s v e fs)
  then show ?case using called_connection[of L p n f t s "Some (v, True)" "fst e" "snd e"] by simp
qed simp

subsection \<open>Cutoff\<close>

text \<open>Every function of the list is cut off: by itself, or because the packet is beyond its range.\<close>

definition all_cut :: "('l, 'n) lua \<Rightarrow> 'l \<Rightarrow> desync_profile \<Rightarrow> ctrack option \<Rightarrow> bool \<Rightarrow> ctrack_position option \<Rightarrow>
    nat \<Rightarrow> func_list list \<Rightarrow> bool" where
  "all_cut L s p t incoming ps n fs \<longleftrightarrow> (\<forall>i<length fs.
     lua_instance_cutoff_check L s t (desync_instance (fl_func (fs ! i)) (dp_n p) (n + i)) (dp_n p) incoming
     \<or> check_pos_cutoff ps (func_range incoming (fs ! i)))"

lemma all_cut_Cons:
  "all_cut L s p t incoming ps n (f # fs) \<longleftrightarrow>
     (lua_instance_cutoff_check L s t (desync_instance (fl_func f) (dp_n p) n) (dp_n p) incoming
       \<or> check_pos_cutoff ps (func_range incoming f)) \<and> all_cut L s p t incoming ps (n + 1) fs"
  unfolding all_cut_def by (auto simp: All_less_Suc2)

lemma cutoff_loop_exact:
  "cutoff_loop L s p t incoming ps l7p n fs ca up
     = (ca \<and> all_cut L s p t incoming ps n fs, up \<and> (\<forall>f\<in>set fs. \<not> l7_payload_match l7p (fl_payload_type f)))"
proof (induction fs arbitrary: n ca up)
  case Nil
  show ?case by (simp add: all_cut_def)
next
  case (Cons f fs)
  show ?case unfolding cutoff_loop.simps Let_def Cons.IH all_cut_Cons by auto
qed

text \<open>A range a position has left is left for good, as long as the count does not go back.\<close>

lemma check_pos_to_mono:
  assumes "check_pos_to (Some q') rng" and "pos_overflow (Some q) (pp_mode (pr_to rng)) \<longrightarrow> pos_overflow (Some q') (pp_mode (pr_to rng))"
    and "pos_get (Some q) (pp_mode (pr_to rng)) \<le> pos_get (Some q') (pp_mode (pr_to rng))"
  shows "check_pos_to (Some q) rng"
  using assms by (auto simp: check_pos_to_def Let_def split: if_splits)

subsection \<open>The whole run\<close>

text \<open>The position of the direction a packet runs in, and the one of the other direction.\<close>

definition desync_tpos :: "ctrack option \<Rightarrow> ctrack_positions option \<Rightarrow> ctrack_positions option" where
  "desync_tpos t tpos = (case (t, tpos) of (Some t, None) \<Rightarrow> Some (pos t) | _ \<Rightarrow> tpos)"

definition desync_pos :: "desync_ctx \<Rightarrow> ctrack_positions option \<Rightarrow> ctrack_position option" where
  "desync_pos c tpos = map_option (if dc_incoming c \<noteq> dc_server c then server else client) tpos"

definition desync_rpos :: "desync_ctx \<Rightarrow> ctrack_positions option \<Rightarrow> ctrack_position option" where
  "desync_rpos c tpos = map_option (if dc_incoming c \<noteq> dc_server c then client else server) tpos"

text \<open>The connection has given up on this direction.\<close>

definition given_up :: "bool \<Rightarrow> ctrack option \<Rightarrow> bool" where
  "given_up incoming t = (case t of None \<Rightarrow> False | Some t \<Rightarrow> if incoming then b_lua_in_cutoff t else b_lua_out_cutoff t)"

definition give_up :: "bool \<Rightarrow> ctrack option \<Rightarrow> ctrack option" where
  "give_up incoming t = map_option (\<lambda>t. if incoming then t\<lparr>b_lua_in_cutoff := True\<rparr> else t\<lparr>b_lua_out_cutoff := True\<rparr>) t"

lemma desync_given_up: "given_up (dc_incoming c) t \<Longrightarrow> desync L p t tpos c addr cap s = Some (VERDICT_PASS, None, t, s)"
  by (auto simp: desync_def given_up_def split: option.splits if_splits)

lemma desync_alive:
  assumes "\<not> given_up (dc_incoming c) t"
  shows "desync L p t tpos c addr cap s =
    (let tp = desync_tpos t tpos; ps = desync_pos c tp in
     if lua_desync p = [] then Some (VERDICT_PASS, None, t, s)
     else if all_cut L s p t (dc_incoming c) ps 1 (lua_desync p) then Some (VERDICT_PASS, None, give_up (dc_incoming c) t, s)
     else if \<forall>f\<in>set (lua_desync p). \<not> l7_payload_match (dc_l7payload c) (fl_payload_type f) then Some (VERDICT_PASS, None, t, s)
     else desync_finish L addr cap (call_loop L p (dc_incoming c) ps (dc_l7payload c) 1 (lua_desync p) VERDICT_PASS t
              (lua_newarg L s (desync_table p t tp ps (desync_rpos c tp) c))))"
proof -
  have "\<not> (case t of Some t \<Rightarrow> (dc_incoming c \<and> b_lua_in_cutoff t) \<or> (\<not> dc_incoming c \<and> b_lua_out_cutoff t) | None \<Rightarrow> False)"
    using assms by (auto simp: given_up_def split: option.splits)
  then show ?thesis
    unfolding desync_def desync_tpos_def[symmetric] Let_def cutoff_loop_exact desync_pos_def[symmetric] desync_rpos_def[symmetric]
      give_up_def by simp
qed

lemma preserve_bit: "verdict_aggregate v w AND VERDICT_PRESERVE_NEXT \<noteq> 0
    \<longleftrightarrow> v AND VERDICT_PRESERVE_NEXT \<noteq> 0 \<or> w AND VERDICT_PRESERVE_NEXT \<noteq> 0"
proof -
  have four: "x AND 4 \<noteq> 0 \<longleftrightarrow> bit x 2" for x :: u8
    by (metis and_exp_eq_0_iff_not_bit numeral_Bit0 power2_eq_square mult_2 numeral_One one_add_one)
  have b: "bit (3 :: u8) 2 = False" "bit (VERDICT_MODIFY) 2 = False" "bit (VERDICT_DROP) 2 = False" "bit (VERDICT_PASS) 2 = False"
    by (simp_all add: VERDICT_MODIFY_def VERDICT_DROP_def VERDICT_PASS_def)
  show ?thesis
    unfolding VERDICT_PRESERVE_NEXT_def four
    by (simp add: verdict_aggregate_def Let_def VERDICT_PRESERVE_NEXT_def VERDICT_MASK_def bit_simps b split: if_splits)
qed

lemma preserve_fold: "foldl verdict_aggregate a vs AND VERDICT_PRESERVE_NEXT \<noteq> 0
    \<longleftrightarrow> a AND VERDICT_PRESERVE_NEXT \<noteq> 0 \<or> (\<exists>v\<in>set vs. v AND VERDICT_PRESERVE_NEXT \<noteq> 0)"
proof (induction vs arbitrary: a)
  case (Cons v vs)
  show ?case unfolding foldl_Cons Cons.IH preserve_bit by auto
qed simp

lemma nocsum_or: "(v OR VERDICT_NOCSUM) AND VERDICT_MASK = v AND VERDICT_MASK" "(v OR VERDICT_NOCSUM) AND VERDICT_NOCSUM \<noteq> 0"
proof -
  have "VERDICT_NOCSUM AND VERDICT_MASK = 0" by (simp add: VERDICT_NOCSUM_def VERDICT_MASK_def)
  then show "(v OR VERDICT_NOCSUM) AND VERDICT_MASK = v AND VERDICT_MASK" by (simp add: bit.conj_disj_distrib2)
  have "(v OR VERDICT_NOCSUM) AND VERDICT_NOCSUM = VERDICT_NOCSUM" by (simp add: bit.disj_conj_distrib2 and.commute or.commute)
  then show "(v OR VERDICT_NOCSUM) AND VERDICT_NOCSUM \<noteq> 0" by (simp add: VERDICT_NOCSUM_def)
qed

subsection \<open>Properties\<close>

text \<open>C7: A packet of a profile that is not cut off gets the verdict of the functions that are called: the run is the
  promised one, and it is the only one. A failed call passes the packet unmodified. Otherwise the strongest action of the
  calls wins; a modification takes effect only if the packet can be rebuilt from the table the functions leave, keeps the
  next-header flag any function asked for and disables the checksum fix. All the functions do to the connection is to give up
  directions. Only a modification whose rebuilding raises an error or leaves the buffer gives no verdict.\<close>

theorem desync_runs:
  assumes "\<not> given_up (dc_incoming c) t"
    and "ps = desync_pos c (desync_tpos t tpos)"
    and "\<not> all_cut L s p t (dc_incoming c) ps 1 (lua_desync p)"
    and "\<exists>f\<in>set (lua_desync p). l7_payload_match (dc_l7payload c) (fl_payload_type f)"
    and "s0 = lua_newarg L s (desync_table p t (desync_tpos t tpos) ps (desync_rpos c (desync_tpos t tpos)) c)"
  shows "\<exists>vs ok t' s' v m cf. runs L p (dc_incoming c) ps (dc_l7payload c) 1 (lua_desync p) (t, s0) vs ok (t', s')
    \<and> (\<forall>ws ok2 e. runs L p (dc_incoming c) ps (dc_l7payload c) 1 (lua_desync p) (t, s0) ws ok2 e \<longrightarrow> vs = ws \<and> ok = ok2 \<and> (t', s') = e)
    \<and> desync L p t tpos c addr cap s =
        (if ok \<and> strongest vs = VERDICT_MODIFY
            \<and> desync_rebuild L s' addr cap (\<exists>w\<in>set vs. w AND VERDICT_PRESERVE_NEXT \<noteq> 0) = None
         then None else Some (v, m, t', s'))
    \<and> t' = luacall_lua_cutoff cf t
    \<and> (if \<not> ok then v = VERDICT_PASS \<and> m = None
       else if strongest vs = VERDICT_MODIFY then
         (case desync_rebuild L s' addr cap (\<exists>w\<in>set vs. w AND VERDICT_PRESERVE_NEXT \<noteq> 0) of
            Some (Some b) \<Rightarrow> v AND VERDICT_MASK = VERDICT_MODIFY \<and> v AND VERDICT_NOCSUM \<noteq> 0 \<and> m = Some b
          | _ \<Rightarrow> v = VERDICT_PASS \<and> m = None)
       else v AND VERDICT_MASK = strongest vs \<and> m = None)"
proof -
  let ?run = "runs L p (dc_incoming c) ps (dc_l7payload c) 1 (lua_desync p) (t, s0)"
  obtain vs ok t' s' where r: "?run vs ok (t', s')"
    "call_loop L p (dc_incoming c) ps (dc_l7payload c) 1 (lua_desync p) VERDICT_PASS t s0
       = (if ok then Some (foldl verdict_aggregate VERDICT_PASS vs) else None, t', s')"
    using call_loop_runs[of L p "dc_incoming c" ps "dc_l7payload c" 1 "lua_desync p" t s0 VERDICT_PASS] by (elim exE conjE) auto
  define w where "w = foldl verdict_aggregate VERDICT_PASS vs"
  have pw: "w AND VERDICT_PRESERVE_NEXT \<noteq> 0 \<longleftrightarrow> (\<exists>w\<in>set vs. w AND VERDICT_PRESERVE_NEXT \<noteq> 0)"
    unfolding w_def preserve_fold by (simp add: VERDICT_PASS_def)
  have aw: "w AND VERDICT_MASK = strongest vs" unfolding w_def by (rule verdict_fold)
  have ne: "lua_desync p \<noteq> []" using assms(4) by auto
  have no: "\<not> (\<forall>f\<in>set (lua_desync p). \<not> l7_payload_match (dc_l7payload c) (fl_payload_type f))" using assms(4) by blast
  have d: "desync L p t tpos c addr cap s = desync_finish L addr cap (if ok then Some w else None, t', s')"
    unfolding desync_alive[OF assms(1)] Let_def assms(2)[symmetric] if_not_P[OF ne] if_not_P[OF assms(3)] if_not_P[OF no]
      assms(5)[symmetric] r(2) w_def ..
  let ?reb = "desync_rebuild L s' addr cap (\<exists>w\<in>set vs. w AND VERDICT_PRESERVE_NEXT \<noteq> 0)"
  have "\<exists>v m. desync_finish L addr cap (if ok then Some w else None, t', s')
      = (if ok \<and> strongest vs = VERDICT_MODIFY \<and> ?reb = None then None else Some (v, m, t', s'))
    \<and> (if \<not> ok then v = VERDICT_PASS \<and> m = None
       else if strongest vs = VERDICT_MODIFY then
         (case ?reb of
            Some (Some b) \<Rightarrow> v AND VERDICT_MASK = VERDICT_MODIFY \<and> v AND VERDICT_NOCSUM \<noteq> 0 \<and> m = Some b
          | _ \<Rightarrow> v = VERDICT_PASS \<and> m = None)
       else v AND VERDICT_MASK = strongest vs \<and> m = None)"
  proof (cases ok)
    case True
    have f: "desync_finish L addr cap (Some w, t', s') = (if strongest vs = VERDICT_MODIFY then
        (case ?reb of None \<Rightarrow> None | Some None \<Rightarrow> Some (VERDICT_PASS, None, t', s')
         | Some (Some b) \<Rightarrow> Some (w OR VERDICT_NOCSUM, Some b, t', s')) else Some (w, None, t', s'))"
      unfolding desync_finish_def prod.case option.case aw pw ..
    show ?thesis
    proof (cases "strongest vs = VERDICT_MODIFY")
      case m: True
      show ?thesis
      proof (cases ?reb)
        case (Some x)
        then show ?thesis using True f m aw nocsum_or[of w] by (cases x) auto
      qed (use True f m in simp)
    qed (use True f aw in simp)
  qed (simp add: desync_finish_def)
  then obtain v m where f: "desync_finish L addr cap (if ok then Some w else None, t', s')
      = (if ok \<and> strongest vs = VERDICT_MODIFY \<and> ?reb = None then None else Some (v, m, t', s'))"
    "if \<not> ok then v = VERDICT_PASS \<and> m = None
       else if strongest vs = VERDICT_MODIFY then
         (case ?reb of
            Some (Some b) \<Rightarrow> v AND VERDICT_MASK = VERDICT_MODIFY \<and> v AND VERDICT_NOCSUM \<noteq> 0 \<and> m = Some b
          | _ \<Rightarrow> v = VERDICT_PASS \<and> m = None)
       else v AND VERDICT_MASK = strongest vs \<and> m = None"
    by (elim exE conjE) (rule that, assumption+)
  moreover note f[folded d]
  moreover have "\<forall>ws ok2 e. ?run ws ok2 e \<longrightarrow> vs = ws \<and> ok = ok2 \<and> (t', s') = e" using runs_unique[OF r(1)] by blast
  moreover obtain cf where "t' = luacall_lua_cutoff cf t" using runs_connection[OF r(1)] by auto
  ultimately show ?thesis using r(1)
    by (intro exI[of _ vs] exI[of _ ok] exI[of _ t'] exI[of _ s'] exI[of _ v] exI[of _ m] exI[of _ cf] conjI)
qed

definition sample_ctx :: desync_ctx where
  "sample_ctx = \<lparr>dc_fwmark = 0, dc_ifin = [], dc_ifout = [], dc_incoming = False, dc_server = False, dc_l7payload = L7P_UNKNOWN,
     dc_l7proto = L7_UNKNOWN, dc_dis = dissect_init [] 0, dc_ip = None, dc_ip6 = None, dc_port = 0, dc_piece = 0, dc_count = 0,
     dc_offset = 0, dc_reasm = None, dc_decrypt = None\<rparr>"

text \<open>A machine that counts its calls; every function drops.\<close>

definition sample_lua :: "(nat, int) lua" where
  "sample_lua = \<lparr>lua_cutoff = (\<lambda>s r i n b. False), lua_newarg = (\<lambda>s a. s), lua_isfunction = (\<lambda>s f. True),
     lua_call = (\<lambda>s f n i. (LuaReturns [LuaInteger 2], False, (False, False), Suc s)), lua_numbers = int_api,
     lua_table = (\<lambda>s. LTable [])\<rparr>"

definition sample_lua_profile :: desync_profile where
  "sample_lua_profile = dp_init\<lparr>lua_desync := [funclist_entry_alloc [102]]\<rparr>"

lemma sample_range: "check_pos_range ps PACKET_RANGE_ALWAYS" "\<not> check_pos_cutoff ps PACKET_RANGE_ALWAYS"
  by (simp_all add: check_pos_range_def check_pos_cutoff_def check_pos_from_def check_pos_to_def PACKET_RANGE_ALWAYS_def
      PACKET_POS_ALWAYS_def pos_overflow_def)

lemma desync_runs_witness:
  "\<exists>v. desync sample_lua sample_lua_profile None None sample_ctx 0 100 0 = Some (v, None, None, 1) \<and> v AND VERDICT_MASK = VERDICT_DROP"
proof -
  let ?f = "funclist_entry_alloc [102]"
  have nc: "\<not> all_cut sample_lua 0 sample_lua_profile None (dc_incoming sample_ctx) None 1 (lua_desync sample_lua_profile)"
    by (simp add: all_cut_def sample_lua_profile_def lua_instance_cutoff_check_def func_range_def sample_range funclist_entry_alloc_def)
  have lp: "\<exists>f\<in>set (lua_desync sample_lua_profile). l7_payload_match (dc_l7payload sample_ctx) (fl_payload_type f)"
    by (simp add: sample_lua_profile_def funclist_entry_alloc_def l7_payload_match_def)
  have ps: "None = desync_pos sample_ctx (desync_tpos None None)" by (simp add: desync_pos_def desync_tpos_def)
  have ng: "\<not> given_up (dc_incoming sample_ctx) None" by (simp add: given_up_def)
  have s0: "(0 :: nat) = lua_newarg sample_lua 0 (desync_table sample_lua_profile None (desync_tpos None None) None
      (desync_rpos sample_ctx (desync_tpos None None)) sample_ctx)" by (simp add: sample_lua_def)
  have el: "eligible sample_lua sample_lua_profile None (dc_incoming sample_ctx) None (dc_l7payload sample_ctx) 1 ?f 0"
    by (simp add: eligible_def lua_instance_cutoff_check_def func_range_def sample_range funclist_entry_alloc_def l7_payload_match_def)
  have ca: "called sample_lua sample_lua_profile 1 ?f None 0 = (Some (2, False), None, 1)"
    by (simp add: called_def sample_lua_def desync_get_result_def VERDICT_MASK_VALID_LUA_def luacall_lua_cutoff_def)
  have ru: "runs sample_lua sample_lua_profile (dc_incoming sample_ctx) None (dc_l7payload sample_ctx) 1
      (lua_desync sample_lua_profile) (None, 0) [2] True (None, 1)"
    unfolding sample_lua_profile_def using runs_call[OF el ca runs_end] by (simp add: sample_lua_profile_def)
  have st: "strongest [2] = VERDICT_DROP" by (simp add: strongest_def VERDICT_MASK_def VERDICT_DROP_def)
  from desync_runs[OF ng ps nc lp s0, of 0 100] ru st verdict_values(3) obtain v m where
    "desync sample_lua sample_lua_profile None None sample_ctx 0 100 0 = Some (v, m, None, 1)"
    "if strongest [2] = VERDICT_MODIFY then
         (case desync_rebuild sample_lua 1 0 100 (\<exists>w\<in>set [2]. w AND VERDICT_PRESERVE_NEXT \<noteq> 0) of
            Some (Some b) \<Rightarrow> v AND VERDICT_MASK = VERDICT_MODIFY \<and> v AND VERDICT_NOCSUM \<noteq> 0 \<and> m = Some b
          | _ \<Rightarrow> v = VERDICT_PASS \<and> m = None)
       else v AND VERDICT_MASK = strongest [2] \<and> m = None" by fastforce
  then show ?thesis using verdict_values st by auto
qed

text \<open>C25: Once every function of a profile is cut off for a packet, no function is called, the packet passes, and the
  connection gives up on that direction: every later packet of the direction passes without a call, whatever the profile,
  the positions and the machine are, until the profile changes.\<close>

theorem desync_cutoff:
  assumes "lua_desync p \<noteq> []" and "all_cut L s p (Some tr) (dc_incoming c) (desync_pos c (desync_tpos (Some tr) tpos)) 1 (lua_desync p)"
  shows "\<exists>t'. desync L p (Some tr) tpos c addr cap s = Some (VERDICT_PASS, None, t', s)
    \<and> (\<forall>L2 p2 tpos2 c2 addr2 cap2 s2. dc_incoming c2 = dc_incoming c \<longrightarrow>
         desync (L2 :: ('m, 'k) lua) p2 t' tpos2 c2 addr2 cap2 s2 = Some (VERDICT_PASS, None, t', s2))
    \<and> \<not> given_up (dc_incoming c) (dp_changed t')"
proof (cases "given_up (dc_incoming c) (Some tr)")
  case True
  show ?thesis
    by (intro exI[of _ "Some tr"] conjI allI impI)
       (use True in \<open>simp_all add: desync_given_up given_up_def dp_changed_def\<close>)
next
  case False
  have g: "given_up (dc_incoming c) (give_up (dc_incoming c) (Some tr))" by (simp add: given_up_def give_up_def)
  show ?thesis
    by (intro exI[of _ "give_up (dc_incoming c) (Some tr)"] conjI allI impI)
       (use assms g in \<open>simp_all add: desync_alive[OF False] Let_def desync_given_up given_up_def give_up_def dp_changed_def\<close>)
qed

lemma desync_cutoff_witness:
  "\<exists>t'. desync sample_lua (dp_init\<lparr>lua_desync := [(funclist_entry_alloc [102])\<lparr>fl_range_out := \<lparr>pr_from = PACKET_POS_ALWAYS,
      pr_to = PACKET_POS_NEVER, pr_upper_cutoff = False\<rparr>\<rparr>]\<rparr>) (Some (ConntrackInitTrack (0, 0))) None sample_ctx 0 100 0
     = Some (VERDICT_PASS, None, t', 0)"
proof -
  let ?p = "dp_init\<lparr>lua_desync := [(funclist_entry_alloc [102])\<lparr>fl_range_out := \<lparr>pr_from = PACKET_POS_ALWAYS,
      pr_to = PACKET_POS_NEVER, pr_upper_cutoff = False\<rparr>\<rparr>]\<rparr>"
  have "all_cut sample_lua 0 ?p (Some (ConntrackInitTrack (0, 0))) (dc_incoming sample_ctx)
     (desync_pos sample_ctx (desync_tpos (Some (ConntrackInitTrack (0, 0))) None)) 1 (lua_desync ?p)"
    by (simp add: all_cut_def func_range_def check_pos_cutoff_def check_pos_to_def Let_def PACKET_POS_NEVER_def sample_ctx_def)
  from desync_cutoff[OF _ this, of 0 100] show ?thesis by auto
qed

text \<open>C24: Giving up is justified: a function's range that a position is beyond, the position never enters again, as long
  as its count does not go back and an overflow of 2 GB is remembered.\<close>

theorem cutoff_permanent:
  assumes "check_pos_cutoff (Some q) rng"
    and "pos_overflow (Some q) (pp_mode (pr_to rng)) \<longrightarrow> pos_overflow (Some q') (pp_mode (pr_to rng))"
    and "pos_get (Some q) (pp_mode (pr_to rng)) \<le> pos_get (Some q') (pp_mode (pr_to rng))"
  shows "check_pos_cutoff (Some q') rng \<and> \<not> check_pos_range (Some q') rng"
proof -
  have "\<not> check_pos_to (Some q) rng" using assms(1) by (simp add: check_pos_cutoff_def Let_def)
  then have "\<not> check_pos_to (Some q') rng" using check_pos_to_mono[OF _ assms(2,3)] by blast
  then show ?thesis by (simp add: check_pos_cutoff_def check_pos_range_def Let_def)
qed

lemma cutoff_permanent_witness:
  "\<not> check_pos_range (Some (position_null\<lparr>pcounter := 12\<rparr>))
     \<lparr>pr_from = PACKET_POS_ALWAYS, pr_to = \<lparr>pp_mode = 110, pp_pos = 10\<rparr>, pr_upper_cutoff = False\<rparr>"
  by (rule conjunct2[OF cutoff_permanent[of "position_null\<lparr>pcounter := 11\<rparr>"]])
     (simp_all add: check_pos_cutoff_def check_pos_to_def pos_get_def pos_overflow_def Let_def)

end
