(* ===== verification/AutoHost.thy ===== *)
theory AutoHost
  imports Profile Conntrack
begin

text \<open>
  Automatic host lists: src/nfq2/desync.c learns from failed connections. Retransmissions of a request, resets and
  redirects of a first reply and unanswered UDP packets count as failures of the connection's host; a host that fails
  often enough is added to the automatic list of its profile, in memory and in its file. A success resets the count.

  The files are in the environment, which writing changes: \<open>wr_line\<close> is \<open>append_to_list_file\<close>.
\<close>

definition RETRANS_COUNTER_STOP :: u8 where "RETRANS_COUNTER_STOP = 255"

definition ctrack_stop_retrans_counter :: "ctrack \<Rightarrow> ctrack" where
  "ctrack_stop_retrans_counter t = (if hostname_ah_check t then t\<lparr>req_retrans_counter := RETRANS_COUNTER_STOP\<rparr> else t)"

definition auto_hostlist_reset_fail_counter :: "desync_profile \<Rightarrow> bytes option \<Rightarrow> desync_profile" where
  "auto_hostlist_reset_fail_counter p host =
     (case host of None \<Rightarrow> p
      | Some h \<Rightarrow>
          (case HostFailPoolFind (fail_counters p) h of None \<Rightarrow> p
           | Some e \<Rightarrow> p\<lparr>fail_counters := HostFailPoolDel (fail_counters p) h\<rparr>))"

definition is_retransmission :: "ctrack_position \<Rightarrow> bool" where
  "is_retransmission q \<longleftrightarrow> (uppos_prev q - t_pos q) AND 0x80000000 = 0"

subsection \<open>The reset sent to a retransmitter\<close>

text \<open>\<open>tcp->th_off = 5\<close>, \<open>th_flags = TH_RST\<close>, and the window, which is stored as the host has it.\<close>

definition rst_tcp :: "bytes \<Rightarrow> u16 \<Rightarrow> bytes option" where
  "rst_tcp tcp win = do {
     tcp \<leftarrow> reverse_tcp tcp;
     b \<leftarrow> rd tcp 12;
     tcp \<leftarrow> wr tcp 12 ((b AND 0x0F) OR 0x50);
     tcp \<leftarrow> wr tcp 13 TH_RST;
     st16 tcp 14 win }"

definition rst_packet4 :: "nat \<Rightarrow> bytes \<Rightarrow> nat \<Rightarrow> nat \<Rightarrow> u16 \<Rightarrow> bytes option" where
  "rst_packet4 addr d i tcp win = do {
     ip \<leftarrow> rd_block d i 20;
     b \<leftarrow> rd ip 0;
     ip \<leftarrow> wr ip 0 ((b AND 0xF0) OR 5);
     ip \<leftarrow> phton16 ip 2 40;
     ip \<leftarrow> phton16 ip 4 0;
     th \<leftarrow> rd_block d tcp 20;
     ip \<leftarrow> reverse_ip4 addr ip;
     th \<leftarrow> rst_tcp th win;
     src \<leftarrow> ld32 ip 12;
     dst \<leftarrow> ld32 ip 16;
     th \<leftarrow> tcp_fix_checksum (addr + 20) th 20 (Addrs4 src dst);
     Some (ip @ th) }"

definition rst_packet6 :: "nat \<Rightarrow> bytes \<Rightarrow> nat \<Rightarrow> nat \<Rightarrow> u16 \<Rightarrow> u32 \<Rightarrow> bytes option" where
  "rst_packet6 addr d i tcp win flow = do {
     ip \<leftarrow> rd_block d i 40;
     ip \<leftarrow> phton16 ip 4 20;
     ip \<leftarrow> wr ip 6 IPPROTO_TCP;
     ip \<leftarrow> phton32 ip 0 (if flow \<noteq> 0 then flow else 0x60000000);
     th \<leftarrow> rd_block d tcp 20;
     ip \<leftarrow> reverse_ip6 ip;
     th \<leftarrow> rst_tcp th win;
     src \<leftarrow> rd_block ip 8 16;
     dst \<leftarrow> rd_block ip 24 16;
     th \<leftarrow> tcp_fix_checksum (addr + 40) th 20 (Addrs6 src dst);
     Some (ip @ th) }"

text \<open>The datagram, if one is sent; \<open>addr\<close> is the address of the buffer the packet is built in.\<close>

definition send_rst :: "nat \<Rightarrow> ctrack \<Rightarrow> desync_profile \<Rightarrow> dissect \<Rightarrow> sockaddr \<Rightarrow> bytes \<Rightarrow> datagram list option" where
  "send_rst addr t p dis cl ifclient =
     (case d_tcp dis of None \<Rightarrow> Some []
      | Some tcp \<Rightarrow>
          if \<not> retrans_reset p then Some []
          else (case (d_ip dis, d_ip6 dis) of
              (Some i, _) \<Rightarrow> do {
                pkt \<leftarrow> rst_packet4 addr (data_pkt dis) i tcp (winsize (server (pos t)));
                Some [(cl, 0, ifclient, pkt)] }
            | (None, Some i) \<Rightarrow> do {
                pkt \<leftarrow> rst_packet6 addr (data_pkt dis) i tcp (winsize (server (pos t))) (ip6flow (server (pos t)));
                Some [(cl, 0, ifclient, pkt)] }
            | (None, None) \<Rightarrow> Some []))"

subsection \<open>Retransmissions\<close>

text \<open>Whether the trigger fires, the connection, its profile and what is sent. The counter is 8 bits wide.\<close>

definition retrans_count :: "nat \<Rightarrow> ctrack \<Rightarrow> desync_profile \<Rightarrow> dissect \<Rightarrow> int \<Rightarrow> sockaddr \<Rightarrow> bytes \<Rightarrow>
    (bool \<times> ctrack \<times> desync_profile \<times> datagram list) option" where
  "retrans_count addr t p dis threshold cl ifclient =
     (let t = t\<lparr>req_retrans_counter := req_retrans_counter t + 1\<rparr> in
      if uint (req_retrans_counter t) \<ge> threshold then
        (let t = (ctrack_stop_retrans_counter t)\<lparr>failure_detect_finalized := True\<rparr>
         in do { sent \<leftarrow> send_rst addr t p dis cl ifclient; Some (True, t, p, sent) })
      else Some (False, t, p, []))"

definition auto_hostlist_retrans :: "nat \<Rightarrow> ctrack \<Rightarrow> desync_profile \<Rightarrow> dissect \<Rightarrow> int \<Rightarrow> sockaddr \<Rightarrow> bytes \<Rightarrow>
    (bool \<times> ctrack \<times> desync_profile \<times> datagram list) option" where
  "auto_hostlist_retrans addr t p dis threshold cl ifclient =
     (if hostname_ah_check t \<and> \<not> failure_detect_finalized t \<and> req_retrans_counter t \<noteq> RETRANS_COUNTER_STOP then
        (if d_proto dis = IPPROTO_TCP \<and> t_state (pos t) \<noteq> SYN then
           (let q = client (pos t) in
            if \<not> seq_within (seq_last q) (seq0 q) (seq0 q + retrans_maxseq p) then
              Some (False, ctrack_stop_retrans_counter (t\<lparr>failure_detect_finalized := True\<rparr>),
                    auto_hostlist_reset_fail_counter p (hostname t), [])
            else if \<not> is_retransmission q then Some (False, t, p, [])
            else retrans_count addr t p dis threshold cl ifclient)
         else retrans_count addr t p dis threshold cl ifclient)
      else Some (False, t, p, []))"

subsection \<open>A failure\<close>

text \<open>Writing a line: the name of the file, the line, success and the files after it.\<close>

type_synonym wr_line = "os_env \<Rightarrow> bytes \<Rightarrow> bytes \<Rightarrow> bool \<times> os_env"

text \<open>Adding to the automatic list. Without a list, or with one that has no file, the code follows a null pointer.\<close>

definition autolist_add :: "wr_line \<Rightarrow> bool \<Rightarrow> os_env \<Rightarrow> desync_profile \<Rightarrow> host_store \<Rightarrow> bytes \<Rightarrow> (host_store \<times> os_env) option" where
  "autolist_add wl alloc os p hs host =
     (case hostlist_auto p of None \<Rightarrow> None
      | Some i \<Rightarrow> do {
          f \<leftarrow> rd hs i;
          let (ok, pl) = HostlistPoolAddStr alloc (lf_pool f) host 0;
          let hs = hs[i := f\<lparr>lf_pool := pl\<rparr>];
          if \<not> ok then Some (hs, os)
          else (case lf_name f of None \<Rightarrow> None
            | Some name \<Rightarrow>
                (case wl os name host of
                   (False, os) \<Rightarrow> Some (hs, os)
                 | (True, os) \<Rightarrow>
                     Some (hs[i := f\<lparr>lf_pool := pl, lf_sig := (case os_sig (os name) of None \<Rightarrow> FILE_MOD_RESET | Some g \<Rightarrow> g)\<rparr>], os))) })"

definition auto_hostlist_failed :: "wr_line \<Rightarrow> bool \<Rightarrow> int \<Rightarrow> nat list \<Rightarrow> os_env \<Rightarrow> desync_profile \<Rightarrow> host_store \<Rightarrow> bytes \<Rightarrow> bool \<Rightarrow>
    (desync_profile \<times> host_store \<times> os_env) option" where
  "auto_hostlist_failed wl alloc now autos os p hs host nosub =
     (let (pp, e) = (case HostFailPoolFind (fail_counters p) host of
                       Some e \<Rightarrow> (fail_counters p, Some e)
                     | None \<Rightarrow> HostFailPoolAdd alloc now (fail_counters p) host (fail_time p))
      in case e of None \<Rightarrow> Some (p, hs, os)
       | Some e \<Rightarrow>
           (let e = e\<lparr>hf_counter := hf_counter e + 1\<rparr>; pp = hash_set pp host e in
            if hf_counter e \<ge> fail_threshold p then
              (let p = p\<lparr>fail_counters := HostFailPoolDel pp host\<rparr> in do {
                 (b, ex, hs) \<leftarrow> HostlistCheck alloc os autos (hl_collection p) (hl_collection_exclude p) hs host nosub False;
                 if \<not> b \<and> \<not> ex then do { (hs, os) \<leftarrow> autolist_add wl alloc os p hs host; Some (p, hs, os) }
                 else Some (p, hs, os) })
            else Some (p\<lparr>fail_counters := pp\<rparr>, hs, os)))"

subsection \<open>The profiles of a connection\<close>

text \<open>The world these steps change: the profiles, the host lists and the files.\<close>

record ah_world =
  ah_profiles :: "desync_profile list"
  ah_hosts :: host_store
  ah_os :: os_env

record ah_env =
  ae_write :: wr_line
  ae_alloc :: bool
  ae_now :: int
  ae_server :: bool

definition fail_step :: "ah_env \<Rightarrow> nat \<Rightarrow> bytes \<Rightarrow> bool \<Rightarrow> ah_world \<Rightarrow> ah_world option" where
  "fail_step A i host nosub w = do {
     p \<leftarrow> rd (ah_profiles w) i;
     (p, hs, os) \<leftarrow> auto_hostlist_failed (ae_write A) (ae_alloc A) (ae_now A) (autolists (ah_profiles w)) (ah_os w) p (ah_hosts w) host nosub;
     Some (w\<lparr>ah_profiles := (ah_profiles w)[i := p], ah_hosts := hs, ah_os := os\<rparr>) }"

definition reset_step :: "nat \<Rightarrow> bytes option \<Rightarrow> ah_world \<Rightarrow> ah_world option" where
  "reset_step i host w = do {
     p \<leftarrow> rd (ah_profiles w) i;
     Some (w\<lparr>ah_profiles := (ah_profiles w)[i := auto_hostlist_reset_fail_counter p host]\<rparr>) }"

definition process_retrans_fail :: "ah_env \<Rightarrow> nat \<Rightarrow> ctrack option \<Rightarrow> dissect \<Rightarrow> sockaddr \<Rightarrow> bytes \<Rightarrow> ah_world \<Rightarrow>
    (ctrack option \<times> ah_world \<times> datagram list) option" where
  "process_retrans_fail A addr t dis cl ifclient w =
     (if ae_server A then Some (t, w, [])
      else (case t of None \<Rightarrow> Some (t, w, [])
        | Some tr \<Rightarrow>
            (case (dp tr, hostname tr) of
               (Some i, Some h) \<Rightarrow> do {
                 p \<leftarrow> rd (ah_profiles w) i;
                 (fires, tr, p, sent) \<leftarrow> auto_hostlist_retrans addr tr p dis (retrans_threshold p) cl ifclient;
                 let w = w\<lparr>ah_profiles := (ah_profiles w)[i := p]\<rparr>;
                 if fires then do { w \<leftarrow> fail_step A i h (hostname_is_ip tr) w; Some (Some tr, w, sent) }
                 else Some (Some tr, w, sent) }
             | _ \<Rightarrow> Some (t, w, []))))"

text \<open>\<open>udp_in\<close> and \<open>udp_out\<close> are \<open>int\<close> and are compared with 64-bit counters, so they are converted to 64 bits.\<close>

definition process_udp_fail :: "ah_env \<Rightarrow> ctrack option \<Rightarrow> ctrack_positions option \<Rightarrow> ah_world \<Rightarrow> (ctrack option \<times> ah_world) option" where
  "process_udp_fail A t tpos w =
     (case t of None \<Rightarrow> Some (t, w)
      | Some tr \<Rightarrow>
          (case (dp tr, hostname tr) of
             (Some i, Some h) \<Rightarrow> do {
               p \<leftarrow> rd (ah_profiles w) i;
               if \<not> ae_server A \<and> hostname_ah_check tr \<and> \<not> failure_detect_finalized tr \<and> udp_out p \<noteq> 0 then
                 (let q = (case tpos of None \<Rightarrow> pos tr | Some q \<Rightarrow> q) in
                  if pcounter (server q) > word_of_int (udp_in p) then do {
                    w \<leftarrow> reset_step i (Some h) w;
                    Some (Some (tr\<lparr>failure_detect_finalized := True\<rparr>), w) }
                  else if pcounter (client q) \<ge> word_of_int (udp_out p) then do {
                    w \<leftarrow> fail_step A i h (hostname_is_ip tr) w;
                    Some (Some (tr\<lparr>failure_detect_finalized := True\<rparr>), w) }
                  else Some (t, w))
               else Some (t, w) }
           | _ \<Rightarrow> Some (t, w)))"

text \<open>The part of the TCP handler that reads a reply: a reset, or a redirect to another site, in the first bytes of the
  server's answer is a failure; an answer beyond them is a success. \<open>http_reply\<close> tells whether the payload was recognised as
  an HTTP reply. The range test starts behind the first sequence number.\<close>

definition tcp_reply_fail :: "ah_env \<Rightarrow> ctrack option \<Rightarrow> nat \<Rightarrow> dissect \<Rightarrow> bool \<Rightarrow> ah_world \<Rightarrow> (ctrack option \<times> ah_world) option" where
  "tcp_reply_fail A t i dis http_reply w =
     (case t of None \<Rightarrow> Some (t, w)
      | Some tr \<Rightarrow> do {
          p \<leftarrow> rd (ah_profiles w) i;
          if \<not> ae_server A \<and> hostname_ah_check tr \<and> \<not> failure_detect_finalized tr \<and> incoming_maxseq p \<noteq> 0 then
            (let q = server (pos tr); rseq = seq_last q - seq0 q in
             if rseq = 0 then Some (t, w)
             else if seq_within (seq_last q) (seq0 q + 1) (seq0 q + incoming_maxseq p) then do {
               tcp \<leftarrow> d_tcp dis;
               fl \<leftarrow> th_flags (data_pkt dis) tcp;
               bFail \<leftarrow> (if fl AND TH_RST \<noteq> 0 then Some True
                         else if len_payload dis \<noteq> 0 \<and> http_reply then do {
                           y \<leftarrow> data_payload dis;
                           HttpReplyLooksLikeDPIRedirect (drop y (data_pkt dis)) (len_payload dis) (hostname tr) }
                         else Some False);
               if bFail then do {
                 h \<leftarrow> hostname tr;
                 w \<leftarrow> fail_step A i h (hostname_is_ip tr) w;
                 Some (Some (tr\<lparr>failure_detect_finalized := True\<rparr>), w) }
               else Some (t, w) }
             else do {
               w \<leftarrow> reset_step i (hostname tr) w;
               Some (Some (tr\<lparr>failure_detect_finalized := True\<rparr>), w) })
          else Some (t, w) })"

subsection \<open>Counting and learning\<close>

definition fail_count :: "desync_profile \<Rightarrow> bytes \<Rightarrow> int" where
  "fail_count p host = (case HostFailPoolFind (fail_counters p) host of None \<Rightarrow> 0 | Some e \<Rightarrow> hf_counter e)"

definition fail_expiry :: "int \<Rightarrow> desync_profile \<Rightarrow> bytes \<Rightarrow> int" where
  "fail_expiry now p host = (case HostFailPoolFind (fail_counters p) host of None \<Rightarrow> now + fail_time p | Some e \<Rightarrow> hf_expire e)"

lemma failed_counted:
  assumes "table_ok (fail_counters p)" and "alloc \<or> HostFailPoolFind (fail_counters p) host \<noteq> None"
  shows "\<exists>pp. table_ok pp \<and> table_ok (HostFailPoolDel pp host)
     \<and> (\<forall>h. HostFailPoolFind pp h = (if h = host then Some \<lparr>hf_counter = fail_count p host + 1, hf_expire = fail_expiry now p host\<rparr>
              else HostFailPoolFind (fail_counters p) h))
     \<and> (\<forall>h. HostFailPoolFind (HostFailPoolDel pp host) h = (if h = host then None else HostFailPoolFind (fail_counters p) h))
     \<and> auto_hostlist_failed wl alloc now autos os p hs host nosub =
        (if fail_count p host + 1 \<ge> fail_threshold p then
           (let q = p\<lparr>fail_counters := HostFailPoolDel pp host\<rparr> in do {
              (b, ex, hs) \<leftarrow> HostlistCheck alloc os autos (hl_collection q) (hl_collection_exclude q) hs host nosub False;
              if \<not> b \<and> \<not> ex then do { (hs, os) \<leftarrow> autolist_add wl alloc os q hs host; Some (q, hs, os) }
              else Some (q, hs, os) })
         else Some (p\<lparr>fail_counters := pp\<rparr>, hs, os))"
proof (cases "hash_find (fail_counters p) host")
  case None
  let ?e = "\<lparr>hf_counter = 0, hf_expire = now + fail_time p\<rparr>"
  let ?a = "hash_add (fail_counters p) host ?e"
  have a: "table_ok ?a" using assms(1) None by (rule hash.add_good)
  have f: "hash_find ?a h = (if h = host then Some ?e else hash_find (fail_counters p) h)" for h
    by (rule hash.lookup_add[OF None])
  let ?s = "hash_set ?a host (?e\<lparr>hf_counter := 1\<rparr>)"
  have "hash_find ?a host \<noteq> None" by (simp add: f)
  then have s: "table_ok ?s" "hash_find ?s h = (if h = host then Some (?e\<lparr>hf_counter := 1\<rparr>) else hash_find (fail_counters p) h)" for h
    using a by (auto simp: hash.upd_good hash.lookup_upd f)
  have al: "alloc = True" using assms(2) None by (simp add: HostFailPoolFind_def)
  show ?thesis unfolding al
    by (intro exI[of _ ?s])
       (use None s in \<open>simp add: auto_hostlist_failed_def HostFailPoolFind_def HostFailPoolAdd_def HostFailPoolDel_def Let_def
          fail_count_def fail_expiry_def table_ok_del find_hash_del\<close>)
next
  case (Some e)
  let ?s = "hash_set (fail_counters p) host (e\<lparr>hf_counter := hf_counter e + 1\<rparr>)"
  have s: "table_ok ?s" "hash_find ?s h = (if h = host then Some (e\<lparr>hf_counter := hf_counter e + 1\<rparr>) else hash_find (fail_counters p) h)" for h
    using assms(1) Some by (auto simp: hash.upd_good hash.lookup_upd)
  show ?thesis
    by (intro exI[of _ ?s])
       (use Some s in \<open>cases e, simp add: auto_hostlist_failed_def HostFailPoolFind_def HostFailPoolDel_def Let_def
          fail_count_def fail_expiry_def table_ok_del find_hash_del\<close>)
qed

lemma autolist_added:
  assumes "hostlist_auto p = Some i" and "i < length hs" and "lf_name (hs ! i) = Some name" and "wl os name host = (True, os')"
    and "os_sig (os' name) = Some fsig"
  shows "\<exists>hs'. autolist_add wl True os p hs host = Some (hs', os') \<and> length hs' = length hs
     \<and> lf_pool (hs' ! i) = snd (HostlistPoolAddStr True (lf_pool (hs ! i)) host 0) \<and> lf_sig (hs' ! i) = fsig
     \<and> lf_name (hs' ! i) = Some name \<and> (\<forall>j. j \<noteq> i \<longrightarrow> hs' ! j = hs ! j)"
proof -
  obtain pl where h: "HostlistPoolAddStr True (lf_pool (hs ! i)) host 0 = (True, pl)"
    by (cases "hash_find (lf_pool (hs ! i)) host") (simp_all add: HostlistPoolAddStr_def HostlistPoolAddStrLen_def)
  show ?thesis
    by (intro exI[of _ "hs[i := (hs ! i)\<lparr>lf_pool := pl, lf_sig := fsig\<rparr>]"]) (use assms h in \<open>simp add: autolist_add_def\<close>)
qed

lemma autolist_finds:
  assumes "\<not> SearchHostList pool host nosub"
  shows "SearchHostList (snd (HostlistPoolAddStr alloc pool host 0)) host nosub \<longleftrightarrow> alloc"
proof -
  have d: "if nosub then host = host else subdomain_of host host" by (simp add: subdomain_of_def)
  have n: "hash_find pool host = None"
  proof (rule ccontr)
    assume "hash_find pool host \<noteq> None"
    then have "SearchHostList pool host nosub" unfolding SearchHostList_exact using d by blast
    with assms show False by simp
  qed
  show ?thesis
  proof (cases alloc)
    case True
    then have "hash_find (snd (HostlistPoolAddStr alloc pool host 0)) host = Some 0"
      using n by (simp add: HostlistPoolAddStr_def HostlistPoolAddStrLen_def find_hash_add)
    then have "SearchHostList (snd (HostlistPoolAddStr alloc pool host 0)) host nosub" unfolding SearchHostList_exact using d by blast
    with True show ?thesis by simp
  qed (use n assms in \<open>simp add: HostlistPoolAddStr_def HostlistPoolAddStrLen_def\<close>)
qed

subsection \<open>A connection fails once\<close>

text \<open>The three places that judge a connection, as events of it.\<close>

datatype ah_event = Retransmitted nat dissect sockaddr bytes | UdpSeen "ctrack_positions option" | ReplySeen nat dissect bool

fun conn_event :: "ah_env \<Rightarrow> ah_event \<Rightarrow> ctrack \<Rightarrow> ah_world \<Rightarrow> (ctrack option \<times> ah_world \<times> datagram list) option" where
  "conn_event A (Retransmitted addr dis cl ifc) t w = process_retrans_fail A addr (Some t) dis cl ifc w"
| "conn_event A (UdpSeen tpos) t w = map_option (\<lambda>(t', w'). (t', w', [])) (process_udp_fail A (Some t) tpos w)"
| "conn_event A (ReplySeen i dis http) t w = map_option (\<lambda>(t', w'). (t', w', [])) (tcp_reply_fail A (Some t) i dis http w)"

text \<open>An event acts if it counts a failure or a success, sends a reset, or ends the detection.\<close>

definition event_acts :: "ctrack \<Rightarrow> ah_world \<Rightarrow> ctrack \<times> ah_world \<times> datagram list \<Rightarrow> bool" where
  "event_acts t w = (\<lambda>(t', w', sent). w' \<noteq> w \<or> sent \<noteq> [] \<or> failure_detect_finalized t' \<noteq> failure_detect_finalized t)"

text \<open>The life of a connection: its events, each in a world of its own, and between them any change that keeps the flag, which
  no other part of the program writes. The number counts the events that act.\<close>

inductive conn_life :: "ctrack \<Rightarrow> nat \<Rightarrow> ctrack \<Rightarrow> bool" for t0 :: ctrack where
  born: "conn_life t0 0 t0"
| event: "conn_life t0 n t \<Longrightarrow> conn_event A e t w = Some (Some t', w', sent) \<Longrightarrow>
    conn_life t0 (if event_acts t w (t', w', sent) then n + 1 else n) t'"
| other: "conn_life t0 n t \<Longrightarrow> failure_detect_finalized t' = failure_detect_finalized t \<Longrightarrow> conn_life t0 n t'"

text \<open>The profiles an event refers to are there.\<close>

definition event_inside :: "ctrack \<Rightarrow> ah_world \<Rightarrow> ah_event \<Rightarrow> bool" where
  "event_inside t w e \<longleftrightarrow> (case dp t of None \<Rightarrow> True | Some k \<Rightarrow> k < length (ah_profiles w))
     \<and> (case e of ReplySeen i dis http \<Rightarrow> i < length (ah_profiles w) | _ \<Rightarrow> True)"

lemma retrans_fires_final:
  "auto_hostlist_retrans addr t p dis th cl ifc = Some (fires, t', p', sent) \<Longrightarrow>
   (\<not> fires \<and> p' = p \<and> sent = [] \<and> failure_detect_finalized t' = failure_detect_finalized t)
   \<or> \<not> failure_detect_finalized t \<and> failure_detect_finalized t'"
  by (auto simp: auto_hostlist_retrans_def retrans_count_def Let_def ctrack_stop_retrans_counter_def bind_eq_Some_conv split: if_splits)

text \<open>An event that acts ends the detection.\<close>

lemma event_judges:
  assumes "conn_event A e t w = Some (Some t', w', sent)"
  shows "event_acts t w (t', w', sent) \<longleftrightarrow> \<not> failure_detect_finalized t \<and> failure_detect_finalized t'"
    and "failure_detect_finalized t \<Longrightarrow> failure_detect_finalized t'"
proof -
  have "(w' = w \<and> sent = [] \<and> failure_detect_finalized t' = failure_detect_finalized t)
      \<or> \<not> failure_detect_finalized t \<and> failure_detect_finalized t'"
  proof (cases e)
    case (Retransmitted addr dis cl ifc)
    have "process_retrans_fail A addr (Some t) dis cl ifc w = Some (Some t', w', sent)" using assms Retransmitted by simp
    then show ?thesis
      using retrans_fires_final[of addr t _ dis _ cl ifc]
      by (fastforce simp: process_retrans_fail_def rd_def Let_def bind_eq_Some_conv split: if_splits option.splits prod.splits)
  next
    case (UdpSeen tpos)
    then show ?thesis using assms
      by (auto simp: process_udp_fail_def Let_def bind_eq_Some_conv split: if_splits option.splits)
  next
    case (ReplySeen i dis http)
    then show ?thesis using assms
      by (auto simp: tcp_reply_fail_def Let_def bind_eq_Some_conv split: if_splits)
  qed
  then show "event_acts t w (t', w', sent) \<longleftrightarrow> \<not> failure_detect_finalized t \<and> failure_detect_finalized t'"
    "failure_detect_finalized t \<Longrightarrow> failure_detect_finalized t'"
    by (auto simp: event_acts_def)
qed

lemma final_nothing:
  assumes "failure_detect_finalized t" and "event_inside t w e"
  shows "conn_event A e t w = Some (Some t, w, [])"
  using assms
  by (cases e) (auto simp: event_inside_def auto_hostlist_retrans_def process_retrans_fail_def process_udp_fail_def tcp_reply_fail_def rd_def
      list_update_id split: option.splits)

lemma life_judged: "conn_life t0 n t \<Longrightarrow> \<not> failure_detect_finalized t0 \<Longrightarrow> n = (if failure_detect_finalized t then 1 else 0)"
proof (induction rule: conn_life.induct)
  case (event n t A e w t' w' sent)
  then show ?case using event_judges[OF event(2)] by (cases "failure_detect_finalized t"; cases "failure_detect_finalized t'") simp_all
qed simp_all

subsection \<open>The reset packet\<close>

text \<open>The segment: ports and numbers exchanged, no options, only the reset flag.\<close>

lemma rst_tcp_in:
  assumes "length th = 20"
  shows "\<exists>e. rst_tcp th win = Some e \<and> length e = 20
     \<and> e ! 0 = th ! 2 \<and> e ! 1 = th ! 3 \<and> e ! 2 = th ! 0 \<and> e ! 3 = th ! 1
     \<and> (\<forall>k<4. e ! (4 + k) = th ! (8 + k) \<and> e ! (8 + k) = th ! (4 + k))
     \<and> e ! 12 = (th ! 12 AND 0x0F) OR 0x50 \<and> e ! 13 = TH_RST
     \<and> e ! 14 = ucast win \<and> e ! 15 = ucast (drop_bit 8 win)"
proof -
  obtain a where a: "mem_swap th 0 2 2 = Some a" "length a = 20"
    "\<forall>i<20. a ! i = (if 0 \<le> i \<and> i < 0 + 2 then th ! (i - 0 + 2) else if 2 \<le> i \<and> i < 2 + 2 then th ! (i - 2 + 0) else th ! i)"
    using mem_swap_in[of 0 2 2 th] assms by auto
  obtain b where b: "mem_swap a 4 8 4 = Some b" "length b = 20"
    "\<forall>i<20. b ! i = (if 4 \<le> i \<and> i < 4 + 4 then a ! (i - 4 + 8) else if 8 \<le> i \<and> i < 8 + 4 then a ! (i - 8 + 4) else a ! i)"
    using mem_swap_in[of 4 4 8 a] a(2) by auto
  let ?c = "b[12 := (b ! 12 AND 0x0F) OR 0x50, 13 := TH_RST, 14 := ucast win, 15 := ucast (drop_bit 8 win)]"
  have r: "rst_tcp th win = Some ?c"
    using a(1) b(1,2) by (simp add: rst_tcp_def reverse_tcp_def st16_in)
  have n: "b ! i = (if i < 2 then th ! (i + 2) else if i < 4 then th ! (i - 2) else if i < 8 then th ! (i + 4)
      else if i < 12 then th ! (i - 4) else th ! i)" if "i < 20" for i
    using that a(3) b(3) by (auto simp: add.commute)
  show ?thesis using r b(2) by (intro exI[of _ ?c]) (simp add: n nth_list_update add.commute numeral_2_eq_2 numeral_3_eq_3)
qed

lemma zeroed_same:
  assumes "length e = length d" and "\<forall>k. k \<noteq> p \<and> k \<noteq> p + 1 \<longrightarrow> e ! k = d ! k"
  shows "zeroed e p = zeroed d p"
proof (rule nth_equalityI)
  fix i assume "i < length (zeroed e p)"
  then show "zeroed e p ! i = zeroed d p ! i"
    using assms by (cases "i = p"; cases "i = p + 1") (simp_all add: zeroed_def nth_list_update)
qed (use assms in \<open>simp add: zeroed_def\<close>)

text \<open>The datagram over IPv4: what its two headers hold, and that both verify unless a fold loses its carry.\<close>

lemma rst_packet4_in:
  assumes "i + 20 \<le> length d" and "tcp + 20 \<le> length d"
  shows "\<exists>ip th r r2 (c :: u16) src dst. rst_packet4 addr d i tcp win = Some (ip @ th) \<and> length ip = 20 \<and> length th = 20
     \<and> ip ! 0 = (d ! i AND 0xF0) OR 5 \<and> ip ! 2 = 0 \<and> ip ! 3 = 40 \<and> ip ! 4 = 0 \<and> ip ! 5 = 0
     \<and> (\<forall>k<4. ip ! (12 + k) = d ! (i + 16 + k) \<and> ip ! (16 + k) = d ! (i + 12 + k))
     \<and> th ! 0 = d ! (tcp + 2) \<and> th ! 1 = d ! (tcp + 3) \<and> th ! 2 = d ! tcp \<and> th ! 3 = d ! (tcp + 1)
     \<and> (\<forall>k<4. th ! (4 + k) = d ! (tcp + 8 + k) \<and> th ! (8 + k) = d ! (tcp + 4 + k))
     \<and> th ! 12 = (d ! (tcp + 12) AND 0x0F) OR 0x50 \<and> th ! 13 = TH_RST
     \<and> th ! 14 = ucast win \<and> th ! 15 = ucast (drop_bit 8 win)
     \<and> csum_acc addr (zeroed ip 10) 20 = Some r \<and> (\<not> loses_carry r \<longrightarrow> word_sum ip mod 65535 = 0)
     \<and> ld32 ip 12 = Some src \<and> ld32 ip 16 = Some dst
     \<and> csum_acc (addr + 20) (zeroed th 16) 20 = Some r2 \<and> do_csum (addr + 20) (zeroed th 16) 20 = Some c
     \<and> (\<not> loses_carry r2 \<and> \<not> loses_carry (ucast src + ucast dst + ucast c + ucast (htonl (of_nat (20 + unat IPPROTO_TCP))))
         \<longrightarrow> (pseudo4 src dst IPPROTO_TCP 20 + word_sum th) mod 65535 = 0)"
proof -
  let ?ip0 = "take 20 (drop i d)" and ?th0 = "take 20 (drop tcp d)"
  let ?b = "(d ! i AND 0xF0) OR 5"
  let ?ip1 = "?ip0[0 := ?b, 2 := 0, 3 := 40, 4 := 0, 5 := 0]"
  have l: "length ?ip0 = 20" "length ?th0 = 20" using assms by simp_all
  have n0: "?ip0 ! k = d ! (i + k)" "?th0 ! k = d ! (tcp + k)" if "k < 20" for k using that assms by simp_all
  have low: "?b AND 0x0F = 5"
  proof -
    have "(d ! i AND 0xF0) AND 0x0F = d ! i AND (0xF0 AND 0x0F)" by (rule and.assoc)
    then show ?thesis by (simp add: bit.conj_disj_distrib2)
  qed
  have l1: "length ?ip1 = 20" using l by simp
  have sw: "12 + 4 \<le> (16 :: nat)" "16 + 4 \<le> length ?ip1" using l1 by simp_all
  obtain ip2 where ip2: "mem_swap ?ip1 12 16 4 = Some ip2" "length ip2 = 20"
    "\<forall>k<20. ip2 ! k = (if 12 \<le> k \<and> k < 12 + 4 then ?ip1 ! (k - 12 + 16) else if 16 \<le> k \<and> k < 16 + 4 then ?ip1 ! (k - 16 + 12) else ?ip1 ! k)"
    using mem_swap_in[OF sw] unfolding l1 by blast
  have z: "ip2 ! 0 = ?b" using ip2(3) l by (simp add: nth_list_update)
  obtain ip r where ip: "ip4_fix_checksum addr ip2 = Some ip" "length ip = 20" "\<forall>k. k \<noteq> 10 \<and> k \<noteq> 11 \<longrightarrow> ip ! k = ip2 ! k"
    "csum_acc addr (zeroed ip2 10) 20 = Some r" "\<not> loses_carry r \<longrightarrow> word_sum (take 20 ip) mod 65535 = 0"
    using ip4_fix_checksum_correct[of 20 ip2 addr] ip2(2) unfolding z low by auto
  obtain t1 where t1: "rst_tcp ?th0 win = Some t1" "length t1 = 20"
     "t1 ! 0 = ?th0 ! 2" "t1 ! 1 = ?th0 ! 3" "t1 ! 2 = ?th0 ! 0" "t1 ! 3 = ?th0 ! 1"
     "\<forall>k<4. t1 ! (4 + k) = ?th0 ! (8 + k) \<and> t1 ! (8 + k) = ?th0 ! (4 + k)"
     "t1 ! 12 = (?th0 ! 12 AND 0x0F) OR 0x50" "t1 ! 13 = TH_RST" "t1 ! 14 = ucast win" "t1 ! 15 = ucast (drop_bit 8 win)"
    using rst_tcp_in[OF l(2), of win] by blast
  obtain src dst where sd: "ld32 ip 12 = Some src" "ld32 ip 16 = Some dst" using ld32_le[of 12 ip] ld32_le[of 16 ip] ip(2) by auto
  obtain th r2 c where th: "tcp4_fix_checksum (addr + 20) t1 20 src dst = Some th" "length th = 20"
    "\<forall>k. k \<noteq> 16 \<and> k \<noteq> 17 \<longrightarrow> th ! k = t1 ! k" "csum_acc (addr + 20) (zeroed t1 16) 20 = Some r2"
    "do_csum (addr + 20) (zeroed t1 16) 20 = Some c"
    "\<not> loses_carry r2 \<and> \<not> loses_carry (ucast src + ucast dst + ucast c + ucast (htonl (of_nat (20 + unat IPPROTO_TCP))))
        \<longrightarrow> (pseudo4 src dst IPPROTO_TCP 20 + word_sum (take 20 th)) mod 65535 = 0"
    using tcp4_fix_checksum_correct[of 20 t1 "addr + 20" src dst] t1(2) by auto
  have p: "rst_packet4 addr d i tcp win = Some (ip @ th)"
    using assms l n0(1)[of 0] ip2(1) ip(1) t1(1) sd th(1)
    by (simp add: rst_packet4_def phton16_def reverse_ip4_def tcp_fix_checksum_def)
  have ipn: "ip ! k = (if 12 \<le> k \<and> k < 16 then ?ip1 ! (k - 12 + 16) else if 16 \<le> k \<and> k < 20 then ?ip1 ! (k - 16 + 12) else ?ip1 ! k)"
    if "k < 20" "k \<noteq> 10" "k \<noteq> 11" for k
    using that ip(3) ip2(3) by simp
  have thn: "th ! k = t1 ! k" if "k < 16" for k using that th(3) by simp
  have "\<forall>k<4. ip ! (12 + k) = d ! (i + 16 + k) \<and> ip ! (16 + k) = d ! (i + 12 + k)"
    using l n0(1) by (auto simp: ipn nth_list_update add.commute add.left_commute)
  moreover have "ip ! 0 = ?b" "ip ! 2 = 0" "ip ! 3 = 40" "ip ! 4 = 0" "ip ! 5 = 0"
    using l by (simp_all add: ipn nth_list_update)
  moreover have "\<forall>k<4. th ! (4 + k) = d ! (tcp + 8 + k) \<and> th ! (8 + k) = d ! (tcp + 4 + k)"
    using t1(7) n0(2) by (auto simp: thn add.assoc)
  moreover have "th ! 0 = d ! (tcp + 2)" "th ! 1 = d ! (tcp + 3)" "th ! 2 = d ! tcp" "th ! 3 = d ! (tcp + 1)"
    "th ! 12 = (d ! (tcp + 12) AND 0x0F) OR 0x50" "th ! 13 = TH_RST" "th ! 14 = ucast win" "th ! 15 = ucast (drop_bit 8 win)"
    using t1(3-6,8-11) n0(2)[of 0] n0(2)[of 1] n0(2)[of 2] n0(2)[of 3] n0(2)[of 12] by (simp_all add: thn)
  moreover have "take 20 ip = ip" "take 20 th = th" using ip(2) th(2) by simp_all
  moreover have "zeroed ip 10 = zeroed ip2 10" "zeroed th 16 = zeroed t1 16"
    using zeroed_same[of ip ip2 10] zeroed_same[of th t1 16] ip(2,3) ip2(2) th(2,3) t1(2) by simp_all
  ultimately show ?thesis using p ip(2,4,5) th(2,4,5,6) sd
    by - (rule exI[of _ ip], rule exI[of _ th], rule exI[of _ r], rule exI[of _ r2], rule exI[of _ c], rule exI[of _ src],
        rule exI[of _ dst], intro conjI; (assumption | simp))
qed

subsection \<open>Properties\<close>

text \<open>A failure below the threshold is only counted: the host's counter grows by one and keeps its expiry (a new one gets
  the profile's), every other host's counter, the lists and the files stay as they are.\<close>

theorem failure_counted:
  assumes "table_ok (fail_counters p)" and "fail_count p host + 1 < fail_threshold p"
  shows "\<exists>pp. auto_hostlist_failed wl True now autos os p hs host nosub = Some (p\<lparr>fail_counters := pp\<rparr>, hs, os)
     \<and> table_ok pp \<and> (\<forall>h. HostFailPoolFind pp h =
          (if h = host then Some \<lparr>hf_counter = fail_count p host + 1, hf_expire = fail_expiry now p host\<rparr>
           else HostFailPoolFind (fail_counters p) h))"
  using failed_counted[OF assms(1), of True host now wl autos os hs nosub] assms(2) by (auto simp: Let_def)

lemma failure_counted_witness:
  "\<exists>pp. auto_hostlist_failed (\<lambda>os n l. (True, os)) True 0 [] (\<lambda>n. \<lparr>os_sig = None, os_readable = False, os_data = CannotOpen\<rparr>) dp_init [] [97] False
     = Some (dp_init\<lparr>fail_counters := pp\<rparr>, [], \<lambda>n. \<lparr>os_sig = None, os_readable = False, os_data = CannotOpen\<rparr>)"
  using failure_counted[of dp_init "[97]" "\<lambda>os n l. (True, os)" 0 "[]" "\<lambda>n. \<lparr>os_sig = None, os_readable = False, os_data = CannotOpen\<rparr>" "[]" False]
  by (auto simp: dp_init_def fail_count_def HostFailPoolFind_def table_ok_def)

text \<open>C8: A failure at the threshold teaches the profile: the counter is removed, and if the reloaded lists neither accept nor
  exclude the host, it is added to the profile's automatic list, so that from then on the profile's lists accept it, and
  the list carries the signature its file has after the line was written. No other list changes.\<close>

theorem failure_learned:
  assumes "table_ok (fail_counters p)" and "fail_count p host + 1 \<ge> fail_threshold p"
    and "HostlistsReloadCheckForProfile True os autos (hl_collection p) (hl_collection_exclude p) hs = Some (True, hs1)"
    and "pointers_ok hs1 (hl_collection p)" and "pointers_ok hs1 (hl_collection_exclude p)"
    and "hostlist_auto p = Some i" and "i \<in> set (hl_collection p)" and "i \<notin> set (hl_collection_exclude p)"
    and "\<not> host_answer hs1 p host nosub" and "\<forall>j\<in>set (hl_collection_exclude p). \<not> SearchHostList (lf_pool (hs1 ! j)) host nosub"
    and "lf_name (hs1 ! i) = Some name" and "wl os name host = (True, os')" and "os_sig (os' name) = Some fsig"
  shows "\<exists>p' hs'. auto_hostlist_failed wl True now autos os p hs host nosub = Some (p', hs', os')
     \<and> HostFailPoolFind (fail_counters p') host = None \<and> hl_collection p' = hl_collection p
     \<and> host_answer hs' p' host nosub \<and> lf_sig (hs' ! i) = fsig \<and> (\<forall>j. j \<noteq> i \<longrightarrow> hs' ! j = hs1 ! j)"
proof -
  obtain pp where pp: "\<forall>h. HostFailPoolFind (HostFailPoolDel pp host) h = (if h = host then None else HostFailPoolFind (fail_counters p) h)"
    "auto_hostlist_failed wl True now autos os p hs host nosub =
           (let q = p\<lparr>fail_counters := HostFailPoolDel pp host\<rparr> in do {
              (b, ex, hs) \<leftarrow> HostlistCheck True os autos (hl_collection q) (hl_collection_exclude q) hs host nosub False;
              if \<not> b \<and> \<not> ex then do { (hs, os) \<leftarrow> autolist_add wl True os q hs host; Some (q, hs, os) }
              else Some (q, hs, os) })"
    using failed_counted[OF assms(1), of True host now wl autos os hs nosub] assms(2) by auto
  let ?q = "p\<lparr>fail_counters := HostFailPoolDel pp host\<rparr>"
  have lc: "list_check (\<lambda>p. p = []) (\<lambda>p. Some (SearchHostList p host nosub)) hs1 (hl_collection p) (hl_collection_exclude p)
     = Some (host_answer hs1 p host nosub, False)"
    using list_check_exact[OF assms(4,5), of "\<lambda>p. Some (SearchHostList p host nosub)" "\<lambda>p. SearchHostList p host nosub" "\<lambda>p. p = []", OF refl]
      assms(10) by (auto simp: host_answer_def)
  have hc: "HostlistCheck True os autos (hl_collection ?q) (hl_collection_exclude ?q) hs host nosub False = Some (False, False, hs1)"
    using assms(3,9) lc by (simp add: HostlistCheck_def)
  have i: "i < length hs1" using assms(4,7) by (simp add: pointers_ok_def)
  have ns: "\<not> SearchHostList (lf_pool (hs1 ! i)) host nosub" using assms(7,9,10) by (auto simp: host_answer_def)
  obtain hs' where hs': "autolist_add wl True os ?q hs1 host = Some (hs', os')" "lf_pool (hs' ! i) = snd (HostlistPoolAddStr True (lf_pool (hs1 ! i)) host 0)"
     "lf_sig (hs' ! i) = fsig" "\<forall>j. j \<noteq> i \<longrightarrow> hs' ! j = hs1 ! j"
    using autolist_added[of ?q i hs1 name wl os host os' fsig] i assms by auto
  have "SearchHostList (lf_pool (hs' ! i)) host nosub" unfolding hs'(2) using autolist_finds[OF ns] by simp
  moreover have "\<not> SearchHostList (lf_pool (hs' ! j)) host nosub" if "j \<in> set (hl_collection_exclude p)" for j
    using that assms(8,10) hs'(4) by (metis)
  ultimately have "host_answer hs' ?q host nosub" using assms(7) by (auto simp: host_answer_def)
  then show ?thesis
    using pp hc hs' by (intro exI[of _ ?q] exI[of _ hs']) (simp add: Let_def)
qed

definition sample_auto :: "nat \<Rightarrow> hostlist_pool list_file" where
  "sample_auto n = \<lparr>lf_name = Some [108], lf_sig = FILE_MOD_RESET, lf_pool = [(lit ''@&()'', 0)]\<rparr>"

definition sample_os :: "file_data \<Rightarrow> int \<Rightarrow> os_env" where
  "sample_os dat n = (\<lambda>f. \<lparr>os_sig = Some \<lparr>mod_time = n, mod_size = n\<rparr>, os_readable = True, os_data = dat\<rparr>)"

definition sample_auto_profile :: desync_profile where
  "sample_auto_profile = dp_init\<lparr>hostlist_auto := Some 0, hl_collection := [0], fail_threshold := 1\<rparr>"

lemma failure_learned_witness:
  "\<exists>p' hs'. auto_hostlist_failed (\<lambda>os n l. (True, sample_os CannotOpen 1)) True 0 [0] (sample_os CannotOpen 0) sample_auto_profile
     [sample_auto 0] [97] False = Some (p', hs', sample_os CannotOpen 1) \<and> host_answer hs' p' [97] False"
proof -
  let ?p = sample_auto_profile and ?hs = "[sample_auto 0]"
  have c: "table_ok (fail_counters ?p)" "fail_count ?p [97] + 1 \<ge> fail_threshold ?p"
    by (simp_all add: sample_auto_profile_def dp_init_def fail_count_def HostFailPoolFind_def table_ok_def)
  have r: "HostlistsReloadCheckForProfile True (sample_os CannotOpen 0) [0] (hl_collection ?p) (hl_collection_exclude ?p) ?hs = Some (True, ?hs)"
    by (rule host_reload_fresh)
       (simp_all add: sample_auto_profile_def dp_init_def sample_auto_def up_to_date_def sample_os_def FILE_MOD_COMPARE_def FILE_MOD_RESET_def)
  have q: "pointers_ok ?hs (hl_collection ?p)" "pointers_ok ?hs (hl_collection_exclude ?p)" "hostlist_auto ?p = Some 0"
    "0 \<in> set (hl_collection ?p)" "0 \<notin> set (hl_collection_exclude ?p)"
    by (simp_all add: sample_auto_profile_def dp_init_def)
  have s: "\<not> SearchHostList (lf_pool (?hs ! 0)) [97] False"
    unfolding SearchHostList_exact by (auto simp: sample_auto_def subdomain_of_def Cons_eq_append_conv)
  have a: "\<not> host_answer ?hs ?p [97] False" using s by (simp add: host_answer_def sample_auto_profile_def dp_init_def) (simp add: sample_auto_def)
  have e: "\<forall>j\<in>set (hl_collection_exclude ?p). \<not> SearchHostList (lf_pool (?hs ! j)) [97] False"
    by (simp add: sample_auto_profile_def dp_init_def)
  from failure_learned[OF c r q a e, of "[108]" "\<lambda>os n l. (True, sample_os CannotOpen 1)" "sample_os CannotOpen 1" "\<lparr>mod_time = 1, mod_size = 1\<rparr>" 0]
  show ?thesis by (auto simp: sample_auto_def sample_os_def)
qed

text \<open>C31: A reload that fails is taken for a negative answer. The host is then added to a list whose reading has just failed
  and which is therefore empty, and the list is given the signature of the file as it is now: the names in the file are
  forgotten until the file changes again.\<close>

theorem failure_forgets_list:
  assumes "table_ok (fail_counters p)" and "fail_count p host + 1 \<ge> fail_threshold p"
    and "HostlistsReloadCheckForProfile True os autos (hl_collection p) (hl_collection_exclude p) hs = Some (False, hs1)"
    and "hostlist_auto p = Some i" and "i < length hs1" and "lf_pool (hs1 ! i) = []"
    and "lf_name (hs1 ! i) = Some name" and "wl os name host = (True, os')" and "os_sig (os' name) = Some fsig"
  shows "\<exists>p' hs'. auto_hostlist_failed wl True now autos os p hs host nosub = Some (p', hs', os')
     \<and> lf_pool (hs' ! i) = [(host, 0)] \<and> load_list (host_addpool True) 4096 [] os' (hs' ! i) = Some (True, hs' ! i)"
proof -
  obtain pp where pp: "auto_hostlist_failed wl True now autos os p hs host nosub =
           (let q = p\<lparr>fail_counters := HostFailPoolDel pp host\<rparr> in do {
              (b, ex, hs) \<leftarrow> HostlistCheck True os autos (hl_collection q) (hl_collection_exclude q) hs host nosub False;
              if \<not> b \<and> \<not> ex then do { (hs, os) \<leftarrow> autolist_add wl True os q hs host; Some (q, hs, os) }
              else Some (q, hs, os) })"
    using failed_counted[OF assms(1), of True host now wl autos os hs nosub] assms(2) by auto
  let ?q = "p\<lparr>fail_counters := HostFailPoolDel pp host\<rparr>"
  have hc: "HostlistCheck True os autos (hl_collection ?q) (hl_collection_exclude ?q) hs host nosub False = Some (False, False, hs1)"
    using assms(3) by (simp add: HostlistCheck_def)
  obtain hs' where hs': "autolist_add wl True os ?q hs1 host = Some (hs', os')" "lf_pool (hs' ! i) = snd (HostlistPoolAddStr True (lf_pool (hs1 ! i)) host 0)"
     "lf_sig (hs' ! i) = fsig" "lf_name (hs' ! i) = Some name"
    using autolist_added[of ?q i hs1 name wl os host os' fsig] assms by auto
  have "load_list (host_addpool True) 4096 [] os' (hs' ! i) = Some (True, hs' ! i)"
    by (rule load_list_fresh) (use hs' assms(9) in \<open>simp add: up_to_date_def FILE_MOD_COMPARE_def\<close>)
  then show ?thesis
    using pp hc hs'(1,2) assms(6) by (intro exI[of _ ?q] exI[of _ hs'])
      (simp add: Let_def HostlistPoolAddStr_def HostlistPoolAddStrLen_def hash_add_def)
qed

lemma failure_forgets_list_witness:
  "\<exists>p' hs'. auto_hostlist_failed (\<lambda>os n l. (True, sample_os (PlainText [98, 10] False) 2)) True 0 [0] (sample_os (PlainText [98, 10] True) 1)
     sample_auto_profile [sample_auto 0] [97] False = Some (p', hs', sample_os (PlainText [98, 10] False) 2) \<and> lf_pool (hs' ! 0) = [([97], 0)]"
proof -
  let ?p = sample_auto_profile and ?hs = "[sample_auto 0]" and ?os = "sample_os (PlainText [98, 10] True) 1"
  have c: "table_ok (fail_counters ?p)" "fail_count ?p [97] + 1 \<ge> fail_threshold ?p"
    by (simp_all add: sample_auto_profile_def dp_init_def fail_count_def HostFailPoolFind_def table_ok_def)
  obtain ok pl where l: "append_lines (host_addpool True) [[98, 10]] [] = Some (ok, pl)"
    using returns_exists[OF host_lines.append_lines_returns[OF TrueI, of True "[[98, 10]]" "[]"]] by auto
  have r: "HostlistsReloadCheckForProfile True ?os [0] (hl_collection ?p) (hl_collection_exclude ?p) ?hs = Some (False, [(sample_auto 0)\<lparr>lf_pool := []\<rparr>])"
    using l by (simp add: fgets_lines.simps fgets_safe_def sample_auto_profile_def dp_init_def HostlistsReloadCheckForProfile_def HostlistsReloadCheck_def load_at_def
        load_list_def sample_auto_def sample_os_def FILE_MOD_COMPARE_def FILE_MOD_RESET_def append_file_def del: append_lines.simps)
  from failure_forgets_list[OF c r, of 0 "[108]" "\<lambda>os n l. (True, sample_os (PlainText [98, 10] False) 2)"
      "sample_os (PlainText [98, 10] False) 2" "\<lparr>mod_time = 2, mod_size = 2\<rparr>" 0 False]
  show ?thesis by (auto simp: sample_auto_def sample_os_def sample_auto_profile_def)
qed

text \<open>C23: A connection fails at most once. Over the life of a connection, with its retransmissions, UDP packets and replies in any
  order and in any worlds, at most one event counts a failure or a success, sends a reset or ends the detection: exactly one
  if and only if the detection is final. Once it is final, every further event leaves the connection and the world as they are and
  sends nothing.\<close>

theorem failure_once:
  assumes "conn_life t0 n t" and "\<not> failure_detect_finalized t0"
  shows "n \<le> 1 \<and> (n = 1 \<longleftrightarrow> failure_detect_finalized t)
    \<and> (\<forall>A e w. failure_detect_finalized t \<longrightarrow> event_inside t w e \<longrightarrow> conn_event A e t w = Some (Some t, w, []))"
  using life_judged[OF assms] final_nothing[of t] by simp

definition sample_ah_track :: ctrack where
  "sample_ah_track = (ConntrackInitTrack (0, 0))\<lparr>hostname_ah_check := True, hostname := Some [97], dp := Some 0,
     pos := positions_null\<lparr>client := position_null\<lparr>pcounter := 5\<rparr>\<rparr>\<rparr>"

definition sample_fail_env :: ah_env where
  "sample_fail_env = \<lparr>ae_write = (\<lambda>os n l. (True, os)), ae_alloc = True, ae_now = 0, ae_server = False\<rparr>"

definition sample_fail_world :: ah_world where
  "sample_fail_world = \<lparr>ah_profiles = [dp_init], ah_hosts = [], ah_os = sample_os CannotOpen 0\<rparr>"

text \<open>Five UDP packets without an answer are a failure; a reset that comes then is none.\<close>

lemma failure_once_witness:
  "\<exists>w' t'. conn_event sample_fail_env (UdpSeen None) sample_ah_track sample_fail_world = Some (Some t', w', [])
     \<and> w' \<noteq> sample_fail_world \<and> conn_event sample_fail_env (ReplySeen 0 (dissect_init [] 0) False) t' w' = Some (Some t', w', [])"
proof -
  let ?t = "sample_ah_track\<lparr>failure_detect_finalized := True\<rparr>"
  let ?e = "\<lparr>hf_counter = 1, hf_expire = fail_time dp_init\<rparr>"
  let ?w = "sample_fail_world\<lparr>ah_profiles := [dp_init\<lparr>fail_counters := [([97], ?e)]\<rparr>]\<rparr>"
  have f: "conn_event sample_fail_env (UdpSeen None) sample_ah_track sample_fail_world = Some (Some ?t, ?w, [])"
    by (simp add: process_udp_fail_def sample_ah_track_def ConntrackInitTrack_def sample_fail_env_def sample_fail_world_def dp_init_def rd_def
        positions_null_def position_null_def fail_step_def auto_hostlist_failed_def HostFailPoolFind_def HostFailPoolAdd_def hash_add_def Let_def)
  have d: "?w \<noteq> sample_fail_world" by (simp add: sample_fail_world_def dp_init_def)
  have l: "conn_life sample_ah_track (if event_acts sample_ah_track sample_fail_world (?t, ?w, []) then 0 + 1 else 0) ?t"
    by (rule conn_life.event[OF conn_life.born f])
  have n: "\<not> failure_detect_finalized sample_ah_track" by (simp add: sample_ah_track_def ConntrackInitTrack_def)
  have "failure_detect_finalized ?t" "event_inside ?t ?w (ReplySeen 0 (dissect_init [] 0) False)"
    by (simp_all add: event_inside_def sample_ah_track_def ConntrackInitTrack_def sample_fail_world_def)
  then have "conn_event sample_fail_env (ReplySeen 0 (dissect_init [] 0) False) ?t ?w = Some (Some ?t, ?w, [])"
    using failure_once[OF l n] by blast
  with f d show ?thesis by blast
qed

text \<open>C33: The reset answers the retransmitter: over IPv4 it has 40 bytes and no options, its addresses, ports and
  sequence numbers are the segment's exchanged, only the reset flag is set, and the IP header and the segment verify,
  unless a fold of their sum loses its carry. The window is stored as the host has it, so on a little endian host its
  bytes are exchanged on the wire.\<close>

theorem rst_packet4_answers:
  assumes "i + 20 \<le> length d" and "tcp + 20 \<le> length d"
  shows "\<exists>ip th r r2 (c :: u16) src dst. rst_packet4 addr d i tcp win = Some (ip @ th) \<and> length ip = 20 \<and> length th = 20
     \<and> ip ! 0 = (d ! i AND 0xF0) OR 5 \<and> ip ! 2 = 0 \<and> ip ! 3 = 40 \<and> ip ! 4 = 0 \<and> ip ! 5 = 0
     \<and> (\<forall>k<4. ip ! (12 + k) = d ! (i + 16 + k) \<and> ip ! (16 + k) = d ! (i + 12 + k))
     \<and> th ! 0 = d ! (tcp + 2) \<and> th ! 1 = d ! (tcp + 3) \<and> th ! 2 = d ! tcp \<and> th ! 3 = d ! (tcp + 1)
     \<and> (\<forall>k<4. th ! (4 + k) = d ! (tcp + 8 + k) \<and> th ! (8 + k) = d ! (tcp + 4 + k))
     \<and> th ! 12 = (d ! (tcp + 12) AND 0x0F) OR 0x50 \<and> th ! 13 = TH_RST
     \<and> th ! 14 = ucast win \<and> th ! 15 = ucast (drop_bit 8 win)
     \<and> csum_acc addr (zeroed ip 10) 20 = Some r \<and> (\<not> loses_carry r \<longrightarrow> word_sum ip mod 65535 = 0)
     \<and> ld32 ip 12 = Some src \<and> ld32 ip 16 = Some dst
     \<and> csum_acc (addr + 20) (zeroed th 16) 20 = Some r2 \<and> do_csum (addr + 20) (zeroed th 16) 20 = Some c
     \<and> (\<not> loses_carry r2 \<and> \<not> loses_carry (ucast src + ucast dst + ucast c + ucast (htonl (of_nat (20 + unat IPPROTO_TCP))))
         \<longrightarrow> (pseudo4 src dst IPPROTO_TCP 20 + word_sum th) mod 65535 = 0)"
  by (rule rst_packet4_in[OF assms])

lemma rst_packet4_answers_witness:
  "\<exists>ip th. rst_packet4 0 (replicate 40 7) 0 20 1 = Some (ip @ th) \<and> length ip = 20 \<and> th ! 13 = TH_RST"
  using rst_packet4_answers[of 0 "replicate 40 7" 20 0 1] by auto

end
