(* ===== verification/Play.thy ===== *)
theory Play
  imports AutoHost Desync Dns Quic
begin

text \<open>
  The path of a packet through src/nfq2/desync.c, first part: the world it changes, the reassembly of a client's
  hello over packets with the delaying of those packets, the direction of a packet, the search for its connection and
  profile (\<open>play_prolog\<close>), and the second look at the profile when a protocol or a host name has been found
  (\<open>dp_rediscovery\<close>). The handlers of the protocols are in theory Packet.

  The Linux build is modelled: profiles have SSID filters, and the checksum fixes after a verdict are empty.
\<close>

subsection \<open>The world\<close>

text \<open>
  The global state: connections, address cache with the time of its last purge, profiles with host lists and files, address
  sets, the Lua machine, and the datagrams sent so far. A connection is named by its key in the table; a name that is
  not in the table is a dangling pointer.
\<close>

record 'l world =
  w_ct :: conntrack
  w_ipc :: ip_cache
  w_ipc_prev :: int
  w_ah :: ah_world
  w_ips :: ip_store
  w_lua :: 'l
  w_sent :: "datagram list"

text \<open>
  What stays during a packet: the parameters of the program, whether allocations succeed, the clock, and the code that is
  not under src/. \<open>en_ssid\<close> is the wireless network of an interface, \<open>en_refs\<close> the two registry references a new
  connection gets, \<open>en_junk\<close> the content of fresh memory, \<open>en_addr\<close> the address of the packet buffer, \<open>en_mod\<close>
  the address of the buffer a packet is rebuilt in, which is another one for replayed packets.
\<close>

record ('l, 'n) env =
  en_lua :: "('l, 'n) lua"
  en_ah :: ah_env
  en_ctrack_disable :: bool
  en_cache_hostname :: bool
  en_ipc_lifetime :: int
  en_reasm_disable :: u64
  en_payload_disable :: u64
  en_fwmark :: u32
  en_now :: int
  en_ip :: ipset_env
  en_ssid :: "bytes \<Rightarrow> bytes option"
  en_refs :: "int \<times> int"
  en_crypto :: quic_crypto
  en_setkey :: "bytes \<Rightarrow> (bytes \<Rightarrow> bytes) option"
  en_junk :: u8
  en_addr :: nat
  en_mod :: "bool \<Rightarrow> nat"
  en_send :: "datagram \<Rightarrow> bool"

definition get_track :: "'l world \<Rightarrow> conn option \<Rightarrow> ctrack option option" where
  "get_track w r = (case r of None \<Rightarrow> Some None | Some c \<Rightarrow> map_option Some (hash_find (ct_pool (w_ct w)) c))"

definition set_track :: "conn option \<Rightarrow> ctrack option \<Rightarrow> 'l world \<Rightarrow> 'l world" where
  "set_track r t w =
     (case (r, t) of
        (Some c, Some t) \<Rightarrow> w\<lparr>w_ct := (w_ct w)\<lparr>ct_pool := hash_set (ct_pool (w_ct w)) c t\<rparr>\<rparr>
      | _ \<Rightarrow> w)"

definition sends :: "datagram list \<Rightarrow> 'l world \<Rightarrow> 'l world" where
  "sends gs w = w\<lparr>w_sent := w_sent w @ gs\<rparr>"

text \<open>The search for a profile, with the lists of the world.\<close>

definition find_profile :: "('l, 'n) env \<Rightarrow> target \<Rightarrow> hostcheck \<Rightarrow> 'l world \<Rightarrow> (nat option \<times> hostcheck \<times> 'l world) option" where
  "find_profile E x chk w = do {
     let LE = \<lparr>le_alloc = ae_alloc (en_ah E), le_os = ah_os (w_ah w), le_ip = en_ip E\<rparr>;
     (r, chk, hs, is) \<leftarrow> dp_find LE (ah_profiles (w_ah w)) x chk (ah_hosts (w_ah w), w_ips w);
     Some (r, chk, w\<lparr>w_ah := (w_ah w)\<lparr>ah_hosts := hs\<rparr>, w_ips := is\<rparr>) }"

subsection \<open>Reassembly of a client's hello\<close>

definition TCP_MAX_REASM :: nat where "TCP_MAX_REASM = 16384"
definition UDP_MAX_REASM :: nat where "UDP_MAX_REASM = 16384"

definition send_delayed :: "('l, 'n) env \<Rightarrow> ctrack \<Rightarrow> bool \<times> ctrack \<times> datagram list" where
  "send_delayed E t =
     (if \<not> rawpacket_queue_empty (delayed t)
      then (let (b, sent, q) = rawsend_queue (en_send E) (delayed t) in (b, t\<lparr>delayed := q\<rparr>, sent))
      else (True, t, []))"

definition reasm_start :: "('l, 'n) env \<Rightarrow> reasm \<Rightarrow> u32 \<Rightarrow> nat \<Rightarrow> nat \<Rightarrow> bytes \<Rightarrow> nat \<Rightarrow> (bool \<times> reasm) option" where
  "reasm_start E r sq sz szMax d len =
     (let r = ReasmClear r in
      if sz \<le> szMax then
        (let (ok, r) = ReasmInit (ae_alloc (en_ah E)) (en_junk E) r sz sq in
         if ok then do { (fed, r) \<leftarrow> ReasmFeed r sq d len; Some (True, r) } else Some (False, r))
      else Some (False, r))"

text \<open>A TCP hello is collected only if the window the server has shown takes it.\<close>

definition reasm_client_start :: "('l, 'n) env \<Rightarrow> ctrack \<Rightarrow> u8 \<Rightarrow> nat \<Rightarrow> nat \<Rightarrow> bytes \<Rightarrow> nat \<Rightarrow> (bool \<times> ctrack) option" where
  "reasm_client_start E t proto sz szMax d len =
     (if proto = IPPROTO_TCP \<and> pcounter (server (pos t)) \<noteq> 0 \<and> unat (winsize_calc (server (pos t))) < sz then Some (False, t)
      else do {
        (ok, r) \<leftarrow> reasm_start E (reasm_client t) (if proto = IPPROTO_TCP then seq_last (client (pos t)) else 0) sz szMax d len;
        Some (ok, t\<lparr>reasm_client := r\<rparr>) })"

definition reasm_feed :: "('l, 'n) env \<Rightarrow> ctrack \<Rightarrow> u32 \<Rightarrow> bytes \<Rightarrow> nat \<Rightarrow> (bool \<times> ctrack \<times> datagram list) option" where
  "reasm_feed E t sq d len =
     (if \<not> ReasmIsEmpty (reasm_client t) then do {
        (ok, r) \<leftarrow> ReasmFeed (reasm_client t) sq d len;
        if ok then Some (True, t\<lparr>reasm_client := r\<rparr>, [])
        else (let (b, t, sent) = send_delayed E (t\<lparr>reasm_client := ReasmClear r\<rparr>) in Some (False, t, sent)) }
      else Some (False, t, []))"

definition reasm_client_feed :: "('l, 'n) env \<Rightarrow> ctrack \<Rightarrow> u8 \<Rightarrow> bytes \<Rightarrow> nat \<Rightarrow> (bool \<times> ctrack \<times> datagram list) option" where
  "reasm_client_feed E t proto d len =
     reasm_feed E t (if proto = IPPROTO_TCP then seq_last (client (pos t)) else of_nat (r_present (reasm_client t))) d len"

definition reasm_client_stop :: "('l, 'n) env \<Rightarrow> ctrack \<Rightarrow> ctrack \<times> datagram list" where
  "reasm_client_stop E t =
     (let t = (if \<not> ReasmIsEmpty (reasm_client t) then t\<lparr>reasm_client := ReasmClear (reasm_client t)\<rparr> else t);
          (b, t, sent) = send_delayed E t
      in (t, sent))"

text \<open>\<open>reasm_client_cancel\<close> and \<open>reasm_client_fin\<close>, which differ in their message, on a connection of the world.\<close>

definition reasm_client_cancel :: "('l, 'n) env \<Rightarrow> conn option \<Rightarrow> 'l world \<Rightarrow> 'l world option" where
  "reasm_client_cancel E r w = do {
     t \<leftarrow> get_track w r;
     case t of None \<Rightarrow> Some w
     | Some t \<Rightarrow> (let (t, sent) = reasm_client_stop E t in Some (sends sent (set_track r (Some t) w))) }"

definition reasm_client_fin :: "('l, 'n) env \<Rightarrow> conn option \<Rightarrow> 'l world \<Rightarrow> 'l world option" where
  "reasm_client_fin E r w = reasm_client_cancel E r w"

subsection \<open>Endpoints and direction\<close>

text \<open>The source and the destination, from the headers at the given places.\<close>

definition extract_endpoints ::
  "bytes \<Rightarrow> nat option \<Rightarrow> nat option \<Rightarrow> nat option \<Rightarrow> nat option \<Rightarrow> (sockaddr \<times> sockaddr) option" where
  "extract_endpoints d ip ip6 tcp udp = do {
     let port = (\<lambda>k. case tcp of Some i \<Rightarrow> ld16 d (i + k) | None \<Rightarrow> (case udp of Some i \<Rightarrow> ld16 d (i + k) | None \<Rightarrow> Some 0));
     case ip of
       Some i \<Rightarrow> do {
         dport \<leftarrow> port 2; da \<leftarrow> ld32 d (i + 16); sp \<leftarrow> port 0; sa \<leftarrow> ld32 d (i + 12);
         Some (SA_INET sa sp, SA_INET da dport) }
     | None \<Rightarrow> (case ip6 of
         Some i \<Rightarrow> do {
           dport \<leftarrow> port 2; da \<leftarrow> rd_block d (i + 24) 16; sp \<leftarrow> port 0; sa \<leftarrow> rd_block d (i + 8) 16;
           Some (SA_INET6 sa sp, SA_INET6 da dport) }
       | None \<Rightarrow> Some (SA_OTHER, SA_OTHER)) }"

record direction =
  dr_src :: sockaddr
  dr_dst :: sockaddr
  dr_ip :: "bytes option"
  dr_ip6 :: "bytes option"
  dr_port :: u16

definition setup_direction :: "bool \<Rightarrow> dissect \<Rightarrow> bool \<Rightarrow> direction option" where
  "setup_direction srv dis bReverseFixed = do {
     let d = data_pkt dis;
     (src, dst) \<leftarrow> extract_endpoints d (d_ip dis) (d_ip6 dis) (d_tcp dis) (d_udp dis);
     let port = saport (if bReverseFixed \<noteq> srv then src else dst);
     case d_ip6 dis of
       Some i \<Rightarrow> do {
         a \<leftarrow> rd_block d (i + (if bReverseFixed then 8 else 24)) 16;
         Some \<lparr>dr_src = src, dr_dst = dst, dr_ip = None, dr_ip6 = Some a, dr_port = port\<rparr> }
     | None \<Rightarrow> (case d_ip dis of
         Some i \<Rightarrow> do {
           a \<leftarrow> rd_block d (i + (if bReverseFixed then 12 else 16)) 4;
           Some \<lparr>dr_src = src, dr_dst = dst, dr_ip = Some a, dr_ip6 = None, dr_port = port\<rparr> }
       | None \<Rightarrow> Some \<lparr>dr_src = src, dr_dst = dst, dr_ip = None, dr_ip6 = None, dr_port = 0\<rparr>) }"

subsection \<open>The state of a packet\<close>

text \<open>
  \<open>struct play_state\<close>. Connections are named by their keys, the profile by its index. \<open>ps_tpos\<close> is the recorded position of
  a replayed packet; without one the position of the connection is meant. \<open>ps_host\<close> is the C string in \<open>host\<close>.
\<close>

record play_state =
  ps_dis :: dissect
  ps_dp :: "nat option"
  ps_tpos :: "ctrack_positions option"
  ps_ctrack :: "conn option"
  ps_replay :: "conn option"
  ps_dir :: direction
  ps_host :: bytes
  ps_l7proto :: t_l7proto
  ps_l7payload :: t_l7payload
  ps_ssid :: "bytes option"
  ps_rev :: bool
  ps_rev_fixed :: bool
  ps_have_host :: bool

definition ps_target :: "play_state \<Rightarrow> bytes option \<Rightarrow> bool \<Rightarrow> target" where
  "ps_target ps host nosub = \<lparr>tg_proto = d_proto (ps_dis ps), tg_ip = dr_ip (ps_dir ps), tg_ip6 = dr_ip6 (ps_dir ps),
     tg_ipr = None, tg_ipr6 = None, tg_port = dr_port (ps_dir ps), tg_icmp_type = 255, tg_icmp_code = 255,
     tg_host = host, tg_nosub = nosub, tg_l7 = ps_l7proto ps, tg_ssid = ps_ssid ps\<rparr>"

definition ps_positions :: "'l world \<Rightarrow> play_state \<Rightarrow> ctrack_positions option option" where
  "ps_positions w ps =
     (case ps_tpos ps of Some tp \<Rightarrow> Some (Some tp) | None \<Rightarrow> map_option (map_option pos) (get_track w (ps_replay ps)))"

definition no_check :: hostcheck where "no_check = (False, False, False)"

subsection \<open>play_prolog\<close>

text \<open>A fresh state of the packet, before the profile is known.\<close>

definition ps_start :: "('l, 'n) env \<Rightarrow> dissect \<Rightarrow> ctrack_positions option \<Rightarrow> bytes \<Rightarrow> bytes \<Rightarrow> conn option \<Rightarrow> conn option \<Rightarrow>
    bool \<Rightarrow> bool \<Rightarrow> ctrack option \<Rightarrow> play_state option" where
  "ps_start E dis tpos ifin ifout c cr back backf t = do {
     dr \<leftarrow> setup_direction (ae_server (en_ah E)) dis backf;
     Some \<lparr>ps_dis = dis, ps_dp = (case t of None \<Rightarrow> None | Some t \<Rightarrow> dp t), ps_tpos = tpos, ps_ctrack = c, ps_replay = cr,
       ps_dir = dr, ps_host = [], ps_l7proto = (case t of None \<Rightarrow> L7_UNKNOWN | Some t \<Rightarrow> l7proto t),
       ps_l7payload = (if len_payload dis \<noteq> 0 then L7P_UNKNOWN else L7P_EMPTY), ps_ssid = en_ssid E (if back then ifin else ifout),
       ps_rev = back, ps_rev_fixed = backf, ps_have_host = False\<rparr> }"

text \<open>A replayed packet belongs to a connection that is there, and has its direction.\<close>

definition prolog_replay :: "('l, 'n) env \<Rightarrow> dissect \<Rightarrow> ctrack_positions option \<Rightarrow> bytes \<Rightarrow> bytes \<Rightarrow> 'l world \<Rightarrow>
    (play_state option \<times> 'l world) option" where
  "prolog_replay E dis tpos ifin ifout w = do {
     r \<leftarrow> ConntrackPoolDoubleSearch (w_ct w) dis;
     case r of None \<Rightarrow> Some (None, w)
     | Some (c, back) \<Rightarrow>
         if back then Some (None, w)
         else do {
           t \<leftarrow> hash_find (ct_pool (w_ct w)) c;
           ps \<leftarrow> ps_start E dis tpos ifin ifout None (Some c) back (back \<noteq> ae_server (en_ah E)) (Some t);
           (ps, w) \<leftarrow>
             (if ps_dp ps = None \<and> \<not> dp_search_complete t then do {
                (r, chk, w) \<leftarrow> find_profile E (ps_target ps (hostname t) (hostname_is_ip t)) no_check w;
                Some (ps\<lparr>ps_dp := r\<rparr>, set_track (Some c) (Some (t\<lparr>dp := r, dp_search_complete := True\<rparr>)) w) }
              else Some (ps, w));
           Some (if ps_dp ps = None then None else Some ps, w) } }"

text \<open>A packet of the network feeds the connection table.\<close>

definition prolog_track :: "('l, 'n) env \<Rightarrow> dissect \<Rightarrow> 'l world \<Rightarrow> ('l world \<times> (conn \<times> bool) option) option" where
  "prolog_track E dis w =
     (if en_ctrack_disable E then Some (w, None)
      else do {
        (ct, r) \<leftarrow> ConntrackPoolFeed (ae_alloc (en_ah E)) (en_refs E) (en_now E) (ConntrackPoolPurge (en_now E) (w_ct w)) dis;
        Some (w\<lparr>w_ct := ct\<rparr>, r) })"

text \<open>The host name the search starts with: the one of the connection, else the one remembered for the address. The flag
  that comes with the remembered one is used here but not stored.\<close>

definition prolog_host :: "('l, 'n) env \<Rightarrow> play_state \<Rightarrow> ctrack option \<Rightarrow> ip_cache \<Rightarrow> bytes option \<times> bool \<times> bytes \<times> ctrack option" where
  "prolog_host E ps t ipc =
     (case t of None \<Rightarrow> (None, False, ps_host ps, None)
      | Some tr \<Rightarrow>
          if hostname tr = None \<and> \<not> ps_rev ps then
            (case ipcache_get_hostname (en_cache_hostname E) ipc (dr_ip (ps_dir ps)) (dr_ip6 (ps_dir ps)) 256 of
               (found, h, flag) \<Rightarrow>
                 let is_ip = (case flag of None \<Rightarrow> hostname_is_ip tr | Some b \<Rightarrow> b) in
                 if found \<and> ae_alloc (en_ah E) then (Some h, is_ip, h, Some (tr\<lparr>hostname := Some h\<rparr>))
                 else (None, is_ip, h, Some tr))
          else (hostname tr, hostname_is_ip tr, ps_host ps, Some tr))"

definition prolog_profile :: "('l, 'n) env \<Rightarrow> play_state \<Rightarrow> 'l world \<Rightarrow> (play_state \<times> 'l world) option" where
  "prolog_profile E ps w = do {
     t \<leftarrow> get_track w (ps_ctrack ps);
     if ps_dp ps \<noteq> None \<or> (case t of None \<Rightarrow> False | Some t \<Rightarrow> dp_search_complete t) then Some (ps, w)
     else do {
       let (host, is_ip, buf, t) = prolog_host E ps t (w_ipc w);
       let ps = ps\<lparr>ps_host := buf\<rparr>;
       (r, chk, w) \<leftarrow> find_profile E (ps_target ps host is_ip) no_check w;
       let t = map_option (\<lambda>t. t\<lparr>dp := r, dp_search_complete := True\<rparr>) t;
       Some (ps\<lparr>ps_dp := r\<rparr>, set_track (ps_ctrack ps) t w) } }"

text \<open>The fail counters of the profile expire, and the hop count of incoming packets is remembered.\<close>

definition prolog_ttl :: "('l, 'n) env \<Rightarrow> play_state \<Rightarrow> bytes \<Rightarrow> bytes \<Rightarrow> 'l world \<Rightarrow> 'l world option" where
  "prolog_ttl E ps ifin ifout w = do {
     let dis = ps_dis ps;
     t \<leftarrow> get_track w (ps_ctrack ps);
     if ps_rev_fixed ps then do {
       t \<leftarrow> (case t of None \<Rightarrow> Some None
         | Some tr \<Rightarrow> if incoming_ttl tr = 0
             then map_option (\<lambda>n. Some (tr\<lparr>incoming_ttl := n\<rparr>)) (ttl46 (data_pkt dis) (d_ip dis) (d_ip6 dis))
             else Some (Some tr));
       let (ipc, t) = ipcache_update_ttl (ae_server (en_ah E)) (ae_alloc (en_ah E)) (en_now E) (w_ipc w) t
             (dr_ip (ps_dir ps)) (dr_ip6 (ps_dir ps)) (Some ifin);
       Some (set_track (ps_ctrack ps) t (w\<lparr>w_ipc := ipc\<rparr>)) }
     else
       (let t = ipcache_get_ttl (ae_server (en_ah E)) (w_ipc w) t (dr_ip (ps_dir ps)) (dr_ip6 (ps_dir ps)) (Some ifout)
        in Some (set_track (ps_ctrack ps) t w)) }"

definition prolog_purge :: "('l, 'n) env \<Rightarrow> nat \<Rightarrow> 'l world \<Rightarrow> 'l world option" where
  "prolog_purge E i w = do {
     p \<leftarrow> rd (ah_profiles (w_ah w)) i;
     let (pp, prev) = HostFailPoolPurgeRateLimited (ae_now (en_ah E)) (fail_counters p) (last_purge p);
     Some (w\<lparr>w_ah := (w_ah w)\<lparr>ah_profiles := (ah_profiles (w_ah w))[i := p\<lparr>fail_counters := pp, last_purge := prev\<rparr>]\<rparr>\<rparr>) }"

definition prolog_real :: "('l, 'n) env \<Rightarrow> dissect \<Rightarrow> ctrack_positions option \<Rightarrow> bytes \<Rightarrow> bytes \<Rightarrow> 'l world \<Rightarrow>
    (play_state option \<times> 'l world) option" where
  "prolog_real E dis tpos ifin ifout w = do {
     (w, r) \<leftarrow> prolog_track E dis w;
     let c = map_option fst r;
     let back = (case r of Some (c, back) \<Rightarrow> back | None \<Rightarrow> ifin \<noteq> [] \<and> ifout = []);
     let backf = (case r of Some (c, back) \<Rightarrow> back \<noteq> ae_server (en_ah E) | None \<Rightarrow> back);
     t \<leftarrow> get_track w c;
     ps \<leftarrow> ps_start E dis tpos ifin ifout c c back backf t;
     (ps, w) \<leftarrow> prolog_profile E ps w;
     case ps_dp ps of None \<Rightarrow> Some (None, w)
     | Some i \<Rightarrow> do {
         w \<leftarrow> prolog_purge E i w;
         w \<leftarrow> prolog_ttl E ps ifin ifout w;
         Some (Some ps, w) } }"

definition play_prolog :: "('l, 'n) env \<Rightarrow> dissect \<Rightarrow> ctrack_positions option \<Rightarrow> bool \<Rightarrow> bytes \<Rightarrow> bytes \<Rightarrow> 'l world \<Rightarrow>
    (play_state option \<times> 'l world) option" where
  "play_prolog E dis tpos bReplay ifin ifout w =
     (if (d_ip dis = None) = (d_ip6 dis = None) then Some (None, w)
      else if bReplay then prolog_replay E dis tpos ifin ifout w
      else prolog_real E dis tpos ifin ifout w)"

subsection \<open>dp_rediscovery\<close>

text \<open>Whether the protocol has been found just now.\<close>

definition discover_l7 :: "play_state \<Rightarrow> ctrack option \<Rightarrow> bool \<times> ctrack option" where
  "discover_l7 ps t =
     (case t of None \<Rightarrow> (ps_l7proto ps \<noteq> L7_UNKNOWN, None)
      | Some tr \<Rightarrow>
          let b = (\<not> l7proto_discovered tr \<and> l7proto tr \<noteq> L7_UNKNOWN)
          in (b, Some (if b then tr\<lparr>l7proto_discovered := True\<rparr> else tr)))"

text \<open>A host name that has been found just now goes to the connection and the address cache; the first flag tells whether
  to go on, the second whether there was one.\<close>

definition discover_host :: "('l, 'n) env \<Rightarrow> play_state \<Rightarrow> bool \<Rightarrow> ctrack option \<Rightarrow> ip_cache \<Rightarrow> bool \<times> bool \<times> ctrack option \<times> ip_cache" where
  "discover_host E ps is_ip t ipc =
     (let found = (ps_have_host ps \<and> \<not> (case t of None \<Rightarrow> False | Some tr \<Rightarrow> hostname_discovered tr)) in
      case t of None \<Rightarrow> (True, found, None, ipc)
      | Some tr \<Rightarrow>
          if \<not> found then (True, False, t, ipc)
          else if \<not> ae_alloc (en_ah E) then (False, True, Some (tr\<lparr>hostname := None, hostname_is_ip := is_ip\<rparr>), ipc)
          else
            (let tr = tr\<lparr>hostname := Some (ps_host ps), hostname_is_ip := is_ip, hostname_discovered := True\<rparr>;
                 (ok, ipc) = ipcache_put_hostname (en_cache_hostname E) True True (en_now E) ipc
                               (dr_ip (ps_dir ps)) (dr_ip6 (ps_dir ps)) (ps_host ps) is_ip
             in (ok, True, Some tr, ipc)))"

definition track_check :: "ctrack option \<Rightarrow> hostcheck" where
  "track_check t = (case t of None \<Rightarrow> no_check | Some tr \<Rightarrow> (bCheckDone tr, bCheckResult tr, bCheckExcluded tr))"

definition put_check :: "hostcheck \<Rightarrow> ctrack \<Rightarrow> ctrack" where
  "put_check = (\<lambda>(done, res, ex) t. t\<lparr>bCheckDone := done, bCheckResult := res, bCheckExcluded := ex\<rparr>)"

text \<open>The profile is searched again.\<close>

definition rediscover_profile :: "('l, 'n) env \<Rightarrow> play_state \<Rightarrow> bool \<Rightarrow> hostcheck \<Rightarrow> 'l world \<Rightarrow>
    (play_state \<times> hostcheck \<times> 'l world) option" where
  "rediscover_profile E ps is_ip chk w = do {
     t \<leftarrow> get_track w (ps_replay ps);
     let x = (case t of Some tr \<Rightarrow> ps_target ps (hostname tr) (hostname_is_ip tr)
              | None \<Rightarrow> ps_target ps (if ps_have_host ps then Some (ps_host ps) else None) is_ip);
     (r, chk, w) \<leftarrow> find_profile E x chk w;
     let t = map_option (\<lambda>tr. put_check chk (tr\<lparr>dp := r, dp_search_complete := True\<rparr>)) t;
     let t = (if r \<noteq> None \<and> r \<noteq> ps_dp ps then dp_changed t else t);
     Some (ps\<lparr>ps_dp := r\<rparr>, chk, set_track (ps_replay ps) t w) }"

text \<open>The host name is looked up in the lists of the profile, unless the search has done that; the answer decides whether
  failures of the connection are counted.\<close>

definition ah_decide :: "u8 \<Rightarrow> desync_profile \<Rightarrow> hostcheck \<Rightarrow> ctrack \<Rightarrow> ctrack" where
  "ah_decide proto p = (\<lambda>(done, res, ex) t.
     if res then (if proto = IPPROTO_TCP then ctrack_stop_retrans_counter t else t)
     else
       (let t = t\<lparr>hostname_ah_check := hostlist_auto p \<noteq> None \<and> \<not> ex\<rparr>
        in if proto = IPPROTO_TCP \<and> \<not> hostname_ah_check t then ctrack_stop_retrans_counter t else t))"

definition rediscover_check :: "('l, 'n) env \<Rightarrow> play_state \<Rightarrow> bool \<Rightarrow> hostcheck \<Rightarrow> 'l world \<Rightarrow> (hostcheck \<times> 'l world) option" where
  "rediscover_check E ps is_ip chk w = do {
     i \<leftarrow> ps_dp ps;
     p \<leftarrow> rd (ah_profiles (w_ah w)) i;
     emp \<leftarrow> cand (Some (ps_have_host ps)) (map_option Not (PROFILE_HOSTLISTS_EMPTY p (ah_hosts (w_ah w))));
     if \<not> emp then Some (chk, w)
     else do {
       (chk, w) \<leftarrow>
         (if \<not> fst chk then do {
            (b, ex, hs) \<leftarrow> HostlistCheck (ae_alloc (en_ah E)) (ah_os (w_ah w)) (autolists (ah_profiles (w_ah w)))
                             (hl_collection p) (hl_collection_exclude p) (ah_hosts (w_ah w)) (ps_host ps) is_ip False;
            let w = w\<lparr>w_ah := (w_ah w)\<lparr>ah_hosts := hs\<rparr>\<rparr>;
            t \<leftarrow> get_track w (ps_replay ps);
            Some ((True, b, ex), set_track (ps_replay ps) (map_option (put_check (True, b, ex)) t) w) }
          else Some (chk, w));
       t \<leftarrow> get_track w (ps_replay ps);
       Some (chk, set_track (ps_replay ps) (map_option (ah_decide (d_proto (ps_dis ps)) p chk) t) w) } }"

definition rediscover_udp :: "('l, 'n) env \<Rightarrow> play_state \<Rightarrow> 'l world \<Rightarrow> 'l world option" where
  "rediscover_udp E ps w =
     (if ps_replay ps \<noteq> None \<and> d_proto (ps_dis ps) = IPPROTO_UDP then do {
        t \<leftarrow> get_track w (ps_replay ps);
        (t, ah) \<leftarrow> process_udp_fail (en_ah E) t (ps_tpos ps) (w_ah w);
        Some (set_track (ps_replay ps) t (w\<lparr>w_ah := ah\<rparr>)) }
      else Some w)"

definition dp_rediscovery :: "('l, 'n) env \<Rightarrow> play_state \<Rightarrow> 'l world \<Rightarrow> (bool \<times> play_state \<times> 'l world) option" where
  "dp_rediscovery E ps w = do {
     let (is_ip, host) = (if ps_have_host ps
           then strip_host_to_ip (\<lambda>s. pton6 (en_ip E) s \<noteq> None) (\<lambda>s. pton4 (en_ip E) s \<noteq> None) (ps_host ps)
           else (False, ps_host ps));
     let ps = ps\<lparr>ps_host := host\<rparr>;
     t \<leftarrow> get_track w (ps_replay ps);
     let (new_l7, t) = discover_l7 ps t;
     let (ok, new_host, t, ipc) = discover_host E ps is_ip t (w_ipc w);
     let w = set_track (ps_replay ps) t (w\<lparr>w_ipc := ipc\<rparr>);
     if \<not> ok then Some (False, ps, w)
     else do {
       (ps, chk, w) \<leftarrow> (if new_l7 \<or> new_host then rediscover_profile E ps is_ip (track_check t) w else Some (ps, track_check t, w));
       if ps_dp ps = None then Some (False, ps, w)
       else do {
         (chk, w) \<leftarrow> rediscover_check E ps is_ip chk w;
         w \<leftarrow> rediscover_udp E ps w;
         Some (\<not> (fst chk \<and> \<not> fst (snd chk)), ps, w) } } }"
end
