(* ===== verification/Packet.thy ===== *)
theory Packet
  imports Play QuicOpen Probe
begin

text \<open>
  The path of a packet through src/nfq2/desync.c, second part: the handlers for TCP, UDP, ICMP and other packets, the replay
  of delayed packets, and the entry \<open>dpi_desync_packet\<close>. A handler is given the player \<open>R\<close> for replayed packets. The
  code's recursion (a packet may replay others) becomes a recursion on a depth; the depth 2 that the entry uses is
  enough, because a replayed packet never replays.
\<close>

subsection \<open>Verdict and rebuilt packet\<close>

type_synonym verdict = "u8 \<times> bytes option"

text \<open>Dropping the first packet of a connection behind NAT would tear down the kernel's connection; the packet is
  made invalid instead. \<open>cap\<close> is the room in the buffer for the modified packet.\<close>

definition ct_new_postnat_fix :: "bool \<Rightarrow> ctrack option \<Rightarrow> dissect \<Rightarrow> nat \<Rightarrow> verdict option" where
  "ct_new_postnat_fix srv t dis cap = do {
     let d = data_pkt dis;
     is_new \<leftarrow> (case t of
         Some tr \<Rightarrow> Some (pcounter (if srv then server (pos tr) else client (pos tr)) = 1)
       | None \<Rightarrow> (case d_tcp dis of None \<Rightarrow> Some False | Some tcp \<Rightarrow> cor (tcp_syn_segment d tcp) (tcp_synack_segment d tcp)));
     if is_new \<and> len_pkt dis \<le> cap then do {
       m \<leftarrow> rd_block d 0 (len_pkt dis);
       m \<leftarrow> (if d_ip6 dis \<noteq> None then do { m \<leftarrow> wr m 6 255; wr m 7 1 } else Some m);
       m \<leftarrow> (if d_ip dis \<noteq> None then do { m \<leftarrow> wr m 9 255; wr m 8 1 } else Some m);
       Some (VERDICT_MODIFY OR VERDICT_NOCSUM, Some m) }
     else Some (VERDICT_DROP, None) }"

text \<open>The payload the packet carries.\<close>

definition payload_of :: "dissect \<Rightarrow> bytes option" where
  "payload_of dis = do { y \<leftarrow> data_payload dis; Some (drop y (data_pkt dis)) }"

text \<open>What a handler was called with.\<close>

record play_args =
  pa_piece :: nat
  pa_count :: nat
  pa_offset :: nat
  pa_fwmark :: u32
  pa_ifin :: bytes
  pa_ifout :: bytes
  pa_tpos :: "ctrack_positions option"

text \<open>The call of \<open>desync\<close> at the end of the handlers.\<close>

definition play_desync :: "('l, 'n) env \<Rightarrow> play_args \<Rightarrow> nat \<Rightarrow> play_state \<Rightarrow> bytes option \<Rightarrow> bytes option \<Rightarrow> 'l world \<Rightarrow>
    (verdict \<times> 'l world) option" where
  "play_desync E a cap ps reasm_data decrypt w = do {
     i \<leftarrow> ps_dp ps;
     p \<leftarrow> rd (ah_profiles (w_ah w)) i;
     t \<leftarrow> get_track w (ps_replay ps);
     let c = \<lparr>dc_fwmark = pa_fwmark a, dc_ifin = pa_ifin a, dc_ifout = pa_ifout a, dc_incoming = ps_rev_fixed ps,
       dc_server = ae_server (en_ah E), dc_l7payload = ps_l7payload ps, dc_l7proto = ps_l7proto ps, dc_dis = ps_dis ps,
       dc_ip = dr_ip (ps_dir ps), dc_ip6 = dr_ip6 (ps_dir ps), dc_port = dr_port (ps_dir ps), dc_piece = pa_piece a,
       dc_count = pa_count a, dc_offset = pa_offset a, dc_reasm = reasm_data, dc_decrypt = decrypt\<rparr>;
     (v, m, t, s) \<leftarrow> desync (en_lua E) p t (pa_tpos a) c (en_mod E (pa_count a \<noteq> 0)) cap (w_lua w);
     Some ((v, m), set_track (ps_replay ps) t (w\<lparr>w_lua := s\<rparr>)) }"

text \<open>The end of the TCP and the UDP handler; \<open>cancel\<close> tells whether a refusal cancels the reassembly.\<close>

definition play_finish :: "('l, 'n) env \<Rightarrow> play_args \<Rightarrow> nat \<Rightarrow> bool \<Rightarrow> play_state \<Rightarrow> bytes option \<Rightarrow> bytes option \<Rightarrow> 'l world \<Rightarrow>
    (verdict \<times> 'l world) option" where
  "play_finish E a cap cancel ps reasm_data decrypt w = do {
     (ok, ps, w) \<leftarrow> dp_rediscovery E ps w;
     ((v, m), w) \<leftarrow>
       (if ok then play_desync E a cap ps reasm_data decrypt w
        else do {
          w \<leftarrow> (if cancel then reasm_client_cancel E (ps_ctrack ps) w else Some w);
          Some ((VERDICT_PASS, None), w) });
     if \<not> ps_rev_fixed ps \<and> v AND VERDICT_MASK = VERDICT_DROP then do {
       t \<leftarrow> get_track w (ps_ctrack ps);
       vm \<leftarrow> ct_new_postnat_fix (ae_server (en_ah E)) t (ps_dis ps) cap;
       Some (vm, w) }
     else Some ((v, m), w) }"

subsection \<open>Replay of delayed packets\<close>

type_synonym 'l player = "play_args \<Rightarrow> rawpacket \<Rightarrow> 'l world \<Rightarrow> (verdict \<times> 'l world) option"

text \<open>What is sent for a replayed packet.\<close>

definition replay_send :: "rawpacket \<Rightarrow> verdict \<Rightarrow> datagram list option" where
  "replay_send rp = (\<lambda>(v, m).
     if v AND VERDICT_MASK = VERDICT_MODIFY then map_option (\<lambda>m. [(rp_dst rp, rp_fwmark rp, rp_ifout rp, m)]) m
     else if v AND VERDICT_MASK = VERDICT_PASS
     then Some [(rp_dst rp, rp_fwmark rp, rp_ifout rp, take (rp_len rp) (rp_packet rp))]
     else Some [])"

text \<open>\<open>replay_queue\<close> on the queue of a connection; it could run forever if playing filled the queue.\<close>

partial_function (option) replay_delayed :: "'l player \<Rightarrow> conn \<Rightarrow> nat \<Rightarrow> nat \<Rightarrow> nat \<Rightarrow> u32 option \<Rightarrow> 'l world \<Rightarrow> 'l world option" where
  "replay_delayed R c count i off s0 w = do {
     t \<leftarrow> hash_find (ct_pool (w_ct w)) c;
     (case rawpacket_dequeue (delayed t) of
        (None, q) \<Rightarrow> Some w
      | (Some rp, q) \<Rightarrow> do {
          let w = set_track (Some c) (Some (t\<lparr>delayed := q\<rparr>)) w;
          (bseq, off, s0) \<leftarrow> replay_offset i off s0 rp;
          (vm, w) \<leftarrow> R \<lparr>pa_piece = i, pa_count = count, pa_offset = off, pa_fwmark = rp_fwmark_orig rp, pa_ifin = rp_ifin rp,
                        pa_ifout = rp_ifout rp, pa_tpos = rp_tpos rp\<rparr> rp w;
          g \<leftarrow> replay_send rp vm;
          replay_delayed R c count (i + 1) (if bseq then off else off + rp_len_payload rp) s0 (sends g w) }) }"

declare replay_delayed.simps [code]

definition replay_finish :: "('l, 'n) env \<Rightarrow> 'l player \<Rightarrow> conn \<Rightarrow> 'l world \<Rightarrow> 'l world option" where
  "replay_finish E R c w = do {
     t \<leftarrow> hash_find (ct_pool (w_ct w)) c;
     w \<leftarrow> replay_delayed R c (unat (rawpacket_queue_count (delayed t))) 0 0 None w;
     reasm_client_fin E (Some c) w }"

text \<open>A packet is put behind the delayed ones of its connection.\<close>

definition delay_packet :: "('l, 'n) env \<Rightarrow> play_args \<Rightarrow> play_state \<Rightarrow> conn \<Rightarrow> 'l world \<Rightarrow> (bool \<times> 'l world) option" where
  "delay_packet E a ps c w = do {
     t \<leftarrow> hash_find (ct_pool (w_ct w)) c;
     let dis = ps_dis ps;
     (ok, q) \<leftarrow> rawpacket_queue (ae_alloc (en_ah E)) (delayed t) (dr_dst (ps_dir ps)) (pa_fwmark a) (pa_fwmark a OR en_fwmark E)
       (Some (pa_ifin a)) (Some (pa_ifout a)) (data_pkt dis) (len_pkt dis) (len_payload dis) (Some (pos t)) False;
     Some (ok, set_track (Some c) (Some (t\<lparr>delayed := q\<rparr>)) w) }"

text \<open>The reassembly of a connection is begun unless the condition \<open>b\<close> fails.\<close>

definition start_reasm :: "('l, 'n) env \<Rightarrow> bool \<Rightarrow> u8 \<Rightarrow> nat \<Rightarrow> nat \<Rightarrow> bytes \<Rightarrow> nat \<Rightarrow> conn \<Rightarrow> 'l world \<Rightarrow> (bool \<times> 'l world) option" where
  "start_reasm E b proto sz szMax d len c w =
     (if b then do {
        t \<leftarrow> hash_find (ct_pool (w_ct w)) c;
        (ok, t) \<leftarrow> reasm_client_start E t proto sz szMax d len;
        Some (ok, set_track (Some c) (Some t) w) }
      else Some (True, w))"

text \<open>What becomes of a packet that may be a part of a hello: it goes on, or it goes on without its host name, or it has
  been delayed.\<close>

datatype delay = GoOn | GiveUp | Delayed

definition delay_step :: "('l, 'n) env \<Rightarrow> 'l player \<Rightarrow> play_args \<Rightarrow> play_state \<Rightarrow> (reasm \<Rightarrow> bool) \<Rightarrow> conn \<Rightarrow> 'l world \<Rightarrow>
    (delay \<times> 'l world) option" where
  "delay_step E R a ps complete c w = do {
     t \<leftarrow> hash_find (ct_pool (w_ct w)) c;
     if ReasmIsEmpty (reasm_client t) then Some (GoOn, w)
     else do {
       (ok, w) \<leftarrow> delay_packet E a ps c w;
       if \<not> ok then Some (GiveUp, w)
       else do {
         w \<leftarrow> (if complete (reasm_client t) then replay_finish E R c w else Some w);
         Some (Delayed, w) } } }"

subsection \<open>TCP\<close>

text \<open>A packet of the other direction: the reply is recognised, and may show that the host is blocked.\<close>

definition tcp_incoming :: "('l, 'n) env \<Rightarrow> play_state \<Rightarrow> u8 \<Rightarrow> 'l world \<Rightarrow> (play_state \<times> 'l world) option" where
  "tcp_incoming E ps fl w = do {
     let dis = ps_dis ps;
     (ps, w) \<leftarrow>
       (if fl AND TH_SYN = 0 \<and> len_payload dis \<noteq> 0 then do {
          y \<leftarrow> payload_of dis;
          t \<leftarrow> get_track w (ps_ctrack ps);
          (t, l7, l7p) \<leftarrow> protocol_probe (en_payload_disable E) tcp_reverse_testers y (len_payload dis) (t, ps_l7proto ps, ps_l7payload ps);
          Some (ps\<lparr>ps_l7proto := l7, ps_l7payload := l7p\<rparr>, set_track (ps_ctrack ps) t w) }
        else Some (ps, w));
     i \<leftarrow> ps_dp ps;
     t \<leftarrow> get_track w (ps_ctrack ps);
     (t, ah) \<leftarrow> tcp_reply_fail (en_ah E) t i dis (ps_l7payload ps = L7P_HTTP_REPLY) (w_ah w);
     Some (ps, set_track (ps_ctrack ps) t (w\<lparr>w_ah := ah\<rparr>)) }"

text \<open>The bytes a client packet is recognised by: those of the reassembly, if it is a part of one.\<close>

definition tcp_rdata :: "('l, 'n) env \<Rightarrow> bool \<Rightarrow> play_state \<Rightarrow> bytes \<Rightarrow> 'l world \<Rightarrow> (bytes \<times> nat \<times> 'l world) option" where
  "tcp_rdata E replay ps y w =
     (if replay then do {
        t \<leftarrow> get_track w (ps_replay ps);
        tr \<leftarrow> t;
        Some (r_packet (reasm_client tr), r_present (reasm_client tr), w) }
      else do {
        t \<leftarrow> get_track w (ps_ctrack ps);
        case t of None \<Rightarrow> Some (y, len_payload (ps_dis ps), w)
        | Some tr \<Rightarrow> do {
            (fed, tr, sent) \<leftarrow> reasm_client_feed E tr IPPROTO_TCP y (len_payload (ps_dis ps));
            let w = sends sent (set_track (ps_ctrack ps) (Some tr) w);
            Some (if fed then (r_packet (reasm_client tr), r_present (reasm_client tr), w)
                  else (y, len_payload (ps_dis ps), w)) } })"

definition retrans_step :: "('l, 'n) env \<Rightarrow> play_args \<Rightarrow> play_state \<Rightarrow> 'l world \<Rightarrow> 'l world option" where
  "retrans_step E a ps w = do {
     t \<leftarrow> get_track w (ps_ctrack ps);
     (t, ah, sent) \<leftarrow> process_retrans_fail (en_ah E) (en_addr E) t (ps_dis ps) (dr_src (ps_dir ps)) (pa_ifin a) (w_ah w);
     Some (sends sent (set_track (ps_ctrack ps) t (w\<lparr>w_ah := ah\<rparr>))) }"

text \<open>While a reassembly is going on, nothing is recognised.\<close>

definition reasm_idle :: "ctrack option \<Rightarrow> bool" where
  "reasm_idle t = (case t of None \<Rightarrow> True | Some tr \<Rightarrow> ReasmIsEmpty (reasm_client tr))"

definition tcp_detect :: "('l, 'n) env \<Rightarrow> play_state \<Rightarrow> bytes \<Rightarrow> nat \<Rightarrow> 'l world \<Rightarrow> (play_state \<times> 'l world) option" where
  "tcp_detect E ps rdata rlen w = do {
     t \<leftarrow> get_track w (ps_replay ps);
     if reasm_idle t then do {
       tpos \<leftarrow> ps_positions w ps;
       (t, l7, l7p) \<leftarrow> tcp_client_probe (en_setkey E) (en_payload_disable E) tpos rdata rlen (t, ps_l7proto ps, ps_l7payload ps);
       Some (ps\<lparr>ps_l7proto := l7, ps_l7payload := l7p\<rparr>, set_track (ps_replay ps) t w) }
     else Some (ps, w) }"

text \<open>A TLS hello that is not complete is collected; its packets wait.\<close>

definition tcp_collect :: "('l, 'n) env \<Rightarrow> 'l player \<Rightarrow> play_args \<Rightarrow> play_state \<Rightarrow> bytes \<Rightarrow> bool \<Rightarrow> 'l world \<Rightarrow> (delay \<times> 'l world) option" where
  "tcp_collect E R a ps y full w =
     (case ps_ctrack ps of
        None \<Rightarrow> Some (GoOn, w)
      | Some c \<Rightarrow>
          if l7_payload_match (ps_l7payload ps) (en_reasm_disable E) then Some (GoOn, w)
          else do {
            t \<leftarrow> hash_find (ct_pool (w_ct w)) c;
            let b = (\<not> full \<and> ReasmIsEmpty (reasm_client t) \<and> \<not> is_retransmission (client (pos t)));
            sz \<leftarrow> (if b then TLSRecordLen y 0 else Some 0);
            (ok, w) \<leftarrow> start_reasm E b IPPROTO_TCP sz TCP_MAX_REASM y (len_payload (ps_dis ps)) c w;
            if \<not> ok then Some (GiveUp, w) else delay_step E R a ps ReasmIsFull c w })"

definition set_host :: "bytes option \<Rightarrow> play_state \<Rightarrow> play_state" where
  "set_host h ps = (case h of None \<Rightarrow> ps\<lparr>ps_have_host := False\<rparr> | Some s \<Rightarrow> ps\<lparr>ps_have_host := True, ps_host := c_str s\<rparr>)"

definition tcp_payload :: "('l, 'n) env \<Rightarrow> 'l player \<Rightarrow> play_args \<Rightarrow> play_state \<Rightarrow> bytes \<Rightarrow> bytes \<Rightarrow> nat \<Rightarrow> 'l world \<Rightarrow>
    (bool \<times> play_state \<times> 'l world) option" where
  "tcp_payload E R a ps y rdata rlen w = do {
     t \<leftarrow> get_track w (ps_replay ps);
     if ps_l7payload ps = L7P_HTTP_REQ then do {
       h \<leftarrow> HttpExtractHost rdata rlen 256;
       Some (False, set_host h ps, w) }
     else if ps_l7payload ps = L7P_TLS_CLIENT_HELLO
       \<or> ps_l7proto ps = L7_TLS \<and> ps_l7payload ps = L7P_UNKNOWN \<and> \<not> reasm_idle t then do {
       let ps = ps\<lparr>ps_l7payload := L7P_TLS_CLIENT_HELLO\<rparr>;
       full \<leftarrow> IsTLSRecordFull rdata 0 rlen;
       (r, w) \<leftarrow> tcp_collect E R a ps y full w;
       (case r of
          Delayed \<Rightarrow> Some (True, ps, w)
        | GiveUp \<Rightarrow> Some (False, ps, w)
        | GoOn \<Rightarrow> do { h \<leftarrow> TLSHelloExtractHost rdata rlen 256 True; Some (False, set_host h ps, w) }) }
     else Some (False, ps, w) }"

definition tcp_outgoing :: "('l, 'n) env \<Rightarrow> 'l player \<Rightarrow> play_args \<Rightarrow> play_state \<Rightarrow> bytes \<Rightarrow> 'l world \<Rightarrow>
    (bool \<times> play_state \<times> bytes \<times> 'l world) option" where
  "tcp_outgoing E R a ps y w = do {
     (rdata, rlen, w) \<leftarrow> tcp_rdata E (pa_count a \<noteq> 0) ps y w;
     w \<leftarrow> retrans_step E a ps w;
     (ps, w) \<leftarrow> tcp_detect E ps rdata rlen w;
     (waits, ps, w) \<leftarrow> tcp_payload E R a ps y rdata rlen w;
     Some (waits, ps, take rlen rdata, w) }"

definition dpi_desync_tcp_packet_play :: "('l, 'n) env \<Rightarrow> 'l player \<Rightarrow> play_args \<Rightarrow> dissect \<Rightarrow> nat \<Rightarrow> 'l world \<Rightarrow> (verdict \<times> 'l world) option" where
  "dpi_desync_tcp_packet_play E R a dis cap w = do {
     (ps, w) \<leftarrow> play_prolog E dis (pa_tpos a) (pa_count a \<noteq> 0) (pa_ifin a) (pa_ifout a) w;
     case ps of None \<Rightarrow> Some ((VERDICT_PASS, None), w)
     | Some ps \<Rightarrow> do {
         tcp \<leftarrow> d_tcp dis;
         fl \<leftarrow> th_flags (data_pkt dis) tcp;
         y \<leftarrow> payload_of dis;
         (waits, ps, rdata, w) \<leftarrow>
           (if ps_rev ps then do { (ps, w) \<leftarrow> tcp_incoming E ps fl w; Some (False, ps, take (len_payload dis) y, w) }
            else if fl AND TH_SYN = 0 \<and> len_payload dis \<noteq> 0 then tcp_outgoing E R a ps y w
            else Some (False, ps, take (len_payload dis) y, w));
         if waits then Some ((VERDICT_DROP, None), w)
         else play_finish E a cap True ps (Some rdata) None w } }"

subsection \<open>UDP\<close>

text \<open>The decrypted QUIC Initial: from the packet, or, for a replayed one, what its connection has collected. Nothing if it
  cannot be decrypted.\<close>

definition quic_clean :: "('l, 'n) env \<Rightarrow> bool \<Rightarrow> play_state \<Rightarrow> bytes \<Rightarrow> 'l world \<Rightarrow> (bytes \<times> nat) option option" where
  "quic_clean E replay ps y w =
     (if replay then do {
        t \<leftarrow> get_track w (ps_replay ps);
        tr \<leftarrow> t;
        Some (Some (r_packet (reasm_client tr), r_present (reasm_client tr))) }
      else do {
        (ok, clean, n) \<leftarrow> QUICDecryptInitial (en_crypto E) y (len_payload (ps_dis ps)) (replicate UDP_MAX_REASM (en_junk E)) UDP_MAX_REASM;
        Some (if ok then Some (clean, n) else None) })"

text \<open>Whether hellos of this payload are collected for the packet, and for which connection.\<close>

definition quic_collects :: "('l, 'n) env \<Rightarrow> play_state \<Rightarrow> conn option" where
  "quic_collects E ps = (if l7_payload_match (ps_l7payload ps) (en_reasm_disable E) then None else ps_ctrack ps)"

text \<open>A connection that collects gets the decrypted bytes; what it has is looked at then. Nothing if there is no room.\<close>

definition quic_feed :: "('l, 'n) env \<Rightarrow> play_state \<Rightarrow> bytes \<Rightarrow> nat \<Rightarrow> 'l world \<Rightarrow> ((bytes \<times> nat) option \<times> 'l world) option" where
  "quic_feed E ps clean n w =
     (case quic_collects E ps of
        None \<Rightarrow> Some (Some (clean, n), w)
      | Some c \<Rightarrow> do {
          t \<leftarrow> hash_find (ct_pool (w_ct w)) c;
          if ReasmIsEmpty (reasm_client t) then Some (Some (clean, n), w)
          else if \<not> ReasmHasSpace (reasm_client t) n then Some (None, w)
          else do {
            (fed, t, sent) \<leftarrow> reasm_client_feed E t IPPROTO_UDP clean n;
            let w = sends sent (set_track (Some c) (Some t) w);
            Some (Some (r_packet (reasm_client t), r_present (reasm_client t)), w) } })"

text \<open>The packets of a hello that is not complete wait for the rest.\<close>

definition quic_collect :: "('l, 'n) env \<Rightarrow> 'l player \<Rightarrow> play_args \<Rightarrow> play_state \<Rightarrow> bytes \<Rightarrow> nat \<Rightarrow> bool \<Rightarrow> bool \<Rightarrow> 'l world \<Rightarrow>
    (delay \<times> 'l world) option" where
  "quic_collect E R a ps clean n start complete w =
     (case quic_collects E ps of
        None \<Rightarrow> Some (GoOn, w)
      | Some c \<Rightarrow> do {
          t \<leftarrow> hash_find (ct_pool (w_ct w)) c;
          (ok, w) \<leftarrow> start_reasm E (start \<and> ReasmIsEmpty (reasm_client t)) IPPROTO_UDP UDP_MAX_REASM UDP_MAX_REASM clean n c w;
          if \<not> ok then Some (GiveUp, w) else delay_step E R a ps (\<lambda>r. complete) c w })"

text \<open>The frames cover a prefix of the hello's stream: the hello is looked at.\<close>

definition quic_full :: "('l, 'n) env \<Rightarrow> 'l player \<Rightarrow> play_args \<Rightarrow> play_state \<Rightarrow> bytes \<Rightarrow> nat \<Rightarrow> bytes \<Rightarrow> nat \<Rightarrow> 'l world \<Rightarrow>
    (bool \<times> play_state \<times> bytes option \<times> 'l world) option" where
  "quic_full E R a ps clean n buf m w = do {
     hello \<leftarrow> IsQUICCryptoHello buf m;
     complete \<leftarrow> (case hello of None \<Rightarrow> Some False | Some (ho, hl) \<Rightarrow> IsTLSHandshakeFull buf ho hl);
     (r, w) \<leftarrow> quic_collect E R a ps clean n (hello \<noteq> None \<and> \<not> complete) complete w;
     (case r of
        Delayed \<Rightarrow> Some (True, ps, None, w)
      | GiveUp \<Rightarrow> Some (False, ps, None, w)
      | GoOn \<Rightarrow>
          (case hello of
             Some (ho, hl) \<Rightarrow> do {
               dec \<leftarrow> rd_block buf ho hl;
               h \<leftarrow> TLSHelloExtractHostFromHandshake buf ho hl 256 True;
               Some (False, set_host h ps, Some dec, w) }
           | None \<Rightarrow> do { w \<leftarrow> reasm_client_cancel E (ps_ctrack ps) w; Some (False, ps, None, w) })) }"

definition quic_partial :: "('l, 'n) env \<Rightarrow> 'l player \<Rightarrow> play_args \<Rightarrow> play_state \<Rightarrow> bytes \<Rightarrow> nat \<Rightarrow> 'l world \<Rightarrow>
    (bool \<times> play_state \<times> bytes option \<times> 'l world) option" where
  "quic_partial E R a ps clean n w = do {
     (r, w) \<leftarrow> quic_collect E R a ps clean n True False w;
     (case r of
        Delayed \<Rightarrow> Some (True, ps, None, w)
      | GiveUp \<Rightarrow> Some (False, ps, None, w)
      | GoOn \<Rightarrow> do { w \<leftarrow> reasm_client_cancel E (ps_ctrack ps) w; Some (False, ps, None, w) }) }"

definition quic_initial :: "('l, 'n) env \<Rightarrow> 'l player \<Rightarrow> play_args \<Rightarrow> play_state \<Rightarrow> bytes \<Rightarrow> 'l world \<Rightarrow>
    (bool \<times> play_state \<times> bytes option \<times> 'l world) option" where
  "quic_initial E R a ps y w = do {
     clean \<leftarrow> quic_clean E (pa_count a \<noteq> 0) ps y w;
     (case clean of
        None \<Rightarrow> do { w \<leftarrow> reasm_client_cancel E (ps_ctrack ps) w; Some (False, ps, None, w) }
      | Some (clean, n) \<Rightarrow> do {
          (r, w) \<leftarrow> quic_feed E ps clean n w;
          (case r of
             None \<Rightarrow> Some (False, ps, None, w)
           | Some (clean, n) \<Rightarrow> do {
               (ok, buf, m, full) \<leftarrow> QUICDefragCrypto clean n (replicate UDP_MAX_REASM (en_junk E)) UDP_MAX_REASM False;
               if \<not> ok then do { w \<leftarrow> reasm_client_cancel E (ps_ctrack ps) w; Some (False, ps, None, w) }
               else if full then quic_full E R a ps clean n buf m w
               else quic_partial E R a ps clean n w }) }) }"

definition udp_payload :: "('l, 'n) env \<Rightarrow> 'l player \<Rightarrow> play_args \<Rightarrow> play_state \<Rightarrow> 'l world \<Rightarrow>
    (bool \<times> play_state \<times> bytes option \<times> 'l world) option" where
  "udp_payload E R a ps w = do {
     let len = len_payload (ps_dis ps);
     y \<leftarrow> payload_of (ps_dis ps);
     t \<leftarrow> get_track w (ps_ctrack ps);
     (t, l7, l7p) \<leftarrow> udp_standard_protocol_probe (en_payload_disable E) y len (t, ps_l7proto ps, ps_l7payload ps);
     let w = set_track (ps_ctrack ps) t w;
     let ps = ps\<lparr>ps_l7proto := l7, ps_l7payload := l7p\<rparr>;
     (waits, ps, dec, w) \<leftarrow>
       (if \<not> ps_rev ps \<and> l7p = L7P_QUIC_INITIAL then quic_initial E R a ps y w else Some (False, ps, None, w));
     if l7p = L7P_DNS_RESPONSE then do {
       (ok, ipc) \<leftarrow> feed_dns_response (en_cache_hostname E) (ae_alloc (en_ah E)) (ae_alloc (en_ah E)) (en_now E) (w_ipc w) y len;
       Some (waits, ps, dec, w\<lparr>w_ipc := ipc\<rparr>) }
     else Some (waits, ps, dec, w) }"

definition dpi_desync_udp_packet_play :: "('l, 'n) env \<Rightarrow> 'l player \<Rightarrow> play_args \<Rightarrow> dissect \<Rightarrow> nat \<Rightarrow> 'l world \<Rightarrow> (verdict \<times> 'l world) option" where
  "dpi_desync_udp_packet_play E R a dis cap w = do {
     (ps, w) \<leftarrow> play_prolog E dis (pa_tpos a) (pa_count a \<noteq> 0) (pa_ifin a) (pa_ifout a) w;
     case ps of None \<Rightarrow> Some ((VERDICT_PASS, None), w)
     | Some ps \<Rightarrow> do {
         (waits, ps, dec, w) \<leftarrow> (if len_payload dis \<noteq> 0 then udp_payload E R a ps w else Some (False, ps, None, w));
         if waits then do {
           t \<leftarrow> get_track w (ps_ctrack ps);
           vm \<leftarrow> ct_new_postnat_fix (ae_server (en_ah E)) t dis cap;
           Some (vm, w) }
         else do {
           w \<leftarrow> reasm_client_cancel E (ps_ctrack ps) w;
           play_finish E a cap False ps None dec w } } }"

subsection \<open>ICMP and other packets\<close>

definition icmp_carries :: "u8 \<Rightarrow> bool" where
  "icmp_carries ty \<longleftrightarrow> ty \<in> {3, 11, 12, 5, 1, 2, 4}"

text \<open>The source and the destination address of a packet, IPv4 and IPv6.\<close>

definition ip_src_dst :: "dissect \<Rightarrow> ((bytes option \<times> bytes option) \<times> (bytes option \<times> bytes option)) option" where
  "ip_src_dst dis = do {
     let d = data_pkt dis;
     (s4, d4) \<leftarrow> (case d_ip dis of None \<Rightarrow> Some (None, None)
       | Some i \<Rightarrow> do { s \<leftarrow> rd_block d (i + 12) 4; t \<leftarrow> rd_block d (i + 16) 4; Some (Some s, Some t) });
     (s6, d6) \<leftarrow> (case d_ip6 dis of None \<Rightarrow> Some (None, None)
       | Some i \<Rightarrow> do { s \<leftarrow> rd_block d (i + 8) 16; t \<leftarrow> rd_block d (i + 24) 16; Some (Some s, Some t) });
     Some ((s4, s6), (d4, d6)) }"

text \<open>The host name remembered for the destination, else for the source.\<close>

definition cached_host :: "('l, 'n) env \<Rightarrow> ip_cache \<Rightarrow> bytes option \<times> bytes option \<Rightarrow> bytes option \<times> bytes option \<Rightarrow> bytes option \<times> bool" where
  "cached_host E ipc src dst =
     (let get = (\<lambda>a. ipcache_get_hostname (en_cache_hostname E) ipc (fst a) (snd a) 256);
          flag = (\<lambda>f b. case f of None \<Rightarrow> b | Some x \<Rightarrow> x)
      in (case get dst of
            (True, h, f) \<Rightarrow> (Some h, flag f False)
          | (False, h, f) \<Rightarrow>
              (case get src of
                 (True, h, f2) \<Rightarrow> (Some h, flag f2 (flag f False))
               | (False, h, f2) \<Rightarrow> (None, flag f2 (flag f False)))))"

text \<open>The search for the profile of a packet without ports, in both directions.\<close>

definition find_ip_profile :: "('l, 'n) env \<Rightarrow> dissect \<Rightarrow> u8 \<Rightarrow> u8 \<Rightarrow> bytes option \<Rightarrow> bool \<Rightarrow> bytes option \<Rightarrow> 'l world \<Rightarrow>
    (nat option \<times> 'l world) option" where
  "find_ip_profile E dis ty co host is_ip ssid w = do {
     ((s4, s6), (d4, d6)) \<leftarrow> ip_src_dst dis;
     (r, chk, w) \<leftarrow> find_profile E \<lparr>tg_proto = d_proto dis, tg_ip = d4, tg_ip6 = d6, tg_ipr = s4, tg_ipr6 = s6, tg_port = 0,
       tg_icmp_type = ty, tg_icmp_code = co, tg_host = host, tg_nosub = is_ip, tg_l7 = L7_UNKNOWN, tg_ssid = ssid\<rparr> no_check w;
     Some (r, w) }"

definition ip_desync :: "('l, 'n) env \<Rightarrow> play_args \<Rightarrow> nat \<Rightarrow> dissect \<Rightarrow> nat \<Rightarrow> bool \<Rightarrow> conn option \<Rightarrow> t_l7payload \<Rightarrow> 'l world \<Rightarrow>
    (verdict \<times> 'l world) option" where
  "ip_desync E a cap dis i incoming c l7p w = do {
     (src, dst) \<leftarrow> ip_src_dst dis;
     p \<leftarrow> rd (ah_profiles (w_ah w)) i;
     t \<leftarrow> get_track w c;
     let sd = (if incoming then src else dst);
     let ctx = \<lparr>dc_fwmark = pa_fwmark a, dc_ifin = pa_ifin a, dc_ifout = pa_ifout a, dc_incoming = incoming,
       dc_server = ae_server (en_ah E), dc_l7payload = l7p, dc_l7proto = (case t of None \<Rightarrow> L7_UNKNOWN | Some tr \<Rightarrow> l7proto tr),
       dc_dis = dis, dc_ip = fst sd, dc_ip6 = snd sd, dc_port = 0, dc_piece = 0, dc_count = 0, dc_offset = 0,
       dc_reasm = None, dc_decrypt = None\<rparr>;
     (v, m, t, s) \<leftarrow> desync (en_lua E) p t None ctx (en_mod E (pa_count a \<noteq> 0)) cap (w_lua w);
     Some ((v, m), set_track c t (w\<lparr>w_lua := s\<rparr>)) }"

text \<open>The packet an ICMP error carries: its payload type, its connection and the direction of the error.\<close>

definition icmp_attached :: "dissect \<Rightarrow> u8 \<Rightarrow> 'l world \<Rightarrow> (t_l7payload \<times> (conn \<times> bool) option) option" where
  "icmp_attached dis ty w =
     (if \<not> icmp_carries ty then Some (L7P_ICMP, None)
      else (case payload_of dis of
          None \<Rightarrow> Some (L7P_ICMP, None)
        | Some y \<Rightarrow> do {
            adis \<leftarrow> proto_dissect_l3l4 y (len_payload dis) True;
            if d_ip adis = None \<and> d_ip6 adis = None then Some (L7P_ICMP, None)
            else do {
              r \<leftarrow> ConntrackPoolDoubleSearch (w_ct w) adis;
              Some (if d_ip adis \<noteq> None then L7P_IPV4 else L7P_IPV6, map_option (\<lambda>(c, back). (c, \<not> back)) r) } }))"

definition dpi_desync_icmp_packet :: "('l, 'n) env \<Rightarrow> play_args \<Rightarrow> dissect \<Rightarrow> nat \<Rightarrow> 'l world \<Rightarrow> (verdict \<times> 'l world) option" where
  "dpi_desync_icmp_packet E a dis cap w =
     (if (d_ip dis = None) = (d_ip6 dis = None) then Some ((VERDICT_PASS, None), w)
      else do {
        ic \<leftarrow> d_icmp dis;
        ty \<leftarrow> rd (data_pkt dis) ic;
        co \<leftarrow> rd (data_pkt dis) (ic + 1);
        (l7p, r) \<leftarrow> icmp_attached dis ty w;
        let c = map_option fst r;
        t \<leftarrow> get_track w c;
        let back = (case r of Some (c, back) \<Rightarrow> back | None \<Rightarrow> pa_ifin a \<noteq> [] \<and> pa_ifout a = []);
        let incoming = (case r of Some (c, back) \<Rightarrow> back \<noteq> ae_server (en_ah E) | None \<Rightarrow> back);
        let ssid = (case en_ssid E (if back then pa_ifin a else pa_ifout a) of
              Some s \<Rightarrow> Some s | None \<Rightarrow> if r = None then en_ssid E (if back then pa_ifout a else pa_ifin a) else None);
        (i, w) \<leftarrow>
          (case (case t of Some tr \<Rightarrow> if dp_search_complete tr then dp tr else None | None \<Rightarrow> None) of
             Some i \<Rightarrow> Some (Some i, w)
           | None \<Rightarrow> do {
               (src, dst) \<leftarrow> ip_src_dst dis;
               let (host, is_ip) = (case t of
                   Some tr \<Rightarrow> if hostname tr \<noteq> None then (hostname tr, hostname_is_ip tr) else cached_host E (w_ipc w) src dst
                 | None \<Rightarrow> cached_host E (w_ipc w) src dst);
               find_ip_profile E dis ty co host is_ip ssid w });
        (case i of
           None \<Rightarrow> Some ((VERDICT_PASS, None), w)
         | Some i \<Rightarrow> ip_desync E a cap dis i incoming c l7p w) })"

definition dpi_desync_ip_packet :: "('l, 'n) env \<Rightarrow> play_args \<Rightarrow> dissect \<Rightarrow> nat \<Rightarrow> 'l world \<Rightarrow> (verdict \<times> 'l world) option" where
  "dpi_desync_ip_packet E a dis cap w =
     (if (d_ip dis = None) = (d_ip6 dis = None) then Some ((VERDICT_PASS, None), w)
      else do {
        let ssid = (case en_ssid E (pa_ifin a) of Some s \<Rightarrow> Some s | None \<Rightarrow> en_ssid E (pa_ifout a));
        (src, dst) \<leftarrow> ip_src_dst dis;
        let (host, is_ip) = cached_host E (w_ipc w) src dst;
        (i, w) \<leftarrow> find_ip_profile E dis 255 255 host is_ip ssid w;
        (case i of
           None \<Rightarrow> Some ((VERDICT_PASS, None), w)
         | Some i \<Rightarrow> ip_desync E a cap dis i (pa_ifin a \<noteq> [] \<and> pa_ifout a = []) None L7P_UNKNOWN w) })"

subsection \<open>The entry\<close>

definition play_dissected :: "('l, 'n) env \<Rightarrow> 'l player \<Rightarrow> play_args \<Rightarrow> dissect \<Rightarrow> nat \<Rightarrow> 'l world \<Rightarrow> (verdict \<times> 'l world) option" where
  "play_dissected E R a dis cap w =
     (if (d_ip dis = None) \<noteq> (d_ip6 dis = None) then
        (if d_tcp dis \<noteq> None then dpi_desync_tcp_packet_play E R a dis cap w
         else if d_udp dis \<noteq> None then dpi_desync_udp_packet_play E R a dis cap w
         else if d_icmp dis \<noteq> None then dpi_desync_icmp_packet E a dis cap w
         else dpi_desync_ip_packet E a dis cap w)
      else Some ((VERDICT_PASS, None), w))"

definition RECONSTRUCT_MAX_SIZE :: nat where "RECONSTRUCT_MAX_SIZE = 65536"

text \<open>The depth bounds how often a packet played may replay others.\<close>

fun dpi_desync_packet_play :: "('l, 'n) env \<Rightarrow> nat \<Rightarrow> play_args \<Rightarrow> bytes \<Rightarrow> nat \<Rightarrow> nat \<Rightarrow> 'l world \<Rightarrow> (verdict \<times> 'l world) option" where
  "dpi_desync_packet_play E 0 a d len cap w = None"
| "dpi_desync_packet_play E (Suc n) a d len cap w = do {
     dis \<leftarrow> proto_dissect_l3l4 d len False;
     play_dissected E (\<lambda>a rp w. dpi_desync_packet_play E n a (rp_packet rp) (rp_len rp) RECONSTRUCT_MAX_SIZE w) a dis cap w }"

definition dpi_desync_packet :: "('l, 'n) env \<Rightarrow> u32 \<Rightarrow> bytes \<Rightarrow> bytes \<Rightarrow> bytes \<Rightarrow> nat \<Rightarrow> nat \<Rightarrow> 'l world \<Rightarrow> (verdict \<times> 'l world) option" where
  "dpi_desync_packet E fwmark ifin ifout d len cap w = do {
     let (ipc, prev) = ipcachePurgeRateLimited (en_now E) (w_ipc_prev w) (w_ipc w) (en_ipc_lifetime E);
     dpi_desync_packet_play E 2 \<lparr>pa_piece = 0, pa_count = 0, pa_offset = 0, pa_fwmark = fwmark, pa_ifin = ifin, pa_ifout = ifout,
       pa_tpos = None\<rparr> d len cap (w\<lparr>w_ipc := ipc, w_ipc_prev := prev\<rparr>) }"
end
