(* ===== verification/FailSafe.thy ===== *)
theory FailSafe
  imports AutoHost
begin

text \<open>
  Safety of the detection of failing hosts (theory AutoHost): while packets are handled only the fail counters of a
  profile and the content of its lists change, and no detector follows a null pointer, given that connections and
  profiles are well formed.
\<close>

subsection \<open>Loading keeps the names of the files\<close>

lemma load_at_names: "load_at reader room e os fs i = Some (ok, fs') \<Longrightarrow> map lf_name fs' = map lf_name fs"
  by (auto simp: load_at_def load_list_def rd_eq_Some map_update split: bind_splits option.splits if_splits
      intro!: list_update_same_conv[THEN iffD2])

lemma reload_loop_names: "reload_loop reader room e os cl fs = Some (ok, fs') \<Longrightarrow> map lf_name fs' = map lf_name fs"
  by (induction cl arbitrary: fs) (fastforce dest: load_at_names split: bind_splits if_splits)+

lemma autolists_names: "MakeAutolistsNonEmpty alloc autos fs = Some fs' \<Longrightarrow> map lf_name fs' = map lf_name fs"
  by (induction autos arbitrary: fs)
     (fastforce simp: rd_eq_Some map_update intro: list_update_same_conv[THEN iffD2] split: bind_splits)+

lemma reload_check_names: "HostlistsReloadCheck alloc os autos cl fs = Some (ok, fs') \<Longrightarrow> map lf_name fs' = map lf_name fs"
  by (fastforce simp: HostlistsReloadCheck_def dest: reload_loop_names autolists_names split: bind_splits if_splits)

lemma reload_profile_names:
  "HostlistsReloadCheckForProfile alloc os autos incl excl fs = Some (ok, fs') \<Longrightarrow> map lf_name fs' = map lf_name fs"
  by (fastforce simp: HostlistsReloadCheckForProfile_def dest: reload_check_names split: bind_splits if_splits)

lemma hostcheck_names:
  "HostlistCheck alloc os autos incl excl fs host nosub skip = Some (r, ex, fs') \<Longrightarrow> map lf_name fs' = map lf_name fs"
  by (fastforce simp: HostlistCheck_def dest: reload_profile_names split: bind_splits if_splits)

lemma dp_match_lists_names:
  "dp_match_lists E autos p x chk st = Some (m, chk', st') \<Longrightarrow> map lf_name (fst st') = map lf_name (fst st)"
  by (cases st) (fastforce simp: dp_match_lists_def dest: hostcheck_names split: bind_splits if_splits option.splits)

lemma dp_match_names:
  "dp_match E autos p x chk st = Some (m, chk', st') \<Longrightarrow> map lf_name (fst st') = map lf_name (fst st)"
  by (cases st; cases chk)
     (fastforce simp: dp_match_def Let_def dest: dp_match_lists_names reload_profile_names split: bind_splits if_splits)

lemma dp_find_names: "dp_find E ps x chk st = Some (r, chk', st') \<Longrightarrow> map lf_name (fst st') = map lf_name (fst st)"
proof -
  have "dp_find_loop E autos i ps x chk st = Some (r, chk', st') \<Longrightarrow> map lf_name (fst st') = map lf_name (fst st)" for autos i chk st
  proof (induction ps arbitrary: i chk st)
    case (Cons p ps)
    then show ?case by (fastforce dest: dp_match_names split: bind_splits if_splits)
  qed simp
  then show "dp_find E ps x chk st = Some (r, chk', st') \<Longrightarrow> map lf_name (fst st') = map lf_name (fst st)"
    by (cases chk) (auto simp: dp_find_def)
qed

subsection \<open>Profiles and their lists\<close>

text \<open>A profile without its fail counters, which are all that changes in one while packets are handled.\<close>

definition profile_shape :: "desync_profile \<Rightarrow> desync_profile" where
  "profile_shape p = p\<lparr>fail_counters := [], last_purge := 0\<rparr>"

definition same_profiles :: "ah_world \<Rightarrow> ah_world \<Rightarrow> bool" where
  "same_profiles a b \<longleftrightarrow> map profile_shape (ah_profiles a) = map profile_shape (ah_profiles b)
     \<and> map lf_name (ah_hosts a) = map lf_name (ah_hosts b)"

text \<open>Profiles point to lists that are there, and an automatic list is kept in a file.\<close>

definition profiles_ok :: "ah_world \<Rightarrow> ip_store \<Rightarrow> bool" where
  "profiles_ok ah is \<longleftrightarrow> stores_ok (autolists (ah_profiles ah)) (ah_hosts ah, is)
     \<and> (\<forall>p\<in>set (ah_profiles ah). profile_ok (ah_hosts ah, is) p
          \<and> (\<forall>i. hostlist_auto p = Some i \<longrightarrow> lf_name (ah_hosts ah ! i) \<noteq> None))"

text \<open>The automatic lists of the profiles, by their index.\<close>

definition auto_of :: "ah_world \<Rightarrow> nat option list" where
  "auto_of ah = map hostlist_auto (ah_profiles ah)"

lemma same_profiles_refl [simp]: "same_profiles a a"
  by (simp add: same_profiles_def)

lemma same_profiles_trans: "same_profiles a b \<Longrightarrow> same_profiles b c \<Longrightarrow> same_profiles a c"
  by (simp add: same_profiles_def)

lemma shape_sel [simp]:
  "hostlist_auto (profile_shape p) = hostlist_auto p" "hl_collection (profile_shape p) = hl_collection p"
  "hl_collection_exclude (profile_shape p) = hl_collection_exclude p" "ips_collection (profile_shape p) = ips_collection p"
  "ips_collection_exclude (profile_shape p) = ips_collection_exclude p"
  by (simp_all add: profile_shape_def)

lemma shape_update [simp]: "profile_shape (p\<lparr>fail_counters := pp\<rparr>) = profile_shape p"
  "profile_shape (p\<lparr>last_purge := n\<rparr>) = profile_shape p"
  by (simp_all add: profile_shape_def)

lemma map_shape: "(\<And>p. f (profile_shape p) = f p) \<Longrightarrow> map f (map profile_shape ps) = map f ps"
  by simp

lemma same_auto: "same_profiles a b \<Longrightarrow> auto_of b = auto_of a"
  unfolding same_profiles_def auto_of_def using map_shape[of hostlist_auto] by (metis shape_sel(1))

lemma autolists_auto: "autolists ps = map the (filter (\<lambda>x. x \<noteq> None) (map hostlist_auto ps))"
  by (induction ps) (auto simp: autolists_def List.map_filter_def split: option.splits)

lemma autolists_same: "same_profiles a b \<Longrightarrow> autolists (ah_profiles b) = autolists (ah_profiles a)"
  unfolding autolists_auto by (drule same_auto) (simp add: auto_of_def)

lemma profile_ok_shape: "profile_ok (hs, is) (profile_shape p) = profile_ok (hs, is) p"
  by (simp add: profile_ok_def)

lemma profiles_ok_same:
  assumes "profiles_ok a is" and "same_profiles a b" and "length is' = length is" and "store_ok ipset_ok is'"
  shows "profiles_ok b is'"
proof -
  let ?P = "\<lambda>ah is p. profile_ok (ah_hosts ah, is) p \<and> (\<forall>i. hostlist_auto p = Some i \<longrightarrow> lf_name (ah_hosts ah ! i) \<noteq> None)"
  have l: "length (ah_hosts b) = length (ah_hosts a)" using assms(2) by (metis same_profiles_def length_map)
  have n: "lf_name (ah_hosts b ! i) = lf_name (ah_hosts a ! i)" if "i < length (ah_hosts a)" for i
    using assms(2) that l unfolding same_profiles_def by (metis nth_map)
  have ptr: "pointers_ok (ah_hosts b) cl = pointers_ok (ah_hosts a) cl" "pointers_ok is' cl = pointers_ok is cl" for cl
    using l assms(3) by (simp_all add: pointers_ok_def)
  have st: "stores_ok (autolists (ah_profiles b)) (ah_hosts b, is')"
    using assms(1,4) autolists_same[OF assms(2)] by (simp add: profiles_ok_def stores_ok_def ptr)
  have au: "i < length (ah_hosts a)" if "p \<in> set (ah_profiles a)" "hostlist_auto p = Some i" for p i
  proof -
    have "i \<in> set (autolists (ah_profiles a))" using that by (force simp: autolists_def List.map_filter_def)
    with assms(1) show ?thesis by (simp add: profiles_ok_def stores_ok_def pointers_ok_def)
  qed
  have pa: "?P b is' p" if "p \<in> set (ah_profiles a)" for p
    using assms(1) au n that by (auto simp: profiles_ok_def profile_ok_def ptr)
  have "?P b is' q" if q: "q \<in> set (ah_profiles b)" for q
  proof -
    have "profile_shape q \<in> set (map profile_shape (ah_profiles a))"
      using q assms(2) by (metis (mono_tags) image_eqI list.set_map same_profiles_def)
    then obtain p where p: "p \<in> set (ah_profiles a)" "profile_shape p = profile_shape q" by auto
    have "?P b is' (profile_shape q)" unfolding p(2)[symmetric] using pa[OF p(1)] by (simp add: profile_ok_shape)
    then show ?thesis by (simp add: profile_ok_shape)
  qed
  with st show ?thesis by (simp add: profiles_ok_def)
qed


subsection \<open>Automatic host lists\<close>

lemma HostlistCheck_safe:
  assumes "pointers_ok hs incl" and "pointers_ok hs excl" and "pointers_ok hs autos"
  shows "returns (\<lambda>(b, ex, hs'). map lf_name hs' = map lf_name hs) (HostlistCheck alloc os autos incl excl hs host nosub skip)"
proof -
  have "HostlistCheck alloc os autos incl excl hs host nosub skip \<noteq> None"
  proof (cases skip)
    case True
    then show ?thesis using list_check_exact[OF assms(1,2), of "\<lambda>p. Some (SearchHostList p host nosub)" "\<lambda>p. SearchHostList p host nosub" "\<lambda>p. p = []"]
      by (simp add: HostlistCheck_def)
  next
    case False
    obtain ok hs1 where r: "HostlistsReloadCheckForProfile alloc os autos incl excl hs = Some (ok, hs1)" "length hs1 = length hs"
      using returns_exists[OF host_reload_profile_returns[OF assms, of alloc os]] by auto
    have p: "pointers_ok hs1 incl" "pointers_ok hs1 excl" using assms(1,2) r(2) by (simp_all add: pointers_ok_def)
    show ?thesis using r(1) False list_check_exact[OF p, of "\<lambda>p. Some (SearchHostList p host nosub)" "\<lambda>p. SearchHostList p host nosub" "\<lambda>p. p = []"]
      by (cases ok) (simp_all add: HostlistCheck_def)
  qed
  then obtain b ex hs' where "HostlistCheck alloc os autos incl excl hs host nosub skip = Some (b, ex, hs')" by auto
  with hostcheck_names[OF this] show ?thesis by simp
qed

lemma profile_of:
  assumes "profiles_ok ah is" and "i < length (ah_profiles ah)"
  shows "pointers_ok (ah_hosts ah) (hl_collection (ah_profiles ah ! i))"
    "pointers_ok (ah_hosts ah) (hl_collection_exclude (ah_profiles ah ! i))"
    "pointers_ok (ah_hosts ah) (autolists (ah_profiles ah))"
    "hostlist_auto (ah_profiles ah ! i) = Some j \<Longrightarrow> j < length (ah_hosts ah) \<and> lf_name (ah_hosts ah ! j) \<noteq> None"
proof -
  have m: "ah_profiles ah ! i \<in> set (ah_profiles ah)" using assms(2) by simp
  then show "pointers_ok (ah_hosts ah) (hl_collection (ah_profiles ah ! i))"
    "pointers_ok (ah_hosts ah) (hl_collection_exclude (ah_profiles ah ! i))"
    "pointers_ok (ah_hosts ah) (autolists (ah_profiles ah))"
    using assms(1) by (auto simp: profiles_ok_def profile_ok_def stores_ok_def)
  assume j: "hostlist_auto (ah_profiles ah ! i) = Some j"
  then have "j \<in> set (autolists (ah_profiles ah))" using m by (force simp: autolists_def List.map_filter_def)
  then show "j < length (ah_hosts ah) \<and> lf_name (ah_hosts ah ! j) \<noteq> None"
    using assms(1) m j by (auto simp: profiles_ok_def stores_ok_def pointers_ok_def)
qed

lemma autolist_add_safe:
  assumes "hostlist_auto p = Some j" and "j < length hs" and "lf_name (hs ! j) \<noteq> None"
  shows "returns (\<lambda>(hs', os'). map lf_name hs' = map lf_name hs) (autolist_add wl alloc os p hs host)"
proof -
  obtain ok pl where a: "HostlistPoolAddStr alloc (lf_pool (hs ! j)) host 0 = (ok, pl)"
    by (cases "HostlistPoolAddStr alloc (lf_pool (hs ! j)) host 0")
  have m: "map lf_name (hs[j := (hs ! j)\<lparr>lf_pool := pl, lf_sig := g\<rparr>]) = map lf_name hs"
     "map lf_name (hs[j := (hs ! j)\<lparr>lf_pool := pl\<rparr>]) = map lf_name hs" for g
    using assms(2) by (simp_all add: map_update list_update_same_conv)
  obtain name where n: "lf_name (hs ! j) = Some name" using assms(3) by auto
  obtain ok2 os2 where w: "wl os name host = (ok2, os2)" by (cases "wl os name host")
  show ?thesis
    using assms(1,2) by (cases ok; cases ok2; auto simp: autolist_add_def a m n w Let_def)
qed

lemma fail_step_safe:
  assumes "profiles_ok ah is" and "i < length (ah_profiles ah)" and "hostlist_auto (ah_profiles ah ! i) \<noteq> None"
  shows "returns (same_profiles ah) (fail_step A i host nosub ah)"
proof -
  define p where "p = ah_profiles ah ! i"
  obtain j where j: "hostlist_auto p = Some j" using assms(3) by (auto simp: p_def)
  note po = profile_of[OF assms(1,2), folded p_def]
  have "returns (\<lambda>(p', hs', os'). profile_shape p' = profile_shape p \<and> map lf_name hs' = map lf_name (ah_hosts ah))
     (auto_hostlist_failed (ae_write A) (ae_alloc A) (ae_now A) (autolists (ah_profiles ah)) (ah_os ah) p (ah_hosts ah) host nosub)"
    (is "returns ?Q ?m")
  proof (cases "(case HostFailPoolFind (fail_counters p) host of Some e \<Rightarrow> (fail_counters p, Some e)
       | None \<Rightarrow> HostFailPoolAdd (ae_alloc A) (ae_now A) (fail_counters p) host (fail_time p))")
    case (Pair pp e)
    show ?thesis
    proof (cases e)
      case None
      then show ?thesis by (simp add: auto_hostlist_failed_def Pair)
    next
      case (Some e1)
      define e2 where "e2 = e1\<lparr>hf_counter := hf_counter e1 + 1\<rparr>"
      define p2 where "p2 = p\<lparr>fail_counters := HostFailPoolDel (hash_set pp host e2) host\<rparr>"
      have p2: "hl_collection p2 = hl_collection p" "hl_collection_exclude p2 = hl_collection_exclude p" "hostlist_auto p2 = Some j"
        "profile_shape p2 = profile_shape p" by (simp_all add: p2_def j)
      note hc = HostlistCheck_safe[OF po(1-3), of "ae_alloc A" "ah_os ah" host nosub False]
      obtain b ex hs1 where c: "HostlistCheck (ae_alloc A) (ah_os ah) (autolists (ah_profiles ah)) (hl_collection p) (hl_collection_exclude p)
          (ah_hosts ah) host nosub False = Some (b, ex, hs1)" "map lf_name hs1 = map lf_name (ah_hosts ah)"
        using returns_exists[OF hc] by auto
      have jj: "j < length hs1" "lf_name (hs1 ! j) \<noteq> None"
        using po(4)[OF j] c(2) by (metis length_map, metis length_map nth_map)
      note al = autolist_add_safe[OF p2(3) jj, of "ae_write A" "ae_alloc A" "ah_os ah" host]
      show ?thesis
        using returns_exists[OF al] c p2
        by (auto simp: auto_hostlist_failed_def Pair Some Let_def p2_def[symmetric] e2_def[symmetric])
    qed
  qed
  then obtain p' hs' os' where r: "?m = Some (p', hs', os')" "profile_shape p' = profile_shape p"
    "map lf_name hs' = map lf_name (ah_hosts ah)" by (auto simp: returns_def)
  have "map profile_shape ((ah_profiles ah)[i := p']) = map profile_shape (ah_profiles ah)"
    using assms(2) r(2) by (simp add: map_update p_def list_update_same_conv)
  with r assms(2) show ?thesis by (simp add: fail_step_def p_def[symmetric] same_profiles_def)
qed

lemma shape_put: "i < length ps \<Longrightarrow> profile_shape p = profile_shape (ps ! i) \<Longrightarrow> map profile_shape (ps[i := p]) = map profile_shape ps"
  by (metis list_update_id map_update)

lemma reset_shape: "profile_shape (auto_hostlist_reset_fail_counter p host) = profile_shape p"
  by (simp add: auto_hostlist_reset_fail_counter_def split: option.split)

lemma reset_step_safe: "i < length (ah_profiles ah) \<Longrightarrow> returns (same_profiles ah) (reset_step i host ah)"
  by (simp add: reset_step_def same_profiles_def shape_put reset_shape)

subsection \<open>Failures of a connection\<close>

text \<open>A connection points to a profile that is there; one that counts failures has a host name and a profile with an automatic
  list.\<close>

definition fails_ok :: "nat option list \<Rightarrow> ctrack \<Rightarrow> bool" where
  "fails_ok autos t \<longleftrightarrow> (\<forall>i. dp t = Some i \<longrightarrow> i < length autos)
     \<and> (hostname_ah_check t \<longrightarrow> hostname t \<noteq> None \<and> hostname_discovered t \<and> l7proto_discovered t
          \<and> (\<exists>i. dp t = Some i \<and> autos ! i \<noteq> None))"

lemma auto_of_nth: "i < length (ah_profiles ah) \<Longrightarrow> auto_of ah ! i = hostlist_auto (ah_profiles ah ! i)"
  "length (auto_of ah) = length (ah_profiles ah)"
  by (simp_all add: auto_of_def)

lemma same_length: "same_profiles a b \<Longrightarrow> length (ah_profiles b) = length (ah_profiles a)"
  unfolding same_profiles_def by (metis length_map)

text \<open>Only the counters of failures change.\<close>

definition counters_only :: "ctrack \<Rightarrow> ctrack \<Rightarrow> bool" where
  "counters_only t t' \<longleftrightarrow> (\<exists>n b. t' = t\<lparr>req_retrans_counter := n, failure_detect_finalized := b\<rparr>)"

lemma counters_refl [simp]: "counters_only t t"
  unfolding counters_only_def by (rule exI[of _ "req_retrans_counter t"], rule exI[of _ "failure_detect_finalized t"]) simp

lemma counters_put [simp]: "counters_only t (t\<lparr>req_retrans_counter := n\<rparr>)" "counters_only t (t\<lparr>failure_detect_finalized := b\<rparr>)"
  "counters_only t (t\<lparr>req_retrans_counter := n, failure_detect_finalized := b\<rparr>)"
  unfolding counters_only_def
  by (rule exI[of _ n], rule exI[of _ "failure_detect_finalized t"], simp,
      rule exI[of _ "req_retrans_counter t"], rule exI[of _ b], simp, blast)

lemma counters_trans: "counters_only a b \<Longrightarrow> counters_only b c \<Longrightarrow> counters_only a c"
  unfolding counters_only_def by (elim exE, simp) blast

lemma counters_same:
  assumes "counters_only t t'"
  shows "dp t' = dp t" "hostname t' = hostname t" "hostname_is_ip t' = hostname_is_ip t" "hostname_ah_check t' = hostname_ah_check t"
    "hostname_discovered t' = hostname_discovered t" "l7proto_discovered t' = l7proto_discovered t" "l7proto t' = l7proto t"
    "reasm_client t' = reasm_client t" "delayed t' = delayed t" "pos t' = pos t" "dp_search_complete t' = dp_search_complete t"
  using assms by (auto simp: counters_only_def)

lemma counters_stop [simp]: "counters_only t (ctrack_stop_retrans_counter t)"
  by (simp add: ctrack_stop_retrans_counter_def)

lemma rst_packet6_safe:
  assumes "i + 40 \<le> length d" and "tcp + 20 \<le> length d"
  shows "\<exists>x. rst_packet6 addr d i tcp win flow = Some x"
proof -
  let ?ip = "take 40 (drop i d)"
  have l: "length ?ip = 40" "length (take 20 (drop tcp d)) = 20" using assms by simp_all
  obtain ip1 where ip1: "phton16 ?ip 4 20 = Some ip1" "length ip1 = 40" using l(1) by (auto simp: phton16_def)
  obtain ip2 where ip2: "phton32 (ip1[6 := IPPROTO_TCP]) 0 (if flow \<noteq> 0 then flow else 0x60000000) = Some ip2" "length ip2 = 40"
    using ip1(2) by (auto simp: phton32_def)
  obtain ip3 where ip3: "mem_swap ip2 8 24 16 = Some ip3" "length ip3 = 40" using mem_swap_in[of 8 16 24 ip2] ip2(2) by auto
  obtain th where th: "rst_tcp (take 20 (drop tcp d)) win = Some th" "length th = 20" using rst_tcp_in[OF l(2), of win] by blast
  obtain c where c: "do_csum (addr + 40) (zeroed th 16) 20 = Some c"
    using do_csum_word_sum[of 20 "zeroed th 16" "addr + 40"] th(2) by (auto simp: zeroed_def)
  have w: "\<exists>v. ld32 x k = Some v" if "length x = 16" "k + 4 \<le> 16" for x k using ld32_le[of k x] that by auto
  let ?s = "take 16 (drop 8 ip3)" and ?t = "take 16 (drop 24 ip3)"
  have m: "\<exists>m. csum_ipv6_magic ?s ?t 20 IPPROTO_TCP c = Some m"
    using w[of ?s 0] w[of ?s 4] w[of ?s 8] w[of ?s 12] w[of ?t 0] w[of ?t 4] w[of ?t 8] w[of ?t 12] ip3(2)
    by (auto simp: csum_ipv6_magic_def)
  have "\<exists>x. tcp_fix_checksum (addr + 40) th 20 (Addrs6 ?s ?t) = Some x"
    using c m th(2) by (auto simp: tcp_fix_checksum_def tcp6_fix_checksum_def st16_in zeroed_def)
  then show ?thesis
    using assms l ip1 ip2 ip3 th(1) by (auto simp: rst_packet6_def reverse_ip6_def)
qed

lemma rst_packet4_safe: "i + 20 \<le> length d \<Longrightarrow> tcp + 20 \<le> length d \<Longrightarrow> \<exists>x. rst_packet4 addr d i tcp win = Some x"
  using rst_packet4_in[of i d tcp addr win] by blast

lemma dissect_headers:
  assumes "dissect_ok n dis"
  shows "d_tcp dis = Some t \<Longrightarrow> t + 20 \<le> length (data_pkt dis)"
    and "d_tcp dis = Some t \<Longrightarrow> d_ip dis = Some i \<Longrightarrow> i + 20 \<le> length (data_pkt dis)"
    and "d_tcp dis = Some t \<Longrightarrow> d_ip6 dis = Some i \<Longrightarrow> i + 40 \<le> length (data_pkt dis)"
  using assms by (auto simp: dissect_ok_def split: option.splits)

lemma send_rst_safe:
  assumes "dissect_ok n dis"
  shows "\<exists>sent. send_rst addr t p dis cl ifc = Some sent"
proof (cases "d_tcp dis")
  case (Some tcp)
  note h = dissect_headers[OF assms]
  show ?thesis
  proof (cases "d_ip dis")
    case ip: (Some i)
    show ?thesis using rst_packet4_safe[OF h(2)[OF Some ip] h(1)[OF Some], of addr "winsize (server (pos t))"] Some ip
      by (elim exE) (simp add: send_rst_def)
  next
    case None
    show ?thesis
    proof (cases "d_ip6 dis")
      case ip: (Some i)
      show ?thesis using rst_packet6_safe[OF h(3)[OF Some ip] h(1)[OF Some], of addr "winsize (server (pos t))" "ip6flow (server (pos t))"] Some None ip
        by (elim exE) (simp add: send_rst_def)
    qed (use Some None in \<open>simp add: send_rst_def\<close>)
  qed
qed (simp add: send_rst_def)

lemma retrans_count_safe:
  assumes "dissect_ok n dis"
  shows "returns (\<lambda>(fires, t', p', sent). counters_only t t' \<and> p' = p) (retrans_count addr t p dis th cl ifc)"
proof (cases "uint (req_retrans_counter t + 1) \<ge> th")
  case True
  let ?t = "(ctrack_stop_retrans_counter (t\<lparr>req_retrans_counter := req_retrans_counter t + 1\<rparr>))\<lparr>failure_detect_finalized := True\<rparr>"
  obtain sent where "send_rst addr ?t p dis cl ifc = Some sent" using send_rst_safe[OF assms] by blast
  moreover have "counters_only t ?t" by (blast intro: counters_trans counters_put counters_stop)
  ultimately show ?thesis using True by (simp add: retrans_count_def Let_def)
qed (simp add: retrans_count_def)

lemma retrans_safe:
  assumes "dissect_ok n dis"
  shows "returns (\<lambda>(fires, t', p', sent). counters_only t t' \<and> profile_shape p' = profile_shape p
     \<and> (fires \<longrightarrow> hostname_ah_check t)) (auto_hostlist_retrans addr t p dis th cl ifc)"
proof -
  note c = returns_mono[OF retrans_count_safe[OF assms, of t p addr th cl ifc]]
  have s: "counters_only t (ctrack_stop_retrans_counter (t\<lparr>failure_detect_finalized := True\<rparr>))"
    by (blast intro: counters_trans counters_put counters_stop)
  show ?thesis
    by (auto simp: auto_hostlist_retrans_def Let_def s reset_shape intro!: c)
qed


subsection \<open>The detectors of failures\<close>

definition counted :: "ctrack option \<Rightarrow> ctrack option \<Rightarrow> bool" where
  "counted t t' \<longleftrightarrow> (case t of None \<Rightarrow> t' = None | Some tr \<Rightarrow> \<exists>tr'. t' = Some tr' \<and> counters_only tr tr')"

lemma counted_refl [simp]: "counted t t"
  by (simp add: counted_def split: option.split)

lemma counted_simps [simp]: "counted None t' \<longleftrightarrow> t' = None" "counted (Some a) (Some b) \<longleftrightarrow> counters_only a b"
  by (auto simp: counted_def)

definition track_fails_ok :: "ah_world \<Rightarrow> ctrack option \<Rightarrow> bool" where
  "track_fails_ok ah t \<longleftrightarrow> (\<forall>tr. t = Some tr \<longrightarrow> fails_ok (auto_of ah) tr)"

lemma fails_profile:
  assumes "fails_ok (auto_of ah) t" and "dp t = Some i"
  shows "i < length (ah_profiles ah)" and "hostname_ah_check t \<Longrightarrow> hostlist_auto (ah_profiles ah ! i) \<noteq> None"
  using assms by (auto simp: fails_ok_def auto_of_nth)

lemma same_put:
  "i < length (ah_profiles ah) \<Longrightarrow> profile_shape p = profile_shape (ah_profiles ah ! i) \<Longrightarrow>
   same_profiles ah (ah\<lparr>ah_profiles := (ah_profiles ah)[i := p]\<rparr>)"
  by (simp add: same_profiles_def shape_put)

lemma process_retrans_safe:
  assumes "profiles_ok ah is" and "track_fails_ok ah t" and "dissect_ok n dis"
  shows "returns (\<lambda>(t', ah', sent). counted t t' \<and> same_profiles ah ah') (process_retrans_fail A addr t dis cl ifc ah)"
proof (cases "ae_server A \<or> t = None \<or> dp (the t) = None \<or> hostname (the t) = None")
  case True
  then show ?thesis by (auto simp: process_retrans_fail_def split: option.splits)
next
  case False
  then obtain tr i h where t: "\<not> ae_server A" "t = Some tr" "dp tr = Some i" "hostname tr = Some h" by auto
  have f: "fails_ok (auto_of ah) tr" using assms(2) t(2) by (simp add: track_fails_ok_def)
  note fp = fails_profile[OF f t(3)]
  obtain fires tr' p' sent where r: "auto_hostlist_retrans addr tr (ah_profiles ah ! i) dis (retrans_threshold (ah_profiles ah ! i)) cl ifc
      = Some (fires, tr', p', sent)" "counters_only tr tr'" "profile_shape p' = profile_shape (ah_profiles ah ! i)"
      "fires \<longrightarrow> hostname_ah_check tr"
    using returns_exists[OF retrans_safe[OF assms(3), of tr "ah_profiles ah ! i" addr "retrans_threshold (ah_profiles ah ! i)" cl ifc]] by auto
  let ?ah = "ah\<lparr>ah_profiles := (ah_profiles ah)[i := p']\<rparr>"
  have s: "same_profiles ah ?ah" using same_put[OF fp(1) r(3)] .
  have ok: "profiles_ok ?ah is" using profiles_ok_same[OF assms(1) s refl] assms(1) by (simp add: profiles_ok_def stores_ok_def)
  show ?thesis
  proof (cases fires)
    case True
    have "hostlist_auto (profile_shape p') \<noteq> None" using True r(3,4) fp(2) by simp
    then have "hostlist_auto p' \<noteq> None" by simp
    then have "returns (same_profiles ?ah) (fail_step A i h (hostname_is_ip tr') ?ah)"
      using fail_step_safe[OF ok] fp(1) by simp
    then obtain ah' where "fail_step A i h (hostname_is_ip tr') ?ah = Some ah'" "same_profiles ?ah ah'" by (auto simp: returns_def)
    with True r(1,2) s t fp(1) show ?thesis by (auto simp: process_retrans_fail_def intro: same_profiles_trans)
  qed (use r s t fp(1) in \<open>simp add: process_retrans_fail_def\<close>)
qed

lemma process_udp_safe:
  assumes "profiles_ok ah is" and "track_fails_ok ah t"
  shows "returns (\<lambda>(t', ah'). counted t t' \<and> same_profiles ah ah') (process_udp_fail A t tpos ah)"
proof (cases "t = None \<or> dp (the t) = None \<or> hostname (the t) = None")
  case True
  then show ?thesis by (auto simp: process_udp_fail_def split: option.splits)
next
  case False
  then obtain tr i h where t: "t = Some tr" "dp tr = Some i" "hostname tr = Some h" by auto
  have f: "fails_ok (auto_of ah) tr" using assms(2) t(1) by (simp add: track_fails_ok_def)
  note fp = fails_profile[OF f t(2)]
  obtain ah1 where r: "reset_step i (Some h) ah = Some ah1" "same_profiles ah ah1"
    using returns_exists[OF reset_step_safe[OF fp(1)]] by blast
  have "hostname_ah_check tr \<Longrightarrow> \<exists>ah2. fail_step A i h (hostname_is_ip tr) ah = Some ah2 \<and> same_profiles ah ah2"
    using returns_exists[OF fail_step_safe[OF assms(1) fp(1) fp(2)]] by blast
  with r t fp(1) show ?thesis by (auto simp: process_udp_fail_def Let_def)
qed

lemma tcp_reply_safe:
  assumes "profiles_ok ah is" and "track_fails_ok ah t" and "dissect_ok n dis" and "d_tcp dis \<noteq> None"
    and i: "i < length (ah_profiles ah)" "\<forall>tr. t = Some tr \<longrightarrow> dp tr = Some i"
  shows "returns (\<lambda>(t', ah'). counted t t' \<and> same_profiles ah ah') (tcp_reply_fail A t i dis http ah)"
proof (cases t)
  case (Some tr)
  have f: "fails_ok (auto_of ah) tr" using assms(2) Some by (simp add: track_fails_ok_def)
  have d: "dp tr = Some i" using i(2) Some by simp
  obtain ah1 where r: "reset_step i (hostname tr) ah = Some ah1" "same_profiles ah ah1"
    using returns_exists[OF reset_step_safe[OF i(1)]] by blast
  have fs: "\<exists>h ah2. hostname tr = Some h \<and> fail_step A i h (hostname_is_ip tr) ah = Some ah2 \<and> same_profiles ah ah2"
    if ck: "hostname_ah_check tr"
  proof -
    obtain h where h: "hostname tr = Some h" using f ck by (auto simp: fails_ok_def)
    show ?thesis
      using returns_exists[OF fail_step_safe[OF assms(1) i(1) fails_profile(2)[OF f d ck], of A h "hostname_is_ip tr"]] h by blast
  qed
  obtain tcp where tcp: "d_tcp dis = Some tcp" using assms(4) by auto
  have fl: "th_flags (data_pkt dis) tcp = Some (data_pkt dis ! (tcp + 13))"
    using dissect_headers(1)[OF assms(3) tcp] by (simp add: th_flags_def)
  obtain y where y: "data_payload dis = Some y" "y + len_payload dis \<le> length (data_pkt dis)"
    using assms(3) tcp by (auto simp: dissect_ok_def split: option.splits)
  have "len_payload dis \<le> length (drop y (data_pkt dis))" using y(2) by simp
  from returns_exists[OF HttpReplyLooksLikeDPIRedirect_wp[OF this, of "hostname tr"]] obtain b where
    b: "HttpReplyLooksLikeDPIRedirect (drop y (data_pkt dis)) (len_payload dis) (hostname tr) = Some b" by blast
  show ?thesis
    using i(1) r fs by (cases "hostname_ah_check tr") (auto simp: tcp_reply_fail_def Some tcp fl y(1) b Let_def)
qed (simp add: tcp_reply_fail_def)

end
