(* ===== verification/Redissect.thy ===== *)
theory Redissect
  imports Conntrack
begin

text \<open>
  A delayed packet is kept up to the length its IP header gives, and is dissected again when it is replayed. Dissecting the
  kept prefix gives the dissection of the packet, and the same connection.
\<close>

subsection \<open>Reading a prefix of a buffer\<close>

lemma pntoh16_take: "p + 2 \<le> n \<Longrightarrow> pntoh16 (take n d) p = pntoh16 d p"
  by (simp add: pntoh16_def be_step_def rd_take)

lemma rd_block_take: "p + k \<le> n \<Longrightarrow> n \<le> length d \<Longrightarrow> rd_block (take n d) p k = rd_block d p k"
  by (simp add: rd_block_def min_def take_drop)

lemmas take_reads = rd_take pntoh16_take rd_block_take

lemma ext_switch_take: "p + len \<le> n \<Longrightarrow> ext_switch (take n d) p len ty fr fo = ext_switch d p len ty fr fo"
  by (simp add: ext_switch_def take_reads)

lemma skip_ipv6_take:
  "p + len \<le> n \<Longrightarrow> skip_ipv6_loop (take n d) p len ty fr fo pr = skip_ipv6_loop d p len ty fr fo pr"
proof (induction d p len ty fr fo pr rule: skip_ipv6_loop.induct)
  case (1 d p len ty fr fo pr)
  show ?case
  proof (cases "len \<noteq> 0 \<and> \<not> (fr \<and> fo \<noteq> 0) \<and> ty \<noteq> IPPROTO_NONE")
    case False
    then show ?thesis by (subst (1 2) skip_ipv6_loop.simps) auto
  next
    case go: True
    show ?thesis
    proof (cases "ext_switch d p len ty fr fo")
      case (Some c)
      show ?thesis
      proof (cases c)
        case (ExtHdr h fr' fo')
        show ?thesis
        proof (cases "len < h \<or> rd d p = None")
          case True
          with go Some ExtHdr "1.prems" show ?thesis by (subst (1 2) skip_ipv6_loop.simps) (auto simp: ext_switch_take take_reads)
        next
          case False
          then obtain ty' where t: "rd d p = Some ty'" "\<not> len < h" by auto
          have "skip_ipv6_loop (take n d) (p + h) (len - h) ty' fr' fo' pr = skip_ipv6_loop d (p + h) (len - h) ty' fr' fo' pr"
            using "1.IH"[OF _ _ Some ExtHdr t(2,1)] go "1.prems" t(2) by simp
          with go Some ExtHdr t "1.prems" show ?thesis
            by (subst (1 2) skip_ipv6_loop.simps) (simp add: ext_switch_take take_reads)
        qed
      qed (use go Some "1.prems" in \<open>subst (1 2) skip_ipv6_loop.simps, simp add: ext_switch_take\<close>)+
    next
      case None
      with go "1.prems" show ?thesis by (subst (1 2) skip_ipv6_loop.simps) (simp add: ext_switch_take)
    qed
  qed
qed

subsection \<open>Dissecting the packet without what follows it\<close>

lemma dissect_l3_take:
  assumes len: "len \<le> length d" "length d < 2 ^ 64" and sane: "ip_len_sane d len"
    and r: "dissect_l3 d len False = Some (Some (dis, p, len'))"
  defines "n \<equiv> len_pkt dis"
  shows "dissect_l3 (take n d) n False = Some (Some (dis\<lparr>data_pkt := take n d\<rparr>, p, len')) \<and> n \<le> len \<and> p + len' \<le> n
     \<and> (d_ip dis = Some 0 \<and> d_ip6 dis = None \<and> 20 \<le> n \<or> d_ip dis = None \<and> d_ip6 dis = Some 0 \<and> 40 \<le> n)"
proof -
  obtain b4 where b4: "proto_check_ipv4 d 0 len = Some b4"
    and v4: "b4 \<Longrightarrow> 20 \<le> len \<and> 20 \<le> 4 * unat (d ! 0 AND 0x0F) \<and> 4 * unat (d ! 0 AND 0x0F) \<le> len"
    using proto_check_ipv4_iff[OF len(1)] by blast
  obtain b6 where b6: "proto_check_ipv6 d 0 len = Some b6" and v6: "b6 \<Longrightarrow> 40 \<le> len"
    using proto_check_ipv6_iff[OF len(1)] by blast
  from dissect_l3_ok[OF len sane, of False] r have b: "p + len' \<le> n" "n \<le> len" by (simp_all add: n_def)
  show ?thesis
  proof (cases "b4 \<and> proto_check_ipv4_payload d 0 len = Some True")
    case True
    note B = v4[OF True[THEN conjunct1]]
    from pntoh16_nat[of 2 d] B len obtain l where l: "pntoh16 d 2 = Some l"
      and ln: "unat l = be_nat (take 2 (drop 2 d))" by auto
    have le: "unat l \<le> len" using True l by (simp add: proto_check_ipv4_payload_def del: add_2_eq_Suc')
    define hl where "hl = unat (d ! 0 AND 0x0F)"
    have hl: "ip_hl d 0 = Some hl" unfolding ip_hl_def hl_def by (subst rd_in) (use B len in linarith, simp)
    have hll: "4 * hl \<le> unat l" using sane b4 True unfolding ip_len_sane_def ln hl_def by simp
    obtain pr where r9: "rd d 9 = Some pr" using B len by (simp add: rd_def)
    obtain b0 where r0: "rd d 0 = Some b0" using B len by (cases "rd d 0") (simp_all add: rd_def split: if_splits)
    have nib: "drop_bit 4 b0 = 4" using b4 True r0 by (auto simp: proto_check_ipv4_def split: if_splits bind_splits)
    from pntoh16_in[of 6 d] B len obtain io where io: "pntoh16 d 6 = Some io" by auto
    have dis: "dis = (dissect_init d len)\<lparr>len_pkt := unat l, d_ip := Some 0, d_proto := pr, d_frag := io AND (0x1FFF OR 0x2000) \<noteq> 0,
        d_frag_off := push_bit 3 (io AND 0x1FFF), len_l3 := 4 * hl\<rparr>" "p = 4 * hl" "len' = size_sub (unat l) (4 * hl)"
      using r True b4 l io hl r9 le by (auto simp: dissect_l3_def Let_def proto_skip_ipv4_def)
    have n: "n = unat l" by (simp add: n_def dis)
    have n20: "20 \<le> n" "4 * hl \<le> n" "20 \<le> 4 * hl" using hll B by (simp_all add: n hl_def)
    have e: "rd (take n d) 0 = Some b0" "rd (take n d) 9 = Some pr" "pntoh16 (take n d) 2 = Some l" "pntoh16 (take n d) 6 = Some io"
      using n20 r0 r9 l io by (simp_all add: take_reads)
    have hle: "ip_hl (take n d) 0 = Some hl" using hl n20 by (simp add: ip_hl_def take_reads)
    have c: "proto_check_ipv4 (take n d) 0 n = Some True" using e hle n20 nib by (simp add: proto_check_ipv4_def)
    have c2: "proto_check_ipv4_payload (take n d) 0 n = Some True" using e n by (simp add: proto_check_ipv4_payload_def del: add_2_eq_Suc')
    show ?thesis
      using c c2 e hle b n20 by (simp add: dissect_l3_def Let_def proto_skip_ipv4_def n dis dissect_init_def)
  next
    case no4: False
    obtain x4 where x4: "cand (Some b4) (cor (Some False) (proto_check_ipv4_payload d 0 len)) = Some x4"
      using r b4 by (cases "cand (Some b4) (cor (Some False) (proto_check_ipv4_payload d 0 len))") (simp_all add: dissect_l3_def)
    have "\<not> x4" using no4 x4 by (cases b4) auto
    then have x6: "b6 \<and> proto_check_ipv6_payload d 0 len = Some True"
      using r x4 b4 b6 by (cases b6) (auto simp: dissect_l3_def Let_def split: bind_splits if_splits)
    note B = v6[OF x6[THEN conjunct1]]
    from pntoh16_nat[of 4 d] B len obtain l where l: "pntoh16 d 4 = Some l"
      and ln: "unat l = be_nat (take 2 (drop 4 d))" by auto
    have le: "unat l + 40 \<le> len" using x6 l by (simp add: proto_check_ipv6_payload_def)
    have "unat l \<le> 65495" using sane b6 x6 unfolding ip_len_sane_def ln by simp
    then have l40: "unat (l + 40) = unat l + 40" by (simp add: unat_word_ariths)
    obtain b0 ty where r0: "rd d 0 = Some b0" "rd d 6 = Some ty" using B len by (cases "rd d 0"; cases "rd d 6") (simp_all add: rd_def split: if_splits)
    have nib: "b0 AND 0xF0 = 0x60" using b6 x6 r0 B by (simp add: proto_check_ipv6_def)
    have ml: "(if unat (l + 40) < len then unat (l + 40) else len) = unat l + 40" using l40 le by simp
    have ss: "size_sub (unat l + 40) 40 = unat l" using size_sub_le[of 40 "unat l + 40"] le len by simp
    obtain p' m pr f fo where s: "skip_ipv6_loop d 40 (unat l) ty False 0 ty = Some (p', m, pr, f, fo)"
      using skip_ipv6_loop_ok[of 40 "unat l" d ty False 0 ty] le len by auto
    have dis: "dis = (dissect_init d len)\<lparr>len_pkt := unat l + 40, d_ip6 := Some 0, d_proto := pr, d_frag := f, d_frag_off := fo, len_l3 := p'\<rparr>"
       "p = p'" "len' = m"
      using r x4 \<open>\<not> x4\<close> x6 b4 b6 l r0 s ss by (auto simp: dissect_l3_def Let_def proto_skip_ipv6_def ml)
    have n: "n = unat l + 40" by (simp add: n_def dis)
    have e: "rd (take n d) 0 = Some b0" "rd (take n d) 6 = Some ty" "pntoh16 (take n d) 4 = Some l"
      using r0 l by (simp_all add: take_reads n)
    have nib4: "drop_bit 4 b0 \<noteq> 4"
    proof
      assume a: "drop_bit 4 b0 = 4"
      have "b0 AND NOT (mask 4) = push_bit 4 (drop_bit 4 b0)" by (rule bit_word_eqI) (auto simp: bit_simps)
      moreover have "(NOT (mask 4) :: u8) = 0xF0" by (simp add: mask_eq_exp_minus_1)
      ultimately have "b0 AND 0xF0 = push_bit 4 (drop_bit 4 b0)" by simp
      with a nib show False by simp
    qed
    have c4: "proto_check_ipv4 (take n d) 0 n = Some False" using e nib4 by (simp add: proto_check_ipv4_def)
    have c6: "proto_check_ipv6 (take n d) 0 n = Some True" using e nib n by (simp add: proto_check_ipv6_def)
    have p6: "proto_check_ipv6_payload (take n d) 0 n = Some True" using e n by (simp add: proto_check_ipv6_payload_def)
    have se: "skip_ipv6_loop (take n d) 40 (unat l) ty False 0 ty = Some (p', m, pr, f, fo)"
      using s skip_ipv6_take[of 40 "unat l" n d] n by simp
    show ?thesis
      using c4 c6 p6 e l40 ss se b by (simp add: dissect_l3_def Let_def proto_skip_ipv6_def n dis dissect_init_def)
  qed
qed

lemma dissect_l4_take:
  assumes "p + len \<le> n"
  shows "dissect_l4 (take n d) False (dis\<lparr>data_pkt := e\<rparr>) p len
    = map_option (\<lambda>(x, q, l). (x\<lparr>data_pkt := e\<rparr>, q, l)) (dissect_l4 d False dis p len)"
proof -
  have t: "20 \<le> len \<Longrightarrow> th_off (take n d) p = th_off d p" using assms by (simp add: th_off_def take_reads)
  have c: "proto_check_tcp (take n d) p len = proto_check_tcp d p len" using t by (simp add: proto_check_tcp_def)
  have u: "8 \<le> len \<Longrightarrow> proto_check_udp_payload (take n d) p len = proto_check_udp_payload d p len"
    using assms by (simp add: proto_check_udp_payload_def take_reads)
  have s: "proto_check_tcp d p len = Some True \<Longrightarrow> proto_skip_tcp (take n d) p len = proto_skip_tcp d p len"
    using t by (auto simp: proto_check_tcp_def proto_skip_tcp_def split: if_splits)
  show ?thesis
  proof (cases "d_proto dis = IPPROTO_TCP \<and> proto_check_tcp d p len = Some True")
    case True
    with s c show ?thesis by (cases "proto_skip_tcp d p len") (auto simp: dissect_l4_def)
  next
    case notcp: False
    show ?thesis
    proof (cases "cand (Some (d_proto dis = IPPROTO_TCP)) (proto_check_tcp d p len)")
      case (Some b)
      with notcp have b: "cand (Some (d_proto dis = IPPROTO_TCP)) (proto_check_tcp d p len) = Some False" by (cases b) (auto split: if_splits)
      show ?thesis
      proof (cases "d_proto dis = IPPROTO_UDP \<and> 8 \<le> len")
        case True
        then show ?thesis using b c u
          by (cases "proto_check_udp_payload d p len") (auto simp: dissect_l4_def proto_check_udp_def proto_skip_udp_def proto_skip_icmp_def)
      next
        case False
        then have "cand (Some (d_proto dis = IPPROTO_UDP \<and> proto_check_udp len)) z = Some False" for z
          by (auto simp: proto_check_udp_def)
        then show ?thesis using b c by (simp add: dissect_l4_def proto_skip_icmp_def)
      qed
    qed (use c in \<open>simp add: dissect_l4_def\<close>)
  qed
qed

lemma dissect_take:
  assumes "len \<le> length d" and "length d < 2 ^ 64" and "ip_len_sane d len"
    and "proto_dissect_l3l4 d len False = Some dis" and "d_ip dis \<noteq> None \<or> d_ip6 dis \<noteq> None"
  shows "proto_dissect_l3l4 (take (len_pkt dis) d) (len_pkt dis) False = Some (dis\<lparr>data_pkt := take (len_pkt dis) d\<rparr>)
    \<and> (d_ip dis = Some 0 \<and> 20 \<le> len_pkt dis \<or> d_ip dis = None \<and> d_ip6 dis = Some 0 \<and> 40 \<le> len_pkt dis) \<and> len_pkt dis \<le> len"
proof -
  obtain r where r: "dissect_l3 d len False = Some r" using assms(4) by (auto simp: proto_dissect_l3l4_def split: bind_splits)
  show ?thesis
  proof (cases r)
    case None
    then have "dis = dissect_init d len" using assms(4) r by (simp add: proto_dissect_l3l4_def)
    with assms(5) show ?thesis by (simp add: dissect_init_def)
  next
    case (Some x)
    obtain ds p l where x: "x = (ds, p, l)" by (cases x)
    let ?n = "len_pkt ds" and ?d1 = "ds\<lparr>transport_len := l, len_l4 := 0\<rparr>"
    note t = dissect_l3_take[OF assms(1-3) r[unfolded Some x]]
    have l4: "dissect_l4 (take ?n d) False (?d1\<lparr>data_pkt := take ?n d\<rparr>) p l
      = map_option (\<lambda>(x, q, l). (x\<lparr>data_pkt := take ?n d\<rparr>, q, l)) (dissect_l4 d False ?d1 p l)"
      using t by (intro dissect_l4_take) blast
    have upd: "ds\<lparr>data_pkt := take ?n d, transport_len := l, len_l4 := 0\<rparr> = ?d1\<lparr>data_pkt := take ?n d\<rparr>" by simp
    show ?thesis
    proof (cases "d_frag ds")
      case True
      then have d: "dis = ?d1\<lparr>data_payload := Some p, len_payload := l\<rparr>" using assms(4) r by (simp add: proto_dissect_l3l4_def Some x)
      then show ?thesis using t True by (auto simp: proto_dissect_l3l4_def)
    next
      case False
      obtain ds2 q m where e: "dissect_l4 d False ?d1 p l = Some (ds2, q, m)" "dis = ds2\<lparr>data_payload := Some q, len_payload := m\<rparr>"
        using assms(4) r False by (auto simp: proto_dissect_l3l4_def Some x split: bind_splits)
      have k: "len_pkt ds2 = ?n" "d_ip ds2 = d_ip ds" "d_ip6 ds2 = d_ip6 ds"
        using e(1) by (auto simp: dissect_l4_def Let_def split: bind_splits if_splits prod.splits)
      have "proto_dissect_l3l4 (take ?n d) ?n False = Some (ds2\<lparr>data_pkt := take ?n d, data_payload := Some q, len_payload := m\<rparr>)"
        using t False l4 e(1) by (simp add: proto_dissect_l3l4_def upd)
      then show ?thesis using t e(2) k by auto
    qed
  qed
qed

text \<open>The packet that is kept in the queue belongs to the same connection.\<close>

lemma extract_ports_take:
  assumes "\<forall>t. tcp = Some t \<longrightarrow> t + 20 \<le> n" and "\<forall>u. udp = Some u \<longrightarrow> u + 8 \<le> n"
  shows "extract_ports (take n d) tcp udp = extract_ports d tcp udp"
  using assms by (cases tcp; cases udp) (simp_all add: extract_ports_def take_reads)

lemma extract_conn_take:
  assumes "length d \<ge> n" and "d_ip dis = Some 0 \<and> 20 \<le> n \<or> d_ip dis = None \<and> d_ip6 dis = Some 0 \<and> 40 \<le> n"
    and "\<forall>t. d_tcp dis = Some t \<longrightarrow> t + 20 \<le> n" and "\<forall>u. d_udp dis = Some u \<longrightarrow> u + 8 \<le> n" and "data_pkt dis = d"
  shows "ConntrackExtractConn b (dis\<lparr>data_pkt := take n d\<rparr>) = ConntrackExtractConn b dis"
  using assms extract_ports_take[OF assms(3,4), of d]
  by (elim disjE) (simp_all add: ConntrackExtractConn_def Let_def rd_block_take del: rd_block_in)

end
