(* ===== verification/LuaRound.thy ===== *)
theory LuaRound
  imports LuaPacket
begin

text \<open>
  A header that is given to a script as a table and put together again from it is the header: the round trips of the UDP,
  ICMP, TCP and IPv4 headers with their options.
\<close>

unbundle bit_operations_syntax

subsection \<open>Fields\<close>

lemma ucast_back [lua_simps]:
  "ucast (ucast (b :: u8) :: u64) = b" "ucast (ucast (h :: u16) :: u64) = h" "ucast (ucast (w :: u32) :: u64) = w"
  by (rule bit_word_eqI; auto simp: bit_simps)+

lemma pushed_fields [lua_simps]:
  "lua_getfield (LTable (push8 A f b t)) g = (if f = g then lua_pushlint A (ucast b) else lua_getfield (LTable t) g)"
  "lua_getfield (LTable (push16 A f h t)) g = (if f = g then lua_pushlint A (ucast h) else lua_getfield (LTable t) g)"
  "lua_getfield (LTable (push32 A f w t)) g = (if f = g then lua_pushlint A (ucast w) else lua_getfield (LTable t) g)"
  "lua_getfield (LTable (lua_pushf_int A f i t)) g = (if f = g then lua_pushlint A i else lua_getfield (LTable t) g)"
  "lua_getfield (LTable (lua_pushf_raw f (Some s) t)) g = (if f = g then LStr s else lua_getfield (LTable t) g)"
  "lua_getfield (LTable (lua_pushf_raw f None t)) g = (if f = g then LNil else lua_getfield (LTable t) g)"
  by (simp_all add: push8_def push16_def push32_def lua_pushf_int_def lua_pushf_lint_def lua_pushf_raw_def lua_push_raw_def getfield_pushf)

lemma read_fields:
  assumes "api_ok A"
  shows "lua_getfield v f = lua_pushlint A (ucast (b :: u8)) \<Longrightarrow> get8 A v f = b"
    and "lua_getfield v f = lua_pushlint A (ucast (h :: u16)) \<Longrightarrow> get16 A v f = h"
    and "lua_getfield v f = lua_pushlint A (ucast (w :: u32)) \<Longrightarrow> get32 A v f = w"
  using pushlint_read(1)[OF assms] by (simp_all add: get8_def get16_def get32_def ucast_back)

lemma be2_read: "pntoh16 d p = Some v \<Longrightarrow> be_bytes 2 v = take 2 (drop p d) \<and> p + 2 \<le> length d"
proof -
  assume g: "pntoh16 d p = Some v"
  then have l: "p + 2 \<le> length d" using be16.get_Some_iff by blast
  then have "v = be_word (take 2 (drop p d))" using g be16.get_in by simp
  with be_bytes_be_word[of "take 2 (drop p d)", where 'w = 16] l show ?thesis by simp
qed

lemma be4_read: "pntoh32 d p = Some v \<Longrightarrow> be_bytes 4 v = take 4 (drop p d) \<and> p + 4 \<le> length d"
proof -
  assume g: "pntoh32 d p = Some v"
  then have l: "p + 4 \<le> length d" using be32.get_Some_iff by blast
  then have "v = be_word (take 4 (drop p d))" using g be32.get_in by simp
  with be_bytes_be_word[of "take 4 (drop p d)", where 'w = 32] l show ?thesis by simp
qed

lemma b1_read: "rd d p = Some v \<Longrightarrow> [v] = take 1 (drop p d) \<and> p + 1 \<le> length d"
  by (auto simp: rd_def take_Suc_conv_app_nth hd_drop_conv_nth take_Suc Cons_nth_drop_Suc[symmetric] split: if_splits)

lemma block_read: "rd_block d p n = Some v \<Longrightarrow> v = take n (drop p d) \<and> p + n \<le> length d"
  by (auto simp: rd_block_def split: if_splits)

text \<open>A block is the pieces one behind the other.\<close>

lemma glue: "r = take n (drop q d) \<Longrightarrow> k = m + n \<Longrightarrow> q = p + m \<Longrightarrow> take m (drop p d) @ r = take k (drop p d)"
  by (simp add: take_add add.commute)

lemmas glue3 = glue[OF glue[OF refl]]
lemmas glue4 = glue[OF glue3]
lemmas glue6 = glue[OF glue[OF glue4]]
lemmas glue9 = glue[OF glue[OF glue[OF glue6]]]

lemmas read_pieces = be2_read[THEN conjunct1] be4_read[THEN conjunct1] b1_read[THEN conjunct1] block_read[THEN conjunct1]

lemma reads_in:
  "p + 2 \<le> length d \<Longrightarrow> \<exists>v. pntoh16 d p = Some v" "p + 4 \<le> length d \<Longrightarrow> \<exists>v. pntoh32 d p = Some v"
  "p + 1 \<le> length d \<Longrightarrow> \<exists>v. rd d p = Some v" "p + n \<le> length d \<Longrightarrow> \<exists>v. rd_block d p n = Some v"
  using be16.get_Some_iff[of d p] be32.get_Some_iff[of d p] by (simp_all add: rd_def rd_block_def)

subsection \<open>UDP and ICMP headers\<close>

lemma udphdr_round:
  assumes A: "api_ok A" and l: "p + 8 \<le> length d" "8 \<le> len" "8 \<le> room"
  shows "\<exists>t. lua_push_udphdr A d (Some p) len = Some (LTable t)
    \<and> lua_reconstruct_udphdr A room (LTable t) = Some (LOk (take 8 (drop p d)))"
proof -
  obtain s q u c where s: "pntoh16 d p = Some s" "pntoh16 d (p + 2) = Some q" "pntoh16 d (p + 4) = Some u" "pntoh16 d (p + 6) = Some c"
    using reads_in(1)[of p d] reads_in(1)[of "p + 2" d] reads_in(1)[of "p + 4" d] reads_in(1)[of "p + 6" d] l by auto
  let ?t = "push16 A ''uh_sum'' c (push16 A ''uh_ulen'' u (push16 A ''uh_dport'' q (push16 A ''uh_sport'' s [])))"
  have v: "lua_push_udphdr A d (Some p) len = Some (LTable ?t)"
    using s l(2) by (simp add: lua_push_udphdr_def del: add_2_eq_Suc')
  have "get16 A (LTable ?t) ''uh_sport'' = s" "get16 A (LTable ?t) ''uh_dport'' = q" "get16 A (LTable ?t) ''uh_ulen'' = u"
    "get16 A (LTable ?t) ''uh_sum'' = c"
    by (rule read_fields[OF A], simp add: lua_simps)+
  then have r: "lua_reconstruct_udphdr A room (LTable ?t) = Some (LOk (be_bytes 2 s @ be_bytes 2 q @ be_bytes 2 u @ be_bytes 2 c))"
    using l(3) by (simp add: lua_reconstruct_udphdr_def has_num_def lua_simps)
  have "be_bytes 2 s @ be_bytes 2 q @ be_bytes 2 u @ be_bytes 2 c = take 8 (drop p d)"
    unfolding s[THEN read_pieces(1)] by (rule glue4) (rule refl | simp)+
  with v r show ?thesis by auto
qed

lemma icmphdr_round:
  assumes A: "api_ok A" and l: "p + 8 \<le> length d" "8 \<le> len" "8 \<le> room"
  shows "\<exists>t. lua_push_icmphdr A d (Some p) len = Some (LTable t)
    \<and> lua_reconstruct_icmphdr A room (LTable t) = Some (LOk (take 8 (drop p d)))"
proof -
  obtain ty co where b: "rd d p = Some ty" "rd d (p + 1) = Some co" using reads_in(3)[of p d] reads_in(3)[of "p + 1" d] l by auto
  obtain c where c: "pntoh16 d (p + 2) = Some c" using reads_in(1)[of "p + 2" d] l by auto
  obtain w where w: "pntoh32 d (p + 4) = Some w" using reads_in(2)[of "p + 4" d] l by auto
  let ?t = "push32 A ''icmp_data'' w (push16 A ''icmp_cksum'' c (push8 A ''icmp_code'' co (push8 A ''icmp_type'' ty [])))"
  have v: "lua_push_icmphdr A d (Some p) len = Some (LTable ?t)"
    using b c w l(2) by (simp add: lua_push_icmphdr_def del: add_2_eq_Suc')
  have f: "get8 A (LTable ?t) ''icmp_type'' = ty" "get8 A (LTable ?t) ''icmp_code'' = co" "get16 A (LTable ?t) ''icmp_cksum'' = c"
    "get32 A (LTable ?t) ''icmp_data'' = w"
    by (rule read_fields[OF A], simp add: lua_simps)+
  then have r: "lua_reconstruct_icmphdr A room (LTable ?t) = Some (LOk ([ty] @ [co] @ be_bytes 2 c @ be_bytes 4 w))"
    using l(3) by (simp add: lua_reconstruct_icmphdr_def has_num_def lua_simps)
  have "[ty] @ [co] @ be_bytes 2 c @ be_bytes 4 w = take 8 (drop p d)"
    unfolding b[THEN read_pieces(3)] c[THEN read_pieces(1)] w[THEN read_pieces(2)]
    by (rule glue4) (rule refl | simp)+
  with v r show ?thesis by auto
qed

subsection \<open>TCP headers\<close>

text \<open>Options that fill their room: each with its length, an end of list at most as the last byte.\<close>

fun opts_plain :: "bytes \<Rightarrow> bool" where
  "opts_plain [] = True"
| "opts_plain [k] = (k = TCP_KIND_END \<or> k = TCP_KIND_NOOP)"
| "opts_plain (k # l # s) =
     (if k = TCP_KIND_END then False
      else if k = TCP_KIND_NOOP then opts_plain (l # s)
      else 2 \<le> unat l \<and> unat l - 2 \<le> length s \<and> opts_plain (drop (unat l - 2) s))"

definition lies :: "bytes \<Rightarrow> nat \<Rightarrow> bytes \<Rightarrow> bool" where
  "lies d t xs \<longleftrightarrow> t + length xs \<le> length d \<and> take (length xs) (drop t d) = xs"

lemma lies_block: "t + n \<le> length d \<Longrightarrow> lies d t (take n (drop t d))"
  by (simp add: lies_def)

lemma lies_Cons: "lies d t (k # r) \<Longrightarrow> rd d t = Some k \<and> lies d (t + 1) r"
  by (auto simp: lies_def rd_def take_Suc hd_drop_conv_nth tl_drop[symmetric] drop_Suc)

lemma lies_drop: "lies d t xs \<Longrightarrow> n \<le> length xs \<Longrightarrow> rd_block d t n = Some (take n xs) \<and> lies d (t + n) (drop n xs)"
proof -
  assume l: "lies d t xs" and n: "n \<le> length xs"
  have e: "xs = take (length xs) (drop t d)" and t: "t + length xs \<le> length d" using l by (simp_all add: lies_def)
  have "take n xs = take n (drop t d)" by (subst e) (use n in \<open>simp add: min_def\<close>)
  moreover have "drop n xs = take (length xs - n) (drop (t + n) d)" by (subst e) (simp add: drop_take add.commute)
  ultimately show ?thesis using n t by (simp add: rd_block_def lies_def)
qed

lemma push_opts_end: "push_tcp_opts A d u u i tab = Some tab"
  by (subst push_tcp_opts.simps) simp

lemma recon_opts_end: "lua_rawgeti opts i = LNil \<Longrightarrow> reconstruct_tcp_opts A opts i left acc = LOk (acc, left)"
  by (subst reconstruct_tcp_opts.simps) (simp add: lua_simps)

lemma push_opts_round:
  assumes A: "api_ok A"
  shows "opts_plain xs \<Longrightarrow> lies d t xs \<Longrightarrow> (\<forall>j\<ge>i. lua_rawgeti (LTable tab) j = LNil) \<Longrightarrow>
    \<exists>tab'. push_tcp_opts A d t (t + length xs) i tab = Some tab' \<and> (\<forall>j<i. lua_rawgeti (LTable tab') j = lua_rawgeti (LTable tab) j)
      \<and> (\<forall>left acc. length xs \<le> left \<longrightarrow> reconstruct_tcp_opts A (LTable tab') i left acc = LOk (acc @ xs, left - length xs))"
proof (induction xs arbitrary: t i tab rule: opts_plain.induct)
  case 1
  then show ?case by (subst push_tcp_opts.simps, subst reconstruct_tcp_opts.simps) (simp add: lua_simps)
next
  case (2 k)
  let ?x = "LTable (push8 A ''kind'' k [])" and ?t = "lua_pushi i (LTable (push8 A ''kind'' k [])) tab"
  have x: "has_num ?x ''kind''" "get8 A ?x ''kind'' = k" using read_fields(1)[OF A, of ?x "''kind''" k] by (simp_all add: has_num_def lua_simps)
  have "push_tcp_opts A d t (t + 1) i tab = Some ?t"
    using 2 lies_Cons[OF 2(2)] by (subst push_tcp_opts.simps) (auto simp: Let_def push_opts_end)
  moreover have "reconstruct_tcp_opts A (LTable ?t) i left acc = LOk (acc @ [k], left - 1)" if "1 \<le> left" for left acc
    using 2 that x by (subst reconstruct_tcp_opts.simps) (auto simp: Let_def lua_simps recon_opts_end)
  ultimately show ?case by (auto simp: lua_simps)
next
  case (3 k l s)
  note at = lies_Cons[OF "3.prems"(2)]
  have kE: "k \<noteq> TCP_KIND_END" using "3.prems"(1) by auto
  show ?case
  proof (cases "k = TCP_KIND_NOOP")
    case True
    let ?x = "LTable (push8 A ''kind'' k [])" and ?t = "lua_pushi i (LTable (push8 A ''kind'' k [])) tab"
    have x: "has_num ?x ''kind''" "get8 A ?x ''kind'' = k" using read_fields(1)[OF A, of ?x "''kind''" k] by (simp_all add: has_num_def lua_simps)
    have "\<forall>j\<ge>i + 1. lua_rawgeti (LTable ?t) j = LNil" using "3.prems"(3) by (simp add: lua_simps)
    from "3.IH"(1)[OF kE True _ conjunct2[OF at] this] "3.prems"(1) kE True obtain tab' where
      t': "push_tcp_opts A d (t + 1) (t + 1 + length (l # s)) (i + 1) ?t = Some tab'"
      "\<forall>j<i + 1. lua_rawgeti (LTable tab') j = lua_rawgeti (LTable ?t) j"
      "\<forall>left acc. length (l # s) \<le> left \<longrightarrow> reconstruct_tcp_opts A (LTable tab') (i + 1) left acc = LOk (acc @ l # s, left - length (l # s))"
      by auto
    have "push_tcp_opts A d t (t + length (k # l # s)) i tab = Some tab'"
      using at t'(1) True kE by (subst push_tcp_opts.simps) simp
    moreover have "reconstruct_tcp_opts A (LTable tab') i left acc = LOk (acc @ k # l # s, left - length (k # l # s))"
      if "length (k # l # s) \<le> left" for left acc
    proof -
      have "lua_rawgeti (LTable tab') i = ?x" using t'(2) by (simp add: lua_simps)
      then show ?thesis using that x True kE t'(3) by (subst reconstruct_tcp_opts.simps) (simp add: Let_def lua_simps)
    qed
    ultimately show ?thesis using t'(2) by (auto simp: lua_simps)
  next
    case False
    let ?n = "unat l - 2"
    have l: "2 \<le> unat l" "?n \<le> length s" "opts_plain (drop ?n s)" using "3.prems"(1) kE False by simp_all
    note at1 = lies_Cons[OF conjunct2[OF at]]
    note at2 = lies_drop[OF conjunct2[OF at1] l(2)]
    let ?x = "LTable (lua_pushf_raw ''data'' (Some (take ?n s)) (push8 A ''kind'' k []))"
    let ?t = "lua_pushi i ?x tab"
    have x: "has_num ?x ''kind''" "get8 A ?x ''kind'' = k" "lua_getfield ?x ''data'' = LStr (take ?n s)"
      using read_fields(1)[OF A, of ?x "''kind''" k] by (simp_all add: has_num_def lua_simps)
    have "\<forall>j\<ge>i + 1. lua_rawgeti (LTable ?t) j = LNil" using "3.prems"(3) by (simp add: lua_simps)
    from "3.IH"(2)[OF kE False l(3) conjunct2[OF at2] this] obtain tab' where
      t': "push_tcp_opts A d (t + 1 + 1 + ?n) (t + 1 + 1 + ?n + length (drop ?n s)) (i + 1) ?t = Some tab'"
      "\<forall>j<i + 1. lua_rawgeti (LTable tab') j = lua_rawgeti (LTable ?t) j"
      "\<forall>left acc. length (drop ?n s) \<le> left \<longrightarrow> reconstruct_tcp_opts A (LTable tab') (i + 1) left acc
          = LOk (acc @ drop ?n s, left - length (drop ?n s))"
      by auto
    have e: "t + 1 + 1 + ?n = t + unat l" "t + unat l + length (drop ?n s) = t + length (k # l # s)" using l by simp_all
    have "push_tcp_opts A d t (t + length (k # l # s)) i tab = Some tab'"
      using at at1 at2 t'(1)[unfolded e] False kE l le_diff_conv[of "unat l" 2 "length s"] by (subst push_tcp_opts.simps) simp
    moreover have "reconstruct_tcp_opts A (LTable tab') i left acc = LOk (acc @ k # l # s, left - length (k # l # s))"
      if "length (k # l # s) \<le> left" for left acc
    proof -
      have g: "lua_rawgeti (LTable tab') i = ?x" using t'(2) by (simp add: lua_simps)
      have n: "length (take ?n s) = ?n" "?n + 2 = unat l" using l by simp_all
      have "reconstruct_tcp_opts A (LTable tab') i left acc
          = reconstruct_tcp_opts A (LTable tab') (i + 1) (left - unat l) (acc @ [k, l] @ take ?n s)"
        using that x False kE g n l by (subst reconstruct_tcp_opts.simps) (simp add: Let_def lua_simps)
      also have "\<dots> = LOk ((acc @ [k, l] @ take ?n s) @ drop ?n s, left - unat l - length (drop ?n s))"
        using t'(3) that l by simp
      finally show ?thesis using l that by simp
    qed
    ultimately show ?thesis using t'(2) by (auto simp: lua_simps)
  qed
qed

lemma tcphdr_round:
  assumes A: "api_ok A" and hl: "hl = unat (drop_bit 4 (d ! (p + 12)))" "5 \<le> hl" "p + 4 * hl \<le> length d" "4 * hl \<le> room"
    and o: "opts_plain (take (4 * hl - 20) (drop (p + 20) d))"
  shows "\<exists>t. lua_push_tcphdr A d (Some p) (4 * hl) = Some (LTable t)
    \<and> lua_reconstruct_tcphdr A room (LTable t) = LOk (take (4 * hl) (drop p d))"
proof -
  let ?os = "take (4 * hl - 20) (drop (p + 20) d)"
  have l: "p + 20 \<le> length d" using hl by linarith
  have h16: "hl < 16"
  proof -
    have "unat (drop_bit 4 (d ! (p + 12))) = unat (d ! (p + 12)) div 16" unfolding drop_bit_eq_div unat_div by simp
    then show ?thesis using hl(1) unat_u8_less[of "d ! (p + 12)"] by linarith
  qed
  obtain sp dp' win cs urp where h: "pntoh16 d p = Some sp" "pntoh16 d (p + 2) = Some dp'" "pntoh16 d (p + 14) = Some win"
    "pntoh16 d (p + 16) = Some cs" "pntoh16 d (p + 18) = Some urp"
    using reads_in(1)[of p d] reads_in(1)[of "p + 2" d] reads_in(1)[of "p + 14" d] reads_in(1)[of "p + 16" d] reads_in(1)[of "p + 18" d] l by auto
  obtain sq ak where w: "pntoh32 d (p + 4) = Some sq" "pntoh32 d (p + 8) = Some ak"
    using reads_in(2)[of "p + 4" d] reads_in(2)[of "p + 8" d] l by auto
  obtain fl where b: "rd d (p + 12) = Some (d ! (p + 12))" "rd d (p + 13) = Some fl"
    using reads_in(3)[of "p + 13" d] l by (auto simp: rd_def)
  have th: "th_off d p = Some hl" using b(1) hl(1) by (simp add: th_off_def)
  have os: "lies d (p + 20) ?os" "length ?os = 4 * hl - 20" using hl by (simp_all add: lies_def)
  let ?b = "d ! (p + 12)"
  let ?t = "push16 A ''th_urp'' urp (push16 A ''th_sum'' cs (push16 A ''th_win'' win (push8 A ''th_flags'' fl
              (push8 A ''th_off'' (drop_bit 4 ?b) (push8 A ''th_x2'' (?b AND 0xF) (push32 A ''th_ack'' ak
              (push32 A ''th_seq'' sq (push16 A ''th_dport'' dp' (push16 A ''th_sport'' sp [])))))))))"
  obtain ot where ot: "push_tcp_opts A d (p + 20) (p + 20 + length ?os) 1 [] = Some ot"
    "\<And>left acc. length ?os \<le> left \<Longrightarrow> reconstruct_tcp_opts A (LTable ot) 1 left acc = LOk (acc @ ?os, left - length ?os)"
    using push_opts_round[OF A o os(1), of 1 "[]"] by (auto simp: lua_simps)
  have e: "p + 20 + length ?os = p + 4 * hl" using os(2) hl(2) by simp
  let ?T = "lua_pushf ''options'' (LTable ot) ?t"
  have v: "lua_push_tcphdr A d (Some p) (4 * hl) = Some (LTable ?T)"
    using h w b th ot(1)[unfolded e] hl(2) by (simp add: lua_push_tcphdr_def lua_pushf_tcphdr_options_def Let_def del: add_2_eq_Suc')
  have f: "get16 A (LTable ?T) ''th_sport'' = sp" "get16 A (LTable ?T) ''th_dport'' = dp'" "get16 A (LTable ?T) ''th_win'' = win"
    "get16 A (LTable ?T) ''th_sum'' = cs" "get16 A (LTable ?T) ''th_urp'' = urp" "get32 A (LTable ?T) ''th_seq'' = sq"
    "get32 A (LTable ?T) ''th_ack'' = ak" "get8 A (LTable ?T) ''th_flags'' = fl" "get8 A (LTable ?T) ''th_x2'' = ?b AND 0xF"
    by (rule read_fields[OF A], simp add: lua_simps)+
  have g: "lua_getfield (LTable ?T) ''options'' = LTable ot" by (simp add: lua_simps)
  have rm: "length ?os \<le> min (room - 20) 40" "length ?os mod 4 = 0" using os(2) hl(2,4) h16 by presburger+
  then have O: "lua_reconstruct_tcphdr_options A room (LTable ?T) = LOk ?os"
    using hl(2,4) ot(2)[OF rm(1), of "[]"] unfolding lua_reconstruct_tcphdr_options_def g by (simp add: lua_simps)
  have num: "has_num (LTable ?T) f" if "f \<in> {''th_sport'', ''th_dport'', ''th_seq'', ''th_ack'', ''th_flags'', ''th_win''}" for f
    using that by (auto simp: has_num_def lua_simps)
  have bb: "push_bit 4 (of_nat ((20 + length ?os) div 4)) OR ((?b AND 0xF) AND 0xF) = ?b"
  proof -
    have n: "of_nat ((20 + length ?os) div 4) = drop_bit 4 ?b" using os(2) hl(1,2) by simp
    have m: "(0xF :: u8) = mask 4" by (simp add: mask_eq_exp_minus_1)
    show ?thesis unfolding n m by (rule bit_word_eqI) (auto simp: bit_simps)
  qed
  have "lua_reconstruct_tcphdr A room (LTable ?T) = LOk (be_bytes 2 sp @ be_bytes 2 dp' @ be_bytes 4 sq @ be_bytes 4 ak @ [?b] @ [fl]
      @ be_bytes 2 win @ be_bytes 2 cs @ be_bytes 2 urp @ ?os)"
    unfolding lua_reconstruct_tcphdr_def O lua_res.case f bb using num hl(2,4) by (simp add: lua_simps)
  also have "be_bytes 2 sp @ be_bytes 2 dp' @ be_bytes 4 sq @ be_bytes 4 ak @ [?b] @ [fl]
      @ be_bytes 2 win @ be_bytes 2 cs @ be_bytes 2 urp @ ?os = take (4 * hl) (drop p d)"
    unfolding h[THEN read_pieces(1)] w[THEN read_pieces(2)] b[THEN read_pieces(3)]
    by (rule glue[OF glue9]) (rule refl | use hl(2) in simp)+
  finally show ?thesis using v by blast
qed

subsection \<open>IPv4 headers\<close>

lemma fix_zeroed: "12 \<le> length h \<Longrightarrow> ip4_fix_checksum addr (h[10 := 0, 11 := 0]) = ip4_fix_checksum addr h"
proof -
  assume "12 \<le> length h"
  moreover have "h[10 := 0, 11 := 0, 10 := 0, 11 := 0] = h[10 := 0, 11 := 0]" by (metis list_update_overwrite list_update_swap)
  ultimately show ?thesis by (simp add: ip4_fix_checksum_def st16_in)
qed

lemma iphdr_round:
  assumes A: "api_ok A" and v4: "drop_bit 4 (d ! p) = 4" and hl: "hl = unat (d ! p AND 0x0F)" "5 \<le> hl" "p + 4 * hl \<le> length d"
    and len: "4 * hl \<le> len" "4 * hl \<le> room"
  shows "\<exists>t. lua_push_iphdr A d (Some p) len = Some (LTable t)
    \<and> lua_reconstruct_iphdr A addr room (LTable t) = map_option LOk (ip4_fix_checksum addr (take (4 * hl) (drop p d)))"
proof -
  have l: "p + 20 \<le> length d" using hl by linarith
  have h16: "hl < 16" using hl(1) word_and_le1[of "d ! p" "0x0F"] by (auto simp: word_le_nat_alt)
  obtain tos ttl pr where b: "rd d p = Some (d ! p)" "rd d (p + 1) = Some tos" "rd d (p + 8) = Some ttl" "rd d (p + 9) = Some pr"
    using reads_in(3)[of "p + 1" d] reads_in(3)[of "p + 8" d] reads_in(3)[of "p + 9" d] l by (auto simp: rd_def)
  obtain il idn off cs where h: "pntoh16 d (p + 2) = Some il" "pntoh16 d (p + 4) = Some idn" "pntoh16 d (p + 6) = Some off" "pntoh16 d (p + 10) = Some cs"
    using reads_in(1)[of "p + 2" d] reads_in(1)[of "p + 4" d] reads_in(1)[of "p + 6" d] reads_in(1)[of "p + 10" d] l by auto
  obtain src dst where a: "rd_block d (p + 12) 4 = Some src" "rd_block d (p + 16) 4 = Some dst"
    using reads_in(4)[of "p + 12" 4 d] reads_in(4)[of "p + 16" 4 d] l by auto
  let ?b = "d ! p" and ?os = "take (4 * hl - 20) (drop (p + 20) d)"
  let ?t = "lua_pushf_raw ''ip_dst'' (Some dst) (lua_pushf_raw ''ip_src'' (Some src) (push16 A ''ip_sum'' cs
              (push8 A ''ip_p'' pr (push8 A ''ip_ttl'' ttl (push16 A ''ip_off'' off (push16 A ''ip_id'' idn
              (push16 A ''ip_len'' il (push8 A ''ip_tos'' tos (push8 A ''ip_hl'' (?b AND 0x0F)
              (push8 A ''ip_v'' (drop_bit 4 ?b) []))))))))))"
  let ?T = "if 20 < 4 * hl then lua_pushf_raw ''options'' (Some ?os) ?t else ?t"
  have os: "rd_block d (p + 20) (4 * hl - 20) = Some ?os" "length ?os = 4 * hl - 20" using hl by (simp_all add: rd_block_def)
  have v: "lua_push_iphdr A d (Some p) len = Some (LTable ?T)"
    using b h a os(1) hl(1,2) len(1) by (simp add: lua_push_iphdr_def Let_def del: add_2_eq_Suc')
  have f: "get16 A (LTable ?T) ''ip_len'' = il" "get16 A (LTable ?T) ''ip_id'' = idn" "get16 A (LTable ?T) ''ip_off'' = off"
    "get8 A (LTable ?T) ''ip_tos'' = tos" "get8 A (LTable ?T) ''ip_ttl'' = ttl" "get8 A (LTable ?T) ''ip_p'' = pr"
    by (rule read_fields[OF A], simp add: lua_simps)+
  have sl: "length src = 4" "length dst = 4" using a[THEN block_read] by auto
  have r: "get_raw (LTable ?T) ''ip_src'' 4 = Some src" "get_raw (LTable ?T) ''ip_dst'' 4 = Some dst"
    using sl by (simp_all add: get_raw_def lua_simps)
  have num: "has_num (LTable ?T) ''ip_ttl''" "has_num (LTable ?T) ''ip_p''" by (simp_all add: has_num_def lua_simps)
  have opts: "(case lua_getfield (LTable ?T) ''options'' of LStr s \<Rightarrow> s | _ \<Rightarrow> []) = ?os"
    using hl(2) by (simp add: lua_simps)
  have lo: "4 * ((length ?os + 3) div 4) = 4 * hl - 20" "length ?os \<le> 40" using os(2) hl(2) h16 by presburger+
  have bb: "0x40 OR of_nat ((20 + (4 * hl - 20)) div 4) = ?b"
  proof -
    have "of_nat ((20 + (4 * hl - 20)) div 4) = (?b AND 0x0F)" using hl(1,2) by simp
    moreover have "0x40 = push_bit 4 (drop_bit 4 ?b)" using v4 by simp
    ultimately have "0x40 OR of_nat ((20 + (4 * hl - 20)) div 4) = push_bit 4 (drop_bit 4 ?b) OR (?b AND mask 4)"
      by (simp only: mask_eq_exp_minus_1) simp
    also have "\<dots> = ?b" by (rule bit_word_eqI) (auto simp: bit_simps)
    finally show ?thesis .
  qed
  let ?h = "[?b, tos] @ be_bytes 2 il @ be_bytes 2 idn @ be_bytes 2 off @ [ttl, pr]"
  have R: "lua_reconstruct_iphdr A addr room (LTable ?T)
      = map_option LOk (ip4_fix_checksum addr (?h @ [0, 0] @ src @ dst @ ?os))"
    unfolding lua_reconstruct_iphdr_def opts Let_def lo(1) bb f r option.case
    using num len hl(2) lo(2) os(2) by (simp add: lua_simps)
  have "take (4 * hl) (drop p d) = [?b] @ [tos] @ be_bytes 2 il @ be_bytes 2 idn @ be_bytes 2 off @ [ttl] @ [pr] @ be_bytes 2 cs @ src @ dst @ ?os"
    unfolding h[THEN read_pieces(1)] b[THEN read_pieces(3)] a[THEN read_pieces(4)]
    by (rule sym, rule glue[OF glue[OF glue9]]) (rule refl | use hl(2) in simp)+
  then have T: "take (4 * hl) (drop p d) = ?h @ be_bytes 2 cs @ src @ dst @ ?os" by simp
  obtain c1 c2 where c: "be_bytes 2 cs = [c1, c2]" by (cases "be_bytes 2 cs"; cases "tl (be_bytes 2 cs)") (auto simp: numeral_2_eq_2)
  have "?h @ [0, 0] @ src @ dst @ ?os = (take (4 * hl) (drop p d))[10 := 0, 11 := 0]"
    unfolding T c by (simp add: list_update_append numeral_2_eq_2)
  moreover have "12 \<le> length (take (4 * hl) (drop p d))" using hl by simp
  ultimately show ?thesis using v R fix_zeroed by metis
qed

end
