(* ===== verification/LuaWhole.thy ===== *)
theory LuaWhole
  imports LuaRound Redissect
begin

text \<open>
  Whole packets between C and a script (lua.c, \<open>lua_push_dissect\<close> and \<open>lua_reconstruct_dissect\<close>): what is dissected and pushed
  comes back from the untouched table, for IPv4 with the header checksum set, for IPv6 as it is; and what happens to tables
  that do not come from a packet: the buffer is never left for IPv4, and can be overrun for IPv6.

  \<open>l4_split\<close> says where the transport header and the payload of a dissected packet are, \<open>ext_walk\<close> which extension headers
  come back, \<open>ip4_header\<close> what every header put together for IPv4 looks like.
\<close>

unbundle bit_operations_syntax

subsection \<open>The header checksum\<close>

lemma fix_shape:
  assumes "ip4_fix_checksum addr h = Some g" and "12 \<le> length h"
  shows "length g = length h \<and> g[10 := 0, 11 := 0] = h[10 := 0, 11 := 0]"
proof -
  have e: "h[10 := 0, 11 := 0, 10 := a, 11 := b, 10 := 0, 11 := 0] = h[10 := 0, 11 := 0]" for a b
    by (rule nth_equalityI) (use assms(2) in \<open>simp_all add: nth_list_update\<close>)
  obtain a b where "g = h[10 := 0, 11 := 0, 10 := a, 11 := b]"
    using assms(1) assms(2) unfolding ip4_fix_checksum_def Option.bind_eq_Some_conv by (auto simp: st16_in)
  with e[of a b] show ?thesis by simp
qed

lemma fix_cong:
  assumes "g[10 := 0, 11 := 0] = h[10 := 0, 11 := 0]" and "12 \<le> length h"
  shows "ip4_fix_checksum addr g = ip4_fix_checksum addr h"
proof -
  have "length g = length h" using arg_cong[OF assms(1), of length] by simp
  with assms fix_zeroed[of g addr] fix_zeroed[of h addr] show ?thesis by simp
qed

text \<open>The checksum is that of the header, whatever follows it.\<close>

lemma rd_more: "rd d p = Some b \<Longrightarrow> rd (d @ r) p = Some b"
  by (auto simp: rd_def nth_append split: if_splits)

lemma block_more: "rd_block d p n = Some b \<Longrightarrow> rd_block (d @ r) p n = Some b"
  by (auto simp: rd_block_def split: if_splits)

lemma ld_more: "ld16 d p = Some b \<Longrightarrow> ld16 (d @ r) p = Some b" "ld32 d p = Some c \<Longrightarrow> ld32 (d @ r) p = Some c"
  "ld64 d p = Some e \<Longrightarrow> ld64 (d @ r) p = Some e"
  by (auto simp: ld16_def ld32_def ld64_def le_step_def rd_more block_more split: bind_splits)

lemma csum_loop_more: "csum_loop d p n x c = Some y \<Longrightarrow> csum_loop (d @ r) p n x c = Some y"
proof (induction n arbitrary: p x c)
  case (Suc n)
  then obtain w where "ld64 d p = Some w" by (auto split: bind_splits)
  with Suc show ?case using ld_more(3) by (simp add: Let_def split del: if_split)
qed simp

lemma csum64_more: "csum64 d p n x = Some y \<Longrightarrow> csum64 (d @ r) p n x = Some y"
  by (auto simp: csum64_def csum_loop_more split: bind_splits if_splits)

lemma csum32_more: "csum32 addr d p len n x = Some y \<Longrightarrow> csum32 addr (d @ r) p len n x = Some y"
  by (auto simp: csum32_def ld_more dest!: csum64_more[of d _ _ _ _ r] split: bind_splits if_splits)

lemma csum16_more: "csum16 addr d p len x = Some y \<Longrightarrow> csum16 addr (d @ r) p len x = Some y"
  by (auto simp: csum16_def Let_def ld_more dest!: csum32_more[of addr d _ _ _ _ _ r] split: bind_splits if_splits)

lemma csum_acc_more: "csum_acc addr d n = Some y \<Longrightarrow> csum_acc addr (d @ r) n = Some y"
proof -
  assume a: "csum_acc addr d n = Some y"
  obtain v where "(if 1 AND addr \<noteq> 0 then do { b \<leftarrow> rd d 0; Some (1 :: nat, n - 1, push_bit 8 (ucast b) :: u64) } else Some (0, n, 0)) = Some v"
    using iffD1[OF Option.bind_eq_Some_conv a[unfolded csum_acc_def]] by blast
  then obtain p l x where s: "(if 1 AND addr \<noteq> 0 then do { b \<leftarrow> rd d 0; Some (1 :: nat, n - 1, push_bit 8 (ucast b) :: u64) } else Some (0, n, 0)) = Some (p, l, x)"
    by (cases v) blast
  then have s': "(if 1 AND addr \<noteq> 0 then do { b \<leftarrow> rd (d @ r) 0; Some (1 :: nat, n - 1, push_bit 8 (ucast b) :: u64) } else Some (0, n, 0)) = Some (p, l, x)"
    using rd_more[of d 0 _ r] by (auto split: if_splits bind_splits)
  obtain q m w where c: "csum16 addr d p l x = Some (q, m, w)" using a unfolding csum_acc_def s by (auto split: bind_splits)
  have "(if m AND 1 \<noteq> 0 then do { b \<leftarrow> rd d q; Some (w + ucast b) } else Some w) = Some y"
    using a unfolding csum_acc_def s bind.bind_lunit by (simp add: c)
  then have "(if m AND 1 \<noteq> 0 then do { b \<leftarrow> rd (d @ r) q; Some (w + ucast b) } else Some w) = Some y"
    using rd_more[of d q _ r] by (auto split: if_splits bind_splits)
  then show ?thesis unfolding csum_acc_def s' bind.bind_lunit by (simp add: csum16_more[OF c])
qed

lemma do_csum_more: "do_csum addr d n = Some y \<Longrightarrow> do_csum addr (d @ r) n = Some y"
  unfolding do_csum_def using csum_acc_more[of addr d n _ r] by (auto simp: Let_def split: bind_splits if_splits)

lemma fix_app:
  assumes "12 \<le> length h" and "4 * unat (h ! 0 AND 0x0F) \<le> length h"
  shows "ip4_fix_checksum addr (h @ r) = map_option (\<lambda>g. g @ r) (ip4_fix_checksum addr h)"
proof -
  let ?n = "4 * unat (h ! 0 AND 0x0F)" and ?z = "h[10 := 0, 11 := 0]"
  obtain c where "do_csum addr ?z ?n = Some c"
    using do_csum_word_sum[of ?n ?z addr] assms(2) by (cases "?n = 0") (auto simp: do_csum_def)
  moreover from do_csum_more[OF this] have "do_csum addr (?z @ r) ?n = Some c" .
  moreover have "rd h 0 = Some (h ! 0)" using assms(1) by (cases h) (auto simp: rd_def)
  ultimately show ?thesis using assms(1)
    by (cases h) (simp_all add: ip4_fix_checksum_def ip4_compute_csum_def st16_in list_update_append rd_def nth_append)
qed

subsection \<open>Extension headers\<close>

text \<open>The walk over the headers from \<open>p\<close> on, \<open>len\<close> bytes; a fragment header or an authentication header of the greatest length
  ends it. The result is the protocol behind them.\<close>

function ext_walk :: "bytes \<Rightarrow> nat \<Rightarrow> nat \<Rightarrow> u8 \<Rightarrow> u8 option" where
  "ext_walk d p len ty =
     (if len = 0 then Some ty
      else if ty \<in> {0, 43, 60, 135, 139, 140} then
        (let h = 8 + 8 * unat (d ! (p + 1)) in if h \<le> len then ext_walk d (p + h) (len - h) (d ! p) else None)
      else if ty = IPPROTO_AH \<and> unat (d ! (p + 1)) < 255 then
        (let h = 8 + 4 * unat (d ! (p + 1)) in if h \<le> len then ext_walk d (p + h) (len - h) (d ! p) else None)
      else None)"
  by pat_completeness auto
termination by (relation "measure (\<lambda>(d, p, len, ty). len)") auto

declare ext_walk.simps [simp del]

lemma ext_walk_step:
  assumes "ext_walk d p len ty = Some pr" and "len \<noteq> 0" and "p + len \<le> length d"
  obtains h where "8 \<le> h" "h \<le> len" "ext_switch d p len ty False 0 = Some (ExtHdr h False 0)" "rd d p = Some (d ! p)"
    "rd_block d (p + 2) (h - 2) = Some (take (h - 2) (drop (p + 2) d))" "ext_walk d (p + h) (len - h) (d ! p) = Some pr"
    "if ty = IPPROTO_AH then h - 2 < 1024 \<and> h mod 4 = 0 \<and> of_nat (h div 4 - 2) = d ! (p + 1)
     else h - 2 < 2048 \<and> h mod 8 = 0 \<and> of_nat (h div 8 - 1) = d ! (p + 1)"
    "ty \<in> {0, 43, 51, 60, 135, 139, 140}"
proof (cases "ty \<in> {0, 43, 60, 135, 139, 140}")
  case True
  let ?h = "8 + 8 * unat (d ! (p + 1))"
  have w: "?h \<le> len" "ext_walk d (p + ?h) (len - ?h) (d ! p) = Some pr"
    using assms(1,2) True by (subst (asm) ext_walk.simps, auto simp: Let_def split: if_splits)+
  have "?h div 8 - 1 = unat (d ! (p + 1))" "?h mod 8 = 0" by presburger+
  moreover have "ty \<noteq> IPPROTO_AH" using True by (auto simp: IPPROTO_AH_def)
  moreover have "\<not> len < 2" "rd d (p + 1) = Some (d ! (p + 1))" "rd d p = Some (d ! p)" using w(1) assms(3) by (auto simp: rd_def)
  moreover have "?h - 2 < 2048" using unat_u8_less[of "d ! (p + 1)"] by linarith
  ultimately show thesis using w True assms(3)
    by (intro that[of ?h]) (auto simp: ext_switch_def rd_block_def)
next
  case False
  let ?h = "8 + 4 * unat (d ! (p + 1))"
  have t: "ty = IPPROTO_AH" "unat (d ! (p + 1)) < 255" using assms(1,2) False by (subst (asm) ext_walk.simps, auto split: if_splits)+
  have w: "?h \<le> len" "ext_walk d (p + ?h) (len - ?h) (d ! p) = Some pr"
    using assms(1,2) False t by (subst (asm) ext_walk.simps, auto simp: Let_def split: if_splits)+
  have "?h div 4 - 2 = unat (d ! (p + 1))" "?h mod 4 = 0" by presburger+
  moreover have "\<not> len < 2" "rd d (p + 1) = Some (d ! (p + 1))" "rd d p = Some (d ! p)" using w(1) assms(3) by (auto simp: rd_def)
  moreover have "?h - 2 < 1024" using t(2) by linarith
  ultimately show thesis using w t assms(3)
    by (intro that[of ?h]) (auto simp: ext_switch_def rd_block_def IPPROTO_AH_def)
qed

lemma push_exts_end: "push_exthdrs A d p 0 ty fr fo i tab = Some tab"
  by (subst push_exthdrs.simps) simp

lemma reconstruct_ext_step:
  assumes e: "lua_rawgeti x i = LTable t" and f: "has_num (LTable t) ''type''" "has_num (LTable t) ''next''"
    "get8 A (LTable t) ''type'' = ty" "get8 A (LTable t) ''next'' = nx" "lua_getfield (LTable t) ''data'' = LStr s"
    and n: "n = length s + 2" "8 \<le> n" "n \<le> left"
    and k: "if ty = IPPROTO_AH then n - 2 < 1024 \<and> n mod 4 = 0 \<and> of_nat (n div 4 - 2) = hl
     else n - 2 < 2048 \<and> n mod 8 = 0 \<and> of_nat (n div 8 - 1) = hl"
  shows "reconstruct_exthdrs A x pn i left h lp
    = reconstruct_exthdrs A x pn (i + 1) (left - n) ((if pn then h else h[lp := ty]) @ [nx, hl] @ s) (length h)"
proof -
  have "lua_isnil (LTable t) = False" "lua_istable (LTable t)" by (simp_all add: lua_simps)
  moreover have "length s + 2 = n" "\<not> length s < 6" "\<not> left < n" using n by auto
  moreover have "n - 2 = length s" using n(1) by simp
  note k[unfolded this]
  ultimately show ?thesis using f
    by (subst reconstruct_exthdrs.simps) (cases "ty = IPPROTO_AH"; simp add: Let_def e not_le del: add_2_eq_Suc' add_2_eq_Suc of_nat_diff)
qed

lemma exts_round:
  assumes A: "api_ok A"
  shows "ext_walk d p len ty = Some pr \<Longrightarrow> p + len \<le> length d \<Longrightarrow> (\<forall>j\<ge>i. lua_rawgeti (LTable tab) j = LNil) \<Longrightarrow>
    \<exists>tab'. push_exthdrs A d p len ty False 0 i tab = Some tab' \<and> (\<forall>j<i. lua_rawgeti (LTable tab') j = lua_rawgeti (LTable tab) j)
      \<and> (\<forall>pn left h lp. len \<le> left \<longrightarrow> lp < length h \<longrightarrow> h ! lp = ty \<longrightarrow>
          (\<exists>lp'. reconstruct_exthdrs A (LTable tab') pn i left h lp = LOk (h @ take len (drop p d), lp')
             \<and> lp' < length h + len \<and> (h @ take len (drop p d)) ! lp' = pr))"
proof (induction len arbitrary: p ty i tab rule: less_induct)
  case (less len)
  show ?case
  proof (cases "len = 0")
    case True
    then have "ty = pr" using less.prems(1) by (simp add: ext_walk.simps)
    moreover have "reconstruct_exthdrs A (LTable tab) pn i left h lp = LOk (h, lp)" for pn left h lp
      using less.prems(3) by (subst reconstruct_exthdrs.simps) (simp add: lua_simps)
    ultimately show ?thesis using True by (auto simp: push_exts_end)
  next
    case False
    obtain n where n: "8 \<le> n" "n \<le> len" "ext_switch d p len ty False 0 = Some (ExtHdr n False 0)" "rd d p = Some (d ! p)"
      "rd_block d (p + 2) (n - 2) = Some (take (n - 2) (drop (p + 2) d))" "ext_walk d (p + n) (len - n) (d ! p) = Some pr"
      "if ty = IPPROTO_AH then n - 2 < 1024 \<and> n mod 4 = 0 \<and> of_nat (n div 4 - 2) = d ! (p + 1)
       else n - 2 < 2048 \<and> n mod 8 = 0 \<and> of_nat (n div 8 - 1) = d ! (p + 1)"
      by (rule ext_walk_step[OF less.prems(1) False less.prems(2)])
    let ?s = "take (n - 2) (drop (p + 2) d)"
    let ?x = "LTable (lua_pushf_raw ''data'' (Some ?s) (push8 A ''next'' (d ! p) (push8 A ''type'' ty [])))"
    let ?t = "lua_pushi i ?x tab"
    have sl: "length ?s = n - 2" using n(2) less.prems(2) by simp
    have "\<forall>j\<ge>i + 1. lua_rawgeti (LTable ?t) j = LNil" using less.prems(3) by (simp add: lua_simps)
    moreover have "len - n < len" "p + n + (len - n) \<le> length d" using n(1,2) less.prems(2) by linarith+
    ultimately obtain tab' where t': "push_exthdrs A d (p + n) (len - n) (d ! p) False 0 (i + 1) ?t = Some tab'"
      "\<forall>j<i + 1. lua_rawgeti (LTable tab') j = lua_rawgeti (LTable ?t) j"
      "\<forall>pn left h lp. len - n \<le> left \<longrightarrow> lp < length h \<longrightarrow> h ! lp = d ! p \<longrightarrow>
          (\<exists>lp'. reconstruct_exthdrs A (LTable tab') pn (i + 1) left h lp = LOk (h @ take (len - n) (drop (p + n) d), lp')
             \<and> lp' < length h + (len - n) \<and> (h @ take (len - n) (drop (p + n) d)) ! lp' = pr)"
      using less.IH[OF _ n(6)] by blast
    have P: "push_exthdrs A d p len ty False 0 i tab = Some tab'"
      using n False t'(1) by (subst push_exthdrs.simps) simp
    have x: "has_num ?x ''type''" "has_num ?x ''next''" "get8 A ?x ''type'' = ty" "get8 A ?x ''next'' = d ! p" "lua_getfield ?x ''data'' = LStr ?s"
      using read_fields(1)[OF A, of ?x "''type''" ty] read_fields(1)[OF A, of ?x "''next''" "d ! p"] by (simp_all add: has_num_def lua_simps)
    have g: "lua_rawgeti (LTable tab') i = ?x" using t'(2) by (simp add: lua_simps)
    have "\<exists>lp'. reconstruct_exthdrs A (LTable tab') pn i left h lp = LOk (h @ take len (drop p d), lp')
             \<and> lp' < length h + len \<and> (h @ take len (drop p d)) ! lp' = pr" if c: "len \<le> left" "lp < length h" "h ! lp = ty" for pn left h lp
    proof -
      let ?h = "h @ [d ! p, d ! (p + 1)] @ ?s"
      have hh: "h[lp := ty] = h" using c(3) by auto
      have b1: "rd d (p + 1) = Some (d ! (p + 1))" using n(1,2) less.prems(2) by (simp add: rd_def)
      have "[d ! p] @ [d ! (p + 1)] @ ?s = take n (drop p d)"
        unfolding n(4)[THEN read_pieces(3)] b1[THEN read_pieces(3)] by (rule glue3) (rule refl | use n(1) in simp)+
      then have H: "?h @ take (len - n) (drop (p + n) d) = h @ take len (drop p d)"
        using glue[of "take (len - n) (drop (p + n) d)" "len - n" "p + n" d len n p] n(2) by simp
      have l: "length ?s + 2 = n" using sl n(1) by simp
      have "reconstruct_exthdrs A (LTable tab') pn i left h lp
          = reconstruct_exthdrs A (LTable tab') pn (i + 1) (left - n) ?h (length h)"
        using reconstruct_ext_step[OF g x l[symmetric] n(1) _ n(7), of left pn h lp] n(2) c hh by simp
      moreover obtain lp' where lp': "reconstruct_exthdrs A (LTable tab') pn (i + 1) (left - n) ?h (length h)
          = LOk (?h @ take (len - n) (drop (p + n) d), lp')"
         "lp' < length ?h + (len - n)" "(?h @ take (len - n) (drop (p + n) d)) ! lp' = pr"
      proof -
        have "len - n \<le> left - n" "length h < length ?h" "?h ! length h = d ! p" using c by simp_all
        with t'(3) that show thesis by blast
      qed
      moreover have "length ?h + (len - n) = length h + len" using sl n(1,2) by simp
      ultimately show ?thesis unfolding H by auto
    qed
    with P g t'(2) show ?thesis by (auto simp: lua_simps)
  qed
qed

subsection \<open>The dissected packet\<close>

text \<open>Behind the network header, up to \<open>n\<close>: the transport header, if there is one, and the payload.\<close>

definition l4_split :: "dissect \<Rightarrow> nat \<Rightarrow> bool" where
  "l4_split dis n \<longleftrightarrow>
     (let p = len_l3 dis in data_payload dis = Some (p + len_l4 dis) \<and> p + len_l4 dis + len_payload dis = n \<and>
       (d_tcp dis = None \<and> d_udp dis = None \<and> d_icmp dis = None \<and> len_l4 dis = 0
        \<or> \<not> d_frag dis \<and>
          (d_tcp dis = Some p \<and> d_udp dis = None \<and> d_icmp dis = None \<and> 20 \<le> len_l4 dis
             \<and> len_l4 dis = 4 * unat (drop_bit 4 (data_pkt dis ! (p + 12))) \<and> d_proto dis = IPPROTO_TCP
           \<or> d_tcp dis = None \<and> d_udp dis = Some p \<and> d_icmp dis = None \<and> len_l4 dis = 8 \<and> d_proto dis = IPPROTO_UDP
           \<or> d_tcp dis = None \<and> d_udp dis = None \<and> d_icmp dis = Some p \<and> len_l4 dis = 8)))"

lemma dissect_split:
  assumes len: "len \<le> length d" "length d < 2 ^ 64" and sane: "ip_len_sane d len"
    and r: "proto_dissect_l3l4 d len False = Some dis" and ip: "d_ip dis \<noteq> None \<or> d_ip6 dis \<noteq> None"
  shows "\<exists>dis0 p m. dissect_l3 d len False = Some (Some (dis0, p, m)) \<and> data_pkt dis = d \<and> len_pkt dis = len_pkt dis0
    \<and> d_ip dis = d_ip dis0 \<and> d_ip6 dis = d_ip6 dis0 \<and> d_proto dis = d_proto dis0 \<and> d_frag dis = d_frag dis0
    \<and> d_frag_off dis = d_frag_off dis0 \<and> len_l3 dis = p \<and> l4_split dis (p + m) \<and> p + m \<le> len_pkt dis \<and> len_pkt dis \<le> len"
proof -
  obtain x where x: "dissect_l3 d len False = Some x" using dissect_l3_ok[OF len sane, of False] by auto
  have "x \<noteq> None"
  proof
    assume "x = None"
    then have "dis = dissect_init d len" using r x by (simp add: proto_dissect_l3l4_def)
    with ip show False by (simp add: dissect_init_def)
  qed
  then obtain dis0 p m where y: "dissect_l3 d len False = Some (Some (dis0, p, m))" using x by auto
  have ok: "p + m \<le> len_pkt dis0" "len_pkt dis0 \<le> len" "len_l3 dis0 = p" "data_pkt dis0 = d"
      "d_tcp dis0 = None" "d_udp dis0 = None" "d_icmp dis0 = None"
    using dissect_l3_ok[OF len sane, of False] y by auto
  define dis1 where "dis1 = dis0\<lparr>transport_len := m, len_l4 := 0\<rparr>"
  have top: "proto_dissect_l3l4 d len False = do {
      (dis, p, m) \<leftarrow> (if \<not> d_frag dis1 then dissect_l4 d False dis1 p m else Some (dis1, p, m));
      Some (dis\<lparr>data_payload := Some p, len_payload := m\<rparr>) }"
    using y by (simp add: proto_dissect_l3l4_def dis1_def Let_def)
  show ?thesis
  proof (cases "d_frag dis1")
    case True
    then show ?thesis using r y ok unfolding top by (auto simp: dis1_def l4_split_def Let_def)
  next
    case False
    have "p + m \<le> length d" using ok len by linarith
    from dissect_l4_ok[OF this len(2), of False dis1] obtain dis' h n where
      e: "dissect_l4 d False dis1 p m = Some (dis', p + h, n)" "n + h = m"
      and c: "dis' = dis1 \<and> h = 0
        \<or> dis' = dis1\<lparr>d_tcp := Some p, len_l4 := h\<rparr> \<and> 20 \<le> h \<and> h = 4 * unat (drop_bit 4 (d ! (p + 12)))
            \<and> d_proto dis1 = IPPROTO_TCP
        \<or> dis' = dis1\<lparr>d_udp := Some p, len_l4 := h\<rparr> \<and> h = 8 \<and> d_proto dis1 = IPPROTO_UDP
        \<or> dis' = dis1\<lparr>d_icmp := Some p, len_l4 := h\<rparr> \<and> h = 8" by auto
    have res: "dis = dis'\<lparr>data_payload := Some (p + h), len_payload := n\<rparr>"
      using r unfolding top using False e(1) by simp
    from c have "data_pkt dis = d \<and> len_pkt dis = len_pkt dis0 \<and> d_ip dis = d_ip dis0 \<and> d_ip6 dis = d_ip6 dis0
      \<and> d_proto dis = d_proto dis0 \<and> d_frag dis = d_frag dis0 \<and> d_frag_off dis = d_frag_off dis0 \<and> len_l3 dis = p"
      unfolding res by (elim disjE) (simp_all add: dis1_def ok)
    moreover from c have "l4_split dis (p + m)"
      unfolding res l4_split_def Let_def using e(2) False by (elim disjE) (simp_all add: dis1_def ok)
    ultimately show ?thesis using y ok(1,2) by metis
  qed
qed

lemma dissected4:
  assumes len: "len \<le> length d" "length d < 2 ^ 64" and sane: "ip_len_sane d len"
    and r: "proto_dissect_l3l4 d len False = Some dis" and ip: "d_ip dis = Some 0"
  obtains hl il io where "hl = unat (d ! 0 AND 0x0F)" "5 \<le> hl" "drop_bit 4 (d ! 0) = 4" "4 * hl \<le> len_pkt dis" "len_pkt dis \<le> len"
    "pntoh16 d 2 = Some il" "unat il = len_pkt dis" "pntoh16 d 6 = Some io" "d_frag dis \<longleftrightarrow> io AND 0x3FFF \<noteq> 0"
    "data_pkt dis = d" "d_ip6 dis = None" "len_l3 dis = 4 * hl" "l4_split dis (len_pkt dis)"
proof -
  obtain dis0 p m where y: "dissect_l3 d len False = Some (Some (dis0, p, m))" and f: "data_pkt dis = d" "len_pkt dis = len_pkt dis0"
      "d_ip dis = d_ip dis0" "d_ip6 dis = d_ip6 dis0" "d_frag dis = d_frag dis0" "len_l3 dis = p" "l4_split dis (p + m)"
      "p + m \<le> len_pkt dis" "len_pkt dis \<le> len"
    using dissect_split[OF len sane r] ip by auto
  obtain b4 where b4: "proto_check_ipv4 d 0 len = Some b4"
    and v4: "b4 \<Longrightarrow> 20 \<le> len \<and> 20 \<le> 4 * unat (d ! 0 AND 0x0F) \<and> 4 * unat (d ! 0 AND 0x0F) \<le> len"
    using proto_check_ipv4_iff[OF len(1)] by blast
  have True: "b4 \<and> proto_check_ipv4_payload d 0 len = Some True"
    using y ip f(3) b4 by (cases b4) (auto simp: dissect_l3_def Let_def dissect_init_def split: bind_splits if_splits)
  note B = v4[OF True[THEN conjunct1]]
  from pntoh16_nat[of 2 d] B len obtain l where l: "pntoh16 d 2 = Some l"
    and ln: "unat l = be_nat (take 2 (drop 2 d))" by auto
  have le: "unat l \<le> len" using True l by (simp add: proto_check_ipv4_payload_def del: add_2_eq_Suc')
  define hl where "hl = unat (d ! 0 AND 0x0F)"
  have hl: "ip_hl d 0 = Some hl" unfolding ip_hl_def hl_def by (subst rd_in) (use B len in linarith, simp)
  have hll: "4 * hl \<le> unat l" using sane b4 True unfolding ip_len_sane_def ln hl_def by simp
  obtain pr where r9: "rd d 9 = Some pr" using B len by (simp add: rd_def)
  have r0: "rd d 0 = Some (d ! 0)" using B len by (cases d) (auto simp: rd_def)
  have nib: "drop_bit 4 (d ! 0) = 4" using b4 True r0 by (auto simp: proto_check_ipv4_def split: if_splits bind_splits)
  from pntoh16_in[of 6 d] B len obtain io where io: "pntoh16 d 6 = Some io" by auto
  have dis: "dis0 = (dissect_init d len)\<lparr>len_pkt := unat l, d_ip := Some 0, d_proto := pr, d_frag := io AND (0x1FFF OR 0x2000) \<noteq> 0,
      d_frag_off := push_bit 3 (io AND 0x1FFF), len_l3 := 4 * hl\<rparr>" "p = 4 * hl" "m = size_sub (unat l) (4 * hl)"
    using y True b4 l io hl r9 le by (auto simp: dissect_l3_def Let_def proto_skip_ipv4_def)
  have m: "p + m = unat l" using size_sub_le[OF hll] hll le len dis(2,3) by simp
  show thesis
    by (rule that[of hl l io]) (use hll B f m nib l io hl_def in \<open>simp_all add: dis dissect_init_def\<close>)
qed

lemma l4_round:
  assumes A: "api_ok A" and d: "data_pkt dis = d" and s: "l4_split dis n" "n \<le> length d" "n \<le> room + len_l3 dis"
    and o: "\<forall>p. d_tcp dis = Some p \<longrightarrow> opts_plain (take (len_l4 dis - 20) (drop (p + 20) d))"
  shows "\<exists>t u i k. lua_push_tcphdr A d (d_tcp dis) (len_l4 dis) = Some t \<and> lua_push_udphdr A d (d_udp dis) (len_l4 dis) = Some u
    \<and> lua_push_icmphdr A d (d_icmp dis) (len_l4 dis) = Some i
    \<and> lua_istable t = (d_tcp dis \<noteq> None) \<and> lua_istable u = (d_udp dis \<noteq> None) \<and> lua_istable i = (d_icmp dis \<noteq> None)
    \<and> (\<forall>v. lua_getfield v ''tcp'' = t \<longrightarrow> lua_getfield v ''udp'' = u \<longrightarrow> lua_getfield v ''icmp'' = i \<longrightarrow>
         reconstruct_l4 A room v = Some (LOk (k, take (len_l4 dis) (drop (len_l3 dis) d))))"
proof -
  let ?p = "len_l3 dis"
  note S = s(1)[unfolded l4_split_def Let_def d]
  have b: "?p + len_l4 dis \<le> length d" "len_l4 dis \<le> room" using S s(2,3) by auto
  have z: "lua_push_tcphdr A d None l = Some LNil" "lua_push_udphdr A d None l = Some LNil" "lua_push_icmphdr A d None l = Some LNil" for l
    by (simp_all add: lua_push_tcphdr_def lua_push_udphdr_def lua_push_icmphdr_def)
  consider (no) "d_tcp dis = None" "d_udp dis = None" "d_icmp dis = None" "len_l4 dis = 0"
    | (tcp) "d_tcp dis = Some ?p" "d_udp dis = None" "d_icmp dis = None" "20 \<le> len_l4 dis"
        "len_l4 dis = 4 * unat (drop_bit 4 (d ! (?p + 12)))"
    | (udp) "d_tcp dis = None" "d_udp dis = Some ?p" "d_icmp dis = None" "len_l4 dis = 8"
    | (icmp) "d_tcp dis = None" "d_udp dis = None" "d_icmp dis = Some ?p" "len_l4 dis = 8"
    using S by (elim conjE disjE) simp_all
  then show ?thesis
  proof cases
    case no
    then show ?thesis by (auto simp: z reconstruct_l4_def Let_def lua_simps)
  next
    case tcp
    let ?hl = "unat (drop_bit 4 (d ! (?p + 12)))"
    have "5 \<le> ?hl" "?p + 4 * ?hl \<le> length d" "4 * ?hl \<le> room" "opts_plain (take (4 * ?hl - 20) (drop (?p + 20) d))"
      using tcp b o by auto
    from tcphdr_round[OF A refl this] obtain t where "lua_push_tcphdr A d (Some ?p) (len_l4 dis) = Some (LTable t)"
      "lua_reconstruct_tcphdr A room (LTable t) = LOk (take (len_l4 dis) (drop ?p d))" using tcp(5) by auto
    with tcp show ?thesis by (auto simp: z reconstruct_l4_def Let_def lua_simps)
  next
    case udp
    have "?p + 8 \<le> length d" "8 \<le> len_l4 dis" "8 \<le> room" using udp b by auto
    from udphdr_round[OF A this] obtain t where "lua_push_udphdr A d (Some ?p) (len_l4 dis) = Some (LTable t)"
      "lua_reconstruct_udphdr A room (LTable t) = Some (LOk (take 8 (drop ?p d)))" by auto
    with udp show ?thesis by (auto simp: z reconstruct_l4_def Let_def lua_simps)
  next
    case icmp
    have "?p + 8 \<le> length d" "8 \<le> len_l4 dis" "8 \<le> room" using icmp b by auto
    from icmphdr_round[OF A this] obtain t where "lua_push_icmphdr A d (Some ?p) (len_l4 dis) = Some (LTable t)"
      "lua_reconstruct_icmphdr A room (LTable t) = Some (LOk (take 8 (drop ?p d)))" by auto
    with icmp show ?thesis by (auto simp: z reconstruct_l4_def Let_def lua_simps)
  qed
qed

lemma push_dissect_fields:
  assumes d: "data_pkt dis = d" and y: "data_payload dis = Some y" "y + len_payload dis \<le> length d"
    and h: "lua_push_iphdr A d (d_ip dis) (len_l3 dis) = Some i4" "lua_push_ip6hdr A d (d_ip6 dis) (len_l3 dis) = Some i6"
      "lua_push_tcphdr A d (d_tcp dis) (len_l4 dis) = Some t" "lua_push_udphdr A d (d_udp dis) (len_l4 dis) = Some u"
      "lua_push_icmphdr A d (d_icmp dis) (len_l4 dis) = Some i"
  shows "\<exists>T. lua_push_dissect A dis = Some (LTable T) \<and> lua_getfield (LTable T) ''ip'' = i4 \<and> lua_getfield (LTable T) ''ip6'' = i6
    \<and> lua_getfield (LTable T) ''tcp'' = t \<and> lua_getfield (LTable T) ''udp'' = u \<and> lua_getfield (LTable T) ''icmp'' = i
    \<and> lua_getfield (LTable T) ''payload'' = LStr (take (len_payload dis) (drop y d))
    \<and> lua_getfield (LTable T) ''frag_off'' = (if d_frag dis then lua_pushlint A (ucast (d_frag_off dis)) else LNil)"
proof -
  have p: "rd_block d y (len_payload dis) = Some (take (len_payload dis) (drop y d))" using y(2) by (simp add: rd_block_def)
  show ?thesis
    by (simp add: lua_push_dissect_def d y(1) p h Let_def pushed_fields getfield_pushf lua_simps)
qed

lemma payload_read: "lua_getfield v ''payload'' = LStr p \<Longrightarrow> length p \<le> 0xFFFF \<Longrightarrow> length p \<le> room \<Longrightarrow> reconstruct_payload A room v = LOk p"
  by (simp add: reconstruct_payload_def lua_tolstring_def)

lemma set16_same: "p + 2 \<le> length h \<Longrightarrow> take 2 (drop p h) = be_bytes 2 v \<Longrightarrow> set16 h p v = h"
proof -
  assume "p + 2 \<le> length h" and b: "take 2 (drop p h) = be_bytes 2 v"
  have "set16 h p v = take p h @ take 2 (drop p h) @ drop 2 (drop p h)" unfolding b by (simp add: set16_def add.commute)
  then show ?thesis by (simp only: append_take_drop_id)
qed

text \<open>What is behind the checksum does not change the header, and the other way round.\<close>

lemma fix_keeps:
  assumes "ip4_fix_checksum addr h = Some g" and "12 \<le> length h"
  shows "length g = length h" "i \<noteq> 10 \<Longrightarrow> i \<noteq> 11 \<Longrightarrow> g ! i = h ! i" "ip4_fix_checksum addr g = Some g"
    "(g @ r)[10 := 0, 11 := 0] = (h @ r)[10 := 0, 11 := 0]"
proof -
  note s = fix_shape[OF assms]
  show "length g = length h" using s by simp
  show "i \<noteq> 10 \<Longrightarrow> i \<noteq> 11 \<Longrightarrow> g ! i = h ! i" using arg_cong[OF conjunct2[OF s], of "\<lambda>x. x ! i"] by simp
  show "ip4_fix_checksum addr g = Some g" using fix_cong[OF conjunct2[OF s] assms(2)] assms(1) by simp
  show "(g @ r)[10 := 0, 11 := 0] = (h @ r)[10 := 0, 11 := 0]" using s assms(2) by (simp add: list_update_append)
qed

lemma reads_keep:
  assumes "\<And>i. i < q \<Longrightarrow> g ! i = h ! i" and "length g = length h" and "p + 2 \<le> q" "q \<le> length h"
  shows "pntoh16 g p = pntoh16 h p"
proof -
  have "take q g = take q h" using assms by (intro nth_equalityI) auto
  with pntoh16_take[OF assms(3), of g] pntoh16_take[OF assms(3), of h] show ?thesis by simp
qed

lemma fixed_total:
  assumes "12 \<le> length h" and "4 * unat (h ! 0 AND 0x0F) \<le> length h"
  shows "\<exists>g. ip4_fix_checksum addr h = Some g"
proof -
  let ?n = "4 * unat (h ! 0 AND 0x0F)" and ?z = "h[10 := 0, 11 := 0]"
  obtain c where "do_csum addr ?z ?n = Some c"
    using do_csum_word_sum[of ?n ?z addr] assms(2) by (cases "?n = 0") (auto simp: do_csum_def)
  then show ?thesis using assms(1)
    by (cases h) (simp_all add: ip4_fix_checksum_def ip4_compute_csum_def st16_in rd_def)
qed

text \<open>An IPv4 packet and what comes back, when the script leaves the table as it is: the packet with its header checksum set.\<close>

lemma packet_round4:
  assumes A: "api_ok A" and len: "len \<le> length d" "length d < 2 ^ 64" and sane: "ip_len_sane d len"
    and r: "proto_dissect_l3l4 d len False = Some dis" and ip: "d_ip dis = Some 0"
    and o: "\<forall>p. d_tcp dis = Some p \<longrightarrow> opts_plain (take (len_l4 dis - 20) (drop (p + 20) d))"
    and room: "len_pkt dis \<le> room"
  shows "\<exists>v pkt. lua_push_dissect A dis = Some v \<and> ip4_fix_checksum addr (take (len_pkt dis) d) = Some pkt
    \<and> lua_reconstruct_dissect A rnd addr room True bad nxp pn v = Some (LOk pkt)"
proof -
  let ?n = "len_pkt dis"
  obtain hl il io where D: "hl = unat (d ! 0 AND 0x0F)" "5 \<le> hl" "drop_bit 4 (d ! 0) = 4" "4 * hl \<le> ?n" "?n \<le> len"
    "pntoh16 d 2 = Some il" "unat il = ?n" "pntoh16 d 6 = Some io" "d_frag dis \<longleftrightarrow> io AND 0x3FFF \<noteq> 0"
    "data_pkt dis = d" "d_ip6 dis = None" "len_l3 dis = 4 * hl" and S: "l4_split dis ?n"
    by (rule dissected4[OF len sane r ip])
  have n: "?n \<le> length d" "20 \<le> ?n" using D len by auto
  have "0 + 4 * hl \<le> length d" "4 * hl \<le> 4 * hl" "4 * hl \<le> room" using D(4) n room by auto
  from iphdr_round[OF A D(3,1,2) this, of addr] obtain it where i4: "lua_push_iphdr A d (Some 0) (4 * hl) = Some (LTable it)"
    "lua_reconstruct_iphdr A addr room (LTable it) = map_option LOk (ip4_fix_checksum addr (take (4 * hl) d))" by auto
  have i6: "lua_push_ip6hdr A d None (4 * hl) = Some LNil" by (simp add: lua_push_ip6hdr_def)
  have "?n \<le> (room - 4 * hl) + len_l3 dis" using room D(4,12) by simp
  from l4_round[OF A D(10) S n(1) this o] obtain t u i k where
    l4: "lua_push_tcphdr A d (d_tcp dis) (len_l4 dis) = Some t" "lua_push_udphdr A d (d_udp dis) (len_l4 dis) = Some u"
      "lua_push_icmphdr A d (d_icmp dis) (len_l4 dis) = Some i"
    and L4: "\<forall>v. lua_getfield v ''tcp'' = t \<longrightarrow> lua_getfield v ''udp'' = u \<longrightarrow> lua_getfield v ''icmp'' = i \<longrightarrow>
         reconstruct_l4 A (room - 4 * hl) v = Some (LOk (k, take (len_l4 dis) (drop (4 * hl) d)))"
    unfolding D(12) by metis
  let ?y = "4 * hl + len_l4 dis"
  have y: "data_payload dis = Some ?y" "?y + len_payload dis = ?n" using S D(12) by (auto simp: l4_split_def Let_def)
  have "?y + len_payload dis \<le> length d" using y(2) n(1) by simp
  from push_dissect_fields[OF D(10) y(1) this, of A, unfolded ip D(11,12), OF i4(1) i6 l4] obtain T where
    T: "lua_push_dissect A dis = Some (LTable T)" "lua_getfield (LTable T) ''ip'' = LTable it" "lua_getfield (LTable T) ''tcp'' = t"
      "lua_getfield (LTable T) ''udp'' = u" "lua_getfield (LTable T) ''icmp'' = i"
      "lua_getfield (LTable T) ''payload'' = LStr (take (len_payload dis) (drop ?y d))"
      "lua_getfield (LTable T) ''frag_off'' = (if d_frag dis then lua_pushlint A (ucast (d_frag_off dis)) else LNil)" by auto
  let ?h = "take (4 * hl) d" and ?p = "take (len_payload dis) (drop ?y d)" and ?l = "take (len_l4 dis) (drop (4 * hl) d)"
  have h: "12 \<le> length ?h" "4 * unat (?h ! 0 AND 0x0F) \<le> length ?h" using D(1,2,4) n by auto
  obtain g where g: "ip4_fix_checksum addr ?h = Some g" using fixed_total[OF h] by blast
  note G = fix_keeps[OF g h(1)]
  have pk: "?h @ (?l @ ?p) = take ?n d"
  proof -
    have "?l @ ?p = take (?n - 4 * hl) (drop (4 * hl) d)" by (rule glue[OF refl]) (use y in auto)
    from glue[OF this, of ?n "4 * hl" 0] D(4) show ?thesis by simp
  qed
  have fixed: "ip4_fix_checksum addr (take ?n d) = Some (g @ (?l @ ?p))" unfolding pk[symmetric] fix_app[OF h] g by simp
  have pl: "length ?p \<le> 0xFFFF" "length ?p = len_payload dis" "length ?l = len_l4 dis" "length g = 4 * hl"
    using y n unat_u16_less[of il] D(4,7) G(1) by auto
  have l3: "reconstruct_l3 A addr room nxp pn' (LTable T) = Some (LOk (True, g))" for pn'
    using T(2) i4(2) g G(3) by (simp add: reconstruct_l3_def lua_simps)
  show ?thesis
  proof (cases "d_frag dis")
    case True
    then have "len_l4 dis = 0" using S by (auto simp: l4_split_def Let_def)
    moreover have "length ?p \<le> room - 4 * hl" using pl y(2) room by auto
    ultimately show ?thesis
      using True T(1,7) l3 payload_read[OF T(6) pl(1), of "room - 4 * hl" A] pl(4) fixed
      by (simp add: lua_reconstruct_dissect_def Let_def lua_simps pushlint_read(2)[OF A])
  next
    case False
    let ?m = "g @ (?l @ ?p)"
    have lm: "length ?m = ?n" using pl y(2) by simp
    have keep: "pntoh16 ?m q = pntoh16 d q" if "q + 2 \<le> 10" for q
    proof (rule trans[OF reads_keep[of 10 ?m "take ?n d" q] pntoh16_take])
      show "?m ! j = take ?n d ! j" if "j < 10" for j using that G(2)[of j] D(2,4) pl(4) n unfolding pk[symmetric] by (simp add: nth_append)
    qed (use that lm n in auto)
    have "take 2 (drop 2 ?m) = be_bytes 2 il" using be2_read[of ?m 2 il] keep[of 2] D(6) by simp
    moreover have "of_nat (length ?m) = il" unfolding lm D(7)[symmetric] by simp
    moreover have "2 + 2 \<le> length ?m" using lm n by simp
    ultimately have s: "set16 ?m 2 (of_nat (length ?m)) = ?m" by (simp only: set16_same)
    have "12 \<le> length (?h @ (?l @ ?p))" unfolding pk using n by simp
    from trans[OF fix_cong[OF G(4) this] fixed[folded pk]] have "ip4_fix_checksum addr ?m = Some ?m" .
    then have f: "finish_ip4 addr (length g) ?m = Some (LOk ?m)"
      using keep[of 6] keep[of 2] D(6,8,9) False s by (simp add: finish_ip4_def Let_def)
    have "length ?p \<le> room - 4 * hl - len_l4 dis" using pl y(2) room by auto
    then show ?thesis
      using False T(1,7) l3 payload_read[OF T(6) pl(1), of "room - 4 * hl - len_l4 dis" A] pl(3,4) fixed f L4[rule_format, OF T(3,4,5)]
      by (simp add: lua_reconstruct_dissect_def Let_def lua_simps)
  qed
qed

subsection \<open>IPv6\<close>

lemma dissected6:
  assumes len: "len \<le> length d" "length d < 2 ^ 64" and sane: "ip_len_sane d len"
    and r: "proto_dissect_l3l4 d len False = Some dis" and ip: "d_ip6 dis = Some 0"
  obtains l where "40 \<le> len_pkt dis" "len_pkt dis \<le> len" "pntoh16 d 4 = Some l" "unat l + 40 = len_pkt dis"
    "data_pkt dis = d" "d_ip dis = None" "40 \<le> len_l3 dis" "len_l3 dis \<le> len_pkt dis" "l4_split dis (len_pkt dis)"
proof -
  obtain dis0 p m where y: "dissect_l3 d len False = Some (Some (dis0, p, m))" and f: "data_pkt dis = d" "len_pkt dis = len_pkt dis0"
      "d_ip dis = d_ip dis0" "d_ip6 dis = d_ip6 dis0" "len_l3 dis = p" "l4_split dis (p + m)" "p + m \<le> len_pkt dis" "len_pkt dis \<le> len"
    using dissect_split[OF len sane r] ip by auto
  have n4: "d_ip dis0 = None" "40 \<le> p" using dissect_l3_ok[OF len sane, of False] y f(4) ip by auto
  obtain b4 where b4: "proto_check_ipv4 d 0 len = Some b4" using proto_check_ipv4_iff[OF len(1)] by blast
  obtain b6 where b6: "proto_check_ipv6 d 0 len = Some b6" and v6: "b6 \<Longrightarrow> 40 \<le> len"
    using proto_check_ipv6_iff[OF len(1)] by blast
  obtain x4 where x4: "cand (Some b4) (cor (Some False) (proto_check_ipv4_payload d 0 len)) = Some x4"
    using y b4 by (cases "cand (Some b4) (cor (Some False) (proto_check_ipv4_payload d 0 len))") (simp_all add: dissect_l3_def)
  have "\<not> x4" using n4(1) y x4 b4 by (auto simp: dissect_l3_def Let_def dissect_init_def split: bind_splits)
  then have x6: "b6 \<and> proto_check_ipv6_payload d 0 len = Some True"
    using y x4 b4 b6 by (cases b6) (auto simp: dissect_l3_def Let_def split: bind_splits if_splits)
  note B = v6[OF x6[THEN conjunct1]]
  from pntoh16_nat[of 4 d] B len obtain l where l: "pntoh16 d 4 = Some l"
    and ln: "unat l = be_nat (take 2 (drop 4 d))" by auto
  have le: "unat l + 40 \<le> len" using x6 l by (simp add: proto_check_ipv6_payload_def)
  have "unat l \<le> 65495" using sane b6 x6 unfolding ip_len_sane_def ln by simp
  then have l40: "unat (l + 40) = unat l + 40" by (simp add: unat_word_ariths)
  obtain ty where r0: "rd d 6 = Some ty" using B len by (cases "rd d 6") (simp_all add: rd_def split: if_splits)
  have ml: "(if unat (l + 40) < len then unat (l + 40) else len) = unat l + 40" using l40 le by simp
  have ss: "size_sub (unat l + 40) 40 = unat l" using size_sub_le[of 40 "unat l + 40"] le len by simp
  obtain p' m' pr fr fo where s: "skip_ipv6_loop d 40 (unat l) ty False 0 ty = Some (p', m', pr, fr, fo)" "p' + m' = 40 + unat l"
    using skip_ipv6_loop_ok[of 40 "unat l" d ty False 0 ty] le len by auto
  have dis: "len_pkt dis0 = unat l + 40" "p = p'" "m = m'"
    using y x4 \<open>\<not> x4\<close> x6 b4 b6 l r0 s ss by (auto simp: dissect_l3_def Let_def proto_skip_ipv6_def ml)
  show thesis
    by (rule that[of l]) (use f dis s(2) l n4 in \<open>auto simp: add.commute\<close>)
qed

text \<open>The search for a fragment header finds none.\<close>

lemma walk_no_fragment:
  "ext_walk d p k ty = Some pr \<Longrightarrow> k \<le> len \<Longrightarrow> p + len \<le> n \<Longrightarrow> n \<le> length d \<Longrightarrow> pr \<in> {IPPROTO_TCP, IPPROTO_UDP, IPPROTO_ICMPV6} \<Longrightarrow>
    find_exthdr_loop (take n d) p len IPPROTO_FRAGMENT ty False 0 = Some None"
proof (induction k arbitrary: p ty len rule: less_induct)
  case (less k)
  show ?case
  proof (cases "k = 0")
    case True
    then have "ty = pr" using less.prems(1) by (simp add: ext_walk.simps)
    with less.prems(5) show ?thesis
      by (subst find_exthdr_loop.simps) (auto simp: ext_switch_def IPPROTO_TCP_def IPPROTO_UDP_def IPPROTO_ICMPV6_def IPPROTO_FRAGMENT_def)
  next
    case False
    have b: "p + k \<le> length d" using less.prems(2,3,4) by simp
    obtain h where h: "8 \<le> h" "h \<le> k" "ext_switch d p k ty False 0 = Some (ExtHdr h False 0)" "rd d p = Some (d ! p)"
      "ext_walk d (p + h) (k - h) (d ! p) = Some pr" "ty \<in> {0, 43, 51, 60, 135, 139, 140}"
      by (rule ext_walk_step[OF less.prems(1) False b]) blast
    have "ext_switch (take n d) p len ty False 0 = Some (ExtHdr h False 0)"
      unfolding ext_switch_take[OF less.prems(3)] using h(1,2,3,6) less.prems(2) by (auto simp: ext_switch_def split: if_splits)
    moreover have "rd (take n d) p = Some (d ! p)" using h(1,2,4) less.prems(2,3) by (simp add: rd_take)
    moreover have "ty \<noteq> IPPROTO_FRAGMENT" using h(6) by (auto simp: IPPROTO_FRAGMENT_def)
    moreover have "find_exthdr_loop (take n d) (p + h) (len - h) IPPROTO_FRAGMENT (d ! p) False 0 = Some None"
      using less.IH[of "k - h" "p + h" "d ! p" "len - h"] h(1,2,5) less.prems(2,3,4,5) False by simp
    ultimately show ?thesis using h(1,2) less.prems(2) by (subst find_exthdr_loop.simps) simp
  qed
qed

lemma ip6hdr_round:
  assumes A: "api_ok A" and l3: "40 \<le> l3" "l3 \<le> length d" "l3 \<le> room" and pl: "pntoh16 d 4 = Some plen" "l3 \<le> unat plen + 40"
    and w: "ext_walk d 40 (l3 - 40) (d ! 6) = Some pr"
  shows "\<exists>t. lua_push_ip6hdr A d (Some 0) l3 = Some (LTable t)
    \<and> (\<forall>pn proto. pn \<or> proto = pr \<longrightarrow> lua_reconstruct_ip6hdr A room (LTable t) proto pn = LOk (take l3 d))"
proof -
  obtain flow where flow: "pntoh32 d 0 = Some flow" using reads_in(2)[of 0 d] l3 by auto
  obtain hlim where b: "rd d 6 = Some (d ! 6)" "rd d 7 = Some hlim" using reads_in(3)[of 7 d] l3 by (auto simp: rd_def)
  obtain src dst where a: "rd_block d 8 16 = Some src" "rd_block d 24 16 = Some dst" using reads_in(4)[of 8 16 d] reads_in(4)[of 24 16 d] l3 by auto
  have "40 + (l3 - 40) \<le> length d" "\<forall>j\<ge>1. lua_rawgeti (LTable []) j = LNil" using l3 by (simp_all add: lua_simps)
  from exts_round[OF A w this] obtain x where
    x: "push_exthdrs A d 40 (l3 - 40) (d ! 6) False 0 1 [] = Some x" and
    X: "\<And>pn left h lp. l3 - 40 \<le> left \<Longrightarrow> lp < length h \<Longrightarrow> h ! lp = d ! 6 \<Longrightarrow>
          \<exists>lp'. reconstruct_exthdrs A (LTable x) pn 1 left h lp = LOk (h @ take (l3 - 40) (drop 40 d), lp')
             \<and> lp' < length h + (l3 - 40) \<and> (h @ take (l3 - 40) (drop 40 d)) ! lp' = pr" by blast
  let ?t = "lua_pushf ''exthdr'' (LTable x) (lua_pushf_raw ''ip6_dst'' (Some dst) (lua_pushf_raw ''ip6_src'' (Some src) (push8 A ''ip6_hlim'' hlim
              (push8 A ''ip6_nxt'' (d ! 6) (push16 A ''ip6_plen'' plen (push32 A ''ip6_flow'' flow []))))))"
  have "min (l3 - 40) (unat plen) = l3 - 40" using pl(2) by simp
  then have P: "lua_push_ip6hdr A d (Some 0) l3 = Some (LTable ?t)"
    using flow b a pl(1) x l3(1) by (simp add: lua_push_ip6hdr_def lua_pushf_ip6exthdr_def)
  have f: "get32 A (LTable ?t) ''ip6_flow'' = flow" "get8 A (LTable ?t) ''ip6_nxt'' = d ! 6" "get8 A (LTable ?t) ''ip6_hlim'' = hlim"
    by (rule read_fields[OF A], simp add: lua_simps pushed_fields getfield_pushf)+
  have sl: "length src = 16" "length dst = 16" using a[THEN block_read] by auto
  have rw: "get_raw (LTable ?t) ''ip6_src'' 16 = Some src" "get_raw (LTable ?t) ''ip6_dst'' 16 = Some dst"
    using sl by (simp_all add: get_raw_def lua_simps pushed_fields getfield_pushf)
  have fl: "has_num (LTable ?t) ''ip6_flow''" by (simp add: has_num_def lua_simps pushed_fields getfield_pushf)
  have pf: "lua_getfield (LTable ?t) ''ip6_plen'' = lua_pushlint A (ucast plen)" "lua_getfield (LTable ?t) ''exthdr'' = LTable x"
    by (simp_all add: lua_simps pushed_fields getfield_pushf)
  let ?h = "be_bytes 4 flow @ be_bytes 2 plen @ [d ! 6, hlim] @ src @ dst"
  have hh: "?h = take 40 d"
  proof -
    have "be_bytes 4 flow @ be_bytes 2 plen @ [d ! 6] @ [hlim] @ src @ dst = take 40 (drop 0 d)"
      unfolding pl(1)[THEN read_pieces(1)] flow[THEN read_pieces(2)] b[THEN read_pieces(3)] a[THEN read_pieces(4)]
      by (rule glue6) (rule refl | simp)+
    then show ?thesis by simp
  qed
  have R: "lua_reconstruct_ip6hdr A room (LTable ?t) proto pn = LOk (take l3 d)" if c: "pn \<or> proto = pr" for pn proto
  proof -
    have "l3 - 40 \<le> room - 40" "6 < length (take 40 d)" "take 40 d ! 6 = d ! 6" using l3 by auto
    from X[OF this, of pn] obtain lp' where e: "reconstruct_exthdrs A (LTable x) pn 1 (room - 40) (take 40 d) 6
        = LOk (take 40 d @ take (l3 - 40) (drop 40 d), lp')" "lp' < l3" "(take 40 d @ take (l3 - 40) (drop 40 d)) ! lp' = pr"
      using l3 by auto
    have j: "take 40 d @ take (l3 - 40) (drop 40 d) = take l3 d" using l3(1) glue[OF refl, of l3 40 "l3 - 40" 40 0 d] by simp
    have "(if pn then take l3 d else (take l3 d)[lp' := proto]) = take l3 d" using c e(3)[unfolded j] by auto
    then have "lua_reconstruct_ip6exthdr A room (LTable ?t) proto pn (take 40 d) = LOk (take l3 d)"
      using l3 e(1) unfolding lua_reconstruct_ip6exthdr_def pf(2) Let_def j by (simp add: lua_simps)
    moreover have "luaL_checklint A (LNum (api_push A (ucast plen))) = Some (ucast plen)"
      using pushlint_read(2)[OF A, of "ucast plen"] by (simp add: lua_pushlint_def)
    moreover have "\<not> (room < 40 \<or> \<not> lua_istable (LTable ?t))" using l3 by (simp add: lua_simps)
    ultimately show ?thesis
      unfolding lua_reconstruct_ip6hdr_def Let_def pf(1) f rw lua_pushlint_def option.case lval.case if_P[OF fl] ucast_back hh
      by (simp only: if_False option.case lua_res.case ucast_back hh)
  qed
  with P show ?thesis by blast
qed

text \<open>An IPv6 packet comes back as it is. The headers are those \<open>ext_walk\<close> passes, the protocol is one a header stands for.\<close>

lemma packet_round6:
  assumes A: "api_ok A" and len: "len \<le> length d" "length d < 2 ^ 64" and sane: "ip_len_sane d len"
    and r: "proto_dissect_l3l4 d len False = Some dis" and ip: "d_ip6 dis = Some 0" and nf: "\<not> d_frag dis"
    and w: "ext_walk d 40 (len_l3 dis - 40) (d ! 6) = Some (d_proto dis)"
    and k: "d_tcp dis \<noteq> None \<or> d_udp dis \<noteq> None \<or> d_icmp dis \<noteq> None \<and> d_proto dis = IPPROTO_ICMPV6"
    and o: "\<forall>p. d_tcp dis = Some p \<longrightarrow> opts_plain (take (len_l4 dis - 20) (drop (p + 20) d))"
    and room: "len_pkt dis \<le> room"
  shows "\<exists>v. lua_push_dissect A dis = Some v
    \<and> lua_reconstruct_dissect A rnd addr room True bad IPPROTO_NONE pn v = Some (LOk (take (len_pkt dis) d))"
proof -
  let ?n = "len_pkt dis" and ?l3 = "len_l3 dis"
  obtain pl where D: "40 \<le> ?n" "?n \<le> len" "pntoh16 d 4 = Some pl" "unat pl + 40 = ?n" "data_pkt dis = d" "d_ip dis = None"
    "40 \<le> ?l3" "?l3 \<le> ?n" and S: "l4_split dis ?n"
    by (rule dissected6[OF len sane r ip])
  have n: "?n \<le> length d" using D(2) len(1) by simp
  have "?l3 \<le> length d" "?l3 \<le> room" "?l3 \<le> unat pl + 40" using D n room by auto
  from ip6hdr_round[OF A D(7) this(1,2) D(3) this(3) w] obtain t6 where i6: "lua_push_ip6hdr A d (Some 0) ?l3 = Some (LTable t6)"
    "\<And>pn proto. pn \<or> proto = d_proto dis \<Longrightarrow> lua_reconstruct_ip6hdr A room (LTable t6) proto pn = LOk (take ?l3 d)" by blast
  have i4: "lua_push_iphdr A d None ?l3 = Some LNil" by (simp add: lua_push_iphdr_def)
  have "?n \<le> (room - ?l3) + ?l3" using room D(8) by simp
  from l4_round[OF A D(5) S n this o] obtain t u i kd where
    l4: "lua_push_tcphdr A d (d_tcp dis) (len_l4 dis) = Some t" "lua_push_udphdr A d (d_udp dis) (len_l4 dis) = Some u"
      "lua_push_icmphdr A d (d_icmp dis) (len_l4 dis) = Some i" "lua_istable t = (d_tcp dis \<noteq> None)"
      "lua_istable u = (d_udp dis \<noteq> None)" "lua_istable i = (d_icmp dis \<noteq> None)"
    and L4: "\<forall>v. lua_getfield v ''tcp'' = t \<longrightarrow> lua_getfield v ''udp'' = u \<longrightarrow> lua_getfield v ''icmp'' = i \<longrightarrow>
         reconstruct_l4 A (room - ?l3) v = Some (LOk (kd, take (len_l4 dis) (drop ?l3 d)))"
    by metis
  let ?y = "?l3 + len_l4 dis"
  have y: "data_payload dis = Some ?y" "?y + len_payload dis = ?n" using S by (auto simp: l4_split_def Let_def)
  have "?y + len_payload dis \<le> length d" using y(2) n by simp
  from push_dissect_fields[OF D(5) y(1) this, of A, unfolded ip D(6), OF i4 i6(1) l4(1-3)] obtain T where
    T: "lua_push_dissect A dis = Some (LTable T)" "lua_getfield (LTable T) ''ip'' = LNil" "lua_getfield (LTable T) ''ip6'' = LTable t6"
      "lua_getfield (LTable T) ''tcp'' = t" "lua_getfield (LTable T) ''udp'' = u" "lua_getfield (LTable T) ''icmp'' = i"
      "lua_getfield (LTable T) ''payload'' = LStr (take (len_payload dis) (drop ?y d))" "lua_getfield (LTable T) ''frag_off'' = LNil"
    using nf by auto
  let ?h = "take ?l3 d" and ?p = "take (len_payload dis) (drop ?y d)" and ?l = "take (len_l4 dis) (drop ?l3 d)"
  have pk: "?h @ (?l @ ?p) = take ?n d"
  proof -
    have "?l @ ?p = take (?n - ?l3) (drop ?l3 d)" by (rule glue[OF refl]) (use y in auto)
    from glue[OF this, of ?n ?l3 0] D(8) show ?thesis by simp
  qed
  have pr: "lua_ip6_l4proto_from_dissect (LTable T) = d_proto dis" "d_proto dis \<in> {IPPROTO_TCP, IPPROTO_UDP, IPPROTO_ICMPV6}"
    using S k l4(4,5,6) by (auto simp: lua_ip6_l4proto_from_dissect_def l4_split_def Let_def T lua_simps)
  have l3: "reconstruct_l3 A addr room IPPROTO_NONE pn (LTable T) = Some (LOk (False, ?h))"
    using T(2,3) i6(2)[of pn "d_proto dis"] pr(1) by (simp add: reconstruct_l3_def lua_simps)
  have lp: "length ?p = len_payload dis" using y n by simp
  then have "length ?p \<le> 0xFFFF" using unat_u16_less[of pl] y(2) D(4,7) by linarith
  then have len3: "length ?p \<le> 0xFFFF" "length ?p \<le> room - ?l3 - len_l4 dis" "length ?l = len_l4 dis" "length ?h = ?l3" "length (take ?n d) = ?n"
    using y n D(7,8) room by auto
  have "proto_find_ip6_exthdr (take ?n d) 0 ?n IPPROTO_FRAGMENT = Some None"
  proof -
    have "?l3 - 40 \<le> ?n - 40" "40 + (?n - 40) \<le> ?n" using D(1,8) by auto
    from walk_no_fragment[OF w this n pr(2)] have "find_exthdr_loop (take ?n d) 40 (?n - 40) IPPROTO_FRAGMENT (d ! 6) False 0 = Some None" .
    moreover have "pntoh16 (take ?n d) 4 = Some pl" "rd (take ?n d) 6 = Some (d ! 6)" using D(1,3) n by (simp_all add: take_reads rd_def)
    moreover have "unat pl = ?n - 40" "\<not> ?n < 40" using D(1,4) by simp_all
    ultimately show ?thesis by (simp add: proto_find_ip6_exthdr_def)
  qed
  moreover have "set16 (take ?n d) 4 (of_nat (?n - 40)) = take ?n d"
  proof -
    have "of_nat (?n - 40) = pl" unfolding D(4)[symmetric] by simp
    moreover have "take 2 (drop 4 (take ?n d)) = be_bytes 2 pl" using be2_read[OF D(3)] D(1) by (simp add: drop_take)
    moreover have "4 + 2 \<le> length (take ?n d)" using D(1) len3(5) by simp
    ultimately show ?thesis by (simp only: set16_same)
  qed
  ultimately have f: "finish_ip6 room (take ?n d) = Some (LOk (take ?n d))" unfolding finish_ip6_def len3(5) by simp
  show ?thesis
    using T(1,8) l3 payload_read[OF T(7) len3(1,2), of A] len3(3,4) f[folded pk] L4[rule_format, OF T(4,5,6)] unfolding pk[symmetric]
    by (simp add: lua_reconstruct_dissect_def Let_def lua_simps)
qed

subsection \<open>Tables that do not come from a packet\<close>

lemma do_csum_total: "n \<le> length d \<Longrightarrow> \<exists>c. do_csum addr d n = Some c"
  using do_csum_word_sum[of n d addr] by (cases "n = 0") (auto simp: do_csum_def)

lemma stored_len: "p + 2 \<le> length d \<Longrightarrow> \<exists>e. st16 d p c = Some e \<and> length e = length d"
  by (simp add: st16_in)

lemma fix4_total:
  "18 \<le> length s \<Longrightarrow> \<exists>e. tcp_fix_checksum addr s (length s) (Addrs4 a b) = Some e \<and> length e = length s"
  "8 \<le> length s \<Longrightarrow> \<exists>e. udp_fix_checksum addr s (length s) (Addrs4 a b) = Some e \<and> length e = length s"
  "8 \<le> length s \<Longrightarrow> \<exists>e. icmp_fix_checksum addr s (length s) None = Some e \<and> length e = length s"
  using do_csum_total[of "length s" "s[16 := 0, 17 := 0]" addr] do_csum_total[of "length s" "s[6 := 0, 7 := 0]" addr]
    do_csum_total[of "length s" "s[2 := 0, 3 := 0]" addr]
  by (auto simp: tcp_fix_checksum_def tcp4_fix_checksum_def udp_fix_checksum_def udp4_fix_checksum_def icmp_fix_checksum_def
      icmp4_fix_checksum_def st16_in)

lemma spoil_total: "p + 2 \<le> length s \<Longrightarrow> \<exists>e. spoil bad rnd p s = Some e \<and> length e = length s"
proof -
  assume p: "p + 2 \<le> length s"
  then obtain c where "ld16 s p = Some c" using ld16_le[OF p] by auto
  with p show ?thesis by (simp add: spoil_def st16_in)
qed

lemma set16_len: "p + 2 \<le> length h \<Longrightarrow> length (set16 h p v) = length h"
  by (simp add: set16_def)

lemma set16_nth: "p + 2 \<le> length h \<Longrightarrow> i < p \<Longrightarrow> set16 h p v ! i = h ! i"
  by (simp add: set16_def nth_append)

text \<open>The header \<open>h\<close> of an IPv4 packet: its length field is its length.\<close>

definition ip4_header :: "bytes \<Rightarrow> bool" where
  "ip4_header h \<longleftrightarrow> 20 \<le> length h \<and> length h \<le> 60 \<and> 4 * unat (h ! 0 AND 0x0F) = length h"

lemma fix_header: "ip4_header h \<Longrightarrow> \<exists>g. ip4_fix_checksum addr (h @ r) = Some (g @ r) \<and> ip4_header g \<and> length g = length h"
proof -
  assume h: "ip4_header h"
  then have b: "12 \<le> length h" "4 * unat (h ! 0 AND 0x0F) \<le> length h" by (auto simp: ip4_header_def)
  obtain g where g: "ip4_fix_checksum addr h = Some g" using fixed_total[OF b] by blast
  from fix_keeps(1)[OF g b(1)] fix_keeps(2)[OF g b(1), of 0] have "ip4_header g" "length g = length h" using h by (auto simp: ip4_header_def)
  with g show ?thesis unfolding fix_app[OF b] by auto
qed

lemma iphdr_made:
  "\<exists>r. lua_reconstruct_iphdr A addr room v = Some r \<and> (\<forall>h. r = LOk h \<longrightarrow> ip4_header h \<and> length h \<le> room)"
proof -
  have byte: "unat ((0x40 OR of_nat k :: u8) AND 0x0F) = k" if "k \<in> {5..15}" for k
  proof -
    have "k \<in> {5, 6, 7, 8, 9, 10, 11, 12, 13, 14, 15}" using that by (simp add: atLeastAtMost_insertL[symmetric] numeral_eq_Suc)
    then show ?thesis by auto
  qed
  have made: "ip4_header ([0x40 OR of_nat ((20 + l) div 4), b] @ r)" if "l = 4 * m" "m \<le> 10" "length r = 18 + l" for l m b and r :: bytes
    using byte[of "5 + m"] that by (simp add: ip4_header_def)
  have opt: "\<exists>m. 4 * ((length o' + 3) div 4) = 4 * m \<and> m \<le> 10 \<and> length o' \<le> 4 * m" if "length o' \<le> 40" for o' :: bytes
    using that by (intro exI[of _ "(length o' + 3) div 4"]) presburger
  define os where "os = (case lua_getfield v ''options'' of LStr s \<Rightarrow> s | _ \<Rightarrow> [])"
  define lo where "lo = 4 * ((length os + 3) div 4)"
  show ?thesis
  proof (cases "room < 20 \<or> \<not> lua_istable v \<or> \<not> has_num v ''ip_ttl'' \<or> \<not> has_num v ''ip_p'' \<or> get_raw v ''ip_src'' 4 = None
      \<or> get_raw v ''ip_dst'' 4 = None \<or> length os > 40 \<or> os \<noteq> [] \<and> 20 + lo > room")
    case True
    then have "lua_reconstruct_iphdr A addr room v = Some LFail"
      unfolding lua_reconstruct_iphdr_def Let_def os_def[symmetric] lo_def[symmetric] by (auto split: option.split)
    then show ?thesis by simp
  next
    case False
    then obtain src dst where a: "get_raw v ''ip_src'' 4 = Some src" "get_raw v ''ip_dst'' 4 = Some dst" by auto
    obtain m where m: "lo = 4 * m" "m \<le> 10" "length os \<le> 4 * m" using opt[of os] False unfolding lo_def by auto
    have fit: "20 + lo \<le> room" using False by (cases "os = []") (auto simp: lo_def)
    let ?r = "be_bytes 2 (get16 A v ''ip_len'') @ be_bytes 2 (get16 A v ''ip_id'') @ be_bytes 2 (get16 A v ''ip_off'')
                @ [get8 A v ''ip_ttl'', get8 A v ''ip_p'', 0, 0] @ src @ dst @ os @ replicate (lo - length os) 0"
    let ?h = "[0x40 OR of_nat ((20 + lo) div 4), get8 A v ''ip_tos''] @ ?r"
    have "length ?r = 18 + lo" using a m by (auto simp: get_raw_def split: lval.splits if_splits)
    then have h: "ip4_header ?h" "length ?h \<le> room" using made[OF m(1,2)] fit by auto
    moreover have "lua_reconstruct_iphdr A addr room v = map_option LOk (ip4_fix_checksum addr ?h)"
      unfolding lua_reconstruct_iphdr_def Let_def os_def[symmetric] lo_def[symmetric] a using False fit by simp
    ultimately show ?thesis using fix_header[OF h(1), of addr "[]"] by auto
  qed
qed

lemma tcp_opts_made: "reconstruct_tcp_opts A o' i left acc = LOk (acc', left') \<Longrightarrow> length acc' + left' = length acc + left"
proof (induction A o' i left acc rule: reconstruct_tcp_opts.induct)
  case (1 A o' i left acc)
  let ?x = "lua_rawgeti o' i"
  show ?case
  proof (cases "lua_isnil ?x \<or> left = 0 \<or> \<not> lua_istable ?x \<or> \<not> has_num ?x ''kind'' \<or> get8 A ?x ''kind'' = TCP_KIND_END")
    case True
    with "1.prems" show ?thesis by (subst (asm) reconstruct_tcp_opts.simps) (auto simp: Let_def split: if_splits)
  next
    case go: False
    define s where "s = (case lua_getfield ?x ''data'' of LStr s \<Rightarrow> s | _ \<Rightarrow> [])"
    show ?thesis
    proof (cases "get8 A ?x ''kind'' = TCP_KIND_NOOP")
      case True
      with go "1.prems" have "reconstruct_tcp_opts A o' (i + 1) (left - 1) (acc @ [get8 A ?x ''kind'']) = LOk (acc', left')"
        by (subst (asm) reconstruct_tcp_opts.simps) (simp add: Let_def)
      from "1.IH"(1)[OF refl _ _ _ refl _ True this] go show ?thesis by simp
    next
      case False
      with go "1.prems" have f: "2 + length s \<le> left"
        "reconstruct_tcp_opts A o' (i + 1) (left - (length s + 2)) (acc @ [get8 A ?x ''kind'', of_nat (length s + 2)] @ s) = LOk (acc', left')"
        unfolding atomize_conj s_def by (subst (asm) reconstruct_tcp_opts.simps) (simp add: Let_def split: if_splits)
      from "1.IH"(2)[OF refl _ _ _ refl _ False s_def _ f(2)] go f(1) show ?thesis by simp
    qed
  qed
qed

lemma tcp_options_made: "lua_reconstruct_tcphdr_options A room v = LOk o' \<Longrightarrow> 20 + length o' \<le> room"
proof -
  assume o: "lua_reconstruct_tcphdr_options A room v = LOk o'"
  then have r: "20 \<le> room" by (auto simp: lua_reconstruct_tcphdr_options_def split: if_splits)
  show ?thesis
  proof (cases "lua_istable (lua_getfield v ''options'')")
    case True
    then obtain a l where a: "reconstruct_tcp_opts A (lua_getfield v ''options'') 1 (min (room - 20) 40) [] = LOk (a, l)"
      "(4 - length a mod 4) mod 4 \<le> l" "o' = a @ replicate ((4 - length a mod 4) mod 4) TCP_KIND_NOOP"
      using o by (auto simp: lua_reconstruct_tcphdr_options_def Let_def split: if_splits lua_res.splits)
    from tcp_opts_made[OF a(1)] a(2,3) r show ?thesis by simp
  next
    case False
    with o r show ?thesis by (auto simp: lua_reconstruct_tcphdr_options_def Let_def split: if_splits)
  qed
qed

lemma tcphdr_made: "lua_reconstruct_tcphdr A room v = LOk h \<Longrightarrow> 20 \<le> length h \<and> length h \<le> room"
  using tcp_options_made[of A room v] by (auto simp: lua_reconstruct_tcphdr_def split: if_splits lua_res.splits)

lemma l4_made:
  "8 \<le> room \<Longrightarrow> \<exists>r. reconstruct_l4 A room v = Some r \<and> (\<forall>k h. r = LOk (k, h) \<longrightarrow> length h \<le> room
     \<and> (k = L4Tcp \<longrightarrow> 20 \<le> length h) \<and> (k = L4Udp \<or> k = L4Icmp \<longrightarrow> length h = 8))"
  using tcphdr_made[of A room "lua_getfield v ''tcp''"]
  by (auto simp: reconstruct_l4_def Let_def lua_reconstruct_udphdr_def lua_reconstruct_icmphdr_def split: lua_res.splits if_splits)

lemma payload_made: "reconstruct_payload A room v = LOk p \<Longrightarrow> length p \<le> room"
  by (auto simp: reconstruct_payload_def split: option.splits if_splits)

lemma sums_made:
  assumes h: "ip4_header h" and l: "k = L4Tcp \<Longrightarrow> 20 \<le> length s" "k = L4Udp \<or> k = L4Icmp \<Longrightarrow> 8 \<le> length s"
  shows "\<exists>r. l4_sums addr rnd bad k True h n s = Some r \<and> (\<forall>e. r = LOk e \<longrightarrow> length e = length s)"
proof -
  have "12 + 4 \<le> length h" "16 + 4 \<le> length h" using h by (auto simp: ip4_header_def)
  then obtain a b where a: "l3_addrs True h = Some (Addrs4 a b)" using ld32_le[of 12 h] ld32_le[of 16 h] by (auto simp: l3_addrs_def)
  have step: "\<exists>r. map_option LOk (spoil bad rnd p e) = Some r \<and> (\<forall>e. r = LOk e \<longrightarrow> length e = length s)"
    if "length e = length s" "p + 2 \<le> length s" for e p using spoil_total[of p e bad rnd] that by auto
  show ?thesis
  proof (cases k)
    case L4Tcp
    then obtain e where "tcp_fix_checksum addr s (length s) (Addrs4 a b) = Some e" "length e = length s"
      using fix4_total(1)[of s addr a b] l(1) by auto
    then show ?thesis using L4Tcp a step[of e 16] l(1) by (simp add: l4_sums_def)
  next
    case L4Udp
    let ?s = "set16 s 4 (of_nat (n + 8))"
    have "length ?s = length s" using set16_len[of 4 s] l(2) L4Udp by simp
    moreover from this obtain e where "udp_fix_checksum addr ?s (length ?s) (Addrs4 a b) = Some e" "length e = length ?s"
      using fix4_total(2)[of ?s addr a b] l(2) L4Udp by auto
    ultimately show ?thesis using L4Udp a step[of e 6] l(2) by (simp add: l4_sums_def)
  next
    case L4Icmp
    then obtain e where "icmp_fix_checksum addr s (length s) None = Some e" "length e = length s"
      using fix4_total(3)[of s addr] l(2) by auto
    then show ?thesis using L4Icmp a step[of e 2] l(2) by (simp add: l4_sums_def)
  next
    case L4None
    then show ?thesis by (simp add: l4_sums_def)
  qed
qed

lemma finish_made:
  assumes h: "ip4_header h"
  shows "\<exists>r. finish_ip4 addr (length h) (h @ s) = Some r \<and> (\<forall>p. r = LOk p \<longrightarrow> 20 \<le> length p \<and> length p \<le> length h + length s)"
proof -
  have l: "20 \<le> length h" using h by (simp add: ip4_header_def)
  obtain off il where o: "pntoh16 (h @ s) 6 = Some off" "pntoh16 (h @ s) 2 = Some il"
    using reads_in(1)[of 6 "h @ s"] reads_in(1)[of 2 "h @ s"] l by auto
  let ?v = "of_nat (length (h @ s)) :: u16"
  have "ip4_header (set16 h 2 ?v)" using h set16_len[of 2 h ?v] set16_nth[of 2 h 0 ?v] l by (simp add: ip4_header_def)
  moreover have "set16 (h @ s) 2 ?v = set16 h 2 ?v @ s" using l by (simp add: set16_def)
  ultimately obtain g where g: "ip4_fix_checksum addr (set16 (h @ s) 2 ?v) = Some (g @ s)" "length g = length h"
    using fix_header[of "set16 h 2 ?v" addr s] set16_len[of 2 h ?v] l by auto
  have f: "\<exists>g. ip4_fix_checksum addr (h @ r) = Some (g @ r) \<and> length g = length h" for r using fix_header[OF h] by blast
  show ?thesis
  proof (cases "off AND 0x3FFF = 0")
    case True
    then show ?thesis using o g l by (simp add: finish_ip4_def Let_def)
  next
    case False
    let ?q = "length h + 8 * unat (off AND 0x1FFF)"
    obtain g' where "ip4_fix_checksum addr (h @ take (unat il - length h) (drop ?q (h @ s))) = Some (g' @ take (unat il - length h) (drop ?q (h @ s)))"
      "length g' = length h" using f by blast
    then show ?thesis using False o l by (auto simp: finish_ip4_def Let_def)
  qed
qed

text \<open>For a table with an IPv4 header nothing leaves the buffer, whatever else the table holds, and the packet fits into it.\<close>

lemma made4:
  assumes ip: "lua_istable (lua_getfield v ''ip'')" and room: "68 \<le> room"
  shows "\<exists>r. lua_reconstruct_dissect A rnd addr room ks bad nxp pn v = Some r \<and> (\<forall>pkt. r = LOk pkt \<longrightarrow> 20 \<le> length pkt \<and> length pkt \<le> room)"
proof -
  obtain t where t: "v = LTable t" using ip by (cases v) (auto simp: lua_getfield_def lua_istable_def)
  obtain r where r: "lua_reconstruct_iphdr A addr room (lua_getfield v ''ip'') = Some r" "\<And>h. r = LOk h \<Longrightarrow> ip4_header h \<and> length h \<le> room"
    using iphdr_made[of A addr room "lua_getfield v ''ip''"] by blast
  show ?thesis
  proof (cases r)
    case LRaise
    with r(1) ip t show ?thesis by (simp add: lua_reconstruct_dissect_def reconstruct_l3_def Let_def)
  next
    case LFail
    with r(1) ip t show ?thesis by (simp add: lua_reconstruct_dissect_def reconstruct_l3_def Let_def)
  next
    case (LOk h)
    obtain g where g: "ip4_fix_checksum addr h = Some g" "ip4_header g" "length g = length h"
      using fix_header[of h addr "[]"] r(2)[OF LOk] by auto
    have l3: "reconstruct_l3 A addr room nxp p v = Some (LOk (True, g))" for p using r(1) LOk g(1) ip by (simp add: reconstruct_l3_def)
    have b: "20 \<le> length g" "length g \<le> room" "length g \<le> 60" using r(2)[OF LOk] g(2,3) by (auto simp: ip4_header_def)
    let ?left = "room - length g"
    have "8 \<le> ?left" using b room by linarith
    from l4_made[OF this, of A v] obtain q where q: "reconstruct_l4 A ?left v = Some q" "\<And>k s. q = LOk (k, s) \<Longrightarrow> length s \<le> ?left
       \<and> (k = L4Tcp \<longrightarrow> 20 \<le> length s) \<and> (k = L4Udp \<or> k = L4Icmp \<longrightarrow> length s = 8)"
      by blast
    have last: "\<exists>r. (do { r \<leftarrow> (if ks then Some (LOk s) else l4_sums (addr + length g) rnd bad k True g n s);
          (case r of LRaise \<Rightarrow> Some LRaise | LFail \<Rightarrow> Some LFail | LOk seg \<Rightarrow> finish_ip4 addr (length g) (g @ seg)) }) = Some r
       \<and> (\<forall>pkt. r = LOk pkt \<longrightarrow> 20 \<le> length pkt \<and> length pkt \<le> room)"
      if l: "k = L4Tcp \<Longrightarrow> 20 \<le> length s" "k = L4Udp \<or> k = L4Icmp \<Longrightarrow> 8 \<le> length s" "length s \<le> ?left" for k n s
    proof -
      obtain x where x: "(if ks then Some (LOk s) else l4_sums (addr + length g) rnd bad k True g n s) = Some x"
        "\<And>e. x = LOk e \<Longrightarrow> length e = length s"
        using sums_made[where k = k, OF g(2) l(1,2), where addr = "addr + length g" and rnd = rnd and bad = bad and n = n] by (cases ks) auto
      show ?thesis
      proof (cases x)
        case (LOk e)
        obtain y where "finish_ip4 addr (length g) (g @ e) = Some y" "\<And>p. y = LOk p \<Longrightarrow> 20 \<le> length p \<and> length p \<le> length g + length e"
          using finish_made[OF g(2), of addr e] by blast
        then show ?thesis using x LOk l(3) b by force
      qed (use x in auto)
    qed
    let ?fo = "lua_getfield v ''frag_off''"
    consider (err) "\<not> lua_isnil ?fo" "luaL_checklint A ?fo = None" | (frag) x where "\<not> lua_isnil ?fo" "luaL_checklint A ?fo = Some x" | (whole) "lua_isnil ?fo"
      by blast
    then show ?thesis
    proof cases
      case err
      then show ?thesis by (simp add: lua_reconstruct_dissect_def t Let_def)
    next
      case frag
      have "length g + length p \<le> room" if "reconstruct_payload A ?left v = LOk p" for p using payload_made[OF that] b by linarith
      with frag show ?thesis using l3 b by (simp add: lua_reconstruct_dissect_def t Let_def split: lua_res.split)
    next
      case whole
      have d: "lua_reconstruct_dissect A rnd addr room ks bad nxp pn v = do {
          r \<leftarrow> reconstruct_l4 A ?left v;
          (case r of LRaise \<Rightarrow> Some LRaise | LFail \<Rightarrow> Some LFail
           | LOk (k, l4) \<Rightarrow>
               (case reconstruct_payload A (?left - length l4) v of LRaise \<Rightarrow> Some LRaise | LFail \<Rightarrow> Some LFail
                | LOk p \<Rightarrow> do {
                    r \<leftarrow> (if ks then Some (LOk (l4 @ p)) else l4_sums (addr + length g) rnd bad k True g (length p) (l4 @ p));
                    (case r of LRaise \<Rightarrow> Some LRaise | LFail \<Rightarrow> Some LFail | LOk seg \<Rightarrow> finish_ip4 addr (length g) (g @ seg)) })) }"
        using whole l3[of pn] unfolding lua_reconstruct_dissect_def t by (simp add: Let_def cong: lua_res.case_cong)
      show ?thesis
      proof (cases q)
        case (LOk kl)
        obtain k l where kl: "kl = (k, l)" by fastforce
        note ql = q(2)[OF LOk[unfolded kl]]
        show ?thesis
        proof (cases "reconstruct_payload A (?left - length l) v")
          case p: (LOk p)
          have "length (l @ p) \<le> ?left" using payload_made[OF p] conjunct1[OF ql] unfolding length_append by linarith
          moreover have "k = L4Tcp \<Longrightarrow> 20 \<le> length (l @ p)" "k = L4Udp \<or> k = L4Icmp \<Longrightarrow> 8 \<le> length (l @ p)" using ql by auto
          moreover have "reconstruct_payload A (room - (length g + length l)) v = LOk p" using p by simp
          ultimately show ?thesis unfolding d q(1) LOk kl using last[of k "l @ p" "length p"] by simp
        qed (simp_all add: d q(1) LOk kl)
      qed (simp_all add: d q(1))
    qed
  qed
qed

text \<open>The table of a packet whose extension headers fill the buffer: \<open>n\<close> hop-by-hop headers of eight bytes and a UDP header.\<close>

definition filler :: "'n lua_api \<Rightarrow> 'n lval" where
  "filler A = LTable (lua_pushf_raw ''data'' (Some (replicate 6 0)) (push8 A ''type'' 0 []))"

primrec fillers :: "'n lua_api \<Rightarrow> nat \<Rightarrow> 'n ltable" where
  "fillers A 0 = []"
| "fillers A (Suc n) = lua_pushi (Suc n) (filler A) (fillers A n)"

definition full_ip6 :: "'n lua_api \<Rightarrow> nat \<Rightarrow> 'n ltable" where
  "full_ip6 A n = lua_pushf ''udp'' (LTable (push16 A ''uh_dport'' 0 (push16 A ''uh_sport'' 0 [])))
     (lua_pushf ''ip6'' (LTable (lua_pushf ''exthdr'' (LTable (fillers A n))
       (lua_pushf_raw ''ip6_dst'' (Some (replicate 16 0)) (lua_pushf_raw ''ip6_src'' (Some (replicate 16 0)) [])))) [])"

lemma fillers_at: "lua_rawgeti (LTable (fillers A n)) j = (if 1 \<le> j \<and> j \<le> n then filler A else LNil)"
  by (induction n) (auto simp: lua_simps filler_def)

lemma fillers_fill:
  assumes A: "api_ok A"
  shows "i + m = n + 1 \<Longrightarrow> 1 \<le> i \<Longrightarrow> 8 * m \<le> left \<Longrightarrow>
    \<exists>h' lp'. reconstruct_exthdrs A (LTable (fillers A n)) pn i left h lp = LOk (h', lp') \<and> length h' = length h + 8 * m"
proof (induction m arbitrary: i left h lp)
  case 0
  then show ?case by (subst reconstruct_exthdrs.simps) (simp add: fillers_at lua_simps)
next
  case (Suc m)
  have t: "get8 A (filler A) ''type'' = 0" by (rule read_fields(1)[OF A]) (simp add: filler_def lua_simps pushed_fields)
  have f: "has_num (filler A) ''type''" "lua_getfield (filler A) ''data'' = LStr (replicate 6 0)" "\<not> lua_isnil (filler A)" "lua_istable (filler A)"
    by (simp_all add: filler_def has_num_def lua_simps pushed_fields)
  have g: "lua_rawgeti (LTable (fillers A n)) i = filler A" using Suc.prems by (simp add: fillers_at)
  have "\<exists>h1. reconstruct_exthdrs A (LTable (fillers A n)) pn i left h lp = reconstruct_exthdrs A (LTable (fillers A n)) pn (i + 1) (left - 8) h1 (length h)
    \<and> length h1 = length h + 8"
    by (rule exI[of _ "(if pn then h else h[lp := 0]) @ [if has_num (filler A) ''next'' then get8 A (filler A) ''next'' else IPPROTO_NONE, 0] @ replicate 6 0"])
       (use Suc.prems(3) in \<open>subst reconstruct_exthdrs.simps, simp add: Let_def g f t IPPROTO_AH_def\<close>)
  with Suc.IH[of "i + 1" "left - 8"] Suc.prems show ?case by fastforce
qed

lemma overflow6:
  assumes A: "api_ok A" and room: "40 \<le> room"
  shows "lua_reconstruct_dissect A rnd addr room ks bad nxp pn (LTable (full_ip6 A ((room - 40) div 8))) = None"
proof -
  let ?n = "(room - 40) div 8"
  let ?v = "LTable (full_ip6 A ?n)"
  define t6 where "t6 = LTable (lua_pushf ''exthdr'' (LTable (fillers A ?n))
       (lua_pushf_raw ''ip6_dst'' (Some (replicate 16 0)) (lua_pushf_raw ''ip6_src'' (Some (replicate 16 0)) [])))"
  define tu where "tu = LTable (push16 A ''uh_dport'' 0 (push16 A ''uh_sport'' 0 []))"
  have v: "lua_getfield ?v ''ip'' = LNil" "lua_getfield ?v ''ip6'' = t6" "lua_getfield ?v ''udp'' = tu" "lua_getfield ?v ''tcp'' = LNil"
    "lua_getfield ?v ''frag_off'' = LNil"
    by (simp_all add: full_ip6_def t6_def tu_def lua_simps getfield_pushf pushed_fields)
  have u: "lua_istable tu" "has_num tu ''uh_sport''" "has_num tu ''uh_dport''" by (simp_all add: tu_def has_num_def lua_simps pushed_fields)
  have f6: "lua_istable t6" "get_raw t6 ''ip6_src'' 16 = Some (replicate 16 0)" "get_raw t6 ''ip6_dst'' 16 = Some (replicate 16 0)"
    "lua_getfield t6 ''ip6_plen'' = LNil" "lua_getfield t6 ''exthdr'' = LTable (fillers A ?n)"
    by (simp_all add: t6_def get_raw_def lua_simps getfield_pushf pushed_fields)
  have x: "\<exists>h'. lua_reconstruct_ip6exthdr A room t6 pr p h = LOk h' \<and> length h' = length h + 8 * ?n" if "length h = 40" for pr p h
  proof -
    have "8 * ?n \<le> room - 40" by simp
    from fillers_fill[OF A _ _ this, of 1 ?n p h 6] obtain h' lp' where
      "reconstruct_exthdrs A (LTable (fillers A ?n)) p 1 (room - 40) h 6 = LOk (h', lp')" "length h' = length h + 8 * ?n" by auto
    then show ?thesis using room by (simp add: lua_reconstruct_ip6exthdr_def f6(5) lua_simps)
  qed
  obtain h where h: "lua_reconstruct_ip6hdr A room t6 (if nxp = IPPROTO_NONE then lua_ip6_l4proto_from_dissect ?v else nxp) pn = LOk h"
    "length h = 40 + 8 * ?n"
  proof -
    let ?pr = "if nxp = IPPROTO_NONE then lua_ip6_l4proto_from_dissect ?v else nxp"
    let ?h = "be_bytes 4 (if has_num t6 ''ip6_flow'' then get32 A t6 ''ip6_flow'' else 0x60000000) @ be_bytes 2 (0 :: u16)
      @ [get8 A t6 ''ip6_nxt'', get8 A t6 ''ip6_hlim''] @ replicate 16 0 @ replicate 16 0"
    obtain h' where h': "lua_reconstruct_ip6exthdr A room t6 ?pr pn ?h = LOk h'" "length h' = 40 + 8 * ?n" using x[of ?h ?pr pn] by auto
    show thesis
      by (rule that[of "set16 h' 4 (of_nat (length h' - 40))"])
         (use h' room f6 in \<open>simp_all add: lua_reconstruct_ip6hdr_def Let_def set16_len\<close>)
  qed
  have "room - length h < 8" using h(2) room by presburger
  then have "reconstruct_l4 A (room - length h) ?v = None"
    using u by (simp add: reconstruct_l4_def Let_def v lua_reconstruct_udphdr_def lua_simps)
  moreover have "reconstruct_l3 A addr room nxp pn ?v = Some (LOk (False, h))" using h(1) f6(1) by (simp add: reconstruct_l3_def v lua_simps)
  ultimately show ?thesis by (simp add: lua_reconstruct_dissect_def v Let_def lua_simps)
qed

subsection \<open>Theorems\<close>

definition sample_pkt6 :: bytes where
  "sample_pkt6 = [0x60,0,0,0, 0,16,0,64] @ replicate 15 0 @ [1] @ replicate 15 0 @ [2]
     @ [17,0,1,4,0,0,0,0] @ [0,53,0,54,0,8,1,2]"

lemma sample4: "case proto_dissect_l3l4 sample_pkt 44 False of None \<Rightarrow> False
    | Some dis \<Rightarrow> d_ip dis = Some 0 \<and> len_pkt dis = 44 \<and> d_tcp dis = Some 20 \<and> len_l4 dis = 24"
  by code_simp

lemma sample6: "case proto_dissect_l3l4 sample_pkt6 56 False of None \<Rightarrow> False
    | Some dis \<Rightarrow> d_ip6 dis = Some 0 \<and> \<not> d_frag dis \<and> len_pkt dis = 56 \<and> d_udp dis = Some 48 \<and> d_tcp dis = None
        \<and> len_l3 dis = 48 \<and> d_proto dis = IPPROTO_UDP"
  by code_simp

text \<open>C17: a dissected IPv4 packet, TCP, UDP, ICMP or any other, whole or a fragment, with IP options and with TCP options that
  fill their place, that is pushed to Lua and put together again from the untouched table without new checksums is, byte by
  byte, the packet up to the length its header gives, with the header checksum set, whatever the other options are.\<close>

theorem lua_packet_round4:
  assumes "api_ok A" and "len \<le> length d" "length d < 2 ^ 64" and "ip_len_sane d len"
    and "proto_dissect_l3l4 d len False = Some dis" and "d_ip dis = Some 0"
    and "\<forall>p. d_tcp dis = Some p \<longrightarrow> opts_plain (take (len_l4 dis - 20) (drop (p + 20) d))"
    and "len_pkt dis \<le> room"
  shows "\<exists>v pkt. lua_push_dissect A dis = Some v \<and> ip4_fix_checksum addr (take (len_pkt dis) d) = Some pkt
    \<and> lua_reconstruct_dissect A rnd addr room True bad nxp pn v = Some (LOk pkt)"
  by (rule packet_round4[OF assms])

lemma lua_packet_round4_witness:
  "\<exists>dis v pkt. proto_dissect_l3l4 sample_pkt 44 False = Some dis \<and> lua_push_dissect int_api dis = Some v
     \<and> ip4_fix_checksum 0 sample_pkt = Some pkt
     \<and> lua_reconstruct_dissect int_api 0 0 65536 True False IPPROTO_NONE False v = Some (LOk pkt)"
proof -
  obtain dis where dis: "proto_dissect_l3l4 sample_pkt 44 False = Some dis" "d_ip dis = Some 0" "len_pkt dis = 44" "d_tcp dis = Some 20" "len_l4 dis = 24"
    using sample4 by (auto split: option.splits)
  have l: "44 \<le> length sample_pkt" "length sample_pkt < 2 ^ 64" "ip_len_sane sample_pkt 44" "take 44 sample_pkt = sample_pkt"
    by (simp_all add: sample_pkt_def ip_len_sane_def proto_check_ipv6_def)
  have o: "\<forall>p. d_tcp dis = Some p \<longrightarrow> opts_plain (take (len_l4 dis - 20) (drop (p + 20) sample_pkt))"
    by (simp add: dis sample_pkt_def TCP_KIND_END_def TCP_KIND_NOOP_def)
  have "len_pkt dis \<le> 65536" by (simp add: dis)
  from lua_packet_round4[OF int_api_ok l(1,2,3) dis(1,2) o this, of 0 0 False IPPROTO_NONE False] show ?thesis
    unfolding dis(3) l(4) using dis(1) by blast
qed

text \<open>C18: a dissected IPv6 packet that is no fragment and carries TCP, UDP or ICMPv6, with extension headers that
  \<open>ext_walk\<close> passes and TCP options that fill their place, comes back from the untouched table exactly as it was, whether
  the script asks for the next-header fields of the table or for new ones.\<close>

theorem lua_packet_round6:
  assumes "api_ok A" and "len \<le> length d" "length d < 2 ^ 64" and "ip_len_sane d len"
    and "proto_dissect_l3l4 d len False = Some dis" and "d_ip6 dis = Some 0" and "\<not> d_frag dis"
    and "ext_walk d 40 (len_l3 dis - 40) (d ! 6) = Some (d_proto dis)"
    and "d_tcp dis \<noteq> None \<or> d_udp dis \<noteq> None \<or> d_icmp dis \<noteq> None \<and> d_proto dis = IPPROTO_ICMPV6"
    and "\<forall>p. d_tcp dis = Some p \<longrightarrow> opts_plain (take (len_l4 dis - 20) (drop (p + 20) d))"
    and "len_pkt dis \<le> room"
  shows "\<exists>v. lua_push_dissect A dis = Some v
    \<and> lua_reconstruct_dissect A rnd addr room True bad IPPROTO_NONE pn v = Some (LOk (take (len_pkt dis) d))"
  by (rule packet_round6[OF assms])

lemma lua_packet_round6_witness:
  "\<exists>dis v. proto_dissect_l3l4 sample_pkt6 56 False = Some dis \<and> lua_push_dissect int_api dis = Some v
     \<and> lua_reconstruct_dissect int_api 0 0 65536 True False IPPROTO_NONE False v = Some (LOk sample_pkt6)"
proof -
  obtain dis where dis: "proto_dissect_l3l4 sample_pkt6 56 False = Some dis" "d_ip6 dis = Some 0" "\<not> d_frag dis" "len_pkt dis = 56"
    "d_udp dis = Some 48" "d_tcp dis = None" "len_l3 dis = 48" "d_proto dis = IPPROTO_UDP"
    using sample6 by (auto split: option.splits)
  have l: "56 \<le> length sample_pkt6" "length sample_pkt6 < 2 ^ 64" "ip_len_sane sample_pkt6 56" "take 56 sample_pkt6 = sample_pkt6"
    by (simp_all add: sample_pkt6_def ip_len_sane_def proto_check_ipv4_def ip_hl_def rd_def)
  have w: "ext_walk sample_pkt6 40 (len_l3 dis - 40) (sample_pkt6 ! 6) = Some (d_proto dis)"
    unfolding dis by code_simp
  have "d_tcp dis \<noteq> None \<or> d_udp dis \<noteq> None \<or> d_icmp dis \<noteq> None \<and> d_proto dis = IPPROTO_ICMPV6"
    "\<forall>p. d_tcp dis = Some p \<longrightarrow> opts_plain (take (len_l4 dis - 20) (drop (p + 20) sample_pkt6))" "len_pkt dis \<le> 65536"
    by (simp_all add: dis)
  from lua_packet_round6[OF int_api_ok l(1,2,3) dis(1,2,3) w this, of 0 0 False False] show ?thesis
    unfolding dis(4) l(4) using dis(1) by blast
qed

text \<open>C19: with a buffer of at least 68 bytes, a packet put together from any table that has an IPv4 header, whatever types and
  lengths its fields have, never reads or writes outside the buffer; if a packet comes out it has at least 20 bytes and fits
  into the buffer.\<close>

theorem lua_reconstruct4_safe:
  assumes "lua_istable (lua_getfield v ''ip'')" and "68 \<le> room"
  shows "\<exists>r. lua_reconstruct_dissect A rnd addr room keepsum bad nxp pn v = Some r
    \<and> (\<forall>pkt. r = LOk pkt \<longrightarrow> 20 \<le> length pkt \<and> length pkt \<le> room)"
  by (rule made4[OF assms])

lemma lua_reconstruct4_safe_witness:
  "\<exists>r. lua_reconstruct_dissect int_api 0 0 68 False False IPPROTO_NONE False (LTable [(KField (lit ''ip''), LTable [])]) = Some r
    \<and> (\<forall>pkt. r = LOk pkt \<longrightarrow> 20 \<le> length pkt \<and> length pkt \<le> 68)"
  by (rule lua_reconstruct4_safe) (simp_all add: lua_getfield_def lua_rawget_def lua_istable_def)

text \<open>C20: no buffer is large enough for every IPv6 table: extension headers that fill the room leave none for the UDP header,
  which is written without a look at what is left.\<close>

theorem lua_reconstruct6_overflow:
  assumes "api_ok A" and "40 \<le> room"
  shows "lua_reconstruct_dissect A rnd addr room keepsum bad nxp pn (LTable (full_ip6 A ((room - 40) div 8))) = None"
  by (rule overflow6[OF assms])

lemma lua_reconstruct6_overflow_witness:
  "lua_reconstruct_dissect int_api 0 0 65536 False False IPPROTO_NONE False (LTable (full_ip6 int_api 8187)) = None"
  using lua_reconstruct6_overflow[OF int_api_ok, of 65536 0 0 False False IPPROTO_NONE False] by simp

end
