(* ===== verification/LuaTame.thy ===== *)
theory LuaTame
  imports LuaWhole
begin

text \<open>
  Which tables a packet can be put together from without a memory fault or an error in the Lua machine. \<open>desync\<close> calls
  \<open>lua_reconstruct_dissect\<close> on the table the scripts leave, outside any protected call: this theory says what the scripts
  have to keep to (\<open>tame_table\<close>), and that it is enough.
\<close>

subsection \<open>Tame tables\<close>

text \<open>
  The fragment offset is missing or a whole number. If the packet is one of IPv6, its payload length is missing or a whole
  number, and there is a number \<open>k\<close> such that the list of extension headers ends behind the \<open>k\<close>-th and the buffer takes
  the IPv6 header, \<open>k\<close> extension headers of the greatest length 2048, a transport header of 60 bytes, the payload and 4 bytes.
\<close>

definition payload_size :: "'n lua_api \<Rightarrow> 'n lval \<Rightarrow> nat" where
  "payload_size A v = (case lua_tolstring A (lua_getfield v ''payload'') of None \<Rightarrow> 0 | Some p \<Rightarrow> length p)"

definition whole_or_nil :: "'n lua_api \<Rightarrow> 'n lval \<Rightarrow> bool" where
  "whole_or_nil A f \<longleftrightarrow> lua_isnil f \<or> lua_isnum f \<and> luaL_checklint A f \<noteq> None"

definition exthdrs_fit :: "nat \<Rightarrow> 'n lval \<Rightarrow> bool" where
  "exthdrs_fit room x \<longleftrightarrow> (\<exists>k. (lua_istable x \<longrightarrow> lua_isnil (lua_rawgeti x (k + 1))) \<and> 2048 * k + 104 \<le> room)"

definition tame_table :: "'n lua_api \<Rightarrow> nat \<Rightarrow> 'n lval \<Rightarrow> bool" where
  "tame_table A room v \<longleftrightarrow>
     (lua_isnil (lua_getfield v ''frag_off'') \<or> luaL_checklint A (lua_getfield v ''frag_off'') \<noteq> None)
     \<and> (lua_istable (lua_getfield v ''ip'') \<or> \<not> lua_istable (lua_getfield v ''ip6'')
        \<or> whole_or_nil A (lua_getfield (lua_getfield v ''ip6'') ''ip6_plen'')
          \<and> exthdrs_fit (room - payload_size A v) (lua_getfield (lua_getfield v ''ip6'') ''exthdr''))"

subsection \<open>Nothing but the checks of the types raises an error\<close>

lemma tcp_opts_no_raise: "reconstruct_tcp_opts A o' i left acc \<noteq> LRaise"
proof (induction A o' i left acc rule: reconstruct_tcp_opts.induct)
  case (1 A o' i left acc)
  show ?case by (subst reconstruct_tcp_opts.simps) (use "1.IH" in \<open>auto simp: Let_def\<close>)
qed

text \<open>One step of the loop over the extension headers: it ends, fails, or writes a header of at most 2048 bytes and goes on.\<close>

lemma exthdrs_step:
  "lua_isnil (lua_rawgeti x i) \<and> reconstruct_exthdrs A x pn i left h lp = LOk (h, lp)
   \<or> reconstruct_exthdrs A x pn i left h lp = LFail
   \<or> \<not> lua_isnil (lua_rawgeti x i) \<and> (\<exists>l h1. 8 \<le> l \<and> l \<le> 2048 \<and> l \<le> left \<and> length h1 = length h + l
       \<and> reconstruct_exthdrs A x pn i left h lp = reconstruct_exthdrs A x pn (i + 1) (left - l) h1 (length h))"
proof -
  let ?e = "lua_rawgeti x i" and ?R = "reconstruct_exthdrs A x pn i left h lp"
  define ty where "ty = get8 A ?e ''type''"
  define nx where "nx = (if has_num ?e ''next'' then get8 A ?e ''next'' else IPPROTO_NONE)"
  show ?thesis
  proof (cases "lua_isnil ?e \<or> \<not> lua_istable ?e \<or> \<not> has_num ?e ''type''")
    case True
    then show ?thesis by (subst (1 2) reconstruct_exthdrs.simps) (auto simp: Let_def)
  next
    case go: False
    show ?thesis
    proof (cases "\<exists>s. lua_getfield ?e ''data'' = LStr s")
      case True
      then obtain s where s: "lua_getfield ?e ''data'' = LStr s" by blast
      let ?l = "length s + 2"
      let ?bad = "length s < 6 \<or> ?l > left \<or> (if ty = IPPROTO_AH then length s \<ge> 1024 \<or> ?l mod 4 \<noteq> 0 else length s \<ge> 2048 \<or> ?l mod 8 \<noteq> 0)"
      define h1 where "h1 = (if pn then h else h[lp := ty])
        @ [nx, if ty = IPPROTO_AH then of_nat (?l div 4 - 2) else of_nat (?l div 8 - 1)] @ s"
      have R: "?R = (if ?bad then LFail else reconstruct_exthdrs A x pn (i + 1) (left - ?l) h1 (length h))"
        unfolding h1_def nx_def ty_def by (subst reconstruct_exthdrs.simps) (use go in \<open>simp add: Let_def s\<close>)
      have "length h1 = length h + ?l" by (simp add: h1_def)
      moreover have "?l \<le> 2048" if "\<not> ?bad"
      proof -
        have "?l \<le> 1025 \<or> ?l \<le> 2049 \<and> ?l mod 8 = 0" using that by (auto split: if_splits)
        then show ?thesis by presburger
      qed
      ultimately show ?thesis using R go by (cases ?bad) (simp, intro disjI2 conjI exI[of _ ?l] exI[of _ h1], auto)
    next
      case False
      then have "?R = LFail" by (subst reconstruct_exthdrs.simps) (use go in \<open>auto simp: Let_def split: lval.split\<close>)
      then show ?thesis by blast
    qed
  qed
qed

lemma exthdrs_no_raise: "reconstruct_exthdrs A x pn i left h lp \<noteq> LRaise"
proof (induction left arbitrary: i h lp rule: less_induct)
  case (less left)
  consider "reconstruct_exthdrs A x pn i left h lp = LOk (h, lp)" | "reconstruct_exthdrs A x pn i left h lp = LFail"
    | l h1 where "8 \<le> l" "l \<le> left" "reconstruct_exthdrs A x pn i left h lp = reconstruct_exthdrs A x pn (i + 1) (left - l) h1 (length h)"
    using exthdrs_step[of x i A pn left h lp] by blast
  then show ?case
  proof cases
    case (3 l h1)
    then show ?thesis using less.IH[of "left - l"] by simp
  qed simp_all
qed

lemma tcphdr_no_raise: "lua_reconstruct_tcphdr A room v \<noteq> LRaise"
  using tcp_opts_no_raise[of A "lua_getfield v ''options''" 1 "min (room - 20) 40" "[]"]
  by (auto simp: lua_reconstruct_tcphdr_def lua_reconstruct_tcphdr_options_def Let_def split: lua_res.split)

lemma l4_no_raise: "reconstruct_l4 A room v \<noteq> Some LRaise"
  using tcphdr_no_raise[of A room "lua_getfield v ''tcp''"]
  by (auto simp: reconstruct_l4_def Let_def lua_reconstruct_udphdr_def lua_reconstruct_icmphdr_def split: lua_res.splits if_splits)

lemma payload_no_raise: "reconstruct_payload A room v \<noteq> LRaise"
  by (auto simp: reconstruct_payload_def split: option.split)

lemma sums_no_raise: "l4_sums addr rnd bad k v4 h n s \<noteq> Some LRaise"
  by (auto simp: l4_sums_def split: l4_kind.split bind_splits)

lemma finish_no_raise: "finish_ip4 addr n pkt \<noteq> Some LRaise" "finish_ip6 room pkt \<noteq> Some LRaise"
  by (auto simp: finish_ip4_def finish_ip6_def Let_def split: bind_splits option.splits if_splits)

lemma iphdr_no_raise: "lua_reconstruct_iphdr A addr room v \<noteq> Some LRaise"
  by (auto simp: lua_reconstruct_iphdr_def Let_def split: option.split)

lemma ip6hdr_no_raise: "whole_or_nil A (lua_getfield v ''ip6_plen'') \<Longrightarrow> lua_reconstruct_ip6hdr A room v proto pn \<noteq> LRaise"
  using exthdrs_no_raise[of A "lua_getfield v ''exthdr''" pn 1 "room - 40"]
  by (auto simp: lua_reconstruct_ip6hdr_def lua_reconstruct_ip6exthdr_def Let_def whole_or_nil_def lua_isnil_def lua_isnum_def
      split: option.split lval.splits lua_res.splits)

text \<open>The end, for any buffer: an IPv6 packet that leaves 4 bytes of it free.\<close>

lemma exthdrs_made:
  "reconstruct_exthdrs A x pn i left h lp = LOk (h', lp') \<Longrightarrow> lua_isnil (lua_rawgeti x (i + k)) \<Longrightarrow>
    length h \<le> length h' \<and> length h' \<le> length h + 2048 * k"
proof (induction k arbitrary: i left h lp)
  case 0
  then show ?case using exthdrs_step[of x i A pn left h lp] by auto
next
  case (Suc k)
  consider "reconstruct_exthdrs A x pn i left h lp = LOk (h, lp)" | "reconstruct_exthdrs A x pn i left h lp = LFail"
    | l h1 where "l \<le> 2048" "length h1 = length h + l"
        "reconstruct_exthdrs A x pn i left h lp = reconstruct_exthdrs A x pn (i + 1) (left - l) h1 (length h)"
    using exthdrs_step[of x i A pn left h lp] by blast
  then show ?case
  proof cases
    case (3 l h1)
    then show ?thesis using Suc.IH[of "i + 1" "left - l" h1 "length h"] Suc.prems by simp
  qed (use Suc.prems in simp_all)
qed

lemma ip6hdr_made:
  assumes "lua_reconstruct_ip6hdr A room v proto pn = LOk h"
    and "lua_istable (lua_getfield v ''exthdr'') \<Longrightarrow> lua_isnil (lua_rawgeti (lua_getfield v ''exthdr'') (k + 1))"
  shows "40 \<le> length h \<and> length h \<le> 40 + 2048 * k"
proof -
  have ext: "40 \<le> length h' \<and> length h' \<le> 40 + 2048 * k"
    if "lua_reconstruct_ip6exthdr A room v proto pn h0 = LOk h'" "length h0 = 40" for h0 h'
    using that exthdrs_made[of A "lua_getfield v ''exthdr''" pn 1 "room - 40" h0 6 _ _ k] assms(2)
    by (auto simp: lua_reconstruct_ip6exthdr_def Let_def split: if_splits lua_res.splits)
  have "\<exists>h0 h'. lua_reconstruct_ip6exthdr A room v proto pn h0 = LOk h' \<and> length h0 = 40 \<and> (h = h' \<or> (\<exists>x. h = set16 h' 4 x))"
    using assms(1)
    by (fastforce simp: lua_reconstruct_ip6hdr_def Let_def get_raw_def split: if_splits option.splits lval.splits lua_res.splits)
  then obtain h0 h' where "lua_reconstruct_ip6exthdr A room v proto pn h0 = LOk h'" "length h0 = 40" "h = h' \<or> (\<exists>x. h = set16 h' 4 x)"
    by blast
  with ext[OF this(1,2)] show ?thesis using set16_len[of 4 h'] by auto
qed

lemma tcphdr_short: "lua_reconstruct_tcphdr A room v = LOk h \<Longrightarrow> length h \<le> 60"
proof -
  assume h: "lua_reconstruct_tcphdr A room v = LOk h"
  have "lua_reconstruct_tcphdr_options A room v = lua_reconstruct_tcphdr_options A (min room 60) v"
  proof (cases "room \<le> 60")
    case False
    then have m: "min room 60 = 60" "min (room - 20) 40 = 40" "min (60 - 20 :: nat) 40 = 40" "(room < 20) = ((60 :: nat) < 20)" by simp_all
    show ?thesis unfolding m lua_reconstruct_tcphdr_options_def ..
  qed simp
  then have "length o' \<le> 40" if "lua_reconstruct_tcphdr_options A room v = LOk o'" for o'
    using tcp_options_made[of A "min room 60" v o'] that by simp
  with h show ?thesis by (fastforce simp: lua_reconstruct_tcphdr_def split: if_splits lua_res.splits)
qed

lemma tag_inv:
  "map_option (\<lambda>r. case r of LOk h \<Rightarrow> LOk (k', h) | LFail \<Rightarrow> LFail | LRaise \<Rightarrow> LRaise) x = Some (LOk (k, h)) \<Longrightarrow> x = Some (LOk h)"
  by (cases x) (auto split: lua_res.splits)

lemma l4_short:
  assumes "reconstruct_l4 A room v = Some (LOk (k, h))"
  shows "length h \<le> 60"
proof (cases "lua_istable (lua_getfield v ''tcp'')")
  case True
  with assms show ?thesis
    by (cases "lua_reconstruct_tcphdr A room (lua_getfield v ''tcp'')") (auto simp: reconstruct_l4_def Let_def dest: tcphdr_short)
next
  case False
  have "length u \<le> 60" if "lua_reconstruct_udphdr A room w = Some (LOk u)" for u w
    using that by (auto simp: lua_reconstruct_udphdr_def split: if_splits)
  moreover have "length u \<le> 60" if "lua_reconstruct_icmphdr A room w = Some (LOk u)" for u w
    using that by (auto simp: lua_reconstruct_icmphdr_def split: if_splits)
  moreover have "\<exists>w. lua_reconstruct_udphdr A room w = Some (LOk h) \<or> lua_reconstruct_icmphdr A room w = Some (LOk h) \<or> h = []"
    using assms False by (auto simp: reconstruct_l4_def Let_def simp del: map_option_eq_Some dest!: tag_inv split: if_splits)
  ultimately show ?thesis by auto
qed

lemma magic6_total: "16 \<le> length s \<Longrightarrow> 16 \<le> length t \<Longrightarrow> \<exists>c. csum_ipv6_magic s t n pr x = Some c"
  using ld32_le[of 0 s] ld32_le[of 4 s] ld32_le[of 8 s] ld32_le[of 12 s] ld32_le[of 0 t] ld32_le[of 4 t] ld32_le[of 8 t] ld32_le[of 12 t]
  by (auto simp: csum_ipv6_magic_def)

lemma fix6_total:
  assumes "16 \<le> length a" and "16 \<le> length b"
  shows "18 \<le> length s \<Longrightarrow> \<exists>e. tcp_fix_checksum addr s (length s) (Addrs6 a b) = Some e \<and> length e = length s"
    and "8 \<le> length s \<Longrightarrow> \<exists>e. udp_fix_checksum addr s (length s) (Addrs6 a b) = Some e \<and> length e = length s"
    and "8 \<le> length s \<Longrightarrow> \<exists>e. icmp_fix_checksum addr s (length s) (Some (a, b)) = Some e \<and> length e = length s"
proof -
  have sum: "\<exists>c m. do_csum addr u (length s) = Some c \<and> csum_ipv6_magic a b (length s) pr c = Some m" if "length u = length s" for u pr
    using do_csum_total[of "length s" u addr] magic6_total[OF assms] that by fastforce
  show "18 \<le> length s \<Longrightarrow> \<exists>e. tcp_fix_checksum addr s (length s) (Addrs6 a b) = Some e \<and> length e = length s"
    using sum[of "s[16 := 0, 17 := 0]" IPPROTO_TCP] by (auto simp: tcp_fix_checksum_def tcp6_fix_checksum_def st16_in)
  show "8 \<le> length s \<Longrightarrow> \<exists>e. udp_fix_checksum addr s (length s) (Addrs6 a b) = Some e \<and> length e = length s"
    using sum[of "s[6 := 0, 7 := 0]" IPPROTO_UDP] by (auto simp: udp_fix_checksum_def udp6_fix_checksum_def st16_in)
  show "8 \<le> length s \<Longrightarrow> \<exists>e. icmp_fix_checksum addr s (length s) (Some (a, b)) = Some e \<and> length e = length s"
    using sum[of "s[2 := 0, 3 := 0]" IPPROTO_ICMPV6] by (auto simp: icmp_fix_checksum_def icmp6_fix_checksum_def st16_in)
qed

lemma if_other: "(c \<Longrightarrow> a \<noteq> z) \<Longrightarrow> b \<noteq> z \<Longrightarrow> (if c then a else b) \<noteq> z"
  by simp

text \<open>So is the whole: a tame table raises no error.\<close>

lemma tame_no_raise:
  assumes "tame_table A room v" and "lua_istable v"
  shows "lua_reconstruct_dissect A rnd addr room ks bad nxp pn v \<noteq> Some LRaise"
proof -
  obtain t where t: "v = LTable t" using assms(2) by (cases v) (auto simp: lua_istable_def)
  have "reconstruct_l3 A addr room nxp p v \<noteq> Some LRaise" for p
    using assms(1) ip6hdr_no_raise[of A "lua_getfield v ''ip6''" room] iphdr_no_raise[of A addr room "lua_getfield v ''ip''"]
    by (auto simp: reconstruct_l3_def tame_table_def split: bind_splits lua_res.splits)
  then have l3: "reconstruct_l3 A addr room nxp p (LTable t) \<noteq> Some LRaise" for p by (simp add: t)
  have fo: "\<not> (\<not> lua_isnil (lua_getfield (LTable t) ''frag_off'') \<and> luaL_checklint A (lua_getfield (LTable t) ''frag_off'') = None)"
    using assms(1) by (simp add: tame_table_def t)
  have last: "do { r \<leftarrow> s;
        (case r of LRaise \<Rightarrow> Some LRaise | LFail \<Rightarrow> Some LFail
         | LOk seg \<Rightarrow> if ip then finish_ip4 addr (length g) (g @ seg) else finish_ip6 room (g @ seg)) } \<noteq> Some LRaise"
    if "s \<noteq> Some LRaise" for s ip g
    using that finish_no_raise by (cases s) (auto split: lua_res.split)
  have seg: "(if ks then Some (LOk q) else l4_sums a rnd bad k ip g n q) \<noteq> Some LRaise" for a k ip g n q
    using sums_no_raise by simp
  have rest: "do { r \<leftarrow> reconstruct_l4 A left (LTable t);
      (case r of LRaise \<Rightarrow> Some LRaise | LFail \<Rightarrow> Some LFail
       | LOk (k, l4) \<Rightarrow>
           (case reconstruct_payload A (left - length l4) (LTable t) of LRaise \<Rightarrow> Some LRaise | LFail \<Rightarrow> Some LFail
            | LOk p \<Rightarrow> do {
                r \<leftarrow> (if ks then Some (LOk (l4 @ p)) else l4_sums (addr + length g) rnd bad k ip g (length p) (l4 @ p));
                (case r of LRaise \<Rightarrow> Some LRaise | LFail \<Rightarrow> Some LFail
                 | LOk seg \<Rightarrow> if ip then finish_ip4 addr (length g) (g @ seg) else finish_ip6 room (g @ seg)) })) } \<noteq> Some LRaise"
    for left ip g
    using l4_no_raise[of A left "LTable t"] payload_no_raise last[OF seg]
    by (cases "reconstruct_l4 A left (LTable t)") (auto split: lua_res.split)
  show ?thesis
  proof (cases "reconstruct_l3 A addr room nxp (pn \<or> \<not> lua_isnil (lua_getfield (LTable t) ''frag_off'')) (LTable t)")
    case None
    then show ?thesis unfolding t lua_reconstruct_dissect_def lval.case Let_def if_not_P[OF fo] by simp
  next
    case (Some r)
    show ?thesis
    proof (cases r)
      case (LOk x)
      obtain v4 g where x: "x = (v4, g)" by (cases x)
      show ?thesis
        unfolding t lua_reconstruct_dissect_def lval.case Let_def if_not_P[OF fo] Some LOk x bind.bind_lunit lua_res.case prod.case
        by (rule if_other[OF _ rest]) (use payload_no_raise[of A "room - length g" "LTable t"] in \<open>simp split: lua_res.split\<close>)
    qed (use l3 Some fo in \<open>auto simp: t lua_reconstruct_dissect_def Let_def\<close>)
  qed
qed

subsection \<open>Nothing leaves the buffer\<close>

lemma find_total:
  "p + len \<le> length d \<Longrightarrow> \<exists>r. find_exthdr_loop d p len proto ty fr fo = Some r \<and> (\<forall>q. r = Some q \<longrightarrow> p \<le> q \<and> q < p + len)"
proof (induction len arbitrary: p ty fr fo rule: less_induct)
  case (less len)
  show ?case
  proof (cases "len \<noteq> 0 \<and> \<not> (fr \<and> fo \<noteq> 0) \<and> ty \<noteq> proto")
    case False
    then show ?thesis by (subst find_exthdr_loop.simps) auto
  next
    case True
    obtain e where e: "ext_switch d p len ty fr fo = Some e"
      using ext_switch_safe[OF less.prems] by blast
    show ?thesis
    proof (cases "\<exists>h fr' fo'. e = ExtHdr h fr' fo' \<and> h \<le> len")
      case h: True
      then obtain h fr' fo' where h: "e = ExtHdr h fr' fo'" "h \<le> len" by blast
      have "8 \<le> h" using ext_switch_pos e h(1) by blast
      have s: "find_exthdr_loop d p len proto ty fr fo = find_exthdr_loop d (p + h) (len - h) proto (d ! p) fr' fo'"
        by (subst find_exthdr_loop.simps) (use True e h less.prems in simp)
      have "\<exists>r. find_exthdr_loop d (p + h) (len - h) proto (d ! p) fr' fo' = Some r \<and> (\<forall>q. r = Some q \<longrightarrow> p + h \<le> q \<and> q < p + h + (len - h))"
        by (rule less.IH) (use \<open>8 \<le> h\<close> h(2) True less.prems in auto)
      then show ?thesis unfolding s using h(2) by auto
    next
      case False
      then have "find_exthdr_loop d p len proto ty fr fo = Some None"
        by (subst find_exthdr_loop.simps) (use True e in \<open>auto split: ext_case.split\<close>)
      then show ?thesis by simp
    qed
  qed
qed

text \<open>A fragment header that reaches behind the packet is refused whatever its offset is read as.\<close>

lemma fragment_behind:
  fixes q plen len off :: nat
  assumes "q < 40 + min plen (len - 40)" and "len < q + 8" and "40 \<le> len"
  shows "q + 8 - 40 > plen \<or> q + 8 + off + (plen - (q + 8 - 40)) > len"
  using assms by auto

lemma finish6_made:
  assumes "40 \<le> length pkt" and "length pkt + 4 \<le> room"
  shows "\<exists>r. finish_ip6 room pkt = Some r \<and> (\<forall>p. r = LOk p \<longrightarrow> 40 \<le> length p \<and> length p \<le> length pkt)"
proof -
  obtain plen ty where p: "pntoh16 pkt 4 = Some plen" "rd pkt 6 = Some ty"
    using reads_in(1)[of 4 pkt] reads_in(3)[of 6 pkt] assms(1) by auto
  define len where "len = (if unat plen < length pkt - 40 then unat plen else length pkt - 40)"
  have "len \<le> length pkt - 40" by (simp add: len_def)
  then have l: "40 + len \<le> length pkt" using assms(1) by linarith
  obtain f where f: "find_exthdr_loop pkt 40 len IPPROTO_FRAGMENT ty False 0 = Some f" "\<And>q. f = Some q \<Longrightarrow> 40 \<le> q \<and> q < 40 + len"
    using find_total[OF l, of IPPROTO_FRAGMENT ty False 0] by blast
  have fd: "proto_find_ip6_exthdr pkt 0 (length pkt) IPPROTO_FRAGMENT = Some f"
    using assms(1) p f(1) by (simp add: proto_find_ip6_exthdr_def len_def Let_def)
  show ?thesis
  proof (cases f)
    case None
    then show ?thesis using fd assms(1) by (simp add: finish_ip6_def set16_len)
  next
    case (Some q)
    have q: "40 \<le> q" "q < length pkt" using f(2)[OF Some] l by auto
    obtain off where off: "(if q + 4 \<le> length pkt \<or> room < q + 4 then pntoh16 pkt (q + 2) else Some 0) = Some off"
      using reads_in(1)[of "q + 2" pkt] q(2) assms(2) by (cases "q + 4 \<le> length pkt") auto
    have fin: "finish_ip6 room pkt =
       (if q + 8 - 40 > unat plen then Some LFail
        else if q + 8 + unat (off AND 0xFFF8) + (unat plen - (q + 8 - 40)) > length pkt then Some LFail
        else Some (LOk (take (q + 8) pkt @ take (unat plen - (q + 8 - 40)) (drop (q + 8 + unat (off AND 0xFFF8)) pkt))))"
      unfolding finish_ip6_def fd Some p(1) Let_def bind.bind_lunit option.case off ..
    show ?thesis unfolding fin using q assms(1) by auto
  qed
qed

lemma sums6_made:
  assumes h: "40 \<le> length h" and l: "k = L4Tcp \<Longrightarrow> 20 \<le> length s" "k = L4Udp \<or> k = L4Icmp \<Longrightarrow> 8 \<le> length s"
  shows "\<exists>r. l4_sums addr rnd bad k False h n s = Some r \<and> (\<forall>e. r = LOk e \<longrightarrow> length e = length s)"
proof -
  obtain a b where a: "l3_addrs False h = Some (Addrs6 a b)" "16 \<le> length a" "16 \<le> length b" using h by (simp add: l3_addrs_def)
  have step: "\<exists>r. map_option LOk (spoil bad rnd p e) = Some r \<and> (\<forall>e. r = LOk e \<longrightarrow> length e = length s)"
    if "length e = length s" "p + 2 \<le> length s" for e p using spoil_total[of p e bad rnd] that by auto
  show ?thesis
  proof (cases k)
    case L4Tcp
    then obtain e where "tcp_fix_checksum addr s (length s) (Addrs6 a b) = Some e" "length e = length s"
      using fix6_total(1)[OF a(2,3), of s addr] l(1) by auto
    then show ?thesis using L4Tcp a step[of e 16] l(1) by (simp add: l4_sums_def)
  next
    case L4Udp
    let ?s = "set16 s 4 (of_nat (n + 8))"
    have "length ?s = length s" using set16_len[of 4 s] l(2) L4Udp by simp
    moreover from this obtain e where "udp_fix_checksum addr ?s (length ?s) (Addrs6 a b) = Some e" "length e = length ?s"
      using fix6_total(2)[OF a(2,3), of ?s addr] l(2) L4Udp by auto
    ultimately show ?thesis using L4Udp a step[of e 6] l(2) by (simp add: l4_sums_def)
  next
    case L4Icmp
    then obtain e where "icmp_fix_checksum addr s (length s) (Some (a, b)) = Some e" "length e = length s"
      using fix6_total(3)[OF a(2,3), of s addr] l(2) by auto
    then show ?thesis using L4Icmp a step[of e 2] l(2) by (simp add: l4_sums_def)
  next
    case L4None
    then show ?thesis by (simp add: l4_sums_def)
  qed
qed

lemma payload_size_le: "reconstruct_payload A room v = LOk p \<Longrightarrow> length p \<le> payload_size A v"
  by (auto simp: reconstruct_payload_def payload_size_def split: option.splits if_splits)

lemma made6:
  assumes tame: "tame_table A room v" and no4: "\<not> lua_istable (lua_getfield v ''ip'')" and tab: "lua_istable v"
  shows "\<exists>r. lua_reconstruct_dissect A rnd addr room ks bad nxp pn v = Some r \<and> (\<forall>pkt. r = LOk pkt \<longrightarrow> 20 \<le> length pkt \<and> length pkt \<le> room)"
proof -
  obtain t where t: "v = LTable t" using tab by (cases v) (auto simp: lua_istable_def)
  let ?fo = "lua_getfield v ''frag_off''" and ?v6 = "lua_getfield v ''ip6''"
  have fo: "\<not> (\<not> lua_isnil ?fo \<and> luaL_checklint A ?fo = None)" using tame by (simp add: tame_table_def)
  let ?p = "pn \<or> \<not> lua_isnil ?fo"
  have "\<exists>r. reconstruct_l3 A addr room nxp ?p v = Some r
     \<and> (\<forall>x. r = LOk x \<longrightarrow> lua_istable ?v6 \<and> (\<exists>g pr. x = (False, g) \<and> lua_reconstruct_ip6hdr A room ?v6 pr ?p = LOk g))"
    by (cases "lua_reconstruct_ip6hdr A room ?v6 (if nxp = IPPROTO_NONE then lua_ip6_l4proto_from_dissect v else nxp) ?p")
       (auto simp: reconstruct_l3_def no4)
  then obtain r where r: "reconstruct_l3 A addr room nxp ?p v = Some r"
    "\<And>x. r = LOk x \<Longrightarrow> lua_istable ?v6 \<and> (\<exists>g pr. x = (False, g) \<and> lua_reconstruct_ip6hdr A room ?v6 pr ?p = LOk g)"
    by blast
  show ?thesis
  proof (cases r)
    case (LOk x)
    obtain g pr where g: "x = (False, g)" "lua_reconstruct_ip6hdr A room ?v6 pr ?p = LOk g" "lua_istable ?v6" using r(2)[OF LOk] by blast
    obtain k where k: "lua_istable (lua_getfield ?v6 ''exthdr'') \<Longrightarrow> lua_isnil (lua_rawgeti (lua_getfield ?v6 ''exthdr'') (k + 1))"
      "2048 * k + 104 \<le> room - payload_size A v"
      using tame no4 g(3) by (auto simp: tame_table_def exthdrs_fit_def)
    have gl: "40 \<le> length g" "length g \<le> 40 + 2048 * k" using ip6hdr_made[OF g(2) k(1)] by auto
    have room: "length g + 64 + payload_size A v \<le> room" using gl k(2) by linarith
    show ?thesis
    proof (cases "lua_isnil ?fo")
      case False
      have "length g + length p \<le> room" if "reconstruct_payload A (room - length g) v = LOk p" for p
        using payload_made[OF that] room by linarith
      then show ?thesis using False fo r(1) gl unfolding LOk g(1) t lua_reconstruct_dissect_def lval.case Let_def
        by (auto split: lua_res.split)
    next
      case whole: True
      let ?left = "room - length g"
      have "8 \<le> ?left" using room by linarith
      from l4_made[OF this, of A v] obtain q where q: "reconstruct_l4 A ?left v = Some q" "\<And>k s. q = LOk (k, s) \<Longrightarrow> length s \<le> ?left
         \<and> (k = L4Tcp \<longrightarrow> 20 \<le> length s) \<and> (k = L4Udp \<or> k = L4Icmp \<longrightarrow> length s = 8)"
        by blast
      have d: "lua_reconstruct_dissect A rnd addr room ks bad nxp pn v = (case q of LRaise \<Rightarrow> Some LRaise | LFail \<Rightarrow> Some LFail
           | LOk (k, l4) \<Rightarrow>
               (case reconstruct_payload A (?left - length l4) v of LRaise \<Rightarrow> Some LRaise | LFail \<Rightarrow> Some LFail
                | LOk p \<Rightarrow> do {
                    r \<leftarrow> (if ks then Some (LOk (l4 @ p)) else l4_sums (addr + length g) rnd bad k False g (length p) (l4 @ p));
                    (case r of LRaise \<Rightarrow> Some LRaise | LFail \<Rightarrow> Some LFail | LOk seg \<Rightarrow> finish_ip6 room (g @ seg)) }))"
        using whole fo r(1) q(1) unfolding LOk g(1) t lua_reconstruct_dissect_def lval.case Let_def
        by (simp cong: lua_res.case_cong)
      show ?thesis
      proof (cases q)
        case kl: (LOk y)
        obtain kk l where y: "y = (kk, l)" by fastforce
        note ql = q(2)[OF kl[unfolded y]]
        have short: "length l \<le> 60" using l4_short q(1) unfolding kl y by blast
        show ?thesis
        proof (cases "reconstruct_payload A (?left - length l) v")
          case p: (LOk p)
          have pl: "length p \<le> payload_size A v" by (rule payload_size_le[OF p])
          have lp: "kk = L4Tcp \<Longrightarrow> 20 \<le> length (l @ p)" "kk = L4Udp \<or> kk = L4Icmp \<Longrightarrow> 8 \<le> length (l @ p)" using ql by auto
          obtain z where z: "(if ks then Some (LOk (l @ p)) else l4_sums (addr + length g) rnd bad kk False g (length p) (l @ p)) = Some z"
            "\<And>e. z = LOk e \<Longrightarrow> length e = length (l @ p)"
            using sums6_made[where k = kk, OF gl(1) lp, where addr = "addr + length g" and rnd = rnd and bad = bad and n = "length p"]
            by (cases ks) auto
          show ?thesis
          proof (cases z)
            case e: (LOk e)
            have le: "length (g @ e) + 4 \<le> room" using z(2)[OF e] short pl room by simp
            obtain w where w: "finish_ip6 room (g @ e) = Some w" "\<And>p. w = LOk p \<Longrightarrow> 40 \<le> length p \<and> length p \<le> length (g @ e)"
              using finish6_made[OF _ le] gl(1) by auto
            show ?thesis unfolding d kl y lua_res.case prod.case p z(1) bind.bind_lunit e w(1)
              using w(2) le by (intro exI[of _ w] conjI refl allI impI) (fastforce simp del: length_append)+
          qed (unfold d kl y lua_res.case prod.case p z(1) bind.bind_lunit, simp_all)
        qed (simp_all add: d kl y)
      qed (simp_all add: d)
    qed
  qed (use r(1) fo in \<open>auto simp: t lua_reconstruct_dissect_def Let_def\<close>)
qed

lemma lua_reconstruct_tame_returns:
  assumes "tame_table A room v" and "lua_istable v" and "68 \<le> room"
  shows "\<exists>r. lua_reconstruct_dissect A rnd addr room keepsum bad nxp pn v = Some r \<and> r \<noteq> LRaise
    \<and> (\<forall>pkt. r = LOk pkt \<longrightarrow> 20 \<le> length pkt \<and> length pkt \<le> room)"
  using made4[of v room A rnd addr keepsum bad nxp pn] made6[OF assms(1) _ assms(2), of rnd addr keepsum bad nxp pn]
    tame_no_raise[OF assms(1,2), of rnd addr keepsum bad nxp pn] assms(3)
  by (cases "lua_istable (lua_getfield v ''ip'')") auto



end
