(* ===== verification/WorldOk.thy ===== *)
theory WorldOk
  imports Packet FailSafe Redissect LuaTame
begin

text \<open>
  The invariant of the world between two packets, and the steps that keep it: every connection of the table is well
  formed (its reassembly, its queue of delayed packets, its window scales, its profile and fail counters), and profiles
  point to lists that are there. A search for a profile and the feeding of the connection table keep it.
\<close>

unbundle bit_operations_syntax

subsection \<open>What comes from outside\<close>

text \<open>
  The table the scripts leave for a packet is always tame (theory LuaTame): no scripts can make the program write outside the
  buffer a packet is rebuilt in, or raise an error outside a protected call, but by a table that is not.
\<close>

definition scripts_tame :: "('l, 'n) lua \<Rightarrow> bool" where
  "scripts_tame L \<longleftrightarrow>
     (\<forall>s. lua_istable (lua_table L s) \<longrightarrow> tame_table (lua_numbers L) RECONSTRUCT_MAX_SIZE (lua_table L s))"

lemma tame_more: "tame_table A m v \<Longrightarrow> m \<le> n \<Longrightarrow> tame_table A n v"
  unfolding tame_table_def exthdrs_fit_def by (fastforce elim: le_trans)

lemma rebuild_total:
  assumes "scripts_tame L" and "RECONSTRUCT_MAX_SIZE \<le> cap"
  shows "desync_rebuild L s addr cap pn \<noteq> None"
proof (cases "lua_table L s")
  case (LTable d)
  then have "tame_table (lua_numbers L) cap (LTable d)" using assms tame_more unfolding scripts_tame_def by (metis lua_tests(1))
  moreover have "68 \<le> cap" using assms(2) by (simp add: RECONSTRUCT_MAX_SIZE_def)
  ultimately obtain r where "lua_reconstruct_dissect (lua_numbers L) 0 addr cap False False IPPROTO_NONE pn (LTable d) = Some r" "r \<noteq> LRaise"
    using lua_reconstruct_tame_returns[of "lua_numbers L" cap "LTable d"] lua_tests(1) by blast
  with LTable show ?thesis by (cases r) (simp_all add: desync_rebuild_def)
qed (simp_all add: desync_rebuild_def)

text \<open>What the scripts and code that is not under src/ have to promise.\<close>

definition env_good :: "('l, 'n) env \<Rightarrow> bool" where
  "env_good E \<longleftrightarrow> env_ok (en_ip E) \<and> crypto_sizes (en_crypto E) \<and> block16 (en_setkey E) \<and> scripts_tame (en_lua E)"

text \<open>
  A dissected packet: its headers lie inside it. The answer to a DNS query that is nothing but a header is excluded when
  names are cached, because the program reads behind it (theorem \<open>feed_dns_response_header_only\<close>).
\<close>

definition dis_ok :: "bool \<Rightarrow> dissect \<Rightarrow> bool" where
  "dis_ok cn dis \<longleftrightarrow> (\<exists>n. dissect_ok n dis) \<and> length (data_pkt dis) < 2 ^ 64
     \<and> (d_udp dis \<noteq> None \<and> cn \<longrightarrow> len_payload dis \<noteq> 12)"

text \<open>
  A packet of the network: in its buffer, with sane length fields (theorem \<open>proto_dissect_wraps\<close> tells what happens otherwise),
  a window scale the shift allows, and, in an ICMP error, an attached packet with sane length fields.
\<close>

definition packet_ok :: "bool \<Rightarrow> bytes \<Rightarrow> nat \<Rightarrow> bool" where
  "packet_ok cn d len \<longleftrightarrow> len \<le> length d \<and> length d < 2 ^ 64 \<and> ip_len_sane d len
     \<and> (\<forall>dis. proto_dissect_l3l4 d len False = Some dis \<longrightarrow>
          (d_udp dis \<noteq> None \<and> cn \<longrightarrow> len_payload dis \<noteq> 12)
          \<and> (\<forall>t s. d_tcp dis = Some t \<longrightarrow> tcp_find_scale_factor d t = Some s \<longrightarrow> s \<noteq> SCALE_NONE \<longrightarrow> unat s < 32)
          \<and> (\<forall>i y. d_icmp dis = Some i \<longrightarrow> icmp_carries (d ! i) \<longrightarrow> data_payload dis = Some y \<longrightarrow> ip_len_sane (drop y d) (len_payload dis)))"

definition seen :: "bool \<Rightarrow> dissect \<Rightarrow> bool" where
  "seen cn dis \<longleftrightarrow> (\<exists>len. packet_ok cn (data_pkt dis) len \<and> proto_dissect_l3l4 (data_pkt dis) len False = Some dis)"

subsection \<open>The invariant of a connection\<close>

definition reasm_shape :: "reasm \<Rightarrow> bool" where
  "reasm_shape r \<longleftrightarrow> length (r_packet r) = r_size r \<and> r_present r \<le> r_size r \<and> (r_size r = 0 \<or> 5 \<le> r_size r)"

text \<open>A packet in the queue of connection \<open>c\<close>: dissected again it belongs to \<open>c\<close>, in the direction of the client.\<close>

definition waiting_ok :: "bool \<Rightarrow> conn \<Rightarrow> rawpacket \<Rightarrow> bool" where
  "waiting_ok cn c rp \<longleftrightarrow> rp_len rp \<le> length (rp_packet rp)
     \<and> (\<exists>dis. proto_dissect_l3l4 (rp_packet rp) (rp_len rp) False = Some dis \<and> dis_ok cn dis
          \<and> ConntrackExtractConn False dis = Some (True, c))
     \<and> (\<exists>tp. rp_tpos rp = Some tp \<and> (ipproto tp = IPPROTO_TCP \<longleftrightarrow> c_l4proto c = IPPROTO_TCP))"

definition pos_ok :: "conn \<Rightarrow> ctrack_positions \<Rightarrow> bool" where
  "pos_ok c p \<longleftrightarrow> unat (t_scale (client p)) < 32 \<and> unat (t_scale (server p)) < 32
     \<and> (ipproto p = IPPROTO_TCP \<longleftrightarrow> c_l4proto c = IPPROTO_TCP)"

definition queue_ok :: "bool \<Rightarrow> nat \<Rightarrow> conn \<Rightarrow> packet_queue \<Rightarrow> bool" where
  "queue_ok cn N c q \<longleftrightarrow> (\<forall>rp\<in>set q. waiting_ok cn c rp) \<and> length q \<le> N"

definition track_ok :: "bool \<Rightarrow> nat option list \<Rightarrow> nat \<Rightarrow> conn \<Rightarrow> ctrack \<Rightarrow> bool" where
  "track_ok cn autos N c t \<longleftrightarrow> reasm_shape (reasm_client t) \<and> fails_ok autos t
     \<and> (hostname_discovered t \<longrightarrow> hostname t \<noteq> None) \<and> pos_ok c (pos t)
     \<and> queue_ok cn N c (delayed t) \<and> (delayed t \<noteq> [] \<longrightarrow> l7proto t \<noteq> L7_UNKNOWN \<and> \<not> ReasmIsEmpty (reasm_client t))"

definition world_ok :: "bool \<Rightarrow> nat \<Rightarrow> 'l world \<Rightarrow> bool" where
  "world_ok cn N w \<longleftrightarrow> profiles_ok (w_ah w) (w_ips w)
     \<and> (\<forall>(c, t)\<in>set (ct_pool (w_ct w)). track_ok cn (auto_of (w_ah w)) N c t)"

lemma world_ok_cong [simp]:
  "world_ok cn N (w\<lparr>w_ipc := x\<rparr>) = world_ok cn N w" "world_ok cn N (w\<lparr>w_ipc_prev := y\<rparr>) = world_ok cn N w"
  "world_ok cn N (w\<lparr>w_lua := s\<rparr>) = world_ok cn N w" "world_ok cn N (sends gs w) = world_ok cn N w"
  by (simp_all add: world_ok_def sends_def)

lemma get_track_cong [simp]:
  "get_track (w\<lparr>w_ipc := x\<rparr>) r = get_track w r" "get_track (w\<lparr>w_ipc_prev := y\<rparr>) r = get_track w r"
  "get_track (w\<lparr>w_lua := s\<rparr>) r = get_track w r" "get_track (sends gs w) r = get_track w r"
  "get_track (w\<lparr>w_ah := ah\<rparr>) r = get_track w r" "get_track (w\<lparr>w_ips := is\<rparr>) r = get_track w r"
  by (simp_all add: get_track_def sends_def split: option.split)

lemma get_track_None [simp]: "get_track w None = Some None"
  by (simp add: get_track_def)

lemma get_track_Some: "get_track w (Some c) = Some t \<longleftrightarrow> (\<exists>tr. t = Some tr \<and> hash_find (ct_pool (w_ct w)) c = Some tr)"
  by (auto simp: get_track_def)

lemma set_hash_set: "set (hash_set t k v) \<subseteq> insert (k, v) (set t)"
  by (induction t k v rule: hash_set.induct) auto

text \<open>Reading and writing the connection that is held.\<close>

definition holds :: "'l world \<Rightarrow> conn option \<Rightarrow> ctrack option \<Rightarrow> bool" where
  "holds w r t \<longleftrightarrow> get_track w r = Some t"

lemma holds_iff: "holds w None t \<longleftrightarrow> t = None" "holds w (Some c) t \<longleftrightarrow> (\<exists>tr. t = Some tr \<and> hash_find (ct_pool (w_ct w)) c = Some tr)"
  by (auto simp: holds_def get_track_Some)

lemma holds_set:
  assumes "holds w r t" and "(t = None) = (t' = None)"
  shows "holds (set_track r t' w) r t'"
  using assms by (cases r; cases t') (auto simp: holds_iff set_track_def find_hash_set)

lemma set_track_ah [simp]: "w_ah (set_track r t w) = w_ah w" "w_ips (set_track r t w) = w_ips w" "w_ipc (set_track r t w) = w_ipc w"
  "w_lua (set_track r t w) = w_lua w" "w_sent (set_track r t w) = w_sent w"
  by (simp_all add: set_track_def split: option.split)

lemma sends_sel [simp]: "w_ah (sends gs w) = w_ah w" "w_ips (sends gs w) = w_ips w" "w_ipc (sends gs w) = w_ipc w" "w_ct (sends gs w) = w_ct w"
  by (simp_all add: sends_def)

lemma holds_cong [simp]:
  "holds (w\<lparr>w_ipc := x\<rparr>) r t = holds w r t" "holds (w\<lparr>w_lua := s\<rparr>) r t = holds w r t" "holds (sends gs w) r t = holds w r t"
  "holds (w\<lparr>w_ah := ah\<rparr>) r t = holds w r t" "holds (w\<lparr>w_ips := is\<rparr>) r t = holds w r t"
  by (simp_all add: holds_def)

definition tr_ok :: "bool \<Rightarrow> nat \<Rightarrow> 'l world \<Rightarrow> conn option \<Rightarrow> ctrack option \<Rightarrow> bool" where
  "tr_ok cn N w r t \<longleftrightarrow> (\<forall>c tr. r = Some c \<longrightarrow> t = Some tr \<longrightarrow> track_ok cn (auto_of (w_ah w)) N c tr)"

lemma tr_ok_cong [simp]:
  "tr_ok cn N (w\<lparr>w_ipc := x\<rparr>) r t = tr_ok cn N w r t" "tr_ok cn N (sends gs w) r t = tr_ok cn N w r t"
  "tr_ok cn N (set_track r' t' w) r t = tr_ok cn N w r t"
  by (simp_all add: tr_ok_def)

lemma holds_ok: "world_ok cn N w \<Longrightarrow> holds w r t \<Longrightarrow> tr_ok cn N w r t"
  by (cases r) (auto simp: holds_iff tr_ok_def world_ok_def dest: hash_find_in)

lemma world_ok_set:
  assumes "world_ok cn N w" and "tr_ok cn N w r t"
  shows "world_ok cn N (set_track r t w)"
proof (cases "r = None \<or> t = None")
  case True
  then have "set_track r t w = w" by (auto simp: set_track_def split: option.split)
  with assms show ?thesis by simp
next
  case False
  then obtain c tr where rt: "r = Some c" "t = Some tr" by auto
  have "track_ok cn (auto_of (w_ah w)) N d s" if "(d, s) \<in> set (hash_set (ct_pool (w_ct w)) c tr)" for d s
  proof -
    have "(d, s) = (c, tr) \<or> (d, s) \<in> set (ct_pool (w_ct w))" using that set_hash_set[of "ct_pool (w_ct w)" c tr] by blast
    then show ?thesis using assms rt by (auto simp: world_ok_def tr_ok_def)
  qed
  then show ?thesis using assms(1) rt by (auto simp: world_ok_def set_track_def)
qed

lemma track_ok_same: "auto_of a = auto_of b \<Longrightarrow> track_ok cn (auto_of a) N c t = track_ok cn (auto_of b) N c t"
  by simp

lemma world_ok_ah:
  assumes "world_ok cn N w" and "same_profiles (w_ah w) ah"
  shows "world_ok cn N (w\<lparr>w_ah := ah\<rparr>)" and "tr_ok cn N (w\<lparr>w_ah := ah\<rparr>) r t = tr_ok cn N w r t"
proof -
  have "profiles_ok ah (w_ips w)"
    by (rule profiles_ok_same[OF _ assms(2) refl]) (use assms(1) in \<open>auto simp: world_ok_def profiles_ok_def stores_ok_def\<close>)
  then show "world_ok cn N (w\<lparr>w_ah := ah\<rparr>)" using assms by (simp add: world_ok_def same_auto)
  show "tr_ok cn N (w\<lparr>w_ah := ah\<rparr>) r t = tr_ok cn N w r t" using same_auto[OF assms(2)] by (simp add: tr_ok_def)
qed

lemma track_ok_mono: "track_ok cn autos N c t \<Longrightarrow> N \<le> M \<Longrightarrow> track_ok cn autos M c t"
  by (auto simp: track_ok_def queue_ok_def)

lemma world_ok_mono: "world_ok cn N w \<Longrightarrow> N \<le> M \<Longrightarrow> world_ok cn M w"
  by (auto simp: world_ok_def intro: track_ok_mono)

subsection \<open>Steps that leave the connections alone\<close>

definition quiet :: "'l world \<Rightarrow> 'l world \<Rightarrow> bool" where
  "quiet w w' \<longleftrightarrow> w_ct w' = w_ct w \<and> same_profiles (w_ah w) (w_ah w')"

lemma quiet_refl [simp]: "quiet w w" by (simp add: quiet_def)

lemma quiet_trans: "quiet a b \<Longrightarrow> quiet b c \<Longrightarrow> quiet a c"
  by (auto simp: quiet_def intro: same_profiles_trans)

lemma quiet_holds: "quiet w w' \<Longrightarrow> holds w' r t = holds w r t"
  by (cases r) (simp_all add: quiet_def holds_iff)

lemma quiet_get: "quiet w w' \<Longrightarrow> get_track w' r = get_track w r"
  by (cases r) (simp_all add: quiet_def get_track_def)

lemma quiet_tr_ok: "quiet w w' \<Longrightarrow> tr_ok cn N w' r t = tr_ok cn N w r t"
  using same_auto by (auto simp: quiet_def tr_ok_def)

lemma quiet_profiles: "quiet w w' \<Longrightarrow> length (ah_profiles (w_ah w')) = length (ah_profiles (w_ah w))"
  "quiet w w' \<Longrightarrow> auto_of (w_ah w') = auto_of (w_ah w)"
  by (auto simp: quiet_def same_length same_auto)

lemma quiet_ah: "same_profiles (w_ah w) ah \<Longrightarrow> quiet w (w\<lparr>w_ah := ah\<rparr>)"
  by (simp add: quiet_def)

lemma find_profile_safe:
  assumes "env_good E" and "world_ok cn N w" and "target_ok x"
  shows "returns (\<lambda>(r, chk', w'). world_ok cn N w' \<and> quiet w w' \<and> (\<forall>k. r = Some k \<longrightarrow> k < length (ah_profiles (w_ah w))))
    (find_profile E x chk w)"
proof -
  let ?LE = "\<lparr>le_alloc = ae_alloc (en_ah E), le_os = ah_os (w_ah w), le_ip = en_ip E\<rparr>" and ?ps = "ah_profiles (w_ah w)"
  have p: "profiles_ok (w_ah w) (w_ips w)" using assms(2) by (simp add: world_ok_def)
  have a: "stores_ok (autolists ?ps) (ah_hosts (w_ah w), w_ips w)" "\<forall>p\<in>set ?ps. profile_ok (ah_hosts (w_ah w), w_ips w) p"
    "env_ok (le_ip ?LE)" using p assms(1) by (simp_all add: profiles_ok_def env_good_def)
  obtain r chk' hs "is" where d: "dp_find ?LE ?ps x chk (ah_hosts (w_ah w), w_ips w) = Some (r, chk', hs, is)"
    "stores_ok (autolists ?ps) (hs, is)" "length is = length (w_ips w)" "\<forall>k. r = Some k \<longrightarrow> k < length ?ps"
    using dp_find_returns[OF assms(3) a(3,1,2), of chk] by auto
  have n: "map lf_name hs = map lf_name (ah_hosts (w_ah w))" using dp_find_names[OF d(1)] by simp
  let ?ah = "(w_ah w)\<lparr>ah_hosts := hs\<rparr>"
  have s: "same_profiles (w_ah w) ?ah" using n by (simp add: same_profiles_def)
  have "profiles_ok ?ah is" by (rule profiles_ok_same[OF p s d(3)]) (use d(2) in \<open>simp add: stores_ok_def\<close>)
  moreover have "auto_of ?ah = auto_of (w_ah w)" by (simp add: auto_of_def)
  ultimately have "world_ok cn N (w\<lparr>w_ah := ?ah, w_ips := is\<rparr>)" using assms(2) by (simp add: world_ok_def)
  with d(1,4) s show ?thesis by (simp add: find_profile_def Let_def quiet_def)
qed

subsection \<open>What a dissection promises\<close>

definition one_ip :: "dissect \<Rightarrow> bool" where
  "one_ip dis \<longleftrightarrow> (d_ip dis = None) \<noteq> (d_ip6 dis = None)"

lemma dis_view:
  assumes "dis_ok cn dis" and "one_ip dis"
  shows "\<exists>y. data_payload dis = Some y \<and> y + len_payload dis \<le> len_pkt dis \<and> len_pkt dis \<le> length (data_pkt dis)
     \<and> (d_ip dis = Some 0 \<and> d_ip6 dis = None \<and> 20 \<le> len_pkt dis \<or> d_ip dis = None \<and> d_ip6 dis = Some 0 \<and> 40 \<le> len_pkt dis)"
  using assms by (fastforce simp: dis_ok_def dissect_ok_def one_ip_def split: option.splits)

lemma dis_headers:
  assumes "dis_ok cn dis"
  shows "d_tcp dis = Some t \<Longrightarrow> t + 20 \<le> length (data_pkt dis) \<and> d_proto dis = IPPROTO_TCP \<and> t + len_l4 dis \<le> len_pkt dis \<and> 20 \<le> len_l4 dis"
    and "d_udp dis = Some u \<Longrightarrow> u + 8 \<le> length (data_pkt dis) \<and> d_proto dis = IPPROTO_UDP \<and> u + 8 \<le> len_pkt dis"
    and "d_icmp dis = Some i \<Longrightarrow> i + 8 \<le> length (data_pkt dis)"
    and "d_tcp dis \<noteq> None \<or> d_udp dis \<noteq> None \<or> d_icmp dis \<noteq> None \<Longrightarrow> one_ip dis"
  using assms by (auto simp: dis_ok_def dissect_ok_def one_ip_def split: option.splits)

lemma payload_of_view:
  assumes "dis_ok cn dis" and "one_ip dis"
  shows "\<exists>y. payload_of dis = Some y \<and> len_payload dis \<le> length y \<and> length y < 2 ^ 64"
  using dis_view[OF assms] assms(1) by (auto simp: payload_of_def dis_ok_def)

lemma ld16_in: "p + 2 \<le> length d \<Longrightarrow> \<exists>v. ld16 d p = Some v"
  by (simp add: ld16_def)

lemma ld32_in: "p + 4 \<le> length d \<Longrightarrow> \<exists>v. ld32 d p = Some v"
  by (simp add: ld32_def)

lemma endpoints_safe:
  assumes "dis_ok cn dis" and "one_ip dis"
  shows "\<exists>r. extract_endpoints (data_pkt dis) (d_ip dis) (d_ip6 dis) (d_tcp dis) (d_udp dis) = Some r"
proof -
  let ?d = "data_pkt dis"
  have port: "\<exists>v. (case d_tcp dis of Some i \<Rightarrow> ld16 ?d (i + k) | None \<Rightarrow> (case d_udp dis of Some i \<Rightarrow> ld16 ?d (i + k) | None \<Rightarrow> Some 0)) = Some v"
    if "k \<le> 2" for k
    using dis_headers(1,2)[OF assms(1)] that ld16_in[of _ ?d] by (auto split: option.split)
  obtain v0 v2 where p: "(case d_tcp dis of Some i \<Rightarrow> ld16 ?d (i + 0) | None \<Rightarrow> (case d_udp dis of Some i \<Rightarrow> ld16 ?d (i + 0) | None \<Rightarrow> Some 0)) = Some v0"
    "(case d_tcp dis of Some i \<Rightarrow> ld16 ?d (i + 2) | None \<Rightarrow> (case d_udp dis of Some i \<Rightarrow> ld16 ?d (i + 2) | None \<Rightarrow> Some 0)) = Some v2"
    using port[of 0] port[of 2] by auto
  from dis_view[OF assms] obtain y where y: "len_pkt dis \<le> length ?d"
     "d_ip dis = Some 0 \<and> d_ip6 dis = None \<and> 20 \<le> len_pkt dis \<or> d_ip dis = None \<and> d_ip6 dis = Some 0 \<and> 40 \<le> len_pkt dis" by blast
  obtain a b where "20 \<le> length ?d \<longrightarrow> ld32 ?d 16 = Some a \<and> ld32 ?d 12 = Some b"
    using ld32_in[of 16 ?d] ld32_in[of 12 ?d] by (cases "20 \<le> length ?d") auto
  with y p show ?thesis by (elim disjE) (simp_all add: extract_endpoints_def Let_def)
qed

lemma setup_direction_safe:
  assumes "dis_ok cn dis" and "one_ip dis"
  shows "returns (\<lambda>dr. addr_ok (dr_ip dr) (dr_ip6 dr)) (setup_direction srv dis rv)"
proof -
  obtain s t where e: "extract_endpoints (data_pkt dis) (d_ip dis) (d_ip6 dis) (d_tcp dis) (d_udp dis) = Some (s, t)"
    using endpoints_safe[OF assms] by auto
  from dis_view[OF assms] obtain y where y: "len_pkt dis \<le> length (data_pkt dis)"
     "d_ip dis = Some 0 \<and> d_ip6 dis = None \<and> 20 \<le> len_pkt dis \<or> d_ip dis = None \<and> d_ip6 dis = Some 0 \<and> 40 \<le> len_pkt dis" by blast
  with e show ?thesis
    by (elim disjE) (auto simp: setup_direction_def Let_def addr_ok_def wp min_def)
qed

subsection \<open>The connection table\<close>

lemma pos_ok_tcp: "pos_ok c p \<Longrightarrow> unat (t_scale (direct_of b p)) < 32"
  by (simp add: pos_ok_def direct_of_def)

lemma put_dirs_sel [simp]:
  "client (put_dirs b p x y) = (if b then y else x)" "server (put_dirs b p x y) = (if b then x else y)"
  by (simp_all add: put_dirs_def)

lemma scale_over_2G [simp]: "t_scale (over_2G q) = t_scale q"
  by (simp add: over_2G_def)

lemma ApplyPos_scale:
  assumes "tcp_ok dis tcp" and "unat (t_scale (client p)) < 32" and "unat (t_scale (server p)) < 32"
    and "\<forall>s. tcp_find_scale_factor (data_pkt dis) tcp = Some s \<longrightarrow> s \<noteq> SCALE_NONE \<longrightarrow> unat s < 32"
    and "ConntrackApplyPos p b dis tcp = Some p'"
  shows "unat (t_scale (client p')) < 32 \<and> unat (t_scale (server p')) < 32"
  using assms(2-5)
  by (cases b; cases "d_ip6 dis")
     (auto simp: ConntrackApplyPos_def Let_def direct_of_def split: bind_splits if_splits)

lemma state_step_fed:
  assumes "tcp_state_step refs t b dis tcp = Some t'"
  shows "\<exists>p. t' = t\<lparr>pos := p\<rparr> \<and> t_scale (client p) = t_scale (client (pos t)) \<and> t_scale (server p) = t_scale (server (pos t))
     \<or> t' = (ConntrackInitTrack refs)\<lparr>pos := p\<rparr> \<and> t_scale (client p) = 0 \<and> t_scale (server p) = 0"
proof -
  have i: "ConntrackReInitTrack refs t = ConntrackInitTrack refs" by (simp add: ConntrackReInitTrack_def Let_def)
  have z: "t_scale (client (pos (ConntrackInitTrack refs))) = 0" "t_scale (server (pos (ConntrackInitTrack refs))) = 0"
    by (simp_all add: ConntrackInitTrack_def positions_null_def position_null_def)
  have s: "t = t\<lparr>pos := pos t\<rparr>" by simp
  show ?thesis
    using assms
    by (auto simp: tcp_state_step_def Let_def i z split: bind_splits if_splits)
       (rule exI[of _ "pos t"], simp)+
qed

definition fresh_track :: "bool \<Rightarrow> ctrack \<Rightarrow> ctrack \<Rightarrow> bool" where
  "fresh_track re t0 t \<longleftrightarrow> (\<exists>refs p s. t = (if re then ConntrackInitTrack refs else t0)\<lparr>pos := p, t_start := s\<rparr>)"

lemma feed_packet_safe:
  assumes dis: "dis_ok cn dis" and sc: "unat (t_scale (client (pos t))) < 32" "unat (t_scale (server (pos t))) < 32"
    and opt: "\<forall>tcp s. d_tcp dis = Some tcp \<longrightarrow> tcp_find_scale_factor (data_pkt dis) tcp = Some s \<longrightarrow> s \<noteq> SCALE_NONE \<longrightarrow> unat s < 32"
  shows "returns (\<lambda>t'. (\<exists>re. fresh_track re t t') \<and> unat (t_scale (client (pos t'))) < 32 \<and> unat (t_scale (server (pos t'))) < 32)
    (ConntrackFeedPacket refs now t b dis)"
proof -
  define p1 where "p1 = (if b then (pos t)\<lparr>server := count_packet (len_payload dis) (server (pos t))\<rparr>
               else (pos t)\<lparr>client := count_packet (len_payload dis) (client (pos t))\<rparr>)"
  define t1 where "t1 = t\<lparr>pos := p1\<rparr>"
  have c1: "t_scale (client (pos t1)) = t_scale (client (pos t))" "t_scale (server (pos t1)) = t_scale (server (pos t))"
    by (simp_all add: t1_def p1_def count_packet_def)
  have U: "ConntrackFeedPacket refs now t b dis = do {
      t \<leftarrow> (case d_tcp dis of None \<Rightarrow> Some t1
          | Some tcp \<Rightarrow> do { t \<leftarrow> tcp_state_step refs t1 b dis tcp; p \<leftarrow> ConntrackApplyPos (pos t) b dis tcp; Some (t\<lparr>pos := p\<rparr>) });
      let t = t\<lparr>pos := (pos t)\<lparr>t_last := now\<rparr>\<rparr>;
      Some (if t_start t = 0 then t\<lparr>t_start := now\<rparr> else t) }"
    unfolding ConntrackFeedPacket_def t1_def p1_def Let_def by (rule refl)
  have fin: "returns (\<lambda>t'. (\<exists>re. fresh_track re t t') \<and> unat (t_scale (client (pos t'))) < 32 \<and> unat (t_scale (server (pos t'))) < 32)
      (let u = u\<lparr>pos := (pos u)\<lparr>t_last := now\<rparr>\<rparr> in Some (if t_start u = 0 then u\<lparr>t_start := now\<rparr> else u))"
    if fr: "fresh_track re t u" and sm: "unat (t_scale (client (pos u))) < 32" "unat (t_scale (server (pos u))) < 32" for re u
  proof -
    obtain refs p s where u: "u = (if re then ConntrackInitTrack refs else t)\<lparr>pos := p, t_start := s\<rparr>" using fr unfolding fresh_track_def by (elim exE) blast
    have "fresh_track re t (u\<lparr>pos := q\<rparr>)" "fresh_track re t (u\<lparr>pos := q, t_start := n\<rparr>)" for q n
      unfolding u fresh_track_def by (rule exI[of _ refs], rule exI[of _ q], rule exI[of _ s], simp,
        rule exI[of _ refs], rule exI[of _ q], rule exI[of _ n], simp)
    then show ?thesis using sm by (auto simp: Let_def)
  qed
  show ?thesis
  proof (cases "d_tcp dis")
    case None
    have "fresh_track False t t1" unfolding fresh_track_def t1_def by (rule exI[of _ refs], rule exI[of _ p1], rule exI[of _ "t_start t"], simp)
    with fin[of False t1] c1 sc show ?thesis unfolding U None by simp
  next
    case (Some tcp)
    obtain n where "dissect_ok n dis" using dis by (auto simp: dis_ok_def)
    then have tok: "tcp_ok dis tcp" using Some by (rule dissect_tcp_ok)
    obtain t2 where t2: "tcp_state_step refs t1 b dis tcp = Some t2" using tcp_state_step_ok[OF tok, of refs t1 b] by blast
    from state_step_fed[OF t2] obtain p2 where
      c: "t2 = t1\<lparr>pos := p2\<rparr> \<and> t_scale (client p2) = t_scale (client (pos t1)) \<and> t_scale (server p2) = t_scale (server (pos t1))
       \<or> t2 = (ConntrackInitTrack refs)\<lparr>pos := p2\<rparr> \<and> t_scale (client p2) = 0 \<and> t_scale (server p2) = 0" by blast
    then have s2: "unat (t_scale (client (pos t2))) < 32" "unat (t_scale (server (pos t2))) < 32" using c1 sc by auto
    then have "unat (t_scale (direct_of b (pos t2))) < 32" by (simp add: direct_of_def)
    then obtain p3 where p3: "ConntrackApplyPos (pos t2) b dis tcp = Some p3"
      using ApplyPos_ok[OF tok, of "pos t2" b] by blast
    have s3: "unat (t_scale (client p3)) < 32 \<and> unat (t_scale (server p3)) < 32"
      using ApplyPos_scale[OF tok s2 _ p3] opt Some by blast
    have "\<exists>re. fresh_track re t (t2\<lparr>pos := p3\<rparr>)"
      using c
    proof
      assume "t2 = t1\<lparr>pos := p2\<rparr> \<and> t_scale (client p2) = t_scale (client (pos t1)) \<and> t_scale (server p2) = t_scale (server (pos t1))"
      then have "t2\<lparr>pos := p3\<rparr> = t\<lparr>pos := p3, t_start := t_start t\<rparr>" by (simp add: t1_def)
      then show ?thesis unfolding fresh_track_def
        by (intro exI[of _ False] exI[of _ refs] exI[of _ p3] exI[of _ "t_start t"]) simp
    next
      assume a: "t2 = (ConntrackInitTrack refs)\<lparr>pos := p2\<rparr> \<and> t_scale (client p2) = 0 \<and> t_scale (server p2) = 0"
      show ?thesis unfolding fresh_track_def
        by (intro exI[of _ True] exI[of _ refs] exI[of _ p3] exI[of _ "t_start (ConntrackInitTrack refs)"]) (simp add: a)
    qed
    then obtain re where "fresh_track re t (t2\<lparr>pos := p3\<rparr>)" ..
    from fin[OF this] s3 show ?thesis unfolding U Some by (simp add: t2 p3)
  qed
qed

lemma fails_init: "fails_ok autos (ConntrackInitTrack refs)"
  by (simp add: fails_ok_def ConntrackInitTrack_def)

lemma init_sel: "reasm_client (ConntrackInitTrack refs) = reasm_null" "delayed (ConntrackInitTrack refs) = []"
  "dp (ConntrackInitTrack refs) = None" "l7proto (ConntrackInitTrack refs) = L7_UNKNOWN"
  "hostname_discovered (ConntrackInitTrack refs) = False"
  by (simp_all add: ConntrackInitTrack_def rawpacket_queue_init_def)

lemma reasm_null_shape: "reasm_shape reasm_null" by (simp add: reasm_shape_def reasm_null_def)

lemma init_track_ok: "pos_ok c p \<Longrightarrow> track_ok cn autos N c ((ConntrackInitTrack refs)\<lparr>pos := p, t_start := s\<rparr>)"
  using fails_init[of autos refs] reasm_null_shape by (simp add: track_ok_def fails_ok_def init_sel queue_ok_def)

lemma pos_track_ok: "track_ok cn autos N c t \<Longrightarrow> pos_ok c p \<Longrightarrow> track_ok cn autos N c (t\<lparr>pos := p, t_start := s\<rparr>)"
  by (simp add: track_ok_def fails_ok_def)

lemma extract_conn_safe:
  assumes "dis_ok cn dis"
  shows "\<exists>ok c. ConntrackExtractConn False dis = Some (ok, c) \<and> (ok \<longrightarrow> one_ip dis \<and> (d_tcp dis \<noteq> None \<or> d_udp dis \<noteq> None)
     \<and> c_l4proto c = (if d_tcp dis \<noteq> None then IPPROTO_TCP else IPPROTO_UDP))"
proof (cases "one_ip dis")
  case True
  let ?d = "data_pkt dis"
  have "\<exists>s p. extract_ports ?d (d_tcp dis) (d_udp dis)
      = Some (if d_tcp dis \<noteq> None then IPPROTO_TCP else if d_udp dis \<noteq> None then IPPROTO_UDP else IPPROTO_NONE, s, p)"
  proof -
    have "\<exists>v. pntoh16 ?d k = Some v \<and> (\<exists>u. pntoh16 ?d (k + 2) = Some u)" if "k + 4 \<le> length ?d" for k
      using that pntoh16_in[of k ?d] pntoh16_in[of "k + 2" ?d] by auto
    note two = this
    show ?thesis
    proof (cases "d_tcp dis")
      case (Some i)
      then obtain v u where "pntoh16 ?d i = Some v" "pntoh16 ?d (i + 2) = Some u" using two[of i] dis_headers(1)[OF assms Some] by auto
      with Some show ?thesis by (simp add: extract_ports_def)
    next
      case n: None
      show ?thesis
      proof (cases "d_udp dis")
        case (Some i)
        then obtain v u where "pntoh16 ?d i = Some v" "pntoh16 ?d (i + 2) = Some u" using two[of i] dis_headers(2)[OF assms Some] by auto
        with n Some show ?thesis by (simp add: extract_ports_def)
      qed (use n in \<open>simp add: extract_ports_def\<close>)
    qed
  qed
  then obtain s p where e: "extract_ports ?d (d_tcp dis) (d_udp dis)
      = Some (if d_tcp dis \<noteq> None then IPPROTO_TCP else if d_udp dis \<noteq> None then IPPROTO_UDP else IPPROTO_NONE, s, p)" by blast
  from dis_view[OF assms True] obtain y where y: "len_pkt dis \<le> length ?d"
     "d_ip dis = Some 0 \<and> d_ip6 dis = None \<and> 20 \<le> len_pkt dis \<or> d_ip dis = None \<and> d_ip6 dis = Some 0 \<and> 40 \<le> len_pkt dis" by blast
  then show ?thesis using True e by (elim disjE) (simp_all add: ConntrackExtractConn_def Let_def)
next
  case False
  obtain n where "dissect_ok n dis" using assms by (auto simp: dis_ok_def)
  then have n: "d_ip dis = None" "d_ip6 dis = None" using False by (auto simp: dissect_ok_def one_ip_def split: option.splits)
  show ?thesis by (intro exI[of _ False]) (simp add: ConntrackExtractConn_def Let_def n)
qed

lemma ipprotos: "IPPROTO_TCP \<noteq> IPPROTO_UDP" "IPPROTO_TCP \<noteq> IPPROTO_NONE"
  by (simp_all add: IPPROTO_TCP_def IPPROTO_UDP_def IPPROTO_NONE_def)

definition tcp_opts_ok :: "dissect \<Rightarrow> bool" where
  "tcp_opts_ok dis \<longleftrightarrow> (\<forall>t s. d_tcp dis = Some t \<longrightarrow> tcp_find_scale_factor (data_pkt dis) t = Some s \<longrightarrow> s \<noteq> SCALE_NONE \<longrightarrow> unat s < 32)"

definition pool_ok :: "bool \<Rightarrow> nat option list \<Rightarrow> nat \<Rightarrow> pool \<Rightarrow> bool" where
  "pool_ok cn autos N pp \<longleftrightarrow> (\<forall>(c, t)\<in>set pp. track_ok cn autos N c t)"

lemma feed_entry_safe:
  assumes dis: "dis_ok cn dis" "tcp_opts_ok dis" and e: "ConntrackExtractConn False dis = Some (True, c0)" "c_l4proto c = c_l4proto c0"
    and t: "hash_find pp c = Some t" "track_ok cn autos N c t \<or> (\<exists>refs. t = ConntrackInitTrack refs)"
  shows "\<exists>t'. feed_entry refs now pp c b dis = Some (hash_set pp c t', Some (c, b)) \<and> track_ok cn autos N c t'"
proof -
  have sc: "unat (t_scale (client (pos t))) < 32" "unat (t_scale (server (pos t))) < 32"
    using t(2) by (auto simp: track_ok_def pos_ok_def ConntrackInitTrack_def positions_null_def position_null_def)
  obtain t1 re where f: "ConntrackFeedPacket refs now t b dis = Some t1" "fresh_track re t t1"
    "unat (t_scale (client (pos t1))) < 32" "unat (t_scale (server (pos t1))) < 32"
    using returns_exists[OF feed_packet_safe[OF dis(1) sc dis(2)[unfolded tcp_opts_ok_def], of refs now b]] by blast
  define proto where "proto = (if d_tcp dis \<noteq> None then IPPROTO_TCP else if d_udp dis \<noteq> None then IPPROTO_UDP else IPPROTO_NONE)"
  define t2 where "t2 = t1\<lparr>pos := (pos t1)\<lparr>ipproto := proto\<rparr>\<rparr>"
  obtain r2 p s where t1: "t1 = (if re then ConntrackInitTrack r2 else t)\<lparr>pos := p, t_start := s\<rparr>"
    using f(2) unfolding fresh_track_def by (elim exE) blast
  have "c_l4proto c = (if d_tcp dis \<noteq> None then IPPROTO_TCP else IPPROTO_UDP)" "d_tcp dis \<noteq> None \<or> d_udp dis \<noteq> None"
    using extract_conn_safe[OF dis(1)] e by auto
  then have p: "pos_ok c ((pos t1)\<lparr>ipproto := proto\<rparr>)" using f(3,4) ipprotos by (auto simp: pos_ok_def proto_def)
  have t2: "t2 = (if re then ConntrackInitTrack r2 else t)\<lparr>pos := (pos t1)\<lparr>ipproto := proto\<rparr>, t_start := s\<rparr>"
    by (simp add: t2_def t1)
  have ok: "track_ok cn autos N c t2"
    unfolding t2 using t(2) init_track_ok[OF p] pos_track_ok[OF _ p] by (cases re) auto
  have "feed_entry refs now pp c b dis = Some (hash_set pp c t2, Some (c, b))"
    using f(1) t(1) by (simp add: feed_entry_def t2_def proto_def Let_def)
  with ok show ?thesis by blast
qed

lemma hash_set_add: "hash_find pp c = None \<Longrightarrow> hash_set (hash_add pp c t) c t' = hash_add pp c t'"
  by (induction pp) (auto simp: hash_add_def split: if_splits)

lemma find_add_same: "hash_find pp c = None \<Longrightarrow> hash_find (hash_add pp c t) c = Some t"
  by (simp add: find_hash_add)

lemma pool_ok_set: "pool_ok cn autos N pp \<Longrightarrow> track_ok cn autos N c t \<Longrightarrow> pool_ok cn autos N (hash_set pp c t)"
  using set_hash_set[of pp c t] by (fastforce simp: pool_ok_def)

lemma pool_ok_add: "pool_ok cn autos N pp \<Longrightarrow> track_ok cn autos N c t \<Longrightarrow> pool_ok cn autos N (hash_add pp c t)"
  by (auto simp: pool_ok_def hash_add_def)

lemma pool_ok_find: "pool_ok cn autos N pp \<Longrightarrow> hash_find pp c = Some t \<Longrightarrow> track_ok cn autos N c t"
  by (auto simp: pool_ok_def dest: hash_find_in)

lemma feed_pool_safe:
  assumes dis: "dis_ok cn dis" "tcp_opts_ok dis" and pp: "pool_ok cn autos N pp"
  shows "returns (\<lambda>(pp', r). pool_ok cn autos N pp' \<and> (\<forall>c b. r = Some (c, b) \<longrightarrow> hash_find pp' c \<noteq> None
     \<and> (\<not> b \<longrightarrow> ConntrackExtractConn False dis = Some (True, c)))) (ConntrackPoolFeedPool alloc refs now pp dis)"
proof -
  obtain ok c where e: "ConntrackExtractConn False dis = Some (ok, c)" using extract_conn_safe[OF dis(1)] by blast
  have sw: "c_l4proto (connswap c) = c_l4proto c" by (simp add: connswap_def)
  show ?thesis
  proof (cases ok)
    case ok: True
    have eT: "ConntrackExtractConn False dis = Some (True, c)" using e ok by simp
    note fe = feed_entry_safe[OF dis eT]
    have old: "returns (\<lambda>(pp', r). pool_ok cn autos N pp' \<and> (\<forall>c' b'. r = Some (c', b') \<longrightarrow> c' = d \<and> b' = b \<and> hash_find pp' c' \<noteq> None))
        (feed_entry refs now pp d b dis)" if h: "hash_find pp d \<noteq> None" and l4: "c_l4proto d = c_l4proto c" for d b
    proof -
      obtain t where t: "hash_find pp d = Some t" using h by blast
      obtain t' where "feed_entry refs now pp d b dis = Some (hash_set pp d t', Some (d, b))" "track_ok cn autos N d t'"
        using fe[OF l4 t, where autos = autos and N = N and refs = refs and now = now and b = b] pool_ok_find[OF pp t] by blast
      then show ?thesis using h pp by (simp add: pool_ok_set find_hash_set)
    qed
    have new: "returns (\<lambda>(pp', r). pool_ok cn autos N pp' \<and> (\<forall>c' b'. r = Some (c', b') \<longrightarrow> c' = d \<and> b' = b \<and> hash_find pp' c' \<noteq> None))
        (case ConntrackNew alloc refs pp d of None \<Rightarrow> Some (pp, None) | Some pp \<Rightarrow> feed_entry refs now pp d b dis)"
      if n: "hash_find pp d = None" and l4: "c_l4proto d = c_l4proto c" for d b
    proof (cases alloc)
      case True
      obtain t' where "feed_entry refs now (hash_add pp d (ConntrackInitTrack refs)) d b dis
           = Some (hash_set (hash_add pp d (ConntrackInitTrack refs)) d t', Some (d, b))" "track_ok cn autos N d t'"
        using fe[OF l4 find_add_same[OF n], where autos = autos and N = N and refs = refs and now = now and b = b] by blast
      then show ?thesis using True n pp by (simp add: ConntrackNew_def hash_set_add pool_ok_add find_add_same)
    qed (simp add: ConntrackNew_def pp)
    have syn: "\<exists>x. (case d_tcp dis of None \<Rightarrow> Some False | Some t \<Rightarrow> tcp_synack_segment (data_pkt dis) t) = Some x"
      "\<exists>x. (case d_tcp dis of None \<Rightarrow> Some False | Some t \<Rightarrow> tcp_syn_segment (data_pkt dis) t) = Some x"
      using dis_headers(1)[OF dis(1)] by (auto simp: tcp_synack_segment_def tcp_syn_segment_def th_flags_def split: option.split)
    then obtain sa sy where syn: "(case d_tcp dis of None \<Rightarrow> Some False | Some t \<Rightarrow> tcp_synack_segment (data_pkt dis) t) = Some sa"
      "(case d_tcp dis of None \<Rightarrow> Some False | Some t \<Rightarrow> tcp_syn_segment (data_pkt dis) t) = Some sy" by blast
    consider "hash_find pp c \<noteq> None" | "hash_find pp c = None" "hash_find pp (connswap c) \<noteq> None"
      | "hash_find pp c = None" "hash_find pp (connswap c) = None" by blast
    then show ?thesis
    proof cases
      case 1
      then show ?thesis using returns_exists[OF old[OF 1 refl, of False]] by (auto simp: ConntrackPoolFeedPool_def e ok)
    next
      case 2
      obtain pp' r where f: "feed_entry refs now pp (connswap c) True dis = Some (pp', r)" "pool_ok cn autos N pp'"
        "\<forall>c' b'. r = Some (c', b') \<longrightarrow> c' = connswap c \<and> b' = True \<and> hash_find pp' c' \<noteq> None"
        using returns_exists[OF old[OF 2(2) sw, of True]] by auto
      have "ConntrackPoolFeedPool alloc refs now pp dis = Some (pp', r)" using 2 f(1) by (simp add: ConntrackPoolFeedPool_def e ok)
      moreover have "b" if "r = Some (d, b)" for d b using f(3) that by blast
      ultimately show ?thesis using f by (cases r) auto
    next
      case 3
      have "returns (\<lambda>(pp', r). pool_ok cn autos N pp' \<and> (\<forall>c' b'. r = Some (c', b') \<longrightarrow> c' = (if sa then connswap c else c) \<and> b' = sa \<and> hash_find pp' c' \<noteq> None))
        (case ConntrackNew alloc refs pp (if sa then connswap c else c) of None \<Rightarrow> Some (pp, None)
         | Some pp \<Rightarrow> feed_entry refs now pp (if sa then connswap c else c) sa dis)"
        using new[of "if sa then connswap c else c" sa] 3 sw by simp
      then obtain pp' r where f: "(case ConntrackNew alloc refs pp (if sa then connswap c else c) of None \<Rightarrow> Some (pp, None)
         | Some pp \<Rightarrow> feed_entry refs now pp (if sa then connswap c else c) sa dis) = Some (pp', r)" "pool_ok cn autos N pp'"
        "\<forall>c' b'. r = Some (c', b') \<longrightarrow> c' = (if sa then connswap c else c) \<and> b' = sa \<and> hash_find pp' c' \<noteq> None"
        by (auto simp: returns_def)
      have g: "ConntrackPoolFeedPool alloc refs now pp dis = (if sy \<or> sa \<or> d_udp dis \<noteq> None then Some (pp', r) else Some (pp, None))"
        using 3 f(1) by (simp add: ConntrackPoolFeedPool_def e ok syn)
      have "ConntrackExtractConn False dis = Some (True, d) \<and> hash_find pp' d \<noteq> None" if "r = Some (d, b)" "\<not> b" for d b
        using f(3)[rule_format, OF that(1)] that(2) by (auto simp: eT)
      moreover have "hash_find pp' d \<noteq> None" if "r = Some (d, b)" for d b using f(3) that by blast
      ultimately show ?thesis using f(2) pp g by (cases r) auto
    qed
  qed (simp add: ConntrackPoolFeedPool_def e pp)
qed

end
