(* ===== verification/PlaySafe.thy ===== *)
theory PlaySafe
  imports WorldOk
begin

text \<open>
  Safety of \<open>play_prolog\<close> and \<open>dp_rediscovery\<close> (theory Play): on a well-formed world they meet no memory fault, keep the world
  well formed, and leave a state of the packet that agrees with its connection.
\<close>

unbundle bit_operations_syntax

subsection \<open>The state of a packet\<close>

text \<open>The connection, if there is one, has the profile and the protocol the packet's state has.\<close>

definition synced :: "play_state \<Rightarrow> ctrack option \<Rightarrow> bool" where
  "synced ps t \<longleftrightarrow> (\<forall>tr. t = Some tr \<longrightarrow> dp tr = ps_dp ps \<and> l7proto tr = ps_l7proto ps)"

definition ps_known :: "play_state \<Rightarrow> bool" where
  "ps_known ps \<longleftrightarrow> (ps_l7payload ps \<noteq> L7P_UNKNOWN \<and> ps_l7payload ps \<noteq> L7P_EMPTY \<or> ps_have_host ps \<longrightarrow> ps_l7proto ps \<noteq> L7_UNKNOWN)"

definition ps_ok :: "bool \<Rightarrow> 'l world \<Rightarrow> play_state \<Rightarrow> bool" where
  "ps_ok cn w ps \<longleftrightarrow> dis_ok cn (ps_dis ps) \<and> one_ip (ps_dis ps) \<and> addr_ok (dr_ip (ps_dir ps)) (dr_ip6 (ps_dir ps))
     \<and> (ps_ctrack ps = None \<or> ps_ctrack ps = ps_replay ps) \<and> (\<exists>t. holds w (ps_replay ps) t \<and> synced ps t) \<and> ps_known ps"

definition ps_live :: "'l world \<Rightarrow> play_state \<Rightarrow> bool" where
  "ps_live w ps \<longleftrightarrow> (\<exists>i. ps_dp ps = Some i \<and> i < length (ah_profiles (w_ah w)))"

definition ps_new :: "dissect \<Rightarrow> play_state \<Rightarrow> bool" where
  "ps_new dis ps \<longleftrightarrow> ps_dis ps = dis \<and> ps_l7payload ps = (if len_payload dis \<noteq> 0 then L7P_UNKNOWN else L7P_EMPTY) \<and> \<not> ps_have_host ps"

lemma ps_new_known: "ps_new dis ps \<Longrightarrow> ps_known ps"
  by (simp add: ps_new_def ps_known_def)

lemma ps_target_ok: "addr_ok (dr_ip (ps_dir ps)) (dr_ip6 (ps_dir ps)) \<Longrightarrow> target_ok (ps_target ps h b)"
  by (simp add: target_ok_def ps_target_def addr_ok_def)

lemma ps_start_safe:
  assumes "dis_ok cn dis" and "one_ip dis"
  shows "\<exists>p. ps_start E dis tpos ifin ifout c cr back backf t = Some p \<and> ps_new dis p \<and> addr_ok (dr_ip (ps_dir p)) (dr_ip6 (ps_dir p))
     \<and> ps_dp p = (case t of None \<Rightarrow> None | Some t \<Rightarrow> dp t) \<and> ps_l7proto p = (case t of None \<Rightarrow> L7_UNKNOWN | Some t \<Rightarrow> l7proto t)
     \<and> ps_ctrack p = c \<and> ps_replay p = cr \<and> ps_rev p = back \<and> ps_rev_fixed p = backf"
  using returns_exists[OF setup_direction_safe[OF assms, of "ae_server (en_ah E)" backf]] by (auto simp: ps_start_def ps_new_def)

text \<open>Setting the profile of a connection that has none yet.\<close>

lemma track_dp_ok:
  assumes "track_ok cn autos N c t" and "dp t = None" and "\<forall>k. r = Some k \<longrightarrow> k < length autos"
  shows "track_ok cn autos N c (t\<lparr>dp := r, dp_search_complete := True\<rparr>)"
  using assms by (auto simp: track_ok_def fails_ok_def)

lemma auto_length: "length (auto_of ah) = length (ah_profiles ah)"
  by (simp add: auto_of_def)

lemma world_ok_pool: "world_ok cn N w = (profiles_ok (w_ah w) (w_ips w) \<and> pool_ok cn (auto_of (w_ah w)) N (ct_pool (w_ct w)))"
  by (simp add: world_ok_def pool_ok_def)

lemma ps_live_quiet: "quiet w w' \<Longrightarrow> ps_live w' ps = ps_live w ps"
  by (simp add: ps_live_def quiet_profiles)

lemma ps_live_set [simp]: "ps_live (set_track r t w) ps = ps_live w ps"
  by (simp add: ps_live_def)

lemma prolog_replay_safe:
  assumes E: "env_good E" and w: "world_ok cn N w" and d: "dis_ok cn dis"
    and e: "ConntrackExtractConn False dis = Some (True, c)" and t: "hash_find (ct_pool (w_ct w)) c = Some t"
  shows "returns (\<lambda>(ps, w'). world_ok cn N w' \<and> (\<exists>t'. holds w' (Some c) (Some t') \<and> delayed t' = delayed t \<and> l7proto t' = l7proto t \<and> reasm_client t' = reasm_client t)
     \<and> (\<forall>p. ps = Some p \<longrightarrow> ps_ok cn w' p \<and> ps_live w' p \<and> ps_new dis p \<and> ps_ctrack p = None \<and> ps_replay p = Some c \<and> \<not> ps_rev p))
    (prolog_replay E dis tpos ifin ifout w)"
proof -
  have ip: "one_ip dis" using extract_conn_safe[OF d] e by auto
  have s: "ConntrackPoolDoubleSearch (w_ct w) dis = Some (Some (c, False))"
    using e t by (simp add: ConntrackPoolDoubleSearch_def ConntrackPoolDoubleSearchPool_def)
  have h: "holds w (Some c) (Some t)" using t by (simp add: holds_iff)
  have tok: "track_ok cn (auto_of (w_ah w)) N c t" using holds_ok[OF w h] by (simp add: tr_ok_def)
  obtain p where p: "ps_start E dis tpos ifin ifout None (Some c) False (ae_server (en_ah E)) (Some t) = Some p" "ps_new dis p"
     "addr_ok (dr_ip (ps_dir p)) (dr_ip6 (ps_dir p))" "ps_dp p = dp t" "ps_l7proto p = l7proto t" "ps_ctrack p = None" "ps_replay p = Some c"
     "\<not> ps_rev p"
    using ps_start_safe[OF d ip, of E tpos ifin ifout None "Some c" False "ae_server (en_ah E)" "Some t"] by auto
  have new: "ps_new dis (p\<lparr>ps_dp := r\<rparr>)" for r using p(2) by (simp add: ps_new_def)
  have okp: "ps_ok cn w' (p\<lparr>ps_dp := r\<rparr>)" if "holds w' (Some c) (Some t')" "dp t' = r" "l7proto t' = l7proto t" for w' t' and r :: "nat option"
    using d ip p that ps_new_known[OF new] new[of r] by (auto simp: ps_ok_def synced_def ps_new_def)
  show ?thesis
  proof (cases "dp t = None \<and> \<not> dp_search_complete t")
    case False
    have l: "ps_live w p" if "dp t \<noteq> None" using tok that p(4) by (auto simp: track_ok_def fails_ok_def ps_live_def auto_length)
    have "p\<lparr>ps_dp := dp t\<rparr> = p" using p(4) by simp
    then have "ps_ok cn w p" using okp[OF h refl refl] by simp
    with l False w h p show ?thesis by (auto simp: prolog_replay_def s t)
  next
    case True
    let ?x = "ps_target p (hostname t) (hostname_is_ip t)"
    have tg: "target_ok ?x" using p(3) by (rule ps_target_ok)
    obtain r chk w1 where f: "find_profile E ?x no_check w = Some (r, chk, w1)" "world_ok cn N w1" "quiet w w1"
      "\<forall>k. r = Some k \<longrightarrow> k < length (ah_profiles (w_ah w))"
      using returns_exists[OF find_profile_safe[OF E w tg, of no_check]] by auto
    let ?t = "t\<lparr>dp := r, dp_search_complete := True\<rparr>" and ?w = "set_track (Some c) (Some (t\<lparr>dp := r, dp_search_complete := True\<rparr>)) w1"
    have h1: "holds w1 (Some c) (Some t)" using h quiet_holds[OF f(3)] by simp
    have "track_ok cn (auto_of (w_ah w1)) N c ?t"
      using track_dp_ok[OF tok _ f(4)[folded auto_length]] True by (simp add: quiet_profiles(2)[OF f(3)])
    then have w2: "world_ok cn N ?w" by (intro world_ok_set f(2)) (simp add: tr_ok_def)
    have h2: "holds ?w (Some c) (Some ?t)" by (rule holds_set[OF h1]) simp
    have "ps_live ?w (p\<lparr>ps_dp := r\<rparr>)" if "r \<noteq> None" using f(4) that by (auto simp: ps_live_def quiet_profiles(1)[OF f(3)])
    with True w2 h2 okp[OF h2] new[of r] f(1) p show ?thesis
      by (cases r) (auto simp: prolog_replay_def s t)
  qed
qed

subsection \<open>The prolog for packets of the network\<close>

text \<open>What the search for a profile and the hop counts change of a connection.\<close>

lemma track_host_dp_ok:
  assumes "track_ok cn autos N c t" and "dp t = None" and "hostname t \<noteq> None \<longrightarrow> h = hostname t" and "\<forall>k. r = Some k \<longrightarrow> k < length autos"
  shows "track_ok cn autos N c (t\<lparr>hostname := h, dp := r, dp_search_complete := True\<rparr>)"
  using assms by (auto simp: track_ok_def fails_ok_def)

lemma track_ttl_ok: "track_ok cn autos N c (t\<lparr>incoming_ttl := n\<rparr>) = track_ok cn autos N c t"
  by (simp add: track_ok_def fails_ok_def)

definition hops :: "ctrack option \<Rightarrow> ctrack option \<Rightarrow> bool" where
  "hops t t' \<longleftrightarrow> t' = t \<or> (\<exists>tr n. t = Some tr \<and> t' = Some (tr\<lparr>incoming_ttl := n\<rparr>))"

lemma hops_refl [simp]: "hops t t"
  by (simp add: hops_def)

lemma hops_update: "hops t (snd (ipcache_update_ttl srv alloc now ipc t a4 a6 iface))"
  by (auto simp: ipcache_update_ttl_def hops_def split: option.splits prod.split)

lemma hops_get: "hops t (ipcache_get_ttl srv ipc t a4 a6 iface)"
  by (auto simp: ipcache_get_ttl_def hops_def split: option.splits)

lemma hops_trans: "hops a b \<Longrightarrow> hops b c \<Longrightarrow> hops a c"
  by (fastforce simp: hops_def)

lemma hops_some: "hops t t' \<Longrightarrow> (t = None) = (t' = None)"
  by (auto simp: hops_def)

lemma hops_ok: "hops t t' \<Longrightarrow> tr_ok cn N w r t \<Longrightarrow> tr_ok cn N w r t'"
  by (auto simp: hops_def tr_ok_def track_ttl_ok)

lemma hops_synced: "hops t t' \<Longrightarrow> synced ps t \<Longrightarrow> synced ps t'"
  by (auto simp: hops_def synced_def)

lemma prolog_host_view:
  assumes "prolog_host E ps t ipc = (host, is_ip, buf, t')"
  shows "case t of None \<Rightarrow> t' = None | Some tr \<Rightarrow> \<exists>h. t' = Some (tr\<lparr>hostname := h\<rparr>) \<and> (hostname tr \<noteq> None \<longrightarrow> h = hostname tr)"
proof (cases t)
  case (Some tr)
  have s: "tr\<lparr>hostname := hostname tr\<rparr> = tr" by simp
  show ?thesis
  proof (cases "hostname tr = None \<and> \<not> ps_rev ps")
    case True
    obtain f h g where g: "ipcache_get_hostname (en_cache_hostname E) ipc (dr_ip (ps_dir ps)) (dr_ip6 (ps_dir ps)) 256 = (f, h, g)"
      by (cases "ipcache_get_hostname (en_cache_hostname E) ipc (dr_ip (ps_dir ps)) (dr_ip6 (ps_dir ps)) 256")
    have "t' = Some (tr\<lparr>hostname := Some h\<rparr>) \<or> t' = Some tr"
      using assms by (simp only: prolog_host_def Some option.case True HOL.simp_thms if_True g prod.case Let_def split: if_splits) auto
    then have "t' = Some (tr\<lparr>hostname := Some h\<rparr>) \<or> t' = Some (tr\<lparr>hostname := hostname tr\<rparr>)" by (simp only: s)
    then show ?thesis using True by (elim disjE) (simp_all only: Some option.case, blast+)
  next
    case False
    then have "t' = Some (tr\<lparr>hostname := hostname tr\<rparr>)" using assms by (auto simp: prolog_host_def Some s split: if_splits)
    then show ?thesis by (simp only: Some option.case) blast
  qed
qed (use assms in \<open>simp add: prolog_host_def\<close>)

lemma ps_cong [simp]:
  "ps_new dis (ps\<lparr>ps_host := b\<rparr>) = ps_new dis ps" "ps_new dis (ps\<lparr>ps_dp := r\<rparr>) = ps_new dis ps"
  by (simp_all add: ps_new_def)

text \<open>A packet of the network: the state is new, its connection is the current one, and a client's packet has its key.\<close>

definition ps_real :: "dissect \<Rightarrow> play_state \<Rightarrow> bool" where
  "ps_real dis ps \<longleftrightarrow> ps_new dis ps \<and> ps_replay ps = ps_ctrack ps
     \<and> (\<not> ps_rev ps \<longrightarrow> (\<forall>c. ps_ctrack ps = Some c \<longrightarrow> ConntrackExtractConn False dis = Some (True, c)))"

lemma live_of_track:
  assumes "tr_ok cn N w r (Some tr)" and "r = Some c" and "dp tr = ps_dp ps" and "ps_dp ps \<noteq> None"
  shows "ps_live w ps"
  using assms by (auto simp: tr_ok_def track_ok_def fails_ok_def ps_live_def auto_length)

lemma prolog_profile_safe:
  assumes E: "env_good E" and w: "world_ok cn N w" and ps: "ps_ok cn w ps" "ps_real dis ps"
    and n0: "ps_ctrack ps = None \<longrightarrow> ps_dp ps = None"
  shows "returns (\<lambda>(ps', w'). world_ok cn N w' \<and> ps_ok cn w' ps' \<and> ps_real dis ps' \<and> (ps_dp ps' \<noteq> None \<longrightarrow> ps_live w' ps'))
    (prolog_profile E ps w)"
proof -
  obtain t where h: "holds w (ps_ctrack ps) t" and s: "synced ps t" using ps by (auto simp: ps_ok_def ps_real_def)
  have g: "get_track w (ps_ctrack ps) = Some t" using h by (simp add: holds_def)
  have tok: "tr_ok cn N w (ps_ctrack ps) t" by (rule holds_ok[OF w h])
  show ?thesis
  proof (cases "ps_dp ps \<noteq> None \<or> (case t of None \<Rightarrow> False | Some t \<Rightarrow> dp_search_complete t)")
    case True
    have "ps_live w ps" if d: "ps_dp ps \<noteq> None"
    proof -
      obtain c where c: "ps_ctrack ps = Some c" using n0 d by auto
      then obtain tr where tr: "t = Some tr" using h by (auto simp: holds_iff)
      show ?thesis using live_of_track[OF tok[unfolded tr] c _ d] s tr by (simp add: synced_def)
    qed
    with True w ps show ?thesis by (auto simp: prolog_profile_def g)
  next
    case False
    then have n: "ps_dp ps = None" by simp
    obtain host is_ip buf t1 where ph: "prolog_host E ps t (w_ipc w) = (host, is_ip, buf, t1)" by (cases "prolog_host E ps t (w_ipc w)")
    note v = prolog_host_view[OF ph]
    let ?p = "ps\<lparr>ps_host := buf\<rparr>"
    have a: "addr_ok (dr_ip (ps_dir ?p)) (dr_ip6 (ps_dir ?p))" using ps(1) by (simp add: ps_ok_def)
    note fp = find_profile_safe[OF E w ps_target_ok[OF a], where chk = no_check]
    obtain r chk w1 where f: "find_profile E (ps_target ?p host is_ip) no_check w = Some (r, chk, w1)" "world_ok cn N w1" "quiet w w1"
      "\<forall>k. r = Some k \<longrightarrow> k < length (ah_profiles (w_ah w))"
      using returns_exists[OF fp[of host is_ip]] by auto
    let ?t = "map_option (\<lambda>t. t\<lparr>dp := r, dp_search_complete := True\<rparr>) t1" and ?q = "?p\<lparr>ps_dp := r\<rparr>"
    have h1: "holds w1 (ps_ctrack ps) t" using h quiet_holds[OF f(3)] by simp
    have n1: "(t = None) = (?t = None)" using v by (auto split: option.splits)
    have "tr_ok cn N w1 (ps_ctrack ps) ?t"
    proof (cases t)
      case (Some tr)
      with v obtain hh where "t1 = Some (tr\<lparr>hostname := hh\<rparr>)" "hostname tr \<noteq> None \<longrightarrow> hh = hostname tr" by auto
      moreover have "dp tr = None" using s n Some by (simp add: synced_def)
      ultimately show ?thesis using track_host_dp_ok[of cn "auto_of (w_ah w)" N _ tr hh r] tok Some f(4)[folded auto_length]
        by (simp add: tr_ok_def quiet_profiles(2)[OF f(3)])
    qed (use v in \<open>simp add: tr_ok_def\<close>)
    then have w2: "world_ok cn N (set_track (ps_ctrack ps) ?t w1)" by (rule world_ok_set[OF f(2)])
    have h2: "holds (set_track (ps_ctrack ps) ?t w1) (ps_ctrack ps) ?t" by (rule holds_set[OF h1 n1])
    have "synced ?q ?t" using s v by (cases t) (auto simp: synced_def)
    then have "ps_ok cn (set_track (ps_ctrack ps) ?t w1) ?q" using ps h2 by (auto simp: ps_ok_def ps_real_def ps_known_def)
    moreover have "ps_live (set_track (ps_ctrack ps) ?t w1) ?q" if "r \<noteq> None"
      using f(4) that by (auto simp: ps_live_def quiet_profiles(1)[OF f(3)])
    ultimately show ?thesis using False w2 f(1) ps(2) by (simp add: prolog_profile_def g ph Let_def ps_real_def)
  qed
qed

lemma pool_ok_sub: "pool_ok cn autos N pp \<Longrightarrow> set qq \<subseteq> set pp \<Longrightarrow> pool_ok cn autos N qq"
  by (auto simp: pool_ok_def)

lemma purge_sub: "set (ct_pool (ConntrackPoolPurge now p)) \<subseteq> set (ct_pool p)"
  by (auto simp: ConntrackPoolPurge_def purge_iter_filter)

lemma prolog_track_safe:
  assumes w: "world_ok cn N w" and d: "dis_ok cn dis" "tcp_opts_ok dis"
  shows "returns (\<lambda>(w', r). world_ok cn N w' \<and> (\<forall>c b. r = Some (c, b) \<longrightarrow> hash_find (ct_pool (w_ct w')) c \<noteq> None
     \<and> (\<not> b \<longrightarrow> ConntrackExtractConn False dis = Some (True, c)))) (prolog_track E dis w)"
proof (cases "en_ctrack_disable E")
  case False
  let ?p = "ConntrackPoolPurge (en_now E) (w_ct w)" and ?a = "auto_of (w_ah w)"
  have "pool_ok cn ?a N (ct_pool ?p)" using w pool_ok_sub[OF _ purge_sub] by (auto simp: world_ok_pool)
  from returns_exists[OF feed_pool_safe[OF d this, of "ae_alloc (en_ah E)" "en_refs E" "en_now E"]]
  obtain pp r where f: "ConntrackPoolFeedPool (ae_alloc (en_ah E)) (en_refs E) (en_now E) (ct_pool ?p) dis = Some (pp, r)"
    "pool_ok cn ?a N pp" "\<forall>c b. r = Some (c, b) \<longrightarrow> hash_find pp c \<noteq> None \<and> (\<not> b \<longrightarrow> ConntrackExtractConn False dis = Some (True, c))"
    by auto
  with w False show ?thesis by (simp add: prolog_track_def ConntrackPoolFeed_def world_ok_pool)
qed (simp add: prolog_track_def w)

lemma quiet_world: "world_ok cn N w \<Longrightarrow> same_profiles (w_ah w) ah \<Longrightarrow> world_ok cn N (w\<lparr>w_ah := ah\<rparr>) \<and> quiet w (w\<lparr>w_ah := ah\<rparr>)"
  by (simp add: world_ok_ah(1) quiet_ah)

lemma quiet_ps_ok: "quiet w w' \<Longrightarrow> ps_ok cn w' ps = ps_ok cn w ps"
  by (simp add: ps_ok_def quiet_holds)

lemma prolog_purge_safe:
  assumes w: "world_ok cn N w" and i: "i < length (ah_profiles (w_ah w))"
  shows "returns (\<lambda>w'. world_ok cn N w' \<and> quiet w w') (prolog_purge E i w)"
proof -
  obtain pp pr where f: "HostFailPoolPurgeRateLimited (ae_now (en_ah E)) (fail_counters (ah_profiles (w_ah w) ! i)) (last_purge (ah_profiles (w_ah w) ! i)) = (pp, pr)"
    by (cases "HostFailPoolPurgeRateLimited (ae_now (en_ah E)) (fail_counters (ah_profiles (w_ah w) ! i)) (last_purge (ah_profiles (w_ah w) ! i))")
  have "same_profiles (w_ah w) ((w_ah w)\<lparr>ah_profiles := (ah_profiles (w_ah w))[i := (ah_profiles (w_ah w) ! i)\<lparr>fail_counters := pp, last_purge := pr\<rparr>]\<rparr>)"
    by (rule same_put[OF i]) simp
  from quiet_world[OF w this] show ?thesis using i f by (simp add: prolog_purge_def)
qed

lemma ps_ok_set:
  assumes "ps_ok cn w ps" and "holds w (ps_replay ps) t" and "synced ps t'" and "(t = None) = (t' = None)"
  shows "ps_ok cn (set_track (ps_replay ps) t' w) ps"
  using assms holds_set[OF assms(2,4)] by (auto simp: ps_ok_def)

lemma ps_ok_ipc [simp]: "ps_ok cn (w\<lparr>w_ipc := x\<rparr>) ps = ps_ok cn w ps" "ps_ok cn (sends gs w) ps = ps_ok cn w ps"
  by (simp_all add: ps_ok_def)

lemma ps_live_ipc [simp]: "ps_live (w\<lparr>w_ipc := x\<rparr>) ps = ps_live w ps" "ps_live (sends gs w) ps = ps_live w ps"
  by (simp_all add: ps_live_def)

lemma ttl46_safe:
  assumes "dis_ok cn dis" and "one_ip dis"
  shows "\<exists>n. ttl46 (data_pkt dis) (d_ip dis) (d_ip6 dis) = Some n"
proof -
  from dis_view[OF assms] have "d_ip dis = Some 0 \<and> 20 \<le> length (data_pkt dis) \<or> d_ip dis = None \<and> d_ip6 dis = Some 0 \<and> 40 \<le> length (data_pkt dis)"
    by auto
  then show ?thesis by (auto simp: ttl46_def rd_def)
qed

lemma prolog_ttl_safe:
  assumes w: "world_ok cn N w" and ps: "ps_ok cn w ps" "ps_replay ps = ps_ctrack ps"
  shows "returns (\<lambda>w'. world_ok cn N w' \<and> ps_ok cn w' ps \<and> ps_live w' ps = ps_live w ps) (prolog_ttl E ps ifin ifout w)"
proof -
  obtain t where h: "holds w (ps_ctrack ps) t" and s: "synced ps t" using ps by (auto simp: ps_ok_def)
  have g: "get_track w (ps_ctrack ps) = Some t" using h by (simp add: holds_def)
  have step: "world_ok cn N (set_track (ps_ctrack ps) t' v) \<and> ps_ok cn (set_track (ps_ctrack ps) t' v) ps"
    if hp: "hops t t'" and v: "v = w\<lparr>w_ipc := x\<rparr>" for t' v x
  proof -
    have "tr_ok cn N v (ps_ctrack ps) t'" using hops_ok[OF hp holds_ok[OF w h]] v by simp
    then have "world_ok cn N (set_track (ps_ctrack ps) t' v)" using w v by (intro world_ok_set) simp_all
    moreover have "ps_ok cn (set_track (ps_ctrack ps) t' v) ps"
      using ps_ok_set[of cn v ps t t'] ps h hops_synced[OF hp s] hops_some[OF hp] v by simp
    ultimately show ?thesis ..
  qed
  show ?thesis
  proof (cases "ps_rev_fixed ps")
    case True
    obtain n where n: "ttl46 (data_pkt (ps_dis ps)) (d_ip (ps_dis ps)) (d_ip6 (ps_dis ps)) = Some n"
      using ttl46_safe ps(1) by (auto simp: ps_ok_def)
    have "\<exists>t1. (case t of None \<Rightarrow> Some None
         | Some tr \<Rightarrow> if incoming_ttl tr = 0
             then map_option (\<lambda>n. Some (tr\<lparr>incoming_ttl := n\<rparr>)) (ttl46 (data_pkt (ps_dis ps)) (d_ip (ps_dis ps)) (d_ip6 (ps_dis ps)))
             else Some (Some tr)) = Some t1 \<and> hops t t1"
      by (cases t) (auto simp: n hops_def)
    then obtain t1 where t1: "(case t of None \<Rightarrow> Some None
         | Some tr \<Rightarrow> if incoming_ttl tr = 0
             then map_option (\<lambda>n. Some (tr\<lparr>incoming_ttl := n\<rparr>)) (ttl46 (data_pkt (ps_dis ps)) (d_ip (ps_dis ps)) (d_ip6 (ps_dis ps)))
             else Some (Some tr)) = Some t1" "hops t t1" by blast
    obtain ipc t2 where u: "ipcache_update_ttl (ae_server (en_ah E)) (ae_alloc (en_ah E)) (en_now E) (w_ipc w) t1
             (dr_ip (ps_dir ps)) (dr_ip6 (ps_dir ps)) (Some ifin) = (ipc, t2)"
      by (cases "ipcache_update_ttl (ae_server (en_ah E)) (ae_alloc (en_ah E)) (en_now E) (w_ipc w) t1
             (dr_ip (ps_dir ps)) (dr_ip6 (ps_dir ps)) (Some ifin)")
    have "hops t t2" using hops_update[of t1 "ae_server (en_ah E)" "ae_alloc (en_ah E)" "en_now E" "w_ipc w" "dr_ip (ps_dir ps)" "dr_ip6 (ps_dir ps)" "Some ifin"]
        u hops_trans[OF t1(2)] by simp
    from step[OF this refl, of ipc] True show ?thesis by (simp add: prolog_ttl_def g t1 u Let_def)
  next
    case False
    show ?thesis using step[OF hops_get[of t "ae_server (en_ah E)" "w_ipc w" "dr_ip (ps_dir ps)" "dr_ip6 (ps_dir ps)" "Some ifout"], of w "w_ipc w"] False
      by (simp add: prolog_ttl_def g)
  qed
qed

lemma prolog_real_safe:
  assumes E: "env_good E" and w: "world_ok cn N w" and d: "dis_ok cn dis" "tcp_opts_ok dis" "one_ip dis"
  shows "returns (\<lambda>(ps, w'). world_ok cn N w' \<and> (\<forall>p. ps = Some p \<longrightarrow> ps_ok cn w' p \<and> ps_live w' p \<and> ps_real dis p))
    (prolog_real E dis tpos ifin ifout w)"
proof -
  obtain w1 r where f: "prolog_track E dis w = Some (w1, r)" "world_ok cn N w1"
    "\<forall>c b. r = Some (c, b) \<longrightarrow> hash_find (ct_pool (w_ct w1)) c \<noteq> None \<and> (\<not> b \<longrightarrow> ConntrackExtractConn False dis = Some (True, c))"
    using returns_exists[OF prolog_track_safe[OF w d(1,2), of E]] by auto
  define c where "c = map_option fst r"
  define bk where "bk = (case r of Some (c, back) \<Rightarrow> back | None \<Rightarrow> ifin \<noteq> [] \<and> ifout = [])"
  define bkf where "bkf = (case r of Some (c, back) \<Rightarrow> back \<noteq> ae_server (en_ah E) | None \<Rightarrow> ifin \<noteq> [] \<and> ifout = [])"
  have "\<exists>t. get_track w1 c = Some t" using f(3) by (cases r) (auto simp: c_def get_track_def)
  then obtain t where t: "get_track w1 c = Some t" ..
  have h: "holds w1 c t" using t by (simp add: holds_def)
  obtain p where p: "ps_start E dis tpos ifin ifout c c bk bkf t = Some p" "ps_new dis p" "addr_ok (dr_ip (ps_dir p)) (dr_ip6 (ps_dir p))"
    "ps_dp p = (case t of None \<Rightarrow> None | Some t \<Rightarrow> dp t)" "ps_l7proto p = (case t of None \<Rightarrow> L7_UNKNOWN | Some t \<Rightarrow> l7proto t)"
    "ps_ctrack p = c" "ps_replay p = c" "ps_rev p = bk" "ps_rev_fixed p = bkf"
    using ps_start_safe[OF d(1,3), of E tpos ifin ifout c c bk bkf t] by blast
  have s: "synced p t" using p by (auto simp: synced_def)
  have ok: "ps_ok cn w1 p" using d p h s ps_new_known[OF p(2)] by (auto simp: ps_ok_def ps_new_def)
  have "\<not> bk \<Longrightarrow> c = Some c' \<Longrightarrow> ConntrackExtractConn False dis = Some (True, c')" for c'
    using f(3) by (cases r) (auto simp: c_def bk_def)
  then have re: "ps_real dis p" using p by (auto simp: ps_real_def)
  have "ps_ctrack p = None \<longrightarrow> ps_dp p = None" using p(4,6) h by (auto simp: holds_iff)
  from returns_exists[OF prolog_profile_safe[OF E f(2) ok re this]] obtain q w2 where q: "prolog_profile E p w1 = Some (q, w2)"
    "world_ok cn N w2" "ps_ok cn w2 q" "ps_real dis q" "ps_dp q \<noteq> None \<longrightarrow> ps_live w2 q" by auto
  have U: "prolog_real E dis tpos ifin ifout w = (case ps_dp q of None \<Rightarrow> Some (None, w2)
     | Some i \<Rightarrow> do { w \<leftarrow> prolog_purge E i w2; w \<leftarrow> prolog_ttl E q ifin ifout w; Some (Some q, w) })"
    using t p(1) q(1) by (cases r) (auto simp: prolog_real_def f(1) c_def bk_def bkf_def)
  show ?thesis
  proof (cases "ps_dp q")
    case (Some i)
    have i: "i < length (ah_profiles (w_ah w2))" using q(5) Some by (simp add: ps_live_def)
    obtain w3 where w3: "prolog_purge E i w2 = Some w3" "world_ok cn N w3" "quiet w2 w3" using returns_exists[OF prolog_purge_safe[OF q(2) i]] by blast
    have "ps_ok cn w3 q" "ps_live w3 q" "ps_replay q = ps_ctrack q" using q Some w3 by (simp_all add: quiet_ps_ok ps_live_quiet ps_real_def)
    then obtain w4 where "prolog_ttl E q ifin ifout w3 = Some w4" "world_ok cn N w4" "ps_ok cn w4 q" "ps_live w4 q"
      using returns_exists[OF prolog_ttl_safe[OF w3(2), of q E ifin ifout]] by blast
    then show ?thesis using Some w3(1) q(4) by (simp add: U)
  qed (use q in \<open>simp add: U\<close>)
qed

subsection \<open>What stays of the connection that is held\<close>

text \<open>The queue and, once there, a known protocol and a reassembly.\<close>

definition keeps :: "ctrack option \<Rightarrow> ctrack option \<Rightarrow> bool" where
  "keeps t t' \<longleftrightarrow> (case (t, t') of
      (None, None) \<Rightarrow> True
    | (Some a, Some b) \<Rightarrow> delayed b = delayed a \<and> (l7proto a \<noteq> L7_UNKNOWN \<longrightarrow> l7proto b \<noteq> L7_UNKNOWN)
        \<and> (ReasmIsEmpty (reasm_client b) \<longrightarrow> ReasmIsEmpty (reasm_client a))
    | _ \<Rightarrow> False)"

definition stays :: "conn option \<Rightarrow> 'l world \<Rightarrow> 'l world \<Rightarrow> bool" where
  "stays r w w' \<longleftrightarrow> (\<forall>t. holds w r t \<longrightarrow> (\<exists>t'. holds w' r t' \<and> keeps t t'))"

lemma kept_refl [simp]: "keeps t t"
  by (simp add: keeps_def split: option.split)

lemma kept_trans: "keeps a b \<Longrightarrow> keeps b c \<Longrightarrow> keeps a c"
  by (auto simp: keeps_def split: option.splits)

lemma keeps_some: "keeps t t' \<Longrightarrow> (t = None) = (t' = None)"
  by (auto simp: keeps_def split: option.splits)

lemma stays_refl [simp]: "stays r w w"
  by (auto simp: stays_def intro: kept_refl)

lemma stays_trans: "stays r a b \<Longrightarrow> stays r b c \<Longrightarrow> stays r a c"
  unfolding stays_def by (blast intro: kept_trans)

lemma quiet_stays: "quiet w w' \<Longrightarrow> stays r w w'"
  unfolding stays_def using quiet_holds kept_refl by blast

lemma holds_unique: "holds w r t \<Longrightarrow> holds w r t' \<Longrightarrow> t' = t"
  by (simp add: holds_def)

lemma stays_set: "holds w r t \<Longrightarrow> keeps t t' \<Longrightarrow> stays r w (set_track r t' w)"
  unfolding stays_def by (metis holds_set keeps_some holds_unique)

lemma stays_cong [simp]:
  "stays r (w\<lparr>w_ipc := x\<rparr>) w' = stays r w w'" "stays r w (w'\<lparr>w_ipc := x\<rparr>) = stays r w w'" "stays r w (sends gs w') = stays r w w'"
  by (simp_all add: stays_def)

text \<open>What a connection can have changed without more to show than its fail counters.\<close>

definition core :: "ctrack \<Rightarrow> ctrack \<Rightarrow> bool" where
  "core a b \<longleftrightarrow> reasm_client b = reasm_client a \<and> delayed b = delayed a \<and> pos b = pos a \<and> l7proto b = l7proto a"

lemma core_refl [simp]: "core a a" by (simp add: core_def)

lemma core_trans: "core a b \<Longrightarrow> core b c \<Longrightarrow> core a c" by (simp add: core_def)

lemma core_ok:
  "track_ok cn autos N c a \<Longrightarrow> core a b \<Longrightarrow> fails_ok autos b \<Longrightarrow> (hostname_discovered b \<longrightarrow> hostname b \<noteq> None) \<Longrightarrow> track_ok cn autos N c b"
  by (simp add: track_ok_def core_def)

lemma core_keeps: "core a b \<Longrightarrow> keeps (Some a) (Some b)"
  by (simp add: keeps_def core_def)

lemma counters_ok:
  assumes "track_ok cn autos N c a" and "counters_only a b"
  shows "track_ok cn autos N c b"
proof (rule core_ok[OF assms(1)])
  note s = counters_same[OF assms(2)]
  show "core a b" by (simp add: core_def s)
  show "fails_ok autos b" using assms(1) by (simp add: track_ok_def fails_ok_def s)
  show "hostname_discovered b \<longrightarrow> hostname b \<noteq> None" using assms(1) by (simp add: track_ok_def s)
qed

lemma counted_ok: "tr_ok cn N w r t \<Longrightarrow> counted t t' \<Longrightarrow> tr_ok cn N w r t'"
  by (cases t; cases t') (auto simp: tr_ok_def intro: counters_ok)

lemma counted_keeps: "counted t t' \<Longrightarrow> keeps t t'"
  by (cases t; cases t') (auto simp: keeps_def counters_same counted_def)

lemma counted_synced: "counted t t' \<Longrightarrow> synced ps t \<Longrightarrow> synced ps t'"
  by (cases t; cases t') (auto simp: synced_def counters_same)

text \<open>A step that replaces the connection held.\<close>

lemma put_step:
  assumes "world_ok cn N w" and "holds w r t" and "tr_ok cn N w r t'" and "keeps t t'"
  shows "world_ok cn N (set_track r t' w) \<and> holds (set_track r t' w) r t' \<and> stays r w (set_track r t' w)"
  using world_ok_set[OF assms(1,3)] holds_set[OF assms(2) keeps_some[OF assms(4)]] stays_set[OF assms(2,4)] by blast

subsection \<open>The second look at the profile\<close>

lemma discover_l7_view:
  "discover_l7 ps None = (b, t') \<Longrightarrow> t' = None"
  "discover_l7 ps (Some tr) = (b, t') \<Longrightarrow> t' = Some (tr\<lparr>l7proto_discovered := l7proto_discovered tr \<or> l7proto tr \<noteq> L7_UNKNOWN\<rparr>)
     \<and> b = (\<not> l7proto_discovered tr \<and> l7proto tr \<noteq> L7_UNKNOWN)"
proof -
  have s: "tr\<lparr>l7proto_discovered := l7proto_discovered tr\<rparr> = tr" by simp
  show "discover_l7 ps None = (b, t') \<Longrightarrow> t' = None" by (simp add: discover_l7_def)
  show "discover_l7 ps (Some tr) = (b, t') \<Longrightarrow> t' = Some (tr\<lparr>l7proto_discovered := l7proto_discovered tr \<or> l7proto tr \<noteq> L7_UNKNOWN\<rparr>)
     \<and> b = (\<not> l7proto_discovered tr \<and> l7proto tr \<noteq> L7_UNKNOWN)"
    using s by (cases "l7proto_discovered tr"; cases "l7proto tr = L7_UNKNOWN") (auto simp: discover_l7_def)
qed

lemma discover_host_view:
  "discover_host E ps is_ip None ipc = (ok, found, t', ipc') \<Longrightarrow> t' = None \<and> ok \<and> found = ps_have_host ps"
  "discover_host E ps is_ip (Some tr) ipc = (ok, found, t', ipc') \<Longrightarrow> found = (ps_have_host ps \<and> \<not> hostname_discovered tr)
     \<and> (\<exists>h i d. t' = Some (tr\<lparr>hostname := h, hostname_is_ip := i, hostname_discovered := d\<rparr>) \<and> (found \<longrightarrow> d \<longrightarrow> h \<noteq> None)
        \<and> (\<not> found \<longrightarrow> h = hostname tr \<and> d = hostname_discovered tr) \<and> (found \<and> ok \<longrightarrow> d))"
proof -
  show "discover_host E ps is_ip None ipc = (ok, found, t', ipc') \<Longrightarrow> t' = None \<and> ok \<and> found = ps_have_host ps"
    by (simp add: discover_host_def Let_def)
  have s: "tr = tr\<lparr>hostname := hostname tr, hostname_is_ip := hostname_is_ip tr, hostname_discovered := hostname_discovered tr\<rparr>"
    "tr\<lparr>hostname := h, hostname_is_ip := i\<rparr> = tr\<lparr>hostname := h, hostname_is_ip := i, hostname_discovered := hostname_discovered tr\<rparr>" for h i by simp_all
  assume a: "discover_host E ps is_ip (Some tr) ipc = (ok, found, t', ipc')"
  show "found = (ps_have_host ps \<and> \<not> hostname_discovered tr)
     \<and> (\<exists>h i d. t' = Some (tr\<lparr>hostname := h, hostname_is_ip := i, hostname_discovered := d\<rparr>) \<and> (found \<longrightarrow> d \<longrightarrow> h \<noteq> None)
        \<and> (\<not> found \<longrightarrow> h = hostname tr \<and> d = hostname_discovered tr) \<and> (found \<and> ok \<longrightarrow> d))"
  proof (cases "ps_have_host ps \<and> \<not> hostname_discovered tr")
    case False
    then have "t' = Some tr" "\<not> found" using a by (auto simp: discover_host_def Let_def)
    with False show ?thesis by (intro conjI exI[of _ "hostname tr"] exI[of _ "hostname_is_ip tr"] exI[of _ "hostname_discovered tr"]) auto
  next
    case f: True
    show ?thesis
    proof (cases "ae_alloc (en_ah E)")
      case False
      then have "t' = Some (tr\<lparr>hostname := None, hostname_is_ip := is_ip\<rparr>)" "found" "\<not> ok" using a f by (auto simp: discover_host_def Let_def)
      with f show ?thesis by (intro conjI exI[of _ None] exI[of _ is_ip] exI[of _ "hostname_discovered tr"]) auto
    next
      case True
      then have "t' = Some (tr\<lparr>hostname := Some (ps_host ps), hostname_is_ip := is_ip, hostname_discovered := True\<rparr>)" "found"
        using a f by (auto simp: discover_host_def Let_def split: prod.splits)
      with f show ?thesis by (intro conjI exI[of _ "Some (ps_host ps)"] exI[of _ is_ip] exI[of _ True]) auto
    qed
  qed
qed

text \<open>The connection after the two discoveries.\<close>

definition settled :: "play_state \<Rightarrow> bool \<Rightarrow> ctrack option \<Rightarrow> bool" where
  "settled ps new t \<longleftrightarrow> (\<forall>tr. t = Some tr \<longrightarrow> (new \<longrightarrow> \<not> hostname_ah_check tr) \<and> (l7proto tr \<noteq> L7_UNKNOWN \<longrightarrow> l7proto_discovered tr)
     \<and> (ps_have_host ps \<longrightarrow> hostname_discovered tr))"

lemma discover_safe:
  assumes "tr_ok cn N w (Some c) (Some tr)" and "discover_l7 ps (Some tr) = (n1, t1)" and "discover_host E ps is_ip t1 ipc = (ok, n2, t2, ipc')"
  shows "\<exists>tr'. t2 = Some tr' \<and> core tr tr' \<and> dp tr' = dp tr \<and> tr_ok cn N w (Some c) t2 \<and> (ok \<longrightarrow> settled ps (n1 \<or> n2) t2)"
proof -
  let ?a = "tr\<lparr>l7proto_discovered := l7proto_discovered tr \<or> l7proto tr \<noteq> L7_UNKNOWN\<rparr>"
  have t: "track_ok cn (auto_of (w_ah w)) N c tr" using assms(1) by (simp add: tr_ok_def)
  have v: "t1 = Some ?a" "n1 = (\<not> l7proto_discovered tr \<and> l7proto tr \<noteq> L7_UNKNOWN)" using discover_l7_view(2)[OF assms(2)] by auto
  obtain h i d where u: "t2 = Some (?a\<lparr>hostname := h, hostname_is_ip := i, hostname_discovered := d\<rparr>)"
    "n2 = (ps_have_host ps \<and> \<not> hostname_discovered tr)" "n2 \<longrightarrow> d \<longrightarrow> h \<noteq> None"
    "\<not> n2 \<longrightarrow> h = hostname tr \<and> d = hostname_discovered tr" "n2 \<and> ok \<longrightarrow> d"
    using discover_host_view(2)[OF assms(3)[unfolded v(1)]] by auto
  let ?b = "?a\<lparr>hostname := h, hostname_is_ip := i, hostname_discovered := d\<rparr>"
  have c: "core tr ?b" by (simp add: core_def)
  have f: "fails_ok (auto_of (w_ah w)) ?b" using t u(2,3,4) by (auto simp: track_ok_def fails_ok_def)
  have hd: "hostname_discovered ?b \<longrightarrow> hostname ?b \<noteq> None" using t u(3,4) by (auto simp: track_ok_def)
  have "track_ok cn (auto_of (w_ah w)) N c ?b" by (rule core_ok[OF t c f hd])
  moreover have "ok \<longrightarrow> settled ps (n1 \<or> n2) (Some ?b)"
    using t u(2,4,5) v(2) by (auto simp: settled_def track_ok_def fails_ok_def)
  ultimately show ?thesis using c u(1) by (auto simp: tr_ok_def)
qed

definition alike :: "play_state \<Rightarrow> play_state \<Rightarrow> bool" where
  "alike a b \<longleftrightarrow> (\<exists>h r. b = a\<lparr>ps_host := h, ps_dp := r\<rparr>)"

lemma alike_same:
  assumes "alike a b"
  shows "ps_dis b = ps_dis a" "ps_ctrack b = ps_ctrack a" "ps_replay b = ps_replay a" "ps_dir b = ps_dir a" "ps_rev b = ps_rev a"
    "ps_rev_fixed b = ps_rev_fixed a" "ps_l7proto b = ps_l7proto a" "ps_l7payload b = ps_l7payload a" "ps_have_host b = ps_have_host a"
  using assms by (auto simp: alike_def)

lemma alike_host: "alike a (a\<lparr>ps_host := h\<rparr>)"
  unfolding alike_def by (rule exI[of _ h], rule exI[of _ "ps_dp a"]) simp

lemma alike_dp: "alike a (a\<lparr>ps_dp := r\<rparr>)"
  unfolding alike_def by (rule exI[of _ "ps_host a"], rule exI[of _ r]) simp

lemma alike_trans: "alike a b \<Longrightarrow> alike b c \<Longrightarrow> alike a c"
  unfolding alike_def by (elim exE, simp) blast

lemma alike_ok: "ps_ok cn w a \<Longrightarrow> alike a b \<Longrightarrow> holds w (ps_replay a) t \<Longrightarrow> synced b t \<Longrightarrow> ps_ok cn w b"
  by (auto simp: ps_ok_def ps_known_def alike_same)

text \<open>A connection for the profile that has been found.\<close>

lemma redirect_ok:
  assumes "track_ok cn autos N c tr" and "\<not> hostname_ah_check tr" and "\<forall>k. r = Some k \<longrightarrow> k < length autos"
  shows "\<exists>u. map_option (\<lambda>tr. put_check chk (tr\<lparr>dp := r, dp_search_complete := True\<rparr>)) (Some tr) = Some u
     \<and> (\<forall>b. \<exists>v. (if b then dp_changed (Some u) else Some u) = Some v \<and> track_ok cn autos N c v \<and> core tr v \<and> dp v = r
          \<and> settled ps x (Some v) = settled ps x (Some tr))"
proof -
  obtain d q e where chk: "chk = (d, q, e)" by (cases chk)
  let ?u = "put_check chk (tr\<lparr>dp := r, dp_search_complete := True\<rparr>)"
  have f: "track_ok cn autos N c v" if "core tr v" "dp v = r" "\<not> hostname_ah_check v" "hostname_discovered v = hostname_discovered tr" "hostname v = hostname tr" for v
    by (rule core_ok[OF assms(1) that(1)]) (use that assms in \<open>auto simp: track_ok_def fails_ok_def\<close>)
  have "\<exists>v. (if b then dp_changed (Some ?u) else Some ?u) = Some v \<and> track_ok cn autos N c v \<and> core tr v \<and> dp v = r
     \<and> settled ps x (Some v) = settled ps x (Some tr)" for b
    using assms(2) by (cases b) (auto simp: chk put_check_def dp_changed_def core_def settled_def intro!: f)
  then show ?thesis by (intro exI[of _ ?u]) simp
qed

lemma rediscover_profile_safe:
  assumes E: "env_good E" and w: "world_ok cn N w" and ps: "ps_ok cn w ps" and h: "holds w (ps_replay ps) t" and s: "settled ps True t"
  shows "returns (\<lambda>(ps', chk', w'). world_ok cn N w' \<and> alike ps ps' \<and> (ps_dp ps' \<noteq> None \<longrightarrow> ps_live w' ps') \<and> stays (ps_replay ps) w w'
     \<and> (\<exists>t'. holds w' (ps_replay ps) t' \<and> synced ps' t' \<and> settled ps False t')) (rediscover_profile E ps is_ip chk w)"
proof -
  have g: "get_track w (ps_replay ps) = Some t" using h by (simp add: holds_def)
  have sy: "synced ps t" using ps h by (auto simp: ps_ok_def holds_def)
  have a: "addr_ok (dr_ip (ps_dir ps)) (dr_ip6 (ps_dir ps))" using ps by (simp add: ps_ok_def)
  define x where "x = (case t of Some tr \<Rightarrow> ps_target ps (hostname tr) (hostname_is_ip tr)
              | None \<Rightarrow> ps_target ps (if ps_have_host ps then Some (ps_host ps) else None) is_ip)"
  have tx: "target_ok x" using ps_target_ok[OF a] by (simp add: x_def split: option.split)
  obtain r chk' w1 where f: "find_profile E x chk w = Some (r, chk', w1)" "world_ok cn N w1" "quiet w w1"
      "\<forall>k. r = Some k \<longrightarrow> k < length (ah_profiles (w_ah w))"
    using returns_exists[OF find_profile_safe[OF E w tx, of chk]] by auto
  let ?q = "ps\<lparr>ps_dp := r\<rparr>"
  have h1: "holds w1 (ps_replay ps) t" using h quiet_holds[OF f(3)] by simp
  define t1 where "t1 = map_option (\<lambda>tr. put_check chk' (tr\<lparr>dp := r, dp_search_complete := True\<rparr>)) t"
  define t2 where "t2 = (if r \<noteq> None \<and> r \<noteq> ps_dp ps then dp_changed t1 else t1)"
  have U: "rediscover_profile E ps is_ip chk w = Some (?q, chk', set_track (ps_replay ps) t2 w1)"
    using f(1) by (simp add: rediscover_profile_def g x_def[symmetric] t1_def t2_def)
  have t2: "tr_ok cn N w1 (ps_replay ps) t2 \<and> keeps t t2 \<and> synced ?q t2 \<and> settled ps False t2"
  proof (cases t)
    case None
    then show ?thesis by (simp add: t2_def t1_def dp_changed_def tr_ok_def synced_def settled_def)
  next
    case (Some tr)
    then obtain c where c: "ps_replay ps = Some c" using h by (cases "ps_replay ps") (auto simp: holds_iff)
    have k: "track_ok cn (auto_of (w_ah w1)) N c tr" using holds_ok[OF f(2) h1] Some c by (simp add: tr_ok_def)
    have nck: "\<not> hostname_ah_check tr" using s Some by (simp add: settled_def)
    have b: "\<forall>k. r = Some k \<longrightarrow> k < length (auto_of (w_ah w1))" using f(4) by (simp add: auto_length quiet_profiles(1)[OF f(3)])
    from redirect_ok[OF k nck b, of chk' ps False] obtain v where
      "t2 = Some v" "track_ok cn (auto_of (w_ah w1)) N c v" "core tr v" "dp v = r" "settled ps False (Some v) = settled ps False (Some tr)"
      unfolding t2_def t1_def Some by (metis (no_types, lifting))
    moreover have "settled ps False (Some tr)" using s Some by (simp add: settled_def)
    ultimately show ?thesis using sy Some core_keeps c by (auto simp: tr_ok_def synced_def core_def keeps_def)
  qed
  note p = put_step[OF f(2) h1 t2[THEN conjunct1] t2[THEN conjunct2, THEN conjunct1]]
  have "stays (ps_replay ps) w (set_track (ps_replay ps) t2 w1)" using stays_trans[OF quiet_stays[OF f(3)]] p by blast
  moreover have "ps_live (set_track (ps_replay ps) t2 w1) ?q" if "r \<noteq> None"
    using f(4) that by (auto simp: ps_live_def quiet_profiles(1)[OF f(3)])
  ultimately show ?thesis using p t2 alike_dp[of ps r] unfolding U by auto
qed

lemma ah_decide_ok:
  assumes t: "track_ok cn autos N c tr" and i: "dp tr = Some i" "autos ! i = hostlist_auto p"
    and d: "hostname_discovered tr" "l7proto_discovered tr"
  shows "track_ok cn autos N c (ah_decide pr p chk tr) \<and> core tr (ah_decide pr p chk tr) \<and> dp (ah_decide pr p chk tr) = dp tr"
proof -
  obtain a b e where chk: "chk = (a, b, e)" by (cases chk)
  let ?t = "tr\<lparr>hostname_ah_check := hostlist_auto p \<noteq> None \<and> \<not> e\<rparr>"
  have k: "track_ok cn autos N c ?t"
    by (rule core_ok[OF t]) (use t i d in \<open>auto simp: core_def track_ok_def fails_ok_def\<close>)
  have st: "track_ok cn autos N c (ctrack_stop_retrans_counter x) \<and> core tr (ctrack_stop_retrans_counter x) \<and> dp (ctrack_stop_retrans_counter x) = dp tr"
    if "track_ok cn autos N c x" "core tr x" "dp x = dp tr" for x
    using that counters_ok[OF that(1) counters_stop] counters_same[OF counters_stop[of x]] by (simp add: core_def)
  have "core tr ?t" "dp ?t = dp tr" by (simp_all add: core_def)
  with k st[OF k] st[OF t] t show ?thesis by (auto simp: ah_decide_def chk Let_def)
qed

lemma live_index: "ps_live w ps \<Longrightarrow> ps_dp ps = Some i \<Longrightarrow> i < length (ah_profiles (w_ah w))"
  by (simp add: ps_live_def)

lemma checks_exact:
  assumes "pointers_ok hs (hl_collection p)" and "pointers_ok hs (hl_collection_exclude p)"
  shows "\<exists>b. cand (Some x) (map_option Not (PROFILE_HOSTLISTS_EMPTY p hs)) = Some b \<and> (b \<longrightarrow> x)"
  using assms by (cases x) (auto simp: PROFILE_HOSTLISTS_EMPTY_def collection_is_empty_exact cand_def)

lemma put_check_ok: "track_ok cn autos N c (put_check chk tr) = track_ok cn autos N c tr" "core tr (put_check chk tr)"
  "dp (put_check chk tr) = dp tr" "hostname_discovered (put_check chk tr) = hostname_discovered tr"
  "l7proto_discovered (put_check chk tr) = l7proto_discovered tr"
  by (cases chk, simp add: track_ok_def fails_ok_def put_check_def core_def)+

lemma rediscover_check_safe:
  assumes w: "world_ok cn N w" and ps: "ps_ok cn w ps" "ps_live w ps" and h: "holds w (ps_replay ps) t"
    and s: "settled ps False t"
  shows "returns (\<lambda>(chk', w'). world_ok cn N w' \<and> ps_ok cn w' ps \<and> ps_live w' ps \<and> stays (ps_replay ps) w w')
     (rediscover_check E ps is_ip chk w)"
proof -
  obtain i where i: "ps_dp ps = Some i" "i < length (ah_profiles (w_ah w))" using ps(2) by (auto simp: ps_live_def)
  define p where "p = ah_profiles (w_ah w) ! i"
  have po: "profiles_ok (w_ah w) (w_ips w)" using w by (simp add: world_ok_def)
  note pt = profile_of(1,2,3)[OF po i(2), folded p_def]
  have sy: "synced ps t" using ps(1) h by (auto simp: ps_ok_def holds_def)
  obtain b where b: "cand (Some (ps_have_host ps)) (map_option Not (PROFILE_HOSTLISTS_EMPTY p (ah_hosts (w_ah w)))) = Some b" "b \<longrightarrow> ps_have_host ps"
    using checks_exact[OF pt(1,2)] by blast
  have fin: "returns (\<lambda>(chk', w'). world_ok cn N w' \<and> ps_ok cn w' ps \<and> ps_live w' ps \<and> stays (ps_replay ps) w w')
      (do { t \<leftarrow> get_track w1 (ps_replay ps);
         Some (chk1, set_track (ps_replay ps) (map_option (ah_decide (d_proto (ps_dis ps)) p chk1) t) w1) })"
    if b and w1: "world_ok cn N w1" "auto_of (w_ah w1) = auto_of (w_ah w)" "stays (ps_replay ps) w w1" "ps_live w1 ps"
      and h1: "holds w1 (ps_replay ps) t1" "synced ps t1" "settled ps False t1" and psok: "ps_ok cn w1 ps" for w1 t1 chk1
  proof -
    let ?u = "map_option (ah_decide (d_proto (ps_dis ps)) p chk1) t1"
    have "tr_ok cn N w1 (ps_replay ps) ?u \<and> keeps t1 ?u \<and> synced ps ?u"
    proof (cases t1)
      case (Some tr)
      then obtain c where c: "ps_replay ps = Some c" using h1(1) by (cases "ps_replay ps") (auto simp: holds_iff)
      have k: "track_ok cn (auto_of (w_ah w1)) N c tr" using holds_ok[OF w1(1) h1(1)] Some c by (simp add: tr_ok_def)
      have d: "dp tr = Some i" using h1(2) Some i by (simp add: synced_def)
      have a: "auto_of (w_ah w1) ! i = hostlist_auto p" using i(2) w1(2) by (simp add: auto_of_nth p_def)
      have l7: "l7proto tr \<noteq> L7_UNKNOWN" using b(2) that(1) ps(1) h1(2) Some by (auto simp: ps_ok_def ps_known_def synced_def)
      have dd: "hostname_discovered tr" "l7proto_discovered tr" using h1(3) Some l7 b(2) that(1) by (auto simp: settled_def)
      show ?thesis using ah_decide_ok[OF k d a dd, of "d_proto (ps_dis ps)" chk1] h1(2) Some c
        by (auto simp: tr_ok_def synced_def core_def keeps_def)
    qed (simp add: tr_ok_def synced_def)
    then have u: "tr_ok cn N w1 (ps_replay ps) ?u" "keeps t1 ?u" "synced ps ?u" by blast+
    note q = put_step[OF w1(1) h1(1) u(1,2)]
    have "ps_ok cn (set_track (ps_replay ps) ?u w1) ps" using ps_ok_set[OF psok h1(1) u(3)] keeps_some[OF u(2)] by blast
    then show ?thesis using q stays_trans[OF w1(3)] h1(1) w1(4) by (simp add: holds_def)
  qed
  show ?thesis
  proof (cases b)
    case False
    with w ps i b(1) show ?thesis by (simp add: rediscover_check_def p_def[symmetric])
  next
    case B: True
    show ?thesis
    proof (cases "fst chk")
      case True
      show ?thesis using fin[OF B w refl stays_refl ps(2) h sy s ps(1), of chk] i b(1) B True by (simp add: rediscover_check_def p_def[symmetric])
    next
      case False
      obtain r ex hs where c: "HostlistCheck (ae_alloc (en_ah E)) (ah_os (w_ah w)) (autolists (ah_profiles (w_ah w)))
            (hl_collection p) (hl_collection_exclude p) (ah_hosts (w_ah w)) (ps_host ps) is_ip False = Some (r, ex, hs)"
          "map lf_name hs = map lf_name (ah_hosts (w_ah w))"
        using returns_exists[OF HostlistCheck_safe[OF pt, of "ae_alloc (en_ah E)" "ah_os (w_ah w)" "ps_host ps" is_ip False]] by auto
      let ?ah = "(w_ah w)\<lparr>ah_hosts := hs\<rparr>" and ?chk = "(True, r, ex)"
      let ?w = "w\<lparr>w_ah := ?ah\<rparr>" and ?t = "map_option (put_check (True, r, ex)) t"
      have q: "world_ok cn N ?w" "quiet w ?w" using quiet_world[OF w, of ?ah] c(2) by (simp_all add: same_profiles_def)
      have h1: "holds ?w (ps_replay ps) t" using h by simp
      have g1: "get_track ?w (ps_replay ps) = Some t" using h1 by (simp only: holds_def)
      have "tr_ok cn N ?w (ps_replay ps) ?t" using holds_ok[OF q(1) h1] by (cases t) (simp_all add: tr_ok_def put_check_ok)
      moreover have k: "keeps t ?t" by (cases t) (simp_all add: core_keeps put_check_ok keeps_def put_check_ok(2)[unfolded core_def])
      ultimately have p: "world_ok cn N (set_track (ps_replay ps) ?t ?w)" "holds (set_track (ps_replay ps) ?t ?w) (ps_replay ps) ?t"
         "stays (ps_replay ps) ?w (set_track (ps_replay ps) ?t ?w)"
        using put_step[OF q(1) h1] by blast+
      have sy1: "synced ps ?t" using sy by (cases t) (simp_all add: synced_def put_check_ok(2)[unfolded core_def] put_check_ok(3))
      have st1: "settled ps False ?t" using s by (cases t) (simp_all add: settled_def put_check_ok put_check_ok(2)[unfolded core_def])
      have l1: "ps_live (set_track (ps_replay ps) ?t ?w) ps" using ps(2) ps_live_quiet[OF q(2)] by simp
      have au: "auto_of (w_ah (set_track (ps_replay ps) ?t ?w)) = auto_of (w_ah w)" using quiet_profiles(2)[OF q(2)] by simp
      have ok1: "ps_ok cn (set_track (ps_replay ps) ?t ?w) ps"
        using ps_ok_set[OF _ h1 sy1 keeps_some[OF k]] quiet_ps_ok[OF q(2)] ps(1) by blast
      note f = fin[OF B p(1) au stays_trans[OF quiet_stays[OF q(2)] p(3)] l1 p(2) sy1 st1 ok1, of ?chk]
      show ?thesis using f i b(1) B False c(1) g1 by (simp add: rediscover_check_def p_def[symmetric])
    qed
  qed
qed

lemma track_fails: "tr_ok cn N w r t \<Longrightarrow> holds w r t \<Longrightarrow> track_fails_ok (w_ah w) t"
  by (cases r) (auto simp: tr_ok_def track_fails_ok_def track_ok_def holds_iff)

text \<open>A detector of failures has run.\<close>

lemma counted_step:
  assumes w: "world_ok cn N w" and ps: "ps_ok cn w ps" and h: "holds w (ps_replay ps) t" and c: "counted t t'" "same_profiles (w_ah w) ah"
  defines "v \<equiv> set_track (ps_replay ps) t' (w\<lparr>w_ah := ah\<rparr>)"
  shows "world_ok cn N v \<and> ps_ok cn v ps \<and> ps_live v ps = ps_live w ps \<and> stays (ps_replay ps) w v"
proof -
  let ?w = "w\<lparr>w_ah := ah\<rparr>"
  have q: "world_ok cn N ?w" "quiet w ?w" using quiet_world[OF w c(2)] by simp_all
  have h1: "holds ?w (ps_replay ps) t" using h by simp
  have sy: "synced ps t" using ps h by (auto simp: ps_ok_def holds_def)
  note p = put_step[OF q(1) h1 counted_ok[OF holds_ok[OF q(1) h1] c(1)] counted_keeps[OF c(1)]]
  have "ps_ok cn v ps" unfolding v_def
    using ps_ok_set[OF _ h1 counted_synced[OF c(1) sy] keeps_some[OF counted_keeps[OF c(1)]]] quiet_ps_ok[OF q(2)] ps by blast
  then show ?thesis using p stays_trans[OF quiet_stays[OF q(2)]] ps_live_quiet[OF q(2)] by (simp add: v_def)
qed

lemma rediscover_udp_safe:
  assumes w: "world_ok cn N w" and ps: "ps_ok cn w ps"
  shows "returns (\<lambda>w'. world_ok cn N w' \<and> ps_ok cn w' ps \<and> ps_live w' ps = ps_live w ps \<and> stays (ps_replay ps) w w') (rediscover_udp E ps w)"
proof (cases "ps_replay ps \<noteq> None \<and> d_proto (ps_dis ps) = IPPROTO_UDP")
  case True
  obtain t where h: "holds w (ps_replay ps) t" using ps by (auto simp: ps_ok_def)
  have po: "profiles_ok (w_ah w) (w_ips w)" using w by (simp add: world_ok_def)
  obtain t' ah where r: "process_udp_fail (en_ah E) t (ps_tpos ps) (w_ah w) = Some (t', ah)" "counted t t'" "same_profiles (w_ah w) ah"
    using returns_exists[OF process_udp_safe[OF po track_fails[OF holds_ok[OF w h] h], of "en_ah E" "ps_tpos ps"]] by auto
  show ?thesis using counted_step[OF w ps h r(2,3)] r(1) h True by (simp add: rediscover_udp_def holds_def)
qed (use assms in \<open>auto simp: rediscover_udp_def\<close>)

lemma ps_host_ok [simp]: "ps_ok cn w (ps\<lparr>ps_host := h\<rparr>) = ps_ok cn w ps" "ps_live w (ps\<lparr>ps_host := h\<rparr>) = ps_live w ps"
  by (simp_all add: ps_ok_def ps_known_def ps_live_def synced_def)

lemma dp_rediscovery_safe:
  assumes E: "env_good E" and w: "world_ok cn N w" and ps: "ps_ok cn w ps" "ps_live w ps"
  shows "returns (\<lambda>(ok, ps', w'). world_ok cn N w' \<and> alike ps ps' \<and> (ok \<longrightarrow> ps_ok cn w' ps' \<and> ps_live w' ps') \<and> stays (ps_replay ps) w w')
    (dp_rediscovery E ps w)"
proof -
  obtain is_ip host where sh: "(if ps_have_host ps
           then strip_host_to_ip (\<lambda>s. pton6 (en_ip E) s \<noteq> None) (\<lambda>s. pton4 (en_ip E) s \<noteq> None) (ps_host ps)
           else (False, ps_host ps)) = (is_ip, host)" by (metis surj_pair)
  define q where "q = ps\<lparr>ps_host := host\<rparr>"
  have q: "ps_ok cn w q" "ps_live w q" "ps_replay q = ps_replay ps" "alike ps q" using ps by (simp_all add: q_def alike_host)
  obtain t where h: "holds w (ps_replay ps) t" using ps(1) by (auto simp: ps_ok_def)
  have g: "get_track w (ps_replay ps) = Some t" using h by (simp add: holds_def)
  have sy: "synced q t" using q(1) h q(3) by (auto simp: ps_ok_def holds_def)
  obtain n1 t1 where d1: "discover_l7 q t = (n1, t1)" by (cases "discover_l7 q t")
  obtain ok n2 t2 ipc where d2: "discover_host E q is_ip t1 (w_ipc w) = (ok, n2, t2, ipc)" by (cases "discover_host E q is_ip t1 (w_ipc w)") auto
  have t2: "tr_ok cn N w (ps_replay ps) t2 \<and> keeps t t2 \<and> synced q t2 \<and> (ok \<longrightarrow> settled q (n1 \<or> n2) t2)"
  proof (cases t)
    case None
    then have "t1 = None" using discover_l7_view(1) d1 by blast
    then have "t2 = None" using discover_host_view(1) d2 by blast
    with None show ?thesis by (simp add: tr_ok_def synced_def settled_def)
  next
    case (Some tr)
    then obtain c where c: "ps_replay ps = Some c" using h by (cases "ps_replay ps") (auto simp: holds_iff)
    have k: "tr_ok cn N w (Some c) (Some tr)" using holds_ok[OF w h] Some c by simp
    from discover_safe[OF k d1[unfolded Some] d2] obtain tr' where
      "t2 = Some tr'" "core tr tr'" "dp tr' = dp tr" "tr_ok cn N w (Some c) t2" "ok \<longrightarrow> settled q (n1 \<or> n2) t2" by blast
    then show ?thesis using Some c sy core_keeps by (auto simp: synced_def core_def)
  qed
  let ?w = "w\<lparr>w_ipc := ipc\<rparr>" and ?v = "set_track (ps_replay ps) t2 (w\<lparr>w_ipc := ipc\<rparr>)"
  have k: "keeps t t2" using t2 by blast
  have v: "world_ok cn N ?v" "holds ?v (ps_replay ps) t2" "stays (ps_replay ps) w ?v"
    using put_step[of cn N ?w "ps_replay ps" t t2] w h t2 by simp_all
  have vq: "ps_ok cn ?v q" "ps_live ?v q"
    using ps_ok_set[of cn ?w q t t2] q h t2 keeps_some[OF k] by simp_all
  show ?thesis
  proof (cases ok)
    case False
    with v(1,3) q(4) show ?thesis
      by (simp add: dp_rediscovery_def sh q_def[symmetric] g d1 d2 q(3) Let_def)
  next
    case OK: True
    then have st: "settled q (n1 \<or> n2) t2" using t2 by blast
    have U: "dp_rediscovery E ps w = do {
       (ps, chk, w) \<leftarrow> (if n1 \<or> n2 then rediscover_profile E q is_ip (track_check t2) ?v else Some (q, track_check t2, ?v));
       if ps_dp ps = None then Some (False, ps, w)
       else do {
         (chk, w) \<leftarrow> rediscover_check E ps is_ip chk w;
         w \<leftarrow> rediscover_udp E ps w;
         Some (\<not> (fst chk \<and> \<not> fst (snd chk)), ps, w) } }"
      using OK by (simp add: dp_rediscovery_def sh q_def[symmetric] g d1 d2 q(3) Let_def)
    have "returns (\<lambda>(ps', chk', w'). world_ok cn N w' \<and> alike q ps' \<and> (ps_dp ps' \<noteq> None \<longrightarrow> ps_live w' ps') \<and> stays (ps_replay q) ?v w'
     \<and> (\<exists>t'. holds w' (ps_replay q) t' \<and> synced ps' t' \<and> settled q False t'))
       (if n1 \<or> n2 then rediscover_profile E q is_ip (track_check t2) ?v else Some (q, track_check t2, ?v))"
    proof (cases "n1 \<or> n2")
      case True
      show ?thesis using rediscover_profile_safe[OF E v(1) vq(1), of t2 is_ip "track_check t2"] v(2) st True q(3) by simp
    next
      case False
      have "settled q False t2" using st False by simp
      then show ?thesis using v vq False q(3) t2 by (auto simp: q_def intro: alike_host[of "ps\<lparr>ps_host := host\<rparr>" host, simplified])
    qed
    then obtain ps1 chk1 w1 t3 where r: "(if n1 \<or> n2 then rediscover_profile E q is_ip (track_check t2) ?v else Some (q, track_check t2, ?v)) = Some (ps1, chk1, w1)"
      "world_ok cn N w1" "alike q ps1" "ps_dp ps1 \<noteq> None \<longrightarrow> ps_live w1 ps1" "stays (ps_replay q) ?v w1"
      "holds w1 (ps_replay q) t3" "synced ps1 t3" "settled q False t3" by (auto simp: returns_def)
    have al: "alike ps ps1" using alike_trans[OF q(4) r(3)] .
    have st1: "stays (ps_replay ps) w w1" using stays_trans[OF v(3)] r(5) q(3) by simp
    show ?thesis
    proof (cases "ps_dp ps1")
      case None
      then show ?thesis unfolding U r(1) using r(2) al st1 by simp
    next
      case (Some i)
      have l1: "ps_live w1 ps1" using r(4) Some by simp
      have rp: "ps_replay ps1 = ps_replay ps" "ps_have_host ps1 = ps_have_host q" using alike_same[OF al] by (simp_all add: q_def)
      have ok1: "ps_ok cn w1 ps1"
        using alike_ok[of cn _ ps ps1] alike_same[OF al] ps(1) r(6,7) q(3) by (auto simp: ps_ok_def ps_known_def)
      have se: "settled ps1 False t3" using r(8) rp(2) by (simp add: settled_def)
      obtain chk2 w2 where c: "rediscover_check E ps1 is_ip chk1 w1 = Some (chk2, w2)" "world_ok cn N w2" "ps_ok cn w2 ps1" "ps_live w2 ps1"
         "stays (ps_replay ps) w1 w2"
        using returns_exists[OF rediscover_check_safe[OF r(2) ok1 l1 _ se, of E is_ip chk1]] r(6) rp(1) q(3) by auto
      obtain w3 where u: "rediscover_udp E ps1 w2 = Some w3" "world_ok cn N w3" "ps_ok cn w3 ps1" "ps_live w3 ps1" "stays (ps_replay ps) w2 w3"
        using returns_exists[OF rediscover_udp_safe[OF c(2,3), of E]] c(4) rp(1) by auto
      have "stays (ps_replay ps) w w3" using stays_trans[OF st1 stays_trans[OF c(5) u(5)]] .
      then show ?thesis unfolding U r(1) using Some c(1) u al by simp
    qed
  qed
qed

end
