(* ===== verification/HandlerSafe.thy ===== *)
theory HandlerSafe
  imports PlaySafe
begin

text \<open>
  Safety of the steps the handlers share (theory Packet): the end of a handler with its verdict, probing, reassembly, delaying a
  packet and replaying the queue of a connection. A player of delayed packets is assumed that keeps the world well formed and
  does not touch the queue; theory PacketSafe shows that the program's own player is one.
\<close>

unbundle bit_operations_syntax

subsection \<open>The end of a handler\<close>

text \<open>The functions of a profile only give up directions of the connection; a modification comes with a packet.\<close>

definition verdict_ok :: "verdict \<Rightarrow> bool" where
  "verdict_ok = (\<lambda>(v, m). v AND VERDICT_MASK = VERDICT_MODIFY \<longrightarrow> m \<noteq> None)"

definition gives_up :: "ctrack option \<Rightarrow> ctrack option \<Rightarrow> bool" where
  "gives_up t t' \<longleftrightarrow> (t = None \<and> t' = None) \<or> (\<exists>tr i e. t = Some tr \<and> t' = Some (tr\<lparr>b_lua_in_cutoff := i, b_lua_out_cutoff := e\<rparr>))"

lemma verdict_ok_simps [simp]: "verdict_ok (VERDICT_PASS, m)" "verdict_ok (VERDICT_DROP, m)" "verdict_ok (v, Some x)"
  by (simp_all add: verdict_ok_def VERDICT_PASS_def VERDICT_DROP_def VERDICT_MASK_def VERDICT_MODIFY_def)

lemma gives_up_flags: "gives_up (Some tr) (Some (tr\<lparr>b_lua_in_cutoff := i\<rparr>))" "gives_up (Some tr) (Some (tr\<lparr>b_lua_out_cutoff := e\<rparr>))"
  unfolding gives_up_def
  by (rule disjI2, rule exI[of _ tr], rule exI[of _ i], rule exI[of _ "b_lua_out_cutoff tr"], simp,
      rule disjI2, rule exI[of _ tr], rule exI[of _ "b_lua_in_cutoff tr"], rule exI[of _ e], simp)

lemma gives_up_refl [simp]: "gives_up t t"
proof (cases t)
  case (Some tr)
  have "gives_up (Some tr) (Some (tr\<lparr>b_lua_in_cutoff := b_lua_in_cutoff tr\<rparr>))" by (rule gives_up_flags)
  then show ?thesis using Some by simp
qed (simp add: gives_up_def)

lemma gives_up_lua: "gives_up t (luacall_lua_cutoff cf t)"
proof (cases t)
  case (Some a)
  obtain x y where cf: "cf = (x, y)" by (cases cf)
  have "luacall_lua_cutoff cf (Some a) = Some (a\<lparr>b_lua_in_cutoff := x \<or> b_lua_in_cutoff a, b_lua_out_cutoff := y \<or> b_lua_out_cutoff a\<rparr>)"
    by (cases x; cases y) (simp_all add: luacall_lua_cutoff_def cf)
  then show ?thesis unfolding gives_up_def Some by blast
qed (simp add: gives_up_def luacall_lua_cutoff_def split: prod.split)

lemma desync_safe: "desync L p t tpos c addr cap s = Some (v, m, t', s') \<Longrightarrow> verdict_ok (v, m) \<and> gives_up t t'"
proof -
  have fin: "verdict_ok (v, m) \<and> t' = t1" if "desync_finish L addr cap (r, t1, s1) = Some (v, m, t', s')" for r t1 s1 v m t' s'
    using that by (auto simp: desync_finish_def split: option.splits if_splits) (auto simp: verdict_ok_def)
  have run: "\<exists>cf. fst (snd (call_loop L p i ps l7p n fs v0 t s0)) = luacall_lua_cutoff cf t" for i ps l7p n fs v0 s0
  proof -
    obtain vs ok e where r: "runs L p i ps l7p n fs (t, s0) vs ok e"
      and "call_loop L p i ps l7p n fs v0 t s0 = (if ok then Some (foldl verdict_aggregate v0 vs) else None, e)"
      using call_loop_runs[of L p i ps l7p n fs t s0 v0] by blast
    with runs_connection[OF r] show ?thesis by auto
  qed
  have call: "verdict_ok (v, m) \<and> gives_up t t'" if "desync_finish L addr cap (call_loop L p i ps l7p n fs v0 t s0) = Some (v, m, t', s')" for i ps l7p n fs v0 s0
  proof -
    obtain r t1 s1 where c: "call_loop L p i ps l7p n fs v0 t s0 = (r, t1, s1)" by (cases "call_loop L p i ps l7p n fs v0 t s0") auto
    then obtain cf where "t1 = luacall_lua_cutoff cf t" using run[of i ps l7p n fs v0 s0] by auto
    with fin[of r t1 s1 v m t' s'] that c show ?thesis by (auto intro: gives_up_lua)
  qed
  have cut: "gives_up t (give_up b t)" for b
    using gives_up_flags gives_up_refl[of None] by (cases t; cases b) (auto simp: give_up_def)
  assume d: "desync L p t tpos c addr cap s = Some (v, m, t', s')"
  show ?thesis
  proof (cases "given_up (dc_incoming c) t")
    case True
    then have "(v, m, t', s') = (VERDICT_PASS, None, t, s)" using desync_given_up[OF True, where L = L and p = p and tpos = tpos and addr = addr and cap = cap and s = s] d by simp
    then show ?thesis by simp
  next
    case False
    note a = desync_alive[OF False]
    consider "(v, m, t', s') = (VERDICT_PASS, None, t, s)" | b where "(v, m, t', s') = (VERDICT_PASS, None, give_up b t, s)"
      | i ps l7p n fs v0 s0 where "Some (v, m, t', s') = desync_finish L addr cap (call_loop L p i ps l7p n fs v0 t s0)"
      using d unfolding a Let_def by (metis (no_types, lifting) option.inject)
    then show ?thesis by cases (use cut call[OF sym] in auto)
  qed
qed

lemma desync_returns:
  assumes "scripts_tame L" and "RECONSTRUCT_MAX_SIZE \<le> cap"
  shows "desync L p t tpos c addr cap s \<noteq> None"
proof -
  have fin: "desync_finish L addr cap x \<noteq> None" for x
  proof -
    obtain v t1 s1 where x: "x = (v, t1, s1)" by (cases x)
    show ?thesis
    proof (cases v)
      case (Some u)
      obtain r where "desync_rebuild L s1 addr cap (u AND VERDICT_PRESERVE_NEXT \<noteq> 0) = Some r"
        using rebuild_total[OF assms, of s1 addr "u AND VERDICT_PRESERVE_NEXT \<noteq> 0"] by auto
      then show ?thesis using Some x by (cases r) (simp_all add: desync_finish_def)
    qed (simp add: x desync_finish_def)
  qed
  show ?thesis
  proof (cases "given_up (dc_incoming c) t")
    case False
    show ?thesis unfolding desync_alive[OF False] Let_def using fin by (simp split: if_split)
  qed (simp add: desync_given_up)
qed

lemma gives_up_ok: "track_ok cn autos N c (tr\<lparr>b_lua_in_cutoff := i, b_lua_out_cutoff := e\<rparr>) = track_ok cn autos N c tr"
  by (simp add: track_ok_def fails_ok_def)

lemma gives_up_step: "gives_up t t' \<Longrightarrow> tr_ok cn N w r t \<Longrightarrow> tr_ok cn N w r t'" "gives_up t t' \<Longrightarrow> keeps t t'"
  by (auto simp: gives_up_def tr_ok_def gives_up_ok keeps_def)

lemma world_ok_lua [simp]: "ps_live (w\<lparr>w_lua := s\<rparr>) ps = ps_live w ps" "tr_ok cn N (w\<lparr>w_lua := s\<rparr>) r t = tr_ok cn N w r t"
  "stays r (w\<lparr>w_lua := s\<rparr>) w' = stays r w w'"
  by (simp_all add: ps_live_def tr_ok_def stays_def)

text \<open>A call of \<open>desync\<close> for the connection \<open>r\<close>.\<close>

lemma desync_step:
  assumes w: "world_ok cn N w" and h: "holds w r t" and d: "desync L p t tpos c addr cap s = Some (v, m, t', s')"
  shows "verdict_ok (v, m) \<and> world_ok cn N (set_track r t' (w\<lparr>w_lua := s'\<rparr>)) \<and> stays r w (set_track r t' (w\<lparr>w_lua := s'\<rparr>))
     \<and> holds (set_track r t' (w\<lparr>w_lua := s'\<rparr>)) r t'"
proof -
  have g: "verdict_ok (v, m)" "gives_up t t'" using desync_safe[OF d] by blast+
  have "tr_ok cn N (w\<lparr>w_lua := s'\<rparr>) r t'" using gives_up_step(1)[OF g(2) holds_ok[OF w h]] by simp
  from put_step[of cn N "w\<lparr>w_lua := s'\<rparr>" r t t', OF _ _ this gives_up_step(2)[OF g(2)]] w h g(1) show ?thesis by simp
qed

lemma play_desync_safe:
  assumes E: "env_good E" and w: "world_ok cn N w" and ps: "ps_ok cn w ps" "ps_live w ps" and cap: "RECONSTRUCT_MAX_SIZE \<le> cap"
  shows "returns (\<lambda>(vm, w'). verdict_ok vm \<and> world_ok cn N w' \<and> stays (ps_replay ps) w w') (play_desync E a cap ps rdat decr w)"
proof -
  obtain i where i: "ps_dp ps = Some i" "i < length (ah_profiles (w_ah w))" using ps(2) by (auto simp: ps_live_def)
  obtain t where h: "holds w (ps_replay ps) t" using ps(1) by (auto simp: ps_ok_def)
  have L: "scripts_tame (en_lua E)" using E by (simp add: env_good_def)
  have d: "returns (\<lambda>(v, m, t', s'). verdict_ok (v, m) \<and> world_ok cn N (set_track (ps_replay ps) t' (w\<lparr>w_lua := s'\<rparr>))
      \<and> stays (ps_replay ps) w (set_track (ps_replay ps) t' (w\<lparr>w_lua := s'\<rparr>))) (desync (en_lua E) p t tpos c addr cap (w_lua w))" for p tpos c addr
    using desync_returns[OF L cap, of p t tpos c addr "w_lua w"] desync_step[OF w h, where L = "en_lua E"]
    by (cases "desync (en_lua E) p t tpos c addr cap (w_lua w)") (auto simp: returns_def)
  show ?thesis using i h by (auto simp: play_desync_def holds_def Let_def returns_bind returns_rd intro!: returns_mono[OF d])
qed

lemma postnat_safe:
  assumes "dis_ok cn dis" and "one_ip dis"
  shows "returns (\<lambda>(v, m). verdict_ok (v, m)) (ct_new_postnat_fix srv t dis cap)"
proof -
  let ?d = "data_pkt dis"
  have sy: "\<exists>b. (case t of
         Some tr \<Rightarrow> Some (pcounter (if srv then server (pos tr) else client (pos tr)) = 1)
       | None \<Rightarrow> (case d_tcp dis of None \<Rightarrow> Some False | Some tcp \<Rightarrow> cor (tcp_syn_segment ?d tcp) (tcp_synack_segment ?d tcp))) = Some b"
    using dis_headers(1)[OF assms(1)] by (auto simp: tcp_synack_segment_def tcp_syn_segment_def th_flags_def cor_def split: option.split)
  obtain b where b: "(case t of
         Some tr \<Rightarrow> Some (pcounter (if srv then server (pos tr) else client (pos tr)) = 1)
       | None \<Rightarrow> (case d_tcp dis of None \<Rightarrow> Some False | Some tcp \<Rightarrow> cor (tcp_syn_segment ?d tcp) (tcp_synack_segment ?d tcp))) = Some b"
    using sy by blast
  from dis_view[OF assms] have l: "20 \<le> len_pkt dis" "len_pkt dis \<le> length ?d" by auto
  then have "rd_block ?d 0 (len_pkt dis) = Some (take (len_pkt dis) ?d)" by (simp add: rd_block_def)
  then show ?thesis using l b by (auto simp: ct_new_postnat_fix_def Let_def wr_in)
qed

lemma cancel_safe:
  assumes w: "world_ok cn N w" and h: "get_track w r \<noteq> None"
  shows "returns (\<lambda>w'. world_ok cn N w' \<and> get_track w' r \<noteq> None \<and> (r = None \<longrightarrow> w' = w) \<and> quiet (w\<lparr>w_ct := w_ct w'\<rparr>) w'
     \<and> (\<forall>ps. ps_ok cn w ps \<longrightarrow> ps_replay ps = r \<longrightarrow> ps_ok cn w' ps)) (reasm_client_cancel E r w)"
proof -
  obtain t where t: "holds w r t" using h by (auto simp: holds_def)
  have g: "get_track w r = Some t" using t by (simp add: holds_def)
  show ?thesis
  proof (cases t)
    case None
    with w t g show ?thesis by (auto simp: reasm_client_cancel_def)
  next
    case (Some tr)
    then obtain c where c: "r = Some c" using t by (cases r) (auto simp: holds_iff)
    obtain t' sent where s: "reasm_client_stop E tr = (t', sent)" by (cases "reasm_client_stop E tr")
    have e: "\<exists>q rs. t' = tr\<lparr>reasm_client := rs, delayed := q\<rparr> \<and> q = [] \<and> (rs = reasm_client tr \<or> rs = ReasmClear (reasm_client tr))"
    proof -
      define rs where "rs = (if ReasmIsEmpty (reasm_client tr) then reasm_client tr else ReasmClear (reasm_client tr))"
      have u: "(if \<not> ReasmIsEmpty (reasm_client tr) then tr\<lparr>reasm_client := ReasmClear (reasm_client tr)\<rparr> else tr) = tr\<lparr>reasm_client := rs\<rparr>"
        by (simp add: rs_def)
      have "t' = tr\<lparr>reasm_client := rs, delayed := []\<rparr>"
      proof (cases "delayed tr = []")
        case True
        have "tr\<lparr>reasm_client := rs, delayed := delayed tr\<rparr> = tr\<lparr>reasm_client := rs\<rparr>" by simp
        moreover have "t' = tr\<lparr>reasm_client := rs\<rparr>" using s True by (simp add: reasm_client_stop_def u send_delayed_def rawpacket_queue_empty_def)
        ultimately show ?thesis unfolding True by (rule trans[OF _ sym, rotated])
      qed (use s in \<open>simp add: reasm_client_stop_def u send_delayed_def rawpacket_queue_empty_def rawsend_queue_def rawsend_loop_all\<close>)
      then show ?thesis by (intro exI[of _ "[]"] exI[of _ rs]) (simp add: rs_def)
    qed
    then obtain q rs where e: "t' = tr\<lparr>reasm_client := rs, delayed := q\<rparr>" "q = []"
      "rs = reasm_client tr \<or> rs = ReasmClear (reasm_client tr)" by blast
    then have c1: "l7proto t' = l7proto tr" "dp t' = dp tr" by simp_all
    have tk: "track_ok cn (auto_of (w_ah w)) N c tr" using holds_ok[OF w t] Some c by (simp add: tr_ok_def)
    have "track_ok cn (auto_of (w_ah w)) N c t'"
    proof -
      have "reasm_shape rs" using e(3) tk by (elim disjE) (simp_all add: track_ok_def reasm_shape_def ReasmClear_def)
      then show ?thesis unfolding e(1,2) using tk by (simp add: track_ok_def fails_ok_def queue_ok_def)
    qed
    then have w2: "world_ok cn N (sends sent (set_track r (Some t') w))" using world_ok_set[OF w] c by (simp add: tr_ok_def)
    have h2: "holds (sends sent (set_track r (Some t') w)) r (Some t')" using holds_set[OF t, of "Some t'"] Some by simp
    have p: "ps_ok cn (sends sent (set_track r (Some t') w)) ps" if "ps_ok cn w ps" "ps_replay ps = r" for ps
    proof -
      have ht: "holds w (ps_replay ps) (Some tr)" using t Some that(2) by simp
      have "synced ps (Some tr)" using that(1) ht by (auto simp: ps_ok_def holds_def)
      then have "synced ps (Some t')" using c1 by (simp add: synced_def)
      from ps_ok_set[OF that(1) ht this] show ?thesis using that(2) by simp
    qed
    have "reasm_client_cancel E r w = Some (sends sent (set_track r (Some t') w))" using g Some s by (simp add: reasm_client_cancel_def)
    moreover have "get_track (sends sent (set_track r (Some t') w)) r \<noteq> None" using h2 by (simp add: holds_def)
    moreover have "quiet (w\<lparr>w_ct := w_ct (sends sent (set_track r (Some t') w))\<rparr>) (sends sent (set_track r (Some t') w))"
      by (simp add: quiet_def)
    ultimately show ?thesis using w2 c p by simp
  qed
qed

lemma held: "ps_ok cn w ps \<Longrightarrow> get_track w (ps_replay ps) \<noteq> None \<and> get_track w (ps_ctrack ps) \<noteq> None"
  by (auto simp: ps_ok_def holds_def)

lemma stays_held: "stays r w w' \<Longrightarrow> get_track w r \<noteq> None \<Longrightarrow> get_track w' r \<noteq> None"
  by (auto simp: stays_def holds_def)

lemma stays_track: "ps_ok cn w ps \<Longrightarrow> stays (ps_replay ps) w w' \<Longrightarrow> get_track w' (ps_ctrack ps) \<noteq> None"
  using held[of cn w ps] stays_held[of "ps_replay ps" w w'] by (auto simp: ps_ok_def)

definition played :: "bool \<Rightarrow> nat \<Rightarrow> conn option \<Rightarrow> conn option \<Rightarrow> 'l world \<Rightarrow> verdict \<times> 'l world \<Rightarrow> bool" where
  "played cn N c r w = (\<lambda>(vm, w'). verdict_ok vm \<and> world_ok cn N w' \<and> (c = None \<longrightarrow> stays r w w'))"

lemma play_finish_safe:
  assumes E: "env_good E" and w: "world_ok cn N w" and ps: "ps_ok cn w ps" "ps_live w ps" and cap: "RECONSTRUCT_MAX_SIZE \<le> cap"
  shows "returns (played cn N (ps_ctrack ps) (ps_replay ps) w) (play_finish E a cap ca ps rdat decr w)"
proof -
  obtain ok q w1 where r: "dp_rediscovery E ps w = Some (ok, q, w1)" "world_ok cn N w1" "alike ps q"
     "ok \<longrightarrow> ps_ok cn w1 q \<and> ps_live w1 q" "stays (ps_replay ps) w w1"
    using returns_exists[OF dp_rediscovery_safe[OF E w ps]] by auto
  note al = alike_same[OF r(3)]
  have dis: "dis_ok cn (ps_dis q)" "one_ip (ps_dis q)" using ps(1) al by (simp_all add: ps_ok_def)
  have g1: "get_track w1 (ps_ctrack ps) \<noteq> None" using stays_track[OF ps(1) r(5)] .
  show ?thesis
  proof (cases ok)
    case True
    then have q: "ps_ok cn w1 q" "ps_live w1 q" using r(4) by blast+
    obtain v m w2 where d: "play_desync E a cap q rdat decr w1 = Some ((v, m), w2)" "verdict_ok (v, m)" "world_ok cn N w2" "stays (ps_replay q) w1 w2"
      using returns_exists[OF play_desync_safe[OF E r(2) q cap, of a rdat decr]] by auto
    have s2: "stays (ps_replay ps) w w2" using stays_trans[OF r(5)] d(4) al by simp
    obtain t where t: "get_track w2 (ps_ctrack q) = Some t" using stays_track[OF q(1) d(4)] by blast
    obtain v2 m2 where p: "ct_new_postnat_fix (ae_server (en_ah E)) t (ps_dis q) cap = Some (v2, m2)" "verdict_ok (v2, m2)"
      using returns_exists[OF postnat_safe[OF dis, of "ae_server (en_ah E)" t cap]] by auto
    show ?thesis using r(1) True d p s2 t by (simp add: play_finish_def played_def)
  next
    case False
    show ?thesis
    proof (cases ca)
      case True
      obtain w2 where c: "reasm_client_cancel E (ps_ctrack q) w1 = Some w2" "world_ok cn N w2" "ps_ctrack q = None \<longrightarrow> w2 = w1"
        using returns_exists[OF cancel_safe[OF r(2), of "ps_ctrack q" E]] g1 al by auto
      have nd: "VERDICT_PASS AND VERDICT_MASK \<noteq> VERDICT_DROP" by (simp add: VERDICT_PASS_def VERDICT_DROP_def VERDICT_MASK_def)
      show ?thesis using r(1,5) False True c nd al by (simp add: play_finish_def played_def)
    next
      case ca: False
      have nd: "VERDICT_PASS AND VERDICT_MASK \<noteq> VERDICT_DROP" by (simp add: VERDICT_PASS_def VERDICT_DROP_def VERDICT_MASK_def)
      show ?thesis using r(1,2,5) False ca nd by (simp add: play_finish_def played_def)
    qed
  qed
qed

subsection \<open>Probing\<close>

lemma probe_safe:
  assumes "probes_safe pbs d len" and "\<forall>pb\<in>set pbs. pb_l7 pb \<noteq> L7_UNKNOWN" and "\<forall>tr. t = Some tr \<longrightarrow> l7proto tr = l7"
  shows "returns (\<lambda>(t', l7', l7p'). t' = map_option (\<lambda>tr. tr\<lparr>l7proto := l7'\<rparr>) t \<and> (l7 \<noteq> L7_UNKNOWN \<longrightarrow> l7' = l7)
      \<and> ((l7', l7p') = (l7, l7p) \<or> l7' \<noteq> L7_UNKNOWN \<and> (\<exists>pb\<in>set pbs. l7p' = pb_l7p pb \<and> pb_check pb d len = Some True)))
     (protocol_probe dis pbs d len (t, l7, l7p))"
proof (cases "List.find (probe_matches dis l7 d len) pbs")
  case None
  have "t = map_option (\<lambda>tr. tr\<lparr>l7proto := l7\<rparr>) t" using assms(3) by (cases t) auto
  with None show ?thesis by (simp add: protocol_probe_find[OF assms(1)])
next
  case (Some pb)
  have pb: "pb \<in> set pbs" "pb_check pb d len = Some True" using find_first[OF Some] by (auto simp: probe_matches_def)
  have same: "map_option (\<lambda>tr. tr\<lparr>l7proto := l7\<rparr>) t = t" using assms(3) by (cases t) auto
  obtain t' l7' l7p' where h: "probe_hit pb (t, l7, l7p) = (t', l7', l7p')" by (cases "probe_hit pb (t, l7, l7p)")
  have "t' = map_option (\<lambda>tr. tr\<lparr>l7proto := l7'\<rparr>) t \<and> (l7 \<noteq> L7_UNKNOWN \<longrightarrow> l7' = l7) \<and> l7' \<noteq> L7_UNKNOWN \<and> l7p' = pb_l7p pb"
  proof (cases "l7 = L7_UNKNOWN")
    case True
    then show ?thesis using h assms(2,3) pb(1) by (cases t) (auto simp: probe_hit_def)
  next
    case False
    then have "t' = t" "l7' = l7" "l7p' = pb_l7p pb" using h by (auto simp: probe_hit_def)
    with False same show ?thesis by simp
  qed
  with Some h pb show ?thesis by (auto simp: protocol_probe_find[OF assms(1)])
qed

text \<open>The state of the packet and its connection after a probe.\<close>

definition probed :: "play_state \<Rightarrow> t_l7proto \<Rightarrow> t_l7payload \<Rightarrow> bool" where
  "probed ps l7 l7p \<longleftrightarrow> (ps_l7proto ps \<noteq> L7_UNKNOWN \<longrightarrow> l7 = ps_l7proto ps)
     \<and> (l7 = ps_l7proto ps \<and> l7p = ps_l7payload ps \<or> l7 \<noteq> L7_UNKNOWN)"

lemma track_l7_ok: "track_ok cn autos N c tr \<Longrightarrow> (l7proto tr \<noteq> L7_UNKNOWN \<longrightarrow> l7 = l7proto tr) \<Longrightarrow> track_ok cn autos N c (tr\<lparr>l7proto := l7\<rparr>)"
  by (auto simp: track_ok_def fails_ok_def)

text \<open>A probe of the connection \<open>r\<close>, which is the one the state knows.\<close>

lemma probed_step:
  assumes w: "world_ok cn N w" and ps: "ps_ok cn w ps" and h: "holds w (ps_replay ps) t" and p: "probed ps l7 l7p"
  defines "v \<equiv> set_track (ps_replay ps) (map_option (\<lambda>tr. tr\<lparr>l7proto := l7\<rparr>) t) w" and "q \<equiv> ps\<lparr>ps_l7proto := l7, ps_l7payload := l7p\<rparr>"
  shows "world_ok cn N v \<and> ps_ok cn v q \<and> ps_live v q = ps_live w ps \<and> stays (ps_replay ps) w v"
proof -
  let ?t = "map_option (\<lambda>tr. tr\<lparr>l7proto := l7\<rparr>) t"
  have sy: "synced ps t" using ps h by (auto simp: ps_ok_def holds_def)
  have "tr_ok cn N w (ps_replay ps) ?t" using holds_ok[OF w h] sy p track_l7_ok
    by (cases t) (auto simp: tr_ok_def synced_def probed_def)
  moreover have k: "keeps t ?t" using sy p by (cases t) (auto simp: keeps_def synced_def probed_def)
  ultimately have s: "world_ok cn N v" "holds v (ps_replay ps) ?t" "stays (ps_replay ps) w v"
    using put_step[OF w h] by (simp_all add: v_def)
  have "synced q ?t" using sy by (cases t) (auto simp: synced_def q_def)
  then have "ps_ok cn v q" using s(2) ps p by (auto simp: ps_ok_def q_def ps_known_def probed_def)
  then show ?thesis using s by (simp add: ps_live_def v_def q_def)
qed

subsection \<open>Reassembly\<close>

lemma ReasmFeed_shape:
  assumes s: "reasm_shape r" and l: "len \<le> length payload"
  shows "returns (\<lambda>(ok, r'). reasm_shape r' \<and> r_size r' = r_size r) (ReasmFeed r seq payload len)"
proof -
  define ig where "ig = (if unat (r_seq r - seq) > r_present r then unat (r_seq r - seq) - r_present r else 0)"
  define c n where "c = len - ig" and "n = unat (r_seq r - seq) - ig"
  have n: "n \<le> r_present r" by (simp add: n_def ig_def)
  have U: "ReasmFeed r seq payload len =
     (if seq - r_seq r \<noteq> 0 \<and> seq - r_seq r < REASM_MAX_NEG then Some (False, r)
      else if r_seq r - seq > REASM_MAX_NEG then Some (False, r)
      else if ig \<ge> len then Some (True, r)
      else if r_present r - n + c > r_size r then Some (False, r)
      else do {
        src \<leftarrow> rd_block payload ig c;
        packet \<leftarrow> wr_block (r_packet r) (r_present r - n) src;
        Some (True, if c > n
                then r\<lparr>r_packet := packet, r_present := r_present (r\<lparr>r_packet := packet\<rparr>) + (c - n),
                  r_seq := r_seq (r\<lparr>r_packet := packet\<rparr>) + (of_nat c - of_nat n)\<rparr>
                else r\<lparr>r_packet := packet\<rparr>) })"
    unfolding ReasmFeed_def Let_def ig_def[symmetric] c_def[symmetric] n_def[symmetric] by (rule refl)
  show ?thesis
  proof (cases "ig < len \<and> r_present r - n + c \<le> r_size r")
    case True
    then have src: "rd_block payload ig c = Some (take c (drop ig payload))" using l by (simp add: c_def)
    have "length (take c (drop ig payload)) = c" using True l by (simp add: c_def)
    then obtain pk where pk: "wr_block (r_packet r) (r_present r - n) (take c (drop ig payload)) = Some pk" "length pk = length (r_packet r)"
      using True s by (auto simp: wr_block_def reasm_shape_def)
    show ?thesis unfolding U using s True n by (auto simp: src pk reasm_shape_def)
  next
    case False
    show ?thesis unfolding U using s False by auto
  qed
qed

definition slim :: "ctrack \<Rightarrow> ctrack \<Rightarrow> bool" where
  "slim t t' \<longleftrightarrow> (\<exists>rs q. t' = t\<lparr>reasm_client := rs, delayed := q\<rparr> \<and> reasm_shape rs
     \<and> (q = delayed t \<and> (ReasmIsEmpty rs \<longrightarrow> q = []) \<or> q = []))"

text \<open>Packets wait only while a reassembly is going on.\<close>

definition calm :: "ctrack \<Rightarrow> bool" where
  "calm t \<longleftrightarrow> reasm_shape (reasm_client t) \<and> (ReasmIsEmpty (reasm_client t) \<longrightarrow> delayed t = [])"

lemma track_calm: "track_ok cn autos N c t \<Longrightarrow> calm t"
  by (auto simp: track_ok_def calm_def)

lemma slim_reasm: "reasm_shape rs \<Longrightarrow> (ReasmIsEmpty rs \<longrightarrow> delayed t = []) \<Longrightarrow> slim t (t\<lparr>reasm_client := rs\<rparr>)"
  unfolding slim_def by (rule exI[of _ rs], rule exI[of _ "delayed t"]) simp

lemma slim_ok: "slim t t' \<Longrightarrow> track_ok cn autos N c t \<Longrightarrow> track_ok cn autos N c t'"
  by (auto simp: slim_def track_ok_def fails_ok_def queue_ok_def)

lemma slim_same: "slim t t' \<Longrightarrow> dp t' = dp t \<and> l7proto t' = l7proto t \<and> pos t' = pos t"
  by (auto simp: slim_def)

lemma slim_refl: "calm t \<Longrightarrow> slim t t"
  using slim_reasm[of "reasm_client t" t] by (simp add: calm_def)

lemma reasm_feed_safe:
  assumes c: "calm t" and l: "len \<le> length d"
  shows "returns (\<lambda>(fed, t', sent). slim t t' \<and> fed = (\<not> ReasmIsEmpty (reasm_client t'))) (reasm_feed E t sq d len)"
proof (cases "ReasmIsEmpty (reasm_client t)")
  case True
  then show ?thesis using c by (simp add: reasm_feed_def slim_refl)
next
  case ne: False
  have s: "reasm_shape (reasm_client t)" using c by (simp add: calm_def)
  obtain ok r where f: "ReasmFeed (reasm_client t) sq d len = Some (ok, r)" "reasm_shape r" "r_size r = r_size (reasm_client t)"
    using returns_exists[OF ReasmFeed_shape[OF s l, of sq]] by auto
  show ?thesis
  proof (cases ok)
    case True
    have "\<not> ReasmIsEmpty r" using ne f(3) by (simp add: ReasmIsEmpty_def)
    then show ?thesis using True ne f slim_reasm[OF f(2), of t] by (simp add: reasm_feed_def)
  next
    case False
    have sh: "reasm_shape (ReasmClear r)" "ReasmIsEmpty (ReasmClear r)" by (simp_all add: reasm_shape_def ReasmClear_def ReasmIsEmpty_def)
    have "\<exists>q. snd (send_delayed E (t\<lparr>reasm_client := ReasmClear r\<rparr>)) = (t\<lparr>reasm_client := ReasmClear r, delayed := q\<rparr>, snd (snd (send_delayed E (t\<lparr>reasm_client := ReasmClear r\<rparr>))))
       \<and> q = []"
    proof (cases "delayed t = []")
      case True
      then show ?thesis by (intro exI[of _ "delayed t"]) (simp add: send_delayed_def rawpacket_queue_empty_def)
    next
      case False
      then show ?thesis by (intro exI[of _ "[]"]) (simp add: send_delayed_def rawpacket_queue_empty_def rawsend_queue_def rawsend_loop_all)
    qed
    then obtain q b sent where q: "send_delayed E (t\<lparr>reasm_client := ReasmClear r\<rparr>) = (b, t\<lparr>reasm_client := ReasmClear r, delayed := q\<rparr>, sent)"
      "q = []" by (metis prod.collapse)
    have "slim t (t\<lparr>reasm_client := ReasmClear r, delayed := q\<rparr>)" unfolding slim_def using sh(1) q(2) by blast
    then show ?thesis using ne f False sh q(1) by (simp add: reasm_feed_def)
  qed
qed

lemma reasm_start_safe:
  assumes l: "len \<le> length d" and sz: "5 \<le> sz"
  shows "returns (\<lambda>(ok, r'). reasm_shape r') (reasm_start E r sq sz szMax d len)"
proof -
  have c: "reasm_shape (ReasmClear r)" by (simp add: reasm_shape_def ReasmClear_def)
  obtain ok r1 where i: "ReasmInit (ae_alloc (en_ah E)) (en_junk E) (ReasmClear r) sz sq = (ok, r1)"
    by (cases "ReasmInit (ae_alloc (en_ah E)) (en_junk E) (ReasmClear r) sz sq")
  then have s1: "reasm_shape r1" using c sz by (auto simp: ReasmInit_def reasm_shape_def ReasmClear_def split: if_splits)
  show ?thesis
  proof (cases "sz \<le> szMax \<and> ok")
    case True
    obtain fed r2 where "ReasmFeed r1 sq d len = Some (fed, r2)" "reasm_shape r2"
      using returns_exists[OF ReasmFeed_shape[OF s1 l, of sq]] by auto
    with True i show ?thesis by (simp add: reasm_start_def)
  next
    case False
    then show ?thesis using i s1 c by (auto simp: reasm_start_def Let_def)
  qed
qed

lemma reasm_client_start_safe:
  assumes "calm t" and "len \<le> length d" and "5 \<le> sz" and "delayed t = []"
  shows "returns (\<lambda>(ok, t'). slim t t') (reasm_client_start E t proto sz szMax d len)"
proof (cases "proto = IPPROTO_TCP \<and> pcounter (server (pos t)) \<noteq> 0 \<and> unat (winsize_calc (server (pos t))) < sz")
  case True
  then show ?thesis using slim_refl[OF assms(1)] by (simp add: reasm_client_start_def)
next
  case False
  let ?s = "if proto = IPPROTO_TCP then seq_last (client (pos t)) else 0"
  obtain ok r where "reasm_start E (reasm_client t) ?s sz szMax d len = Some (ok, r)" "reasm_shape r"
    using returns_exists[OF reasm_start_safe[OF assms(2,3), of E "reasm_client t" ?s szMax]] by auto
  then show ?thesis unfolding reasm_client_start_def if_not_P[OF False] using assms(4) by (simp add: slim_reasm)
qed

text \<open>The connection \<open>r\<close> gets another reassembly.\<close>

lemma slim_step:
  assumes w: "world_ok cn N w" and ps: "ps_ok cn w ps" "ps_replay ps = r" and h: "holds w r (Some t)" and s: "slim t t'"
  shows "world_ok cn N (set_track r (Some t') w) \<and> ps_ok cn (set_track r (Some t') w) ps
     \<and> holds (set_track r (Some t') w) r (Some t')"
proof -
  have "tr_ok cn N w r (Some t')" using holds_ok[OF w h] slim_ok[OF s] by (auto simp: tr_ok_def)
  moreover have "synced ps (Some t)" using ps h by (auto simp: ps_ok_def holds_def)
  then have "synced ps (Some t')" using slim_same[OF s] by (simp add: synced_def)
  ultimately show ?thesis using world_ok_set[OF w] holds_set[OF h, of "Some t'"] ps_ok_set[OF ps(1), of "Some t" "Some t'"] h ps(2) by simp
qed

subsection \<open>Delaying a packet\<close>

lemma seen_dis:
  assumes "seen cn dis"
  shows "dis_ok cn dis" "tcp_opts_ok dis"
proof -
  obtain len where l: "packet_ok cn (data_pkt dis) len" "proto_dissect_l3l4 (data_pkt dis) len False = Some dis"
    using assms by (auto simp: seen_def)
  from proto_dissect_safe[of len "data_pkt dis" False] l have "dissect_ok len dis" by (auto simp: packet_ok_def)
  with l show "dis_ok cn dis" by (auto simp: dis_ok_def packet_ok_def)
  show "tcp_opts_ok dis" using l by (auto simp: packet_ok_def tcp_opts_ok_def)
qed

lemma dissect_ok_take:
  assumes "dissect_ok m dis" and "d_ip dis \<noteq> None \<or> d_ip6 dis \<noteq> None"
  defines "n \<equiv> len_pkt dis"
  shows "dissect_ok n (dis\<lparr>data_pkt := take n (data_pkt dis)\<rparr>)"
    and "\<forall>t. d_tcp dis = Some t \<longrightarrow> t + 20 \<le> n" and "\<forall>u. d_udp dis = Some u \<longrightarrow> u + 8 \<le> n"
  using assms by (auto simp: dissect_ok_def split: option.splits)

lemma waiting_of_seen:
  assumes s: "seen cn dis" and e: "ConntrackExtractConn False dis = Some (True, c)"
    and rp: "rp_len rp = len_pkt dis" "rp_packet rp = take (len_pkt dis) (data_pkt dis)"
    and p: "rp_tpos rp = Some p" "pos_ok c p"
  shows "waiting_ok cn c rp"
proof -
  obtain len where l: "packet_ok cn (data_pkt dis) len" "proto_dissect_l3l4 (data_pkt dis) len False = Some dis"
    using s by (auto simp: seen_def)
  have d: "dis_ok cn dis" using seen_dis(1)[OF s] .
  then obtain m where m: "dissect_ok m dis" by (auto simp: dis_ok_def)
  have ip: "d_ip dis \<noteq> None \<or> d_ip6 dis \<noteq> None" using extract_conn_safe[OF d] e by (auto simp: one_ip_def)
  let ?n = "len_pkt dis" and ?e = "dis\<lparr>data_pkt := take (len_pkt dis) (data_pkt dis)\<rparr>"
  from dissect_take[OF _ _ _ l(2) ip] l(1) have t: "proto_dissect_l3l4 (take ?n (data_pkt dis)) ?n False = Some ?e"
    "d_ip dis = Some 0 \<and> 20 \<le> ?n \<or> d_ip dis = None \<and> d_ip6 dis = Some 0 \<and> 40 \<le> ?n" "?n \<le> len" by (auto simp: packet_ok_def)
  have n: "?n \<le> length (data_pkt dis)" using t(3) l(1) by (simp add: packet_ok_def)
  have "dis_ok cn ?e" using dissect_ok_take(1)[OF m ip] d n by (auto simp: dis_ok_def)
  moreover have "ConntrackExtractConn False ?e = Some (True, c)"
    using extract_conn_take[OF n t(2) dissect_ok_take(2,3)[OF m ip] refl, of False] e by simp
  ultimately show ?thesis using t(1) rp p n by (auto simp: waiting_ok_def pos_ok_def)
qed

text \<open>A delayed packet waits behind the others.\<close>

lemma delay_packet_safe:
  assumes w: "world_ok cn N w" and ps: "ps_ok cn w ps" "seen cn (ps_dis ps)" "ConntrackExtractConn False (ps_dis ps) = Some (True, c)"
    and r: "ps_replay ps = Some c" and l7: "ps_l7proto ps \<noteq> L7_UNKNOWN" and ne: "\<forall>t. holds w (Some c) (Some t) \<longrightarrow> \<not> ReasmIsEmpty (reasm_client t)"
  shows "returns (\<lambda>(ok, w'). world_ok cn (N + 1) w' \<and> ps_ok cn w' ps) (delay_packet E a ps c w)"
proof -
  let ?dis = "ps_dis ps"
  obtain t where h: "holds w (Some c) (Some t)" "synced ps (Some t)" using ps(1) r by (auto simp: ps_ok_def holds_iff)
  have ht: "hash_find (ct_pool (w_ct w)) c = Some t" using h(1) by (simp add: holds_iff)
  have tk: "track_ok cn (auto_of (w_ah w)) N c t" using holds_ok[OF w h(1)] by (simp add: tr_ok_def)
  have n: "len_pkt ?dis \<le> length (data_pkt ?dis)" using ps(1) dis_view[of cn ?dis] by (auto simp: ps_ok_def)
  obtain ok q where f: "rawpacket_queue (ae_alloc (en_ah E)) (delayed t) (dr_dst (ps_dir ps)) (pa_fwmark a) (pa_fwmark a OR en_fwmark E)
       (Some (pa_ifin a)) (Some (pa_ifout a)) (data_pkt ?dis) (len_pkt ?dis) (len_payload ?dis) (Some (pos t)) False = Some (ok, q)"
    using n by (cases "ae_alloc (en_ah E)") (auto simp: rawpacket_queue_def Let_def)
  have q: "q = delayed t \<or> (\<exists>rp. q = delayed t @ [rp] \<and> rp_packet rp = take (len_pkt ?dis) (data_pkt ?dis) \<and> rp_len rp = len_pkt ?dis \<and> rp_tpos rp = Some (pos t))"
  proof (cases "ae_alloc (en_ah E)")
    case True
    note f2 = f[unfolded eqTrueI[OF True]]
    from rawpacket_queue_puts[OF f2] show ?thesis by (auto simp: queue_put_def)
  next
    case False
    with f show ?thesis by (simp add: rawpacket_queue_def)
  qed
  have pk: "pos_ok c (pos t)" using tk by (simp add: track_ok_def)
  have "queue_ok cn (N + 1) c q"
    using q
  proof
    assume "q = delayed t"
    with tk show ?thesis by (auto simp: track_ok_def queue_ok_def)
  next
    assume "\<exists>rp. q = delayed t @ [rp] \<and> rp_packet rp = take (len_pkt ?dis) (data_pkt ?dis) \<and> rp_len rp = len_pkt ?dis \<and> rp_tpos rp = Some (pos t)"
    then obtain rp where rp: "q = delayed t @ [rp]" "rp_packet rp = take (len_pkt ?dis) (data_pkt ?dis)" "rp_len rp = len_pkt ?dis" "rp_tpos rp = Some (pos t)" by blast
    have "waiting_ok cn c rp" by (rule waiting_of_seen[OF ps(2,3) rp(3,2,4) pk])
    with tk rp(1) show ?thesis by (auto simp: track_ok_def queue_ok_def)
  qed
  moreover have "l7proto t \<noteq> L7_UNKNOWN" using h(2) l7 by (simp add: synced_def)
  ultimately have "track_ok cn (auto_of (w_ah w)) (N + 1) c (t\<lparr>delayed := q\<rparr>)"
    using tk ne h(1) by (simp add: track_ok_def fails_ok_def)
  then have "tr_ok cn (N + 1) w (Some c) (Some (t\<lparr>delayed := q\<rparr>))" by (simp add: tr_ok_def)
  with world_ok_mono[OF w, of "N + 1"] have w2: "world_ok cn (N + 1) (set_track (Some c) (Some (t\<lparr>delayed := q\<rparr>)) w)" by (intro world_ok_set) simp_all
  have "synced ps (Some (t\<lparr>delayed := q\<rparr>))" using h(2) by (simp add: synced_def)
  with ps_ok_set[OF ps(1), of "Some t" "Some (t\<lparr>delayed := q\<rparr>)"] h(1) r have "ps_ok cn (set_track (Some c) (Some (t\<lparr>delayed := q\<rparr>)) w) ps" by simp
  with w2 show ?thesis by (simp add: delay_packet_def ht f)
qed

subsection \<open>Replaying the queue of a connection\<close>

text \<open>What a player of delayed packets has to promise.\<close>

definition player_ok :: "bool \<Rightarrow> nat \<Rightarrow> 'l player \<Rightarrow> bool" where
  "player_ok cn N R \<longleftrightarrow> (\<forall>a rp w c t. world_ok cn N w \<longrightarrow> waiting_ok cn c rp \<longrightarrow> holds w (Some c) (Some t) \<longrightarrow> l7proto t \<noteq> L7_UNKNOWN \<longrightarrow>
     pa_count a \<noteq> 0 \<longrightarrow> returns (\<lambda>(vm, w'). verdict_ok vm \<and> world_ok cn N w' \<and> stays (Some c) w w') (R a rp w))"

lemma replay_send_safe: "verdict_ok vm \<Longrightarrow> \<exists>g. replay_send rp vm = Some g"
  by (cases vm; cases "snd vm") (auto simp: replay_send_def verdict_ok_def)

lemma replay_offset_safe:
  assumes "waiting_ok cn c rp" and "i \<noteq> 0 \<and> c_l4proto c = IPPROTO_TCP \<longrightarrow> s0 \<noteq> None"
  shows "\<exists>b f s1. replay_offset i off s0 rp = Some (b, f, s1) \<and> (c_l4proto c = IPPROTO_TCP \<longrightarrow> s1 \<noteq> None)"
  using assms by (cases s0; cases "i = 0") (auto simp: waiting_ok_def replay_offset_def Let_def)

lemma replay_delayed_safe:
  assumes R: "player_ok cn N R" and count: "count \<noteq> 0"
  shows "world_ok cn N w \<Longrightarrow> holds w (Some c) (Some t) \<Longrightarrow> (i \<noteq> 0 \<and> c_l4proto c = IPPROTO_TCP \<longrightarrow> s0 \<noteq> None) \<Longrightarrow>
    returns (\<lambda>w'. world_ok cn N w' \<and> (\<exists>t'. holds w' (Some c) (Some t') \<and> delayed t' = [])) (replay_delayed R c count i off s0 w)"
proof (induction "delayed t" arbitrary: w t i off s0)
  case Nil
  have "hash_find (ct_pool (w_ct w)) c = Some t" using Nil.prems(2) by (simp add: holds_iff)
  then have "replay_delayed R c count i off s0 w = Some w"
    by (subst replay_delayed.simps) (simp add: rawpacket_dequeue_def Nil.hyps[symmetric])
  with Nil show ?case by auto
next
  case (Cons rp q)
  have ht: "hash_find (ct_pool (w_ct w)) c = Some t" using Cons.prems(2) by (simp add: holds_iff)
  have tk: "track_ok cn (auto_of (w_ah w)) N c t" using holds_ok[OF Cons.prems(1,2)] by (simp add: tr_ok_def)
  have dq: "rawpacket_dequeue (delayed t) = (Some rp, q)" by (simp add: rawpacket_dequeue_def Cons.hyps(2)[symmetric])
  have wq: "waiting_ok cn c rp" "queue_ok cn N c q" "l7proto t \<noteq> L7_UNKNOWN"
    using tk by (auto simp: track_ok_def queue_ok_def Cons.hyps(2)[symmetric])
  let ?t = "t\<lparr>delayed := q\<rparr>" and ?w = "set_track (Some c) (Some (t\<lparr>delayed := q\<rparr>)) w"
  have "track_ok cn (auto_of (w_ah w)) N c ?t" using tk wq by (simp add: track_ok_def fails_ok_def Cons.hyps(2)[symmetric])
  then have w1: "world_ok cn N ?w" by (intro world_ok_set Cons.prems(1)) (simp add: tr_ok_def)
  have h1: "holds ?w (Some c) (Some ?t)" by (rule holds_set[OF Cons.prems(2)]) simp
  obtain b f s1 where o: "replay_offset i off s0 rp = Some (b, f, s1)" "c_l4proto c = IPPROTO_TCP \<longrightarrow> s1 \<noteq> None"
    using replay_offset_safe[OF wq(1) Cons.prems(3), of off] by blast
  let ?a = "\<lparr>pa_piece = i, pa_count = count, pa_offset = f, pa_fwmark = rp_fwmark_orig rp, pa_ifin = rp_ifin rp,
                        pa_ifout = rp_ifout rp, pa_tpos = rp_tpos rp\<rparr>"
  have "returns (\<lambda>(vm, w'). verdict_ok vm \<and> world_ok cn N w' \<and> stays (Some c) ?w w') (R ?a rp ?w)"
    using R w1 wq(1) h1 wq(3) count unfolding player_ok_def by fastforce
  then obtain vm w2 where r: "R ?a rp ?w = Some (vm, w2)" "verdict_ok vm" "world_ok cn N w2" "stays (Some c) ?w w2" by (auto simp: returns_def)
  obtain g where g: "replay_send rp vm = Some g" using replay_send_safe[OF r(2)] by blast
  obtain u where u: "holds w2 (Some c) u" "keeps (Some ?t) u" using r(4) h1 unfolding stays_def by blast
  then obtain t2 where t2: "holds w2 (Some c) (Some t2)" "q = delayed t2" by (cases u) (auto simp: keeps_def)
  have U: "replay_delayed R c count i off s0 w = replay_delayed R c count (i + 1) (if b then f else f + rp_len_payload rp) s1 (sends g w2)"
    by (subst replay_delayed.simps) (simp add: ht dq o(1) r(1) g)
  show ?case unfolding U
    by (rule Cons.hyps(1)[OF t2(2)]) (use r(3) t2(1) o(2) in simp_all)
qed

lemma replay_finish_safe:
  assumes R: "player_ok cn N R" and N: "N < 2 ^ 32" and w: "world_ok cn N w" and h: "holds w (Some c) (Some t)"
  shows "returns (\<lambda>w'. world_ok cn N w' \<and> get_track w' (Some c) \<noteq> None) (replay_finish E R c w)"
proof -
  have ht: "hash_find (ct_pool (w_ct w)) c = Some t" using h by (simp add: holds_iff)
  have tk: "track_ok cn (auto_of (w_ah w)) N c t" using holds_ok[OF w h] by (simp add: tr_ok_def)
  let ?n = "unat (rawpacket_queue_count (delayed t))"
  have n: "?n = length (delayed t)" using tk N by (simp add: rawpacket_queue_count_length track_ok_def queue_ok_def unsigned_of_nat take_bit_nat_eq_self)
  have "returns (\<lambda>w'. world_ok cn N w' \<and> (\<exists>t'. holds w' (Some c) (Some t') \<and> delayed t' = [])) (replay_delayed R c ?n 0 0 None w)"
  proof (cases "delayed t = []")
    case True
    then have "replay_delayed R c ?n 0 0 None w = Some w" by (subst replay_delayed.simps) (simp add: rawpacket_dequeue_def ht)
    with w h True show ?thesis by auto
  next
    case False
    show ?thesis by (rule replay_delayed_safe[OF R _ w h]) (use False n in simp_all)
  qed
  then obtain w1 t1 where r: "replay_delayed R c ?n 0 0 None w = Some w1" "world_ok cn N w1" "holds w1 (Some c) (Some t1)" by (auto simp: returns_def)
  have "get_track w1 (Some c) \<noteq> None" using r(3) by (simp add: holds_def)
  then obtain w2 where "reasm_client_cancel E (Some c) w1 = Some w2" "world_ok cn N w2" "get_track w2 (Some c) \<noteq> None"
    using returns_exists[OF cancel_safe[OF r(2), of "Some c" E]] by blast
  with r(1) ht show ?thesis by (simp add: replay_finish_def reasm_client_fin_def)
qed

subsection \<open>Packets that may wait\<close>

text \<open>A packet of a client whose connection is \<open>c\<close>, with a known protocol.\<close>

definition may_wait :: "bool \<Rightarrow> play_state \<Rightarrow> conn \<Rightarrow> bool" where
  "may_wait cn ps c \<longleftrightarrow> seen cn (ps_dis ps) \<and> ConntrackExtractConn False (ps_dis ps) = Some (True, c)
     \<and> ps_replay ps = Some c \<and> ps_ctrack ps = Some c"

lemma delay_step_safe:
  assumes R: "player_ok cn (N + 1) R" and N: "N + 1 < 2 ^ 32" and w: "world_ok cn N w" and ps: "ps_ok cn w ps" "ps_live w ps" "may_wait cn ps c"
    and l7: "ps_l7proto ps \<noteq> L7_UNKNOWN"
  shows "returns (\<lambda>(r, w'). world_ok cn (N + 1) w' \<and> get_track w' (Some c) \<noteq> None \<and> (r \<noteq> Delayed \<longrightarrow> ps_ok cn w' ps \<and> ps_live w' ps))
     (delay_step E R a ps complete c w)"
proof -
  obtain t where h: "holds w (Some c) (Some t)" using ps(1,3) by (auto simp: ps_ok_def may_wait_def holds_iff)
  have ht: "hash_find (ct_pool (w_ct w)) c = Some t" using h by (simp add: holds_iff)
  show ?thesis
  proof (cases "ReasmIsEmpty (reasm_client t)")
    case True
    with ht w ps h show ?thesis using world_ok_mono[OF w, of "N + 1"] by (simp add: delay_step_def holds_def)
  next
    case ne: False
    have en: "\<forall>u. holds w (Some c) (Some u) \<longrightarrow> \<not> ReasmIsEmpty (reasm_client u)" using ne holds_unique[OF h] by auto
    have s: "seen cn (ps_dis ps)" "ConntrackExtractConn False (ps_dis ps) = Some (True, c)" "ps_replay ps = Some c"
      using ps(3) by (simp_all add: may_wait_def)
    obtain ok w1 where d: "delay_packet E a ps c w = Some (ok, w1)" "world_ok cn (N + 1) w1" "ps_ok cn w1 ps"
      using returns_exists[OF delay_packet_safe[OF w ps(1) s l7 en, of E a]] by auto
    have l1: "ps_live w1 ps" using d(1) ps(2) by (auto simp: delay_packet_def ht Let_def split: bind_splits prod.splits)
    have g1: "get_track w1 (Some c) \<noteq> None" using held[OF d(3)] s(3) by simp
    show ?thesis
    proof (cases "ok \<and> complete (reasm_client t)")
      case True
      obtain t1 where h1: "holds w1 (Some c) (Some t1)" using d(3) s(3) by (auto simp: ps_ok_def holds_iff)
      obtain w2 where "replay_finish E R c w1 = Some w2" "world_ok cn (N + 1) w2" "get_track w2 (Some c) \<noteq> None"
        using returns_exists[OF replay_finish_safe[OF R N d(2) h1, of E]] by blast
      with True ne ht d(1) show ?thesis by (simp add: delay_step_def)
    next
      case False
      with ne ht d g1 l1 show ?thesis by (cases ok) (simp_all add: delay_step_def)
    qed
  qed
qed

lemma start_reasm_safe:
  assumes w: "world_ok cn N w" and ps: "ps_ok cn w ps" "ps_replay ps = Some c" and l: "b \<longrightarrow> len \<le> length d \<and> 5 \<le> sz"
    and e: "b \<longrightarrow> (\<forall>t. holds w (Some c) (Some t) \<longrightarrow> ReasmIsEmpty (reasm_client t))"
  shows "returns (\<lambda>(ok, w'). world_ok cn N w' \<and> ps_ok cn w' ps \<and> ps_live w' ps = ps_live w ps) (start_reasm E b proto sz szMax d len c w)"
proof (cases b)
  case True
  obtain t where h: "holds w (Some c) (Some t)" using ps by (auto simp: ps_ok_def holds_iff)
  have ht: "hash_find (ct_pool (w_ct w)) c = Some t" using h by (simp add: holds_iff)
  have cl: "calm t" using holds_ok[OF w h] track_calm by (simp add: tr_ok_def)
  then have "delayed t = []" using e True h by (simp add: calm_def)
  then obtain ok t' where s: "reasm_client_start E t proto sz szMax d len = Some (ok, t')" "slim t t'"
    using returns_exists[OF reasm_client_start_safe[of t len d sz E proto szMax]] l True cl by auto
  show ?thesis using slim_step[OF w ps h s(2)] s(1) ht True by (simp add: start_reasm_def)
qed (use w ps in \<open>simp add: start_reasm_def\<close>)

end
