(* ===== verification/ProtoSafe.thy ===== *)
theory ProtoSafe
  imports HandlerSafe
begin

text \<open>
  Safety of the handlers for TCP, UDP, ICMP and other packets (theory Packet).
\<close>

unbundle bit_operations_syntax

subsection \<open>TCP packets\<close>

definition bump :: "play_state \<Rightarrow> nat \<Rightarrow> nat" where
  "bump ps N = (if ps_ctrack ps = None then N else N + 1)"

text \<open>A replayed packet has no connection to delay it for; another one has the connection it was seen on.\<close>

definition mode_ok :: "bool \<Rightarrow> bool \<Rightarrow> play_state \<Rightarrow> bool" where
  "mode_ok cn rp ps \<longleftrightarrow> (if rp then ps_ctrack ps = None \<and> ps_replay ps \<noteq> None \<and> \<not> ps_rev ps else ps_replay ps = ps_ctrack ps)
     \<and> (\<forall>c. ps_ctrack ps = Some c \<longrightarrow> seen cn (ps_dis ps) \<and> (\<not> ps_rev ps \<longrightarrow> ConntrackExtractConn False (ps_dis ps) = Some (True, c)))"

definition same_conn :: "play_state \<Rightarrow> play_state \<Rightarrow> bool" where
  "same_conn a b \<longleftrightarrow> ps_dis b = ps_dis a \<and> ps_ctrack b = ps_ctrack a \<and> ps_replay b = ps_replay a \<and> ps_rev b = ps_rev a"

lemma same_conn_refl [simp]: "same_conn a a" "same_conn a (a\<lparr>ps_l7proto := l7, ps_l7payload := l7p\<rparr>)" "same_conn a (a\<lparr>ps_l7payload := l7p\<rparr>)"
  "same_conn a (set_host h a)"
  by (simp_all add: same_conn_def set_host_def split: option.split)

lemma same_conn_trans: "same_conn a b \<Longrightarrow> same_conn b c \<Longrightarrow> same_conn a c"
  by (simp add: same_conn_def)

lemma same_conn_mode: "same_conn a b \<Longrightarrow> mode_ok cn rp b = mode_ok cn rp a" "same_conn a b \<Longrightarrow> bump b N = bump a N"
  by (simp_all add: same_conn_def mode_ok_def bump_def)

lemma mode_waits: "mode_ok cn rp ps \<Longrightarrow> ps_ctrack ps = Some c \<Longrightarrow> \<not> ps_rev ps \<Longrightarrow> may_wait cn ps c"
  by (auto simp: mode_ok_def may_wait_def split: if_splits)

lemma bump_mono: "world_ok cn N w \<Longrightarrow> world_ok cn (bump ps N) w"
  using world_ok_mono[of cn N w "N + 1"] by (simp add: bump_def)

lemma set_host_ok: "ps_ok cn w ps \<Longrightarrow> ps_l7proto ps \<noteq> L7_UNKNOWN \<Longrightarrow> ps_ok cn w (set_host h ps)" "ps_live w (set_host h ps) = ps_live w ps"
  by (auto simp: set_host_def ps_ok_def ps_known_def ps_live_def synced_def split: option.split)

text \<open>Whether a reassembly is going on does not change.\<close>

definition same_idle :: "conn option \<Rightarrow> 'l world \<Rightarrow> 'l world \<Rightarrow> bool" where
  "same_idle r w w' \<longleftrightarrow> map_option reasm_idle (get_track w' r) = map_option reasm_idle (get_track w r)"

definition rdata_ok :: "play_state \<Rightarrow> bytes \<Rightarrow> 'l world \<Rightarrow> bytes \<Rightarrow> nat \<Rightarrow> bool" where
  "rdata_ok ps y w d n \<longleftrightarrow> n \<le> length d \<and> (\<forall>t. get_track w (ps_replay ps) = Some t \<longrightarrow>
     (\<not> reasm_idle t \<longrightarrow> 5 \<le> length d) \<and> (reasm_idle t \<longrightarrow> ps_ctrack ps \<noteq> None \<longrightarrow> d = y))"

lemma rdata_ok_same: "rdata_ok ps y w d n \<Longrightarrow> same_idle (ps_replay ps) w w' \<Longrightarrow> same_conn ps ps' \<Longrightarrow> rdata_ok ps' y w' d n"
  by (cases "get_track w (ps_replay ps)") (auto simp: rdata_ok_def same_idle_def same_conn_def)

lemma counted_idle: "counted t t' \<Longrightarrow> reasm_idle t' = reasm_idle t"
  by (cases t; cases t') (auto simp: reasm_idle_def counters_same counted_def)

lemma idle_nonempty: "reasm_shape r \<Longrightarrow> \<not> ReasmIsEmpty r \<Longrightarrow> 5 \<le> length (r_packet r)"
  by (auto simp: reasm_shape_def ReasmIsEmpty_def)

lemma tcp_rdata_safe:
  assumes w: "world_ok cn N w" and ps: "ps_ok cn w ps" "ps_live w ps" "mode_ok cn rp ps" and y: "len_payload (ps_dis ps) \<le> length y"
  shows "returns (\<lambda>(d, n, w'). world_ok cn N w' \<and> ps_ok cn w' ps \<and> ps_live w' ps \<and> rdata_ok ps y w' d n \<and> (ps_ctrack ps = None \<longrightarrow> w' = w))
     (tcp_rdata E rp ps y w)"
proof (cases rp)
  case True
  then obtain c where c: "ps_replay ps = Some c" "ps_ctrack ps = None" using ps(3) by (auto simp: mode_ok_def)
  then obtain t where h: "holds w (Some c) (Some t)" using ps(1) by (auto simp: ps_ok_def holds_iff)
  have g: "get_track w (Some c) = Some (Some t)" using h by (simp add: holds_def)
  have s: "reasm_shape (reasm_client t)" using holds_ok[OF w h] by (simp add: tr_ok_def track_ok_def)
  have "rdata_ok ps y w (r_packet (reasm_client t)) (r_present (reasm_client t))"
    using g c s idle_nonempty[OF s] by (auto simp: rdata_ok_def reasm_idle_def reasm_shape_def)
  with True g c w ps show ?thesis by (simp add: tcp_rdata_def)
next
  case False
  then have r: "ps_replay ps = ps_ctrack ps" using ps(3) by (simp add: mode_ok_def)
  obtain t where h: "holds w (ps_ctrack ps) t" using ps(1) r by (auto simp: ps_ok_def)
  have g: "get_track w (ps_ctrack ps) = Some t" using h by (simp add: holds_def)
  show ?thesis
  proof (cases t)
    case None
    with False g w ps y r show ?thesis by (auto simp: tcp_rdata_def rdata_ok_def reasm_idle_def)
  next
    case (Some tr)
    then obtain c where c: "ps_ctrack ps = Some c" using h by (cases "ps_ctrack ps") (auto simp: holds_iff)
    have s: "calm tr" using holds_ok[OF w h] Some c track_calm by (simp add: tr_ok_def)
    obtain fed tr' sent where f: "reasm_client_feed E tr IPPROTO_TCP y (len_payload (ps_dis ps)) = Some (fed, tr', sent)" "slim tr tr'"
       "fed = (\<not> ReasmIsEmpty (reasm_client tr'))"
      using returns_exists[OF reasm_feed_safe[OF s y, of E "if IPPROTO_TCP = IPPROTO_TCP then seq_last (client (pos tr)) else of_nat (r_present (reasm_client tr))"]]
      unfolding reasm_client_feed_def by auto
    let ?w = "set_track (ps_ctrack ps) (Some tr') w"
    have st: "world_ok cn N ?w" "ps_ok cn ?w ps" "holds ?w (ps_ctrack ps) (Some tr')" using slim_step[OF w ps(1) r _ f(2)] h Some by simp_all
    have s2: "reasm_shape (reasm_client tr')" using f(2) by (auto simp: slim_def)
    have "rdata_ok ps y (sends sent ?w) (if fed then r_packet (reasm_client tr') else y) (if fed then r_present (reasm_client tr') else len_payload (ps_dis ps))"
      using st(3) r f(3) s2 y idle_nonempty[OF s2] by (auto simp: rdata_ok_def holds_def reasm_idle_def reasm_shape_def)
    with False g Some c st f(1) ps(2) show ?thesis by (cases fed) (simp_all add: tcp_rdata_def)
  qed
qed

lemma dis_ok_dissect: "dis_ok cn dis \<Longrightarrow> \<exists>n. dissect_ok n dis"
  by (simp add: dis_ok_def)

lemma get_set_track: "holds w r t \<Longrightarrow> (t = None) = (t' = None) \<Longrightarrow> get_track (set_track r t' w) r = Some t'"
  using holds_set[of w r t t'] by (simp add: holds_def)

lemma retrans_step_safe:
  assumes w: "world_ok cn N w" and ps: "ps_ok cn w ps" "ps_live w ps" "mode_ok cn rp ps"
  shows "returns (\<lambda>w'. world_ok cn N w' \<and> ps_ok cn w' ps \<and> ps_live w' ps \<and> stays (ps_replay ps) w w' \<and> same_idle (ps_replay ps) w w')
     (retrans_step E a ps w)"
proof -
  obtain n where n: "dissect_ok n (ps_dis ps)" using ps(1) dis_ok_dissect by (auto simp: ps_ok_def)
  have po: "profiles_ok (w_ah w) (w_ips w)" using w by (simp add: world_ok_def)
  obtain t where t: "holds w (ps_ctrack ps) t" using held[OF ps(1)] by (auto simp: holds_def)
  obtain t' ah sent where r: "process_retrans_fail (en_ah E) (en_addr E) t (ps_dis ps) (dr_src (ps_dir ps)) (pa_ifin a) (w_ah w) = Some (t', ah, sent)"
     "counted t t'" "same_profiles (w_ah w) ah"
    using returns_exists[OF process_retrans_safe[OF po track_fails[OF holds_ok[OF w t] t] n, of "en_ah E" "en_addr E" "dr_src (ps_dir ps)" "pa_ifin a"]] by auto
  have U: "retrans_step E a ps w = Some (sends sent (set_track (ps_ctrack ps) t' (w\<lparr>w_ah := ah\<rparr>)))"
    using t r(1) by (simp add: retrans_step_def holds_def)
  show ?thesis
  proof (cases "ps_ctrack ps")
    case None
    then have "t' = None" using t r(2) by (cases t) (auto simp: holds_iff counted_def)
    have q: "world_ok cn N (w\<lparr>w_ah := ah\<rparr>)" "quiet w (w\<lparr>w_ah := ah\<rparr>)" using quiet_world[OF w r(3)] by simp_all
    have "same_idle (ps_replay ps) w (w\<lparr>w_ah := ah\<rparr>)" by (simp add: same_idle_def)
    then show ?thesis using U None q ps quiet_ps_ok[OF q(2)] ps_live_quiet[OF q(2)] quiet_stays[OF q(2)] by (simp add: set_track_def same_idle_def)
  next
    case (Some c)
    then have rr: "ps_ctrack ps = ps_replay ps" using ps(1) by (auto simp: ps_ok_def)
    have h: "holds w (ps_replay ps) t" using t rr by simp
    note cs = counted_step[OF w ps(1) h r(2,3)]
    have h1: "holds (w\<lparr>w_ah := ah\<rparr>) (ps_replay ps) t" using h by simp
    have "same_idle (ps_replay ps) w (set_track (ps_replay ps) t' (w\<lparr>w_ah := ah\<rparr>))"
      using get_set_track[OF h1 keeps_some[OF counted_keeps[OF r(2)]]] h counted_idle[OF r(2)] by (simp add: same_idle_def holds_def)
    then show ?thesis using U cs rr ps(2) by (simp add: same_idle_def)
  qed
qed

lemma tls_hello_long: "len \<le> length d \<Longrightarrow> IsTLSClientHelloPartial d len = Some True \<Longrightarrow> 11 \<le> len"
  using returns_exists[OF IsTLSHello_wp[of len d 1 True]] by (auto simp: IsTLSClientHelloPartial_def IsTLSClientHello_def)

lemma tcp_client_probe_wp:
  assumes "block16 setkey" and "len \<le> length d" and "\<forall>tr. t = Some tr \<longrightarrow> l7proto tr = l7"
  shows "returns (\<lambda>(t', l7', l7p'). t' = map_option (\<lambda>tr. tr\<lparr>l7proto := l7'\<rparr>) t \<and> (l7 \<noteq> L7_UNKNOWN \<longrightarrow> l7' = l7)
      \<and> ((l7', l7p') = (l7, l7p) \<or> l7' \<noteq> L7_UNKNOWN) \<and> (l7p \<noteq> L7P_TLS_CLIENT_HELLO \<and> l7p' = L7P_TLS_CLIENT_HELLO \<longrightarrow> 11 \<le> length d))
     (tcp_client_probe setkey dis tpos d len (t, l7, l7p))"
proof -
  have ms: "probes_safe (mtproto_testers setkey) d len"
    using IsMTProto_safe[OF assms(1,2)] by (simp add: probes_safe_def mtproto_testers_def)
  have k: "\<forall>pb\<in>set tcp_client_testers. pb_l7 pb \<noteq> L7_UNKNOWN" "\<forall>pb\<in>set (mtproto_testers setkey). pb_l7 pb \<noteq> L7_UNKNOWN"
    by (simp_all add: tcp_client_testers_def mtproto_testers_def)
  obtain t1 l1 p1 where f: "protocol_probe dis tcp_client_testers d len (t, l7, l7p) = Some (t1, l1, p1)"
    "t1 = map_option (\<lambda>tr. tr\<lparr>l7proto := l1\<rparr>) t" "l7 \<noteq> L7_UNKNOWN \<longrightarrow> l1 = l7"
    "(l1, p1) = (l7, l7p) \<or> l1 \<noteq> L7_UNKNOWN \<and> (\<exists>pb\<in>set tcp_client_testers. p1 = pb_l7p pb \<and> pb_check pb d len = Some True)"
    using returns_exists[OF probe_safe[OF testers_safe(3)[OF assms(2)] k(1) assms(3), where dis = dis and l7p = l7p]] by auto
  have long: "l7p \<noteq> L7P_TLS_CLIENT_HELLO \<Longrightarrow> p1 = L7P_TLS_CLIENT_HELLO \<Longrightarrow> 11 \<le> length d"
    using f(4) tls_hello_long[OF assms(2)] assms(2) by (auto simp: tcp_client_testers_def)
  show ?thesis
  proof (cases "p1 = L7P_UNKNOWN \<and> (case tpos of None \<Rightarrow> False | Some tp \<Rightarrow> seq_last (client tp) - seq0 (client tp) = 1)")
    case False
    have "tcp_client_probe setkey dis tpos d len (t, l7, l7p) = Some (t1, l1, p1)" using False f(1) by (auto simp: tcp_client_probe_def)
    then show ?thesis using f long by auto
  next
    case True
    have sy: "\<forall>tr. t1 = Some tr \<longrightarrow> l7proto tr = l1" using f(2) by auto
    obtain t2 l2 p2 where g: "protocol_probe dis (mtproto_testers setkey) d len (t1, l1, p1) = Some (t2, l2, p2)"
      "t2 = map_option (\<lambda>tr. tr\<lparr>l7proto := l2\<rparr>) t1" "l1 \<noteq> L7_UNKNOWN \<longrightarrow> l2 = l1"
      "(l2, p2) = (l1, p1) \<or> l2 \<noteq> L7_UNKNOWN \<and> (\<exists>pb\<in>set (mtproto_testers setkey). p2 = pb_l7p pb \<and> pb_check pb d len = Some True)"
      using returns_exists[OF probe_safe[OF ms k(2) sy, where dis = dis and l7p = p1]] by auto
    have "tcp_client_probe setkey dis tpos d len (t, l7, l7p) = Some (t2, l2, p2)" using True f(1) g(1) by (simp add: tcp_client_probe_def)
    moreover have "t2 = map_option (\<lambda>tr. tr\<lparr>l7proto := l2\<rparr>) t" using f(2) g(2) by (cases t) auto
    moreover have "p2 = L7P_TLS_CLIENT_HELLO \<Longrightarrow> l7p \<noteq> L7P_TLS_CLIENT_HELLO \<Longrightarrow> 11 \<le> length d"
      using g(4) True by (auto simp: mtproto_testers_def)
    moreover have "(l2, p2) = (l7, l7p) \<or> l2 \<noteq> L7_UNKNOWN" using f(4) g(3,4) by auto
    moreover have "l7 \<noteq> L7_UNKNOWN \<longrightarrow> l2 = l7" using f(3) g(3) by auto
    ultimately show ?thesis by auto
  qed
qed

lemma tcp_detect_safe:
  assumes E: "env_good E" and w: "world_ok cn N w" and ps: "ps_ok cn w ps" "ps_live w ps" "mode_ok cn rp ps"
    and d: "rdata_ok ps y w d n" and l7p: "ps_l7payload ps \<noteq> L7P_TLS_CLIENT_HELLO"
  shows "returns (\<lambda>(ps', w'). world_ok cn N w' \<and> ps_ok cn w' ps' \<and> ps_live w' ps' \<and> same_conn ps ps' \<and> stays (ps_replay ps) w w'
      \<and> rdata_ok ps' y w' d n \<and> (ps_l7payload ps' = L7P_TLS_CLIENT_HELLO \<longrightarrow> 5 \<le> length d)) (tcp_detect E ps d n w)"
proof -
  obtain t where h: "holds w (ps_replay ps) t" using held[OF ps(1)] by (auto simp: holds_def)
  have g: "get_track w (ps_replay ps) = Some t" using h by (simp add: holds_def)
  show ?thesis
  proof (cases "reasm_idle t")
    case False
    with g w ps d l7p show ?thesis by (simp add: tcp_detect_def)
  next
    case True
    have sy: "\<forall>tr. t = Some tr \<longrightarrow> l7proto tr = ps_l7proto ps" using ps(1) h by (auto simp: ps_ok_def synced_def holds_def)
    obtain tpos where tp: "ps_positions w ps = Some tpos" by (cases "ps_tpos ps") (auto simp: ps_positions_def g)
    have b16: "block16 (en_setkey E)" using E by (simp add: env_good_def)
    have n: "n \<le> length d" using d by (simp add: rdata_ok_def)
    obtain t' l7' l7p' where p: "tcp_client_probe (en_setkey E) (en_payload_disable E) tpos d n (t, ps_l7proto ps, ps_l7payload ps) = Some (t', l7', l7p')"
      "t' = map_option (\<lambda>tr. tr\<lparr>l7proto := l7'\<rparr>) t" "ps_l7proto ps \<noteq> L7_UNKNOWN \<longrightarrow> l7' = ps_l7proto ps"
      "(l7', l7p') = (ps_l7proto ps, ps_l7payload ps) \<or> l7' \<noteq> L7_UNKNOWN" "l7p' = L7P_TLS_CLIENT_HELLO \<longrightarrow> 11 \<le> length d"
      using returns_exists[OF tcp_client_probe_wp[OF b16 n sy, where dis = "en_payload_disable E" and tpos = tpos and l7p = "ps_l7payload ps"]] l7p by auto
    let ?q = "ps\<lparr>ps_l7proto := l7', ps_l7payload := l7p'\<rparr>" and ?w = "set_track (ps_replay ps) t' w"
    have "probed ps l7' l7p'" using p(3,4) by (auto simp: probed_def)
    from probed_step[OF w ps(1) h this] have s: "world_ok cn N ?w" "ps_ok cn ?w ?q" "ps_live ?w ?q" "stays (ps_replay ps) w ?w"
      using ps(2) p(2) by simp_all
    have "same_idle (ps_replay ps) w ?w" using get_set_track[OF h, of t'] g p(2) by (cases t) (simp_all add: same_idle_def reasm_idle_def)
    then have "rdata_ok ?q y ?w d n" by (rule rdata_ok_same[OF d]) simp
    with True g tp p(1,5) s show ?thesis by (auto simp: tcp_detect_def)
  qed
qed

text \<open>What a step that may delay the packet leaves.\<close>

definition collected :: "bool \<Rightarrow> nat \<Rightarrow> play_state \<Rightarrow> 'l world \<Rightarrow> delay \<times> 'l world \<Rightarrow> bool" where
  "collected cn N ps w = (\<lambda>(r, w'). world_ok cn (bump ps N) w' \<and> get_track w' (ps_ctrack ps) \<noteq> None
     \<and> (r \<noteq> Delayed \<longrightarrow> ps_ok cn w' ps \<and> ps_live w' ps) \<and> (ps_ctrack ps = None \<longrightarrow> r \<noteq> Delayed \<and> w' = w))"

definition waits_safe :: "bool \<Rightarrow> nat \<Rightarrow> play_state \<Rightarrow> 'l player \<Rightarrow> bool" where
  "waits_safe cn N ps R \<longleftrightarrow> (ps_ctrack ps \<noteq> None \<longrightarrow> player_ok cn (N + 1) R \<and> N + 1 < 2 ^ 32)"

lemma collect_go_on: "world_ok cn N w \<Longrightarrow> ps_ok cn w ps \<Longrightarrow> ps_live w ps \<Longrightarrow> collected cn N ps w (GoOn, w)"
  using held bump_mono by (auto simp: collected_def)

text \<open>The reassembly is begun if need be, and the packet waits if there is one.\<close>

lemma collect_safe:
  assumes w: "world_ok cn N w" and ps: "ps_ok cn w ps" "ps_live w ps" "may_wait cn ps c" and R: "waits_safe cn N ps R"
    and l7: "ps_l7proto ps \<noteq> L7_UNKNOWN" and l: "b \<longrightarrow> len \<le> length d \<and> 5 \<le> sz"
    and e: "b \<longrightarrow> (\<forall>t. holds w (Some c) (Some t) \<longrightarrow> ReasmIsEmpty (reasm_client t))"
  shows "returns (collected cn N ps w) (do {
       (ok, w) \<leftarrow> start_reasm E b proto sz szMax d len c w;
       if \<not> ok then Some (GiveUp, w) else delay_step E R a ps complete c w })"
proof -
  have c: "ps_ctrack ps = Some c" "ps_replay ps = Some c" using ps(3) by (simp_all add: may_wait_def)
  have R2: "player_ok cn (N + 1) R" "N + 1 < 2 ^ 32" using R c by (simp_all add: waits_safe_def)
  obtain ok w1 where s: "start_reasm E b proto sz szMax d len c w = Some (ok, w1)" "world_ok cn N w1" "ps_ok cn w1 ps" "ps_live w1 ps"
    using returns_exists[OF start_reasm_safe[OF w ps(1) c(2) l e, of E proto szMax]] ps(2) by auto
  show ?thesis
  proof (cases ok)
    case True
    obtain r w2 where "delay_step E R a ps complete c w1 = Some (r, w2)" "world_ok cn (N + 1) w2" "get_track w2 (Some c) \<noteq> None"
       "r \<noteq> Delayed \<longrightarrow> ps_ok cn w2 ps \<and> ps_live w2 ps"
      using returns_exists[OF delay_step_safe[OF R2 s(2-4) ps(3) l7, of E a complete]] by auto
    with True s(1) c show ?thesis by (simp add: collected_def bump_def)
  next
    case False
    have "get_track w1 (Some c) \<noteq> None" using held[OF s(3)] c by simp
    with False s c world_ok_mono[OF s(2), of "N + 1"] show ?thesis by (simp add: collected_def bump_def)
  qed
qed

lemma TLSRecordLen_long: "5 \<le> length d \<Longrightarrow> \<exists>n. TLSRecordLen d 0 = Some n \<and> 5 \<le> n"
  using pntoh16_in[of 3 d] by (auto simp: TLSRecordLen_def TLSRecordDataLen_def)

lemma tcp_collect_safe:
  assumes w: "world_ok cn N w" and ps: "ps_ok cn w ps" "ps_live w ps" "mode_ok cn rp ps" "\<not> ps_rev ps" and R: "waits_safe cn N ps R"
    and l7: "ps_l7proto ps \<noteq> L7_UNKNOWN" and d: "rdata_ok ps y w d n" "5 \<le> length d" and y: "len_payload (ps_dis ps) \<le> length y"
  shows "returns (collected cn N ps w) (tcp_collect E R a ps y full w)"
proof (cases "ps_ctrack ps = None \<or> l7_payload_match (ps_l7payload ps) (en_reasm_disable E)")
  case True
  then show ?thesis using collect_go_on[OF w ps(1,2)] by (auto simp: tcp_collect_def split: option.split)
next
  case False
  then obtain c where c: "ps_ctrack ps = Some c" by auto
  have m: "may_wait cn ps c" using mode_waits[OF ps(3) c ps(4)] .
  then have r: "ps_replay ps = Some c" by (simp add: may_wait_def)
  obtain t where h: "holds w (Some c) (Some t)" using ps(1) r by (auto simp: ps_ok_def holds_iff)
  have ht: "hash_find (ct_pool (w_ct w)) c = Some t" using h by (simp add: holds_iff)
  define b where "b = (\<not> full \<and> ReasmIsEmpty (reasm_client t) \<and> \<not> is_retransmission (client (pos t)))"
  have ly: "5 \<le> length y" if b
    using that d c r h by (auto simp: b_def rdata_ok_def holds_def reasm_idle_def)
  then obtain sz where sz: "(if b then TLSRecordLen y 0 else Some 0) = Some sz" "b \<longrightarrow> 5 \<le> sz"
    using TLSRecordLen_long[of y] by (cases b) auto
  have l: "b \<longrightarrow> len_payload (ps_dis ps) \<le> length y \<and> 5 \<le> sz" using y sz(2) by simp
  have e: "b \<longrightarrow> (\<forall>u. holds w (Some c) (Some u) \<longrightarrow> ReasmIsEmpty (reasm_client u))" using holds_unique[OF h] by (auto simp: b_def)
  show ?thesis
    using collect_safe[OF w ps(1,2) m R l7 l e, of E IPPROTO_TCP TCP_MAX_REASM a ReasmIsFull] False c
    by (simp add: tcp_collect_def ht sz(1) b_def[symmetric] Let_def)
qed

text \<open>What the handling of the payload leaves.\<close>

definition handled :: "bool \<Rightarrow> nat \<Rightarrow> play_state \<Rightarrow> 'l world \<Rightarrow> bool \<times> play_state \<times> 'l world \<Rightarrow> bool" where
  "handled cn N ps w = (\<lambda>(waits, ps', w'). world_ok cn (bump ps N) w' \<and> same_conn ps ps' \<and> get_track w' (ps_ctrack ps) \<noteq> None
     \<and> (\<not> waits \<longrightarrow> ps_ok cn w' ps' \<and> ps_live w' ps') \<and> (ps_ctrack ps = None \<longrightarrow> \<not> waits \<and> stays (ps_replay ps) w w'))"

lemma handled_stays:
  assumes "handled cn N ps1 w1 (x, ps', w')" and "same_conn ps ps1" and "ps_ctrack ps = None \<longrightarrow> stays (ps_replay ps) w w1"
  shows "handled cn N ps w (x, ps', w')"
  using assms stays_trans[of "ps_replay ps" w w1 w'] same_conn_trans[of ps ps1 ps'] by (auto simp: handled_def same_conn_def bump_def)

lemma handled_now:
  assumes "world_ok cn N w'" and "ps_ok cn w' ps'" and "ps_live w' ps'" and "same_conn ps ps'" and "ps_ctrack ps = None \<longrightarrow> stays (ps_replay ps) w w'"
  shows "handled cn N ps w (False, ps', w')"
  using assms held[OF assms(2)] bump_mono[OF assms(1), of ps] by (auto simp: handled_def same_conn_def)

lemma HttpExtractHost_safe: "len \<le> length d \<Longrightarrow> \<exists>h. HttpExtractHost d len n = Some h"
  using returns_exists[OF HttpExtractHeader_wp[of len d "10 # lit ''Host:''" n]] by (auto simp: HttpExtractHost_def)

lemma TLSHost_safe: "len \<le> length d \<Longrightarrow> \<exists>h. TLSHelloExtractHost d len n b = Some h"
  using returns_exists[OF TLSHelloExtractHost_wp[of len d n b]] by auto

lemma tcp_payload_safe:
  assumes w: "world_ok cn N w" and ps: "ps_ok cn w ps" "ps_live w ps" "mode_ok cn rp ps" "\<not> ps_rev ps" and R: "waits_safe cn N ps R"
    and d: "rdata_ok ps y w d n" "ps_l7payload ps = L7P_TLS_CLIENT_HELLO \<longrightarrow> 5 \<le> length d" and y: "len_payload (ps_dis ps) \<le> length y"
  shows "returns (handled cn N ps w) (tcp_payload E R a ps y d n w)"
proof -
  obtain t where h: "holds w (ps_replay ps) t" using held[OF ps(1)] by (auto simp: holds_def)
  have g: "get_track w (ps_replay ps) = Some t" using h by (simp add: holds_def)
  have n: "n \<le> length d" using d(1) by (simp add: rdata_ok_def)
  have kn: "ps_l7proto ps \<noteq> L7_UNKNOWN" if "ps_l7payload ps \<noteq> L7P_UNKNOWN" "ps_l7payload ps \<noteq> L7P_EMPTY"
    using ps(1) that by (auto simp: ps_ok_def ps_known_def)
  consider (http) "ps_l7payload ps = L7P_HTTP_REQ"
    | (tls) "ps_l7payload ps \<noteq> L7P_HTTP_REQ" "ps_l7payload ps = L7P_TLS_CLIENT_HELLO
       \<or> ps_l7proto ps = L7_TLS \<and> ps_l7payload ps = L7P_UNKNOWN \<and> \<not> reasm_idle t"
    | (other) "ps_l7payload ps \<noteq> L7P_HTTP_REQ" "\<not> (ps_l7payload ps = L7P_TLS_CLIENT_HELLO
       \<or> ps_l7proto ps = L7_TLS \<and> ps_l7payload ps = L7P_UNKNOWN \<and> \<not> reasm_idle t)" by blast
  then show ?thesis
  proof cases
    case http
    obtain x where x: "HttpExtractHost d n 256 = Some x" using HttpExtractHost_safe[OF n] by blast
    have l7: "ps_l7proto ps \<noteq> L7_UNKNOWN" using kn http by simp
    have "handled cn N ps w (False, set_host x ps, w)"
      by (rule handled_now[OF w set_host_ok(1)[OF ps(1) l7]]) (use ps(2) set_host_ok(2)[of w x ps] in simp_all)
    then show ?thesis using g http x by (simp add: tcp_payload_def)
  next
    case other
    have "handled cn N ps w (False, ps, w)" by (rule handled_now[OF w ps(1,2)]) simp_all
    then show ?thesis using other g by (auto simp: tcp_payload_def)
  next
    case tls
    let ?q = "ps\<lparr>ps_l7payload := L7P_TLS_CLIENT_HELLO\<rparr>"
    have l7: "ps_l7proto ps \<noteq> L7_UNKNOWN" using kn tls(2) by auto
    have q: "ps_ok cn w ?q" "ps_live w ?q" "mode_ok cn rp ?q" "\<not> ps_rev ?q" "waits_safe cn N ?q R" "ps_l7proto ?q \<noteq> L7_UNKNOWN" "rdata_ok ?q y w d n"
      using ps R l7 d(1) by (simp_all add: ps_ok_def ps_known_def ps_live_def synced_def mode_ok_def waits_safe_def rdata_ok_def)
    have len: "5 \<le> length d" using tls(2) d g by (auto simp: rdata_ok_def)
    obtain full where f: "IsTLSRecordFull d 0 n = Some full" using TLSRecordLen_long[OF len] by (auto simp: IsTLSRecordFull_def)
    have y2: "len_payload (ps_dis ?q) \<le> length y" using y by simp
    obtain r w1 where c: "tcp_collect E R a ?q y full w = Some (r, w1)" "collected cn N ?q w (r, w1)"
      using returns_exists[OF tcp_collect_safe[OF w q(1-6,7) len y2, of E a full]] by (auto simp del: play_state.simps)
    have U: "tcp_payload E R a ps y d n w = (case r of
          Delayed \<Rightarrow> Some (True, ?q, w1)
        | GiveUp \<Rightarrow> Some (False, ?q, w1)
        | GoOn \<Rightarrow> do { h \<leftarrow> TLSHelloExtractHost d n 256 True; Some (False, set_host h ?q, w1) })"
      using g tls f c(1) by (auto simp: tcp_payload_def Let_def)
    obtain x where x: "TLSHelloExtractHost d n 256 True = Some x" using TLSHost_safe[OF n] by blast
    have cc: "world_ok cn (bump ps N) w1" "get_track w1 (ps_ctrack ps) \<noteq> None" "r \<noteq> Delayed \<Longrightarrow> ps_ok cn w1 ?q \<and> ps_live w1 ?q"
      "ps_ctrack ps = None \<Longrightarrow> r \<noteq> Delayed \<and> w1 = w" using c(2) by (simp_all add: collected_def bump_def)
    have fin: "handled cn N ps w (False, p, w1)" if "r \<noteq> Delayed" "ps_ok cn w1 p" "ps_live w1 p" "same_conn ps p" for p
      using that cc by (auto simp: handled_def)
    have hq: "ps_ok cn w1 (set_host x ?q)" "ps_live w1 (set_host x ?q)" if "r \<noteq> Delayed"
      using cc(3)[OF that] set_host_ok(1)[of cn w1 ?q x] set_host_ok(2)[of w1 x ?q] l7 by auto
    show ?thesis
    proof (cases r)
      case GoOn
      have "handled cn N ps w (False, set_host x ?q, w1)"
        by (rule fin) (use GoOn hq same_conn_trans[of ps ?q "set_host x ?q"] in simp_all)
      then show ?thesis unfolding U GoOn by (simp add: x)
    next
      case GiveUp
      have "handled cn N ps w (False, ?q, w1)" by (rule fin) (use GiveUp cc(3) in simp_all)
      then show ?thesis unfolding U GiveUp by simp
    next
      case Delayed
      have "handled cn N ps w (True, ?q, w1)" using cc Delayed by (auto simp: handled_def)
      then show ?thesis unfolding U Delayed by simp
    qed
  qed
qed

lemma tcp_outgoing_safe:
  assumes E: "env_good E" and w: "world_ok cn N w" and ps: "ps_ok cn w ps" "ps_live w ps" "mode_ok cn (pa_count a \<noteq> 0) ps" "\<not> ps_rev ps"
    and R: "waits_safe cn N ps R" and l7p: "ps_l7payload ps \<noteq> L7P_TLS_CLIENT_HELLO" and y: "len_payload (ps_dis ps) \<le> length y"
  shows "returns (\<lambda>(waits, ps', rd, w'). handled cn N ps w (waits, ps', w')) (tcp_outgoing E R a ps y w)"
proof -
  obtain d n w1 where r: "tcp_rdata E (pa_count a \<noteq> 0) ps y w = Some (d, n, w1)" "world_ok cn N w1" "ps_ok cn w1 ps" "ps_live w1 ps"
    "rdata_ok ps y w1 d n" "ps_ctrack ps = None \<longrightarrow> w1 = w"
    using returns_exists[OF tcp_rdata_safe[OF w ps(1-3) y, of E]] by auto
  obtain w2 where s: "retrans_step E a ps w1 = Some w2" "world_ok cn N w2" "ps_ok cn w2 ps" "ps_live w2 ps" "stays (ps_replay ps) w1 w2"
    "same_idle (ps_replay ps) w1 w2"
    using returns_exists[OF retrans_step_safe[OF r(2-4) ps(3), of E a]] by blast
  have d2: "rdata_ok ps y w2 d n" using rdata_ok_same[OF r(5) s(6)] by simp
  obtain q w3 where q: "tcp_detect E ps d n w2 = Some (q, w3)" "world_ok cn N w3" "ps_ok cn w3 q" "ps_live w3 q" "same_conn ps q"
    "stays (ps_replay ps) w2 w3" "rdata_ok q y w3 d n" "ps_l7payload q = L7P_TLS_CLIENT_HELLO \<longrightarrow> 5 \<le> length d"
    using returns_exists[OF tcp_detect_safe[OF E s(2-4) ps(3) d2 l7p]] by auto
  have m: "mode_ok cn (pa_count a \<noteq> 0) q" "\<not> ps_rev q" "waits_safe cn N q R" "len_payload (ps_dis q) \<le> length y"
    using ps(3,4) R y q(5) same_conn_mode(1)[OF q(5)] by (simp_all add: same_conn_def waits_safe_def)
  obtain b q2 w4 where p: "tcp_payload E R a q y d n w3 = Some (b, q2, w4)" "handled cn N q w3 (b, q2, w4)"
    using returns_exists[OF tcp_payload_safe[OF q(2-4) m(1-3) q(7,8) m(4), of E a]] by auto
  have "stays (ps_replay ps) w w3" if "ps_ctrack ps = None"
    using stays_trans[OF s(5) q(6)] r(6) that by simp
  then have "handled cn N ps w (b, q2, w4)" using handled_stays[OF p(2) q(5), of w] by simp
  then show ?thesis by (simp add: tcp_outgoing_def r(1)[unfolded neq0_conv] s(1) q(1) p(1))
qed

lemma tcp_incoming_safe:
  assumes w: "world_ok cn N w" and ps: "ps_ok cn w ps" "ps_live w ps" "ps_replay ps = ps_ctrack ps" and tcp: "d_tcp (ps_dis ps) \<noteq> None"
  shows "returns (\<lambda>(ps', w'). handled cn N ps w (False, ps', w')) (tcp_incoming E ps fl w)"
proof -
  have dis: "dis_ok cn (ps_dis ps)" "one_ip (ps_dis ps)" using ps(1) by (simp_all add: ps_ok_def)
  obtain y where y: "payload_of (ps_dis ps) = Some y" "len_payload (ps_dis ps) \<le> length y" using payload_of_view[OF dis] by blast
  obtain t where h: "holds w (ps_replay ps) t" using held[OF ps(1)] by (auto simp: holds_def)
  have g: "get_track w (ps_ctrack ps) = Some t" using h ps(3) by (simp add: holds_def)
  have sy: "\<forall>tr. t = Some tr \<longrightarrow> l7proto tr = ps_l7proto ps" using ps(1) h by (auto simp: ps_ok_def synced_def holds_def)
  have k: "\<forall>pb\<in>set tcp_reverse_testers. pb_l7 pb \<noteq> L7_UNKNOWN" by (simp add: tcp_reverse_testers_def)
  obtain t1 l1 p1 where p: "protocol_probe (en_payload_disable E) tcp_reverse_testers y (len_payload (ps_dis ps)) (t, ps_l7proto ps, ps_l7payload ps)
      = Some (t1, l1, p1)" "t1 = map_option (\<lambda>tr. tr\<lparr>l7proto := l1\<rparr>) t" "ps_l7proto ps \<noteq> L7_UNKNOWN \<longrightarrow> l1 = ps_l7proto ps"
      "(l1, p1) = (ps_l7proto ps, ps_l7payload ps) \<or> l1 \<noteq> L7_UNKNOWN"
    using returns_exists[OF probe_safe[OF testers_safe(2)[OF y(2)] k sy, where dis = "en_payload_disable E" and l7p = "ps_l7payload ps"]] by auto
  have "probed ps l1 p1" using p(3,4) by (auto simp: probed_def)
  note ps1 = probed_step[OF w ps(1) h this, folded p(2)]
  obtain q w1 where q: "(if fl AND TH_SYN = 0 \<and> len_payload (ps_dis ps) \<noteq> 0 then do {
          y \<leftarrow> payload_of (ps_dis ps);
          t \<leftarrow> get_track w (ps_ctrack ps);
          (t, l7, l7p) \<leftarrow> protocol_probe (en_payload_disable E) tcp_reverse_testers y (len_payload (ps_dis ps)) (t, ps_l7proto ps, ps_l7payload ps);
          Some (ps\<lparr>ps_l7proto := l7, ps_l7payload := l7p\<rparr>, set_track (ps_ctrack ps) t w) }
        else Some (ps, w)) = Some (q, w1)" "world_ok cn N w1" "ps_ok cn w1 q" "ps_live w1 q" "same_conn ps q" "stays (ps_replay ps) w w1"
    using w ps ps1 y(1) g p(1) by (cases "fl AND TH_SYN = 0 \<and> len_payload (ps_dis ps) \<noteq> 0") auto
  have q3: "ps_ctrack q = ps_ctrack ps" "ps_replay q = ps_replay ps" "ps_dis q = ps_dis ps" using q(5) by (simp_all add: same_conn_def)
  obtain i where i: "ps_dp q = Some i" "i < length (ah_profiles (w_ah w1))" using q(4) by (auto simp: ps_live_def)
  obtain u where hu: "holds w1 (ps_replay q) u" using held[OF q(3)] by (auto simp: holds_def)
  have du: "\<forall>tr. u = Some tr \<longrightarrow> dp tr = Some i" using q(3) hu i(1) by (auto simp: ps_ok_def synced_def holds_def)
  have po: "profiles_ok (w_ah w1) (w_ips w1)" using q(2) by (simp add: world_ok_def)
  obtain m where m: "dissect_ok m (ps_dis ps)" using dis_ok_dissect[OF dis(1)] ..
  obtain u' ah where f: "tcp_reply_fail (en_ah E) u i (ps_dis ps) (ps_l7payload q = L7P_HTTP_REPLY) (w_ah w1) = Some (u', ah)" "counted u u'" "same_profiles (w_ah w1) ah"
    using returns_exists[OF tcp_reply_safe[OF po track_fails[OF holds_ok[OF q(2) hu] hu] m tcp i(2) du, of "en_ah E" "ps_l7payload q = L7P_HTTP_REPLY"]] by auto
  note cs = counted_step[OF q(2,3) hu f(2,3)]
  let ?w = "set_track (ps_replay q) u' (w1\<lparr>w_ah := ah\<rparr>)"
  have U: "tcp_incoming E ps fl w = Some (q, ?w)"
    using hu ps(3) i(1) f(1) q3 unfolding tcp_incoming_def Let_def q(1) by (simp add: holds_def)
  have "handled cn N ps w (False, q, ?w)"
    by (rule handled_now) (use cs q(4,5) q3 stays_trans[OF q(6), of ?w] in simp_all)
  then show ?thesis unfolding U by simp
qed

lemma TH_safe: "dis_ok cn dis \<Longrightarrow> d_tcp dis = Some t \<Longrightarrow> \<exists>fl. th_flags (data_pkt dis) t = Some fl"
  using dis_headers(1)[of cn dis t] by (auto simp: th_flags_def)

text \<open>What the prolog of a packet gives its handler.\<close>

definition begun :: "bool \<Rightarrow> bool \<Rightarrow> dissect \<Rightarrow> 'l world \<Rightarrow> play_state \<Rightarrow> bool" where
  "begun cn rp dis w ps \<longleftrightarrow> ps_ok cn w ps \<and> ps_live w ps \<and> mode_ok cn rp ps \<and> ps_new dis ps"

text \<open>What a handler leaves.\<close>

definition handler_ok :: "bool \<Rightarrow> nat \<Rightarrow> bool \<Rightarrow> play_state \<Rightarrow> 'l world \<Rightarrow> verdict \<times> 'l world \<Rightarrow> bool" where
  "handler_ok cn N rp ps w = (\<lambda>(vm, w'). verdict_ok vm \<and> world_ok cn (bump ps N) w' \<and> (ps_ctrack ps = None \<longrightarrow> stays (ps_replay ps) w w'))"

lemma finish_handled:
  assumes E: "env_good E" and h: "handled cn N ps w (False, q, w1)" and cap: "RECONSTRUCT_MAX_SIZE \<le> cap"
  shows "returns (handler_ok cn N rp ps w) (play_finish E a cap ca q rdat decr w1)"
proof -
  have q: "world_ok cn (bump ps N) w1" "ps_ok cn w1 q" "ps_live w1 q" "same_conn ps q" "ps_ctrack ps = None \<longrightarrow> stays (ps_replay ps) w w1"
    using h by (simp_all add: handled_def)
  show ?thesis
    by (rule returns_mono[OF play_finish_safe[OF E q(1-3) cap]])
       (use q(4,5) stays_trans[of "ps_replay ps" w w1] in \<open>auto simp: played_def handler_ok_def same_conn_def\<close>)
qed

lemma tcp_handler_safe:
  assumes E: "env_good E" and w: "world_ok cn N w" and b: "begun cn (pa_count a \<noteq> 0) dis w ps" and R: "waits_safe cn N ps R"
    and tcp: "d_tcp dis = Some tcp" and cap: "RECONSTRUCT_MAX_SIZE \<le> cap"
  shows "returns (handler_ok cn N rp ps w) (do {
         fl \<leftarrow> th_flags (data_pkt dis) tcp;
         y \<leftarrow> payload_of dis;
         (waits, ps, rdata, w) \<leftarrow>
           (if ps_rev ps then do { (ps, w) \<leftarrow> tcp_incoming E ps fl w; Some (False, ps, take (len_payload dis) y, w) }
            else if fl AND TH_SYN = 0 \<and> len_payload dis \<noteq> 0 then tcp_outgoing E R a ps y w
            else Some (False, ps, take (len_payload dis) y, w));
         if waits then Some ((VERDICT_DROP, None), w)
         else play_finish E a cap True ps (Some rdata) None w })"
proof -
  have ps: "ps_ok cn w ps" "ps_live w ps" "mode_ok cn (pa_count a \<noteq> 0) ps" "ps_dis ps = dis" "ps_l7payload ps \<noteq> L7P_TLS_CLIENT_HELLO"
    using b by (auto simp: begun_def ps_new_def)
  have dis: "dis_ok cn dis" "one_ip dis" using ps(1,4) by (auto simp: ps_ok_def)
  obtain fl where fl: "th_flags (data_pkt dis) tcp = Some fl" using TH_safe[OF dis(1) tcp] by blast
  obtain y where y: "payload_of dis = Some y" "len_payload dis \<le> length y" using payload_of_view[OF dis] by blast
  have "\<exists>waits q rd w1. (if ps_rev ps then do { (ps, w) \<leftarrow> tcp_incoming E ps fl w; Some (False, ps, take (len_payload dis) y, w) }
            else if fl AND TH_SYN = 0 \<and> len_payload dis \<noteq> 0 then tcp_outgoing E R a ps y w
            else Some (False, ps, take (len_payload dis) y, w)) = Some (waits, q, rd, w1) \<and> handled cn N ps w (waits, q, w1)"
  proof (cases "ps_rev ps")
    case True
    then have "ps_replay ps = ps_ctrack ps" using ps(3) by (auto simp: mode_ok_def split: if_splits)
    from returns_exists[OF tcp_incoming_safe[OF w ps(1,2) this, of E fl]] True tcp ps(4) show ?thesis by auto
  next
    case fw: False
    show ?thesis
    proof (cases "fl AND TH_SYN = 0 \<and> len_payload dis \<noteq> 0")
      case True
      have "len_payload (ps_dis ps) \<le> length y" using y(2) ps(4) by simp
      from returns_exists[OF tcp_outgoing_safe[OF E w ps(1-3) fw R ps(5) this]] True fw show ?thesis by auto
    next
      case False
      have "handled cn N ps w (False, ps, w)" by (rule handled_now[OF w ps(1,2)]) simp_all
      with False fw show ?thesis by auto
    qed
  qed
  then obtain waits q rd w1 where r: "(if ps_rev ps then do { (ps, w) \<leftarrow> tcp_incoming E ps fl w; Some (False, ps, take (len_payload dis) y, w) }
            else if fl AND TH_SYN = 0 \<and> len_payload dis \<noteq> 0 then tcp_outgoing E R a ps y w
            else Some (False, ps, take (len_payload dis) y, w)) = Some (waits, q, rd, w1)" "handled cn N ps w (waits, q, w1)" by blast
  show ?thesis
  proof (cases waits)
    case True
    then have "handler_ok cn N rp ps w ((VERDICT_DROP, None), w1)" using r(2) by (auto simp: handled_def handler_ok_def)
    with True show ?thesis unfolding fl y(1) Option.bind.bind_lunit r(1) prod.case by simp
  next
    case False
    have h: "handled cn N ps w (False, q, w1)" using r(2) False by simp
    show ?thesis unfolding fl y(1) Option.bind.bind_lunit r(1) prod.case if_not_P[OF False] by (rule finish_handled[OF E h cap])
  qed
qed

subsection \<open>UDP packets\<close>

lemma crypto_hello_safe:
  "len \<le> length d \<Longrightarrow> returns (\<lambda>r. \<forall>o' n. r = Some (o', n) \<longrightarrow> o' + n \<le> len \<and> 6 \<le> n) (IsQUICCryptoHello d len)"
  unfolding IsQUICCryptoHello_def IsTLSHandshakeClientHello_def
  by (auto simp: wp Let_def not_le not_less intro!: varint_at_wp returns_mono[OF IsTLSHandshakeHello_wp])

lemma handshake_host_safe: "p + len \<le> length d \<Longrightarrow> \<exists>h. TLSHelloExtractHostFromHandshake d p len n True = Some h"
proof -
  assume l: "p + len \<le> length d"
  have "returns (\<lambda>_. True) (TLSHelloExtractHostFromHandshake d p len n True)"
    unfolding TLSHelloExtractHostFromHandshake_def wp
    by (rule returns_mono[OF TLSFindExtInHandshake_wp[OF l]])
       (use l in \<open>auto split: option.split intro!: TLSExtractHostFromExt_wp\<close>)
  then show ?thesis by (auto simp: returns_def)
qed

lemma cancel_ps:
  assumes w: "world_ok cn N w" and ps: "ps_ok cn w ps" "ps_live w ps"
  shows "returns (\<lambda>w'. world_ok cn N w' \<and> ps_ok cn w' ps \<and> ps_live w' ps \<and> (ps_ctrack ps = None \<longrightarrow> w' = w)) (reasm_client_cancel E (ps_ctrack ps) w)"
proof -
  have g: "get_track w (ps_ctrack ps) \<noteq> None" using held[OF ps(1)] by simp
  obtain w' where c: "reasm_client_cancel E (ps_ctrack ps) w = Some w'" "world_ok cn N w'" "ps_ctrack ps = None \<longrightarrow> w' = w"
    "\<forall>p. ps_ok cn w p \<longrightarrow> ps_replay p = ps_ctrack ps \<longrightarrow> ps_ok cn w' p"
    using returns_exists[OF cancel_safe[OF w g, of E]] by (elim exE conjE) (rule that, assumption+)
  have "ps_ok cn w' ps" using c(3,4) ps(1) by (cases "ps_ctrack ps = None") (auto simp: ps_ok_def)
  moreover have "ah_profiles (w_ah w') = ah_profiles (w_ah w)" using c(1)
    by (auto simp: reasm_client_cancel_def Let_def split: bind_splits option.splits prod.splits)
  ultimately show ?thesis using c ps(2) by (simp add: ps_live_def)
qed

lemma cancel_handled:
  assumes "world_ok cn N w1" and "ps_ok cn w1 ps" and "ps_live w1 ps" and "ps_ctrack ps = None \<longrightarrow> w1 = w"
  shows "returns (\<lambda>(waits, ps', dec, w'). handled cn N ps w (waits, ps', w'))
    (do { w \<leftarrow> reasm_client_cancel E (ps_ctrack ps) w1; Some (False, ps, None, w) })"
proof -
  obtain w2 where c: "reasm_client_cancel E (ps_ctrack ps) w1 = Some w2" "world_ok cn N w2" "ps_ok cn w2 ps" "ps_live w2 ps" "ps_ctrack ps = None \<longrightarrow> w2 = w1"
    using returns_exists[OF cancel_ps[OF assms(1-3), of E]] by (elim exE conjE) (rule that, assumption+)
  have "handled cn N ps w (False, ps, w2)" by (rule handled_now[OF c(2-4)]) (use c(5) assms(4) in simp_all)
  with c(1) show ?thesis by simp
qed

lemma quic_clean_safe:
  assumes E: "env_good E" and w: "world_ok cn N w" and ps: "ps_ok cn w ps" "mode_ok cn rp ps" and y: "len_payload (ps_dis ps) \<le> length y"
  shows "returns (\<lambda>r. \<forall>c n. r = Some (c, n) \<longrightarrow> n \<le> length c) (quic_clean E rp ps y w)"
proof (cases rp)
  case True
  then obtain c where c: "ps_replay ps = Some c" using ps(2) by (auto simp: mode_ok_def)
  then obtain t where h: "holds w (Some c) (Some t)" using ps(1) by (auto simp: ps_ok_def holds_iff)
  have "reasm_shape (reasm_client t)" using holds_ok[OF w h] by (simp add: tr_ok_def track_ok_def)
  with True c h show ?thesis by (simp add: quic_clean_def holds_def reasm_shape_def)
next
  case False
  have cr: "crypto_sizes (en_crypto E)" using E by (simp add: env_good_def)
  have l: "UDP_MAX_REASM \<le> length (replicate UDP_MAX_REASM (en_junk E))" by simp
  obtain ok buf n where "QUICDecryptInitial (en_crypto E) y (len_payload (ps_dis ps)) (replicate UDP_MAX_REASM (en_junk E)) UDP_MAX_REASM = Some (ok, buf, n)"
    "length buf = UDP_MAX_REASM" "n \<le> UDP_MAX_REASM"
    using returns_exists[OF QUICDecryptInitial_wp[OF cr y l]] by auto
  with False show ?thesis by (simp add: quic_clean_def)
qed

lemma quic_feed_safe:
  assumes w: "world_ok cn N w" and ps: "ps_ok cn w ps" "ps_live w ps" and n: "n \<le> length cl"
  shows "returns (\<lambda>(r, w'). world_ok cn N w' \<and> ps_ok cn w' ps \<and> ps_live w' ps \<and> (ps_ctrack ps = None \<longrightarrow> w' = w)
     \<and> (\<forall>c m. r = Some (c, m) \<longrightarrow> m \<le> length c)) (quic_feed E ps cl n w)"
proof (cases "quic_collects E ps")
  case None
  with w ps n show ?thesis by (simp add: quic_feed_def)
next
  case (Some c)
  then have c: "ps_ctrack ps = Some c" by (auto simp: quic_collects_def split: if_splits)
  then have r: "ps_replay ps = Some c" using ps(1) by (auto simp: ps_ok_def)
  obtain t where h: "holds w (Some c) (Some t)" using ps(1) r by (auto simp: ps_ok_def holds_iff)
  have ht: "hash_find (ct_pool (w_ct w)) c = Some t" using h by (simp add: holds_iff)
  have s: "calm t" using holds_ok[OF w h] track_calm by (simp add: tr_ok_def)
  show ?thesis
  proof (cases "ReasmIsEmpty (reasm_client t) \<or> \<not> ReasmHasSpace (reasm_client t) n")
    case True
    then show ?thesis using Some ht w ps n c by (cases "ReasmIsEmpty (reasm_client t)") (simp_all add: quic_feed_def)
  next
    case False
    obtain fed t' sent where f: "reasm_client_feed E t IPPROTO_UDP cl n = Some (fed, t', sent)" "slim t t'"
      using returns_exists[OF reasm_feed_safe[OF s n, of E "if IPPROTO_UDP = IPPROTO_TCP then seq_last (client (pos t)) else of_nat (r_present (reasm_client t))"]]
      unfolding reasm_client_feed_def by auto
    have s2: "r_present (reasm_client t') \<le> length (r_packet (reasm_client t'))" using f(2) by (auto simp: slim_def reasm_shape_def)
    show ?thesis using slim_step[OF w ps(1) r h f(2)] Some ht False f(1) ps(2) s2 c by (simp add: quic_feed_def)
  qed
qed

lemma quic_collect_safe:
  assumes w: "world_ok cn N w" and ps: "ps_ok cn w ps" "ps_live w ps" "mode_ok cn rp ps" "\<not> ps_rev ps" and R: "waits_safe cn N ps R"
    and l7: "ps_l7proto ps \<noteq> L7_UNKNOWN" and n: "n \<le> length cl"
  shows "returns (collected cn N ps w) (quic_collect E R a ps cl n start complete w)"
proof (cases "quic_collects E ps")
  case None
  then show ?thesis using collect_go_on[OF w ps(1,2)] by (simp add: quic_collect_def)
next
  case (Some c)
  then have c: "ps_ctrack ps = Some c" by (auto simp: quic_collects_def split: if_splits)
  have m: "may_wait cn ps c" using mode_waits[OF ps(3) c ps(4)] .
  then have r: "ps_replay ps = Some c" by (simp add: may_wait_def)
  obtain t where h: "holds w (Some c) (Some t)" using ps(1) r by (auto simp: ps_ok_def holds_iff)
  have ht: "hash_find (ct_pool (w_ct w)) c = Some t" using h by (simp add: holds_iff)
  have "(start \<and> ReasmIsEmpty (reasm_client t)) \<longrightarrow> n \<le> length cl \<and> 5 \<le> UDP_MAX_REASM" using n by (simp add: UDP_MAX_REASM_def)
  moreover have "(start \<and> ReasmIsEmpty (reasm_client t)) \<longrightarrow> (\<forall>u. holds w (Some c) (Some u) \<longrightarrow> ReasmIsEmpty (reasm_client u))"
    using holds_unique[OF h] by auto
  ultimately have "returns (collected cn N ps w) (do {
       (ok, w) \<leftarrow> start_reasm E (start \<and> ReasmIsEmpty (reasm_client t)) IPPROTO_UDP UDP_MAX_REASM UDP_MAX_REASM cl n c w;
       if \<not> ok then Some (GiveUp, w) else delay_step E R a ps (\<lambda>r. complete) c w })"
    by (rule collect_safe[OF w ps(1,2) m R l7])
  with Some ht
  show ?thesis by (simp add: quic_collect_def)
qed

lemma collected_go:
  assumes "collected cn N ps w (r, w1)" and "r \<noteq> Delayed"
  shows "world_ok cn (bump ps N) w1" "ps_ok cn w1 ps" "ps_live w1 ps" "ps_ctrack ps = None \<longrightarrow> w1 = w"
  using assms by (auto simp: collected_def)

lemma collected_handled:
  assumes "collected cn N ps w (r, w1)"
  shows "r = Delayed \<Longrightarrow> handled cn N ps w (True, ps, w1)" and "r = GiveUp \<Longrightarrow> handled cn N ps w (False, ps, w1)"
  using assms by (auto simp: collected_def handled_def)

lemma quic_full_safe:
  assumes w: "world_ok cn N w" and ps: "ps_ok cn w ps" "ps_live w ps" "mode_ok cn rp ps" "\<not> ps_rev ps" and R: "waits_safe cn N ps R"
    and l7: "ps_l7proto ps \<noteq> L7_UNKNOWN" and n: "n \<le> length cl" "m \<le> length buf"
  shows "returns (\<lambda>(waits, ps', dec, w'). handled cn N ps w (waits, ps', w')) (quic_full E R a ps cl n buf m w)"
proof -
  obtain hello where he: "IsQUICCryptoHello buf m = Some hello" "\<forall>o' n. hello = Some (o', n) \<longrightarrow> o' + n \<le> m \<and> 6 \<le> n"
    using returns_exists[OF crypto_hello_safe[OF n(2)]] by blast
  have "\<exists>b. (case hello of None \<Rightarrow> Some False | Some (ho, hl) \<Rightarrow> IsTLSHandshakeFull buf ho hl) = Some b"
  proof (cases hello)
    case (Some x)
    obtain ho hl where x: "x = (ho, hl)" by (cases x)
    have "ho + 4 \<le> length buf" using he(2) Some x n(2) by auto
    from returns_exists[OF IsTLSHandshakeFull_wp[OF this, of hl]] show ?thesis using Some x by auto
  qed auto
  then obtain co where co: "(case hello of None \<Rightarrow> Some False | Some (ho, hl) \<Rightarrow> IsTLSHandshakeFull buf ho hl) = Some co" ..
  obtain r w1 where c: "quic_collect E R a ps cl n (hello \<noteq> None \<and> \<not> co) co w = Some (r, w1)" "collected cn N ps w (r, w1)"
    using returns_exists[OF quic_collect_safe[OF w ps R l7 n(1), of E a "hello \<noteq> None \<and> \<not> co" co]] by auto
  show ?thesis
  proof (cases r)
    case GoOn
    have g: "world_ok cn (bump ps N) w1" "ps_ok cn w1 ps" "ps_live w1 ps" "ps_ctrack ps = None \<longrightarrow> w1 = w"
      using collected_go[OF c(2)] GoOn by simp_all
    have gt: "get_track w1 (ps_ctrack ps) \<noteq> None" using held[OF g(2)] by simp
    show ?thesis
    proof (cases hello)
      case None
      obtain w2 where k: "reasm_client_cancel E (ps_ctrack ps) w1 = Some w2" "world_ok cn (bump ps N) w2" "ps_ok cn w2 ps" "ps_live w2 ps" "ps_ctrack ps = None \<longrightarrow> w2 = w1"
        using returns_exists[OF cancel_ps[OF g(1-3), of E]] by (elim exE conjE) (rule that, assumption+)
      have "handled cn N ps w (False, ps, w2)" using k g(4) held[OF k(3)] by (auto simp: handled_def)
      then show ?thesis using None GoOn he(1) co c(1) k(1) by (simp add: quic_full_def)
    next
      case (Some x)
      obtain ho hl where x: "x = (ho, hl)" by (cases x)
      have l: "ho + hl \<le> length buf" using he(2) Some x n(2) by auto
      obtain h where h: "TLSHelloExtractHostFromHandshake buf ho hl 256 True = Some h" using handshake_host_safe[OF l] by blast
      have "handled cn N ps w (False, set_host h ps, w1)"
        using g gt set_host_ok(1)[OF g(2) l7, of h] set_host_ok(2)[of w1 h ps] by (auto simp: handled_def)
      moreover have "rd_block buf ho hl = Some (take hl (drop ho buf))" using l by (simp add: rd_block_def)
      ultimately show ?thesis using Some x GoOn he(1) co c(1) h by (simp add: quic_full_def)
    qed
  qed (use he(1) co c(1) collected_handled[OF c(2)] in \<open>simp_all add: quic_full_def\<close>)
qed

lemma quic_partial_safe:
  assumes w: "world_ok cn N w" and ps: "ps_ok cn w ps" "ps_live w ps" "mode_ok cn rp ps" "\<not> ps_rev ps" and R: "waits_safe cn N ps R"
    and l7: "ps_l7proto ps \<noteq> L7_UNKNOWN" and n: "n \<le> length cl"
  shows "returns (\<lambda>(waits, ps', dec, w'). handled cn N ps w (waits, ps', w')) (quic_partial E R a ps cl n w)"
proof -
  obtain r w1 where c: "quic_collect E R a ps cl n True False w = Some (r, w1)" "collected cn N ps w (r, w1)"
    using returns_exists[OF quic_collect_safe[OF w ps R l7 n, of E a True False]] by auto
  show ?thesis
  proof (cases r)
    case GoOn
    have g: "world_ok cn (bump ps N) w1" "ps_ok cn w1 ps" "ps_live w1 ps" "ps_ctrack ps = None \<longrightarrow> w1 = w"
      using collected_go[OF c(2)] GoOn by simp_all
    obtain w2 where k: "reasm_client_cancel E (ps_ctrack ps) w1 = Some w2" "world_ok cn (bump ps N) w2" "ps_ok cn w2 ps" "ps_live w2 ps" "ps_ctrack ps = None \<longrightarrow> w2 = w1"
      using returns_exists[OF cancel_ps[OF g(1-3), of E]] by (elim exE conjE) (rule that, assumption+)
    have "handled cn N ps w (False, ps, w2)" using k g(4) held[OF k(3)] by (auto simp: handled_def)
    then show ?thesis using GoOn c(1) k(1) by (simp add: quic_partial_def)
  qed (use c(1) collected_handled[OF c(2)] in \<open>simp_all add: quic_partial_def\<close>)
qed

lemma quic_initial_safe:
  assumes E: "env_good E" and w: "world_ok cn N w" and ps: "ps_ok cn w ps" "ps_live w ps" "mode_ok cn (pa_count a \<noteq> 0) ps" "\<not> ps_rev ps"
    and R: "waits_safe cn N ps R" and l7: "ps_l7proto ps \<noteq> L7_UNKNOWN" and y: "len_payload (ps_dis ps) \<le> length y"
  shows "returns (\<lambda>(waits, ps', dec, w'). handled cn N ps w (waits, ps', w')) (quic_initial E R a ps y w)"
proof -
  obtain cl where cl: "quic_clean E (pa_count a \<noteq> 0) ps y w = Some cl" "\<forall>c n. cl = Some (c, n) \<longrightarrow> n \<le> length c"
    using returns_exists[OF quic_clean_safe[OF E w ps(1,3) y]] by blast
  note cl1 = cl(1)[unfolded neq0_conv]
  show ?thesis
  proof (cases cl)
    case None
    then show ?thesis using cancel_handled[OF w ps(1,2), of w E] cl1 by (simp add: quic_initial_def)
  next
    case (Some x)
    obtain c n where x: "x = (c, n)" by (cases x)
    have n: "n \<le> length c" using cl(2) Some x by simp
    obtain r w1 where f: "quic_feed E ps c n w = Some (r, w1)" "world_ok cn N w1" "ps_ok cn w1 ps" "ps_live w1 ps" "ps_ctrack ps = None \<longrightarrow> w1 = w"
      "\<forall>c m. r = Some (c, m) \<longrightarrow> m \<le> length c"
      using returns_exists[OF quic_feed_safe[OF w ps(1,2) n, of E]] by auto
    have st: "ps_ctrack ps = None \<longrightarrow> stays (ps_replay ps) w w1" using f(5) by auto
    show ?thesis
    proof (cases r)
      case None
      have "handled cn N ps w (False, ps, w1)" by (rule handled_now[OF f(2-4)]) (use st in simp_all)
      then show ?thesis using None Some x cl1 f(1) by (simp add: quic_initial_def)
    next
      case r: (Some z)
      obtain c2 n2 where z: "z = (c2, n2)" by (cases z)
      have n2: "n2 \<le> length c2" using f(6) r z by simp
      have l: "UDP_MAX_REASM \<le> length (replicate UDP_MAX_REASM (en_junk E))" by simp
      obtain ok buf m full where d: "QUICDefragCrypto c2 n2 (replicate UDP_MAX_REASM (en_junk E)) UDP_MAX_REASM False = Some (ok, buf, m, full)"
        "length buf = UDP_MAX_REASM" "m \<le> UDP_MAX_REASM"
        using returns_exists[OF QUICDefragCrypto_wp[OF n2 l, of False]] by auto
      have m: "m \<le> length buf" using d by simp
      have U: "quic_initial E R a ps y w = (if \<not> ok then do { w \<leftarrow> reasm_client_cancel E (ps_ctrack ps) w1; Some (False, ps, None, w) }
               else if full then quic_full E R a ps c2 n2 buf m w1
               else quic_partial E R a ps c2 n2 w1)"
        using Some x cl1 f(1) r z d(1) by (simp add: quic_initial_def)
      have lift: "returns (\<lambda>(waits, ps', dec, w'). handled cn N ps w (waits, ps', w')) g"
        if "returns (\<lambda>(waits, ps', dec, w'). handled cn N ps w1 (waits, ps', w')) g" for g
        by (rule returns_mono[OF that]) (use handled_stays[of cn N ps w1 _ _ _ ps w] st in auto)
      show ?thesis
      proof (rule lift)
        show "returns (\<lambda>(waits, ps', dec, w'). handled cn N ps w1 (waits, ps', w')) (quic_initial E R a ps y w)"
        proof (cases ok)
          case False
          show ?thesis unfolding U if_P[OF False] by (rule cancel_handled[OF f(2-4)]) simp
        next
          case True
          then have ok: "\<not> \<not> ok" by simp
          show ?thesis unfolding U if_not_P[OF ok]
            using quic_full_safe[OF f(2-4) ps(3,4) R l7 n2 m, of E a] quic_partial_safe[OF f(2-4) ps(3,4) R l7 n2, of E a]
            by (cases full) simp_all
        qed
      qed
    qed
  qed
qed

lemma handled_ipc: "handled cn N ps w (b, q, w') \<Longrightarrow> handled cn N ps w (b, q, w'\<lparr>w_ipc := x\<rparr>)"
  by (simp add: handled_def)

lemma udp_payload_safe:
  assumes E: "env_good E" and w: "world_ok (en_cache_hostname E) N w" and b: "begun (en_cache_hostname E) (pa_count a \<noteq> 0) dis w ps"
    and R: "waits_safe (en_cache_hostname E) N ps R" and l7: "pa_count a \<noteq> 0 \<longrightarrow> ps_l7proto ps \<noteq> L7_UNKNOWN" and udp: "d_udp dis \<noteq> None"
  shows "returns (\<lambda>(waits, ps', dec, w'). handled (en_cache_hostname E) N ps w (waits, ps', w')) (udp_payload E R a ps w)"
proof -
  let ?cn = "en_cache_hostname E"
  have ps: "ps_ok ?cn w ps" "ps_live w ps" "mode_ok ?cn (pa_count a \<noteq> 0) ps" "ps_dis ps = dis"
    "ps_l7payload ps = L7P_UNKNOWN \<or> ps_l7payload ps = L7P_EMPTY"
    using b by (auto simp: begun_def ps_new_def)
  have dis: "dis_ok ?cn dis" "one_ip dis" using ps(1,4) by (auto simp: ps_ok_def)
  obtain y where y: "payload_of dis = Some y" "len_payload dis \<le> length y" "length y < 2 ^ 64" using payload_of_view[OF dis] by blast
  obtain t where h: "holds w (ps_ctrack ps) t" using held[OF ps(1)] by (auto simp: holds_def)
  have g: "get_track w (ps_ctrack ps) = Some t" using h by (simp add: holds_def)
  have sy: "\<forall>tr. t = Some tr \<longrightarrow> l7proto tr = ps_l7proto ps"
    using ps(1) h by (cases "ps_ctrack ps = None") (auto simp: ps_ok_def synced_def holds_def)
  have k: "\<forall>pb\<in>set udp_testers. pb_l7 pb \<noteq> L7_UNKNOWN" by (simp add: udp_testers_def)
  obtain t1 l1 p1 where p: "udp_standard_protocol_probe (en_payload_disable E) y (len_payload dis) (t, ps_l7proto ps, ps_l7payload ps) = Some (t1, l1, p1)"
      "t1 = map_option (\<lambda>tr. tr\<lparr>l7proto := l1\<rparr>) t" "ps_l7proto ps \<noteq> L7_UNKNOWN \<longrightarrow> l1 = ps_l7proto ps"
      "(l1, p1) = (ps_l7proto ps, ps_l7payload ps) \<or> l1 \<noteq> L7_UNKNOWN \<and> (\<exists>pb\<in>set udp_testers. p1 = pb_l7p pb \<and> pb_check pb y (len_payload dis) = Some True)"
    using returns_exists[OF probe_safe[OF testers_safe(1)[OF y(2)] k sy, where dis = "en_payload_disable E" and l7p = "ps_l7payload ps"]]
    unfolding udp_standard_protocol_probe_def by auto
  have pr: "probed ps l1 p1" using p(3,4) by (auto simp: probed_def)
  let ?q = "ps\<lparr>ps_l7proto := l1, ps_l7payload := p1\<rparr>" and ?w = "set_track (ps_ctrack ps) t1 w"
  have q: "world_ok ?cn N ?w \<and> ps_ok ?cn ?w ?q \<and> ps_live ?w ?q \<and> stays (ps_replay ps) w ?w"
  proof (cases "ps_replay ps = ps_ctrack ps")
    case True
    then show ?thesis using probed_step[OF w ps(1) _ pr, of t] h p(2) ps(2) by simp
  next
    case False
    then have rp: "pa_count a \<noteq> 0" "ps_ctrack ps = None" using ps(3) by (auto simp: mode_ok_def split: if_splits)
    then have "t1 = None" "l1 = ps_l7proto ps" using h p(2,3) l7 by (auto simp: holds_iff)
    moreover have "ps_ok ?cn w ?q" using ps(1) l7 rp(1) calculation(2) by (auto simp: ps_ok_def ps_known_def synced_def)
    ultimately show ?thesis using w ps(2) rp(2) by (simp add: set_track_def ps_live_def)
  qed
  have dns: "\<exists>ok ipc. feed_dns_response ?cn (ae_alloc (en_ah E)) (ae_alloc (en_ah E)) (en_now E) c y (len_payload dis) = Some (ok, ipc)"
    if "p1 = L7P_DNS_RESPONSE" for c
  proof (cases ?cn)
    case True
    have "IsDNSResponse y (len_payload dis) = Some True" using p(4) that ps(5) by (auto simp: udp_testers_def)
    moreover have "12 \<le> len_payload dis" using dns_wp(2)[OF y(2)] calculation by simp
    moreover have "len_payload dis \<noteq> 12" using dis(1) udp True by (simp add: dis_ok_def)
    ultimately show ?thesis using feed_dns_response_safe[OF y(2), of ?cn] y by auto
  qed (auto simp: feed_dns_response_def)
  have st: "ps_ctrack ps = None \<longrightarrow> stays (ps_replay ps) w ?w" using q by blast
  have "\<exists>waits q2 dec w2. (if \<not> ps_rev ?q \<and> p1 = L7P_QUIC_INITIAL then quic_initial E R a ?q y ?w else Some (False, ?q, None, ?w)) = Some (waits, q2, dec, w2)
      \<and> handled ?cn N ps w (waits, q2, w2)"
  proof (cases "\<not> ps_rev ?q \<and> p1 = L7P_QUIC_INITIAL")
    case True
    have "l1 \<noteq> L7_UNKNOWN" using p(4) ps(5) True by auto
    then have l: "ps_l7proto ?q \<noteq> L7_UNKNOWN" by simp
    have m: "mode_ok ?cn (pa_count a \<noteq> 0) ?q" "waits_safe ?cn N ?q R" "len_payload (ps_dis ?q) \<le> length y"
      using ps(3,4) R y(2) same_conn_mode(1)[of ps ?q] by (simp_all add: waits_safe_def)
    obtain waits q2 dec w2 where f: "quic_initial E R a ?q y ?w = Some (waits, q2, dec, w2)" "handled ?cn N ?q ?w (waits, q2, w2)"
      using returns_exists[OF quic_initial_safe[OF E _ _ _ m(1) _ m(2) l m(3), of ?w]] q True by auto
    have "handled ?cn N ps w (waits, q2, w2)" by (rule handled_stays[OF f(2) _ st]) simp
    with f(1) True show ?thesis by auto
  next
    case False
    have qq: "world_ok ?cn N ?w" "ps_ok ?cn ?w ?q" "ps_live ?w ?q" using q by blast+
    have "handled ?cn N ps w (False, ?q, ?w)" by (rule handled_now[OF qq _ st]) simp
    with False show ?thesis by auto
  qed
  then obtain waits q2 dec w2 where r: "(if \<not> ps_rev ?q \<and> p1 = L7P_QUIC_INITIAL then quic_initial E R a ?q y ?w else Some (False, ?q, None, ?w)) = Some (waits, q2, dec, w2)"
    "handled ?cn N ps w (waits, q2, w2)" by blast
  show ?thesis
  proof (cases "p1 = L7P_DNS_RESPONSE")
    case True
    obtain ok ipc where d: "feed_dns_response ?cn (ae_alloc (en_ah E)) (ae_alloc (en_ah E)) (en_now E) (w_ipc w2) y (len_payload dis) = Some (ok, ipc)"
      using dns[OF True] by blast
    show ?thesis using handled_ipc[OF r(2), of ipc] r(1) d True g p(1) y(1) ps(4) by (simp add: udp_payload_def Let_def)
  next
    case False
    show ?thesis unfolding udp_payload_def Let_def ps(4) y(1) g Option.bind.bind_lunit p(1) prod.case r(1) using r(2) False by simp
  qed
qed

lemma udp_handler_safe:
  assumes E: "env_good E" and w: "world_ok (en_cache_hostname E) N w" and b: "begun (en_cache_hostname E) (pa_count a \<noteq> 0) dis w ps"
    and R: "waits_safe (en_cache_hostname E) N ps R" and l7: "pa_count a \<noteq> 0 \<longrightarrow> ps_l7proto ps \<noteq> L7_UNKNOWN" and udp: "d_udp dis \<noteq> None"
    and cap: "RECONSTRUCT_MAX_SIZE \<le> cap"
  shows "returns (handler_ok (en_cache_hostname E) N rp ps w) (do {
         (waits, ps, dec, w) \<leftarrow> (if len_payload dis \<noteq> 0 then udp_payload E R a ps w else Some (False, ps, None, w));
         if waits then do {
           t \<leftarrow> get_track w (ps_ctrack ps);
           vm \<leftarrow> ct_new_postnat_fix (ae_server (en_ah E)) t dis cap;
           Some (vm, w) }
         else do {
           w \<leftarrow> reasm_client_cancel E (ps_ctrack ps) w;
           play_finish E a cap False ps None dec w } })"
proof -
  let ?cn = "en_cache_hostname E"
  have ps: "ps_ok ?cn w ps" "ps_live w ps" "ps_dis ps = dis" using b by (auto simp: begun_def ps_new_def)
  have dis: "dis_ok ?cn dis" "one_ip dis" using ps(1,3) by (auto simp: ps_ok_def)
  have "\<exists>waits q dec w1. (if len_payload dis \<noteq> 0 then udp_payload E R a ps w else Some (False, ps, None, w)) = Some (waits, q, dec, w1)
      \<and> handled ?cn N ps w (waits, q, w1)"
  proof (cases "len_payload dis \<noteq> 0")
    case True
    then show ?thesis using returns_exists[OF udp_payload_safe[OF E w b R l7 udp]] by auto
  next
    case False
    have "handled ?cn N ps w (False, ps, w)" by (rule handled_now[OF w ps(1,2)]) simp_all
    with False show ?thesis by auto
  qed
  then obtain waits q dec w1 where r: "(if len_payload dis \<noteq> 0 then udp_payload E R a ps w else Some (False, ps, None, w)) = Some (waits, q, dec, w1)"
    "handled ?cn N ps w (waits, q, w1)" by blast
  have c: "ps_ctrack q = ps_ctrack ps" using r(2) by (simp add: handled_def same_conn_def)
  show ?thesis
  proof (cases waits)
    case True
    have k: "world_ok ?cn (bump ps N) w1" "get_track w1 (ps_ctrack q) \<noteq> None" "ps_ctrack ps \<noteq> None" using r(2) True c by (auto simp: handled_def)
    then obtain t where t: "get_track w1 (ps_ctrack q) = Some t" by blast
    obtain v m where p: "ct_new_postnat_fix (ae_server (en_ah E)) t dis cap = Some (v, m)" "verdict_ok (v, m)"
      using returns_exists[OF postnat_safe[OF dis, of "ae_server (en_ah E)" t cap]] by auto
    have "handler_ok ?cn N rp ps w ((v, m), w1)" using k p(2) by (auto simp: handler_ok_def)
    then show ?thesis unfolding r(1) Option.bind.bind_lunit prod.case if_P[OF True] t p(1) by simp
  next
    case False
    have k: "world_ok ?cn (bump ps N) w1" "ps_ok ?cn w1 q" "ps_live w1 q" "same_conn ps q" "ps_ctrack ps = None \<longrightarrow> stays (ps_replay ps) w w1"
      using r(2) False by (simp_all add: handled_def)
    obtain w2 where z: "reasm_client_cancel E (ps_ctrack q) w1 = Some w2" "world_ok ?cn (bump ps N) w2" "ps_ok ?cn w2 q" "ps_live w2 q" "ps_ctrack q = None \<longrightarrow> w2 = w1"
      using returns_exists[OF cancel_ps[OF k(1-3), of E]] by (elim exE conjE) (rule that, assumption+)
    have "handled ?cn N ps w (False, q, w2)"
      using z k held[OF z(3)] c by (auto simp: handled_def)
    then show ?thesis unfolding r(1) Option.bind.bind_lunit prod.case if_not_P[OF False] z(1) by (rule finish_handled[OF E _ cap])
  qed
qed

subsection \<open>ICMP and other packets\<close>

lemma ip_src_dst_safe:
  assumes "dis_ok cn dis" and "one_ip dis"
  shows "\<exists>s4 s6 d4 d6. ip_src_dst dis = Some ((s4, s6), (d4, d6)) \<and> addr_ok s4 s6 \<and> addr_ok d4 d6"
proof -
  from dis_view[OF assms] have "d_ip dis = Some 0 \<and> d_ip6 dis = None \<and> 20 \<le> length (data_pkt dis)
     \<or> d_ip dis = None \<and> d_ip6 dis = Some 0 \<and> 40 \<le> length (data_pkt dis)" by auto
  then show ?thesis by (auto simp: ip_src_dst_def Let_def addr_ok_def)
qed

lemma find_ip_profile_safe:
  assumes E: "env_good E" and w: "world_ok cn N w" and d: "dis_ok cn dis" "one_ip dis"
  shows "returns (\<lambda>(r, w'). world_ok cn N w' \<and> quiet w w' \<and> (\<forall>k. r = Some k \<longrightarrow> k < length (ah_profiles (w_ah w'))))
     (find_ip_profile E dis ty co host is_ip ssid w)"
proof -
  obtain s4 s6 d4 d6 where s: "ip_src_dst dis = Some ((s4, s6), (d4, d6))" "addr_ok s4 s6" "addr_ok d4 d6"
    using ip_src_dst_safe[OF d] by blast
  let ?x = "\<lparr>tg_proto = d_proto dis, tg_ip = d4, tg_ip6 = d6, tg_ipr = s4, tg_ipr6 = s6, tg_port = 0,
       tg_icmp_type = ty, tg_icmp_code = co, tg_host = host, tg_nosub = is_ip, tg_l7 = L7_UNKNOWN, tg_ssid = ssid\<rparr>"
  have "target_ok ?x" using s by (simp add: target_ok_def)
  from returns_exists[OF find_profile_safe[OF E w this, of no_check]] show ?thesis
    using s(1) quiet_profiles(1) by (fastforce simp: find_ip_profile_def)
qed

lemma ip_desync_safe:
  assumes E: "env_good E" and w: "world_ok cn N w" and i: "i < length (ah_profiles (w_ah w))" and h: "holds w c t"
    and d: "dis_ok cn dis" "one_ip dis" and cap: "RECONSTRUCT_MAX_SIZE \<le> cap"
  shows "returns (\<lambda>(vm, w'). verdict_ok vm \<and> world_ok cn N w') (ip_desync E a cap dis i incoming c l7p w)"
proof -
  obtain s4 s6 d4 d6 where s: "ip_src_dst dis = Some ((s4, s6), (d4, d6))" using ip_src_dst_safe[OF d] by blast
  have L: "scripts_tame (en_lua E)" using E by (simp add: env_good_def)
  have d: "returns (\<lambda>(v, m, t', s'). verdict_ok (v, m) \<and> world_ok cn N (set_track c t' (w\<lparr>w_lua := s'\<rparr>)))
      (desync (en_lua E) p t None x addr cap (w_lua w))" for p x addr
    using desync_returns[OF L cap, of p t None x addr "w_lua w"] desync_step[OF w h, where L = "en_lua E"]
    by (cases "desync (en_lua E) p t None x addr cap (w_lua w)") (auto simp: returns_def)
  show ?thesis using i h s by (auto simp: ip_desync_def holds_def Let_def returns_bind returns_rd intro!: returns_mono[OF d])
qed

lemma double_search_safe:
  assumes "dis_ok cn dis"
  shows "\<exists>r. ConntrackPoolDoubleSearch p dis = Some r \<and> (\<forall>c b. r = Some (c, b) \<longrightarrow> hash_find (ct_pool p) c \<noteq> None)"
proof -
  obtain ok c where "ConntrackExtractConn False dis = Some (ok, c)" using extract_conn_safe[OF assms] by blast
  then show ?thesis by (auto simp: ConntrackPoolDoubleSearch_def ConntrackPoolDoubleSearchPool_def)
qed

lemma icmp_attached_safe:
  assumes s: "seen cn dis" and i: "one_ip dis" "d_icmp dis = Some ic" "ty = data_pkt dis ! ic"
  shows "\<exists>l7p r. icmp_attached dis ty w = Some (l7p, r) \<and> (\<forall>c b. r = Some (c, b) \<longrightarrow> hash_find (ct_pool (w_ct w)) c \<noteq> None)"
proof (cases "icmp_carries ty")
  case True
  have d: "dis_ok cn dis" using seen_dis(1)[OF s] .
  obtain y where y: "data_payload dis = Some y" "y + len_payload dis \<le> length (data_pkt dis)" using dis_view[OF d i(1)] by auto
  let ?y = "drop y (data_pkt dis)"
  have p: "payload_of dis = Some ?y" "len_payload dis \<le> length ?y" "length ?y < 2 ^ 64" using y d by (auto simp: payload_of_def dis_ok_def)
  have "ip_len_sane ?y (len_payload dis)" using s i True y(1) by (auto simp: seen_def packet_ok_def)
  then obtain adis where a: "proto_dissect_l3l4 ?y (len_payload dis) True = Some adis" "data_pkt adis = ?y" "dissect_ok (len_payload dis) adis"
    using proto_dissect_safe[OF p(2,3)] by blast
  have "dis_ok False adis" using a(2,3) p(3) by (auto simp: dis_ok_def)
  from double_search_safe[OF this, of "w_ct w"] obtain r where "ConntrackPoolDoubleSearch (w_ct w) adis = Some r"
     "\<forall>c b. r = Some (c, b) \<longrightarrow> hash_find (ct_pool (w_ct w)) c \<noteq> None" by blast
  with True p(1) a(1) show ?thesis by (auto simp: icmp_attached_def)
qed (simp add: icmp_attached_def)

lemma icmp_handler_safe:
  assumes E: "env_good E" and w: "world_ok cn N w" and s: "seen cn dis" and ic: "d_icmp dis \<noteq> None" "one_ip dis"
    and cap: "RECONSTRUCT_MAX_SIZE \<le> cap"
  shows "returns (\<lambda>(vm, w'). verdict_ok vm \<and> world_ok cn N w') (dpi_desync_icmp_packet E a dis cap w)"
proof -
  have d: "dis_ok cn dis" using seen_dis(1)[OF s] .
  obtain i where i: "d_icmp dis = Some i" using ic(1) by auto
  have il: "i + 8 \<le> length (data_pkt dis)" using dis_headers(3)[OF d i] .
  define ty where "ty = data_pkt dis ! i"
  define co where "co = data_pkt dis ! (i + 1)"
  have rd: "rd (data_pkt dis) i = Some ty" "rd (data_pkt dis) (i + 1) = Some co" using il by (simp_all add: rd_def ty_def co_def)
  obtain l7p r where at: "icmp_attached dis ty w = Some (l7p, r)" "\<forall>c b. r = Some (c, b) \<longrightarrow> hash_find (ct_pool (w_ct w)) c \<noteq> None"
    using icmp_attached_safe[OF s ic(2) i ty_def, of w] by blast
  define c where "c = map_option fst r"
  have "\<exists>t. get_track w c = Some t" using at(2) by (cases r) (auto simp: c_def get_track_def)
  then obtain t where g: "get_track w c = Some t" ..
  have h: "holds w c t" using g by (simp add: holds_def)
  obtain s4 s6 d4 d6 where sd: "ip_src_dst dis = Some ((s4, s6), (d4, d6))" using ip_src_dst_safe[OF d ic(2)] by blast
  define known where "known = (case t of Some tr \<Rightarrow> if dp_search_complete tr then dp tr else None | None \<Rightarrow> None)"
  define look where "look = (\<lambda>ssid. case known of
             Some i \<Rightarrow> Some (Some i, w)
           | None \<Rightarrow> do {
               (src, dst) \<leftarrow> ip_src_dst dis;
               let (host, is_ip) = (case t of
                   Some tr \<Rightarrow> if hostname tr \<noteq> None then (hostname tr, hostname_is_ip tr) else cached_host E (w_ipc w) src dst
                 | None \<Rightarrow> cached_host E (w_ipc w) src dst);
               find_ip_profile E dis ty co host is_ip ssid w })"
  have lk: "returns (\<lambda>(i, w'). world_ok cn N w' \<and> quiet w w' \<and> (\<forall>k. i = Some k \<longrightarrow> k < length (ah_profiles (w_ah w')))) (look ssid)" for ssid
  proof (cases known)
    case (Some k)
    have "k < length (ah_profiles (w_ah w))"
    proof -
      obtain tr where tr: "t = Some tr" "dp tr = Some k" using Some by (auto simp: known_def split: option.splits if_splits)
      then obtain cc where "c = Some cc" using h by (cases c) (auto simp: holds_iff)
      then have "track_ok cn (auto_of (w_ah w)) N cc tr" using holds_ok[OF w h] tr(1) by (simp add: tr_ok_def)
      then show ?thesis using tr(2) by (simp add: track_ok_def fails_ok_def auto_length)
    qed
    with Some w show ?thesis by (simp add: look_def)
  next
    case None
    obtain hn ii where hn: "(case t of
                   Some tr \<Rightarrow> if hostname tr \<noteq> None then (hostname tr, hostname_is_ip tr) else cached_host E (w_ipc w) (s4, s6) (d4, d6)
                 | None \<Rightarrow> cached_host E (w_ipc w) (s4, s6) (d4, d6)) = (hn, ii)" by (rule prod.exhaust)
    show ?thesis unfolding look_def None option.case sd Option.bind.bind_lunit prod.case hn Let_def
      by (rule find_ip_profile_safe[OF E w d ic(2)])
  qed
  have fin: "returns (\<lambda>(vm, w'). verdict_ok vm \<and> world_ok cn N w') (do {
        (i, w) \<leftarrow> look ssid;
        (case i of None \<Rightarrow> Some ((VERDICT_PASS, None), w) | Some i \<Rightarrow> ip_desync E a cap dis i inc c l7p w) })" for ssid inc
  proof -
    obtain k w1 where k: "look ssid = Some (k, w1)" "world_ok cn N w1" "quiet w w1" "\<forall>j. k = Some j \<longrightarrow> j < length (ah_profiles (w_ah w1))"
      using returns_exists[OF lk[of ssid]] by auto
    have h1: "holds w1 c t" using h quiet_holds[OF k(3)] by simp
    show ?thesis
    proof (cases k)
      case (Some j)
      then have j: "j < length (ah_profiles (w_ah w1))" using k(4) by simp
      show ?thesis unfolding k(1) Some Option.bind.bind_lunit prod.case option.case by (rule ip_desync_safe[OF E k(2) j h1 d ic(2) cap])
    qed (use k in simp)
  qed
  have ne: "\<not> (d_ip dis = None) = (d_ip6 dis = None)" using ic(2) by (auto simp: one_ip_def)
  have look: "(case known of
             Some i \<Rightarrow> Some (Some i, w)
           | None \<Rightarrow> do {
               (src, dst) \<leftarrow> ip_src_dst dis;
               (case (case t of
                   Some tr \<Rightarrow> if hostname tr \<noteq> None then (hostname tr, hostname_is_ip tr) else cached_host E (w_ipc w) src dst
                 | None \<Rightarrow> cached_host E (w_ipc w) src dst) of (host, is_ip) \<Rightarrow>
               find_ip_profile E dis ty co host is_ip ssid w) }) = look ssid" for ssid
    by (simp only: look_def Let_def)
  show ?thesis
    unfolding dpi_desync_icmp_packet_def if_not_P[OF ne] i Option.bind.bind_lunit rd at(1) prod.case Let_def c_def[symmetric] g
      known_def[symmetric] look
    by (rule fin)
qed

lemma ip_handler_safe:
  assumes E: "env_good E" and w: "world_ok cn N w" and d: "dis_ok cn dis" "one_ip dis" and cap: "RECONSTRUCT_MAX_SIZE \<le> cap"
  shows "returns (\<lambda>(vm, w'). verdict_ok vm \<and> world_ok cn N w') (dpi_desync_ip_packet E a dis cap w)"
proof -
  obtain s4 s6 d4 d6 where sd: "ip_src_dst dis = Some ((s4, s6), (d4, d6))" using ip_src_dst_safe[OF d] by blast
  obtain hn ii where hn: "cached_host E (w_ipc w) (s4, s6) (d4, d6) = (hn, ii)" by (cases "cached_host E (w_ipc w) (s4, s6) (d4, d6)")
  have fin: "returns (\<lambda>(vm, w'). verdict_ok vm \<and> world_ok cn N w') (do {
        (i, w) \<leftarrow> find_ip_profile E dis 255 255 hn ii ssid w;
        (case i of None \<Rightarrow> Some ((VERDICT_PASS, None), w) | Some i \<Rightarrow> ip_desync E a cap dis i inc None L7P_UNKNOWN w) })" for ssid inc
  proof -
    obtain k w1 where k: "find_ip_profile E dis 255 255 hn ii ssid w = Some (k, w1)" "world_ok cn N w1" "\<forall>j. k = Some j \<longrightarrow> j < length (ah_profiles (w_ah w1))"
      using returns_exists[OF find_ip_profile_safe[OF E w d, of 255 255 hn ii ssid]] by auto
    have h1: "holds w1 None None" by (simp add: holds_iff)
    show ?thesis
    proof (cases k)
      case (Some j)
      then have j: "j < length (ah_profiles (w_ah w1))" using k(3) by simp
      show ?thesis unfolding k(1) Some Option.bind.bind_lunit prod.case option.case by (rule ip_desync_safe[OF E k(2) j h1 d cap])
    qed (use k in simp)
  qed
  have ne: "\<not> (d_ip dis = None) = (d_ip6 dis = None)" using d(2) by (auto simp: one_ip_def)
  show ?thesis
    using fin d(2) by (auto simp: dpi_desync_ip_packet_def one_ip_def sd hn Let_def)
qed

end
