(* ===== verification/PacketSafe.thy ===== *)
theory PacketSafe
  imports ProtoSafe
begin

text \<open>
  The entry of the program (theory Packet) as a whole: its safety, put together from the handlers; what a deeper recursion
  would change, which is nothing; the runs of the program over sequences of packets; and the replay of a complete hello.
\<close>

unbundle bit_operations_syntax

subsection \<open>A packet from its arrival to its verdict\<close>

lemma prolog_begun:
  assumes E: "env_good E" and w: "world_ok cn N w" and s: "seen cn dis" "one_ip dis"
  shows "returns (\<lambda>(ps, w'). world_ok cn N w' \<and> (\<forall>p. ps = Some p \<longrightarrow> begun cn False dis w' p)) (play_prolog E dis tpos False ifin ifout w)"
proof -
  have ne: "\<not> (d_ip dis = None) = (d_ip6 dis = None)" using s(2) by (auto simp: one_ip_def)
  obtain r w1 where p: "prolog_real E dis tpos ifin ifout w = Some (r, w1)" "world_ok cn N w1"
    "\<forall>p. r = Some p \<longrightarrow> ps_ok cn w1 p \<and> ps_live w1 p \<and> ps_real dis p"
    using returns_exists[OF prolog_real_safe[OF E w seen_dis[OF s(1)] s(2), of tpos ifin ifout]] by auto
  have "begun cn False dis w1 q" if "r = Some q" for q
    using p(3) that s(1) by (auto simp: begun_def ps_real_def mode_ok_def ps_new_def)
  with p(1,2) show ?thesis unfolding play_prolog_def if_not_P[OF ne] by simp
qed

lemma prolog_begun_again:
  assumes E: "env_good E" and w: "world_ok cn N w" and d: "dis_ok cn dis" "ConntrackExtractConn False dis = Some (True, c)"
    and h: "holds w (Some c) (Some t)" "l7proto t \<noteq> L7_UNKNOWN"
  shows "returns (\<lambda>(ps, w'). world_ok cn N w' \<and> stays (Some c) w w' \<and> (\<forall>p. ps = Some p \<longrightarrow> begun cn True dis w' p
     \<and> ps_ctrack p = None \<and> ps_replay p = Some c \<and> ps_l7proto p \<noteq> L7_UNKNOWN)) (play_prolog E dis tpos True ifin ifout w)"
proof -
  have ip: "one_ip dis" using extract_conn_safe[OF d(1)] d(2) by auto
  then have ne: "\<not> (d_ip dis = None) = (d_ip6 dis = None)" by (auto simp: one_ip_def)
  have ht: "hash_find (ct_pool (w_ct w)) c = Some t" using h(1) by (simp add: holds_iff)
  obtain r w1 t1 where p: "prolog_replay E dis tpos ifin ifout w = Some (r, w1)" "world_ok cn N w1" "holds w1 (Some c) (Some t1)"
    "delayed t1 = delayed t" "l7proto t1 = l7proto t" "reasm_client t1 = reasm_client t"
    "\<forall>p. r = Some p \<longrightarrow> ps_ok cn w1 p \<and> ps_live w1 p \<and> ps_new dis p \<and> ps_ctrack p = None \<and> ps_replay p = Some c \<and> \<not> ps_rev p"
    using returns_exists[OF prolog_replay_safe[OF E w d ht, of tpos ifin ifout]] by auto
  have "keeps (Some t) (Some t1)" using p(4,5,6) by (simp add: keeps_def)
  then have st: "stays (Some c) w w1" unfolding stays_def using p(3) holds_unique[OF h(1)] by blast
  have "begun cn True dis w1 q \<and> ps_ctrack q = None \<and> ps_replay q = Some c \<and> ps_l7proto q \<noteq> L7_UNKNOWN" if "r = Some q" for q
  proof -
    have q: "ps_ok cn w1 q" "ps_live w1 q" "ps_new dis q" "ps_ctrack q = None" "ps_replay q = Some c" "\<not> ps_rev q" using p(7) that by blast+
    have "synced q (Some t1)" using q(1,5) p(3) by (auto simp: ps_ok_def holds_def)
    then have "ps_l7proto q \<noteq> L7_UNKNOWN" using p(5) h(2) by (simp add: synced_def)
    with q show ?thesis by (simp add: begun_def mode_ok_def)
  qed
  with p(1,2) st show ?thesis unfolding play_prolog_def if_not_P[OF ne] by simp
qed

text \<open>A delayed packet is played again.\<close>

lemma replayed_safe:
  assumes E: "env_good E" and w: "world_ok (en_cache_hostname E) N w" and rp: "waiting_ok (en_cache_hostname E) c rp"
    and h: "holds w (Some c) (Some t)" "l7proto t \<noteq> L7_UNKNOWN" and a: "pa_count a \<noteq> 0"
    and cap: "RECONSTRUCT_MAX_SIZE \<le> cap"
  shows "returns (\<lambda>(vm, w'). verdict_ok vm \<and> world_ok (en_cache_hostname E) N w' \<and> stays (Some c) w w')
     (dpi_desync_packet_play E (Suc n) a (rp_packet rp) (rp_len rp) cap w)"
proof -
  let ?cn = "en_cache_hostname E"
  let ?R = "\<lambda>a rp w. dpi_desync_packet_play E n a (rp_packet rp) (rp_len rp) RECONSTRUCT_MAX_SIZE w"
  obtain dis where d: "proto_dissect_l3l4 (rp_packet rp) (rp_len rp) False = Some dis" "dis_ok ?cn dis" "ConntrackExtractConn False dis = Some (True, c)"
    using rp by (auto simp: waiting_ok_def)
  have x: "one_ip dis" "d_tcp dis \<noteq> None \<or> d_udp dis \<noteq> None" using extract_conn_safe[OF d(2)] d(3) by auto
  have ne: "(d_ip dis = None) \<noteq> (d_ip6 dis = None)" using x(1) by (simp add: one_ip_def)
  obtain r w1 where p: "play_prolog E dis (pa_tpos a) True (pa_ifin a) (pa_ifout a) w = Some (r, w1)" "world_ok ?cn N w1" "stays (Some c) w w1"
    "\<forall>p. r = Some p \<longrightarrow> begun ?cn True dis w1 p \<and> ps_ctrack p = None \<and> ps_replay p = Some c \<and> ps_l7proto p \<noteq> L7_UNKNOWN"
    using returns_exists[OF prolog_begun_again[OF E w d(2,3) h, of "pa_tpos a" "pa_ifin a" "pa_ifout a"]] by auto
  have rep: "(pa_count a \<noteq> 0) = True" using a by simp
  have out: "returns (\<lambda>(vm, w'). verdict_ok vm \<and> world_ok ?cn N w' \<and> stays (Some c) w w') g"
    if "returns (handler_ok ?cn N True ps w1) g" "r = Some ps" for g ps
    by (rule returns_mono[OF that(1)]) (use p(4) that(2) stays_trans[OF p(3)] in \<open>auto simp: handler_ok_def bump_def\<close>)
  have "returns (\<lambda>(vm, w'). verdict_ok vm \<and> world_ok ?cn N w' \<and> stays (Some c) w w') (play_dissected E ?R a dis cap w)"
  proof (cases r)
    case None
    have n: "play_dissected E ?R a dis cap w = Some ((VERDICT_PASS, None), w1)"
      using x(2) ne p(1)[unfolded None] a
      by (cases "d_tcp dis = None") (simp_all add: play_dissected_def dpi_desync_tcp_packet_play_def dpi_desync_udp_packet_play_def)
    show ?thesis unfolding n using p(2,3) by simp
  next
    case (Some ps)
    have b: "begun ?cn (pa_count a \<noteq> 0) dis w1 ps" "ps_ctrack ps = None" "ps_l7proto ps \<noteq> L7_UNKNOWN" using p(4) Some rep by simp_all
    have R: "waits_safe ?cn N ps ?R" using b(2) by (simp add: waits_safe_def)
    show ?thesis
    proof (cases "d_tcp dis")
      case tcp: (Some i)
      show ?thesis
        unfolding play_dissected_def if_P[OF ne] dpi_desync_tcp_packet_play_def rep p(1)[unfolded Some] Option.bind.bind_lunit prod.case option.case tcp
        using out[OF tcp_handler_safe[OF E p(2) b(1) R tcp cap, of True] Some] by simp
    next
      case None
      then have u: "d_udp dis \<noteq> None" using x(2) by simp
      have l7: "pa_count a \<noteq> 0 \<longrightarrow> ps_l7proto ps \<noteq> L7_UNKNOWN" using b(3) by simp
      show ?thesis
        unfolding play_dissected_def if_P[OF ne] dpi_desync_udp_packet_play_def rep p(1)[unfolded Some] Option.bind.bind_lunit prod.case option.case
        using out[OF udp_handler_safe[OF E p(2) b(1) R l7 u cap, of True] Some] None u by simp
    qed
  qed
  then show ?thesis using d(1) by simp
qed

lemma player_safe:
  assumes "env_good E" and "RECONSTRUCT_MAX_SIZE \<le> cap"
  shows "player_ok (en_cache_hostname E) N (\<lambda>a rp w. dpi_desync_packet_play E (Suc n) a (rp_packet rp) (rp_len rp) cap w)"
  unfolding player_ok_def using replayed_safe[OF assms(1) _ _ _ _ _ assms(2)] by blast

text \<open>A packet of the network.\<close>

lemma play_safe:
  assumes E: "env_good E" and w: "world_ok (en_cache_hostname E) N w" and N: "N + 1 < 2 ^ 32" and d: "packet_ok (en_cache_hostname E) d len"
    and a: "pa_count a = 0" and cap: "RECONSTRUCT_MAX_SIZE \<le> cap"
  shows "returns (\<lambda>(vm, w'). verdict_ok vm \<and> world_ok (en_cache_hostname E) (N + 1) w') (dpi_desync_packet_play E (Suc (Suc n)) a d len cap w)"
proof -
  let ?cn = "en_cache_hostname E"
  let ?R = "\<lambda>a rp w. dpi_desync_packet_play E (Suc n) a (rp_packet rp) (rp_len rp) RECONSTRUCT_MAX_SIZE w"
  let ?ok = "\<lambda>(vm, w'). verdict_ok vm \<and> world_ok ?cn (N + 1) w'"
  have dd: "len \<le> length d" "length d < 2 ^ 64" "ip_len_sane d len" using d by (simp_all add: packet_ok_def)
  obtain dis where dis: "proto_dissect_l3l4 d len False = Some dis" "data_pkt dis = d" using proto_dissect_safe[OF dd] by blast
  have s: "seen ?cn dis" using d dis by (auto simp: seen_def)
  have w1: "world_ok ?cn (N + 1) w" using world_ok_mono[OF w] by simp
  have "returns ?ok (play_dissected E ?R a dis cap w)"
  proof (cases "one_ip dis")
    case False
    then have "\<not> (d_ip dis = None) \<noteq> (d_ip6 dis = None)" by (simp add: one_ip_def)
    then show ?thesis using w1 by (simp add: play_dissected_def)
  next
    case ip: True
    then have ne: "(d_ip dis = None) \<noteq> (d_ip6 dis = None)" by (simp add: one_ip_def)
    obtain r v where p: "play_prolog E dis (pa_tpos a) False (pa_ifin a) (pa_ifout a) w = Some (r, v)" "world_ok ?cn N v"
      "\<forall>p. r = Some p \<longrightarrow> begun ?cn False dis v p"
      using returns_exists[OF prolog_begun[OF E w s ip, of "pa_tpos a" "pa_ifin a" "pa_ifout a"]] by auto
    have rep: "(pa_count a \<noteq> 0) = False" using a by simp
    have v1: "world_ok ?cn (N + 1) v" using world_ok_mono[OF p(2)] by simp
    have out: "returns ?ok g" if "returns (handler_ok ?cn N False ps v) g" for g ps
      by (rule returns_mono[OF that]) (auto simp: handler_ok_def bump_def intro: world_ok_mono split: if_splits)
    have R: "waits_safe ?cn N ps ?R" for ps unfolding waits_safe_def using player_safe[OF E order_refl] N by blast
    show ?thesis
    proof (cases "d_tcp dis")
      case tcp: (Some i)
      show ?thesis
      proof (cases r)
        case None
        show ?thesis unfolding play_dissected_def if_P[OF ne] dpi_desync_tcp_packet_play_def rep p(1)[unfolded None] Option.bind.bind_lunit prod.case option.case tcp
          using v1 by simp
      next
        case (Some ps)
        have b: "begun ?cn (pa_count a \<noteq> 0) dis v ps" using p(3) Some rep by simp
        show ?thesis
          unfolding play_dissected_def if_P[OF ne] dpi_desync_tcp_packet_play_def rep p(1)[unfolded Some] Option.bind.bind_lunit prod.case option.case tcp
          using out[OF tcp_handler_safe[OF E p(2) b R tcp cap, of False]] by simp
      qed
    next
      case nt: None
      show ?thesis
      proof (cases "d_udp dis = None")
        case u: False
        show ?thesis
        proof (cases r)
          case None
          show ?thesis unfolding play_dissected_def if_P[OF ne] dpi_desync_udp_packet_play_def rep p(1)[unfolded None] Option.bind.bind_lunit prod.case option.case nt
            using v1 u by simp
        next
          case (Some ps)
          have b: "begun ?cn (pa_count a \<noteq> 0) dis v ps" using p(3) Some rep by simp
          have l7: "pa_count a \<noteq> 0 \<longrightarrow> ps_l7proto ps \<noteq> L7_UNKNOWN" using a by simp
          show ?thesis
            unfolding play_dissected_def if_P[OF ne] dpi_desync_udp_packet_play_def rep p(1)[unfolded Some] Option.bind.bind_lunit prod.case option.case nt
            using out[OF udp_handler_safe[OF E p(2) b R l7 u cap, of False]] u by simp
        qed
      next
        case nu: True
        note dk = seen_dis(1)[OF s]
        have "returns ?ok (dpi_desync_icmp_packet E a dis cap w)" if "d_icmp dis \<noteq> None"
          by (rule returns_mono[OF icmp_handler_safe[OF E w s that ip cap]]) (auto intro: world_ok_mono)
        moreover have "returns ?ok (dpi_desync_ip_packet E a dis cap w)"
          by (rule returns_mono[OF ip_handler_safe[OF E w dk ip cap]]) (auto intro: world_ok_mono)
        ultimately show ?thesis unfolding play_dissected_def if_P[OF ne] nt using nu by simp
      qed
    qed
  qed
  then show ?thesis by (subst dpi_desync_packet_play.simps(2)) (simp only: dis(1) Option.bind.bind_lunit)
qed

lemma packet_safe:
  assumes E: "env_good E" and w: "world_ok (en_cache_hostname E) N w" and N: "N + 1 < 2 ^ 32" and d: "packet_ok (en_cache_hostname E) d len"
    and cap: "RECONSTRUCT_MAX_SIZE \<le> cap"
  shows "returns (\<lambda>(vm, w'). verdict_ok vm \<and> world_ok (en_cache_hostname E) (N + 1) w') (dpi_desync_packet E fwmark ifin ifout d len cap w)"
proof -
  obtain ipc prev where i: "ipcachePurgeRateLimited (en_now E) (w_ipc_prev w) (w_ipc w) (en_ipc_lifetime E) = (ipc, prev)"
    by (cases "ipcachePurgeRateLimited (en_now E) (w_ipc_prev w) (w_ipc w) (en_ipc_lifetime E)")
  have w1: "world_ok (en_cache_hostname E) N (w\<lparr>w_ipc := ipc, w_ipc_prev := prev\<rparr>)" using w by (simp add: world_ok_def)
  show ?thesis
    using play_safe[OF E w1 N d _ cap, of "\<lparr>pa_piece = 0, pa_count = 0, pa_offset = 0, pa_fwmark = fwmark, pa_ifin = ifin, pa_ifout = ifout,
       pa_tpos = None\<rparr>" 0]
    by (simp add: dpi_desync_packet_def i numeral_2_eq_2 del: dpi_desync_packet_play.simps)
qed

text \<open>The depth of the recursion: what a deeper one returns is the same.\<close>

definition le_opt :: "'a option \<Rightarrow> 'a option \<Rightarrow> bool" where
  "le_opt x y \<longleftrightarrow> (\<forall>v. x = Some v \<longrightarrow> y = Some v)"

lemma le_opt_refl: "le_opt x x"
  by (simp add: le_opt_def)

lemma le_opt_bind: "le_opt x y \<Longrightarrow> (\<And>v. le_opt (f v) (g v)) \<Longrightarrow> le_opt (x \<bind> f) (y \<bind> g)"
  by (cases x) (auto simp: le_opt_def)

lemma le_opt_if: "(b \<Longrightarrow> le_opt x y) \<Longrightarrow> (\<not> b \<Longrightarrow> le_opt x' y') \<Longrightarrow> le_opt (if b then x else x') (if b then y else y')"
  by simp

lemma le_opt_prod: "(\<And>a b. p = (a, b) \<Longrightarrow> le_opt (f a b) (g a b)) \<Longrightarrow> le_opt (case p of (a, b) \<Rightarrow> f a b) (case p of (a, b) \<Rightarrow> g a b)"
  by (cases p) simp

lemma le_opt_option: "(p = None \<Longrightarrow> le_opt x y) \<Longrightarrow> (\<And>a. p = Some a \<Longrightarrow> le_opt (f a) (g a)) \<Longrightarrow>
    le_opt (case p of None \<Rightarrow> x | Some a \<Rightarrow> f a) (case p of None \<Rightarrow> y | Some a \<Rightarrow> g a)"
  by (cases p) simp_all

lemma le_opt_delay: "le_opt x y \<Longrightarrow> le_opt x' y' \<Longrightarrow> le_opt x'' y'' \<Longrightarrow>
    le_opt (case r of GoOn \<Rightarrow> x | GiveUp \<Rightarrow> x' | Delayed \<Rightarrow> x'') (case r of GoOn \<Rightarrow> y | GiveUp \<Rightarrow> y' | Delayed \<Rightarrow> y'')"
  by (cases r) simp_all

lemmas le_opts = le_opt_bind le_opt_if le_opt_prod le_opt_option le_opt_delay le_opt_refl

definition le_player :: "'l player \<Rightarrow> 'l player \<Rightarrow> bool" where
  "le_player R S \<longleftrightarrow> (\<forall>a rp w. le_opt (R a rp w) (S a rp w))"

lemma replay_delayed_le:
  assumes "le_player R S"
  shows "le_opt (replay_delayed R c count i off s0 w) (replay_delayed S c count i off s0 w)"
proof -
  have "le_player R S \<longrightarrow> replay_delayed S c count i off s0 w = Some w'" if r: "replay_delayed R c count i off s0 w = Some w'" for w'
    using r
  proof (induction R c count i off s0 w w' rule: replay_delayed.raw_induct[rotated, consumes 1])
    case (1 rep R c count i off s0 w w')
    show ?case
    proof
      assume le: "le_player R S"
      obtain t where t: "hash_find (ct_pool (w_ct w)) c = Some t" using 1(2) by (cases "hash_find (ct_pool (w_ct w)) c") auto
      obtain r q where r: "rawpacket_dequeue (delayed t) = (r, q)" by (cases "rawpacket_dequeue (delayed t)")
      show "replay_delayed S c count i off s0 w = Some w'"
      proof (cases r)
        case None
        then show ?thesis using 1(2) t r by (subst replay_delayed.simps) simp
      next
        case (Some rp)
        let ?w = "set_track (Some c) (Some (t\<lparr>delayed := q\<rparr>)) w"
        obtain b f s1 where o: "replay_offset i off s0 rp = Some (b, f, s1)"
          using 1(2) t r Some by (cases "replay_offset i off s0 rp") auto
        let ?a = "\<lparr>pa_piece = i, pa_count = count, pa_offset = f, pa_fwmark = rp_fwmark_orig rp, pa_ifin = rp_ifin rp,
                        pa_ifout = rp_ifout rp, pa_tpos = rp_tpos rp\<rparr>"
        obtain vm w2 where p: "R ?a rp ?w = Some (vm, w2)" using 1(2) t r Some o by (cases "R ?a rp ?w") auto
        obtain g where g: "replay_send rp vm = Some g" using 1(2) t r Some o p by (cases "replay_send rp vm") auto
        have "rep R c count (i + 1) (if b then f else f + rp_len_payload rp) s1 (sends g w2) = Some w'"
          using 1(2) t r Some o p g by simp
        note again = mp[OF 1(1)[OF this] le]
        have "S ?a rp ?w = Some (vm, w2)" using le p unfolding le_player_def le_opt_def by blast
        with again show ?thesis by (subst replay_delayed.simps) (simp add: t r Some o g del: add_2_eq_Suc')
      qed
    qed
  qed
  with assms show ?thesis by (simp add: le_opt_def)
qed

lemma player_steps_le:
  assumes "le_player R S"
  shows "le_opt (replay_finish E R c w) (replay_finish E S c w)"
    and "le_opt (delay_step E R a ps complete c w) (delay_step E S a ps complete c w)"
    and "le_opt (tcp_collect E R a ps y full w) (tcp_collect E S a ps y full w)"
    and "le_opt (tcp_payload E R a ps y d n w) (tcp_payload E S a ps y d n w)"
    and "le_opt (tcp_outgoing E R a ps y w) (tcp_outgoing E S a ps y w)"
    and "le_opt (dpi_desync_tcp_packet_play E R a dis cap w) (dpi_desync_tcp_packet_play E S a dis cap w)"
    and "le_opt (quic_collect E R a ps cl n start complete2 w) (quic_collect E S a ps cl n start complete2 w)"
    and "le_opt (quic_initial E R a ps y w) (quic_initial E S a ps y w)"
    and "le_opt (udp_payload E R a ps w) (udp_payload E S a ps w)"
    and "le_opt (dpi_desync_udp_packet_play E R a dis cap w) (dpi_desync_udp_packet_play E S a dis cap w)"
    and "le_opt (play_dissected E R a dis cap w) (play_dissected E S a dis cap w)"
proof -
  note rd = replay_delayed_le[OF assms]
  have 1: "le_opt (replay_finish E R c w) (replay_finish E S c w)" for c w
    unfolding replay_finish_def by (intro le_opts rd)
  have 2: "le_opt (delay_step E R a ps complete c w) (delay_step E S a ps complete c w)" for a ps complete c w
    unfolding delay_step_def by (intro le_opts 1)
  have 3: "le_opt (tcp_collect E R a ps y full w) (tcp_collect E S a ps y full w)" for a ps y full w
    unfolding tcp_collect_def Let_def by (intro le_opts 2)
  have 4: "le_opt (tcp_payload E R a ps y d n w) (tcp_payload E S a ps y d n w)" for a ps y d n w
    unfolding tcp_payload_def Let_def by (intro le_opts 3)
  have 5: "le_opt (tcp_outgoing E R a ps y w) (tcp_outgoing E S a ps y w)" for a ps y w
    unfolding tcp_outgoing_def by (intro le_opts 4)
  have 6: "le_opt (dpi_desync_tcp_packet_play E R a dis cap w) (dpi_desync_tcp_packet_play E S a dis cap w)" for a dis cap w
    unfolding dpi_desync_tcp_packet_play_def by (intro le_opts 5)
  have 7: "le_opt (quic_collect E R a ps cl n start co w) (quic_collect E S a ps cl n start co w)" for a ps cl n start co w
    unfolding quic_collect_def by (intro le_opts 2)
  have 8: "le_opt (quic_initial E R a ps y w) (quic_initial E S a ps y w)" for a ps y w
    unfolding quic_initial_def quic_full_def quic_partial_def by (intro le_opts 7)
  have 9: "le_opt (udp_payload E R a ps w) (udp_payload E S a ps w)" for a ps w
    unfolding udp_payload_def Let_def by (intro le_opts 8)
  have 10: "le_opt (dpi_desync_udp_packet_play E R a dis cap w) (dpi_desync_udp_packet_play E S a dis cap w)" for a dis cap w
    unfolding dpi_desync_udp_packet_play_def by (intro le_opts 9)
  have 11: "le_opt (play_dissected E R a dis cap w) (play_dissected E S a dis cap w)" for a dis cap w
    unfolding play_dissected_def by (intro le_opts 6 10)
  show "le_opt (replay_finish E R c w) (replay_finish E S c w)" by (rule 1)
  show "le_opt (delay_step E R a ps complete c w) (delay_step E S a ps complete c w)" by (rule 2)
  show "le_opt (tcp_collect E R a ps y full w) (tcp_collect E S a ps y full w)" by (rule 3)
  show "le_opt (tcp_payload E R a ps y d n w) (tcp_payload E S a ps y d n w)" by (rule 4)
  show "le_opt (tcp_outgoing E R a ps y w) (tcp_outgoing E S a ps y w)" by (rule 5)
  show "le_opt (dpi_desync_tcp_packet_play E R a dis cap w) (dpi_desync_tcp_packet_play E S a dis cap w)" by (rule 6)
  show "le_opt (quic_collect E R a ps cl n start complete2 w) (quic_collect E S a ps cl n start complete2 w)" by (rule 7)
  show "le_opt (quic_initial E R a ps y w) (quic_initial E S a ps y w)" by (rule 8)
  show "le_opt (udp_payload E R a ps w) (udp_payload E S a ps w)" by (rule 9)
  show "le_opt (dpi_desync_udp_packet_play E R a dis cap w) (dpi_desync_udp_packet_play E S a dis cap w)" by (rule 10)
  show "le_opt (play_dissected E R a dis cap w) (play_dissected E S a dis cap w)" by (rule 11)
qed

lemma depth_le: "le_opt (dpi_desync_packet_play E n a d len cap w) (dpi_desync_packet_play E (Suc n) a d len cap w)"
proof (induction n arbitrary: a d len cap w)
  case 0
  show ?case by (simp add: le_opt_def)
next
  case (Suc n)
  have "le_player (\<lambda>a rp w. dpi_desync_packet_play E n a (rp_packet rp) (rp_len rp) RECONSTRUCT_MAX_SIZE w)
     (\<lambda>a rp w. dpi_desync_packet_play E (Suc n) a (rp_packet rp) (rp_len rp) RECONSTRUCT_MAX_SIZE w)"
    unfolding le_player_def using Suc by blast
  from player_steps_le(11)[OF this] show ?case
    by (subst (1 2) dpi_desync_packet_play.simps(2)) (intro le_opt_bind le_opt_refl)
qed

lemma deeper: "n \<le> m \<Longrightarrow> le_opt (dpi_desync_packet_play E n a d len cap w) (dpi_desync_packet_play E m a d len cap w)"
proof (induction m rule: dec_induct)
  case (step m)
  then show ?case using depth_le[of E m a d len cap w] by (auto simp: le_opt_def)
qed (rule le_opt_refl)

subsection \<open>Runs of the program\<close>

text \<open>
  The worlds the program reaches: packets arrive, each with its own clock and interfaces, and between them the files of the
  lists may change. The first number counts the packets; \<open>A\<close> is how the Lua machine represents numbers.
\<close>

inductive handles :: "bool \<Rightarrow> 'n lua_api \<Rightarrow> 'l world \<Rightarrow> nat \<Rightarrow> 'l world \<Rightarrow> bool"
  for cn :: bool and A :: "'n lua_api" and w0 :: "'l world" where
  begin_run: "handles cn A w0 0 w0"
| packet: "handles cn A w0 n w \<Longrightarrow> env_good E \<Longrightarrow> en_cache_hostname E = cn \<Longrightarrow> lua_numbers (en_lua E) = A \<Longrightarrow>
    packet_ok cn d len \<Longrightarrow> RECONSTRUCT_MAX_SIZE \<le> cap \<Longrightarrow>
    dpi_desync_packet E fwmark ifin ifout d len cap w = Some (vm, w') \<Longrightarrow> handles cn A w0 (Suc n) w'"
| files: "handles cn A w0 n w \<Longrightarrow> handles cn A w0 n (w\<lparr>w_ah := (w_ah w)\<lparr>ah_os := os\<rparr>\<rparr>)"

text \<open>The program starts without connections.\<close>

definition starts :: "'l world \<Rightarrow> bool" where
  "starts w \<longleftrightarrow> ct_pool (w_ct w) = [] \<and> profiles_ok (w_ah w) (w_ips w)"

lemma starts_ok: "starts w \<Longrightarrow> world_ok cn 0 w"
  by (simp add: starts_def world_ok_def)

lemma files_ok: "world_ok cn N w \<Longrightarrow> world_ok cn N (w\<lparr>w_ah := (w_ah w)\<lparr>ah_os := os\<rparr>\<rparr>)"
  by (simp add: world_ok_def profiles_ok_def auto_of_def)

lemma handles_ok:
  assumes "handles cn A w0 n w" and "starts w0"
  shows "n < 2 ^ 32 \<Longrightarrow> world_ok cn n w"
  using assms
proof (induction rule: handles.induct)
  case begin_run
  then show ?case using starts_ok by blast
next
  case (packet n w E d len cap fwmark ifin ifout vm w')
  then have "world_ok (en_cache_hostname E) n w" "n + 1 < 2 ^ 32" "packet_ok (en_cache_hostname E) d len" by simp_all
  from packet_safe[OF packet(2) this packet(6), where fwmark = fwmark and ifin = ifin and ifout = ifout] packet(3,7) show ?case by (auto simp: returns_def)
next
  case (files n w os)
  then show ?case using files_ok by blast
qed

subsection \<open>Properties\<close>

text \<open>C2: Handling a packet meets no memory fault, no abort and no endless loop, whatever the packet says: the entry of the
  program returns a verdict, a verdict to modify comes with the packet to send, and the world is again well formed; every
  connection waits for at most one packet more. Needed are, of the packet (\<open>packet_ok\<close>), that it lies in its buffer, has sane length
  fields, a TCP window scale below 32, and is no UDP packet with 12 bytes of payload while names are cached; of the buffer for the
  modified packet, at least \<open>RECONSTRUCT_MAX_SIZE\<close> bytes, as every caller has; and of the scripts (\<open>scripts_tame\<close>), that the table
  they leave is tame (theory LuaTame): the rebuilding of the packet from it is the code's own. The Lua machine, with the functions
  of the program that scripts call, is a parameter that returns.\<close>

theorem dpi_desync_packet_safe:
  assumes "env_good E" and "world_ok (en_cache_hostname E) N w" and "N + 1 < 2 ^ 32" and "packet_ok (en_cache_hostname E) d len"
    and "RECONSTRUCT_MAX_SIZE \<le> cap"
  shows "\<exists>v m w'. dpi_desync_packet E fwmark ifin ifout d len cap w = Some ((v, m), w')
    \<and> world_ok (en_cache_hostname E) (N + 1) w' \<and> (v AND VERDICT_MASK = VERDICT_MODIFY \<longrightarrow> m \<noteq> None)"
  using packet_safe[OF assms, where fwmark = fwmark and ifin = ifin and ifout = ifout] by (auto simp: returns_def verdict_ok_def)

definition sample_ah_env :: ah_env where
  "sample_ah_env = \<lparr>ae_write = (\<lambda>os n l. (True, os)), ae_alloc = True, ae_now = 0, ae_server = False\<rparr>"

definition sample_env :: "(nat, int) env" where
  "sample_env = \<lparr>en_lua = sample_lua, en_ah = sample_ah_env, en_ctrack_disable = False, en_cache_hostname = True, en_ipc_lifetime = 0,
     en_reasm_disable = push_bit (l7p_index L7P_LAST) 1,
     en_payload_disable = push_bit (l7p_index L7P_LAST) 1, en_fwmark = 0, en_now = 100, en_ip = le_ip sample_list_env, en_ssid = (\<lambda>_. None),
     en_refs = (0, 0), en_crypto = null_crypto, en_setkey = (\<lambda>_. None), en_junk = 0, en_addr = 0, en_mod = (\<lambda>_. 0), en_send = (\<lambda>_. True)\<rparr>"

definition sample_world :: "nat world" where
  "sample_world = \<lparr>w_ct = ConntrackPoolInit 0 60 60 300 60 60, w_ipc = \<lparr>ipcache4 = [], ipcache6 = []\<rparr>, w_ipc_prev = 0,
     w_ah = \<lparr>ah_profiles = [(sample_profile 80)\<lparr>lua_desync := [funclist_entry_alloc [102]]\<rparr>],
       ah_hosts = [], ah_os = le_os sample_list_env\<rparr>, w_ips = [], w_lua = 0, w_sent = []\<rparr>"

lemma sample_scripts_tame: "scripts_tame sample_lua"
  by (simp add: scripts_tame_def sample_lua_def tame_table_def lua_getfield_def lua_rawget_def lua_isnil_def lua_istable_def)

lemma sample_env_good: "env_good sample_env"
  using sample_list_env_ok null_crypto_sizes sample_scripts_tame by (simp add: env_good_def sample_env_def block16_def)

lemma sample_caches [simp]: "en_cache_hostname sample_env = True"
  by (simp add: sample_env_def)

lemma sample_numbers: "lua_numbers (en_lua sample_env) = int_api"
  by (simp add: sample_env_def sample_lua_def)

lemma sample_starts: "starts sample_world"
  by (simp add: starts_def sample_world_def ConntrackPoolInit_def profiles_ok_def stores_ok_def autolists_def sample_profile_def
    dp_init_def map_filter_def store_ok_def profile_ok_def)

lemma sample_dissected:
  "map_option (\<lambda>z. (d_tcp z, d_udp z, d_icmp z)) (proto_dissect_l3l4 sample_pkt 44 False) = Some (Some 20, None, None)"
  "tcp_find_scale_factor sample_pkt 20 = Some SCALE_NONE"
  by code_simp+

lemma sample_packet_ok: "packet_ok cn sample_pkt 44"
proof -
  obtain z where z: "proto_dissect_l3l4 sample_pkt 44 False = Some z" "d_tcp z = Some 20" "d_udp z = None" "d_icmp z = None"
    using sample_dissected(1) by auto
  have "length sample_pkt = 44" "ip_len_sane sample_pkt 44" by (simp_all add: sample_pkt_def ip_len_sane_def proto_check_ipv6_def)
  then show ?thesis using z sample_dissected(2) by (simp add: packet_ok_def)
qed

lemma dpi_desync_packet_safe_witness:
  "\<exists>v m w'. dpi_desync_packet sample_env 0 [] (lit ''eth0'') sample_pkt 44 RECONSTRUCT_MAX_SIZE sample_world = Some ((v, m), w') \<and> world_ok True 1 w'"
  using dpi_desync_packet_safe[of sample_env 0 sample_world sample_pkt 44 RECONSTRUCT_MAX_SIZE 0 "[]" "lit ''eth0''"]
    sample_env_good starts_ok[OF sample_starts, of True] sample_packet_ok[of True] sample_caches by auto

text \<open>C1: From a start without connections, the program handles any sequence of fewer than 2 to the 32 packets, with the
  files of the lists changing in between, and never faults: every further packet gets its verdict, and a verdict to modify the packet
  to send. The conditions are those of a single packet: \<open>packet_ok\<close> (in its buffer, sane length fields, window scale below 32, no
  UDP payload of 12 bytes while names are cached), a buffer of \<open>RECONSTRUCT_MAX_SIZE\<close> bytes for the modified packet, and scripts that
  leave a tame table; with a table that is not tame, rebuilding the packet can leave the buffer
  (\<open>lua_reconstruct6_overflow\<close>) or end the program.\<close>

theorem packets_never_fault:
  assumes "starts w0" and "handles cn A w0 n w" and "n + 1 < 2 ^ 32" and "env_good E" and "en_cache_hostname E = cn" and "packet_ok cn d len"
    and "RECONSTRUCT_MAX_SIZE \<le> cap"
  shows "\<exists>v m w'. dpi_desync_packet E fwmark ifin ifout d len cap w = Some ((v, m), w') \<and> (v AND VERDICT_MASK = VERDICT_MODIFY \<longrightarrow> m \<noteq> None)"
proof -
  have "world_ok cn n w" using handles_ok[OF assms(2,1)] assms(3) by simp
  from packet_safe[OF assms(4) _ _ _ assms(7), where N = n and w = w and d = d and len = len and fwmark = fwmark and ifin = ifin and ifout = ifout] this assms(3,5,6) show ?thesis
    by (auto simp: returns_def verdict_ok_def)
qed

lemma packets_never_fault_witness:
  "\<exists>v m w'. dpi_desync_packet sample_env 0 [] (lit ''eth0'') sample_pkt 44 RECONSTRUCT_MAX_SIZE
     (sample_world\<lparr>w_ah := (w_ah sample_world)\<lparr>ah_os := sample_os CannotOpen 0\<rparr>\<rparr>) = Some ((v, m), w')"
proof -
  have "handles True int_api sample_world 0 (sample_world\<lparr>w_ah := (w_ah sample_world)\<lparr>ah_os := sample_os CannotOpen 0\<rparr>\<rparr>)"
    by (rule handles.files[OF handles.begin_run])
  from packets_never_fault[OF sample_starts this _ sample_env_good sample_caches sample_packet_ok, of RECONSTRUCT_MAX_SIZE 0 "[]" "lit ''eth0''"]
  show ?thesis by auto
qed

text \<open>C4: In every world the program reaches, packets wait for a connection only while a hello is collected for it and its
  protocol is known; there are at most as many as packets have been handled, and each of them, dissected again, belongs to
  this connection in the direction of its client. The buffer of the reassembly has the size it claims.\<close>

theorem waiting_packets:
  assumes "starts w0" and "handles cn A w0 n w" and "n < 2 ^ 32"
  shows "\<forall>(c, t)\<in>set (ct_pool (w_ct w)).
    length (delayed t) \<le> n \<and> (delayed t \<noteq> [] \<longrightarrow> \<not> ReasmIsEmpty (reasm_client t) \<and> l7proto t \<noteq> L7_UNKNOWN)
    \<and> (\<forall>rp\<in>set (delayed t). \<exists>dis. proto_dissect_l3l4 (rp_packet rp) (rp_len rp) False = Some dis
          \<and> ConntrackExtractConn False dis = Some (True, c))
    \<and> length (r_packet (reasm_client t)) = r_size (reasm_client t) \<and> r_present (reasm_client t) \<le> r_size (reasm_client t)"
proof -
  have w: "world_ok cn n w" using handles_ok[OF assms(2,1)] assms(3) by simp
  have "track_ok cn (auto_of (w_ah w)) n c t" if "(c, t) \<in> set (ct_pool (w_ct w))" for c t
    using w that by (auto simp: world_ok_def)
  then show ?thesis by (fastforce simp: track_ok_def queue_ok_def waiting_ok_def reasm_shape_def)
qed

lemma waiting_packets_witness:
  "\<exists>w. handles True int_api sample_world 1 w \<and> (\<forall>(c, t)\<in>set (ct_pool (w_ct w)). length (delayed t) \<le> 1)"
proof -
  obtain v m w' where p: "dpi_desync_packet sample_env 0 [] (lit ''eth0'') sample_pkt 44 RECONSTRUCT_MAX_SIZE sample_world = Some ((v, m), w')"
    using packet_safe[of sample_env 0 sample_world sample_pkt 44 RECONSTRUCT_MAX_SIZE 0 "[]" "lit ''eth0''"]
      sample_env_good starts_ok[OF sample_starts, of True] sample_packet_ok[of True] sample_caches by (auto simp: returns_def)
  have h: "handles True int_api sample_world (Suc 0) w'"
    by (rule handles.packet[OF handles.begin_run sample_env_good sample_caches sample_numbers sample_packet_ok order_refl p])
  with waiting_packets[OF sample_starts h] show ?thesis by (intro exI[of _ w']) auto
qed

subsection \<open>All waiting packets are played\<close>

text \<open>Playing a list of packets one after the other; the queue of the connection holds those still to be played.\<close>

primrec play_all :: "'l player \<Rightarrow> conn \<Rightarrow> nat \<Rightarrow> nat \<Rightarrow> nat \<Rightarrow> u32 option \<Rightarrow> rawpacket list \<Rightarrow> 'l world \<Rightarrow> 'l world option" where
  "play_all R c count i off s0 [] w = Some w"
| "play_all R c count i off s0 (rp # rps) w = do {
     t \<leftarrow> hash_find (ct_pool (w_ct w)) c;
     (bseq, off, s0) \<leftarrow> replay_offset i off s0 rp;
     (vm, w) \<leftarrow> R \<lparr>pa_piece = i, pa_count = count, pa_offset = off, pa_fwmark = rp_fwmark_orig rp, pa_ifin = rp_ifin rp,
                   pa_ifout = rp_ifout rp, pa_tpos = rp_tpos rp\<rparr> rp (set_track (Some c) (Some (t\<lparr>delayed := rps\<rparr>)) w);
     g \<leftarrow> replay_send rp vm;
     play_all R c count (i + 1) (if bseq then off else off + rp_len_payload rp) s0 rps (sends g w) }"

lemma replay_delayed_plays:
  assumes R: "player_ok cn N R" and count: "count \<noteq> 0"
  shows "world_ok cn N w \<Longrightarrow> holds w (Some c) (Some t) \<Longrightarrow> (i \<noteq> 0 \<and> c_l4proto c = IPPROTO_TCP \<longrightarrow> s0 \<noteq> None) \<Longrightarrow>
    replay_delayed R c count i off s0 w = play_all R c count i off s0 (delayed t) w"
proof (induction "delayed t" arbitrary: w t i off s0)
  case Nil
  have "hash_find (ct_pool (w_ct w)) c = Some t" using Nil.prems(2) by (simp add: holds_iff)
  then show ?case by (subst replay_delayed.simps) (simp add: rawpacket_dequeue_def Nil.hyps[symmetric])
next
  case (Cons rp q)
  have ht: "hash_find (ct_pool (w_ct w)) c = Some t" using Cons.prems(2) by (simp add: holds_iff)
  have tk: "track_ok cn (auto_of (w_ah w)) N c t" using holds_ok[OF Cons.prems(1,2)] by (simp add: tr_ok_def)
  have dq: "rawpacket_dequeue (delayed t) = (Some rp, q)" by (simp add: rawpacket_dequeue_def Cons.hyps(2)[symmetric])
  have wq: "waiting_ok cn c rp" "queue_ok cn N c q" "l7proto t \<noteq> L7_UNKNOWN"
    using tk by (auto simp: track_ok_def queue_ok_def Cons.hyps(2)[symmetric])
  let ?t = "t\<lparr>delayed := q\<rparr>" and ?w = "set_track (Some c) (Some (t\<lparr>delayed := q\<rparr>)) w"
  have "track_ok cn (auto_of (w_ah w)) N c ?t" using tk wq by (simp add: track_ok_def fails_ok_def Cons.hyps(2)[symmetric])
  then have w1: "world_ok cn N ?w" by (intro world_ok_set Cons.prems(1)) (simp add: tr_ok_def)
  have h1: "holds ?w (Some c) (Some ?t)" by (rule holds_set[OF Cons.prems(2)]) simp
  obtain b f s1 where o: "replay_offset i off s0 rp = Some (b, f, s1)" "c_l4proto c = IPPROTO_TCP \<longrightarrow> s1 \<noteq> None"
    using replay_offset_safe[OF wq(1) Cons.prems(3), of off] by blast
  let ?a = "\<lparr>pa_piece = i, pa_count = count, pa_offset = f, pa_fwmark = rp_fwmark_orig rp, pa_ifin = rp_ifin rp,
                        pa_ifout = rp_ifout rp, pa_tpos = rp_tpos rp\<rparr>"
  have "returns (\<lambda>(vm, w'). verdict_ok vm \<and> world_ok cn N w' \<and> stays (Some c) ?w w') (R ?a rp ?w)"
    using R w1 wq(1) h1 wq(3) count unfolding player_ok_def by fastforce
  then obtain vm w2 where r: "R ?a rp ?w = Some (vm, w2)" "verdict_ok vm" "world_ok cn N w2" "stays (Some c) ?w w2" by (auto simp: returns_def)
  obtain g where g: "replay_send rp vm = Some g" using replay_send_safe[OF r(2)] by blast
  obtain u where u: "holds w2 (Some c) u" "keeps (Some ?t) u" using r(4) h1 unfolding stays_def by blast
  then obtain t2 where t2: "holds w2 (Some c) (Some t2)" "q = delayed t2" by (cases u) (auto simp: keeps_def)
  have U: "replay_delayed R c count i off s0 w = replay_delayed R c count (i + 1) (if b then f else f + rp_len_payload rp) s1 (sends g w2)"
    by (subst replay_delayed.simps) (simp add: ht dq o(1) r(1) g)
  have "replay_delayed R c count (i + 1) (if b then f else f + rp_len_payload rp) s1 (sends g w2)
      = play_all R c count (i + 1) (if b then f else f + rp_len_payload rp) s1 (delayed t2) (sends g w2)"
    by (rule Cons.hyps(1)[OF t2(2)]) (use r(3) t2(1) o(2) in simp_all)
  then show ?case unfolding U t2(2)[symmetric] Cons.hyps(2)[symmetric] by (simp add: ht o(1) r(1) g)
qed

lemma cancel_clears:
  assumes "holds w (Some c) (Some t)" and "reasm_client_cancel E (Some c) w = Some w'"
  shows "\<exists>t'. hash_find (ct_pool (w_ct w')) c = Some t' \<and> delayed t' = [] \<and> ReasmIsEmpty (reasm_client t')"
proof -
  obtain t' sent where s: "reasm_client_stop E t = (t', sent)" by (cases "reasm_client_stop E t")
  have g: "get_track w (Some c) = Some (Some t)" using assms(1) by (simp add: holds_def)
  have w': "w' = sends sent (set_track (Some c) (Some t') w)" using assms(2) g s by (simp add: reasm_client_cancel_def)
  have "holds w' (Some c) (Some t')" unfolding w' using holds_set[OF assms(1), of "Some t'"] by simp
  moreover have "delayed t' = [] \<and> ReasmIsEmpty (reasm_client t')"
    using s by (cases "ReasmIsEmpty (reasm_client t)"; cases "delayed t = []")
      (auto simp: reasm_client_stop_def send_delayed_def rawpacket_queue_empty_def rawsend_queue_def rawsend_loop_all Let_def
        ReasmClear_def ReasmIsEmpty_def)
  ultimately show ?thesis by (auto simp: holds_iff)
qed

text \<open>C3: When a hello is complete, every packet that waits for it is played, once and in the order of arrival: replaying is
  playing the list the queue held at its start, and none of them is queued again. Afterwards nothing waits any more, and
  the reassembly is over.\<close>

theorem replay_plays_all:
  assumes "env_good E" and "world_ok (en_cache_hostname E) N w" and "N < 2 ^ 32" and "hash_find (ct_pool (w_ct w)) c = Some t"
    and "R = (\<lambda>a rp w. dpi_desync_packet_play E (Suc n) a (rp_packet rp) (rp_len rp) RECONSTRUCT_MAX_SIZE w)"
  shows "\<exists>w1 w' t'. play_all R c (length (delayed t)) 0 0 None (delayed t) w = Some w1 \<and> reasm_client_fin E (Some c) w1 = Some w'
    \<and> replay_finish E R c w = Some w' \<and> hash_find (ct_pool (w_ct w')) c = Some t' \<and> delayed t' = [] \<and> ReasmIsEmpty (reasm_client t')"
proof -
  let ?cn = "en_cache_hostname E"
  have R: "player_ok ?cn N R" unfolding assms(5) by (rule player_safe[OF assms(1) order_refl])
  have h: "holds w (Some c) (Some t)" using assms(4) by (simp add: holds_iff)
  have tk: "track_ok ?cn (auto_of (w_ah w)) N c t" using holds_ok[OF assms(2) h] by (simp add: tr_ok_def)
  have n: "unat (rawpacket_queue_count (delayed t)) = length (delayed t)"
    using tk assms(3) by (simp add: rawpacket_queue_count_length track_ok_def queue_ok_def unsigned_of_nat take_bit_nat_eq_self)
  obtain w' where f: "replay_finish E R c w = Some w'" using returns_exists[OF replay_finish_safe[OF R assms(3,2) h, of E]] by blast
  obtain w1 where r: "replay_delayed R c (length (delayed t)) 0 0 None w = Some w1" "reasm_client_cancel E (Some c) w1 = Some w'"
    using f by (cases "replay_delayed R c (length (delayed t)) 0 0 None w") (simp_all add: replay_finish_def assms(4) n reasm_client_fin_def)
  have p: "play_all R c (length (delayed t)) 0 0 None (delayed t) w = Some w1" and h1: "\<exists>t1. holds w1 (Some c) (Some t1)"
  proof -
    have "replay_delayed R c (length (delayed t)) 0 0 None w = play_all R c (length (delayed t)) 0 0 None (delayed t) w
       \<and> (\<exists>t1. holds w1 (Some c) (Some t1))"
    proof (cases "delayed t = []")
      case True
      then have "replay_delayed R c (length (delayed t)) 0 0 None w = Some w"
        by (subst replay_delayed.simps) (simp add: rawpacket_dequeue_def assms(4))
      with r(1) True h show ?thesis by auto
    next
      case False
      then have z: "length (delayed t) \<noteq> 0" by simp
      have i: "(0 :: nat) \<noteq> 0 \<and> c_l4proto c = IPPROTO_TCP \<longrightarrow> None \<noteq> (None :: u32 option)" by simp
      have "\<exists>t1. holds w1 (Some c) (Some t1)"
        using returns_exists[OF replay_delayed_safe[OF R z assms(2) h i, of 0]] r(1) by auto
      with replay_delayed_plays[OF R z assms(2) h i, of 0] show ?thesis by blast
    qed
    with r(1) show "play_all R c (length (delayed t)) 0 0 None (delayed t) w = Some w1" "\<exists>t1. holds w1 (Some c) (Some t1)" by simp_all
  qed
  from h1 obtain t1 where "holds w1 (Some c) (Some t1)" ..
  from cancel_clears[OF this r(2)] p r(2) f show ?thesis by (auto simp: reasm_client_fin_def)
qed

text \<open>C5: Replaying never nests: a packet of the network is handled at depth two of the recursion (the packet itself, and the
  packets that waited for it), and no greater depth gives another result. The bound the model puts on the recursion of
  the code is none. The conditions are those of the safety of a packet.\<close>

theorem replay_depth_two:
  assumes "env_good E" and "world_ok (en_cache_hostname E) N w" and "N + 1 < 2 ^ 32" and "packet_ok (en_cache_hostname E) d len"
    and "pa_count a = 0" and "RECONSTRUCT_MAX_SIZE \<le> cap" and "2 \<le> n"
  shows "dpi_desync_packet_play E n a d len cap w = dpi_desync_packet_play E 2 a d len cap w
    \<and> dpi_desync_packet_play E n a d len cap w \<noteq> None"
proof -
  obtain r where r: "dpi_desync_packet_play E 2 a d len cap w = Some r"
    using play_safe[OF assms(1-6), of 0] by (auto simp: returns_def numeral_2_eq_2 simp del: dpi_desync_packet_play.simps)
  with deeper[OF assms(7), of E a d len cap w] show ?thesis by (simp add: le_opt_def)
qed

lemma replay_depth_two_witness:
  "dpi_desync_packet_play sample_env 9 \<lparr>pa_piece = 0, pa_count = 0, pa_offset = 0, pa_fwmark = 0, pa_ifin = [], pa_ifout = lit ''eth0'',
     pa_tpos = None\<rparr> sample_pkt 44 RECONSTRUCT_MAX_SIZE sample_world \<noteq> None"
proof -
  let ?a = "\<lparr>pa_piece = 0, pa_count = 0, pa_offset = 0, pa_fwmark = 0, pa_ifin = [], pa_ifout = lit ''eth0'', pa_tpos = None\<rparr>"
  have "world_ok (en_cache_hostname sample_env) 0 sample_world" by (rule starts_ok[OF sample_starts])
  from conjunct2[OF replay_depth_two[OF sample_env_good this _ sample_packet_ok, of ?a RECONSTRUCT_MAX_SIZE 9]] show ?thesis by simp
qed

definition sample_conn :: conn where
  "sample_conn = (case proto_dissect_l3l4 sample_pkt 44 False of Some z \<Rightarrow>
     (case ConntrackExtractConn False z of Some (ok, c) \<Rightarrow> c | None \<Rightarrow> undefined) | None \<Rightarrow> undefined)"

lemma sample_extract:
  "map_option (\<lambda>z. map_option (\<lambda>(ok, c). (ok, c_l4proto c)) (ConntrackExtractConn False z)) (proto_dissect_l3l4 sample_pkt 44 False)
    = Some (Some (True, IPPROTO_TCP))"
  by code_simp

definition sample_waiting :: rawpacket where
  "sample_waiting = \<lparr>rp_dst = SA_OTHER, rp_ifin = [], rp_ifout = lit ''eth0'', rp_fwmark_orig = 0, rp_fwmark = 0, rp_len = 44, rp_len_payload = 0,
     rp_packet = sample_pkt, rp_tpos = Some (positions_null\<lparr>ipproto := IPPROTO_TCP\<rparr>), rp_server_side = False\<rparr>"

definition sample_track :: ctrack where
  "sample_track = (ConntrackInitTrack (0, 0))\<lparr>l7proto := L7_TLS, delayed := [sample_waiting],
     reasm_client := \<lparr>r_packet = [0,0,0,0,0], r_seq = 0, r_size = 5, r_present = 0\<rparr>, pos := positions_null\<lparr>ipproto := IPPROTO_TCP\<rparr>\<rparr>"

lemma sample_waiting_ok: "waiting_ok cn sample_conn sample_waiting" "c_l4proto sample_conn = IPPROTO_TCP"
proof -
  obtain z c where z: "proto_dissect_l3l4 sample_pkt 44 False = Some z" "ConntrackExtractConn False z = Some (True, c)" "c_l4proto c = IPPROTO_TCP"
    using sample_extract by auto
  have c: "sample_conn = c" by (simp add: sample_conn_def z)
  obtain z' where z': "proto_dissect_l3l4 sample_pkt 44 False = Some z'" "data_pkt z' = sample_pkt"
    using proto_dissect_safe[of 44 sample_pkt False] sample_packet_ok[of cn] by (auto simp: packet_ok_def)
  then have "seen cn z" using sample_packet_ok[of cn] z(1) by (auto simp: seen_def)
  note d = seen_dis(1)[OF this]
  show "waiting_ok cn sample_conn sample_waiting" "c_l4proto sample_conn = IPPROTO_TCP"
    using z d by (simp_all add: waiting_ok_def sample_waiting_def c) (simp add: sample_pkt_def)
qed

definition sample_hello_world :: "nat world" where
  "sample_hello_world = sample_world\<lparr>w_ct := (w_ct sample_world)\<lparr>ct_pool := [(sample_conn, sample_track)]\<rparr>\<rparr>"

lemma sample_track_ok: "track_ok cn autos 1 sample_conn sample_track"
  using sample_waiting_ok
  by (simp add: track_ok_def sample_track_def reasm_shape_def fails_ok_def pos_ok_def queue_ok_def ConntrackInitTrack_def
    positions_null_def position_null_def ReasmIsEmpty_def rawpacket_queue_init_def)

lemma sample_hello_ok: "world_ok cn 1 sample_hello_world"
  using starts_ok[OF sample_starts, of cn] sample_track_ok by (simp add: world_ok_def sample_hello_world_def)

lemma replay_plays_all_witness:
  "hash_find (ct_pool (w_ct sample_hello_world)) sample_conn = Some sample_track \<and> length (delayed sample_track) = 1
     \<and> (\<exists>w' t'. replay_finish sample_env (\<lambda>a rp w. dpi_desync_packet_play sample_env (Suc 0) a (rp_packet rp) (rp_len rp) RECONSTRUCT_MAX_SIZE w)
           sample_conn sample_hello_world = Some w' \<and> hash_find (ct_pool (w_ct w')) sample_conn = Some t' \<and> delayed t' = [])"
proof -
  have f: "hash_find (ct_pool (w_ct sample_hello_world)) sample_conn = Some sample_track"
    by (simp add: sample_hello_world_def)
  from replay_plays_all[OF sample_env_good sample_hello_ok _ f refl, of 0] show ?thesis
    using f by (auto simp: sample_track_def)
qed

end
