(* ===== verification/Spec2Isabelle.thy ===== *)
theory Spec2Isabelle
  imports Conntrack Filters TlsMod QuicOpen Probe Dns Desync AutoHost PacketSafe LuaWhole
begin

text \<open>
  Verification of zapret2, the part of \<open>nfqws2\<close> that looks at packets and decides.

  The program takes packets from the kernel, dissects them, keeps a table of connections, recognises the
  protocol of a payload, collects payloads that are spread over packets, and hands what it found to
  desynchronisation scripts. This development models the C code of that path as HOL functions and proves it
  correct; the sources are under src/nfq2 unless another directory is named.

  \<^bold>\<open>Conventions.\<close> A C integer is a word of its width; \<open>size_t\<close> is a natural number, and where the code
  subtracts or adds without a guard the wrap-around modulo 2^64 is written out. A buffer is the list of the
  bytes that may be read through its pointer (Prelude); pointers into it are offsets. A read or a write outside
  the list, or another step the C standard leaves undefined, is the value \<open>None\<close>, so that \<open>f x \<noteq> None\<close>, or
  \<open>returns P (f x)\<close>, is memory safety of \<open>f\<close> together with its result. A C function that returns false or a
  null pointer returns \<open>False\<close>, or \<open>None\<close> under the outer \<open>Some\<close>. \<open>cand\<close> and \<open>cor\<close> are the short-circuit
  connectives. The host is taken to be little endian, as all the supported ones are.

  \<^bold>\<open>Theories, and what they model.\<close>
  \<^item> \<^bold>\<open>Prelude\<close>: checked access, scanning loops, the rules \<open>wp\<close> that compute preconditions.
  \<^item> \<^bold>\<open>Bytes\<close> (helpers.c): big-endian fields, byte swaps, the sequence-number window; one locale for the
    codec of every width, with its read-after-write laws.
  \<^item> \<^bold>\<open>Checksum\<close> (checksum.c, all of it): the Internet checksum with every alignment branch, and the fixups of
    IPv4, TCP, UDP, ICMP. The sum is shown equal to the ones' complement sum of the 16-bit words, and a fixed
    header verifies; the cases where it does not are findings.
  \<^item> \<^bold>\<open>Helpers\<close> (helpers.c): string search, uniqueness of sorted arrays, hexadecimal parsing, bit copying,
    random fills, socket addresses.
  \<^item> \<^bold>\<open>Filters\<close> (filter.c, the filter lists of pools.c): port, ICMP, IP-protocol and CIDR filters; a locale for
    a list of filters, interpreted for each kind.
  \<^item> \<^bold>\<open>Dissect\<close> (darkmagic.c): header checks, the IPv6 extension walk, TCP options, \<open>proto_dissect_l3l4\<close>,
    reversal of a packet. Safety for every input whose length fits the conditions named there.
  \<^item> \<^bold>\<open>PacketQueue\<close> (packet_queue.c): the queue as an instance of a fifo locale, its sending, and the offset of a
    replayed packet (desync.c 2208-2216); the replay itself is in the theory Packet.
  \<^item> \<^bold>\<open>L7\<close> (protocol.c 1-249): names of protocols, payloads and position markers, second-level domains.
  \<^item> \<^bold>\<open>Http\<close>, \<^bold>\<open>Tls\<close>, \<^bold>\<open>TlsMod\<close>, \<^bold>\<open>Recognise\<close>, \<^bold>\<open>AesCtr\<close> (protocol.c, crypto/aes-ctr.c): HTTP
    requests and replies, TLS hellos with their extension search, the rewriting of a TLS fake, the recognisers
    of the short payloads, counter mode and the MTProto test.
  \<^item> \<^bold>\<open>Quic\<close>, \<^bold>\<open>QuicReasm\<close>, \<^bold>\<open>QuicOpen\<close> (protocol.c): the QUIC Initial packet: recognition, key
    schedule, removal of the header protection, decryption, reassembly of the CRYPTO frames.
  \<^item> \<^bold>\<open>Hash\<close>: the hash tables of uthash.h as lists in the order of insertion, under a keyed-store locale.
  \<^item> \<^bold>\<open>Conntrack\<close> (conntrack.c): the connection pool, the TCP state machine, sequence tracking and the stream
    reassembler. The dump functions only print.
  \<^item> \<^bold>\<open>Probe\<close> (desync.c): the tables of recognisers for UDP payloads, TCP replies and TCP requests, and the
    loop that takes the first one that accepts.
  \<^item> \<^bold>\<open>Ipcache\<close> (pools.c 974-1202, desync.c 708-803): what is remembered of an address (name, hop count), with its
    rate limited purge, as a step relation and an invariant of the reachable caches.
  \<^item> \<^bold>\<open>Dns\<close> (desync.c 1647-1782): names, questions and answers of a DNS response, and the names they put into
    the address cache, against an independent encoder of responses.
  \<^item> \<^bold>\<open>ListFile\<close>, \<^bold>\<open>Hostlist\<close>, \<^bold>\<open>Ipset\<close> (hostlist.c, ipset.c, pools.c): lists kept in files. One theory for the
    store of files, their reload and the search through collections, with the locale \<open>line_reading\<close> for the line
    readers; the host lists and the address sets interpret it. A plain file is read through the line buffer of the code, which
    splits longer lines. The tree of prefixes is shown equal to the set of addresses
    its blocks cover.
  \<^item> \<^bold>\<open>Profile\<close> (params.c, pools.c, desync.c 205-316): profiles, their lists and templates, and the search for the
    profile of a packet, over the reloading of the lists.
  \<^item> \<^bold>\<open>Desync\<close> (desync.c 644-703, 807-1106): position ranges, cutoff, and the run of the functions of a profile over
    an arbitrary Lua machine, refined against the relation \<open>runs\<close> of the calls it may make; a modified packet is
    rebuilt from the table with the code of LuaPacket, and a fault or an unprotected error of it is a fault of \<open>desync\<close>.
  \<^item> \<^bold>\<open>AutoHost\<close> (desync.c 318-519, 1466-1510): detection of failing hosts, the reset sent to a retransmitter, and
    the learning of a host.
  \<^item> \<^bold>\<open>Play\<close>, \<^bold>\<open>Packet\<close> (desync.c 521-642, 1110-1617, 1784-2242): the world, and the path of a packet through it:
    connection and profile, reassembly of a hello with the delaying and the replay of its packets, the second look at
    the profile, the handlers of the protocols.
  \<^item> \<^bold>\<open>FailSafe\<close>, \<^bold>\<open>Redissect\<close>, \<^bold>\<open>WorldOk\<close>, \<^bold>\<open>PlaySafe\<close>, \<^bold>\<open>HandlerSafe\<close>, \<^bold>\<open>ProtoSafe\<close>: the safety of
    the path, by its steps. The invariant \<open>world_ok\<close> says of every connection that its profile exists, its buffer has
    the size it claims, and its waiting packets dissect to this connection; each step of a handler is shown to keep it and
    not to fault (failure detection, dissection of a copy, the table of connections, prolog and profile search, delaying
    and replay, the handlers of the protocols).
  \<^item> \<^bold>\<open>PacketSafe\<close>: the whole: every packet gets a verdict, after any history (relation \<open>handles\<close>); the replay plays
    all waiting packets in order; a deeper recursion changes nothing.
  \<^item> \<^bold>\<open>LuaVal\<close>, \<^bold>\<open>LuaPacket\<close> (lua.c 57-620, 1109-1650, 1827-2830, lua.h): the values scripts exchange with the code,
    the functions on numbers and strings, and packets as tables: the table of a dissected packet, and the packet put
    together from a table. What Lua does with its numbers is the record \<open>lua_api\<close>.
  \<^item> \<^bold>\<open>LuaRound\<close>, \<^bold>\<open>LuaWhole\<close>: a header, and a whole packet, that becomes a table becomes the same again; a table of a
    script never makes the C code leave its buffer for IPv4, and can for IPv6.
  \<^item> \<^bold>\<open>LuaTame\<close>: which tables never make it fault or raise an error; the safety of the packet path asks the scripts for
    such tables (\<open>scripts_tame\<close> in WorldOk) and the callers for a buffer of \<open>RECONSTRUCT_MAX_SIZE\<close> bytes, which they have.

  \<^bold>\<open>What the lemmas show.\<close> For each parser: it is safe on every input (the \<open>_wp\<close> lemmas and the
  \<open>_safe\<close> theorems), and it finds what is there (encode/decode round trips against independent encoders). For
  each piece of state: the invariant that every operation keeps, and what a lookup returns after an
  operation. For optimised code (checksums, byte-parallel operations, the MTProto shortcut): equality with the
  direct definition.

  \<^bold>\<open>Loops, bounds.\<close> Every loop is a recursive function with a termination proof by a measure, usually the
  distance of the offset from the end of the buffer. The recursion of \<open>dpi_desync_packet_play\<close> through the replay of
  delayed packets is on a depth, of which the entry gives 2: a replayed packet never replays. Hypotheses such as a buffer length below
  2^16 or 2^63 are the limits of the types that carry it.

  \<^bold>\<open>Parameters.\<close> Code that is not under src/ or is a third-party library kept there is an argument of the
  definitions that use it: the block cipher, GCM and HKDF (record \<open>quic_crypto\<close>, \<open>setkey\<close>), the random
  generator (a list of bytes), \<open>inet_pton\<close> and \<open>inet_ntop\<close>, raw sending, the Lua verdict, the clock, the
  addresses of buffers where alignment matters. What a property needs of one is a named hypothesis, and its
  witness instantiates the parameter.

  \<^bold>\<open>Not modelled.\<close> lua.c is a binding layer of the Lua machine, nfqws.c an option table and
  event loops around kernel sockets; the rest of darkmagic.c, sec.c, win.c and gzip.c is operating-system and
  zlib input and output; crypto/ apart from aes-ctr.c is third-party; uthash.h and kavl.h are third-party
  headers, whose contract the theories state. A Lua function may feed the connection table itself (\<open>conntrack_feed\<close>), which the
  run of the functions leaves out. Messages for the log are left out everywhere.
\<close>

end
